(* ===== verification/Prelude.thy ===== *)
theory Prelude
  imports Main "HOL-Library.Word" "HOL-Library.Monad_Syntax"
begin

section \<open>Shared vocabulary of the development\<close>

text \<open>
  Type names, the pieces of Rust's standard library that the modelled code uses, and the generic
  lemmas the component theories share.

  Conventions. A Rust expression that may panic (an \<open>unwrap\<close> of \<open>None\<close>, an index out of range, a
  failed \<open>assert!\<close>, a fixed-capacity vector that overflows, a checked subtraction that underflows)
  is modelled by an \<open>option\<close> value with \<open>None\<close> for the panic, and sequencing is the option monad.
  Where the source itself returns an \<open>Option\<close>, the panic layer is the outer one. Lengths and
  offsets of type \<open>usize\<close> are \<open>nat\<close>; \<open>u16\<close>, \<open>u32\<close> and \<open>u64\<close> values whose wrap-around or width
  matters are words.
\<close>

type_synonym u16 = "16 word"
type_synonym u32 = "32 word"
type_synonym u64 = "64 word"

text \<open>The facts that give the meaning of an operation in terms of an abstraction.\<close>

named_theorems abs_simps \<open>abstraction equations used by the refinement proofs\<close>

subsection \<open>std::cmp::Ordering\<close>

datatype ordering = Less | Equal | Greater

definition cmp :: "'a::linorder \<Rightarrow> 'a \<Rightarrow> ordering" where
  "cmp a b = (if a < b then Less else if a = b then Equal else Greater)"

fun then_with :: "ordering \<Rightarrow> ordering \<Rightarrow> ordering" where
  "then_with Equal y = y"
| "then_with x y = x"

lemma cmp_simps [simp]:
  "cmp a b = Less \<longleftrightarrow> a < b"
  "cmp a b = Equal \<longleftrightarrow> a = b"
  "cmp a b = Greater \<longleftrightarrow> b < a"
  by (auto simp: cmp_def)

lemma then_with_Less [simp]: "then_with x y = Less \<longleftrightarrow> x = Less \<or> x = Equal \<and> y = Less"
  by (cases x) auto

lemma then_with_Equal [simp]: "then_with x y = Equal \<longleftrightarrow> x = Equal \<and> y = Equal"
  by (cases x) auto

lemma then_with_Greater [simp]:
  "then_with x y = Greater \<longleftrightarrow> x = Greater \<or> x = Equal \<and> y = Greater"
  by (cases x) auto

subsection \<open>Vectors\<close>

text \<open>\<open>slice::get\<close>: the element, or nothing when the index is out of range.\<close>

definition vec_get :: "'a list \<Rightarrow> nat \<Rightarrow> 'a option" where
  "vec_get xs i = (if i < length xs then Some (xs ! i) else None)"

text \<open>\<open>Vec::resize\<close>: truncate or pad with a value.\<close>

definition vec_resize :: "'a list \<Rightarrow> nat \<Rightarrow> 'a \<Rightarrow> 'a list" where
  "vec_resize xs n v = take n xs @ replicate (n - length xs) v"

text \<open>
  \<open>for (left, right) in xs.iter_mut().zip(ys)\<close> assigning \<open>f left right\<close> to \<open>left\<close>: only the common
  prefix is written.
\<close>

definition zip_update :: "('a \<Rightarrow> 'b \<Rightarrow> 'a) \<Rightarrow> 'a list \<Rightarrow> 'b list \<Rightarrow> 'a list" where
  "zip_update f xs ys = map2 f xs ys @ drop (length ys) xs"

text \<open>\<open>iter().rposition(p)\<close>: the index of the last element that satisfies a predicate.\<close>

fun rposition :: "('a \<Rightarrow> bool) \<Rightarrow> 'a list \<Rightarrow> nat option" where
  "rposition p [] = None"
| "rposition p (x # xs) =
     (case rposition p xs of Some i \<Rightarrow> Some (Suc i)
      | None \<Rightarrow> (if p x then Some 0 else None))"

text \<open>\<open>Vec::last\<close> and \<open>Vec::remove\<close>.\<close>

definition vec_last :: "'a list \<Rightarrow> 'a option" where
  "vec_last xs = (if xs = [] then None else Some (last xs))"

definition vec_remove :: "'a list \<Rightarrow> nat \<Rightarrow> 'a list" where
  "vec_remove xs i = take i xs @ drop (Suc i) xs"

text \<open>Checked subtraction on unsigned integers: a panic when the result would be negative.\<close>

definition checked_sub :: "nat \<Rightarrow> nat \<Rightarrow> nat option" where
  "checked_sub a b = (if b \<le> a then Some (a - b) else None)"

lemma checked_sub_Some [simp]: "b \<le> a \<Longrightarrow> checked_sub a b = Some (a - b)"
  by (simp add: checked_sub_def)

lemma vec_get_Some [simp]: "vec_get xs i = Some x \<longleftrightarrow> i < length xs \<and> xs ! i = x"
  by (auto simp: vec_get_def)

lemma vec_get_None [simp]: "vec_get xs i = None \<longleftrightarrow> length xs \<le> i"
  by (auto simp: vec_get_def)

lemma length_vec_resize [simp]: "length (vec_resize xs n v) = n"
  by (auto simp: vec_resize_def)

lemma nth_vec_resize [simp]:
  "i < n \<Longrightarrow> vec_resize xs n v ! i = (if i < length xs then xs ! i else v)"
  by (auto simp: vec_resize_def nth_append)

lemma vec_resize_longer: "length xs \<le> n \<Longrightarrow> vec_resize xs n v = xs @ replicate (n - length xs) v"
  by (simp add: vec_resize_def)

lemma length_zip_update [simp]: "length (zip_update f xs ys) = length xs"
  by (auto simp: zip_update_def)

lemma nth_zip_update:
  "i < length xs \<Longrightarrow>
   zip_update f xs ys ! i = (if i < length ys then f (xs ! i) (ys ! i) else xs ! i)"
  by (auto simp: zip_update_def nth_append min_def)

lemma vec_last_snoc [simp]: "vec_last (xs @ [x]) = Some x"
  by (simp add: vec_last_def)

lemma vec_last_Nil [simp]: "vec_last [] = None"
  by (simp add: vec_last_def)

lemma rposition_None: "rposition p xs = None \<longleftrightarrow> (\<forall>x\<in>set xs. \<not> p x)"
  by (induction xs) (auto split: option.splits)

lemma rposition_Some:
  "rposition p xs = Some i \<longleftrightarrow>
   i < length xs \<and> p (xs ! i) \<and> (\<forall>j. i < j \<and> j < length xs \<longrightarrow> \<not> p (xs ! j))"
proof (induction xs arbitrary: i)
  case Nil
  then show ?case by simp
next
  case (Cons x xs)
  show ?case
  proof (cases "rposition p xs")
    case None
    then have "\<forall>y\<in>set xs. \<not> p y" by (simp add: rposition_None)
    then have "j < length xs \<Longrightarrow> \<not> p (xs ! j)" for j by simp
    with None show ?thesis by (cases i) (auto simp: nth_Cons' split: if_splits)
  next
    case (Some k)
    with Cons.IH[of k] have k: "k < length xs" "p (xs ! k)"
        "\<And>j. k < j \<Longrightarrow> j < length xs \<Longrightarrow> \<not> p (xs ! j)" by auto
    show ?thesis
    proof (cases i)
      case 0
      with Some k show ?thesis by (auto intro!: exI[of _ "Suc k"])
    next
      case (Suc i')
      with Some Cons.IH[of i'] show ?thesis
        by (auto simp: nth_Cons' less_Suc_eq_0_disj)
    qed
  qed
qed

end
