(* ===== verification/Clock.thy ===== *)
theory Clock
  imports Prelude
begin

section \<open>Lamport clocks and version vectors (crates/clock)\<close>

text \<open>
  \<open>src/crates/clock/src/clock.rs\<close>: replica identifiers, Lamport timestamps with their total order,
  and the version vector \<open>Global\<close>. A vector stores one sequence number per replica and never ends
  in a zero (\<open>global_wf\<close>); all operations keep that form, and under it the length-based shortcuts of
  \<open>observed_all\<close> and \<open>changed_since\<close> decide the pointwise order. Debug-only assertions and the
  \<open>fmt::Debug\<close> printers are not part of the model.
\<close>

subsection \<open>Replica identifiers\<close>

type_synonym replica_id = u16

definition LOCAL :: replica_id where "LOCAL = 0"
definition REMOTE_SERVER :: replica_id where "REMOTE_SERVER = 1"
definition AGENT :: replica_id where "AGENT = 2"
definition LOCAL_BRANCH :: replica_id where "LOCAL_BRANCH = 3"
definition FIRST_COLLAB_ID :: replica_id where "FIRST_COLLAB_ID = 8"

definition is_remote :: "replica_id \<Rightarrow> bool" where
  "is_remote r \<longleftrightarrow> r = REMOTE_SERVER \<or> FIRST_COLLAB_ID \<le> r"

subsection \<open>Lamport timestamps\<close>

datatype lamport = Lamport (lvalue: u32) (lreplica: replica_id)

definition lamport_cmp :: "lamport \<Rightarrow> lamport \<Rightarrow> ordering" where
  "lamport_cmp a b = then_with (cmp (lvalue a) (lvalue b)) (cmp (lreplica a) (lreplica b))"

instantiation lamport :: linorder
begin

definition less_lamport :: "lamport \<Rightarrow> lamport \<Rightarrow> bool" where
  "less_lamport a b \<longleftrightarrow> lamport_cmp a b = Less"

definition less_eq_lamport :: "lamport \<Rightarrow> lamport \<Rightarrow> bool" where
  "less_eq_lamport a b \<longleftrightarrow> lamport_cmp a b \<noteq> Greater"

instance
  by standard (auto simp: less_lamport_def less_eq_lamport_def lamport_cmp_def lamport.expand)

end

definition lamport_MIN :: lamport where "lamport_MIN = Lamport 0 0"

definition lamport_MAX :: lamport where "lamport_MAX = Lamport (- 1) (- 1)"

definition lamport_new :: "replica_id \<Rightarrow> lamport" where
  "lamport_new r = Lamport 1 r"

definition as_u64 :: "lamport \<Rightarrow> u64" where
  "as_u64 t = or (push_bit 32 (ucast (lvalue t))) (ucast (lreplica t))"

text \<open>\<open>tick\<close> returns the timestamp it had and advances the clock; the addition wraps at \<open>u32\<close>.\<close>

definition tick :: "lamport \<Rightarrow> lamport \<times> lamport" where
  "tick c = (c, Lamport (lvalue c + 1) (lreplica c))"

definition lamport_observe :: "lamport \<Rightarrow> lamport \<Rightarrow> lamport" where
  "lamport_observe c t = Lamport (max (lvalue c) (lvalue t) + 1) (lreplica c)"

subsection \<open>Version vectors\<close>

record global =
  global_values :: "u32 list"

definition global_new :: global where
  "global_new = \<lparr>global_values = []\<rparr>"

definition global_get :: "global \<Rightarrow> replica_id \<Rightarrow> u32" where
  "global_get g r = (case vec_get (global_values g) (unat r) of Some v \<Rightarrow> v | None \<Rightarrow> 0)"

definition global_observe :: "global \<Rightarrow> lamport \<Rightarrow> global" where
  "global_observe g t =
     (if lvalue t > 0 then
        (let new_len = unat (lreplica t) + 1;
             vs = (if new_len > length (global_values g)
                   then vec_resize (global_values g) new_len 0 else global_values g);
             i = unat (lreplica t)
         in \<lparr>global_values = vs[i := max (vs ! i) (lvalue t)]\<rparr>)
      else g)"

definition global_join :: "global \<Rightarrow> global \<Rightarrow> global" where
  "global_join g h =
     (let vs = (if length (global_values h) > length (global_values g)
                then vec_resize (global_values g) (length (global_values h)) 0
                else global_values g)
      in \<lparr>global_values = zip_update max vs (global_values h)\<rparr>)"

definition meet_entry :: "u32 \<Rightarrow> u32 \<Rightarrow> u32" where
  "meet_entry l r = (if l = 0 then r else if r = 0 then l else min l r)"

text \<open>The running \<open>new_len\<close> of the loop in \<open>meet\<close>: one past the last non-zero entry written.\<close>

fun meet_new_len :: "nat \<Rightarrow> nat \<Rightarrow> u32 list \<Rightarrow> nat" where
  "meet_new_len new_len ix [] = new_len"
| "meet_new_len new_len ix (l # ls) =
     meet_new_len (if l \<noteq> 0 then ix + 1 else new_len) (ix + 1) ls"

definition global_meet :: "global \<Rightarrow> global \<Rightarrow> global" where
  "global_meet g h =
     (let hs = global_values h;
          vs = (if length hs > length (global_values g)
                then vec_resize (global_values g) (length hs) 0 else global_values g);
          vs' = zip_update meet_entry vs hs;
          new_len = meet_new_len 0 0 (take (length hs) vs')
      in \<lparr>global_values = (if length hs = length vs' then take new_len vs' else vs')\<rparr>)"

definition global_observed :: "global \<Rightarrow> lamport \<Rightarrow> bool" where
  "global_observed g t \<longleftrightarrow> global_get g (lreplica t) \<ge> lvalue t"

definition global_iter :: "global \<Rightarrow> lamport list" where
  "global_iter g = map (\<lambda>(i, seq). Lamport seq (of_nat i))
     (zip [0..<length (global_values g)] (global_values g))"

definition global_observed_any :: "global \<Rightarrow> global \<Rightarrow> bool" where
  "global_observed_any g h \<longleftrightarrow>
     list_ex (\<lambda>(l, r). lvalue r > 0 \<and> lvalue l \<ge> lvalue r) (zip (global_iter g) (global_iter h))"

definition global_observed_all :: "global \<Rightarrow> global \<Rightarrow> bool" where
  "global_observed_all g h \<longleftrightarrow>
     (if length (global_values g) < length (global_values h) then False
      else list_all (\<lambda>(l, r). lvalue l \<ge> lvalue r) (zip (global_iter g) (global_iter h)))"

definition global_changed_since :: "global \<Rightarrow> global \<Rightarrow> bool" where
  "global_changed_since g h \<longleftrightarrow>
     length (global_values g) > length (global_values h) \<or>
     list_ex (\<lambda>(l, r). l > r) (zip (global_values g) (global_values h))"

text \<open>\<open>Iterator::max_by_key\<close> keeps the later of two equally large elements.\<close>

fun max_by_lvalue :: "lamport list \<Rightarrow> lamport option" where
  "max_by_lvalue [] = None"
| "max_by_lvalue (t # ts) =
     (case max_by_lvalue ts of None \<Rightarrow> Some t
      | Some m \<Rightarrow> (if lvalue m < lvalue t then Some t else Some m))"

definition global_most_recent :: "global \<Rightarrow> lamport option" where
  "global_most_recent g = max_by_lvalue (global_iter g)"

definition global_from_iter :: "lamport list \<Rightarrow> global" where
  "global_from_iter ts = foldl global_observe global_new ts"

subsection \<open>Well-formed vectors\<close>

definition global_wf :: "global \<Rightarrow> bool" where
  "global_wf g \<longleftrightarrow>
     length (global_values g) \<le> 2 ^ 16 \<and> (global_values g \<noteq> [] \<longrightarrow> last (global_values g) \<noteq> 0)"

text \<open>A well-formed vector as a function of the position; the abstraction used below.\<close>

definition seq_at :: "global \<Rightarrow> nat \<Rightarrow> u32" where
  "seq_at g i = (if i < length (global_values g) then global_values g ! i else 0)"

lemma global_get_seq_at: "global_get g r = seq_at g (unat r)"
  by (simp add: global_get_def seq_at_def vec_get_def)

lemma unat_u16_less: "unat (r :: u16) < 2 ^ 16"
  using unsigned_less[of r, where ?'a = nat] by simp

lemma seq_at_get:
  assumes "i < 2 ^ 16"
  shows "seq_at g i = global_get g (of_nat i)"
proof -
  have "unat (of_nat i :: u16) = i"
    using assms by (simp add: unat_of_nat)
  then show ?thesis by (simp add: global_get_seq_at)
qed

lemma seq_at_beyond: "length (global_values g) \<le> i \<Longrightarrow> seq_at g i = 0"
  by (simp add: seq_at_def)

lemma global_wf_length_le: "global_wf g \<Longrightarrow> length (global_values g) \<le> 2 ^ 16"
  by (simp add: global_wf_def)

lemma global_wf_last:
  assumes "global_wf g" and "global_values g \<noteq> []"
  shows "seq_at g (length (global_values g) - 1) \<noteq> 0"
  using assms by (simp add: global_wf_def seq_at_def last_conv_nth)

text \<open>Well-formed vectors are equal exactly when they agree on every replica.\<close>

lemma seq_at_eqI:
  assumes "global_wf g" "global_wf h" and eq: "\<And>i. seq_at g i = seq_at h i"
  shows "g = h"
proof -
  have le: "length (global_values a) \<le> length (global_values b)"
    if wf: "global_wf a" and ab: "\<And>i. seq_at a i = seq_at b i" for a b
  proof (cases "global_values a = []")
    case False
    with wf have "seq_at b (length (global_values a) - 1) \<noteq> 0"
      using global_wf_last ab by metis
    then have "\<not> length (global_values b) \<le> length (global_values a) - 1"
      using seq_at_beyond by blast
    then show ?thesis by simp
  qed simp
  have len: "length (global_values g) = length (global_values h)"
    using le[of g h] le[of h g] assms by (simp add: order_antisym)
  have "global_values g = global_values h"
  proof (rule nth_equalityI[OF len])
    fix i assume "i < length (global_values g)"
    with len eq[of i] show "global_values g ! i = global_values h ! i"
      by (simp add: seq_at_def)
  qed
  then show ?thesis by simp
qed

lemma seq_at_new [abs_simps]: "seq_at global_new i = 0"
  by (simp add: seq_at_def global_new_def)

lemma seq_at_observe [abs_simps]:
  "seq_at (global_observe g t) i =
     (if i = unat (lreplica t) then max (seq_at g i) (lvalue t) else seq_at g i)"
  by (cases "lvalue t = 0")
     (auto simp: global_observe_def seq_at_def Let_def nth_list_update word_neq_0_conv)

lemma seq_at_join [abs_simps]: "seq_at (global_join g h) i = max (seq_at g i) (seq_at h i)"
  by (auto simp: global_join_def seq_at_def Let_def nth_zip_update)

lemma meet_new_len_correct:
  assumes "n \<le> ix"
  shows "(meet_new_len n ix ls = n \<and> (\<forall>l\<in>set ls. l = 0)) \<or>
         (\<exists>k<length ls. meet_new_len n ix ls = ix + k + 1 \<and> ls ! k \<noteq> 0 \<and>
            (\<forall>j. k < j \<and> j < length ls \<longrightarrow> ls ! j = 0))"
  using assms
proof (induction n ix ls rule: meet_new_len.induct)
  case (1 n ix)
  then show ?case by simp
next
  case (2 n ix l ls)
  let ?n = "if l \<noteq> 0 then ix + 1 else n"
  from 2 have IH: "(meet_new_len ?n (ix + 1) ls = ?n \<and> (\<forall>l\<in>set ls. l = 0)) \<or>
         (\<exists>k<length ls. meet_new_len ?n (ix + 1) ls = ix + 1 + k + 1 \<and> ls ! k \<noteq> 0 \<and>
            (\<forall>j. k < j \<and> j < length ls \<longrightarrow> ls ! j = 0))" by auto
  then show ?case
  proof
    assume A: "meet_new_len ?n (ix + 1) ls = ?n \<and> (\<forall>l\<in>set ls. l = 0)"
    show ?thesis
    proof (cases "l = 0")
      case False
      have "\<forall>j. 0 < j \<and> j < length (l # ls) \<longrightarrow> (l # ls) ! j = 0"
        using A by (auto simp: nth_Cons')
      then show ?thesis using A False by (intro disjI2 exI[of _ 0]) auto
    qed (use A in auto)
  next
    assume "\<exists>k<length ls. meet_new_len ?n (ix + 1) ls = ix + 1 + k + 1 \<and> ls ! k \<noteq> 0 \<and>
            (\<forall>j. k < j \<and> j < length ls \<longrightarrow> ls ! j = 0)"
    then obtain k where k: "k < length ls" "meet_new_len ?n (ix + 1) ls = ix + 1 + k + 1"
        "ls ! k \<noteq> 0" "\<And>j. k < j \<Longrightarrow> j < length ls \<Longrightarrow> ls ! j = 0" by blast
    have "\<forall>j. Suc k < j \<and> j < length (l # ls) \<longrightarrow> (l # ls) ! j = 0"
      using k(4) by (auto simp: nth_Cons')
    with k show ?thesis by (intro disjI2 exI[of _ "Suc k"]) auto
  qed
qed

lemma take_meet_new_len:
  fixes vs :: "u32 list"
  defines "n \<equiv> meet_new_len 0 0 vs"
  shows "n \<le> length vs" and "\<And>i. n \<le> i \<Longrightarrow> i < length vs \<Longrightarrow> vs ! i = 0"
    and "n \<noteq> 0 \<Longrightarrow> vs ! (n - 1) \<noteq> 0"
  using meet_new_len_correct[of 0 0 vs] by (auto simp: n_def)

lemma length_observe:
  "length (global_values (global_observe g t)) =
     (if lvalue t > 0 then max (length (global_values g)) (unat (lreplica t) + 1)
      else length (global_values g))"
  by (auto simp: global_observe_def Let_def)

lemma length_join:
  "length (global_values (global_join g h)) =
     max (length (global_values g)) (length (global_values h))"
  by (auto simp: global_join_def Let_def)

lemma global_wfI:
  assumes "length (global_values g) \<le> 2 ^ 16"
    and "global_values g \<noteq> [] \<Longrightarrow> seq_at g (length (global_values g) - 1) \<noteq> 0"
  shows "global_wf g"
  using assms by (auto simp: global_wf_def seq_at_def last_conv_nth)

lemma global_wf_new [simp]: "global_wf global_new"
  by (simp add: global_wf_def global_new_def)

lemma max_u32_neq_0: "max (a :: u32) b \<noteq> 0 \<longleftrightarrow> a \<noteq> 0 \<or> b \<noteq> 0"
  by (auto simp: max_def word_le_0_iff)

lemma global_wf_observe [intro]:
  assumes "global_wf g"
  shows "global_wf (global_observe g t)"
proof (cases "lvalue t = 0")
  case True
  with assms show ?thesis by (simp add: global_observe_def)
next
  case False
  then have pos: "lvalue t > 0" by (simp add: word_neq_0_conv)
  show ?thesis
  proof (rule global_wfI)
    show "length (global_values (global_observe g t)) \<le> 2 ^ 16"
      using assms unat_u16_less[of "lreplica t"] by (simp add: length_observe global_wf_def)
    let ?n = "length (global_values (global_observe g t)) - 1"
    show "seq_at (global_observe g t) ?n \<noteq> 0"
    proof (cases "length (global_values g) \<le> unat (lreplica t) + 1")
      case True
      with pos have "?n = unat (lreplica t)" by (simp add: length_observe)
      with False show ?thesis by (simp add: seq_at_observe max_u32_neq_0)
    next
      case longer: False
      then have "?n = length (global_values g) - 1" by (simp add: length_observe)
      moreover have "seq_at g (length (global_values g) - 1) \<noteq> 0"
        using global_wf_last assms longer by fastforce
      ultimately show ?thesis by (metis max_u32_neq_0 seq_at_observe)
    qed
  qed
qed

lemma global_wf_join [intro]:
  assumes "global_wf g" "global_wf h"
  shows "global_wf (global_join g h)"
proof (rule global_wfI)
  show "length (global_values (global_join g h)) \<le> 2 ^ 16"
    using assms by (simp add: length_join global_wf_def)
  assume "global_values (global_join g h) \<noteq> []"
  then have "length (global_values (global_join g h)) \<noteq> 0" by simp
  then show "seq_at (global_join g h) (length (global_values (global_join g h)) - 1) \<noteq> 0"
    using global_wf_last[of g] global_wf_last[of h] assms
    by (auto simp: length_join seq_at_join max_u32_neq_0 max_def split: if_splits)
qed

text \<open>The vector that \<open>meet\<close> computes before it truncates.\<close>

lemma seq_at_meet_raw:
  fixes g h
  defines "vs \<equiv> (if length (global_values h) > length (global_values g)
                then vec_resize (global_values g) (length (global_values h)) 0 else global_values g)"
  shows "seq_at \<lparr>global_values = zip_update meet_entry vs (global_values h)\<rparr> i =
           meet_entry (seq_at g i) (seq_at h i)"
  by (auto simp: vs_def seq_at_def nth_zip_update meet_entry_def)

lemma seq_at_take_meet:
  fixes vs :: "u32 list"
  shows "seq_at \<lparr>global_values = take (meet_new_len 0 0 vs) vs\<rparr> i = seq_at \<lparr>global_values = vs\<rparr> i"
  using take_meet_new_len[of vs] by (auto simp: seq_at_def)

lemma seq_at_meet [abs_simps]: "seq_at (global_meet g h) i = meet_entry (seq_at g i) (seq_at h i)"
  by (auto simp: global_meet_def Let_def seq_at_take_meet seq_at_meet_raw)

lemma global_wf_take_meet:
  "length vs \<le> 2 ^ 16 \<Longrightarrow> global_wf \<lparr>global_values = take (meet_new_len 0 0 vs) vs\<rparr>"
  using take_meet_new_len[of vs]
  by (intro global_wfI) (auto simp: seq_at_def min_def split: if_splits)

lemma global_wf_meet [intro]:
  assumes "global_wf g" "global_wf h"
  shows "global_wf (global_meet g h)"
proof (cases "length (global_values g) \<le> length (global_values h)")
  case True
  let ?vs = "zip_update meet_entry (vec_resize (global_values g) (length (global_values h)) 0)
               (global_values h)"
  have "global_meet g h = \<lparr>global_values = take (meet_new_len 0 0 ?vs) ?vs\<rparr>"
    using True by (auto simp: global_meet_def Let_def vec_resize_longer)
  then show ?thesis using global_wf_take_meet[of ?vs] assms(2) by (simp add: global_wf_def)
next
  case False
  then have eq: "global_values (global_meet g h) = zip_update meet_entry (global_values g) (global_values h)"
    by (simp add: global_meet_def Let_def)
  have "seq_at (global_meet g h) (length (global_values g) - 1) \<noteq> 0"
    using False assms global_wf_last[of g] seq_at_beyond[of h "length (global_values g) - 1"]
    by (cases "global_values g") (auto simp: seq_at_meet meet_entry_def)
  then show ?thesis
    using eq assms by (intro global_wfI) (simp_all add: global_wf_def)
qed

lemma global_wf_from_iter [intro]: "global_wf (global_from_iter ts)"
proof -
  have "global_wf g \<Longrightarrow> global_wf (foldl global_observe g ts)" for g
    by (induction ts arbitrary: g) auto
  then show ?thesis by (simp add: global_from_iter_def)
qed

subsection \<open>The order on version vectors\<close>

lemma length_global_iter [simp]: "length (global_iter g) = length (global_values g)"
  by (simp add: global_iter_def)

lemma nth_global_iter:
  "i < length (global_values g) \<Longrightarrow> lvalue (global_iter g ! i) = global_values g ! i"
  by (simp add: global_iter_def)

lemma observed_all_seq_at:
  assumes "global_wf h"
  shows "global_observed_all g h \<longleftrightarrow> (\<forall>i. seq_at h i \<le> seq_at g i)"
proof (cases "length (global_values g) < length (global_values h)")
  case True
  then have "seq_at h (length (global_values h) - 1) \<noteq> 0" "seq_at g (length (global_values h) - 1) = 0"
    using assms global_wf_last[of h] seq_at_beyond[of g] by fastforce+
  then have "\<not> (\<forall>i. seq_at h i \<le> seq_at g i)"
    by (metis word_le_0_iff)
  with True show ?thesis by (simp add: global_observed_all_def)
next
  case False
  then have "global_observed_all g h \<longleftrightarrow>
      (\<forall>i<length (global_values h). global_values h ! i \<le> global_values g ! i)"
    by (auto simp: global_observed_all_def list_all_length nth_global_iter)
  with False show ?thesis by (auto simp: seq_at_def)
qed

lemma observed_all_get:
  assumes "global_wf g" "global_wf h"
  shows "global_observed_all g h \<longleftrightarrow> (\<forall>r. global_get h r \<le> global_get g r)"
proof -
  have "seq_at h i \<le> seq_at g i" if "\<forall>r. global_get h r \<le> global_get g r" for i
  proof (cases "i < 2 ^ 16")
    case True
    with that show ?thesis by (simp add: seq_at_get)
  next
    case False
    with assms(2) have "length (global_values h) \<le> i" by (simp add: global_wf_def)
    then show ?thesis by (simp add: seq_at_beyond)
  qed
  with assms show ?thesis by (auto simp: observed_all_seq_at global_get_seq_at)
qed

lemma changed_since_observed_all:
  assumes "global_wf g" "global_wf h"
  shows "global_changed_since g h \<longleftrightarrow> \<not> global_observed_all h g"
proof -
  have "global_changed_since g h \<longleftrightarrow> \<not> (\<forall>i. seq_at g i \<le> seq_at h i)"
  proof (cases "length (global_values h) < length (global_values g)")
    case True
    then have "seq_at g (length (global_values g) - 1) \<noteq> 0"
        "seq_at h (length (global_values g) - 1) = 0"
      using assms global_wf_last[of g] seq_at_beyond[of h] by fastforce+
    then have "\<not> (\<forall>i. seq_at g i \<le> seq_at h i)"
      by (metis word_le_0_iff)
    with True show ?thesis by (simp add: global_changed_since_def)
  next
    case False
    then have "global_changed_since g h \<longleftrightarrow>
        (\<exists>i<length (global_values g). global_values h ! i < global_values g ! i)"
      by (auto simp: global_changed_since_def list_ex_length)
    with False show ?thesis by (auto simp: seq_at_def not_le)
  qed
  with assms show ?thesis by (simp add: observed_all_seq_at)
qed

lemma observed_any_seq_at:
  "global_observed_any g h \<longleftrightarrow> (\<exists>i. 0 < seq_at h i \<and> seq_at h i \<le> seq_at g i)"
proof -
  have "global_observed_any g h \<longleftrightarrow>
      (\<exists>i<min (length (global_values g)) (length (global_values h)).
         0 < global_values h ! i \<and> global_values h ! i \<le> global_values g ! i)"
    by (simp add: global_observed_any_def list_ex_length nth_global_iter cong: conj_cong)
  also have "\<dots> \<longleftrightarrow> (\<exists>i. 0 < seq_at h i \<and> seq_at h i \<le> seq_at g i)"
    by (auto simp: seq_at_def split: if_splits)
  finally show ?thesis .
qed

lemma changed_since_get:
  assumes "global_wf g" "global_wf h"
  shows "global_changed_since g h \<longleftrightarrow> (\<exists>r. global_get h r < global_get g r)"
  using assms by (auto simp: changed_since_observed_all observed_all_get not_le)

lemma global_eq_get:
  assumes "global_wf g" "global_wf h"
  shows "g = h \<longleftrightarrow> (\<forall>r. global_get g r = global_get h r)"
proof -
  have "g = h" if "\<forall>r. global_get g r = global_get h r"
  proof (rule seq_at_eqI[OF assms])
    fix i
    show "seq_at g i = seq_at h i"
    proof (cases "i < 2 ^ 16")
      case True
      with that show ?thesis by (simp add: seq_at_get)
    next
      case False
      with assms show ?thesis by (simp add: global_wf_def seq_at_beyond)
    qed
  qed
  then show ?thesis by blast
qed

lemma global_get_new [abs_simps]: "global_get global_new r = 0"
  by (simp add: global_get_seq_at seq_at_new)

lemma global_get_observe [abs_simps]:
  "global_get (global_observe g t) r =
     (if r = lreplica t then max (global_get g r) (lvalue t) else global_get g r)"
  by (simp add: global_get_seq_at seq_at_observe word_unat_eq_iff)

lemma global_get_join [abs_simps]:
  "global_get (global_join g h) r = max (global_get g r) (global_get h r)"
  by (simp add: global_get_seq_at seq_at_join)

lemma global_get_meet [abs_simps]:
  "global_get (global_meet g h) r = meet_entry (global_get g r) (global_get h r)"
  by (simp add: global_get_seq_at seq_at_meet)

subsection \<open>Version vectors as an interface\<close>

text \<open>
  What the buffer and its operation queue rely on: a vector is a map from replicas to sequence
  numbers, observing and joining take pointwise maxima, and the comparison is pointwise.
\<close>

locale version_vector =
  fixes inv :: "'v \<Rightarrow> bool"
    and new :: 'v
    and get :: "'v \<Rightarrow> 'r \<Rightarrow> 'n::linorder"
    and observe :: "'v \<Rightarrow> 't \<Rightarrow> 'v"
    and join :: "'v \<Rightarrow> 'v \<Rightarrow> 'v"
    and observed :: "'v \<Rightarrow> 't \<Rightarrow> bool"
    and observed_all :: "'v \<Rightarrow> 'v \<Rightarrow> bool"
    and rep :: "'t \<Rightarrow> 'r"
    and seq :: "'t \<Rightarrow> 'n"
  assumes inv_new: "inv new"
    and inv_observe: "inv v \<Longrightarrow> inv (observe v t)"
    and inv_join: "inv v \<Longrightarrow> inv w \<Longrightarrow> inv (join v w)"
    and get_least: "get new r \<le> n"
    and get_observe: "get (observe v t) r = (if r = rep t then max (get v r) (seq t) else get v r)"
    and get_join: "get (join v w) r = max (get v r) (get w r)"
    and observed_get: "observed v t \<longleftrightarrow> seq t \<le> get v (rep t)"
    and observed_all_le: "inv v \<Longrightarrow> inv w \<Longrightarrow> observed_all v w \<longleftrightarrow> (\<forall>r. get w r \<le> get v r)"
    and ext: "inv v \<Longrightarrow> inv w \<Longrightarrow> (\<And>r. get v r = get w r) \<Longrightarrow> v = w"
begin

lemma observed_observe: "observed (observe v t) t"
  by (simp add: observed_get get_observe)

lemma observed_mono: "inv v \<Longrightarrow> inv w \<Longrightarrow> observed_all w v \<Longrightarrow> observed v t \<Longrightarrow> observed w t"
  by (meson observed_all_le observed_get order_trans)

lemma observe_increases: "inv v \<Longrightarrow> observed_all (observe v t) v"
  by (simp add: observed_all_le inv_observe get_observe)

lemma observe_commute: "inv v \<Longrightarrow> observe (observe v s) t = observe (observe v t) s"
  by (rule ext) (auto simp: inv_observe get_observe max.assoc max.commute max.left_commute)

lemma observe_known: "inv v \<Longrightarrow> observed v t \<Longrightarrow> observe v t = v"
  by (rule ext) (auto simp: inv_observe get_observe observed_get max_absorb1)

lemma observed_all_refl: "inv v \<Longrightarrow> observed_all v v"
  by (simp add: observed_all_le)

lemma observed_all_trans:
  "inv u \<Longrightarrow> inv v \<Longrightarrow> inv w \<Longrightarrow> observed_all u v \<Longrightarrow> observed_all v w \<Longrightarrow> observed_all u w"
  by (meson observed_all_le order_trans)

lemma observed_all_antisym:
  "inv v \<Longrightarrow> inv w \<Longrightarrow> observed_all v w \<Longrightarrow> observed_all w v \<Longrightarrow> v = w"
  by (rule ext) (auto simp: observed_all_le order_antisym)

lemma observed_all_iff_observed:
  assumes "inv v" "inv w" and surj_on_ts: "\<And>r n. \<exists>t. rep t = r \<and> seq t = n"
  shows "observed_all v w \<longleftrightarrow> (\<forall>t. observed w t \<longrightarrow> observed v t)"
proof
  assume "\<forall>t. observed w t \<longrightarrow> observed v t"
  moreover have "\<exists>t. rep t = r \<and> seq t = get w r" for r using surj_on_ts .
  ultimately show "observed_all v w"
    using assms(1,2) by (metis observed_all_le observed_get order_refl)
qed (use assms in \<open>auto intro: observed_mono[of w v]\<close>)

lemma join_least:
  assumes "inv u" "inv v" "inv w"
  shows "observed_all u (join v w) \<longleftrightarrow> observed_all u v \<and> observed_all u w"
  using assms by (auto simp: observed_all_le inv_join get_join)

lemma join_commute: "inv v \<Longrightarrow> inv w \<Longrightarrow> join v w = join w v"
  by (rule ext) (auto simp: inv_join get_join max.commute)

lemma join_assoc: "inv u \<Longrightarrow> inv v \<Longrightarrow> inv w \<Longrightarrow> join (join u v) w = join u (join v w)"
  by (rule ext) (auto simp: inv_join get_join max.assoc)

lemma join_idem: "inv v \<Longrightarrow> join v v = v"
  by (rule ext) (auto simp: inv_join get_join)

lemma foldl_observe_inv: "inv v \<Longrightarrow> inv (foldl observe v ts)"
  by (induction ts arbitrary: v) (auto simp: inv_observe)

text \<open>Observing a sequence of timestamps gives the least vector that has seen all of them.\<close>

lemma observed_all_observe:
  "inv u \<Longrightarrow> inv v \<Longrightarrow> observed_all u (observe v t) \<longleftrightarrow> observed_all u v \<and> observed u t"
  by (auto simp: observed_all_le inv_observe get_observe observed_get split: if_splits)

lemma foldl_observe_least:
  "inv u \<Longrightarrow> inv v \<Longrightarrow>
   observed_all u (foldl observe v ts) \<longleftrightarrow> observed_all u v \<and> (\<forall>t\<in>set ts. observed u t)"
  by (induction ts arbitrary: v) (auto simp: inv_observe observed_all_observe)

lemma foldl_observe_set:
  assumes "inv v" "set ts = set us"
  shows "foldl observe v ts = foldl observe v us"
proof (rule observed_all_antisym)
  show "observed_all (foldl observe v ts) (foldl observe v us)"
       "observed_all (foldl observe v us) (foldl observe v ts)"
    using assms by (metis foldl_observe_inv foldl_observe_least observed_all_refl)+
qed (simp_all add: assms foldl_observe_inv)

end

interpretation vv: version_vector global_wf global_new global_get global_observe global_join
    global_observed global_observed_all lreplica lvalue
proof unfold_locales
  show "g = h" if "global_wf g" "global_wf h" "\<And>r. global_get g r = global_get h r" for g h
    using that by (simp add: global_eq_get)
qed (auto simp: abs_simps global_observed_def observed_all_get)

subsection \<open>Timestamps\<close>

lemma lamport_less_iff:
  "a < b \<longleftrightarrow> lvalue a < lvalue b \<or> lvalue a = lvalue b \<and> lreplica a < lreplica b"
  for a b :: lamport
  by (auto simp: less_lamport_def lamport_cmp_def)

lemma lamport_MIN_le: "lamport_MIN \<le> t"
  by (auto simp: not_less[symmetric] lamport_less_iff lamport_MIN_def)

lemma lamport_le_MAX: "t \<le> lamport_MAX"
  by (auto simp: not_less[symmetric] lamport_less_iff lamport_MAX_def not_less)

lemma unat_u32_less: "unat (r :: u32) < 2 ^ 32"
  using unsigned_less[of r, where ?'a = nat] by simp

lemma unat_as_u64: "unat (as_u64 t) = unat (lvalue t) * 2 ^ 32 + unat (lreplica t)"
proof -
  let ?v = "push_bit 32 (ucast (lvalue t)) :: u64" and ?r = "ucast (lreplica t) :: u64"
  have disj: "and ?v ?r = 0"
  proof (rule bit_word_eqI)
    fix n assume "n < LENGTH(64)"
    show "bit (and ?v ?r) n \<longleftrightarrow> bit (0 :: u64) n"
      using bit_imp_le_length[of "lreplica t" n]
      by (auto simp: bit_and_iff bit_push_bit_iff bit_ucast_iff)
  qed
  have uv: "unat (ucast (lvalue t) :: u64) = unat (lvalue t)"
    using unat_u32_less[of "lvalue t"] by (simp add: unsigned_ucast_eq take_bit_nat_eq_self)
  then have v: "unat ?v = unat (lvalue t) * 2 ^ 32"
    using unat_u32_less[of "lvalue t"] by (simp add: push_bit_eq_mult unat_word_ariths)
  have r: "unat ?r = unat (lreplica t)"
    using unat_u16_less[of "lreplica t"] by (simp add: unsigned_ucast_eq take_bit_nat_eq_self)
  have "unat ?v + unat ?r < 2 ^ 64"
    using unat_u32_less[of "lvalue t"] unat_u16_less[of "lreplica t"] by (simp add: v r)
  then have "unat (?v + ?r) = unat ?v + unat ?r"
    by (simp add: unat_word_ariths)
  then show ?thesis
    by (simp add: as_u64_def disjunctive_add_eq_or[OF disj, symmetric] v r)
qed

subsection \<open>Properties\<close>

text \<open>
  C35: every operation that builds or changes a version vector keeps it in canonical form: no more
  than one entry per \<open>u16\<close> replica and no trailing zero entry.
\<close>

theorem global_ops_keep_wf:
  assumes "global_wf g" and "global_wf h"
  shows "global_wf global_new \<and> global_wf (global_observe g t) \<and> global_wf (global_join g h) \<and>
         global_wf (global_meet g h) \<and> global_wf (global_from_iter ts)"
  using assms by auto

theorem global_ops_keep_wf_witness:
  "global_wf \<lparr>global_values = [0, 3]\<rparr> \<and> global_wf \<lparr>global_values = [2, 0, 5]\<rparr> \<and>
   global_wf (global_meet \<lparr>global_values = [0, 3]\<rparr> \<lparr>global_values = [2, 0, 5]\<rparr>)"
proof -
  have h: "global_wf \<lparr>global_values = [0, 3]\<rparr>" "global_wf \<lparr>global_values = [2, 0, 5]\<rparr>"
    by (simp_all add: global_wf_def)
  show ?thesis using h global_ops_keep_wf[OF h, of lamport_MIN "[]"] by blast
qed

text \<open>
  On canonical vectors, \<open>observed_all\<close> decides the pointwise order (its early return on the
  lengths never disagrees with it), \<open>changed_since\<close> is its negation with the arguments exchanged,
  and structural equality (the derived \<open>Eq\<close>) is equality of the observed sequence numbers.
\<close>

theorem global_order_pointwise:
  assumes "global_wf g" and "global_wf h"
  shows "(global_observed_all g h \<longleftrightarrow> (\<forall>r. global_get h r \<le> global_get g r)) \<and>
         (global_changed_since g h \<longleftrightarrow> (\<exists>r. global_get h r < global_get g r)) \<and>
         (g = h \<longleftrightarrow> (\<forall>r. global_get g r = global_get h r))"
  by (intro conjI observed_all_get changed_since_get global_eq_get assms)

theorem global_order_pointwise_witness:
  "global_wf \<lparr>global_values = [4, 3]\<rparr> \<and> global_wf \<lparr>global_values = [2]\<rparr> \<and>
   (\<forall>r. global_get \<lparr>global_values = [2]\<rparr> r \<le> global_get \<lparr>global_values = [4, 3]\<rparr> r)"
proof -
  have h: "global_wf \<lparr>global_values = [4, 3]\<rparr>" "global_wf \<lparr>global_values = [2]\<rparr>"
    by (simp_all add: global_wf_def)
  have "global_observed_all \<lparr>global_values = [4, 3]\<rparr> \<lparr>global_values = [2]\<rparr>"
    by (simp add: global_observed_all_def global_iter_def)
  then show ?thesis using h global_order_pointwise[OF h] by blast
qed

text \<open>
  C34: \<open>join\<close> is the least upper bound in the order of \<open>observed_all\<close>: a vector has observed the
  join of two vectors exactly when it has observed both, and joining is associative, commutative
  and idempotent, so replicas can merge versions in any order and any number of times.
\<close>

theorem global_join_semilattice:
  assumes "global_wf u" and "global_wf g" and "global_wf h"
  shows "(global_observed_all u (global_join g h) \<longleftrightarrow>
            global_observed_all u g \<and> global_observed_all u h) \<and>
         global_join g h = global_join h g \<and>
         global_join (global_join u g) h = global_join u (global_join g h) \<and>
         global_join g g = g"
  by (intro conjI vv.join_least vv.join_commute vv.join_assoc vv.join_idem assms)

theorem global_join_semilattice_witness:
  "global_wf \<lparr>global_values = [4]\<rparr> \<and> global_wf \<lparr>global_values = [0, 2]\<rparr> \<and>
   global_join \<lparr>global_values = [4]\<rparr> \<lparr>global_values = [0, 2]\<rparr> =
     global_join \<lparr>global_values = [0, 2]\<rparr> \<lparr>global_values = [4]\<rparr>"
proof -
  have h: "global_wf \<lparr>global_values = [4]\<rparr>" "global_wf \<lparr>global_values = [0, 2]\<rparr>"
    by (simp_all add: global_wf_def)
  show ?thesis using h global_join_semilattice[OF h(1) h] by blast
qed

text \<open>
  C0: \<open>meet\<close> treats an unobserved replica as unknown: on every replica the result is the entry of
  the other vector where one has none, and the minimum where both have one; the truncation at the
  end of the loop loses no entry.
\<close>

theorem global_meet_pointwise:
  "global_get (global_meet g h) r =
     (if global_get g r = 0 then global_get h r
      else if global_get h r = 0 then global_get g r
      else min (global_get g r) (global_get h r))"
  by (simp add: global_get_meet meet_entry_def)

text \<open>
  The version collected from a sequence of timestamps depends only on the set of timestamps,
  not on their order or on duplicates, and it is the least version that has observed all of them.
\<close>

theorem global_from_iter_least:
  assumes "global_wf u" and "set ts = set us"
  shows "global_from_iter ts = global_from_iter us \<and>
         (global_observed_all u (global_from_iter ts) \<longleftrightarrow> (\<forall>t\<in>set ts. global_observed u t))"
proof -
  have "global_observed_all u global_new"
    using assms(1) by (simp add: observed_all_get abs_simps)
  then show ?thesis
    using vv.foldl_observe_set[OF global_wf_new assms(2)]
      vv.foldl_observe_least[OF assms(1) global_wf_new]
    by (simp add: global_from_iter_def assms(2))
qed

theorem global_from_iter_least_witness:
  "global_wf \<lparr>global_values = [7, 7]\<rparr> \<and>
   set [Lamport 3 0, Lamport 5 1] = set [Lamport 5 1, Lamport 3 0, Lamport 5 1] \<and>
   global_from_iter [Lamport 3 0, Lamport 5 1] =
     global_from_iter [Lamport 5 1, Lamport 3 0, Lamport 5 1]"
proof -
  have h: "global_wf \<lparr>global_values = [7, 7]\<rparr>"
    "set [Lamport 3 0, Lamport 5 1] = set [Lamport 5 1, Lamport 3 0, Lamport 5 1]"
    by (auto simp: global_wf_def)
  show ?thesis using h global_from_iter_least[OF h] by blast
qed

text \<open>
  the packed form \<open>as_u64\<close> of a timestamp orders timestamps exactly as \<open>Ord for Lamport\<close>
  does: by sequence number, ties broken by the replica.
\<close>

theorem as_u64_order: "as_u64 a < as_u64 b \<longleftrightarrow> lamport_cmp a b = Less"
proof -
  have "as_u64 a < as_u64 b \<longleftrightarrow>
      unat (lvalue a) * 2 ^ 32 + unat (lreplica a) < unat (lvalue b) * 2 ^ 32 + unat (lreplica b)"
    by (simp add: word_less_nat_alt unat_as_u64)
  also have "\<dots> \<longleftrightarrow> unat (lvalue a) < unat (lvalue b) \<or>
      unat (lvalue a) = unat (lvalue b) \<and> unat (lreplica a) < unat (lreplica b)"
    using unat_u16_less[of "lreplica a"] unat_u16_less[of "lreplica b"] by auto
  finally show ?thesis
    by (simp add: lamport_cmp_def word_less_nat_alt word_unat_eq_iff)
qed

lemma u32_increases: "x < x + 1 \<longleftrightarrow> x \<noteq> - 1" for x :: u32
proof (cases "x = - 1")
  case False
  then have "unat x \<noteq> 2 ^ 32 - 1"
    by (simp add: word_unat_eq_iff unsigned_minus_1_eq_mask mask_eq_exp_minus_1)
  with False unat_u32_less[of x] show ?thesis
    by (simp add: word_less_nat_alt unat_word_ariths)
qed simp

text \<open>
  C36: a local clock that observes a timestamp moves past both its own value and the observed one,
  and a tick moves past the timestamp it hands out, exactly as long as the \<open>u32\<close> counter does not
  wrap around.
\<close>

theorem lamport_clock_advances:
  "(c < lamport_observe c t \<and> t < lamport_observe c t \<longleftrightarrow> max (lvalue c) (lvalue t) \<noteq> - 1) \<and>
   (fst (tick c) < snd (tick c) \<longleftrightarrow> lvalue c \<noteq> - 1)"
  using u32_increases[of "lvalue c"] u32_increases[of "lvalue t"]
  by (auto simp: lamport_less_iff lamport_observe_def tick_def max_def word_order.extremum_unique)

end
