(* ===== verification/Locator.thy ===== *)
theory Locator
  imports Prelude "HOL-Library.List_Lexorder"
begin

section \<open>Dense fragment identifiers (crates/text/src/locator.rs)\<close>

text \<open>
  A \<open>Locator\<close> is a vector of \<open>u64\<close> digits under the derived lexicographic order, which is the
  instance of \<open>HOL-Library.List_Lexorder\<close>. \<open>between\<close> finds an identifier strictly between two
  others: it walks both vectors, the left one padded with the smallest and the right one with the
  largest digit, and stops at the first digit that leaves room. The loop has no bound in the
  source; here it is a recursive function whose termination proof is the reason why it stops.
\<close>

type_synonym locator = "u64 list"

definition locator_min :: locator where "locator_min = [0]"

definition locator_max :: locator where "locator_max = [- 1]"

definition locator_assign :: "locator \<Rightarrow> locator \<Rightarrow> locator" where
  "locator_assign self other = other"

definition saturating_sub :: "u64 \<Rightarrow> u64 \<Rightarrow> u64" where
  "saturating_sub a b = (if b \<le> a then a - b else 0)"

definition mid_digit :: "u64 \<Rightarrow> u64 \<Rightarrow> u64" where
  "mid_digit l r = l + drop_bit 48 (saturating_sub r l)"

text \<open>The next digit of a vector that is padded at its end.\<close>

definition digit :: "u64 \<Rightarrow> locator \<Rightarrow> u64" where
  "digit pad xs = (case xs of [] \<Rightarrow> pad | x # _ \<Rightarrow> x)"

lemma digit_simps [simp]: "digit p [] = p" "digit p (x # xs) = x"
  by (simp_all add: digit_def)

function (sequential) between :: "locator \<Rightarrow> locator \<Rightarrow> locator" where
  "between lhs rhs =
     (let l = digit 0 lhs; r = digit (- 1) rhs; mid = mid_digit l r
      in if mid > l then [mid] else mid # between (tl lhs) (tl rhs))"
  by pat_completeness auto

lemma mid_digit_pad: "mid_digit 0 (- 1) = 65535"
  by (simp add: mid_digit_def saturating_sub_def mask_eq_exp_minus_1)

termination between
proof (relation "measure (\<lambda>(lhs, rhs). length lhs + length rhs)")
  fix lhs rhs :: locator and l r mid
  assume l: "l = digit 0 lhs" and r: "r = digit (- 1) rhs" and mid: "mid = mid_digit l r"
    and stop: "\<not> l < mid"
  have "lhs \<noteq> [] \<or> rhs \<noteq> []"
  proof (rule ccontr)
    assume "\<not> (lhs \<noteq> [] \<or> rhs \<noteq> [])"
    with l r mid have "l = 0" "mid = 65535" by (simp_all add: mid_digit_pad)
    with stop show False by simp
  qed
  then show "((tl lhs, tl rhs), lhs, rhs) \<in> measure (\<lambda>(lhs, rhs). length lhs + length rhs)"
    by (cases lhs; cases rhs) auto
qed simp

declare between.simps [simp del]

subsection \<open>Digits\<close>

lemma unat_drop_bit_u64: "unat (drop_bit n (d :: u64)) = unat d div 2 ^ n"
proof -
  have "unat (drop_bit n d) = drop_bit n (take_bit LENGTH(64) (unat d))"
    by (rule unsigned_drop_bit_eq)
  also have "take_bit LENGTH(64) (unat d) = unat d"
    by (rule take_bit_nat_eq_self[OF unsigned_less])
  finally show ?thesis by (simp only: drop_bit_eq_div)
qed

lemma unat_mid_digit:
  assumes "l \<le> r"
  shows "unat (mid_digit l r) = unat l + (unat r - unat l) div 2 ^ 48"
proof -
  have d: "unat (drop_bit 48 (r - l)) = (unat r - unat l) div 2 ^ 48"
    using assms by (simp add: unat_drop_bit_u64 unat_sub word_le_nat_alt)
  have "unat l + (unat r - unat l) div 2 ^ 48 \<le> unat l + (unat r - unat l)"
    by (intro add_left_mono div_le_dividend)
  also have "\<dots> = unat r" using assms by (simp add: word_le_nat_alt)
  also have "\<dots> < 2 ^ LENGTH(64)" by (rule unsigned_less)
  finally have "unat l + unat (drop_bit 48 (r - l)) < 2 ^ LENGTH(64)" by (simp only: d)
  then show ?thesis using assms d
    by (simp add: mid_digit_def saturating_sub_def unat_word_ariths)
qed

lemma mid_digit_ge: "l \<le> mid_digit l r"
proof (cases "l \<le> r")
  case True
  then show ?thesis by (simp add: word_le_nat_alt unat_mid_digit)
qed (simp add: mid_digit_def saturating_sub_def)

lemma mid_digit_less: "l < r \<Longrightarrow> mid_digit l r < r"
proof -
  assume "l < r"
  then have lr: "unat l < unat r" by (simp add: word_less_nat_alt)
  then have "(unat r - unat l) div 2 ^ 48 < unat r - unat l"
    by (intro div_less_dividend) auto
  then have "unat l + (unat r - unat l) div 2 ^ 48 < unat r" using lr by linarith
  with \<open>l < r\<close> show ?thesis by (simp add: word_less_nat_alt unat_mid_digit less_imp_le)
qed

lemma mid_digit_same [simp]: "mid_digit l l = l"
  by (simp add: mid_digit_def saturating_sub_def)

lemma mid_digit_stuck: "\<not> l < mid_digit l r \<Longrightarrow> mid_digit l r = l"
  using mid_digit_ge[of l r] by simp

subsection \<open>Betweenness\<close>

text \<open>Identifiers other than the minimum never end in a zero digit; \<open>between\<close> relies on it.\<close>

definition locator_wf :: "locator \<Rightarrow> bool" where
  "locator_wf xs \<longleftrightarrow> xs \<noteq> [] \<and> last xs \<noteq> 0"

lemma between_unfold:
  "between lhs rhs =
     (let l = digit 0 lhs; mid = mid_digit l (digit (- 1) rhs)
      in if mid > l then [mid] else l # between (tl lhs) (tl rhs))"
  by (subst between.simps) (auto simp: Let_def dest: mid_digit_stuck)

lemma between_not_Nil [simp]: "between lhs rhs \<noteq> []"
  by (subst between.simps) (simp add: Let_def)

lemma locator_wf_between: "locator_wf (between lhs rhs)"
proof (induction lhs rhs rule: between.induct)
  case (1 lhs rhs)
  then show ?case
    by (subst between.simps) (auto simp: Let_def locator_wf_def)
qed

lemma between_greater: "lhs < between lhs rhs"
proof (induction lhs rhs rule: between.induct)
  case (1 lhs rhs)
  let ?l = "digit 0 lhs" let ?m = "mid_digit ?l (digit (- 1) rhs)"
  show ?case
  proof (cases lhs)
    case Nil
    then show ?thesis using between_not_Nil[of "[]" rhs] by (cases "between [] rhs") auto
  next
    case (Cons x xs)
    show ?thesis
    proof (cases "?m > ?l")
      case True
      with Cons show ?thesis by (subst between_unfold) (simp add: Let_def)
    next
      case False
      with 1 have "tl lhs < between (tl lhs) (tl rhs)" by simp
      with False Cons show ?thesis by (subst between_unfold) (simp add: Let_def)
    qed
  qed
qed

lemma between_less:
  assumes "lhs < rhs" and "locator_wf rhs"
  shows "between lhs rhs < rhs"
  using assms
proof (induction lhs rhs rule: between.induct)
  case (1 lhs rhs)
  let ?l = "digit 0 lhs"
  from "1.prems" obtain r rs where rhs: "rhs = r # rs" by (cases rhs) (auto simp: locator_wf_def)
  let ?m = "mid_digit ?l r"
  have "?l \<le> r" using "1.prems"(1) rhs by (cases lhs) (auto simp: less_imp_le)
  then consider "?l < r" | "?l = r" by fastforce
  then show ?case
  proof cases
    case 1
    then have "?m < r" by (rule mid_digit_less)
    with 1 rhs show ?thesis by (subst between_unfold) (simp add: Let_def)
  next
    case 2
    have "tl lhs < rs"
      using "1.prems" rhs 2 by (cases lhs) (auto simp: locator_wf_def neq_Nil_conv split: if_splits)
    moreover have "locator_wf rs"
      using "1.prems" rhs \<open>tl lhs < rs\<close> by (auto simp: locator_wf_def split: if_splits)
    ultimately have "between (tl lhs) rs < rs"
      using "1.IH" 2 rhs by simp
    with 2 rhs show ?thesis by (subst between_unfold) (simp add: Let_def)
  qed
qed

subsection \<open>Dense identifiers as an interface\<close>

text \<open>
  What the fragment list relies on: between an identifier and a well-formed larger one there is
  always another well-formed one. The buffer draws a whole run of identifiers this way, each
  between the previous one and a fixed upper neighbour (the loops of \<open>Buffer::new_normalized\<close> and
  \<open>push_fragments_for_insertion\<close>).
\<close>

fun run_of_ids :: "('i \<Rightarrow> 'i \<Rightarrow> 'i) \<Rightarrow> nat \<Rightarrow> 'i \<Rightarrow> 'i \<Rightarrow> 'i list" where
  "run_of_ids btw 0 a b = []"
| "run_of_ids btw (Suc n) a b = btw a b # run_of_ids btw n (btw a b) b"

locale dense_ids =
  fixes wf :: "'i::linorder \<Rightarrow> bool"
    and btw :: "'i \<Rightarrow> 'i \<Rightarrow> 'i"
  assumes btw_wf: "wf (btw a b)"
    and btw_lower: "a < btw a b"
    and btw_upper: "a < b \<Longrightarrow> wf b \<Longrightarrow> btw a b < b"
begin

lemma run_of_ids_bounds:
  assumes "a < b" "wf b" "x \<in> set (run_of_ids btw n a b)"
  shows "a < x \<and> x < b \<and> wf x"
  using assms
proof (induction n arbitrary: a)
  case (Suc n)
  have m: "a < btw a b" "btw a b < b" "wf (btw a b)"
    using Suc.prems btw_lower btw_upper btw_wf by auto
  show ?case
  proof (cases "x = btw a b")
    case False
    then have "btw a b < x \<and> x < b \<and> wf x" using Suc m by auto
    with m(1) show ?thesis by auto
  qed (use m in simp)
qed simp

lemma run_of_ids_sorted: "a < b \<Longrightarrow> wf b \<Longrightarrow> sorted_wrt (<) (run_of_ids btw n a b)"
proof (induction n arbitrary: a)
  case (Suc n)
  then have "btw a b < b" by (auto intro: btw_upper)
  with Suc run_of_ids_bounds[of "btw a b" b] show ?case by auto
qed simp

end

interpretation loc_ids: dense_ids locator_wf between
  by unfold_locales (auto intro: locator_wf_between between_greater between_less)

subsection \<open>Properties\<close>

text \<open>
  C27: \<open>Locator::between\<close> is dense: for any two identifiers in order, of which the right one does
  not end in a zero digit, the result lies strictly between them, and it never ends in a zero
  digit itself, so it can serve as the right neighbour of the next insertion.
\<close>

theorem between_dense:
  assumes "lhs < rhs" and "locator_wf rhs"
  shows "lhs < between lhs rhs \<and> between lhs rhs < rhs \<and> locator_wf (between lhs rhs)"
  using assms by (simp add: between_greater between_less locator_wf_between)

theorem between_dense_witness:
  "[7 :: u64] < [7, 0, 3] \<and> locator_wf [7, 0, 3] \<and>
   between [7] [7, 0, 3] = [7, 0, 0, 65535] \<and> between [7] [7, 0, 3] < [7, 0, 3]"
proof -
  have h: "[7 :: u64] < [7, 0, 3]" "locator_wf [7, 0, 3]" by (simp_all add: locator_wf_def)
  have "between [7] [7, 0, 3] = [7, 0, 0, 65535]"
    by (simp add: between.simps Let_def mid_digit_pad) (simp add: mid_digit_def saturating_sub_def)
  then show ?thesis using h between_dense[OF h] by blast
qed

lemma between_cons: "between (x # xs) (x # ys) = x # between xs ys"
  by (subst between_unfold) (simp add: Let_def mid_digit_same)

lemma between_zero_end: "between lhs (lhs @ [0]) = lhs @ [0, 65535]"
proof (induction lhs)
  case Nil
  show ?case by (simp add: between.simps Let_def mid_digit_pad)
qed (simp add: between_cons)

text \<open>
  C38: The condition on the right neighbour is needed: whatever the left identifier is, there is no room between it and
  the same digits with a zero after them, and \<open>between\<close> answers with an identifier past its right argument.
\<close>

theorem between_needs_nonzero_end:
  "lhs < lhs @ [0] \<and> lhs @ [0] < between lhs (lhs @ [0]) \<and> \<not> (\<exists>m::locator. lhs < m \<and> m < lhs @ [0])"
proof -
  have no: "\<not> (lhs < m \<and> m < lhs @ [0])" for m :: locator
  proof (induction lhs arbitrary: m)
    case Nil
    then show ?case by (cases m) auto
  next
    case (Cons x xs)
    then show ?case by (cases m) auto
  qed
  have "lhs < lhs @ [0]" "lhs @ [0] < lhs @ [0, 65535]" by (induction lhs) auto
  then show ?thesis using no by (simp add: between_zero_end)
qed

text \<open>
  The run of identifiers that the buffer draws for consecutive new fragments is strictly
  increasing and stays strictly inside the gap, whatever its length.
\<close>

theorem locator_run_sorted:
  assumes "a < b" and "locator_wf b"
  shows "sorted_wrt (<) (run_of_ids between n a b) \<and>
         (\<forall>x \<in> set (run_of_ids between n a b). a < x \<and> x < b)"
  using assms loc_ids.run_of_ids_sorted loc_ids.run_of_ids_bounds by blast

theorem locator_run_sorted_witness:
  "locator_min < locator_max \<and> locator_wf locator_max \<and>
   sorted_wrt (<) (run_of_ids between 3 locator_min locator_max)"
proof -
  have h: "locator_min < locator_max" "locator_wf locator_max"
    by (simp_all add: locator_min_def locator_max_def locator_wf_def word_gt_0)
  show ?thesis using h locator_run_sorted[OF h, of 3] by blast
qed

subsection \<open>Depth of forward appends\<close>

text \<open>Repeated appends at the end of a buffer, as in the initial fragments of a large text.\<close>

fun forward_append :: "nat \<Rightarrow> locator" where
  "forward_append 0 = locator_min"
| "forward_append (Suc n) = between (forward_append n) locator_max"

lemma forward_append_single:
  "n \<le> 2 ^ 47 \<Longrightarrow> \<exists>x. forward_append n = [x] \<and> unat x \<le> n * 2 ^ 16"
proof (induction n)
  case 0
  then show ?case by (simp add: locator_min_def)
next
  case (Suc n)
  then obtain x where x: "forward_append n = [x]" "unat x \<le> n * 2 ^ 16" by auto
  have max: "unat (- 1 :: u64) = 2 ^ 64 - 1"
    by (simp add: unsigned_minus_1_eq_mask mask_eq_exp_minus_1)
  have small: "unat x \<le> 2 ^ 63" using x(2) Suc.prems by simp
  let ?m = "mid_digit x (- 1)"
  have m: "unat ?m = unat x + (2 ^ 64 - 1 - unat x) div 2 ^ 48"
    using unat_mid_digit[of x "- 1"] max by simp
  have "(2 ^ 48 :: nat) \<le> 2 ^ 64 - 1 - unat x" using small by simp
  then have pos: "1 \<le> (2 ^ 64 - 1 - unat x) div 2 ^ 48"
    by (metis div_greater_zero_iff less_eq_Suc_le One_nat_def zero_less_numeral zero_less_power)
  have "(2 ^ 64 - 1 - unat x) div 2 ^ 48 < 2 ^ 16"
    by (rule less_mult_imp_div_less) simp
  then have "unat ?m \<le> Suc n * 2 ^ 16" using m x(2) by simp
  moreover have "x < ?m" using m pos by (simp add: word_less_nat_alt)
  ultimately show ?case
    by (auto simp: x(1) locator_max_def between.simps Let_def)
qed

text \<open>
  sequential forward appends do not grow the identifier: the first \<open>2 ^ 47\<close> of them are single
  digits.
\<close>

theorem forward_append_depth:
  assumes "n \<le> 2 ^ 47"
  shows "length (forward_append n) = 1"
  using forward_append_single[OF assms] by auto

theorem forward_append_depth_witness: "(2 :: nat) \<le> 2 ^ 47 \<and> length (forward_append 2) = 1"
  using forward_append_depth[of 2] by simp

end
