(* ===== verification/SumTree.thy ===== *)
theory SumTree
  imports Prelude
begin

section \<open>The summarised B+ tree (crates/sum_tree/src/sum_tree.rs)\<close>

text \<open>
  \<open>SumTree<T>\<close> is a B+ tree whose leaves hold up to \<open>2 * TREE_BASE\<close> items and whose nodes cache the
  sum of the summaries below them. The traits \<open>Item\<close> and \<open>Summary\<close> are a record of their functions
  (for one value of the context argument), so the operations below take that record as their first
  argument. \<open>Arc<Node<T>>\<close> is the node itself: sharing is not observable. An operation that can
  panic (an \<open>unwrap\<close>, \<open>items()\<close> of an internal node, a fixed-capacity \<open>ArrayVec\<close> that overflows)
  returns an option, and the theorems show that on well-formed trees it returns.
\<close>

definition TREE_BASE :: nat where "TREE_BASE = 6"

abbreviation MAX_CHILDREN :: nat where "MAX_CHILDREN \<equiv> 2 * TREE_BASE"

record ('a, 's) item_ops =
  item_summary :: "'a \<Rightarrow> 's"
  summary_zero :: 's
  add_summary :: "'s \<Rightarrow> 's \<Rightarrow> 's"

record ('s, 'd) dim_ops =
  dim_zero :: 'd
  dim_add :: "'d \<Rightarrow> 's \<Rightarrow> 'd"

datatype bias = Left | Right

definition bias_invert :: "bias \<Rightarrow> bias" where
  "bias_invert b = (case b of Left \<Rightarrow> Right | Right \<Rightarrow> Left)"

datatype ('a, 's) node =
    Internal nat 's "'s list" "('a, 's) node list"
  | Leaf 's "'a list" "'s list"

type_synonym ('a, 's) sum_tree = "('a, 's) node"

subsection \<open>Nodes\<close>

fun is_leaf :: "('a, 's) node \<Rightarrow> bool" where
  "is_leaf (Leaf s xs ss) = True"
| "is_leaf (Internal h s ss ts) = False"

fun node_height :: "('a, 's) node \<Rightarrow> nat" where
  "node_height (Internal h s ss ts) = h"
| "node_height (Leaf s xs ss) = 0"

fun node_summary :: "('a, 's) node \<Rightarrow> 's" where
  "node_summary (Internal h s ss ts) = s"
| "node_summary (Leaf s xs ss) = s"

fun node_child_summaries :: "('a, 's) node \<Rightarrow> 's list" where
  "node_child_summaries (Internal h s ss ts) = ss"
| "node_child_summaries (Leaf s xs ss) = ss"

fun node_child_trees :: "('a, 's) node \<Rightarrow> ('a, 's) node list option" where
  "node_child_trees (Internal h s ss ts) = Some ts"
| "node_child_trees (Leaf s xs ss) = None"

fun node_items :: "('a, 's) node \<Rightarrow> 'a list option" where
  "node_items (Leaf s xs ss) = Some xs"
| "node_items (Internal h s ss ts) = None"

fun is_underflowing :: "('a, 's) node \<Rightarrow> bool" where
  "is_underflowing (Internal h s ss ts) \<longleftrightarrow> length ts < TREE_BASE"
| "is_underflowing (Leaf s xs ss) \<longleftrightarrow> length xs < TREE_BASE"

definition sum_summaries :: "('a, 's) item_ops \<Rightarrow> 's list \<Rightarrow> 's" where
  "sum_summaries D ss = foldl (add_summary D) (summary_zero D) ss"

text \<open>Filling an \<open>ArrayVec\<close> of capacity \<open>2 * TREE_BASE\<close>.\<close>

definition array_vec :: "'x list \<Rightarrow> 'x list option" where
  "array_vec xs = (if length xs \<le> MAX_CHILDREN then Some xs else None)"

subsection \<open>Construction\<close>

definition st_new :: "('a, 's) item_ops \<Rightarrow> ('a, 's) sum_tree" where
  "st_new D = Leaf (summary_zero D) [] []"

definition st_from_summary :: "'s \<Rightarrow> ('a, 's) sum_tree" where
  "st_from_summary s = Leaf s [] []"

text \<open>
  \<open>take(2 * TREE_BASE)\<close> chunks of an iterator, in order; shared by the leaf level and by the
  parallel construction's inner levels.
\<close>

function chunks_of :: "nat \<Rightarrow> 'x list \<Rightarrow> 'x list list" where
  "chunks_of n xs = (if xs = [] \<or> n = 0 then [] else take n xs # chunks_of n (drop n xs))"
  by pat_completeness auto
termination
  by (relation "measure (\<lambda>(n, xs). length xs)") auto

declare chunks_of.simps [simp del]

text \<open>A leaf of the bulk construction: its summary starts from the first item's summary.\<close>

definition leaf_of_chunk :: "('a, 's) item_ops \<Rightarrow> 'a list \<Rightarrow> ('a, 's) node" where
  "leaf_of_chunk D items =
     (let item_summaries = map (item_summary D) items
      in Leaf (foldl (add_summary D) (hd item_summaries) (tl item_summaries)) items item_summaries)"

text \<open>
  One pass of the \<open>while nodes.len() > 1\<close> loop of \<open>from_iter\<close>: children are added to the current
  parent (created on demand with the zero summary) until it is full. The parent under construction
  is given by its summary, child summaries and child trees.
\<close>

fun group_nodes ::
  "('a, 's) item_ops \<Rightarrow> nat \<Rightarrow> ('s \<times> 's list \<times> ('a, 's) node list) option \<Rightarrow>
   ('a, 's) node list \<Rightarrow> ('a, 's) node list"
where
  "group_nodes D height current [] =
     (case current of None \<Rightarrow> [] | Some (s, ss, ts) \<Rightarrow> [Internal height s ss ts])"
| "group_nodes D height current (c # cs) =
     (let (s, ss, ts) = (case current of Some p \<Rightarrow> p | None \<Rightarrow> (summary_zero D, [], []));
          s' = add_summary D s (node_summary c);
          ss' = ss @ [node_summary c];
          ts' = ts @ [c]
      in if length ts' = MAX_CHILDREN
         then Internal height s' ss' ts' # group_nodes D height None cs
         else group_nodes D height (Some (s', ss', ts')) cs)"

lemma length_group_nodes_le:
  "length (group_nodes D h cur cs) \<le> (if cur = None then length cs else max 1 (length cs))"
  by (induction D h cur cs rule: group_nodes.induct)
     (fastforce simp: Let_def split: option.splits prod.splits if_splits)+

lemma length_group_nodes_less:
  assumes "length cs > 1"
  shows "length (group_nodes D h None cs) < length cs"
proof -
  from assms obtain a b r where cs: "cs = a # b # r"
    by (cases cs; cases "tl cs") auto
  have "length (group_nodes D h (Some p) (b # r)) \<le> length (b # r)" for p
    using length_group_nodes_le[of D h "Some p" "b # r"] by simp
  moreover have "\<exists>p. group_nodes D h None cs = group_nodes D h (Some p) (b # r)"
    unfolding cs by (subst group_nodes.simps(2)) (auto simp: Let_def TREE_BASE_def simp del: group_nodes.simps)
  ultimately show ?thesis using cs by (metis impossible_Cons length_Cons less_Suc_eq_le order_trans)
qed

function build_levels ::
  "('a, 's) item_ops \<Rightarrow> nat \<Rightarrow> ('a, 's) node list \<Rightarrow> ('a, 's) node list"
where
  "build_levels D height nodes =
     (if length nodes > 1
      then build_levels D (height + 1) (group_nodes D (height + 1) None nodes)
      else nodes)"
  by pat_completeness auto
termination
  by (relation "measure (\<lambda>(D, h, ns). length ns)") (auto simp: length_group_nodes_less)

declare build_levels.simps [simp del]

definition st_from_iter :: "('a, 's) item_ops \<Rightarrow> 'a list \<Rightarrow> ('a, 's) sum_tree" where
  "st_from_iter D items =
     (let nodes = build_levels D 0 (map (leaf_of_chunk D) (chunks_of MAX_CHILDREN items))
      in if nodes = [] then st_new D else last nodes)"

text \<open>The parallel construction groups each level with \<open>chunks\<close>; every inner summary starts from its
  first child's summary.\<close>

definition node_of_chunk :: "('a, 's) item_ops \<Rightarrow> nat \<Rightarrow> ('a, 's) node list \<Rightarrow> ('a, 's) node" where
  "node_of_chunk D height child_trees =
     (let child_summaries = map node_summary child_trees
      in Internal height (foldl (add_summary D) (hd child_summaries) (tl child_summaries))
           child_summaries child_trees)"

lemma length_chunks_of_less:
  assumes "1 < n" and "length xs > 1"
  shows "length (chunks_of n xs) < length xs"
proof -
  have le: "length (chunks_of n ys) \<le> length ys" for ys :: "'b list"
    using assms(1)
  proof (induction n ys rule: chunks_of.induct)
    case (1 n ys)
    then show ?case by (subst chunks_of.simps) (cases ys, auto)
  qed
  have "length (chunks_of n xs) = 1 + length (chunks_of n (drop n xs))"
    using assms by (subst chunks_of.simps) auto
  also have "\<dots> \<le> 1 + (length xs - n)" using le[of "drop n xs"] by simp
  also have "\<dots> < length xs" using assms by linarith
  finally show ?thesis .
qed

function build_levels_par ::
  "('a, 's) item_ops \<Rightarrow> nat \<Rightarrow> ('a, 's) node list \<Rightarrow> ('a, 's) node list"
where
  "build_levels_par D height nodes =
     (if length nodes > 1
      then build_levels_par D (height + 1)
             (map (node_of_chunk D (height + 1)) (chunks_of MAX_CHILDREN nodes))
      else nodes)"
  by pat_completeness auto
termination
  by (relation "measure (\<lambda>(D, h, ns). length ns)")
     (auto simp: length_chunks_of_less TREE_BASE_def)

declare build_levels_par.simps [simp del]

definition st_from_par_iter :: "('a, 's) item_ops \<Rightarrow> 'a list \<Rightarrow> ('a, 's) sum_tree" where
  "st_from_par_iter D items =
     (let nodes = build_levels_par D 0 (map (leaf_of_chunk D) (chunks_of MAX_CHILDREN items))
      in if nodes = [] then st_new D else last nodes)"

subsection \<open>Appending\<close>

fun st_is_empty :: "('a, 's) sum_tree \<Rightarrow> bool" where
  "st_is_empty (Internal h s ss ts) = False"
| "st_is_empty (Leaf s xs ss) = (xs = [])"

definition from_child_trees ::
  "('a, 's) item_ops \<Rightarrow> ('a, 's) sum_tree \<Rightarrow> ('a, 's) sum_tree \<Rightarrow> ('a, 's) sum_tree" where
  "from_child_trees D left right =
     (let height = node_height left + 1;
          child_summaries = [node_summary left, node_summary right]
      in Internal height (sum_summaries D child_summaries) child_summaries [left, right])"

text \<open>
  The two halves of an overfull node: the first \<open>midpoint\<close> children, rounded up, and the rest, each
  collected into a fresh \<open>ArrayVec\<close>.
\<close>

definition split_vec :: "'x list \<Rightarrow> ('x list \<times> 'x list) option" where
  "split_vec xs =
     (let midpoint = (length xs + length xs mod 2) div 2
      in do { left \<leftarrow> array_vec (take midpoint xs);
              right \<leftarrow> array_vec (drop midpoint xs);
              Some (left, right) })"

text \<open>
  Appends \<open>other\<close> (no higher than the tree) at the right spine. The result is the updated tree and,
  when the node overflowed, the right half that the caller has to place.
\<close>

function push_tree_recursive ::
  "('a, 's) item_ops \<Rightarrow> ('a, 's) sum_tree \<Rightarrow> ('a, 's) sum_tree \<Rightarrow>
   (('a, 's) sum_tree \<times> ('a, 's) sum_tree option) option"
where
  "push_tree_recursive D (Internal height summary child_summaries child_trees) other =
     (let summary' = add_summary D summary (node_summary other) in
      do {
        height_delta \<leftarrow> checked_sub height (node_height other);
        (child_summaries', child_trees', summaries_to_append, trees_to_append) \<leftarrow>
          (if height_delta = 0 then
             do { ts \<leftarrow> node_child_trees other;
                  Some (child_summaries, child_trees, node_child_summaries other, ts) }
           else if height_delta = 1 \<and> \<not> is_underflowing other then
             Some (child_summaries, child_trees, [node_summary other], [other])
           else if child_trees = [] \<or> child_summaries = [] then None
           else do {
             (last_tree, tree_to_append) \<leftarrow> push_tree_recursive D (last child_trees) other;
             Some (butlast child_summaries @ [node_summary last_tree],
                   butlast child_trees @ [last_tree],
                   (case tree_to_append of None \<Rightarrow> [] | Some t \<Rightarrow> [node_summary t]),
                   (case tree_to_append of None \<Rightarrow> [] | Some t \<Rightarrow> [t])) });
        if length child_trees' + length trees_to_append > MAX_CHILDREN then
          do { (left_summaries, right_summaries) \<leftarrow>
                 split_vec (child_summaries' @ summaries_to_append);
               (left_trees, right_trees) \<leftarrow> split_vec (child_trees' @ trees_to_append);
               Some (Internal height (sum_summaries D left_summaries) left_summaries left_trees,
                     Some (Internal height (sum_summaries D right_summaries)
                             right_summaries right_trees)) }
        else
          do { ss \<leftarrow> array_vec (child_summaries' @ summaries_to_append);
               ts \<leftarrow> array_vec (child_trees' @ trees_to_append);
               Some (Internal height summary' ss ts, None) } })"
| "push_tree_recursive D (Leaf summary items item_summaries) other =
     do {
       other_items \<leftarrow> node_items other;
       if length items + length other_items > MAX_CHILDREN then
         do { (left_items, right_items) \<leftarrow> split_vec (items @ other_items);
              (left_summaries, right_summaries) \<leftarrow>
                split_vec (item_summaries @ node_child_summaries other);
              Some (Leaf (sum_summaries D left_summaries) left_items left_summaries,
                    Some (Leaf (sum_summaries D right_summaries) right_items right_summaries)) }
       else
         do { xs \<leftarrow> array_vec (items @ other_items);
              ss \<leftarrow> array_vec (item_summaries @ node_child_summaries other);
              Some (Leaf (add_summary D summary (node_summary other)) xs ss, None) } }"
  by pat_completeness auto

lemma size_last_child [termination_simp]:
  "ts \<noteq> [] \<Longrightarrow> size (last ts) < Suc (n + size_list size ts)"
  using size_list_estimation'[OF last_in_set, of ts "size (last ts)" size] by simp

termination push_tree_recursive
  by (relation "measure (\<lambda>(D, t, other). size t)") (auto simp: termination_simp)

declare push_tree_recursive.simps [simp del]

text \<open>
  Merges an underflowing node into its right neighbour of the same height. The result is the new
  right node and, when both do not fit into one, the left half.
\<close>

fun merge_into_right ::
  "('a, 's) item_ops \<Rightarrow> ('a, 's) sum_tree \<Rightarrow> ('a, 's) sum_tree \<Rightarrow>
   (('a, 's) sum_tree \<times> ('a, 's) sum_tree option) option"
where
  "merge_into_right D (Internal small_height small_summary small_child_summaries small_child_trees)
     (Internal height summary child_summaries child_trees) =
     (if length child_trees + length small_child_trees \<le> MAX_CHILDREN then
        do { all_trees \<leftarrow> array_vec (small_child_trees @ child_trees);
             all_summaries \<leftarrow> array_vec (small_child_summaries @ child_summaries);
             Some (Internal height (add_summary D small_summary summary) all_summaries all_trees,
                   None) }
      else
        do { (left_trees, right_trees) \<leftarrow> split_vec (small_child_trees @ child_trees);
             (left_summaries, right_summaries) \<leftarrow>
               split_vec (small_child_summaries @ child_summaries);
             Some (Internal height (sum_summaries D right_summaries) right_summaries right_trees,
                   Some (Internal height (sum_summaries D left_summaries)
                           left_summaries left_trees)) })"
| "merge_into_right D (Leaf small_summary small_items small_item_summaries)
     (Leaf summary items item_summaries) =
     (if length small_items + length items \<le> MAX_CHILDREN then
        do { all_items \<leftarrow> array_vec (small_items @ items);
             all_summaries \<leftarrow> array_vec (small_item_summaries @ item_summaries);
             Some (Leaf (add_summary D small_summary summary) all_items all_summaries, None) }
      else
        do { (left_items, right_items) \<leftarrow> split_vec (small_items @ items);
             (left_summaries, right_summaries) \<leftarrow>
               split_vec (small_item_summaries @ item_summaries);
             Some (Leaf (sum_summaries D right_summaries) right_items right_summaries,
                   Some (Leaf (sum_summaries D left_summaries) left_items left_summaries)) })"
| "merge_into_right D _ _ = None"

text \<open>
  Prepends a tree to a higher one along the left spine of the latter. The result is the updated
  large tree and, when its node was full, a new left sibling of it.
\<close>

function append_large ::
  "('a, 's) item_ops \<Rightarrow> ('a, 's) sum_tree \<Rightarrow> ('a, 's) sum_tree \<Rightarrow>
   (('a, 's) sum_tree \<times> ('a, 's) sum_tree option) option"
where
  "append_large D small large =
     (if node_height small = node_height large then
        (if \<not> is_underflowing small then Some (large, Some small)
         else merge_into_right D small large)
      else
        (case large of
           Leaf s xs ss \<Rightarrow> None
         | Internal height summary child_summaries child_trees \<Rightarrow>
             (let summary' = add_summary D (node_summary small) summary in
              if child_trees = [] \<or> child_summaries = [] then None
              else do {
                (first, res) \<leftarrow> append_large D small (hd child_trees);
                let child_summaries' = node_summary first # tl child_summaries;
                let child_trees' = first # tl child_trees;
                (case res of
                   None \<Rightarrow> Some (Internal height summary' child_summaries' child_trees', None)
                 | Some tree \<Rightarrow>
                     if length child_trees' < MAX_CHILDREN then
                       do { ss \<leftarrow> array_vec (node_summary tree # child_summaries');
                            ts \<leftarrow> array_vec (tree # child_trees');
                            Some (Internal height summary' ss ts, None) }
                     else
                       do { new_child_summaries \<leftarrow>
                              array_vec (node_summary tree # take TREE_BASE child_summaries');
                            new_child_trees \<leftarrow> array_vec (tree # take TREE_BASE child_trees');
                            let rest_summaries = drop TREE_BASE child_summaries';
                            Some (Internal height (sum_summaries D rest_summaries) rest_summaries
                                    (drop TREE_BASE child_trees'),
                                  Some (Internal height (sum_summaries D new_child_summaries)
                                          new_child_summaries new_child_trees)) }) })))"
  by pat_completeness auto

lemma size_hd_child [termination_simp]:
  "ts \<noteq> [] \<Longrightarrow> size (hd ts) < Suc (n + size_list size ts)"
  using size_list_estimation'[OF hd_in_set, of ts "size (hd ts)" size] by simp

termination append_large
  by (relation "measure (\<lambda>(D, small, large). size large)") (auto simp: termination_simp)

declare append_large.simps [simp del]

definition st_append ::
  "('a, 's) item_ops \<Rightarrow> ('a, 's) sum_tree \<Rightarrow> ('a, 's) sum_tree \<Rightarrow> ('a, 's) sum_tree option"
where
  "st_append D self other =
     (if st_is_empty self then Some other
      else if \<not> is_leaf other \<or> node_items other \<noteq> Some [] then
        (if node_height self < node_height other then
           do { (other', res) \<leftarrow> append_large D self other;
                Some (case res of Some tree \<Rightarrow> from_child_trees D tree other' | None \<Rightarrow> other') }
         else
           do { (self', res) \<leftarrow> push_tree_recursive D self other;
                Some (case res of
                        Some split_tree \<Rightarrow> from_child_trees D self' split_tree
                      | None \<Rightarrow> self') })
      else Some self)"

definition st_push ::
  "('a, 's) item_ops \<Rightarrow> ('a, 's) sum_tree \<Rightarrow> 'a \<Rightarrow> ('a, 's) sum_tree option" where
  "st_push D self item =
     (let summary = item_summary D item in st_append D self (Leaf summary [item] [summary]))"

definition st_from_item :: "('a, 's) item_ops \<Rightarrow> 'a \<Rightarrow> ('a, 's) sum_tree option" where
  "st_from_item D item = st_push D (st_new D) item"

definition st_extend ::
  "('a, 's) item_ops \<Rightarrow> ('a, 's) sum_tree \<Rightarrow> 'a list \<Rightarrow> ('a, 's) sum_tree option" where
  "st_extend D self items = st_append D self (st_from_iter D items)"

definition st_par_extend ::
  "('a, 's) item_ops \<Rightarrow> ('a, 's) sum_tree \<Rightarrow> 'a list \<Rightarrow> ('a, 's) sum_tree option" where
  "st_par_extend D self items = st_append D self (st_from_par_iter D items)"

subsection \<open>The ends of a tree\<close>

function leftmost_leaf :: "('a, 's) sum_tree \<Rightarrow> ('a, 's) sum_tree option" where
  "leftmost_leaf (Leaf s xs ss) = Some (Leaf s xs ss)"
| "leftmost_leaf (Internal h s ss ts) = (if ts = [] then None else leftmost_leaf (hd ts))"
  by pat_completeness auto
termination
  by (relation "measure size") (auto simp: termination_simp)

function rightmost_leaf :: "('a, 's) sum_tree \<Rightarrow> ('a, 's) sum_tree option" where
  "rightmost_leaf (Leaf s xs ss) = Some (Leaf s xs ss)"
| "rightmost_leaf (Internal h s ss ts) = (if ts = [] then None else rightmost_leaf (last ts))"
  by pat_completeness auto
termination
  by (relation "measure size") (auto simp: termination_simp)

definition vec_first :: "'x list \<Rightarrow> 'x option" where
  "vec_first xs = (case xs of [] \<Rightarrow> None | x # _ \<Rightarrow> Some x)"

definition st_first :: "('a, 's) sum_tree \<Rightarrow> 'a option option" where
  "st_first t = do { l \<leftarrow> leftmost_leaf t; xs \<leftarrow> node_items l; Some (vec_first xs) }"

definition st_last :: "('a, 's) sum_tree \<Rightarrow> 'a option option" where
  "st_last t = do { l \<leftarrow> rightmost_leaf t; xs \<leftarrow> node_items l; Some (vec_last xs) }"

definition st_last_summary :: "('a, 's) sum_tree \<Rightarrow> 's option option" where
  "st_last_summary t = do { l \<leftarrow> rightmost_leaf t; Some (vec_last (node_child_summaries l)) }"

function update_last_recursive ::
  "('a, 's) item_ops \<Rightarrow> ('a \<Rightarrow> 'a) \<Rightarrow> ('a, 's) sum_tree \<Rightarrow> (('a, 's) sum_tree \<times> 's option) option"
where
  "update_last_recursive D f (Internal h s child_summaries child_trees) =
     (if child_summaries = [] \<or> child_trees = [] then None
      else do {
        (last_child, res) \<leftarrow> update_last_recursive D f (last child_trees);
        last_summary \<leftarrow> res;
        let child_summaries' = butlast child_summaries @ [last_summary];
        let s' = sum_summaries D child_summaries';
        Some (Internal h s' child_summaries' (butlast child_trees @ [last_child]), Some s') })"
| "update_last_recursive D f (Leaf s items item_summaries) =
     (if items \<noteq> [] \<and> item_summaries \<noteq> [] then
        (let item = f (last items);
             item_summaries' = butlast item_summaries @ [item_summary D item];
             s' = sum_summaries D item_summaries'
         in Some (Leaf s' (butlast items @ [item]) item_summaries', Some s'))
      else Some (Leaf s items item_summaries, None))"
  by pat_completeness auto
termination
  by (relation "measure (\<lambda>(D, f, t). size t)") (auto simp: termination_simp)

definition st_update_last ::
  "('a, 's) item_ops \<Rightarrow> ('a, 's) sum_tree \<Rightarrow> ('a \<Rightarrow> 'a) \<Rightarrow> ('a, 's) sum_tree option" where
  "st_update_last D t f = map_option fst (update_last_recursive D f t)"

function update_first_recursive ::
  "('a, 's) item_ops \<Rightarrow> ('a \<Rightarrow> 'a) \<Rightarrow> ('a, 's) sum_tree \<Rightarrow> (('a, 's) sum_tree \<times> 's option) option"
where
  "update_first_recursive D f (Internal h s child_summaries child_trees) =
     (if child_summaries = [] \<or> child_trees = [] then None
      else do {
        (first_child, res) \<leftarrow> update_first_recursive D f (hd child_trees);
        first_summary \<leftarrow> res;
        let child_summaries' = first_summary # tl child_summaries;
        let s' = sum_summaries D child_summaries';
        Some (Internal h s' child_summaries' (first_child # tl child_trees), Some s') })"
| "update_first_recursive D f (Leaf s items item_summaries) =
     (if items \<noteq> [] \<and> item_summaries \<noteq> [] then
        (let item = f (hd items);
             item_summaries' = item_summary D item # tl item_summaries;
             s' = sum_summaries D item_summaries'
         in Some (Leaf s' (item # tl items) item_summaries', Some s'))
      else Some (Leaf s items item_summaries, None))"
  by pat_completeness auto
termination
  by (relation "measure (\<lambda>(D, f, t). size t)") (auto simp: termination_simp)

definition st_update_first ::
  "('a, 's) item_ops \<Rightarrow> ('a, 's) sum_tree \<Rightarrow> ('a \<Rightarrow> 'a) \<Rightarrow> ('a, 's) sum_tree option" where
  "st_update_first D t f = map_option fst (update_first_recursive D f t)"

definition st_extent :: "('s, 'd) dim_ops \<Rightarrow> ('a, 's) sum_tree \<Rightarrow> 'd" where
  "st_extent M t = dim_add M (dim_zero M) (node_summary t)"

subsection \<open>Finding a position\<close>

text \<open>
  A seek target is the function that compares it with a cursor location. The \<open>for\<close> loops over the
  children of a node share \<open>scan\<close>: the position at which the loop stops and the entry it stops at
  with that entry's end, or the end of the loop.
\<close>

definition target_in :: "('d \<Rightarrow> ordering) \<Rightarrow> bias \<Rightarrow> 'd \<Rightarrow> bool" where
  "target_in target b location \<longleftrightarrow>
     target location = Less \<or> (target location = Equal \<and> b = Left)"

fun scan :: "('s, 'd) dim_ops \<Rightarrow> ('d \<Rightarrow> bool) \<Rightarrow> 'd \<Rightarrow> ('x \<times> 's) list \<Rightarrow> 'd \<times> ('x \<times> 'd) option" where
  "scan M found position [] = (position, None)"
| "scan M found position ((x, summary) # rest) =
     (let child_end = dim_add M position summary
      in if found child_end then (position, Some (x, child_end))
         else scan M found child_end rest)"

lemma scan_in: "scan M found pos ps = (pos', Some (x, e)) \<Longrightarrow> x \<in> fst ` set ps"
  by (induction M found pos ps rule: scan.induct) (auto simp: Let_def split: if_splits)

lemma scan_size [termination_simp]:
  assumes "(pos', Some (x, e)) = scan M found pos (zip ts ss)"
  shows "size x < Suc (n + size_list size ts)"
proof -
  have "x \<in> set ts" using scan_in[OF assms[symmetric]] by (auto dest: set_zip_leftD)
  then show ?thesis using size_list_estimation'[of x ts "size x" size] by simp
qed

function find_iterate ::
  "('s, 'd) dim_ops \<Rightarrow> ('d \<Rightarrow> ordering) \<Rightarrow> bias \<Rightarrow> bool \<Rightarrow> 'd \<Rightarrow> ('a, 's) sum_tree \<Rightarrow>
   'd \<times> ('a \<times> 'd) option"
where
  "find_iterate M target b exact position (Internal h s child_summaries child_trees) =
     (case scan M (target_in target b) position (zip child_trees child_summaries) of
        (position', None) \<Rightarrow> (position', None)
      | (position', Some (child_tree, _)) \<Rightarrow>
          find_iterate M target b exact position' child_tree)"
| "find_iterate M target b exact position (Leaf s items item_summaries) =
     scan M (\<lambda>child_end. if exact then target child_end = Equal else target_in target b child_end)
       position (zip items item_summaries)"
  by pat_completeness auto
termination
  by (relation "measure (\<lambda>(M, target, b, exact, position, t). size t)")
     (auto simp: termination_simp)

text \<open>\<open>find\<close> and \<open>find_exact\<close>: start and end of the found item and the item, if any.\<close>

definition st_find_gen ::
  "bool \<Rightarrow> ('s, 'd) dim_ops \<Rightarrow> ('a, 's) sum_tree \<Rightarrow> ('d \<Rightarrow> ordering) \<Rightarrow> bias \<Rightarrow> 'd \<times> 'd \<times> 'a option"
where
  "st_find_gen exact M t target b =
     (let tree_end = dim_add M (dim_zero M) (node_summary t)
      in if target tree_end = Greater \<or> (target tree_end = Equal \<and> b = Right)
         then (tree_end, tree_end, None)
         else (case find_iterate M target b exact (dim_zero M) t of
                 (pos, Some (item, e)) \<Rightarrow> (pos, e, Some item)
               | (pos, None) \<Rightarrow> (pos, pos, None)))"

definition st_find ::
  "('s, 'd) dim_ops \<Rightarrow> ('a, 's) sum_tree \<Rightarrow> ('d \<Rightarrow> ordering) \<Rightarrow> bias \<Rightarrow> 'd \<times> 'd \<times> 'a option" where
  "st_find M t target b = st_find_gen False M t target b"

definition st_find_exact ::
  "('s, 'd) dim_ops \<Rightarrow> ('a, 's) sum_tree \<Rightarrow> ('d \<Rightarrow> ordering) \<Rightarrow> bias \<Rightarrow> 'd \<times> 'd \<times> 'a option" where
  "st_find_exact M t target b = st_find_gen True M t target b"

text \<open>\<open>find_with_prev\<close> also remembers the item before the one it finds.\<close>

fun scan_prev ::
  "('s, 'd) dim_ops \<Rightarrow> ('d \<Rightarrow> bool) \<Rightarrow> ('x \<Rightarrow> 'a option option) \<Rightarrow> 'd \<Rightarrow> 'a option \<Rightarrow>
   ('x \<times> 's) list \<Rightarrow> ('d \<times> 'a option \<times> ('x \<times> 'd) option) option"
where
  "scan_prev M found last_of position prev [] = Some (position, prev, None)"
| "scan_prev M found last_of position prev ((x, summary) # rest) =
     (let child_end = dim_add M position summary
      in if found child_end then Some (position, prev, Some (x, child_end))
         else do { prev' \<leftarrow> last_of x; scan_prev M found last_of child_end prev' rest })"

lemma scan_prev_scan:
  assumes "scan_prev M found f pos prev ps = Some (pos', prev', res)"
  shows "scan M found pos ps = (pos', res)"
  using assms
  by (induction M found f pos prev ps rule: scan_prev.induct)
     (auto simp: Let_def split: if_splits bind_splits)

lemma scan_prev_size [termination_simp]:
  assumes "scan_prev M found f pos prev (zip ts ss) = Some (pos', prev', Some (x, e))"
  shows "size x < Suc (n + size_list size ts)"
  using scan_size[OF scan_prev_scan[OF assms, symmetric]] .

function find_with_prev_iterate ::
  "('s, 'd) dim_ops \<Rightarrow> ('d \<Rightarrow> ordering) \<Rightarrow> bias \<Rightarrow> 'd \<Rightarrow> 'a option \<Rightarrow> ('a, 's) sum_tree \<Rightarrow>
   ('d \<times> 'a option \<times> ('a \<times> 'd) option) option"
where
  "find_with_prev_iterate M target b position prev (Internal h s child_summaries child_trees) =
     (case scan_prev M (target_in target b) st_last position prev
             (zip child_trees child_summaries) of
        None \<Rightarrow> None
      | Some (position', prev', None) \<Rightarrow> Some (position', prev', None)
      | Some (position', prev', Some (child_tree, _)) \<Rightarrow>
          find_with_prev_iterate M target b position' prev' child_tree)"
| "find_with_prev_iterate M target b position prev (Leaf s items item_summaries) =
     scan_prev M (target_in target b) (\<lambda>item. Some (Some item)) position prev
       (zip items item_summaries)"
  by pat_completeness auto
termination
  by (relation "measure (\<lambda>(M, target, b, position, prev, t). size t)")
     (auto simp: termination_simp)

definition st_find_with_prev ::
  "('s, 'd) dim_ops \<Rightarrow> ('a, 's) sum_tree \<Rightarrow> ('d \<Rightarrow> ordering) \<Rightarrow> bias \<Rightarrow>
   ('d \<times> 'd \<times> ('a option \<times> 'a) option) option"
where
  "st_find_with_prev M t target b =
     (let tree_end = dim_add M (dim_zero M) (node_summary t)
      in if target tree_end = Greater \<or> (target tree_end = Equal \<and> b = Right)
         then Some (tree_end, tree_end, None)
         else do { (pos, prev, res) \<leftarrow>
                     find_with_prev_iterate M target b (dim_zero M) None t;
                   Some (case res of
                           Some (item, e) \<Rightarrow> (pos, e, Some (prev, item))
                         | None \<Rightarrow> (pos, pos, None)) })"

end
