(* ===== verification/SumTree_Seq.thy ===== *)
theory SumTree_Seq
  imports SumTree
begin

section \<open>Sum trees as sequences\<close>

text \<open>
  The abstraction of a sum tree is the sequence of its items. A tree is well formed (\<open>st_wf\<close>) when
  all leaves are at the same depth, node sizes respect the fixed capacity, no child is empty, and
  every cached summary is the sum over the items below it. This theory proves that the bulk
  constructions and the append machinery implement list concatenation on well-formed trees without
  panicking, and that the find operations agree with a linear scan.
\<close>

fun to_list :: "('a, 's) sum_tree \<Rightarrow> 'a list" where
  "to_list (Leaf s xs ss) = xs"
| "to_list (Internal h s ss ts) = concat (map to_list ts)"

fun st_wf :: "('a, 's) item_ops \<Rightarrow> ('s \<Rightarrow> bool) \<Rightarrow> ('a, 's) sum_tree \<Rightarrow> bool" where
  "st_wf D V (Leaf s xs ss) \<longleftrightarrow>
     length xs \<le> MAX_CHILDREN \<and> ss = map (item_summary D) xs \<and> s = sum_summaries D ss \<and>
     (\<forall>x\<in>set xs. V (item_summary D x))"
| "st_wf D V (Internal h s ss ts) \<longleftrightarrow>
     h > 0 \<and> ts \<noteq> [] \<and> length ts \<le> MAX_CHILDREN \<and> ss = map node_summary ts \<and>
     s = sum_summaries D ss \<and>
     (\<forall>t\<in>set ts. st_wf D V t \<and> node_height t = h - 1 \<and> to_list t \<noteq> [])"

text \<open>A well-formed non-empty tree of a given height: what a node's children are.\<close>

definition st_good :: "('a, 's) item_ops \<Rightarrow> ('s \<Rightarrow> bool) \<Rightarrow> nat \<Rightarrow> ('a, 's) sum_tree \<Rightarrow> bool" where
  "st_good D V h t \<longleftrightarrow> st_wf D V t \<and> node_height t = h \<and> to_list t \<noteq> []"

text \<open>
  A node and, after an overflow, its right sibling; together they hold the given items.
\<close>

definition seq_pair ::
  "('a, 's) item_ops \<Rightarrow> ('s \<Rightarrow> bool) \<Rightarrow> nat \<Rightarrow> ('a, 's) sum_tree \<times> ('a, 's) sum_tree option \<Rightarrow>
   'a list \<Rightarrow> bool"
where
  "seq_pair D V h p xs \<longleftrightarrow>
     (case p of
        (t, None) \<Rightarrow> st_good D V h t \<and> to_list t = xs
      | (t, Some u) \<Rightarrow> st_good D V h t \<and> st_good D V h u \<and> to_list t @ to_list u = xs)"

text \<open>Results whose new sibling is the left one, put in sequence order.\<close>

fun left_first ::
  "('a, 's) sum_tree \<times> ('a, 's) sum_tree option \<Rightarrow> ('a, 's) sum_tree \<times> ('a, 's) sum_tree option" where
  left_first_def: "left_first (t, res) = (case res of None \<Rightarrow> (t, None) | Some u \<Rightarrow> (u, Some t))"

lemma TREE_BASE_pos [simp]: "0 < TREE_BASE" "1 < TREE_BASE"
  by (simp_all add: TREE_BASE_def)

lemma array_vec_Some [simp]: "length xs \<le> MAX_CHILDREN \<Longrightarrow> array_vec xs = Some xs"
  by (simp add: array_vec_def)

lemma split_vec_Some:
  assumes "length xs > MAX_CHILDREN" "length xs \<le> 2 * MAX_CHILDREN"
  obtains ls rs where "split_vec xs = Some (ls, rs)" "xs = ls @ rs" "ls \<noteq> []" "rs \<noteq> []"
    "length ls \<le> MAX_CHILDREN" "length rs \<le> MAX_CHILDREN"
    "length ls = (length xs + length xs mod 2) div 2"
proof -
  define m where "m = (length xs + length xs mod 2) div 2"
  have m: "0 < m" "m < length xs" "m \<le> MAX_CHILDREN" "length xs - m \<le> MAX_CHILDREN"
    using assms by (auto simp: m_def TREE_BASE_def)
  have "split_vec xs = Some (take m xs, drop m xs)"
    using m by (simp add: split_vec_def m_def[symmetric] Let_def)
  with m show thesis by (intro that[of "take m xs" "drop m xs"]) (auto simp flip: m_def)
qed

lemma split_vec_map: "split_vec (map f xs) = map_option (map_prod (map f) (map f)) (split_vec xs)"
  by (auto simp: split_vec_def Let_def array_vec_def take_map drop_map)

lemma st_wf_Internal_good:
  "st_wf D V (Internal h s ss ts) \<longleftrightarrow>
     h > 0 \<and> ts \<noteq> [] \<and> length ts \<le> MAX_CHILDREN \<and> ss = map node_summary ts \<and>
     s = sum_summaries D ss \<and> (\<forall>t\<in>set ts. st_good D V (h - 1) t)"
  by (auto simp: st_good_def)

lemma to_list_Internal_not_Nil:
  "ts \<noteq> [] \<Longrightarrow> \<forall>t\<in>set ts. st_good D V h t \<Longrightarrow> concat (map to_list ts) \<noteq> []"
  by (cases ts) (auto simp: st_good_def)

lemma st_wf_Internal_nonempty: "st_wf D V (Internal h s ss ts) \<Longrightarrow> to_list (Internal h s ss ts) \<noteq> []"
  by (cases ts) auto

lemma st_is_empty_iff: "st_wf D V t \<Longrightarrow> st_is_empty t \<longleftrightarrow> to_list t = []"
  by (cases t) (auto simp: neq_Nil_conv)

lemma st_good_nonempty: "st_good D V h t \<Longrightarrow> to_list t \<noteq> []"
  by (simp add: st_good_def)

lemma st_good_height_0E:
  assumes "st_good D V 0 t"
  obtains xs where "t = Leaf (sum_summaries D (map (item_summary D) xs)) xs (map (item_summary D) xs)"
    "xs \<noteq> []" "length xs \<le> MAX_CHILDREN" "\<forall>x\<in>set xs. V (item_summary D x)"
  using assms by (cases t) (auto simp: st_good_def)

lemma st_good_height_SucE:
  assumes "st_good D V (Suc h) t"
  obtains ts where "t = Internal (Suc h) (sum_summaries D (map node_summary ts)) (map node_summary ts) ts"
    "ts \<noteq> []" "length ts \<le> MAX_CHILDREN" "\<forall>t\<in>set ts. st_good D V h t"
  using assms by (cases t) (auto simp: st_good_def)

lemma st_good_LeafI:
  "xs \<noteq> [] \<Longrightarrow> length xs \<le> MAX_CHILDREN \<Longrightarrow> \<forall>x\<in>set xs. V (item_summary D x) \<Longrightarrow>
   st_good D V 0 (Leaf (sum_summaries D (map (item_summary D) xs)) xs (map (item_summary D) xs))"
  by (simp add: st_good_def)

lemma st_good_InternalI:
  assumes "ts \<noteq> []" "length ts \<le> MAX_CHILDREN" "\<forall>t\<in>set ts. st_good D V h t"
    and "s = sum_summaries D (map node_summary ts)"
  shows "st_good D V (Suc h) (Internal (Suc h) s (map node_summary ts) ts)"
  using assms to_list_Internal_not_Nil[OF assms(1,3)] by (auto simp: st_good_def)

lemma st_wf_new [simp]: "st_wf D V (st_new D)"
  by (simp add: st_new_def sum_summaries_def)

lemma to_list_new [simp]: "to_list (st_new D) = []"
  by (simp add: st_new_def)

subsection \<open>Chunks\<close>

lemma chunks_of_Nil [simp]: "chunks_of n [] = []"
  by (simp add: chunks_of.simps)

lemma chunks_of_step: "xs \<noteq> [] \<Longrightarrow> 0 < n \<Longrightarrow> chunks_of n xs = take n xs # chunks_of n (drop n xs)"
  by (subst chunks_of.simps) simp

lemma concat_chunks_of: "0 < n \<Longrightarrow> concat (chunks_of n xs) = xs"
proof (induction n xs rule: chunks_of.induct)
  case (1 n xs)
  then show ?case by (cases "xs = []") (auto simp: chunks_of_step)
qed

lemma chunks_of_bounds: "c \<in> set (chunks_of n xs) \<Longrightarrow> c \<noteq> [] \<and> length c \<le> n \<and> set c \<subseteq> set xs"
proof (induction n xs rule: chunks_of.induct)
  case (1 n xs)
  then show ?case
    by (cases "xs = [] \<or> n = 0") (auto simp: chunks_of.simps[of n xs] dest: in_set_takeD in_set_dropD)
qed

text \<open>A parent of the given children, with its summary computed from theirs.\<close>

definition sum_node :: "('a, 's) item_ops \<Rightarrow> nat \<Rightarrow> ('a, 's) node list \<Rightarrow> ('a, 's) node" where
  "sum_node D h ts = Internal h (sum_summaries D (map node_summary ts)) (map node_summary ts) ts"

text \<open>The incremental grouping of \<open>from_iter\<close> makes the same parents as grouping by chunks.\<close>

lemma group_nodes_chunks:
  assumes "length ts < MAX_CHILDREN"
    and "cur = (if ts = [] then None
                else Some (sum_summaries D (map node_summary ts), map node_summary ts, ts))"
  shows "group_nodes D h cur cs = map (sum_node D h) (chunks_of MAX_CHILDREN (ts @ cs))"
  using assms
proof (induction cs arbitrary: cur ts)
  case Nil
  then show ?case by (auto simp: chunks_of_step sum_node_def)
next
  case (Cons c cs)
  let ?ts = "ts @ [c]"
  have cur: "(case cur of Some p \<Rightarrow> p | None \<Rightarrow> (summary_zero D, [], [])) =
      (sum_summaries D (map node_summary ts), map node_summary ts, ts)"
    using Cons.prems by (simp add: sum_summaries_def)
  have sum: "add_summary D (sum_summaries D (map node_summary ts)) (node_summary c) =
      sum_summaries D (map node_summary ?ts)"
    by (simp add: sum_summaries_def)
  show ?case
  proof (cases "length ?ts = MAX_CHILDREN")
    case True
    then have "chunks_of MAX_CHILDREN (ts @ c # cs) = ?ts # chunks_of MAX_CHILDREN cs"
      using chunks_of_step[of "?ts @ cs" MAX_CHILDREN] take_append[of "length ?ts" ?ts cs]
        drop_append[of "length ?ts" ?ts cs] by (simp del: take_append drop_append)
    with True show ?thesis
      using Cons.IH[of "[]" None] sum by (simp add: cur sum_node_def Let_def)
  next
    case False
    with Cons.prems have "length ?ts < MAX_CHILDREN" by simp
    with False show ?thesis
      using Cons.IH[of ?ts "Some (sum_summaries D (map node_summary ?ts), map node_summary ?ts, ?ts)"] sum
      by (simp add: cur)
  qed
qed

lemmas group_nodes_None = group_nodes_chunks[where ts = "[]" and cur = None, simplified]

subsection \<open>Summaries form a monoid\<close>

text \<open>
  The laws of \<open>Summary\<close> that the tree relies on, for the summaries \<open>V\<close> that can occur: adding is
  associative, stays within \<open>V\<close>, and the zero summary is neutral on the left. It need not be neutral
  on the right (a key summary keeps the right-most key).
\<close>

locale sum_laws =
  fixes D :: "('a, 's) item_ops" and V :: "'s \<Rightarrow> bool"
  assumes V_add: "V a \<Longrightarrow> V b \<Longrightarrow> V (add_summary D a b)"
    and add_assoc: "V a \<Longrightarrow> V b \<Longrightarrow> V c \<Longrightarrow>
      add_summary D (add_summary D a b) c = add_summary D a (add_summary D b c)"
    and zero_add: "V a \<Longrightarrow> add_summary D (summary_zero D) a = a"
begin

lemma V_foldl: "V a \<Longrightarrow> \<forall>s\<in>set ss. V s \<Longrightarrow> V (foldl (add_summary D) a ss)"
  by (induction ss arbitrary: a) (auto simp: V_add)

lemma sum_Cons: "V s \<Longrightarrow> sum_summaries D (s # ss) = foldl (add_summary D) s ss"
  by (simp add: sum_summaries_def zero_add)

lemma V_sum: "ss \<noteq> [] \<Longrightarrow> \<forall>s\<in>set ss. V s \<Longrightarrow> V (sum_summaries D ss)"
  by (cases ss) (auto simp: sum_Cons V_foldl)

lemma foldl_add:
  "V a \<Longrightarrow> ss \<noteq> [] \<Longrightarrow> \<forall>s\<in>set ss. V s \<Longrightarrow>
   foldl (add_summary D) a ss = add_summary D a (sum_summaries D ss)"
proof (induction ss arbitrary: a)
  case (Cons s ss)
  show ?case
  proof (cases "ss = []")
    case False
    have "foldl (add_summary D) a (s # ss) = add_summary D (add_summary D a s) (sum_summaries D ss)"
      using Cons False by (simp add: V_add)
    also have "\<dots> = add_summary D a (add_summary D s (sum_summaries D ss))"
      using Cons.prems False V_sum[of ss] by (simp add: add_assoc)
    also have "add_summary D s (sum_summaries D ss) = sum_summaries D (s # ss)"
      using Cons False by (simp add: sum_Cons)
    finally show ?thesis .
  qed (use Cons.prems in \<open>simp add: sum_Cons\<close>)
qed simp

lemma sum_append:
  assumes "xs \<noteq> []" "ys \<noteq> []" "\<forall>s\<in>set (xs @ ys). V s"
  shows "sum_summaries D (xs @ ys) = add_summary D (sum_summaries D xs) (sum_summaries D ys)"
  using assms V_sum[of xs] foldl_add[of "sum_summaries D xs" ys]
  by (simp add: sum_summaries_def)

lemma sum_concat:
  assumes "xss \<noteq> []" "\<forall>xs\<in>set xss. xs \<noteq> [] \<and> (\<forall>s\<in>set xs. V s)"
  shows "sum_summaries D (map (sum_summaries D) xss) = sum_summaries D (concat xss)"
  using assms
proof (induction xss)
  case (Cons xs xss)
  show ?case
  proof (cases "xss = []")
    case False
    then have ne: "concat xss \<noteq> []" using Cons.prems by (cases xss) auto
    have "sum_summaries D (map (sum_summaries D) (xs # xss)) =
        add_summary D (sum_summaries D xs) (sum_summaries D (map (sum_summaries D) xss))"
      using Cons.prems False by (simp add: sum_Cons V_sum foldl_add)
    also have "\<dots> = sum_summaries D (xs @ concat xss)"
      using Cons False ne by (subst sum_append) auto
    finally show ?thesis by simp
  qed (use Cons.prems V_sum[of xs] in \<open>simp add: sum_Cons\<close>)
qed simp

lemma sum_children:
  assumes "ts \<noteq> []"
    and "\<forall>t\<in>set ts. node_summary t = sum_summaries D (map (item_summary D) (to_list t)) \<and>
           to_list t \<noteq> [] \<and> (\<forall>x\<in>set (to_list t). V (item_summary D x))"
  shows "sum_summaries D (map node_summary ts) =
         sum_summaries D (map (item_summary D) (concat (map to_list ts)))"
proof -
  define xss where "xss = map (\<lambda>u. map (item_summary D) (to_list u)) ts"
  have eq: "map node_summary ts = map (sum_summaries D) xss"
    using assms(2) by (simp add: xss_def)
  have "xss \<noteq> []" "\<forall>xs\<in>set xss. xs \<noteq> [] \<and> (\<forall>s\<in>set xs. V s)"
    using assms by (auto simp: xss_def)
  then have "sum_summaries D (map node_summary ts) = sum_summaries D (concat xss)"
    unfolding eq by (rule sum_concat)
  then show ?thesis by (simp add: map_concat comp_def xss_def)
qed

text \<open>A cached summary is the sum over the items below.\<close>

lemma good_summary:
  "st_good D V h t \<Longrightarrow>
   node_summary t = sum_summaries D (map (item_summary D) (to_list t)) \<and> V (node_summary t) \<and>
   (\<forall>x\<in>set (to_list t). V (item_summary D x))"
proof (induction h arbitrary: t)
  case 0
  then show ?case by (elim st_good_height_0E) (auto intro!: V_sum)
next
  case (Suc h)
  from Suc.prems obtain ts where t: "t = Internal (Suc h) (sum_summaries D (map node_summary ts)) (map node_summary ts) ts"
      and ts: "ts \<noteq> []" "\<forall>u\<in>set ts. st_good D V h u"
    by (rule st_good_height_SucE)
  have "sum_summaries D (map node_summary ts) =
      sum_summaries D (map (item_summary D) (concat (map to_list ts)))"
    using ts Suc.IH by (intro sum_children ballI conjI) (auto dest: st_good_nonempty)
  then have "node_summary t = sum_summaries D (map (item_summary D) (to_list t))"
    by (simp add: t)
  moreover have "V (node_summary t)"
    using Suc.IH[THEN conjunct2, THEN conjunct1] ts by (auto simp: t intro!: V_sum)
  ultimately show ?case using Suc.IH ts(2) by (auto simp: t)
qed

lemma children_summary:
  assumes "ts \<noteq> []" "\<forall>t\<in>set ts. st_good D V h t"
  shows "sum_summaries D (map node_summary ts) =
         sum_summaries D (map (item_summary D) (concat (map to_list ts)))"
  using assms good_summary by (intro sum_children ballI conjI) (auto dest: st_good_nonempty)

text \<open>Adding the summaries of two trees gives the sum over both item sequences.\<close>

lemma add_good_summaries:
  assumes "st_good D V h t" "st_good D V k u"
  shows "add_summary D (node_summary t) (node_summary u) =
         sum_summaries D (map (item_summary D) (to_list t @ to_list u))"
  using assms good_summary[OF assms(1)] good_summary[OF assms(2)]
  by (subst map_append, subst sum_append) (auto simp: st_good_def)

subsection \<open>Appending\<close>

lemma split_children:
  assumes "length ts > MAX_CHILDREN" "length ts \<le> 2 * MAX_CHILDREN" "\<forall>t\<in>set ts. st_good D V h t"
  obtains l r where "split_vec ts = Some (l, r)"
    "split_vec (map node_summary ts) = Some (map node_summary l, map node_summary r)"
    "st_good D V (Suc h) (Internal (Suc h) (sum_summaries D (map node_summary l)) (map node_summary l) l)"
    "st_good D V (Suc h) (Internal (Suc h) (sum_summaries D (map node_summary r)) (map node_summary r) r)"
    "ts = l @ r"
proof -
  obtain l r where lr: "split_vec ts = Some (l, r)" "ts = l @ r" "l \<noteq> []" "r \<noteq> []"
      "length l \<le> MAX_CHILDREN" "length r \<le> MAX_CHILDREN"
    using assms(1,2) by (rule split_vec_Some)
  moreover have "split_vec (map node_summary ts) = Some (map node_summary l, map node_summary r)"
    using lr(1) by (auto simp: split_vec_map)
  ultimately show thesis
    using assms(3) by (intro that[of l r] st_good_InternalI) auto
qed

lemma split_items:
  assumes "length xs > MAX_CHILDREN" "length xs \<le> 2 * MAX_CHILDREN" "\<forall>x\<in>set xs. V (item_summary D x)"
  obtains l r where "split_vec xs = Some (l, r)"
    "split_vec (map (item_summary D) xs) = Some (map (item_summary D) l, map (item_summary D) r)"
    "st_good D V 0 (Leaf (sum_summaries D (map (item_summary D) l)) l (map (item_summary D) l))"
    "st_good D V 0 (Leaf (sum_summaries D (map (item_summary D) r)) r (map (item_summary D) r))"
    "xs = l @ r"
proof -
  obtain l r where lr: "split_vec xs = Some (l, r)" "xs = l @ r" "l \<noteq> []" "r \<noteq> []"
      "length l \<le> MAX_CHILDREN" "length r \<le> MAX_CHILDREN"
    using assms(1,2) by (rule split_vec_Some)
  moreover have "split_vec (map (item_summary D) xs) = Some (map (item_summary D) l, map (item_summary D) r)"
    using lr(1) by (auto simp: split_vec_map)
  ultimately show thesis
    using assms(3) by (intro that[of l r] st_good_LeafI) auto
qed

text \<open>The children that \<open>push_tree_recursive\<close> collects before it checks for overflow.\<close>

lemma push_collect:
  assumes h: "height_delta = Suc h - node_height other" "node_height other \<le> Suc h"
    and ts: "ts \<noteq> []" "length ts \<le> MAX_CHILDREN" "\<forall>t\<in>set ts. st_good D V h t"
    and other: "st_good D V (node_height other) other"
    and rec: "node_height other \<le> h \<Longrightarrow>
      \<exists>t' r. push_tree_recursive D (last ts) other = Some (t', r) \<and>
         seq_pair D V h (t', r) (to_list (last ts) @ to_list other)"
  obtains ts' app where
    "(if height_delta = 0 then
             do { us \<leftarrow> node_child_trees other;
                  Some (map node_summary ts, ts, node_child_summaries other, us) }
           else if height_delta = 1 \<and> \<not> is_underflowing other then
             Some (map node_summary ts, ts, [node_summary other], [other])
           else if ts = [] \<or> map node_summary ts = [] then None
           else do {
             (last_tree, tree_to_append) \<leftarrow> push_tree_recursive D (last ts) other;
             Some (butlast (map node_summary ts) @ [node_summary last_tree],
                   butlast ts @ [last_tree],
                   (case tree_to_append of None \<Rightarrow> [] | Some t \<Rightarrow> [node_summary t]),
                   (case tree_to_append of None \<Rightarrow> [] | Some t \<Rightarrow> [t])) }) =
      Some (map node_summary ts', ts', map node_summary app, app)"
    "ts' \<noteq> []" "length (ts' @ app) \<le> 2 * MAX_CHILDREN" "\<forall>t\<in>set (ts' @ app). st_good D V h t"
    "concat (map to_list (ts' @ app)) = concat (map to_list ts) @ to_list other"
proof (cases "height_delta = 0")
  case True
  with h have "node_height other = Suc h" by simp
  with other have "st_good D V (Suc h) other" by simp
  then obtain us where us: "other = Internal (Suc h) (sum_summaries D (map node_summary us)) (map node_summary us) us"
      "length us \<le> MAX_CHILDREN" "\<forall>t\<in>set us. st_good D V h t"
    by (rule st_good_height_SucE)
  show thesis using True us ts by (intro that[of ts us]) auto
next
  case False
  then have le: "node_height other \<le> h" using h by simp
  show thesis
  proof (cases "height_delta = 1 \<and> \<not> is_underflowing other")
    case True
    then have "node_height other = h" using h by linarith
    with True False ts other show thesis by (intro that[of ts "[other]"]) (auto simp: TREE_BASE_def)
  next
    case rest: False
    from rec[OF le] obtain t' r where push: "push_tree_recursive D (last ts) other = Some (t', r)"
        and pair: "seq_pair D V h (t', r) (to_list (last ts) @ to_list other)" by blast
    let ?app = "case r of None \<Rightarrow> [] | Some t \<Rightarrow> [t]"
    have items: "concat (map to_list ((butlast ts @ [t']) @ ?app)) = concat (map to_list ts) @ to_list other"
    proof -
      have "concat (map to_list ts) = concat (map to_list (butlast ts)) @ to_list (last ts)"
        using ts(1) by (cases ts rule: rev_cases) auto
      with pair show ?thesis by (auto simp: seq_pair_def split: option.splits)
    qed
    have "st_good D V h t'" "\<And>t. r = Some t \<Longrightarrow> st_good D V h t"
      using pair by (auto simp: seq_pair_def split: option.splits)
    then have good: "\<forall>t\<in>set ((butlast ts @ [t']) @ ?app). st_good D V h t"
      using ts(3) by (auto dest: in_set_butlastD split: option.splits)
    have "length ((butlast ts @ [t']) @ ?app) \<le> 2 * MAX_CHILDREN"
      using ts(1,2) by (auto split: option.splits) (simp add: TREE_BASE_def)
    with False rest push good items ts(1) show thesis
      by (intro that[of "butlast ts @ [t']" ?app]) (auto simp: map_butlast split: option.splits)
  qed
qed

text \<open>The end of \<open>push_tree_recursive\<close> on an internal node: split or extend.\<close>

lemma push_finish:
  assumes "ts' \<noteq> []" "length (ts' @ app) \<le> 2 * MAX_CHILDREN" "\<forall>t\<in>set (ts' @ app). st_good D V h t"
    and summary: "s' = sum_summaries D (map (item_summary D) (concat (map to_list (ts' @ app))))"
  shows "\<exists>p. (if length ts' + length app > MAX_CHILDREN then
          do { (left_summaries, right_summaries) \<leftarrow>
                 split_vec (map node_summary ts' @ map node_summary app);
               (left_trees, right_trees) \<leftarrow> split_vec (ts' @ app);
               Some (Internal (Suc h) (sum_summaries D left_summaries) left_summaries left_trees,
                     Some (Internal (Suc h) (sum_summaries D right_summaries)
                             right_summaries right_trees)) }
        else
          do { ss \<leftarrow> array_vec (map node_summary ts' @ map node_summary app);
               us \<leftarrow> array_vec (ts' @ app);
               Some (Internal (Suc h) s' ss us, None) }) = Some p \<and>
      seq_pair D V (Suc h) p (concat (map to_list (ts' @ app)))"
proof (cases "length (ts' @ app) > MAX_CHILDREN")
  case True
  obtain l r where lr: "split_vec (ts' @ app) = Some (l, r)"
    "split_vec (map node_summary (ts' @ app)) = Some (map node_summary l, map node_summary r)"
    "st_good D V (Suc h) (Internal (Suc h) (sum_summaries D (map node_summary l)) (map node_summary l) l)"
    "st_good D V (Suc h) (Internal (Suc h) (sum_summaries D (map node_summary r)) (map node_summary r) r)"
    "ts' @ app = l @ r"
    using True assms(2,3) by (rule split_children)
  have items: "concat (map to_list (ts' @ app)) = concat (map to_list (l @ r))"
    by (simp only: lr(5))
  show ?thesis using True lr(1-4) unfolding items by (simp add: seq_pair_def)
next
  case False
  have "st_good D V (Suc h) (Internal (Suc h) s' (map node_summary (ts' @ app)) (ts' @ app))"
    using False assms children_summary[OF _ assms(3)] by (intro st_good_InternalI) auto
  with False show ?thesis by (simp add: seq_pair_def)
qed

lemma push_tree_recursive_seq:
  assumes "st_good D V h t" "st_good D V k other" "k \<le> h"
  shows "\<exists>t' r. push_tree_recursive D t other = Some (t', r) \<and>
           seq_pair D V h (t', r) (to_list t @ to_list other)"
  using assms
proof (induction h arbitrary: t)
  case 0
  obtain xs where t: "t = Leaf (sum_summaries D (map (item_summary D) xs)) xs (map (item_summary D) xs)"
    and xs: "xs \<noteq> []" "length xs \<le> MAX_CHILDREN" "\<forall>x\<in>set xs. V (item_summary D x)"
    using 0(1) by (rule st_good_height_0E)
  have "st_good D V 0 other" using 0 by simp
  then obtain ys where u: "other = Leaf (sum_summaries D (map (item_summary D) ys)) ys (map (item_summary D) ys)"
    and ys: "ys \<noteq> []" "length ys \<le> MAX_CHILDREN" "\<forall>x\<in>set ys. V (item_summary D x)"
    by (rule st_good_height_0E)
  show ?case
  proof (cases "length (xs @ ys) > MAX_CHILDREN")
    case True
    have "length (xs @ ys) \<le> 2 * MAX_CHILDREN" "\<forall>x\<in>set (xs @ ys). V (item_summary D x)"
      using xs ys by auto
    with True obtain l r where lr: "split_vec (xs @ ys) = Some (l, r)"
      "split_vec (map (item_summary D) (xs @ ys)) = Some (map (item_summary D) l, map (item_summary D) r)"
      "st_good D V 0 (Leaf (sum_summaries D (map (item_summary D) l)) l (map (item_summary D) l))"
      "st_good D V 0 (Leaf (sum_summaries D (map (item_summary D) r)) r (map (item_summary D) r))"
      "xs @ ys = l @ r"
      by (rule split_items)
    show ?thesis
      using True lr(1-4) by (simp add: t u push_tree_recursive.simps seq_pair_def lr(5)[symmetric])
  next
    case False
    have s: "add_summary D (node_summary t) (node_summary other) =
        sum_summaries D (map (item_summary D) (xs @ ys))"
      using add_good_summaries[OF 0(1) 0(2)] by (simp add: t u)
    have "st_good D V 0 (Leaf (add_summary D (node_summary t) (node_summary other)) (xs @ ys)
        (map (item_summary D) (xs @ ys)))"
      unfolding s using False xs ys by (intro st_good_LeafI) auto
    with False show ?thesis
      by (auto simp: t u push_tree_recursive.simps seq_pair_def)
  qed
next
  case (Suc h)
  obtain ts where t: "t = Internal (Suc h) (sum_summaries D (map node_summary ts)) (map node_summary ts) ts"
    and ts: "ts \<noteq> []" "length ts \<le> MAX_CHILDREN" "\<forall>t\<in>set ts. st_good D V h t"
    using Suc.prems(1) by (rule st_good_height_SucE)
  have k: "node_height other = k" using Suc.prems(2) by (simp add: st_good_def)
  have rec: "\<exists>t' r. push_tree_recursive D (last ts) other = Some (t', r) \<and>
         seq_pair D V h (t', r) (to_list (last ts) @ to_list other)" if "node_height other \<le> h"
    using Suc.IH[of "last ts"] ts that Suc.prems(2) k by simp
  obtain ts' app where coll: "(if Suc h - k = 0 then
             do { us \<leftarrow> node_child_trees other;
                  Some (map node_summary ts, ts, node_child_summaries other, us) }
           else if Suc h - k = 1 \<and> \<not> is_underflowing other then
             Some (map node_summary ts, ts, [node_summary other], [other])
           else if ts = [] \<or> map node_summary ts = [] then None
           else do {
             (last_tree, tree_to_append) \<leftarrow> push_tree_recursive D (last ts) other;
             Some (butlast (map node_summary ts) @ [node_summary last_tree],
                   butlast ts @ [last_tree],
                   (case tree_to_append of None \<Rightarrow> [] | Some t \<Rightarrow> [node_summary t]),
                   (case tree_to_append of None \<Rightarrow> [] | Some t \<Rightarrow> [t])) }) =
      Some (map node_summary ts', ts', map node_summary app, app)"
    and app: "ts' \<noteq> []" "length (ts' @ app) \<le> 2 * MAX_CHILDREN" "\<forall>t\<in>set (ts' @ app). st_good D V h t"
      "concat (map to_list (ts' @ app)) = to_list t @ to_list other"
    using push_collect[OF _ _ ts _ rec, of "Suc h - k"] Suc.prems(2,3) k by (auto simp: t)
  have s: "add_summary D (sum_summaries D (map node_summary ts)) (node_summary other) =
      sum_summaries D (map (item_summary D) (concat (map to_list (ts' @ app))))"
    using add_good_summaries[OF Suc.prems(1,2)] app(4) by (simp add: t)
  show ?case
    using push_finish[OF app(1-3) s] Suc.prems(3) coll k app(4)
    by (simp add: t push_tree_recursive.simps(1) Let_def)
qed

lemma merge_into_right_seq:
  assumes "st_good D V h small" "st_good D V h large"
  shows "\<exists>p. merge_into_right D small large = Some p \<and>
           seq_pair D V h (left_first p) (to_list small @ to_list large)"
proof (cases h)
  case 0
  obtain xs where t: "small = Leaf (sum_summaries D (map (item_summary D) xs)) xs (map (item_summary D) xs)"
    and xs: "xs \<noteq> []" "length xs \<le> MAX_CHILDREN" "\<forall>x\<in>set xs. V (item_summary D x)"
    using assms(1)[unfolded 0] by (rule st_good_height_0E)
  obtain ys where u: "large = Leaf (sum_summaries D (map (item_summary D) ys)) ys (map (item_summary D) ys)"
    and ys: "ys \<noteq> []" "length ys \<le> MAX_CHILDREN" "\<forall>x\<in>set ys. V (item_summary D x)"
    using assms(2)[unfolded 0] by (rule st_good_height_0E)
  show ?thesis
  proof (cases "length (xs @ ys) > MAX_CHILDREN")
    case True
    have "length (xs @ ys) \<le> 2 * MAX_CHILDREN" "\<forall>x\<in>set (xs @ ys). V (item_summary D x)"
      using xs ys by auto
    with True obtain l r where lr: "split_vec (xs @ ys) = Some (l, r)"
      "split_vec (map (item_summary D) (xs @ ys)) = Some (map (item_summary D) l, map (item_summary D) r)"
      "st_good D V 0 (Leaf (sum_summaries D (map (item_summary D) l)) l (map (item_summary D) l))"
      "st_good D V 0 (Leaf (sum_summaries D (map (item_summary D) r)) r (map (item_summary D) r))"
      "xs @ ys = l @ r"
      by (rule split_items)
    show ?thesis using True lr(1-4) by (simp add: t u 0 seq_pair_def left_first_def lr(5)[symmetric])
  next
    case False
    have "st_good D V 0 (Leaf (add_summary D (node_summary small) (node_summary large)) (xs @ ys)
        (map (item_summary D) (xs @ ys)))"
      using add_good_summaries[OF assms] False xs ys by (simp add: st_good_def t u ball_Un)
    with False show ?thesis by (simp add: t u 0 seq_pair_def left_first_def)
  qed
next
  case (Suc k)
  obtain us where t: "small = Internal (Suc k) (sum_summaries D (map node_summary us)) (map node_summary us) us"
    and us: "us \<noteq> []" "length us \<le> MAX_CHILDREN" "\<forall>t\<in>set us. st_good D V k t"
    using assms(1)[unfolded Suc] by (rule st_good_height_SucE)
  obtain ts where u: "large = Internal (Suc k) (sum_summaries D (map node_summary ts)) (map node_summary ts) ts"
    and ts: "ts \<noteq> []" "length ts \<le> MAX_CHILDREN" "\<forall>t\<in>set ts. st_good D V k t"
    using assms(2)[unfolded Suc] by (rule st_good_height_SucE)
  have good: "\<forall>t\<in>set (us @ ts). st_good D V k t" using us ts by auto
  show ?thesis
  proof (cases "length (us @ ts) > MAX_CHILDREN")
    case True
    have "length (us @ ts) \<le> 2 * MAX_CHILDREN" using us ts by simp
    with True obtain l r where lr: "split_vec (us @ ts) = Some (l, r)"
      "split_vec (map node_summary (us @ ts)) = Some (map node_summary l, map node_summary r)"
      "st_good D V (Suc k) (Internal (Suc k) (sum_summaries D (map node_summary l)) (map node_summary l) l)"
      "st_good D V (Suc k) (Internal (Suc k) (sum_summaries D (map node_summary r)) (map node_summary r) r)"
      "us @ ts = l @ r"
      using good by (rule split_children)
    have "concat (map to_list us) @ concat (map to_list ts) = concat (map to_list (l @ r))"
      by (simp flip: lr(5))
    with True lr(1-4) show ?thesis by (simp add: t u Suc seq_pair_def left_first_def)
  next
    case False
    have "add_summary D (node_summary small) (node_summary large) = sum_summaries D (map node_summary (us @ ts))"
      using add_good_summaries[OF assms] children_summary[OF _ good] us(1) by (simp add: t u)
    then have "st_good D V (Suc k) (Internal (Suc k) (add_summary D (node_summary small) (node_summary large))
        (map node_summary (us @ ts)) (us @ ts))"
      using False us good by (intro st_good_InternalI) auto
    with False show ?thesis by (simp add: t u Suc seq_pair_def left_first_def)
  qed
qed

lemma append_large_seq:
  assumes "st_good D V k small" "st_good D V h large" "k \<le> h"
  shows "\<exists>p. append_large D small large = Some p \<and>
           seq_pair D V h (left_first p) (to_list small @ to_list large)"
  using assms(2,3)
proof (induction h arbitrary: large)
  case 0
  then show ?case using assms(1) merge_into_right_seq[of 0 small large]
    by (subst append_large.simps) (auto simp: st_good_def seq_pair_def left_first_def)
next
  case (Suc h)
  show ?case
  proof (cases "k = Suc h")
    case True
    then show ?thesis using assms(1) Suc.prems merge_into_right_seq[of k small large]
      by (subst append_large.simps) (auto simp: st_good_def seq_pair_def left_first_def)
  next
    case False
    obtain ts where u: "large = Internal (Suc h) (sum_summaries D (map node_summary ts)) (map node_summary ts) ts"
      and ts: "ts \<noteq> []" "length ts \<le> MAX_CHILDREN" "\<forall>t\<in>set ts. st_good D V h t"
      using Suc.prems(1) by (rule st_good_height_SucE)
    obtain t us where tus: "ts = t # us" using ts(1) by (cases ts) auto
    obtain first res where IH: "append_large D small t = Some (first, res)"
        "seq_pair D V h (left_first (first, res)) (to_list small @ to_list t)"
      using Suc.IH[of t] ts(3) Suc.prems(2) False by (auto simp: tus)
    let ?new = "(case res of None \<Rightarrow> [] | Some u \<Rightarrow> [u]) @ first # us"
    have items: "concat (map to_list ?new) = to_list small @ to_list large"
      using IH(2) by (auto simp: u tus seq_pair_def left_first_def split: option.splits)
    have good: "\<forall>t\<in>set ?new. st_good D V h t"
      using IH(2) ts(3) by (auto simp: tus seq_pair_def left_first_def split: option.splits)
    have sum: "add_summary D (node_summary small) (node_summary large) = sum_summaries D (map node_summary ?new)"
      using add_good_summaries[OF assms(1) Suc.prems(1)] children_summary[OF _ good] unfolding items by simp
    have node: "st_good D V (Suc h) (Internal (Suc h) (sum_summaries D (map node_summary vs)) (map node_summary vs) vs)"
      if "vs \<noteq> []" "length vs \<le> MAX_CHILDREN" "set vs \<subseteq> set ?new" for vs
      using that good by (intro st_good_InternalI) auto
    have small: "node_height small \<noteq> Suc h" using assms(1) False by (simp add: st_good_def)
    show ?thesis
    proof (cases "length ?new \<le> MAX_CHILDREN")
      case True
      then have "append_large D small large =
          Some (Internal (Suc h) (sum_summaries D (map node_summary ?new)) (map node_summary ?new) ?new, None)"
        using small IH(1) sum by (subst append_large.simps) (auto simp: u tus Let_def split: option.splits)
      then show ?thesis using node[of ?new] True items by (simp add: seq_pair_def left_first_def)
    next
      case overflow: False
      then obtain v where v: "res = Some v" and len: "length (first # us) = MAX_CHILDREN"
        using ts(2) by (cases res) (auto simp: tus)
      let ?l = "v # take TREE_BASE (first # us)" and ?r = "drop TREE_BASE (first # us)"
      have "append_large D small large =
          Some (Internal (Suc h) (sum_summaries D (map node_summary ?r)) (map node_summary ?r) ?r,
            Some (Internal (Suc h) (sum_summaries D (map node_summary ?l)) (map node_summary ?l) ?l))"
        using small IH(1) len v by (subst append_large.simps)
          (simp add: u tus TREE_BASE_def take_map drop_map Let_def)
      moreover have "length ?l \<le> MAX_CHILDREN" "length ?r \<le> MAX_CHILDREN" "?r \<noteq> []"
        using len by (auto simp: TREE_BASE_def)
      moreover have "set ?l \<subseteq> set ?new" "set ?r \<subseteq> set ?new"
        using v set_take_subset[of TREE_BASE "first # us"] set_drop_subset[of TREE_BASE "first # us"]
        by auto
      moreover have "concat (map to_list ?l) @ concat (map to_list ?r) = to_list small @ to_list large"
        using items v by (simp flip: concat_append map_append)
      ultimately show ?thesis
        using node[of ?l] node[of ?r] by (simp add: seq_pair_def left_first_def)
    qed
  qed
qed

lemma from_child_trees_good:
  assumes "st_good D V h t" "st_good D V h u"
  shows "st_good D V (Suc h) (from_child_trees D t u) \<and>
         to_list (from_child_trees D t u) = to_list t @ to_list u"
  using assms st_good_InternalI[of "[t, u]" D V h]
  by (auto simp: from_child_trees_def st_good_def TREE_BASE_def Let_def)

lemma st_wf_good: "st_wf D V t \<Longrightarrow> to_list t \<noteq> [] \<Longrightarrow> st_good D V (node_height t) t"
  by (simp add: st_good_def)

lemma st_append_seq:
  assumes "st_wf D V t" "st_wf D V u"
  obtains r where "st_append D t u = Some r" "st_wf D V r" "to_list r = to_list t @ to_list u"
proof (cases "to_list t = [] \<or> to_list u = []")
  case True
  then have "st_append D t u = Some (if to_list t = [] then u else t)"
    using assms st_is_empty_iff[of D V] by (cases u) (auto simp: st_append_def st_wf_Internal_nonempty)
  with True assms show thesis by (intro that[of "if to_list t = [] then u else t"]) auto
next
  case False
  then have t: "st_good D V (node_height t) t" and u: "st_good D V (node_height u) u"
    using assms by (auto intro: st_wf_good)
  have ne: "\<not> st_is_empty t" "\<not> is_leaf u \<or> node_items u \<noteq> Some []"
    using False assms st_is_empty_iff by (auto, cases u, auto)
  show thesis
  proof (cases "node_height t < node_height u")
    case True
    obtain o' res where p: "append_large D t u = Some (o', res)"
        "seq_pair D V (node_height u) (left_first (o', res)) (to_list t @ to_list u)"
      using append_large_seq[OF t u] True by auto
    then show thesis using ne True from_child_trees_good
      by (intro that[of "case res of Some tree \<Rightarrow> from_child_trees D tree o' | None \<Rightarrow> o'"])
         (auto simp: st_append_def seq_pair_def left_first_def st_good_def split: option.splits)
  next
    case ge: False
    obtain t' res where p: "push_tree_recursive D t u = Some (t', res)"
        "seq_pair D V (node_height t) (t', res) (to_list t @ to_list u)"
      using push_tree_recursive_seq[OF t u] ge by auto
    then show thesis using ne ge from_child_trees_good
      by (intro that[of "case res of Some tree \<Rightarrow> from_child_trees D t' tree | None \<Rightarrow> t'"])
         (auto simp: st_append_def seq_pair_def st_good_def split: option.splits)
  qed
qed

lemma st_push_seq:
  assumes "st_wf D V t" "V (item_summary D x)"
  obtains r where "st_push D t x = Some r" "st_wf D V r" "to_list r = to_list t @ [x]"
proof -
  have "st_wf D V (Leaf (item_summary D x) [x] [item_summary D x])"
    using assms(2) by (simp add: TREE_BASE_def sum_Cons)
  with assms(1) obtain r where "st_append D t (Leaf (item_summary D x) [x] [item_summary D x]) = Some r"
      "st_wf D V r" "to_list r = to_list t @ to_list (Leaf (item_summary D x) [x] [item_summary D x])"
    by (rule st_append_seq)
  then show thesis by (intro that) (auto simp: st_push_def)
qed

subsection \<open>Bulk construction\<close>

lemma leaf_of_chunk_good:
  assumes "c \<noteq> []" "length c \<le> MAX_CHILDREN" "\<forall>x\<in>set c. V (item_summary D x)"
  shows "st_good D V 0 (leaf_of_chunk D c)" and "to_list (leaf_of_chunk D c) = c"
  using assms st_good_LeafI[OF assms] by (cases c; simp add: leaf_of_chunk_def sum_Cons)+

lemma node_of_chunk_sum:
  assumes "ts \<noteq> []" "\<forall>t\<in>set ts. st_good D V h t"
  shows "node_of_chunk D k ts = sum_node D k ts"
proof (cases ts)
  case (Cons t us)
  then have "V (node_summary t)" using assms(2) good_summary[of h t] by (metis list.set_intros(1))
  then show ?thesis by (simp add: Cons node_of_chunk_def sum_node_def sum_Cons)
qed (use assms(1) in simp)

lemma sum_node_good:
  assumes "ts \<noteq> []" "length ts \<le> MAX_CHILDREN" "\<forall>t\<in>set ts. st_good D V h t"
  shows "st_good D V (Suc h) (sum_node D (Suc h) ts)"
  unfolding sum_node_def using assms by (intro st_good_InternalI) auto

text \<open>One level: the parents of good nodes are good and hold the same items.\<close>

lemma next_level:
  assumes "\<forall>t\<in>set ts. st_good D V h t"
  shows "\<forall>t\<in>set (map (sum_node D (Suc h)) (chunks_of MAX_CHILDREN ts)). st_good D V (Suc h) t"
    and "concat (map to_list (map (sum_node D (Suc h)) (chunks_of MAX_CHILDREN ts))) =
         concat (map to_list ts)"
    and "map (node_of_chunk D (Suc h)) (chunks_of MAX_CHILDREN ts) =
         map (sum_node D (Suc h)) (chunks_of MAX_CHILDREN ts)"
proof -
  have c: "c \<noteq> []" "length c \<le> MAX_CHILDREN" "\<forall>t\<in>set c. st_good D V h t"
    if "c \<in> set (chunks_of MAX_CHILDREN ts)" for c
    using chunks_of_bounds[OF that] assms by auto
  then show "\<forall>t\<in>set (map (sum_node D (Suc h)) (chunks_of MAX_CHILDREN ts)). st_good D V (Suc h) t"
    using sum_node_good by (simp only: set_map) blast
  show "map (node_of_chunk D (Suc h)) (chunks_of MAX_CHILDREN ts) =
      map (sum_node D (Suc h)) (chunks_of MAX_CHILDREN ts)"
    using c node_of_chunk_sum by (intro map_cong refl) blast
  have "concat (map to_list (map (sum_node D (Suc h)) cs)) = concat (map to_list (concat cs))" for cs
    by (induction cs) (auto simp: sum_node_def)
  then show "concat (map to_list (map (sum_node D (Suc h)) (chunks_of MAX_CHILDREN ts))) =
         concat (map to_list ts)"
    by (simp add: concat_chunks_of)
qed

lemma build_levels_seq:
  assumes "ts \<noteq> []" "\<forall>t\<in>set ts. st_good D V h t"
  shows "\<exists>t k. build_levels D h ts = [t] \<and> build_levels_par D h ts = [t] \<and> st_good D V k t \<and>
           to_list t = concat (map to_list ts)"
  using assms
proof (induction "length ts" arbitrary: h ts rule: less_induct)
  case less
  show ?case
  proof (cases "length ts > 1")
    case False
    with less.prems show ?thesis
      by (cases ts) (auto simp: build_levels.simps build_levels_par.simps)
  next
    case True
    let ?ps = "map (sum_node D (Suc h)) (chunks_of MAX_CHILDREN ts)"
    have shorter: "length ?ps < length ts"
      using True length_chunks_of_less[of MAX_CHILDREN ts] by (simp add: TREE_BASE_def)
    have "?ps \<noteq> []" using less.prems(1) by (simp add: chunks_of_step)
    from less.hyps[OF shorter this next_level(1)[OF less.prems(2)]] True show ?thesis
      unfolding next_level(2)[OF less.prems(2)]
      by (subst build_levels.simps, subst build_levels_par.simps)
         (simp add: group_nodes_None next_level(3)[OF less.prems(2)])
  qed
qed

lemma from_iter_seq:
  assumes "\<forall>x\<in>set xs. V (item_summary D x)"
  shows "st_wf D V (st_from_iter D xs)" and "to_list (st_from_iter D xs) = xs"
    and "st_from_par_iter D xs = st_from_iter D xs"
proof -
  let ?ls = "map (leaf_of_chunk D) (chunks_of MAX_CHILDREN xs)"
  have c: "st_good D V 0 (leaf_of_chunk D c) \<and> to_list (leaf_of_chunk D c) = c"
    if "c \<in> set (chunks_of MAX_CHILDREN xs)" for c
    using chunks_of_bounds[OF that] assms leaf_of_chunk_good[of c] by auto
  have items: "concat (map to_list ?ls) = xs"
    using c by (simp add: comp_def concat_chunks_of cong: map_cong)
  have "st_wf D V (st_from_iter D xs) \<and> to_list (st_from_iter D xs) = xs \<and>
      st_from_par_iter D xs = st_from_iter D xs"
  proof (cases "xs = []")
    case True
    then show ?thesis
      by (simp add: st_from_iter_def st_from_par_iter_def build_levels.simps build_levels_par.simps)
  next
    case False
    then have "?ls \<noteq> []" by (simp add: chunks_of_step)
    moreover have "\<forall>t\<in>set ?ls. st_good D V 0 t" using c by auto
    ultimately obtain t k where "build_levels D 0 ?ls = [t]" "build_levels_par D 0 ?ls = [t]"
        "st_good D V k t" "to_list t = xs"
      using build_levels_seq[of ?ls 0] items by auto
    then show ?thesis by (simp add: st_from_iter_def st_from_par_iter_def st_good_def)
  qed
  then show "st_wf D V (st_from_iter D xs)" "to_list (st_from_iter D xs) = xs"
    "st_from_par_iter D xs = st_from_iter D xs" by auto
qed

lemma st_extend_seq:
  assumes "st_wf D V t" "\<forall>x\<in>set xs. V (item_summary D x)"
  obtains r where "st_extend D t xs = Some r" "st_par_extend D t xs = Some r" "st_wf D V r"
    "to_list r = to_list t @ xs"
proof -
  obtain r where "st_append D t (st_from_iter D xs) = Some r" "st_wf D V r"
      "to_list r = to_list t @ to_list (st_from_iter D xs)"
    using assms(1) from_iter_seq(1)[OF assms(2)] by (rule st_append_seq)
  then show thesis
    using from_iter_seq(2,3)[OF assms(2)] by (intro that) (auto simp: st_extend_def st_par_extend_def)
qed

end

end
