(* ===== verification/SumTree_Find.thy ===== *)
theory SumTree_Find
  imports SumTree_Seq
begin

section \<open>Reading and updating a sum tree\<close>

text \<open>
  The ends of a tree, in-place updates of the first and last item, and the find operations. The
  reference for a find is an index: the first item whose end position the target does not lie
  beyond. The tree search agrees with it whenever the search predicate, once true, stays true along
  the sequence.
\<close>

subsection \<open>The ends of a tree\<close>

lemma vec_first_append [simp]: "xs \<noteq> [] \<Longrightarrow> vec_first (xs @ ys) = vec_first xs"
  by (cases xs) (auto simp: vec_first_def)

lemma vec_last_append [simp]: "ys \<noteq> [] \<Longrightarrow> vec_last (xs @ ys) = vec_last ys"
  by (simp add: vec_last_def)

lemma vec_last_map: "vec_last (map f xs) = map_option f (vec_last xs)"
  by (simp add: vec_last_def last_map)

lemma leftmost_leaf_wf:
  assumes "st_wf D V t"
  obtains s xs where "leftmost_leaf t = Some (Leaf s xs (map (item_summary D) xs))"
    "vec_first xs = vec_first (to_list t)"
  using assms
proof (induction t arbitrary: thesis)
  case (Internal h s ss ts)
  have "ts \<noteq> []" using Internal.prems(2) by simp
  then obtain t us where ts: "ts = t # us" by (cases ts) auto
  with Internal.prems(2) have t: "st_wf D V t" "to_list t \<noteq> []" by auto
  obtain s' xs where "leftmost_leaf t = Some (Leaf s' xs (map (item_summary D) xs))"
      "vec_first xs = vec_first (to_list t)"
    using Internal.IH[of t] t(1) ts by auto
  with t(2) show ?case by (intro Internal.prems(1)[of s' xs]) (auto simp: ts)
qed auto

lemma rightmost_leaf_wf:
  assumes "st_wf D V t"
  obtains s xs where "rightmost_leaf t = Some (Leaf s xs (map (item_summary D) xs))"
    "vec_last xs = vec_last (to_list t)"
  using assms
proof (induction t arbitrary: thesis)
  case (Internal h s ss ts)
  have "ts \<noteq> []" using Internal.prems(2) by simp
  then obtain t us where ts: "ts = us @ [t]" by (cases ts rule: rev_cases) auto
  with Internal.prems(2) have t: "st_wf D V t" "to_list t \<noteq> []" by auto
  obtain s' xs where "rightmost_leaf t = Some (Leaf s' xs (map (item_summary D) xs))"
      "vec_last xs = vec_last (to_list t)"
    using Internal.IH[of t] t(1) ts by auto
  with t(2) show ?case by (intro Internal.prems(1)[of s' xs]) (auto simp: ts)
qed auto

lemma st_first_seq: "st_wf D V t \<Longrightarrow> st_first t = Some (vec_first (to_list t))"
  by (erule leftmost_leaf_wf) (simp add: st_first_def)

lemma st_last_seq: "st_wf D V t \<Longrightarrow> st_last t = Some (vec_last (to_list t))"
  by (erule rightmost_leaf_wf) (simp add: st_last_def)

lemma st_last_summary_seq:
  "st_wf D V t \<Longrightarrow> st_last_summary t = Some (map_option (item_summary D) (vec_last (to_list t)))"
  by (erule rightmost_leaf_wf) (simp add: st_last_summary_def vec_last_map)

subsection \<open>Updating the ends\<close>

lemma update_last_good:
  assumes "st_good D V h t" "V (item_summary D (f (last (to_list t))))"
  shows "\<exists>t'. update_last_recursive D f t = Some (t', Some (node_summary t')) \<and>
           st_good D V h t' \<and> to_list t' = butlast (to_list t) @ [f (last (to_list t))]"
  using assms
proof (induction h arbitrary: t)
  case 0
  from 0(1) obtain xs where t: "t = Leaf (sum_summaries D (map (item_summary D) xs)) xs (map (item_summary D) xs)"
    and xs: "xs \<noteq> []" "length xs \<le> MAX_CHILDREN" "\<forall>x\<in>set xs. V (item_summary D x)"
    by (rule st_good_height_0E)
  let ?ys = "butlast xs @ [f (last xs)]"
  have "st_good D V 0 (Leaf (sum_summaries D (map (item_summary D) ?ys)) ?ys (map (item_summary D) ?ys))"
    using xs 0(2) t by (intro st_good_LeafI) (auto dest: in_set_butlastD)
  then show ?case using xs(1) by (auto simp: t map_butlast Let_def)
next
  case (Suc h)
  from Suc.prems(1) obtain ts where t: "t = Internal (Suc h) (sum_summaries D (map node_summary ts)) (map node_summary ts) ts"
    and ts: "ts \<noteq> []" "length ts \<le> MAX_CHILDREN" "\<forall>t\<in>set ts. st_good D V h t"
    by (rule st_good_height_SucE)
  obtain us c where c: "ts = us @ [c]" using ts(1) by (cases ts rule: rev_cases) auto
  with ts have ne: "to_list c \<noteq> []" by (auto simp: st_good_def)
  obtain c' where c': "update_last_recursive D f c = Some (c', Some (node_summary c'))"
      "st_good D V h c'" "to_list c' = butlast (to_list c) @ [f (last (to_list c))]"
    using Suc.IH[of c] Suc.prems(2) ts(3) c ne t by auto
  have "st_good D V (Suc h) (Internal (Suc h) (sum_summaries D (map node_summary (us @ [c'])))
      (map node_summary (us @ [c'])) (us @ [c']))"
    using ts c c' by (intro st_good_InternalI) auto
  with c' ne show ?case by (simp add: t c butlast_append Let_def)
qed

lemma update_first_good:
  assumes "st_good D V h t" "V (item_summary D (f (hd (to_list t))))"
  shows "\<exists>t'. update_first_recursive D f t = Some (t', Some (node_summary t')) \<and>
           st_good D V h t' \<and> to_list t' = f (hd (to_list t)) # tl (to_list t)"
  using assms
proof (induction h arbitrary: t)
  case 0
  from 0(1) obtain xs where t: "t = Leaf (sum_summaries D (map (item_summary D) xs)) xs (map (item_summary D) xs)"
    and xs: "xs \<noteq> []" "length xs \<le> MAX_CHILDREN" "\<forall>x\<in>set xs. V (item_summary D x)"
    by (rule st_good_height_0E)
  obtain y ys where ys: "xs = y # ys" using xs(1) by (cases xs) auto
  let ?ys = "f y # ys"
  have "st_good D V 0 (Leaf (sum_summaries D (map (item_summary D) ?ys)) ?ys (map (item_summary D) ?ys))"
    using xs 0(2) t ys by (intro st_good_LeafI) auto
  then show ?case by (auto simp: t ys Let_def)
next
  case (Suc h)
  from Suc.prems(1) obtain ts where t: "t = Internal (Suc h) (sum_summaries D (map node_summary ts)) (map node_summary ts) ts"
    and ts: "ts \<noteq> []" "length ts \<le> MAX_CHILDREN" "\<forall>t\<in>set ts. st_good D V h t"
    by (rule st_good_height_SucE)
  obtain us c where c: "ts = c # us" using ts(1) by (cases ts) auto
  with ts have ne: "to_list c \<noteq> []" by (auto simp: st_good_def)
  obtain c' where c': "update_first_recursive D f c = Some (c', Some (node_summary c'))"
      "st_good D V h c'" "to_list c' = f (hd (to_list c)) # tl (to_list c)"
    using Suc.IH[of c] Suc.prems(2) ts(3) c ne t by auto
  have "st_good D V (Suc h) (Internal (Suc h) (sum_summaries D (map node_summary (c' # us)))
      (map node_summary (c' # us)) (c' # us))"
    using ts c c' by (intro st_good_InternalI) auto
  with c' ne show ?case by (simp add: t c Let_def)
qed

lemma update_empty:
  assumes "st_wf D V t" "to_list t = []"
  shows "st_update_last D t f = Some t" "st_update_first D t f = Some t"
  using assms by (cases t; auto simp: st_update_last_def st_update_first_def neq_Nil_conv)+

lemma st_update_last_seq:
  assumes "st_wf D V t" "to_list t \<noteq> [] \<Longrightarrow> V (item_summary D (f (last (to_list t))))"
  obtains t' where "st_update_last D t f = Some t'" "st_wf D V t'"
    "to_list t' = (if to_list t = [] then [] else butlast (to_list t) @ [f (last (to_list t))])"
proof (cases "to_list t = []")
  case False
  then have "st_good D V (node_height t) t" using assms by (simp add: st_good_def)
  from update_last_good[OF this, of f] assms(2)[OF False] False show thesis
    by (auto intro!: that simp: st_update_last_def st_good_def)
qed (use that[of t] update_empty[OF assms(1)] assms(1) in simp)

lemma st_update_first_seq:
  assumes "st_wf D V t" "to_list t \<noteq> [] \<Longrightarrow> V (item_summary D (f (hd (to_list t))))"
  obtains t' where "st_update_first D t f = Some t'" "st_wf D V t'"
    "to_list t' = (if to_list t = [] then [] else f (hd (to_list t)) # tl (to_list t))"
proof (cases "to_list t = []")
  case False
  then have "st_good D V (node_height t) t" using assms by (simp add: st_good_def)
  from update_first_good[OF this, of f] assms(2)[OF False] False show thesis
    by (auto intro!: that simp: st_update_first_def st_good_def)
qed (use that[of t] update_empty[OF assms(1)] assms(1) in simp)

subsection \<open>Positions along the sequence\<close>

text \<open>
  Adding the summaries one by one to a start position gives the end position of every item. A
  search stops at the first item whose end satisfies the search predicate.
\<close>

fun ends :: "('s, 'd) dim_ops \<Rightarrow> 'd \<Rightarrow> 's list \<Rightarrow> 'd list" where
  "ends M d [] = []"
| "ends M d (s # ss) = dim_add M d s # ends M (dim_add M d s) ss"

definition pos_at :: "('s, 'd) dim_ops \<Rightarrow> 'd \<Rightarrow> 's list \<Rightarrow> nat \<Rightarrow> 'd" where
  "pos_at M d ss k = foldl (dim_add M) d (take k ss)"

definition seek_mono :: "('s, 'd) dim_ops \<Rightarrow> ('d \<Rightarrow> bool) \<Rightarrow> 'd \<Rightarrow> 's list \<Rightarrow> bool" where
  "seek_mono M found d ss \<longleftrightarrow> sorted_wrt (\<lambda>a b. found a \<longrightarrow> found b) (ends M d ss)"

definition seek_index :: "('s, 'd) dim_ops \<Rightarrow> ('d \<Rightarrow> bool) \<Rightarrow> 'd \<Rightarrow> 's list \<Rightarrow> nat" where
  "seek_index M found d ss = length (takeWhile (\<lambda>e. \<not> found e) (ends M d ss))"

lemma length_ends [simp]: "length (ends M d ss) = length ss"
  by (induction ss arbitrary: d) auto

lemma ends_append: "ends M d (xs @ ys) = ends M d xs @ ends M (foldl (dim_add M) d xs) ys"
  by (induction xs arbitrary: d) auto

lemma ends_eq_Nil [simp]: "ends M d ss = [] \<longleftrightarrow> ss = []"
  by (cases ss) auto

lemma last_ends: "ss \<noteq> [] \<Longrightarrow> last (ends M d ss) = foldl (dim_add M) d ss"
  by (induction ss arbitrary: d) auto

lemma pos_at_simps [simp]:
  "pos_at M d ss 0 = d"
  "pos_at M d (s # ss) (Suc k) = pos_at M (dim_add M d s) ss k"
  "pos_at M d ss (length ss) = foldl (dim_add M) d ss"
  by (auto simp: pos_at_def)

lemma nth_ends: "k < length ss \<Longrightarrow> ends M d ss ! k = pos_at M d ss (Suc k)"
proof (induction ss arbitrary: d k)
  case (Cons s ss)
  then show ?case by (cases k) auto
qed simp

lemma seek_index_le: "seek_index M found d ss \<le> length ss"
  unfolding seek_index_def by (metis length_ends length_takeWhile_le)

lemma seek_index_simps [simp]:
  "seek_index M found d [] = 0"
  "seek_index M found d (s # ss) =
     (if found (dim_add M d s) then 0 else Suc (seek_index M found (dim_add M d s) ss))"
  by (auto simp: seek_index_def)

text \<open>The index is characterised by what precedes it and what it points at.\<close>

lemma seek_index_iff:
  "seek_index M found d ss = i \<longleftrightarrow>
     i \<le> length ss \<and> (\<forall>j<i. \<not> found (pos_at M d ss (Suc j))) \<and>
     (i < length ss \<longrightarrow> found (pos_at M d ss (Suc i)))"
proof (induction ss arbitrary: d i)
  case (Cons s ss)
  show ?case
  proof (cases i)
    case (Suc k)
    show ?thesis using Cons.IH[of "dim_add M d s" k] unfolding Suc
      by (auto simp: All_less_Suc2)
  qed auto
qed auto

lemma scan_seek_index:
  assumes "length xs = length ss"
  shows "scan M found d (zip xs ss) =
    (let i = seek_index M found d ss
     in (pos_at M d ss i,
         if i < length ss then Some (xs ! i, pos_at M d ss (Suc i)) else None))"
  using assms by (induction xs ss arbitrary: d rule: list_induct2) (auto simp: Let_def)

lemma scan_append:
  "scan M found d (ps @ qs) =
     (case scan M found d ps of (d', None) \<Rightarrow> scan M found d' qs | r \<Rightarrow> r)"
  by (induction ps arbitrary: d) (auto simp: Let_def)

lemma seek_mono_append:
  assumes "seek_mono M found d (xs @ ys)"
  shows "seek_mono M found d xs" "seek_mono M found (foldl (dim_add M) d xs) ys"
  using assms by (auto simp: seek_mono_def ends_append sorted_wrt_append)

lemma seek_mono_last:
  assumes "seek_mono M found d ss" "ss \<noteq> []" "\<not> found (foldl (dim_add M) d ss)"
  shows "\<forall>e\<in>set (ends M d ss). \<not> found e"
proof -
  obtain es where es: "ends M d ss = es @ [foldl (dim_add M) d ss]"
    using assms(2) last_ends[OF assms(2)] by (metis append_butlast_last_id ends_eq_Nil)
  with assms show ?thesis by (auto simp: seek_mono_def sorted_wrt_append)
qed

lemma seek_index_none: "\<forall>e\<in>set (ends M d ss). \<not> found e \<Longrightarrow> seek_index M found d ss = length ss"
  by (simp add: seek_index_def takeWhile_eq_all_conv[THEN iffD2])

lemma seek_index_found:
  assumes "ss \<noteq> []" "found (foldl (dim_add M) d ss)"
  shows "seek_index M found d ss < length ss"
proof -
  have "foldl (dim_add M) d ss \<in> set (ends M d ss)"
    using last_ends[OF assms(1), of M d] assms(1) by (metis ends_eq_Nil last_in_set)
  with assms(2) have "takeWhile (\<lambda>e. \<not> found e) (ends M d ss) \<noteq> ends M d ss"
    by (auto simp: takeWhile_eq_all_conv)
  then have "length (takeWhile (\<lambda>e. \<not> found e) (ends M d ss)) \<noteq> length ss"
    by (metis length_ends takeWhile_eq_take take_all_iff order_refl)
  then show ?thesis using seek_index_le[of M found d ss] by (simp add: seek_index_def)
qed

lemma scan_prev_index:
  assumes "length xs = length ss"
  shows "scan_prev M found (\<lambda>x. Some (Some x)) d p (zip xs ss) =
    (let i = seek_index M found d ss
     in Some (pos_at M d ss i, if i = 0 then p else Some (xs ! (i - 1)),
              if i < length ss then Some (xs ! i, pos_at M d ss (Suc i)) else None))"
  using assms
proof (induction xs ss arbitrary: d p rule: list_induct2)
  case (Cons x xs s ss)
  show ?case
  proof (cases "found (dim_add M d s)")
    case False
    then show ?thesis using Cons.IH[of "dim_add M d s" "Some x"]
      by (cases "seek_index M found (dim_add M d s) ss") (auto simp: Let_def)
  qed (simp add: Let_def)
qed simp

lemma scan_prev_append:
  "scan_prev M found f d p (ps @ qs) =
     (case scan_prev M found f d p ps of Some (d', p', None) \<Rightarrow> scan_prev M found f d' p' qs | r \<Rightarrow> r)"
  by (induction M found f d p ps rule: scan_prev.induct) (auto simp: Let_def split: bind_splits)

subsection \<open>Dimensions\<close>

text \<open>A dimension adds a sum of summaries the way it adds the summaries one after the other.\<close>

locale dim_laws = sum_laws D V for D :: "('a, 's) item_ops" and V :: "'s \<Rightarrow> bool" +
  fixes M :: "('s, 'd) dim_ops"
  assumes dim_add_add: "V a \<Longrightarrow> V b \<Longrightarrow> dim_add M d (add_summary D a b) = dim_add M (dim_add M d a) b"
begin

lemma dim_sum:
  "ss \<noteq> [] \<Longrightarrow> \<forall>s\<in>set ss. V s \<Longrightarrow> dim_add M d (sum_summaries D ss) = foldl (dim_add M) d ss"
proof (induction ss rule: rev_induct)
  case (snoc s ss)
  then show ?case
    by (cases "ss = []") (auto simp: sum_append sum_Cons dim_add_add V_sum)
qed simp

lemma dim_good:
  "st_good D V h t \<Longrightarrow>
   dim_add M d (node_summary t) = foldl (dim_add M) d (map (item_summary D) (to_list t))"
  using good_summary[of h t] dim_sum[of "map (item_summary D) (to_list t)"] by (auto simp: st_good_def)

lemma dim_children:
  "\<forall>t\<in>set ts. st_good D V h t \<Longrightarrow>
   foldl (dim_add M) d (map node_summary ts) =
   foldl (dim_add M) d (map (item_summary D) (concat (map to_list ts)))"
  by (induction ts arbitrary: d) (auto simp: dim_good)

text \<open>The scan over the children of a node, continued in the child it stops at.\<close>

lemma scan_children:
  assumes "\<forall>t\<in>set ts. st_good D V h t"
    and "\<And>t d. t \<in> set ts \<Longrightarrow> seek_mono M found d (map (item_summary D) (to_list t)) \<Longrightarrow>
           k d t = scan M found d (zip (to_list t) (map (item_summary D) (to_list t)))"
    and "seek_mono M found d (map (item_summary D) (concat (map to_list ts)))"
  shows "(case scan M found d (zip ts (map node_summary ts)) of
            (d', None) \<Rightarrow> (d', None) | (d', Some (c, _)) \<Rightarrow> k d' c) =
         scan M found d (zip (concat (map to_list ts)) (map (item_summary D) (concat (map to_list ts))))"
  using assms
proof (induction ts arbitrary: d)
  case (Cons t ts)
  let ?ss = "map (item_summary D) (to_list t)"
  have ne: "to_list t \<noteq> []" using Cons.prems(1) by (simp add: st_good_def)
  have e: "dim_add M d (node_summary t) = foldl (dim_add M) d ?ss"
    using Cons.prems(1) by (intro dim_good[of h]) simp
  have mono: "seek_mono M found d ?ss"
      "seek_mono M found (foldl (dim_add M) d ?ss) (map (item_summary D) (concat (map to_list ts)))"
    using Cons.prems(3) seek_mono_append[of M found d ?ss] by auto
  have t: "scan M found d (zip (to_list t) ?ss) =
     (let i = seek_index M found d ?ss in (pos_at M d ?ss i,
         if i < length ?ss then Some (to_list t ! i, pos_at M d ?ss (Suc i)) else None))"
    by (rule scan_seek_index) simp
  show ?case
  proof (cases "found (foldl (dim_add M) d ?ss)")
    case True
    then have i: "seek_index M found d ?ss < length ?ss" using ne by (intro seek_index_found) auto
    have "k d t = scan M found d (zip (to_list t) ?ss)" using Cons.prems(2) mono(1) by simp
    with True i t show ?thesis by (simp add: e scan_append Let_def)
  next
    case False
    then have "seek_index M found d ?ss = length ?ss"
      using mono(1) ne by (intro seek_index_none seek_mono_last) auto
    with t have "scan M found d (zip (to_list t) ?ss) = (foldl (dim_add M) d ?ss, None)"
      by (simp add: Let_def pos_at_def)
    with False show ?thesis
      using Cons.IH[OF _ Cons.prems(2) mono(2)] Cons.prems(1) by (simp add: e scan_append)
  qed
qed simp

lemma find_iterate_scan:
  assumes "st_good D V h t"
    and "seek_mono M (target_in target b) d (map (item_summary D) (to_list t))"
  shows "find_iterate M target b False d t =
         scan M (target_in target b) d (zip (to_list t) (map (item_summary D) (to_list t)))"
  using assms
proof (induction h arbitrary: t d)
  case 0
  then show ?case by (elim st_good_height_0E) simp
next
  case (Suc h)
  from Suc.prems(1) obtain ts where t: "t = Internal (Suc h) (sum_summaries D (map node_summary ts)) (map node_summary ts) ts"
    and ts: "\<forall>t\<in>set ts. st_good D V h t"
    by (rule st_good_height_SucE)
  have "find_iterate M target b False d' u =
      scan M (target_in target b) d' (zip (to_list u) (map (item_summary D) (to_list u)))"
    if "u \<in> set ts" "seek_mono M (target_in target b) d' (map (item_summary D) (to_list u))" for u d'
    using Suc.IH that ts by blast
  from scan_children[of _ _ _ "find_iterate M target b False", OF ts this] Suc.prems(2)
  show ?case by (simp add: t)
qed

lemma st_find_index:
  assumes "st_wf D V t" "to_list t \<noteq> []"
    and mono: "seek_mono M (target_in target b) (dim_zero M) (map (item_summary D) (to_list t))"
  shows "st_find M t target b =
    (let ss = map (item_summary D) (to_list t);
         i = seek_index M (target_in target b) (dim_zero M) ss
     in (pos_at M (dim_zero M) ss i, pos_at M (dim_zero M) ss (Suc i), vec_get (to_list t) i))"
proof -
  let ?ss = "map (item_summary D) (to_list t)" and ?f = "target_in target b"
  let ?i = "seek_index M ?f (dim_zero M) ?ss"
  have good: "st_good D V (node_height t) t" using assms by (simp add: st_good_def)
  have tree_end: "dim_add M (dim_zero M) (node_summary t) = foldl (dim_add M) (dim_zero M) ?ss"
    using good by (rule dim_good)
  show ?thesis
  proof (cases "?f (foldl (dim_add M) (dim_zero M) ?ss)")
    case True
    then have i: "?i < length ?ss" using assms(2) by (intro seek_index_found) auto
    have "\<not> (target (foldl (dim_add M) (dim_zero M) ?ss) = Greater \<or>
        target (foldl (dim_add M) (dim_zero M) ?ss) = Equal \<and> b = Right)"
      using True by (auto simp: target_in_def)
    with i show ?thesis
      using find_iterate_scan[OF good mono] scan_seek_index[of "to_list t" ?ss M ?f "dim_zero M"]
      by (simp add: st_find_def st_find_gen_def tree_end Let_def vec_get_def)
  next
    case False
    then have i: "?i = length ?ss" using mono assms(2) by (intro seek_index_none seek_mono_last) auto
    have "target (foldl (dim_add M) (dim_zero M) ?ss) = Greater \<or>
        target (foldl (dim_add M) (dim_zero M) ?ss) = Equal \<and> b = Right"
      using False by (cases "target (foldl (dim_add M) (dim_zero M) ?ss)"; cases b) (auto simp: target_in_def)
    with i show ?thesis
      by (simp add: st_find_def st_find_gen_def tree_end Let_def vec_get_def pos_at_def)
  qed
qed

text \<open>\<open>find_with_prev\<close> also returns the item just before the one it finds.\<close>

lemma scan_prev_children:
  assumes "\<forall>t\<in>set ts. st_good D V h t"
    and "\<And>t d p. t \<in> set ts \<Longrightarrow> seek_mono M found d (map (item_summary D) (to_list t)) \<Longrightarrow>
           k d p t = scan_prev M found (\<lambda>x. Some (Some x)) d p
                       (zip (to_list t) (map (item_summary D) (to_list t)))"
    and "seek_mono M found d (map (item_summary D) (concat (map to_list ts)))"
  shows "(case scan_prev M found st_last d p (zip ts (map node_summary ts)) of
            None \<Rightarrow> None
          | Some (d', p', None) \<Rightarrow> Some (d', p', None)
          | Some (d', p', Some (c, _)) \<Rightarrow> k d' p' c) =
         scan_prev M found (\<lambda>x. Some (Some x)) d p
           (zip (concat (map to_list ts)) (map (item_summary D) (concat (map to_list ts))))"
  using assms
proof (induction ts arbitrary: d p)
  case (Cons t ts)
  let ?ss = "map (item_summary D) (to_list t)"
  have ne: "to_list t \<noteq> []" and wf: "st_wf D V t" using Cons.prems(1) by (auto simp: st_good_def)
  have e: "dim_add M d (node_summary t) = foldl (dim_add M) d ?ss"
    using Cons.prems(1) by (intro dim_good[of h]) simp
  have mono: "seek_mono M found d ?ss"
      "seek_mono M found (foldl (dim_add M) d ?ss) (map (item_summary D) (concat (map to_list ts)))"
    using Cons.prems(3) seek_mono_append[of M found d ?ss] by auto
  note t = scan_prev_index[of "to_list t" ?ss M found d p]
  show ?case
  proof (cases "found (foldl (dim_add M) d ?ss)")
    case True
    then have i: "seek_index M found d ?ss < length ?ss" using ne by (intro seek_index_found) auto
    have "k d p t = scan_prev M found (\<lambda>x. Some (Some x)) d p (zip (to_list t) ?ss)"
      using Cons.prems(2) mono(1) by simp
    with True i t show ?thesis by (simp add: e scan_prev_append Let_def)
  next
    case False
    then have "seek_index M found d ?ss = length ?ss"
      using mono(1) ne by (intro seek_index_none seek_mono_last) auto
    with t ne have "scan_prev M found (\<lambda>x. Some (Some x)) d p (zip (to_list t) ?ss) =
        Some (foldl (dim_add M) d ?ss, vec_last (to_list t), None)"
      by (simp add: Let_def pos_at_def vec_last_def last_conv_nth)
    with False show ?thesis
      using Cons.IH[OF _ Cons.prems(2) mono(2)] Cons.prems(1)
      by (simp add: e scan_prev_append st_last_seq[OF wf])
  qed
qed simp

lemma find_with_prev_iterate_scan:
  assumes "st_good D V h t"
    and "seek_mono M (target_in target b) d (map (item_summary D) (to_list t))"
  shows "find_with_prev_iterate M target b d p t =
         scan_prev M (target_in target b) (\<lambda>x. Some (Some x)) d p
           (zip (to_list t) (map (item_summary D) (to_list t)))"
  using assms
proof (induction h arbitrary: t d p)
  case 0
  then show ?case by (elim st_good_height_0E) simp
next
  case (Suc h)
  from Suc.prems(1) obtain ts where t: "t = Internal (Suc h) (sum_summaries D (map node_summary ts)) (map node_summary ts) ts"
    and ts: "\<forall>t\<in>set ts. st_good D V h t"
    by (rule st_good_height_SucE)
  have "find_with_prev_iterate M target b d' p' u =
      scan_prev M (target_in target b) (\<lambda>x. Some (Some x)) d' p'
        (zip (to_list u) (map (item_summary D) (to_list u)))"
    if "u \<in> set ts" "seek_mono M (target_in target b) d' (map (item_summary D) (to_list u))" for u d' p'
    using Suc.IH that ts by blast
  from scan_prev_children[of _ _ _ "find_with_prev_iterate M target b", OF ts this] Suc.prems(2)
  show ?case by (simp add: t)
qed

lemma st_find_with_prev_index:
  assumes "st_wf D V t" "to_list t \<noteq> []"
    and mono: "seek_mono M (target_in target b) (dim_zero M) (map (item_summary D) (to_list t))"
  shows "st_find_with_prev M t target b =
    (let (start, e, item) = st_find M t target b;
         i = seek_index M (target_in target b) (dim_zero M) (map (item_summary D) (to_list t))
     in Some (start, e, map_option (Pair (if i = 0 then None else Some (to_list t ! (i - 1)))) item))"
proof -
  let ?ss = "map (item_summary D) (to_list t)" and ?f = "target_in target b"
  let ?i = "seek_index M ?f (dim_zero M) ?ss"
  have good: "st_good D V (node_height t) t" using assms by (simp add: st_good_def)
  show ?thesis
    using find_iterate_scan[OF good mono] scan_seek_index[of "to_list t" ?ss M ?f "dim_zero M"]
      find_with_prev_iterate_scan[OF good mono] scan_prev_index[of "to_list t" ?ss M ?f "dim_zero M"]
    by (simp add: st_find_with_prev_def st_find_def st_find_gen_def Let_def)
qed

end

subsection \<open>The integer items of the crate's own tests\<close>

record integers_summary =
  is_count :: nat
  is_sum :: nat
  contains_even :: bool
  is_max :: "8 word"

definition integers :: "(8 word, integers_summary) item_ops" where
  "integers = \<lparr>item_summary = (\<lambda>x. \<lparr>is_count = 1, is_sum = unat x, contains_even = even (unat x), is_max = x\<rparr>),
     summary_zero = \<lparr>is_count = 0, is_sum = 0, contains_even = False, is_max = 0\<rparr>,
     add_summary = (\<lambda>a b. \<lparr>is_count = is_count a + is_count b, is_sum = is_sum a + is_sum b,
        contains_even = (contains_even a \<or> contains_even b), is_max = max (is_max a) (is_max b)\<rparr>)\<rparr>"

definition Count :: "(integers_summary, nat) dim_ops" where
  "Count = \<lparr>dim_zero = 0, dim_add = (\<lambda>d s. d + is_count s)\<rparr>"

lemma integers_simps [simp]:
  "item_summary integers x = \<lparr>is_count = 1, is_sum = unat x, contains_even = even (unat x), is_max = x\<rparr>"
  "dim_zero Count = 0" "dim_add Count d s = d + is_count s"
  by (simp_all add: integers_def Count_def)

interpretation ints: dim_laws integers "\<lambda>_. True" Count
  by unfold_locales (simp_all add: integers_def add.assoc max.assoc max_absorb2)

subsection \<open>What the operations promise\<close>

text \<open>
  C1: Appending one well-formed tree to another never panics, whatever their heights: it returns a
  well-formed tree (uniform leaf depth, bounded node sizes, no empty child, correct cached
  summaries) that holds the items of the first followed by the items of the second. \<open>push\<close> of an
  item is the one-item case.
\<close>

theorem st_append_concat:
  assumes "sum_laws D V" "st_wf D V t" "st_wf D V u" "V (item_summary D x)"
  shows "(\<exists>r. st_append D t u = Some r \<and> st_wf D V r \<and> to_list r = to_list t @ to_list u) \<and>
         (\<exists>r. st_push D t x = Some r \<and> st_wf D V r \<and> to_list r = to_list t @ [x])"
proof
  show "\<exists>r. st_append D t u = Some r \<and> st_wf D V r \<and> to_list r = to_list t @ to_list u"
    by (rule sum_laws.st_append_seq[OF assms(1-3)]) auto
  show "\<exists>r. st_push D t x = Some r \<and> st_wf D V r \<and> to_list r = to_list t @ [x]"
    using assms(1,2,4) by (rule sum_laws.st_push_seq) auto
qed

lemma st_append_concat_witness:
  "\<exists>r. st_append integers (st_from_iter integers [1, 2, 3]) (st_from_iter integers (replicate 14 7)) = Some r \<and>
       st_wf integers (\<lambda>_. True) r \<and> to_list r = [1, 2, 3] @ replicate 14 7"
  using st_append_concat[OF ints.sum_laws_axioms ints.from_iter_seq(1)[of "[1, 2, 3]"]
      ints.from_iter_seq(1)[of "replicate 14 7"], of 0]
  by (simp add: ints.from_iter_seq(2))

text \<open>
  The bulk constructions hold exactly the given items and are well formed, and the parallel one
  builds the very same tree as the sequential one; extending a tree by either appends the items.
\<close>

theorem st_bulk_construction:
  assumes "sum_laws D V" "\<forall>x\<in>set xs. V (item_summary D x)" "st_wf D V t"
  shows "st_wf D V (st_from_iter D xs) \<and> to_list (st_from_iter D xs) = xs \<and>
    st_from_par_iter D xs = st_from_iter D xs \<and>
    (\<exists>r. st_extend D t xs = Some r \<and> st_par_extend D t xs = Some r \<and> st_wf D V r \<and>
         to_list r = to_list t @ xs)"
  using sum_laws.from_iter_seq[OF assms(1,2)] sum_laws.st_extend_seq[OF assms(1,3,2)] by auto

lemma st_bulk_construction_witness:
  "to_list (st_from_iter integers (replicate 25 3)) = replicate 25 3 \<and>
   node_height (st_from_iter integers (replicate 25 3)) = 1 \<and>
   st_from_par_iter integers (replicate 25 3) = st_from_iter integers (replicate 25 3)"
proof -
  have "node_height (st_from_iter integers (replicate 25 3)) = 1" by code_simp
  then show ?thesis
    using st_bulk_construction[OF ints.sum_laws_axioms, of "replicate 25 3" "st_new integers"] by simp
qed

text \<open>
  The summary cached at the root of a non-empty well-formed tree is the sum of the summaries of
  all its items in order, so the extent in any dimension is the sum over the items.
\<close>

theorem st_summary_correct:
  assumes "dim_laws D V M" "st_wf D V t" "to_list t \<noteq> []"
  shows "node_summary t = sum_summaries D (map (item_summary D) (to_list t)) \<and>
         st_extent M t = foldl (dim_add M) (dim_zero M) (map (item_summary D) (to_list t))"
  using assms sum_laws.good_summary[of D V "node_height t" t] dim_laws.dim_good[OF assms(1), of "node_height t" t]
  by (simp add: st_good_def st_extent_def dim_laws_def)

lemma st_summary_correct_witness:
  "st_extent Count (st_from_iter integers [4, 5]) =
     foldl (dim_add Count) (dim_zero Count) (map (item_summary integers) [4, 5])"
  using st_summary_correct[OF ints.dim_laws_axioms, of "st_from_iter integers [4, 5]"]
  by (simp add: ints.from_iter_seq)

text \<open>
  Updating the last (or first) item through the mutable accessors changes exactly that item and
  repairs every cached summary on the way; on an empty tree it does nothing. \<open>first\<close>, \<open>last\<close> and
  \<open>last_summary\<close> read the ends of the sequence.
\<close>

theorem st_ends_correct:
  assumes "st_wf D V t" "\<And>x. V (item_summary D (f x))"
  shows "st_first t = Some (vec_first (to_list t)) \<and> st_last t = Some (vec_last (to_list t)) \<and>
    st_last_summary t = Some (map_option (item_summary D) (vec_last (to_list t))) \<and>
    (\<exists>t'. st_update_last D t f = Some t' \<and> st_wf D V t' \<and>
       to_list t' = (if to_list t = [] then [] else butlast (to_list t) @ [f (last (to_list t))])) \<and>
    (\<exists>t'. st_update_first D t f = Some t' \<and> st_wf D V t' \<and>
       to_list t' = (if to_list t = [] then [] else f (hd (to_list t)) # tl (to_list t)))"
  using st_first_seq[OF assms(1)] st_last_seq[OF assms(1)] st_last_summary_seq[OF assms(1)]
    st_update_last_seq[OF assms(1), of f] st_update_first_seq[OF assms(1), of f] assms(2)
  by (intro conjI) metis+

lemma st_ends_correct_witness:
  "\<exists>t'. st_update_last integers (st_from_iter integers [1, 2]) (\<lambda>x. x + 5) = Some t' \<and>
        to_list t' = [1, 7]"
  using st_ends_correct[OF ints.from_iter_seq(1)[of "[1, 2]"], of "\<lambda>x. x + 5"]
  by (auto simp: ints.from_iter_seq(2))

text \<open>
  The tree search finds what a linear scan finds. When the comparison with the target is
  monotone along the sequence, \<open>find\<close> returns the first item whose end the target does not lie
  beyond, with the start and end position of that item, or the end of the tree when there is none;
  \<open>find_with_prev\<close> returns the same together with the item before it.
\<close>

theorem st_find_first:
  assumes "dim_laws D V M" "st_wf D V t" "to_list t \<noteq> []"
    and "seek_mono M (target_in target b) (dim_zero M) (map (item_summary D) (to_list t))"
    and "i = seek_index M (target_in target b) (dim_zero M) (map (item_summary D) (to_list t))"
  shows "st_find M t target b =
      (pos_at M (dim_zero M) (map (item_summary D) (to_list t)) i,
       pos_at M (dim_zero M) (map (item_summary D) (to_list t)) (Suc i), vec_get (to_list t) i) \<and>
    (\<exists>s e. st_find_with_prev M t target b =
       Some (s, e, map_option (Pair (if i = 0 then None else Some (to_list t ! (i - 1))))
                     (vec_get (to_list t) i)))"
  using dim_laws.st_find_index[OF assms(1-4)] dim_laws.st_find_with_prev_index[OF assms(1-4)] assms(5)
  by (simp_all add: Let_def)

lemma st_find_first_witness:
  "st_find Count (st_from_iter integers [10, 20, 30]) (\<lambda>d. cmp 2 d) Right = (2, 3, Some 30)"
  using st_find_first[OF ints.dim_laws_axioms, of "st_from_iter integers [10, 20, 30]" "\<lambda>d. cmp 2 d" Right 2]
  by (simp add: ints.from_iter_seq seek_mono_def target_in_def pos_at_def vec_get_def)

end
