(* ===== verification/Cursor.thy ===== *)
theory Cursor
  imports SumTree
begin

section \<open>Cursors over a sum tree (crates/sum_tree/src/cursor.rs)\<close>

text \<open>
  A cursor is a path into a tree: a stack of nodes with a child index each, and the position in the
  cursor's dimension before the item it points at. The stack is a list with its top first; the code
  keeps it in an \<open>ArrayVec\<close> of capacity 16 with the top last, so a push beyond 16 entries panics.
  The loops are written as they are in the code, as \<open>partial_function\<close>s in the option monad:
  \<open>None\<close> stands for a panic or for a loop that does not end, and \<open>Cursor_Correct\<close> shows that on
  well-formed trees of height below 16 they return.
\<close>

record ('a, 's, 'd) stack_entry =
  se_tree :: "('a, 's) sum_tree"
  se_index :: nat
  se_position :: 'd

record ('a, 's, 'd) cursor =
  c_tree :: "('a, 's) sum_tree"
  c_stack :: "('a, 's, 'd) stack_entry list"
  c_position :: 'd
  did_seek :: bool
  at_end :: bool

definition MAX_DEPTH :: nat where "MAX_DEPTH = 16"

definition stack_push :: "'e list \<Rightarrow> 'e \<Rightarrow> 'e list option" where
  "stack_push st e = (if length st < MAX_DEPTH then Some (e # st) else None)"

definition cursor_new :: "('s, 'd) dim_ops \<Rightarrow> ('a, 's) sum_tree \<Rightarrow> ('a, 's, 'd) cursor" where
  "cursor_new M tree =
     \<lparr>c_tree = tree, c_stack = [], c_position = dim_zero M, did_seek = False,
      at_end = st_is_empty tree\<rparr>"

definition cursor_reset :: "('s, 'd) dim_ops \<Rightarrow> ('a, 's, 'd) cursor \<Rightarrow> ('a, 's, 'd) cursor" where
  "cursor_reset M c =
     c\<lparr>did_seek := False, at_end := st_is_empty (c_tree c), c_stack := [],
       c_position := dim_zero M\<rparr>"

subsection \<open>Reading at the cursor\<close>

definition cursor_item :: "('a, 's, 'd) cursor \<Rightarrow> 'a option option" where
  "cursor_item c =
     (if \<not> did_seek c then None
      else case c_stack c of
        [] \<Rightarrow> Some None
      | e # _ \<Rightarrow>
          (case se_tree e of
             Leaf _ items _ \<Rightarrow>
               (if se_index e = length items then Some None
                else map_option Some (vec_get items (se_index e)))
           | Internal _ _ _ _ \<Rightarrow> None))"

definition cursor_item_summary :: "('a, 's, 'd) cursor \<Rightarrow> 's option option" where
  "cursor_item_summary c =
     (if \<not> did_seek c then None
      else case c_stack c of
        [] \<Rightarrow> Some None
      | e # _ \<Rightarrow>
          (case se_tree e of
             Leaf _ _ item_summaries \<Rightarrow>
               (if se_index e = length item_summaries then Some None
                else map_option Some (vec_get item_summaries (se_index e)))
           | Internal _ _ _ _ \<Rightarrow> None))"

definition cursor_start :: "('a, 's, 'd) cursor \<Rightarrow> 'd" where
  "cursor_start c = c_position c"

definition cursor_end :: "('s, 'd) dim_ops \<Rightarrow> ('a, 's, 'd) cursor \<Rightarrow> 'd option" where
  "cursor_end M c =
     do { s \<leftarrow> cursor_item_summary c;
          Some (case s of Some summary \<Rightarrow> dim_add M (cursor_start c) summary
                        | None \<Rightarrow> cursor_start c) }"

fun next_leaf_in :: "('a, 's, 'd) stack_entry list \<Rightarrow> ('a, 's) sum_tree option option" where
  "next_leaf_in [] = Some None"
| "next_leaf_in (e # st) =
     do { ts \<leftarrow> node_child_trees (se_tree e);
          l \<leftarrow> checked_sub (length ts) 1;
          if se_index e < l then
            do { t \<leftarrow> vec_get ts (se_index e + 1); map_option Some (leftmost_leaf t) }
          else next_leaf_in st }"

definition next_leaf :: "('a, 's, 'd) cursor \<Rightarrow> ('a, 's) sum_tree option option" where
  "next_leaf c = next_leaf_in (tl (c_stack c))"

definition next_item :: "('a, 's, 'd) cursor \<Rightarrow> 'a option option" where
  "next_item c =
     (if \<not> did_seek c then None
      else case c_stack c of
        e # _ \<Rightarrow>
          do { items \<leftarrow> node_items (se_tree e);
               l \<leftarrow> checked_sub (length items) 1;
               if se_index e = l then
                 do { r \<leftarrow> next_leaf c;
                      (case r of
                         Some leaf \<Rightarrow> do { xs \<leftarrow> node_items leaf; map_option Some (vec_first xs) }
                       | None \<Rightarrow> Some None) }
               else map_option Some (vec_get items (se_index e + 1)) }
      | [] \<Rightarrow> (if at_end c then Some None else st_first (c_tree c)))"

fun prev_leaf_in :: "('a, 's, 'd) stack_entry list \<Rightarrow> ('a, 's) sum_tree option option" where
  "prev_leaf_in [] = Some None"
| "prev_leaf_in (e # st) =
     (if se_index e \<noteq> 0 then
        do { ts \<leftarrow> node_child_trees (se_tree e);
             t \<leftarrow> vec_get ts (se_index e - 1);
             map_option Some (rightmost_leaf t) }
      else prev_leaf_in st)"

definition prev_leaf :: "('a, 's, 'd) cursor \<Rightarrow> ('a, 's) sum_tree option option" where
  "prev_leaf c = prev_leaf_in (tl (c_stack c))"

definition prev_item :: "('a, 's, 'd) cursor \<Rightarrow> 'a option option" where
  "prev_item c =
     (if \<not> did_seek c then None
      else case c_stack c of
        e # _ \<Rightarrow>
          (if se_index e = 0 then
             do { r \<leftarrow> prev_leaf c;
                  (case r of
                     Some leaf \<Rightarrow> do { xs \<leftarrow> node_items leaf; map_option Some (vec_last xs) }
                   | None \<Rightarrow> Some None) }
           else do { items \<leftarrow> node_items (se_tree e);
                     map_option Some (vec_get items (se_index e - 1)) })
      | [] \<Rightarrow> (if at_end c then st_last (c_tree c) else Some None))"

subsection \<open>Moving forward\<close>

text \<open>
  The loops that skip the children (or items) whose summaries the filter rejects: the updated entry
  and cursor position.
\<close>

fun skip_forward ::
  "('s, 'd) dim_ops \<Rightarrow> ('s \<Rightarrow> bool) \<Rightarrow> ('a, 's, 'd) stack_entry \<Rightarrow> 'd \<Rightarrow> 's list \<Rightarrow>
   ('a, 's, 'd) stack_entry \<times> 'd"
where
  "skip_forward M filter_node e pos [] = (e, pos)"
| "skip_forward M filter_node e pos (next_summary # rest) =
     (if filter_node next_summary then (e, pos)
      else skip_forward M filter_node
             (e\<lparr>se_index := se_index e + 1, se_position := dim_add M (se_position e) next_summary\<rparr>)
             (dim_add M pos next_summary) rest)"

text \<open>The loop of \<open>search_forward\<close>; the last component tells whether it returned from a leaf.\<close>

partial_function (option) forward_loop ::
  "('s, 'd) dim_ops \<Rightarrow> ('s \<Rightarrow> bool) \<Rightarrow> ('a, 's, 'd) stack_entry list \<Rightarrow> 'd \<Rightarrow> bool \<Rightarrow>
   (('a, 's, 'd) stack_entry list \<times> 'd \<times> bool) option"
where
  "forward_loop M filter_node st pos descend =
     (case st of
        [] \<Rightarrow> Some ([], pos, False)
      | e # rest \<Rightarrow>
          (case se_tree e of
             Internal h s child_summaries child_trees \<Rightarrow>
               (let e1 = (if descend then e
                          else e\<lparr>se_index := se_index e + 1, se_position := pos\<rparr>);
                    r = skip_forward M filter_node e1 pos (drop (se_index e1) child_summaries)
                in case vec_get child_trees (se_index (fst r)) of
                     Some subtree \<Rightarrow>
                       do { st' \<leftarrow> stack_push (fst r # rest)
                                   \<lparr>se_tree = subtree, se_index = 0, se_position = snd r\<rparr>;
                            forward_loop M filter_node st' (snd r) True }
                   | None \<Rightarrow> forward_loop M filter_node rest (snd r) False)
           | Leaf s items item_summaries \<Rightarrow>
               do { (e1, pos1) \<leftarrow>
                      (if descend then Some (e, pos)
                       else map_option (\<lambda>summary.
                              (e\<lparr>se_index := se_index e + 1,
                                 se_position := dim_add M (se_position e) summary\<rparr>,
                               dim_add M pos summary))
                              (vec_get item_summaries (se_index e)));
                    let r = skip_forward M filter_node e1 pos1 (drop (se_index e1) item_summaries);
                    if se_index (fst r) < length item_summaries
                    then Some (fst r # rest, snd r, True)
                    else forward_loop M filter_node rest (snd r) False }))"

definition search_forward ::
  "('s, 'd) dim_ops \<Rightarrow> ('s \<Rightarrow> bool) \<Rightarrow> ('a, 's, 'd) cursor \<Rightarrow> ('a, 's, 'd) cursor option" where
  "search_forward M filter_node c =
     do { (c1, descend) \<leftarrow>
            (if c_stack c = [] then
               (if \<not> at_end c then
                  do { st \<leftarrow> stack_push []
                              \<lparr>se_tree = c_tree c, se_index = 0, se_position = dim_zero M\<rparr>;
                       Some (c\<lparr>c_stack := st, did_seek := True\<rparr>, True) }
                else Some (c\<lparr>did_seek := True\<rparr>, False))
             else Some (c, False));
          (st, pos, returned) \<leftarrow> forward_loop M filter_node (c_stack c1) (c_position c1) descend;
          Some (let c2 = c1\<lparr>c_stack := st, c_position := pos\<rparr>
                in if returned then c2 else c2\<lparr>at_end := (st = [])\<rparr>) }"

definition cursor_next ::
  "('s, 'd) dim_ops \<Rightarrow> ('a, 's, 'd) cursor \<Rightarrow> ('a, 's, 'd) cursor option" where
  "cursor_next M c = search_forward M (\<lambda>_. True) c"

subsection \<open>Moving backward\<close>

partial_function (option) backward_loop ::
  "('s, 'd) dim_ops \<Rightarrow> ('s \<Rightarrow> bool) \<Rightarrow> ('a, 's, 'd) stack_entry list \<Rightarrow> 'd \<Rightarrow> bool \<Rightarrow>
   (('a, 's, 'd) stack_entry list \<times> 'd) option"
where
  "backward_loop M filter_node st pos descending =
     (case st of
        [] \<Rightarrow> Some ([], pos)
      | e # rest \<Rightarrow>
          (let pos0 = (case rest of [] \<Rightarrow> dim_zero M | e' # _ \<Rightarrow> se_position e') in
           if \<not> descending \<and> se_index e = 0 then backward_loop M filter_node rest pos0 False
           else
             (let i = (if descending then se_index e else se_index e - 1);
                  summaries = node_child_summaries (se_tree e)
              in if length summaries \<le> i then None
                 else
                   (let pos1 = foldl (dim_add M) pos0 (take i summaries);
                        e1 = e\<lparr>se_index := i, se_position := pos1\<rparr>;
                        descending' = filter_node (summaries ! i)
                    in case se_tree e of
                         Internal h s child_summaries child_trees \<Rightarrow>
                           (if descending' then
                              do { tree \<leftarrow> vec_get child_trees i;
                                   l \<leftarrow> checked_sub (length (node_child_summaries tree)) 1;
                                   st' \<leftarrow> stack_push (e1 # rest)
                                          \<lparr>se_tree = tree, se_index = l, se_position = dim_zero M\<rparr>;
                                   backward_loop M filter_node st' pos1 True }
                            else backward_loop M filter_node (e1 # rest) pos1 False)
                       | Leaf s items item_summaries \<Rightarrow>
                           (if descending' then Some (e1 # rest, pos1)
                            else backward_loop M filter_node (e1 # rest) pos1 False)))))"

definition search_backward ::
  "('s, 'd) dim_ops \<Rightarrow> ('s \<Rightarrow> bool) \<Rightarrow> ('a, 's, 'd) cursor \<Rightarrow> ('a, 's, 'd) cursor option" where
  "search_backward M filter_node c =
     (let c1 = (if did_seek c then c else c\<lparr>did_seek := True, at_end := True\<rparr>) in
      do { c2 \<leftarrow>
             (if at_end c1 then
                (let c' = c1\<lparr>c_position := dim_zero M, at_end := st_is_empty (c_tree c1)\<rparr>
                 in if st_is_empty (c_tree c1) then Some c'
                    else do { st \<leftarrow> stack_push (c_stack c')
                                \<lparr>se_tree = c_tree c',
                                 se_index = length (node_child_summaries (c_tree c')),
                                 se_position = dim_add M (dim_zero M) (node_summary (c_tree c'))\<rparr>;
                              Some (c'\<lparr>c_stack := st\<rparr>) })
              else Some c1);
           (st, pos) \<leftarrow> backward_loop M filter_node (c_stack c2) (c_position c2) False;
           Some (c2\<lparr>c_stack := st, c_position := pos\<rparr>) })"

definition cursor_prev ::
  "('s, 'd) dim_ops \<Rightarrow> ('a, 's, 'd) cursor \<Rightarrow> ('a, 's, 'd) cursor option" where
  "cursor_prev M c = search_backward M (\<lambda>_. True) c"

subsection \<open>Seeking\<close>

text \<open>
  What a seek does with the trees and items it passes over: the trait \<open>SeekAggregate\<close>, as a record
  of its methods on an aggregate state.
\<close>

record ('a, 's, 'g) seek_aggregate =
  begin_leaf :: "'g \<Rightarrow> 'g option"
  end_leaf :: "'g \<Rightarrow> 'g option"
  push_item :: "'a \<Rightarrow> 's \<Rightarrow> 'g \<Rightarrow> 'g option"
  push_tree :: "('a, 's) sum_tree \<Rightarrow> 's \<Rightarrow> 'g \<Rightarrow> 'g option"

definition target_past :: "('d \<Rightarrow> ordering) \<Rightarrow> bias \<Rightarrow> 'd \<Rightarrow> bool" where
  "target_past target b location \<longleftrightarrow>
     (let comparison = target location
      in comparison = Greater \<or> (comparison = Equal \<and> b = Right))"

text \<open>The \<open>for\<close> loops over the children and over the items of a node.\<close>

fun seek_children ::
  "('s, 'd) dim_ops \<Rightarrow> ('d \<Rightarrow> ordering) \<Rightarrow> bias \<Rightarrow> ('a, 's, 'g) seek_aggregate \<Rightarrow>
   ('a, 's, 'd) stack_entry \<Rightarrow> 'd \<Rightarrow> 'g \<Rightarrow> (('a, 's) sum_tree \<times> 's) list \<Rightarrow>
   (('a, 's, 'd) stack_entry \<times> 'd \<times> 'g \<times> ('a, 's) sum_tree option) option"
where
  "seek_children M target b A e pos g [] = Some (e, pos, g, None)"
| "seek_children M target b A e pos g ((child_tree, child_summary) # rest) =
     (let child_end = dim_add M pos child_summary
      in if target_past target b child_end then
           do { g' \<leftarrow> push_tree A child_tree child_summary g;
                seek_children M target b A
                  (e\<lparr>se_index := se_index e + 1, se_position := child_end\<rparr>) child_end g' rest }
         else Some (e, pos, g, Some child_tree))"

fun seek_items ::
  "('s, 'd) dim_ops \<Rightarrow> ('d \<Rightarrow> ordering) \<Rightarrow> bias \<Rightarrow> ('a, 's, 'g) seek_aggregate \<Rightarrow>
   ('a, 's, 'd) stack_entry \<Rightarrow> 'd \<Rightarrow> 'g \<Rightarrow> ('a \<times> 's) list \<Rightarrow>
   (('a, 's, 'd) stack_entry \<times> 'd \<times> 'g \<times> bool) option"
where
  "seek_items M target b A e pos g [] = do { g' \<leftarrow> end_leaf A g; Some (e, pos, g', False) }"
| "seek_items M target b A e pos g ((item, summary) # rest) =
     (let child_end = dim_add M pos summary
      in if target_past target b child_end then
           do { g' \<leftarrow> push_item A item summary g;
                seek_items M target b A (e\<lparr>se_index := se_index e + 1\<rparr>) child_end g' rest }
         else do { g' \<leftarrow> end_leaf A g; Some (e, pos, g', True) })"

partial_function (option) seek_loop ::
  "('s, 'd) dim_ops \<Rightarrow> ('d \<Rightarrow> ordering) \<Rightarrow> bias \<Rightarrow> ('a, 's, 'g) seek_aggregate \<Rightarrow>
   ('a, 's, 'd) stack_entry list \<Rightarrow> 'd \<Rightarrow> 'g \<Rightarrow> bool \<Rightarrow>
   (('a, 's, 'd) stack_entry list \<times> 'd \<times> 'g) option"
where
  "seek_loop M target b A st pos g ascending =
     (case st of
        [] \<Rightarrow> Some ([], pos, g)
      | e # rest \<Rightarrow>
          (case se_tree e of
             Internal h s child_summaries child_trees \<Rightarrow>
               (let e1 = (if ascending then e\<lparr>se_index := se_index e + 1, se_position := pos\<rparr> else e)
                in if length child_trees < se_index e1 \<or> length child_summaries < se_index e1
                   then None
                   else do {
                     (e2, pos', g', res) \<leftarrow>
                       seek_children M target b A e1 pos g
                         (zip (drop (se_index e1) child_trees) (drop (se_index e1) child_summaries));
                     (case res of
                        Some child_tree \<Rightarrow>
                          do { st' \<leftarrow> stack_push (e2 # rest)
                                      \<lparr>se_tree = child_tree, se_index = 0, se_position = pos'\<rparr>;
                               seek_loop M target b A st' pos' g' False }
                      | None \<Rightarrow> seek_loop M target b A rest pos' g' True) })
           | Leaf s items item_summaries \<Rightarrow>
               (if length items < se_index e \<or> length item_summaries < se_index e then None
                else do {
                  g1 \<leftarrow> begin_leaf A g;
                  (e2, pos', g', stopped) \<leftarrow>
                    seek_items M target b A e pos g1
                      (zip (drop (se_index e) items) (drop (se_index e) item_summaries));
                  if stopped then Some (e2 # rest, pos', g')
                  else seek_loop M target b A rest pos' g' True })))"

definition seek_internal ::
  "('s, 'd) dim_ops \<Rightarrow> ('d \<Rightarrow> ordering) \<Rightarrow> bias \<Rightarrow> ('a, 's, 'g) seek_aggregate \<Rightarrow>
   ('a, 's, 'd) cursor \<Rightarrow> 'g \<Rightarrow> (('a, 's, 'd) cursor \<times> 'g \<times> bool) option"
where
  "seek_internal M target b A c g =
     (if target (c_position c) = Less then None
      else do {
        st0 \<leftarrow> (if did_seek c then Some (c_stack c)
               else stack_push (c_stack c)
                      \<lparr>se_tree = c_tree c, se_index = 0, se_position = dim_zero M\<rparr>);
        (st, pos, g') \<leftarrow> seek_loop M target b A st0 (c_position c) g False;
        let c' = c\<lparr>did_seek := True, c_stack := st, c_position := pos, at_end := (st = [])\<rparr>;
        _ \<leftarrow> (case st of [] \<Rightarrow> Some () | e # _ \<Rightarrow> (if is_leaf (se_tree e) then Some () else None));
        summary \<leftarrow> (if b = Left then cursor_item_summary c' else Some None);
        let e = (case summary of Some s \<Rightarrow> dim_add M pos s | None \<Rightarrow> pos);
        Some (c', g', target e = Equal) })"

text \<open>The three aggregates: nothing, the slice that is passed over, and its summary.\<close>

definition unit_aggregate :: "('a, 's, unit) seek_aggregate" where
  "unit_aggregate =
     \<lparr>begin_leaf = Some, end_leaf = Some, push_item = (\<lambda>_ _. Some), push_tree = (\<lambda>_ _. Some)\<rparr>"

record ('a, 's) slice_state =
  slice_tree :: "('a, 's) sum_tree"
  leaf_items :: "'a list"
  leaf_item_summaries :: "'s list"
  leaf_summary :: 's

definition slice_end_leaf ::
  "('a, 's) item_ops \<Rightarrow> ('a, 's) slice_state \<Rightarrow> ('a, 's) slice_state option" where
  "slice_end_leaf D g =
     do { t \<leftarrow> st_append D (slice_tree g)
                (Leaf (leaf_summary g) (leaf_items g) (leaf_item_summaries g));
          Some \<lparr>slice_tree = t, leaf_items = [], leaf_item_summaries = [],
                leaf_summary = summary_zero D\<rparr> }"

definition slice_push_item ::
  "('a, 's) item_ops \<Rightarrow> 'a \<Rightarrow> 's \<Rightarrow> ('a, 's) slice_state \<Rightarrow> ('a, 's) slice_state option" where
  "slice_push_item D item summary g =
     do { xs \<leftarrow> array_vec (leaf_items g @ [item]);
          ss \<leftarrow> array_vec (leaf_item_summaries g @ [summary]);
          Some (g\<lparr>leaf_items := xs, leaf_item_summaries := ss,
                  leaf_summary := add_summary D (leaf_summary g) summary\<rparr>) }"

definition slice_push_tree ::
  "('a, 's) item_ops \<Rightarrow> ('a, 's) sum_tree \<Rightarrow> 's \<Rightarrow> ('a, 's) slice_state \<Rightarrow>
   ('a, 's) slice_state option" where
  "slice_push_tree D tree summary g =
     do { t \<leftarrow> st_append D (slice_tree g) tree; Some (g\<lparr>slice_tree := t\<rparr>) }"

definition slice_aggregate ::
  "('a, 's) item_ops \<Rightarrow> ('a, 's, ('a, 's) slice_state) seek_aggregate" where
  "slice_aggregate D =
     \<lparr>begin_leaf = Some, end_leaf = slice_end_leaf D, push_item = slice_push_item D,
      push_tree = slice_push_tree D\<rparr>"

definition summary_aggregate :: "('s, 'o) dim_ops \<Rightarrow> ('a, 's, 'o) seek_aggregate" where
  "summary_aggregate N =
     \<lparr>begin_leaf = Some, end_leaf = Some,
      push_item = (\<lambda>_ summary d. Some (dim_add N d summary)),
      push_tree = (\<lambda>_ summary d. Some (dim_add N d summary))\<rparr>"

definition cursor_seek ::
  "('s, 'd) dim_ops \<Rightarrow> ('d \<Rightarrow> ordering) \<Rightarrow> bias \<Rightarrow> ('a, 's, 'd) cursor \<Rightarrow>
   (('a, 's, 'd) cursor \<times> bool) option" where
  "cursor_seek M pos b c =
     do { (c', _, found) \<leftarrow> seek_internal M pos b unit_aggregate (cursor_reset M c) ();
          Some (c', found) }"

definition cursor_seek_forward ::
  "('s, 'd) dim_ops \<Rightarrow> ('d \<Rightarrow> ordering) \<Rightarrow> bias \<Rightarrow> ('a, 's, 'd) cursor \<Rightarrow>
   (('a, 's, 'd) cursor \<times> bool) option" where
  "cursor_seek_forward M pos b c =
     do { (c', _, found) \<leftarrow> seek_internal M pos b unit_aggregate c (); Some (c', found) }"

definition cursor_slice ::
  "('a, 's) item_ops \<Rightarrow> ('s, 'd) dim_ops \<Rightarrow> ('d \<Rightarrow> ordering) \<Rightarrow> bias \<Rightarrow> ('a, 's, 'd) cursor \<Rightarrow>
   (('a, 's, 'd) cursor \<times> ('a, 's) sum_tree) option" where
  "cursor_slice D M e b c =
     do { (c', g, _) \<leftarrow> seek_internal M e b (slice_aggregate D) c
            \<lparr>slice_tree = st_new D, leaf_items = [], leaf_item_summaries = [],
             leaf_summary = summary_zero D\<rparr>;
          Some (c', slice_tree g) }"

definition seek_End :: "'d \<Rightarrow> ordering" where "seek_End d = Greater"

definition cursor_suffix ::
  "('a, 's) item_ops \<Rightarrow> ('s, 'd) dim_ops \<Rightarrow> ('a, 's, 'd) cursor \<Rightarrow>
   (('a, 's, 'd) cursor \<times> ('a, 's) sum_tree) option" where
  "cursor_suffix D M c = cursor_slice D M seek_End Right c"

definition cursor_summary ::
  "('s, 'd) dim_ops \<Rightarrow> ('s, 'o) dim_ops \<Rightarrow> ('d \<Rightarrow> ordering) \<Rightarrow> bias \<Rightarrow> ('a, 's, 'd) cursor \<Rightarrow>
   (('a, 's, 'd) cursor \<times> 'o) option" where
  "cursor_summary M N e b c =
     do { (c', d, _) \<leftarrow> seek_internal M e b (summary_aggregate N) c (dim_zero N); Some (c', d) }"

subsection \<open>Iteration\<close>

text \<open>\<open>Iter\<close>: a cursor without positions.\<close>

record ('a, 's) iter =
  it_tree :: "('a, 's) sum_tree"
  it_stack :: "(('a, 's) sum_tree \<times> nat) list"

definition iter_new :: "('a, 's) sum_tree \<Rightarrow> ('a, 's) iter" where
  "iter_new tree = \<lparr>it_tree = tree, it_stack = []\<rparr>"

partial_function (option) iter_loop ::
  "(('a, 's) sum_tree \<times> nat) list \<Rightarrow> bool \<Rightarrow> ((('a, 's) sum_tree \<times> nat) list \<times> 'a option) option"
where
  "iter_loop st descend =
     (case st of
        [] \<Rightarrow> Some ([], None)
      | (tree, index) # rest \<Rightarrow>
          (let i = (if descend then index else index + 1) in
           case tree of
             Internal h s child_summaries child_trees \<Rightarrow>
               (case vec_get child_trees i of
                  Some subtree \<Rightarrow>
                    do { st' \<leftarrow> stack_push ((tree, i) # rest) (subtree, 0); iter_loop st' True }
                | None \<Rightarrow> iter_loop rest False)
           | Leaf s items item_summaries \<Rightarrow>
               (case vec_get items i of
                  Some x \<Rightarrow> Some ((tree, i) # rest, Some x)
                | None \<Rightarrow> iter_loop rest False)))"

definition iter_next :: "('a, 's) iter \<Rightarrow> (('a, 's) iter \<times> 'a option) option" where
  "iter_next it =
     do { (st, descend) \<leftarrow>
            (if it_stack it = [] then map_option (\<lambda>st. (st, True)) (stack_push [] (it_tree it, 0))
             else Some (it_stack it, False));
          (st', res) \<leftarrow> iter_loop st descend;
          Some (it\<lparr>it_stack := st'\<rparr>, res) }"

definition iter_last :: "('a, 's) iter \<Rightarrow> 'a option option" where
  "iter_last it = do { l \<leftarrow> rightmost_leaf (it_tree it); xs \<leftarrow> node_items l; Some (vec_last xs) }"

definition cursor_iter_next ::
  "('s, 'd) dim_ops \<Rightarrow> ('a, 's, 'd) cursor \<Rightarrow> (('a, 's, 'd) cursor \<times> 'a option) option" where
  "cursor_iter_next M c =
     do { c1 \<leftarrow> (if did_seek c then Some c else cursor_next M c);
          item \<leftarrow> cursor_item c1;
          (case item of
             Some x \<Rightarrow> do { c2 \<leftarrow> cursor_next M c1; Some (c2, Some x) }
           | None \<Rightarrow> Some (c1, None)) }"

record ('a, 's, 'd) filter_cursor =
  fc_cursor :: "('a, 's, 'd) cursor"
  filter_node :: "'s \<Rightarrow> bool"

definition filter_new ::
  "('s, 'd) dim_ops \<Rightarrow> ('a, 's) sum_tree \<Rightarrow> ('s \<Rightarrow> bool) \<Rightarrow> ('a, 's, 'd) filter_cursor" where
  "filter_new M tree f = \<lparr>fc_cursor = cursor_new M tree, filter_node = f\<rparr>"

definition filter_next ::
  "('s, 'd) dim_ops \<Rightarrow> ('a, 's, 'd) filter_cursor \<Rightarrow> ('a, 's, 'd) filter_cursor option" where
  "filter_next M fc =
     do { c \<leftarrow> search_forward M (filter_node fc) (fc_cursor fc); Some (fc\<lparr>fc_cursor := c\<rparr>) }"

definition filter_prev ::
  "('s, 'd) dim_ops \<Rightarrow> ('a, 's, 'd) filter_cursor \<Rightarrow> ('a, 's, 'd) filter_cursor option" where
  "filter_prev M fc =
     do { c \<leftarrow> search_backward M (filter_node fc) (fc_cursor fc); Some (fc\<lparr>fc_cursor := c\<rparr>) }"

definition filter_iter_next ::
  "('s, 'd) dim_ops \<Rightarrow> ('a, 's, 'd) filter_cursor \<Rightarrow>
   (('a, 's, 'd) filter_cursor \<times> 'a option) option" where
  "filter_iter_next M fc =
     do { fc1 \<leftarrow> (if did_seek (fc_cursor fc) then Some fc else filter_next M fc);
          item \<leftarrow> cursor_item (fc_cursor fc1);
          (case item of
             Some x \<Rightarrow> do { fc2 \<leftarrow> filter_next M fc1; Some (fc2, Some x) }
           | None \<Rightarrow> Some (fc1, None)) }"

subsection \<open>Trees of keyed items\<close>

text \<open>
  The operations of \<open>SumTree<T: KeyedItem>\<close>. A key is a dimension with a total order, so a key is
  its own seek target; \<open>key\<close> is \<open>KeyedItem::key\<close>.
\<close>

datatype ('a, 'k) tree_edit = Insert 'a | Remove 'k

definition edit_key :: "('a \<Rightarrow> 'k) \<Rightarrow> ('a, 'k) tree_edit \<Rightarrow> 'k" where
  "edit_key key e = (case e of Insert item \<Rightarrow> key item | Remove k \<Rightarrow> k)"

definition keyed_insert_or_replace ::
  "('a, 's) item_ops \<Rightarrow> ('s, 'k::linorder) dim_ops \<Rightarrow> ('a \<Rightarrow> 'k) \<Rightarrow> ('a, 's) sum_tree \<Rightarrow> 'a \<Rightarrow>
   (('a, 's) sum_tree \<times> 'a option) option"
where
  "keyed_insert_or_replace D M key self item =
     do { (cursor, new_tree) \<leftarrow> cursor_slice D M (cmp (key item)) Left (cursor_new M self);
          cursor_item' \<leftarrow> cursor_item cursor;
          (cursor', replaced) \<leftarrow>
            (case cursor_item' of
               Some x \<Rightarrow> (if key x = key item
                          then map_option (\<lambda>c. (c, Some x)) (cursor_next M cursor)
                          else Some (cursor, None))
             | None \<Rightarrow> Some (cursor, None));
          t1 \<leftarrow> st_push D new_tree item;
          (_, suffix) \<leftarrow> cursor_suffix D M cursor';
          t2 \<leftarrow> st_append D t1 suffix;
          Some (t2, replaced) }"

definition keyed_remove ::
  "('a, 's) item_ops \<Rightarrow> ('s, 'k::linorder) dim_ops \<Rightarrow> ('a \<Rightarrow> 'k) \<Rightarrow> ('a, 's) sum_tree \<Rightarrow> 'k \<Rightarrow>
   (('a, 's) sum_tree \<times> 'a option) option"
where
  "keyed_remove D M key self k =
     do { (cursor, new_tree) \<leftarrow> cursor_slice D M (cmp k) Left (cursor_new M self);
          item \<leftarrow> cursor_item cursor;
          (cursor', removed) \<leftarrow>
            (case item of
               Some x \<Rightarrow> (if key x = k
                          then map_option (\<lambda>c. (c, Some x)) (cursor_next M cursor)
                          else Some (cursor, None))
             | None \<Rightarrow> Some (cursor, None));
          (_, suffix) \<leftarrow> cursor_suffix D M cursor';
          t \<leftarrow> st_append D new_tree suffix;
          Some (t, removed) }"

text \<open>
  The loop of \<open>edit\<close> over the sorted edits: the cursor, the new tree, the items buffered for it
  and the items removed so far.
\<close>

fun edit_loop ::
  "('a, 's) item_ops \<Rightarrow> ('s, 'k::linorder) dim_ops \<Rightarrow> ('a \<Rightarrow> 'k) \<Rightarrow> ('a, 'k) tree_edit list \<Rightarrow>
   ('a, 's, 'k) cursor \<Rightarrow> ('a, 's) sum_tree \<Rightarrow> 'a list \<Rightarrow> 'a list \<Rightarrow>
   (('a, 's, 'k) cursor \<times> ('a, 's) sum_tree \<times> 'a list \<times> 'a list) option"
where
  "edit_loop D M key [] cursor new_tree buffered removed = Some (cursor, new_tree, buffered, removed)"
| "edit_loop D M key (e # edits) cursor new_tree buffered removed =
     (let new_key = edit_key key e in
      do { old_item \<leftarrow> cursor_item cursor;
           (cursor1, new_tree1, buffered1, old_item1) \<leftarrow>
             (case old_item of
                Some x \<Rightarrow>
                  (if key x < new_key then
                     do { t1 \<leftarrow> st_extend D new_tree buffered;
                          (c1, slice) \<leftarrow> cursor_slice D M (cmp new_key) Left cursor;
                          t2 \<leftarrow> st_append D t1 slice;
                          x1 \<leftarrow> cursor_item c1;
                          Some (c1, t2, [], x1) }
                   else Some (cursor, new_tree, buffered, old_item))
              | None \<Rightarrow> Some (cursor, new_tree, buffered, old_item));
           (cursor2, removed2) \<leftarrow>
             (case old_item1 of
                Some x \<Rightarrow> (if key x = new_key
                           then map_option (\<lambda>c. (c, removed @ [x])) (cursor_next M cursor1)
                           else Some (cursor1, removed))
              | None \<Rightarrow> Some (cursor1, removed));
           let buffered2 = (case e of Insert item \<Rightarrow> buffered1 @ [item] | Remove _ \<Rightarrow> buffered1);
           edit_loop D M key edits cursor2 new_tree1 buffered2 removed2 })"

text \<open>
  The edits are sorted by key. The sort of the code is unstable: for edits with pairwise distinct
  keys the sorted list is unique and equal to the one used here.
\<close>

definition keyed_edit ::
  "('a, 's) item_ops \<Rightarrow> ('s, 'k::linorder) dim_ops \<Rightarrow> ('a \<Rightarrow> 'k) \<Rightarrow> ('a, 's) sum_tree \<Rightarrow>
   ('a, 'k) tree_edit list \<Rightarrow> (('a, 's) sum_tree \<times> 'a list) option"
where
  "keyed_edit D M key self edits =
     (if edits = [] then Some (self, [])
      else do {
        (cursor, _) \<leftarrow> cursor_seek M (cmp (dim_zero M)) Left (cursor_new M self);
        (cursor', new_tree, buffered, removed) \<leftarrow>
          edit_loop D M key (sort_key (edit_key key) edits) cursor (st_new D) [] [];
        t1 \<leftarrow> st_extend D new_tree buffered;
        (_, suffix) \<leftarrow> cursor_suffix D M cursor';
        t2 \<leftarrow> st_append D t1 suffix;
        Some (t2, removed) })"

definition keyed_get ::
  "('s, 'k::linorder) dim_ops \<Rightarrow> ('a, 's) sum_tree \<Rightarrow> 'k \<Rightarrow> 'a option" where
  "keyed_get M self k = snd (snd (st_find_exact M self (cmp k) Left))"

text \<open>The loops evaluate by unfolding one turn at a time.\<close>

declare forward_loop.simps [code] backward_loop.simps [code] seek_loop.simps [code] iter_loop.simps [code]

end
