(* ===== verification/Cursor_Correct.thy ===== *)
theory Cursor_Correct
  imports Cursor SumTree_Find
begin

section \<open>Cursors implement positions in a sequence\<close>

text \<open>
  The abstraction of a cursor over a tree is an index into the sequence of its items. \<open>frames\<close>
  relates a stack of internal entries to the subtree below it and to the number of items before that
  subtree; \<open>lands\<close> says that a stack and position stand for an index. Seeking and stepping are shown
  to move to the first index from the current one at which a search predicate holds.
\<close>

subsection \<open>The first index from a start\<close>

function first_from :: "(nat \<Rightarrow> bool) \<Rightarrow> nat \<Rightarrow> nat \<Rightarrow> nat" where
  "first_from P n m = (if m < n \<and> \<not> P m then first_from P n (Suc m) else m)"
  by pat_completeness auto
termination
  by (relation "measure (\<lambda>(P, n, m). n - m)") auto

declare first_from.simps [simp del]

lemma first_from_spec:
  "m \<le> n \<Longrightarrow> m \<le> first_from P n m \<and> first_from P n m \<le> n \<and>
     (\<forall>i. m \<le> i \<and> i < first_from P n m \<longrightarrow> \<not> P i) \<and> (first_from P n m < n \<longrightarrow> P (first_from P n m))"
proof (induction P n m rule: first_from.induct)
  case (1 P n m)
  show ?case
  proof (cases "m < n \<and> \<not> P m")
    case True
    then have "first_from P n m = first_from P n (Suc m)" by (subst first_from.simps) simp
    moreover have "i = m \<or> Suc m \<le> i" if "m \<le> i" for i using that by auto
    ultimately show ?thesis using 1(1)[OF True] True by (auto dest: Suc_leI)
  next
    case False
    then have "first_from P n m = m" by (subst first_from.simps) auto
    with False 1(2) show ?thesis by auto
  qed
qed

lemmas first_from_ge = first_from_spec[THEN conjunct1]
lemmas first_from_le = first_from_spec[THEN conjunct2, THEN conjunct1]

lemma first_from_unique:
  assumes "m \<le> k" "k \<le> n" "\<And>i. m \<le> i \<Longrightarrow> i < k \<Longrightarrow> \<not> P i" "k < n \<Longrightarrow> P k"
  shows "first_from P n m = k"
proof -
  have "\<not> first_from P n m < k" "\<not> k < first_from P n m"
    using first_from_spec[of m n P] assms by auto
  then show ?thesis by simp
qed

lemma first_from_skip:
  assumes "m \<le> k" "k \<le> n" "\<And>i. m \<le> i \<Longrightarrow> i < k \<Longrightarrow> \<not> P i"
  shows "first_from P n m = first_from P n k"
proof (rule first_from_unique)
  fix i assume "m \<le> i" "i < first_from P n k"
  then show "\<not> P i" using first_from_spec[OF assms(2), of P] assms(3)[of i] by (cases "i < k") auto
qed (use first_from_spec[OF assms(2), of P] assms in auto)

lemma first_from_end [simp]: "first_from P n n = n"
  by (simp add: first_from.simps[of P n n])

text \<open>The items between two indices.\<close>

definition segment :: "'a list \<Rightarrow> nat \<Rightarrow> nat \<Rightarrow> 'a list" where
  "segment xs i j = take (j - i) (drop i xs)"

lemma segment_append: "i \<le> j \<Longrightarrow> j \<le> k \<Longrightarrow> segment xs i j @ segment xs j k = segment xs i k"
  using take_add[of "j - i" "k - j" "drop i xs"] by (simp add: segment_def)

lemma segment_same [simp]: "segment xs i i = []"
  by (simp add: segment_def)

lemma segment_0: "segment xs 0 k = take k xs"
  by (simp add: segment_def)

lemma segment_end: "segment xs k (length xs) = drop k xs"
  by (simp add: segment_def)

subsection \<open>Positions of the items of a tree\<close>

definition item_pos :: "('a, 's) item_ops \<Rightarrow> ('s, 'd) dim_ops \<Rightarrow> ('a, 's) sum_tree \<Rightarrow> nat \<Rightarrow> 'd" where
  "item_pos D M root k = pos_at M (dim_zero M) (map (item_summary D) (to_list root)) k"

definition children_before :: "('a, 's) sum_tree list \<Rightarrow> nat \<Rightarrow> nat" where
  "children_before ts i = length (concat (map to_list (take i ts)))"

fun items_before :: "('a, 's) sum_tree \<Rightarrow> nat \<Rightarrow> nat" where
  "items_before (Leaf s xs ss) i = i"
| "items_before (Internal h s ss ts) i = children_before ts i"

inductive frames ::
  "('a, 's) item_ops \<Rightarrow> ('s, 'd) dim_ops \<Rightarrow> ('a, 's) sum_tree \<Rightarrow> ('a, 's) sum_tree \<Rightarrow> nat \<Rightarrow>
   ('a, 's, 'd) stack_entry list \<Rightarrow> bool"
  for D M root
where
  frames_here: "frames D M root root 0 []"
| frames_down: "frames D M root (Internal h s ss ts) off st \<Longrightarrow> i < length ts \<Longrightarrow>
    se_tree e = Internal h s ss ts \<Longrightarrow> se_index e = i \<Longrightarrow>
    se_position e = item_pos D M root (off + items_before (Internal h s ss ts) i) \<Longrightarrow>
    frames D M root (ts ! i) (off + items_before (Internal h s ss ts) i) (e # st)"

definition lands ::
  "('a, 's) item_ops \<Rightarrow> ('s, 'd) dim_ops \<Rightarrow> ('a, 's) sum_tree \<Rightarrow> nat \<Rightarrow>
   ('a, 's, 'd) stack_entry list \<Rightarrow> 'd \<Rightarrow> bool"
where
  "lands D M root k st pos \<longleftrightarrow>
     pos = item_pos D M root k \<and> k \<le> length (to_list root) \<and>
     (if k < length (to_list root)
      then \<exists>off e st'. st = e # st' \<and> frames D M root (se_tree e) off st' \<and> is_leaf (se_tree e) \<and>
             se_index e < length (to_list (se_tree e)) \<and> k = off + se_index e
      else st = [])"

lemma concat_split_nth:
  "i < length ts \<Longrightarrow>
   concat (map f ts) = concat (map f (take i ts)) @ f (ts ! i) @ concat (map f (drop (Suc i) ts))"
  by (subst id_take_nth_drop[of i ts]) (simp_all)

lemma children_before_Suc:
  "i < length ts \<Longrightarrow> children_before ts (Suc i) = children_before ts i + length (to_list (ts ! i))"
  by (simp add: children_before_def take_Suc_conv_app_nth)

lemma children_before_mono: "i \<le> j \<Longrightarrow> children_before ts i \<le> children_before ts j"
  using take_add[of i "j - i" ts] by (simp add: children_before_def)

lemma children_before_0 [simp]: "children_before ts 0 = 0"
  by (simp add: children_before_def)

lemma children_before_all [simp]: "children_before ts (length ts) = length (concat (map to_list ts))"
  by (simp add: children_before_def)

lemma children_before_le: "i \<le> length ts \<Longrightarrow> children_before ts i \<le> length (concat (map to_list ts))"
  using children_before_mono[of i "length ts" ts] by simp

text \<open>A frame stack splits the sequence around its subtree, and its length adds up to the height.\<close>

lemma frames_wf:
  assumes "frames D M root u off st" "st_wf D V root"
  shows "st_wf D V u \<and> length st + node_height u = node_height root \<and> (st \<noteq> [] \<longrightarrow> to_list u \<noteq> []) \<and>
    (\<exists>xs ys. to_list root = xs @ to_list u @ ys \<and> length xs = off)"
  using assms
proof (induction rule: frames.induct)
  case frames_here
  then show ?case by (auto intro: exI[of _ "[]"])
next
  case (frames_down h s ss ts off st i e)
  let ?u = "Internal h s ss ts"
  from frames_down obtain xs ys where
    u: "st_wf D V ?u" "length st + node_height ?u = node_height root"
       "to_list root = xs @ to_list ?u @ ys" "length xs = off"
    by auto
  have c: "st_wf D V (ts ! i)" "node_height (ts ! i) = h - 1" "to_list (ts ! i) \<noteq> []" "h > 0"
    using u(1) frames_down.hyps(2) by auto
  have "to_list root = (xs @ concat (map to_list (take i ts))) @ to_list (ts ! i) @
      (concat (map to_list (drop (Suc i) ts)) @ ys)"
    using u(3) concat_split_nth[OF frames_down.hyps(2), of to_list] by simp
  moreover have "length (xs @ concat (map to_list (take i ts))) = off + items_before ?u i"
    using u(4) by (simp add: children_before_def)
  ultimately show ?case using c u(2) by fastforce
qed

lemma item_pos_0 [simp]: "item_pos D M root 0 = dim_zero M"
  by (simp add: item_pos_def)

lemma item_pos_Suc:
  "k < length (to_list root) \<Longrightarrow>
   item_pos D M root (Suc k) = dim_add M (item_pos D M root k) (item_summary D (to_list root ! k))"
  by (simp add: item_pos_def pos_at_def take_Suc_conv_app_nth)

lemma item_pos_append:
  assumes "to_list root = xs @ us @ ys" "length xs = off"
  shows "item_pos D M root (off + length us) =
         foldl (dim_add M) (item_pos D M root off) (map (item_summary D) us)"
  using assms by (simp add: item_pos_def pos_at_def)

lemma segment_inner:
  assumes "ws = xs @ us @ ys" "length xs = off" "i \<le> j" "j \<le> length us"
  shows "segment ws (off + i) (off + j) = segment us i j"
  using assms by (simp add: segment_def)

lemma segment_all: "segment us 0 (length us) = us"
  by (simp add: segment_def)

lemma item_pos_segment:
  assumes "m \<le> k" "k \<le> length (to_list root)"
  shows "foldl (dim_add M) (item_pos D M root m) (map (item_summary D) (segment (to_list root) m k)) =
         item_pos D M root k"
  using segment_append[of 0 m k "to_list root"] assms(1)
  by (simp add: item_pos_def pos_at_def segment_0 take_map flip: map_append foldl_append)

definition seek_hit ::
  "('a, 's) item_ops \<Rightarrow> ('s, 'd) dim_ops \<Rightarrow> ('d \<Rightarrow> ordering) \<Rightarrow> bias \<Rightarrow> ('a, 's) sum_tree \<Rightarrow> nat \<Rightarrow> bool"
where
  "seek_hit D M target b root i \<longleftrightarrow> target_in target b (item_pos D M root (Suc i))"

lemma target_past_iff: "target_past target b d \<longleftrightarrow> \<not> target_in target b d"
  by (cases "target d"; cases b) (auto simp: target_past_def target_in_def)

lemma seek_mono_hit:
  assumes "seek_mono M (target_in target b) (dim_zero M) (map (item_summary D) (to_list root))"
    and "i \<le> j" "j < length (to_list root)" "seek_hit D M target b root i"
  shows "seek_hit D M target b root j"
proof (cases "i = j")
  case False
  then have ij: "i < j" using assms(2) by simp
  have "ends M (dim_zero M) (map (item_summary D) (to_list root)) ! l = item_pos D M root (Suc l)"
    if "l < length (to_list root)" for l
    using that nth_ends[of l "map (item_summary D) (to_list root)" M "dim_zero M"]
    by (simp add: item_pos_def)
  with assms(1,3,4) ij show ?thesis
    by (auto simp: seek_mono_def seek_hit_def sorted_wrt_iff_nth_less)
qed (use assms in simp)

text \<open>An entry whose index and, on an internal node, whose position are consistent.\<close>

definition entry_ok ::
  "('a, 's) item_ops \<Rightarrow> ('s, 'd) dim_ops \<Rightarrow> ('a, 's) sum_tree \<Rightarrow> nat \<Rightarrow> ('a, 's, 'd) stack_entry \<Rightarrow> bool"
where
  "entry_ok D M root off e \<longleftrightarrow>
     (case se_tree e of
        Leaf s xs ss \<Rightarrow> se_index e \<le> length xs
      | Internal h s ss ts \<Rightarrow> se_index e \<le> length ts \<and>
          se_position e = item_pos D M root (off + children_before ts (se_index e)))"

lemma items_before_0 [simp]: "items_before u 0 = 0"
  by (cases u) auto

lemma entry_ok_fresh: "pos = item_pos D M root off \<Longrightarrow> entry_ok D M root off \<lparr>se_tree = u, se_index = 0, se_position = pos\<rparr>"
  by (auto simp: entry_ok_def split: node.splits)

lemma entry_ok_before: "entry_ok D M root off e \<Longrightarrow> items_before (se_tree e) (se_index e) \<le> length (to_list (se_tree e))"
  using children_before_le by (auto simp: entry_ok_def split: node.splits)

lemma seek_loop_ascend:
  "se_tree e = Internal h s ss ts \<Longrightarrow>
   seek_loop M target b A (e # st) pos g True =
   seek_loop M target b A (e\<lparr>se_index := se_index e + 1, se_position := pos\<rparr> # st) pos g False"
  by (subst (1 2) seek_loop.simps) simp

subsection \<open>Cursors at an index\<close>

definition cursor_at ::
  "('a, 's) item_ops \<Rightarrow> ('s, 'd) dim_ops \<Rightarrow> ('a, 's) sum_tree \<Rightarrow> nat \<Rightarrow> ('a, 's, 'd) cursor \<Rightarrow> bool"
where
  "cursor_at D M root k c \<longleftrightarrow>
     c_tree c = root \<and> did_seek c \<and> lands D M root k (c_stack c) (c_position c) \<and>
     at_end c = (c_stack c = [])"

text \<open>A cursor that a seek from index \<open>k\<close> may start from: one at \<open>k\<close>, or a fresh one at 0.\<close>

definition cursor_from ::
  "('a, 's) item_ops \<Rightarrow> ('s, 'd) dim_ops \<Rightarrow> ('a, 's) sum_tree \<Rightarrow> nat \<Rightarrow> ('a, 's, 'd) cursor \<Rightarrow> bool"
where
  "cursor_from D M root k c \<longleftrightarrow> cursor_at D M root k c \<or> k = 0 \<and> c = cursor_new M root"

lemma cursor_from_new [simp]: "cursor_from D M root 0 (cursor_new M root)"
  by (simp add: cursor_from_def)

lemma cursor_from_at: "cursor_at D M root k c \<Longrightarrow> cursor_from D M root k c"
  by (simp add: cursor_from_def)

lemma cursor_reset_new: "c_tree c = root \<Longrightarrow> cursor_reset M c = cursor_new M root"
  by (simp add: cursor_reset_def cursor_new_def)

lemma lands_item:
  assumes "lands D M root k st pos" "k < length (to_list root)" "st_wf D V root"
  obtains off e st' s xs where "st = e # st'" "frames D M root (se_tree e) off st'"
    "se_tree e = Leaf s xs (map (item_summary D) xs)" "se_index e < length xs" "k = off + se_index e"
    "xs ! se_index e = to_list root ! k"
proof -
  obtain off e st' where e: "st = e # st'" "frames D M root (se_tree e) off st'" "is_leaf (se_tree e)"
      "se_index e < length (to_list (se_tree e))" "k = off + se_index e"
    using assms(1,2) by (auto simp: lands_def)
  obtain us vs where w: "st_wf D V (se_tree e)" "to_list root = us @ to_list (se_tree e) @ vs" "length us = off"
    using frames_wf[OF e(2) assms(3)] by auto
  obtain s xs where leaf: "se_tree e = Leaf s xs (map (item_summary D) xs)"
    using e(3) w(1) by (cases "se_tree e") auto
  show thesis
    using e w leaf by (intro that[of e st' off s xs]) (auto simp: nth_append)
qed

lemma cursor_at_reads:
  assumes "cursor_at D M root k c" "st_wf D V root"
  shows "cursor_item c = Some (vec_get (to_list root) k)"
    "cursor_item_summary c = Some (map_option (item_summary D) (vec_get (to_list root) k))"
    "cursor_start c = item_pos D M root k"
    "cursor_end M c = Some (item_pos D M root (min (Suc k) (length (to_list root))))"
proof -
  have pos: "c_position c = item_pos D M root k" "k \<le> length (to_list root)"
    using assms(1) by (auto simp: cursor_at_def lands_def)
  then show "cursor_start c = item_pos D M root k" by (simp add: cursor_start_def)
  have reads: "cursor_item c = Some (vec_get (to_list root) k) \<and>
      cursor_item_summary c = Some (map_option (item_summary D) (vec_get (to_list root) k))"
  proof (cases "k < length (to_list root)")
    case True
    have "lands D M root k (c_stack c) (c_position c)" "did_seek c" using assms(1) by (auto simp: cursor_at_def)
    with True show ?thesis using assms(2)
      by (elim lands_item) (auto simp: cursor_item_def cursor_item_summary_def vec_get_def)
  next
    case False
    then have "c_stack c = []" "did_seek c" using assms(1) by (auto simp: cursor_at_def lands_def)
    with False show ?thesis by (simp add: cursor_item_def cursor_item_summary_def vec_get_def)
  qed
  then show "cursor_item c = Some (vec_get (to_list root) k)"
    "cursor_item_summary c = Some (map_option (item_summary D) (vec_get (to_list root) k))" by auto
  show "cursor_end M c = Some (item_pos D M root (min (Suc k) (length (to_list root))))"
    using reads pos by (cases "k = length (to_list root)")
      (auto simp: cursor_end_def cursor_start_def vec_get_def item_pos_Suc min_def)
qed

subsection \<open>Aggregates\<close>

text \<open>
  What the seek loop needs of an aggregate: \<open>R g xs\<close> says that it has absorbed the items \<open>xs\<close>, and
  \<open>L g xs ys\<close> that it is inside a leaf after \<open>ys\<close>. No step of the protocol panics.
\<close>

locale seek_agg = sum_laws D V for D :: "('a, 's) item_ops" and V :: "'s \<Rightarrow> bool" +
  fixes A :: "('a, 's, 'g) seek_aggregate" and R :: "'g \<Rightarrow> 'a list \<Rightarrow> bool"
    and L :: "'g \<Rightarrow> 'a list \<Rightarrow> 'a list \<Rightarrow> bool"
  assumes agg_tree: "R g xs \<Longrightarrow> st_good D V h t \<Longrightarrow>
      \<exists>g'. push_tree A t (node_summary t) g = Some g' \<and> R g' (xs @ to_list t)"
    and agg_begin: "R g xs \<Longrightarrow> \<exists>g'. begin_leaf A g = Some g' \<and> L g' xs []"
    and agg_item: "L g xs ys \<Longrightarrow> length ys < MAX_CHILDREN \<Longrightarrow> V (item_summary D x) \<Longrightarrow>
      \<exists>g'. push_item A x (item_summary D x) g = Some g' \<and> L g' xs (ys @ [x])"
    and agg_end: "L g xs ys \<Longrightarrow> \<exists>g'. end_leaf A g = Some g' \<and> R g' (xs @ ys)"

locale seek_laws = dim_laws D V M + seek_agg D V A R L
  for D :: "('a, 's) item_ops" and V :: "'s \<Rightarrow> bool" and M :: "('s, 'd) dim_ops"
    and A :: "('a, 's, 'g) seek_aggregate" and R L
begin

lemma seek_items_first:
  fixes target b root
  defines "k m \<equiv> first_from (seek_hit D M target b root) (length (to_list root)) m"
  assumes split: "to_list root = us @ items @ vs" "length us = off"
    and V: "\<forall>x\<in>set items. V (item_summary D x)"
  shows "se_index e \<le> length items \<Longrightarrow> L g xs ys \<Longrightarrow> length ys + (length items - se_index e) \<le> MAX_CHILDREN \<Longrightarrow>
    k (off + se_index e) = K \<Longrightarrow>
    \<exists>g'. seek_items M target b A e (item_pos D M root (off + se_index e)) g
           (zip (drop (se_index e) items) (drop (se_index e) (map (item_summary D) items))) =
         Some (e\<lparr>se_index := min K (off + length items) - off\<rparr>,
               item_pos D M root (min K (off + length items)), g', K < off + length items) \<and>
         R g' (xs @ ys @ segment (to_list root) (off + se_index e) (min K (off + length items)))"
proof (induction "length items - se_index e" arbitrary: e g ys)
  case 0
  then have e: "se_index e = length items" by simp
  have "off + length items \<le> K" using 0 e split first_from_ge[of "off + length items" "length (to_list root)"]
    unfolding k_def by force
  with 0 agg_end[of g xs ys] show ?case by (auto simp: e min_def)
next
  case (Suc l)
  let ?j = "se_index e" and ?m = "off + se_index e"
  have j: "?j < length items" using Suc.hyps(2) by simp
  have m: "?m < length (to_list root)" "to_list root ! ?m = items ! ?j"
    using j split by (auto simp: nth_append)
  have pos: "item_pos D M root (Suc ?m) = dim_add M (item_pos D M root ?m) (item_summary D (items ! ?j))"
    using m item_pos_Suc by metis
  have zip: "zip (drop ?j items) (drop ?j (map (item_summary D) items)) =
      (items ! ?j, item_summary D (items ! ?j)) #
      zip (drop (Suc ?j) items) (drop (Suc ?j) (map (item_summary D) items))"
    using j by (simp add: Cons_nth_drop_Suc[symmetric])
  show ?case
  proof (cases "seek_hit D M target b root ?m")
    case True
    then have "k ?m = ?m" unfolding k_def by (subst first_from.simps) simp
    then have K: "K = ?m" using Suc.prems by simp
    from agg_end[OF Suc.prems(2)] obtain g' where "end_leaf A g = Some g'" "R g' (xs @ ys)" by auto
    with True j show ?thesis
      by (auto simp: zip K pos[symmetric] Let_def target_past_iff seek_hit_def min_def)
  next
    case False
    let ?e = "e\<lparr>se_index := Suc ?j\<rparr>"
    have "k ?m = k (Suc ?m)" unfolding k_def by (subst first_from.simps) (use False m in simp)
    then have K: "k (off + se_index ?e) = K" using Suc.prems by simp
    have "length ys < MAX_CHILDREN" using Suc.prems(3) j by linarith
    then obtain g1 where g1: "push_item A (items ! ?j) (item_summary D (items ! ?j)) g = Some g1"
        "L g1 xs (ys @ [items ! ?j])"
      using agg_item[OF Suc.prems(2), of "items ! ?j"] V j by auto
    have "Suc ?m \<le> K"
      using K first_from_ge[of "Suc ?m" "length (to_list root)"] m(1) unfolding k_def by force
    then have le: "Suc ?m \<le> min K (off + length items)" using j by simp
    have "segment (to_list root) ?m (Suc ?m) = [items ! ?j]"
      using m by (simp add: segment_def take_Suc_conv_app_nth hd_drop_conv_nth[symmetric] take_Suc)
    then have seg: "segment (to_list root) ?m (min K (off + length items)) =
        items ! ?j # segment (to_list root) (Suc ?m) (min K (off + length items))"
      using segment_append[of ?m "Suc ?m" "min K (off + length items)" "to_list root"] le by simp
    have "\<exists>g'. seek_items M target b A ?e (item_pos D M root (off + se_index ?e)) g1
           (zip (drop (se_index ?e) items) (drop (se_index ?e) (map (item_summary D) items))) =
         Some (?e\<lparr>se_index := min K (off + length items) - off\<rparr>,
               item_pos D M root (min K (off + length items)), g', K < off + length items) \<and>
         R g' (xs @ (ys @ [items ! ?j]) @
               segment (to_list root) (off + se_index ?e) (min K (off + length items)))"
      using Suc.hyps(2) Suc.prems(3) j by (intro Suc.hyps(1) g1(2) K) auto
    with False g1(1) show ?thesis
      by (simp add: zip pos[symmetric] Let_def target_past_iff seek_hit_def seg)
  qed
qed

text \<open>The end of a child is a hit exactly when the search stops inside it.\<close>

lemma child_end_hit:
  assumes split: "to_list root = us @ to_list c @ vs" "length us = off" and c: "st_good D V h c"
    and mono: "seek_mono M (target_in target b) (dim_zero M) (map (item_summary D) (to_list root))"
  shows "dim_add M (item_pos D M root off) (node_summary c) = item_pos D M root (off + length (to_list c))"
    and "target_past target b (item_pos D M root (off + length (to_list c))) \<Longrightarrow>
         off \<le> j \<Longrightarrow> j < off + length (to_list c) \<Longrightarrow> \<not> seek_hit D M target b root j"
    and "\<not> target_past target b (item_pos D M root (off + length (to_list c))) \<Longrightarrow>
         seek_hit D M target b root (off + length (to_list c) - 1)"
proof -
  have ne: "length (to_list c) > 0" using c by (simp add: st_good_def)
  then have last: "Suc (off + length (to_list c) - 1) = off + length (to_list c)" by simp
  show "dim_add M (item_pos D M root off) (node_summary c) = item_pos D M root (off + length (to_list c))"
    unfolding dim_good[OF c] item_pos_append[OF split] ..
  show "seek_hit D M target b root (off + length (to_list c) - 1)"
    if "\<not> target_past target b (item_pos D M root (off + length (to_list c)))"
    using that unfolding seek_hit_def last target_past_iff by simp
  show "\<not> seek_hit D M target b root j"
    if "target_past target b (item_pos D M root (off + length (to_list c)))"
      "off \<le> j" "j < off + length (to_list c)"
  proof
    assume "seek_hit D M target b root j"
    then have "seek_hit D M target b root (off + length (to_list c) - 1)"
      by (rule seek_mono_hit[OF mono, rotated 2]) (use that split ne in auto)
    then show False using that(1) unfolding seek_hit_def last target_past_iff by simp
  qed
qed

lemma seek_children_first:
  fixes target b root ts
  defines "ib \<equiv> children_before ts"
  assumes split: "to_list root = us @ concat (map to_list ts) @ vs" "length us = off"
    and good: "\<forall>t\<in>set ts. st_good D V h' t"
    and mono: "seek_mono M (target_in target b) (dim_zero M) (map (item_summary D) (to_list root))"
  shows "se_index e \<le> length ts \<Longrightarrow> R g xs \<Longrightarrow> se_position e = item_pos D M root (off + ib (se_index e)) \<Longrightarrow>
    \<exists>i g'. se_index e \<le> i \<and> i \<le> length ts \<and>
       seek_children M target b A e (item_pos D M root (off + ib (se_index e))) g
         (zip (drop (se_index e) ts) (drop (se_index e) (map node_summary ts))) =
       Some (e\<lparr>se_index := i, se_position := item_pos D M root (off + ib i)\<rparr>,
             item_pos D M root (off + ib i), g', if i < length ts then Some (ts ! i) else None) \<and>
       R g' (xs @ segment (to_list root) (off + ib (se_index e)) (off + ib i)) \<and>
       (\<forall>j. off + ib (se_index e) \<le> j \<and> j < off + ib i \<longrightarrow> \<not> seek_hit D M target b root j) \<and>
       (i < length ts \<longrightarrow> seek_hit D M target b root (off + ib (Suc i) - 1))"
proof (induction "length ts - se_index e" arbitrary: e g xs)
  case 0
  then have e: "se_index e = length ts" by simp
  then have "e\<lparr>se_index := length ts, se_position := item_pos D M root (off + ib (se_index e))\<rparr> = e"
    using 0 by simp
  with 0 show ?case by (intro exI[of _ "length ts"] exI[of _ g]) (auto simp: e)
next
  case (Suc l)
  let ?i = "se_index e"
  let ?m = "off + ib ?i"
  have i: "?i < length ts" using Suc.hyps(2) by simp
  have l: "l = length ts - Suc ?i" using Suc.hyps(2) by simp
  let ?c = "ts ! ?i"
  have c: "st_good D V h' ?c" using good i by simp
  have sp: "to_list root = (us @ concat (map to_list (take ?i ts))) @ to_list ?c @
      (concat (map to_list (drop (Suc ?i) ts)) @ vs)"
    using split concat_split_nth[OF i, of to_list] by simp
  have len: "length (us @ concat (map to_list (take ?i ts))) = ?m" using split by (simp add: ib_def children_before_def)
  have next_ib: "off + ib (Suc ?i) = ?m + length (to_list ?c)"
    using children_before_Suc[OF i] by (simp add: ib_def)
  note ch = child_end_hit[OF sp len c mono, folded next_ib]
  have zip: "zip (drop ?i ts) (drop ?i (map node_summary ts)) =
      (?c, node_summary ?c) # zip (drop (Suc ?i) ts) (drop (Suc ?i) (map node_summary ts))"
    using i by (simp add: Cons_nth_drop_Suc[symmetric])
  show ?case
  proof (cases "target_past target b (item_pos D M root (off + ib (Suc ?i)))")
    case True
    let ?e = "e\<lparr>se_index := Suc ?i, se_position := item_pos D M root (off + ib (Suc ?i))\<rparr>"
    obtain g1 where g1: "push_tree A ?c (node_summary ?c) g = Some g1" "R g1 (xs @ to_list ?c)"
      using agg_tree[OF Suc.prems(2) c] by auto
    obtain i' g' where ih: "Suc ?i \<le> i'" "i' \<le> length ts"
        "seek_children M target b A ?e (item_pos D M root (off + ib (Suc ?i))) g1
           (zip (drop (Suc ?i) ts) (drop (Suc ?i) (map node_summary ts))) =
         Some (?e\<lparr>se_index := i', se_position := item_pos D M root (off + ib i')\<rparr>,
               item_pos D M root (off + ib i'), g', if i' < length ts then Some (ts ! i') else None)"
        "R g' ((xs @ to_list ?c) @ segment (to_list root) (off + ib (Suc ?i)) (off + ib i'))"
        "\<forall>j. off + ib (Suc ?i) \<le> j \<and> j < off + ib i' \<longrightarrow> \<not> seek_hit D M target b root j"
        "i' < length ts \<longrightarrow> seek_hit D M target b root (off + ib (Suc i') - 1)"
      using Suc.hyps(1)[of ?e g1 "xs @ to_list ?c"] l g1(2) i by auto
    have le: "ib (Suc ?i) \<le> ib i'" "?m \<le> off + ib (Suc ?i)"
      using ih(1) unfolding ib_def by (auto intro: children_before_mono)
    have "segment (to_list root) ?m (off + ib (Suc ?i)) = to_list ?c"
      unfolding next_ib using segment_inner[OF sp len, of 0 "length (to_list ?c)"] by (simp add: segment_all)
    then have seg: "segment (to_list root) ?m (off + ib i') =
        to_list ?c @ segment (to_list root) (off + ib (Suc ?i)) (off + ib i')"
      using segment_append[of ?m "off + ib (Suc ?i)" "off + ib i'" "to_list root"] le by simp
    have "\<not> seek_hit D M target b root j" if "?m \<le> j" "j < off + ib i'" for j
      using ch(2)[OF True that(1)] ih(5) that(2) by (cases "j < off + ib (Suc ?i)") auto
    with True g1(1) ih show ?thesis
      by (intro exI[of _ i'] exI[of _ g']) (simp add: zip Let_def ch(1) seg)
  next
    case False
    then show ?thesis using Suc.prems ch i
      by (intro exI[of _ ?i] exI[of _ g]) (auto simp: zip Let_def)
  qed
qed

text \<open>
  Processing the entry on top of the stack: the loop either stops below it, at the first hit, or
  leaves the subtree behind and goes on with the rest of the stack.
\<close>

lemma seek_loop_entry:
  fixes target b root
  defines "n \<equiv> length (to_list root)"
  defines "K \<equiv> first_from (seek_hit D M target b root) n"
  assumes wf: "st_wf D V root" "node_height root < MAX_DEPTH"
    and mono: "seek_mono M (target_in target b) (dim_zero M) (map (item_summary D) (to_list root))"
  shows "frames D M root (se_tree e) off st \<Longrightarrow> entry_ok D M root off e \<Longrightarrow>
    m = off + items_before (se_tree e) (se_index e) \<Longrightarrow> m0 \<le> m \<Longrightarrow> R g (segment (to_list root) m0 m) \<Longrightarrow>
    \<exists>g'. if K m < off + length (to_list (se_tree e))
      then \<exists>st'. seek_loop M target b A (e # st) (item_pos D M root m) g False =
             Some (st', item_pos D M root (K m), g') \<and>
           lands D M root (K m) st' (item_pos D M root (K m)) \<and> R g' (segment (to_list root) m0 (K m))
      else seek_loop M target b A (e # st) (item_pos D M root m) g False =
             seek_loop M target b A st (item_pos D M root (off + length (to_list (se_tree e)))) g' True \<and>
           R g' (segment (to_list root) m0 (off + length (to_list (se_tree e))))"
proof (induction "node_height (se_tree e)" arbitrary: e off st m g rule: less_induct)
  case less
  obtain us vs where u: "st_wf D V (se_tree e)" "length st + node_height (se_tree e) = node_height root"
      "to_list root = us @ to_list (se_tree e) @ vs" "length us = off"
    using frames_wf[OF less.prems(1) wf(1)] by auto
  have m: "m \<le> off + length (to_list (se_tree e))" using entry_ok_before[OF less.prems(2)] less.prems(3) by simp
  then have mn: "m \<le> n" using u(3,4) unfolding n_def by auto
  note K = first_from_spec[OF mn, of "seek_hit D M target b root", folded K_def]
  show ?case
  proof (cases "se_tree e")
    case (Leaf s xs ss)
    have leaf: "ss = map (item_summary D) xs" "\<forall>x\<in>set xs. V (item_summary D x)" "length xs \<le> MAX_CHILDREN"
      using u(1) Leaf by auto
    have i: "se_index e \<le> length xs" "m = off + se_index e"
      using less.prems(2,3) Leaf by (auto simp: entry_ok_def)
    have sp: "to_list root = us @ xs @ vs" using u(3) by (simp add: Leaf)
    obtain g1 where g1: "begin_leaf A g = Some g1" "L g1 (segment (to_list root) m0 m) []"
      using agg_begin[OF less.prems(5)] by auto
    let ?K = "min (K m) (off + length xs)"
    obtain g' where g': "seek_items M target b A e (item_pos D M root m) g1
         (zip (drop (se_index e) xs) (drop (se_index e) (map (item_summary D) xs))) =
         Some (e\<lparr>se_index := ?K - off\<rparr>, item_pos D M root ?K, g', K m < off + length xs)"
       "R g' (segment (to_list root) m0 m @ [] @ segment (to_list root) m ?K)"
      using seek_items_first[OF sp u(4) leaf(2), where e = e and g = g1 and ys = "[]" and K = "K m"
          and xs = "segment (to_list root) m0 m" and target = target and b = b] diff_le_self[of "length xs" "se_index e"] le_trans[OF _ leaf(3)] i g1(2)
      unfolding K_def n_def by auto
    have seg: "segment (to_list root) m0 m @ segment (to_list root) m ?K = segment (to_list root) m0 ?K"
      using less.prems(4) K i by (intro segment_append) auto
    have land: "lands D M root (K m) (e\<lparr>se_index := K m - off\<rparr> # st) (item_pos D M root (K m))"
      if "K m < off + length xs"
    proof -
      have "off \<le> K m" using K i by simp
      with that less.prems(1) u(3,4) show ?thesis
        by (auto simp: lands_def Leaf intro!: exI[of _ off])
    qed
    show ?thesis using g' seg land i g1(1)
      by (intro exI[of _ g']) (subst (1 2) seek_loop.simps, auto simp: Leaf leaf min_def)
  next
    case (Internal h s ss ts)
    have node: "ss = map node_summary ts" "\<forall>t\<in>set ts. st_good D V (h - 1) t" "h > 0"
      using u(1) by (auto simp: Internal st_good_def)
    have e: "se_index e \<le> length ts" "m = off + children_before ts (se_index e)"
        "se_position e = item_pos D M root m"
      using less.prems(2,3) by (auto simp: Internal entry_ok_def)
    have split: "to_list root = us @ concat (map to_list ts) @ vs" using u(3) by (simp add: Internal)
    obtain i g1 where i: "se_index e \<le> i" "i \<le> length ts"
       "seek_children M target b A e (item_pos D M root m) g
         (zip (drop (se_index e) ts) (drop (se_index e) (map node_summary ts))) =
       Some (e\<lparr>se_index := i, se_position := item_pos D M root (off + children_before ts i)\<rparr>,
             item_pos D M root (off + children_before ts i), g1, if i < length ts then Some (ts ! i) else None)"
       "R g1 (segment (to_list root) m0 m @ segment (to_list root) m (off + children_before ts i))"
       "\<forall>j. m \<le> j \<and> j < off + children_before ts i \<longrightarrow> \<not> seek_hit D M target b root j"
       "i < length ts \<longrightarrow> seek_hit D M target b root (off + children_before ts (Suc i) - 1)"
      using seek_children_first[OF split u(4) node(2) mono, of e g "segment (to_list root) m0 m"]
        e less.prems(5) by auto
    let ?m = "off + children_before ts i"
      and ?e = "e\<lparr>se_index := i, se_position := item_pos D M root (off + children_before ts i)\<rparr>"
    have m': "m \<le> ?m" "?m \<le> off + length (to_list (se_tree e))"
      using i(1,2) e(2) children_before_mono children_before_le by (auto simp: Internal)
    then have R1: "R g1 (segment (to_list root) m0 ?m)"
      using i(4) less.prems(4) by (simp add: segment_append)
    have "?m \<le> n" using m'(2) u(3,4) by (auto simp: n_def)
    then have Km: "K m = K ?m" unfolding K_def using m'(1) i(5) by (intro first_from_skip) auto
    show ?thesis
    proof (cases "i < length ts")
      case True
      let ?c = "\<lparr>se_tree = ts ! i, se_index = 0, se_position = item_pos D M root ?m\<rparr>"
      have fr: "frames D M root (se_tree ?c) ?m (?e # st)"
        using frames_down[of D M root h s ss ts off st i ?e] less.prems(1) True by (simp add: Internal)
      have lower: "node_height (se_tree ?c) < node_height (se_tree e)"
        using node(2,3) True by (auto simp: Internal st_good_def)
      have next_ib: "off + children_before ts (Suc i) = ?m + length (to_list (ts ! i))"
        using children_before_Suc[OF True] by simp
      have pos: "length (to_list (ts ! i)) > 0" using node(2) True by (simp add: st_good_def)
      have hit: "seek_hit D M target b root (?m + length (to_list (ts ! i)) - 1)"
        using i(6) True next_ib by simp
      have lt: "K ?m < ?m + length (to_list (ts ! i))"
      proof (rule ccontr)
        assume "\<not> K ?m < ?m + length (to_list (ts ! i))"
        then have "m \<le> ?m + length (to_list (ts ! i)) - 1" "?m + length (to_list (ts ! i)) - 1 < K m"
          using pos m'(1) unfolding Km by linarith+
        with K hit show False by blast
      qed
      then obtain g' st' where ih: "seek_loop M target b A (?c # ?e # st) (item_pos D M root ?m) g1 False =
             Some (st', item_pos D M root (K ?m), g')"
           "lands D M root (K ?m) st' (item_pos D M root (K ?m))" "R g' (segment (to_list root) m0 (K ?m))"
        using less.hyps[OF lower fr entry_ok_fresh[OF refl], of ?m g1] R1 m'(1) less.prems(4) by auto
      have "?m + length (to_list (ts ! i)) \<le> off + length (to_list (se_tree e))"
        using next_ib children_before_le[of "Suc i" ts] True by (simp add: Internal)
      moreover have "stack_push (?e # st) ?c = Some (?c # ?e # st)"
        using u(2) wf(2) node(3) by (simp add: stack_push_def Internal)
      ultimately show ?thesis using lt ih True i(3) e(1)
        by (intro exI[of _ g']) (subst (1 2) seek_loop.simps, auto simp: Internal node(1) Km)
    next
      case False
      then have ie: "i = length ts" using i(2) by simp
      have "?m \<le> K ?m" unfolding K_def using \<open>?m \<le> n\<close> by (rule first_from_ge)
      then have "\<not> K m < off + length (to_list (se_tree e))" using Km by (simp add: ie Internal)
      with False show ?thesis using i(3) e(1) R1
        by (intro exI[of _ g1]) (subst seek_loop.simps, simp add: Internal node(1) ie)
    qed
  qed
qed

text \<open>Leaving a subtree behind: the loop goes on to the first hit after it.\<close>

lemma seek_loop_ascending:
  fixes target b root
  defines "n \<equiv> length (to_list root)"
  defines "K \<equiv> first_from (seek_hit D M target b root) n"
  assumes wf: "st_wf D V root" "node_height root < MAX_DEPTH"
    and mono: "seek_mono M (target_in target b) (dim_zero M) (map (item_summary D) (to_list root))"
  shows "frames D M root u off st \<Longrightarrow> m = off + length (to_list u) \<Longrightarrow> m0 \<le> m \<Longrightarrow>
    R g (segment (to_list root) m0 m) \<Longrightarrow>
    \<exists>st' g'. seek_loop M target b A st (item_pos D M root m) g True =
             Some (st', item_pos D M root (K m), g') \<and>
           lands D M root (K m) st' (item_pos D M root (K m)) \<and> R g' (segment (to_list root) m0 (K m))"
proof (induction arbitrary: m g rule: frames.induct)
  case frames_here
  then have "K m = n" by (simp add: K_def n_def first_from.simps)
  with frames_here show ?case
    by (subst seek_loop.simps) (auto simp: n_def lands_def)
next
  case (frames_down h s ss ts off st i e)
  let ?e = "e\<lparr>se_index := Suc i, se_position := item_pos D M root m\<rparr>"
  have m: "m = off + children_before ts (Suc i)"
    using frames_down.prems(1) frames_down.hyps(2) by (simp add: children_before_Suc)
  have fr: "frames D M root (se_tree ?e) off st" and ok: "entry_ok D M root off ?e"
    using frames_down.hyps m by (auto simp: entry_ok_def)
  have up: "seek_loop M target b A (e # st) (item_pos D M root m) g True =
      seek_loop M target b A (?e # st) (item_pos D M root m) g False"
    using seek_loop_ascend[OF frames_down.hyps(3)] frames_down.hyps(4) by simp
  obtain g' where g': "if K m < off + length (to_list (se_tree ?e))
      then \<exists>st'. seek_loop M target b A (?e # st) (item_pos D M root m) g False =
             Some (st', item_pos D M root (K m), g') \<and>
           lands D M root (K m) st' (item_pos D M root (K m)) \<and> R g' (segment (to_list root) m0 (K m))
      else seek_loop M target b A (?e # st) (item_pos D M root m) g False =
             seek_loop M target b A st (item_pos D M root (off + length (to_list (se_tree ?e)))) g' True \<and>
           R g' (segment (to_list root) m0 (off + length (to_list (se_tree ?e))))"
    using seek_loop_entry[OF wf mono fr ok _ frames_down.prems(2,3)] m frames_down.hyps(3)
    unfolding K_def n_def by auto
  show ?case
  proof (cases "K m < off + length (to_list (se_tree ?e))")
    case True
    with g' up show ?thesis by auto
  next
    case False
    let ?m = "off + length (to_list (Internal h s ss ts))"
    obtain us vs where sp: "to_list root = us @ to_list (Internal h s ss ts) @ vs" "length us = off"
      using frames_wf[OF frames_down.hyps(1) wf(1)] by auto
    have le: "m \<le> ?m" "?m \<le> n"
      using m children_before_le[of "Suc i" ts] frames_down.hyps(2) sp by (auto simp: n_def)
    have lt: "?m \<le> K m" using False frames_down.hyps(3) by simp
    have K: "K m = K ?m" unfolding K_def
    proof (rule first_from_skip[OF le])
      fix j assume "m \<le> j" "j < ?m"
      then show "\<not> seek_hit D M target b root j"
        using lt first_from_spec[OF order_trans[OF le], of "seek_hit D M target b root"] by (auto simp: K_def)
    qed
    have g1: "R g' (segment (to_list root) m0 ?m)"
      "seek_loop M target b A (e # st) (item_pos D M root m) g True =
       seek_loop M target b A st (item_pos D M root ?m) g' True"
      using g' False frames_down.hyps(3) up by auto
    show ?thesis unfolding g1(2) K
      using frames_down.IH[OF refl _ g1(1)] le(1) frames_down.prems(2) by simp
  qed
qed

lemma seek_loop_from:
  fixes target b root
  defines "K \<equiv> first_from (seek_hit D M target b root) (length (to_list root))"
  assumes wf: "st_wf D V root" "node_height root < MAX_DEPTH"
    and mono: "seek_mono M (target_in target b) (dim_zero M) (map (item_summary D) (to_list root))"
    and e: "frames D M root (se_tree e) off st" "entry_ok D M root off e"
      "m = off + items_before (se_tree e) (se_index e)"
    and R: "R g []"
  shows "\<exists>st' g'. seek_loop M target b A (e # st) (item_pos D M root m) g False =
             Some (st', item_pos D M root (K m), g') \<and>
           lands D M root (K m) st' (item_pos D M root (K m)) \<and> R g' (segment (to_list root) m (K m))"
proof -
  let ?m = "off + length (to_list (se_tree e))"
  have R': "R g (segment (to_list root) m m)" using R by simp
  obtain g' where g': "if K m < ?m
      then \<exists>st'. seek_loop M target b A (e # st) (item_pos D M root m) g False =
             Some (st', item_pos D M root (K m), g') \<and>
           lands D M root (K m) st' (item_pos D M root (K m)) \<and> R g' (segment (to_list root) m (K m))
      else seek_loop M target b A (e # st) (item_pos D M root m) g False =
             seek_loop M target b A st (item_pos D M root ?m) g' True \<and>
           R g' (segment (to_list root) m ?m)"
    using seek_loop_entry[OF wf mono e order_refl R'] unfolding K_def by auto
  show ?thesis
  proof (cases "K m < ?m")
    case True
    with g' show ?thesis by auto
  next
    case False
    obtain us vs where sp: "to_list root = us @ to_list (se_tree e) @ vs" "length us = off"
      using frames_wf[OF e(1) wf(1)] by auto
    have le: "m \<le> ?m" "?m \<le> length (to_list root)"
      using entry_ok_before[OF e(2)] e(3) sp by auto
    have K: "K m = K ?m" unfolding K_def
    proof (rule first_from_skip[OF le])
      fix j assume "m \<le> j" "j < ?m"
      then show "\<not> seek_hit D M target b root j"
        using False first_from_spec[OF order_trans[OF le], of "seek_hit D M target b root"] by (auto simp: K_def)
    qed
    show ?thesis unfolding K
      using g' False seek_loop_ascending[OF wf mono e(1) refl le(1)] unfolding K_def by auto
  qed
qed

lemma seek_internal_from:
  fixes target b root
  defines "K \<equiv> first_from (seek_hit D M target b root) (length (to_list root))"
  assumes wf: "st_wf D V root" "node_height root < MAX_DEPTH"
    and mono: "seek_mono M (target_in target b) (dim_zero M) (map (item_summary D) (to_list root))"
    and c: "cursor_from D M root m c" and fwd: "target (item_pos D M root m) \<noteq> Less"
    and R: "R g []"
  obtains c' g' where
    "seek_internal M target b A c g = Some (c', g',
       target (item_pos D M root (if b = Left then min (Suc (K m)) (length (to_list root)) else K m)) = Equal)"
    "cursor_at D M root (K m) c'" "R g' (segment (to_list root) m (K m))"
proof -
  define st0 where "st0 = (if did_seek c then c_stack c
     else [\<lparr>se_tree = root, se_index = 0, se_position = dim_zero M\<rparr>])"
  have tree: "c_tree c = root" and pos: "c_position c = item_pos D M root m"
    using c by (auto simp: cursor_from_def cursor_at_def cursor_new_def lands_def)
  have st0: "(if did_seek c then Some (c_stack c) else stack_push (c_stack c)
       \<lparr>se_tree = c_tree c, se_index = 0, se_position = dim_zero M\<rparr>) = Some st0"
    using c by (auto simp: st0_def cursor_from_def cursor_at_def cursor_new_def stack_push_def MAX_DEPTH_def)
  have "\<exists>st' g'. seek_loop M target b A st0 (item_pos D M root m) g False =
             Some (st', item_pos D M root (K m), g') \<and>
           lands D M root (K m) st' (item_pos D M root (K m)) \<and> R g' (segment (to_list root) m (K m))"
  proof (cases "cursor_at D M root m c")
    case False
    then have "m = 0" "st0 = [\<lparr>se_tree = root, se_index = 0, se_position = dim_zero M\<rparr>]"
      using c by (auto simp: cursor_from_def st0_def cursor_new_def)
    moreover have "frames D M root (se_tree \<lparr>se_tree = root, se_index = 0, se_position = dim_zero M\<rparr>) 0 []"
      by (simp add: frames_here)
    moreover have "entry_ok D M root 0 \<lparr>se_tree = root, se_index = 0, se_position = dim_zero M\<rparr>"
      by (rule entry_ok_fresh) simp
    ultimately show ?thesis unfolding K_def
      using seek_loop_from[OF wf mono, of "\<lparr>se_tree = root, se_index = 0, se_position = dim_zero M\<rparr>" 0 "[]" 0 g] R
      by simp
  next
    case True
    then have l: "lands D M root m (c_stack c) (c_position c)" "st0 = c_stack c"
      by (auto simp: cursor_at_def st0_def)
    show ?thesis
    proof (cases "m < length (to_list root)")
      case True
      obtain off e st' s xs where e: "c_stack c = e # st'" "frames D M root (se_tree e) off st'"
        "se_tree e = Leaf s xs (map (item_summary D) xs)" "se_index e < length xs" "m = off + se_index e"
        using l(1) True wf(1) by (rule lands_item)
      have "entry_ok D M root off e" using e(3,4) by (simp add: entry_ok_def)
      from seek_loop_from[OF wf mono e(2) this _ R, of m] show ?thesis
        unfolding K_def using e l(2) by simp
    next
      case False
      then have "K m = m" "c_stack c = []" using l(1) by (auto simp: K_def lands_def)
      with l R show ?thesis by (subst seek_loop.simps) (auto simp: pos)
    qed
  qed
  then obtain st' g' where run: "seek_loop M target b A st0 (item_pos D M root m) g False =
             Some (st', item_pos D M root (K m), g')"
      and land: "lands D M root (K m) st' (item_pos D M root (K m))"
      and R': "R g' (segment (to_list root) m (K m))" by auto
  let ?c = "c\<lparr>did_seek := True, c_stack := st', c_position := item_pos D M root (K m), at_end := (st' = [])\<rparr>"
  have at: "cursor_at D M root (K m) ?c" using land tree by (simp add: cursor_at_def)
  have leaf: "(case st' of [] \<Rightarrow> Some () | e # _ \<Rightarrow> if is_leaf (se_tree e) then Some () else None) = Some ()"
    using land by (auto simp: lands_def split: list.splits if_splits)
  have K_le: "K m \<le> length (to_list root)" using land by (simp add: lands_def)
  have e: "(case if b = Left then map_option (item_summary D) (vec_get (to_list root) (K m)) else None of
       Some s \<Rightarrow> dim_add M (item_pos D M root (K m)) s | None \<Rightarrow> item_pos D M root (K m)) =
     item_pos D M root (if b = Left then min (Suc (K m)) (length (to_list root)) else K m)"
    using K_le by (cases "K m = length (to_list root)") (auto simp: vec_get_def item_pos_Suc min_def)
  have "(if b = Left then cursor_item_summary ?c else Some None) =
      Some (if b = Left then map_option (item_summary D) (vec_get (to_list root) (K m)) else None)"
    using cursor_at_reads(2)[OF at wf(1)] by simp
  then have "seek_internal M target b A c g = Some (?c, g',
       target (item_pos D M root (if b = Left then min (Suc (K m)) (length (to_list root)) else K m)) = Equal)"
    using run fwd st0 leaf e by (simp add: seek_internal_def pos Let_def)
  with at R' show thesis by (rule that[rotated 1])
qed

end

subsection \<open>The three aggregates keep the protocol\<close>

sublocale dim_laws \<subseteq> passing: seek_laws D V M unit_aggregate "\<lambda>_ _. True" "\<lambda>_ _ _. True"
  by unfold_locales (simp_all add: unit_aggregate_def)

definition slice_holds :: "('a, 's) item_ops \<Rightarrow> ('s \<Rightarrow> bool) \<Rightarrow> ('a, 's) slice_state \<Rightarrow> 'a list \<Rightarrow> 'a list \<Rightarrow> bool" where
  "slice_holds D V g xs ys \<longleftrightarrow>
     st_wf D V (slice_tree g) \<and> to_list (slice_tree g) = xs \<and> leaf_items g = ys \<and>
     leaf_item_summaries g = map (item_summary D) ys \<and> leaf_summary g = sum_summaries D (map (item_summary D) ys) \<and>
     length ys \<le> MAX_CHILDREN \<and> (\<forall>y\<in>set ys. V (item_summary D y))"

context sum_laws
begin

lemma slice_push_tree_holds:
  assumes "slice_holds D V g xs []" "st_good D V h t"
  shows "\<exists>g'. slice_push_tree D t s g = Some g' \<and> slice_holds D V g' (xs @ to_list t) []"
proof -
  have "st_wf D V (slice_tree g)" "st_wf D V t" using assms by (auto simp: slice_holds_def st_good_def)
  then obtain r where "st_append D (slice_tree g) t = Some r" "st_wf D V r"
      "to_list r = to_list (slice_tree g) @ to_list t"
    by (rule st_append_seq)
  then show ?thesis using assms(1) by (auto simp: slice_push_tree_def slice_holds_def)
qed

lemma slice_push_item_holds:
  assumes "slice_holds D V g xs ys" "length ys < MAX_CHILDREN" "V (item_summary D x)"
  shows "\<exists>g'. slice_push_item D x (item_summary D x) g = Some g' \<and> slice_holds D V g' xs (ys @ [x])"
  using assms by (auto simp: slice_push_item_def slice_holds_def sum_summaries_def)

lemma slice_end_leaf_holds:
  assumes "slice_holds D V g xs ys"
  shows "\<exists>g'. slice_end_leaf D g = Some g' \<and> slice_holds D V g' (xs @ ys) []"
proof -
  let ?leaf = "Leaf (leaf_summary g) (leaf_items g) (leaf_item_summaries g)"
  have "st_wf D V (slice_tree g)" "st_wf D V ?leaf" using assms by (auto simp: slice_holds_def)
  then obtain r where "st_append D (slice_tree g) ?leaf = Some r" "st_wf D V r"
      "to_list r = to_list (slice_tree g) @ to_list ?leaf"
    by (rule st_append_seq)
  then show ?thesis using assms by (auto simp: slice_end_leaf_def slice_holds_def sum_summaries_def)
qed

end

sublocale dim_laws \<subseteq> slicing: seek_laws D V M "slice_aggregate D"
    "\<lambda>g xs. slice_holds D V g xs []" "slice_holds D V"
  by unfold_locales
     (simp_all add: slice_aggregate_def slice_push_tree_holds slice_push_item_holds slice_end_leaf_holds)

subsection \<open>Seeking, slicing and taking the suffix\<close>

lemma seek_mono_End: "seek_mono M (target_in seek_End Right) d ss"
  by (simp add: seek_mono_def target_in_def seek_End_def sorted_wrt_iff_nth_less)

lemma seek_hit_End: "first_from (seek_hit D M seek_End Right root) (length (to_list root)) m = max m (length (to_list root))"
proof (cases "m \<le> length (to_list root)")
  case True
  then show ?thesis by (intro first_from_unique) (auto simp: seek_hit_def target_in_def seek_End_def)
qed (simp add: first_from.simps[of _ _ m])

lemma cursor_from_le: "cursor_from D M root m c \<Longrightarrow> m \<le> length (to_list root)"
  by (auto simp: cursor_from_def cursor_at_def lands_def)

lemma cursor_from_tree: "cursor_from D M root m c \<Longrightarrow> c_tree c = root"
  by (auto simp: cursor_from_def cursor_at_def cursor_new_def)

context dim_laws
begin

lemma cursor_seek_at:
  assumes "st_wf D V root" "node_height root < MAX_DEPTH"
    and "seek_mono M (target_in target b) (dim_zero M) (map (item_summary D) (to_list root))"
    and "c_tree c = root" "target (dim_zero M) \<noteq> Less"
  obtains c' r where "cursor_seek M target b c = Some (c', r)"
    "cursor_at D M root (first_from (seek_hit D M target b root) (length (to_list root)) 0) c'"
proof -
  have "target (item_pos D M root 0) \<noteq> Less" using assms(5) by simp
  then show thesis
    by (rule passing.seek_internal_from[OF assms(1-3) cursor_from_new _ TrueI], intro that)
       (auto simp: cursor_seek_def cursor_reset_new[OF assms(4)])
qed

lemma cursor_slice_at:
  assumes "st_wf D V root" "node_height root < MAX_DEPTH"
    and "seek_mono M (target_in target b) (dim_zero M) (map (item_summary D) (to_list root))"
    and "cursor_from D M root m c" "target (item_pos D M root m) \<noteq> Less"
  obtains c' t where "cursor_slice D M target b c = Some (c', t)" "st_wf D V t"
    "to_list t = segment (to_list root) m (first_from (seek_hit D M target b root) (length (to_list root)) m)"
    "cursor_at D M root (first_from (seek_hit D M target b root) (length (to_list root)) m) c'"
proof -
  let ?g = "\<lparr>slice_tree = st_new D, leaf_items = [], leaf_item_summaries = [], leaf_summary = summary_zero D\<rparr>"
  have R: "slice_holds D V ?g [] []" by (simp add: slice_holds_def sum_summaries_def)
  show thesis
    by (rule slicing.seek_internal_from[OF assms R], rule that) (auto simp: cursor_slice_def slice_holds_def)
qed

lemma cursor_suffix_at:
  assumes "st_wf D V root" "node_height root < MAX_DEPTH" "cursor_from D M root m c"
  obtains c' t where "cursor_suffix D M c = Some (c', t)" "st_wf D V t" "to_list t = drop m (to_list root)"
proof -
  have "seek_End (item_pos D M root m) \<noteq> Less" by (simp add: seek_End_def)
  from cursor_slice_at[OF assms(1,2) seek_mono_End assms(3) this] obtain c' t where
    "cursor_slice D M seek_End Right c = Some (c', t)" "st_wf D V t"
    "to_list t = segment (to_list root) m (max m (length (to_list root)))"
    unfolding seek_hit_End by metis
  with cursor_from_le[OF assms(3)] show thesis
    by (intro that) (auto simp: cursor_suffix_def segment_end max_absorb2)
qed

end

end
