(* ===== verification/Cursor_Step.thy ===== *)
theory Cursor_Step
  imports Cursor_Correct
begin

section \<open>Stepping a cursor\<close>

text \<open>
  \<open>search_forward\<close> moves to the next item whose summary passes a filter, skipping whole subtrees
  whose summary fails it; it finds every such item when the filter holds of a sum as soon as it
  holds of a part. \<open>next\<close> is the case of the filter that always holds.
\<close>

definition filter_sound :: "('a, 's) item_ops \<Rightarrow> ('s \<Rightarrow> bool) \<Rightarrow> ('s \<Rightarrow> bool) \<Rightarrow> bool" where
  "filter_sound D V f \<longleftrightarrow> (\<forall>a b. V a \<longrightarrow> V b \<longrightarrow> f a \<or> f b \<longrightarrow> f (add_summary D a b))"

definition item_hit :: "('a, 's) item_ops \<Rightarrow> ('s \<Rightarrow> bool) \<Rightarrow> ('a, 's) sum_tree \<Rightarrow> nat \<Rightarrow> bool" where
  "item_hit D f root i \<longleftrightarrow> f (item_summary D (to_list root ! i))"

lemma skip_forward_takeWhile:
  "skip_forward M f e pos ss =
     (let q = length (takeWhile (\<lambda>s. \<not> f s) ss)
      in (e\<lparr>se_index := se_index e + q, se_position := foldl (dim_add M) (se_position e) (take q ss)\<rparr>,
          foldl (dim_add M) pos (take q ss)))"
  by (induction M f e pos ss rule: skip_forward.induct) (auto simp: Let_def)

lemma forward_loop_Internal_step:
  "se_tree e = Internal h s ss ts \<Longrightarrow>
   forward_loop M f (e # st) pos False =
   forward_loop M f (e\<lparr>se_index := se_index e + 1, se_position := pos\<rparr> # st) pos True"
  by (subst (1 2) forward_loop.simps) simp

lemma forward_loop_Leaf_step:
  "se_tree e = Leaf s xs ss \<Longrightarrow> se_index e < length ss \<Longrightarrow>
   forward_loop M f (e # st) pos False =
   forward_loop M f (e\<lparr>se_index := se_index e + 1,
      se_position := dim_add M (se_position e) (ss ! se_index e)\<rparr> # st) (dim_add M pos (ss ! se_index e)) True"
  by (subst (1 2) forward_loop.simps) (simp add: vec_get_def)

text \<open>Where a scan from index \<open>j\<close> stops.\<close>

lemma takeWhile_index:
  fixes j :: nat
  assumes "j \<le> length xs" and q_def: "q = j + length (takeWhile (\<lambda>x. \<not> p x) (drop j xs))"
  shows "j \<le> q" "q \<le> length xs" "\<And>i. j \<le> i \<Longrightarrow> i < q \<Longrightarrow> \<not> p (xs ! i)" "q < length xs \<Longrightarrow> p (xs ! q)"
proof -
  show "j \<le> q" by (simp add: q_def)
  show "q \<le> length xs" using length_takeWhile_le[of "\<lambda>x. \<not> p x" "drop j xs"] assms(1) by (simp add: q_def)
  show "\<not> p (xs ! i)" if "j \<le> i" "i < q" for i
  proof -
    have i: "i - j < length (takeWhile (\<lambda>x. \<not> p x) (drop j xs))" using that by (simp add: q_def)
    then have "\<not> p (takeWhile (\<lambda>x. \<not> p x) (drop j xs) ! (i - j))" using nth_mem set_takeWhileD by metis
    then show ?thesis using i that(1) assms(1) by (simp add: takeWhile_nth)
  qed
  show "p (xs ! q)" if "q < length xs"
    using that nth_length_takeWhile[of "\<lambda>x. \<not> p x" "drop j xs"] assms(1) by (simp add: q_def)
qed

text \<open>
  What the forward loop does with the entry on top: stop at the first hit below it, or leave it.
\<close>

definition forward_result ::
  "('a, 's) item_ops \<Rightarrow> ('s, 'd) dim_ops \<Rightarrow> ('s \<Rightarrow> bool) \<Rightarrow> ('a, 's) sum_tree \<Rightarrow> ('a, 's, 'd) stack_entry list \<Rightarrow> ('a, 's, 'd) stack_entry list \<Rightarrow>
   nat \<Rightarrow> nat \<Rightarrow> bool"
where
  "forward_result D M f root st rest m stop \<longleftrightarrow>
     (let k = first_from (item_hit D f root) (length (to_list root)) m in
      if k < stop
      then \<exists>st'. forward_loop M f st (item_pos D M root m) True = Some (st', item_pos D M root k, True) \<and>
             lands D M root k st' (item_pos D M root k)
      else forward_loop M f st (item_pos D M root m) True =
             forward_loop M f rest (item_pos D M root stop) False)"

lemma segment_children:
  assumes "ws = us @ concat (map to_list ts) @ vs" "length us = off" "i \<le> q" "q \<le> length ts"
  shows "segment ws (off + children_before ts i) (off + children_before ts q) =
         concat (map to_list (take (q - i) (drop i ts)))"
proof -
  let ?B = "concat (map to_list (take (q - i) (drop i ts)))"
  have "take q ts = take i ts @ take (q - i) (drop i ts)" using take_add[of i "q - i" ts] assms(3) by simp
  then have q: "concat (map to_list (take q ts)) = concat (map to_list (take i ts)) @ ?B" by simp
  have "concat (map to_list ts) = concat (map to_list (take q ts)) @ concat (map to_list (drop q ts))"
    by (simp flip: concat_append map_append)
  then have ws: "ws = (us @ concat (map to_list (take i ts))) @ ?B @ (concat (map to_list (drop q ts)) @ vs)"
    using assms(1) q by simp
  have len: "length (us @ concat (map to_list (take i ts))) = off + children_before ts i"
    using assms(2) by (simp add: children_before_def)
  have "off + children_before ts q = off + children_before ts i + length ?B"
    using q by (simp add: children_before_def)
  then show ?thesis using segment_inner[OF ws len, of 0 "length ?B"] by (simp add: segment_all add.assoc)
qed

context dim_laws
begin

lemma filter_sound_sum:
  assumes f: "filter_sound D V f"
  shows "\<forall>s\<in>set ss. V s \<Longrightarrow> s \<in> set ss \<Longrightarrow> f s \<Longrightarrow> f (sum_summaries D ss)"
proof (induction ss rule: rev_induct)
  case (snoc t ss)
  show ?case
  proof (cases "ss = []")
    case True
    with snoc.prems show ?thesis by (simp add: sum_Cons)
  next
    case False
    have "sum_summaries D (ss @ [t]) = add_summary D (sum_summaries D ss) t"
      by (simp add: sum_summaries_def)
    moreover have "V (sum_summaries D ss)" "V t" using False snoc.prems by (auto intro: V_sum)
    ultimately show ?thesis using f snoc unfolding filter_sound_def by auto
  qed
qed simp

lemma filter_sound_good:
  assumes "filter_sound D V f" "st_good D V h t" "\<not> f (node_summary t)" "x \<in> set (to_list t)"
  shows "\<not> f (item_summary D x)"
  using good_summary[OF assms(2)] filter_sound_sum[OF assms(1), of "map (item_summary D) (to_list t)" "item_summary D x"]
    assms(3,4) by auto

lemma forward_leaf:
  fixes f root
  defines "K \<equiv> first_from (item_hit D f root) (length (to_list root))"
  assumes e: "frames D M root (se_tree e) off st" "se_tree e = Leaf s xs (map (item_summary D) xs)"
      "se_index e \<le> length xs" "m = off + se_index e"
    and wf: "st_wf D V root"
  shows "if K m < off + length xs
     then \<exists>st'. forward_loop M f (e # st) (item_pos D M root m) True = Some (st', item_pos D M root (K m), True) \<and>
            lands D M root (K m) st' (item_pos D M root (K m))
     else forward_loop M f (e # st) (item_pos D M root m) True =
            forward_loop M f st (item_pos D M root (off + length xs)) False"
proof -
  let ?ss = "map (item_summary D) xs"
  define q where "q = se_index e + length (takeWhile (\<lambda>s. \<not> f s) (drop (se_index e) ?ss))"
  have q: "se_index e \<le> q" "q \<le> length xs" "\<And>i. se_index e \<le> i \<Longrightarrow> i < q \<Longrightarrow> \<not> f (item_summary D (xs ! i))"
      "q < length xs \<Longrightarrow> f (item_summary D (xs ! q))"
    using takeWhile_index[of "se_index e" ?ss q f] e(3) q_def by auto
  obtain us vs where sp: "to_list root = us @ xs @ vs" "length us = off"
    using frames_wf[OF e(1) wf] e(2) by auto
  have nth: "to_list root ! (off + i) = xs ! i" if "i < length xs" for i
    using that sp by (simp add: nth_append)
  have hit: "item_hit D f root (off + i) \<longleftrightarrow> f (item_summary D (xs ! i))" if "i < length xs" for i
    using nth[OF that] by (simp add: item_hit_def)
  have no: "\<not> item_hit D f root j" if "m \<le> j" "j < off + q" for j
    using q(3)[of "j - off"] hit[of "j - off"] that e(4) q(2) by auto
  have n: "off + q \<le> length (to_list root)" using sp q(2) by simp
  have pos: "foldl (dim_add M) (item_pos D M root m) (take (q - se_index e) (drop (se_index e) ?ss)) =
      item_pos D M root (off + q)"
    using item_pos_segment[of m "off + q" root M D] segment_inner[OF sp q(1,2)] n q(1) e(4)
    by (simp add: segment_def drop_map take_map)
  let ?e = "e\<lparr>se_index := q, se_position :=
      foldl (dim_add M) (se_position e) (take (q - se_index e) (drop (se_index e) ?ss))\<rparr>"
  have skip: "skip_forward M f e (item_pos D M root m) (drop (se_index e) ?ss) = (?e, item_pos D M root (off + q))"
    using pos q(1) by (simp add: skip_forward_takeWhile Let_def q_def)
  have Km: "K m = K (off + q)" unfolding K_def using n no e(4) q(1) by (intro first_from_skip) auto
  show ?thesis
  proof (cases "q < length xs")
    case True
    then have "item_hit D f root (off + q)" using hit q(4) by simp
    then have K: "K m = off + q" unfolding Km unfolding K_def by (simp add: first_from.simps[of _ _ "off + q"])
    have "lands D M root (off + q) (?e # st) (item_pos D M root (off + q))"
      using True e(1,2) sp by (auto simp: lands_def intro!: exI[of _ off])
    with True K skip show ?thesis
      by (subst forward_loop.simps) (simp add: e(2))
  next
    case False
    then have "q = length xs" using q(2) by simp
    moreover have "off + q \<le> K m" unfolding Km unfolding K_def using n by (rule first_from_ge)
    ultimately show ?thesis using skip by (subst forward_loop.simps) (simp add: e(2))
  qed
qed

lemma forward_internal:
  fixes f root
  assumes wf: "st_wf D V root" "node_height root < MAX_DEPTH" and f: "filter_sound D V f"
    and child: "\<And>e' off' st'. node_height (se_tree e') < h \<Longrightarrow> frames D M root (se_tree e') off' st' \<Longrightarrow>
      entry_ok D M root off' e' \<Longrightarrow>
      forward_result D M f root (e' # st') st' (off' + items_before (se_tree e') (se_index e'))
        (off' + length (to_list (se_tree e')))"
    and fr: "frames D M root (Internal h s ss ts) off st"
  shows "se_tree e = Internal h s ss ts \<Longrightarrow> entry_ok D M root off e \<Longrightarrow>
    forward_result D M f root (e # st) st (off + children_before ts (se_index e)) (off + length (concat (map to_list ts)))"
proof (induction "length ts - se_index e" arbitrary: e rule: less_induct)
  case less
  let ?n = "length (to_list root)" and ?i = "se_index e"
  let ?m = "off + children_before ts ?i" and ?stop = "off + length (concat (map to_list ts))"
  let ?K = "first_from (item_hit D f root) ?n"
  obtain us vs where u: "st_wf D V (Internal h s ss ts)" "length st + h = node_height root"
      "to_list root = us @ concat (map to_list ts) @ vs" "length us = off"
    using frames_wf[OF fr wf(1)] by auto
  have node: "ss = map node_summary ts" "\<forall>t\<in>set ts. st_good D V (h - 1) t" "h > 0"
    using u(1) by (auto simp: st_good_def)
  have i: "?i \<le> length ts" and epos: "se_position e = item_pos D M root ?m"
    using less.prems by (auto simp: entry_ok_def)
  define q where "q = ?i + length (takeWhile (\<lambda>s. \<not> f s) (drop ?i ss))"
  have q: "?i \<le> q" "q \<le> length ts" "\<And>j. ?i \<le> j \<Longrightarrow> j < q \<Longrightarrow> \<not> f (node_summary (ts ! j))"
    using takeWhile_index[of ?i ss q f] i node(1) by (auto simp: q_def)
  let ?m' = "off + children_before ts q"
  have le: "?m \<le> ?m'" "?m' \<le> ?stop" "?stop \<le> ?n"
    using q(1,2) children_before_mono children_before_le u(3,4) by auto
  have seg: "segment (to_list root) ?m ?m' = concat (map to_list (take (q - ?i) (drop ?i ts)))"
    using u(3,4) q(1,2) by (rule segment_children)
  have no: "\<not> item_hit D f root j" if j: "?m \<le> j" "j < ?m'" for j
  proof -
    have "to_list root ! j = segment (to_list root) ?m ?m' ! (j - ?m)"
      using j le by (simp add: segment_def)
    moreover have "j - ?m < length (segment (to_list root) ?m ?m')" using j le by (simp add: segment_def)
    ultimately have "to_list root ! j \<in> set (concat (map to_list (take (q - ?i) (drop ?i ts))))"
      unfolding seg by (metis nth_mem)
    then obtain t where t: "t \<in> set (take (q - ?i) (drop ?i ts))" "to_list root ! j \<in> set (to_list t)" by auto
    then obtain l where l: "l < q - ?i" "t = ts ! (?i + l)" "?i + l < length ts"
      using q(2) by (auto simp: in_set_conv_nth)
    then have "\<not> f (node_summary t)" "st_good D V (h - 1) t" using q(3)[of "?i + l"] node(2) by auto
    then show ?thesis using filter_sound_good[OF f _ _ t(2)] by (simp add: item_hit_def)
  qed
  have Km: "?K ?m = ?K ?m'" using le no by (intro first_from_skip) auto
  let ?e = "e\<lparr>se_index := q, se_position := item_pos D M root ?m'\<rparr>"
  have "foldl (dim_add M) (item_pos D M root ?m) (take (q - ?i) (drop ?i ss)) = item_pos D M root ?m'"
  proof -
    have "foldl (dim_add M) (item_pos D M root ?m) (map node_summary (take (q - ?i) (drop ?i ts))) =
        foldl (dim_add M) (item_pos D M root ?m) (map (item_summary D) (segment (to_list root) ?m ?m'))"
      unfolding seg using node(2) by (intro dim_children[of _ "h - 1"]) (auto dest: in_set_takeD in_set_dropD)
    also have "\<dots> = item_pos D M root ?m'" using le by (intro item_pos_segment) auto
    finally show ?thesis by (simp add: node(1) take_map drop_map)
  qed
  then have skip: "skip_forward M f e (item_pos D M root ?m) (drop ?i ss) = (?e, item_pos D M root ?m')"
    using q(1) by (simp add: skip_forward_takeWhile Let_def q_def epos)
  show ?case
  proof (cases "q < length ts")
    case False
    then have ql: "q = length ts" using q(2) by simp
    have "?stop \<le> ?K ?m" unfolding Km using first_from_ge[of ?m' ?n] le by (simp add: ql)
    then show ?thesis using skip ql
      by (simp add: forward_result_def Let_def) (subst forward_loop.simps, simp add: less.prems(1) vec_get_def Let_def)
  next
    case True
    let ?c = "\<lparr>se_tree = ts ! q, se_index = 0, se_position = item_pos D M root ?m'\<rparr>"
    have push: "stack_push (?e # st) ?c = Some (?c # ?e # st)"
      using u(2) wf(2) node(3) by (simp add: stack_push_def)
    have down: "forward_loop M f (e # st) (item_pos D M root ?m) True =
        forward_loop M f (?c # ?e # st) (item_pos D M root ?m') True"
      using skip True push by (subst forward_loop.simps) (simp add: less.prems(1) vec_get_def)
    have fr': "frames D M root (se_tree ?c) ?m' (?e # st)"
      using frames_down[of D M root h s ss ts off st q ?e] fr True less.prems(1) by simp
    have low: "node_height (se_tree ?c) < h" using node(2,3) True by (auto simp: st_good_def)
    have c: "forward_result D M f root (?c # ?e # st) (?e # st) ?m' (?m' + length (to_list (ts ! q)))"
      using child[OF low fr' entry_ok_fresh[OF refl]] by simp
    have nxt: "?m' + length (to_list (ts ! q)) = off + children_before ts (Suc q)"
      using children_before_Suc[OF True] by simp
    have nle: "?m' + length (to_list (ts ! q)) \<le> ?stop"
      using nxt children_before_le[of "Suc q" ts] True by simp
    show ?thesis
    proof (cases "?K ?m' < ?m' + length (to_list (ts ! q))")
      case inside: True
      with c nle down show ?thesis by (auto simp: forward_result_def Let_def Km)
    next
      case outside: False
      let ?e2 = "?e\<lparr>se_index := Suc q, se_position := item_pos D M root (off + children_before ts (Suc q))\<rparr>"
      let ?m2 = "off + children_before ts (Suc q)"
      have "length ts - se_index ?e2 < length ts - ?i" "se_tree ?e2 = Internal h s ss ts" "entry_ok D M root off ?e2"
        using True q(1) less.prems(1) by (auto simp: entry_ok_def)
      from less.hyps[OF this] have rest: "forward_result D M f root (?e2 # st) st ?m2 ?stop" by simp
      have K2: "?K ?m = ?K ?m2"
        unfolding Km
      proof (rule first_from_skip)
        fix j assume "?m' \<le> j" "j < ?m2"
        then show "\<not> item_hit D f root j"
          using outside nxt first_from_spec[of ?m' ?n "item_hit D f root"] le by auto
      qed (use nxt nle le in auto)
      have "forward_loop M f (?c # ?e # st) (item_pos D M root ?m') True =
          forward_loop M f (?e # st) (item_pos D M root ?m2) False"
        using c outside nxt by (simp add: forward_result_def Let_def)
      also have "\<dots> = forward_loop M f (?e2 # st) (item_pos D M root ?m2) True"
        using forward_loop_Internal_step[of ?e h s ss ts] less.prems(1) by simp
      finally show ?thesis using rest by (simp add: forward_result_def Let_def K2 down)
    qed
  qed
qed

lemma forward_entry:
  assumes wf: "st_wf D V root" "node_height root < MAX_DEPTH" and f: "filter_sound D V f"
  shows "frames D M root (se_tree e) off st \<Longrightarrow> entry_ok D M root off e \<Longrightarrow>
    forward_result D M f root (e # st) st (off + items_before (se_tree e) (se_index e))
      (off + length (to_list (se_tree e)))"
proof (induction "node_height (se_tree e)" arbitrary: e off st rule: less_induct)
  case less
  show ?case
  proof (cases "se_tree e")
    case (Leaf s xs ss)
    then have "ss = map (item_summary D) xs" using frames_wf[OF less.prems(1) wf(1)] by simp
    with Leaf forward_leaf[OF less.prems(1) _ _ refl wf(1), of s xs f] less.prems(2) show ?thesis
      by (simp add: forward_result_def Let_def entry_ok_def)
  next
    case (Internal h s ss ts)
    then show ?thesis
      using forward_internal[OF wf f, of h s ss ts off st e] less.hyps less.prems by simp
  qed
qed

text \<open>Leaving a subtree behind: on to the first hit after it.\<close>

lemma forward_ascending:
  fixes f root
  defines "K \<equiv> first_from (item_hit D f root) (length (to_list root))"
  assumes wf: "st_wf D V root" "node_height root < MAX_DEPTH" and f: "filter_sound D V f"
  shows "frames D M root u off st \<Longrightarrow> m = off + length (to_list u) \<Longrightarrow>
    \<exists>st' r. forward_loop M f st (item_pos D M root m) False = Some (st', item_pos D M root (K m), r) \<and>
       lands D M root (K m) st' (item_pos D M root (K m)) \<and> r = (st' \<noteq> [])"
proof (induction arbitrary: m rule: frames.induct)
  case frames_here
  then show ?case by (subst forward_loop.simps) (simp add: K_def lands_def)
next
  case (frames_down h s ss ts off st i e)
  let ?e = "e\<lparr>se_index := Suc i, se_position := item_pos D M root m\<rparr>"
  let ?u = "Internal h s ss ts"
  have m: "m = off + children_before ts (Suc i)"
    using frames_down.prems(1) frames_down.hyps(2) by (simp add: children_before_Suc)
  have fr: "frames D M root (se_tree ?e) off st" and ok: "entry_ok D M root off ?e"
    using frames_down.hyps m by (auto simp: entry_ok_def)
  have up: "forward_loop M f (e # st) (item_pos D M root m) False =
      forward_loop M f (?e # st) (item_pos D M root m) True"
    using forward_loop_Internal_step[OF frames_down.hyps(3)] frames_down.hyps(4) by simp
  have res: "forward_result D M f root (?e # st) st m (off + length (to_list ?u))"
    using forward_entry[OF wf f fr ok] frames_down.hyps(3) m by simp
  obtain us vs where sp: "to_list root = us @ to_list ?u @ vs" "length us = off"
    using frames_wf[OF frames_down.hyps(1) wf(1)] by auto
  have le: "m \<le> off + length (to_list ?u)" "off + length (to_list ?u) \<le> length (to_list root)"
    using m children_before_le[of "Suc i" ts] frames_down.hyps(2) sp by auto
  show ?case
  proof (cases "K m < off + length (to_list ?u)")
    case True
    with res up sp show ?thesis by (fastforce simp: forward_result_def Let_def K_def lands_def)
  next
    case False
    have "K m = K (off + length (to_list ?u))" unfolding K_def
    proof (rule first_from_skip[OF le])
      fix j assume "m \<le> j" "j < off + length (to_list ?u)"
      then show "\<not> item_hit D f root j"
        using False first_from_spec[OF order_trans[OF le], of "item_hit D f root"] by (auto simp: K_def)
    qed
    then show ?thesis using frames_down.IH[OF refl] False res up
      by (simp add: forward_result_def Let_def K_def)
  qed
qed

lemma forward_from:
  fixes f root
  defines "K \<equiv> first_from (item_hit D f root) (length (to_list root))"
  assumes wf: "st_wf D V root" "node_height root < MAX_DEPTH" and f: "filter_sound D V f"
    and e: "frames D M root (se_tree e) off st" "entry_ok D M root off e"
      "m = off + items_before (se_tree e) (se_index e)"
  shows "\<exists>st' r. forward_loop M f (e # st) (item_pos D M root m) True = Some (st', item_pos D M root (K m), r) \<and>
       lands D M root (K m) st' (item_pos D M root (K m)) \<and> r = (st' \<noteq> [])"
proof -
  let ?stop = "off + length (to_list (se_tree e))"
  have res: "forward_result D M f root (e # st) st m ?stop"
    using forward_entry[OF wf f e(1,2)] e(3) by simp
  obtain us vs where sp: "to_list root = us @ to_list (se_tree e) @ vs" "length us = off"
    using frames_wf[OF e(1) wf(1)] by auto
  have le: "m \<le> ?stop" "?stop \<le> length (to_list root)"
    using entry_ok_before[OF e(2)] e(3) sp by auto
  show ?thesis
  proof (cases "K m < ?stop")
    case True
    with res le(2) show ?thesis by (fastforce simp: forward_result_def Let_def K_def lands_def)
  next
    case False
    have "K m = K ?stop" unfolding K_def
    proof (rule first_from_skip[OF le])
      fix j assume "m \<le> j" "j < ?stop"
      then show "\<not> item_hit D f root j"
        using False first_from_spec[OF order_trans[OF le], of "item_hit D f root"] by (auto simp: K_def)
    qed
    then show ?thesis using forward_ascending[OF wf f e(1) refl] False res
      by (simp add: forward_result_def Let_def K_def)
  qed
qed

text \<open>
  From a cursor at an index the search starts after it; from a fresh cursor, or one that a backward
  step moved before the first item, it starts at the first item.
\<close>

lemma search_forward_at:
  assumes wf: "st_wf D V root" "node_height root < MAX_DEPTH" and f: "filter_sound D V f"
    and c: "cursor_at D M root m c"
  obtains c' where "search_forward M f c = Some c'"
    "cursor_at D M root (first_from (item_hit D f root) (length (to_list root)) (min (Suc m) (length (to_list root)))) c'"
proof (cases "m < length (to_list root)")
  case True
  have l: "lands D M root m (c_stack c) (c_position c)" "c_tree c = root" "did_seek c" "at_end c = (c_stack c = [])"
    using c by (auto simp: cursor_at_def)
  obtain off e st s xs where e: "c_stack c = e # st" "frames D M root (se_tree e) off st"
      "se_tree e = Leaf s xs (map (item_summary D) xs)" "se_index e < length xs" "m = off + se_index e"
      "xs ! se_index e = to_list root ! m"
    using l(1) True wf(1) by (rule lands_item)
  let ?e = "e\<lparr>se_index := se_index e + 1, se_position := dim_add M (se_position e) (item_summary D (xs ! se_index e))\<rparr>"
  have pos: "dim_add M (c_position c) (item_summary D (xs ! se_index e)) = item_pos D M root (Suc m)"
    using l(1) e(6) item_pos_Suc[OF True, of D M] by (simp add: lands_def)
  have step: "forward_loop M f (c_stack c) (c_position c) False = forward_loop M f (?e # st) (item_pos D M root (Suc m)) True"
    using forward_loop_Leaf_step[OF e(3)] e(1,4) pos by simp
  have "frames D M root (se_tree ?e) off st" "entry_ok D M root off ?e"
      "Suc m = off + items_before (se_tree ?e) (se_index ?e)"
    using e by (auto simp: entry_ok_def)
  from forward_from[OF wf f this] obtain st' where
    "forward_loop M f (?e # st) (item_pos D M root (Suc m)) True =
       Some (st', item_pos D M root (first_from (item_hit D f root) (length (to_list root)) (Suc m)), st' \<noteq> [])"
    "lands D M root (first_from (item_hit D f root) (length (to_list root)) (Suc m)) st'
       (item_pos D M root (first_from (item_hit D f root) (length (to_list root)) (Suc m)))"
    by auto
  then show thesis using l e(1) step True
    by (intro that) (auto simp: search_forward_def cursor_at_def Let_def min_absorb1 split: if_splits)
next
  case False
  then have m: "m = length (to_list root)" and l: "c_stack c = []" "at_end c" "did_seek c"
    using c by (auto simp: cursor_at_def lands_def split: if_splits)
  then have "search_forward M f c = Some c"
    by (simp add: search_forward_def forward_loop.simps Let_def)
  then show thesis using c m by (intro that[of c]) auto
qed

lemma search_forward_start:
  assumes wf: "st_wf D V root" "node_height root < MAX_DEPTH" and f: "filter_sound D V f"
    and c: "c_tree c = root" "c_stack c = []" "c_position c = dim_zero M" "at_end c = (to_list root = [])"
  obtains c' where "search_forward M f c = Some c'"
    "cursor_at D M root (first_from (item_hit D f root) (length (to_list root)) 0) c'"
proof (cases "to_list root = []")
  case True
  then have "search_forward M f c = Some (c\<lparr>did_seek := True\<rparr>)"
    using c by (simp add: search_forward_def forward_loop.simps Let_def)
  moreover have "lands D M root 0 [] (dim_zero M)" using True by (simp add: lands_def)
  ultimately show thesis using c True by (intro that) (auto simp: cursor_at_def first_from.simps[of _ 0 0])
next
  case False
  let ?e = "\<lparr>se_tree = root, se_index = 0, se_position = dim_zero M\<rparr>"
  have "frames D M root (se_tree ?e) 0 []" "entry_ok D M root 0 ?e" "0 = 0 + items_before (se_tree ?e) (se_index ?e)"
    by (auto simp: frames_here intro: entry_ok_fresh)
  from forward_from[OF wf f this] obtain st' where
    "forward_loop M f [?e] (dim_zero M) True =
       Some (st', item_pos D M root (first_from (item_hit D f root) (length (to_list root)) 0), st' \<noteq> [])"
    "lands D M root (first_from (item_hit D f root) (length (to_list root)) 0) st'
       (item_pos D M root (first_from (item_hit D f root) (length (to_list root)) 0))"
    by auto
  then show thesis using c False
    by (intro that) (auto simp: search_forward_def cursor_at_def Let_def stack_push_def MAX_DEPTH_def split: if_splits)
qed

lemma cursor_next_at:
  assumes "st_wf D V root" "node_height root < MAX_DEPTH" "cursor_at D M root m c"
  obtains c' where "cursor_next M c = Some c'" "cursor_at D M root (min (Suc m) (length (to_list root))) c'"
proof -
  have "first_from (item_hit D (\<lambda>_. True) root) n k = k" for n k
    by (simp add: first_from.simps[of _ n k] item_hit_def)
  then show thesis
    using search_forward_at[OF assms(1,2) _ assms(3), of "\<lambda>_. True"] that
    by (auto simp: filter_sound_def cursor_next_def)
qed

end

end
