(* ===== verification/Cursor_Back.thy ===== *)
theory Cursor_Back
  imports Cursor_Step
begin

section \<open>Stepping a cursor backward\<close>

text \<open>
  \<open>search_backward\<close> moves to the last item before the cursor whose summary passes a filter; \<open>prev\<close>
  is the case of the filter that always holds. Before the first item the stack is empty and the
  cursor is not at the end.
\<close>

fun last_below :: "(nat \<Rightarrow> bool) \<Rightarrow> nat \<Rightarrow> nat option" where
  "last_below P 0 = None"
| "last_below P (Suc m) = (if P m then Some m else last_below P m)"

lemma last_below_Some: "last_below P m = Some k \<Longrightarrow> k < m \<and> P k \<and> (\<forall>j. k < j \<and> j < m \<longrightarrow> \<not> P j)"
  by (induction m) (auto split: if_splits simp: less_Suc_eq)

lemma last_below_None: "last_below P m = None \<longleftrightarrow> (\<forall>j<m. \<not> P j)"
  by (induction m) (auto simp: less_Suc_eq)

lemma last_below_region:
  assumes "\<nexists>k. last_below P m = Some k \<and> a \<le> k" "a \<le> i" "i < m"
  shows "\<not> P i"
proof (cases "last_below P m")
  case (Some k)
  with assms(1,2) have "k < i" by (metis leI le_less_trans linorder_not_le)
  with last_below_Some[OF Some] assms(3) show ?thesis by blast
qed (use assms(3) last_below_None in blast)

lemma last_below_skip: "k \<le> m \<Longrightarrow> (\<And>j. k \<le> j \<Longrightarrow> j < m \<Longrightarrow> \<not> P j) \<Longrightarrow> last_below P m = last_below P k"
  by (induction m) (auto simp: le_Suc_eq)

definition top_position :: "('s, 'd) dim_ops \<Rightarrow> ('a, 's, 'd) stack_entry list \<Rightarrow> 'd" where
  "top_position M st = (case st of [] \<Rightarrow> dim_zero M | e # _ \<Rightarrow> se_position e)"

lemma frames_top_position: "frames D M root u off st \<Longrightarrow> top_position M st = item_pos D M root off"
  by (cases rule: frames.cases) (auto simp: top_position_def)

text \<open>The loop forgets the position it is given, and a step back re-enters the entry.\<close>

lemma backward_loop_start:
  "backward_loop M f (e # st) pos False =
     (if se_index e = 0 then backward_loop M f st (top_position M st) False
      else backward_loop M f (e\<lparr>se_index := se_index e - 1\<rparr> # st) pos' True)"
  by (subst (1 3) backward_loop.simps) (auto simp: top_position_def Let_def split: node.splits)

lemma backward_loop_Nil: "backward_loop M f [] pos d = Some ([], pos)"
  by (simp add: backward_loop.simps)

lemma backward_loop_Leaf:
  assumes "se_tree e = Leaf s xs ss" "se_index e < length ss"
  shows "backward_loop M f (e # st) pos True =
    (let pos1 = foldl (dim_add M) (top_position M st) (take (se_index e) ss);
         e1 = e\<lparr>se_position := pos1\<rparr>
     in if f (ss ! se_index e) then Some (e1 # st, pos1) else backward_loop M f (e1 # st) pos1 False)"
  using assms by (subst backward_loop.simps) (auto simp: top_position_def Let_def)

lemma backward_loop_Internal:
  assumes "se_tree e = Internal h s ss ts" "se_index e < length ss" "length ss = length ts"
    and "length st + 1 < MAX_DEPTH" "node_child_summaries (ts ! se_index e) \<noteq> []"
  shows "backward_loop M f (e # st) pos True =
    (let pos1 = foldl (dim_add M) (top_position M st) (take (se_index e) ss);
         e1 = e\<lparr>se_position := pos1\<rparr>;
         c = ts ! se_index e
     in if f (ss ! se_index e)
        then backward_loop M f (\<lparr>se_tree = c, se_index = length (node_child_summaries c),
               se_position = dim_zero M\<rparr> # e1 # st) pos1 False
        else backward_loop M f (e1 # st) pos1 False)"
proof -
  let ?c = "ts ! se_index e" and ?p = "foldl (dim_add M) (top_position M st) (take (se_index e) ss)"
  let ?l = "length (node_child_summaries ?c)"
  have l: "checked_sub ?l (Suc 0) = Some (?l - 1)" "?l \<noteq> 0" using assms(5) by (auto simp: Suc_le_eq)
  have "backward_loop M f (\<lparr>se_tree = ?c, se_index = ?l, se_position = dim_zero M\<rparr> # e\<lparr>se_position := ?p\<rparr> # st) ?p False =
      backward_loop M f (\<lparr>se_tree = ?c, se_index = ?l - 1, se_position = dim_zero M\<rparr> # e\<lparr>se_position := ?p\<rparr> # st) ?p True"
    using l(2) backward_loop_start[of M f "\<lparr>se_tree = ?c, se_index = ?l, se_position = dim_zero M\<rparr>" _ ?p ?p] by simp
  then show ?thesis
    using assms(1-4) l(1) unfolding top_position_def[symmetric]
    by (subst backward_loop.simps) (simp add: Let_def vec_get_def stack_push_def top_position_def)
qed

text \<open>Items at which the backward search stops below an entry, and what happens otherwise.\<close>

definition backward_result ::
  "('a, 's) item_ops \<Rightarrow> ('s, 'd) dim_ops \<Rightarrow> ('s \<Rightarrow> bool) \<Rightarrow> ('a, 's) sum_tree \<Rightarrow>
   (('a, 's, 'd) stack_entry list \<times> 'd) option \<Rightarrow> ('a, 's, 'd) stack_entry list \<Rightarrow> nat \<Rightarrow> nat \<Rightarrow> bool"
where
  "backward_result D M f root r rest off m \<longleftrightarrow>
     (case last_below (item_hit D f root) m of
        Some k \<Rightarrow>
          (if off \<le> k then \<exists>st'. r = Some (st', item_pos D M root k) \<and>
               k < length (to_list root) \<and> lands D M root k st' (item_pos D M root k)
           else r = backward_loop M f rest (item_pos D M root off) False)
      | None \<Rightarrow> r = backward_loop M f rest (item_pos D M root off) False)"

lemma backward_result_none:
  assumes "\<And>j. off \<le> j \<Longrightarrow> j < m \<Longrightarrow> \<not> item_hit D f root j"
    and "r = backward_loop M f rest (item_pos D M root off) False"
  shows "backward_result D M f root r rest off m"
  using assms last_below_Some[of "item_hit D f root" m]
  by (auto simp: backward_result_def split: option.splits)

lemma backward_result_skip:
  assumes "k \<le> m" "\<And>j. k \<le> j \<Longrightarrow> j < m \<Longrightarrow> \<not> item_hit D f root j"
  shows "backward_result D M f root r rest off m = backward_result D M f root r rest off k"
  using last_below_skip[OF assms] by (simp add: backward_result_def)

text \<open>The whole backward search from a region that ends at index \<open>m\<close>.\<close>

definition backward_lands ::
  "('a, 's) item_ops \<Rightarrow> ('s, 'd) dim_ops \<Rightarrow> ('s \<Rightarrow> bool) \<Rightarrow> ('a, 's) sum_tree \<Rightarrow> nat \<Rightarrow>
   (('a, 's, 'd) stack_entry list \<times> 'd) option \<Rightarrow> bool"
where
  "backward_lands D M f root m r \<longleftrightarrow>
     (case last_below (item_hit D f root) m of
        Some k \<Rightarrow> (\<exists>st'. r = Some (st', item_pos D M root k) \<and> lands D M root k st' (item_pos D M root k) \<and>
                     k < length (to_list root))
      | None \<Rightarrow> r = Some ([], dim_zero M))"

lemma backward_combine:
  assumes "backward_result D M f root r rest off m" "off \<le> m"
    and "backward_lands D M f root off (backward_loop M f rest (item_pos D M root off) False)"
  shows "backward_lands D M f root m r"
proof (cases "\<exists>k. last_below (item_hit D f root) m = Some k \<and> off \<le> k")
  case True
  with assms(1) show ?thesis by (auto simp: backward_result_def backward_lands_def)
next
  case False
  have "last_below (item_hit D f root) m = last_below (item_hit D f root) off"
    using last_below_region[OF False] by (intro last_below_skip assms(2))
  moreover have "r = backward_loop M f rest (item_pos D M root off) False"
    using assms(1) False by (auto simp: backward_result_def split: option.splits)
  ultimately show ?thesis using assms(3) by (simp add: backward_lands_def)
qed

context dim_laws
begin

lemma backward_leaf:
  assumes fr: "frames D M root (Leaf s xs ss) off st" and wf: "st_wf D V root"
  shows "se_tree e = Leaf s xs ss \<Longrightarrow> se_index e \<le> length xs \<Longrightarrow>
    backward_result D M f root (backward_loop M f (e # st) pos False) st off (off + se_index e)"
proof (induction "se_index e" arbitrary: e pos)
  case 0
  then show ?case
    using backward_loop_start[of M f e st pos pos] frames_top_position[OF fr] by (intro backward_result_none) auto
next
  case (Suc j)
  obtain us vs where w: "st_wf D V (Leaf s xs ss)" "to_list root = us @ xs @ vs" "length us = off"
    using frames_wf[OF fr wf] by auto
  then have ss: "ss = map (item_summary D) xs" by simp
  have j: "j < length xs" using Suc by simp
  let ?e = "e\<lparr>se_index := j\<rparr>"
  have nth: "to_list root ! (off + j) = xs ! j" using w j by (simp add: nth_append)
  have p: "foldl (dim_add M) (top_position M st) (take j ss) = item_pos D M root (off + j)"
    using frames_top_position[OF fr] item_pos_segment[of off "off + j" root M D] segment_inner[OF w(2,3), of 0 j] j w(2,3)
    by (simp add: ss segment_0 take_map)
  let ?e1 = "e\<lparr>se_index := j, se_position := item_pos D M root (off + j)\<rparr>"
  have run: "backward_loop M f (e # st) pos False =
      (if f (ss ! j) then Some (?e1 # st, item_pos D M root (off + j))
       else backward_loop M f (?e1 # st) (item_pos D M root (off + j)) False)"
    using backward_loop_start[of M f e st pos pos] backward_loop_Leaf[of ?e s xs ss M f st pos] Suc.prems(1) j ss p
    by (simp add: Let_def flip: Suc(2))
  show ?case
  proof (cases "f (ss ! j)")
    case True
    then have "item_hit D f root (off + j)" using nth j by (simp add: item_hit_def ss)
    moreover have "lands D M root (off + j) (?e1 # st) (item_pos D M root (off + j))"
      using fr Suc j w by (auto simp: lands_def intro!: exI[of _ off])
    ultimately show ?thesis using run True Suc(2) j w(2,3) by (simp add: backward_result_def flip: Suc(2))
  next
    case False
    then have "\<not> item_hit D f root (off + j)" using nth j by (simp add: item_hit_def ss)
    then have "backward_result D M f root r st off (off + Suc j) = backward_result D M f root r st off (off + j)" for r
      by (intro backward_result_skip) (auto simp: less_Suc_eq)
    moreover have "backward_result D M f root (backward_loop M f (?e1 # st) (item_pos D M root (off + j)) False) st off (off + j)"
      using Suc(1)[of ?e1 "item_pos D M root (off + j)"] Suc j by simp
    ultimately show ?thesis using run False by (simp flip: Suc(2))
  qed
qed

lemma backward_internal:
  assumes wf: "st_wf D V root" "node_height root < MAX_DEPTH" and f: "filter_sound D V f"
    and child: "\<And>e' off' st' pos'. node_height (se_tree e') < h \<Longrightarrow> frames D M root (se_tree e') off' st' \<Longrightarrow>
      se_index e' \<le> length (node_child_summaries (se_tree e')) \<Longrightarrow>
      backward_result D M f root (backward_loop M f (e' # st') pos' False) st' off'
        (off' + items_before (se_tree e') (se_index e'))"
    and fr: "frames D M root (Internal h s ss ts) off st"
  shows "se_tree e = Internal h s ss ts \<Longrightarrow> se_index e \<le> length ts \<Longrightarrow>
    backward_result D M f root (backward_loop M f (e # st) pos False) st off
      (off + children_before ts (se_index e))"
proof (induction "se_index e" arbitrary: e pos)
  case 0
  then show ?case
    using backward_loop_start[of M f e st pos pos] frames_top_position[OF fr] by (intro backward_result_none) auto
next
  case (Suc j)
  obtain us vs where u: "st_wf D V (Internal h s ss ts)" "length st + h = node_height root"
      "to_list root = us @ concat (map to_list ts) @ vs" "length us = off"
    using frames_wf[OF fr wf(1)] by auto
  have node: "ss = map node_summary ts" "\<forall>t\<in>set ts. st_good D V (h - 1) t" "h > 0"
    using u(1) by (auto simp: st_good_def)
  have j: "j < length ts" using Suc by simp
  let ?c = "ts ! j" and ?m = "off + children_before ts j"
  have c: "st_good D V (h - 1) ?c" using node(2) j by simp
  then have cne: "node_child_summaries ?c \<noteq> []" by (cases ?c) (auto simp: st_good_def)
  have nxt: "off + children_before ts (Suc j) = ?m + length (to_list ?c)"
    using children_before_Suc[OF j] by simp
  have seg: "segment (to_list root) off ?m = concat (map to_list (take j ts))"
    using segment_children[OF u(3,4), of 0 j] j by simp
  have le: "?m + length (to_list ?c) \<le> length (to_list root)"
    using nxt children_before_le[of "Suc j" ts] j u(3,4) by simp
  have "foldl (dim_add M) (item_pos D M root off) (map node_summary (take j ts)) = item_pos D M root ?m"
    using dim_children[of "take j ts" "h - 1" "item_pos D M root off"] node(2)
      item_pos_segment[of off ?m root M D] seg le by (auto dest: in_set_takeD)
  then have p: "foldl (dim_add M) (top_position M st) (take j ss) = item_pos D M root ?m"
    using frames_top_position[OF fr] by (simp add: node(1) take_map)
  let ?e1 = "e\<lparr>se_index := j, se_position := item_pos D M root ?m\<rparr>"
  let ?centry = "\<lparr>se_tree = ?c, se_index = length (node_child_summaries ?c), se_position = dim_zero M\<rparr>"
  have run: "backward_loop M f (e # st) pos False =
      (if f (node_summary ?c) then backward_loop M f (?centry # ?e1 # st) (item_pos D M root ?m) False
       else backward_loop M f (?e1 # st) (item_pos D M root ?m) False)"
    using backward_loop_start[of M f e st pos pos]
      backward_loop_Internal[of "e\<lparr>se_index := j\<rparr>" h s ss ts st M f pos] Suc.prems(1) j node(1,3) p cne u(2) wf(2)
    by (simp add: Let_def flip: Suc(2))
  have IH: "backward_result D M f root (backward_loop M f (?e1 # st) q False) st off ?m" for q
    using Suc(1)[of ?e1 q] Suc.prems(1) j by simp
  show ?case
  proof (cases "f (node_summary ?c)")
    case True
    have fr': "frames D M root (se_tree ?centry) ?m (?e1 # st)"
      using frames_down[of D M root h s ss ts off st j ?e1] fr j Suc.prems(1) by simp
    have all: "items_before ?c (length (node_child_summaries ?c)) = length (to_list ?c)"
      using c by (cases ?c) (auto simp: st_good_def)
    have low: "node_height (se_tree ?centry) < h" using c node(3) by (simp add: st_good_def)
    have ch: "backward_result D M f root (backward_loop M f (e # st) pos False) (?e1 # st) ?m (?m + length (to_list ?c))"
      using child[OF low fr', of "item_pos D M root ?m"] all run True by simp
    show ?thesis
    proof (cases "\<exists>k. last_below (item_hit D f root) (?m + length (to_list ?c)) = Some k \<and> ?m \<le> k")
      case True
      with ch show ?thesis by (auto simp: backward_result_def nxt simp flip: Suc(2))
    next
      case False
      have no: "\<not> item_hit D f root i" if "?m \<le> i" "i < ?m + length (to_list ?c)" for i
        using False that by (rule last_below_region)
      have "backward_loop M f (e # st) pos False = backward_loop M f (?e1 # st) (item_pos D M root ?m) False"
        using ch False by (auto simp: backward_result_def split: option.splits)
      with IH have "backward_result D M f root (backward_loop M f (e # st) pos False) st off ?m" by simp
      moreover have "backward_result D M f root r st off (off + children_before ts (Suc j)) =
          backward_result D M f root r st off ?m" for r
        unfolding nxt using no by (intro backward_result_skip) auto
      ultimately show ?thesis by (simp flip: Suc(2))
    qed
  next
    case False
    have no: "\<not> item_hit D f root i" if i: "?m \<le> i" "i < ?m + length (to_list ?c)" for i
    proof -
      have "to_list root = (us @ concat (map to_list (take j ts))) @ to_list ?c @ concat (map to_list (drop (Suc j) ts)) @ vs"
        unfolding u(3) by (subst concat_split_nth[OF j]) simp
      moreover have "length (us @ concat (map to_list (take j ts))) = ?m" using u(4) by (simp add: children_before_def)
      ultimately have "to_list root ! i = to_list ?c ! (i - ?m)"
        using i by (simp only: nth_append) auto
      then have "to_list root ! i \<in> set (to_list ?c)" using i by simp
      then show ?thesis using filter_sound_good[OF f c False] by (simp add: item_hit_def)
    qed
    have "backward_result D M f root (backward_loop M f (e # st) pos False) st off ?m"
      using run False IH by simp
    moreover have "backward_result D M f root r st off (off + children_before ts (Suc j)) =
          backward_result D M f root r st off ?m" for r
        unfolding nxt using no by (intro backward_result_skip) auto
      ultimately show ?thesis by (simp flip: Suc(2))
  qed
qed

lemma backward_entry:
  assumes wf: "st_wf D V root" "node_height root < MAX_DEPTH" and f: "filter_sound D V f"
  shows "frames D M root (se_tree e) off st \<Longrightarrow> se_index e \<le> length (node_child_summaries (se_tree e)) \<Longrightarrow>
    backward_result D M f root (backward_loop M f (e # st) pos False) st off
      (off + items_before (se_tree e) (se_index e))"
proof (induction "node_height (se_tree e)" arbitrary: e off st pos rule: less_induct)
  case less
  show ?case
  proof (cases "se_tree e")
    case (Leaf s xs ss)
    moreover have "length ss = length xs" using Leaf frames_wf[OF less.prems(1) wf(1)] by simp
    ultimately show ?thesis using backward_leaf[of root s xs ss off st e] less.prems wf(1) by simp
  next
    case (Internal h s ss ts)
    moreover have "length ss = length ts" using Internal frames_wf[OF less.prems(1) wf(1)] by simp
    ultimately show ?thesis
      using backward_internal[OF wf f, of h s ss ts off st e pos] less.hyps less.prems by simp
  qed
qed

lemma backward_ascending:
  assumes wf: "st_wf D V root" "node_height root < MAX_DEPTH" and f: "filter_sound D V f"
  shows "frames D M root u off st \<Longrightarrow>
    backward_lands D M f root off (backward_loop M f st (item_pos D M root off) False)"
proof (induction rule: frames.induct)
  case frames_here
  then show ?case by (simp add: backward_lands_def backward_loop_Nil)
next
  case (frames_down h s ss ts off st i e)
  let ?m = "off + items_before (Internal h s ss ts) i"
  have "length ss = length ts" using frames_wf[OF frames_down.hyps(1) wf(1)] by simp
  then have "backward_result D M f root (backward_loop M f (e # st) (item_pos D M root ?m) False) st off ?m"
    using backward_entry[OF wf f, of e off st] frames_down.hyps by simp
  then show ?case using frames_down.IH by (rule backward_combine[OF _ le_add1])
qed

lemma backward_from:
  assumes wf: "st_wf D V root" "node_height root < MAX_DEPTH" and f: "filter_sound D V f"
    and e: "frames D M root (se_tree e) off st" "se_index e \<le> length (node_child_summaries (se_tree e))"
    and m: "m = off + items_before (se_tree e) (se_index e)"
  shows "backward_lands D M f root m (backward_loop M f (e # st) pos False)"
  unfolding m using backward_entry[OF wf f e, of pos] backward_ascending[OF wf f e(1)]
  by (rule backward_combine[OF _ le_add1])

lemma search_backward_at:
  assumes wf: "st_wf D V root" "node_height root < MAX_DEPTH" and f: "filter_sound D V f"
    and c: "cursor_at D M root m c"
  obtains c' where "search_backward M f c = Some c'"
    "case last_below (item_hit D f root) m of
       Some k \<Rightarrow> cursor_at D M root k c'
     | None \<Rightarrow> c_tree c' = root \<and> did_seek c' \<and> c_stack c' = [] \<and> c_position c' = dim_zero M \<and>
               at_end c' = (to_list root = [])"
proof -
  have l: "lands D M root m (c_stack c) (c_position c)" "c_tree c = root" "did_seek c" "at_end c = (c_stack c = [])"
    using c by (auto simp: cursor_at_def)
  define c2 where "c2 = (if m < length (to_list root) then c
     else c\<lparr>c_position := dim_zero M, at_end := (to_list root = []),
        c_stack := (if to_list root = [] then [] else [\<lparr>se_tree = root,
          se_index = length (node_child_summaries root), se_position = dim_add M (dim_zero M) (node_summary root)\<rparr>])\<rparr>)"
  have stack: "c_stack c \<noteq> [] \<longleftrightarrow> m < length (to_list root)" using l(1) by (auto simp: lands_def split: if_splits)
  have c2: "c_tree c2 = root" "did_seek c2" "at_end c2 = (to_list root = [])" using l stack by (auto simp: c2_def)
  have run: "search_backward M f c = do { (st, pos) \<leftarrow> backward_loop M f (c_stack c2) (c_position c2) False;
      Some (c2\<lparr>c_stack := st, c_position := pos\<rparr>) }"
    using l stack st_is_empty_iff[OF wf(1)]
    by (auto simp: search_backward_def c2_def stack_push_def MAX_DEPTH_def Let_def)
  have "backward_lands D M f root m (backward_loop M f (c_stack c2) (c_position c2) False)"
  proof (cases "m < length (to_list root)")
    case True
    obtain off e st s xs where e: "c_stack c = e # st" "frames D M root (se_tree e) off st"
        "se_tree e = Leaf s xs (map (item_summary D) xs)" "se_index e < length xs" "m = off + se_index e"
      using l(1) True wf(1) by (rule lands_item)
    then show ?thesis using backward_from[OF wf f, of e off st m] True by (simp add: c2_def)
  next
    case False
    then have m: "m = length (to_list root)" using l(1) by (simp add: lands_def)
    have "items_before root (length (node_child_summaries root)) = length (to_list root)"
      using wf(1) by (cases root) auto
    with m False show ?thesis
      using backward_from[OF wf f, of "\<lparr>se_tree = root, se_index = length (node_child_summaries root),
          se_position = dim_add M (dim_zero M) (node_summary root)\<rparr>" 0 "[]" m]
      by (cases "to_list root = []") (auto simp: c2_def frames_here backward_lands_def backward_loop_Nil)
  qed
  then show thesis
    using run c2 by (intro that[of "c2\<lparr>c_stack := fst (the (backward_loop M f (c_stack c2) (c_position c2) False)),
      c_position := snd (the (backward_loop M f (c_stack c2) (c_position c2) False))\<rparr>"])
      (auto simp: backward_lands_def cursor_at_def lands_def split: option.splits)
qed

lemma cursor_prev_at:
  assumes "st_wf D V root" "node_height root < MAX_DEPTH" "cursor_at D M root m c"
  obtains c' where "cursor_prev M c = Some c'"
    "if m = 0 then c_stack c' = [] \<and> did_seek c' \<and> cursor_item c' = Some None
     else cursor_at D M root (m - 1) c'"
proof -
  have last: "last_below (item_hit D (\<lambda>_. True) root) m = (if m = 0 then None else Some (m - 1))"
    by (cases m) (auto simp: item_hit_def)
  show thesis
    by (rule search_backward_at[OF assms(1,2) _ assms(3), of "\<lambda>_. True"])
       (auto simp: filter_sound_def last cursor_prev_def cursor_item_def intro!: that split: if_splits)
qed

end

end
