(* ===== verification/Keyed.thy ===== *)
theory Keyed
  imports Cursor_Back
begin

section \<open>Trees of keyed items\<close>

text \<open>
  \<open>insert_or_replace\<close>, \<open>remove\<close>, \<open>edit\<close> and \<open>get\<close> of a tree whose items are strictly sorted by key,
  against their specification on sorted lists.
\<close>

subsection \<open>The specification on sorted lists\<close>

definition keys_sorted :: "('a \<Rightarrow> 'k::linorder) \<Rightarrow> 'a list \<Rightarrow> bool" where
  "keys_sorted key xs \<longleftrightarrow> sorted_wrt (<) (map key xs)"

definition ks_insert :: "('a \<Rightarrow> 'k::linorder) \<Rightarrow> 'a \<Rightarrow> 'a list \<Rightarrow> 'a list" where
  "ks_insert key x xs =
     takeWhile (\<lambda>y. key y < key x) xs @ x # dropWhile (\<lambda>y. key y \<le> key x) xs"

definition ks_remove :: "('a \<Rightarrow> 'k::linorder) \<Rightarrow> 'k \<Rightarrow> 'a list \<Rightarrow> 'a list" where
  "ks_remove key k xs = filter (\<lambda>y. key y \<noteq> k) xs"

definition ks_edit :: "('a \<Rightarrow> 'k::linorder) \<Rightarrow> ('a, 'k) tree_edit \<Rightarrow> 'a list \<Rightarrow> 'a list" where
  "ks_edit key e xs = (case e of Insert x \<Rightarrow> ks_insert key x xs | Remove k \<Rightarrow> ks_remove key k xs)"

lemma keys_sorted_Cons: "keys_sorted key (x # xs) \<longleftrightarrow> (\<forall>y\<in>set xs. key x < key y) \<and> keys_sorted key xs"
  by (auto simp: keys_sorted_def)

lemma keys_sorted_append:
  "keys_sorted key (xs @ ys) \<longleftrightarrow> keys_sorted key xs \<and> keys_sorted key ys \<and> (\<forall>x\<in>set xs. \<forall>y\<in>set ys. key x < key y)"
  by (auto simp: keys_sorted_def sorted_wrt_append)

lemma keys_sorted_Nil [simp]: "keys_sorted key []"
  by (simp add: keys_sorted_def)

lemma takeWhile_all_less: "\<forall>y\<in>set xs. k < key y \<Longrightarrow> takeWhile (\<lambda>y. key y < k) xs = []"
  "\<forall>y\<in>set xs. k < key y \<Longrightarrow> dropWhile (\<lambda>y. key y \<le> k) xs = xs"
  "\<forall>y\<in>set xs. k < key y \<Longrightarrow> dropWhile (\<lambda>y. key y < k) xs = xs"
  for key :: "'a \<Rightarrow> 'k::linorder"
  by (cases xs; auto simp: not_le not_less)+

text \<open>A strictly sorted list splits around a key.\<close>

lemma keys_split:
  assumes "keys_sorted key xs"
  shows "dropWhile (\<lambda>y. key y < k) xs =
    (case find (\<lambda>y. key y = k) xs of None \<Rightarrow> [] | Some x \<Rightarrow> [x]) @ dropWhile (\<lambda>y. key y \<le> k) xs"
    and "\<forall>y\<in>set (dropWhile (\<lambda>y. key y \<le> k) xs). k < key y"
    and "filter (\<lambda>y. key y \<noteq> k) xs = takeWhile (\<lambda>y. key y < k) xs @ dropWhile (\<lambda>y. key y \<le> k) xs"
proof -
  have "dropWhile (\<lambda>y. key y < k) xs =
      (case find (\<lambda>y. key y = k) xs of None \<Rightarrow> [] | Some x \<Rightarrow> [x]) @ dropWhile (\<lambda>y. key y \<le> k) xs \<and>
    (\<forall>y\<in>set (dropWhile (\<lambda>y. key y \<le> k) xs). k < key y) \<and>
    filter (\<lambda>y. key y \<noteq> k) xs = takeWhile (\<lambda>y. key y < k) xs @ dropWhile (\<lambda>y. key y \<le> k) xs"
    using assms
  proof (induction xs)
    case (Cons x xs)
    then have s: "\<forall>y\<in>set xs. key x < key y" "keys_sorted key xs" by (auto simp: keys_sorted_Cons)
    note IH = Cons.IH[OF s(2)]
    consider "key x < k" | "key x = k" | "k < key x" by (rule linorder_cases)
    then show ?case
    proof cases
      case 1
      then show ?thesis using IH by auto
    next
      case 2
      then have "filter (\<lambda>y. key y \<noteq> k) xs = xs" "dropWhile (\<lambda>y. key y \<le> k) xs = xs"
        using s(1) by (auto intro!: filter_True takeWhile_all_less(2))
      then show ?thesis using 2 s(1) by auto
    next
      case 3
      then have *: "\<forall>y\<in>set (x # xs). k < key y" using s(1) by auto
      then have "find (\<lambda>y. key y = k) (x # xs) = None" by (auto simp: find_None_iff)
      moreover have "filter (\<lambda>y. key y \<noteq> k) (x # xs) = x # xs" using * by (intro filter_True) auto
      ultimately show ?thesis using * takeWhile_all_less[OF *] by auto
    qed
  qed simp
  then show "dropWhile (\<lambda>y. key y < k) xs =
      (case find (\<lambda>y. key y = k) xs of None \<Rightarrow> [] | Some x \<Rightarrow> [x]) @ dropWhile (\<lambda>y. key y \<le> k) xs"
    "\<forall>y\<in>set (dropWhile (\<lambda>y. key y \<le> k) xs). k < key y"
    "filter (\<lambda>y. key y \<noteq> k) xs = takeWhile (\<lambda>y. key y < k) xs @ dropWhile (\<lambda>y. key y \<le> k) xs"
    by auto
qed

lemma ks_insert_sorted: "keys_sorted key xs \<Longrightarrow> keys_sorted key (ks_insert key x xs)"
proof -
  assume s: "keys_sorted key xs"
  have "keys_sorted key (takeWhile (\<lambda>y. key y < key x) xs)" "keys_sorted key (dropWhile (\<lambda>y. key y \<le> key x) xs)"
    using s keys_sorted_append[of key "takeWhile (\<lambda>y. key y < key x) xs" "dropWhile (\<lambda>y. key y < key x) xs"]
      keys_sorted_append[of key "takeWhile (\<lambda>y. key y \<le> key x) xs" "dropWhile (\<lambda>y. key y \<le> key x) xs"]
    by simp_all
  then show ?thesis using keys_split(2)[OF s, of "key x"]
    by (auto simp: ks_insert_def keys_sorted_append keys_sorted_Cons dest!: set_takeWhileD)
qed

lemma ks_remove_sorted: "keys_sorted key xs \<Longrightarrow> keys_sorted key (ks_remove key k xs)"
  by (simp add: ks_remove_def keys_sorted_def sorted_wrt_map sorted_wrt_filter)

lemma ks_edit_sorted: "keys_sorted key xs \<Longrightarrow> keys_sorted key (ks_edit key e xs)"
  by (auto simp: ks_edit_def ks_insert_sorted ks_remove_sorted split: tree_edit.splits)

text \<open>Items below the key are not touched.\<close>

lemma ks_edit_append:
  assumes "\<forall>x\<in>set xs. key x < edit_key key e" "keys_sorted key ys"
  shows "ks_edit key e (xs @ ys) = xs @ takeWhile (\<lambda>y. key y < edit_key key e) ys @
    (case e of Insert x \<Rightarrow> [x] | Remove _ \<Rightarrow> []) @ dropWhile (\<lambda>y. key y \<le> edit_key key e) ys"
proof -
  have "takeWhile (\<lambda>y. key y < edit_key key e) (xs @ ys) = xs @ takeWhile (\<lambda>y. key y < edit_key key e) ys"
    "dropWhile (\<lambda>y. key y \<le> edit_key key e) (xs @ ys) = dropWhile (\<lambda>y. key y \<le> edit_key key e) ys"
    using assms(1) by (auto intro!: takeWhile_append2 dropWhile_append2 less_imp_le)
  moreover have "filter (\<lambda>y. key y \<noteq> k) xs = xs" if "k = edit_key key e" for k
    using assms(1) that by (intro filter_True) auto
  ultimately show ?thesis using keys_split(3)[OF assms(2), of "edit_key key e"]
    by (auto simp: ks_edit_def ks_insert_def ks_remove_def edit_key_def split: tree_edit.splits)
qed

subsection \<open>Exact search\<close>

context dim_laws
begin

lemma exact_children:
  assumes "\<forall>t\<in>set ts. st_good D V h t"
    and "\<And>t d. t \<in> set ts \<Longrightarrow> seek_mono M (target_in target Left) d (map (item_summary D) (to_list t)) \<Longrightarrow>
           seek_mono M (\<lambda>d. target d = Less) d (map (item_summary D) (to_list t)) \<Longrightarrow>
           snd (k d t) = snd (scan M (\<lambda>e. target e = Equal) d (zip (to_list t) (map (item_summary D) (to_list t))))"
    and "seek_mono M (target_in target Left) d (map (item_summary D) (concat (map to_list ts)))"
    and "seek_mono M (\<lambda>d. target d = Less) d (map (item_summary D) (concat (map to_list ts)))"
  shows "snd (case scan M (target_in target Left) d (zip ts (map node_summary ts)) of
            (d', None) \<Rightarrow> (d', None) | (d', Some (c, _)) \<Rightarrow> k d' c) =
         snd (scan M (\<lambda>e. target e = Equal) d
           (zip (concat (map to_list ts)) (map (item_summary D) (concat (map to_list ts)))))"
  using assms
proof (induction ts arbitrary: d)
  case (Cons t ts)
  let ?ss = "map (item_summary D) (to_list t)" and ?rs = "map (item_summary D) (concat (map to_list ts))"
  let ?in = "target_in target Left" and ?eq = "\<lambda>e. target e = Equal" and ?lt = "\<lambda>e. target e = Less"
  let ?e = "foldl (dim_add M) d ?ss"
  have ne: "?ss \<noteq> []" using Cons.prems(1) by (simp add: st_good_def)
  have e: "dim_add M d (node_summary t) = ?e" using Cons.prems(1) by (intro dim_good[of h]) simp
  have mono: "seek_mono M ?in d ?ss" "seek_mono M ?in ?e ?rs" "seek_mono M ?lt d ?ss" "seek_mono M ?lt ?e ?rs"
    using Cons.prems(3,4) seek_mono_append[of M ?in d ?ss ?rs] seek_mono_append[of M ?lt d ?ss ?rs] by simp_all
  have scan_t: "scan M ?eq d (zip (to_list t) ?ss) =
     (let i = seek_index M ?eq d ?ss in (pos_at M d ?ss i,
         if i < length ?ss then Some (to_list t ! i, pos_at M d ?ss (Suc i)) else None))"
    by (rule scan_seek_index) simp
  show ?case
  proof (cases "?in ?e")
    case True
    have k: "snd (k d t) = snd (scan M ?eq d (zip (to_list t) ?ss))" using Cons.prems(2) mono by simp
    show ?thesis
    proof (cases "seek_index M ?eq d ?ss < length ?ss")
      case True
      with k scan_t \<open>?in ?e\<close> show ?thesis by (simp add: e scan_append Let_def)
    next
      case False
      then have none: "scan M ?eq d (zip (to_list t) ?ss) = (?e, None)"
        using scan_t seek_index_le[of M ?eq d ?ss] by (simp add: Let_def pos_at_def)
      have "?eq ?e \<longrightarrow> seek_index M ?eq d ?ss < length ?ss" using seek_index_found[OF ne, of ?eq M d] by simp
      then have lt: "?lt ?e" using True False by (auto simp: target_in_def)
      have "?e \<in> set (ends M d ?ss)" using last_ends[OF ne, of M d] ne by (metis ends_eq_Nil last_in_set)
      moreover have "\<forall>a\<in>set (ends M d ?ss). \<forall>b\<in>set (ends M ?e ?rs). ?lt a \<longrightarrow> ?lt b"
        using Cons.prems(4) by (simp add: seek_mono_def ends_append sorted_wrt_append)
      ultimately have "\<forall>x\<in>set (ends M ?e ?rs). ?lt x" using lt by blast
      then have "seek_index M ?eq ?e ?rs = length ?rs" by (intro seek_index_none) auto
      then have "snd (scan M ?eq ?e (zip (concat (map to_list ts)) ?rs)) = None"
        using scan_seek_index[of "concat (map to_list ts)" ?rs M ?eq ?e] by (simp add: Let_def)
      with k none True show ?thesis by (simp add: e scan_append)
    qed
  next
    case False
    then have "\<forall>x\<in>set (ends M d ?ss). \<not> ?in x" using mono(1) ne by (intro seek_mono_last) auto
    then have "\<forall>x\<in>set (ends M d ?ss). \<not> ?eq x" by (auto simp: target_in_def)
    then have "seek_index M ?eq d ?ss = length ?ss" by (rule seek_index_none)
    with scan_t have "scan M ?eq d (zip (to_list t) ?ss) = (?e, None)" by (simp add: Let_def pos_at_def)
    with False show ?thesis
      using Cons.IH[OF _ Cons.prems(2) mono(2,4)] Cons.prems(1) by (simp add: e scan_append)
  qed
qed simp

lemma find_iterate_exact:
  assumes "st_good D V h t"
    and "seek_mono M (target_in target Left) d (map (item_summary D) (to_list t))"
    and "seek_mono M (\<lambda>d. target d = Less) d (map (item_summary D) (to_list t))"
  shows "snd (find_iterate M target Left True d t) =
         snd (scan M (\<lambda>e. target e = Equal) d (zip (to_list t) (map (item_summary D) (to_list t))))"
  using assms
proof (induction h arbitrary: t d)
  case 0
  then show ?case by (elim st_good_height_0E) simp
next
  case (Suc h)
  from Suc.prems(1) obtain ts where t: "t = Internal (Suc h) (sum_summaries D (map node_summary ts)) (map node_summary ts) ts"
    and ts: "\<forall>t\<in>set ts. st_good D V h t"
    by (rule st_good_height_SucE)
  have "snd (find_iterate M target Left True d' u) =
      snd (scan M (\<lambda>e. target e = Equal) d' (zip (to_list u) (map (item_summary D) (to_list u))))"
    if "u \<in> set ts" "seek_mono M (target_in target Left) d' (map (item_summary D) (to_list u))"
      "seek_mono M (\<lambda>d. target d = Less) d' (map (item_summary D) (to_list u))" for u d'
    using Suc.IH that ts by blast
  from exact_children[of _ _ _ "find_iterate M target Left True", OF ts this] Suc.prems(2,3)
  show ?case by (simp add: t)
qed

end

subsection \<open>Keys as positions\<close>

lemma drop_eq_Cons: "drop j xs = x # ys \<Longrightarrow> j < length xs \<and> xs ! j = x \<and> drop (Suc j) xs = ys"
  by (cases "j < length xs") (auto simp: Cons_nth_drop_Suc[symmetric])

lemma find_Some_prop: "find P xs = Some y \<Longrightarrow> P y"
  by (auto simp: find_Some_iff)

lemma collect_removed:
  assumes "(case v of Some x \<Rightarrow> (if P x then map_option (\<lambda>c. (c, Some x)) r else Some (c1, None))
            | None \<Rightarrow> Some (c1, None)) = Some (c2, w)"
  shows "(case v of Some x \<Rightarrow> (if P x then map_option (\<lambda>c. (c, ws @ [x])) r else Some (c1, ws))
          | None \<Rightarrow> Some (c1, ws)) = Some (c2, ws @ (case w of None \<Rightarrow> [] | Some x \<Rightarrow> [x]))"
  using assms by (auto split: option.splits if_splits)

lemma drop_takeWhile: "drop (m + length (takeWhile p (drop m xs))) xs = dropWhile p (drop m xs)"
  by (simp add: dropWhile_eq_drop add.commute)

text \<open>
  What a keyed item promises: its key is the position that its summary leads to from a position
  that is not above it, and no key is below the zero position.
\<close>

locale keyed = dim_laws D V M for D :: "('a, 's) item_ops" and V :: "'s \<Rightarrow> bool" and M :: "('s, 'k::linorder) dim_ops" +
  fixes key :: "'a \<Rightarrow> 'k"
  assumes key_dim: "d \<le> key x \<Longrightarrow> dim_add M d (item_summary D x) = key x"
    and zero_le_key: "dim_zero M \<le> key x"
begin

lemma item_pos_key:
  assumes "keys_sorted key (to_list root)"
  shows "i < length (to_list root) \<Longrightarrow> item_pos D M root (Suc i) = key (to_list root ! i)"
proof (induction i)
  case (Suc i)
  have "key (to_list root ! i) \<le> key (to_list root ! Suc i)"
    using assms Suc.prems by (simp add: keys_sorted_def sorted_wrt_iff_nth_less less_imp_le)
  with Suc show ?case by (simp add: item_pos_Suc[OF Suc.prems] key_dim)
qed (simp add: item_pos_Suc key_dim zero_le_key)

lemma ends_keys:
  "keys_sorted key xs \<Longrightarrow> \<forall>x\<in>set xs. d \<le> key x \<Longrightarrow> ends M d (map (item_summary D) xs) = map key xs"
  by (induction xs arbitrary: d) (auto simp: key_dim keys_sorted_Cons less_imp_le)

lemma key_mono:
  assumes "keys_sorted key xs"
  shows "seek_mono M (target_in (cmp k) b) (dim_zero M) (map (item_summary D) xs)"
    "seek_mono M (\<lambda>d. cmp k d = Less) (dim_zero M) (map (item_summary D) xs)"
proof -
  have e: "ends M (dim_zero M) (map (item_summary D) xs) = map key xs"
    using assms zero_le_key by (intro ends_keys) auto
  show "seek_mono M (target_in (cmp k) b) (dim_zero M) (map (item_summary D) xs)"
    "seek_mono M (\<lambda>d. cmp k d = Less) (dim_zero M) (map (item_summary D) xs)"
    using assms unfolding seek_mono_def e keys_sorted_def
    by (auto elim!: sorted_wrt_mono_rel[rotated] simp: target_in_def)
qed

lemma key_first:
  assumes "keys_sorted key (to_list root)"
  shows "first_from (seek_hit D M (cmp k) b root) (length (to_list root)) m =
   (if m \<le> length (to_list root)
    then m + length (takeWhile (\<lambda>y. \<not> target_in (cmp k) b (key y)) (drop m (to_list root))) else m)"
proof (cases "m \<le> length (to_list root)")
  case True
  let ?q = "m + length (takeWhile (\<lambda>y. \<not> target_in (cmp k) b (key y)) (drop m (to_list root)))"
  note q = takeWhile_index[where p = "\<lambda>y. target_in (cmp k) b (key y)", OF True refl]
  have "first_from (seek_hit D M (cmp k) b root) (length (to_list root)) m = ?q"
    using q by (intro first_from_unique) (auto simp: seek_hit_def item_pos_key[OF assms])
  with True show ?thesis by simp
qed (simp add: first_from.simps[of _ _ m])

lemma target_in_Left: "target_in (cmp k) Left d \<longleftrightarrow> k \<le> d"
  by (auto simp: target_in_def)

lemma target_in_Right: "target_in (cmp k) Right d \<longleftrightarrow> k < d"
  by (auto simp: target_in_def)

text \<open>A slice up to a key takes the items below it, from wherever the cursor is.\<close>

lemma keyed_slice:
  assumes "st_wf D V root" "node_height root < MAX_DEPTH" "keys_sorted key (to_list root)"
    and "cursor_from D M root m c" "\<not> k < item_pos D M root m"
  obtains c' t where "cursor_slice D M (cmp k) Left c = Some (c', t)" "st_wf D V t"
    "to_list t = takeWhile (\<lambda>y. key y < k) (drop m (to_list root))"
    "cursor_at D M root (m + length (takeWhile (\<lambda>y. key y < k) (drop m (to_list root)))) c'"
proof -
  have m: "m \<le> length (to_list root)" using assms(4) by (rule cursor_from_le)
  let ?T = "takeWhile (\<lambda>y. key y < k) (drop m (to_list root))"
  have K: "first_from (seek_hit D M (cmp k) Left root) (length (to_list root)) m = m + length ?T"
    using m by (simp add: key_first[OF assms(3)] target_in_Left not_le)
  have "segment (to_list root) m (m + length ?T) = ?T"
    by (simp add: segment_def takeWhile_eq_take[symmetric])
  with K that show thesis
    by (metis cursor_slice_at[OF assms(1,2) key_mono(1)[OF assms(3)] assms(4)] assms(5) cmp_simps(1))
qed

text \<open>Skipping the item with the key, when the cursor is at it.\<close>

lemma keyed_skip:
  assumes "st_wf D V root" "node_height root < MAX_DEPTH" "keys_sorted key (to_list root)"
    and "cursor_at D M root j c" "drop j (to_list root) = dropWhile (\<lambda>y. key y < k) (drop m (to_list root))"
  obtains c' j' where
    "(case vec_get (to_list root) j of
        Some x \<Rightarrow> (if key x = k then map_option (\<lambda>c. (c, Some x)) (cursor_next M c) else Some (c, None))
      | None \<Rightarrow> Some (c, None)) = Some (c', find (\<lambda>y. key y = k) (drop m (to_list root)))"
    "cursor_at D M root j' c'" "drop j' (to_list root) = dropWhile (\<lambda>y. key y \<le> k) (drop m (to_list root))"
proof -
  let ?xs = "to_list root" and ?ys = "drop m (to_list root)"
  have s: "keys_sorted key ?ys"
    using assms(3) keys_sorted_append[of key "take m ?xs" ?ys] by simp
  note split = keys_split(1)[OF s, of k]
  show thesis
  proof (cases "find (\<lambda>y. key y = k) ?ys")
    case None
    then have rest: "drop j ?xs = dropWhile (\<lambda>y. key y \<le> k) ?ys" using assms(5) split by simp
    have "key x \<noteq> k" if "vec_get ?xs j = Some x" for x
    proof -
      have "x \<in> set (drop j ?xs)" using that by (auto simp: hd_drop_conv_nth[symmetric] intro!: hd_in_set)
      with keys_split(2)[OF s, of k] rest show ?thesis by auto
    qed
    then show thesis using None rest assms(4) by (intro that[of c j]) (auto split: option.splits)
  next
    case (Some x)
    then have dj: "drop j ?xs = x # dropWhile (\<lambda>y. key y \<le> k) ?ys" using assms(5) split by simp
    then have j: "j < length ?xs" "?xs ! j = x" "drop (Suc j) ?xs = dropWhile (\<lambda>y. key y \<le> k) ?ys"
      using drop_eq_Cons by metis+
    have kx: "key x = k" using Some by (auto simp: find_Some_iff)
    obtain c' where "cursor_next M c = Some c'" "cursor_at D M root (min (Suc j) (length ?xs)) c'"
      using assms(1,2,4) by (rule cursor_next_at)
    then show thesis using Some j kx by (intro that[of c' "Suc j"]) (auto simp: vec_get_def min_absorb1)
  qed
qed

lemma keyed_insert_seq:
  assumes wf: "st_wf D V root" "node_height root < MAX_DEPTH" and s: "keys_sorted key (to_list root)"
    and x: "V (item_summary D x)"
  obtains t where "keyed_insert_or_replace D M key root x = Some (t, find (\<lambda>y. key y = key x) (to_list root))"
    "st_wf D V t" "to_list t = ks_insert key x (to_list root)"
proof -
  let ?xs = "to_list root"
  have z: "\<not> key x < item_pos D M root 0" using zero_le_key[of x] by (simp add: not_less)
  obtain c1 t1 where 1: "cursor_slice D M (cmp (key x)) Left (cursor_new M root) = Some (c1, t1)" "st_wf D V t1"
      "to_list t1 = takeWhile (\<lambda>y. key y < key x) (drop 0 ?xs)"
      "cursor_at D M root (0 + length (takeWhile (\<lambda>y. key y < key x) (drop 0 ?xs))) c1"
    using wf s cursor_from_new z by (rule keyed_slice)
  obtain c2 j where 2: "(case vec_get ?xs (0 + length (takeWhile (\<lambda>y. key y < key x) (drop 0 ?xs))) of
        Some y \<Rightarrow> (if key y = key x then map_option (\<lambda>c. (c, Some y)) (cursor_next M c1) else Some (c1, None))
      | None \<Rightarrow> Some (c1, None)) = Some (c2, find (\<lambda>y. key y = key x) (drop 0 ?xs))"
      "cursor_at D M root j c2" "drop j ?xs = dropWhile (\<lambda>y. key y \<le> key x) (drop 0 ?xs)"
    using wf s 1(4) drop_takeWhile by (rule keyed_skip)
  obtain t2 where 3: "st_push D t1 x = Some t2" "st_wf D V t2" "to_list t2 = to_list t1 @ [x]"
    using 1(2) x by (rule st_push_seq)
  obtain c3 u where 4: "cursor_suffix D M c2 = Some (c3, u)" "st_wf D V u" "to_list u = drop j ?xs"
    using wf cursor_from_at[OF 2(2)] by (rule cursor_suffix_at)
  obtain t where 5: "st_append D t2 u = Some t" "st_wf D V t" "to_list t = to_list t2 @ to_list u"
    using 3(2) 4(2) by (rule st_append_seq)
  have "keyed_insert_or_replace D M key root x = Some (t, find (\<lambda>y. key y = key x) ?xs)"
    using 1(1) 2(1) 3(1) 4(1) 5(1) cursor_at_reads(1)[OF 1(4) wf(1)]
    by (simp add: keyed_insert_or_replace_def)
  then show thesis using 5 3(3) 1(3) 4(3) 2(3) by (intro that) (auto simp: ks_insert_def)
qed

lemma keyed_remove_seq:
  assumes wf: "st_wf D V root" "node_height root < MAX_DEPTH" and s: "keys_sorted key (to_list root)"
    and z: "dim_zero M \<le> k"
  obtains t where "keyed_remove D M key root k = Some (t, find (\<lambda>y. key y = k) (to_list root))"
    "st_wf D V t" "to_list t = ks_remove key k (to_list root)"
proof -
  let ?xs = "to_list root"
  have z: "\<not> k < item_pos D M root 0" using z by (simp add: not_less)
  obtain c1 t1 where 1: "cursor_slice D M (cmp k) Left (cursor_new M root) = Some (c1, t1)" "st_wf D V t1"
      "to_list t1 = takeWhile (\<lambda>y. key y < k) (drop 0 ?xs)"
      "cursor_at D M root (0 + length (takeWhile (\<lambda>y. key y < k) (drop 0 ?xs))) c1"
    using wf s cursor_from_new z by (rule keyed_slice)
  obtain c2 j where 2: "(case vec_get ?xs (0 + length (takeWhile (\<lambda>y. key y < k) (drop 0 ?xs))) of
        Some y \<Rightarrow> (if key y = k then map_option (\<lambda>c. (c, Some y)) (cursor_next M c1) else Some (c1, None))
      | None \<Rightarrow> Some (c1, None)) = Some (c2, find (\<lambda>y. key y = k) (drop 0 ?xs))"
      "cursor_at D M root j c2" "drop j ?xs = dropWhile (\<lambda>y. key y \<le> k) (drop 0 ?xs)"
    using wf s 1(4) drop_takeWhile by (rule keyed_skip)
  obtain c3 u where 4: "cursor_suffix D M c2 = Some (c3, u)" "st_wf D V u" "to_list u = drop j ?xs"
    using wf cursor_from_at[OF 2(2)] by (rule cursor_suffix_at)
  obtain t where 5: "st_append D t1 u = Some t" "st_wf D V t" "to_list t = to_list t1 @ to_list u"
    using 1(2) 4(2) by (rule st_append_seq)
  have "keyed_remove D M key root k = Some (t, find (\<lambda>y. key y = k) ?xs)"
    using 1(1) 2(1) 4(1) 5(1) cursor_at_reads(1)[OF 1(4) wf(1)] by (simp add: keyed_remove_def)
  then show thesis
    using 5 1(3) 4(3) 2(3) keys_split(3)[OF s, of k] by (intro that) (auto simp: ks_remove_def)
qed

lemma scan_key:
  "keys_sorted key xs \<Longrightarrow> \<forall>x\<in>set xs. d \<le> key x \<Longrightarrow>
   snd (scan M (\<lambda>e. cmp k e = Equal) d (zip xs (map (item_summary D) xs))) =
   map_option (\<lambda>x. (x, key x)) (find (\<lambda>y. key y = k) xs)"
  by (induction xs arbitrary: d) (auto simp: key_dim Let_def keys_sorted_Cons less_imp_le)

lemma keyed_get_seq:
  assumes "st_wf D V root" "keys_sorted key (to_list root)"
  shows "keyed_get M root k = find (\<lambda>y. key y = k) (to_list root)"
proof (cases "to_list root = []")
  case True
  then have "find_iterate M (cmp k) Left True d root = (d, None)" for d
    using assms(1) by (cases root) (auto simp: neq_Nil_conv)
  with True show ?thesis by (simp add: keyed_get_def st_find_exact_def st_find_gen_def Let_def)
next
  case False
  let ?ss = "map (item_summary D) (to_list root)" and ?z = "dim_zero M"
  have good: "st_good D V (node_height root) root" using assms(1) False by (simp add: st_good_def)
  have last: "dim_add M ?z (node_summary root) = key (last (to_list root))"
    using False last_ends[of ?ss M ?z] ends_keys[OF assms(2), of ?z] zero_le_key
    unfolding dim_good[OF good] by (simp add: last_map)
  have it: "snd (find_iterate M (cmp k) Left True ?z root) =
      map_option (\<lambda>x. (x, key x)) (find (\<lambda>y. key y = k) (to_list root))"
    unfolding find_iterate_exact[OF good key_mono[OF assms(2)]] using assms(2) zero_le_key by (intro scan_key) auto
  show ?thesis
  proof (cases "key (last (to_list root)) < k")
    case True
    have "key y \<le> key (last (to_list root))" if "y \<in> set (to_list root)" for y
      using that assms(2) False by (cases "to_list root" rule: rev_cases) (auto simp: keys_sorted_append less_imp_le)
    then have "find (\<lambda>y. key y = k) (to_list root) = None" using True by (auto simp: find_None_iff dest: leD)
    with True show ?thesis by (simp add: keyed_get_def st_find_exact_def st_find_gen_def last Let_def)
  next
    case False
    then show ?thesis using it
      by (cases "find_iterate M (cmp k) Left True ?z root")
         (auto simp: keyed_get_def st_find_exact_def st_find_gen_def last split: option.splits)
  qed
qed

lemma item_pos_le:
  assumes s: "keys_sorted key (to_list root)" and "\<forall>y\<in>set (take m (to_list root)). key y \<le> k" "dim_zero M \<le> k" "m \<le> length (to_list root)"
  shows "\<not> k < item_pos D M root m"
  using assms by (cases m) (auto simp: item_pos_key[OF s] take_Suc_conv_app_nth not_less Suc_le_eq)

text \<open>
  The first half of a step of \<open>edit\<close>: whether or not it slices, the items below the new key are in
  front of the cursor afterwards.
\<close>

lemma edit_advance:
  assumes wf: "st_wf D V root" "node_height root < MAX_DEPTH" and s: "keys_sorted key (to_list root)"
    and c: "cursor_at D M root m c" and k: "\<not> k < item_pos D M root m"
    and t: "st_wf D V t" "\<forall>y\<in>set buffered. V (item_summary D y)"
  obtains c1 t1 b1 where
    "(case vec_get (to_list root) m of
        Some x \<Rightarrow>
          (if key x < k then
             do { t1 \<leftarrow> st_extend D t buffered;
                  (c1, slice) \<leftarrow> cursor_slice D M (cmp k) Left c;
                  t2 \<leftarrow> st_append D t1 slice;
                  x1 \<leftarrow> cursor_item c1;
                  Some (c1, t2, [], x1) }
           else Some (c, t, buffered, vec_get (to_list root) m))
      | None \<Rightarrow> Some (c, t, buffered, vec_get (to_list root) m)) =
      Some (c1, t1, b1, vec_get (to_list root) (m + length (takeWhile (\<lambda>y. key y < k) (drop m (to_list root)))))"
    "cursor_at D M root (m + length (takeWhile (\<lambda>y. key y < k) (drop m (to_list root)))) c1"
    "st_wf D V t1" "\<forall>y\<in>set b1. V (item_summary D y)"
    "to_list t1 @ b1 = to_list t @ buffered @ takeWhile (\<lambda>y. key y < k) (drop m (to_list root))"
proof (cases "\<exists>x. vec_get (to_list root) m = Some x \<and> key x < k")
  case True
  obtain t1 where 1: "st_extend D t buffered = Some t1" "st_par_extend D t buffered = Some t1" "st_wf D V t1"
      "to_list t1 = to_list t @ buffered"
    using t by (rule st_extend_seq)
  obtain c1 u where 2: "cursor_slice D M (cmp k) Left c = Some (c1, u)" "st_wf D V u"
      "to_list u = takeWhile (\<lambda>y. key y < k) (drop m (to_list root))"
      "cursor_at D M root (m + length (takeWhile (\<lambda>y. key y < k) (drop m (to_list root)))) c1"
    using wf s cursor_from_at[OF c] k by (rule keyed_slice)
  obtain t2 where 3: "st_append D t1 u = Some t2" "st_wf D V t2" "to_list t2 = to_list t1 @ to_list u"
    using 1(3) 2(2) by (rule st_append_seq)
  obtain x where x: "vec_get (to_list root) m = Some x" "key x < k" using True by auto
  show thesis
    using 1 2 3 cursor_at_reads(1)[OF 2(4) wf(1)] by (intro that[of c1 t2 "[]"]) (simp_all add: x)
next
  case False
  have "takeWhile (\<lambda>y. key y < k) (drop m (to_list root)) = []"
  proof (cases "drop m (to_list root)")
    case (Cons x ys)
    then have "vec_get (to_list root) m = Some x" using drop_eq_Cons[OF Cons] by simp
    with False Cons show ?thesis by auto
  qed simp
  with False c t show thesis by (intro that[of c t buffered]) (auto split: option.splits)
qed

lemma edit_loop_seq:
  assumes wf: "st_wf D V root" "node_height root < MAX_DEPTH" and s: "keys_sorted key (to_list root)"
  shows "sorted_wrt (\<lambda>a b. edit_key key a < edit_key key b) edits \<Longrightarrow> cursor_at D M root m c \<Longrightarrow>
    \<forall>e\<in>set edits. dim_zero M \<le> edit_key key e \<and> (\<forall>y\<in>set (take m (to_list root)) \<union> set (to_list t @ buffered). key y < edit_key key e) \<Longrightarrow>
    \<forall>e\<in>set edits. \<forall>y. e = Insert y \<longrightarrow> V (item_summary D y) \<Longrightarrow>
    st_wf D V t \<Longrightarrow> \<forall>y\<in>set buffered. V (item_summary D y) \<Longrightarrow>
    \<exists>c' t' b' m'. edit_loop D M key edits c t buffered removed =
        Some (c', t', b', removed @ filter (\<lambda>y. key y \<in> edit_key key ` set edits) (drop m (to_list root))) \<and>
      cursor_at D M root m' c' \<and> st_wf D V t' \<and> (\<forall>y\<in>set b'. V (item_summary D y)) \<and>
      to_list t' @ b' @ drop m' (to_list root) =
        foldl (\<lambda>xs e. ks_edit key e xs) (to_list t @ buffered @ drop m (to_list root)) edits"
proof (induction edits arbitrary: m c t buffered removed)
  case Nil
  then show ?case by auto
next
  case (Cons e edits)
  let ?xs = "to_list root" and ?k = "edit_key key e"
  let ?ys = "drop m ?xs"
  let ?T = "takeWhile (\<lambda>y. key y < ?k) ?ys" and ?R = "dropWhile (\<lambda>y. key y \<le> ?k) ?ys"
  have m: "m \<le> length ?xs" using Cons.prems(2) by (simp add: cursor_at_def lands_def)
  have ys: "keys_sorted key ?ys" using s keys_sorted_append[of key "take m ?xs" ?ys] by simp
  have "\<not> ?k < item_pos D M root m" using Cons.prems(3) m s by (intro item_pos_le) (auto simp: less_imp_le)
  then obtain c1 t1 b1 where adv:
    "(case vec_get ?xs m of
        Some x \<Rightarrow>
          (if key x < ?k then
             do { t1 \<leftarrow> st_extend D t buffered;
                  (c1, slice) \<leftarrow> cursor_slice D M (cmp ?k) Left c;
                  t2 \<leftarrow> st_append D t1 slice;
                  x1 \<leftarrow> cursor_item c1;
                  Some (c1, t2, [], x1) }
           else Some (c, t, buffered, vec_get ?xs m))
      | None \<Rightarrow> Some (c, t, buffered, vec_get ?xs m)) = Some (c1, t1, b1, vec_get ?xs (m + length ?T))"
    "cursor_at D M root (m + length ?T) c1" "st_wf D V t1" "\<forall>y\<in>set b1. V (item_summary D y)"
    "to_list t1 @ b1 = to_list t @ buffered @ ?T"
    using edit_advance[OF wf s Cons.prems(2) _ Cons.prems(5,6)] by blast
  obtain c2 j where skip: "(case vec_get ?xs (m + length ?T) of
        Some x \<Rightarrow> (if key x = ?k then map_option (\<lambda>c. (c, Some x)) (cursor_next M c1) else Some (c1, None))
      | None \<Rightarrow> Some (c1, None)) = Some (c2, find (\<lambda>y. key y = ?k) ?ys)"
      "cursor_at D M root j c2" "drop j ?xs = ?R"
    using wf s adv(2) drop_takeWhile by (rule keyed_skip)
  define f where "f = (case find (\<lambda>y. key y = ?k) ?ys of None \<Rightarrow> [] | Some x \<Rightarrow> [x])"
  have skip': "(case vec_get ?xs (m + length ?T) of
        Some x \<Rightarrow> (if key x = ?k then map_option (\<lambda>c. (c, removed @ [x])) (cursor_next M c1) else Some (c1, removed))
      | None \<Rightarrow> Some (c1, removed)) = Some (c2, removed @ f)"
    unfolding f_def using skip(1) by (rule collect_removed)
  define b2 where "b2 = (case e of Insert y \<Rightarrow> b1 @ [y] | Remove _ \<Rightarrow> b1)"
  have prefix: "\<forall>y\<in>set (to_list t @ buffered). key y < ?k" using Cons.prems(3) by auto
  have edit: "to_list t1 @ b2 @ drop j ?xs = ks_edit key e (to_list t @ buffered @ ?ys)"
    using ks_edit_append[of "to_list t @ buffered" key e ?ys] prefix ys skip(3) adv(5)
    by (auto simp: b2_def split: tree_edit.splits)
  have later: "\<forall>e'\<in>set edits. ?k < edit_key key e'" using Cons.prems(1) by simp
  have parts: "?ys = ?T @ f @ ?R" using keys_split(1)[OF ys, of ?k] by (metis f_def takeWhile_dropWhile_id)
  have T: "\<forall>y\<in>set ?T. key y < ?k" by (auto dest: set_takeWhileD)
  have f: "\<forall>y\<in>set f. key y = ?k" by (cases "find (\<lambda>y. key y = ?k) ?ys") (auto simp: f_def dest: find_Some_prop)
  have below: "\<forall>y\<in>set (take j ?xs). key y \<le> ?k"
  proof
    fix y assume y: "y \<in> set (take j ?xs)"
    have "?xs = take m ?xs @ ?T @ f @ drop j ?xs" using parts skip(3) by (metis append_take_drop_id)
    then have "take j ?xs @ drop j ?xs = (take m ?xs @ ?T @ f) @ drop j ?xs" by simp
    then have "take j ?xs = take m ?xs @ ?T @ f" by (rule append_same_eq[THEN iffD1])
    then have "y \<in> set (take m ?xs) \<or> y \<in> set ?T \<or> y \<in> set f" using y by auto
    then show "key y \<le> ?k" using Cons.prems(3) T f by (auto simp: less_imp_le)
  qed
  have b2: "\<forall>y\<in>set b2. V (item_summary D y)" "\<forall>y\<in>set (to_list t1 @ b2). key y \<le> ?k"
  proof -
    have "set (to_list t1 @ b1) = set (to_list t @ buffered) \<union> set ?T" using adv(5) by (metis append.assoc set_append)
    then have "\<forall>y\<in>set (to_list t1 @ b1). key y \<le> ?k" using prefix T by (auto simp: less_imp_le)
    then show "\<forall>y\<in>set (to_list t1 @ b2). key y \<le> ?k" by (auto simp: b2_def edit_key_def split: tree_edit.splits)
    show "\<forall>y\<in>set b2. V (item_summary D y)" using adv(4) Cons.prems(4) by (auto simp: b2_def split: tree_edit.splits)
  qed
  have inv: "\<forall>e'\<in>set edits. dim_zero M \<le> edit_key key e' \<and>
      (\<forall>y\<in>set (take j ?xs) \<union> set (to_list t1 @ b2). key y < edit_key key e')"
    using Cons.prems(3) later below b2(2) by (auto intro: le_less_trans)
  have step: "edit_loop D M key (e # edits) c t buffered removed = edit_loop D M key edits c2 t1 b2 (removed @ f)"
    using adv(1) skip' cursor_at_reads(1)[OF Cons.prems(2) wf(1)] by (simp add: Let_def b2_def)
  have rem: "filter (\<lambda>y. key y \<in> edit_key key ` set (e # edits)) ?ys =
      f @ filter (\<lambda>y. key y \<in> edit_key key ` set edits) (drop j ?xs)"
  proof -
    have "filter (\<lambda>y. key y \<in> edit_key key ` set (e # edits)) ?T = []" using T later by (fastforce simp: filter_empty_conv)
    moreover have "filter (\<lambda>y. key y \<in> edit_key key ` set (e # edits)) f = f" using f by (intro filter_True) auto
    moreover have "filter (\<lambda>y. key y \<in> edit_key key ` set (e # edits)) ?R = filter (\<lambda>y. key y \<in> edit_key key ` set edits) ?R"
      using keys_split(2)[OF ys, of ?k] by (intro filter_cong) auto
    ultimately show ?thesis using skip(3) by (subst parts) simp
  qed
  have srt: "sorted_wrt (\<lambda>a b. edit_key key a < edit_key key b) edits" using Cons.prems(1) by simp
  have ins: "\<forall>e\<in>set edits. \<forall>y. e = Insert y \<longrightarrow> V (item_summary D y)" using Cons.prems(4) by simp
  show ?case
    using Cons.IH[OF srt skip(2) inv ins adv(3) b2(1), of "removed @ f"] unfolding step rem edit[symmetric]
    by (simp add: edit)
qed

lemma keyed_edit_seq:
  assumes wf: "st_wf D V root" "node_height root < MAX_DEPTH" and s: "keys_sorted key (to_list root)"
    and e: "distinct (map (edit_key key) edits)" "\<forall>e\<in>set edits. dim_zero M \<le> edit_key key e"
      "\<forall>e\<in>set edits. \<forall>y. e = Insert y \<longrightarrow> V (item_summary D y)"
  obtains t where "keyed_edit D M key root edits =
      Some (t, filter (\<lambda>y. key y \<in> edit_key key ` set edits) (to_list root))"
    "st_wf D V t" "to_list t = foldl (\<lambda>xs e. ks_edit key e xs) (to_list root) (sort_key (edit_key key) edits)"
proof (cases "edits = []")
  case True
  then show thesis using wf by (intro that[of root]) (auto simp: keyed_edit_def)
next
  case False
  let ?es = "sort_key (edit_key key) edits"
  have z: "first_from (seek_hit D M (cmp (dim_zero M)) Left root) (length (to_list root)) 0 = 0"
    unfolding key_first[OF s] using zero_le_key by (cases "to_list root") (auto simp: target_in_Left)
  obtain c r where c: "cursor_seek M (cmp (dim_zero M)) Left (cursor_new M root) = Some (c, r)"
      "cursor_at D M root (first_from (seek_hit D M (cmp (dim_zero M)) Left root) (length (to_list root)) 0) c"
    by (rule cursor_seek_at[OF wf key_mono(1)[OF s, of "dim_zero M" Left], of "cursor_new M root"])
       (auto simp: cursor_new_def)
  have srt: "sorted_wrt (\<lambda>a b. edit_key key a < edit_key key b) ?es"
  proof -
    have "distinct (map (edit_key key) ?es)"
      using e(1) by (simp add: distinct_map)
    then show ?thesis using strict_sorted_iff[of "map (edit_key key) ?es"] sorted_sort_key[of "edit_key key" edits] by (simp add: sorted_wrt_map)
  qed
  have "\<forall>e\<in>set ?es. dim_zero M \<le> edit_key key e \<and>
      (\<forall>y\<in>set (take 0 (to_list root)) \<union> set (to_list (st_new D) @ []). key y < edit_key key e)"
    using e(2) by simp
  moreover have "\<forall>e\<in>set ?es. \<forall>y. e = Insert y \<longrightarrow> V (item_summary D y)" using e(3) by simp
  ultimately obtain c' t' b' m' where loop: "edit_loop D M key ?es c (st_new D) [] [] =
        Some (c', t', b', filter (\<lambda>y. key y \<in> edit_key key ` set edits) (to_list root))"
      "cursor_at D M root m' c'" "st_wf D V t'" "\<forall>y\<in>set b'. V (item_summary D y)"
      "to_list t' @ b' @ drop m' (to_list root) = foldl (\<lambda>xs e. ks_edit key e xs) (to_list root) ?es"
    using edit_loop_seq[OF wf s srt, of 0 c "st_new D" "[]" "[]"] c(2) z by auto
  obtain t1 where 1: "st_extend D t' b' = Some t1" "st_par_extend D t' b' = Some t1" "st_wf D V t1"
      "to_list t1 = to_list t' @ b'"
    using loop(3,4) by (rule st_extend_seq)
  obtain c3 u where 2: "cursor_suffix D M c' = Some (c3, u)" "st_wf D V u" "to_list u = drop m' (to_list root)"
    using wf cursor_from_at[OF loop(2)] by (rule cursor_suffix_at)
  obtain t where 3: "st_append D t1 u = Some t" "st_wf D V t" "to_list t = to_list t1 @ to_list u"
    using 1(3) 2(2) by (rule st_append_seq)
  show thesis using False c(1) loop 1 2 3 by (intro that[of t]) (auto simp: keyed_edit_def)
qed

end

subsection \<open>Lists of insertions\<close>

lemma edit_key_Insert: "edit_key key (Insert x) = key x"
  by (simp add: edit_key_def)

lemma sort_Inserts: "sort_key (edit_key key) (map Insert es) = map Insert (sort_key key es)"
proof -
  have ins: "insort_key (edit_key key) (Insert x) (map Insert ys) = map Insert (insort_key key x ys)" for x ys
    by (induction ys) (auto simp: edit_key_Insert)
  show ?thesis by (induction es) (auto simp: ins)
qed

end
