(* ===== verification/TreeMap.thy ===== *)
theory TreeMap
  imports Keyed "HOL-Library.Option_ord"
begin

section \<open>Ordered maps and sets (crates/sum_tree/src/tree_map.rs)\<close>

text \<open>
  \<open>TreeMap<K, V>\<close> is a sum tree of entries whose summary is the right-most key. \<open>MapKey\<close> and
  \<open>MapKeyRef\<close> are an optional key, ordered with \<open>None\<close> first. An operation returns \<open>None\<close> when the
  code would panic; the theorems show that a well-formed map never does.
\<close>

record ('k, 'v) map_entry =
  me_key :: 'k
  me_value :: 'v

type_synonym 'k map_key = "'k option"

type_synonym ('k, 'v) tree_map = "(('k, 'v) map_entry, 'k map_key) sum_tree"

definition entry_key :: "('k, 'v) map_entry \<Rightarrow> 'k map_key" where
  "entry_key e = Some (me_key e)"

definition map_ops :: "(('k, 'v) map_entry, 'k map_key) item_ops" where
  "map_ops = \<lparr>item_summary = entry_key, summary_zero = None, add_summary = (\<lambda>self summary. summary)\<rparr>"

definition map_dim :: "('k map_key, 'k map_key) dim_ops" where
  "map_dim = \<lparr>dim_zero = None, dim_add = (\<lambda>self summary. summary)\<rparr>"

subsection \<open>Operations\<close>

definition tm_default :: "('k, 'v) tree_map" where
  "tm_default = st_new map_ops"

definition tm_from_ordered_entries :: "('k \<times> 'v) list \<Rightarrow> ('k, 'v) tree_map" where
  "tm_from_ordered_entries entries =
     st_from_iter map_ops (map (\<lambda>(k, v). \<lparr>me_key = k, me_value = v\<rparr>) entries)"

definition tm_is_empty :: "('k, 'v) tree_map \<Rightarrow> bool" where
  "tm_is_empty t = st_is_empty t"

definition tm_get :: "('k::linorder, 'v) tree_map \<Rightarrow> 'k \<Rightarrow> 'v option" where
  "tm_get t key =
     (case st_find map_dim t (cmp (Some key)) Left of
        (_, _, Some item) \<Rightarrow> (if Some key = entry_key item then Some (me_value item) else None)
      | (_, _, None) \<Rightarrow> None)"

definition tm_contains_key :: "('k::linorder, 'v) tree_map \<Rightarrow> 'k \<Rightarrow> bool" where
  "tm_contains_key t key = (tm_get t key \<noteq> None)"

definition tm_insert_or_replace ::
  "('k::linorder, 'v) tree_map \<Rightarrow> 'k \<Rightarrow> 'v \<Rightarrow> (('k, 'v) tree_map \<times> 'v option) option" where
  "tm_insert_or_replace t key value =
     do { (t', replaced) \<leftarrow> keyed_insert_or_replace map_ops map_dim entry_key t
                               \<lparr>me_key = key, me_value = value\<rparr>;
          Some (t', map_option me_value replaced) }"

definition tm_insert ::
  "('k::linorder, 'v) tree_map \<Rightarrow> 'k \<Rightarrow> 'v \<Rightarrow> ('k, 'v) tree_map option" where
  "tm_insert t key value =
     do { (t', _) \<leftarrow> keyed_insert_or_replace map_ops map_dim entry_key t
                      \<lparr>me_key = key, me_value = value\<rparr>;
          Some t' }"

definition tm_extend ::
  "('k::linorder, 'v) tree_map \<Rightarrow> ('k \<times> 'v) list \<Rightarrow> ('k, 'v) tree_map option" where
  "tm_extend t entries =
     do { (t', _) \<leftarrow> keyed_edit map_ops map_dim entry_key t
                      (map (\<lambda>(k, v). Insert \<lparr>me_key = k, me_value = v\<rparr>) entries);
          Some t' }"

definition tm_clear :: "('k, 'v) tree_map \<Rightarrow> ('k, 'v) tree_map" where
  "tm_clear t = st_new map_ops"

definition tm_remove ::
  "('k::linorder, 'v) tree_map \<Rightarrow> 'k \<Rightarrow> (('k, 'v) tree_map \<times> 'v option) option" where
  "tm_remove t k =
     do { (cursor, new_tree) \<leftarrow> cursor_slice map_ops map_dim (cmp (Some k)) Left (cursor_new map_dim t);
          e \<leftarrow> cursor_end map_dim cursor;
          (cursor', removed) \<leftarrow>
            (if cmp (Some k) e = Equal then
               do { it \<leftarrow> cursor_item cursor;
                    item \<leftarrow> it;
                    c \<leftarrow> cursor_next map_dim cursor;
                    Some (c, Some (me_value item)) }
             else Some (cursor, None));
          (_, suffix) \<leftarrow> cursor_suffix map_ops map_dim cursor';
          t' \<leftarrow> st_append map_ops new_tree suffix;
          Some (t', removed) }"

text \<open>\<open>MapSeekTargetAdaptor\<close>: a target compares itself with a key; before the first key it is ahead.\<close>

definition map_target :: "('k \<Rightarrow> ordering) \<Rightarrow> 'k map_key \<Rightarrow> ordering" where
  "map_target cmp_cursor location =
     (case location of Some key \<Rightarrow> cmp_cursor key | None \<Rightarrow> Greater)"

definition tm_remove_range ::
  "('k, 'v) tree_map \<Rightarrow> ('k \<Rightarrow> ordering) \<Rightarrow> ('k \<Rightarrow> ordering) \<Rightarrow> ('k, 'v) tree_map option" where
  "tm_remove_range t start_target end_target =
     do { (cursor, new_tree) \<leftarrow>
            cursor_slice map_ops map_dim (map_target start_target) Left (cursor_new map_dim t);
          (cursor', _) \<leftarrow> cursor_seek map_dim (map_target end_target) Left cursor;
          (_, suffix) \<leftarrow> cursor_suffix map_ops map_dim cursor';
          st_append map_ops new_tree suffix }"

definition tm_closest :: "('k::linorder, 'v) tree_map \<Rightarrow> 'k \<Rightarrow> ('k \<times> 'v) option option" where
  "tm_closest t k =
     do { (cursor, _) \<leftarrow> cursor_seek map_dim (cmp (Some k)) Right (cursor_new map_dim t);
          cursor' \<leftarrow> cursor_prev map_dim cursor;
          item \<leftarrow> cursor_item cursor';
          Some (map_option (\<lambda>item. (me_key item, me_value item)) item) }"

text \<open>Everything a cursor or an iterator yields until it is exhausted.\<close>

partial_function (option) cursor_collect ::
  "('s, 'd) dim_ops \<Rightarrow> ('a, 's, 'd) cursor \<Rightarrow> 'a list option" where
  "cursor_collect M c =
     do { (c', item) \<leftarrow> cursor_iter_next M c;
          (case item of
             None \<Rightarrow> Some []
           | Some x \<Rightarrow> do { xs \<leftarrow> cursor_collect M c'; Some (x # xs) }) }"

definition tm_iter_from :: "('k::linorder, 'v) tree_map \<Rightarrow> 'k \<Rightarrow> ('k \<times> 'v) list option" where
  "tm_iter_from t k =
     do { (cursor, _) \<leftarrow> cursor_seek map_dim (cmp (Some k)) Left (cursor_new map_dim t);
          xs \<leftarrow> cursor_collect map_dim cursor;
          Some (map (\<lambda>e. (me_key e, me_value e)) xs) }"

definition tm_update ::
  "('k::linorder, 'v) tree_map \<Rightarrow> 'k \<Rightarrow> ('v \<Rightarrow> 'v \<times> 'r) \<Rightarrow> (('k, 'v) tree_map \<times> 'r option) option" where
  "tm_update t k f =
     do { (cursor, new_tree) \<leftarrow> cursor_slice map_ops map_dim (cmp (Some k)) Left (cursor_new map_dim t);
          e \<leftarrow> cursor_end map_dim cursor;
          (cursor', new_tree', result) \<leftarrow>
            (if cmp (Some k) e = Equal then
               do { it \<leftarrow> cursor_item cursor;
                    item \<leftarrow> it;
                    let r = f (me_value item);
                    t1 \<leftarrow> st_push map_ops new_tree (item\<lparr>me_value := fst r\<rparr>);
                    c \<leftarrow> cursor_next map_dim cursor;
                    Some (c, t1, Some (snd r)) }
             else Some (cursor, new_tree, None));
          (_, suffix) \<leftarrow> cursor_suffix map_ops map_dim cursor';
          t' \<leftarrow> st_append map_ops new_tree' suffix;
          Some (t', result) }"

partial_function (option) retain_loop ::
  "('k \<Rightarrow> 'v \<Rightarrow> bool) \<Rightarrow> (('k, 'v) map_entry, 'k map_key, 'k map_key) cursor \<Rightarrow>
   ('k, 'v) tree_map \<Rightarrow> ('k, 'v) tree_map option" where
  "retain_loop predicate cursor new_map =
     do { it \<leftarrow> cursor_item cursor;
          (case it of
             None \<Rightarrow> Some new_map
           | Some item \<Rightarrow>
               do { new_map' \<leftarrow> (if predicate (me_key item) (me_value item)
                                then st_push map_ops new_map item else Some new_map);
                    cursor' \<leftarrow> cursor_next map_dim cursor;
                    retain_loop predicate cursor' new_map' }) }"

definition tm_retain ::
  "('k, 'v) tree_map \<Rightarrow> ('k \<Rightarrow> 'v \<Rightarrow> bool) \<Rightarrow> ('k, 'v) tree_map option" where
  "tm_retain t predicate =
     do { cursor \<leftarrow> cursor_next map_dim (cursor_new map_dim t);
          retain_loop predicate cursor (st_new map_ops) }"

partial_function (option) iter_collect :: "('a, 's) iter \<Rightarrow> 'a list option" where
  "iter_collect it =
     do { (it', item) \<leftarrow> iter_next it;
          (case item of
             None \<Rightarrow> Some []
           | Some x \<Rightarrow> do { xs \<leftarrow> iter_collect it'; Some (x # xs) }) }"

definition tm_iter :: "('k, 'v) tree_map \<Rightarrow> ('k \<times> 'v) list option" where
  "tm_iter t = map_option (map (\<lambda>e. (me_key e, me_value e))) (iter_collect (iter_new t))"

definition tm_values :: "('k, 'v) tree_map \<Rightarrow> 'v list option" where
  "tm_values t = map_option (map me_value) (iter_collect (iter_new t))"

definition tm_first :: "('k, 'v) tree_map \<Rightarrow> ('k \<times> 'v) option option" where
  "tm_first t = map_option (map_option (\<lambda>e. (me_key e, me_value e))) (st_first t)"

definition tm_last :: "('k, 'v) tree_map \<Rightarrow> ('k \<times> 'v) option option" where
  "tm_last t = map_option (map_option (\<lambda>e. (me_key e, me_value e))) (st_last t)"

definition tm_insert_tree ::
  "('k::linorder, 'v) tree_map \<Rightarrow> ('k, 'v) tree_map \<Rightarrow> ('k, 'v) tree_map option" where
  "tm_insert_tree t other =
     do { entries \<leftarrow> tm_iter other;
          (t', _) \<leftarrow> keyed_edit map_ops map_dim entry_key t
                      (map (\<lambda>(k, v). Insert \<lparr>me_key = k, me_value = v\<rparr>) entries);
          Some t' }"

text \<open>\<open>TreeSet<K>\<close> is a map to the unit value.\<close>

type_synonym 'k tree_set = "('k, unit) tree_map"

definition ts_from_ordered_entries :: "'k list \<Rightarrow> 'k tree_set" where
  "ts_from_ordered_entries entries = tm_from_ordered_entries (map (\<lambda>k. (k, ())) entries)"

definition ts_insert :: "'k::linorder tree_set \<Rightarrow> 'k \<Rightarrow> 'k tree_set option" where
  "ts_insert s k = tm_insert s k ()"

definition ts_remove :: "'k::linorder tree_set \<Rightarrow> 'k \<Rightarrow> ('k tree_set \<times> bool) option" where
  "ts_remove s k = map_option (\<lambda>(s', r). (s', r \<noteq> None)) (tm_remove s k)"

definition ts_extend :: "'k::linorder tree_set \<Rightarrow> 'k list \<Rightarrow> 'k tree_set option" where
  "ts_extend s ks = tm_extend s (map (\<lambda>k. (k, ())) ks)"

definition ts_contains :: "'k::linorder tree_set \<Rightarrow> 'k \<Rightarrow> bool" where
  "ts_contains s k = (tm_get s k \<noteq> None)"

definition ts_iter :: "'k tree_set \<Rightarrow> 'k list option" where
  "ts_iter s = map_option (map fst) (tm_iter s)"

definition ts_iter_from :: "'k::linorder tree_set \<Rightarrow> 'k \<Rightarrow> 'k list option" where
  "ts_iter_from s k = map_option (map fst) (tm_iter_from s k)"

end
