(* ===== verification/Iteration.thy ===== *)
theory Iteration
  imports TreeMap
begin

section \<open>Iterating over a tree\<close>

text \<open>
  A cursor used as an iterator, and the position-free \<open>Iter\<close>, yield the items of the tree in order.
  \<open>Iter\<close> runs in lockstep with the forward loop of a cursor over the unit dimension.
\<close>

definition unit_dim :: "('s, unit) dim_ops" where
  "unit_dim = \<lparr>dim_zero = (), dim_add = (\<lambda>_ _. ())\<rparr>"

definition iter_entry :: "('a, 's, 'd) stack_entry \<Rightarrow> ('a, 's) sum_tree \<times> nat" where
  "iter_entry e = (se_tree e, se_index e)"

definition top_item :: "('a, 's, 'd) stack_entry list \<Rightarrow> 'a option" where
  "top_item st = (case st of [] \<Rightarrow> None | e # _ \<Rightarrow> (case se_tree e of Leaf _ xs _ \<Rightarrow> vec_get xs (se_index e) | _ \<Rightarrow> None))"

lemma skip_forward_all: "skip_forward M (\<lambda>_. True) e pos ss = (e, pos)"
  by (cases ss) auto

lemma iter_loop_forward:
  assumes "forward_loop M f st pos d = Some y"
    and "f = (\<lambda>_. True)" "\<forall>e\<in>set st. st_wf D V (se_tree e)"
  shows "iter_loop (map iter_entry st) d = Some (map iter_entry (fst y), top_item (fst y)) \<and> snd (snd y) = (fst y \<noteq> [])"
  using assms(2,3)
proof (induction M f st pos d y rule: forward_loop.raw_induct)
  case (1 fw M f st pos d y)
  note IH = 1(1) and run = 1(2)
  show ?case
  proof (cases st)
    case Nil
    then show ?thesis using run by (subst iter_loop.simps) (auto simp: top_item_def)
  next
    case (Cons e rest)
    show ?thesis
    proof (cases "se_tree e")
      case (Leaf s xs ss)
      have len: "length ss = length xs" using 1(4) Cons Leaf by simp
      let ?i = "if d then se_index e else Suc (se_index e)"
      have dd: "d \<or> se_index e < length ss" using run Leaf Cons by (auto simp: vec_get_def split: if_splits)
      show ?thesis
      proof (cases "?i < length ss")
        case True
        then have "fst y \<noteq> []" "map iter_entry (fst y) = (se_tree e, ?i) # map iter_entry rest" "top_item (fst y) = Some (xs ! ?i)" "snd (snd y)"
          using run dd Leaf Cons len 1(3)
          by (auto simp: skip_forward_all iter_entry_def top_item_def vec_get_def split: if_splits)
        with True show ?thesis using Leaf Cons len
          by (subst iter_loop.simps) (auto simp: iter_entry_def vec_get_def Let_def)
      next
        case False
        then obtain pos2 where "fw M f rest pos2 False = Some y"
          using run dd Leaf Cons 1(3) by (auto simp: skip_forward_all vec_get_def split: if_splits)
        from IH[OF this] have "iter_loop (map iter_entry rest) False = Some (map iter_entry (fst y), top_item (fst y)) \<and> snd (snd y) = (fst y \<noteq> [])"
          using 1(3,4) Cons by simp
        with False show ?thesis using Leaf Cons len
          by (subst iter_loop.simps) (auto simp: iter_entry_def vec_get_def)
      qed
    next
      case (Internal h s ss ts)
      have wf: "\<forall>t\<in>set ts. st_wf D V t" using 1(4) Cons Internal by simp
      let ?i = "if d then se_index e else Suc (se_index e)"
      let ?e = "if d then e else e\<lparr>se_index := se_index e + 1, se_position := pos\<rparr>"
      show ?thesis
      proof (cases "?i < length ts")
        case True
        let ?c = "\<lparr>se_tree = ts ! ?i, se_index = 0, se_position = pos\<rparr>"
        have fw: "fw M f (?c # ?e # rest) pos True = Some y" and push: "length rest + 1 < MAX_DEPTH"
          using run Internal Cons True 1(3)
          by (auto simp: skip_forward_all vec_get_def stack_push_def Let_def split: if_splits bind_splits)
        have "iter_loop (map iter_entry (?c # ?e # rest)) True = Some (map iter_entry (fst y), top_item (fst y)) \<and> snd (snd y) = (fst y \<noteq> [])"
          using IH[OF fw 1(3)] 1(4) Cons wf True by auto
        with True push show ?thesis using Internal Cons
          by (subst iter_loop.simps) (auto simp: iter_entry_def vec_get_def stack_push_def)
      next
        case False
        then have "fw M f rest pos False = Some y"
          using run Internal Cons 1(3) by (auto simp: skip_forward_all vec_get_def Let_def split: if_splits)
        from IH[OF this] have "iter_loop (map iter_entry rest) False = Some (map iter_entry (fst y), top_item (fst y)) \<and> snd (snd y) = (fst y \<noteq> [])"
          using 1(3,4) Cons by simp
        with False show ?thesis using Internal Cons
          by (subst iter_loop.simps) (auto simp: iter_entry_def vec_get_def)
      qed
    qed
  qed
qed (rule assms(1))

context dim_laws
begin

lemma cursor_collect_at:
  assumes "st_wf D V root" "node_height root < MAX_DEPTH"
  shows "cursor_at D M root m c \<Longrightarrow> cursor_collect M c = Some (drop m (to_list root))"
proof (induction "length (to_list root) - m" arbitrary: m c)
  case 0
  then have m: "m = length (to_list root)" by (simp add: cursor_at_def lands_def)
  have "did_seek c" using 0 by (simp add: cursor_at_def)
  with cursor_at_reads(1)[OF 0(2) assms(1)] m show ?case
    by (subst cursor_collect.simps) (simp add: cursor_iter_next_def vec_get_def)
next
  case (Suc l)
  then have m: "m < length (to_list root)" "did_seek c" by (auto simp: cursor_at_def)
  obtain c' where c': "cursor_next M c = Some c'" "cursor_at D M root (min (Suc m) (length (to_list root))) c'"
    using assms Suc.prems by (rule cursor_next_at)
  then have "cursor_collect M c' = Some (drop (Suc m) (to_list root))"
    using Suc.hyps m by (intro Suc.hyps(1)) (auto simp: min_def split: if_splits)
  with m c'(1) cursor_at_reads(1)[OF Suc.prems assms(1)] show ?case
    by (subst cursor_collect.simps) (simp add: cursor_iter_next_def vec_get_def Cons_nth_drop_Suc)
qed

end

definition iter_at :: "('a, 's) item_ops \<Rightarrow> ('a, 's) sum_tree \<Rightarrow> nat \<Rightarrow> ('a, 's) iter \<Rightarrow> bool" where
  "iter_at D root k it \<longleftrightarrow>
     it_tree it = root \<and> k < length (to_list root) \<and>
     (\<exists>st. it_stack it = map iter_entry st \<and> lands D unit_dim root k st ())"

lemma lands_stack_wf:
  assumes "lands D M root k st pos" "st_wf D V root"
  shows "\<forall>e\<in>set st. st_wf D V (se_tree e)"
proof -
  have "\<forall>e\<in>set st'. st_wf D V (se_tree e)" if "frames D M root u off st'" for u off st'
    using that
  proof (induction rule: frames.induct)
    case (frames_down h s ss ts off st i e)
    then show ?case using frames_wf[OF frames_down.hyps(1) assms(2)] by simp
  qed simp
  then show ?thesis using assms frames_wf[OF _ assms(2)] by (fastforce simp: lands_def split: if_splits)
qed

lemma lands_top_item:
  assumes "lands D M root k st pos" "st_wf D V root"
  shows "top_item st = vec_get (to_list root) k"
proof (cases "k < length (to_list root)")
  case True
  show ?thesis
    by (rule lands_item[OF assms(1) True assms(2)]) (use True in \<open>auto simp: top_item_def vec_get_def\<close>)
qed (use assms in \<open>auto simp: lands_def top_item_def vec_get_def\<close>)

context sum_laws
begin

lemma unit_dim_laws: "dim_laws D V unit_dim"
  by unfold_locales (simp add: unit_dim_def)

lemma iter_next_at:
  assumes wf: "st_wf D V root" "node_height root < MAX_DEPTH" and it: "iter_at D root k it"
  obtains it' where "iter_next it = Some (it', vec_get (to_list root) (Suc k))"
    "Suc k < length (to_list root) \<longrightarrow> iter_at D root (Suc k) it'"
proof -
  obtain st where st: "it_tree it = root" "k < length (to_list root)" "it_stack it = map iter_entry st"
      "lands D unit_dim root k st ()"
    using it by (auto simp: iter_at_def)
  then have ne: "st \<noteq> []" by (auto simp: lands_def)
  define c where "c = \<lparr>c_tree = root, c_stack = st, c_position = (), did_seek = True, at_end = False\<rparr>"
  have "cursor_at D unit_dim root k c" using st(4) ne by (simp add: cursor_at_def c_def)
  then obtain c' where c': "cursor_next unit_dim c = Some c'"
      "cursor_at D unit_dim root (min (Suc k) (length (to_list root))) c'"
    using dim_laws.cursor_next_at[OF unit_dim_laws wf] by blast
  then obtain pos r where run: "forward_loop unit_dim (\<lambda>_. True) st () False = Some (c_stack c', pos, r)"
    using ne by (auto simp: cursor_next_def search_forward_def c_def Let_def split: bind_splits if_splits)
  have "iter_loop (map iter_entry st) False = Some (map iter_entry (c_stack c'), top_item (c_stack c'))"
    using iter_loop_forward[OF run refl lands_stack_wf[OF st(4) wf(1)]] by simp
  moreover have "top_item (c_stack c') = vec_get (to_list root) (Suc k)"
    using lands_top_item[OF _ wf(1)] c'(2) st(2) by (auto simp: cursor_at_def min_def)
  ultimately show thesis using st ne c'(2)
    by (intro that[of "it\<lparr>it_stack := map iter_entry (c_stack c')\<rparr>"])
       (auto simp: iter_next_def iter_at_def cursor_at_def)
qed

lemma iter_next_new:
  assumes wf: "st_wf D V root" "node_height root < MAX_DEPTH"
  obtains it' where "iter_next (iter_new root) = Some (it', vec_get (to_list root) 0)"
    "0 < length (to_list root) \<longrightarrow> iter_at D root 0 it'"
proof -
  let ?e = "\<lparr>se_tree = root, se_index = 0, se_position = ()\<rparr>"
  have e: "frames D unit_dim root (se_tree ?e) 0 []" "entry_ok D unit_dim root 0 ?e"
      "0 = 0 + items_before (se_tree ?e) (se_index ?e)"
    by (auto simp: frames_here intro: entry_ok_fresh)
  have "filter_sound D V (\<lambda>_. True)" by (simp add: filter_sound_def)
  moreover have "first_from (item_hit D (\<lambda>_. True) root) n 0 = 0" for n
    by (simp add: first_from.simps[of _ n 0] item_hit_def)
  ultimately obtain st' r where run: "forward_loop unit_dim (\<lambda>_. True) [?e] () True = Some (st', (), r)"
      "lands D unit_dim root 0 st' ()"
    using dim_laws.forward_from[OF unit_dim_laws wf _ e, of "\<lambda>_. True"] by auto
  have "\<forall>e\<in>set [?e]. st_wf D V (se_tree e)" using wf(1) by simp
  then have "iter_loop [(root, 0)] True = Some (map iter_entry st', top_item st')"
    using iter_loop_forward[OF run(1) refl] by (simp add: iter_entry_def)
  then show thesis using run(2) lands_top_item[OF run(2) wf(1)]
    by (intro that[of "\<lparr>it_tree = root, it_stack = map iter_entry st'\<rparr>"])
       (auto simp: iter_next_def iter_new_def iter_at_def stack_push_def MAX_DEPTH_def)
qed

lemma iter_collect_at:
  assumes wf: "st_wf D V root" "node_height root < MAX_DEPTH"
  shows "iter_at D root k it \<Longrightarrow> iter_collect it = Some (drop (Suc k) (to_list root))"
proof (induction "length (to_list root) - k" arbitrary: k it)
  case 0
  then show ?case by (simp add: iter_at_def)
next
  case (Suc l)
  obtain it' where it': "iter_next it = Some (it', vec_get (to_list root) (Suc k))"
    "Suc k < length (to_list root) \<longrightarrow> iter_at D root (Suc k) it'"
    using wf Suc.prems by (rule iter_next_at)
  show ?case
  proof (cases "Suc k < length (to_list root)")
    case True
    then have "iter_collect it' = Some (drop (Suc (Suc k)) (to_list root))"
      using Suc.hyps it'(2) by (intro Suc.hyps(1)) auto
    with it'(1) True show ?thesis by (subst iter_collect.simps) (simp add: vec_get_def Cons_nth_drop_Suc)
  next
    case False
    with it'(1) show ?thesis by (subst iter_collect.simps) (simp add: vec_get_def)
  qed
qed

lemma iter_collect_new:
  assumes wf: "st_wf D V root" "node_height root < MAX_DEPTH"
  shows "iter_collect (iter_new root) = Some (to_list root)"
proof -
  obtain it' where it': "iter_next (iter_new root) = Some (it', vec_get (to_list root) 0)"
    "0 < length (to_list root) \<longrightarrow> iter_at D root 0 it'"
    using wf by (rule iter_next_new)
  show ?thesis
  proof (cases "to_list root = []")
    case True
    with it'(1) show ?thesis by (subst iter_collect.simps) (simp add: vec_get_def)
  next
    case False
    then have "iter_collect it' = Some (drop (Suc 0) (to_list root))" using it'(2) iter_collect_at[OF wf] by simp
    with it'(1) False show ?thesis
      by (subst iter_collect.simps) (simp add: vec_get_def hd_conv_nth[symmetric] drop_Suc)
  qed
qed

end

end
