(* ===== verification/TreeMap_Correct.thy ===== *)
theory TreeMap_Correct
  imports Iteration
begin

section \<open>Tree maps implement finite maps\<close>

text \<open>
  A map is well formed when its tree is and its keys are strictly increasing. Its meaning is the
  partial function from keys to values; every operation is shown to implement the corresponding
  operation on partial functions, to keep the map well formed and not to panic while the tree is
  lower than the capacity of a cursor's stack.
\<close>

interpretation tm: keyed map_ops "\<lambda>s. s \<noteq> None" map_dim entry_key
  by unfold_locales (auto simp: map_ops_def map_dim_def entry_key_def)

definition tm_wf :: "('k::linorder, 'v) tree_map \<Rightarrow> bool" where
  "tm_wf t \<longleftrightarrow> st_wf map_ops (\<lambda>s. s \<noteq> None) t \<and> keys_sorted entry_key (to_list t)"

definition tm_fits :: "('k::linorder, 'v) tree_map \<Rightarrow> bool" where
  "tm_fits t \<longleftrightarrow> node_height t < MAX_DEPTH"

definition entries_map :: "('k, 'v) map_entry list \<Rightarrow> 'k \<rightharpoonup> 'v" where
  "entries_map xs k = map_option me_value (find (\<lambda>e. me_key e = k) xs)"

definition tm_map :: "('k, 'v) tree_map \<Rightarrow> 'k \<rightharpoonup> 'v" where
  "tm_map t = entries_map (to_list t)"

lemma map_ops_simps [simp]:
  "item_summary map_ops e = Some (me_key e)" "entry_key e = Some (me_key e)"
  "dim_zero map_dim = None" "dim_add map_dim d s = s"
  by (simp_all add: map_ops_def map_dim_def entry_key_def)

subsection \<open>Lists of entries as maps\<close>

lemma entries_map_Nil [simp]: "entries_map [] = Map.empty"
  by (auto simp: entries_map_def)

lemma entries_map_Cons [simp]: "entries_map (x # xs) k = (if me_key x = k then Some (me_value x) else entries_map xs k)"
  by (simp add: entries_map_def)

lemma entries_map_append: "entries_map (xs @ ys) = entries_map ys ++ entries_map xs"
  by (induction xs) (auto simp: map_add_def fun_eq_iff split: option.splits)

lemma entries_map_None: "entries_map xs k = None \<longleftrightarrow> (\<forall>x\<in>set xs. me_key x \<noteq> k)"
  by (auto simp: entries_map_def find_None_iff)

lemma entries_map_filter: "entries_map (filter (\<lambda>y. entry_key y \<noteq> Some j) xs) k = (if k = j then None else entries_map xs k)"
  by (induction xs) auto

lemma entries_map_insert:
  assumes "keys_sorted entry_key xs"
  shows "entries_map (ks_insert entry_key x xs) = (entries_map xs)(me_key x \<mapsto> me_value x)"
proof
  fix k
  let ?A = "takeWhile (\<lambda>y. entry_key y < entry_key x) xs" and ?B = "dropWhile (\<lambda>y. entry_key y \<le> entry_key x) xs"
  have none: "entries_map ?A (me_key x) = None" by (auto simp: entries_map_None dest!: set_takeWhileD)
  have AB: "filter (\<lambda>y. entry_key y \<noteq> Some (me_key x)) xs = ?A @ ?B"
    using keys_split(3)[OF assms, of "entry_key x"] by simp
  have "entries_map (?A @ ?B) k = (if k = me_key x then None else entries_map xs k)"
    unfolding AB[symmetric] by (rule entries_map_filter)
  with none show "entries_map (ks_insert entry_key x xs) k = ((entries_map xs)(me_key x \<mapsto> me_value x)) k"
    by (auto simp: ks_insert_def entries_map_append map_add_def split: option.splits if_splits)
qed

lemma entries_map_remove: "entries_map (ks_remove entry_key (Some j) xs) = (entries_map xs)(j := None)"
  unfolding ks_remove_def by (rule ext) (simp only: entries_map_filter fun_upd_apply)

lemma find_entry_key: "find (\<lambda>y. entry_key y = Some k) xs = find (\<lambda>y. me_key y = k) xs"
  by (simp add: entry_key_def)

subsection \<open>Lookup\<close>

lemma seek_index_takeWhile:
  assumes "keys_sorted entry_key xs"
  shows "seek_index map_dim (target_in (cmp (Some k)) Left) None (map (item_summary map_ops) xs) =
         length (takeWhile (\<lambda>y. entry_key y < Some k) xs)"
proof -
  have "ends map_dim None (map (item_summary map_ops) xs) = map entry_key xs"
    using tm.ends_keys[OF assms, of None] by simp
  then show ?thesis
    by (simp only: seek_index_def takeWhile_map length_map comp_def tm.target_in_Left not_le)
qed

lemma tm_get_map:
  assumes "tm_wf t"
  shows "tm_get t k = tm_map t k"
proof (cases "to_list t = []")
  case True
  then have t: "t = Leaf None [] []"
    using assms by (cases t) (auto simp: tm_wf_def neq_Nil_conv sum_summaries_def map_ops_def)
  then show ?thesis using True
    by (simp add: t tm_get_def st_find_def st_find_gen_def tm_map_def Let_def)
next
  case False
  have wf: "st_wf map_ops (\<lambda>s. s \<noteq> None) t" and s: "keys_sorted entry_key (to_list t)"
    using assms by (auto simp: tm_wf_def)
  let ?xs = "to_list t"
  let ?T = "takeWhile (\<lambda>y. entry_key y < Some k) ?xs"
  have item: "snd (snd (st_find map_dim t (cmp (Some k)) Left)) = vec_get ?xs (length ?T)"
    using tm.st_find_index[OF wf False, of "cmp (Some k)" Left] tm.key_mono(1)[OF s, of "Some k" Left]
      seek_index_takeWhile[OF s, of k] by (simp add: Let_def del: map_ops_simps(1,2))
  have "tm_get t k = (case snd (snd (st_find map_dim t (cmp (Some k)) Left)) of
      Some item \<Rightarrow> (if Some k = entry_key item then Some (me_value item) else None) | None \<Rightarrow> None)"
    by (auto simp: tm_get_def split: prod.splits option.splits)
  then have get: "tm_get t k = (case vec_get ?xs (length ?T) of
      Some item \<Rightarrow> (if Some k = entry_key item then Some (me_value item) else None) | None \<Rightarrow> None)"
    unfolding item .
  have d: "drop (length ?T) ?xs = (case find (\<lambda>y. entry_key y = Some k) ?xs of None \<Rightarrow> [] | Some x \<Rightarrow> [x]) @
      dropWhile (\<lambda>y. entry_key y \<le> Some k) ?xs"
    using keys_split(1)[OF s, of "Some k"] by (simp add: dropWhile_eq_drop)
  show ?thesis
  proof (cases "find (\<lambda>y. entry_key y = Some k) ?xs")
    case (Some x)
    then have v: "vec_get ?xs (length ?T) = Some x" using d drop_eq_Cons[of "length ?T" ?xs x] by simp
    have "entry_key x = Some k" using find_Some_prop[OF Some] .
    then show ?thesis unfolding get v using Some by (simp add: tm_map_def entries_map_def)
  next
    case None
    have "entry_key y \<noteq> Some k" if "vec_get ?xs (length ?T) = Some y" for y
    proof -
      have "y \<in> set (drop (length ?T) ?xs)"
        using that by (auto simp: hd_drop_conv_nth[symmetric] intro!: hd_in_set)
      with None d keys_split(2)[OF s, of "Some k"] show ?thesis by auto
    qed
    then have "tm_get t k = None" unfolding get by (auto simp del: vec_get_Some split: option.splits)
    with None show ?thesis by (simp add: tm_map_def entries_map_def)
  qed
qed

subsection \<open>Updates\<close>

lemma tm_insert_or_replace_map:
  assumes "tm_wf t" "tm_fits t"
  obtains t' where "tm_insert_or_replace t k v = Some (t', tm_map t k)" "tm_insert t k v = Some t'"
    "tm_wf t'" "tm_map t' = (tm_map t)(k \<mapsto> v)"
proof -
  have wf: "st_wf map_ops (\<lambda>s. s \<noteq> None) t" "node_height t < MAX_DEPTH" "keys_sorted entry_key (to_list t)"
    using assms by (auto simp: tm_wf_def tm_fits_def)
  let ?e = "\<lparr>me_key = k, me_value = v\<rparr>"
  obtain t' where t': "keyed_insert_or_replace map_ops map_dim entry_key t ?e =
      Some (t', find (\<lambda>y. entry_key y = entry_key ?e) (to_list t))"
      "st_wf map_ops (\<lambda>s. s \<noteq> None) t'" "to_list t' = ks_insert entry_key ?e (to_list t)"
    by (rule tm.keyed_insert_seq[OF wf, of ?e]) auto
  moreover have "tm_wf t'" using t' wf(3) by (simp add: tm_wf_def ks_insert_sorted)
  moreover have "tm_map t' = (tm_map t)(k \<mapsto> v)"
    using t'(3) entries_map_insert[OF wf(3), of ?e] by (simp add: tm_map_def)
  ultimately show thesis
    by (intro that[of t']) (auto simp: tm_insert_or_replace_def tm_insert_def tm_map_def entries_map_def)
qed

lemma cmp_end_Equal:
  assumes "tm_wf t" "cursor_at map_ops map_dim t (length (takeWhile (\<lambda>y. entry_key y < Some k) (to_list t))) c"
  obtains e where "cursor_end map_dim c = Some e"
    "cmp (Some k) e = Equal \<longleftrightarrow> (\<exists>x. vec_get (to_list t) (length (takeWhile (\<lambda>y. entry_key y < Some k) (to_list t))) = Some x \<and> entry_key x = Some k)"
proof -
  let ?xs = "to_list t" and ?T = "takeWhile (\<lambda>y. entry_key y < Some k) (to_list t)"
  have wf: "st_wf map_ops (\<lambda>s. s \<noteq> None) t" and s: "keys_sorted entry_key ?xs"
    using assms by (auto simp: tm_wf_def)
  have le: "length ?T \<le> length ?xs" by (rule length_takeWhile_le)
  have e: "cursor_end map_dim c = Some (item_pos map_ops map_dim t (min (Suc (length ?T)) (length ?xs)))"
    using cursor_at_reads(4)[OF assms(2) wf] .
  show thesis
  proof (cases "length ?T < length ?xs")
    case True
    then have "item_pos map_ops map_dim t (min (Suc (length ?T)) (length ?xs)) = entry_key (?xs ! length ?T)"
      using tm.item_pos_key[OF s True] by (simp add: min_absorb1)
    then show thesis using True by (intro that[OF e]) auto
  next
    case False
    then have all: "length ?T = length ?xs" using le by simp
    then have "?T = ?xs" by (metis takeWhile_eq_take take_all order_refl)
    then have less: "\<forall>y\<in>set ?xs. entry_key y < Some k" by (metis (mono_tags, lifting) set_takeWhileD)
    have "item_pos map_ops map_dim t (length ?xs) < Some k"
    proof (cases "length ?xs")
      case (Suc i)
      then have "item_pos map_ops map_dim t (Suc i) = entry_key (?xs ! i)" using tm.item_pos_key[OF s] by simp
      then show ?thesis using Suc less by (metis lessI nth_mem)
    qed simp
    then show thesis using False all by (intro that[OF e]) auto
  qed
qed

lemma skip_cases:
  assumes "(case v of Some y \<Rightarrow> (if P y then map_option (\<lambda>c. (c, Some y)) r else Some (c1, None))
            | None \<Rightarrow> Some (c1, None)) = Some (c2, w)"
  shows "case w of None \<Rightarrow> \<not> (\<exists>x. v = Some x \<and> P x) \<and> c2 = c1
         | Some x \<Rightarrow> (\<exists>x. v = Some x \<and> P x) \<and> v = Some x \<and> r = Some c2"
  using assms by (auto split: option.splits if_splits)

text \<open>The cursor moves that \<open>remove\<close> and \<open>update\<close> share.\<close>

lemma tm_locate:
  assumes "tm_wf t" "tm_fits t"
  obtains c1 t1 e c2 j where
    "cursor_slice map_ops map_dim (cmp (Some k)) Left (cursor_new map_dim t) = Some (c1, t1)"
    "st_wf map_ops (\<lambda>s. s \<noteq> None) t1" "to_list t1 = takeWhile (\<lambda>y. entry_key y < Some k) (to_list t)"
    "cursor_end map_dim c1 = Some e" "cursor_at map_ops map_dim t j c2"
    "drop j (to_list t) = dropWhile (\<lambda>y. entry_key y \<le> Some k) (to_list t)"
    "case find (\<lambda>y. entry_key y = Some k) (to_list t) of
       None \<Rightarrow> cmp (Some k) e \<noteq> Equal \<and> c2 = c1
     | Some x \<Rightarrow> cmp (Some k) e = Equal \<and> cursor_item c1 = Some (Some x) \<and> cursor_next map_dim c1 = Some c2"
proof -
  let ?xs = "to_list t" and ?T = "takeWhile (\<lambda>y. entry_key y < Some k) (to_list t)"
  have wf: "st_wf map_ops (\<lambda>s. s \<noteq> None) t" "node_height t < MAX_DEPTH" "keys_sorted entry_key ?xs"
    using assms by (auto simp: tm_wf_def tm_fits_def)
  have z: "\<not> Some k < item_pos map_ops map_dim t 0" by simp
  obtain c1 t1 where 1: "cursor_slice map_ops map_dim (cmp (Some k)) Left (cursor_new map_dim t) = Some (c1, t1)"
      "st_wf map_ops (\<lambda>s. s \<noteq> None) t1" "to_list t1 = takeWhile (\<lambda>y. entry_key y < Some k) (drop 0 ?xs)"
      "cursor_at map_ops map_dim t (0 + length (takeWhile (\<lambda>y. entry_key y < Some k) (drop 0 ?xs))) c1"
    using wf cursor_from_new z by (rule tm.keyed_slice)
  have at: "cursor_at map_ops map_dim t (length ?T) c1" using 1(4) by simp
  have d: "drop (length ?T) ?xs = dropWhile (\<lambda>y. entry_key y < Some k) (drop 0 ?xs)"
    by (simp add: dropWhile_eq_drop)
  obtain c2 j where 2: "(case vec_get ?xs (length ?T) of
        Some y \<Rightarrow> (if entry_key y = Some k then map_option (\<lambda>c. (c, Some y)) (cursor_next map_dim c1) else Some (c1, None))
      | None \<Rightarrow> Some (c1, None)) = Some (c2, find (\<lambda>y. entry_key y = Some k) (drop 0 ?xs))"
      "cursor_at map_ops map_dim t j c2" "drop j ?xs = dropWhile (\<lambda>y. entry_key y \<le> Some k) (drop 0 ?xs)"
    using wf at d by (rule tm.keyed_skip)
  obtain e where e: "cursor_end map_dim c1 = Some e"
      "cmp (Some k) e = Equal \<longleftrightarrow> (\<exists>x. vec_get ?xs (length ?T) = Some x \<and> entry_key x = Some k)"
    using assms(1) at by (rule cmp_end_Equal)
  have item: "cursor_item c1 = Some (vec_get ?xs (length ?T))" using cursor_at_reads(1)[OF at wf(1)] .
  have "case find (\<lambda>y. entry_key y = Some k) ?xs of
       None \<Rightarrow> cmp (Some k) e \<noteq> Equal \<and> c2 = c1
     | Some x \<Rightarrow> cmp (Some k) e = Equal \<and> cursor_item c1 = Some (Some x) \<and> cursor_next map_dim c1 = Some c2"
    unfolding e(2) item using skip_cases[OF 2(1)] by (simp only: drop_0 option.inject)
  then show thesis using 1 2 e by (intro that[of c1 t1 e j c2]) simp_all
qed

lemma tm_remove_map:
  assumes "tm_wf t" "tm_fits t"
  obtains t' where "tm_remove t k = Some (t', tm_map t k)" "tm_wf t'" "tm_map t' = (tm_map t)(k := None)"
proof -
  have wf: "st_wf map_ops (\<lambda>s. s \<noteq> None) t" "node_height t < MAX_DEPTH" and s: "keys_sorted entry_key (to_list t)"
    using assms by (auto simp: tm_wf_def tm_fits_def)
  obtain c1 t1 e c2 j where loc:
    "cursor_slice map_ops map_dim (cmp (Some k)) Left (cursor_new map_dim t) = Some (c1, t1)"
    "st_wf map_ops (\<lambda>s. s \<noteq> None) t1" "to_list t1 = takeWhile (\<lambda>y. entry_key y < Some k) (to_list t)"
    "cursor_end map_dim c1 = Some e" "cursor_at map_ops map_dim t j c2"
    "drop j (to_list t) = dropWhile (\<lambda>y. entry_key y \<le> Some k) (to_list t)"
    "case find (\<lambda>y. entry_key y = Some k) (to_list t) of
       None \<Rightarrow> cmp (Some k) e \<noteq> Equal \<and> c2 = c1
     | Some x \<Rightarrow> cmp (Some k) e = Equal \<and> cursor_item c1 = Some (Some x) \<and> cursor_next map_dim c1 = Some c2"
    using assms by (rule tm_locate)
  obtain c3 u where u: "cursor_suffix map_ops map_dim c2 = Some (c3, u)" "st_wf map_ops (\<lambda>s. s \<noteq> None) u"
      "to_list u = drop j (to_list t)"
    using wf cursor_from_at[OF loc(5)] by (rule tm.cursor_suffix_at)
  obtain t' where t': "st_append map_ops t1 u = Some t'" "st_wf map_ops (\<lambda>s. s \<noteq> None) t'"
      "to_list t' = to_list t1 @ to_list u"
    using loc(2) u(2) by (rule tm.st_append_seq)
  have list: "to_list t' = ks_remove entry_key (Some k) (to_list t)"
    using t'(3) u(3) loc(3,6) keys_split(3)[OF s, of "Some k"] by (simp add: ks_remove_def del: map_ops_simps(2))
  have "tm_remove t k = Some (t', tm_map t k)"
    using loc(1,4,7) u(1) t'(1)
    by (cases "find (\<lambda>y. entry_key y = Some k) (to_list t)")
       (simp_all add: tm_remove_def tm_map_def entries_map_def find_entry_key del: cmp_simps)
  then show thesis using list t'(2) s entries_map_remove[of k "to_list t"]
    by (intro that) (auto simp: tm_wf_def tm_map_def ks_remove_sorted)
qed

lemma tm_update_map:
  assumes "tm_wf t" "tm_fits t"
  obtains t' where "tm_update t k f = Some (t', map_option (\<lambda>v. snd (f v)) (tm_map t k))" "tm_wf t'"
    "tm_map t' = (tm_map t)(k := map_option (\<lambda>v. fst (f v)) (tm_map t k))"
proof -
  have wf: "st_wf map_ops (\<lambda>s. s \<noteq> None) t" "node_height t < MAX_DEPTH" and s: "keys_sorted entry_key (to_list t)"
    using assms by (auto simp: tm_wf_def tm_fits_def)
  obtain c1 t1 e c2 j where loc:
    "cursor_slice map_ops map_dim (cmp (Some k)) Left (cursor_new map_dim t) = Some (c1, t1)"
    "st_wf map_ops (\<lambda>s. s \<noteq> None) t1" "to_list t1 = takeWhile (\<lambda>y. entry_key y < Some k) (to_list t)"
    "cursor_end map_dim c1 = Some e" "cursor_at map_ops map_dim t j c2"
    "drop j (to_list t) = dropWhile (\<lambda>y. entry_key y \<le> Some k) (to_list t)"
    "case find (\<lambda>y. entry_key y = Some k) (to_list t) of
       None \<Rightarrow> cmp (Some k) e \<noteq> Equal \<and> c2 = c1
     | Some x \<Rightarrow> cmp (Some k) e = Equal \<and> cursor_item c1 = Some (Some x) \<and> cursor_next map_dim c1 = Some c2"
    using assms by (rule tm_locate)
  obtain c3 u where u: "cursor_suffix map_ops map_dim c2 = Some (c3, u)" "st_wf map_ops (\<lambda>s. s \<noteq> None) u"
      "to_list u = drop j (to_list t)"
    using wf cursor_from_at[OF loc(5)] by (rule tm.cursor_suffix_at)
  show thesis
  proof (cases "find (\<lambda>y. entry_key y = Some k) (to_list t)")
    case None
    obtain t' where t': "st_append map_ops t1 u = Some t'" "st_wf map_ops (\<lambda>s. s \<noteq> None) t'"
        "to_list t' = to_list t1 @ to_list u"
      using loc(2) u(2) by (rule tm.st_append_seq)
    have "to_list t' = to_list t"
      using t'(3) u(3) loc(3,6) keys_split(1)[OF s, of "Some k"] None by (simp del: map_ops_simps(2) takeWhile_dropWhile_id) (metis append_Nil takeWhile_dropWhile_id)
    moreover have none: "tm_map t k = None" using None by (simp add: tm_map_def entries_map_def)
    moreover have "tm_update t k f = Some (t', None)"
      using loc(1,4,7) u(1) t'(1) None by (simp add: tm_update_def del: cmp_simps)
    ultimately show thesis using assms(1) t'(2) by (intro that[of t']) (auto simp: tm_wf_def tm_map_def)
  next
    case (Some x)
    let ?x = "x\<lparr>me_value := fst (f (me_value x))\<rparr>"
    have kx: "entry_key x = Some k" using find_Some_prop[OF Some] .
    obtain t2 where t2: "st_push map_ops t1 ?x = Some t2" "st_wf map_ops (\<lambda>s. s \<noteq> None) t2" "to_list t2 = to_list t1 @ [?x]"
      by (rule tm.st_push_seq[OF loc(2), of ?x]) auto
    obtain t' where t': "st_append map_ops t2 u = Some t'" "st_wf map_ops (\<lambda>s. s \<noteq> None) t'"
        "to_list t' = to_list t2 @ to_list u"
      using t2(2) u(2) by (rule tm.st_append_seq)
    have list: "to_list t' = ks_insert entry_key ?x (to_list t)"
      using t'(3) t2(3) u(3) loc(3,6) kx by (simp add: ks_insert_def)
    have val: "tm_map t k = Some (me_value x)" using Some by (simp add: tm_map_def entries_map_def)
    have "tm_update t k f = Some (t', Some (snd (f (me_value x))))"
      using loc(1,4,7) u(1) t'(1) t2(1) Some by (simp add: tm_update_def Let_def del: cmp_simps)
    then show thesis using list t'(2) s val kx entries_map_insert[OF s, of ?x]
      by (intro that[of t']) (auto simp: tm_wf_def tm_map_def ks_insert_sorted)
  qed
qed

subsection \<open>Ranges and neighbours\<close>

lemma map_target_cmp: "map_target (cmp a) = cmp (Some a)"
  by (auto simp: map_target_def cmp_def fun_eq_iff split: option.splits)

lemma tm_seek:
  assumes "tm_wf t" "tm_fits t" "c_tree c = t"
  obtains c' r where "cursor_seek map_dim (cmp (Some k)) b c = Some (c', r)"
    "cursor_at map_ops map_dim t (length (takeWhile (\<lambda>y. \<not> target_in (cmp (Some k)) b (entry_key y)) (to_list t))) c'"
proof -
  have wf: "st_wf map_ops (\<lambda>s. s \<noteq> None) t" "node_height t < MAX_DEPTH" and s: "keys_sorted entry_key (to_list t)"
    using assms by (auto simp: tm_wf_def tm_fits_def)
  have "cmp (Some k) (dim_zero map_dim) \<noteq> Less" by simp
  then show thesis
    by (rule tm.cursor_seek_at[OF wf tm.key_mono(1)[OF s] assms(3)], intro that)
       (simp_all add: tm.key_first[OF s] del: map_ops_simps(2))
qed

lemma keys_filter_range:
  assumes "keys_sorted key xs" "a \<le> b"
  shows "takeWhile (\<lambda>y. key y < a) xs @ dropWhile (\<lambda>y. key y < b) xs = filter (\<lambda>y. \<not> (a \<le> key y \<and> key y < b)) xs"
  using assms(1)
proof (induction xs)
  case (Cons x xs)
  have s: "\<forall>y\<in>set xs. key x < key y" using Cons.prems by (simp add: keys_sorted_Cons)
  show ?case
  proof (cases "key x < b")
    case True
    have "takeWhile (\<lambda>y. key y < a) xs = []" if "a \<le> key x"
      using that s by (intro takeWhile_all_less(1)) (auto intro: le_less_trans)
    with True show ?thesis using Cons by (auto simp: keys_sorted_Cons)
  next
    case False
    then have "filter (\<lambda>y. \<not> (a \<le> key y \<and> key y < b)) xs = xs" using s by (intro filter_True) auto
    with False assms(2) show ?thesis by auto
  qed
qed simp

lemma tm_remove_range_map:
  assumes "tm_wf t" "tm_fits t" "a \<le> b"
  obtains t' where "tm_remove_range t (cmp a) (cmp b) = Some t'" "tm_wf t'"
    "tm_map t' = tm_map t |` {k. \<not> (a \<le> k \<and> k < b)}"
proof -
  have wf: "st_wf map_ops (\<lambda>s. s \<noteq> None) t" "node_height t < MAX_DEPTH" and s: "keys_sorted entry_key (to_list t)"
    using assms by (auto simp: tm_wf_def tm_fits_def)
  have z: "\<not> Some a < item_pos map_ops map_dim t 0" by simp
  obtain c1 t1 where 1: "cursor_slice map_ops map_dim (cmp (Some a)) Left (cursor_new map_dim t) = Some (c1, t1)"
      "st_wf map_ops (\<lambda>s. s \<noteq> None) t1" "to_list t1 = takeWhile (\<lambda>y. entry_key y < Some a) (drop 0 (to_list t))"
      "cursor_at map_ops map_dim t (0 + length (takeWhile (\<lambda>y. entry_key y < Some a) (drop 0 (to_list t)))) c1"
    using wf s cursor_from_new z by (rule tm.keyed_slice)
  have "c_tree c1 = t" using 1(4) by (simp add: cursor_at_def)
  with assms(1,2) obtain c2 r where 2: "cursor_seek map_dim (cmp (Some b)) Left c1 = Some (c2, r)"
      "cursor_at map_ops map_dim t (length (takeWhile (\<lambda>y. \<not> target_in (cmp (Some b)) Left (entry_key y)) (to_list t))) c2"
    by (rule tm_seek)
  obtain c3 u where u: "cursor_suffix map_ops map_dim c2 = Some (c3, u)" "st_wf map_ops (\<lambda>s. s \<noteq> None) u"
      "to_list u = drop (length (takeWhile (\<lambda>y. \<not> target_in (cmp (Some b)) Left (entry_key y)) (to_list t))) (to_list t)"
    using wf cursor_from_at[OF 2(2)] by (rule tm.cursor_suffix_at)
  obtain t' where t': "st_append map_ops t1 u = Some t'" "st_wf map_ops (\<lambda>s. s \<noteq> None) t'"
      "to_list t' = to_list t1 @ to_list u"
    using 1(2) u(2) by (rule tm.st_append_seq)
  have "to_list u = dropWhile (\<lambda>y. entry_key y < Some b) (to_list t)"
    using u(3) by (simp only: tm.target_in_Left not_le dropWhile_eq_drop)
  then have list: "to_list t' = filter (\<lambda>y. \<not> (Some a \<le> entry_key y \<and> entry_key y < Some b)) (to_list t)"
    using t'(3) 1(3) keys_filter_range[OF s, of "Some a" "Some b"] assms(3) by (simp del: map_ops_simps(2))
  have "entries_map (filter (\<lambda>y. \<not> (Some a \<le> entry_key y \<and> entry_key y < Some b)) xs) k =
      (entries_map xs |` {k. \<not> (a \<le> k \<and> k < b)}) k" for xs :: "('a, 'b) map_entry list" and k
    by (induction xs) (auto simp: restrict_map_def)
  then have "tm_map t' = tm_map t |` {k. \<not> (a \<le> k \<and> k < b)}" by (simp only: tm_map_def list ext)
  moreover have "tm_wf t'"
    using t'(2) s list by (simp add: tm_wf_def keys_sorted_def sorted_wrt_map sorted_wrt_filter)
  ultimately show thesis using 1(1) 2(1) u(1) t'(1)
    by (intro that[of t']) (simp_all add: tm_remove_range_def map_target_cmp)
qed

lemma tm_closest_entry:
  assumes "tm_wf t" "tm_fits t"
  shows "tm_closest t k = Some (map_option (\<lambda>e. (me_key e, me_value e)) (vec_last (takeWhile (\<lambda>e. me_key e \<le> k) (to_list t))))"
proof -
  have wf: "st_wf map_ops (\<lambda>s. s \<noteq> None) t" "node_height t < MAX_DEPTH" using assms by (auto simp: tm_wf_def tm_fits_def)
  let ?T = "takeWhile (\<lambda>e. me_key e \<le> k) (to_list t)"
  have "c_tree (cursor_new map_dim t) = t" by (simp add: cursor_new_def)
  with assms obtain c r where c: "cursor_seek map_dim (cmp (Some k)) Right (cursor_new map_dim t) = Some (c, r)"
      "cursor_at map_ops map_dim t (length (takeWhile (\<lambda>y. \<not> target_in (cmp (Some k)) Right (entry_key y)) (to_list t))) c"
    by (rule tm_seek)
  then have at: "cursor_at map_ops map_dim t (length ?T) c"
    by (simp add: tm.target_in_Right not_less)
  obtain c' where c': "cursor_prev map_dim c = Some c'"
    "if length ?T = 0 then c_stack c' = [] \<and> did_seek c' \<and> cursor_item c' = Some None
     else cursor_at map_ops map_dim t (length ?T - 1) c'"
    using wf at by (rule tm.cursor_prev_at)
  have "cursor_item c' = Some (vec_last ?T)"
  proof (cases "?T = []")
    case False
    then have "cursor_item c' = Some (vec_get (to_list t) (length ?T - 1))"
      using c'(2) cursor_at_reads(1)[OF _ wf(1)] by auto
    moreover have "length ?T > 0" "length ?T \<le> length (to_list t)" using False by (auto intro: length_takeWhile_le)
    then have "length ?T - 1 < length (to_list t)" by linarith
    moreover have "last ?T = to_list t ! (length ?T - 1)"
      using False takeWhile_nth[of "length ?T - 1" "\<lambda>e. me_key e \<le> k" "to_list t"] by (simp add: last_conv_nth)
    ultimately show ?thesis using False by (simp add: vec_get_def vec_last_def)
  qed (use c'(2) in simp)
  then show ?thesis using c(1) c'(1) by (simp add: tm_closest_def)
qed

lemma tm_iter_from_entries:
  assumes "tm_wf t" "tm_fits t"
  shows "tm_iter_from t k = Some (map (\<lambda>e. (me_key e, me_value e)) (dropWhile (\<lambda>e. me_key e < k) (to_list t)))"
proof -
  have wf: "st_wf map_ops (\<lambda>s. s \<noteq> None) t" "node_height t < MAX_DEPTH" using assms by (auto simp: tm_wf_def tm_fits_def)
  have "c_tree (cursor_new map_dim t) = t" by (simp add: cursor_new_def)
  with assms obtain c r where c: "cursor_seek map_dim (cmp (Some k)) Left (cursor_new map_dim t) = Some (c, r)"
      "cursor_at map_ops map_dim t (length (takeWhile (\<lambda>y. \<not> target_in (cmp (Some k)) Left (entry_key y)) (to_list t))) c"
    by (rule tm_seek)
  then have "cursor_collect map_dim c = Some (dropWhile (\<lambda>e. me_key e < k) (to_list t))"
    using tm.cursor_collect_at[OF wf c(2)] by (simp add: tm.target_in_Left not_le dropWhile_eq_drop)
  then show ?thesis using c(1) by (simp add: tm_iter_from_def)
qed

subsection \<open>Bulk operations\<close>

lemma retain_loop_filter:
  fixes t u :: "('k::linorder, 'v) tree_map"
  assumes wf: "st_wf map_ops (\<lambda>s. s \<noteq> None) t" "node_height t < MAX_DEPTH"
  shows "cursor_at map_ops map_dim t m c \<Longrightarrow> st_wf map_ops (\<lambda>s. s \<noteq> None) u \<Longrightarrow>
    \<exists>u'. retain_loop p c u = Some u' \<and> st_wf map_ops (\<lambda>s. s \<noteq> None) u' \<and>
      to_list u' = to_list u @ filter (\<lambda>e. p (me_key e) (me_value e)) (drop m (to_list t))"
proof (induction "length (to_list t) - m" arbitrary: m c u)
  case 0
  then have "m = length (to_list t)" by (simp add: cursor_at_def lands_def)
  with cursor_at_reads(1)[OF 0(2) wf(1)] 0 show ?case
    by (subst retain_loop.simps) (simp add: vec_get_def)
next
  case (Suc l)
  let ?x = "to_list t ! m"
  have m: "m < length (to_list t)" using Suc.hyps(2) by simp
  obtain c' where c': "cursor_next map_dim c = Some c'" "cursor_at map_ops map_dim t (min (Suc m) (length (to_list t))) c'"
    using wf Suc.prems(1) by (rule tm.cursor_next_at)
  obtain r where r: "st_push map_ops u ?x = Some r" "st_wf map_ops (\<lambda>s. s \<noteq> None) r" "to_list r = to_list u @ [?x]"
    by (rule tm.st_push_seq[OF Suc.prems(2), of ?x]) auto
  define u1 where "u1 = (if p (me_key ?x) (me_value ?x) then r else u)"
  have u1: "(if p (me_key ?x) (me_value ?x) then st_push map_ops u ?x else Some u) = Some u1"
      "st_wf map_ops (\<lambda>s. s \<noteq> None) u1" "to_list u1 = to_list u @ (if p (me_key ?x) (me_value ?x) then [?x] else [])"
    using r Suc.prems(2) by (auto simp: u1_def)
  have "cursor_at map_ops map_dim t (Suc m) c'" using c'(2) m by (simp add: min_absorb1)
  from Suc.hyps(1)[OF _ this u1(2)] Suc.hyps(2) u1(3) have
    "\<exists>u'. retain_loop p c' u1 = Some u' \<and> st_wf map_ops (\<lambda>s. s \<noteq> None) u' \<and>
      to_list u' = to_list u @ filter (\<lambda>e. p (me_key e) (me_value e)) (drop m (to_list t))"
    using m by (auto simp: Cons_nth_drop_Suc[symmetric])
  with u1(1) c'(1) cursor_at_reads(1)[OF Suc.prems(1) wf(1)] m show ?case
    by (subst retain_loop.simps) (simp add: vec_get_def)
qed

lemma tm_retain_map:
  assumes "tm_wf t" "tm_fits t"
  obtains t' where "tm_retain t p = Some t'" "tm_wf t'"
    "tm_map t' = (\<lambda>k. case tm_map t k of Some v \<Rightarrow> if p k v then Some v else None | None \<Rightarrow> None)"
proof -
  have wf: "st_wf map_ops (\<lambda>s. s \<noteq> None) t" "node_height t < MAX_DEPTH" and s: "keys_sorted entry_key (to_list t)"
    using assms by (auto simp: tm_wf_def tm_fits_def)
  have "first_from (item_hit map_ops (\<lambda>_. True) t) n 0 = 0" for n
    by (simp add: first_from.simps[of _ n 0] item_hit_def)
  then obtain c where c: "cursor_next map_dim (cursor_new map_dim t) = Some c" "cursor_at map_ops map_dim t 0 c"
    using tm.search_forward_start[OF wf, of "\<lambda>_. True" "cursor_new map_dim t"] st_is_empty_iff[OF wf(1)]
    by (auto simp: filter_sound_def cursor_next_def cursor_new_def)
  obtain t' where t': "retain_loop p c (st_new map_ops) = Some t'" "st_wf map_ops (\<lambda>s. s \<noteq> None) t'"
      "to_list t' = filter (\<lambda>e. p (me_key e) (me_value e)) (to_list t)"
    using retain_loop_filter[OF wf c(2), of "st_new map_ops" p] by auto
  have "entries_map (filter (\<lambda>e. p (me_key e) (me_value e)) xs) k =
      (case entries_map xs k of Some v \<Rightarrow> if p k v then Some v else None | None \<Rightarrow> None)"
    if "keys_sorted entry_key xs" for xs k
    using that
  proof (induction xs)
    case (Cons x xs)
    have "entries_map xs (me_key x) = None" using Cons.prems by (auto simp: keys_sorted_Cons entries_map_None)
    with Cons show ?case by (auto simp: keys_sorted_Cons)
  qed simp
  then have "tm_map t' = (\<lambda>k. case tm_map t k of Some v \<Rightarrow> if p k v then Some v else None | None \<Rightarrow> None)"
    using s by (auto simp: tm_map_def t'(3))
  moreover have "tm_wf t'" using t'(2,3) s by (simp add: tm_wf_def keys_sorted_def sorted_wrt_map sorted_wrt_filter)
  ultimately show thesis using c(1) t'(1) by (intro that) (auto simp: tm_retain_def)
qed

lemma ks_edit_Insert: "ks_edit key (Insert x) xs = ks_insert key x xs"
  by (simp add: ks_edit_def)

lemma entries_map_inserts:
  "keys_sorted entry_key xs \<Longrightarrow> distinct (map me_key es) \<Longrightarrow>
   keys_sorted entry_key (foldl (\<lambda>xs e. ks_edit entry_key e xs) xs (map Insert es)) \<and>
   entries_map (foldl (\<lambda>xs e. ks_edit entry_key e xs) xs (map Insert es)) = entries_map xs ++ entries_map es"
proof (induction es arbitrary: xs)
  case (Cons e es)
  let ?ys = "ks_insert entry_key e xs"
  have none: "entries_map es (me_key e) = None" using Cons.prems(2) by (auto simp: entries_map_None image_iff)
  have "entries_map ?ys ++ entries_map es = entries_map xs ++ entries_map (e # es)"
    using none unfolding entries_map_insert[OF Cons.prems(1)] by (auto simp: map_add_def fun_eq_iff split: option.splits)
  moreover have "distinct (map me_key es)" using Cons.prems(2) by simp
  ultimately show ?case using Cons.IH[OF ks_insert_sorted[OF Cons.prems(1), of e]]
    by (simp only: list.map foldl.simps ks_edit_Insert)
qed simp

lemma entries_map_sort:
  fixes es :: "('k, 'v) map_entry list"
  assumes d: "distinct (map me_key es)"
  shows "entries_map (sort_key f es) = entries_map es"
proof
  fix k
  have *: "entries_map xs k = Some v \<longleftrightarrow> (\<exists>e\<in>set xs. me_key e = k \<and> me_value e = v)" if "distinct (map me_key xs)"
    for xs :: "('k, 'v) map_entry list" and v
    using that by (induction xs) (auto, (metis image_eqI)+)
  have "distinct (map me_key (sort_key f es))" using d by (simp add: distinct_map)
  from *[OF this] *[OF d] have "entries_map (sort_key f es) k = Some v \<longleftrightarrow> entries_map es k = Some v" for v by simp
  then show "entries_map (sort_key f es) k = entries_map es k" by (metis not_None_eq)
qed

lemma tm_edit_inserts:
  assumes "tm_wf t" "tm_fits t" "distinct (map me_key es)"
  obtains t' r where "keyed_edit map_ops map_dim entry_key t (map Insert es) = Some (t', r)" "tm_wf t'"
    "tm_map t' = tm_map t ++ entries_map es"
proof -
  have wf: "st_wf map_ops (\<lambda>s. s \<noteq> None) t" "node_height t < MAX_DEPTH" and s: "keys_sorted entry_key (to_list t)"
    using assms by (auto simp: tm_wf_def tm_fits_def)
  have "map (edit_key entry_key) (map Insert es) = map Some (map me_key es)"
    by (simp add: edit_key_Insert entry_key_def)
  then have d: "distinct (map (edit_key entry_key) (map Insert es))" using assms(3) by (simp only: distinct_map inj_Some)
  obtain t' where t': "keyed_edit map_ops map_dim entry_key t (map Insert es) =
      Some (t', filter (\<lambda>y. entry_key y \<in> edit_key entry_key ` set (map Insert es)) (to_list t))"
    "st_wf map_ops (\<lambda>s. s \<noteq> None) t'"
    "to_list t' = foldl (\<lambda>xs e. ks_edit entry_key e xs) (to_list t) (sort_key (edit_key entry_key) (map Insert es))"
    by (rule tm.keyed_edit_seq[OF wf s d]) auto
  have "distinct (map me_key (sort_key entry_key es))" using assms(3) by (simp add: distinct_map)
  from entries_map_inserts[OF s this] t'(2,3) entries_map_sort[OF assms(3), of entry_key] show thesis
    by (intro that[OF t'(1)]) (simp_all add: tm_wf_def tm_map_def sort_Inserts)
qed

lemma tm_iter_entries:
  assumes "tm_wf t" "tm_fits t"
  shows "tm_iter t = Some (map (\<lambda>e. (me_key e, me_value e)) (to_list t))"
  using assms tm.iter_collect_new[of t] by (simp add: tm_iter_def tm_wf_def tm_fits_def)

lemma entries_map_of: "entries_map xs = map_of (map (\<lambda>e. (me_key e, me_value e)) xs)"
  by (induction xs) (auto simp: fun_eq_iff)

lemma tm_keys_distinct:
  assumes "tm_wf t"
  shows "distinct (map me_key (to_list t))" "sorted (map me_key (to_list t))"
proof -
  have "sorted_wrt (<) (map me_key (to_list t))"
    using assms by (simp add: tm_wf_def keys_sorted_def sorted_wrt_map)
  then show "distinct (map me_key (to_list t))" "sorted (map me_key (to_list t))"
    by (auto simp: strict_sorted_iff)
qed

subsection \<open>The interface of an ordered map\<close>

text \<open>
  What the users of a map rely on: lookups see the abstract map, and the two updates change it at
  one key only.
\<close>

locale map_impl =
  fixes inv :: "'m \<Rightarrow> bool" and fits :: "'m \<Rightarrow> bool" and \<alpha> :: "'m \<Rightarrow> 'k \<rightharpoonup> 'v"
    and get :: "'m \<Rightarrow> 'k \<Rightarrow> 'v option" and ins :: "'m \<Rightarrow> 'k \<Rightarrow> 'v \<Rightarrow> 'm option" and rem :: "'m \<Rightarrow> 'k \<Rightarrow> 'm option"
  assumes get_abs: "inv m \<Longrightarrow> get m k = \<alpha> m k"
    and ins_abs: "inv m \<Longrightarrow> fits m \<Longrightarrow> \<exists>m'. ins m k v = Some m' \<and> inv m' \<and> \<alpha> m' = (\<alpha> m)(k \<mapsto> v)"
    and rem_abs: "inv m \<Longrightarrow> fits m \<Longrightarrow> \<exists>m'. rem m k = Some m' \<and> inv m' \<and> \<alpha> m' = (\<alpha> m)(k := None)"
begin

lemma get_ins:
  assumes "inv m" "fits m"
  shows "\<exists>m'. ins m k v = Some m' \<and> inv m' \<and> (\<forall>j. get m' j = (if j = k then Some v else get m j))"
  using ins_abs[OF assms, of k v] get_abs assms(1) by auto

lemma get_rem:
  assumes "inv m" "fits m"
  shows "\<exists>m'. rem m k = Some m' \<and> inv m' \<and> (\<forall>j. get m' j = (if j = k then None else get m j))"
  using rem_abs[OF assms, of k] get_abs assms(1) by auto

text \<open>Removing what was just inserted restores the map.\<close>

lemma rem_ins:
  assumes "inv m" "fits m" "get m k = None" "ins m k v = Some m1" "fits m1"
  shows "\<exists>m2. rem m1 k = Some m2 \<and> inv m2 \<and> \<alpha> m2 = \<alpha> m"
proof -
  have m1: "inv m1" "\<alpha> m1 = (\<alpha> m)(k \<mapsto> v)" using ins_abs[OF assms(1,2), of k v] assms(4) by auto
  then show ?thesis using rem_abs[OF m1(1) assms(5), of k] get_abs[OF assms(1), of k] assms(3)
    by (auto simp: fun_upd_idem)
qed

end

interpretation tmi: map_impl tm_wf tm_fits tm_map tm_get tm_insert "\<lambda>t k. map_option fst (tm_remove t k)"
proof unfold_locales
  fix t :: "('a::linorder, 'b) tree_map" and k v
  show "tm_wf t \<Longrightarrow> tm_get t k = tm_map t k" by (rule tm_get_map)
  show "\<exists>t'. tm_insert t k v = Some t' \<and> tm_wf t' \<and> tm_map t' = (tm_map t)(k \<mapsto> v)" if "tm_wf t" "tm_fits t"
    using that by (rule tm_insert_or_replace_map) blast
  show "\<exists>t'. map_option fst (tm_remove t k) = Some t' \<and> tm_wf t' \<and> tm_map t' = (tm_map t)(k := None)"
    if "tm_wf t" "tm_fits t"
    using that by (rule tm_remove_map) auto
qed

end
