(* ===== verification/TreeMap_Props.thy ===== *)
theory TreeMap_Props
  imports TreeMap_Correct
begin

section \<open>What ordered maps and sets promise\<close>

text \<open>
  The properties of \<open>TreeMap\<close> and \<open>TreeSet\<close> in terms of the operations only, with a small map to
  instantiate them.
\<close>

definition demo_map :: "(nat, nat) tree_map" where
  "demo_map = tm_from_ordered_entries [(1, 10), (3, 30), (5, 50)]"

lemma demo_map_list: "to_list demo_map = [\<lparr>me_key = 1, me_value = 10\<rparr>, \<lparr>me_key = 3, me_value = 30\<rparr>, \<lparr>me_key = 5, me_value = 50\<rparr>]"
  by (simp add: demo_map_def tm_from_ordered_entries_def tm.from_iter_seq(2))

lemma demo_map_ok: "tm_wf demo_map" "tm_fits demo_map"
proof -
  show "tm_wf demo_map"
    unfolding tm_wf_def demo_map_list
    using tm.from_iter_seq(1) by (simp add: demo_map_def tm_from_ordered_entries_def keys_sorted_def entry_key_def del: not_None_eq)
  show "tm_fits demo_map" unfolding tm_fits_def demo_map_def by code_simp
qed

text \<open>
  C23: Inserting into a well-formed map never panics (while the tree fits a cursor's stack), keeps
  the map well formed and changes the lookup at the inserted key only; the replaced value is
  returned.
\<close>

theorem tree_map_insert:
  assumes "tm_wf t" "tm_fits t"
  shows "\<exists>t'. tm_insert t k v = Some t' \<and> tm_insert_or_replace t k v = Some (t', tm_get t k) \<and>
           tm_wf t' \<and> (\<forall>j. tm_get t' j = (if j = k then Some v else tm_get t j))"
proof -
  obtain t' where "tm_insert_or_replace t k v = Some (t', tm_map t k)" "tm_insert t k v = Some t'"
    using assms by (rule tm_insert_or_replace_map)
  with tmi.get_ins[OF assms, of k v] tm_get_map[OF assms(1)] show ?thesis by auto
qed

lemma tree_map_insert_witness:
  "\<exists>t'. tm_insert demo_map 3 31 = Some t' \<and> tm_get t' 3 = Some 31 \<and> tm_get t' 5 = Some 50"
  using tree_map_insert[OF demo_map_ok, of 3 31] tm_get_map[OF demo_map_ok(1), of 5]
  by (auto simp: tm_map_def demo_map_list)

text \<open>
  Removing a key returns its value and forgets exactly that key; removing a freshly inserted
  key restores the map. Updating in place applies the function at that key only.
\<close>

theorem tree_map_remove_update:
  assumes "tm_wf t" "tm_fits t"
  shows "(\<exists>t'. tm_remove t k = Some (t', tm_get t k) \<and> tm_wf t' \<and>
           (\<forall>j. tm_get t' j = (if j = k then None else tm_get t j))) \<and>
    (\<exists>t'. tm_update t k f = Some (t', map_option (\<lambda>v. snd (f v)) (tm_get t k)) \<and> tm_wf t' \<and>
           (\<forall>j. tm_get t' j = (if j = k then map_option (\<lambda>v. fst (f v)) (tm_get t k) else tm_get t j))) \<and>
    (tm_get t k = None \<and> tm_insert t k v = Some t1 \<and> tm_fits t1 \<longrightarrow>
       (\<exists>t2. map_option fst (tm_remove t1 k) = Some t2 \<and> tm_wf t2 \<and> (\<forall>j. tm_get t2 j = tm_get t j)))"
proof (intro conjI impI)
  obtain t' where "tm_remove t k = Some (t', tm_map t k)" "tm_wf t'" "tm_map t' = (tm_map t)(k := None)"
    using assms by (rule tm_remove_map)
  then show "\<exists>t'. tm_remove t k = Some (t', tm_get t k) \<and> tm_wf t' \<and>
           (\<forall>j. tm_get t' j = (if j = k then None else tm_get t j))"
    by (auto simp: tm_get_map assms(1))
  obtain u where "tm_update t k f = Some (u, map_option (\<lambda>v. snd (f v)) (tm_map t k))" "tm_wf u"
      "tm_map u = (tm_map t)(k := map_option (\<lambda>v. fst (f v)) (tm_map t k))"
    using assms by (rule tm_update_map)
  then show "\<exists>t'. tm_update t k f = Some (t', map_option (\<lambda>v. snd (f v)) (tm_get t k)) \<and> tm_wf t' \<and>
           (\<forall>j. tm_get t' j = (if j = k then map_option (\<lambda>v. fst (f v)) (tm_get t k) else tm_get t j))"
    by (auto simp: tm_get_map assms(1))
  show "\<exists>t2. map_option fst (tm_remove t1 k) = Some t2 \<and> tm_wf t2 \<and> (\<forall>j. tm_get t2 j = tm_get t j)"
    if "tm_get t k = None \<and> tm_insert t k v = Some t1 \<and> tm_fits t1"
    using tmi.rem_ins[OF assms, of k v t1] that tm_get_map assms(1) by metis
qed

lemma tree_map_remove_update_witness:
  "(\<exists>t'. tm_remove demo_map 3 = Some (t', Some 30) \<and> tm_get t' 3 = None \<and> tm_get t' 1 = Some 10) \<and>
   (\<exists>t1 t2. tm_insert demo_map 4 40 = Some t1 \<and> map_option fst (tm_remove t1 4) = Some t2 \<and>
      (\<forall>j. tm_get t2 j = tm_get demo_map j))"
proof
  show "\<exists>t'. tm_remove demo_map 3 = Some (t', Some 30) \<and> tm_get t' 3 = None \<and> tm_get t' 1 = Some 10"
    using tree_map_remove_update[OF demo_map_ok, of 3, THEN conjunct1] tm_get_map[OF demo_map_ok(1)]
    by (auto simp: tm_map_def demo_map_list)
  have "map_option (\<lambda>t. node_height t < MAX_DEPTH) (tm_insert demo_map 4 40) = Some True" by code_simp
  then obtain t1 where t1: "tm_insert demo_map 4 40 = Some t1" "tm_fits t1" by (auto simp: tm_fits_def)
  show "\<exists>t1 t2. tm_insert demo_map 4 40 = Some t1 \<and> map_option fst (tm_remove t1 4) = Some t2 \<and>
      (\<forall>j. tm_get t2 j = tm_get demo_map j)"
    using tree_map_remove_update[OF demo_map_ok, of 4 "\<lambda>v. (v, ())" 40 t1] t1 tm_get_map[OF demo_map_ok(1), of 4]
    by (auto simp: tm_map_def demo_map_list)
qed

text \<open>
  C0: \<open>remove_range\<close> forgets exactly the keys of the half-open range and \<open>retain\<close> exactly the
  entries that fail the predicate.
\<close>

theorem tree_map_ranges:
  assumes "tm_wf t" "tm_fits t" "a \<le> b"
  shows "(\<exists>t'. tm_remove_range t (cmp a) (cmp b) = Some t' \<and> tm_wf t' \<and>
           (\<forall>k. tm_get t' k = (if a \<le> k \<and> k < b then None else tm_get t k))) \<and>
    (\<exists>t'. tm_retain t p = Some t' \<and> tm_wf t' \<and>
           (\<forall>k. tm_get t' k = (case tm_get t k of Some v \<Rightarrow> if p k v then Some v else None | None \<Rightarrow> None)))"
proof (intro conjI)
  obtain t' where "tm_remove_range t (cmp a) (cmp b) = Some t'" "tm_wf t'"
      "tm_map t' = tm_map t |` {k. \<not> (a \<le> k \<and> k < b)}"
    using assms by (rule tm_remove_range_map)
  then show "\<exists>t'. tm_remove_range t (cmp a) (cmp b) = Some t' \<and> tm_wf t' \<and>
           (\<forall>k. tm_get t' k = (if a \<le> k \<and> k < b then None else tm_get t k))"
    by (auto simp: tm_get_map assms(1) restrict_map_def)
  obtain u where "tm_retain t p = Some u" "tm_wf u"
      "tm_map u = (\<lambda>k. case tm_map t k of Some v \<Rightarrow> if p k v then Some v else None | None \<Rightarrow> None)"
    using assms(1,2) by (rule tm_retain_map)
  then show "\<exists>t'. tm_retain t p = Some t' \<and> tm_wf t' \<and>
           (\<forall>k. tm_get t' k = (case tm_get t k of Some v \<Rightarrow> if p k v then Some v else None | None \<Rightarrow> None))"
    by (auto simp: tm_get_map assms(1))
qed

lemma tree_map_ranges_witness:
  "\<exists>t'. tm_remove_range demo_map (cmp 2) (cmp 5) = Some t' \<and> tm_get t' 3 = None \<and> tm_get t' 5 = Some 50"
  using tree_map_ranges[OF demo_map_ok, of 2 5, THEN conjunct1] tm_get_map[OF demo_map_ok(1), of 5]
  by (auto simp: tm_map_def demo_map_list)

lemma map_entry_eta [simp]: "\<lparr>me_key = me_key e, me_value = me_value e\<rparr> = e"
  by (cases e) simp

lemma tm_get_mem:
  assumes "tm_wf t"
  shows "tm_get t j = Some v \<longleftrightarrow> \<lparr>me_key = j, me_value = v\<rparr> \<in> set (to_list t)"
proof -
  have "tm_get t j = Some v \<longleftrightarrow> (j, v) \<in> set (map (\<lambda>e. (me_key e, me_value e)) (to_list t))"
    using tm_keys_distinct(1)[OF assms]
    by (simp add: tm_get_map[OF assms] tm_map_def entries_map_of map_of_eq_Some_iff comp_def)
  also have "\<dots> \<longleftrightarrow> \<lparr>me_key = j, me_value = v\<rparr> \<in> set (to_list t)"
    by (auto simp: image_iff) (metis map_entry.select_convs)
  finally show ?thesis .
qed

lemma tm_get_present:
  assumes "tm_wf t"
  shows "tm_get t j \<noteq> None \<longleftrightarrow> (\<exists>e\<in>set (to_list t). me_key e = j)"
  using entries_map_None[of "to_list t" j] by (auto simp: tm_get_map[OF assms] tm_map_def)

lemma sorted_takeWhile_filter:
  fixes f :: "'a \<Rightarrow> 'k::linorder"
  shows "sorted (map f xs) \<Longrightarrow> takeWhile (\<lambda>x. f x \<le> k) xs = filter (\<lambda>x. f x \<le> k) xs"
  by (induction xs) (auto intro!: filter_False[symmetric] dest: order_trans)

lemma sorted_le_last:
  fixes f :: "'a \<Rightarrow> 'k::linorder"
  shows "sorted (map f xs) \<Longrightarrow> x \<in> set xs \<Longrightarrow> f x \<le> f (last xs)"
  by (induction xs) auto

text \<open>
  C0: \<open>closest\<close> returns the entry with the greatest key that is not above the given one, and nothing
  when every key is above it.
\<close>

theorem tree_map_closest:
  assumes "tm_wf t" "tm_fits t"
  shows "\<exists>r. tm_closest t k = Some r \<and>
    (case r of
       None \<Rightarrow> (\<forall>j. tm_get t j \<noteq> None \<longrightarrow> k < j)
     | Some (j, v) \<Rightarrow> j \<le> k \<and> tm_get t j = Some v \<and> (\<forall>i. tm_get t i \<noteq> None \<and> i \<le> k \<longrightarrow> i \<le> j))"
proof -
  let ?T = "filter (\<lambda>e. me_key e \<le> k) (to_list t)"
  have s: "sorted (map me_key (to_list t))" using tm_keys_distinct(2)[OF assms(1)] .
  then have r: "tm_closest t k = Some (map_option (\<lambda>e. (me_key e, me_value e)) (vec_last ?T))"
    using tm_closest_entry[OF assms, of k] by (simp add: sorted_takeWhile_filter)
  show ?thesis
  proof (cases "?T = []")
    case True
    then show ?thesis using r by (auto simp: tm_get_present[OF assms(1)] filter_empty_conv not_le simp del: not_None_eq)
  next
    case False
    then have mem: "last ?T \<in> set ?T" by (rule last_in_set)
    have "sorted (map me_key ?T)" using s by (rule sorted_filter)
    then have "i \<le> me_key (last ?T)" if "tm_get t i \<noteq> None" "i \<le> k" for i
      using that sorted_le_last[of me_key ?T] by (auto simp: tm_get_present[OF assms(1)] simp del: not_None_eq)
    then show ?thesis using r False mem
      by (auto simp: vec_last_def tm_get_mem[OF assms(1)] simp del: not_None_eq)
  qed
qed

lemma tree_map_closest_witness:
  "\<exists>r. tm_closest demo_map 4 = Some r \<and> (case r of None \<Rightarrow> False | Some (j, v) \<Rightarrow> j \<le> 4 \<and> 3 \<le> j)"
proof -
  have "tm_get demo_map 3 \<noteq> None" by (simp add: tm_get_map demo_map_ok tm_map_def demo_map_list entries_map_def)
  then show ?thesis using tree_map_closest[OF demo_map_ok, of 4] by (fastforce split: option.splits)
qed

lemma tm_iter_from_filter:
  assumes "tm_wf t" "tm_fits t"
  shows "tm_iter_from t k = Some (map (\<lambda>e. (me_key e, me_value e)) (filter (\<lambda>e. k \<le> me_key e) (to_list t)))"
proof -
  have "dropWhile (\<lambda>e. me_key e < k) xs = filter (\<lambda>e. k \<le> me_key e) xs" if "sorted (map me_key xs)" for xs :: "('a, 'b) map_entry list"
    using that by (induction xs) (auto simp: not_less intro!: filter_True[symmetric] dest: order_trans)
  then show ?thesis using tm_iter_from_entries[OF assms, of k] tm_keys_distinct(2)[OF assms(1)] by simp
qed

text \<open>
  Iterating over a map yields its entries once each, in strictly increasing key order, and they
  are exactly what the lookups return. \<open>iter_from\<close> yields those from a key on, \<open>values\<close> the values in
  the same order, \<open>first\<close> and \<open>last\<close> the two ends.
\<close>

theorem tree_map_iter:
  assumes "tm_wf t" "tm_fits t"
  shows "\<exists>es. tm_iter t = Some es \<and> sorted_wrt (<) (map fst es) \<and> (\<forall>k. map_of es k = tm_get t k) \<and>
    tm_iter_from t j = Some (filter (\<lambda>(k, v). j \<le> k) es) \<and> tm_values t = Some (map snd es) \<and>
    tm_first t = Some (vec_first es) \<and> tm_last t = Some (vec_last es)"
proof (intro exI conjI)
  let ?p = "\<lambda>e :: ('a, 'b) map_entry. (me_key e, me_value e)"
  let ?es = "map ?p (to_list t)"
  show iter: "tm_iter t = Some ?es" using assms by (rule tm_iter_entries)
  have keys: "map fst ?es = map me_key (to_list t)" by simp
  show "sorted_wrt (<) (map fst ?es)"
    using tm_keys_distinct[OF assms(1)] unfolding keys by (simp add: strict_sorted_iff)
  show "\<forall>k. map_of ?es k = tm_get t k"
    by (simp add: tm_get_map[OF assms(1)] tm_map_def entries_map_of)
  show "tm_iter_from t j = Some (filter (\<lambda>(k, v). j \<le> k) ?es)"
    using tm_iter_from_filter[OF assms] by (simp add: filter_map comp_def)
  show "tm_values t = Some (map snd ?es)"
    using tm.iter_collect_new[of t] assms by (simp add: tm_values_def tm_wf_def tm_fits_def)
  have wf: "st_wf map_ops (\<lambda>s. s \<noteq> None) t" using assms(1) by (simp add: tm_wf_def)
  show "tm_first t = Some (vec_first ?es)" "tm_last t = Some (vec_last ?es)"
    using st_first_seq[OF wf] st_last_seq[OF wf]
    by (auto simp: tm_first_def tm_last_def vec_first_def vec_last_def last_map hd_map split: list.splits)
qed

lemma tree_map_iter_witness:
  "\<exists>es. tm_iter demo_map = Some es \<and> tm_iter_from demo_map 3 = Some (filter (\<lambda>(k, v). 3 \<le> k) es) \<and> map_of es 3 = Some 30"
  using tree_map_iter[OF demo_map_ok, of 3] by (auto simp: tm_get_map demo_map_ok tm_map_def demo_map_list)

text \<open>
  Extending a map by entries with distinct keys, and merging another map into it, overrides the
  lookups by the new entries and keeps the map well formed.
\<close>

theorem tree_map_extend:
  assumes "tm_wf t" "tm_fits t" "distinct (map fst es)" "tm_wf u" "tm_fits u"
  shows "(\<exists>t'. tm_extend t es = Some t' \<and> tm_wf t' \<and>
           (\<forall>k. tm_get t' k = (case map_of es k of Some v \<Rightarrow> Some v | None \<Rightarrow> tm_get t k))) \<and>
         (\<exists>t'. tm_insert_tree t u = Some t' \<and> tm_wf t' \<and>
           (\<forall>k. tm_get t' k = (case tm_get u k of Some v \<Rightarrow> Some v | None \<Rightarrow> tm_get t k)))"
proof -
  have ext: "\<exists>t'. tm_extend t es = Some t' \<and> tm_wf t' \<and>
      (\<forall>k. tm_get t' k = (case map_of es k of Some v \<Rightarrow> Some v | None \<Rightarrow> tm_get t k))"
    if "distinct (map fst es)" for es
  proof -
    let ?es = "map (\<lambda>(k, v). \<lparr>me_key = k, me_value = v\<rparr>) es"
    have "map me_key ?es = map fst es" by auto
    with that have "distinct (map me_key ?es)" by metis
    with assms(1,2) obtain t' r where t': "keyed_edit map_ops map_dim entry_key t (map Insert ?es) = Some (t', r)"
        "tm_wf t'" "tm_map t' = tm_map t ++ entries_map ?es"
      by (rule tm_edit_inserts)
    have "entries_map ?es = map_of es" by (simp add: entries_map_of comp_def split_def)
    moreover have "tm_extend t es = Some t'" using t'(1) by (simp add: tm_extend_def comp_def split_def)
    ultimately show ?thesis using t'(2,3) tm_get_map[OF assms(1)] by (simp add: tm_get_map map_add_def split: option.split)
  qed
  let ?us = "map (\<lambda>e. (me_key e, me_value e)) (to_list u)"
  have "tm_iter u = Some ?us" using assms(4,5) by (rule tm_iter_entries)
  then have "tm_insert_tree t u = tm_extend t ?us" by (simp add: tm_insert_tree_def tm_extend_def)
  moreover have "map_of ?us k = tm_get u k" for k by (simp add: tm_get_map[OF assms(4)] tm_map_def entries_map_of)
  moreover have "distinct (map fst ?us)" using tm_keys_distinct(1)[OF assms(4)] by (simp add: comp_def)
  ultimately show ?thesis using ext[OF assms(3)] ext[of ?us] by simp
qed

lemma tree_map_extend_witness:
  "\<exists>t'. tm_extend demo_map [(4, 40), (3, 33)] = Some t' \<and> tm_get t' 3 = Some 33 \<and> tm_get t' 1 = Some 10"
  using tree_map_extend[OF demo_map_ok _ demo_map_ok, of "[(4, 40), (3, 33)]"] tm_get_map[OF demo_map_ok(1), of 1]
  by (auto simp: tm_map_def demo_map_list)

text \<open>
  A tree set is a set: inserting, removing and testing membership change exactly one element,
  \<open>remove\<close> reports whether it was there, and iteration lists the elements in increasing order.
\<close>

theorem tree_set_laws:
  assumes "tm_wf s" "tm_fits s"
  shows "(\<exists>s'. ts_insert s k = Some s' \<and> tm_wf s' \<and> (\<forall>j. ts_contains s' j \<longleftrightarrow> j = k \<or> ts_contains s j)) \<and>
    (\<exists>s'. ts_remove s k = Some (s', ts_contains s k) \<and> tm_wf s' \<and>
          (\<forall>j. ts_contains s' j \<longleftrightarrow> j \<noteq> k \<and> ts_contains s j)) \<and>
    (\<exists>ks. ts_iter s = Some ks \<and> sorted_wrt (<) ks \<and> (\<forall>j. j \<in> set ks \<longleftrightarrow> ts_contains s j))"
proof (intro conjI)
  show "\<exists>s'. ts_insert s k = Some s' \<and> tm_wf s' \<and> (\<forall>j. ts_contains s' j \<longleftrightarrow> j = k \<or> ts_contains s j)"
    using tmi.get_ins[OF assms, of k "()"] by (auto simp: ts_insert_def ts_contains_def)
  obtain s' where s': "tm_remove s k = Some (s', tm_map s k)" "tm_wf s'" "tm_map s' = (tm_map s)(k := None)"
    using assms by (rule tm_remove_map)
  then show "\<exists>s'. ts_remove s k = Some (s', ts_contains s k) \<and> tm_wf s' \<and>
          (\<forall>j. ts_contains s' j \<longleftrightarrow> j \<noteq> k \<and> ts_contains s j)"
    by (auto simp: ts_remove_def ts_contains_def tm_get_map assms(1))
  have "ts_iter s = Some (map me_key (to_list s))"
    using tm_iter_entries[OF assms] by (simp add: ts_iter_def comp_def)
  moreover have "sorted_wrt (<) (map me_key (to_list s))"
    using tm_keys_distinct[OF assms(1)] by (simp add: strict_sorted_iff)
  ultimately show "\<exists>ks. ts_iter s = Some ks \<and> sorted_wrt (<) ks \<and> (\<forall>j. j \<in> set ks \<longleftrightarrow> ts_contains s j)"
    using tm_get_present[OF assms(1)] by (auto simp: ts_contains_def simp del: not_None_eq)
qed

definition demo_set :: "nat tree_set" where
  "demo_set = ts_from_ordered_entries [2, 4]"

lemma tree_set_laws_witness:
  "\<exists>s'. ts_insert demo_set 3 = Some s' \<and> ts_contains s' 3"
proof -
  have l: "to_list demo_set = [\<lparr>me_key = 2, me_value = ()\<rparr>, \<lparr>me_key = 4, me_value = ()\<rparr>]"
    by (simp add: demo_set_def ts_from_ordered_entries_def tm_from_ordered_entries_def tm.from_iter_seq(2))
  have "tm_wf demo_set" unfolding tm_wf_def l using tm.from_iter_seq(1)
    by (simp add: demo_set_def ts_from_ordered_entries_def tm_from_ordered_entries_def keys_sorted_def entry_key_def del: not_None_eq)
  moreover have "tm_fits demo_set" unfolding tm_fits_def demo_set_def by code_simp
  ultimately show ?thesis using tree_set_laws[of demo_set 3] by blast
qed

end
