(* ===== verification/Cursor_Props.thy ===== *)
theory Cursor_Props
  imports Iteration
begin

section \<open>What cursors and iterators promise\<close>

text \<open>
  The operations of \<open>Cursor\<close>, \<open>FilterCursor\<close> and \<open>Iter\<close> in terms of the item sequence of the tree:
  seeking is the tree search of \<open>SumTree::find\<close>, slicing and taking the suffix split the sequence,
  stepping visits its items in either direction, and filtered iteration visits the items whose
  summary passes the filter. The integer items of the crate's tests instantiate them.
\<close>

lemma seek_hit_index:
  "first_from (seek_hit D M target b t) (length (to_list t)) 0 =
   seek_index M (target_in target b) (dim_zero M) (map (item_summary D) (to_list t))"
    (is "_ = ?i")
proof -
  let ?ss = "map (item_summary D) (to_list t)"
  have e: "seek_hit D M target b t i = target_in target b (ends M (dim_zero M) ?ss ! i)" if "i < length (to_list t)" for i
    using that by (simp add: seek_hit_def item_pos_def nth_ends)
  have le: "?i \<le> length (to_list t)" using seek_index_le[of M _ _ ?ss] by simp
  show ?thesis
  proof (rule first_from_unique)
    fix i assume "i < ?i"
    moreover from this have "\<not> target_in target b (ends M (dim_zero M) ?ss ! i)"
      unfolding seek_index_def by (metis nth_mem set_takeWhileD takeWhile_nth)
    ultimately show "\<not> seek_hit D M target b t i" using e le by simp
  next
    assume "?i < length (to_list t)"
    then show "seek_hit D M target b t ?i"
      using e nth_length_takeWhile[of "\<lambda>d. \<not> target_in target b d" "ends M (dim_zero M) ?ss"]
      by (simp add: seek_index_def)
  qed (use le in auto)
qed

subsection \<open>Summaries between two positions\<close>

text \<open>A cursor in one dimension that sums a second one on its way.\<close>

locale two_dims = dim_laws D V M + out: dim_laws D V N
  for D :: "('a, 's) item_ops" and V :: "'s \<Rightarrow> bool" and M :: "('s, 'd) dim_ops" and N :: "('s, 'o) dim_ops"

sublocale two_dims \<subseteq> summing: seek_laws D V M "summary_aggregate N"
    "\<lambda>d xs. d = foldl (dim_add N) (dim_zero N) (map (item_summary D) xs)"
    "\<lambda>d xs ys. d = foldl (dim_add N) (dim_zero N) (map (item_summary D) (xs @ ys))"
  by unfold_locales (simp_all add: summary_aggregate_def out.dim_good)

context two_dims
begin

lemma cursor_summary_at:
  assumes "st_wf D V root" "node_height root < MAX_DEPTH"
    and "seek_mono M (target_in target b) (dim_zero M) (map (item_summary D) (to_list root))"
    and "cursor_from D M root m c" "target (item_pos D M root m) \<noteq> Less"
  obtains c' where
    "cursor_summary M N target b c = Some (c', foldl (dim_add N) (dim_zero N) (map (item_summary D)
       (segment (to_list root) m (first_from (seek_hit D M target b root) (length (to_list root)) m))))"
    "cursor_at D M root (first_from (seek_hit D M target b root) (length (to_list root)) m) c'"
  by (rule summing.seek_internal_from[OF assms, of "dim_zero N"]) (auto simp: cursor_summary_def intro: that)

end

definition Sum :: "(integers_summary, nat) dim_ops" where
  "Sum = \<lparr>dim_zero = 0, dim_add = (\<lambda>d s. d + is_sum s)\<rparr>"

interpretation int_sums: two_dims integers "\<lambda>_. True" Count Sum
  by unfold_locales (simp_all add: Sum_def integers_def)

subsection \<open>Moving a cursor back and forth\<close>

text \<open>
  The cursor as a state machine over positions: fresh (nothing sought yet), before the first item
  (after stepping back from it), or at an item index, the length of the sequence being the end.
\<close>

datatype cursor_move = Next | Prev | Reset

datatype cursor_pos = Fresh | Before | At nat

fun pos_move :: "nat \<Rightarrow> cursor_move \<Rightarrow> cursor_pos \<Rightarrow> cursor_pos" where
  "pos_move n Reset p = Fresh"
| "pos_move n Next (At k) = At (min (Suc k) n)"
| "pos_move n Next p = At 0"
| "pos_move n Prev (At k) = (if k = 0 then Before else At (k - 1))"
| "pos_move n Prev Before = Before"
| "pos_move n Prev Fresh = (if n = 0 then Before else At (n - 1))"

fun pos_item :: "'a list \<Rightarrow> cursor_pos \<Rightarrow> 'a option" where
  "pos_item xs (At k) = vec_get xs k"
| "pos_item xs p = None"

fun cursor_do :: "('s, 'd) dim_ops \<Rightarrow> cursor_move \<Rightarrow> ('a, 's, 'd) cursor \<Rightarrow> ('a, 's, 'd) cursor option" where
  "cursor_do M Next c = cursor_next M c"
| "cursor_do M Prev c = cursor_prev M c"
| "cursor_do M Reset c = Some (cursor_reset M c)"

fun cursor_run :: "('s, 'd) dim_ops \<Rightarrow> cursor_move list \<Rightarrow> ('a, 's, 'd) cursor \<Rightarrow> ('a, 's, 'd) cursor option" where
  "cursor_run M [] c = Some c"
| "cursor_run M (m # ms) c = do { c' \<leftarrow> cursor_do M m c; cursor_run M ms c' }"

definition cursor_before :: "('s, 'd) dim_ops \<Rightarrow> ('a, 's) sum_tree \<Rightarrow> ('a, 's, 'd) cursor \<Rightarrow> bool" where
  "cursor_before M t c \<longleftrightarrow> c_tree c = t \<and> did_seek c \<and> c_stack c = [] \<and> c_position c = dim_zero M \<and>
     at_end c = (to_list t = [])"

fun cursor_rel ::
  "('a, 's) item_ops \<Rightarrow> ('s, 'd) dim_ops \<Rightarrow> ('a, 's) sum_tree \<Rightarrow> cursor_pos \<Rightarrow> ('a, 's, 'd) cursor \<Rightarrow> bool"
where
  "cursor_rel D M t Fresh c \<longleftrightarrow> c = cursor_new M t"
| "cursor_rel D M t Before c \<longleftrightarrow> cursor_before M t c"
| "cursor_rel D M t (At k) c \<longleftrightarrow> cursor_at D M t k c"

lemma cursor_rel_tree: "cursor_rel D M t p c \<Longrightarrow> c_tree c = t"
  by (cases p) (auto simp: cursor_new_def cursor_before_def cursor_at_def)

context dim_laws
begin

lemma first_from_True [simp]: "first_from (item_hit D (\<lambda>_. True) root) n k = k"
  by (simp add: first_from.simps[of _ n k] item_hit_def)

lemma filter_sound_True [simp]: "filter_sound D V (\<lambda>_. True)"
  by (simp add: filter_sound_def)

lemma cursor_next_start:
  assumes "st_wf D V t" "node_height t < MAX_DEPTH"
    and "c_tree c = t" "c_stack c = []" "c_position c = dim_zero M" "at_end c = (to_list t = [])"
  obtains c' where "cursor_next M c = Some c'" "cursor_at D M t 0 c'"
  by (rule search_forward_start[OF assms(1,2) filter_sound_True assms(3-6)])
     (auto simp: cursor_next_def intro: that)

lemma cursor_prev_cases:
  assumes "st_wf D V t" "node_height t < MAX_DEPTH" "cursor_at D M t m c"
  obtains c' where "cursor_prev M c = Some c'" "cursor_rel D M t (pos_move n Prev (At m)) c'"
proof -
  have last: "last_below (item_hit D (\<lambda>_. True) t) m = (if m = 0 then None else Some (m - 1))"
    by (cases m) (auto simp: item_hit_def)
  show thesis
    by (rule search_backward_at[OF assms(1,2) filter_sound_True assms(3)])
       (auto simp: last cursor_prev_def cursor_before_def intro!: that split: if_splits)
qed

text \<open>Stepping back from a fresh cursor starts at the end of the sequence.\<close>

lemma cursor_prev_fresh:
  assumes "st_wf D V t" "node_height t < MAX_DEPTH"
  obtains c' where "cursor_prev M (cursor_new M t) = Some c'"
    "cursor_rel D M t (pos_move (length (to_list t)) Prev Fresh) c'"
proof -
  let ?n = "length (to_list t)"
  let ?c = "(cursor_new M t)\<lparr>did_seek := True, at_end := True, c_position := item_pos D M t ?n\<rparr>"
  have at: "cursor_at D M t ?n ?c" by (simp add: cursor_at_def lands_def cursor_new_def)
  have "cursor_prev M (cursor_new M t) = cursor_prev M ?c"
    by (simp add: cursor_prev_def search_backward_def cursor_new_def Let_def)
  moreover obtain c' where "cursor_prev M ?c = Some c'" "cursor_rel D M t (pos_move ?n Prev (At ?n)) c'"
    using assms at by (rule cursor_prev_cases)
  ultimately show thesis by (intro that[of c']) simp_all
qed

lemma cursor_prev_before:
  assumes "cursor_before M t c" "st_wf D V t"
  shows "\<exists>c'. cursor_prev M c = Some c' \<and> cursor_before M t c'"
  using assms by (auto simp: cursor_prev_def search_backward_def cursor_before_def Let_def backward_loop_Nil st_is_empty_iff)

lemma cursor_do_rel:
  assumes wf: "st_wf D V t" "node_height t < MAX_DEPTH" and c: "cursor_rel D M t p c"
  shows "\<exists>c'. cursor_do M m c = Some c' \<and> cursor_rel D M t (pos_move (length (to_list t)) m p) c'"
proof (cases m)
  case Reset
  then show ?thesis using cursor_rel_tree[OF c] by (simp add: cursor_reset_new)
next
  case Next
  show ?thesis
  proof (cases p)
    case (At k)
    then have "cursor_at D M t k c" using c by simp
    then show ?thesis by (rule cursor_next_at[OF wf]) (simp add: Next At)
  next
    case Before
    then have "c_tree c = t" "c_stack c = []" "c_position c = dim_zero M" "at_end c = (to_list t = [])"
      using c by (simp_all add: cursor_before_def)
    then show ?thesis by (rule cursor_next_start[OF wf]) (simp add: Next Before)
  next
    case Fresh
    then have "c_tree c = t" "c_stack c = []" "c_position c = dim_zero M" "at_end c = (to_list t = [])"
      using c by (simp_all add: cursor_new_def st_is_empty_iff[OF wf(1)])
    then show ?thesis by (rule cursor_next_start[OF wf]) (simp add: Next Fresh)
  qed
next
  case Prev
  show ?thesis
  proof (cases p)
    case (At k)
    then have "cursor_at D M t k c" using c by simp
    then show ?thesis unfolding Prev At by (rule cursor_prev_cases[OF wf]) auto
  next
    case Before
    with c cursor_prev_before[OF _ wf(1)] show ?thesis by (simp add: Prev)
  next
    case Fresh
    then have "c = cursor_new M t" using c by simp
    then show ?thesis unfolding Prev Fresh by (auto intro: cursor_prev_fresh[OF wf])
  qed
qed

lemma cursor_run_rel:
  assumes "st_wf D V t" "node_height t < MAX_DEPTH" "cursor_rel D M t p c"
  shows "\<exists>c'. cursor_run M ms c = Some c' \<and> cursor_rel D M t (fold (pos_move (length (to_list t))) ms p) c'"
  using assms(3)
proof (induction ms arbitrary: p c)
  case (Cons m ms)
  obtain c' where "cursor_do M m c = Some c'" "cursor_rel D M t (pos_move (length (to_list t)) m p) c'"
    using cursor_do_rel[OF assms(1,2) Cons.prems] by blast
  with Cons.IH show ?case by fastforce
qed simp

lemma cursor_rel_item:
  assumes "st_wf D V t" "cursor_rel D M t p c" "p \<noteq> Fresh"
  shows "cursor_item c = Some (pos_item (to_list t) p)"
proof (cases p)
  case (At k)
  with assms show ?thesis by (simp add: cursor_at_reads(1))
qed (use assms in \<open>auto simp: cursor_before_def cursor_item_def\<close>)

end

subsection \<open>Filtered iteration\<close>

partial_function (option) filter_collect ::
  "('s, 'd) dim_ops \<Rightarrow> ('a, 's, 'd) filter_cursor \<Rightarrow> 'a list option" where
  "filter_collect M fc =
     do { (fc', item) \<leftarrow> filter_iter_next M fc;
          (case item of
             None \<Rightarrow> Some []
           | Some x \<Rightarrow> do { xs \<leftarrow> filter_collect M fc'; Some (x # xs) }) }"

lemma filter_skip_first:
  fixes xs :: "'a list" and P
  defines "k m \<equiv> first_from (\<lambda>i. P (xs ! i)) (length xs) m"
  assumes "m \<le> length xs"
  shows "filter P (drop (k m) xs) = filter P (drop m xs)"
proof -
  have s: "m \<le> k m" "k m \<le> length xs" "\<And>i. m \<le> i \<Longrightarrow> i < k m \<Longrightarrow> \<not> P (xs ! i)"
    using first_from_spec[OF assms(2), of "\<lambda>i. P (xs ! i)"] by (auto simp: k_def)
  have "drop m xs = take (k m - m) (drop m xs) @ drop (k m) xs"
    using s(1) by (metis append_take_drop_id drop_drop le_add_diff_inverse2)
  moreover have "filter P (take (k m - m) (drop m xs)) = []"
    using s by (auto simp: filter_empty_conv in_set_conv_nth)
  ultimately show ?thesis by (metis append_self_conv2 filter_append)
qed

context dim_laws
begin

lemma filter_collect_at:
  assumes wf: "st_wf D V t" "node_height t < MAX_DEPTH" and f: "filter_sound D V (filter_node fc)"
  defines "P \<equiv> \<lambda>x. filter_node fc (item_summary D x)"
  shows "cursor_at D M t k (fc_cursor fc) \<Longrightarrow> k < length (to_list t) \<longrightarrow> P (to_list t ! k) \<Longrightarrow>
    filter_collect M fc = Some (filter P (drop k (to_list t)))"
  using f unfolding P_def
proof (induction "length (to_list t) - k" arbitrary: k fc rule: less_induct)
  case less
  note at = less.prems(1)
  have le: "k \<le> length (to_list t)" and seek: "did_seek (fc_cursor fc)"
    using at by (auto simp: cursor_at_def lands_def)
  show ?case
  proof (cases "k < length (to_list t)")
    case False
    then have "cursor_item (fc_cursor fc) = Some None"
      using cursor_at_reads(1)[OF at wf(1)] by (simp add: vec_get_def)
    with seek False show ?thesis by (subst filter_collect.simps) (simp add: filter_iter_next_def)
  next
    case True
    let ?P = "\<lambda>x. filter_node fc (item_summary D x)"
    let ?k = "first_from (\<lambda>i. ?P (to_list t ! i)) (length (to_list t)) (Suc k)"
    obtain c' where "search_forward M (filter_node fc) (fc_cursor fc) = Some c'"
        and "cursor_at D M t (first_from (item_hit D (filter_node fc) t) (length (to_list t)) (min (Suc k) (length (to_list t)))) c'"
      using wf less.prems(3) at by (rule search_forward_at)
    then have c': "search_forward M (filter_node fc) (fc_cursor fc) = Some c'" "cursor_at D M t ?k c'"
      using True by (simp_all add: item_hit_def[abs_def])
    let ?fc = "fc\<lparr>fc_cursor := c'\<rparr>"
    have k: "Suc k \<le> ?k" "?k < length (to_list t) \<longrightarrow> ?P (to_list t ! ?k)"
      using first_from_spec[of "Suc k" "length (to_list t)" "\<lambda>i. ?P (to_list t ! i)"] True by auto
    have "filter_collect M ?fc = Some (filter ?P (drop ?k (to_list t)))"
      using less.hyps[of ?k ?fc] c'(2) k True less.prems(3) by simp
    also have "filter ?P (drop ?k (to_list t)) = filter ?P (drop (Suc k) (to_list t))"
      using filter_skip_first[of "Suc k" "to_list t" ?P] True by simp
    finally have rest: "filter_collect M ?fc = Some (filter ?P (drop (Suc k) (to_list t)))" .
    have "filter_iter_next M fc = Some (?fc, Some (to_list t ! k))"
      using cursor_at_reads(1)[OF at wf(1)] seek c'(1) True
      by (simp add: filter_iter_next_def filter_next_def vec_get_def)
    with rest True less.prems(2) show ?thesis
      by (subst filter_collect.simps) (simp add: Cons_nth_drop_Suc[symmetric])
  qed
qed

lemma filter_collect_new:
  assumes wf: "st_wf D V t" "node_height t < MAX_DEPTH" and f: "filter_sound D V f"
  shows "filter_collect M (filter_new M t f) = Some (filter (\<lambda>x. f (item_summary D x)) (to_list t))"
proof -
  let ?P = "\<lambda>x. f (item_summary D x)"
  let ?k = "first_from (\<lambda>i. ?P (to_list t ! i)) (length (to_list t)) 0"
  let ?fc = "filter_new M t f"
  have c: "c_tree (cursor_new M t) = t" "c_stack (cursor_new M t) = []" "c_position (cursor_new M t) = dim_zero M"
      "at_end (cursor_new M t) = (to_list t = [])"
    by (simp_all add: cursor_new_def st_is_empty_iff[OF wf(1)])
  obtain c' where c': "search_forward M f (cursor_new M t) = Some c'" "cursor_at D M t ?k c'"
    using search_forward_start[OF wf f c] by (auto simp: item_hit_def[abs_def])
  let ?fd = "?fc\<lparr>fc_cursor := c'\<rparr>"
  have nx: "filter_next M ?fc = Some ?fd" "\<not> did_seek (fc_cursor ?fc)" "did_seek (fc_cursor ?fd)"
    using c' by (simp_all add: filter_next_def filter_new_def cursor_new_def cursor_at_def)
  have "?k < length (to_list t) \<longrightarrow> ?P (to_list t ! ?k)" using first_from_spec[of 0 "length (to_list t)" "\<lambda>i. ?P (to_list t ! i)"] by simp
  then have "filter_collect M ?fd = Some (filter ?P (drop ?k (to_list t)))"
    using filter_collect_at[OF wf, of ?fd] f c'(2) by (simp add: filter_new_def)
  moreover have "filter ?P (drop ?k (to_list t)) = filter ?P (to_list t)"
    using filter_skip_first[of 0 "to_list t" ?P] by simp
  moreover have "filter_collect M ?fc = filter_collect M ?fd"
    using nx by (subst (1 2) filter_collect.simps) (simp add: filter_iter_next_def)
  ultimately show ?thesis by simp
qed

lemma cursor_collect_new:
  assumes wf: "st_wf D V t" "node_height t < MAX_DEPTH"
  shows "cursor_collect M (cursor_new M t) = Some (to_list t)"
proof -
  have c: "c_tree (cursor_new M t) = t" "c_stack (cursor_new M t) = []" "c_position (cursor_new M t) = dim_zero M"
      "at_end (cursor_new M t) = (to_list t = [])"
    by (simp_all add: cursor_new_def st_is_empty_iff[OF wf(1)])
  obtain c' where c': "cursor_next M (cursor_new M t) = Some c'" "cursor_at D M t 0 c'"
    using cursor_next_start[OF wf c] by blast
  moreover from c'(1) have "cursor_collect M (cursor_new M t) = cursor_collect M c'"
    using c'(2) by (subst (1 2) cursor_collect.simps) (simp add: cursor_iter_next_def cursor_new_def cursor_at_def)
  ultimately show ?thesis using cursor_collect_at[OF wf c'(2)] by simp
qed

end

context dim_laws
begin

lemma cursor_seek_result:
  assumes "st_wf D V root" "node_height root < MAX_DEPTH"
    and "seek_mono M (target_in target b) (dim_zero M) (map (item_summary D) (to_list root))"
    and "c_tree c = root" "target (dim_zero M) \<noteq> Less"
  defines "k \<equiv> first_from (seek_hit D M target b root) (length (to_list root)) 0"
  obtains c' where "cursor_seek M target b c = Some (c',
      target (item_pos D M root (if b = Left then min (Suc k) (length (to_list root)) else k)) = Equal)"
    "cursor_at D M root k c'"
proof -
  have "target (item_pos D M root 0) \<noteq> Less" using assms(5) by simp
  then show thesis
    by (rule passing.seek_internal_from[OF assms(1-3) cursor_from_new _ TrueI], intro that)
       (auto simp: cursor_seek_def cursor_reset_new[OF assms(4)] k_def)
qed

end

subsection \<open>The properties\<close>

text \<open>
  C3: Seeking is the tree search. From any cursor of the tree (whatever it did before), when the
  comparison with the target is monotone along the sequence, \<open>seek\<close> never panics and leaves the
  cursor at the very item, start and end position that \<open>SumTree::find\<close> returns; its result says
  whether the target is equal to the end of that item (bias left) or its start (bias right).
\<close>

theorem cursor_seek_is_find:
  assumes "dim_laws D V M" "st_wf D V t" "node_height t < MAX_DEPTH" "to_list t \<noteq> []"
    and "seek_mono M (target_in target b) (dim_zero M) (map (item_summary D) (to_list t))"
    and "target (dim_zero M) \<noteq> Less" "c_tree c = t" "st_find M t target b = (s, e, x)"
  shows "\<exists>c'. cursor_seek M target b c = Some (c', target (if b = Left then e else s) = Equal) \<and>
    cursor_item c' = Some x \<and> cursor_start c' = s \<and> cursor_end M c' = Some e"
proof -
  let ?ss = "map (item_summary D) (to_list t)"
  let ?i = "seek_index M (target_in target b) (dim_zero M) ?ss"
  have find: "s = item_pos D M t ?i" "e = pos_at M (dim_zero M) ?ss (Suc ?i)" "x = vec_get (to_list t) ?i"
    using dim_laws.st_find_index[OF assms(1,2,4,5)] assms(8) by (simp_all add: item_pos_def Let_def)
  have i: "?i \<le> length (to_list t)" using seek_index_le[of M _ _ ?ss] by simp
  have e: "e = item_pos D M t (min (Suc ?i) (length (to_list t)))"
    using i unfolding find(2) by (cases "?i = length (to_list t)") (simp_all add: item_pos_def pos_at_def min_def)
  have "target (item_pos D M t 0) \<noteq> Less" using assms(6) by simp
  from dim_laws.cursor_seek_result[OF assms(1-3,5) assms(7) assms(6)] obtain c' where
    c': "cursor_seek M target b c = Some (c', target (item_pos D M t
          (if b = Left then min (Suc ?i) (length (to_list t)) else ?i)) = Equal)" "cursor_at D M t ?i c'"
    unfolding seek_hit_index by blast
  show ?thesis
    using c' cursor_at_reads[OF c'(2) assms(2)] by (cases b) (simp_all add: find(1,3) e)
qed

lemma cursor_seek_is_find_witness:
  "\<exists>c'. cursor_seek Count (\<lambda>d. cmp 2 d) Right (cursor_new Count (st_from_iter integers [10, 20, 30])) = Some (c', True) \<and>
        cursor_item c' = Some (Some 30) \<and> cursor_start c' = 2 \<and> cursor_end Count c' = Some 3"
proof -
  let ?t = "st_from_iter integers [10, 20, 30]"
  have f: "st_find Count ?t (\<lambda>d. cmp 2 d) Right = (2, 3, Some 30)" by code_simp
  have h: "node_height ?t < MAX_DEPTH" by code_simp
  show ?thesis
    using cursor_seek_is_find[OF ints.dim_laws_axioms _ h _ _ _ _ f, of "cursor_new Count ?t"]
    by (simp add: ints.from_iter_seq seek_mono_def target_in_def cursor_new_def cmp_def)
qed

text \<open>
  C21: Slicing to a target and taking the suffix split the tree: the two results are well formed and
  their items concatenate to the original sequence, cut at the item the seek lands on. Summing
  another dimension on the way gives the sum over exactly the items of the slice.
\<close>

theorem cursor_slice_splits:
  assumes "two_dims D V M N" "st_wf D V t" "node_height t < MAX_DEPTH"
    and "seek_mono M (target_in target b) (dim_zero M) (map (item_summary D) (to_list t))"
    and "target (dim_zero M) \<noteq> Less"
    and "i = seek_index M (target_in target b) (dim_zero M) (map (item_summary D) (to_list t))"
  shows "\<exists>c1 t1 c2 t2 c3.
    cursor_slice D M target b (cursor_new M t) = Some (c1, t1) \<and> cursor_suffix D M c1 = Some (c2, t2) \<and>
    st_wf D V t1 \<and> st_wf D V t2 \<and> to_list t1 = take i (to_list t) \<and> to_list t2 = drop i (to_list t) \<and>
    cursor_summary M N target b (cursor_new M t) =
      Some (c3, foldl (dim_add N) (dim_zero N) (map (item_summary D) (take i (to_list t))))"
proof -
  have D: "dim_laws D V M" using assms(1) by (simp add: two_dims_def)
  have fwd: "target (item_pos D M t 0) \<noteq> Less" using assms(5) by simp
  have idx: "first_from (seek_hit D M target b t) (length (to_list t)) 0 = i"
    by (simp add: seek_hit_index assms(6))
  then have seg: "segment (to_list t) 0 (first_from (seek_hit D M target b t) (length (to_list t)) 0) = take i (to_list t)"
    by (simp add: segment_0)
  obtain c1 t1 where 1: "cursor_slice D M target b (cursor_new M t) = Some (c1, t1)" "st_wf D V t1"
      "to_list t1 = take i (to_list t)" "cursor_at D M t i c1"
    by (rule dim_laws.cursor_slice_at[OF D assms(2-4) cursor_from_new fwd]) (simp add: segment_0 idx)
  obtain c2 t2 where 2: "cursor_suffix D M c1 = Some (c2, t2)" "st_wf D V t2" "to_list t2 = drop i (to_list t)"
    using dim_laws.cursor_suffix_at[OF D assms(2,3) cursor_from_at[OF 1(4)]] .
  obtain c3 where "cursor_summary M N target b (cursor_new M t) =
      Some (c3, foldl (dim_add N) (dim_zero N) (map (item_summary D) (take i (to_list t))))"
    by (rule two_dims.cursor_summary_at[OF assms(1-4) cursor_from_new fwd]) (simp add: seg)
  with 1 2 show ?thesis by blast
qed

lemma cursor_slice_splits_witness:
  "\<exists>c1 t1 c3. cursor_slice integers Count (\<lambda>d. cmp 2 d) Right (cursor_new Count (st_from_iter integers [10, 20, 30])) = Some (c1, t1) \<and>
     to_list t1 = [10, 20] \<and>
     cursor_summary Count Sum (\<lambda>d. cmp 2 d) Right (cursor_new Count (st_from_iter integers [10, 20, 30])) = Some (c3, 30)"
proof -
  let ?t = "st_from_iter integers [10, 20, 30]"
  have h: "node_height ?t < MAX_DEPTH" by code_simp
  show ?thesis
    using cursor_slice_splits[OF int_sums.two_dims_axioms _ h, of "\<lambda>d. cmp 2 d" Right 2]
    by (auto simp: ints.from_iter_seq seek_mono_def target_in_def cmp_def Sum_def)
qed

text \<open>
  C18: A cursor is a state machine over positions. Any sequence of \<open>next\<close>, \<open>prev\<close> and \<open>reset\<close> calls
  runs without a panic, and afterwards the cursor reads the item the abstract position machine
  points at: \<open>next\<close> and \<open>prev\<close> move by one item, stop at the end and before the beginning, and a
  \<open>prev\<close> on a fresh cursor starts from the last item.
\<close>

theorem cursor_moves_refine:
  assumes "dim_laws D V M" "st_wf D V t" "node_height t < MAX_DEPTH"
  shows "\<exists>c. cursor_run M ms (cursor_new M t) = Some c \<and>
    (did_seek c \<longleftrightarrow> fold (pos_move (length (to_list t))) ms Fresh \<noteq> Fresh) \<and>
    (did_seek c \<longrightarrow> cursor_item c = Some (pos_item (to_list t) (fold (pos_move (length (to_list t))) ms Fresh)))"
proof -
  let ?p = "fold (pos_move (length (to_list t))) ms Fresh"
  have "cursor_rel D M t Fresh (cursor_new M t)" by simp
  from dim_laws.cursor_run_rel[OF assms this] obtain c where
    c: "cursor_run M ms (cursor_new M t) = Some c" "cursor_rel D M t ?p c" by blast
  have "did_seek c \<longleftrightarrow> ?p \<noteq> Fresh"
    using c(2) by (cases ?p) (auto simp: cursor_new_def cursor_before_def cursor_at_def)
  with c dim_laws.cursor_rel_item[OF assms(1,2) c(2)] show ?thesis by blast
qed

lemma cursor_moves_refine_witness:
  "\<exists>c. cursor_run Count [Prev, Prev, Next] (cursor_new Count (st_from_iter integers [10, 20, 30])) = Some c \<and>
       cursor_item c = Some (Some 30)"
proof -
  let ?t = "st_from_iter integers [10, 20, 30]"
  have h: "node_height ?t < MAX_DEPTH" by code_simp
  show ?thesis
    using cursor_moves_refine[OF ints.dim_laws_axioms _ h, of "[Prev, Prev, Next]"]
    by (auto simp: ints.from_iter_seq vec_get_def)
qed

text \<open>
  C24: Iteration is complete and terminates: the cursor's iterator and the position-free \<open>Iter\<close> both
  yield every item of the tree in order and then stop, and the filtered cursor yields exactly the
  items whose own summary passes the filter, provided a node's summary passes whenever the summary
  of one of its children does.
\<close>

theorem iteration_complete:
  assumes "dim_laws D V M" "st_wf D V t" "node_height t < MAX_DEPTH" "filter_sound D V f"
  shows "cursor_collect M (cursor_new M t) = Some (to_list t) \<and>
    iter_collect (iter_new t) = Some (to_list t) \<and>
    filter_collect M (filter_new M t f) = Some (filter (\<lambda>x. f (item_summary D x)) (to_list t))"
  using dim_laws.cursor_collect_new[OF assms(1-3)] sum_laws.iter_collect_new[OF dim_laws.axioms(1)[OF assms(1)] assms(2,3)]
    dim_laws.filter_collect_new[OF assms] by simp_all

lemma iteration_complete_witness:
  "filter_collect Count (filter_new Count (st_from_iter integers [3, 4, 5, 6]) contains_even) = Some [4, 6] \<and>
   iter_collect (iter_new (st_from_iter integers [3, 4, 5, 6])) = Some [3, 4, 5, 6]"
proof -
  let ?t = "st_from_iter integers [3, 4, 5, 6]"
  have h: "node_height ?t < MAX_DEPTH" by code_simp
  have f: "filter_sound integers (\<lambda>_. True) contains_even" by (simp add: filter_sound_def integers_def)
  show ?thesis
    using iteration_complete[OF ints.dim_laws_axioms _ h f] by (simp add: ints.from_iter_seq)
qed

end
