(* ===== verification/Patch.thy ===== *)
theory Patch
  imports Prelude
begin

section \<open>Patches between two texts (crates/text/src/patch.rs)\<close>

text \<open>
  A \<open>Patch\<close> is a list of edits, each a range of the old text and the range of the new text that
  replaces it. The positions are the code's \<open>usize\<close> offsets as natural numbers; a subtraction that
  would underflow is a panic, the value \<open>None\<close>. Composition keeps the peeked head of each edit list
  as the code does, truncating it in place.
\<close>

subsection \<open>Edits\<close>

record range =
  range_start :: nat
  range_end :: nat

record edit =
  old :: range
  new :: range

definition range_of :: "nat \<Rightarrow> nat \<Rightarrow> range" where
  "range_of s e = \<lparr>range_start = s, range_end = e\<rparr>"

definition edit_of :: "nat \<Rightarrow> nat \<Rightarrow> nat \<Rightarrow> nat \<Rightarrow> edit" where
  "edit_of os oe ns ne = \<lparr>old = range_of os oe, new = range_of ns ne\<rparr>"

definition edit_is_empty :: "edit \<Rightarrow> bool" where
  "edit_is_empty e \<longleftrightarrow> range_start (old e) = range_end (old e) \<and> range_start (new e) = range_end (new e)"

definition old_len :: "edit \<Rightarrow> nat option" where
  "old_len e = checked_sub (range_end (old e)) (range_start (old e))"

definition new_len :: "edit \<Rightarrow> nat option" where
  "new_len e = checked_sub (range_end (new e)) (range_start (new e))"

subsection \<open>Patches\<close>

type_synonym patch = "edit list"

definition patch_empty :: patch where "patch_empty = []"

text \<open>The assertions of \<open>Patch::new\<close> in a debug build: each edit starts past the end of the last.\<close>

fun edits_separated :: "edit list \<Rightarrow> bool" where
  "edits_separated (e # f # es) \<longleftrightarrow>
     range_end (old e) < range_start (old f) \<and> range_end (new e) < range_start (new f) \<and>
     edits_separated (f # es)"
| "edits_separated es \<longleftrightarrow> True"

definition patch_new :: "edit list \<Rightarrow> patch option" where
  "patch_new edits = (if edits_separated edits then Some edits else None)"

definition patch_invert :: "patch \<Rightarrow> patch" where
  "patch_invert p = map (\<lambda>e. \<lparr>old = new e, new = old e\<rparr>) p"

definition patch_clear :: "patch \<Rightarrow> patch" where
  "patch_clear p = []"

definition patch_is_empty :: "patch \<Rightarrow> bool" where
  "patch_is_empty p \<longleftrightarrow> p = []"

definition push_maybe_empty :: "patch \<Rightarrow> edit \<Rightarrow> patch" where
  "push_maybe_empty p e =
     (case vec_last p of
        Some l \<Rightarrow>
          (if range_start (old e) \<le> range_end (old l)
           then butlast p @ [l\<lparr>old := (old l)\<lparr>range_end := range_end (old e)\<rparr>,
                               new := (new l)\<lparr>range_end := range_end (new e)\<rparr>\<rparr>]
           else p @ [e])
      | None \<Rightarrow> p @ [e])"

definition patch_push :: "patch \<Rightarrow> edit \<Rightarrow> patch" where
  "patch_push p e = (if edit_is_empty e then p else push_maybe_empty p e)"

definition patch_retain_mut :: "(edit \<Rightarrow> edit \<times> bool) \<Rightarrow> patch \<Rightarrow> patch" where
  "patch_retain_mut f p = map fst (filter snd (map f p))"

subsection \<open>Composition\<close>

definition is_none_or :: "('x \<Rightarrow> bool) \<Rightarrow> 'x option \<Rightarrow> bool" where
  "is_none_or f o1 = (case o1 of None \<Rightarrow> True | Some x \<Rightarrow> f x)"

text \<open>
  The two turns that copy an edit lying before the other list's next one. They return the new
  positions and the extended patch.
\<close>

definition push_old_edit :: "edit \<Rightarrow> nat \<Rightarrow> nat \<Rightarrow> patch \<Rightarrow> (nat \<times> nat \<times> patch) option" where
  "push_old_edit old_edit old_start new_start composed =
     do { catchup \<leftarrow> checked_sub (range_start (old old_edit)) old_start;
          let old_start = old_start + catchup;
          let new_start = new_start + catchup;
          ol \<leftarrow> old_len old_edit;
          let old_end = old_start + ol;
          nl \<leftarrow> new_len old_edit;
          let new_end = new_start + nl;
          Some (old_end, new_end, patch_push composed (edit_of old_start old_end new_start new_end)) }"

definition push_new_edit :: "edit \<Rightarrow> nat \<Rightarrow> nat \<Rightarrow> patch \<Rightarrow> (nat \<times> nat \<times> patch) option" where
  "push_new_edit new_edit old_start new_start composed =
     do { catchup \<leftarrow> checked_sub (range_start (new new_edit)) new_start;
          let old_start = old_start + catchup;
          let new_start = new_start + catchup;
          ol \<leftarrow> old_len new_edit;
          let old_end = old_start + ol;
          nl \<leftarrow> new_len new_edit;
          let new_end = new_start + nl;
          Some (old_end, new_end, patch_push composed (edit_of old_start old_end new_start new_end)) }"

text \<open>The head of two intersecting edits, up to the point where both have started.\<close>

definition align_heads ::
  "edit \<Rightarrow> edit \<Rightarrow> nat \<Rightarrow> nat \<Rightarrow> patch \<Rightarrow> (edit \<times> edit \<times> nat \<times> nat \<times> patch) option" where
  "align_heads old_edit new_edit old_start new_start composed =
     (if range_start (new old_edit) < range_start (old new_edit) then
        do { catchup \<leftarrow> checked_sub (range_start (old old_edit)) old_start;
             let old_start = old_start + catchup;
             let new_start = new_start + catchup;
             overshoot \<leftarrow> checked_sub (range_start (old new_edit)) (range_start (new old_edit));
             let old_end = min (old_start + overshoot) (range_end (old old_edit));
             let new_end = new_start + overshoot;
             Some (old_edit\<lparr>old := (old old_edit)\<lparr>range_start := old_end\<rparr>,
                            new := (new old_edit)\<lparr>range_start := range_start (new old_edit) + overshoot\<rparr>\<rparr>,
                   new_edit, old_end, new_end,
                   patch_push composed (edit_of old_start old_end new_start new_end)) }
      else
        do { catchup \<leftarrow> checked_sub (range_start (new new_edit)) new_start;
             let old_start = old_start + catchup;
             let new_start = new_start + catchup;
             overshoot \<leftarrow> checked_sub (range_start (new old_edit)) (range_start (old new_edit));
             let old_end = old_start + overshoot;
             let new_end = min (new_start + overshoot) (range_end (new new_edit));
             Some (old_edit,
                   new_edit\<lparr>old := (old new_edit)\<lparr>range_start := range_start (old new_edit) + overshoot\<rparr>,
                            new := (new new_edit)\<lparr>range_start := new_end\<rparr>\<rparr>, old_end, new_end,
                   patch_push composed (edit_of old_start old_end new_start new_end)) })"

text \<open>
  The common part of two aligned edits: the one that ends first is used up, the other is truncated
  (\<open>Inl\<close>: the old edit remains, \<open>Inr\<close>: the new one).
\<close>

definition merge_heads ::
  "edit \<Rightarrow> edit \<Rightarrow> nat \<Rightarrow> nat \<Rightarrow> patch \<Rightarrow> ((edit + edit) \<times> nat \<times> nat \<times> patch) option" where
  "merge_heads old_edit new_edit old_start new_start composed =
     (if range_end (old new_edit) < range_end (new old_edit) then
        do { ol \<leftarrow> old_len old_edit;
             nol \<leftarrow> old_len new_edit;
             let old_end = old_start + min ol nol;
             nl \<leftarrow> new_len new_edit;
             let new_end = new_start + nl;
             Some (Inl (old_edit\<lparr>old := (old old_edit)\<lparr>range_start := old_end\<rparr>,
                                new := (new old_edit)\<lparr>range_start := range_end (old new_edit)\<rparr>\<rparr>),
                   old_end, new_end,
                   patch_push composed (edit_of old_start old_end new_start new_end)) }
      else
        do { ol \<leftarrow> old_len old_edit;
             let old_end = old_start + ol;
             onl \<leftarrow> new_len old_edit;
             nl \<leftarrow> new_len new_edit;
             let new_end = new_start + min onl nl;
             Some (Inr (new_edit\<lparr>old := (old new_edit)\<lparr>range_start := range_end (new old_edit)\<rparr>,
                                new := (new new_edit)\<lparr>range_start := new_end\<rparr>\<rparr>), old_end, new_end,
                   patch_push composed (edit_of old_start old_end new_start new_end)) })"

function compose_loop :: "edit list \<Rightarrow> edit list \<Rightarrow> nat \<Rightarrow> nat \<Rightarrow> patch \<Rightarrow> patch option" where
  "compose_loop old_edits new_edits old_start new_start composed =
     (if old_edits \<noteq> [] \<and>
         is_none_or (\<lambda>new_edit. range_end (new (hd old_edits)) < range_start (old new_edit)) (vec_get new_edits 0)
      then case push_old_edit (hd old_edits) old_start new_start composed of
             None \<Rightarrow> None
           | Some (os, ns, c) \<Rightarrow> compose_loop (tl old_edits) new_edits os ns c
      else if new_edits \<noteq> [] \<and>
         is_none_or (\<lambda>old_edit. range_end (old (hd new_edits)) < range_start (new old_edit)) (vec_get old_edits 0)
      then case push_new_edit (hd new_edits) old_start new_start composed of
             None \<Rightarrow> None
           | Some (os, ns, c) \<Rightarrow> compose_loop old_edits (tl new_edits) os ns c
      else if old_edits \<noteq> [] \<and> new_edits \<noteq> []
      then case align_heads (hd old_edits) (hd new_edits) old_start new_start composed of
             None \<Rightarrow> None
           | Some (oe, ne, os, ns, c) \<Rightarrow>
               (case merge_heads oe ne os ns c of
                  None \<Rightarrow> None
                | Some (Inl oe', os', ns', c') \<Rightarrow>
                    compose_loop (oe' # tl old_edits) (tl new_edits) os' ns' c'
                | Some (Inr ne', os', ns', c') \<Rightarrow>
                    compose_loop (tl old_edits) (ne' # tl new_edits) os' ns' c')
      else Some composed)"
  by pat_completeness auto
termination
  by (relation "measure (\<lambda>(os, ns, _). length os + length ns)") (auto simp: neq_Nil_conv)

declare compose_loop.simps [simp del]

definition patch_compose :: "patch \<Rightarrow> edit list \<Rightarrow> patch option" where
  "patch_compose p new_edits = compose_loop p new_edits 0 0 []"

subsection \<open>Translating positions\<close>

text \<open>
  \<open>binary_search_by\<close> on a slice whose elements compare in increasing order: the index of an equal
  element, or the index where one would be inserted.
\<close>

definition binary_search_by :: "('x \<Rightarrow> ordering) \<Rightarrow> 'x list \<Rightarrow> nat + nat" where
  "binary_search_by f xs =
     (let i = length (takeWhile (\<lambda>x. f x = Less) xs)
      in case vec_get xs i of Some x \<Rightarrow> if f x = Equal then Inr i else Inl i | None \<Rightarrow> Inl i)"

definition edit_index :: "edit list \<Rightarrow> nat \<Rightarrow> nat option" where
  "edit_index edits pos =
     (case binary_search_by (\<lambda>probe. cmp (range_start (old probe)) pos) edits of
        Inr ix \<Rightarrow> Some ix
      | Inl ix \<Rightarrow> if ix = 0 then None else Some (ix - 1))"

definition old_to_new :: "patch \<Rightarrow> nat \<Rightarrow> nat" where
  "old_to_new p pos =
     (case edit_index p pos of
        None \<Rightarrow> pos
      | Some ix \<Rightarrow>
          (case vec_get p ix of
             Some e \<Rightarrow> if range_end (old e) \<le> pos then range_end (new e) + (pos - range_end (old e))
                       else range_start (new e)
           | None \<Rightarrow> pos))"

definition edit_for_old_position :: "patch \<Rightarrow> nat \<Rightarrow> edit" where
  "edit_for_old_position p pos =
     (case edit_index p pos of
        None \<Rightarrow> edit_of pos pos pos pos
      | Some ix \<Rightarrow>
          (case vec_get p ix of
             Some e \<Rightarrow>
               if range_end (old e) < pos
               then (let translated = range_end (new e) + (pos - range_end (old e))
                     in edit_of pos pos translated translated)
               else e
           | None \<Rightarrow> edit_of pos pos pos pos))"

end
