(* ===== verification/Patch_Correct.thy ===== *)
theory Patch_Correct
  imports Patch
begin

section \<open>Patches are correct\<close>

text \<open>
  What a patch means: it relates two texts that agree outside its edits. Composition of a patch
  between \<open>a\<close> and \<open>b\<close> with the edits between \<open>b\<close> and \<open>c\<close> is a patch between \<open>a\<close> and \<open>c\<close>, and it never
  panics. The texts are lists of any type, positions are offsets into them.
\<close>

definition agree :: "'x list \<Rightarrow> 'x list \<Rightarrow> nat \<Rightarrow> nat \<Rightarrow> nat \<Rightarrow> bool" where
  "agree a b i j d \<longleftrightarrow> i + d \<le> length a \<and> j + d \<le> length b \<and> (\<forall>k<d. a ! (i + k) = b ! (j + k))"

abbreviation ostart :: "edit \<Rightarrow> nat" where "ostart e \<equiv> range_start (old e)"
abbreviation oend :: "edit \<Rightarrow> nat" where "oend e \<equiv> range_end (old e)"
abbreviation nstart :: "edit \<Rightarrow> nat" where "nstart e \<equiv> range_start (new e)"
abbreviation nend :: "edit \<Rightarrow> nat" where "nend e \<equiv> range_end (new e)"

text \<open>The edits take the stretch \<open>i..p\<close> of the old text to the stretch \<open>j..q\<close> of the new one.\<close>

fun spans :: "'x list \<Rightarrow> 'x list \<Rightarrow> nat \<Rightarrow> nat \<Rightarrow> edit list \<Rightarrow> nat \<Rightarrow> nat \<Rightarrow> bool" where
  "spans a b i j [] p q \<longleftrightarrow> i \<le> p \<and> q = j + (p - i) \<and> agree a b i j (p - i)"
| "spans a b i j (e # es) p q \<longleftrightarrow>
     i \<le> ostart e \<and> nstart e = j + (ostart e - i) \<and> agree a b i j (ostart e - i) \<and>
     ostart e \<le> oend e \<and> oend e \<le> length a \<and> nstart e \<le> nend e \<and> nend e \<le> length b \<and>
     spans a b (oend e) (nend e) es p q"

definition patch_between :: "patch \<Rightarrow> 'x list \<Rightarrow> 'x list \<Rightarrow> bool" where
  "patch_between es a b \<longleftrightarrow> spans a b 0 0 es (length a) (length b)"

lemma range_of_simps [simp]: "range_start (range_of s e) = s" "range_end (range_of s e) = e"
  by (simp_all add: range_of_def)

lemma edit_of_simps [simp]:
  "old (edit_of os oe ns ne) = range_of os oe" "new (edit_of os oe ns ne) = range_of ns ne"
  by (simp_all add: edit_of_def)

lemma edit_eta [simp]: "\<lparr>old = old e, new = new e\<rparr> = e"
  by (cases e) simp

subsection \<open>Agreement of two stretches\<close>

lemma agree_0 [simp]: "agree a b i j 0 \<longleftrightarrow> i \<le> length a \<and> j \<le> length b"
  by (simp add: agree_def)

lemma agree_take: "agree a b i j d \<Longrightarrow> d' \<le> d \<Longrightarrow> agree a b i j d'"
  by (auto simp: agree_def)

lemma agree_nth: "agree a b i j d \<Longrightarrow> k < d \<Longrightarrow> a ! (i + k) = b ! (j + k)"
  by (simp add: agree_def)

lemma agree_bounds: "agree a b i j d \<Longrightarrow> i + d \<le> length a \<and> j + d \<le> length b"
  by (simp add: agree_def)

lemma agreeI:
  "i + d \<le> length a \<Longrightarrow> j + d \<le> length b \<Longrightarrow> (\<And>k. k < d \<Longrightarrow> a ! (i + k) = b ! (j + k)) \<Longrightarrow> agree a b i j d"
  by (simp add: agree_def)

lemma agree_segments:
  "agree a b i j d \<longleftrightarrow> i + d \<le> length a \<and> j + d \<le> length b \<and> take d (drop i a) = take d (drop j b)"
  by (auto simp: agree_def list_eq_iff_nth_eq)

lemma agree_drop:
  assumes "agree a b i j d" "d' \<le> d"
  shows "agree a b (i + d') (j + d') (d - d')"
proof (rule agreeI)
  fix k assume "k < d - d'"
  then have "d' + k < d" by simp
  from agree_nth[OF assms(1) this] show "a ! (i + d' + k) = b ! (j + d' + k)" by (simp only: add.assoc)
qed (use agree_bounds[OF assms(1)] assms(2) in simp_all)

lemma agree_add:
  assumes "agree a b i j d" "agree a b (i + d) (j + d) d'"
  shows "agree a b i j (d + d')"
proof (rule agreeI)
  fix k assume k: "k < d + d'"
  show "a ! (i + k) = b ! (j + k)"
  proof (cases "k < d")
    case True
    then show ?thesis by (rule agree_nth[OF assms(1)])
  next
    case False
    then have "k - d < d'" "i + d + (k - d) = i + k" "j + d + (k - d) = j + k" using k by simp_all
    with agree_nth[OF assms(2)] show ?thesis by metis
  qed
qed (use agree_bounds[OF assms(2)] in simp_all)

lemma agree_trans: "agree a b i j d \<Longrightarrow> agree b c j k d \<Longrightarrow> agree a c i k d"
  by (auto simp: agree_def)

lemma agree_sym: "agree a b i j d \<Longrightarrow> agree b a j i d"
  by (auto simp: agree_def)

subsection \<open>Spans\<close>

lemma spans_bounds: "spans a b i j es p q \<Longrightarrow> i \<le> length a \<and> j \<le> length b \<and> i \<le> p \<and> j \<le> q \<and> p \<le> length a \<and> q \<le> length b"
  by (induction es arbitrary: i j) (fastforce simp: agree_def)+

text \<open>Where the first edit starts, on either side; the end when there is none.\<close>

definition lead_old :: "edit list \<Rightarrow> nat \<Rightarrow> nat" where
  "lead_old es p = (case es of [] \<Rightarrow> p | e # _ \<Rightarrow> ostart e)"

definition lead_new :: "edit list \<Rightarrow> nat \<Rightarrow> nat" where
  "lead_new es q = (case es of [] \<Rightarrow> q | e # _ \<Rightarrow> nstart e)"

lemma lead_simps [simp]:
  "lead_old [] p = p" "lead_old (e # es) p = ostart e" "lead_new [] q = q" "lead_new (e # es) q = nstart e"
  by (simp_all add: lead_old_def lead_new_def)

lemma spans_lead: "spans a b i j es p q \<Longrightarrow> i + d \<le> lead_old es p \<longleftrightarrow> j + d \<le> lead_new es q"
  by (cases es) auto

lemma spans_agree: "spans a b i j es p q \<Longrightarrow> i + d \<le> lead_old es p \<Longrightarrow> agree a b i j d"
  by (cases es) (auto intro: agree_take)

lemma spans_shift: "spans a b i j es p q \<Longrightarrow> i + d \<le> lead_old es p \<Longrightarrow> spans a b (i + d) (j + d) es p q"
  using agree_drop[of a b i j "lead_old es p - i" d] by (cases es) (auto simp: add.commute add.left_commute)

lemma spans_extend: "spans a b i j es p q \<Longrightarrow> agree a b p q d \<Longrightarrow> spans a b i j es (p + d) (q + d)"
proof (induction es arbitrary: i j)
  case Nil
  then show ?case using agree_add[of a b i j "p - i" d] by simp
qed auto

lemma spans_snoc:
  "spans a b i j (es @ [e]) p q \<longleftrightarrow>
     spans a b i j es (ostart e) (nstart e) \<and> ostart e \<le> oend e \<and> oend e \<le> length a \<and> nstart e \<le> nend e \<and>
     nend e \<le> length b \<and> oend e \<le> p \<and> q = nend e + (p - oend e) \<and> agree a b (oend e) (nend e) (p - oend e)"
  by (induction es arbitrary: i j) auto

lemma separated_successively:
  "edits_separated es = successively (\<lambda>e f. oend e < ostart f \<and> nend e < nstart f) es"
  by (induction es rule: edits_separated.induct) auto

lemma push_spans:
  assumes "spans a b i j es p q" "p \<le> p'" "p' \<le> length a" "q \<le> q'" "q' \<le> length b" "edits_separated es"
  shows "spans a b i j (patch_push es (edit_of p p' q q')) p' q' \<and> edits_separated (patch_push es (edit_of p p' q q'))"
proof (cases es rule: rev_cases)
  case Nil
  with assms show ?thesis by (auto simp: patch_push_def push_maybe_empty_def edit_is_empty_def)
next
  case (snoc us l)
  show ?thesis
  proof (cases "p = p' \<and> q = q'")
    case True
    then show ?thesis using assms by (simp add: patch_push_def edit_is_empty_def)
  next
    case False
    then have push: "patch_push es (edit_of p p' q q') = push_maybe_empty (us @ [l]) (edit_of p p' q q')"
      by (auto simp: patch_push_def edit_is_empty_def snoc)
    have l: "oend l \<le> p" "q = nend l + (p - oend l)" using assms(1) by (auto simp: snoc spans_snoc)
    show ?thesis
    proof (cases "p \<le> oend l")
      case True
      with l have "p = oend l" "q = nend l" by auto
      with assms show ?thesis unfolding push push_maybe_empty_def
        by (auto simp: snoc spans_snoc separated_successively successively_append_iff)
    next
      case False
      have "spans a b i j (us @ [l, edit_of p p' q q']) p' q'"
        using assms spans_snoc[of a b i j "us @ [l]" "edit_of p p' q q'"] by (simp add: snoc)
      with False l assms(6) show ?thesis unfolding push push_maybe_empty_def
        by (auto simp: snoc separated_successively successively_append_iff)
    qed
  qed
qed

declare spans.simps(2) [simp del]

subsection \<open>Composition\<close>

text \<open>
  The state of the composition loop: a position \<open>m\<close> of the middle text up to which both edit lists
  are used up, and the composed patch up to the two running positions.
\<close>

definition composing ::
  "'x list \<Rightarrow> 'x list \<Rightarrow> 'x list \<Rightarrow> edit list \<Rightarrow> edit list \<Rightarrow> nat \<Rightarrow> nat \<Rightarrow> nat \<Rightarrow> patch \<Rightarrow> bool" where
  "composing a b c olds news p m q composed \<longleftrightarrow>
     spans a b p m olds (length a) (length b) \<and> spans b c m q news (length b) (length c) \<and>
     spans a c 0 0 composed p q \<and> edits_separated composed"

text \<open>Both running positions move over a stretch that no edit of either list touches.\<close>

lemma composing_catchup:
  assumes "composing a b c olds news p m q composed"
    and "p + d \<le> lead_old olds (length a)" "m + d \<le> lead_old news (length b)"
  shows "composing a b c olds news (p + d) (m + d) (q + d) composed"
proof -
  have s: "spans a b p m olds (length a) (length b)" "spans b c m q news (length b) (length c)"
      "spans a c 0 0 composed p q" "edits_separated composed"
    using assms(1) by (auto simp: composing_def)
  have "agree a c p q d"
    using spans_agree[OF s(1) assms(2)] spans_agree[OF s(2) assms(3)] by (rule agree_trans)
  from spans_extend[OF s(3) this] spans_shift[OF s(1) assms(2)] spans_shift[OF s(2) assms(3)] s(4)
  show ?thesis by (simp add: composing_def)
qed

text \<open>An edit is recorded; what remains of the two lists starts at a new middle position.\<close>

lemma composing_push:
  assumes "composing a b c olds news p m q composed"
    and "spans a b p' m' olds' (length a) (length b)" "spans b c m' q' news' (length b) (length c)"
    and "p \<le> p'" "q \<le> q'"
  shows "composing a b c olds' news' p' m' q' (patch_push composed (edit_of p p' q q'))"
  using assms push_spans[of a c 0 0 composed p q p' q'] spans_bounds[OF assms(2)] spans_bounds[OF assms(3)]
  by (simp add: composing_def)

text \<open>The first edit in terms of the distances from the start of the stretch.\<close>

lemma spans_ConsE:
  assumes "spans a b i j (e # es) p q"
  obtains d x y where "ostart e = i + d" "nstart e = j + d" "oend e = i + d + x" "nend e = j + d + y"
    "i + d + x \<le> length a" "j + d + y \<le> length b" "spans a b (i + d + x) (j + d + y) es p q"
proof -
  have e: "i \<le> ostart e" "nstart e = j + (ostart e - i)" "ostart e \<le> oend e" "nstart e \<le> nend e"
      "oend e \<le> length a" "nend e \<le> length b" "spans a b (oend e) (nend e) es p q"
    using assms unfolding spans.simps by blast+
  then have "i + (ostart e - i) + (oend e - ostart e) = oend e" "j + (ostart e - i) + (nend e - nstart e) = nend e" by linarith+
  with e show thesis by (intro that[of "ostart e - i" "oend e - ostart e" "nend e - nstart e"]) simp_all
qed

lemma composingE:
  assumes "composing a b c olds news p m q composed"
  obtains "spans a b p m olds (length a) (length b)" "spans b c m q news (length b) (length c)"
  using assms unfolding composing_def by blast

lemma push_old_edit_composing:
  assumes "composing a b c (e # olds) news p m q composed" "nend e \<le> lead_old news (length b)"
  obtains p' m' q' composed' where "push_old_edit e p q composed = Some (p', q', composed')"
    "composing a b c olds news p' m' q' composed'"
proof -
  from assms(1) have "spans a b p m (e # olds) (length a) (length b)" by (rule composingE)
  then obtain d x y where e: "ostart e = p + d" "nstart e = m + d" "oend e = p + d + x" "nend e = m + d + y"
      and rest: "spans a b (p + d + x) (m + d + y) olds (length a) (length b)"
    by (rule spans_ConsE)
  have 1: "composing a b c (e # olds) news (p + d) (m + d) (q + d) composed"
    using assms e by (intro composing_catchup) simp_all
  then have "spans b c (m + d) (q + d) news (length b) (length c)" by (rule composingE)
  then have "spans b c (m + d + y) (q + d + y) news (length b) (length c)"
    by (rule spans_shift) (use assms(2) e in simp)
  from composing_push[OF 1 rest this] e show thesis
    by (intro that[of "p + d + x" "q + d + y"]) (simp_all add: push_old_edit_def old_len_def new_len_def Let_def)
qed

lemma push_new_edit_composing:
  assumes "composing a b c olds (e # news) p m q composed" "oend e \<le> lead_new olds (length b)"
  obtains p' m' q' composed' where "push_new_edit e p q composed = Some (p', q', composed')"
    "composing a b c olds news p' m' q' composed'"
proof -
  from assms(1) have olds: "spans a b p m olds (length a) (length b)" by (rule composingE)
  from assms(1) have "spans b c m q (e # news) (length b) (length c)" by (rule composingE)
  then obtain d x y where e: "ostart e = m + d" "nstart e = q + d" "oend e = m + d + x" "nend e = q + d + y"
      and rest: "spans b c (m + d + x) (q + d + y) news (length b) (length c)"
    by (rule spans_ConsE)
  have d: "p + (d + x) \<le> lead_old olds (length a)"
    using assms(2) e by (subst spans_lead[OF olds]) simp
  have 1: "composing a b c olds (e # news) (p + d) (m + d) (q + d) composed"
    using assms e d by (intro composing_catchup) simp_all
  from spans_shift[OF olds d] have "spans a b (p + d + x) (m + d + x) olds (length a) (length b)"
    by (simp add: add.assoc)
  from composing_push[OF 1 this rest] e show thesis
    by (intro that[of "p + d + x" "q + d + y"]) (simp_all add: push_new_edit_def old_len_def new_len_def Let_def)
qed

text \<open>Two intersecting edits are cut so that both start at the two running positions.\<close>

lemma spans_truncate:
  assumes "spans a b i j (e # es) p q" "ostart e \<le> x" "x \<le> oend e" "nstart e \<le> y" "y \<le> nend e"
  shows "spans a b x y (e\<lparr>old := (old e)\<lparr>range_start := x\<rparr>, new := (new e)\<lparr>range_start := y\<rparr>\<rparr> # es) p q"
  using assms by (simp add: spans.simps(2))

lemma spans_head:
  assumes "spans a b i j (e # es) p q"
  shows "spans a b (ostart e) (nstart e) (e # es) p q"
  using assms unfolding spans.simps(2) by (elim conjE) simp

definition aligned :: "edit \<Rightarrow> edit \<Rightarrow> nat \<Rightarrow> nat \<Rightarrow> nat \<Rightarrow> bool" where
  "aligned oe ne p m q \<longleftrightarrow> ostart oe = p \<and> nstart oe = m \<and> ostart ne = m \<and> nstart ne = q"

lemma align_heads_composing:
  assumes "composing a b c (oe # olds) (ne # news) p m q composed" "ostart ne \<le> nend oe" "nstart oe \<le> oend ne"
  obtains oe' ne' p' m' q' composed' where
    "align_heads oe ne p q composed = Some (oe', ne', p', q', composed')"
    "composing a b c (oe' # olds) (ne' # news) p' m' q' composed'" "aligned oe' ne' p' m' q'"
proof -
  from assms(1) have so: "spans a b p m (oe # olds) (length a) (length b)" by (rule composingE)
  then obtain d x y where o: "ostart oe = p + d" "nstart oe = m + d" "oend oe = p + d + x" "nend oe = m + d + y"
    by (rule spans_ConsE)
  from assms(1) have sn: "spans b c m q (ne # news) (length b) (length c)" by (rule composingE)
  then obtain k u v where n: "ostart ne = m + k" "nstart ne = q + k" "oend ne = m + k + u" "nend ne = q + k + v"
    by (rule spans_ConsE)
  show thesis
  proof (cases "nstart oe < ostart ne")
    case True
    then obtain w where w: "k = d + w" using o n by (metis add_less_cancel_left less_imp_add_positive)
    have 1: "composing a b c (oe # olds) (ne # news) (p + d) (m + d) (q + d) composed"
      using assms(1) o n w by (intro composing_catchup) simp_all
    let ?x = "min (p + d + w) (p + d + x)"
    let ?oe = "oe\<lparr>old := (old oe)\<lparr>range_start := ?x\<rparr>, new := (new oe)\<lparr>range_start := m + k\<rparr>\<rparr>"
    have "spans a b ?x (m + k) (?oe # olds) (length a) (length b)"
      using o n w assms(2) by (intro spans_truncate[OF so]) simp_all
    moreover have "spans b c (m + k) (q + k) (ne # news) (length b) (length c)"
      using spans_head[OF sn] n by simp
    ultimately have "composing a b c (?oe # olds) (ne # news) ?x (m + k) (q + k)
        (patch_push composed (edit_of (p + d) ?x (q + d) (q + k)))"
      using w by (intro composing_push[OF 1]) simp_all
    moreover have "align_heads oe ne p q composed =
        Some (?oe, ne, ?x, q + k, patch_push composed (edit_of (p + d) ?x (q + d) (q + k)))"
      using True o n w by (simp add: align_heads_def Let_def add.assoc)
    moreover have "aligned ?oe ne ?x (m + k) (q + k)" unfolding aligned_def using n(1,2) by simp
    ultimately show thesis by (intro that)
  next
    case False
    then obtain w where w: "d = k + w" using o n by (metis add_le_cancel_left le_iff_add not_less)
    have 1: "composing a b c (oe # olds) (ne # news) (p + k) (m + k) (q + k) composed"
      using assms(1) o n w by (intro composing_catchup) simp_all
    let ?y = "min (q + k + w) (q + k + v)"
    let ?ne = "ne\<lparr>old := (old ne)\<lparr>range_start := m + d\<rparr>, new := (new ne)\<lparr>range_start := ?y\<rparr>\<rparr>"
    have "spans b c (m + d) ?y (?ne # news) (length b) (length c)"
      using n o w assms(3) by (intro spans_truncate[OF sn]) simp_all
    moreover have "spans a b (p + d) (m + d) (oe # olds) (length a) (length b)"
      using spans_head[OF so] o by simp
    ultimately have "composing a b c (oe # olds) (?ne # news) (p + d) (m + d) ?y
        (patch_push composed (edit_of (p + k) (p + d) (q + k) ?y))"
      using w by (intro composing_push[OF 1]) simp_all
    moreover have "align_heads oe ne p q composed =
        Some (oe, ?ne, p + d, ?y, patch_push composed (edit_of (p + k) (p + d) (q + k) ?y))"
      using False o n w by (simp add: align_heads_def Let_def add.assoc)
    moreover have "aligned oe ?ne (p + d) (m + d) ?y" unfolding aligned_def using o(1,2) by simp
    ultimately show thesis by (intro that)
  qed
qed

lemma merge_heads_composing:
  assumes "composing a b c (oe # olds) (ne # news) p m q composed" "aligned oe ne p m q"
  obtains
    (old_left) oe' p' m' q' composed' where "merge_heads oe ne p q composed = Some (Inl oe', p', q', composed')"
      "composing a b c (oe' # olds) news p' m' q' composed'"
  | (new_left) ne' p' m' q' composed' where "merge_heads oe ne p q composed = Some (Inr ne', p', q', composed')"
      "composing a b c olds (ne' # news) p' m' q' composed'"
proof -
  from assms(1) have so: "spans a b p m (oe # olds) (length a) (length b)" by (rule composingE)
  then obtain d x y where o: "ostart oe = p + d" "nstart oe = m + d" "oend oe = p + d + x" "nend oe = m + d + y"
      "spans a b (p + d + x) (m + d + y) olds (length a) (length b)"
    by (rule spans_ConsE)
  from assms(1) have sn: "spans b c m q (ne # news) (length b) (length c)" by (rule composingE)
  then obtain k u v where n: "ostart ne = m + k" "nstart ne = q + k" "oend ne = m + k + u" "nend ne = q + k + v"
      "spans b c (m + k + u) (q + k + v) news (length b) (length c)"
    by (rule spans_ConsE)
  have al: "d = 0" "k = 0" using assms(2) o n by (simp_all add: aligned_def)
  show thesis
  proof (cases "oend ne < nend oe")
    case True
    let ?x = "p + min x u"
    let ?oe = "oe\<lparr>old := (old oe)\<lparr>range_start := ?x\<rparr>, new := (new oe)\<lparr>range_start := m + u\<rparr>\<rparr>"
    have "spans a b ?x (m + u) (?oe # olds) (length a) (length b)"
      using o n al True by (intro spans_truncate[OF so]) simp_all
    from composing_push[OF assms(1) this, of "q + v" news] n(5) al
    have "composing a b c (?oe # olds) news ?x (m + u) (q + v) (patch_push composed (edit_of p ?x q (q + v)))" by simp
    then show thesis
      using al o n True by (intro old_left) (simp_all add: merge_heads_def old_len_def new_len_def Let_def)
  next
    case False
    let ?y = "q + min y v"
    let ?ne = "ne\<lparr>old := (old ne)\<lparr>range_start := m + y\<rparr>, new := (new ne)\<lparr>range_start := ?y\<rparr>\<rparr>"
    have "spans b c (m + y) ?y (?ne # news) (length b) (length c)"
      using o n al False by (intro spans_truncate[OF sn]) simp_all
    from composing_push[OF assms(1) _ this, of "p + x" olds] o(5) al
    have "composing a b c olds (?ne # news) (p + x) (m + y) ?y (patch_push composed (edit_of p (p + x) q ?y))" by simp
    then show thesis
      using al o n False by (intro new_left) (simp_all add: merge_heads_def old_len_def new_len_def Let_def)
  qed
qed

lemma compose_loop_composing:
  "composing a b c olds news p m q composed \<Longrightarrow>
   \<exists>r. compose_loop olds news p q composed = Some r \<and> patch_between r a c \<and> edits_separated r"
proof (induction "length olds + length news" arbitrary: olds news p m q composed rule: less_induct)
  case less
  note inv = less.prems
  consider (old) e os where "olds = e # os" "news = [] \<or> nend e < ostart (hd news)"
    | (new) e ns where "news = e # ns" "olds = [] \<or> oend e < nstart (hd olds)"
        "\<not> (olds \<noteq> [] \<and> nend (hd olds) < ostart e)"
    | (both) oe os ne ns where "olds = oe # os" "news = ne # ns" "ostart ne \<le> nend oe" "nstart oe \<le> oend ne"
    | (none) "olds = []" "news = []"
    by (cases olds; cases news) force+
  then show ?case
  proof cases
    case old
    have "nend e \<le> lead_old news (length b)"
      using inv old by (cases news) (auto simp: composing_def dest: spans_bounds elim!: spans_ConsE)
    with inv obtain p' m' q' composed' where "push_old_edit e p q composed = Some (p', q', composed')"
      "composing a b c os news p' m' q' composed'" unfolding old(1) by (rule push_old_edit_composing)
    with less.hyps[of os news] old show ?thesis
      by (subst compose_loop.simps) (auto simp: is_none_or_def vec_get_def hd_conv_nth)
  next
    case new
    have "oend e \<le> lead_new olds (length b)"
      using inv new by (cases olds) (auto simp: composing_def dest: spans_bounds elim!: spans_ConsE)
    with inv obtain p' m' q' composed' where "push_new_edit e p q composed = Some (p', q', composed')"
      "composing a b c olds ns p' m' q' composed'" unfolding new(1) by (rule push_new_edit_composing)
    with less.hyps[of olds ns] new show ?thesis
      by (subst compose_loop.simps) (auto simp: is_none_or_def vec_get_def hd_conv_nth)
  next
    case both
    obtain oe' ne' p1 m1 q1 c1 where 1: "align_heads oe ne p q composed = Some (oe', ne', p1, q1, c1)"
      "composing a b c (oe' # os) (ne' # ns) p1 m1 q1 c1" "aligned oe' ne' p1 m1 q1"
      using inv both(3,4) unfolding both(1,2) by (rule align_heads_composing)
    from 1(2,3) show ?thesis
    proof (cases rule: merge_heads_composing)
      case (old_left oe'' p' m' q' composed')
      with less.hyps[of "oe'' # os" ns] 1 both show ?thesis
        by (subst compose_loop.simps) (auto simp: is_none_or_def vec_get_def)
    next
      case (new_left ne'' p' m' q' composed')
      with less.hyps[of os "ne'' # ns"] 1 both show ?thesis
        by (subst compose_loop.simps) (auto simp: is_none_or_def vec_get_def)
    qed
  next
    case none
    have s: "spans a b p m [] (length a) (length b)" "spans b c m q [] (length b) (length c)"
        "spans a c 0 0 composed p q" "edits_separated composed"
      using inv unfolding none composing_def by blast+
    obtain d where d: "length a = p + d" "length b = m + d" using s(1) by (auto dest: le_Suc_ex)
    then have c: "length c = q + d" using s(2) by simp
    have "agree a c p q d" using s(1,2) d by (auto intro: agree_trans)
    from spans_extend[OF s(3) this] s(4) d c none show ?thesis
      by (subst compose_loop.simps) (simp add: patch_between_def)
  qed
qed

lemma compose_between:
  assumes "patch_between p a b" "patch_between new_edits b c"
  shows "\<exists>r. patch_compose p new_edits = Some r \<and> patch_between r a c \<and> edits_separated r"
proof -
  have "composing a b c p new_edits 0 0 0 []"
    using assms by (simp add: composing_def patch_between_def)
  from compose_loop_composing[OF this] show ?thesis by (simp add: patch_compose_def)
qed

subsection \<open>Translating positions\<close>

lemma spans_mid: "spans a b i j (us @ e # vs) p q \<Longrightarrow> spans a b (oend e) (nend e) vs p q"
proof (induction us arbitrary: i j)
  case Nil
  then show ?case by (simp add: spans.simps(2))
next
  case (Cons u us)
  then show ?case by (auto simp: spans.simps(2))
qed

lemma spans_edit:
  "spans a b i j es p q \<Longrightarrow> e \<in> set es \<Longrightarrow>
   i \<le> ostart e \<and> ostart e \<le> oend e \<and> oend e \<le> p \<and> j \<le> nstart e \<and> nstart e \<le> nend e \<and> nend e \<le> q"
proof (induction es arbitrary: i j)
  case (Cons f es)
  then have f: "i \<le> ostart f" "ostart f \<le> oend f" "j \<le> nstart f" "nstart f \<le> nend f" "spans a b (oend f) (nend f) es p q"
    by (auto simp: spans.simps(2))
  show ?case
  proof (cases "e = f")
    case True
    with f spans_bounds[OF f(5)] show ?thesis by simp
  next
    case False
    with Cons.prems(2) Cons.IH[OF f(5)] f show ?thesis by fastforce
  qed
qed simp

text \<open>A separated patch has its edits in order on both sides.\<close>

lemma separated_sorted:
  assumes "spans a b i j es p q" "edits_separated es"
  shows "sorted_wrt (\<lambda>e f. oend e < ostart f \<and> nend e < nstart f) es"
  using assms
proof (induction es arbitrary: i j)
  case (Cons e es)
  show ?case
  proof (cases es)
    case (Cons f fs)
    have s: "spans a b (oend e) (nend e) es p q" using Cons.prems(1) by (simp add: spans.simps(2))
    have sep: "edits_separated es" "oend e < ostart f" "nend e < nstart f"
      using Cons.prems(2) unfolding Cons by simp_all
    have "ostart f \<le> ostart g \<and> nstart f \<le> nstart g" if "g \<in> set es" for g
    proof (cases "g = f")
      case False
      have "spans a b (oend f) (nend f) fs p q" "ostart f \<le> oend f" "nstart f \<le> nend f"
        using s unfolding Cons by (auto simp: spans.simps(2))
      with False that show ?thesis unfolding Cons using spans_edit[of a b "oend f" "nend f" fs p q g] by fastforce
    qed simp
    with Cons.IH[OF s sep(1)] sep show ?thesis by fastforce
  qed simp
qed simp

lemma edit_index_takeWhile:
  assumes "sorted_wrt (\<lambda>e f. ostart e < ostart f) es"
  shows "edit_index es pos =
    (let n = length (takeWhile (\<lambda>e. ostart e \<le> pos) es) in if n = 0 then None else Some (n - 1))"
  using assms
proof (induction es)
  case Nil
  then show ?case by (simp add: edit_index_def binary_search_by_def vec_get_def)
next
  case (Cons e es)
  have tail: "takeWhile (\<lambda>f. ostart f \<le> pos) es = []" "takeWhile (\<lambda>f. ostart f < pos) es = []" if "pos \<le> ostart e"
    using that Cons.prems by (cases es; simp)+
  have IH: "edit_index es pos =
    (let n = length (takeWhile (\<lambda>e. ostart e \<le> pos) es) in if n = 0 then None else Some (n - 1))"
    using Cons by simp
  consider "ostart e < pos" | "ostart e = pos" | "pos < ostart e" by linarith
  then show ?case
  proof cases
    case 1
    with IH show ?thesis
      by (auto simp: edit_index_def binary_search_by_def vec_get_def Let_def split: if_splits)
         (metis One_nat_def Suc_pred length_greater_0_conv)+
  qed (use tail in \<open>auto simp: edit_index_def binary_search_by_def vec_get_def Let_def\<close>)
qed

text \<open>The edits that start at or before a position, and the last one of them.\<close>

lemma edit_index_last:
  assumes "sorted_wrt (\<lambda>e f. ostart e < ostart f) es"
  obtains (before) "edit_index es pos = None" "es = [] \<or> pos < ostart (hd es)"
  | (at) us e vs where "es = us @ e # vs" "edit_index es pos = Some (length us)" "ostart e \<le> pos"
      "vs = [] \<or> pos < ostart (hd vs)"
proof (cases "takeWhile (\<lambda>e. ostart e \<le> pos) es" rule: rev_cases)
  case Nil
  then show thesis using edit_index_takeWhile[OF assms, of pos]
    by (intro before) (auto simp: takeWhile_eq_Nil_iff not_le)
next
  case (snoc us e)
  define vs where "vs = dropWhile (\<lambda>e. ostart e \<le> pos) es"
  have "es = us @ e # vs" using snoc takeWhile_dropWhile_id[of "\<lambda>e. ostart e \<le> pos" es] by (simp add: vs_def)
  moreover have "ostart e \<le> pos" using snoc set_takeWhileD[of e "\<lambda>e. ostart e \<le> pos" es] by simp
  moreover have "vs = [] \<or> pos < ostart (hd vs)"
    using hd_dropWhile[of "\<lambda>e. ostart e \<le> pos" es] unfolding vs_def by (metis not_le)
  moreover have "edit_index es pos = Some (length us)" using edit_index_takeWhile[OF assms, of pos] snoc by simp
  ultimately show thesis by (intro at)
qed

lemma starts_sorted:
  assumes "patch_between es a b" "edits_separated es"
  shows "sorted_wrt (\<lambda>e f. ostart e < ostart f) es"
proof (rule sorted_wrt_mono_rel[OF _ separated_sorted])
  show "spans a b 0 0 es (length a) (length b)" "edits_separated es" using assms by (simp_all add: patch_between_def)
  fix e f assume "e \<in> set es" "f \<in> set es" "oend e < ostart f \<and> nend e < nstart f"
  then show "ostart e < ostart f" using spans_edit[of a b 0 0 es] assms by (force simp: patch_between_def)
qed

text \<open>The four situations of a position: before the first edit, inside one, at or after the end of one.\<close>

lemma position_cases:
  assumes "patch_between es a b" "edits_separated es" "pos \<le> length a"
  obtains (first) "edit_index es pos = None" "agree a b 0 0 pos" "es = [] \<or> pos < ostart (hd es)"
      "pos < length a \<Longrightarrow> agree a b 0 0 (Suc pos)"
  | (inside) us e vs where "es = us @ e # vs" "edit_index es pos = Some (length us)" "ostart e \<le> pos" "pos < oend e"
  | (after) us e vs where "es = us @ e # vs" "edit_index es pos = Some (length us)" "oend e \<le> pos"
      "vs = [] \<or> pos < ostart (hd vs)" "agree a b (oend e) (nend e) (pos - oend e)"
      "pos < length a \<Longrightarrow> agree a b (oend e) (nend e) (Suc pos - oend e)"
proof -
  have s: "spans a b 0 0 es (length a) (length b)" using assms(1) by (simp add: patch_between_def)
  show thesis
  proof (cases rule: edit_index_last[OF starts_sorted[OF assms(1,2)], of pos])
    case 1
    have "pos \<le> lead_old es (length a)" "pos < length a \<Longrightarrow> Suc pos \<le> lead_old es (length a)"
      using 1(2) assms(3) by (auto simp: lead_old_def split: list.splits)
    with spans_agree[OF s, of pos] spans_agree[OF s, of "Suc pos"] 1 show thesis by (intro first) auto
  next
    case (2 us e vs)
    show thesis
    proof (cases "pos < oend e")
      case True
      with 2 show thesis by (intro inside)
    next
      case False
      have sv: "spans a b (oend e) (nend e) vs (length a) (length b)" using spans_mid s unfolding 2(1) by blast
      have "oend e + (pos - oend e) \<le> lead_old vs (length a)"
        "pos < length a \<Longrightarrow> oend e + (Suc pos - oend e) \<le> lead_old vs (length a)"
        using 2(4) assms(3) False by (auto simp: lead_old_def split: list.splits)
      with spans_agree[OF sv] 2 False show thesis by (intro after) auto
    qed
  qed
qed

subsection \<open>Inversion\<close>

lemma invert_spans: "spans a b i j es p q \<Longrightarrow> spans b a j i (patch_invert es) q p"
proof (induction es arbitrary: i j)
  case Nil
  then show ?case by (auto simp: patch_invert_def intro: agree_sym)
next
  case (Cons e es)
  from Cons.prems obtain d where d: "ostart e = i + d" "nstart e = j + d" by (rule spans_ConsE)
  have "agree a b i j d" using spans_agree[OF Cons.prems, of d] d by simp
  then have "agree b a j i d" by (rule agree_sym)
  with Cons d show ?case by (auto simp: patch_invert_def spans.simps(2))
qed

lemma invert_separated: "edits_separated (patch_invert es) = edits_separated es"
  by (induction es rule: edits_separated.induct) (auto simp: patch_invert_def)

subsection \<open>The properties\<close>

definition demo_edits :: "edit list" where
  "demo_edits = [edit_of 1 3 1 4, edit_of 5 5 6 7]"

definition demo_edits2 :: "edit list" where
  "demo_edits2 = [edit_of 0 0 0 1, edit_of 2 5 3 4]"

abbreviation demo_a :: "nat list" where "demo_a \<equiv> [10, 11, 12, 13, 14]"
abbreviation demo_b :: "nat list" where "demo_b \<equiv> [10, 21, 22, 23, 13, 14, 24]"
abbreviation demo_c :: "nat list" where "demo_c \<equiv> [30, 10, 21, 31, 14, 24]"

lemma demo_between: "patch_between demo_edits demo_a demo_b" "edits_separated demo_edits"
  "patch_between demo_edits2 demo_b demo_c"
  by (simp_all add: patch_between_def demo_edits_def demo_edits2_def spans.simps(2) agree_segments)

text \<open>
  C2: Composing a patch between \<open>a\<close> and \<open>b\<close> with edits between \<open>b\<close> and \<open>c\<close>, in whatever way their
  ranges overlap, terminates without a panic (no subtraction underflows) in a patch between \<open>a\<close>
  and \<open>c\<close>: the two texts agree outside its edits. Its edits are separated on both sides, so they
  pass the assertions of \<open>Patch::new\<close>.
\<close>

theorem patch_compose_correct:
  assumes "patch_between p a b" "patch_between new_edits b c"
  shows "\<exists>r. patch_compose p new_edits = Some r \<and> patch_between r a c \<and> patch_new r = Some r"
  using compose_between[OF assms] by (auto simp: patch_new_def)

lemma patch_compose_correct_witness:
  "\<exists>r. patch_compose demo_edits demo_edits2 = Some r \<and> patch_between r demo_a demo_c"
  using patch_compose_correct[OF demo_between(1,3)] by blast

text \<open>
  Inverting a patch exchanges the two texts and keeps the edits separated; inverting twice is
  the identity.
\<close>

theorem patch_invert_roundtrip:
  "patch_invert (patch_invert p) = p \<and> (patch_between (patch_invert p) b a \<longleftrightarrow> patch_between p a b) \<and>
   patch_new (patch_invert p) = map_option patch_invert (patch_new p)"
proof -
  have inv: "patch_invert (patch_invert p) = p" by (simp add: patch_invert_def comp_def)
  moreover have "patch_between (patch_invert p) b a \<longleftrightarrow> patch_between p a b"
    unfolding patch_between_def using invert_spans[of a b 0 0 p] invert_spans[of b a 0 0 "patch_invert p"] inv by auto
  ultimately show ?thesis by (simp add: patch_new_def invert_separated)
qed

text \<open>
  C28: A patch translates positions the way its texts correspond: a position inside the old range of
  an edit goes to the start of the edit's new range, and any other position goes to a position of
  the new text that holds the same element.
\<close>

theorem old_to_new_correct:
  assumes "patch_between p a b" "edits_separated p" "pos \<le> length a"
  shows "(\<forall>e\<in>set p. ostart e \<le> pos \<and> pos < oend e \<longrightarrow> old_to_new p pos = nstart e) \<and>
    ((\<forall>e\<in>set p. \<not> (ostart e \<le> pos \<and> pos < oend e)) \<longrightarrow>
       old_to_new p pos \<le> length b \<and>
       (pos < length a \<longrightarrow> old_to_new p pos < length b \<and> b ! old_to_new p pos = a ! pos))"
proof -
  have s: "spans a b 0 0 p (length a) (length b)" using assms(1) by (simp add: patch_between_def)
  have sorted: "sorted_wrt (\<lambda>e f. oend e < ostart f \<and> nend e < nstart f) p" using separated_sorted[OF s assms(2)] .
  from assms show ?thesis
  proof (cases rule: position_cases)
    case first
    have "\<not> ostart e \<le> pos" if "e \<in> set p" for e
      using that first(3) starts_sorted[OF assms(1,2)] by (cases p) auto
    moreover have "old_to_new p pos = pos" using first(1) by (simp add: old_to_new_def)
    moreover have "pos \<le> length b" using agree_bounds[OF first(2)] by simp
    moreover have "pos < length b \<and> b ! pos = a ! pos" if "pos < length a"
      using agree_nth[OF first(4)[OF that], of pos] agree_bounds[OF first(4)[OF that]] by simp
    ultimately show ?thesis by simp
  next
    case (inside us e vs)
    have r: "old_to_new p pos = nstart e" using inside by (simp add: old_to_new_def vec_get_def)
    have uniq: "f = e" if "f \<in> set p" "ostart f \<le> pos" "pos < oend f" for f
    proof (rule ccontr)
      assume "f \<noteq> e"
      then have "f \<in> set us \<or> f \<in> set vs" using that(1) inside(1) by auto
      then show False using sorted inside that(2,3) unfolding inside(1) by (auto simp: sorted_wrt_append)
    qed
    have "e \<in> set p" using inside(1) by simp
    with inside(3,4) uniq r show ?thesis by metis
  next
    case (after us e vs)
    have r: "old_to_new p pos = nend e + (pos - oend e)" using after(1-3) by (simp add: old_to_new_def vec_get_def)
    have "\<not> (ostart f \<le> pos \<and> pos < oend f)" if "f \<in> set p" for f
    proof -
      have "f \<in> set us \<or> f = e \<or> f \<in> set vs" using that after(1) by auto
      moreover have "oend f < ostart e" if "f \<in> set us" using sorted that unfolding after(1) by (auto simp: sorted_wrt_append)
      moreover have "ostart e \<le> oend e" using spans_edit[OF s, of e] after(1) by simp
      moreover have "pos < ostart f" if "f \<in> set vs"
        using starts_sorted[OF assms(1,2)] that after(4) unfolding after(1) by (cases vs) (auto simp: sorted_wrt_append)
      ultimately show ?thesis using after(3) by fastforce
    qed
    moreover have "b ! (nend e + (pos - oend e)) = a ! pos" "nend e + (pos - oend e) < length b" if "pos < length a"
      using agree_nth[OF after(6)[OF that], of "pos - oend e"] agree_bounds[OF after(6)[OF that]] after(3)
      by (simp, linarith)
    ultimately show ?thesis using agree_bounds[OF after(5)] r by auto
  qed
qed

lemma old_to_new_correct_witness:
  "old_to_new demo_edits 2 = 1 \<and> demo_b ! old_to_new demo_edits 3 = demo_a ! 3"
  using old_to_new_correct[OF demo_between(1,2), of 2] old_to_new_correct[OF demo_between(1,2), of 3]
  by (simp add: demo_edits_def)

text \<open>
  C0: \<open>edit_for_old_position\<close> returns an edit that touches the position (ends included): the one of
  the patch that does, or an empty edit whose new position is the translation of the position.
\<close>

theorem edit_for_old_position_correct:
  assumes "patch_between p a b" "edits_separated p" "pos \<le> length a" "r = edit_for_old_position p pos"
  shows "ostart r \<le> pos \<and> pos \<le> oend r \<and>
    (if \<exists>e\<in>set p. ostart e \<le> pos \<and> pos \<le> oend e then r \<in> set p
     else r = edit_of pos pos (old_to_new p pos) (old_to_new p pos))"
proof -
  have s: "spans a b 0 0 p (length a) (length b)" using assms(1) by (simp add: patch_between_def)
  have sorted: "sorted_wrt (\<lambda>e f. oend e < ostart f \<and> nend e < nstart f) p" using separated_sorted[OF s assms(2)] .
  from assms(1-3) show ?thesis
  proof (cases rule: position_cases)
    case first
    have "\<not> ostart e \<le> pos" if "e \<in> set p" for e
      using that first(3) starts_sorted[OF assms(1,2)] by (cases p) auto
    then show ?thesis using first(1) assms(4) by (auto simp: edit_for_old_position_def old_to_new_def)
  next
    case (inside us e vs)
    then have "r = e" using assms(4) by (simp add: edit_for_old_position_def vec_get_def)
    with inside show ?thesis by auto
  next
    case (after us e vs)
    have se: "ostart e \<le> oend e" using spans_edit[OF s, of e] after(1) by simp
    show ?thesis
    proof (cases "pos = oend e")
      case True
      then have "r = e" using assms(4) after(1,2) by (simp add: edit_for_old_position_def vec_get_def)
      with True se after(1) show ?thesis by auto
    next
      case False
      then have r: "r = edit_of pos pos (old_to_new p pos) (old_to_new p pos)"
        using assms(4) after(1-3) by (simp add: edit_for_old_position_def old_to_new_def vec_get_def Let_def)
      have "\<not> (ostart f \<le> pos \<and> pos \<le> oend f)" if "f \<in> set p" for f
      proof -
        have "f \<in> set us \<or> f = e \<or> f \<in> set vs" using that after(1) by auto
        moreover have "oend f < ostart e" if "f \<in> set us" using sorted that unfolding after(1) by (auto simp: sorted_wrt_append)
        moreover have "pos < ostart f" if "f \<in> set vs"
          using starts_sorted[OF assms(1,2)] that after(4) unfolding after(1) by (cases vs) (auto simp: sorted_wrt_append)
        ultimately show ?thesis using after(3) se False by fastforce
      qed
      with r show ?thesis by auto
    qed
  qed
qed

lemma edit_for_old_position_correct_witness:
  "\<exists>r. r = edit_for_old_position demo_edits 3 \<and> r \<in> set demo_edits"
  using edit_for_old_position_correct[OF demo_between(1,2) _ refl, of 3] by (auto simp: demo_edits_def split: if_splits)

end
