(* ===== verification/Subscription.thy ===== *)
theory Subscription
  imports Patch_Correct
begin

section \<open>Edit subscriptions (crates/text/src/subscription.rs)\<close>

text \<open>
  A \<open>Topic\<close> holds weak references to the patches of its subscribers; a \<open>Subscription\<close> owns its patch
  behind a mutex. The shared patches are an explicit store from references to values: a reference
  is live as long as its subscription is, dropping the subscription frees it. Every method holds the
  lock for its whole body, so the interleavings of a program are the sequences of these operations.
\<close>

type_synonym patch_ref = nat

record topic =
  weak_refs :: "patch_ref list"
  patches :: "patch_ref \<rightharpoonup> patch"
  next_ref :: patch_ref

definition topic_default :: topic where
  "topic_default = \<lparr>weak_refs = [], patches = Map.empty, next_ref = 0\<rparr>"

definition subscribe :: "topic \<Rightarrow> topic \<times> patch_ref" where
  "subscribe t =
     (t\<lparr>weak_refs := weak_refs t @ [next_ref t], patches := (patches t)(next_ref t \<mapsto> patch_empty),
        next_ref := Suc (next_ref t)\<rparr>, next_ref t)"

text \<open>\<open>retain\<close> over the weak references: the live ones compose the edits onto their patch.\<close>

fun publish_refs ::
  "edit list \<Rightarrow> patch_ref list \<Rightarrow> (patch_ref \<rightharpoonup> patch) \<Rightarrow> (patch_ref list \<times> (patch_ref \<rightharpoonup> patch)) option" where
  "publish_refs edits [] m = Some ([], m)"
| "publish_refs edits (r # rs) m =
     (case m r of
        None \<Rightarrow> publish_refs edits rs m
      | Some p \<Rightarrow>
          do { p' \<leftarrow> patch_compose p edits;
               (rs', m') \<leftarrow> publish_refs edits rs (m(r \<mapsto> p'));
               Some (r # rs', m') })"

definition publish :: "edit list \<Rightarrow> topic \<Rightarrow> topic option" where
  "publish edits t =
     do { (rs, m) \<leftarrow> publish_refs edits (weak_refs t) (patches t);
          Some (t\<lparr>weak_refs := rs, patches := m\<rparr>) }"

definition consume :: "patch_ref \<Rightarrow> topic \<Rightarrow> (topic \<times> patch) option" where
  "consume r t =
     do { p \<leftarrow> patches t r; Some (t\<lparr>patches := (patches t)(r \<mapsto> patch_empty)\<rparr>, p) }"

definition drop_subscription :: "patch_ref \<Rightarrow> topic \<Rightarrow> topic" where
  "drop_subscription r t = t\<lparr>patches := (patches t)(r := None)\<rparr>"

subsection \<open>Any interleaving of subscribers and publications\<close>

text \<open>
  The topic together with the text it publishes edits of and, for each live subscription, the text
  when it last consumed its patch (or subscribed).
\<close>

record 'x topic_world =
  topic_of :: topic
  text_of :: "'x list"
  seen :: "patch_ref \<rightharpoonup> 'x list"

inductive topic_step :: "'x topic_world \<Rightarrow> 'x topic_world \<Rightarrow> bool" where
  step_subscribe: "subscribe (topic_of w) = (t', r) \<Longrightarrow>
     topic_step w (w\<lparr>topic_of := t', seen := (seen w)(r \<mapsto> text_of w)\<rparr>)"
| step_publish: "patch_between edits (text_of w) text' \<Longrightarrow> publish edits (topic_of w) = Some t' \<Longrightarrow>
     topic_step w (w\<lparr>topic_of := t', text_of := text'\<rparr>)"
| step_consume: "consume r (topic_of w) = Some (t', p) \<Longrightarrow>
     topic_step w (w\<lparr>topic_of := t', seen := (seen w)(r \<mapsto> text_of w)\<rparr>)"
| step_drop: "topic_step w (w\<lparr>topic_of := drop_subscription r (topic_of w), seen := (seen w)(r := None)\<rparr>)"

inductive topic_reachable :: "'x topic_world \<Rightarrow> bool" where
  reach_init: "topic_reachable \<lparr>topic_of = topic_default, text_of = xs, seen = Map.empty\<rparr>"
| reach_step: "topic_reachable w \<Longrightarrow> topic_step w w' \<Longrightarrow> topic_reachable w'"

definition topic_inv :: "'x topic_world \<Rightarrow> bool" where
  "topic_inv w \<longleftrightarrow>
     distinct (weak_refs (topic_of w)) \<and> dom (patches (topic_of w)) \<subseteq> set (weak_refs (topic_of w)) \<and>
     set (weak_refs (topic_of w)) \<subseteq> {..<next_ref (topic_of w)} \<and>
     dom (seen w) = dom (patches (topic_of w)) \<and>
     (\<forall>r p xs. patches (topic_of w) r = Some p \<longrightarrow> seen w r = Some xs \<longrightarrow> patch_between p xs (text_of w))"

lemma patch_between_refl: "patch_between patch_empty xs xs"
  by (simp add: patch_between_def patch_empty_def agree_def)

text \<open>A publication reaches every live subscriber once and forgets the dead references.\<close>

lemma publish_refs_spec:
  assumes "distinct rs" "\<And>r. r \<in> set rs \<Longrightarrow> m r \<noteq> None \<Longrightarrow> patch_compose (the (m r)) edits \<noteq> None"
  shows "publish_refs edits rs m =
    Some (filter (\<lambda>r. m r \<noteq> None) rs,
          \<lambda>r. if r \<in> set rs then (case m r of None \<Rightarrow> None | Some p \<Rightarrow> patch_compose p edits) else m r)"
  using assms
proof (induction rs arbitrary: m)
  case (Cons r rs)
  show ?case
  proof (cases "m r")
    case None
    with Cons show ?thesis by (auto simp: fun_eq_iff)
  next
    case (Some p)
    then obtain p' where p': "patch_compose p edits = Some p'" using Cons.prems(2)[of r] by auto
    let ?m = "m(r \<mapsto> p')"
    have "publish_refs edits rs ?m = Some (filter (\<lambda>r. ?m r \<noteq> None) rs,
        \<lambda>r. if r \<in> set rs then (case ?m r of None \<Rightarrow> None | Some p \<Rightarrow> patch_compose p edits) else ?m r)"
    proof (rule Cons.IH)
      fix q assume "q \<in> set rs" "?m q \<noteq> None"
      then show "patch_compose (the (?m q)) edits \<noteq> None" using Cons.prems(1) Cons.prems(2)[of q] by auto
    qed (use Cons.prems(1) in simp)
    moreover have "filter (\<lambda>r. ?m r \<noteq> None) rs = filter (\<lambda>r. m r \<noteq> None) rs"
      using Cons.prems(1) by (intro filter_cong) auto
    ultimately show ?thesis using Some p' Cons.prems(1) by (auto simp: fun_eq_iff)
  qed
qed simp

lemma publish_live:
  assumes "topic_inv w" "patch_between edits (text_of w) text'"
  shows "publish edits (topic_of w) = Some ((topic_of w)\<lparr>
      weak_refs := filter (\<lambda>r. patches (topic_of w) r \<noteq> None) (weak_refs (topic_of w)),
      patches := (\<lambda>r. case patches (topic_of w) r of None \<Rightarrow> None | Some p \<Rightarrow> patch_compose p edits)\<rparr>)"
    "patches (topic_of w) r = Some p \<Longrightarrow> seen w r = Some xs \<Longrightarrow>
       \<exists>p'. patch_compose p edits = Some p' \<and> patch_between p' xs text'"
proof -
  show ok: "\<exists>p'. patch_compose p edits = Some p' \<and> patch_between p' xs text'"
    if "patches (topic_of w) r = Some p" "seen w r = Some xs" for r p xs
    using assms that compose_between[of p xs "text_of w" edits text'] by (auto simp: topic_inv_def)
  have "patch_compose (the (patches (topic_of w) r)) edits \<noteq> None" if live: "patches (topic_of w) r \<noteq> None" for r
  proof -
    obtain p where p: "patches (topic_of w) r = Some p" using live by blast
    moreover have "r \<in> dom (seen w)" using assms(1) p by (auto simp: topic_inv_def)
    then obtain xs where "seen w r = Some xs" by blast
    ultimately show ?thesis using ok by fastforce
  qed
  moreover have "distinct (weak_refs (topic_of w))" "dom (patches (topic_of w)) \<subseteq> set (weak_refs (topic_of w))"
    using assms(1) by (simp_all add: topic_inv_def)
  ultimately show "publish edits (topic_of w) = Some ((topic_of w)\<lparr>
      weak_refs := filter (\<lambda>r. patches (topic_of w) r \<noteq> None) (weak_refs (topic_of w)),
      patches := (\<lambda>r. case patches (topic_of w) r of None \<Rightarrow> None | Some p \<Rightarrow> patch_compose p edits)\<rparr>)"
    using publish_refs_spec[of "weak_refs (topic_of w)" "patches (topic_of w)" edits]
    by (force simp: publish_def fun_eq_iff intro!: topic.equality split: option.split)
qed

lemma topic_step_inv:
  assumes "topic_inv w" "topic_step w w'"
  shows "topic_inv w'"
  using assms(2)
proof cases
  case (step_subscribe t' r)
  then show ?thesis using assms(1) patch_between_refl
    by (auto simp: topic_inv_def subscribe_def split: if_splits) blast
next
  case (step_publish edits text' t')
  note live = publish_live[OF assms(1) step_publish(2)]
  have t': "t' = (topic_of w)\<lparr>weak_refs := filter (\<lambda>r. patches (topic_of w) r \<noteq> None) (weak_refs (topic_of w)),
      patches := (\<lambda>r. case patches (topic_of w) r of None \<Rightarrow> None | Some p \<Rightarrow> patch_compose p edits)\<rparr>"
    using live(1) step_publish(3) by simp
  have dom: "dom (seen w) = dom (patches (topic_of w))" using assms(1) by (simp add: topic_inv_def)
  have "dom (patches t') = dom (patches (topic_of w))"
    using live(2) dom unfolding t' by (fastforce split: option.splits)
  moreover have "patch_between p xs text'" if "patches t' r = Some p" "seen w r = Some xs" for r p xs
    using that live(2) unfolding t' by (fastforce split: option.splits)
  moreover have "distinct (weak_refs t')" "set (weak_refs t') = set (weak_refs (topic_of w)) \<inter> dom (patches (topic_of w))"
      "next_ref t' = next_ref (topic_of w)"
    using assms(1) by (auto simp: t' topic_inv_def)
  ultimately show ?thesis using assms(1) step_publish(1) by (auto simp: topic_inv_def)
next
  case (step_consume r t' p)
  then show ?thesis using assms(1) patch_between_refl
    by (auto simp: topic_inv_def consume_def split: bind_splits if_splits) blast+
next
  case (step_drop r)
  then show ?thesis using assms(1)
    by (auto simp: topic_inv_def drop_subscription_def split: if_splits)
qed

lemma topic_reachable_inv: "topic_reachable w \<Longrightarrow> topic_inv w"
proof (induction rule: topic_reachable.induct)
  case (reach_init xs)
  then show ?case by (simp add: topic_inv_def topic_default_def)
qed (rule topic_step_inv)

text \<open>
  C19: In every state that subscribing, publishing, consuming and dropping can reach, in any order
  and for any number of subscribers, a subscriber that consumes its patch gets a patch between the
  text it last saw and the current text, and a publication of edits of the current text succeeds and
  keeps exactly the live subscribers.
\<close>

theorem subscriptions_track_text:
  assumes "topic_reachable w"
  shows "(\<forall>r xs. seen w r = Some xs \<longrightarrow>
      (\<exists>t' p. consume r (topic_of w) = Some (t', p) \<and> patch_between p xs (text_of w) \<and> patches t' r = Some patch_empty)) \<and>
    (\<forall>edits text'. patch_between edits (text_of w) text' \<longrightarrow>
      (\<exists>t'. publish edits (topic_of w) = Some t' \<and> set (weak_refs t') = dom (seen w)))"
proof (intro conjI allI impI)
  have inv: "topic_inv w" using assms by (rule topic_reachable_inv)
  show "\<exists>t' p. consume r (topic_of w) = Some (t', p) \<and> patch_between p xs (text_of w) \<and> patches t' r = Some patch_empty"
    if "seen w r = Some xs" for r xs
  proof -
    have "r \<in> dom (patches (topic_of w))" using inv that by (auto simp: topic_inv_def)
    then obtain p where "patches (topic_of w) r = Some p" by blast
    then show ?thesis using inv that by (auto simp: topic_inv_def consume_def)
  qed
  fix edits text' assume "patch_between edits (text_of w) text'"
  then show "\<exists>t'. publish edits (topic_of w) = Some t' \<and> set (weak_refs t') = dom (seen w)"
    using publish_live(1)[OF inv] inv by (fastforce simp: topic_inv_def)
qed

definition demo_world :: "nat topic_world" where
  "demo_world = \<lparr>topic_of = fst (subscribe topic_default), text_of = demo_a, seen = [0 \<mapsto> demo_a]\<rparr>"

lemma subscriptions_track_text_witness:
  "\<exists>t' p. consume 0 (topic_of demo_world) = Some (t', p) \<and> patch_between p demo_a demo_a"
proof -
  let ?w = "\<lparr>topic_of = topic_default, text_of = demo_a, seen = Map.empty\<rparr>"
  have "topic_step ?w (?w\<lparr>topic_of := fst (subscribe topic_default), seen := (seen ?w)(0 \<mapsto> text_of ?w)\<rparr>)"
    by (rule step_subscribe) (simp add: subscribe_def topic_default_def)
  then have "topic_reachable demo_world"
    using reach_init[of demo_a] by (auto simp: demo_world_def intro: reach_step)
  from subscriptions_track_text[OF this, THEN conjunct1, rule_format, of 0 demo_a] show ?thesis
    by (auto simp: demo_world_def)
qed

end
