(* ===== verification/UndoMap.thy ===== *)
theory UndoMap
  imports Clock Keyed
begin

section \<open>Counts of undone edits (crates/text/src/undo_map.rs)\<close>

text \<open>
  The undo map records, for each edit and each undo operation that covers it, how often the edit has
  been undone or redone; an edit is undone when its greatest count is odd. It is a sum tree keyed by
  edit and undo timestamps. The hash map \<open>counts\<close> of an undo operation is an association list with
  distinct keys: its iteration order is arbitrary.
\<close>

datatype undo_map_key = UndoMapKey (edit_id: lamport) (undo_id: lamport)

text \<open>The derived order: lexicographic in the order of the fields.\<close>

instantiation undo_map_key :: linorder
begin

definition less_undo_map_key :: "undo_map_key \<Rightarrow> undo_map_key \<Rightarrow> bool" where
  "less_undo_map_key a b \<longleftrightarrow> edit_id a < edit_id b \<or> edit_id a = edit_id b \<and> undo_id a < undo_id b"

definition less_eq_undo_map_key :: "undo_map_key \<Rightarrow> undo_map_key \<Rightarrow> bool" where
  "less_eq_undo_map_key a b \<longleftrightarrow> edit_id a < edit_id b \<or> edit_id a = edit_id b \<and> undo_id a \<le> undo_id b"

instance
  by standard (auto simp: less_undo_map_key_def less_eq_undo_map_key_def undo_map_key.expand)

end

record undo_map_entry =
  um_key :: undo_map_key
  undo_count_of :: u32

record undo_operation =
  undo_timestamp :: lamport
  undo_version :: global
  undo_counts :: "(lamport \<times> u32) list"

type_synonym undo_map = "(undo_map_entry, undo_map_key) sum_tree"

definition undo_key_zero :: undo_map_key where
  "undo_key_zero = UndoMapKey lamport_MIN lamport_MIN"

definition undo_ops :: "(undo_map_entry, undo_map_key) item_ops" where
  "undo_ops = \<lparr>item_summary = um_key, summary_zero = undo_key_zero, add_summary = max\<rparr>"

definition undo_dim :: "(undo_map_key, undo_map_key) dim_ops" where
  "undo_dim = \<lparr>dim_zero = undo_key_zero, dim_add = max\<rparr>"

definition undo_map_default :: undo_map where
  "undo_map_default = st_new undo_ops"

definition undo_edits :: "undo_operation \<Rightarrow> (undo_map_entry, undo_map_key) tree_edit list" where
  "undo_edits undo =
     map (\<lambda>(edit, count). Insert \<lparr>um_key = UndoMapKey edit (undo_timestamp undo), undo_count_of = count\<rparr>)
       (undo_counts undo)"

definition undo_insert :: "undo_map \<Rightarrow> undo_operation \<Rightarrow> undo_map option" where
  "undo_insert t undo = do { (t', _) \<leftarrow> keyed_edit undo_ops undo_dim um_key t (undo_edits undo); Some t' }"

text \<open>
  The loop over the entries of one edit, from the cursor on; \<open>counts\<close> says which entries are taken
  into account (\<open>was_undone\<close> only looks at undo operations the version has observed).
\<close>

partial_function (option) undo_loop ::
  "(undo_map_entry \<Rightarrow> bool) \<Rightarrow> lamport \<Rightarrow> (undo_map_entry, undo_map_key, undo_map_key) cursor \<Rightarrow> u32 \<Rightarrow> u32 option" where
  "undo_loop counts edit cursor undo_count =
     do { (cursor', item) \<leftarrow> cursor_iter_next undo_dim cursor;
          (case item of
             None \<Rightarrow> Some undo_count
           | Some entry \<Rightarrow>
               (if edit_id (um_key entry) \<noteq> edit then Some undo_count
                else undo_loop counts edit cursor'
                       (if counts entry then max undo_count (undo_count_of entry) else undo_count))) }"

definition undo_count :: "undo_map \<Rightarrow> lamport \<Rightarrow> u32 option" where
  "undo_count t edit =
     do { (cursor, _) \<leftarrow> cursor_seek undo_dim (cmp (UndoMapKey edit lamport_MIN)) Left (cursor_new undo_dim t);
          undo_loop (\<lambda>_. True) edit cursor 0 }"

definition is_undone :: "undo_map \<Rightarrow> lamport \<Rightarrow> bool option" where
  "is_undone t edit = do { n \<leftarrow> undo_count t edit; Some (n mod 2 = 1) }"

definition was_undone :: "undo_map \<Rightarrow> lamport \<Rightarrow> global \<Rightarrow> bool option" where
  "was_undone t edit version =
     do { (cursor, _) \<leftarrow> cursor_seek undo_dim (cmp (UndoMapKey edit lamport_MIN)) Left (cursor_new undo_dim t);
          n \<leftarrow> undo_loop (\<lambda>entry. global_observed version (undo_id (um_key entry))) edit cursor 0;
          Some (n mod 2 = 1) }"

end
