(* ===== verification/UndoMap_Correct.thy ===== *)
theory UndoMap_Correct
  imports UndoMap Cursor_Props
begin

section \<open>Undo counts are correct\<close>

text \<open>
  The undo map as a keyed tree: its entries form a set that insertion overrides at the keys of the
  operation, and the reading loops compute the greatest count over the entries of an edit.
\<close>

subsection \<open>The keyed tree\<close>

lemma lamport_MIN_least [simp]: "lamport_MIN \<le> t"
  by (auto simp: less_eq_lamport_def lamport_cmp_def lamport_MIN_def)

lemma undo_key_zero_least [simp]: "undo_key_zero \<le> k"
  using lamport_MIN_least[of "edit_id k"] lamport_MIN_least[of "undo_id k"]
  by (auto simp: less_eq_undo_map_key_def undo_key_zero_def less_le)

lemma undo_simps [simp]:
  "item_summary undo_ops = um_key" "dim_zero undo_dim = undo_key_zero" "dim_add undo_dim = max"
  by (simp_all add: undo_ops_def undo_dim_def)

interpretation um: keyed undo_ops "\<lambda>_. True" undo_dim um_key
  by unfold_locales (simp_all add: undo_ops_def undo_dim_def max.assoc max_absorb2)

definition um_wf :: "undo_map \<Rightarrow> bool" where
  "um_wf t \<longleftrightarrow> st_wf undo_ops (\<lambda>_. True) t \<and> keys_sorted um_key (to_list t)"

definition um_fits :: "undo_map \<Rightarrow> bool" where
  "um_fits t \<longleftrightarrow> node_height t < MAX_DEPTH"

subsection \<open>Insertion\<close>

lemma ks_insert_set:
  assumes "keys_sorted key xs"
  shows "set (ks_insert key x xs) = insert x {y \<in> set xs. key y \<noteq> key x}" "keys_sorted key (ks_insert key x xs)"
proof -
  show "set (ks_insert key x xs) = insert x {y \<in> set xs. key y \<noteq> key x}"
    using arg_cong[OF keys_split(3)[OF assms, of "key x"], of set] by (auto simp: ks_insert_def)
  show "keys_sorted key (ks_insert key x xs)" using assms by (rule ks_insert_sorted)
qed

lemma ks_inserts_set:
  assumes "keys_sorted key xs" "distinct (map key es)"
  shows "set (foldl (\<lambda>xs e. ks_edit key e xs) xs (map Insert es)) = set es \<union> {y \<in> set xs. key y \<notin> key ` set es} \<and>
         keys_sorted key (foldl (\<lambda>xs e. ks_edit key e xs) xs (map Insert es))"
  using assms
proof (induction es arbitrary: xs)
  case (Cons e es)
  let ?xs = "ks_insert key e xs"
  from Cons.IH[of ?xs] ks_insert_set[OF Cons.prems(1), of e] Cons.prems(2) show ?case
    by (auto simp: ks_edit_def image_iff)
qed simp

text \<open>A sorted keyed list is determined by its set of entries.\<close>

lemma keys_sorted_set_unique:
  assumes "keys_sorted key xs" "keys_sorted key ys" "set xs = set ys"
  shows "xs = ys"
  using assms
proof (induction xs arbitrary: ys)
  case (Cons x xs)
  then obtain y zs where ys: "ys = y # zs" by (cases ys) auto
  have "x = y"
    using Cons.prems unfolding ys by (auto simp: keys_sorted_Cons) (metis insert_iff less_asym)
  with Cons.prems have "set xs = set zs"
    unfolding ys by (auto simp: keys_sorted_Cons set_eq_iff)
  with Cons \<open>x = y\<close> show ?case unfolding ys by (auto simp: keys_sorted_Cons)
qed simp

definition undo_entries :: "undo_operation \<Rightarrow> undo_map_entry set" where
  "undo_entries undo =
     {\<lparr>um_key = UndoMapKey edit (undo_timestamp undo), undo_count_of = count\<rparr> | edit count.
        (edit, count) \<in> set (undo_counts undo)}"

lemma undo_insert_entries:
  assumes "um_wf t" "um_fits t" "distinct (map fst (undo_counts undo))"
  obtains t' where "undo_insert t undo = Some t'" "um_wf t'"
    "set (to_list t') = undo_entries undo \<union> {y \<in> set (to_list t). um_key y \<notin> um_key ` undo_entries undo}"
proof -
  define es where "es = map (\<lambda>(edit, count). \<lparr>um_key = UndoMapKey edit (undo_timestamp undo), undo_count_of = count\<rparr>) (undo_counts undo)"
  have set_es: "set es = undo_entries undo" by (auto simp: es_def undo_entries_def)
  have edits: "undo_edits undo = map Insert es" by (simp add: undo_edits_def es_def comp_def split_def)
  have keys: "map um_key es = map (\<lambda>e. UndoMapKey e (undo_timestamp undo)) (map fst (undo_counts undo))"
    by (simp add: es_def comp_def split_def)
  have "distinct (map um_key es)"
    unfolding keys using assms(3) by (subst distinct_map) (auto simp: inj_on_def)
  moreover have ekeys: "map (edit_key um_key) (map Insert es) = map um_key es" by (simp add: edit_key_def)
  ultimately have d: "distinct (map um_key es)" "distinct (map (edit_key um_key) (undo_edits undo))"
    unfolding edits ekeys by simp_all
  have s: "sort_key (edit_key um_key) (map Insert es) = map Insert (sort_key um_key es)"
    by (rule sort_Inserts)
  have ds: "distinct (map um_key (sort_key um_key es))" using d(1) by (simp add: distinct_map)
  have wf: "st_wf undo_ops (\<lambda>_. True) t" "node_height t < MAX_DEPTH" "keys_sorted um_key (to_list t)"
    using assms by (auto simp: um_wf_def um_fits_def)
  obtain t' where t': "keyed_edit undo_ops undo_dim um_key t (undo_edits undo) =
      Some (t', filter (\<lambda>y. um_key y \<in> edit_key um_key ` set (undo_edits undo)) (to_list t))"
    "st_wf undo_ops (\<lambda>_. True) t'"
    "to_list t' = foldl (\<lambda>xs e. ks_edit um_key e xs) (to_list t) (sort_key (edit_key um_key) (undo_edits undo))"
    by (rule um.keyed_edit_seq[OF wf d(2)]) simp_all
  have l: "to_list t' = foldl (\<lambda>xs e. ks_edit um_key e xs) (to_list t) (map Insert (sort_key um_key es))"
    unfolding t'(3) edits s ..
  from ks_inserts_set[OF wf(3) ds] t'(1,2) show thesis
    by (intro that[of t']) (simp_all add: undo_insert_def um_wf_def l set_es)
qed

subsection \<open>Reading the counts\<close>

lemma undo_loop_at:
  assumes "st_wf undo_ops (\<lambda>_. True) t" "node_height t < MAX_DEPTH"
  shows "cursor_at undo_ops undo_dim t m c \<Longrightarrow> undo_loop P e c n =
    Some (foldl (\<lambda>n x. if P x then max n (undo_count_of x) else n) n
            (takeWhile (\<lambda>x. edit_id (um_key x) = e) (drop m (to_list t))))"
proof (induction "length (to_list t) - m" arbitrary: m c n)
  case 0
  then have m: "m = length (to_list t)" by (simp add: cursor_at_def lands_def)
  have "did_seek c" using 0 by (simp add: cursor_at_def)
  with cursor_at_reads(1)[OF 0(2) assms(1)] m show ?case
    by (subst undo_loop.simps) (simp add: cursor_iter_next_def vec_get_def)
next
  case (Suc l)
  then have m: "m < length (to_list t)" "did_seek c" by (auto simp: cursor_at_def)
  obtain c' where c': "cursor_next undo_dim c = Some c'" "cursor_at undo_ops undo_dim t (min (Suc m) (length (to_list t))) c'"
    using assms Suc.prems by (rule um.cursor_next_at)
  let ?x = "to_list t ! m"
  have IH: "undo_loop P e c' n' =
    Some (foldl (\<lambda>n x. if P x then max n (undo_count_of x) else n) n'
            (takeWhile (\<lambda>x. edit_id (um_key x) = e) (drop (Suc m) (to_list t))))" for n'
    using Suc.hyps(1)[of "Suc m" c' n'] Suc.hyps(2) c'(2) m(1) by (simp add: min_absorb1)
  have "cursor_iter_next undo_dim c = Some (c', Some ?x)"
    using cursor_at_reads(1)[OF Suc.prems assms(1)] m c'(1) by (simp add: cursor_iter_next_def vec_get_def)
  with IH show ?case
    by (subst undo_loop.simps) (simp add: Cons_nth_drop_Suc[OF m(1), symmetric])
qed

lemma takeWhile_edit:
  assumes "keys_sorted um_key xs"
  shows "takeWhile (\<lambda>x. edit_id (um_key x) = e) (dropWhile (\<lambda>x. um_key x < UndoMapKey e lamport_MIN) xs) =
         filter (\<lambda>x. edit_id (um_key x) = e) xs"
  using assms
proof (induction xs)
  case (Cons x xs)
  have lt: "um_key x < UndoMapKey e lamport_MIN \<longleftrightarrow> edit_id (um_key x) < e"
    using leD[OF lamport_MIN_least] by (auto simp: less_undo_map_key_def)
  have gt: "\<forall>y\<in>set xs. edit_id (um_key x) \<le> edit_id (um_key y)"
    using Cons.prems by (auto simp: keys_sorted_Cons less_undo_map_key_def)
  have tw: "takeWhile (\<lambda>x. edit_id (um_key x) = e) xs = filter (\<lambda>x. edit_id (um_key x) = e) xs" if "edit_id (um_key x) = e"
  proof -
    have "dropWhile (\<lambda>x. um_key x < UndoMapKey e lamport_MIN) xs = xs"
      using gt that by (cases xs) (auto simp: less_undo_map_key_def not_less[symmetric] leD[OF lamport_MIN_least] dest: leD)
    with Cons show ?thesis by (simp add: keys_sorted_Cons)
  qed
  consider "edit_id (um_key x) < e" | "edit_id (um_key x) = e" | "e < edit_id (um_key x)" by fastforce
  then show ?case
  proof cases
    case 3
    then have "filter (\<lambda>x. edit_id (um_key x) = e) xs = []" using gt by (auto simp: filter_empty_conv)
    with 3 lt show ?thesis by auto
  qed (use Cons lt tw in \<open>auto simp: keys_sorted_Cons\<close>)
qed simp

lemma foldl_max:
  fixes f :: "'a \<Rightarrow> 'b::linorder"
  shows "foldl (\<lambda>n x. if P x then max n (f x) else n) a xs = Max (insert a (f ` {x \<in> set xs. P x}))"
proof (induction xs arbitrary: a)
  case (Cons x xs)
  define S where "S = f ` {y \<in> set xs. P y}"
  have "f ` {y \<in> set (x # xs). P y} = (if P x then insert (f x) S else S)" by (auto simp: S_def)
  moreover have "Max (insert (max a (f x)) S) = Max (insert a (insert (f x) S))"
  proof -
    have "finite S" by (simp add: S_def)
    then show ?thesis by (cases "S = {}") (simp_all add: max.assoc)
  qed
  ultimately show ?case using Cons by (simp add: S_def)
qed simp

definition counts_of :: "undo_map \<Rightarrow> lamport \<Rightarrow> (lamport \<Rightarrow> bool) \<Rightarrow> u32 set" where
  "counts_of t edit obs = undo_count_of ` {x \<in> set (to_list t). edit_id (um_key x) = edit \<and> obs (undo_id (um_key x))}"

lemma undo_loop_seek:
  assumes "um_wf t" "um_fits t"
  shows "do { (cursor, _) \<leftarrow> cursor_seek undo_dim (cmp (UndoMapKey edit lamport_MIN)) Left (cursor_new undo_dim t);
              undo_loop (\<lambda>x. obs (undo_id (um_key x))) edit cursor 0 } = Some (Max (insert 0 (counts_of t edit obs)))"
proof -
  let ?k = "UndoMapKey edit lamport_MIN" and ?n = "length (to_list t)"
  have wf: "st_wf undo_ops (\<lambda>_. True) t" "node_height t < MAX_DEPTH" and s: "keys_sorted um_key (to_list t)"
    using assms by (auto simp: um_wf_def um_fits_def)
  have c: "c_tree (cursor_new undo_dim t) = t" "cmp ?k (dim_zero undo_dim) \<noteq> Less"
    by (simp_all add: cursor_new_def not_less)
  let ?m = "length (takeWhile (\<lambda>y. um_key y < ?k) (to_list t))"
  have "first_from (seek_hit undo_ops undo_dim (cmp ?k) Left t) ?n 0 = ?m"
    using um.key_first[OF s, of ?k Left 0] by (simp add: um.target_in_Left not_le)
  then obtain c' r where c': "cursor_seek undo_dim (cmp ?k) Left (cursor_new undo_dim t) = Some (c', r)"
      "cursor_at undo_ops undo_dim t ?m c'"
    using um.cursor_seek_at[OF wf um.key_mono(1)[OF s] c] by metis
  have "drop ?m (to_list t) = dropWhile (\<lambda>y. um_key y < ?k) (to_list t)"
    by (simp add: dropWhile_eq_drop)
  then have "undo_loop (\<lambda>x. obs (undo_id (um_key x))) edit c' 0 =
      Some (Max (insert 0 (undo_count_of ` {x \<in> set (filter (\<lambda>x. edit_id (um_key x) = edit) (to_list t)). obs (undo_id (um_key x))})))"
    using undo_loop_at[OF wf c'(2), of _ edit 0] takeWhile_edit[OF s, of edit] by (simp only: foldl_max)
  moreover have "{x \<in> set (filter (\<lambda>x. edit_id (um_key x) = edit) (to_list t)). obs (undo_id (um_key x))} =
      {x \<in> set (to_list t). edit_id (um_key x) = edit \<and> obs (undo_id (um_key x))}" by auto
  ultimately show ?thesis using c'(1) by (simp add: counts_of_def)
qed

lemma undo_reads:
  assumes "um_wf t" "um_fits t"
  shows "undo_count t e = Some (Max (insert 0 (counts_of t e (\<lambda>_. True))))"
    "is_undone t e = Some (Max (insert 0 (counts_of t e (\<lambda>_. True))) mod 2 = 1)"
    "was_undone t e v = Some (Max (insert 0 (counts_of t e (global_observed v))) mod 2 = 1)"
proof -
  show c: "undo_count t e = Some (Max (insert 0 (counts_of t e (\<lambda>_. True))))"
    using undo_loop_seek[OF assms, of e "\<lambda>_. True"] by (simp add: undo_count_def)
  then show "is_undone t e = Some (Max (insert 0 (counts_of t e (\<lambda>_. True))) mod 2 = 1)"
    by (simp add: is_undone_def)
  have "was_undone t e v = do { n \<leftarrow> do { (cursor, _) \<leftarrow> cursor_seek undo_dim (cmp (UndoMapKey e lamport_MIN)) Left (cursor_new undo_dim t);
              undo_loop (\<lambda>x. global_observed v (undo_id (um_key x))) e cursor 0 }; Some (n mod 2 = 1) }"
    by (simp add: was_undone_def split_def)
  then show "was_undone t e v = Some (Max (insert 0 (counts_of t e (global_observed v))) mod 2 = 1)"
    using undo_loop_seek[OF assms, of e "global_observed v"] by simp
qed

text \<open>An undo operation whose timestamp the map has not seen only adds counts.\<close>

definition undo_fresh :: "undo_map \<Rightarrow> undo_operation \<Rightarrow> bool" where
  "undo_fresh t undo \<longleftrightarrow> (\<forall>x\<in>set (to_list t). undo_id (um_key x) \<noteq> undo_timestamp undo)"

lemma counts_of_insert:
  assumes "um_wf t" "um_fits t" "distinct (map fst (undo_counts undo))" "undo_fresh t undo" "undo_insert t undo = Some t'"
  shows "um_wf t'"
    "counts_of t' e obs = counts_of t e obs \<union>
       (if obs (undo_timestamp undo) then set_option (map_of (undo_counts undo) e) else {})"
proof -
  have t': "um_wf t'" "set (to_list t') = undo_entries undo \<union> {y \<in> set (to_list t). um_key y \<notin> um_key ` undo_entries undo}"
    using undo_insert_entries[OF assms(1-3)] assms(5) by (metis option.inject)+
  then show "um_wf t'" by simp
  have "um_key y \<notin> um_key ` undo_entries undo" if "y \<in> set (to_list t)" for y
    using assms(4) that by (auto simp: undo_fresh_def undo_entries_def)
  then have "set (to_list t') = undo_entries undo \<union> set (to_list t)" using t'(2) by auto
  moreover have "undo_count_of ` {x \<in> undo_entries undo. edit_id (um_key x) = e \<and> obs (undo_id (um_key x))} =
      (if obs (undo_timestamp undo) then set_option (map_of (undo_counts undo) e) else {})"
    using assms(3) by (force simp: undo_entries_def image_iff intro: map_of_is_SomeI dest: map_of_SomeD)
  ultimately show "counts_of t' e obs = counts_of t e obs \<union>
       (if obs (undo_timestamp undo) then set_option (map_of (undo_counts undo) e) else {})"
    by (auto simp: counts_of_def)
qed

subsection \<open>The properties\<close>

definition demo_undo :: undo_operation where
  "demo_undo = \<lparr>undo_timestamp = Lamport 5 1, undo_version = global_new, undo_counts = [(Lamport 2 1, 1)]\<rparr>"

definition demo_redo :: undo_operation where
  "demo_redo = \<lparr>undo_timestamp = Lamport 6 2, undo_version = global_new, undo_counts = [(Lamport 2 1, 2)]\<rparr>"

lemma undo_default_ok: "um_wf undo_map_default" "um_fits undo_map_default" "to_list undo_map_default = []"
  by (simp_all add: um_wf_def um_fits_def undo_map_default_def st_new_def sum_summaries_def MAX_DEPTH_def undo_ops_def)

text \<open>
  The count of an edit is the greatest count any recorded undo operation gives it, and 0 when
  there is none; \<open>was_undone\<close> looks at exactly the undo operations its version has observed, so for a
  version that has observed all of them it agrees with \<open>is_undone\<close>.
\<close>

theorem undo_count_is_max:
  assumes "um_wf t" "um_fits t"
  shows "undo_count t e = Some (Max (insert 0 (undo_count_of ` {x \<in> set (to_list t). edit_id (um_key x) = e}))) \<and>
    was_undone t e v = Some (Max (insert 0 (undo_count_of `
      {x \<in> set (to_list t). edit_id (um_key x) = e \<and> global_observed v (undo_id (um_key x))})) mod 2 = 1) \<and>
    ((\<forall>x\<in>set (to_list t). global_observed v (undo_id (um_key x))) \<longrightarrow> was_undone t e v = is_undone t e)"
proof -
  have "counts_of t e (global_observed v) = counts_of t e (\<lambda>_. True)" if "\<forall>x\<in>set (to_list t). global_observed v (undo_id (um_key x))"
    using that by (auto simp: counts_of_def)
  then show ?thesis using undo_reads[OF assms, of e] by (simp add: counts_of_def)
qed

lemma undo_count_is_max_witness: "undo_count undo_map_default (Lamport 2 1) = Some 0"
  using undo_count_is_max[OF undo_default_ok(1,2), of "Lamport 2 1"] by (simp add: undo_default_ok(3))

text \<open>
  C25: An undo operation with a new timestamp raises the count of every edit it covers to at least its
  own count for it and leaves the other edits alone. In particular the operation that a buffer
  issues to undo or redo an edit, with one more than the current count, toggles whether the edit is
  undone, unless the 32-bit count is exhausted.
\<close>

theorem undo_insert_toggles:
  assumes "um_wf t" "um_fits t" "distinct (map fst (undo_counts undo))" "undo_fresh t undo" "undo_count t e = Some n"
  shows "\<exists>t'. undo_insert t undo = Some t' \<and> um_wf t' \<and>
    (um_fits t' \<longrightarrow>
      undo_count t' e = Some (case map_of (undo_counts undo) e of None \<Rightarrow> n | Some m \<Rightarrow> max n m) \<and>
      (map_of (undo_counts undo) e = Some (n + 1) \<and> n \<noteq> - 1 \<longrightarrow>
         is_undone t' e = map_option Not (is_undone t e)))"
proof -
  obtain t' where t': "undo_insert t undo = Some t'" "um_wf t'"
    using undo_insert_entries[OF assms(1-3)] by metis
  have n: "n = Max (insert 0 (counts_of t e (\<lambda>_. True)))" using undo_reads(1)[OF assms(1,2), of e] assms(5) by simp
  have fin: "finite (counts_of t e (\<lambda>_. True))" by (simp add: counts_of_def)
  have count: "undo_count t' e = Some (case map_of (undo_counts undo) e of None \<Rightarrow> n | Some m \<Rightarrow> max n m)"
    if "um_fits t'"
  proof (cases "map_of (undo_counts undo) e")
    case None
    then show ?thesis using undo_reads(1)[OF t'(2) that, of e] counts_of_insert(2)[OF assms(1-4) t'(1), of e "\<lambda>_. True"] n
      by simp
  next
    case (Some m)
    have "insert 0 (counts_of t e (\<lambda>_. True) \<union> {m}) = insert m (insert 0 (counts_of t e (\<lambda>_. True)))" by blast
    then have "Max (insert 0 (counts_of t e (\<lambda>_. True) \<union> {m})) = max n m"
      using Max_insert[of "insert 0 (counts_of t e (\<lambda>_. True))" m] fin by (simp only: n max.commute finite_insert) simp
    with Some show ?thesis
      using undo_reads(1)[OF t'(2) that, of e] counts_of_insert(2)[OF assms(1-4) t'(1), of e "\<lambda>_. True"] by simp
  qed
  have "is_undone t' e = map_option Not (is_undone t e)"
    if "um_fits t'" "map_of (undo_counts undo) e = Some (n + 1)" "n \<noteq> - 1"
  proof -
    have "n < n + 1" using that(3) by (simp add: u32_increases)
    then have "undo_count t' e = Some (n + 1)" using count[OF that(1)] that(2) by (simp add: max_absorb2 less_imp_le)
    moreover have "(n + 1) mod 2 = 1 \<longleftrightarrow> n mod 2 \<noteq> 1" by (simp flip: odd_iff_mod_2_eq_one)
    ultimately show ?thesis using assms(5) by (simp add: is_undone_def)
  qed
  with t' count show ?thesis by blast
qed

lemma undo_insert_toggles_witness:
  "\<exists>t'. undo_insert undo_map_default demo_undo = Some t' \<and> undo_count t' (Lamport 2 1) = Some 1 \<and>
        is_undone t' (Lamport 2 1) = Some True"
proof -
  have c: "undo_count undo_map_default (Lamport 2 1) = Some 0" "is_undone undo_map_default (Lamport 2 1) = Some False"
    using undo_reads(1,2)[OF undo_default_ok(1,2)] by (simp_all add: counts_of_def undo_default_ok(3))
  have "map_option (\<lambda>t. node_height t < MAX_DEPTH) (undo_insert undo_map_default demo_undo) = Some True" by code_simp
  then obtain t' where t': "undo_insert undo_map_default demo_undo = Some t'" "um_fits t'" by (auto simp: um_fits_def)
  have "distinct (map fst (undo_counts demo_undo))" "undo_fresh undo_map_default demo_undo"
    by (simp_all add: demo_undo_def undo_fresh_def undo_default_ok(3))
  from undo_insert_toggles[OF undo_default_ok(1,2) this c(1)] t' c(2) show ?thesis
    by (auto simp: demo_undo_def)
qed

text \<open>
  C22: Undo operations commute: two operations with different timestamps can arrive in either order
  and leave the same entries, so replicas that have received the same undo operations agree on which
  edits are undone.
\<close>

theorem undo_ops_commute:
  assumes "um_wf t" "um_fits t" "distinct (map fst (undo_counts u))" "distinct (map fst (undo_counts v))"
    and "undo_timestamp u \<noteq> undo_timestamp v"
    and "undo_insert t u = Some t1" "um_fits t1" "undo_insert t v = Some t2" "um_fits t2"
  shows "\<exists>a b. undo_insert t1 v = Some a \<and> undo_insert t2 u = Some b \<and> um_wf a \<and> um_wf b \<and> to_list a = to_list b"
proof -
  let ?rest = "\<lambda>S w. {y \<in> S. um_key y \<notin> um_key ` undo_entries w}"
  have t1: "um_wf t1" "set (to_list t1) = undo_entries u \<union> ?rest (set (to_list t)) u"
    using undo_insert_entries[OF assms(1-3)] assms(6) by (metis option.inject)+
  have t2: "um_wf t2" "set (to_list t2) = undo_entries v \<union> ?rest (set (to_list t)) v"
    using undo_insert_entries[OF assms(1,2,4)] assms(8) by (metis option.inject)+
  obtain a where a: "undo_insert t1 v = Some a" "um_wf a" "set (to_list a) = undo_entries v \<union> ?rest (set (to_list t1)) v"
    using undo_insert_entries[OF t1(1) assms(7,4)] by metis
  obtain b where b: "undo_insert t2 u = Some b" "um_wf b" "set (to_list b) = undo_entries u \<union> ?rest (set (to_list t2)) u"
    using undo_insert_entries[OF t2(1) assms(9,3)] by metis
  have "um_key ` undo_entries u \<inter> um_key ` undo_entries v = {}"
    using assms(5) by (auto simp: undo_entries_def)
  then have "set (to_list a) = set (to_list b)" unfolding a(3) b(3) t1(2) t2(2) by blast
  then have "to_list a = to_list b"
    using a(2) b(2) by (intro keys_sorted_set_unique) (auto simp: um_wf_def)
  with a b show ?thesis by blast
qed

lemma undo_ops_commute_witness:
  "\<exists>t1 t2 a b. undo_insert undo_map_default demo_undo = Some t1 \<and> undo_insert undo_map_default demo_redo = Some t2 \<and>
     undo_insert t1 demo_redo = Some a \<and> undo_insert t2 demo_undo = Some b \<and> to_list a = to_list b"
proof -
  have "map_option (\<lambda>t. node_height t < MAX_DEPTH) (undo_insert undo_map_default demo_undo) = Some True"
    "map_option (\<lambda>t. node_height t < MAX_DEPTH) (undo_insert undo_map_default demo_redo) = Some True" by code_simp+
  then obtain t1 t2 where "undo_insert undo_map_default demo_undo = Some t1" "um_fits t1"
      "undo_insert undo_map_default demo_redo = Some t2" "um_fits t2" by (auto simp: um_fits_def)
  with undo_ops_commute[OF undo_default_ok(1,2), of demo_undo demo_redo t1 t2] show ?thesis
    by (auto simp: demo_undo_def demo_redo_def)
qed

end
