(* ===== verification/Bitmap.thy ===== *)
theory Bitmap
  imports Prelude
begin

section \<open>Machine words as sequences of marks\<close>

text \<open>
  A chunk of the rope keeps, in one word each, the set of byte positions with some property. \<open>bitmap w ps\<close>
  says that the word \<open>w\<close> holds the list of marks \<open>ps\<close>, lowest bit first; the word operations of the code
  are then list operations on the marks: masking is \<open>take\<close>, shifting right is \<open>drop\<close>, shifting left and
  disjunction is \<open>append\<close>, and the bit counts are lengths.
\<close>

unbundle bit_operations_syntax

text \<open>\<open>count_ones\<close>, \<open>trailing_zeros\<close>, \<open>leading_zeros\<close>; \<open>unbounded_shl\<close> and \<open>unbounded_shr\<close> give 0 for an amount
  that is not below the width, \<open><<\<close> and \<open>>>\<close> panic there.\<close>

definition count_ones :: "'w::len word \<Rightarrow> nat" where
  "count_ones w = length (filter (bit w) [0..<LENGTH('w)])"

definition trailing_zeros :: "'w::len word \<Rightarrow> nat" where
  "trailing_zeros w = length (takeWhile (\<lambda>i. \<not> bit w i) [0..<LENGTH('w)])"

definition leading_zeros :: "'w::len word \<Rightarrow> nat" where
  "leading_zeros w = length (takeWhile (\<lambda>i. \<not> bit w i) (rev [0..<LENGTH('w)]))"

definition unbounded_shl :: "'w::len word \<Rightarrow> nat \<Rightarrow> 'w word" where
  "unbounded_shl w n = push_bit n w"

definition unbounded_shr :: "'w::len word \<Rightarrow> nat \<Rightarrow> 'w word" where
  "unbounded_shr w n = drop_bit n w"

definition shl :: "'w::len word \<Rightarrow> nat \<Rightarrow> 'w word option" where
  "shl w n = (if n < LENGTH('w) then Some (push_bit n w) else None)"

definition shr :: "'w::len word \<Rightarrow> nat \<Rightarrow> 'w word option" where
  "shr w n = (if n < LENGTH('w) then Some (drop_bit n w) else None)"

definition bitmap :: "'w::len word \<Rightarrow> bool list \<Rightarrow> bool" where
  "bitmap w ps \<longleftrightarrow> length ps \<le> LENGTH('w) \<and> (\<forall>i. bit w i \<longleftrightarrow> i < length ps \<and> ps ! i)"

text \<open>The number of marks and the index of the \<open>n\<close>-th one, counted from 1.\<close>

abbreviation marks :: "bool list \<Rightarrow> nat" where
  "marks ps \<equiv> length (filter (\<lambda>p. p) ps)"

fun nth_mark :: "bool list \<Rightarrow> nat \<Rightarrow> nat" where
  "nth_mark [] n = 0"
| "nth_mark (p # ps) n = (if p then if n \<le> 1 then 0 else Suc (nth_mark ps (n - 1)) else Suc (nth_mark ps n))"

lemma bitmap_length: "bitmap (w :: 'w::len word) ps \<Longrightarrow> length ps \<le> LENGTH('w)"
  by (simp add: bitmap_def)

lemma bitmap_bit: "bitmap w ps \<Longrightarrow> bit w i \<longleftrightarrow> i < length ps \<and> ps ! i"
  by (simp add: bitmap_def)

lemma bitmap_unique: "bitmap v ps \<Longrightarrow> bitmap w ps \<Longrightarrow> v = w"
  by (auto simp: bitmap_def intro: bit_eqI)

lemma bitmap_zero [simp]: "bitmap 0 []"
  by (simp add: bitmap_def)

lemma bitmap_replicate: "n \<le> LENGTH('w) \<Longrightarrow> bitmap (0 :: 'w::len word) (replicate n False)"
  by (auto simp: bitmap_def)

lemma bitmap_mono: "bitmap w ps \<Longrightarrow> length ps + n \<le> LENGTH('w) \<Longrightarrow> bitmap (w :: 'w::len word) (ps @ replicate n False)"
  by (auto simp: bitmap_def nth_append)

lemma bitmap_map_bit: "bitmap (w :: 'w::len word) (map (bit w) [0..<LENGTH('w)])"
  using bit_imp_le_length[of w] by (auto simp: bitmap_def)

lemma mask_word: "unbounded_shl 1 n - 1 = (mask n :: 'w::len word)"
  by (simp add: unbounded_shl_def push_bit_eq_mult mask_eq_exp_minus_1)

lemma bitmapI: "length ps \<le> LENGTH('w) \<Longrightarrow> (\<And>i. bit w i \<longleftrightarrow> i < length ps \<and> ps ! i) \<Longrightarrow> bitmap (w :: 'w::len word) ps"
  by (simp add: bitmap_def)

lemma bitmap_and_mask:
  fixes w :: "'w::len word"
  assumes "bitmap w ps"
  shows "bitmap (w AND mask n) (take n ps)"
proof (rule bitmapI)
  show "bit (w AND mask n) i \<longleftrightarrow> i < length (take n ps) \<and> take n ps ! i" for i
    using bitmap_length[OF assms] by (auto simp: bit_and_iff bit_mask_iff bitmap_bit[OF assms])
qed (use bitmap_length[OF assms] in simp)

lemma bitmap_drop:
  fixes w :: "'w::len word"
  assumes "bitmap w ps"
  shows "bitmap (drop_bit n w) (drop n ps)"
proof (rule bitmapI)
  show "bit (drop_bit n w) i \<longleftrightarrow> i < length (drop n ps) \<and> drop n ps ! i" for i
    by (cases "n \<le> length ps") (auto simp: bit_drop_bit_eq bitmap_bit[OF assms])
qed (use bitmap_length[OF assms] in simp)

lemma bitmap_or_push:
  fixes v w :: "'w::len word"
  assumes "bitmap v ps" "bitmap w qs" "length ps + length qs \<le> LENGTH('w)"
  shows "bitmap (v OR push_bit (length ps) w) (ps @ qs)"
proof (rule bitmapI)
  show "bit (v OR push_bit (length ps) w) i \<longleftrightarrow> i < length (ps @ qs) \<and> (ps @ qs) ! i" for i
    using assms(3)
    by (auto simp: bit_or_iff bit_push_bit_iff bitmap_bit[OF assms(1)] bitmap_bit[OF assms(2)] nth_append)
qed (use assms(3) in simp)

lemma filter_upt_nth: "length (filter (\<lambda>i. i < length ps \<and> ps ! i) [0..<n]) = marks (take n ps)"
proof (induction n)
  case (Suc n)
  then show ?case by (cases "n < length ps") (simp_all add: take_Suc_conv_app_nth)
qed simp

lemma bit_fun: "bitmap w ps \<Longrightarrow> bit w = (\<lambda>i. i < length ps \<and> ps ! i)"
  by (rule ext) (rule bitmap_bit)

lemma count_ones_marks: "bitmap (w :: 'w::len word) ps \<Longrightarrow> count_ones w = marks ps"
  using filter_upt_nth[of ps "LENGTH('w)"] by (simp add: count_ones_def bit_fun bitmap_length)

lemma takeWhile_upt:
  "length (takeWhile (\<lambda>i. \<not> (i < length ps \<and> ps ! i)) [0..<length ps]) = length (takeWhile Not ps)"
proof -
  have "takeWhile Not ps = takeWhile Not (map ((!) ps) [0..<length ps])" by (simp add: map_nth)
  also have "\<dots> = map ((!) ps) (takeWhile (\<lambda>i. \<not> ps ! i) [0..<length ps])" by (simp add: takeWhile_map comp_def)
  finally have "length (takeWhile Not ps) = length (takeWhile (\<lambda>i. \<not> ps ! i) [0..<length ps])" by simp
  also have "takeWhile (\<lambda>i. \<not> ps ! i) [0..<length ps] = takeWhile (\<lambda>i. \<not> (i < length ps \<and> ps ! i)) [0..<length ps]"
    by (rule takeWhile_cong) auto
  finally show ?thesis by simp
qed

lemma trailing_zeros_marks:
  assumes "bitmap (w :: 'w::len word) ps"
  shows "trailing_zeros w = (if True \<in> set ps then length (takeWhile Not ps) else LENGTH('w))"
proof -
  let ?Q = "\<lambda>i. \<not> (i < length ps \<and> ps ! i)"
  have split: "[0..<LENGTH('w)] = [0..<length ps] @ [length ps..<LENGTH('w)]"
    using bitmap_length[OF assms] by (metis le_add_diff_inverse upt_add_eq_append zero_le)
  have tz: "trailing_zeros w = length (takeWhile ?Q [0..<LENGTH('w)])"
    by (simp add: trailing_zeros_def bit_fun[OF assms])
  show ?thesis
  proof (cases "True \<in> set ps")
    case True
    then obtain i where "i < length ps" "ps ! i" by (auto simp: in_set_conv_nth)
    then have "takeWhile ?Q [0..<LENGTH('w)] = takeWhile ?Q [0..<length ps]"
      unfolding split by (intro takeWhile_append1[of i]) auto
    then show ?thesis using True takeWhile_upt[of ps] tz by simp
  next
    case False
    then have "ps ! i = False" if "i < length ps" for i using that by (metis nth_mem)
    then have "takeWhile ?Q [0..<LENGTH('w)] = [0..<LENGTH('w)]" unfolding takeWhile_eq_all_conv by auto
    then show ?thesis using False by (simp only: tz) simp
  qed
qed

lemma leading_zeros_marks:
  assumes "bitmap (w :: 'w::len word) ps"
  shows "leading_zeros w = LENGTH('w) - length ps + length (takeWhile Not (rev ps))"
proof -
  let ?Q = "\<lambda>i. \<not> (i < length ps \<and> ps ! i)"
  have split: "rev [0..<LENGTH('w)] = rev [length ps..<LENGTH('w)] @ rev [0..<length ps]"
    using bitmap_length[OF assms] by (metis le_add_diff_inverse rev_append upt_add_eq_append zero_le)
  have "takeWhile ?Q (rev [0..<LENGTH('w)]) = rev [length ps..<LENGTH('w)] @ takeWhile ?Q (rev [0..<length ps])"
    unfolding split by (rule takeWhile_append2) auto
  moreover have "length (takeWhile ?Q (rev [0..<n])) = length (takeWhile Not (rev (take n ps)))" if "n \<le> length ps" for n
    using that by (induction n) (auto simp: take_Suc_conv_app_nth)
  ultimately show ?thesis by (simp add: leading_zeros_def bit_fun[OF assms])
qed

text \<open>The high bits selected by \<open>!MAX.unbounded_shr(n)\<close>.\<close>

lemma count_ones_high:
  fixes w :: "'w::len word"
  assumes "bitmap w ps" "n \<le> LENGTH('w)"
  shows "count_ones (w AND NOT (unbounded_shr (- 1) n)) = marks (drop (LENGTH('w) - n) ps)"
proof -
  let ?k = "LENGTH('w) - n"
  have b: "bit (w AND NOT (unbounded_shr (- 1) n)) i \<longleftrightarrow> ?k \<le> i \<and> bit w i" for i
    using assms(2) bit_imp_le_length[of w i]
    by (auto simp: bit_and_iff bit_not_iff unbounded_shr_def bit_drop_bit_eq bit_minus_1_iff bit_mask_iff)
  have "bitmap (w AND NOT (unbounded_shr (- 1) n)) (replicate (min ?k (length ps)) False @ drop ?k ps)"
    using bitmap_length[OF assms(1)] by (intro bitmapI) (auto simp: b bitmap_bit[OF assms(1)] nth_append)
  then have "count_ones (w AND NOT (unbounded_shr (- 1) n)) = marks (replicate (min ?k (length ps)) False @ drop ?k ps)"
    by (rule count_ones_marks)
  then show ?thesis by simp
qed

lemma bitmap_positive:
  assumes "bitmap w ps"
  shows "w \<noteq> 0 \<longleftrightarrow> True \<in> set ps"
proof -
  have "w \<noteq> 0 \<longleftrightarrow> (\<exists>i. bit w i)" by (auto intro: bit_word_eqI)
  then show ?thesis by (auto simp: bitmap_bit[OF assms] in_set_conv_nth)
qed

text \<open>
  \<open>nth_set_bit_u64\<close>, the branch-free selection of the \<open>n\<close>-th set bit. The counts of the bits in fields of
  2, 4, 8 and 16 bits are computed in parallel from the reversed word; the selection then walks down
  from 32 bits to one, and \<open>s\<close> is where the field under consideration ends. All arithmetic wraps here;
  the correctness proof shows that the differences that are taken do not.
\<close>

definition select_s :: "nat \<Rightarrow> u64 \<Rightarrow> u64 \<Rightarrow> u64 \<Rightarrow> u64" where
  "select_s k t n s = s - drop_bit k ((t - n) AND 256)"

definition select_n :: "u64 \<Rightarrow> u64 \<Rightarrow> u64" where
  "select_n t n = n - (t AND drop_bit 8 (t - n))"

definition nth_set_bit_u64 :: "u64 \<Rightarrow> u64 \<Rightarrow> u64" where
  "nth_set_bit_u64 v0 n0 =
     (let v = word_reverse v0; m = (- 1 :: u64);
          a = v - (drop_bit 1 v AND (m div 3));
          b = (a AND (m div 5)) + (drop_bit 2 a AND (m div 5));
          c = (b + drop_bit 4 b) AND (m div 0x11);
          d = (c + drop_bit 8 c) AND (m div 0x101);
          s = 64; n = n0;
          t = drop_bit 32 d + drop_bit 48 d;
          s1 = select_s 3 t n s; n1 = select_n t n;
          t = drop_bit (unat (s1 - 16)) d AND 0xff;
          s2 = select_s 4 t n1 s1; n2 = select_n t n1;
          t = drop_bit (unat (s2 - 8)) c AND 0xf;
          s3 = select_s 5 t n2 s2; n3 = select_n t n2;
          t = drop_bit (unat (s3 - 4)) b AND 0x7;
          s4 = select_s 6 t n3 s3; n4 = select_n t n3;
          t = drop_bit (unat (s4 - 2)) a AND 0x3;
          s5 = select_s 7 t n4 s4; n5 = select_n t n4;
          t = drop_bit (unat (s5 - 1)) v AND 0x1;
          s6 = select_s 8 t n5 s5
      in 65 - s6 - 1)"

definition nth_set_bit :: "128 word \<Rightarrow> nat \<Rightarrow> nat" where
  "nth_set_bit v n =
     (let low = (ucast v :: u64); high = (ucast (drop_bit 64 v) :: u64);
          low_count = count_ones low
      in if n > low_count then 64 + unat (nth_set_bit_u64 high (of_nat (n - low_count)))
         else unat (nth_set_bit_u64 low (of_nat n)))"

end
