(* ===== verification/Select_Bit.thy ===== *)
theory Select_Bit
  imports Bitmap
begin

section \<open>The selection of a set bit is correct\<close>

text \<open>
  \<open>nth_set_bit_u64\<close> (\<^verbatim>\<open>chunk.rs\<close>) finds the \<open>n\<close>-th set bit of a word without branching. Its parallel counts are
  read as numbers written in fields of \<open>k\<close> bits (\<open>pack\<close>), where one round of the computation adds
  neighbouring fields; the selection narrows a window of the reversed word that holds the wanted bit.
\<close>

subsection \<open>Numbers in fields\<close>

fun pack :: "nat \<Rightarrow> nat list \<Rightarrow> nat" where
  "pack k [] = 0"
| "pack k (g # gs) = g + 2 ^ k * pack k gs"

fun pair_sums :: "nat list \<Rightarrow> nat list" where
  "pair_sums (x # y # gs) = (x + y) # pair_sums gs"
| "pair_sums gs = gs"

fun alternate :: "nat \<Rightarrow> nat \<Rightarrow> nat" where
  "alternate k 0 = 0"
| "alternate k (Suc m) = (2 ^ k - 1) + 2 ^ (2 * k) * alternate k m"

lemma and_split:
  assumes "a < 2 ^ k" "b < 2 ^ k"
  shows "(a + 2 ^ k * A) AND (b + 2 ^ k * B) = (a AND b) + 2 ^ k * (A AND (B :: nat))"
proof -
  have low: "(a AND b) < 2 ^ k" using assms(1) by (metis and_nat_def le_less_trans nat_int AND_upper1 and_nat_def of_nat_0_le_iff nat_le_iff)
  have t: "take_bit k (x + 2 ^ k * X) = x" "drop_bit k (x + 2 ^ k * X) = X" if "x < 2 ^ k" for x X :: nat
    using that by (simp_all add: take_bit_eq_mod drop_bit_eq_div)
  have "take_bit k ((a + 2 ^ k * A) AND (b + 2 ^ k * B)) = a AND b"
    "drop_bit k ((a + 2 ^ k * A) AND (b + 2 ^ k * B)) = A AND B"
    using assms by (simp_all add: take_bit_and drop_bit_and t)
  then show ?thesis using bits_ident[of k "(a + 2 ^ k * A) AND (b + 2 ^ k * B)"]
    by (simp add: push_bit_eq_mult mult.commute)
qed

lemma field_div: "a < 2 ^ k \<Longrightarrow> (a + 2 ^ k * b) div 2 ^ k = (b :: nat)"
  by simp

lemma and_ones: "x AND (2 ^ k - 1) = x mod (2 ^ k :: nat)"
  by (simp add: take_bit_eq_mod[symmetric] take_bit_eq_mask mask_eq_exp_minus_1)

text \<open>The even fields, the odd fields and their sum.\<close>

lemma even_fields:
  assumes "x < 2 ^ k" 
  shows "(x + 2 ^ k * y) AND alternate k (Suc m) = x + 2 ^ (2 * k) * ((y div 2 ^ k) AND alternate k m)"
proof -
  let ?z = "x + 2 ^ k * (y mod 2 ^ k)"
  have "y = y mod 2 ^ k + 2 ^ k * (y div 2 ^ k)" by simp
  then have "x + 2 ^ k * y = ?z + 2 ^ (2 * k) * (y div 2 ^ k)"
    by (metis (no_types, lifting) add.assoc distrib_left mult.assoc mult_2 power_add)
  moreover have "?z < 2 ^ (2 * k)"
  proof -
    have "?z < 2 ^ k + 2 ^ k * (y mod 2 ^ k)" using assms by simp
    also have "\<dots> = 2 ^ k * Suc (y mod 2 ^ k)" by simp
    also have "\<dots> \<le> 2 ^ k * 2 ^ k" by (intro mult_le_mono) (simp_all add: Suc_le_eq)
    finally show ?thesis by (simp add: mult_2 power_add)
  qed
  moreover have "(2 ^ k - 1 :: nat) < 2 ^ (2 * k)"
    by (rule less_le_trans[of _ "2 ^ k"]) simp_all
  ultimately have "(x + 2 ^ k * y) AND alternate k (Suc m) = (?z AND (2 ^ k - 1)) + 2 ^ (2 * k) * ((y div 2 ^ k) AND alternate k m)"
    by (simp only: alternate.simps and_split)
  also have "?z AND (2 ^ k - 1) = x" using assms by (simp only: and_ones) simp
  finally show ?thesis .
qed

lemma pack_pair: "pack k (x # y # gs) = x + 2 ^ k * (y + 2 ^ k * pack k gs)"
  by simp

lemma pow_double: "2 ^ (2 * k) = 2 ^ k * (2 ^ k :: nat)"
  by (simp add: mult_2 power_add)

lemma pack_mod: "\<forall>g\<in>set gs. g \<le> B \<Longrightarrow> B < 2 ^ k \<Longrightarrow> pack k gs mod 2 ^ k \<le> B"
  by (cases gs) auto

lemma pack_le: "\<forall>g\<in>set gs. g \<le> B \<Longrightarrow> pack k gs \<le> pack k (replicate (length gs) B)"
  by (induction gs) (auto intro!: add_mono)

lemma pack_less: "\<forall>g\<in>set gs. g < 2 ^ k \<Longrightarrow> pack k gs < 2 ^ (k * length gs)"
proof (induction gs)
  case (Cons g gs)
  then have "pack k (g # gs) < 2 ^ k + 2 ^ k * pack k gs" by simp
  also have "\<dots> = 2 ^ k * Suc (pack k gs)" by simp
  also have "\<dots> \<le> 2 ^ k * 2 ^ (k * length gs)" using Cons by (intro mult_le_mono) (simp_all add: Suc_le_eq)
  finally show ?case by (simp add: power_add)
qed simp

lemma pair_sums_bound: "\<forall>g\<in>set gs. g \<le> B \<Longrightarrow> \<forall>g\<in>set (pair_sums gs). g \<le> 2 * B"
  by (induction gs rule: pair_sums.induct) auto

lemma pair_cases:
  assumes "length gs = 2 * Suc m"
  obtains x y r where "gs = x # y # r" "length r = 2 * m"
  using assms by (cases gs; cases "tl gs") auto

lemma length_pair_sums: "length gs = 2 * m \<Longrightarrow> length (pair_sums gs) = m"
proof (induction m arbitrary: gs)
  case (Suc m)
  from Suc.prems obtain x y r where "gs = x # y # r" "length r = 2 * m" by (rule pair_cases)
  with Suc.IH show ?case by simp
qed simp

text \<open>The three ways the code adds neighbouring fields.\<close>

lemma sub_shifted:
  assumes "length gs = 2 * m" "\<forall>g\<in>set gs. g \<le> 1"
  shows "pack 1 gs - ((pack 1 gs div 2) AND alternate 1 m) = pack 2 (pair_sums gs)"
    and "(pack 1 gs div 2) AND alternate 1 m \<le> pack 1 gs"
proof -
  have "(pack 1 gs div 2) AND alternate 1 m \<le> pack 1 gs \<and>
    pack 1 gs - ((pack 1 gs div 2) AND alternate 1 m) = pack 2 (pair_sums gs)"
    using assms
  proof (induction m arbitrary: gs)
    case (Suc m)
    from Suc.prems(1) obtain x y r where g: "gs = x # y # r" and r: "length r = 2 * m" by (rule pair_cases)
    then have xy: "x < 2" "y < 2" "\<forall>g\<in>set r. g \<le> 1" using Suc.prems by auto
    define Z where "Z = (pack 1 r div 2) AND alternate 1 m"
    have IH: "Z \<le> pack 1 r" "pack 1 r - Z = pack 2 (pair_sums r)" using Suc.IH[OF r xy(3)] by (auto simp: Z_def)
    have "pack 1 gs div 2 = y + 2 ^ 1 * pack 1 r" using xy(1) by (simp add: g)
    then have "(pack 1 gs div 2) AND alternate 1 (Suc m) = y + 4 * Z"
      using xy(2) even_fields[of y 1 "pack 1 r" m] by (simp add: Z_def)
    moreover have "pack 1 gs = x + 2 * y + 4 * pack 1 r" by (simp add: g)
    ultimately show ?case using IH by (auto simp: g)
  qed simp
  then show "pack 1 gs - ((pack 1 gs div 2) AND alternate 1 m) = pack 2 (pair_sums gs)"
    "(pack 1 gs div 2) AND alternate 1 m \<le> pack 1 gs" by simp_all
qed

lemma add_masked:
  assumes "length gs = 2 * m" "\<forall>g\<in>set gs. g < 2 ^ k"
  shows "(pack k gs AND alternate k m) + ((pack k gs div 2 ^ k) AND alternate k m) = pack (2 * k) (pair_sums gs)"
  using assms
proof (induction m arbitrary: gs)
  case (Suc m)
  from Suc.prems(1) obtain x y r where g: "gs = x # y # r" and r: "length r = 2 * m" by (rule pair_cases)
  then have xy: "x < 2 ^ k" "y < 2 ^ k" "\<forall>g\<in>set r. g < 2 ^ k" using Suc.prems by auto
  have "pack k gs AND alternate k (Suc m) = x + 2 ^ (2 * k) * (pack k r AND alternate k m)"
    using even_fields[OF xy(1), of "y + 2 ^ k * pack k r" m] xy(2) by (simp add: g)
  moreover have "pack k gs div 2 ^ k = y + 2 ^ k * pack k r" using xy(1) by (simp add: g)
  moreover have "(y + 2 ^ k * pack k r) AND alternate k (Suc m) = y + 2 ^ (2 * k) * ((pack k r div 2 ^ k) AND alternate k m)"
    by (rule even_fields[OF xy(2)])
  ultimately show ?case using Suc.IH[OF r xy(3)] by (simp add: g distrib_left[symmetric] del: alternate.simps)
qed simp

lemma mask_added:
  assumes "length gs = 2 * m" "\<forall>g\<in>set gs. g \<le> B" "2 * B < 2 ^ k"
  shows "(pack k gs + pack k gs div 2 ^ k) AND alternate k m = pack (2 * k) (pair_sums gs)"
  using assms
proof (induction m arbitrary: gs)
  case (Suc m)
  from Suc.prems(1) obtain x y r where g: "gs = x # y # r" and r: "length r = 2 * m" by (rule pair_cases)
  then have xy: "x + y < 2 ^ k" "x \<le> B" "y \<le> B" "\<forall>g\<in>set r. g \<le> B" using Suc.prems by auto
  let ?R = "pack k r"
  have R: "?R = ?R mod 2 ^ k + 2 ^ k * (?R div 2 ^ k)" by simp
  have carry: "y + ?R mod 2 ^ k < 2 ^ k" using pack_mod[OF xy(4), of k] xy(3) Suc.prems(3) by linarith
  have "pack k gs div 2 ^ k = y + 2 ^ k * ?R" using xy(1) by (simp add: g)
  then have "pack k gs + pack k gs div 2 ^ k = (x + y) + 2 ^ k * ((y + ?R) + 2 ^ k * ?R)"
    by (simp add: g distrib_left)
  moreover have "((y + ?R) + 2 ^ k * ?R) div 2 ^ k = ?R + ?R div 2 ^ k"
  proof -
    have "(y + ?R) + 2 ^ k * ?R = (y + ?R mod 2 ^ k) + 2 ^ k * (?R + ?R div 2 ^ k)"
      using R by (simp add: distrib_left)
    then show ?thesis by (simp only: field_div[OF carry])
  qed
  ultimately have "(pack k gs + pack k gs div 2 ^ k) AND alternate k (Suc m) =
      (x + y) + 2 ^ (2 * k) * ((?R + ?R div 2 ^ k) AND alternate k m)"
    using even_fields[OF xy(1), of "(y + ?R) + 2 ^ k * ?R" m] by (simp only:)
  then show ?case using Suc.IH[OF r xy(4) Suc.prems(3)] by (simp add: g del: alternate.simps)
qed simp

subsection \<open>The parallel counts\<close>

definition cnt :: "'w::len word \<Rightarrow> nat \<Rightarrow> nat \<Rightarrow> nat" where
  "cnt v i j = length (filter (bit v) [i..<j])"

definition counts :: "u64 \<Rightarrow> nat \<Rightarrow> nat list" where
  "counts v w = map (\<lambda>i. cnt v (w * i) (w * Suc i)) [0..<64 div w]"

lemma cnt_split: "i \<le> j \<Longrightarrow> j \<le> k \<Longrightarrow> cnt v i k = cnt v i j + cnt v j k"
proof -
  assume "i \<le> j" "j \<le> k"
  then have "[i..<k] = [i..<j] @ [j..<k]" using upt_add_eq_append[of i j "k - j"] by simp
  then show ?thesis by (simp add: cnt_def)
qed

lemma cnt_le: "cnt v i j \<le> j - i"
  unfolding cnt_def by (rule order_trans[OF length_filter_le]) simp

lemma pair_sums_map:
  "pair_sums (map f [0..<2 * m]) = map (\<lambda>i. f (2 * i) + f (Suc (2 * i))) [0..<m]"
proof (induction m arbitrary: f)
  case (Suc m)
  have "[0..<2 * Suc m] = 0 # 1 # map (\<lambda>i. i + 2) [0..<2 * m]"
    using map_add_upt[of 2 "2 * m"] by (simp add: upt_conv_Cons numeral_2_eq_2 del: upt_Suc)
  then have "pair_sums (map f [0..<2 * Suc m]) = (f 0 + f 1) # pair_sums (map (\<lambda>i. f (i + 2)) [0..<2 * m])"
    by (simp add: comp_def)
  also have "\<dots> = (f 0 + f 1) # map (\<lambda>i. f (2 * i + 2) + f (Suc (2 * i) + 2)) [0..<m]"
    by (simp only: Suc.IH)
  also have "\<dots> = map (\<lambda>i. f (2 * i) + f (Suc (2 * i))) [0..<Suc m]"
    by (simp add: map_upt_Suc del: upt_Suc)
  finally show ?case .
qed simp

lemma pair_sums_counts: "64 div w = 2 * (64 div (2 * w)) \<Longrightarrow> pair_sums (counts v w) = counts v (2 * w)"
proof -
  assume w: "64 div w = 2 * (64 div (2 * w))"
  have "cnt v (w * (2 * i)) (w * Suc (2 * i)) + cnt v (w * Suc (2 * i)) (w * Suc (Suc (2 * i))) =
      cnt v (2 * w * i) (2 * w * Suc i)" for i
    using cnt_split[of "w * (2 * i)" "w * Suc (2 * i)" "w * Suc (Suc (2 * i))" v] by (simp add: algebra_simps)
  then show ?thesis unfolding counts_def w pair_sums_map by simp
qed

lemma counts_bound: "\<forall>g\<in>set (counts v w). g \<le> w"
  using cnt_le[of v] by (fastforce simp: counts_def intro: order_trans)

lemma length_counts [simp]: "length (counts v w) = 64 div w"
  by (simp add: counts_def)

lemma unat_bits: "unat v = pack 1 (counts v 1)"
proof -
  have p: "pack 1 (map (\<lambda>b. of_bool b) bs) = horner_sum of_bool 2 bs" for bs by (induction bs) simp_all
  have "counts v 1 = map (\<lambda>b. of_bool b) (map (bit v) [0..<64])"
    by (simp add: counts_def cnt_def comp_def)
  moreover have "map (bit v) [0..<64] = map (bit (unat v)) [0..<64]" by (simp add: bit_unsigned_iff)
  moreover have "horner_sum of_bool 2 (map (bit (unat v)) [0..<64]) = take_bit 64 (unat v)"
    by (simp only: horner_sum_bit_eq_take_bit)
  moreover have "take_bit 64 (unat v) = unat v" using unsigned_less[of v, where ?'a = nat] by (simp add: take_bit_nat_eq_self)
  ultimately show ?thesis by (simp only: p)
qed

lemma pack_field:
  assumes "\<forall>g\<in>set gs. g < 2 ^ k" "i < length gs"
  shows "pack k gs div 2 ^ (k * i) mod 2 ^ k = gs ! i"
  using assms
proof (induction i arbitrary: gs)
  case 0
  then show ?case by (cases gs) auto
next
  case (Suc i)
  then obtain g r where g: "gs = g # r" by (cases gs) auto
  have "pack k gs div 2 ^ (k * Suc i) = pack k gs div 2 ^ k div 2 ^ (k * i)"
    by (simp add: div_mult2_eq power_add)
  also have "pack k gs div 2 ^ k = pack k r" using Suc.prems(1) by (simp add: g)
  finally show ?case using Suc g by simp
qed

lemma alternate_numeral: "alternate k (numeral n) = (2 ^ k - 1) + 2 ^ (2 * k) * alternate k (pred_numeral n)"
  by (simp only: numeral_eq_Suc alternate.simps)

lemma masks:
  "unat ((- 1 :: u64) div 3) = alternate 1 32" "unat ((- 1 :: u64) div 5) = alternate 2 16"
  "unat ((- 1 :: u64) div 0x11) = alternate 4 8" "unat ((- 1 :: u64) div 0x101) = alternate 8 4"
  by (simp_all add: alternate_numeral)

lemma unat_drop: "unat (drop_bit k (x :: 'w::len word)) = unat x div 2 ^ k"
  by (subst unat_drop_bit_eq) (simp only: drop_bit_eq_div)

lemma unat_and: "unat (x AND y :: 'w::len word) = unat x AND unat y"
  by (simp add: unsigned_and_eq)

lemma unat_plus: "unat x + unat y < 2 ^ LENGTH('w) \<Longrightarrow> unat (x + y :: 'w::len word) = unat x + unat y"
  by (simp add: unat_word_ariths)

lemma unat_minus: "unat y \<le> unat x \<Longrightarrow> unat (x - y :: 'w::len word) = unat x - unat y"
  by (simp add: unat_sub word_le_nat_alt)

text \<open>The intermediate words of \<open>nth_set_bit_u64\<close> hold the counts of the bits in fields of 2, 4, 8 and 16.\<close>

lemma counts_2: "unat (v - (drop_bit 1 v AND ((- 1) div 3))) = pack 2 (counts v 2)"
proof -
  have len: "length (counts v 1) = 2 * 32" and ps: "pair_sums (counts v 1) = counts v 2"
    using pair_sums_counts[of 1 v] by simp_all
  have "pack 1 (counts v 1) - ((pack 1 (counts v 1) div 2) AND alternate 1 32) = pack 2 (counts v 2)"
    "(pack 1 (counts v 1) div 2) AND alternate 1 32 \<le> pack 1 (counts v 1)"
    using sub_shifted[OF len counts_bound] unfolding ps .
  then show ?thesis by (subst unat_minus) (simp_all only: unat_and unat_drop masks unat_bits[symmetric] power_one_right)
qed

lemma counts_4:
  fixes a :: u64
  assumes "unat a = pack 2 (counts v 2)"
  shows "unat ((a AND ((- 1) div 5)) + (drop_bit 2 a AND ((- 1) div 5))) = pack 4 (counts v 4)"
proof -
  have b: "\<forall>g\<in>set (counts v 2). g < 2 ^ 2" using counts_bound[of v 2] by (auto simp: less_Suc_eq_le)
  from add_masked[of "counts v 2" 16 2, OF _ b]
  have "(unat a AND alternate 2 16) + ((unat a div 2 ^ 2) AND alternate 2 16) = pack 4 (counts v 4)"
    using pair_sums_counts[of 2 v] by (simp add: assms)
  moreover have "pack 4 (counts v 4) < 2 ^ (4 * length (counts v 4))"
    using counts_bound[of v 4] by (intro pack_less) (auto intro: le_less_trans)
  moreover have "unat (a AND ((- 1) div 5)) = unat a AND alternate 2 16"
    "unat (drop_bit 2 a AND ((- 1) div 5)) = (unat a div 2 ^ 2) AND alternate 2 16"
    by (simp_all only: unat_and unat_drop masks)
  ultimately show ?thesis by (subst unat_plus) simp_all
qed

lemma counts_double:
  assumes "unat b = pack k (counts v k)" "64 div k = 2 * m" "64 div (2 * k) = m" "2 * k < 2 ^ k"
    and "unat b + unat b div 2 ^ k < 2 ^ 64" "unat M = alternate k m"
  shows "unat ((b + drop_bit k b) AND M :: u64) = pack (2 * k) (counts v (2 * k))"
proof -
  have "(pack k (counts v k) + pack k (counts v k) div 2 ^ k) AND alternate k m = pack (2 * k) (counts v (2 * k))"
    using mask_added[of "counts v k" m k k] counts_bound[of v k] pair_sums_counts[of k v] assms(2-4) by simp
  moreover have "unat (b + drop_bit k b) = unat b + unat b div 2 ^ k"
    using assms(5) by (subst unat_plus) (simp_all add: unat_drop)
  ultimately show ?thesis by (simp add: unat_and assms(1,6))
qed

lemma pack_counts_le: "pack k (counts v k) \<le> pack k (replicate (64 div k) k)"
  using pack_le[OF counts_bound[of v k], of k] by simp

lemma replicate_numeral: "replicate (numeral n) x = x # replicate (pred_numeral n) x"
  by (simp only: numeral_eq_Suc replicate.simps)

lemma replicated: "pack 4 (replicate 16 4) = 0x4444444444444444" "pack 8 (replicate 8 8) = 0x0808080808080808"
  by (simp_all add: replicate_numeral)

lemma counts_8:
  fixes b :: u64
  assumes "unat b = pack 4 (counts v 4)"
  shows "unat ((b + drop_bit 4 b) AND ((- 1) div 0x11)) = pack 8 (counts v 8)"
proof -
  have "pack 4 (counts v 4) \<le> 0x4444444444444444" using pack_counts_le[of 4 v] replicated(1) by simp
  then have "unat b + unat b div 2 ^ 4 < 2 ^ 64" using div_le_dividend[of "unat b" "2 ^ 4"] by (simp add: assms)
  from counts_double[OF assms _ _ _ this masks(3)] show ?thesis by simp
qed

lemma counts_16:
  fixes c :: u64
  assumes "unat c = pack 8 (counts v 8)"
  shows "unat ((c + drop_bit 8 c) AND ((- 1) div 0x101)) = pack 16 (counts v 16)"
proof -
  have "pack 8 (counts v 8) \<le> 0x0808080808080808" using pack_counts_le[of 8 v] replicated(2) by simp
  then have "unat c + unat c div 2 ^ 8 < 2 ^ 64" using div_le_dividend[of "unat c" "2 ^ 8"] by (simp add: assms)
  from counts_double[OF assms _ _ _ this masks(4)] show ?thesis by simp
qed

subsection \<open>One step of the selection\<close>

lemma and_disjoint: "b < 2 ^ k \<Longrightarrow> (2 ^ k * A) AND b = (0 :: nat)"
  using and_split[of 0 k b A 0] by simp

lemma bit_256: "a < 256 \<Longrightarrow> (a + 256 * Y) AND 256 = (if odd Y then 256 else (0 :: nat))"
  using and_split[of a 8 0 Y 1] by (simp add: and_one_eq odd_iff_mod_2_eq_one even_iff_mod_2_eq_zero)

lemma low_bits: "a < 256 \<Longrightarrow> (a + 256 * A) AND (255 + 256 * B) = a + 256 * (A AND (B :: nat))"
  using and_split[of a 8 255 A B] and_ones[of a 8] by simp

lemma select_difference:
  fixes t n :: u64
  assumes "unat t = lo + 2 ^ 16 * hi" "lo \<le> 64" "hi \<le> 16" "unat n \<le> 64"
  shows "unat ((t - n) AND 256) = (if lo < unat n then 256 else 0)"
    and "unat (t AND drop_bit 8 (t - n)) = (if lo < unat n then lo else 0)"
proof -
  have t: "unat t = lo + 256 * (256 * hi)" using assms(1) by simp
  have "unat ((t - n) AND 256) = (if lo < unat n then 256 else 0) \<and>
    unat (t AND drop_bit 8 (t - n)) = (if lo < unat n then lo else 0)"
  proof (cases "lo < unat n")
    case False
    then have "unat (t - n) = (lo - unat n) + 256 * (256 * hi)"
      by (subst unat_minus) (simp_all add: t)
    moreover have "((lo - unat n) + 256 * (256 * hi)) div 2 ^ 8 = 256 * hi" using assms(2) by simp
    moreover have "(lo + 256 * (256 * hi)) AND (256 * hi) = 0"
      using and_split[of lo 8 0 "256 * hi" hi] and_disjoint[of hi 8 hi] assms(2,3) by simp
    ultimately show ?thesis using False bit_256[of "lo - unat n" "256 * hi"] assms(2)
      by (simp add: unat_and unat_drop t)
  next
    case True
    define e where "e = unat n - lo"
    have e: "1 \<le> e" "e \<le> 64" "unat n = lo + e" using True assms(4) by (auto simp: e_def)
    define Y' where "Y' = (if hi = 0 then 2 ^ 48 - 1 else hi - 1)"
    have d: "unat (t - n) = (256 - e) + 256 * (255 + 256 * Y')"
    proof (cases "hi = 0")
      case True
      then have "\<not> unat n \<le> unat t" using e by (simp add: t)
      then have "unat (t - n) = 2 ^ 64 + unat t - unat n" by (simp add: unat_sub_if')
      then show ?thesis using True e by (simp add: t Y'_def)
    next
      case False
      then obtain h where "hi = Suc h" by (cases hi) auto
      moreover from this have "unat (t - n) = unat t - unat n" using e by (intro unat_minus) (simp add: t)
      ultimately show ?thesis using e assms(2) by (simp add: t Y'_def)
    qed
    have "unat ((t - n) AND 256) = 256" using bit_256[of "256 - e" "255 + 256 * Y'"] e by (simp add: unat_and d)
    moreover have "unat (drop_bit 8 (t - n)) = 255 + 256 * Y'" using e by (simp add: unat_drop d)
    moreover have "(256 * hi) AND Y' = 0"
      using and_disjoint[of Y' 8 hi] assms(3) by (cases "hi = 0") (simp_all add: Y'_def)
    ultimately show ?thesis using True low_bits[of lo "256 * hi" Y'] assms(2) by (simp add: unat_and t)
  qed
  then show "unat ((t - n) AND 256) = (if lo < unat n then 256 else 0)"
    "unat (t AND drop_bit 8 (t - n)) = (if lo < unat n then lo else 0)" by simp_all
qed

text \<open>
  The window \<open>[s - w, s)\<close> of the reversed word holds the wanted bit \<open>p\<close>, and \<open>n\<close> is its rank in it from
  above. A step looks at the count \<open>lo\<close> of the upper half.
\<close>

definition window :: "u64 \<Rightarrow> nat \<Rightarrow> nat \<Rightarrow> u64 \<Rightarrow> u64 \<Rightarrow> bool" where
  "window v p w s n \<longleftrightarrow> bit v p \<and> p < unat s \<and> unat s \<le> p + w \<and> w dvd unat s \<and> unat s \<le> 64 \<and> unat n = cnt v p (unat s)"

lemma window_step:
  assumes w: "window v p (2 * h) s n" and h: "256 div 2 ^ k = h" "h > 0" "k \<le> 8"
    and t: "unat t = cnt v (unat s - h) (unat s) + 2 ^ 16 * hi" "hi \<le> 16"
  shows "window v p h (select_s k t n s) (select_n t n)"
proof -
  let ?S = "unat s" and ?lo = "cnt v (unat s - h) (unat s)"
  have p: "bit v p" "p < ?S" "?S \<le> p + 2 * h" "2 * h dvd ?S" "?S \<le> 64" "unat n = cnt v p ?S"
    using w by (simp_all add: window_def)
  have n: "unat n \<le> 64" using cnt_le[of v p ?S] p by simp
  have hs: "2 * h \<le> ?S" using p(2,4) by (auto dest: dvd_imp_le)
  have lo: "?lo \<le> 64" using cnt_le[of v "?S - h" ?S] hs p(5) by simp
  note d = select_difference[OF t(1) lo t(2) n]
  have half: "h dvd ?S - h" "h dvd ?S" using p(4) by (auto intro: dvd_diff_nat dvd_mult_right dvd_trans[of h "2 * h"])
  show ?thesis
  proof (cases "?lo < unat n")
    case True
    have ps: "p < ?S - h"
    proof (rule ccontr)
      assume "\<not> p < ?S - h"
      then have "cnt v (?S - h) ?S = cnt v (?S - h) p + cnt v p ?S" using p(2) by (intro cnt_split) simp_all
      then show False using True p(6) by simp
    qed
    have k: "unat (drop_bit k ((t - n) AND 256)) = h" using d(1) True h(1) by (simp only: unat_drop if_True)
    then have "unat (select_s k t n s) = ?S - h" unfolding select_s_def using hs by (subst unat_minus) simp_all
    moreover have "unat (select_n t n) = unat n - ?lo"
      unfolding select_n_def using d(2) True by (subst unat_minus) simp_all
    moreover have "cnt v p ?S = cnt v p (?S - h) + ?lo" using ps by (intro cnt_split) simp_all
    ultimately show ?thesis using ps p half by (auto simp: window_def)
  next
    case False
    have ps: "?S \<le> p + h"
    proof (rule ccontr)
      assume c: "\<not> ?S \<le> p + h"
      then have "cnt v p ?S = cnt v p (?S - h) + ?lo" by (intro cnt_split) simp_all
      moreover have "cnt v p (?S - h) > 0"
        using c p(1) by (auto simp: cnt_def filter_empty_conv intro!: exI[of _ p])
      ultimately show False using False p(6) by simp
    qed
    have "unat (drop_bit k ((t - n) AND 256)) = 0" using d(1) False by (simp only: unat_drop if_False div_0)
    then have "select_s k t n s = s" by (simp add: select_s_def unat_eq_zero)
    moreover have "select_n t n = n" using d(2) False by (simp add: select_n_def unat_eq_zero)
    ultimately show ?thesis using ps p half by (simp add: window_def)
  qed
qed

text \<open>The count of a field, read out of a packed word at a bit position.\<close>

lemma read_field:
  fixes x s M :: u64
  assumes x: "unat x = pack w (counts v w)" and s: "w dvd unat s" "w \<le> unat s" "unat s \<le> 64" "w dvd 64"
    and m: "unat M = 2 ^ k - 1" "w < 2 ^ k" "k \<le> w" "w > 0"
  shows "unat (drop_bit (unat (s - of_nat w)) x AND M) = cnt v (unat s - w) (unat s)"
proof -
  obtain i where i: "unat s = w * Suc i" using s(1,2) m(4) by (metis Suc_pred' dvd_def gr0I le_zero_eq mult_0_right not_gr0)
  have w64: "unat (of_nat w :: u64) = w" using s(2,3) by (simp add: unsigned_of_nat take_bit_nat_eq_self)
  have j: "unat (s - of_nat w) = w * i" using s(2) by (subst unat_minus) (simp_all only: w64, simp add: i)
  have "i < 64 div w" using s(3,4) i m(4) by (metis Suc_le_lessD div_le_mono nonzero_mult_div_cancel_left not_gr0)
  then have f: "unat x div 2 ^ (w * i) mod 2 ^ w = cnt v (w * i) (w * Suc i)"
    unfolding x using counts_bound[of v w] less_exp[of w]
    by (subst pack_field) (auto simp: counts_def intro: le_less_trans)
  have "unat x div 2 ^ (w * i) mod 2 ^ k = unat x div 2 ^ (w * i) mod 2 ^ w mod 2 ^ k"
    using m(3) by (simp add: mod_mod_cancel le_imp_power_dvd)
  also have "\<dots> = cnt v (w * i) (w * Suc i)" using f cnt_le[of v "w * i" "w * Suc i"] m(2) by simp
  finally show ?thesis unfolding unat_and unat_drop m(1) and_ones j by (simp add: i)
qed

lemma window_le: "window v p w s n \<Longrightarrow> w \<le> unat s \<and> w dvd unat s \<and> unat s \<le> 64"
  by (auto simp: window_def dest: dvd_imp_le)

lemma first_field:
  fixes d :: u64
  assumes "unat d = pack 16 (counts v 16)"
  shows "\<exists>hi\<le>16. unat (drop_bit 32 d + drop_bit 48 d) = cnt v 32 64 + 2 ^ 16 * hi"
proof -
  let ?c = "\<lambda>i. cnt v (16 * i) (16 * Suc i)"
  have c: "?c i \<le> 16" for i using cnt_le[of v "16 * i" "16 * Suc i"] by simp
  have "counts v 16 = map ?c [0..<4]" by (simp add: counts_def)
  then have "counts v 16 = [?c 0, ?c 1, ?c 2, ?c 3]" by (simp add: upt_rec numeral_eq_Suc)
  then have d: "unat d = ?c 0 + 2 ^ 16 * (?c 1 + 2 ^ 16 * (?c 2 + 2 ^ 16 * ?c 3))" by (simp only: assms pack.simps mult_0_right add_0_right)
  have e: "(a + 2 ^ 16 * b) div 2 ^ 16 = b" if "a \<le> 16" for a b :: nat using that by simp
  have "unat d div 2 ^ 32 = unat d div 2 ^ 16 div 2 ^ 16" by (simp add: div_mult2_eq[symmetric])
  then have d32: "unat d div 2 ^ 32 = ?c 2 + 2 ^ 16 * ?c 3" by (simp only: d e[OF c])
  have "unat d div 2 ^ 48 = unat d div 2 ^ 32 div 2 ^ 16" by (simp add: div_mult2_eq[symmetric])
  then have d48: "unat d div 2 ^ 48 = ?c 3" by (simp only: d32 e[OF c])
  have "?c 2 + 2 ^ 16 * ?c 3 + ?c 3 < 2 ^ LENGTH(64)" using c[of 2] c[of 3] by simp
  then have "unat (drop_bit 32 d + drop_bit 48 d) = ?c 2 + 2 ^ 16 * ?c 3 + ?c 3"
    by (subst unat_plus) (simp_all only: unat_drop d32 d48)
  moreover have "cnt v 32 64 = ?c 2 + ?c 3" using cnt_split[of 32 48 64 v] by simp
  ultimately show ?thesis using c[of 3] by (intro exI[of _ "?c 3"]) simp
qed

lemma nth_set_bit_u64_window:
  fixes v0 n0 :: u64
  defines "v \<equiv> word_reverse v0"
  assumes "bit v p" "p < 64" "unat n0 = cnt v p 64"
  shows "unat (nth_set_bit_u64 v0 n0) = 63 - p"
proof -
  define a where "a = v - (drop_bit 1 v AND ((- 1) div 3))"
  define b where "b = (a AND ((- 1) div 5)) + (drop_bit 2 a AND ((- 1) div 5))"
  define c where "c = (b + drop_bit 4 b) AND ((- 1) div 0x11)"
  define d where "d = (c + drop_bit 8 c) AND ((- 1) div 0x101)"
  have A: "unat a = pack 2 (counts v 2)" unfolding a_def by (rule counts_2)
  have B: "unat b = pack 4 (counts v 4)" unfolding b_def by (rule counts_4[OF A])
  have C: "unat c = pack 8 (counts v 8)" unfolding c_def by (rule counts_8[OF B])
  have D: "unat d = pack 16 (counts v 16)" unfolding d_def by (rule counts_16[OF C])
  define s0 :: u64 where "s0 = 64"
  define t1 where "t1 = drop_bit 32 d + drop_bit 48 d"
  define s1 n1 where "s1 = select_s 3 t1 n0 s0" and "n1 = select_n t1 n0"
  define t2 where "t2 = drop_bit (unat (s1 - 16)) d AND 0xff"
  define s2 n2 where "s2 = select_s 4 t2 n1 s1" and "n2 = select_n t2 n1"
  define t3 where "t3 = drop_bit (unat (s2 - 8)) c AND 0xf"
  define s3 n3 where "s3 = select_s 5 t3 n2 s2" and "n3 = select_n t3 n2"
  define t4 where "t4 = drop_bit (unat (s3 - 4)) b AND 0x7"
  define s4 n4 where "s4 = select_s 6 t4 n3 s3" and "n4 = select_n t4 n3"
  define t5 where "t5 = drop_bit (unat (s4 - 2)) a AND 0x3"
  define s5 n5 where "s5 = select_s 7 t5 n4 s4" and "n5 = select_n t5 n4"
  define t6 where "t6 = drop_bit (unat (s5 - 1)) v AND 0x1"
  define s6 where "s6 = select_s 8 t6 n5 s5"
  have w0: "window v p (2 * 32) s0 n0" using assms by (simp add: window_def s0_def)
  obtain hi where "hi \<le> 16" "unat t1 = cnt v 32 64 + 2 ^ 16 * hi" using first_field[OF D] by (auto simp: t1_def)
  then have w1: "window v p (2 * 16) s1 n1"
    unfolding s1_def n1_def using window_step[OF w0, of 3 t1 hi] by (simp add: s0_def)
  have step: "window v p (h) (select_s k t n s) (select_n t n)"
    if "window v p (2 * h) s n" "256 div 2 ^ k = h" "h > 0" "k \<le> 8" "unat t = cnt v (unat s - h) (unat s)" for h k s n t
    using window_step[OF that(1-4), of t 0] that(5) by simp
  have le: "h \<le> unat s \<and> h dvd unat s \<and> unat s \<le> 64" if "window v p (2 * h) s n" for h s n
    using window_le[OF that] by (auto intro: dvd_mult_right dvd_trans[of h "2 * h"])
  have "unat t2 = cnt v (unat s1 - 16) (unat s1)"
    unfolding t2_def using le[OF w1] read_field[OF D, of s1 255 8] by simp
  then have w2: "window v p (2 * 8) s2 n2" unfolding s2_def n2_def using step[OF w1, of 4 t2] by simp
  have "unat t3 = cnt v (unat s2 - 8) (unat s2)"
    unfolding t3_def using le[OF w2] read_field[OF C, of s2 15 4] by simp
  then have w3: "window v p (2 * 4) s3 n3" unfolding s3_def n3_def using step[OF w2, of 5 t3] by simp
  have "unat t4 = cnt v (unat s3 - 4) (unat s3)"
    unfolding t4_def using le[OF w3] read_field[OF B, of s3 7 3] by simp
  then have w4: "window v p (2 * 2) s4 n4" unfolding s4_def n4_def using step[OF w3, of 6 t4] by simp
  have "unat t5 = cnt v (unat s4 - 2) (unat s4)"
    unfolding t5_def using le[OF w4] read_field[OF A, of s4 3 2] by simp
  then have w5: "window v p (2 * 1) s5 n5" unfolding s5_def n5_def using step[OF w4, of 7 t5] by simp
  have "unat t6 = cnt v (unat s5 - 1) (unat s5)"
  proof -
    obtain j where j: "unat s5 = Suc j" "j < 64" using le[OF w5] by (cases "unat s5") auto
    have "unat (s5 - 1) = j" using j by (subst unat_minus) simp_all
    moreover have "drop_bit j v AND 1 = of_bool (bit v j)" by (simp only: and_one_eq bit_iff_odd_drop_bit mod_2_eq_odd)
    ultimately show ?thesis by (simp add: t6_def j cnt_def)
  qed
  then have w6: "window v p 1 s6 (select_n t6 n5)" unfolding s6_def using step[OF w5, of 8 t6] by simp
  then have "unat s6 = Suc p" by (auto simp: window_def)
  then have s6: "s6 = of_nat (Suc p)" by (metis of_nat_unat ucast_id)
  have "nth_set_bit_u64 v0 n0 = 65 - s6 - 1"
    by (simp only: nth_set_bit_u64_def Let_def v_def[symmetric] a_def[symmetric] b_def[symmetric] c_def[symmetric]
        d_def[symmetric] s0_def[symmetric] t1_def[symmetric] s1_def[symmetric] n1_def[symmetric] t2_def[symmetric]
        s2_def[symmetric] n2_def[symmetric] t3_def[symmetric] s3_def[symmetric] n3_def[symmetric] t4_def[symmetric]
        s4_def[symmetric] n4_def[symmetric] t5_def[symmetric] s5_def[symmetric] n5_def[symmetric] t6_def[symmetric] s6_def[symmetric])
  also have "\<dots> = of_nat (63 - p)" using assms(3) by (simp add: s6 of_nat_diff)
  finally show ?thesis using assms(3) by (simp add: unsigned_of_nat take_bit_nat_eq_self del: of_nat_diff)
qed

subsection \<open>Selection finds the n-th mark\<close>

lemma nth_mark_spec:
  "1 \<le> n \<Longrightarrow> n \<le> marks ps \<Longrightarrow>
   nth_mark ps n < length ps \<and> ps ! nth_mark ps n \<and> marks (take (Suc (nth_mark ps n)) ps) = n"
proof (induction ps n rule: nth_mark.induct)
  case (2 p ps n)
  then show ?case by (cases "p \<and> n \<le> 1") (auto simp: Suc_le_eq)
qed simp

lemma nth_mark_append:
  "1 \<le> n \<Longrightarrow> n \<le> marks (xs @ ys) \<Longrightarrow>
   nth_mark (xs @ ys) n = (if n \<le> marks xs then nth_mark xs n else length xs + nth_mark ys (n - marks xs))"
proof (induction xs arbitrary: n)
  case (Cons x xs)
  show ?case
  proof (cases "x \<and> n \<le> 1")
    case False
    then have "1 \<le> (if x then n - 1 else n)" "(if x then n - 1 else n) \<le> marks (xs @ ys)" using Cons.prems by (auto split: if_splits)
    from Cons.IH[OF this] False Cons.prems show ?thesis by (auto simp: Suc_diff_le split: if_splits)
  qed (use Cons.prems in auto)
qed simp

lemma nth_set_bit_u64_marks:
  fixes v :: u64
  assumes "bitmap v ps" "length ps = 64" "1 \<le> n" "n \<le> marks ps"
  shows "unat (nth_set_bit_u64 v (of_nat n)) = nth_mark ps n"
proof -
  let ?q = "nth_mark ps n"
  have q: "?q < 64" "ps ! ?q" "marks (take (Suc ?q) ps) = n" using nth_mark_spec[OF assms(3,4)] assms(2) by simp_all
  have bit: "bit (word_reverse v) i \<longleftrightarrow> i < 64 \<and> ps ! (63 - i)" for i
    by (auto simp: bit_word_reverse_iff bitmap_bit[OF assms(1)] assms(2))
  have "[63 - ?q..<64] = rev (map (\<lambda>i. 63 - i) [0..<Suc ?q])"
    using q(1) by (intro nth_equalityI) (auto simp: rev_nth simp del: upt_Suc)
  then have "cnt (word_reverse v) (63 - ?q) 64 = length (filter (bit (word_reverse v)) (rev (map (\<lambda>i. 63 - i) [0..<Suc ?q])))"
    by (simp only: cnt_def)
  also have "\<dots> = length (filter (\<lambda>i. bit (word_reverse v) (63 - i)) [0..<Suc ?q])"
    by (simp only: rev_filter[symmetric] length_rev filter_map length_map comp_def)
  also have "filter (\<lambda>i. bit (word_reverse v) (63 - i)) [0..<Suc ?q] = filter (\<lambda>i. i < length ps \<and> ps ! i) [0..<Suc ?q]"
    using q(1) assms(2) by (intro filter_cong) (auto simp: bit less_Suc_eq_le)
  also have "length \<dots> = n" using filter_upt_nth[of ps "Suc ?q"] q(3) by simp
  finally have c: "cnt (word_reverse v) (63 - ?q) 64 = n" .
  have "n \<le> 64" using assms(2,4) length_filter_le[of "\<lambda>p. p" ps] by simp
  then have n: "unat (of_nat n :: u64) = n" by (simp add: unsigned_of_nat take_bit_nat_eq_self)
  have "bit (word_reverse v) (63 - ?q)" using q by (auto simp: bit)
  from nth_set_bit_u64_window[OF this] q(1) c n show ?thesis by simp
qed

lemma nth_set_bit_marks:
  assumes "bitmap v ps" "1 \<le> n" "n \<le> marks ps"
  shows "nth_set_bit v n = nth_mark ps n"
proof -
  obtain qs where qs_def: "qs = ps @ replicate (128 - length ps) False" by simp
  have "length ps \<le> 128" using bitmap_length[OF assms(1)] by simp
  then have len: "length (take 64 qs) = 64" "length (drop 64 qs) = 64" and qs: "bitmap v qs"
    using bitmap_mono[OF assms(1), of "128 - length ps"] by (simp_all add: qs_def)
  have narrow: "bitmap (ucast w :: u64) (take 64 rs)" if "bitmap w rs" for w :: "128 word" and rs
    by (rule bitmapI) (auto simp: bit_ucast_iff bitmap_bit[OF that])
  have lo: "bitmap (ucast v :: u64) (take 64 qs)" by (rule narrow[OF qs])
  have hi: "bitmap (ucast (drop_bit 64 v) :: u64) (drop 64 qs)"
    using narrow[OF bitmap_drop[OF qs, of 64]] len by simp
  have m: "marks qs = marks ps" by (simp add: qs_def)
  have eq: "nth_mark qs n = nth_mark ps n" using nth_mark_append[OF assms(2), of ps] assms(3) by (simp add: qs_def)
  have split: "take 64 qs @ drop 64 qs = qs" by (rule append_take_drop_id)
  have n: "n \<le> marks (take 64 qs @ drop 64 qs)" unfolding split using assms(3) m by simp
  have cl: "count_ones (ucast v :: u64) = marks (take 64 qs)" by (rule count_ones_marks[OF lo])
  have tot: "marks ps = marks (take 64 qs) + marks (drop 64 qs)" using m split by (metis filter_append length_append)
  show ?thesis
  proof (cases "n > marks (take 64 qs)")
    case True
    then have "unat (nth_set_bit_u64 (ucast (drop_bit 64 v)) (of_nat (n - marks (take 64 qs)))) =
        nth_mark (drop 64 qs) (n - marks (take 64 qs))"
      using assms(3) tot len by (intro nth_set_bit_u64_marks[OF hi]) linarith+
    then show ?thesis using True nth_mark_append[OF assms(2) n] len unfolding split eq
      by (simp add: nth_set_bit_def cl Let_def)
  next
    case False
    then have "unat (nth_set_bit_u64 (ucast v) (of_nat n)) = nth_mark (take 64 qs) n"
      using assms(2) len by (intro nth_set_bit_u64_marks[OF lo]) linarith+
    then show ?thesis using False nth_mark_append[OF assms(2) n] unfolding split eq
      by (simp add: nth_set_bit_def cl Let_def)
  qed
qed

text \<open>
  C31: The branch-free selection is correct: for a rank \<open>n\<close> between 1 and the number of set bits of a
  128-bit word, \<open>nth_set_bit\<close> returns the position of a set bit with exactly \<open>n - 1\<close> set bits below it.
  The parallel bit counts never carry from one field into the next, and no step of the selection
  depends on a difference that wrapped.
\<close>

theorem nth_set_bit_correct:
  assumes "1 \<le> n" "n \<le> count_ones v"
  shows "nth_set_bit v n < 128 \<and> bit v (nth_set_bit v n) \<and>
    length (filter (bit v) [0..<nth_set_bit v n]) = n - 1"
proof -
  let ?ps = "map (bit v) [0..<LENGTH(128)]"
  have b: "bitmap v ?ps" by (rule bitmap_map_bit)
  have n: "n \<le> marks ?ps" using assms(2) count_ones_marks[OF b] by simp
  let ?q = "nth_mark ?ps n"
  have q: "?q < length ?ps" "?ps ! ?q" "marks (take (Suc ?q) ?ps) = n" using nth_mark_spec[OF assms(1) n] by auto
  have "marks (take (Suc ?q) ?ps) = Suc (marks (take ?q ?ps))" using q(1,2) by (simp add: take_Suc_conv_app_nth)
  moreover have "marks (take ?q ?ps) = length (filter (bit v) [0..<?q])"
    using q(1) by (simp add: take_map filter_map comp_def)
  ultimately have "length (filter (bit v) [0..<?q]) = n - 1" using q(3) by simp
  then show ?thesis using q(1,2) nth_set_bit_marks[OF b assms(1) n] by simp
qed

lemma nth_set_bit_correct_witness:
  "bit (0x8000000000000000000000000000A000 :: 128 word) (nth_set_bit 0x8000000000000000000000000000A000 3) \<and>
   nth_set_bit 0x8000000000000000000000000000A000 3 = 127"
proof -
  have c: "count_ones (0x8000000000000000000000000000A000 :: 128 word) = 3" by code_simp
  have "nth_set_bit 0x8000000000000000000000000000A000 3 = 127" by code_simp
  then show ?thesis using nth_set_bit_correct[of 3 "0x8000000000000000000000000000A000"] c by simp
qed

end
