(* ===== verification/Utf8.thy ===== *)
theory Utf8
  imports Prelude
begin

section \<open>Strings in UTF-8\<close>

text \<open>
  What the rope uses of Rust's \<open>char\<close> and \<open>str\<close>. A \<open>char\<close> is a Unicode scalar value; a \<open>str\<close> is a byte
  sequence that encodes a sequence of them. The code under \<^verbatim>\<open>crates/rope\<close> works on the bytes and recognises
  the start of a character by its first byte (\<open>is_utf8_char_boundary\<close> in \<^verbatim>\<open>crates/util\<close>).
\<close>

type_synonym u8 = "8 word"
type_synonym scalar = nat
type_synonym bytes = "u8 list"

definition is_scalar :: "scalar \<Rightarrow> bool" where
  "is_scalar c \<longleftrightarrow> c < 0xD800 \<or> (0xE000 \<le> c \<and> c < 0x110000)"

definition encode_utf8 :: "scalar \<Rightarrow> bytes" where
  "encode_utf8 c =
     (if c < 0x80 then [of_nat c]
      else if c < 0x800 then [of_nat (0xC0 + c div 64), of_nat (0x80 + c mod 64)]
      else if c < 0x10000 then
        [of_nat (0xE0 + c div 4096), of_nat (0x80 + c div 64 mod 64), of_nat (0x80 + c mod 64)]
      else
        [of_nat (0xF0 + c div 262144), of_nat (0x80 + c div 4096 mod 64),
         of_nat (0x80 + c div 64 mod 64), of_nat (0x80 + c mod 64)])"

definition len_utf8 :: "scalar \<Rightarrow> nat" where
  "len_utf8 c = (if c < 0x80 then 1 else if c < 0x800 then 2 else if c < 0x10000 then 3 else 4)"

definition len_utf16 :: "scalar \<Rightarrow> nat" where
  "len_utf16 c = (if c < 0x10000 then 1 else 2)"

definition str_of :: "scalar list \<Rightarrow> bytes" where
  "str_of cs = concat (map encode_utf8 cs)"

definition valid_str :: "bytes \<Rightarrow> bool" where
  "valid_str bs \<longleftrightarrow> (\<exists>cs. (\<forall>c\<in>set cs. is_scalar c) \<and> bs = str_of cs)"

text \<open>\<open>is_utf8_char_boundary\<close>: the byte, read as a signed number, is at least \<open>-0x40\<close>.\<close>

definition is_utf8_char_boundary :: "u8 \<Rightarrow> bool" where
  "is_utf8_char_boundary b \<longleftrightarrow> sint b \<ge> - 0x40"

text \<open>\<open>str::is_char_boundary\<close>, \<open>str::floor_char_boundary\<close>, \<open>str::ceil_char_boundary\<close> and \<open>str::split_at\<close>.\<close>

definition str_is_char_boundary :: "bytes \<Rightarrow> nat \<Rightarrow> bool" where
  "str_is_char_boundary bs i \<longleftrightarrow>
     i = 0 \<or> i = length bs \<or> (i < length bs \<and> is_utf8_char_boundary (bs ! i))"

fun floor_from :: "bytes \<Rightarrow> nat \<Rightarrow> nat" where
  "floor_from bs 0 = 0"
| "floor_from bs (Suc i) = (if is_utf8_char_boundary (bs ! Suc i) then Suc i else floor_from bs i)"

definition str_floor_char_boundary :: "bytes \<Rightarrow> nat \<Rightarrow> nat" where
  "str_floor_char_boundary bs i = (if length bs \<le> i then length bs else floor_from bs i)"

definition str_ceil_char_boundary :: "bytes \<Rightarrow> nat \<Rightarrow> nat" where
  "str_ceil_char_boundary bs i =
     (if length bs \<le> i then length bs
      else i + length (takeWhile (\<lambda>b. \<not> is_utf8_char_boundary b) (drop i bs)))"

definition str_split_at :: "bytes \<Rightarrow> nat \<Rightarrow> (bytes \<times> bytes) option" where
  "str_split_at bs i = (if str_is_char_boundary bs i then Some (take i bs, drop i bs) else None)"

text \<open>\<open>&text[start..end]\<close>.\<close>

definition str_index :: "bytes \<Rightarrow> nat \<Rightarrow> nat \<Rightarrow> bytes option" where
  "str_index bs s e =
     (if s \<le> e \<and> str_is_char_boundary bs s \<and> str_is_char_boundary bs e
      then Some (drop s (take e bs)) else None)"

subsection \<open>Characters and their bytes\<close>

lemma unat_of_nat_u8: "n < 256 \<Longrightarrow> unat (of_nat n :: u8) = n"
  by (simp add: unsigned_of_nat take_bit_nat_eq_self)

lemma boundary_unat: "is_utf8_char_boundary b \<longleftrightarrow> unat b < 128 \<or> 192 \<le> unat b"
proof -
  obtain n where n: "unat b = n" "uint b = int n" by simp
  have "unat b < 2 ^ LENGTH(8)" by (rule unsigned_less)
  with n have lt: "n < 256" by simp
  have "n div 128 = (if n < 128 then 0 else 1)" using lt by (auto intro: div_nat_eqI)
  then have "bit n 7 \<longleftrightarrow> 128 \<le> n" by (simp add: bit_iff_odd)
  then have "bit (int n) 7 \<longleftrightarrow> 128 \<le> n" by (simp only: bit_of_nat_iff_bit)
  then have "sint b = (if n < 128 then int n else int n - 256)"
    unfolding sint_uint using n lt by (auto simp: signed_take_bit_eq_take_bit_minus take_bit_int_eq_self)
  with n lt show ?thesis unfolding is_utf8_char_boundary_def by auto
qed

text \<open>What the rope relies on of an encoded character.\<close>

lemma encode_utf8_cases:
  assumes "is_scalar c"
  obtains b t where "encode_utf8 c = b # t" "is_utf8_char_boundary b" "\<forall>x\<in>set t. 128 \<le> unat x \<and> unat x < 192"
    "length t = len_utf8 c - 1" "240 \<le> unat b \<longleftrightarrow> 0x10000 \<le> c" "t = [] \<longleftrightarrow> unat b < 128" "b = 10 \<longleftrightarrow> c = 10"
    "b = 9 \<longleftrightarrow> c = 9"
proof -
  have c: "c < 0x110000" using assms by (auto simp: is_scalar_def)
  have cont: "128 \<le> unat (of_nat (128 + n mod 64) :: u8) \<and> unat (of_nat (128 + n mod 64) :: u8) < 192" for n
  proof -
    have lt: "n mod 64 < 64" by simp
    then have "unat (of_nat (128 + n mod 64) :: u8) = 128 + n mod 64" by (intro unat_of_nat_u8) linarith
    with lt show ?thesis by linarith
  qed
  have eq: "b = 10 \<longleftrightarrow> unat b = 10" "b = 9 \<longleftrightarrow> unat b = 9" for b :: u8 by (simp_all add: word_unat_eq_iff)
  consider "c < 0x80" | "0x80 \<le> c" "c < 0x800" | "0x800 \<le> c" "c < 0x10000" | "0x10000 \<le> c" by linarith
  then show thesis
  proof cases
    case 1
    then have "unat (of_nat c :: u8) = c" by (simp add: unat_of_nat_u8)
    with 1 show thesis
      by (intro that[of "of_nat c" "[]"]) (auto simp: encode_utf8_def len_utf8_def boundary_unat eq)
  next
    case 2
    then have d: "c div 64 < 32" by (simp add: less_mult_imp_div_less)
    then have "unat (of_nat (192 + c div 64) :: u8) = 192 + c div 64" by (subst unat_of_nat_u8) simp_all
    with 2 d show thesis
      by (intro that[of "of_nat (192 + c div 64)" "[of_nat (128 + c mod 64)]"])
         (use cont[of c] in \<open>auto simp: encode_utf8_def len_utf8_def boundary_unat eq simp del: of_nat_add of_nat_numeral\<close>)
  next
    case 3
    then have d: "c div 4096 < 16" by (simp add: less_mult_imp_div_less)
    then have "unat (of_nat (224 + c div 4096) :: u8) = 224 + c div 4096" by (subst unat_of_nat_u8) simp_all
    with 3 d show thesis
      by (intro that[of "of_nat (224 + c div 4096)" "[of_nat (128 + c div 64 mod 64), of_nat (128 + c mod 64)]"])
         (use cont[of c] cont[of "c div 64"] in \<open>auto simp: encode_utf8_def len_utf8_def boundary_unat eq simp del: of_nat_add of_nat_numeral\<close>)
  next
    case 4
    then have d: "c div 262144 < 5" using c by (simp add: less_mult_imp_div_less)
    then have "unat (of_nat (240 + c div 262144) :: u8) = 240 + c div 262144" by (subst unat_of_nat_u8) simp_all
    with 4 d show thesis
      by (intro that[of "of_nat (240 + c div 262144)"
            "[of_nat (128 + c div 4096 mod 64), of_nat (128 + c div 64 mod 64), of_nat (128 + c mod 64)]"])
         (use cont[of c] cont[of "c div 64"] cont[of "c div 4096"] in
            \<open>auto simp: encode_utf8_def len_utf8_def boundary_unat eq simp del: of_nat_add of_nat_numeral\<close>)
  qed
qed

lemma not_boundary_cont: "128 \<le> unat x \<and> unat x < 192 \<Longrightarrow> \<not> is_utf8_char_boundary x"
  by (simp add: boundary_unat)

lemma str_of_simps [simp]:
  "str_of [] = []"
  "str_of (c # cs) = encode_utf8 c @ str_of cs"
  "str_of (xs @ ys) = str_of xs @ str_of ys"
  by (simp_all add: str_of_def)

lemma length_encode_utf8 [simp]: "length (encode_utf8 c) = len_utf8 c"
  by (simp add: encode_utf8_def len_utf8_def)

lemma len_utf8_bounds: "1 \<le> len_utf8 c" "len_utf8 c \<le> 4"
  by (simp_all add: len_utf8_def)

lemma valid_str_Nil [simp]: "valid_str []"
  by (auto simp: valid_str_def intro: exI[of _ "[]"])

lemma valid_str_of: "\<forall>c\<in>set cs. is_scalar c \<Longrightarrow> valid_str (str_of cs)"
  by (auto simp: valid_str_def)

lemma valid_str_append: "valid_str xs \<Longrightarrow> valid_str ys \<Longrightarrow> valid_str (xs @ ys)"
proof -
  assume "valid_str xs" "valid_str ys"
  then obtain a b where "\<forall>c\<in>set (a @ b). is_scalar c" "xs = str_of a" "ys = str_of b"
    by (auto simp: valid_str_def)
  then show ?thesis using valid_str_of[of "a @ b"] by simp
qed

text \<open>A character boundary splits the string between two characters.\<close>

lemma boundary_between_chars:
  assumes "\<forall>c\<in>set cs. is_scalar c" "str_is_char_boundary (str_of cs) i"
  obtains xs ys where "cs = xs @ ys" "i = length (str_of xs)"
  using assms
proof (induction cs arbitrary: i thesis)
  case Nil
  then show ?case by (simp add: str_is_char_boundary_def)
next
  case (Cons c cs)
  obtain b t where e: "encode_utf8 c = b # t" "\<forall>x\<in>set t. 128 \<le> unat x \<and> unat x < 192"
    using Cons.prems(2) by (auto elim: encode_utf8_cases)
  show ?case
  proof (cases "i = 0")
    case True
    then show ?thesis using Cons.prems(1)[of "[]"] by simp
  next
    case False
    then obtain k where k: "i = Suc k" by (cases i) auto
    have ge: "len_utf8 c \<le> i"
    proof (rule ccontr)
      assume "\<not> len_utf8 c \<le> i"
      then have lt: "k < length t" using length_encode_utf8[of c] by (simp add: e(1) k)
      then have "str_of (c # cs) ! i = t ! k" by (simp add: e(1) k nth_append)
      moreover have "\<not> is_utf8_char_boundary (t ! k)" using e(2) lt by (simp add: not_boundary_cont)
      moreover have "i < length (str_of (c # cs))" using lt by (simp add: e(1) k)
      ultimately show False using Cons.prems(3) k by (auto simp: str_is_char_boundary_def)
    qed
    have "str_is_char_boundary (str_of cs) (i - len_utf8 c)"
      using Cons.prems(3) ge False by (auto simp: str_is_char_boundary_def nth_append)
    then obtain xs ys where "cs = xs @ ys" "i - len_utf8 c = length (str_of xs)"
      using Cons.prems(2) Cons.IH[of "i - len_utf8 c"] by auto
    then show ?thesis using Cons.prems(1)[of "c # xs" ys] ge by simp
  qed
qed

lemma str_of_hd_boundary:
  assumes "\<forall>c\<in>set cs. is_scalar c" "cs \<noteq> []"
  shows "is_utf8_char_boundary (hd (str_of cs))" "str_of cs \<noteq> []"
  using assms by (cases cs; auto elim: encode_utf8_cases)+

lemma boundary_of_prefix:
  assumes "\<forall>c\<in>set ys. is_scalar c"
  shows "str_is_char_boundary (str_of (xs @ ys)) (length (str_of xs))"
  using str_of_hd_boundary[OF assms] by (cases "ys = []") (auto simp: str_is_char_boundary_def nth_append hd_conv_nth)

lemma valid_str_split:
  assumes "valid_str bs" "str_is_char_boundary bs i"
  shows "valid_str (take i bs)" "valid_str (drop i bs)" "i \<le> length bs"
proof -
  obtain cs where cs: "\<forall>c\<in>set cs. is_scalar c" "bs = str_of cs" using assms(1) by (auto simp: valid_str_def)
  obtain xs ys where "cs = xs @ ys" "i = length (str_of xs)"
    using cs assms(2) by (auto elim: boundary_between_chars)
  then show "valid_str (take i bs)" "valid_str (drop i bs)" "i \<le> length bs"
    using cs valid_str_of[of xs] valid_str_of[of ys] by auto
qed

text \<open>Every window of four bytes holds a boundary.\<close>

lemma cont_run:
  assumes "valid_str bs" "i < length bs"
  shows "\<exists>k\<le>i. i \<le> k + 3 \<and> is_utf8_char_boundary (bs ! k) \<and> (\<forall>j. k < j \<and> j \<le> i \<longrightarrow> \<not> is_utf8_char_boundary (bs ! j))"
proof -
  have "\<forall>c\<in>set cs. is_scalar c \<Longrightarrow> i < length (str_of cs) \<Longrightarrow>
    \<exists>k\<le>i. i \<le> k + 3 \<and> is_utf8_char_boundary (str_of cs ! k) \<and> (\<forall>j. k < j \<and> j \<le> i \<longrightarrow> \<not> is_utf8_char_boundary (str_of cs ! j))" for cs
  proof (induction cs arbitrary: i)
    case (Cons c cs)
    obtain b t where e: "encode_utf8 c = b # t" "is_utf8_char_boundary b" "\<forall>x\<in>set t. 128 \<le> unat x \<and> unat x < 192"
      using Cons.prems(1) by (auto elim: encode_utf8_cases)
    have len: "length t \<le> 3" "len_utf8 c = Suc (length t)" using length_encode_utf8[of c] len_utf8_bounds[of c] by (simp_all add: e(1))
    show ?case
    proof (cases "i \<le> length t")
      case True
      have "\<not> is_utf8_char_boundary (str_of (c # cs) ! j)" if "0 < j" "j \<le> i" for j
      proof -
        have "str_of (c # cs) ! j = t ! (j - 1)" using that True by (cases j) (simp_all add: e(1) nth_append)
        moreover have "t ! (j - 1) \<in> set t" using that True by (intro nth_mem) simp
        ultimately show ?thesis using e(3) by (simp add: not_boundary_cont)
      qed
      then show ?thesis using e(1,2) len(1) True by (intro exI[of _ 0]) auto
    next
      case False
      then have i: "i = len_utf8 c + (i - len_utf8 c)" by (simp add: len(2))
      then have "i - len_utf8 c < length (str_of cs)" using Cons.prems(2) by simp
      then obtain k where k: "k \<le> i - len_utf8 c" "i - len_utf8 c \<le> k + 3" "is_utf8_char_boundary (str_of cs ! k)"
          "\<And>j. k < j \<Longrightarrow> j \<le> i - len_utf8 c \<Longrightarrow> \<not> is_utf8_char_boundary (str_of cs ! j)"
        using Cons.IH[of "i - len_utf8 c"] Cons.prems False len(2) by auto
      have "\<not> is_utf8_char_boundary (str_of (c # cs) ! j)" if "len_utf8 c + k < j" "j \<le> i" for j
        using k(4)[of "j - len_utf8 c"] that by (simp add: nth_append less_diff_conv)
      then show ?thesis using k i by (intro exI[of _ "len_utf8 c + k"]) (auto simp: nth_append)
    qed
  qed simp
  with assms show ?thesis by (auto simp: valid_str_def)
qed

lemma floor_from_spec:
  "floor_from bs i \<le> i \<and> (floor_from bs i = 0 \<or> is_utf8_char_boundary (bs ! floor_from bs i)) \<and>
   (\<forall>j. floor_from bs i < j \<and> j \<le> i \<longrightarrow> \<not> is_utf8_char_boundary (bs ! j))"
  by (induction i) (auto simp: le_Suc_eq)

lemma str_floor_spec:
  fixes bs i
  defines "f \<equiv> str_floor_char_boundary bs i"
  assumes "valid_str bs"
  shows "str_is_char_boundary bs f \<and> (i \<le> length bs \<longrightarrow> f \<le> i \<and> i \<le> f + 3)"
proof (cases "length bs \<le> i")
  case False
  then obtain k where k: "k \<le> i" "i \<le> k + 3" "is_utf8_char_boundary (bs ! k)"
    using cont_run[OF assms(2), of i] by auto
  have f: "f = floor_from bs i" using False by (simp add: f_def str_floor_char_boundary_def)
  have "k \<le> f"
  proof (rule ccontr)
    assume "\<not> k \<le> f"
    then show False using floor_from_spec[of bs i] k by (simp add: f)
  qed
  then show ?thesis using floor_from_spec[of bs i] k False by (auto simp: f str_is_char_boundary_def)
qed (simp add: f_def str_floor_char_boundary_def str_is_char_boundary_def)

end
