(* ===== verification/Rope_Point.thy ===== *)
theory Rope_Point
  imports Utf8
begin

section \<open>Positions in a text (crates/rope/src/point.rs, point_utf16.rs, offset_utf16.rs, unclipped.rs)\<close>

text \<open>
  A \<open>Point\<close> is a row and a column in bytes, a \<open>PointUtf16\<close> a row and a column in UTF-16 units. The two types
  have the same code; both are the record below. Rows and columns are natural numbers: the \<open>u32\<close> fields
  agree with them for texts shorter than 4 GiB. \<open>OffsetUtf16\<close> and \<open>Unclipped\<close> wrap a number and a
  position and have the operations of what they wrap.
\<close>

record point =
  row :: nat
  column :: nat

type_synonym point_utf16 = point
type_synonym offset_utf16 = nat

definition point_new :: "nat \<Rightarrow> nat \<Rightarrow> point" where
  "point_new r c = \<lparr>row = r, column = c\<rparr>"

definition point_zero :: point where
  "point_zero = point_new 0 0"

definition point_is_zero :: "point \<Rightarrow> bool" where
  "point_is_zero p \<longleftrightarrow> row p = 0 \<and> column p = 0"

definition row_range :: "nat \<times> nat \<Rightarrow> point \<times> point" where
  "row_range r = (\<lparr>row = fst r, column = 0\<rparr>, \<lparr>row = snd r, column = 0\<rparr>)"

text \<open>\<open>Add\<close> and \<open>AddAssign\<close>.\<close>

definition point_add :: "point \<Rightarrow> point \<Rightarrow> point" where
  "point_add self other =
     (if row other = 0 then point_new (row self) (column self + column other)
      else point_new (row self + row other) (column other))"

text \<open>\<open>Sub\<close>: underflow of the row or the column panics.\<close>

definition point_sub :: "point \<Rightarrow> point \<Rightarrow> point option" where
  "point_sub self other =
     (if row self = row other
      then do { c \<leftarrow> checked_sub (column self) (column other); Some (point_new 0 c) }
      else do { r \<leftarrow> checked_sub (row self) (row other); Some (point_new r (column self)) })"

text \<open>
  \<open>Ord\<close>, in its two versions: on 64-bit targets both fields are packed into one machine word, on 32-bit
  targets the rows are compared first.
\<close>

definition point_pack :: "point \<Rightarrow> u64" where
  "point_pack p = or (push_bit 32 (ucast (of_nat (row p) :: u32))) (ucast (of_nat (column p) :: u32))"

definition point_cmp_64 :: "point \<Rightarrow> point \<Rightarrow> ordering" where
  "point_cmp_64 p q = cmp (point_pack p) (point_pack q)"

definition point_cmp :: "point \<Rightarrow> point \<Rightarrow> ordering" where
  "point_cmp p q = (case cmp (row p) (row q) of Equal \<Rightarrow> cmp (column p) (column q) | c \<Rightarrow> c)"

definition point_saturating_sub :: "point \<Rightarrow> point \<Rightarrow> point option" where
  "point_saturating_sub self other =
     (if point_cmp self other = Less then Some point_zero else point_sub self other)"

text \<open>\<open>Point::parse_str\<close>: a loop over the lines of a string.\<close>

fun split_lines :: "bytes \<Rightarrow> bytes list" where
  "split_lines [] = [[]]"
| "split_lines (b # bs) =
     (if b = 10 then [] # split_lines bs
      else (case split_lines bs of l # ls \<Rightarrow> (b # l) # ls | [] \<Rightarrow> [[b]]))"

definition parse_str :: "bytes \<Rightarrow> point" where
  "parse_str s = foldl (\<lambda>_ (r, line). point_new r (length line)) point_zero (enumerate 0 (split_lines s))"

text \<open>\<open>OffsetUtf16\<close>: a panic when the difference would be negative.\<close>

definition offset_utf16_sub :: "offset_utf16 \<Rightarrow> offset_utf16 \<Rightarrow> offset_utf16 option" where
  "offset_utf16_sub self other = checked_sub self other"

subsection \<open>The algebra of points\<close>

lemma point_eqI: "row p = row q \<Longrightarrow> column p = column q \<Longrightarrow> p = (q :: point)"
  by simp

lemma point_simps [simp]:
  "row (point_new r c) = r" "column (point_new r c) = c"
  "row point_zero = 0" "column point_zero = 0"
  by (simp_all add: point_new_def point_zero_def)

lemma point_add_zero [simp]: "point_add p point_zero = p" "point_add point_zero p = p"
  by (auto simp: point_add_def intro: point_eqI)

lemma point_add_assoc: "point_add (point_add p q) r = point_add p (point_add q r)"
  by (auto simp: point_add_def)

lemma row_point_add [simp]: "row (point_add p q) = row p + row q"
  by (simp add: point_add_def)

lemma point_cmp_simps:
  "point_cmp p q = Less \<longleftrightarrow> row p < row q \<or> row p = row q \<and> column p < column q"
  "point_cmp p q = Equal \<longleftrightarrow> p = q"
  "point_cmp p q = Greater \<longleftrightarrow> row q < row p \<or> row p = row q \<and> column q < column p"
  by (auto simp: point_cmp_def cmp_def split: ordering.splits intro: point_eqI)

lemma point_sub_add: "point_sub (point_add p q) p = Some q"
  by (cases q) (auto simp: point_sub_def point_add_def point_new_def)

lemma unat_pack_word:
  "unat (or (push_bit 32 (ucast (a :: u32))) (ucast (b :: u32)) :: u64) = unat a * 2 ^ 32 + unat b"
proof -
  let ?v = "push_bit 32 (ucast a) :: u64" and ?r = "ucast b :: u64"
  have disj: "and ?v ?r = 0"
  proof (rule bit_word_eqI)
    fix n assume "n < LENGTH(64)"
    show "bit (and ?v ?r) n \<longleftrightarrow> bit (0 :: u64) n"
      using bit_imp_le_length[of b n] by (auto simp: bit_and_iff bit_push_bit_iff bit_ucast_iff)
  qed
  have lt: "unat a < 2 ^ 32" "unat b < 2 ^ 32"
    using unsigned_less[of a, where ?'a = nat] unsigned_less[of b, where ?'a = nat] by simp_all
  have u: "unat (ucast a :: u64) = unat a" "unat ?r = unat b"
    using lt by (simp_all add: unsigned_ucast_eq take_bit_nat_eq_self)
  then have v: "unat ?v = unat a * 2 ^ 32" using lt by (simp add: push_bit_eq_mult unat_word_ariths)
  then have "unat (?v + ?r) = unat ?v + unat ?r" using lt u by (simp add: unat_word_ariths)
  then show ?thesis using v u by (simp add: disjunctive_add_eq_or[OF disj, symmetric])
qed

end
