(* ===== verification/TextSummary.thy ===== *)
theory TextSummary
  imports Rope_Point
begin

section \<open>Summaries of texts (crates/rope/src/rope.rs)\<close>

text \<open>
  \<open>TextSummary\<close> is what the rope caches of every part of a text: lengths in bytes, characters and UTF-16
  units, the position of its end, and the lengths of its first, last and longest line. \<open>ts_from\<close> is
  \<open>From<&str>\<close>, the reference computation; its argument is the sequence of the characters of the string.
\<close>

record text_summary =
  ts_len :: nat
  ts_chars :: nat
  ts_len_utf16 :: offset_utf16
  ts_lines :: point
  first_line_chars :: nat
  last_line_chars :: nat
  last_line_len_utf16 :: nat
  longest_row :: nat
  longest_row_chars :: nat

definition ts_zero :: text_summary where
  "ts_zero = \<lparr>ts_len = 0, ts_chars = 0, ts_len_utf16 = 0, ts_lines = point_zero, first_line_chars = 0,
     last_line_chars = 0, last_line_len_utf16 = 0, longest_row = 0, longest_row_chars = 0\<rparr>"

definition lines_utf16 :: "text_summary \<Rightarrow> point_utf16" where
  "lines_utf16 s = \<lparr>row = row (ts_lines s), column = last_line_len_utf16 s\<rparr>"

definition ts_newline :: text_summary where
  "ts_newline = \<lparr>ts_len = 1, ts_chars = 1, ts_len_utf16 = 1, ts_lines = point_new 1 0, first_line_chars = 0,
     last_line_chars = 0, last_line_len_utf16 = 0, longest_row = 0, longest_row_chars = 0\<rparr>"

definition ts_add_newline :: "text_summary \<Rightarrow> text_summary" where
  "ts_add_newline s =
     s\<lparr>ts_len := ts_len s + 1,
       ts_len_utf16 := ts_len_utf16 s + (ts_len_utf16 s + 1),
       last_line_chars := 0, last_line_len_utf16 := 0,
       ts_lines := point_add (ts_lines s) (point_new 1 0)\<rparr>"

text \<open>The body of the loop over the characters, and the conversion.\<close>

definition ts_step :: "scalar \<Rightarrow> text_summary \<Rightarrow> text_summary" where
  "ts_step c s0 =
     (let s = s0\<lparr>ts_chars := ts_chars s0 + 1, ts_len_utf16 := ts_len_utf16 s0 + len_utf16 c\<rparr>;
          s = (if c = 10
               then s\<lparr>ts_lines := point_add (ts_lines s) (point_new 1 0), last_line_len_utf16 := 0,
                      last_line_chars := 0\<rparr>
               else s\<lparr>ts_lines := (ts_lines s)\<lparr>column := column (ts_lines s) + len_utf8 c\<rparr>,
                      last_line_len_utf16 := last_line_len_utf16 s + len_utf16 c,
                      last_line_chars := last_line_chars s + 1\<rparr>);
          s = (if row (ts_lines s) = 0 then s\<lparr>first_line_chars := last_line_chars s\<rparr> else s)
      in if last_line_chars s > longest_row_chars s
         then s\<lparr>longest_row := row (ts_lines s), longest_row_chars := last_line_chars s\<rparr> else s)"

definition ts_from :: "scalar list \<Rightarrow> text_summary" where
  "ts_from cs = (fold ts_step cs ts_zero)\<lparr>ts_len := length (str_of cs)\<rparr>"

text \<open>\<open>AddAssign\<close>.\<close>

definition ts_add :: "text_summary \<Rightarrow> text_summary \<Rightarrow> text_summary" where
  "ts_add self other =
     (let joined_chars = last_line_chars self + first_line_chars other;
          s = (if joined_chars > longest_row_chars self
               then self\<lparr>longest_row := row (ts_lines self), longest_row_chars := joined_chars\<rparr> else self);
          s = (if longest_row_chars other > longest_row_chars s
               then s\<lparr>longest_row := row (ts_lines s) + longest_row other,
                      longest_row_chars := longest_row_chars other\<rparr> else s);
          s = (if row (ts_lines s) = 0
               then s\<lparr>first_line_chars := first_line_chars s + first_line_chars other\<rparr> else s);
          s = (if row (ts_lines other) = 0
               then s\<lparr>last_line_chars := last_line_chars s + first_line_chars other,
                      last_line_len_utf16 := last_line_len_utf16 s + last_line_len_utf16 other\<rparr>
               else s\<lparr>last_line_chars := last_line_chars other,
                      last_line_len_utf16 := last_line_len_utf16 other\<rparr>)
      in s\<lparr>ts_chars := ts_chars s + ts_chars other, ts_len := ts_len s + ts_len other,
           ts_len_utf16 := ts_len_utf16 s + ts_len_utf16 other,
           ts_lines := point_add (ts_lines s) (ts_lines other)\<rparr>)"

subsection \<open>Summaries are a homomorphism\<close>

definition ts_inv :: "text_summary \<Rightarrow> bool" where
  "ts_inv s \<longleftrightarrow> last_line_chars s \<le> longest_row_chars s \<and> first_line_chars s \<le> longest_row_chars s \<and>
     (row (ts_lines s) = 0 \<longrightarrow> first_line_chars s = longest_row_chars s \<and>
        last_line_chars s = longest_row_chars s) \<and>
     (first_line_chars s = longest_row_chars s \<longrightarrow> longest_row s = 0)"

lemma ts_eqI:
  fixes s t :: text_summary
  assumes "ts_len s = ts_len t" "ts_chars s = ts_chars t" "ts_len_utf16 s = ts_len_utf16 t"
    "row (ts_lines s) = row (ts_lines t)" "column (ts_lines s) = column (ts_lines t)"
    "first_line_chars s = first_line_chars t" "last_line_chars s = last_line_chars t"
    "last_line_len_utf16 s = last_line_len_utf16 t" "longest_row s = longest_row t" "longest_row_chars s = longest_row_chars t"
  shows "s = t"
  using assms by (cases s, cases t) (auto intro: point_eqI)

text \<open>The fields of a step and of a sum.\<close>

lemma ts_step_fields:
  "ts_len (ts_step c s) = ts_len s"
  "ts_chars (ts_step c s) = ts_chars s + 1"
  "ts_len_utf16 (ts_step c s) = ts_len_utf16 s + len_utf16 c"
  "row (ts_lines (ts_step c s)) = row (ts_lines s) + (if c = 10 then 1 else 0)"
  "column (ts_lines (ts_step c s)) = (if c = 10 then 0 else column (ts_lines s) + len_utf8 c)"
  "last_line_chars (ts_step c s) = (if c = 10 then 0 else last_line_chars s + 1)"
  "last_line_len_utf16 (ts_step c s) = (if c = 10 then 0 else last_line_len_utf16 s + len_utf16 c)"
  "first_line_chars (ts_step c s) = (if c \<noteq> 10 \<and> row (ts_lines s) = 0 then last_line_chars s + 1 else first_line_chars s)"
  "longest_row_chars (ts_step c s) = (if c = 10 then longest_row_chars s else max (last_line_chars s + 1) (longest_row_chars s))"
  "longest_row (ts_step c s) = (if c \<noteq> 10 \<and> last_line_chars s + 1 > longest_row_chars s then row (ts_lines s) else longest_row s)"
  by (auto simp: ts_step_def Let_def point_add_def)

lemma ts_add_fields:
  "ts_len (ts_add s t) = ts_len s + ts_len t"
  "ts_chars (ts_add s t) = ts_chars s + ts_chars t"
  "ts_len_utf16 (ts_add s t) = ts_len_utf16 s + ts_len_utf16 t"
  "ts_lines (ts_add s t) = point_add (ts_lines s) (ts_lines t)"
  "first_line_chars (ts_add s t) = first_line_chars s + (if row (ts_lines s) = 0 then first_line_chars t else 0)"
  "last_line_chars (ts_add s t) = (if row (ts_lines t) = 0 then last_line_chars s + first_line_chars t else last_line_chars t)"
  "last_line_len_utf16 (ts_add s t) = (if row (ts_lines t) = 0 then last_line_len_utf16 s + last_line_len_utf16 t else last_line_len_utf16 t)"
  "longest_row_chars (ts_add s t) = max (longest_row_chars t) (max (last_line_chars s + first_line_chars t) (longest_row_chars s))"
  "longest_row (ts_add s t) =
     (if longest_row_chars t > max (last_line_chars s + first_line_chars t) (longest_row_chars s) then row (ts_lines s) + longest_row t
      else if last_line_chars s + first_line_chars t > longest_row_chars s then row (ts_lines s) else longest_row s)"
  by (auto simp: ts_add_def Let_def)

lemma ts_inv_zero: "ts_inv ts_zero"
  by (simp add: ts_inv_def ts_zero_def)

lemma ts_inv_step: "ts_inv s \<Longrightarrow> ts_inv (ts_step c s)"
  by (auto simp: ts_inv_def ts_step_fields)

lemma ts_inv_fold: "ts_inv s \<Longrightarrow> ts_inv (fold ts_step cs s)"
  by (induction cs arbitrary: s) (auto intro: ts_inv_step)

lemma ts_add_zero: "ts_inv s \<Longrightarrow> ts_add s ts_zero = s" "ts_inv s \<Longrightarrow> ts_add ts_zero s = s"
  by (rule ts_eqI; auto simp: ts_add_fields ts_zero_def ts_inv_def point_add_def)+

lemma ts_add_step:
  assumes "ts_inv s" "ts_inv t"
  shows "ts_add s (ts_step c t) = ts_step c (ts_add s t)"
  using assms by (intro ts_eqI) (auto simp: ts_add_fields ts_step_fields ts_inv_def point_add_def)

lemma ts_add_fold: "ts_inv s \<Longrightarrow> ts_inv t \<Longrightarrow> ts_add s (fold ts_step cs t) = fold ts_step cs (ts_add s t)"
  by (induction cs arbitrary: t) (auto simp: ts_add_step ts_inv_step)

lemma ts_len_fold: "ts_len (fold ts_step cs s) = ts_len s"
  by (induction cs arbitrary: s) (auto simp: ts_step_fields)

lemma ts_add_len: "(ts_add s t)\<lparr>ts_len := a + b\<rparr> = ts_add (s\<lparr>ts_len := a\<rparr>) (t\<lparr>ts_len := b\<rparr>)"
  by (rule ts_eqI) (simp_all add: ts_add_fields)

lemma ts_inv_len [simp]: "ts_inv (s\<lparr>ts_len := n\<rparr>) = ts_inv s"
  by (simp add: ts_inv_def)

lemma ts_from_append: "ts_from (xs @ ys) = ts_add (ts_from xs) (ts_from ys)"
proof -
  let ?s = "fold ts_step xs ts_zero"
  have "fold ts_step ys ?s = ts_add ?s (fold ts_step ys ts_zero)"
    by (simp add: ts_add_fold ts_inv_fold ts_inv_zero ts_add_zero)
  then show ?thesis by (simp add: ts_from_def ts_add_len)
qed

lemma ts_from_Nil [simp]: "ts_from [] = ts_zero"
  by (simp add: ts_from_def ts_zero_def)

lemma ts_inv_from: "ts_inv (ts_from cs)"
  by (simp add: ts_from_def ts_inv_fold ts_inv_zero)

subsection \<open>What the fields mean\<close>

text \<open>The lines of a text, as character sequences without their newlines.\<close>

fun text_lines :: "scalar list \<Rightarrow> scalar list list" where
  "text_lines [] = [[]]"
| "text_lines (c # cs) =
     (if c = 10 then [] # text_lines cs else (c # hd (text_lines cs)) # tl (text_lines cs))"

definition units :: "scalar list \<Rightarrow> nat" where
  "units cs = sum_list (map len_utf16 cs)"

lemma text_lines_not_Nil [simp]: "text_lines cs \<noteq> []"
  by (cases cs) auto

lemma text_lines_snoc:
  "text_lines (cs @ [c]) =
     (if c = 10 then text_lines cs @ [[]] else butlast (text_lines cs) @ [last (text_lines cs) @ [c]])"
proof (induction cs)
  case (Cons x cs)
  then show ?case by (cases "text_lines cs") (auto simp: butlast_append)
qed simp

text \<open>The row that a summary names as the longest: the first one of maximal length.\<close>

definition first_longest :: "nat list \<Rightarrow> nat \<Rightarrow> nat \<Rightarrow> bool" where
  "first_longest ls r n \<longleftrightarrow> r < length ls \<and> ls ! r = n \<and> (\<forall>i<length ls. ls ! i \<le> n) \<and> (\<forall>i<r. ls ! i < n)"

definition describes :: "text_summary \<Rightarrow> scalar list \<Rightarrow> bool" where
  "describes s cs \<longleftrightarrow>
     (let ls = text_lines cs in
      ts_len s = length (str_of cs) \<and> ts_chars s = length cs \<and> ts_len_utf16 s = units cs \<and>
      row (ts_lines s) = length ls - 1 \<and> column (ts_lines s) = length (str_of (last ls)) \<and>
      first_line_chars s = length (hd ls) \<and> last_line_chars s = length (last ls) \<and>
      last_line_len_utf16 s = units (last ls) \<and>
      first_longest (map length ls) (longest_row s) (longest_row_chars s))"

lemma first_longest_snoc_zero: "first_longest ls r n \<Longrightarrow> first_longest (ls @ [0]) r n"
  by (auto simp: first_longest_def nth_append less_Suc_eq)

lemma first_longest_grow:
  assumes "first_longest (ls @ [m]) r n"
  shows "first_longest (ls @ [Suc m]) (if Suc m > n then length ls else r) (max (Suc m) n)"
proof -
  have m: "m \<le> n" and ls: "\<And>i. i < length ls \<Longrightarrow> ls ! i \<le> n"
    using assms by (auto simp: first_longest_def nth_append less_Suc_eq split: if_splits)
  show ?thesis
  proof (cases "Suc m > n")
    case True
    then have "m = n" using m by simp
    then show ?thesis using ls by (fastforce simp: first_longest_def nth_append less_Suc_eq_le)
  next
    case False
    then have "r < length ls" using assms by (auto simp: first_longest_def nth_append less_Suc_eq split: if_splits)
    then show ?thesis using assms False by (auto simp: first_longest_def nth_append less_Suc_eq split: if_splits)
  qed
qed

lemma units_simps [simp]: "units [] = 0" "units (c # cs) = len_utf16 c + units cs" "units (xs @ ys) = units xs + units ys"
  by (simp_all add: units_def)

lemma describes_snoc:
  assumes "describes s cs"
  shows "describes ((ts_step c s)\<lparr>ts_len := ts_len s + len_utf8 c\<rparr>) (cs @ [c])"
proof -
  obtain ls l where L: "text_lines cs = ls @ [l]" by (metis text_lines_not_Nil rev_exhaust)
  have h: "hd (ls @ [l] @ [x]) = hd (ls @ [l])" for x by (cases ls) auto
  show ?thesis
  proof (cases "c = 10")
    case True
    with assms L h show ?thesis
      by (auto simp: describes_def ts_step_fields text_lines_snoc Let_def dest: first_longest_snoc_zero)
  next
    case False
    have "first_longest (map length ls @ [length l]) (longest_row s) (longest_row_chars s)"
      using assms L by (simp add: describes_def)
    note g = first_longest_grow[OF this]
    show ?thesis using assms L False g
      by (cases ls) (auto simp: describes_def ts_step_fields text_lines_snoc Let_def)
  qed
qed

lemma ts_from_snoc: "ts_from (cs @ [c]) = (ts_step c (ts_from cs))\<lparr>ts_len := ts_len (ts_from cs) + len_utf8 c\<rparr>"
  by (rule ts_eqI) (simp_all add: ts_from_def ts_step_fields)

lemma describes_from: "describes (ts_from cs) cs"
proof (induction cs rule: rev_induct)
  case Nil
  then show ?case by (simp add: describes_def ts_zero_def first_longest_def)
next
  case (snoc c cs)
  then show ?case using describes_snoc[OF snoc, of c] by (simp add: ts_from_snoc)
qed

subsection \<open>Properties\<close>

text \<open>
  C37: Text summaries describe the text and compose. The summary computed from a string gives its lengths in
  bytes, characters and UTF-16 units, the position of its end, the lengths of its first and last line,
  and the first row of maximal length with that length; and \<open>+\<close> on the summaries of two strings is the
  summary of their concatenation, so a tree of cached summaries can be combined in any grouping.
\<close>

theorem text_summary_correct:
  "describes (ts_from xs) xs \<and> ts_from (xs @ ys) = ts_add (ts_from xs) (ts_from ys) \<and>
   ts_add (ts_add (ts_from xs) (ts_from ys)) (ts_from zs) = ts_add (ts_from xs) (ts_add (ts_from ys) (ts_from zs)) \<and>
   ts_add ts_zero (ts_from xs) = ts_from xs \<and> ts_add (ts_from xs) ts_zero = ts_from xs \<and>
   ts_newline = ts_from [10]"
proof -
  have "ts_add (ts_add (ts_from xs) (ts_from ys)) (ts_from zs) = ts_add (ts_from xs) (ts_add (ts_from ys) (ts_from zs))"
    by (simp flip: ts_from_append)
  moreover have "ts_newline = ts_from [10]"
    by (rule ts_eqI) (simp_all add: ts_newline_def ts_from_def ts_step_fields ts_zero_def len_utf16_def len_utf8_def)
  ultimately show ?thesis by (simp add: describes_from ts_from_append ts_add_zero ts_inv_from)
qed

text \<open>
  C29: \<open>TextSummary::add_newline\<close> does not append a newline. It adds the UTF-16 length to itself (so the
  result counts \<open>2 * n + 1\<close> units instead of \<open>n + 1\<close>) and does not count the new character, whatever the
  text, so the result is never the summary of the text with a newline appended.
\<close>

theorem add_newline_wrong:
  "ts_len_utf16 (ts_add_newline (ts_from cs)) = 2 * units cs + 1 \<and>
   ts_len_utf16 (ts_from (cs @ [10])) = units cs + 1 \<and>
   ts_add_newline (ts_from cs) \<noteq> ts_from (cs @ [10])"
proof -
  have d: "ts_len_utf16 (ts_from cs) = units cs" "ts_chars (ts_from cs) = length cs"
      "ts_chars (ts_from (cs @ [10])) = length (cs @ [10])" "ts_len_utf16 (ts_from (cs @ [10])) = units (cs @ [10])"
    using describes_from[of cs] describes_from[of "cs @ [10]"] by (simp_all only: describes_def Let_def)
  have "ts_chars (ts_add_newline (ts_from cs)) \<noteq> ts_chars (ts_from (cs @ [10]))"
    by (simp add: d ts_add_newline_def)
  then have "ts_add_newline (ts_from cs) \<noteq> ts_from (cs @ [10])" by metis
  moreover have "ts_len_utf16 (ts_add_newline (ts_from cs)) = 2 * units cs + 1" by (simp add: d ts_add_newline_def)
  ultimately show ?thesis by (simp add: d len_utf16_def)
qed

end
