(* ===== verification/Chunk.thy ===== *)
theory Chunk
  imports Select_Bit TextSummary SumTree
begin

section \<open>Chunks of text with bitmaps (crates/rope/src/chunk.rs)\<close>

text \<open>
  A chunk holds up to 128 bytes of text and four 128-bit maps of its byte positions: the starts of
  characters, the UTF-16 units, the newlines and the tabs. A \<open>ChunkSlice\<close> has the same fields over a
  borrowed part of a text; both are the record below and \<open>as_slice\<close> is the identity. The build is the
  production one (\<open>Bitmap\<close> is \<open>u128\<close>, \<open>debug_panic!\<close> and failed boundary assertions log); an index or slice
  out of range, a shift by the width of the word and an underflow are panics.
\<close>

definition MAX_BASE :: nat where "MAX_BASE = 128"

definition MIN_BASE :: nat where "MIN_BASE = MAX_BASE div 2"

type_synonym u128 = "128 word"

record chunk =
  ck_chars :: u128
  ck_chars_utf16 :: u128
  ck_newlines :: u128
  ck_tabs :: u128
  ck_text :: bytes

type_synonym chunk_slice = chunk

text \<open>\<open>n as u32\<close> and \<open>n as u8\<close>.\<close>

definition as_u32 :: "nat \<Rightarrow> nat" where "as_u32 n = n mod 2 ^ 32"

definition as_u8 :: "nat \<Rightarrow> nat" where "as_u8 n = n mod 2 ^ 8"

definition saturating_shl_mask :: "nat \<Rightarrow> u128" where
  "saturating_shl_mask offset = unbounded_shl 1 offset - 1"

definition saturating_shr_mask :: "nat \<Rightarrow> u128" where
  "saturating_shr_mask offset = NOT (unbounded_shr (- 1) offset)"

subsection \<open>Construction\<close>

text \<open>
  \<open>Chunk::new\<close> collects eight bytes of text into one byte of each map: the inner loop for one property
  \<open>p\<close> of a byte, the outer loop over the pieces, and \<open>from_le_bytes\<close>.
\<close>

fun byte_mask :: "(u8 \<Rightarrow> bool) \<Rightarrow> nat \<Rightarrow> u8 \<Rightarrow> bytes \<Rightarrow> u8" where
  "byte_mask p ix acc [] = acc"
| "byte_mask p ix acc (b # bs) = byte_mask p (ix + 1) (acc OR push_bit ix (of_bool (p b))) bs"

definition mask_bytes :: "(u8 \<Rightarrow> bool) \<Rightarrow> bytes \<Rightarrow> u8 list" where
  "mask_bytes p text = map (byte_mask p 0 0) (chunks_of 8 text)"

fun from_le_bytes :: "u8 list \<Rightarrow> u128" where
  "from_le_bytes [] = 0"
| "from_le_bytes (b # bs) = ucast b OR push_bit 8 (from_le_bytes bs)"

definition chunk_new :: "bytes \<Rightarrow> chunk option" where
  "chunk_new text =
     (if length text \<le> MAX_BASE then
        (let chars = from_le_bytes (mask_bytes is_utf8_char_boundary text)
         in Some \<lparr>ck_chars = chars,
                  ck_chars_utf16 = push_bit 1 (from_le_bytes (mask_bytes (\<lambda>b. b \<ge> 240) text)) OR chars,
                  ck_newlines = from_le_bytes (mask_bytes (\<lambda>b. b = 10) text),
                  ck_tabs = from_le_bytes (mask_bytes (\<lambda>b. b = 9) text),
                  ck_text = text\<rparr>)
      else None)"

definition chunk_empty :: chunk where
  "chunk_empty = \<lparr>ck_chars = 0, ck_chars_utf16 = 0, ck_newlines = 0, ck_tabs = 0, ck_text = []\<rparr>"

text \<open>\<open>ArrayString::push_str(..).unwrap()\<close>.\<close>

definition array_push_str :: "bytes \<Rightarrow> bytes \<Rightarrow> bytes option" where
  "array_push_str buf text = (if length buf + length text \<le> MAX_BASE then Some (buf @ text) else None)"

definition slice_is_empty :: "chunk_slice \<Rightarrow> bool" where
  "slice_is_empty s \<longleftrightarrow> ck_text s = []"

definition chunk_append :: "chunk \<Rightarrow> chunk_slice \<Rightarrow> chunk option" where
  "chunk_append self sl =
     (if slice_is_empty sl then Some self
      else do {
        let base_ix = length (ck_text self);
        chars \<leftarrow> shl (ck_chars sl) base_ix;
        chars_utf16 \<leftarrow> shl (ck_chars_utf16 sl) base_ix;
        newlines \<leftarrow> shl (ck_newlines sl) base_ix;
        tabs \<leftarrow> shl (ck_tabs sl) base_ix;
        text \<leftarrow> array_push_str (ck_text self) (ck_text sl);
        Some \<lparr>ck_chars = ck_chars self OR chars, ck_chars_utf16 = ck_chars_utf16 self OR chars_utf16,
              ck_newlines = ck_newlines self OR newlines, ck_tabs = ck_tabs self OR tabs, ck_text = text\<rparr> })"

definition chunk_prepend :: "chunk \<Rightarrow> chunk_slice \<Rightarrow> chunk option" where
  "chunk_prepend self sl =
     (if slice_is_empty sl then Some self
      else if ck_text self = [] then chunk_new (ck_text sl)
      else do {
        let shift = length (ck_text sl);
        chars \<leftarrow> shl (ck_chars self) shift;
        chars_utf16 \<leftarrow> shl (ck_chars_utf16 self) shift;
        newlines \<leftarrow> shl (ck_newlines self) shift;
        tabs \<leftarrow> shl (ck_tabs self) shift;
        new_text \<leftarrow> array_push_str [] (ck_text sl);
        new_text \<leftarrow> array_push_str new_text (ck_text self);
        Some \<lparr>ck_chars = ck_chars sl OR chars, ck_chars_utf16 = ck_chars_utf16 sl OR chars_utf16,
              ck_newlines = ck_newlines sl OR newlines, ck_tabs = ck_tabs sl OR tabs,
              ck_text = new_text\<rparr> })"

definition chunk_push_str :: "chunk \<Rightarrow> bytes \<Rightarrow> chunk option" where
  "chunk_push_str self text = do { c \<leftarrow> chunk_new text; chunk_append self c }"

definition chunk_prepend_str :: "chunk \<Rightarrow> bytes \<Rightarrow> chunk option" where
  "chunk_prepend_str self text = do { c \<leftarrow> chunk_new text; chunk_prepend self c }"

subsection \<open>Boundaries and slices\<close>

definition chunk_is_char_boundary :: "chunk \<Rightarrow> nat \<Rightarrow> bool" where
  "chunk_is_char_boundary c offset \<longleftrightarrow>
     (unbounded_shl 1 (as_u32 offset) AND ck_chars c \<noteq> 0) \<or> offset = length (ck_text c)"

definition chunk_floor_char_boundary :: "chunk \<Rightarrow> nat \<Rightarrow> nat" where
  "chunk_floor_char_boundary c index =
     (if index \<ge> length (ck_text c) then length (ck_text c) else floor_from (ck_text c) index)"

definition chunk_assert_char_boundary :: "bool \<Rightarrow> chunk \<Rightarrow> nat \<Rightarrow> bool option" where
  "chunk_assert_char_boundary panic c offset =
     (if chunk_is_char_boundary c offset then Some True else if panic then None else Some False)"

definition slice_split_at :: "chunk_slice \<Rightarrow> nat \<Rightarrow> (chunk_slice \<times> chunk_slice) option" where
  "slice_split_at self mid =
     (if mid = MAX_BASE then Some (self, chunk_empty)
      else do {
        one \<leftarrow> shl 1 mid;
        let mask = one - 1;
        (left_text, right_text) \<leftarrow> str_split_at (ck_text self) mid;
        chars \<leftarrow> shr (ck_chars self) mid;
        chars_utf16 \<leftarrow> shr (ck_chars_utf16 self) mid;
        newlines \<leftarrow> shr (ck_newlines self) mid;
        tabs \<leftarrow> shr (ck_tabs self) mid;
        Some (\<lparr>ck_chars = ck_chars self AND mask, ck_chars_utf16 = ck_chars_utf16 self AND mask,
               ck_newlines = ck_newlines self AND mask, ck_tabs = ck_tabs self AND mask,
               ck_text = left_text\<rparr>,
              \<lparr>ck_chars = chars, ck_chars_utf16 = chars_utf16, ck_newlines = newlines, ck_tabs = tabs,
               ck_text = right_text\<rparr>) })"

definition slice_slice :: "chunk_slice \<Rightarrow> nat \<Rightarrow> nat \<Rightarrow> chunk_slice option" where
  "slice_slice self range_start range_end =
     (if range_start = MAX_BASE then Some chunk_empty
      else do {
        let start = (if chunk_is_char_boundary self range_start then range_start
                     else str_ceil_char_boundary (ck_text self) range_start);
        let fin = (if chunk_is_char_boundary self range_end then range_end
                   else if range_end < start then start
                   else str_floor_char_boundary (ck_text self) range_end);
        let mask = unbounded_shl 1 (as_u32 fin) - 1;
        chars \<leftarrow> shr (ck_chars self AND mask) start;
        chars_utf16 \<leftarrow> shr (ck_chars_utf16 self AND mask) start;
        newlines \<leftarrow> shr (ck_newlines self AND mask) start;
        tabs \<leftarrow> shr (ck_tabs self AND mask) start;
        text \<leftarrow> str_index (ck_text self) start fin;
        Some \<lparr>ck_chars = chars, ck_chars_utf16 = chars_utf16, ck_newlines = newlines, ck_tabs = tabs,
              ck_text = text\<rparr> })"

subsection \<open>Summaries\<close>

definition slice_len :: "chunk_slice \<Rightarrow> nat" where
  "slice_len s = length (ck_text s)"

definition slice_len_utf16 :: "chunk_slice \<Rightarrow> offset_utf16" where
  "slice_len_utf16 s = count_ones (ck_chars_utf16 s)"

definition slice_lines :: "chunk_slice \<Rightarrow> point option" where
  "slice_lines s =
     do { unused \<leftarrow> checked_sub 128 (length (ck_text s));
          col \<leftarrow> checked_sub (leading_zeros (ck_newlines s)) unused;
          Some (point_new (count_ones (ck_newlines s)) col) }"

definition slice_first_line_chars :: "chunk_slice \<Rightarrow> nat" where
  "slice_first_line_chars s = count_ones (ck_chars s AND saturating_shl_mask (trailing_zeros (ck_newlines s)))"

definition slice_last_line_chars :: "chunk_slice \<Rightarrow> nat" where
  "slice_last_line_chars s = count_ones (ck_chars s AND saturating_shr_mask (leading_zeros (ck_newlines s)))"

definition slice_last_line_len_utf16 :: "chunk_slice \<Rightarrow> nat" where
  "slice_last_line_len_utf16 s =
     count_ones (ck_chars_utf16 s AND saturating_shr_mask (leading_zeros (ck_newlines s)))"

text \<open>
  The loop of \<open>longest_row\<close> with its variables: remaining bits, characters counted so far, current row,
  and the longest row with its length.
\<close>

lemma drop_bit_smaller: "(w :: 'w::len word) \<noteq> 0 \<Longrightarrow> unat (drop_bit (Suc n) w) < unat w"
proof -
  assume "w \<noteq> 0"
  then have "0 < unat w" by (simp add: unat_gt_0)
  moreover have "unat (drop_bit (Suc n) w) = unat w div 2 ^ Suc n" by (rule unat_drop)
  ultimately show ?thesis using div_less_dividend[of "2 ^ Suc n" "unat w"] one_less_power[of "2 :: nat" "Suc n"] by simp
qed

function longest_row_loop :: "u128 \<Rightarrow> u128 \<Rightarrow> nat \<Rightarrow> nat \<Rightarrow> nat \<Rightarrow> nat \<Rightarrow> (nat \<times> nat \<times> nat)" where
  "longest_row_loop chars newlines total_chars current best best_chars =
     (if newlines \<noteq> 0 then
        (let newline_ix = trailing_zeros newlines;
             row_chars = as_u8 (count_ones (chars AND (push_bit newline_ix 1 - 1)));
             total_chars = total_chars + row_chars;
             (best, best_chars) = (if row_chars > best_chars then (current, row_chars) else (best, best_chars))
         in longest_row_loop (drop_bit 1 (drop_bit newline_ix chars)) (drop_bit 1 (drop_bit newline_ix newlines))
              (total_chars + 1) (current + 1) best best_chars)
      else
        (let row_chars = as_u8 (count_ones chars)
         in if row_chars > best_chars then (current, row_chars, total_chars + row_chars)
            else (best, best_chars, total_chars + row_chars)))"
  by pat_completeness auto
termination
  by (relation "measure (\<lambda>(c, w, t, r, b, n). unat w)") (auto simp: drop_bit_smaller)

declare longest_row_loop.simps [simp del]

text \<open>The row, its length, and the total number of characters.\<close>

definition slice_longest_row :: "chunk_slice \<Rightarrow> nat \<times> nat \<times> nat" where
  "slice_longest_row s = longest_row_loop (ck_chars s) (ck_newlines s) 0 0 0 0"

definition slice_text_summary :: "chunk_slice \<Rightarrow> text_summary option" where
  "slice_text_summary s =
     (let (row, row_chars, chars) = slice_longest_row s in
      do { lines \<leftarrow> slice_lines s;
           Some \<lparr>ts_len = slice_len s, ts_chars = chars, ts_len_utf16 = slice_len_utf16 s,
                 ts_lines = lines, first_line_chars = slice_first_line_chars s,
                 last_line_chars = slice_last_line_chars s,
                 last_line_len_utf16 = slice_last_line_len_utf16 s,
                 longest_row = row, longest_row_chars = row_chars\<rparr> })"

subsection \<open>Conversions between kinds of positions\<close>

definition offset_range_for_row :: "chunk_slice \<Rightarrow> nat \<Rightarrow> (nat \<times> nat) option" where
  "offset_range_for_row s r =
     (let row_start = (if r > 0 then nth_set_bit (ck_newlines s) r + 1 else 0) in
      do { row_len \<leftarrow>
             (if row_start = MAX_BASE then Some 0
              else do { newlines \<leftarrow> shr (ck_newlines s) row_start;
                        left \<leftarrow> checked_sub (length (ck_text s)) row_start;
                        Some (min (trailing_zeros newlines) (as_u32 left)) });
           Some (row_start, row_start + row_len) })"

definition slice_offset_to_point :: "chunk_slice \<Rightarrow> nat \<Rightarrow> point option" where
  "slice_offset_to_point s offset =
     (let mask = unbounded_shl 1 (as_u32 offset) - 1;
          r = count_ones (ck_newlines s AND mask) in
      do { newline_ix \<leftarrow> checked_sub 128 (leading_zeros (ck_newlines s AND mask));
           col \<leftarrow> checked_sub offset newline_ix;
           Some (point_new r (as_u32 col)) })"

definition slice_point_to_offset :: "chunk_slice \<Rightarrow> point \<Rightarrow> nat option" where
  "slice_point_to_offset s p =
     do { lines \<leftarrow> slice_lines s;
          if row p > row lines then Some (slice_len s)
          else do { (start, fin) \<leftarrow> offset_range_for_row s (row p);
                    if column p > as_u32 (fin - start) then Some fin
                    else Some (start + column p) } }"

definition slice_offset_to_offset_utf16 :: "chunk_slice \<Rightarrow> nat \<Rightarrow> offset_utf16" where
  "slice_offset_to_offset_utf16 s offset =
     count_ones (ck_chars_utf16 s AND (unbounded_shl 1 (as_u32 offset) - 1))"

definition slice_point_to_offset_utf16 :: "chunk_slice \<Rightarrow> point \<Rightarrow> offset_utf16 option" where
  "slice_point_to_offset_utf16 s p =
     do { lines \<leftarrow> slice_lines s;
          if row p > row lines then Some (slice_len_utf16 s)
          else do { offset \<leftarrow> slice_point_to_offset s p;
                    Some (slice_offset_to_offset_utf16 s offset) } }"

definition slice_offset_utf16_to_offset :: "chunk_slice \<Rightarrow> offset_utf16 \<Rightarrow> nat option" where
  "slice_offset_utf16_to_offset s target =
     (if target = 0 then Some 0
      else (let ix = nth_set_bit (ck_chars_utf16 s) target + 1
            in if ix = MAX_BASE then Some MAX_BASE
               else do { rest \<leftarrow> shr (ck_chars_utf16 s) ix;
                         left \<leftarrow> checked_sub (length (ck_text s)) ix;
                         Some (ix + min (trailing_zeros rest) left) }))"

definition slice_offset_to_point_utf16 :: "chunk_slice \<Rightarrow> nat \<Rightarrow> point_utf16 option" where
  "slice_offset_to_point_utf16 s offset =
     (let mask = saturating_shl_mask (as_u32 offset);
          r = count_ones (ck_newlines s AND saturating_shl_mask (as_u32 offset)) in
      do { newline_ix \<leftarrow> checked_sub 128 (leading_zeros (ck_newlines s AND mask));
           col \<leftarrow> (if newline_ix = MAX_BASE then Some 0
                      else do { w \<leftarrow> shr (ck_chars_utf16 s AND mask) newline_ix; Some (count_ones w) });
           Some (point_new r col) })"

definition slice_point_to_point_utf16 :: "chunk_slice \<Rightarrow> point \<Rightarrow> point_utf16 option" where
  "slice_point_to_point_utf16 s p =
     do { offset \<leftarrow> slice_point_to_offset s p; slice_offset_to_point_utf16 s offset }"

text \<open>\<open>while !text.is_char_boundary(offset) { offset -= 1 }\<close>.\<close>

fun back_to_boundary :: "bytes \<Rightarrow> nat \<Rightarrow> nat option" where
  "back_to_boundary text 0 = (if str_is_char_boundary text 0 then Some 0 else None)"
| "back_to_boundary text (Suc offset) =
     (if str_is_char_boundary text (Suc offset) then Some (Suc offset) else back_to_boundary text offset)"

definition slice_point_utf16_to_offset :: "chunk_slice \<Rightarrow> point_utf16 \<Rightarrow> nat option" where
  "slice_point_utf16_to_offset s p =
     do { lines \<leftarrow> slice_lines s;
          if row p > row lines then Some (slice_len s)
          else do {
            (start, fin) \<leftarrow> offset_range_for_row s (row p);
            line \<leftarrow> slice_slice s start fin;
            if column p > slice_last_line_len_utf16 line then Some fin
            else if column p > 0 then
              do { offset \<leftarrow> slice_offset_utf16_to_offset line (column p);
                   back_to_boundary (ck_text s) (start + offset) }
            else Some start } }"

definition slice_unclipped_point_utf16_to_point :: "chunk_slice \<Rightarrow> point_utf16 \<Rightarrow> point option" where
  "slice_unclipped_point_utf16_to_point s p =
     do { max_point \<leftarrow> slice_lines s;
          if row p > row max_point then Some max_point
          else do {
            (start, fin) \<leftarrow> offset_range_for_row s (row p);
            line \<leftarrow> slice_slice s start fin;
            if column p = 0 then Some (point_new (row p) 0)
            else if column p \<ge> as_u32 (slice_len_utf16 line) then Some (point_new (row p) (as_u32 (slice_len line)))
            else do { col \<leftarrow> slice_offset_utf16_to_offset line (column p);
                      col \<leftarrow> back_to_boundary (ck_text line) col;
                      Some (point_new (row p) (as_u32 col)) } } }"

text \<open>
  \<open>clip_point\<close> moves to a grapheme boundary. The segmentation is the package \<open>unicode_segmentation\<close>; the
  parameter \<open>g\<close> stands for \<open>GraphemeCursor::is_boundary(text, 0).unwrap_or(false)\<close> at a position of a text.
\<close>

partial_function (option) clip_loop :: "(bytes \<Rightarrow> nat \<Rightarrow> bool) \<Rightarrow> chunk_slice \<Rightarrow> bias \<Rightarrow> nat \<Rightarrow> nat option" where
  "clip_loop g line b col =
     (if chunk_is_char_boundary line col \<and> g (ck_text line) col then Some col
      else (case b of
              Left \<Rightarrow> do { col \<leftarrow> checked_sub col 1; clip_loop g line b col }
            | Right \<Rightarrow> clip_loop g line b (col + 1)))"

definition slice_clip_point :: "(bytes \<Rightarrow> nat \<Rightarrow> bool) \<Rightarrow> chunk_slice \<Rightarrow> point \<Rightarrow> bias \<Rightarrow> point option" where
  "slice_clip_point g s p b =
     do { max_point \<leftarrow> slice_lines s;
          if row p > row max_point then Some max_point
          else do {
            (start, fin) \<leftarrow> offset_range_for_row s (row p);
            line \<leftarrow> slice_slice s start fin;
            if column p = 0 then Some p
            else if column p \<ge> as_u32 (slice_len line) then Some (point_new (row p) (as_u32 (slice_len line)))
            else do {
              before \<leftarrow> vec_get (ck_text line) (column p - 1);
              after \<leftarrow> vec_get (ck_text line) (column p);
              if before < 128 \<and> after < 128 then Some (point_new (row p) (as_u32 (column p)))
              else do { col \<leftarrow> clip_loop g line b (column p);
                        Some (point_new (row p) (as_u32 col)) } } } }"

partial_function (option) clip_utf16_loop :: "bytes \<Rightarrow> bias \<Rightarrow> nat \<Rightarrow> nat option" where
  "clip_utf16_loop text b offset =
     (if str_is_char_boundary text offset then Some offset
      else if b = Left then do { offset \<leftarrow> checked_sub offset 1; clip_utf16_loop text b offset }
      else clip_utf16_loop text b (offset + 1))"

definition slice_clip_offset_utf16 :: "chunk_slice \<Rightarrow> offset_utf16 \<Rightarrow> bias \<Rightarrow> offset_utf16 option" where
  "slice_clip_offset_utf16 s target b =
     (if target = 0 then Some 0
      else if target \<ge> slice_len_utf16 s then Some (slice_len_utf16 s)
      else do { offset \<leftarrow> slice_offset_utf16_to_offset s target;
                offset \<leftarrow> clip_utf16_loop (ck_text s) b offset;
                Some (slice_offset_to_offset_utf16 s offset) })"

definition slice_clip_point_utf16 :: "chunk_slice \<Rightarrow> point_utf16 \<Rightarrow> bias \<Rightarrow> point_utf16 option" where
  "slice_clip_point_utf16 s p b =
     do { max_point \<leftarrow> slice_lines s;
          if row p > row max_point then Some (point_new (row max_point) (slice_last_line_len_utf16 s))
          else do {
            (start, fin) \<leftarrow> offset_range_for_row s (row p);
            line \<leftarrow> slice_slice s start fin;
            col \<leftarrow> slice_clip_offset_utf16 line (column p) b;
            Some (point_new (row p) (as_u32 col)) } }"

subsection \<open>Tab stops\<close>

record tabs_iter =
  ti_tabs :: u128
  ti_chars :: u128

record tab_position =
  byte_offset :: nat
  char_offset :: nat

definition slice_tabs :: "chunk_slice \<Rightarrow> tabs_iter" where
  "slice_tabs s = \<lparr>ti_tabs = ck_tabs s, ti_chars = ck_chars s\<rparr>"

definition tabs_next :: "tabs_iter \<Rightarrow> (tabs_iter \<times> tab_position option) option" where
  "tabs_next t =
     (if ti_tabs t = 0 then Some (t, None)
      else (let tab_offset = trailing_zeros (ti_tabs t) in
            do { one \<leftarrow> shl 1 tab_offset;
                 let char_offset = count_ones (ti_chars t AND (one - 1));
                 Some (t\<lparr>ti_tabs := ti_tabs t XOR one\<rparr>,
                       Some \<lparr>byte_offset = tab_offset, char_offset = char_offset\<rparr>) }))"

end
