(* ===== verification/Chunk_Correct.thy ===== *)
theory Chunk_Correct
  imports Chunk SumTree_Seq
begin

section \<open>Chunks represent texts\<close>

text \<open>
  \<open>chunk_rep s cs\<close>: the chunk (or slice) \<open>s\<close> holds the characters \<open>cs\<close>, in its text and in its four maps.
  Construction, concatenation and slicing keep this relation, and what is computed from the maps is what
  the characters say.
\<close>

fun utf16_from :: "bool \<Rightarrow> bytes \<Rightarrow> bool list" where
  "utf16_from wide [] = []"
| "utf16_from wide (b # bs) = (is_utf8_char_boundary b \<or> wide) # utf16_from (240 \<le> unat b) bs"

definition char_marks :: "bytes \<Rightarrow> bool list" where
  "char_marks bs = map is_utf8_char_boundary bs"

definition unit_marks :: "bytes \<Rightarrow> bool list" where
  "unit_marks bs = utf16_from False bs"

definition newline_marks :: "bytes \<Rightarrow> bool list" where
  "newline_marks bs = map (\<lambda>b. b = 10) bs"

definition tab_marks :: "bytes \<Rightarrow> bool list" where
  "tab_marks bs = map (\<lambda>b. b = 9) bs"

definition chunk_rep :: "chunk \<Rightarrow> scalar list \<Rightarrow> bool" where
  "chunk_rep s cs \<longleftrightarrow> (\<forall>c\<in>set cs. is_scalar c) \<and> ck_text s = str_of cs \<and>
     bitmap (ck_chars s) (char_marks (str_of cs)) \<and> bitmap (ck_chars_utf16 s) (unit_marks (str_of cs)) \<and>
     bitmap (ck_newlines s) (newline_marks (str_of cs)) \<and> bitmap (ck_tabs s) (tab_marks (str_of cs))"

subsection \<open>Marks of a text\<close>

lemma length_utf16_from [simp]: "length (utf16_from w bs) = length bs"
  by (induction w bs rule: utf16_from.induct) auto

lemma length_marks [simp]:
  "length (char_marks bs) = length bs" "length (unit_marks bs) = length bs"
  "length (newline_marks bs) = length bs" "length (tab_marks bs) = length bs"
  by (simp_all add: char_marks_def unit_marks_def newline_marks_def tab_marks_def)

lemma marks_append [simp]:
  "char_marks (xs @ ys) = char_marks xs @ char_marks ys"
  "newline_marks (xs @ ys) = newline_marks xs @ newline_marks ys"
  "tab_marks (xs @ ys) = tab_marks xs @ tab_marks ys"
  "char_marks [] = []" "unit_marks [] = []" "newline_marks [] = []" "tab_marks [] = []"
  by (simp_all add: char_marks_def unit_marks_def newline_marks_def tab_marks_def)

lemma utf16_from_append:
  "utf16_from w (xs @ ys) = utf16_from w xs @ utf16_from (if xs = [] then w else 240 \<le> unat (last xs)) ys"
  by (induction w xs rule: utf16_from.induct) auto

lemma utf16_from_conts:
  assumes "\<forall>x\<in>set t. 128 \<le> unat x \<and> unat x < 192"
  shows "utf16_from w t = (if t = [] then [] else w # replicate (length t - 1) False)"
  using assms
proof (induction t arbitrary: w)
  case (Cons b t)
  then have "\<not> is_utf8_char_boundary b" "\<not> 240 \<le> unat b" by (auto simp: not_boundary_cont)
  with Cons show ?case by (cases t) auto
qed simp

lemma last_byte_narrow:
  assumes "is_scalar c"
  shows "unat (last (encode_utf8 c)) < 240"
proof -
  obtain b t where e: "encode_utf8 c = b # t" "\<forall>x\<in>set t. 128 \<le> unat x \<and> unat x < 192" "t = [] \<longleftrightarrow> unat b < 128"
    using assms by (rule encode_utf8_cases)
  show ?thesis
  proof (cases "t = []")
    case False
    then have "unat (last t) < 192" using e(2) last_in_set[of t] by blast
    then show ?thesis using False e(1) by simp
  qed (use e in simp)
qed

lemma last_str_narrow: "\<forall>c\<in>set cs. is_scalar c \<Longrightarrow> cs \<noteq> [] \<Longrightarrow> unat (last (str_of cs)) < 240"
proof (induction cs rule: rev_induct)
  case (snoc c cs)
  then show ?case using last_byte_narrow[of c] len_utf8_bounds(1)[of c] length_encode_utf8[of c]
    by (cases "encode_utf8 c = []") auto
qed simp

lemma unit_marks_append:
  assumes "\<forall>c\<in>set cs. is_scalar c"
  shows "unit_marks (str_of cs @ ys) = unit_marks (str_of cs) @ unit_marks ys"
proof (cases "cs = []")
  case False
  then have "str_of cs \<noteq> []" "\<not> 240 \<le> unat (last (str_of cs))"
    using str_of_hd_boundary(2)[OF assms] last_str_narrow[OF assms] by auto
  then show ?thesis by (simp add: unit_marks_def utf16_from_append)
qed simp

text \<open>The marks of one character.\<close>

lemma marks_char:
  assumes "is_scalar c"
  shows "char_marks (encode_utf8 c) = True # replicate (len_utf8 c - 1) False"
    and "newline_marks (encode_utf8 c) = (c = 10) # replicate (len_utf8 c - 1) False"
    and "tab_marks (encode_utf8 c) = (c = 9) # replicate (len_utf8 c - 1) False"
    and "unit_marks (encode_utf8 c) =
      True # (if 0x10000 \<le> c then True # replicate 2 False else replicate (len_utf8 c - 1) False)"
proof -
  obtain b t where e: "encode_utf8 c = b # t" "is_utf8_char_boundary b" "\<forall>x\<in>set t. 128 \<le> unat x \<and> unat x < 192"
      "length t = len_utf8 c - 1" "240 \<le> unat b \<longleftrightarrow> 0x10000 \<le> c" "b = 10 \<longleftrightarrow> c = 10" "b = 9 \<longleftrightarrow> c = 9"
    using assms by (rule encode_utf8_cases)
  have t: "map (\<lambda>x. P x) t = replicate (length t) False" if "\<And>x. 128 \<le> unat x \<and> unat x < 192 \<Longrightarrow> \<not> P x" for P
    using e(3) that by (auto intro!: replicate_eqI)
  have "\<not> x = 10" "\<not> x = 9" if "128 \<le> unat x \<and> unat x < 192" for x :: u8 using that by auto
  then show "newline_marks (encode_utf8 c) = (c = 10) # replicate (len_utf8 c - 1) False"
    "tab_marks (encode_utf8 c) = (c = 9) # replicate (len_utf8 c - 1) False"
    using e t[of "\<lambda>b. b = 10"] t[of "\<lambda>b. b = 9"] by (simp_all add: newline_marks_def tab_marks_def)
  show "char_marks (encode_utf8 c) = True # replicate (len_utf8 c - 1) False"
    using e t[of is_utf8_char_boundary] not_boundary_cont by (simp add: char_marks_def)
  show "unit_marks (encode_utf8 c) =
      True # (if 0x10000 \<le> c then True # replicate 2 False else replicate (len_utf8 c - 1) False)"
  proof (cases "0x10000 \<le> c")
    case True
    then have "length t = 3" using e(4) by (simp add: len_utf8_def)
    then show ?thesis using True e utf16_from_conts[OF e(3), of True] by (auto simp: unit_marks_def)
  next
    case False
    then show ?thesis using e utf16_from_conts[OF e(3), of False]
      by (cases t) (simp_all add: unit_marks_def flip: replicate_Suc)
  qed
qed

lemma marks_char_counts:
  assumes "is_scalar c"
  shows "marks (char_marks (encode_utf8 c)) = 1" "marks (unit_marks (encode_utf8 c)) = len_utf16 c"
    "marks (newline_marks (encode_utf8 c)) = (if c = 10 then 1 else 0)"
  using marks_char[OF assms] by (simp_all add: len_utf16_def numeral_2_eq_2)

lemma marks_text:
  assumes "\<forall>c\<in>set cs. is_scalar c"
  shows "marks (char_marks (str_of cs)) = length cs" "marks (unit_marks (str_of cs)) = units cs"
    "marks (newline_marks (str_of cs)) = length (filter (\<lambda>c. c = 10) cs)"
  using assms
proof (induction cs)
  case (Cons c cs)
  { case 1 then show ?case using Cons marks_char_counts[of c] by simp }
  { case 2 then show ?case using Cons marks_char_counts[of c] unit_marks_append[of "[c]" "str_of cs"] by simp }
  { case 3 then show ?case using Cons marks_char_counts[of c] by simp }
qed simp_all

subsection \<open>Construction, concatenation and slicing\<close>

lemma byte_mask_bits:
  assumes "bitmap acc ps" "length ps + length bs \<le> 8"
  shows "bitmap (byte_mask p (length ps) acc bs) (ps @ map p bs)"
  using assms
proof (induction bs arbitrary: acc ps)
  case (Cons b bs)
  have "bitmap (of_bool (p b) :: u8) [p b]" by (auto simp: bitmap_def bit_1_iff)
  then have "bitmap (acc OR push_bit (length ps) (of_bool (p b))) (ps @ [p b])"
    using Cons.prems by (intro bitmap_or_push) auto
  then show ?case using Cons.IH[of _ "ps @ [p b]"] Cons.prems by simp
qed simp

lemma bitmap_ucast: "bitmap (w :: u8) ps \<Longrightarrow> bitmap (ucast w :: u128) ps"
  using bitmap_length[of w ps] by (intro bitmapI) (auto simp: bit_ucast_iff bitmap_bit)

lemma from_le_bytes_bits: "length bs \<le> 128 \<Longrightarrow> bitmap (from_le_bytes (mask_bytes p bs)) (map p bs)"
proof (induction "length bs" arbitrary: bs rule: less_induct)
  case less
  show ?case
  proof (cases "bs = []")
    case False
    let ?w = "byte_mask p 0 0 (take 8 bs)" and ?r = "from_le_bytes (mask_bytes p (drop 8 bs))"
    have w: "bitmap (ucast ?w :: u128) (map p (take 8 bs))"
      using byte_mask_bits[of 0 "[]" "take 8 bs" p] by (intro bitmap_ucast) simp
    have r: "bitmap ?r (map p (drop 8 bs))" using less False by simp
    have e: "from_le_bytes (mask_bytes p bs) = ucast ?w OR push_bit 8 ?r"
      using False by (simp add: mask_bytes_def chunks_of_step)
    have "bitmap (ucast ?w OR push_bit 8 ?r) (map p (take 8 bs) @ map p (drop 8 bs))"
    proof (cases "length bs \<le> 8")
      case True
      then have "?r = 0" by (simp add: mask_bytes_def)
      then show ?thesis using True w by simp
    next
      case False
      then show ?thesis using bitmap_or_push[OF w r] less.prems by simp
    qed
    then show ?thesis using e by (simp flip: map_append)
  qed (simp add: mask_bytes_def)
qed

lemma nth_utf16_from: "i < length bs \<Longrightarrow>
  utf16_from w bs ! i \<longleftrightarrow> is_utf8_char_boundary (bs ! i) \<or> (if i = 0 then w else 240 \<le> unat (bs ! (i - 1)))"
proof (induction w bs arbitrary: i rule: utf16_from.induct)
  case (2 w b bs)
  then show ?case by (cases i; cases "i - 1") auto
qed simp

lemma chunk_new_rep:
  assumes "\<forall>c\<in>set cs. is_scalar c" "length (str_of cs) \<le> MAX_BASE"
  obtains s where "chunk_new (str_of cs) = Some s" "chunk_rep s cs"
proof -
  let ?bs = "str_of cs"
  have len: "length ?bs \<le> 128" using assms(2) by (simp add: MAX_BASE_def)
  let ?c = "from_le_bytes (mask_bytes is_utf8_char_boundary ?bs)" and ?w = "from_le_bytes (mask_bytes (\<lambda>b. b \<ge> 240) ?bs)"
  have c: "bitmap ?c (map is_utf8_char_boundary ?bs)" and w: "bitmap ?w (map (\<lambda>b. b \<ge> 240) ?bs)"
    by (rule from_le_bytes_bits[OF len])+
  have ge: "b \<ge> 240 \<longleftrightarrow> 240 \<le> unat b" for b :: u8 by (simp add: word_le_nat_alt)
  have last: "\<not> 240 \<le> unat (?bs ! (length ?bs - 1))" if "?bs \<noteq> []"
    using that last_str_narrow[OF assms(1)] by (cases "cs = []") (auto simp: last_conv_nth)
  have "bitmap (push_bit 1 ?w OR ?c) (unit_marks ?bs)"
  proof (rule bitmapI)
    fix i
    have "bit (push_bit 1 ?w OR ?c) i \<longleftrightarrow> (1 \<le> i \<and> i < 128 \<and> bit ?w (i - 1)) \<or> bit ?c i"
      unfolding bit_or_iff bit_push_bit_iff by auto
    also have "\<dots> \<longleftrightarrow> (1 \<le> i \<and> i \<le> length ?bs \<and> i < 128 \<and> 240 \<le> unat (?bs ! (i - 1))) \<or>
        (i < length ?bs \<and> is_utf8_char_boundary (?bs ! i))"
      unfolding bitmap_bit[OF c] bitmap_bit[OF w] by (auto simp: ge)
    also have "\<dots> \<longleftrightarrow> i < length ?bs \<and> unit_marks ?bs ! i"
    proof (cases "i < length ?bs")
      case True
      then show ?thesis using len by (auto simp: unit_marks_def nth_utf16_from)
    next
      case False
      have "\<not> (1 \<le> i \<and> i \<le> length ?bs \<and> 240 \<le> unat (?bs ! (i - 1)))"
      proof
        assume i: "1 \<le> i \<and> i \<le> length ?bs \<and> 240 \<le> unat (?bs ! (i - 1))"
        then have "i = length ?bs" "?bs \<noteq> []" using False by auto
        then show False using last i by simp
      qed
      then show ?thesis using False by auto
    qed
    finally show "bit (push_bit 1 ?w OR ?c) i \<longleftrightarrow> i < length (unit_marks ?bs) \<and> unit_marks ?bs ! i" by simp
  qed (use len in simp)
  then show thesis
    using assms c from_le_bytes_bits[OF len, of "\<lambda>b. b = 10"] from_le_bytes_bits[OF len, of "\<lambda>b. b = 9"]
    by (intro that) (auto simp: chunk_new_def Let_def chunk_rep_def char_marks_def newline_marks_def tab_marks_def)
qed

lemma chunk_rep_length: "chunk_rep s cs \<Longrightarrow> length (str_of cs) \<le> 128"
  using bitmap_length[of "ck_chars s" "char_marks (str_of cs)"] by (simp add: chunk_rep_def)

lemma chunk_rep_text: "chunk_rep s cs \<Longrightarrow> ck_text s = str_of cs \<and> (\<forall>c\<in>set cs. is_scalar c)"
  by (simp add: chunk_rep_def)

lemma chunk_rep_empty [simp]: "chunk_rep chunk_empty []"
  by (simp add: chunk_rep_def chunk_empty_def)

lemma encode_utf8_not_Nil [simp]: "encode_utf8 c \<noteq> []"
  by (simp add: encode_utf8_def)

lemma str_of_eq_Nil: "str_of cs = [] \<longleftrightarrow> cs = []"
  by (cases cs) auto

text \<open>The maps of a concatenation.\<close>

lemma rep_join:
  assumes s: "chunk_rep s xs" and t: "chunk_rep t ys" and len: "length (str_of (xs @ ys)) \<le> 128"
  shows "chunk_rep \<lparr>ck_chars = ck_chars s OR push_bit (length (str_of xs)) (ck_chars t),
      ck_chars_utf16 = ck_chars_utf16 s OR push_bit (length (str_of xs)) (ck_chars_utf16 t),
      ck_newlines = ck_newlines s OR push_bit (length (str_of xs)) (ck_newlines t),
      ck_tabs = ck_tabs s OR push_bit (length (str_of xs)) (ck_tabs t), ck_text = str_of (xs @ ys)\<rparr> (xs @ ys)"
proof -
  have j: "bitmap (v OR push_bit (length (str_of xs)) w) (ps @ qs)"
    if "bitmap v ps" "bitmap w qs" "length ps = length (str_of xs)" "length qs = length (str_of ys)" for v w :: u128 and ps qs
    using bitmap_or_push[OF that(1,2)] that(3,4) len by simp
  have x: "\<forall>c\<in>set xs. is_scalar c" using s by (simp add: chunk_rep_def)
  show ?thesis
    using s t j[of "ck_chars s" "char_marks (str_of xs)"] j[of "ck_chars_utf16 s" "unit_marks (str_of xs)"]
      j[of "ck_newlines s" "newline_marks (str_of xs)"] j[of "ck_tabs s" "tab_marks (str_of xs)"] unit_marks_append[OF x, of "str_of ys"]
    by (auto simp: chunk_rep_def)
qed

lemma chunk_append_rep:
  assumes s: "chunk_rep s xs" and t: "chunk_rep t ys" and len: "length (str_of (xs @ ys)) \<le> MAX_BASE"
  obtains r where "chunk_append s t = Some r" "chunk_rep r (xs @ ys)"
proof (cases "ys = []")
  case True
  then show thesis using s t by (intro that[of s]) (auto simp: chunk_append_def slice_is_empty_def chunk_rep_def)
next
  case False
  then have ne: "str_of ys \<noteq> []" by (simp add: str_of_eq_Nil)
  then have "length (str_of xs) < 128" using len by (auto simp: MAX_BASE_def simp flip: length_greater_0_conv)
  then show thesis using rep_join[OF s t] ne len chunk_rep_text[OF s] chunk_rep_text[OF t]
    by (intro that) (auto simp: chunk_append_def slice_is_empty_def shl_def array_push_str_def MAX_BASE_def Let_def)
qed

lemma chunk_prepend_rep:
  assumes s: "chunk_rep s xs" and t: "chunk_rep t ys" and len: "length (str_of (ys @ xs)) \<le> MAX_BASE"
  obtains r where "chunk_prepend s t = Some r" "chunk_rep r (ys @ xs)"
proof -
  have sx: "ck_text s = str_of xs" and ty: "ck_text t = str_of ys" "\<forall>c\<in>set ys. is_scalar c"
    using s t by (auto simp: chunk_rep_def)
  consider "ys = []" | "ys \<noteq> []" "xs = []" | "ys \<noteq> []" "xs \<noteq> []" by blast
  then show thesis
  proof cases
    case 1
    then show thesis using s ty by (intro that[of s]) (auto simp: chunk_prepend_def slice_is_empty_def)
  next
    case 2
    then obtain r where "chunk_new (str_of ys) = Some r" "chunk_rep r ys"
      using chunk_new_rep[OF ty(2)] len by auto
    then show thesis using 2 ty sx by (intro that) (auto simp: chunk_prepend_def slice_is_empty_def str_of_eq_Nil)
  next
    case 3
    then have ne: "str_of xs \<noteq> []" "str_of ys \<noteq> []" by (simp_all add: str_of_eq_Nil)
    then have "length (str_of ys) < 128" using len by (auto simp: MAX_BASE_def simp flip: length_greater_0_conv)
    then show thesis using rep_join[OF t s] ne len sx ty
      by (intro that) (auto simp: chunk_prepend_def slice_is_empty_def shl_def array_push_str_def MAX_BASE_def Let_def)
  qed
qed

lemma as_u32_small: "n \<le> 128 \<Longrightarrow> as_u32 n = n"
  by (simp add: as_u32_def)

lemma is_char_boundary_iff:
  assumes "chunk_rep s cs" "off < 2 ^ 32"
  shows "chunk_is_char_boundary s off \<longleftrightarrow> str_is_char_boundary (str_of cs) off"
proof -
  have cs: "\<forall>c\<in>set cs. is_scalar c" and b: "bitmap (ck_chars s) (char_marks (str_of cs))" and t: "ck_text s = str_of cs"
    using assms(1) by (simp_all add: chunk_rep_def)
  have "as_u32 off = off" using assms(2) by (simp add: as_u32_def)
  moreover have "(push_bit off 1 :: u128) AND w \<noteq> 0 \<longleftrightarrow> bit w off" for w :: u128
  proof -
    have "bit (push_bit off 1 AND w :: u128) i \<longleftrightarrow> i = off \<and> bit w off" for i
      unfolding bit_and_iff bit_push_bit_iff by (auto simp: bit_1_iff dest: bit_imp_le_length)
    then show ?thesis by (metis bit_eqI bit_0_eq bot_apply bot_bool_def)
  qed
  ultimately have "chunk_is_char_boundary s off \<longleftrightarrow> bit (ck_chars s) off \<or> off = length (str_of cs)"
    by (simp add: chunk_is_char_boundary_def unbounded_shl_def t)
  also have "\<dots> \<longleftrightarrow> str_is_char_boundary (str_of cs) off"
    using str_of_hd_boundary[OF cs] unfolding bitmap_bit[OF b]
    by (cases "cs = []") (auto simp: char_marks_def str_is_char_boundary_def hd_conv_nth)
  finally show ?thesis .
qed

lemma boundary_at:
  assumes "chunk_rep s (xs @ ys)"
  shows "chunk_is_char_boundary s (length (str_of xs))" "str_is_char_boundary (str_of (xs @ ys)) (length (str_of xs))"
proof -
  have "length (str_of xs) < 2 ^ 32" using chunk_rep_length[OF assms] by simp
  moreover show "str_is_char_boundary (str_of (xs @ ys)) (length (str_of xs))"
    using assms boundary_of_prefix[of ys xs] by (auto simp: chunk_rep_def)
  ultimately show "chunk_is_char_boundary s (length (str_of xs))" using is_char_boundary_iff[OF assms] by simp
qed

text \<open>The part of a chunk between two character boundaries.\<close>

lemma rep_part:
  assumes "chunk_rep s (xs @ ys @ zs)"
  defines "a \<equiv> length (str_of xs)" and "m \<equiv> mask (length (str_of (xs @ ys)))"
  shows "chunk_rep \<lparr>ck_chars = drop_bit a (ck_chars s AND m), ck_chars_utf16 = drop_bit a (ck_chars_utf16 s AND m),
    ck_newlines = drop_bit a (ck_newlines s AND m), ck_tabs = drop_bit a (ck_tabs s AND m), ck_text = str_of ys\<rparr> ys"
proof -
  have cs: "\<forall>c\<in>set xs. is_scalar c" "\<forall>c\<in>set ys. is_scalar c" using assms(1) by (auto simp: chunk_rep_def)
  have u: "unit_marks (str_of (xs @ ys @ zs)) = unit_marks (str_of xs) @ unit_marks (str_of ys) @ unit_marks (str_of zs)"
    using unit_marks_append[OF cs(1), of "str_of ys @ str_of zs"] unit_marks_append[OF cs(2), of "str_of zs"] by simp
  have p: "bitmap (drop_bit a (w AND m)) qs"
    if "bitmap w (ps @ qs @ rs)" "length ps = length (str_of xs)" "length qs = length (str_of ys)" for w :: u128 and ps qs rs
    using bitmap_drop[OF bitmap_and_mask[OF that(1), of "length (str_of (xs @ ys))"], of a] that(2,3) by (simp add: a_def m_def)
  show ?thesis using assms(1) cs(2) unfolding chunk_rep_def u by (auto intro!: p simp del: drop_bit_and)
qed

lemma slice_slice_rep:
  assumes "chunk_rep s (xs @ ys @ zs)"
  obtains t where "slice_slice s (length (str_of xs)) (length (str_of (xs @ ys))) = Some t" "chunk_rep t ys"
proof -
  let ?a = "length (str_of xs)" and ?b = "length (str_of (xs @ ys))"
  have len: "length (str_of (xs @ ys @ zs)) \<le> 128" by (rule chunk_rep_length[OF assms])
  have sb: "chunk_is_char_boundary s ?a" "chunk_is_char_boundary s ?b"
      "str_is_char_boundary (str_of (xs @ ys @ zs)) ?a" "str_is_char_boundary (str_of (xs @ ys @ zs)) ?b"
    using boundary_at[of s xs "ys @ zs"] boundary_at[of s "xs @ ys" zs] assms by simp_all
  show thesis
  proof (cases "?a = MAX_BASE")
    case True
    then have "ys = []" using len by (simp add: MAX_BASE_def str_of_eq_Nil)
    then show thesis using True by (intro that[of chunk_empty]) (simp_all add: slice_slice_def)
  next
    case False
    then have "?a < 128" using len by (simp add: MAX_BASE_def)
    moreover have "str_index (ck_text s) ?a ?b = Some (str_of ys)"
      using sb chunk_rep_text[OF assms] by (simp add: str_index_def)
    moreover have "as_u32 ?b = ?b" using len by (intro as_u32_small) simp
    ultimately show thesis using False sb rep_part[OF assms]
      by (intro that) (auto simp: slice_slice_def Let_def shr_def mask_word)
  qed
qed

lemma slice_split_at_rep:
  assumes "chunk_rep s (xs @ ys)"
  obtains t u where "slice_split_at s (length (str_of xs)) = Some (t, u)" "chunk_rep t xs" "chunk_rep u ys"
proof -
  let ?a = "length (str_of xs)"
  have len: "length (str_of (xs @ ys)) \<le> 128" by (rule chunk_rep_length[OF assms])
  show thesis
  proof (cases "?a = MAX_BASE")
    case True
    then have "ys = []" using len by (simp add: MAX_BASE_def str_of_eq_Nil)
    then show thesis using True assms by (intro that[of s chunk_empty]) (simp_all add: slice_split_at_def)
  next
    case False
    then have a: "?a < 128" using len by (simp add: MAX_BASE_def)
    have sp: "str_split_at (ck_text s) ?a = Some (str_of xs, str_of ys)"
      using boundary_at(2)[OF assms] chunk_rep_text[OF assms] by (simp add: str_split_at_def)
    have m: "(push_bit ?a 1 - 1 :: u128) = mask ?a" using mask_word[of ?a] by (simp add: unbounded_shl_def)
    have left: "chunk_rep \<lparr>ck_chars = ck_chars s AND mask ?a, ck_chars_utf16 = ck_chars_utf16 s AND mask ?a,
        ck_newlines = ck_newlines s AND mask ?a, ck_tabs = ck_tabs s AND mask ?a, ck_text = str_of xs\<rparr> xs"
      using rep_part[of s "[]" xs ys] assms by simp
    have "chunk_rep \<lparr>ck_chars = drop_bit ?a (ck_chars s), ck_chars_utf16 = drop_bit ?a (ck_chars_utf16 s),
        ck_newlines = drop_bit ?a (ck_newlines s), ck_tabs = drop_bit ?a (ck_tabs s), ck_text = str_of ys\<rparr> ys"
    proof -
      have cs: "\<forall>c\<in>set xs. is_scalar c" using assms by (auto simp: chunk_rep_def)
      have "bitmap (drop_bit ?a w) qs" if "bitmap w (ps @ qs)" "length ps = ?a" for w :: u128 and ps qs
        using bitmap_drop[OF that(1), of ?a] that(2) by simp
      then show ?thesis using assms unit_marks_append[OF cs, of "str_of ys"] by (auto simp: chunk_rep_def)
    qed
    then show thesis using left a sp m False
      by (intro that) (auto simp: slice_split_at_def Let_def shl_def shr_def)
  qed
qed

subsection \<open>Lines\<close>

lemma takeWhile_Not_replicate [simp]: "takeWhile Not (replicate n False @ ps) = replicate n False @ takeWhile Not ps"
  by (induction n) auto

lemma newline_marks_none:
  assumes "\<forall>c\<in>set cs. is_scalar c" "10 \<notin> set cs"
  shows "newline_marks (str_of cs) = replicate (length (str_of cs)) False"
  using assms
proof (induction cs)
  case (Cons c cs)
  then have "newline_marks (encode_utf8 c) = replicate (len_utf8 c) False"
    using marks_char(2)[of c] len_utf8_bounds(1)[of c] by (cases "len_utf8 c") auto
  with Cons show ?case by (simp add: replicate_add)
qed simp

lemma newline_marks_newline [simp]: "newline_marks (encode_utf8 10) = [True]"
  by (simp add: encode_utf8_def newline_marks_def)

lemma first_line_split:
  obtains rest where "cs = hd (text_lines cs) @ rest" "10 \<notin> set (hd (text_lines cs))" "rest = [] \<and> tl (text_lines cs) = [] \<or>
    (\<exists>r. rest = 10 # r \<and> tl (text_lines cs) = text_lines r)"
proof (induction cs arbitrary: thesis)
  case (Cons c cs)
  show ?case
  proof (cases "c = 10")
    case False
    obtain rest where r: "cs = hd (text_lines cs) @ rest" "10 \<notin> set (hd (text_lines cs))" "rest = [] \<and> tl (text_lines cs) = [] \<or>
      (\<exists>r. rest = 10 # r \<and> tl (text_lines cs) = text_lines r)" by (rule Cons.IH)
    then show ?thesis using False by (intro Cons.prems[of rest]) auto
  qed (use Cons.prems[of "10 # cs"] in auto)
qed simp

lemma last_line_split:
  obtains pre where "cs = pre @ last (text_lines cs)" "10 \<notin> set (last (text_lines cs))"
    "pre = [] \<or> (\<exists>p. pre = p @ [10])" "length (text_lines cs) = Suc (length (filter (\<lambda>c. c = 10) pre))"
proof (induction cs arbitrary: thesis rule: rev_induct)
  case (snoc c cs)
  obtain pre where r: "cs = pre @ last (text_lines cs)" "10 \<notin> set (last (text_lines cs))"
    "pre = [] \<or> (\<exists>p. pre = p @ [10])" "length (text_lines cs) = Suc (length (filter (\<lambda>c. c = 10) pre))" by (rule snoc.IH)
  show ?case
  proof (cases "c = 10")
    case True
    have "filter (\<lambda>c. c = 10) cs = filter (\<lambda>c. c = 10) pre" using r(2) by (subst r(1)) (auto simp: filter_empty_conv)
    then show ?thesis using True r(4) by (intro snoc.prems[of "cs @ [10]"]) (auto simp: text_lines_snoc)
  next
    case False
    then show ?thesis using r by (intro snoc.prems[of pre]) (auto simp: text_lines_snoc)
  qed
qed simp

lemma line_count: "length (text_lines cs) = Suc (length (filter (\<lambda>c. c = 10) cs))"
proof -
  obtain pre where "cs = pre @ last (text_lines cs)" "10 \<notin> set (last (text_lines cs))"
    "length (text_lines cs) = Suc (length (filter (\<lambda>c. c = 10) pre))" by (rule last_line_split)
  moreover from this have "filter (\<lambda>c. c = 10) cs = filter (\<lambda>c. c = 10) pre"
    by (metis (mono_tags, lifting) append.right_neutral filter_False filter_append)
  ultimately show ?thesis by simp
qed

lemma newline_zeros_back:
  assumes "\<forall>c\<in>set cs. is_scalar c"
  shows "length (takeWhile Not (rev (newline_marks (str_of cs)))) = length (str_of (last (text_lines cs)))"
proof -
  obtain pre where r: "cs = pre @ last (text_lines cs)" "10 \<notin> set (last (text_lines cs))" "pre = [] \<or> (\<exists>p. pre = p @ [10])"
    by (rule last_line_split)
  let ?l = "last (text_lines cs)"
  have "\<forall>c\<in>set ?l. is_scalar c" using assms r(1) by (metis Un_iff set_append)
  then have l: "newline_marks (str_of ?l) = replicate (length (str_of ?l)) False" using r(2) by (rule newline_marks_none)
  have "newline_marks (str_of cs) = newline_marks (str_of pre) @ newline_marks (str_of ?l)"
    by (subst r(1)) simp
  moreover have "takeWhile Not (rev (newline_marks (str_of pre))) = []" using r(3) by auto
  ultimately show ?thesis by (simp add: l)
qed

lemma newline_leading_zeros:
  assumes "chunk_rep s cs"
  shows "leading_zeros (ck_newlines s) = 128 - length (str_of cs) + length (str_of (last (text_lines cs)))"
    and "length (str_of (last (text_lines cs))) \<le> length (str_of cs)"
proof -
  have "bitmap (ck_newlines s) (newline_marks (str_of cs))" "\<forall>c\<in>set cs. is_scalar c" using assms by (auto simp: chunk_rep_def)
  then show "leading_zeros (ck_newlines s) = 128 - length (str_of cs) + length (str_of (last (text_lines cs)))"
    using leading_zeros_marks newline_zeros_back by fastforce
  obtain pre where r: "cs = pre @ last (text_lines cs)" by (rule last_line_split)
  show "length (str_of (last (text_lines cs))) \<le> length (str_of cs)" by (subst (2) r) simp
qed

lemma slice_lines_rep:
  assumes "chunk_rep s cs"
  shows "slice_lines s = Some (ts_lines (ts_from cs))"
proof -
  have "count_ones (ck_newlines s) = length (filter (\<lambda>c. c = 10) cs)"
    using assms marks_text(3)[of cs] count_ones_marks[of "ck_newlines s"] by (auto simp: chunk_rep_def)
  moreover have "row (ts_lines (ts_from cs)) = length (filter (\<lambda>c. c = 10) cs)"
      "column (ts_lines (ts_from cs)) = length (str_of (last (text_lines cs)))"
    using describes_from[of cs] by (simp_all add: describes_def Let_def line_count)
  ultimately show ?thesis
    using newline_leading_zeros[OF assms] chunk_rep_length[OF assms] chunk_rep_text[OF assms]
    by (auto simp: slice_lines_def checked_sub_def intro: point_eqI)
qed

lemma first_line_rep:
  assumes "chunk_rep s cs"
  shows "slice_first_line_chars s = length (hd (text_lines cs))"
proof -
  obtain rest where r: "cs = hd (text_lines cs) @ rest" "10 \<notin> set (hd (text_lines cs))" "rest = [] \<or> (\<exists>r. rest = 10 # r)"
    by (rule first_line_split) auto
  let ?l = "hd (text_lines cs)"
  have sc: "\<forall>c\<in>set cs. is_scalar c" and bm: "bitmap (ck_newlines s) (newline_marks (str_of cs))"
      "bitmap (ck_chars s) (char_marks (str_of cs))" using assms by (auto simp: chunk_rep_def)
  have lc: "\<forall>c\<in>set ?l. is_scalar c" using sc r(1) by (metis Un_iff set_append)
  then have l: "newline_marks (str_of ?l) = replicate (length (str_of ?l)) False" using r(2) by (rule newline_marks_none)
  have n: "newline_marks (str_of cs) = newline_marks (str_of ?l) @ newline_marks (str_of rest)"
    "char_marks (str_of cs) = char_marks (str_of ?l) @ char_marks (str_of rest)" by (subst r(1), simp)+
  have "take (trailing_zeros (ck_newlines s)) (char_marks (str_of cs)) = char_marks (str_of ?l)"
  proof (cases "rest = []")
    case True
    then have "trailing_zeros (ck_newlines s) = 128" using trailing_zeros_marks[OF bm(1)] n l by simp
    moreover have "length (str_of cs) = length (str_of ?l) + length (str_of rest)"
      using arg_cong[OF n(2), of length] by (simp only: length_marks length_append)
    ultimately show ?thesis using True n(2) chunk_rep_length[OF assms] by simp
  next
    case False
    then obtain q where "rest = 10 # q" using r(3) by auto
    then have "trailing_zeros (ck_newlines s) = length (str_of ?l)"
      using trailing_zeros_marks[OF bm(1)] n l by simp
    then show ?thesis using n(2) by simp
  qed
  then show ?thesis
    using count_ones_marks[OF bitmap_and_mask[OF bm(2), of "trailing_zeros (ck_newlines s)"]] marks_text(1)[OF lc]
    by (simp add: slice_first_line_chars_def saturating_shl_mask_def mask_word)
qed

lemma last_line_rep:
  assumes "chunk_rep s cs"
  shows "slice_last_line_chars s = length (last (text_lines cs))" "slice_last_line_len_utf16 s = units (last (text_lines cs))"
proof -
  obtain pre where r: "cs = pre @ last (text_lines cs)" by (rule last_line_split)
  let ?l = "last (text_lines cs)"
  have sc: "\<forall>c\<in>set cs. is_scalar c" and bm: "bitmap (ck_chars_utf16 s) (unit_marks (str_of cs))"
      "bitmap (ck_chars s) (char_marks (str_of cs))" using assms by (auto simp: chunk_rep_def)
  have lc: "\<forall>c\<in>set pre. is_scalar c" "\<forall>c\<in>set ?l. is_scalar c" using sc r by (metis Un_iff set_append)+
  have n: "unit_marks (str_of cs) = unit_marks (str_of pre) @ unit_marks (str_of ?l)"
    "char_marks (str_of cs) = char_marks (str_of pre) @ char_marks (str_of ?l)"
    "length (str_of cs) = length (str_of pre) + length (str_of ?l)"
    using unit_marks_append[OF lc(1), of "str_of ?l"] by (subst r, simp)+
  note z = newline_leading_zeros[OF assms] and len = chunk_rep_length[OF assms]
  have k: "128 - leading_zeros (ck_newlines s) = length (str_of pre)" "leading_zeros (ck_newlines s) \<le> 128"
    using z len n(3) by simp_all
  show "slice_last_line_chars s = length ?l" "slice_last_line_len_utf16 s = units ?l"
    using count_ones_high[OF bm(2), of "leading_zeros (ck_newlines s)"] count_ones_high[OF bm(1), of "leading_zeros (ck_newlines s)"] k
      marks_text(1,2)[OF lc(2)] n
    by (simp_all add: slice_last_line_chars_def slice_last_line_len_utf16_def saturating_shr_mask_def)
qed

subsection \<open>The longest row\<close>

text \<open>What the loop has found after the lines \<open>ls\<close> (their lengths).\<close>

definition best_so_far :: "nat list \<Rightarrow> nat \<Rightarrow> nat \<Rightarrow> bool" where
  "best_so_far ls r n \<longleftrightarrow> (if ls = [] then r = 0 \<and> n = 0 else first_longest ls r n)"

lemma best_so_far_snoc:
  "best_so_far ls r n \<Longrightarrow> first_longest (ls @ [m]) (if m > n then length ls else r) (if m > n then m else n)"
  by (fastforce simp: best_so_far_def first_longest_def nth_append less_Suc_eq split: if_splits)

lemma first_longest_unique:
  assumes "first_longest ls r n" "first_longest ls r' n'"
  shows "r = r' \<and> n = n'"
proof -
  have n: "n = n'" using assms unfolding first_longest_def by (metis le_antisym)
  have "\<not> r < r'" "\<not> r' < r" using assms n by (auto simp: first_longest_def)
  then show ?thesis using n by simp
qed

lemma chars_le_bytes: "length cs \<le> length (str_of cs)"
proof (induction cs)
  case (Cons c cs)
  then show ?case using len_utf8_bounds(1)[of c] by simp
qed simp

lemma longest_row_loop_spec:
  assumes "\<forall>c\<in>set cs. is_scalar c" "bitmap chars (char_marks (str_of cs))" "bitmap newlines (newline_marks (str_of cs))"
    and "best_so_far ls best best_chars" "current = length ls"
  shows "\<exists>r n. longest_row_loop chars newlines tc current best best_chars = (r, n, tc + length cs) \<and>
    first_longest (ls @ map length (text_lines cs)) r n"
  using assms
proof (induction "length cs" arbitrary: cs chars newlines ls best best_chars current tc rule: less_induct)
  case less
  note sc = less.prems(1) and ch = less.prems(2) and nl = less.prems(3) and best = less.prems(4)
  obtain rest where r: "cs = hd (text_lines cs) @ rest" "10 \<notin> set (hd (text_lines cs))"
      "rest = [] \<and> tl (text_lines cs) = [] \<or> (\<exists>r. rest = 10 # r \<and> tl (text_lines cs) = text_lines r)"
    by (rule first_line_split)
  define l where "l = hd (text_lines cs)"
  have cs: "cs = l @ rest" "10 \<notin> set l" using r by (simp_all add: l_def)
  have lc: "\<forall>c\<in>set l. is_scalar c" using sc cs by simp
  have nlm: "newline_marks (str_of l) = replicate (length (str_of l)) False" using lc cs(2) by (rule newline_marks_none)
  have len: "length (str_of cs) \<le> 128" using bitmap_length[OF ch] by simp
  have u8: "as_u8 (length l) = length l" using chars_le_bytes[of l] len cs(1) by (simp add: as_u8_def)
  show ?case
  proof (cases "rest = []")
    case True
    then have "newlines = 0" using bitmap_positive[OF nl] cs nlm by auto
    moreover have "count_ones chars = length l" using count_ones_marks[OF ch] marks_text(1)[OF sc] True cs by simp
    moreover have "map length (text_lines cs) = [length l]" using True r(3) by (cases "text_lines cs") (auto simp: l_def)
    ultimately show ?thesis using best_so_far_snoc[OF best, of "length l"] True cs less.prems(5) u8
      by (subst longest_row_loop.simps) (auto simp: Let_def split: if_splits)
  next
    case False
    then obtain q where q: "rest = 10 # q" "tl (text_lines cs) = text_lines q" using r(3) by auto
    have n10: "str_of [10] = [10]" by (simp add: encode_utf8_def)
    have marks: "newline_marks (str_of cs) = replicate (length (str_of l)) False @ True # newline_marks (str_of q)"
      "char_marks (str_of cs) = char_marks (str_of l) @ True # char_marks (str_of q)"
      using cs(1) q(1) nlm marks_char(1)[of 10] by (simp_all add: is_scalar_def len_utf8_def)
    have nz: "newlines \<noteq> 0" using bitmap_positive[OF nl] marks by simp
    have tz: "trailing_zeros newlines = length (str_of l)" using trailing_zeros_marks[OF nl] marks by simp
    have m: "(2 ^ length (str_of l) - 1 :: u128) = mask (length (str_of l))" by (simp add: mask_eq_exp_minus_1)
    have rc: "as_u8 (count_ones (chars AND mask (length (str_of l)))) = length l"
      using count_ones_marks[OF bitmap_and_mask[OF ch, of "length (str_of l)"]] marks(2) marks_text(1)[OF lc] u8 by simp
    have dn: "bitmap (drop_bit 1 (drop_bit (length (str_of l)) newlines)) (newline_marks (str_of q))"
      "bitmap (drop_bit 1 (drop_bit (length (str_of l)) chars)) (char_marks (str_of q))"
      using bitmap_drop[OF bitmap_drop[OF nl, of "length (str_of l)"], of 1] bitmap_drop[OF bitmap_drop[OF ch, of "length (str_of l)"], of 1] marks
      by (simp_all del: drop_bit_drop_bit)
    let ?b = "if length l > best_chars then current else best" and ?n = "if length l > best_chars then length l else best_chars"
    have "best_so_far (ls @ [length l]) ?b ?n" using best_so_far_snoc[OF best, of "length l"] less.prems(5) by (auto simp: best_so_far_def)
    moreover have "length q < length cs" "\<forall>c\<in>set q. is_scalar c" using cs q sc by simp_all
    ultimately obtain r n where IH: "longest_row_loop (drop_bit 1 (drop_bit (length (str_of l)) chars)) (drop_bit 1 (drop_bit (length (str_of l)) newlines))
        (tc + length l + 1) (current + 1) ?b ?n = (r, n, tc + length l + 1 + length q)"
        "first_longest ((ls @ [length l]) @ map length (text_lines q)) r n"
      using less.hyps[of q "drop_bit 1 (drop_bit (length (str_of l)) chars)" "drop_bit 1 (drop_bit (length (str_of l)) newlines)" "ls @ [length l]" ?b ?n "current + 1" "tc + length l + 1"]
        dn less.prems(5) by auto
    have "longest_row_loop chars newlines tc current best best_chars = (r, n, tc + length cs)"
      using IH(1) nz by (subst longest_row_loop.simps) (simp add: tz m rc Let_def cs(1) q(1) split: if_splits)
    moreover have "map length (text_lines cs) = length l # map length (text_lines q)"
      using q(2) by (cases "text_lines cs") (auto simp: l_def)
    ultimately show ?thesis using IH(2) by auto
  qed
qed

lemma slice_text_summary_rep:
  assumes "chunk_rep s cs"
  shows "slice_text_summary s = Some (ts_from cs)"
proof -
  have sc: "\<forall>c\<in>set cs. is_scalar c" "bitmap (ck_chars s) (char_marks (str_of cs))"
      "bitmap (ck_newlines s) (newline_marks (str_of cs))" "bitmap (ck_chars_utf16 s) (unit_marks (str_of cs))"
    using assms by (auto simp: chunk_rep_def)
  have "best_so_far [] 0 0" by (simp add: best_so_far_def)
  from longest_row_loop_spec[OF sc(1-3) this, of 0 0]
  obtain r n where r: "slice_longest_row s = (r, n, length cs)" "first_longest (map length (text_lines cs)) r n"
    by (auto simp: slice_longest_row_def)
  note d = describes_from[of cs, unfolded describes_def Let_def]
  have "r = longest_row (ts_from cs)" "n = longest_row_chars (ts_from cs)"
    using first_longest_unique[OF r(2)] d by auto
  moreover have "slice_len_utf16 s = units cs"
    using count_ones_marks[OF sc(4)] marks_text(2)[OF sc(1)] by (simp add: slice_len_utf16_def)
  ultimately show ?thesis
    using r(1) slice_lines_rep[OF assms] first_line_rep[OF assms] last_line_rep[OF assms] chunk_rep_text[OF assms] d
    by (auto simp: slice_text_summary_def slice_len_def intro!: ts_eqI)
qed

end
