(* ===== verification/Chunk_Convert.thy ===== *)
theory Chunk_Convert
  imports Chunk_Correct
begin

section \<open>Conversions inside a chunk\<close>

text \<open>
  Every boundary between two characters of a chunk has a byte offset, a UTF-16 offset, a point and a
  UTF-16 point. For the characters \<open>xs\<close> before it these are \<open>length (str_of xs)\<close>, \<open>units xs\<close>, \<open>end_point xs\<close> and
  \<open>end_point_utf16 xs\<close>, and the conversions of \<open>ChunkSlice\<close> map them to each other.
\<close>

definition end_point :: "scalar list \<Rightarrow> point" where
  "end_point xs = ts_lines (ts_from xs)"

definition end_point_utf16 :: "scalar list \<Rightarrow> point_utf16" where
  "end_point_utf16 xs = lines_utf16 (ts_from xs)"

abbreviation rows :: "scalar list \<Rightarrow> nat" where
  "rows xs \<equiv> length (filter (\<lambda>c. c = 10) xs)"

abbreviation last_line :: "scalar list \<Rightarrow> scalar list" where
  "last_line xs \<equiv> last (text_lines xs)"

lemma end_point_fields [simp]:
  "row (end_point xs) = rows xs" "column (end_point xs) = length (str_of (last_line xs))"
  "row (end_point_utf16 xs) = rows xs" "column (end_point_utf16 xs) = units (last_line xs)"
  using describes_from[of xs] by (simp_all add: describes_def Let_def end_point_def end_point_utf16_def lines_utf16_def line_count)

lemma end_point_append: "end_point (xs @ ys) = point_add (end_point xs) (end_point ys)"
  by (simp add: end_point_def ts_from_append ts_add_fields)

lemma end_point_utf16_append: "end_point_utf16 (xs @ ys) = point_add (end_point_utf16 xs) (end_point_utf16 ys)"
  by (auto simp: end_point_utf16_def lines_utf16_def ts_from_append ts_add_fields point_add_def)

text \<open>The line of a text that holds a boundary.\<close>

lemma line_around:
  obtains pre ll fl post where "xs = pre @ ll" "ys = fl @ post" "ll = last_line xs" "10 \<notin> set (ll @ fl)" "rows pre = rows xs"
    "pre = [] \<or> (\<exists>p. pre = p @ [10])" "post = [] \<or> (\<exists>q. post = 10 # q)"
proof -
  obtain pre where p: "xs = pre @ last_line xs" "10 \<notin> set (last_line xs)" "pre = [] \<or> (\<exists>p. pre = p @ [10])"
    by (rule last_line_split)
  obtain post where q: "ys = hd (text_lines ys) @ post" "10 \<notin> set (hd (text_lines ys))" "post = [] \<or> (\<exists>q. post = 10 # q)"
    by (rule first_line_split) auto
  have "rows (pre @ last_line xs) = rows pre" using p(2) by (auto simp: filter_empty_conv)
  then show thesis using p q by (intro that[of pre "last_line xs" "hd (text_lines ys)" post]) (auto simp flip: p(1))
qed

lemma nth_mark_at: "nth_mark (ps @ True # qs) (Suc (marks ps)) = length ps"
  by (induction ps) auto

lemma text_lines_single: "10 \<notin> set l \<Longrightarrow> text_lines l = [l]"
  by (induction l) auto

lemma row_range_rep:
  assumes rep: "chunk_rep s (pre @ l @ post)" and l: "10 \<notin> set l"
    and pre: "pre = [] \<or> (\<exists>p. pre = p @ [10])" and post: "post = [] \<or> (\<exists>q. post = 10 # q)"
  shows "offset_range_for_row s (rows pre) = Some (length (str_of pre), length (str_of (pre @ l)))"
proof -
  let ?a = "length (str_of pre)" and ?N = "newline_marks (str_of (pre @ l @ post))"
  have sc: "\<forall>c\<in>set pre. is_scalar c" "\<forall>c\<in>set l. is_scalar c" and nl: "bitmap (ck_newlines s) ?N"
    and tx: "ck_text s = str_of (pre @ l @ post)" using rep by (auto simp: chunk_rep_def)
  have len: "length (str_of (pre @ l @ post)) \<le> 128" by (rule chunk_rep_length[OF rep])
  have start: "(if rows pre > 0 then nth_set_bit (ck_newlines s) (rows pre) + 1 else 0) = ?a"
  proof (cases "pre = []")
    case False
    then obtain p where p: "pre = p @ [10]" using pre by blast
    have N: "?N = newline_marks (str_of p) @ True # newline_marks (str_of (l @ post))" by (simp add: p)
    have m: "marks (newline_marks (str_of p)) = rows p" using marks_text(3)[of p] sc(1) p by simp
    have "nth_set_bit (ck_newlines s) (rows pre) = nth_mark ?N (rows pre)"
      using nl by (rule nth_set_bit_marks) (simp_all add: N m p)
    also have "\<dots> = length (str_of p)" using nth_mark_at[of "newline_marks (str_of p)"] unfolding N by (simp add: m p)
    finally show ?thesis by (simp add: p encode_utf8_def)
  qed simp
  have rl: "(if ?a = MAX_BASE then Some 0
        else do { nls \<leftarrow> shr (ck_newlines s) ?a; left \<leftarrow> checked_sub (length (ck_text s)) ?a;
                  Some (min (trailing_zeros nls) (as_u32 left)) }) = Some (length (str_of l))"
  proof (cases "?a = MAX_BASE")
    case True
    then show ?thesis using len by (simp add: MAX_BASE_def)
  next
    case False
    then have a: "?a < 128" using len by (simp add: MAX_BASE_def)
    have b: "bitmap (drop_bit ?a (ck_newlines s)) (replicate (length (str_of l)) False @ newline_marks (str_of post))"
      using bitmap_drop[OF nl, of ?a] newline_marks_none[OF sc(2) l] by simp
    have "min (trailing_zeros (drop_bit ?a (ck_newlines s))) (length (str_of l) + length (str_of post)) = length (str_of l)"
      using post len trailing_zeros_marks[OF b] by auto
    moreover have "as_u32 (length (str_of l) + length (str_of post)) = length (str_of l) + length (str_of post)"
      using len by (intro as_u32_small) simp
    ultimately show ?thesis using False a tx by (simp add: shr_def)
  qed
  show ?thesis unfolding offset_range_for_row_def Let_def start rl by simp
qed

lemma masked_newlines:
  assumes "chunk_rep s (xs @ ys)"
  shows "count_ones (ck_newlines s AND mask (length (str_of xs))) = rows xs"
    and "checked_sub 128 (leading_zeros (ck_newlines s AND mask (length (str_of xs)))) = Some (length (str_of xs) - length (str_of (last_line xs)))"
    and "length (str_of (last_line xs)) \<le> length (str_of xs)"
proof -
  have sc: "\<forall>c\<in>set xs. is_scalar c" and "bitmap (ck_newlines s) (newline_marks (str_of xs) @ newline_marks (str_of ys))"
    using assms by (auto simp: chunk_rep_def)
  then have b: "bitmap (ck_newlines s AND mask (length (str_of xs))) (newline_marks (str_of xs))"
    using bitmap_and_mask[of "ck_newlines s" _ "length (str_of xs)"] by fastforce
  show "count_ones (ck_newlines s AND mask (length (str_of xs))) = rows xs"
    using count_ones_marks[OF b] marks_text(3)[OF sc] by simp
  obtain pre where "xs = pre @ last_line xs" by (rule last_line_split)
  then have le: "length (str_of (last_line xs)) \<le> length (str_of xs)" by (metis str_of_simps(3) length_append le_add2)
  then show "length (str_of (last_line xs)) \<le> length (str_of xs)" .
  show "checked_sub 128 (leading_zeros (ck_newlines s AND mask (length (str_of xs)))) = Some (length (str_of xs) - length (str_of (last_line xs)))"
    using leading_zeros_marks[OF b] newline_zeros_back[OF sc] bitmap_length[OF b] le by (simp add: checked_sub_def)
qed

lemma offset_to_point_rep:
  assumes "chunk_rep s (xs @ ys)"
  shows "slice_offset_to_point s (length (str_of xs)) = Some (end_point xs)"
proof -
  have len: "length (str_of xs) \<le> 128" using chunk_rep_length[OF assms] by simp
  note m = masked_newlines[OF assms]
  have u: "as_u32 (length (str_of (last_line xs))) = length (str_of (last_line xs))" using m(3) len by (intro as_u32_small) simp
  have e: "point_new (rows xs) (length (str_of (last_line xs))) = end_point xs" by (rule point_eqI) simp_all
  show ?thesis using m(3) len by (simp add: slice_offset_to_point_def Let_def mask_word as_u32_small[of "length (str_of xs)"] m u e)
qed

lemma point_to_offset_rep:
  assumes "chunk_rep s (xs @ ys)"
  shows "slice_point_to_offset s (end_point xs) = Some (length (str_of xs))"
proof -
  obtain pre ll fl post where d: "xs = pre @ ll" "ys = fl @ post" "ll = last_line xs" "10 \<notin> set (ll @ fl)" "rows pre = rows xs"
    "pre = [] \<or> (\<exists>p. pre = p @ [10])" "post = [] \<or> (\<exists>q. post = 10 # q)" by (rule line_around)
  have rep: "chunk_rep s (pre @ (ll @ fl) @ post)" using assms d(1,2) by simp
  have len: "length (str_of (xs @ ys)) \<le> 128" by (rule chunk_rep_length[OF assms])
  have "as_u32 (length (str_of (ll @ fl))) = length (str_of (ll @ fl))" using len unfolding d(1,2) by (intro as_u32_small) simp
  moreover have "column (end_point xs) = length (str_of ll)" "row (end_point xs) = rows pre" using d(3,5) by simp_all
  moreover have "row (ts_lines (ts_from (xs @ ys))) = rows pre + rows ys"
    using end_point_fields(1)[of "xs @ ys"] d(5) by (simp add: end_point_def)
  ultimately show ?thesis
    using slice_lines_rep[OF assms] row_range_rep[OF rep d(4,6,7)] d(1) by (simp add: slice_point_to_offset_def del: end_point_fields)
qed

lemma offset_utf16_rep:
  assumes "chunk_rep s (xs @ ys)"
  shows "slice_offset_to_offset_utf16 s (length (str_of xs)) = units xs"
proof -
  have sc: "\<forall>c\<in>set xs. is_scalar c" and b: "bitmap (ck_chars_utf16 s) (unit_marks (str_of (xs @ ys)))"
    using assms by (auto simp: chunk_rep_def)
  have "length (str_of xs) \<le> 128" using chunk_rep_length[OF assms] by simp
  then show ?thesis
    using count_ones_marks[OF bitmap_and_mask[OF b, of "length (str_of xs)"]] unit_marks_append[OF sc, of "str_of ys"] marks_text(2)[OF sc]
    by (simp add: slice_offset_to_offset_utf16_def as_u32_small mask_word)
qed

text \<open>The last unit of a text is followed by the remaining bytes of its character.\<close>

lemma last_unit:
  assumes "\<forall>c\<in>set xs. is_scalar c" "xs \<noteq> []"
  obtains A k where "unit_marks (str_of xs) = A @ True # replicate k False" "Suc (marks A) = units xs" "Suc (length A + k) = length (str_of xs)"
proof -
  obtain p c where x: "xs = p @ [c]" using assms(2) by (metis rev_exhaust)
  have sc: "is_scalar c" "\<forall>c\<in>set p. is_scalar c" using assms(1) x by auto
  have u: "unit_marks (str_of xs) = unit_marks (str_of p) @ unit_marks (encode_utf8 c)"
    using unit_marks_append[OF sc(2), of "encode_utf8 c"] by (simp add: x)
  have mp: "marks (unit_marks (str_of p)) = units p" by (rule marks_text(2)[OF sc(2)])
  show thesis
  proof (cases "0x10000 \<le> c")
    case True
    then have "unit_marks (encode_utf8 c) = [True] @ True # replicate 2 False" "len_utf8 c = 4" "len_utf16 c = 2"
      using marks_char(4)[OF sc(1)] by (simp_all add: len_utf8_def len_utf16_def)
    then show thesis using u mp x by (intro that[of "unit_marks (str_of p) @ [True]" 2]) simp_all
  next
    case False
    then have "unit_marks (encode_utf8 c) = True # replicate (len_utf8 c - 1) False" "len_utf16 c = 1"
      using marks_char(4)[OF sc(1)] by (simp_all add: len_utf16_def)
    then show thesis using u mp x len_utf8_bounds(1)[of c] by (intro that[of "unit_marks (str_of p)" "len_utf8 c - 1"]) simp_all
  qed
qed

lemma units_zero: "units xs = 0 \<longleftrightarrow> xs = []"
  by (cases xs) (auto simp: len_utf16_def)

lemma unit_marks_first:
  assumes "\<forall>c\<in>set ys. is_scalar c" "ys \<noteq> []"
  obtains r where "unit_marks (str_of ys) = True # r"
  using assms by (cases ys) (auto simp: unit_marks_append[of "[_]", simplified] marks_char(4))

lemma offset_utf16_to_offset_rep:
  assumes "chunk_rep s (xs @ ys)"
  shows "slice_offset_utf16_to_offset s (units xs) = Some (length (str_of xs))"
proof (cases "xs = []")
  case False
  have sc: "\<forall>c\<in>set xs. is_scalar c" "\<forall>c\<in>set ys. is_scalar c" and b: "bitmap (ck_chars_utf16 s) (unit_marks (str_of (xs @ ys)))"
    and t: "ck_text s = str_of (xs @ ys)" using assms by (auto simp: chunk_rep_def)
  have len: "length (str_of (xs @ ys)) \<le> 128" by (rule chunk_rep_length[OF assms])
  obtain A k where A: "unit_marks (str_of xs) = A @ True # replicate k False" "Suc (marks A) = units xs" "Suc (length A + k) = length (str_of xs)"
    using sc(1) False by (rule last_unit)
  have U: "unit_marks (str_of (xs @ ys)) = A @ True # (replicate k False @ unit_marks (str_of ys))"
    using unit_marks_append[OF sc(1), of "str_of ys"] A(1) by simp
  have n: "units xs \<le> marks (unit_marks (str_of (xs @ ys)))" "1 \<le> units xs" unfolding U by (simp_all add: A(2)[symmetric])
  have ix: "nth_set_bit (ck_chars_utf16 s) (units xs) = length A"
    using nth_set_bit_marks[OF b n(2,1)] nth_mark_at[of A] unfolding U by (simp add: A(2))
  show ?thesis
  proof (cases "length A + 1 = MAX_BASE")
    case True
    then show ?thesis using A(3) len n(2) by (simp add: slice_offset_utf16_to_offset_def Let_def ix MAX_BASE_def)
  next
    case False
    then have a: "length A + 1 < 128" using A(3) len by (simp add: MAX_BASE_def)
    have d: "bitmap (drop_bit (length A + 1) (ck_chars_utf16 s)) (replicate k False @ unit_marks (str_of ys))"
      using bitmap_drop[OF b, of "length A + 1"] unfolding U by simp
    have "min (trailing_zeros (drop_bit (length A + 1) (ck_chars_utf16 s))) (k + length (str_of ys)) = k"
    proof (cases "ys = []")
      case True
      then show ?thesis using trailing_zeros_marks[OF d] A(3) len by simp
    next
      case False
      then obtain r where "unit_marks (str_of ys) = True # r" by (rule unit_marks_first[OF sc(2)])
      then show ?thesis using trailing_zeros_marks[OF d] by simp
    qed
    moreover have "checked_sub (length (ck_text s)) (length A + 1) = Some (k + length (str_of ys))"
      using A(3) t by (simp add: checked_sub_def)
    ultimately show ?thesis using False a n(2) A(3)
      by (simp add: slice_offset_utf16_to_offset_def Let_def ix shr_def)
  qed
qed (simp add: slice_offset_utf16_to_offset_def)

lemma offset_to_point_utf16_rep:
  assumes "chunk_rep s (xs @ ys)"
  shows "slice_offset_to_point_utf16 s (length (str_of xs)) = Some (end_point_utf16 xs)"
proof -
  obtain pre where p: "xs = pre @ last_line xs" by (rule last_line_split)
  define l where "l = last_line xs"
  have x: "xs = pre @ l" using p by (simp add: l_def)
  have sc: "\<forall>c\<in>set xs. is_scalar c" "\<forall>c\<in>set pre. is_scalar c" "\<forall>c\<in>set l. is_scalar c" using assms x by (auto simp: chunk_rep_def)
  have b: "bitmap (ck_chars_utf16 s) (unit_marks (str_of (xs @ ys)))" using assms by (auto simp: chunk_rep_def)
  have len: "length (str_of xs) \<le> 128" using chunk_rep_length[OF assms] by simp
  have ix: "checked_sub 128 (leading_zeros (ck_newlines s AND mask (length (str_of xs)))) = Some (length (str_of pre))"
    using masked_newlines(2)[OF assms] unfolding l_def[symmetric] by (simp add: x)
  have U: "unit_marks (str_of (xs @ ys)) = unit_marks (str_of pre) @ unit_marks (str_of l) @ unit_marks (str_of ys)"
    using unit_marks_append[OF sc(1), of "str_of ys"] unit_marks_append[OF sc(2), of "str_of l"] by (simp add: x)
  have "count_ones (drop_bit (length (str_of pre)) (ck_chars_utf16 s AND mask (length (str_of xs)))) = units l"
    using count_ones_marks[OF bitmap_drop[OF bitmap_and_mask[OF b, of "length (str_of xs)"], of "length (str_of pre)"]] marks_text(2)[OF sc(3)]
    unfolding U by (simp add: x del: drop_bit_and)
  moreover have "units l = 0" if "length (str_of pre) = 128" using len x that by (simp add: str_of_eq_Nil)
  moreover have "point_new (rows xs) (units l) = end_point_utf16 xs" by (rule point_eqI) (simp_all add: l_def)
  moreover have "length (str_of pre) \<le> 128" using len x by simp
  ultimately show ?thesis
    by (auto simp: slice_offset_to_point_utf16_def Let_def saturating_shl_mask_def mask_word as_u32_small[OF len] masked_newlines(1)[OF assms] ix shr_def MAX_BASE_def
        simp del: drop_bit_and)
qed

lemma back_to_boundary_at: "str_is_char_boundary bs i \<Longrightarrow> back_to_boundary bs i = Some i"
  by (cases i) auto

lemma row_slice:
  assumes rep: "chunk_rep s (pre @ l @ post)" and l: "10 \<notin> set l"
    and pre: "pre = [] \<or> (\<exists>p. pre = p @ [10])" and post: "post = [] \<or> (\<exists>q. post = 10 # q)"
  obtains line where "offset_range_for_row s (rows pre) = Some (length (str_of pre), length (str_of (pre @ l)))"
    "slice_slice s (length (str_of pre)) (length (str_of (pre @ l))) = Some line" "chunk_rep line l"
    "slice_last_line_len_utf16 line = units l" "slice_len_utf16 line = units l" "slice_len line = length (str_of l)"
proof -
  obtain line where s: "slice_slice s (length (str_of pre)) (length (str_of (pre @ l))) = Some line" and line: "chunk_rep line l"
    using slice_slice_rep[OF rep] by blast
  have "slice_last_line_len_utf16 line = units l" using last_line_rep(2)[OF line] l by (simp add: text_lines_single)
  moreover have "slice_len_utf16 line = units l" using line count_ones_marks[of "ck_chars_utf16 line"] marks_text(2)[of l]
    by (auto simp: chunk_rep_def slice_len_utf16_def)
  moreover have "slice_len line = length (str_of l)" using line by (simp add: slice_len_def chunk_rep_def)
  ultimately show thesis using s line row_range_rep[OF assms] by (intro that)
qed

lemma units_le_bytes: "units cs \<le> length (str_of cs)"
proof (induction cs)
  case (Cons c cs)
  moreover have "len_utf16 c \<le> len_utf8 c" by (simp add: len_utf16_def len_utf8_def)
  ultimately show ?case by simp
qed simp

lemma point_utf16_to_offset_rep:
  assumes "chunk_rep s (xs @ ys)"
  shows "slice_point_utf16_to_offset s (end_point_utf16 xs) = Some (length (str_of xs))"
    and "slice_unclipped_point_utf16_to_point s (end_point_utf16 xs) = Some (end_point xs)"
proof -
  obtain pre ll fl post where d: "xs = pre @ ll" "ys = fl @ post" "ll = last_line xs" "10 \<notin> set (ll @ fl)" "rows pre = rows xs"
    "pre = [] \<or> (\<exists>p. pre = p @ [10])" "post = [] \<or> (\<exists>q. post = 10 # q)" by (rule line_around)
  have rep: "chunk_rep s (pre @ (ll @ fl) @ post)" using assms d(1,2) by simp
  have lens: "length (str_of pre) + (length (str_of (ll @ fl)) + length (str_of post)) \<le> 128" using chunk_rep_length[OF rep] by simp
  obtain line where r: "offset_range_for_row s (rows pre) = Some (length (str_of pre), length (str_of (pre @ ll @ fl)))"
      "slice_slice s (length (str_of pre)) (length (str_of (pre @ ll @ fl))) = Some line"
    and line: "chunk_rep line (ll @ fl)" "slice_last_line_len_utf16 line = units (ll @ fl)" "slice_len_utf16 line = units (ll @ fl)"
      "slice_len line = length (str_of (ll @ fl))"
    using rep d(4,6,7) by (rule row_slice)
  have p: "row (end_point_utf16 xs) = rows pre" "column (end_point_utf16 xs) = units ll" using d(3,5) by simp_all
  have e: "end_point xs = point_new (rows pre) (length (str_of ll))" using d(3,5) by (intro point_eqI) simp_all
  have L: "slice_lines s = Some (end_point (xs @ ys))" using slice_lines_rep[OF assms] by (simp add: end_point_def)
  have le: "\<not> rows pre > row (end_point (xs @ ys))" using d(5) by simp
  have off: "slice_offset_utf16_to_offset line (units ll) = Some (length (str_of ll))" by (rule offset_utf16_to_offset_rep[OF line(1)])
  have bd: "str_is_char_boundary (ck_text s) (length (str_of pre) + length (str_of ll))"
    using boundary_at(2)[OF assms] chunk_rep_text[OF assms] d(1) by simp
  have lx: "length (str_of xs) = length (str_of pre) + length (str_of ll)" by (simp add: d(1))
  show "slice_point_utf16_to_offset s (end_point_utf16 xs) = Some (length (str_of xs))"
    unfolding lx using r line(2) off back_to_boundary_at[OF bd] le units_zero[of ll]
    by (auto simp: slice_point_utf16_to_offset_def L p simp del: end_point_fields)
  have "as_u32 n = n" if "n \<le> length (str_of (ll @ fl))" for n using that lens by (intro as_u32_small) linarith
  then have u: "as_u32 (units (ll @ fl)) = units (ll @ fl)" "as_u32 (length (str_of (ll @ fl))) = length (str_of (ll @ fl))"
      "as_u32 (length (str_of ll)) = length (str_of ll)"
    using units_le_bytes[of "ll @ fl"] by simp_all
  have bl: "str_is_char_boundary (ck_text line) (length (str_of ll))"
    using boundary_at(2)[OF line(1)] chunk_rep_text[OF line(1)] by simp
  have "fl = []" if "units (ll @ fl) \<le> units ll" using that units_zero[of fl] by simp
  then show "slice_unclipped_point_utf16_to_point s (end_point_utf16 xs) = Some (end_point xs)"
    using r line(3,4) off u back_to_boundary_at[OF bl] le units_zero[of ll]
    by (auto simp: slice_unclipped_point_utf16_to_point_def L p e simp del: end_point_fields)
qed

lemma composed_conversions_rep:
  assumes "chunk_rep s (xs @ ys)"
  shows "slice_point_to_point_utf16 s (end_point xs) = Some (end_point_utf16 xs)"
    and "slice_point_to_offset_utf16 s (end_point xs) = Some (units xs)"
proof -
  show "slice_point_to_point_utf16 s (end_point xs) = Some (end_point_utf16 xs)"
    by (simp add: slice_point_to_point_utf16_def point_to_offset_rep[OF assms] offset_to_point_utf16_rep[OF assms])
  have "slice_lines s = Some (end_point (xs @ ys))" using slice_lines_rep[OF assms] by (simp add: end_point_def)
  then show "slice_point_to_offset_utf16 s (end_point xs) = Some (units xs)"
    by (simp add: slice_point_to_offset_utf16_def point_to_offset_rep[OF assms] offset_utf16_rep[OF assms])
qed

subsection \<open>Clipping to character boundaries\<close>

lemma utf16_target_cases:
  assumes "t \<le> units cs"
  obtains (boundary) xs ys where "cs = xs @ ys" "units xs = t"
  | (inside) xs c ys where "cs = xs @ c # ys" "0x10000 \<le> c" "t = Suc (units xs)"
  using assms
proof (induction cs arbitrary: t thesis)
  case Nil
  then show ?case by simp
next
  case (Cons c cs)
  consider "t = 0" | "t = 1" "0x10000 \<le> c" | "len_utf16 c \<le> t" by (fastforce simp: len_utf16_def split: if_splits)
  then show ?case
  proof cases
    case 1
    then show ?thesis using Cons.prems(1)[of "[]" "c # cs"] by simp
  next
    case 2
    then show ?thesis using Cons.prems(2)[of "[]" c cs] by simp
  next
    case 3
    then have le: "t - len_utf16 c \<le> units cs" using Cons.prems(3) by simp
    show ?thesis
    proof (rule Cons.IH[OF _ _ le])
      fix xs ys assume "cs = xs @ ys" "units xs = t - len_utf16 c"
      then show thesis using Cons.prems(1)[of "c # xs" ys] 3 by simp
    next
      fix xs d ys assume "cs = xs @ d # ys" "0x10000 \<le> d" "t - len_utf16 c = Suc (units xs)"
      then show thesis using Cons.prems(2)[of "c # xs" d ys] 3 by simp
    qed
  qed
qed

text \<open>A target between the two units of a wide character is mapped to the second byte of the character.\<close>

lemma offset_utf16_inside:
  assumes "chunk_rep s (xs @ c # ys)" "0x10000 \<le> c"
  shows "slice_offset_utf16_to_offset s (Suc (units xs)) = Some (Suc (length (str_of xs)))"
proof -
  have sc: "\<forall>c\<in>set xs. is_scalar c" "is_scalar c" "\<forall>c\<in>set [c]. is_scalar c" and b: "bitmap (ck_chars_utf16 s) (unit_marks (str_of (xs @ c # ys)))"
    and t: "ck_text s = str_of (xs @ c # ys)" using assms by (auto simp: chunk_rep_def)
  have len: "length (str_of (xs @ c # ys)) \<le> 128" by (rule chunk_rep_length[OF assms(1)])
  have c4: "len_utf8 c = 4" using assms(2) by (simp add: len_utf8_def)
  let ?A = "unit_marks (str_of xs)"
  have U: "unit_marks (str_of (xs @ c # ys)) = ?A @ True # (True # replicate 2 False @ unit_marks (str_of ys))"
    using unit_marks_append[OF sc(1), of "encode_utf8 c @ str_of ys"] unit_marks_append[OF sc(3), of "str_of ys"] marks_char(4)[OF sc(2)] assms(2)
    by simp
  have m: "marks ?A = units xs" by (rule marks_text(2)[OF sc(1)])
  have "Suc (units xs) \<le> marks (unit_marks (str_of (xs @ c # ys)))" unfolding U by (simp add: m)
  then have ix: "nth_set_bit (ck_chars_utf16 s) (Suc (units xs)) = length (str_of xs)"
    using nth_set_bit_marks[OF b, of "Suc (units xs)"] nth_mark_at[of ?A] unfolding U by (simp add: m)
  have "bitmap (drop_bit (length (str_of xs) + 1) (ck_chars_utf16 s)) (True # replicate 2 False @ unit_marks (str_of ys))"
    using bitmap_drop[OF b, of "length (str_of xs) + 1"] unfolding U by simp
  from trailing_zeros_marks[OF this]
  have "trailing_zeros (drop_bit (length (str_of xs) + 1) (ck_chars_utf16 s)) = 0" by simp
  moreover have "checked_sub (length (ck_text s)) (length (str_of xs) + 1) = Some (length (str_of (c # ys)) - 1)"
    using t c4 by (simp add: checked_sub_def)
  ultimately show ?thesis using len c4 by (simp add: slice_offset_utf16_to_offset_def Let_def ix shr_def MAX_BASE_def)
qed

lemma wide_char_inside:
  assumes "\<forall>c\<in>set (xs @ c # ys). is_scalar c" "0 < j" "j < len_utf8 c"
  shows "\<not> str_is_char_boundary (str_of (xs @ c # ys)) (length (str_of xs) + j)"
proof -
  obtain b t where e: "encode_utf8 c = b # t" "\<forall>x\<in>set t. 128 \<le> unat x \<and> unat x < 192" "length t = len_utf8 c - 1"
    using assms(1) by (auto elim: encode_utf8_cases)
  have j: "j - 1 < length t" using assms(2,3) e(3) by simp
  have "str_of (xs @ c # ys) ! (length (str_of xs) + j) = t ! (j - 1)" using j assms(2) by (simp add: e(1) nth_append nth_Cons')
  moreover have "\<not> is_utf8_char_boundary (t ! (j - 1))" using e(2) j by (simp add: not_boundary_cont)
  ultimately show ?thesis using assms(2,3) by (simp add: str_is_char_boundary_def)
qed

lemma clip_utf16_loop_Left:
  "str_is_char_boundary bs i \<Longrightarrow> (\<And>j. i < j \<Longrightarrow> j \<le> i + n \<Longrightarrow> \<not> str_is_char_boundary bs j) \<Longrightarrow>
   clip_utf16_loop bs Left (i + n) = Some i"
proof (induction n)
  case 0
  then show ?case by (subst clip_utf16_loop.simps) simp
next
  case (Suc n)
  then have "\<not> str_is_char_boundary bs (i + Suc n)" by simp
  then have "clip_utf16_loop bs Left (i + Suc n) = clip_utf16_loop bs Left (i + n)"
    by (subst clip_utf16_loop.simps) (simp add: checked_sub_def)
  also have "\<dots> = Some i" using Suc by (intro Suc.IH) auto
  finally show ?case .
qed

lemma clip_utf16_loop_Right:
  "str_is_char_boundary bs (i + n) \<Longrightarrow> (\<And>j. i \<le> j \<Longrightarrow> j < i + n \<Longrightarrow> \<not> str_is_char_boundary bs j) \<Longrightarrow>
   clip_utf16_loop bs Right i = Some (i + n)"
proof (induction n arbitrary: i)
  case 0
  then show ?case by (subst clip_utf16_loop.simps) simp
next
  case (Suc n)
  then have "\<not> str_is_char_boundary bs i" by simp
  then have "clip_utf16_loop bs Right i = clip_utf16_loop bs Right (Suc i)"
    by (subst clip_utf16_loop.simps) simp
  also have "\<dots> = Some (Suc i + n)" using Suc by (intro Suc.IH) auto
  finally show ?case by simp
qed

lemma slice_len_utf16_rep: "chunk_rep s cs \<Longrightarrow> slice_len_utf16 s = units cs"
  using count_ones_marks[of "ck_chars_utf16 s"] marks_text(2)[of cs] by (auto simp: slice_len_utf16_def chunk_rep_def)

lemma clip_offset_utf16_rep:
  assumes "chunk_rep s cs"
  shows "t \<ge> units cs \<Longrightarrow> slice_clip_offset_utf16 s t b = Some (units cs)"
    and "cs = xs @ ys \<Longrightarrow> t = units xs \<Longrightarrow> slice_clip_offset_utf16 s t b = Some (units xs)"
    and "cs = xs @ c # ys \<Longrightarrow> 0x10000 \<le> c \<Longrightarrow> t = Suc (units xs) \<Longrightarrow>
      slice_clip_offset_utf16 s t b = Some (units (case b of Left \<Rightarrow> xs | Right \<Rightarrow> xs @ [c]))"
proof -
  note len = slice_len_utf16_rep[OF assms]
  show "t \<ge> units cs \<Longrightarrow> slice_clip_offset_utf16 s t b = Some (units cs)"
    by (simp add: slice_clip_offset_utf16_def len)
next
  assume x: "cs = xs @ ys" "t = units xs"
  then have rep: "chunk_rep s (xs @ ys)" using assms by simp
  have "clip_utf16_loop (ck_text s) b (length (str_of xs)) = Some (length (str_of xs))"
    using boundary_at(2)[OF rep] chunk_rep_text[OF rep] by (subst clip_utf16_loop.simps) simp
  then show "slice_clip_offset_utf16 s t b = Some (units xs)"
    using x offset_utf16_to_offset_rep[OF rep] offset_utf16_rep[OF rep] by (simp add: slice_clip_offset_utf16_def slice_len_utf16_rep[OF assms] units_zero)
next
  assume x: "cs = xs @ c # ys" "0x10000 \<le> c" "t = Suc (units xs)"
  have rep: "chunk_rep s (xs @ [c] @ ys)" "chunk_rep s ((xs @ [c]) @ ys)" "chunk_rep s (xs @ c # ys)" using assms x(1) by simp_all
  have sc: "\<forall>c\<in>set (xs @ c # ys). is_scalar c" and t: "ck_text s = str_of (xs @ c # ys)" using rep(3) by (auto simp: chunk_rep_def)
  have c4: "len_utf8 c = 4" "len_utf16 c = 2" using x(2) by (simp_all add: len_utf8_def len_utf16_def)
  have inside: "\<not> str_is_char_boundary (ck_text s) j" if "length (str_of xs) < j" "j < length (str_of xs) + 4" for j
    using wide_char_inside[OF sc, of "j - length (str_of xs)"] that c4 t by simp
  have "clip_utf16_loop (ck_text s) b (Suc (length (str_of xs))) = Some (length (str_of (case b of Left \<Rightarrow> xs | Right \<Rightarrow> xs @ [c])))"
  proof (cases b)
    case Left
    then show ?thesis using clip_utf16_loop_Left[of "ck_text s" "length (str_of xs)" 1] boundary_at(2)[OF rep(1)] t inside by simp
  next
    case Right
    then show ?thesis using clip_utf16_loop_Right[of "ck_text s" "Suc (length (str_of xs))" 3] boundary_at(2)[OF rep(2)] t inside c4 by (simp add: add.commute)
  qed
  moreover have "slice_offset_to_offset_utf16 s (length (str_of (case b of Left \<Rightarrow> xs | Right \<Rightarrow> xs @ [c]))) = units (case b of Left \<Rightarrow> xs | Right \<Rightarrow> xs @ [c])"
    using offset_utf16_rep[OF rep(1)] offset_utf16_rep[OF rep(2)] by (cases b) simp_all
  ultimately show "slice_clip_offset_utf16 s t b = Some (units (case b of Left \<Rightarrow> xs | Right \<Rightarrow> xs @ [c]))"
    using x(1,3) c4 offset_utf16_inside[OF rep(3) x(2)] by (simp add: slice_clip_offset_utf16_def slice_len_utf16_rep[OF assms])
qed

subsection \<open>Properties\<close>

text \<open>
  A chunk's bitmaps give the summary of its text. Building a chunk succeeds for exactly the strings of
  at most \<open>MAX_BASE\<close> bytes, the chunk represents the characters of the string, and the summary computed
  from population counts, leading and trailing zeros of its maps (including the loop over the rows for
  the longest one) is the one that a pass over the characters computes.
\<close>

theorem chunk_summary_correct:
  assumes "\<forall>c\<in>set cs. is_scalar c"
  shows "if length (str_of cs) \<le> MAX_BASE
    then \<exists>s. chunk_new (str_of cs) = Some s \<and> chunk_rep s cs \<and> slice_text_summary s = Some (ts_from cs)
    else chunk_new (str_of cs) = None"
proof (cases "length (str_of cs) \<le> MAX_BASE")
  case True
  with assms obtain s where "chunk_new (str_of cs) = Some s" "chunk_rep s cs" by (rule chunk_new_rep)
  then show ?thesis using True slice_text_summary_rep by auto
qed (simp add: chunk_new_def)

lemma chunk_summary_correct_witness:
  "\<exists>s. chunk_new (str_of [0x61, 10, 0x1F600, 0xE9]) = Some s \<and> slice_text_summary s = Some (ts_from [0x61, 10, 0x1F600, 0xE9]) \<and>
   longest_row (ts_from [0x61, 10, 0x1F600, 0xE9]) = 1 \<and> ts_len_utf16 (ts_from [0x61, 10, 0x1F600, 0xE9]) = 5"
proof -
  have "longest_row (ts_from [0x61, 10, 0x1F600, 0xE9]) = 1" "ts_len_utf16 (ts_from [0x61, 10, 0x1F600, 0xE9]) = 5"
    by (simp_all add: ts_from_def ts_step_def ts_zero_def Let_def point_add_def len_utf16_def)
  then show ?thesis using chunk_summary_correct[of "[0x61, 10, 0x1F600, 0xE9]"]
    by (auto simp: is_scalar_def len_utf8_def MAX_BASE_def)
qed

text \<open>
  Chunks concatenate and split as their texts do. Appending or prepending a slice that fits never
  panics and represents the concatenation; splitting at a character boundary and slicing between two of
  them represent the parts, at the ends of the word (offset 128) as well.
\<close>

theorem chunk_concat_split:
  assumes "chunk_rep s (xs @ ys @ zs)" "chunk_rep t us" "length (str_of (xs @ ys @ zs @ us)) \<le> MAX_BASE"
  shows "(\<exists>r. chunk_append s t = Some r \<and> chunk_rep r (xs @ ys @ zs @ us)) \<and>
    (\<exists>r. chunk_prepend s t = Some r \<and> chunk_rep r (us @ xs @ ys @ zs)) \<and>
    (\<exists>l r. slice_split_at s (length (str_of xs)) = Some (l, r) \<and> chunk_rep l xs \<and> chunk_rep r (ys @ zs)) \<and>
    (\<exists>r. slice_slice s (length (str_of xs)) (length (str_of (xs @ ys))) = Some r \<and> chunk_rep r ys)"
proof (intro conjI)
  show "\<exists>r. chunk_append s t = Some r \<and> chunk_rep r (xs @ ys @ zs @ us)"
    by (rule chunk_append_rep[OF assms(1,2)]) (use assms(3) in auto)
  show "\<exists>r. chunk_prepend s t = Some r \<and> chunk_rep r (us @ xs @ ys @ zs)"
    by (rule chunk_prepend_rep[OF assms(1,2)]) (use assms(3) in auto)
  show "\<exists>l r. slice_split_at s (length (str_of xs)) = Some (l, r) \<and> chunk_rep l xs \<and> chunk_rep r (ys @ zs)"
    by (rule slice_split_at_rep[OF assms(1)]) auto
  show "\<exists>r. slice_slice s (length (str_of xs)) (length (str_of (xs @ ys))) = Some r \<and> chunk_rep r ys"
    by (rule slice_slice_rep[OF assms(1)]) auto
qed

lemma chunk_concat_split_witness:
  "\<exists>s r. chunk_new (str_of [0x61, 0x1F600, 10]) = Some s \<and>
     slice_slice s (length (str_of [0x61])) (length (str_of ([0x61] @ [0x1F600]))) = Some r \<and> chunk_rep r [0x1F600]"
proof -
  have sc: "\<forall>c\<in>set [0x61, 0x1F600, 10]. is_scalar c" by (simp add: is_scalar_def)
  have l: "length (str_of [0x61, 0x1F600, 10]) \<le> MAX_BASE" by (simp add: len_utf8_def MAX_BASE_def)
  obtain s where s: "chunk_new (str_of [0x61, 0x1F600, 10]) = Some s" "chunk_rep s ([0x61] @ [0x1F600] @ [10])"
    using chunk_new_rep[OF sc l] by auto
  have "length (str_of ([0x61] @ [0x1F600] @ [10] @ [])) \<le> MAX_BASE" using l by simp
  then show ?thesis using chunk_concat_split[OF s(2) chunk_rep_empty] s(1) by auto
qed

text \<open>
  C32: The conversions of positions agree. For any split of a chunk's characters into \<open>xs @ ys\<close>, the byte
  offset, the UTF-16 offset, the point and the UTF-16 point of the boundary are mapped to each other by all
  nine conversions of \<open>ChunkSlice\<close>, and none of them panics.
\<close>

theorem chunk_conversions_agree:
  assumes "chunk_rep s (xs @ ys)"
  defines "off \<equiv> length (str_of xs)"
  shows "slice_offset_to_point s off = Some (end_point xs) \<and> slice_point_to_offset s (end_point xs) = Some off \<and>
    slice_offset_to_offset_utf16 s off = units xs \<and> slice_offset_utf16_to_offset s (units xs) = Some off \<and>
    slice_offset_to_point_utf16 s off = Some (end_point_utf16 xs) \<and>
    slice_point_utf16_to_offset s (end_point_utf16 xs) = Some off \<and>
    slice_point_to_point_utf16 s (end_point xs) = Some (end_point_utf16 xs) \<and>
    slice_point_to_offset_utf16 s (end_point xs) = Some (units xs) \<and>
    slice_unclipped_point_utf16_to_point s (end_point_utf16 xs) = Some (end_point xs)"
  unfolding off_def using assms(1)
  by (simp add: offset_to_point_rep point_to_offset_rep offset_utf16_rep offset_utf16_to_offset_rep
      offset_to_point_utf16_rep point_utf16_to_offset_rep composed_conversions_rep)

lemma chunk_conversions_agree_witness:
  "\<exists>s. chunk_new (str_of [0x61, 10, 0x1F600, 0x62]) = Some s \<and> slice_offset_to_point s 6 = Some (point_new 1 4) \<and>
     slice_point_utf16_to_offset s (point_new 1 2) = Some 6"
proof -
  have sc: "\<forall>c\<in>set [0x61, 10, 0x1F600, 0x62]. is_scalar c" by (simp add: is_scalar_def)
  have "length (str_of [0x61, 10, 0x1F600, 0x62]) \<le> MAX_BASE" by (simp add: len_utf8_def MAX_BASE_def)
  then obtain s where s: "chunk_new (str_of [0x61, 10, 0x1F600, 0x62]) = Some s" "chunk_rep s ([0x61, 10, 0x1F600] @ [0x62])"
    using chunk_new_rep[OF sc] by auto
  have "end_point [0x61, 10, 0x1F600] = point_new 1 4" "end_point_utf16 [0x61, 10, 0x1F600] = point_new 1 2"
    by (rule point_eqI; simp add: len_utf8_def len_utf16_def)+
  then show ?thesis using chunk_conversions_agree[OF s(2)] s(1) by (simp add: len_utf8_def)
qed

text \<open>
  C33: The recovery of \<open>ChunkSlice::slice\<close> from an offset inside a character fails at the end of a full
  chunk. The start is rounded up to the next boundary; when that is the end of a chunk of 128 bytes, the
  maps are then shifted by the width of the word, which overflows, although the empty slice is what the
  rounding asks for (and what the special case for a start of 128 returns).
\<close>

theorem slice_recovery_overflows:
  assumes "chunk_rep s (xs @ [c])" "length (str_of (xs @ [c])) = MAX_BASE"
    and "length (str_of xs) < i" "i < MAX_BASE"
  shows "str_ceil_char_boundary (ck_text s) i = MAX_BASE \<and> slice_slice s i MAX_BASE = None \<and>
    slice_slice s MAX_BASE MAX_BASE = Some chunk_empty"
proof -
  let ?bs = "str_of (xs @ [c])"
  have t: "ck_text s = ?bs" and sc: "\<forall>c\<in>set (xs @ c # []). is_scalar c" using assms(1) by (auto simp: chunk_rep_def)
  have inside: "\<not> str_is_char_boundary ?bs j" if "i \<le> j" "j < MAX_BASE" for j
    using wide_char_inside[OF sc, of "j - length (str_of xs)"] that assms(2,3) by simp
  have all: "\<not> is_utf8_char_boundary b" if b: "b \<in> set (drop i ?bs)" for b
  proof -
    obtain k where "k < length (drop i ?bs)" "b = drop i ?bs ! k" using b unfolding in_set_conv_nth by blast
    then show ?thesis using inside[of "i + k"] assms(2,4) by (simp add: str_is_char_boundary_def del: drop_append str_of_simps)
  qed
  have tw: "takeWhile (\<lambda>b. \<not> is_utf8_char_boundary b) (drop i ?bs) = drop i ?bs"
    unfolding takeWhile_eq_all_conv using all by blast
  have ceil: "str_ceil_char_boundary ?bs i = MAX_BASE"
    using assms(2,4) by (simp add: str_ceil_char_boundary_def tw del: drop_append str_of_simps)
  have "\<not> chunk_is_char_boundary s i" using is_char_boundary_iff[OF assms(1), of i] inside[of i] assms(4) by (simp add: MAX_BASE_def)
  then have "slice_slice s i MAX_BASE = None"
    using assms(4) ceil t by (simp add: slice_slice_def Let_def shr_def MAX_BASE_def)
  then show ?thesis using ceil t by (simp add: slice_slice_def)
qed

lemma slice_recovery_overflows_witness:
  "\<exists>s. chunk_new (str_of (replicate 124 0x61 @ [0x1F600])) = Some s \<and> slice_slice s 126 MAX_BASE = None"
proof -
  have l: "length (str_of (replicate n 0x61)) = n" for n by (induction n) (simp_all add: len_utf8_def)
  have len: "length (str_of (replicate 124 0x61 @ [0x1F600])) = MAX_BASE" by (simp add: l len_utf8_def MAX_BASE_def)
  have sc: "\<forall>c\<in>set (replicate 124 0x61 @ [0x1F600]). is_scalar c" by (simp add: is_scalar_def)
  obtain s where s: "chunk_new (str_of (replicate 124 0x61 @ [0x1F600])) = Some s" "chunk_rep s (replicate 124 0x61 @ [0x1F600])"
    by (rule chunk_new_rep[OF sc]) (use len in auto)
  then show ?thesis using slice_recovery_overflows[OF s(2) len, of 126] by (simp add: l MAX_BASE_def)
qed

end
