(* ===== verification/Rope.thy ===== *)
theory Rope
  imports Chunk_Convert Cursor_Props
begin

section \<open>The rope (crates/rope/src/rope.rs)\<close>

text \<open>
  A rope is a sum tree of chunks whose summaries are text summaries. The summary of an item cannot fail
  in the code; \<open>text_summary\<close> of a slice is partial in the model because of its subtractions, and
  \<open>slice_text_summary_rep\<close> shows that it returns for every chunk of a text, so the default below is
  never used. \<open>ChunkSummary\<close> has a text summary as its only field.
\<close>

definition chunk_summary :: "chunk \<Rightarrow> text_summary" where
  "chunk_summary c = (case slice_text_summary c of Some s \<Rightarrow> s | None \<Rightarrow> ts_zero)"

definition chunk_ops :: "(chunk, text_summary) item_ops" where
  "chunk_ops = \<lparr>item_summary = chunk_summary, summary_zero = ts_zero, add_summary = ts_add\<rparr>"

type_synonym chunk_tree = "(chunk, text_summary) sum_tree"

record rope =
  chunks :: chunk_tree

subsection \<open>Dimensions\<close>

definition usize_dim :: "(text_summary, nat) dim_ops" where
  "usize_dim = \<lparr>dim_zero = 0, dim_add = (\<lambda>d s. d + ts_len s)\<rparr>"

definition utf16_dim :: "(text_summary, offset_utf16) dim_ops" where
  "utf16_dim = \<lparr>dim_zero = 0, dim_add = (\<lambda>d s. d + ts_len_utf16 s)\<rparr>"

definition point_dim :: "(text_summary, point) dim_ops" where
  "point_dim = \<lparr>dim_zero = point_zero, dim_add = (\<lambda>d s. point_add d (ts_lines s))\<rparr>"

definition point_utf16_dim :: "(text_summary, point_utf16) dim_ops" where
  "point_utf16_dim = \<lparr>dim_zero = point_zero, dim_add = (\<lambda>d s. point_add d (lines_utf16 s))\<rparr>"

definition summary_dim :: "(text_summary, text_summary) dim_ops" where
  "summary_dim = \<lparr>dim_zero = ts_zero, dim_add = ts_add\<rparr>"

definition unit_dim :: "(text_summary, unit) dim_ops" where
  "unit_dim = \<lparr>dim_zero = (), dim_add = (\<lambda>_ _. ())\<rparr>"

text \<open>\<open>Dimensions<D1, D2>\<close>; as a seek target a value of the first dimension is compared with the first component.\<close>

definition pair_dim :: "('s, 'd) dim_ops \<Rightarrow> ('s, 'e) dim_ops \<Rightarrow> ('s, 'd \<times> 'e) dim_ops" where
  "pair_dim M N = \<lparr>dim_zero = (dim_zero M, dim_zero N), dim_add = (\<lambda>(d, e) s. (dim_add M d s, dim_add N e s))\<rparr>"

definition pair_target :: "('d \<Rightarrow> ordering) \<Rightarrow> 'd \<times> 'e \<Rightarrow> ordering" where
  "pair_target target loc = target (fst loc)"

text \<open>The trait \<open>TextDimension\<close>: a dimension that can also be read from a summary and from a slice of a chunk.\<close>

record 'd text_dimension =
  td_dim :: "(text_summary, 'd) dim_ops"
  from_text_summary :: "text_summary \<Rightarrow> 'd"
  from_chunk :: "chunk_slice \<Rightarrow> 'd option"
  td_add_assign :: "'d \<Rightarrow> 'd \<Rightarrow> 'd"

definition usize_td :: "nat text_dimension" where
  "usize_td = \<lparr>td_dim = usize_dim, from_text_summary = ts_len, from_chunk = (\<lambda>c. Some (slice_len c)),
     td_add_assign = (+)\<rparr>"

definition utf16_td :: "offset_utf16 text_dimension" where
  "utf16_td = \<lparr>td_dim = utf16_dim, from_text_summary = ts_len_utf16, from_chunk = (\<lambda>c. Some (slice_len_utf16 c)),
     td_add_assign = (+)\<rparr>"

definition point_td :: "point text_dimension" where
  "point_td = \<lparr>td_dim = point_dim, from_text_summary = ts_lines, from_chunk = slice_lines, td_add_assign = point_add\<rparr>"

definition point_utf16_td :: "point_utf16 text_dimension" where
  "point_utf16_td = \<lparr>td_dim = point_utf16_dim, from_text_summary = lines_utf16,
     from_chunk = (\<lambda>c. do { lines \<leftarrow> slice_lines c; Some \<lparr>row = row lines, column = slice_last_line_len_utf16 c\<rparr> }),
     td_add_assign = point_add\<rparr>"

definition summary_td :: "text_summary text_dimension" where
  "summary_td = \<lparr>td_dim = summary_dim, from_text_summary = (\<lambda>s. s), from_chunk = slice_text_summary,
     td_add_assign = ts_add\<rparr>"

definition pair_td :: "'d text_dimension \<Rightarrow> 'e text_dimension \<Rightarrow> ('d \<times> 'e) text_dimension" where
  "pair_td A B = \<lparr>td_dim = pair_dim (td_dim A) (td_dim B),
     from_text_summary = (\<lambda>s. (from_text_summary A s, from_text_summary B s)),
     from_chunk = (\<lambda>c. do { a \<leftarrow> from_chunk A c; b \<leftarrow> from_chunk B c; Some (a, b) }),
     td_add_assign = (\<lambda>x y. (td_add_assign A (fst x) (fst y), td_add_assign B (snd x) (snd y)))\<rparr>"

subsection \<open>Sizes and boundaries\<close>

definition rope_new :: rope where
  "rope_new = \<lparr>chunks = st_new chunk_ops\<rparr>"

definition rope_summary :: "rope \<Rightarrow> text_summary" where
  "rope_summary r = node_summary (chunks r)"

definition rope_len :: "rope \<Rightarrow> nat" where
  "rope_len r = st_extent usize_dim (chunks r)"

definition rope_is_empty :: "rope \<Rightarrow> bool" where
  "rope_is_empty r \<longleftrightarrow> rope_len r = 0"

definition rope_max_point :: "rope \<Rightarrow> point" where
  "rope_max_point r = st_extent point_dim (chunks r)"

definition rope_max_point_utf16 :: "rope \<Rightarrow> point_utf16" where
  "rope_max_point_utf16 r = st_extent point_utf16_dim (chunks r)"

definition rope_is_char_boundary :: "rope \<Rightarrow> nat \<Rightarrow> bool option" where
  "rope_is_char_boundary r offset =
     (if st_is_empty (chunks r) then Some (offset = 0)
      else (let (start, _, item) = st_find usize_dim (chunks r) (cmp offset) Left in
            do { chunk_offset \<leftarrow> checked_sub offset start;
                 Some (case item of Some c \<Rightarrow> chunk_is_char_boundary c chunk_offset | None \<Rightarrow> False) }))"

definition rope_assert_char_boundary :: "bool \<Rightarrow> rope \<Rightarrow> nat \<Rightarrow> bool option" where
  "rope_assert_char_boundary panic r offset =
     (if st_is_empty (chunks r) \<and> offset = 0 then Some True
      else (let (start, _, item) = st_find usize_dim (chunks r) (cmp offset) Left in
            case item of
              Some c \<Rightarrow> do { chunk_offset \<leftarrow> checked_sub offset start; chunk_assert_char_boundary panic c chunk_offset }
            | None \<Rightarrow> (if panic then None else Some False)))"

definition rope_floor_char_boundary :: "rope \<Rightarrow> nat \<Rightarrow> nat option" where
  "rope_floor_char_boundary r index =
     (if index \<ge> rope_len r then Some (rope_len r)
      else (let (start, _, item) = st_find usize_dim (chunks r) (cmp index) Left in
            do { chunk_offset \<leftarrow> checked_sub index start;
                 Some (case item of Some c \<Rightarrow> start + str_floor_char_boundary (ck_text c) chunk_offset
                                  | None \<Rightarrow> rope_len r) }))"

definition rope_ceil_char_boundary :: "rope \<Rightarrow> nat \<Rightarrow> nat option" where
  "rope_ceil_char_boundary r index =
     (if index > rope_len r then Some (rope_len r)
      else (let (start, _, item) = st_find usize_dim (chunks r) (cmp index) Left in
            do { chunk_offset \<leftarrow> checked_sub index start;
                 Some (case item of Some c \<Rightarrow> start + str_ceil_char_boundary (ck_text c) chunk_offset
                                  | None \<Rightarrow> rope_len r) }))"

subsection \<open>Adding text\<close>

text \<open>\<open>while !is_char_boundary(split_ix) { split_ix += 1 }\<close>.\<close>

partial_function (option) next_boundary :: "(nat \<Rightarrow> bool) \<Rightarrow> nat \<Rightarrow> nat option" where
  "next_boundary boundary split_ix =
     (if boundary split_ix then Some split_ix else next_boundary boundary (split_ix + 1))"

declare next_boundary.simps [code]

text \<open>
  How much of \<open>len\<close> more bytes goes to a last chunk with \<open>used\<close> bytes; the same in \<open>push\<close> and \<open>push_chunk\<close>.
\<close>

definition split_for_last :: "(nat \<Rightarrow> bool) \<Rightarrow> nat \<Rightarrow> nat \<Rightarrow> nat option" where
  "split_for_last boundary used len =
     (if used + len \<le> MAX_BASE then Some len
      else next_boundary boundary (min (MIN_BASE - used) len))"

text \<open>
  The closures given to \<open>update_last\<close>: the updated chunk and what is left of the text. \<open>update_last\<close> calls
  its closure on the last item, if there is one.
\<close>

definition push_into_last :: "chunk \<Rightarrow> bytes \<Rightarrow> (chunk \<times> bytes) option" where
  "push_into_last last_chunk text =
     do { split_ix \<leftarrow> split_for_last (str_is_char_boundary text) (length (ck_text last_chunk)) (length text);
          (suffix, remainder) \<leftarrow> str_split_at text split_ix;
          c \<leftarrow> chunk_push_str last_chunk suffix;
          Some (c, remainder) }"

definition push_chunk_into_last :: "chunk \<Rightarrow> chunk_slice \<Rightarrow> (chunk \<times> chunk_slice) option" where
  "push_chunk_into_last last_chunk sl =
     do { split_ix \<leftarrow> split_for_last (chunk_is_char_boundary sl) (length (ck_text last_chunk)) (slice_len sl);
          (suffix, remainder) \<leftarrow> slice_split_at sl split_ix;
          c \<leftarrow> chunk_append last_chunk suffix;
          Some (c, remainder) }"

definition update_last_with :: "(chunk \<Rightarrow> 'x \<Rightarrow> (chunk \<times> 'x) option) \<Rightarrow> chunk_tree \<Rightarrow> 'x \<Rightarrow> (chunk_tree \<times> 'x) option" where
  "update_last_with f t x =
     do { last_chunk \<leftarrow> st_last t;
          (case last_chunk of
             None \<Rightarrow> Some (t, x)
           | Some c \<Rightarrow> do { (c', y) \<leftarrow> f c x; t' \<leftarrow> st_update_last chunk_ops t (\<lambda>_. c'); Some (t', y) }) }"

text \<open>The loop that cuts a text into pieces of at most 128 bytes between characters.\<close>

partial_function (option) split_text :: "bytes \<Rightarrow> bytes list option" where
  "split_text text =
     (if text = [] then Some []
      else do { split_ix \<leftarrow> back_to_boundary text (min MAX_BASE (length text));
                (piece, remainder) \<leftarrow> str_split_at text split_ix;
                pieces \<leftarrow> split_text remainder;
                Some (piece # pieces) })"

declare split_text.simps [code]

definition NUM_CHUNKS :: nat where "NUM_CHUNKS = 4"

definition PARALLEL_THRESHOLD :: nat where "PARALLEL_THRESHOLD = 84 * (2 * TREE_BASE)"

definition rope_push_large :: "rope \<Rightarrow> bytes \<Rightarrow> rope option" where
  "rope_push_large r text =
     do { pieces \<leftarrow> split_text text;
          new_chunks \<leftarrow> those (map chunk_new pieces);
          t \<leftarrow> (if length pieces \<ge> PARALLEL_THRESHOLD then st_par_extend chunk_ops (chunks r) new_chunks
               else st_extend chunk_ops (chunks r) new_chunks);
          Some (r\<lparr>chunks := t\<rparr>) }"

definition rope_push :: "rope \<Rightarrow> bytes \<Rightarrow> rope option" where
  "rope_push r0 text0 =
     do { (t, text) \<leftarrow> update_last_with push_into_last (chunks r0) text0;
          let r = r0\<lparr>chunks := t\<rparr>;
          if text = [] then Some r
          else if length text > NUM_CHUNKS * MAX_BASE - NUM_CHUNKS * 4 then rope_push_large r text
          else do {
            pieces \<leftarrow> split_text text;
            if length pieces > NUM_CHUNKS then None
            else do { new_chunks \<leftarrow> those (map chunk_new pieces);
                      t' \<leftarrow> st_extend chunk_ops (chunks r) new_chunks;
                      Some (r\<lparr>chunks := t'\<rparr>) } } }"

definition rope_push_chunk :: "rope \<Rightarrow> chunk_slice \<Rightarrow> rope option" where
  "rope_push_chunk r sl =
     do { (t, rest) \<leftarrow> update_last_with push_chunk_into_last (chunks r) sl;
          if slice_is_empty rest then Some (r\<lparr>chunks := t\<rparr>)
          else do { t' \<leftarrow> st_push chunk_ops t rest; Some (r\<lparr>chunks := t'\<rparr>) } }"

definition rope_append :: "rope \<Rightarrow> rope \<Rightarrow> rope option" where
  "rope_append self other =
     do { first \<leftarrow> st_first (chunks other);
          last_chunk \<leftarrow> st_last (chunks self);
          let small_last = (case last_chunk of Some c \<Rightarrow> length (ck_text c) < MIN_BASE | None \<Rightarrow> False);
          (case first of
             Some c \<Rightarrow>
               (if small_last \<or> length (ck_text c) < MIN_BASE then
                  do { r \<leftarrow> rope_push_chunk self c;
                       cur \<leftarrow> cursor_next unit_dim (cursor_new unit_dim (chunks other));
                       cur \<leftarrow> cursor_next unit_dim cur;
                       (_, suffix) \<leftarrow> cursor_suffix chunk_ops unit_dim cur;
                       t \<leftarrow> st_append chunk_ops (chunks r) suffix;
                       Some (r\<lparr>chunks := t\<rparr>) }
                else do { t \<leftarrow> st_append chunk_ops (chunks self) (chunks other); Some (self\<lparr>chunks := t\<rparr>) })
           | None \<Rightarrow> do { t \<leftarrow> st_append chunk_ops (chunks self) (chunks other); Some (self\<lparr>chunks := t\<rparr>) }) }"

definition rope_from :: "bytes \<Rightarrow> rope option" where
  "rope_from text = rope_push rope_new text"

fun rope_push_all :: "rope \<Rightarrow> bytes list \<Rightarrow> rope option" where
  "rope_push_all r [] = Some r"
| "rope_push_all r (text # texts) = do { r' \<leftarrow> rope_push r text; rope_push_all r' texts }"

definition rope_from_iter :: "bytes list \<Rightarrow> rope option" where
  "rope_from_iter texts = rope_push_all rope_new texts"

definition rope_push_front :: "rope \<Rightarrow> bytes \<Rightarrow> rope option" where
  "rope_push_front r text =
     (if text = [] then Some r
      else if rope_is_empty r then rope_push r text
      else do {
        first \<leftarrow> st_first (chunks r);
        (case first of
           Some c \<Rightarrow>
             (if length (ck_text c) + length text \<le> MAX_BASE then
                do { c' \<leftarrow> chunk_prepend_str c text;
                     t \<leftarrow> st_update_first chunk_ops (chunks r) (\<lambda>_. c');
                     Some (r\<lparr>chunks := t\<rparr>) }
              else do { new \<leftarrow> rope_from text; rope_append new r })
         | None \<Rightarrow> do { new \<leftarrow> rope_from text; rope_append new r }) })"

subsection \<open>Cursors over a rope\<close>

record rope_cursor =
  rc_rope :: rope
  rc_chunks :: "(chunk, text_summary, nat) cursor"
  rc_offset :: nat

definition rc_new :: "rope \<Rightarrow> nat \<Rightarrow> rope_cursor option" where
  "rc_new r offset =
     do { (c, _) \<leftarrow> cursor_seek usize_dim (cmp offset) Right (cursor_new usize_dim (chunks r));
          Some \<lparr>rc_rope = r, rc_chunks = c, rc_offset = offset\<rparr> }"

definition rc_seek_forward :: "rope_cursor \<Rightarrow> nat \<Rightarrow> rope_cursor option" where
  "rc_seek_forward rc end_offset =
     (if end_offset \<ge> rc_offset rc \<and> end_offset \<le> rope_len (rc_rope rc) then
        do { (c, _) \<leftarrow> cursor_seek_forward usize_dim (cmp end_offset) Right (rc_chunks rc);
             Some (rc\<lparr>rc_chunks := c, rc_offset := end_offset\<rparr>) }
      else None)"

text \<open>
  The part of the chunk at the cursor between the cursor's offset and \<open>end_offset\<close>, and of the chunk at the
  end of a range; both are shared by \<open>slice\<close> and \<open>summary\<close>.
\<close>

definition rc_start_slice :: "rope_cursor \<Rightarrow> nat \<Rightarrow> chunk_slice option option" where
  "rc_start_slice rc end_offset =
     do { item \<leftarrow> cursor_item (rc_chunks rc);
          (case item of
             None \<Rightarrow> Some None
           | Some start_chunk \<Rightarrow>
               do { chunks_end \<leftarrow> cursor_end usize_dim (rc_chunks rc);
                    start_ix \<leftarrow> checked_sub (rc_offset rc) (cursor_start (rc_chunks rc));
                    end_ix \<leftarrow> checked_sub (min end_offset chunks_end) (cursor_start (rc_chunks rc));
                    map_option Some (slice_slice start_chunk start_ix end_ix) }) }"

definition rc_end_slice :: "(chunk, text_summary, nat) cursor \<Rightarrow> nat \<Rightarrow> chunk_slice option option" where
  "rc_end_slice c end_offset =
     do { item \<leftarrow> cursor_item c;
          (case item of
             None \<Rightarrow> Some None
           | Some end_chunk \<Rightarrow>
               do { end_ix \<leftarrow> checked_sub end_offset (cursor_start c);
                    map_option Some (slice_slice end_chunk 0 end_ix) }) }"

definition push_opt :: "rope \<Rightarrow> chunk_slice option \<Rightarrow> rope option" where
  "push_opt r sl = (case sl of None \<Rightarrow> Some r | Some s \<Rightarrow> rope_push_chunk r s)"

definition rc_slice :: "rope_cursor \<Rightarrow> nat \<Rightarrow> (rope_cursor \<times> rope) option" where
  "rc_slice rc end_offset =
     (if end_offset \<ge> rc_offset rc \<and> end_offset \<le> rope_len (rc_rope rc) then
        do { start_slice \<leftarrow> rc_start_slice rc end_offset;
             slice0 \<leftarrow> push_opt rope_new start_slice;
             chunks_end \<leftarrow> cursor_end usize_dim (rc_chunks rc);
             (c, slice1) \<leftarrow>
               (if end_offset > chunks_end then
                  do { c \<leftarrow> cursor_next usize_dim (rc_chunks rc);
                       (c, t) \<leftarrow> cursor_slice chunk_ops usize_dim (cmp end_offset) Right c;
                       s \<leftarrow> rope_append slice0 \<lparr>chunks = t\<rparr>;
                       end_slice \<leftarrow> rc_end_slice c end_offset;
                       s \<leftarrow> push_opt s end_slice;
                       Some (c, s) }
                else Some (rc_chunks rc, slice0));
             Some (rc\<lparr>rc_chunks := c, rc_offset := end_offset\<rparr>, slice1) }
      else None)"

definition add_opt :: "'d text_dimension \<Rightarrow> 'd \<Rightarrow> chunk_slice option \<Rightarrow> 'd option" where
  "add_opt T d sl =
     (case sl of None \<Rightarrow> Some d | Some s \<Rightarrow> do { e \<leftarrow> from_chunk T s; Some (td_add_assign T d e) })"

definition rc_summary :: "'d text_dimension \<Rightarrow> rope_cursor \<Rightarrow> nat \<Rightarrow> (rope_cursor \<times> 'd) option" where
  "rc_summary T rc end_offset =
     (if end_offset \<ge> rc_offset rc \<and> end_offset \<le> rope_len (rc_rope rc) then
        do { start_slice \<leftarrow> rc_start_slice rc end_offset;
             summary0 \<leftarrow> add_opt T (dim_zero (td_dim T)) start_slice;
             chunks_end \<leftarrow> cursor_end usize_dim (rc_chunks rc);
             (c, summary1) \<leftarrow>
               (if end_offset > chunks_end then
                  do { c \<leftarrow> cursor_next usize_dim (rc_chunks rc);
                       (c, d) \<leftarrow> cursor_summary usize_dim (td_dim T) (cmp end_offset) Right c;
                       let s = td_add_assign T summary0 d;
                       end_slice \<leftarrow> rc_end_slice c end_offset;
                       s \<leftarrow> add_opt T s end_slice;
                       Some (c, s) }
                else Some (rc_chunks rc, summary0));
             Some (rc\<lparr>rc_chunks := c, rc_offset := end_offset\<rparr>, summary1) }
      else None)"

definition rc_suffix :: "rope_cursor \<Rightarrow> rope option" where
  "rc_suffix rc = do { (_, r) \<leftarrow> rc_slice rc (st_extent usize_dim (chunks (rc_rope rc))); Some r }"

definition rope_slice :: "rope \<Rightarrow> nat \<Rightarrow> nat \<Rightarrow> rope option" where
  "rope_slice r range_start range_end =
     do { cur \<leftarrow> rc_new r 0;
          cur \<leftarrow> rc_seek_forward cur range_start;
          (_, s) \<leftarrow> rc_slice cur range_end;
          Some s }"

definition rope_replace :: "rope \<Rightarrow> nat \<Rightarrow> nat \<Rightarrow> bytes \<Rightarrow> rope option" where
  "rope_replace r range_start range_end text =
     do { cur \<leftarrow> rc_new r 0;
          (cur, before) \<leftarrow> rc_slice cur range_start;
          new_rope \<leftarrow> rope_append rope_new before;
          cur \<leftarrow> rc_seek_forward cur range_end;
          new_rope \<leftarrow> rope_push new_rope text;
          after \<leftarrow> rc_suffix cur;
          rope_append new_rope after }"

subsection \<open>Conversions between kinds of positions\<close>

definition rope_offset_to_offset_utf16 :: "rope \<Rightarrow> nat \<Rightarrow> offset_utf16 option" where
  "rope_offset_to_offset_utf16 r offset =
     (if offset \<ge> ts_len (rope_summary r) then Some (ts_len_utf16 (rope_summary r))
      else (let (start, _, item) = st_find (pair_dim usize_dim utf16_dim) (chunks r) (pair_target (cmp offset)) Left in
            do { overshoot \<leftarrow> checked_sub offset (fst start);
                 Some (snd start + (case item of None \<Rightarrow> 0 | Some c \<Rightarrow> slice_offset_to_offset_utf16 c overshoot)) }))"

definition rope_offset_utf16_to_offset :: "rope \<Rightarrow> offset_utf16 \<Rightarrow> nat option" where
  "rope_offset_utf16_to_offset r offset =
     (if offset \<ge> ts_len_utf16 (rope_summary r) then Some (ts_len (rope_summary r))
      else (let (start, _, item) = st_find (pair_dim utf16_dim usize_dim) (chunks r) (pair_target (cmp offset)) Left in
            do { overshoot \<leftarrow> offset_utf16_sub offset (fst start);
                 d \<leftarrow> (case item of None \<Rightarrow> Some 0 | Some c \<Rightarrow> slice_offset_utf16_to_offset c overshoot);
                 Some (snd start + d) }))"

definition rope_offset_to_point :: "rope \<Rightarrow> nat \<Rightarrow> point option" where
  "rope_offset_to_point r offset =
     (if offset \<ge> ts_len (rope_summary r) then Some (ts_lines (rope_summary r))
      else (let (start, _, item) = st_find (pair_dim usize_dim point_dim) (chunks r) (pair_target (cmp offset)) Left in
            do { overshoot \<leftarrow> checked_sub offset (fst start);
                 d \<leftarrow> (case item of None \<Rightarrow> Some point_zero | Some c \<Rightarrow> slice_offset_to_point c overshoot);
                 Some (point_add (snd start) d) }))"

definition rope_offset_to_point_utf16 :: "rope \<Rightarrow> nat \<Rightarrow> point_utf16 option" where
  "rope_offset_to_point_utf16 r offset =
     (if offset \<ge> ts_len (rope_summary r) then Some (lines_utf16 (rope_summary r))
      else (let (start, _, item) = st_find (pair_dim usize_dim point_utf16_dim) (chunks r) (pair_target (cmp offset)) Left in
            do { overshoot \<leftarrow> checked_sub offset (fst start);
                 d \<leftarrow> (case item of None \<Rightarrow> Some point_zero | Some c \<Rightarrow> slice_offset_to_point_utf16 c overshoot);
                 Some (point_add (snd start) d) }))"

definition rope_point_to_point_utf16 :: "rope \<Rightarrow> point \<Rightarrow> point_utf16 option" where
  "rope_point_to_point_utf16 r p =
     (if point_cmp p (ts_lines (rope_summary r)) \<noteq> Less then Some (lines_utf16 (rope_summary r))
      else (let (start, _, item) = st_find (pair_dim point_dim point_utf16_dim) (chunks r) (pair_target (point_cmp p)) Left in
            do { overshoot \<leftarrow> point_sub p (fst start);
                 d \<leftarrow> (case item of None \<Rightarrow> Some point_zero | Some c \<Rightarrow> slice_point_to_point_utf16 c overshoot);
                 Some (point_add (snd start) d) }))"

definition rope_point_utf16_to_point :: "rope \<Rightarrow> point_utf16 \<Rightarrow> point option" where
  "rope_point_utf16_to_point r p =
     (if point_cmp p (lines_utf16 (rope_summary r)) \<noteq> Less then Some (ts_lines (rope_summary r))
      else do {
        (cur, _) \<leftarrow> cursor_seek (pair_dim point_utf16_dim point_dim) (pair_target (point_cmp p)) Left
                     (cursor_new (pair_dim point_utf16_dim point_dim) (chunks r));
        overshoot \<leftarrow> point_sub p (fst (cursor_start cur));
        item \<leftarrow> cursor_item cur;
        d \<leftarrow> (case item of
                None \<Rightarrow> Some point_zero
              | Some c \<Rightarrow> do { offset \<leftarrow> slice_point_utf16_to_offset c overshoot; slice_offset_to_point c offset });
        Some (point_add (snd (cursor_start cur)) d) })"

definition rope_point_to_offset :: "rope \<Rightarrow> point \<Rightarrow> nat option" where
  "rope_point_to_offset r p =
     (if point_cmp p (ts_lines (rope_summary r)) \<noteq> Less then Some (ts_len (rope_summary r))
      else (let (start, _, item) = st_find (pair_dim point_dim usize_dim) (chunks r) (pair_target (point_cmp p)) Left in
            do { overshoot \<leftarrow> point_sub p (fst start);
                 d \<leftarrow> (case item of None \<Rightarrow> Some 0 | Some c \<Rightarrow> slice_point_to_offset c overshoot);
                 Some (snd start + d) }))"

definition rope_point_to_offset_utf16 :: "rope \<Rightarrow> point \<Rightarrow> offset_utf16 option" where
  "rope_point_to_offset_utf16 r p =
     (if point_cmp p (ts_lines (rope_summary r)) \<noteq> Less then Some (ts_len_utf16 (rope_summary r))
      else do {
        (cur, _) \<leftarrow> cursor_seek (pair_dim point_dim utf16_dim) (pair_target (point_cmp p)) Left
                     (cursor_new (pair_dim point_dim utf16_dim) (chunks r));
        overshoot \<leftarrow> point_sub p (fst (cursor_start cur));
        item \<leftarrow> cursor_item cur;
        d \<leftarrow> (case item of None \<Rightarrow> Some 0 | Some c \<Rightarrow> slice_point_to_offset_utf16 c overshoot);
        Some (snd (cursor_start cur) + d) })"

text \<open>
  In the two conversions below the flag \<open>clip\<close> chooses between a log message and none (in a release build),
  so \<open>point_utf16_to_offset\<close> and \<open>unclipped_point_utf16_to_offset\<close> are the same function.
\<close>

definition rope_point_utf16_to_offset :: "rope \<Rightarrow> point_utf16 \<Rightarrow> nat option" where
  "rope_point_utf16_to_offset r p =
     (if point_cmp p (lines_utf16 (rope_summary r)) \<noteq> Less then Some (ts_len (rope_summary r))
      else (let (start, _, item) = st_find (pair_dim point_utf16_dim usize_dim) (chunks r) (pair_target (point_cmp p)) Left in
            do { overshoot \<leftarrow> point_sub p (fst start);
                 d \<leftarrow> (case item of None \<Rightarrow> Some 0 | Some c \<Rightarrow> slice_point_utf16_to_offset c overshoot);
                 Some (snd start + d) }))"

definition rope_point_utf16_to_offset_utf16 :: "rope \<Rightarrow> point_utf16 \<Rightarrow> offset_utf16 option" where
  "rope_point_utf16_to_offset_utf16 r p =
     (if point_cmp p (lines_utf16 (rope_summary r)) \<noteq> Less then Some (ts_len_utf16 (rope_summary r))
      else do {
        (cur, _) \<leftarrow> cursor_seek (pair_dim point_utf16_dim utf16_dim) (pair_target (point_cmp p)) Left
                     (cursor_new (pair_dim point_utf16_dim utf16_dim) (chunks r));
        overshoot \<leftarrow> point_sub p (fst (cursor_start cur));
        item \<leftarrow> cursor_item cur;
        d \<leftarrow> (case item of
                None \<Rightarrow> Some 0
              | Some c \<Rightarrow> do { offset \<leftarrow> slice_point_utf16_to_offset c overshoot;
                             Some (slice_offset_to_offset_utf16 c offset) });
        Some (snd (cursor_start cur) + d) })"

definition rope_unclipped_point_utf16_to_point :: "rope \<Rightarrow> point_utf16 \<Rightarrow> point option" where
  "rope_unclipped_point_utf16_to_point r p =
     (if point_cmp p (lines_utf16 (rope_summary r)) \<noteq> Less then Some (ts_lines (rope_summary r))
      else (let (start, _, item) = st_find (pair_dim point_utf16_dim point_dim) (chunks r) (pair_target (point_cmp p)) Left in
            do { overshoot \<leftarrow> point_sub p (fst start);
                 d \<leftarrow> (case item of None \<Rightarrow> Some point_zero | Some c \<Rightarrow> slice_unclipped_point_utf16_to_point c overshoot);
                 Some (point_add (snd start) d) }))"

definition rope_slice_rows :: "rope \<Rightarrow> nat \<Rightarrow> nat \<Rightarrow> rope option" where
  "rope_slice_rows r start_row end_row =
     do { start \<leftarrow> rope_point_to_offset r (point_new start_row 0);
          fin \<leftarrow> rope_point_to_offset r (point_new end_row 0);
          rope_slice r start fin }"

subsection \<open>Clipping\<close>

definition rope_clip_offset :: "rope \<Rightarrow> nat \<Rightarrow> bias \<Rightarrow> nat option" where
  "rope_clip_offset r offset b =
     (case b of Left \<Rightarrow> rope_floor_char_boundary r offset | Right \<Rightarrow> rope_ceil_char_boundary r offset)"

definition rope_clip_offset_utf16 :: "rope \<Rightarrow> offset_utf16 \<Rightarrow> bias \<Rightarrow> offset_utf16 option" where
  "rope_clip_offset_utf16 r offset b =
     (let (start, _, item) = st_find utf16_dim (chunks r) (cmp offset) Right in
      case item of
        Some c \<Rightarrow> do { overshoot \<leftarrow> offset_utf16_sub offset start;
                     d \<leftarrow> slice_clip_offset_utf16 c overshoot b;
                     Some (start + d) }
      | None \<Rightarrow> Some (ts_len_utf16 (rope_summary r)))"

definition rope_clip_point :: "(bytes \<Rightarrow> nat \<Rightarrow> bool) \<Rightarrow> rope \<Rightarrow> point \<Rightarrow> bias \<Rightarrow> point option" where
  "rope_clip_point g r p b =
     (let (start, _, item) = st_find point_dim (chunks r) (point_cmp p) Right in
      case item of
        Some c \<Rightarrow> do { overshoot \<leftarrow> point_sub p start;
                     d \<leftarrow> slice_clip_point g c overshoot b;
                     Some (point_add start d) }
      | None \<Rightarrow> Some (ts_lines (rope_summary r)))"

definition rope_clip_point_utf16 :: "rope \<Rightarrow> point_utf16 \<Rightarrow> bias \<Rightarrow> point_utf16 option" where
  "rope_clip_point_utf16 r p b =
     (let (start, _, item) = st_find point_utf16_dim (chunks r) (point_cmp p) Right in
      case item of
        Some c \<Rightarrow> do { overshoot \<leftarrow> point_sub p start;
                     d \<leftarrow> slice_clip_point_utf16 c overshoot b;
                     Some (point_add start d) }
      | None \<Rightarrow> Some (lines_utf16 (rope_summary r)))"

definition rope_line_len :: "(bytes \<Rightarrow> nat \<Rightarrow> bool) \<Rightarrow> rope \<Rightarrow> nat \<Rightarrow> nat option" where
  "rope_line_len g r row_ix = map_option column (rope_clip_point g r (point_new row_ix (2 ^ 32 - 1)) Left)"

text \<open>\<open>BufferSnapshot::text_summary_for_range\<close> on the visible text, for a range of offsets.\<close>

definition text_summary_for_range :: "'d text_dimension \<Rightarrow> rope \<Rightarrow> nat \<Rightarrow> nat \<Rightarrow> 'd option" where
  "text_summary_for_range T visible_text range_start range_end =
     do { cur \<leftarrow> rc_new visible_text range_start;
          (_, d) \<leftarrow> rc_summary T cur range_end;
          Some d }"

end
