(* ===== verification/History.thy ===== *)
theory History
  imports UndoMap TreeMap Patch Rope
begin

section \<open>Undo history (crates/text/src/text.rs, \<open>History\<close>)\<close>

text \<open>
  The stacks of transactions of a buffer and the operations it has seen. The top of a stack is the
  end of its list, as in the code's vectors. A failed assertion, an \<open>unwrap\<close> of \<open>None\<close> and a
  subtraction below zero are \<open>None\<close>. Instants and durations are nanoseconds; the difference of two
  instants saturates at zero, as \<open>Instant - Instant\<close> does.
\<close>

type_synonym instant = nat

type_synonym transaction_id = lamport

record transaction =
  tx_id :: transaction_id
  edit_ids :: "lamport list"
  tx_start :: global

record history_entry =
  transaction_of :: transaction
  first_edit_at :: instant
  last_edit_at :: instant
  suppress_grouping :: bool

record edit_operation =
  edit_timestamp :: lamport
  edit_version :: global
  edit_ranges :: "range list"
  edit_new_text :: "bytes list"

datatype operation = Edit edit_operation | Undo undo_operation

fun op_timestamp :: "operation \<Rightarrow> lamport" where
  "op_timestamp (Edit e) = edit_timestamp e"
| "op_timestamp (Undo u) = undo_timestamp u"

record history =
  base_text :: rope
  operations :: "(lamport, operation) tree_map"
  undo_stack :: "history_entry list"
  redo_stack :: "history_entry list"
  transaction_depth :: nat
  group_interval :: nat

definition merge_in :: "transaction \<Rightarrow> transaction \<Rightarrow> transaction" where
  "merge_in self other = self\<lparr>edit_ids := edit_ids self @ edit_ids other\<rparr>"

definition transaction_id_of :: "history_entry \<Rightarrow> transaction_id" where
  "transaction_id_of e = tx_id (transaction_of e)"

definition history_new :: "rope \<Rightarrow> history" where
  "history_new base = \<lparr>base_text = base, operations = tm_default, undo_stack = [], redo_stack = [],
     transaction_depth = 0, group_interval = 300000000\<rparr>"

definition history_push :: "operation \<Rightarrow> history \<Rightarrow> history option" where
  "history_push op h = do { m \<leftarrow> tm_insert (operations h) (op_timestamp op) op; Some (h\<lparr>operations := m\<rparr>) }"

definition new_entry :: "transaction \<Rightarrow> instant \<Rightarrow> history_entry" where
  "new_entry t now = \<lparr>transaction_of = t, first_edit_at = now, last_edit_at = now, suppress_grouping = False\<rparr>"

text \<open>Transactions nest: only the outermost one makes an entry.\<close>

definition start_transaction ::
  "global \<Rightarrow> instant \<Rightarrow> lamport \<Rightarrow> history \<Rightarrow> history \<times> lamport \<times> transaction_id option" where
  "start_transaction start now clock h =
     (let h1 = h\<lparr>transaction_depth := transaction_depth h + 1\<rparr> in
      if transaction_depth h1 = 1 then
        (let (tid, clock') = tick clock in
         (h1\<lparr>undo_stack := undo_stack h1 @ [new_entry \<lparr>tx_id = tid, edit_ids = [], tx_start = start\<rparr> now]\<rparr>,
          clock', Some tid))
      else (h1, clock, None))"

definition end_transaction :: "instant \<Rightarrow> history \<Rightarrow> (history \<times> history_entry option) option" where
  "end_transaction now h =
     do { d \<leftarrow> checked_sub (transaction_depth h) 1;
          let h1 = h\<lparr>transaction_depth := d\<rparr>;
          (if d = 0 then
             do { l \<leftarrow> vec_last (undo_stack h1);
                  (if edit_ids (transaction_of l) = [] then Some (h1\<lparr>undo_stack := butlast (undo_stack h1)\<rparr>, None)
                   else (let entry = l\<lparr>last_edit_at := now\<rparr>
                         in Some (h1\<lparr>redo_stack := [], undo_stack := butlast (undo_stack h1) @ [entry]\<rparr>, Some entry))) }
           else Some (h1, None)) }"

definition group_trailing :: "nat \<Rightarrow> history \<Rightarrow> (history \<times> transaction_id option) option" where
  "group_trailing n h =
     do { new_len \<leftarrow> checked_sub (length (undo_stack h)) n;
          let keep = take new_len (undo_stack h);
          let merge = drop new_len (undo_stack h);
          let keep' = (case vec_last keep of
             None \<Rightarrow> keep
           | Some l \<Rightarrow>
               (let l1 = l\<lparr>transaction_of := (transaction_of l)\<lparr>edit_ids :=
                            edit_ids (transaction_of l) @ concat (map (\<lambda>e. edit_ids (transaction_of e)) merge)\<rparr>\<rparr>;
                    l2 = (case vec_last merge of None \<Rightarrow> l1 | Some e \<Rightarrow> l1\<lparr>last_edit_at := last_edit_at e\<rparr>)
                in butlast keep @ [l2]));
          Some (h\<lparr>undo_stack := keep'\<rparr>, map_option (\<lambda>e. tx_id (transaction_of e)) (vec_last keep')) }"

text \<open>How many entries below the top one are close enough in time, walking down the stack.\<close>

fun group_count :: "nat \<Rightarrow> history_entry \<Rightarrow> history_entry list \<Rightarrow> nat" where
  "group_count interval entry [] = 0"
| "group_count interval entry (prev_entry # rest) =
     (if \<not> suppress_grouping prev_entry \<and> first_edit_at entry - last_edit_at prev_entry < interval
      then Suc (group_count interval prev_entry rest) else 0)"

definition group :: "history \<Rightarrow> (history \<times> transaction_id option) option" where
  "group h =
     (case rev (undo_stack h) of
        [] \<Rightarrow> group_trailing 0 h
      | entry # rest \<Rightarrow> group_trailing (group_count (group_interval h) entry rest) h)"

fun until_count :: "transaction_id \<Rightarrow> history_entry list \<Rightarrow> nat option" where
  "until_count tid [] = None"
| "until_count tid (entry # rest) =
     (if transaction_id_of entry = tid then Some 0
      else if suppress_grouping entry then None
      else map_option Suc (until_count tid rest))"

definition group_until :: "transaction_id \<Rightarrow> history \<Rightarrow> history option" where
  "group_until tid h =
     (case until_count tid (rev (undo_stack h)) of
        None \<Rightarrow> Some h
      | Some count \<Rightarrow> do { (h', _) \<leftarrow> group_trailing count h; Some h' })"

definition finalize_last_transaction :: "history \<Rightarrow> history \<times> transaction option" where
  "finalize_last_transaction h =
     (case vec_last (undo_stack h) of
        None \<Rightarrow> (h, None)
      | Some l \<Rightarrow> (h\<lparr>undo_stack := butlast (undo_stack h) @ [l\<lparr>suppress_grouping := True\<rparr>]\<rparr>, Some (transaction_of l)))"

definition push_transaction :: "transaction \<Rightarrow> instant \<Rightarrow> history \<Rightarrow> history option" where
  "push_transaction t now h =
     (if transaction_depth h = 0 then Some (h\<lparr>undo_stack := undo_stack h @ [new_entry t now]\<rparr>) else None)"

definition push_empty_transaction ::
  "global \<Rightarrow> instant \<Rightarrow> lamport \<Rightarrow> history \<Rightarrow> (history \<times> lamport \<times> transaction_id) option" where
  "push_empty_transaction start now clock h =
     (if transaction_depth h = 0 then
        (let (tid, clock') = tick clock in
         Some (h\<lparr>undo_stack := undo_stack h @ [new_entry \<lparr>tx_id = tid, edit_ids = [], tx_start = start\<rparr> now]\<rparr>, clock', tid))
      else None)"

definition push_undo :: "lamport \<Rightarrow> history \<Rightarrow> history option" where
  "push_undo op_id h =
     (if transaction_depth h = 0 then None
      else (case tm_get (operations h) op_id of
              Some (Edit _) \<Rightarrow>
                do { l \<leftarrow> vec_last (undo_stack h);
                     Some (h\<lparr>undo_stack := butlast (undo_stack h) @
                       [l\<lparr>transaction_of := (transaction_of l)\<lparr>edit_ids := edit_ids (transaction_of l) @ [op_id]\<rparr>\<rparr>]\<rparr>) }
            | _ \<Rightarrow> Some h))"

definition pop_undo :: "history \<Rightarrow> (history \<times> history_entry option) option" where
  "pop_undo h =
     (if transaction_depth h \<noteq> 0 then None
      else (case vec_last (undo_stack h) of
              None \<Rightarrow> Some (h, None)
            | Some entry \<Rightarrow> Some (h\<lparr>undo_stack := butlast (undo_stack h), redo_stack := redo_stack h @ [entry]\<rparr>, Some entry)))"

definition has_id :: "transaction_id \<Rightarrow> history_entry \<Rightarrow> bool" where
  "has_id tid e \<longleftrightarrow> tx_id (transaction_of e) = tid"

definition remove_from_undo :: "transaction_id \<Rightarrow> history \<Rightarrow> (history \<times> history_entry option) option" where
  "remove_from_undo tid h =
     (if transaction_depth h \<noteq> 0 then None
      else (case rposition (has_id tid) (undo_stack h) of
              None \<Rightarrow> Some (h, None)
            | Some ix \<Rightarrow>
                (let entry = undo_stack h ! ix
                 in Some (h\<lparr>undo_stack := vec_remove (undo_stack h) ix, redo_stack := redo_stack h @ [entry]\<rparr>, Some entry))))"

definition remove_from_undo_until :: "transaction_id \<Rightarrow> history \<Rightarrow> (history \<times> history_entry list) option" where
  "remove_from_undo_until tid h =
     (if transaction_depth h \<noteq> 0 then None
      else (let redo_stack_start_len = length (redo_stack h);
                h' = (case rposition (has_id tid) (undo_stack h) of
                        None \<Rightarrow> h
                      | Some ix \<Rightarrow> h\<lparr>undo_stack := take ix (undo_stack h),
                                    redo_stack := redo_stack h @ rev (drop ix (undo_stack h))\<rparr>)
            in Some (h', drop redo_stack_start_len (redo_stack h'))))"

definition forget :: "transaction_id \<Rightarrow> history \<Rightarrow> (history \<times> transaction option) option" where
  "forget tid h =
     (if transaction_depth h \<noteq> 0 then None
      else (case rposition (has_id tid) (undo_stack h) of
              Some ix \<Rightarrow> Some (h\<lparr>undo_stack := vec_remove (undo_stack h) ix\<rparr>, Some (transaction_of (undo_stack h ! ix)))
            | None \<Rightarrow>
                (case rposition (has_id tid) (redo_stack h) of
                   Some ix \<Rightarrow> Some (h\<lparr>redo_stack := vec_remove (redo_stack h) ix\<rparr>, Some (transaction_of (redo_stack h ! ix)))
                 | None \<Rightarrow> Some (h, None))))"

definition find_transaction :: "transaction_id \<Rightarrow> history \<Rightarrow> transaction option" where
  "find_transaction tid h =
     (case rposition (has_id tid) (undo_stack h) of
        Some ix \<Rightarrow> Some (transaction_of (undo_stack h ! ix))
      | None \<Rightarrow> map_option (\<lambda>ix. transaction_of (redo_stack h ! ix)) (rposition (has_id tid) (redo_stack h)))"

text \<open>\<open>transaction_mut\<close>: the entry it finds, changed by a function; nothing when there is none.\<close>

definition update_entry :: "(transaction \<Rightarrow> transaction) \<Rightarrow> nat \<Rightarrow> history_entry list \<Rightarrow> history_entry list" where
  "update_entry f ix es = es[ix := (es ! ix)\<lparr>transaction_of := f (transaction_of (es ! ix))\<rparr>]"

definition transaction_mut :: "transaction_id \<Rightarrow> (transaction \<Rightarrow> transaction) \<Rightarrow> history \<Rightarrow> history option" where
  "transaction_mut tid f h =
     (case rposition (has_id tid) (undo_stack h) of
        Some ix \<Rightarrow> Some (h\<lparr>undo_stack := update_entry f ix (undo_stack h)\<rparr>)
      | None \<Rightarrow>
          (case rposition (has_id tid) (redo_stack h) of
             Some ix \<Rightarrow> Some (h\<lparr>redo_stack := update_entry f ix (redo_stack h)\<rparr>)
           | None \<Rightarrow> None))"

definition merge_transactions :: "transaction_id \<Rightarrow> transaction_id \<Rightarrow> history \<Rightarrow> history option" where
  "merge_transactions tid destination h =
     do { (h1, forgotten) \<leftarrow> forget tid h;
          (case forgotten of
             None \<Rightarrow> Some h1
           | Some t \<Rightarrow>
               (case transaction_mut destination (\<lambda>d. d\<lparr>edit_ids := edit_ids d @ edit_ids t\<rparr>) h1 of
                  Some h2 \<Rightarrow> Some h2
                | None \<Rightarrow> Some h1)) }"

definition pop_redo :: "history \<Rightarrow> (history \<times> history_entry option) option" where
  "pop_redo h =
     (if transaction_depth h \<noteq> 0 then None
      else (case vec_last (redo_stack h) of
              None \<Rightarrow> Some (h, None)
            | Some entry \<Rightarrow> Some (h\<lparr>redo_stack := butlast (redo_stack h), undo_stack := undo_stack h @ [entry]\<rparr>, Some entry)))"

definition remove_from_redo :: "transaction_id \<Rightarrow> history \<Rightarrow> (history \<times> history_entry list) option" where
  "remove_from_redo tid h =
     (if transaction_depth h \<noteq> 0 then None
      else (let undo_stack_start_len = length (undo_stack h);
                h' = (case rposition (has_id tid) (redo_stack h) of
                        None \<Rightarrow> h
                      | Some ix \<Rightarrow> h\<lparr>redo_stack := take ix (redo_stack h),
                                    undo_stack := undo_stack h @ rev (drop ix (redo_stack h))\<rparr>)
            in Some (h', drop undo_stack_start_len (undo_stack h'))))"

text \<open>\<open>Buffer::end_transaction_at\<close>: ending a transaction groups it with the ones just before it.\<close>

definition end_transaction_at :: "instant \<Rightarrow> history \<Rightarrow> (history \<times> (transaction_id \<times> global) option) option" where
  "end_transaction_at now h =
     do { (h1, entry) \<leftarrow> end_transaction now h;
          (case entry of
             Some e \<Rightarrow> do { (h2, tid) \<leftarrow> group h1; i \<leftarrow> tid; Some (h2, Some (i, tx_start (transaction_of e))) }
           | None \<Rightarrow> Some (h1, None)) }"

end
