(* ===== verification/History_Props.thy ===== *)
theory History_Props
  imports History TreeMap_Correct "HOL-Library.Multiset"
begin

section \<open>The undo history is correct\<close>

text \<open>
  An invariant of the stacks that every operation keeps, round trips between the two stacks, and
  which edits the grouping operations keep.
\<close>

subsection \<open>Every edit of a stack, in order\<close>

definition stack_edits :: "history_entry list \<Rightarrow> lamport list" where
  "stack_edits es = concat (map (\<lambda>e. edit_ids (transaction_of e)) es)"

lemma stack_edits_simps [simp]:
  "stack_edits [] = []" "stack_edits (e # es) = edit_ids (transaction_of e) @ stack_edits es"
  "stack_edits (es @ fs) = stack_edits es @ stack_edits fs"
  by (simp_all add: stack_edits_def)

lemma butlast_vec_last: "vec_last xs = Some x \<longleftrightarrow> xs \<noteq> [] \<and> butlast xs @ [x] = xs"
  by (cases xs rule: rev_cases) (auto simp: vec_last_def)

lemma group_trailing_keeps:
  assumes "n < length (undo_stack h) \<or> n = 0"
  shows "\<exists>es r. group_trailing n h = Some (h\<lparr>undo_stack := es\<rparr>, r) \<and>
    stack_edits es = stack_edits (undo_stack h) \<and> length es = length (undo_stack h) - n \<and>
    map transaction_id_of es = map transaction_id_of (take (length es) (undo_stack h)) \<and>
    r = map_option transaction_id_of (vec_last es)"
proof -
  let ?k = "length (undo_stack h) - n"
  let ?keep = "take ?k (undo_stack h)" and ?merge = "drop ?k (undo_stack h)"
  have le: "n \<le> length (undo_stack h)" using assms by auto
  have split: "undo_stack h = ?keep @ ?merge" by simp
  show ?thesis
  proof (cases "vec_last ?keep")
    case None
    then have "undo_stack h = []" using assms le by (auto simp: vec_last_def split: if_splits)
    then show ?thesis using le by (simp add: group_trailing_def Let_def)
  next
    case (Some l)
    then have keep: "?keep = butlast ?keep @ [l]" by (simp add: butlast_vec_last)
    define l2 where "l2 = (let l1 = l\<lparr>transaction_of := (transaction_of l)\<lparr>edit_ids :=
          edit_ids (transaction_of l) @ concat (map (\<lambda>e. edit_ids (transaction_of e)) ?merge)\<rparr>\<rparr>
        in case vec_last ?merge of None \<Rightarrow> l1 | Some e \<Rightarrow> l1\<lparr>last_edit_at := last_edit_at e\<rparr>)"
    let ?es = "butlast ?keep @ [l2]"
    have l2: "edit_ids (transaction_of l2) = edit_ids (transaction_of l) @ stack_edits ?merge"
        "transaction_id_of l2 = transaction_id_of l"
      by (auto simp: l2_def Let_def stack_edits_def transaction_id_of_def split: option.splits)
    have len: "length ?es = ?k" using arg_cong[OF keep, of length] by simp
    have "stack_edits ?es = stack_edits (butlast ?keep @ [l]) @ stack_edits ?merge" by (simp add: l2)
    also have "\<dots> = stack_edits (?keep @ ?merge)" by (simp only: keep[symmetric] stack_edits_simps(3))
    finally have ed: "stack_edits ?es = stack_edits (undo_stack h)" by simp
    have "map transaction_id_of ?es = map transaction_id_of (butlast ?keep @ [l])" by (simp add: l2)
    then have ids: "map transaction_id_of ?es = map transaction_id_of ?keep" by (simp only: keep[symmetric])
    have "group_trailing n h = Some (h\<lparr>undo_stack := ?es\<rparr>, Some (transaction_id_of l2))"
      using le Some by (simp add: group_trailing_def Let_def l2_def transaction_id_of_def split: option.splits)
    moreover have "Some (transaction_id_of l2) = map_option transaction_id_of (vec_last ?es)" by simp
    moreover have "map transaction_id_of ?es = map transaction_id_of (take (length ?es) (undo_stack h))"
      unfolding len by (rule ids)
    ultimately show ?thesis using ed len by blast
  qed
qed

lemma group_count_le: "group_count iv e es \<le> length es"
  by (induction es arbitrary: e) auto

lemma until_count_less: "until_count tid es = Some n \<Longrightarrow> n < length es"
  by (induction es arbitrary: n) (auto split: if_splits)

lemma group_keeps:
  "\<exists>es r. group h = Some (h\<lparr>undo_stack := es\<rparr>, r) \<and> stack_edits es = stack_edits (undo_stack h) \<and>
     length es \<le> length (undo_stack h) \<and> (undo_stack h \<noteq> [] \<longrightarrow> es \<noteq> []) \<and>
     map transaction_id_of es = map transaction_id_of (take (length es) (undo_stack h)) \<and>
     r = map_option transaction_id_of (vec_last es)"
proof (cases "rev (undo_stack h)")
  case Nil
  then show ?thesis using group_trailing_keeps[of 0 h] by (auto simp: group_def)
next
  case (Cons e rest)
  let ?n = "group_count (group_interval h) e rest"
  have "length (undo_stack h) = Suc (length rest)" using arg_cong[OF Cons, of length] by simp
  then have n: "?n < length (undo_stack h)" using group_count_le[of "group_interval h" e rest] by simp
  then show ?thesis using group_trailing_keeps[of ?n h] Cons by (auto simp: group_def)
qed

lemma group_until_keeps:
  "\<exists>es. group_until tid h = Some (h\<lparr>undo_stack := es\<rparr>) \<and> stack_edits es = stack_edits (undo_stack h) \<and>
     length es \<le> length (undo_stack h) \<and> (undo_stack h \<noteq> [] \<longrightarrow> es \<noteq> []) \<and>
     map transaction_id_of es = map transaction_id_of (take (length es) (undo_stack h))"
proof (cases "until_count tid (rev (undo_stack h))")
  case None
  then show ?thesis by (auto simp: group_until_def intro: exI[of _ "undo_stack h"])
next
  case (Some n)
  then have n: "n < length (undo_stack h)" using until_count_less by fastforce
  then show ?thesis using group_trailing_keeps[of n h] Some by (auto simp: group_until_def)
qed

subsection \<open>The history as a state machine\<close>

text \<open>
  One event per operation of \<open>History\<close>, on the history together with the buffer's clock, which hands
  out transaction ids.
\<close>

datatype history_event =
  StartTransaction global instant | EndTransaction instant | PushOperation operation | PushUndo lamport
  | Group | GroupUntil transaction_id | Finalize | PushTransaction transaction instant
  | PushEmptyTransaction global instant | PopUndo | PopRedo | RemoveFromUndo transaction_id
  | RemoveFromUndoUntil transaction_id | RemoveFromRedo transaction_id | Forget transaction_id
  | MergeTransactions transaction_id transaction_id

fun history_apply :: "history_event \<Rightarrow> history \<times> lamport \<Rightarrow> (history \<times> lamport) option" where
  "history_apply (StartTransaction v now) (h, c) = (let (h', c', _) = start_transaction v now c h in Some (h', c'))"
| "history_apply (EndTransaction now) (h, c) = map_option (\<lambda>(h', _). (h', c)) (end_transaction_at now h)"
| "history_apply (PushOperation op) (h, c) = map_option (\<lambda>h'. (h', c)) (history_push op h)"
| "history_apply (PushUndo t) (h, c) = map_option (\<lambda>h'. (h', c)) (push_undo t h)"
| "history_apply Group (h, c) = map_option (\<lambda>(h', _). (h', c)) (group h)"
| "history_apply (GroupUntil t) (h, c) = map_option (\<lambda>h'. (h', c)) (group_until t h)"
| "history_apply Finalize (h, c) = Some (fst (finalize_last_transaction h), c)"
| "history_apply (PushTransaction t now) (h, c) = map_option (\<lambda>h'. (h', c)) (push_transaction t now h)"
| "history_apply (PushEmptyTransaction v now) (h, c) = map_option (\<lambda>(h', c', _). (h', c')) (push_empty_transaction v now c h)"
| "history_apply PopUndo (h, c) = map_option (\<lambda>(h', _). (h', c)) (pop_undo h)"
| "history_apply PopRedo (h, c) = map_option (\<lambda>(h', _). (h', c)) (pop_redo h)"
| "history_apply (RemoveFromUndo t) (h, c) = map_option (\<lambda>(h', _). (h', c)) (remove_from_undo t h)"
| "history_apply (RemoveFromUndoUntil t) (h, c) = map_option (\<lambda>(h', _). (h', c)) (remove_from_undo_until t h)"
| "history_apply (RemoveFromRedo t) (h, c) = map_option (\<lambda>(h', _). (h', c)) (remove_from_redo t h)"
| "history_apply (Forget t) (h, c) = map_option (\<lambda>(h', _). (h', c)) (forget t h)"
| "history_apply (MergeTransactions t d) (h, c) = map_option (\<lambda>h'. (h', c)) (merge_transactions t d h)"

text \<open>The transaction depth an operation asserts.\<close>

fun depth_ok :: "history_event \<Rightarrow> nat \<Rightarrow> bool" where
  "depth_ok (EndTransaction now) d \<longleftrightarrow> d \<noteq> 0"
| "depth_ok (PushUndo t) d \<longleftrightarrow> d \<noteq> 0"
| "depth_ok (StartTransaction v now) d \<longleftrightarrow> True"
| "depth_ok (PushOperation op) d \<longleftrightarrow> True"
| "depth_ok Group d \<longleftrightarrow> True"
| "depth_ok (GroupUntil t) d \<longleftrightarrow> True"
| "depth_ok Finalize d \<longleftrightarrow> True"
| "depth_ok e d \<longleftrightarrow> d = 0"

text \<open>
  What the caller provides: the clock does not wrap where an id is drawn from it, a pushed
  transaction has a past id that the history does not hold, and the operations fit their tree.
\<close>

definition history_ids :: "history \<Rightarrow> transaction_id list" where
  "history_ids h = map transaction_id_of (undo_stack h @ redo_stack h)"

fun inputs_ok :: "history_event \<Rightarrow> history \<times> lamport \<Rightarrow> bool" where
  "inputs_ok (StartTransaction v now) (h, c) \<longleftrightarrow> lvalue c \<noteq> - 1"
| "inputs_ok (PushEmptyTransaction v now) (h, c) \<longleftrightarrow> lvalue c \<noteq> - 1"
| "inputs_ok (PushTransaction t now) (h, c) \<longleftrightarrow> tx_id t < c \<and> tx_id t \<notin> set (history_ids h)"
| "inputs_ok (PushOperation op) (h, c) \<longleftrightarrow> tm_fits (operations h)"
| "inputs_ok e w \<longleftrightarrow> True"

definition history_inv :: "history \<times> lamport \<Rightarrow> bool" where
  "history_inv w \<longleftrightarrow> (case w of (h, c) \<Rightarrow>
     tm_wf (operations h) \<and> (transaction_depth h \<noteq> 0 \<longrightarrow> undo_stack h \<noteq> []) \<and>
     distinct (history_ids h) \<and> (\<forall>t\<in>set (history_ids h). t < c))"

lemma distinct_mset_mono: "mset xs \<subseteq># mset ys \<Longrightarrow> distinct ys \<Longrightarrow> distinct xs \<and> set xs \<subseteq> set ys"
proof -
  assume "mset xs \<subseteq># mset ys" "distinct ys"
  then obtain zs where "mset ys = mset (xs @ zs)" by (metis ex_mset mset_append subset_mset.le_iff_add)
  with \<open>distinct ys\<close> have "distinct (xs @ zs)" "set ys = set (xs @ zs)"
    using mset_eq_imp_distinct_iff mset_eq_setD by metis+
  then show ?thesis by auto
qed

text \<open>Operations that add no transaction keep the invariant as long as they keep an open one.\<close>

lemma history_inv_sub:
  assumes "history_inv (h, c)" "mset (history_ids h') \<subseteq># mset (history_ids h)"
    and "operations h' = operations h" "transaction_depth h' \<noteq> 0 \<longrightarrow> undo_stack h' \<noteq> []"
  shows "history_inv (h', c)"
  using assms distinct_mset_mono[OF assms(2)] by (auto simp: history_inv_def)

lemma history_inv_push:
  assumes "history_inv (h, c)" "c \<le> c'" "t < c'" "t \<notin> set (history_ids h)" "transaction_id_of e = t"
  shows "history_inv (h\<lparr>undo_stack := undo_stack h @ [e]\<rparr>, c')"
    "history_inv (h\<lparr>transaction_depth := d, undo_stack := undo_stack h @ [e]\<rparr>, c')"
  using assms by (auto simp: history_inv_def history_ids_def intro: less_le_trans)

lemma tick_fresh:
  assumes "history_inv (h, c)" "lvalue c \<noteq> - 1"
  shows "c < snd (tick c)" "c \<notin> set (history_ids h)"
  using assms u32_increases[of "lvalue c"] by (auto simp: history_inv_def tick_def lamport_less_iff)

lemma vec_remove_split: "ix < length xs \<Longrightarrow> mset xs = add_mset (xs ! ix) (mset (vec_remove xs ix))"
proof -
  assume "ix < length xs"
  then have "mset xs = mset (take ix xs @ xs ! ix # drop (Suc ix) xs)" by (simp add: id_take_nth_drop[symmetric])
  then show ?thesis by (simp add: vec_remove_def)
qed

lemma forget_sub:
  assumes "transaction_depth h = 0"
  shows "\<exists>h' r. forget tid h = Some (h', r) \<and> mset (history_ids h') \<subseteq># mset (history_ids h) \<and>
     operations h' = operations h \<and> transaction_depth h' = 0"
proof (cases "rposition (has_id tid) (undo_stack h)")
  case (Some ix)
  then have "ix < length (undo_stack h)" by (simp add: rposition_Some)
  from vec_remove_split[OF this] Some assms show ?thesis
    by (simp add: forget_def history_ids_def)
next
  case None
  note undo = None
  show ?thesis
  proof (cases "rposition (has_id tid) (redo_stack h)")
    case (Some ix)
    then have "ix < length (redo_stack h)" by (simp add: rposition_Some)
    from vec_remove_split[OF this] undo Some assms show ?thesis
      by (simp add: forget_def history_ids_def)
  qed (use undo assms in \<open>simp add: forget_def\<close>)
qed

lemma update_entry_ids:
  assumes "\<And>t. tx_id (f t) = tx_id t" "ix < length es"
  shows "map transaction_id_of (update_entry f ix es) = map transaction_id_of es"
  using assms by (simp add: update_entry_def transaction_id_of_def map_update list_update_same_conv)

lemma transaction_mut_ids:
  assumes "transaction_mut tid f h = Some h'" "\<And>t. tx_id (f t) = tx_id t"
  shows "history_ids h' = history_ids h" "operations h' = operations h" "transaction_depth h' = transaction_depth h"
  using assms by (auto simp: transaction_mut_def history_ids_def rposition_Some update_entry_ids split: option.splits)

lemma start_transaction_inv:
  assumes "history_inv (h, c)" "lvalue c \<noteq> - 1" "start_transaction v now c h = (h', c', r)"
  shows "history_inv (h', c')"
proof (cases "transaction_depth h = 0")
  case True
  let ?e = "new_entry \<lparr>tx_id = c, edit_ids = [], tx_start = v\<rparr> now"
  have "h' = h\<lparr>transaction_depth := 1, undo_stack := undo_stack h @ [?e]\<rparr>" "c' = snd (tick c)"
    using True assms(3) by (auto simp: start_transaction_def tick_def Let_def)
  moreover have "transaction_id_of ?e = c" by (simp add: transaction_id_of_def new_entry_def)
  ultimately show ?thesis
    using history_inv_push(2)[OF assms(1) _ tick_fresh(1)[OF assms(1,2)] tick_fresh(2)[OF assms(1,2)]]
      tick_fresh(1)[OF assms(1,2)] by (simp add: less_imp_le)
next
  case False
  then have "h' = h\<lparr>transaction_depth := transaction_depth h + 1\<rparr>" "c' = c"
    using assms(3) by (auto simp: start_transaction_def Let_def)
  with assms(1) False show ?thesis by (auto simp: history_inv_def history_ids_def)
qed

lemma end_transaction_result:
  assumes "history_inv (h, c)" "transaction_depth h \<noteq> 0"
  obtains h' r where "end_transaction now h = Some (h', r)" "history_inv (h', c)" "r \<noteq> None \<longrightarrow> undo_stack h' \<noteq> []"
proof -
  have ne: "undo_stack h \<noteq> []" using assms by (simp add: history_inv_def)
  then obtain l where l: "vec_last (undo_stack h) = Some l" "undo_stack h = butlast (undo_stack h) @ [l]"
    by (metis butlast_vec_last vec_last_def)
  have ids: "history_ids h = map transaction_id_of (butlast (undo_stack h)) @ transaction_id_of l # map transaction_id_of (redo_stack h)"
    unfolding history_ids_def by (subst l(2)) simp
  show thesis
  proof (cases "transaction_depth h = 1")
    case False
    then have "end_transaction now h = Some (h\<lparr>transaction_depth := transaction_depth h - 1\<rparr>, None)"
      using assms(2) by (simp add: end_transaction_def Let_def)
    moreover have "history_inv (h\<lparr>transaction_depth := transaction_depth h - 1\<rparr>, c)"
      using ne by (intro history_inv_sub[OF assms(1)]) (simp_all add: history_ids_def)
    ultimately show thesis by (intro that) auto
  next
    case True
    show thesis
    proof (cases "edit_ids (transaction_of l) = []")
      case empty: True
      let ?h = "h\<lparr>transaction_depth := 0, undo_stack := butlast (undo_stack h)\<rparr>"
      have "end_transaction now h = Some (?h, None)" using True l(1) empty by (simp add: end_transaction_def Let_def)
      moreover have "history_inv (?h, c)"
        by (intro history_inv_sub[OF assms(1)]) (simp_all add: ids, simp add: history_ids_def)
      ultimately show thesis by (intro that) auto
    next
      case False
      let ?e = "l\<lparr>last_edit_at := now\<rparr>"
      let ?h = "h\<lparr>transaction_depth := 0, redo_stack := [], undo_stack := butlast (undo_stack h) @ [?e]\<rparr>"
      have "end_transaction now h = Some (?h, Some ?e)" using True l(1) False by (simp add: end_transaction_def Let_def)
      moreover have "history_inv (?h, c)"
        by (intro history_inv_sub[OF assms(1)]) (simp_all add: ids, simp add: history_ids_def transaction_id_of_def)
      ultimately show thesis by (intro that) auto
    qed
  qed
qed

lemma group_inv:
  assumes "history_inv (h, c)" "es \<noteq> [] \<or> undo_stack h = []"
    and "map transaction_id_of es = map transaction_id_of (take (length es) (undo_stack h))"
  shows "history_inv (h\<lparr>undo_stack := es\<rparr>, c)"
proof (rule history_inv_sub[OF assms(1)])
  let ?n = "length es"
  have "mset (map transaction_id_of (undo_stack h)) =
      mset (map transaction_id_of (take ?n (undo_stack h))) + mset (map transaction_id_of (drop ?n (undo_stack h)))"
    by (metis append_take_drop_id map_append mset_append)
  then show "mset (history_ids (h\<lparr>undo_stack := es\<rparr>)) \<subseteq># mset (history_ids h)"
    unfolding history_ids_def using assms(3) by simp
qed (use assms in \<open>auto simp: history_inv_def\<close>)

lemma end_transaction_at_inv:
  assumes "history_inv (h, c)" "transaction_depth h \<noteq> 0"
  shows "\<exists>h' r. end_transaction_at now h = Some (h', r) \<and> history_inv (h', c)"
proof -
  obtain h1 r where h1: "end_transaction now h = Some (h1, r)" "history_inv (h1, c)" "r \<noteq> None \<longrightarrow> undo_stack h1 \<noteq> []"
    using assms by (rule end_transaction_result)
  show ?thesis
  proof (cases r)
    case None
    with h1 show ?thesis by (simp add: end_transaction_at_def)
  next
    case (Some e)
    obtain es i where g: "group h1 = Some (h1\<lparr>undo_stack := es\<rparr>, i)" "es \<noteq> []" "i = map_option transaction_id_of (vec_last es)"
        "map transaction_id_of es = map transaction_id_of (take (length es) (undo_stack h1))"
      using group_keeps[of h1] h1(3) Some by blast
    have "history_inv (h1\<lparr>undo_stack := es\<rparr>, c)" using g by (intro group_inv[OF h1(2)]) auto
    with g Some h1 show ?thesis by (simp add: end_transaction_at_def vec_last_def)
  qed
qed

lemma push_undo_inv:
  assumes "history_inv (h, c)" "transaction_depth h \<noteq> 0"
  shows "\<exists>h'. push_undo t h = Some h' \<and> history_inv (h', c)"
proof -
  have ne: "undo_stack h \<noteq> []" using assms by (simp add: history_inv_def)
  then obtain l where l: "vec_last (undo_stack h) = Some l" "undo_stack h = butlast (undo_stack h) @ [l]"
    by (metis butlast_vec_last vec_last_def)
  let ?e = "l\<lparr>transaction_of := (transaction_of l)\<lparr>edit_ids := edit_ids (transaction_of l) @ [t]\<rparr>\<rparr>"
  let ?es = "butlast (undo_stack h) @ [?e]"
  have "map transaction_id_of ?es = map transaction_id_of (butlast (undo_stack h) @ [l])"
    by (simp add: transaction_id_of_def)
  then have "map transaction_id_of ?es = map transaction_id_of (undo_stack h)" by (simp only: l(2)[symmetric])
  moreover have "length ?es = length (undo_stack h)" using ne by simp
  ultimately have "history_inv (h\<lparr>undo_stack := ?es\<rparr>, c)" by (intro group_inv[OF assms(1)]) simp_all
  with assms l(1) show ?thesis by (auto simp: push_undo_def split: option.split operation.split)
qed

lemma stack_moves_inv:
  assumes "history_inv (h, c)" "transaction_depth h = 0"
  shows "\<exists>h' r. pop_undo h = Some (h', r) \<and> history_inv (h', c)" "\<exists>h' r. pop_redo h = Some (h', r) \<and> history_inv (h', c)"
    "\<exists>h' r. remove_from_undo t h = Some (h', r) \<and> history_inv (h', c)"
    "\<exists>h' r. remove_from_undo_until t h = Some (h', r) \<and> history_inv (h', c)"
    "\<exists>h' r. remove_from_redo t h = Some (h', r) \<and> history_inv (h', c)"
proof -
  have move: "history_inv (h\<lparr>undo_stack := us, redo_stack := rs\<rparr>, c)" "history_inv (h\<lparr>redo_stack := rs, undo_stack := us\<rparr>, c)"
    if "mset us + mset rs = mset (undo_stack h) + mset (redo_stack h)" for us rs
    using assms that by (auto intro!: history_inv_sub[OF assms(1)] simp: history_ids_def simp flip: image_mset_union)
  have split: "mset (butlast xs) + {#last xs#} = mset xs" if "xs \<noteq> []" for xs :: "history_entry list"
    using that by (metis append_butlast_last_id mset.simps(1) mset.simps(2) mset_append)
  have cut: "mset (take ix xs) + mset (drop ix xs) = mset xs" for ix and xs :: "history_entry list"
    by (metis append_take_drop_id mset_append)
  have "history_inv (h\<lparr>undo_stack := butlast (undo_stack h), redo_stack := redo_stack h @ [last (undo_stack h)]\<rparr>, c)"
    if "undo_stack h \<noteq> []" by (rule move(1)) (use split[OF that] in \<open>simp flip: add.assoc\<close>)
  then show "\<exists>h' r. pop_undo h = Some (h', r) \<and> history_inv (h', c)"
    using assms by (simp add: pop_undo_def vec_last_def)
  have "history_inv (h\<lparr>redo_stack := butlast (redo_stack h), undo_stack := undo_stack h @ [last (redo_stack h)]\<rparr>, c)"
    if "redo_stack h \<noteq> []" by (rule move(2)) (use split[OF that] in \<open>simp add: add.assoc add.commute[of "{#_#}"]\<close>)
  then show "\<exists>h' r. pop_redo h = Some (h', r) \<and> history_inv (h', c)"
    using assms by (simp add: pop_redo_def vec_last_def)
  have "history_inv (h\<lparr>undo_stack := vec_remove (undo_stack h) ix, redo_stack := redo_stack h @ [undo_stack h ! ix]\<rparr>, c)"
    if "ix < length (undo_stack h)" for ix by (rule move(1)) (simp add: vec_remove_split[OF that])
  then show "\<exists>h' r. remove_from_undo t h = Some (h', r) \<and> history_inv (h', c)"
    using assms by (auto simp: remove_from_undo_def Let_def rposition_Some split: option.split)
  have "history_inv (h\<lparr>undo_stack := take ix (undo_stack h), redo_stack := redo_stack h @ rev (drop ix (undo_stack h))\<rparr>, c)" for ix
    by (rule move(1)) (simp add: cut[of ix "undo_stack h", symmetric])
  then show "\<exists>h' r. remove_from_undo_until t h = Some (h', r) \<and> history_inv (h', c)"
    using assms by (auto simp: remove_from_undo_until_def Let_def split: option.split)
  have "history_inv (h\<lparr>redo_stack := take ix (redo_stack h), undo_stack := undo_stack h @ rev (drop ix (redo_stack h))\<rparr>, c)" for ix
    by (rule move(2)) (simp add: cut[of ix "redo_stack h", symmetric])
  then show "\<exists>h' r. remove_from_redo t h = Some (h', r) \<and> history_inv (h', c)"
    using assms by (auto simp: remove_from_redo_def Let_def split: option.split)
qed

lemma finalize_inv: "history_inv (h, c) \<Longrightarrow> history_inv (fst (finalize_last_transaction h), c)"
proof -
  assume inv: "history_inv (h, c)"
  show ?thesis
  proof (cases "vec_last (undo_stack h)")
    case None
    with inv show ?thesis by (simp add: finalize_last_transaction_def)
  next
    case (Some l)
    then have l: "undo_stack h \<noteq> []" "undo_stack h = butlast (undo_stack h) @ [l]" by (simp_all add: butlast_vec_last)
    let ?es = "butlast (undo_stack h) @ [l\<lparr>suppress_grouping := True\<rparr>]"
    have "map transaction_id_of ?es = map transaction_id_of (butlast (undo_stack h) @ [l])"
      by (simp add: transaction_id_of_def)
    then have "map transaction_id_of ?es = map transaction_id_of (undo_stack h)" by (simp only: l(2)[symmetric])
    moreover have "length ?es = length (undo_stack h)" using l(1) by simp
    ultimately have "history_inv (h\<lparr>undo_stack := ?es\<rparr>, c)" by (intro group_inv[OF inv]) simp_all
    with Some show ?thesis by (simp add: finalize_last_transaction_def)
  qed
qed

lemma forget_inv:
  assumes "history_inv (h, c)" "transaction_depth h = 0"
  shows "\<exists>h' r. forget t h = Some (h', r) \<and> history_inv (h', c) \<and> transaction_depth h' = 0"
proof -
  obtain h' r where h': "forget t h = Some (h', r)" "mset (history_ids h') \<subseteq># mset (history_ids h)"
      "operations h' = operations h" "transaction_depth h' = 0"
    using forget_sub[OF assms(2)] by blast
  then have "history_inv (h', c)" by (intro history_inv_sub[OF assms(1)]) simp_all
  with h' show ?thesis by blast
qed

lemma merge_transactions_inv:
  assumes "history_inv (h, c)" "transaction_depth h = 0"
  shows "\<exists>h'. merge_transactions t d h = Some h' \<and> history_inv (h', c)"
proof -
  obtain h1 r where h1: "forget t h = Some (h1, r)" "history_inv (h1, c)" "transaction_depth h1 = 0"
    using forget_inv[OF assms] by blast
  have "history_inv (h2, c)" if "transaction_mut d (\<lambda>d. d\<lparr>edit_ids := edit_ids d @ es\<rparr>) h1 = Some h2" for h2 es
    using transaction_mut_ids[OF that] h1 by (intro history_inv_sub[OF h1(2)]) simp_all
  with h1 show ?thesis by (auto simp: merge_transactions_def split: option.split)
qed

lemma history_apply_ok:
  assumes "history_inv (h, c)" "inputs_ok e (h, c)" "depth_ok e (transaction_depth h)"
  shows "\<exists>w'. history_apply e (h, c) = Some w' \<and> history_inv w'"
proof (cases e)
  case (StartTransaction v now)
  then show ?thesis using start_transaction_inv[OF assms(1), of v now] assms(2) by (auto split: prod.split)
next
  case (PushTransaction t now)
  then show ?thesis using assms history_inv_push(1)[OF assms(1), of c "tx_id t" "new_entry t now"]
    by (simp add: push_transaction_def transaction_id_of_def new_entry_def)
next
  case (PushEmptyTransaction v now)
  then have "lvalue c \<noteq> - 1" "transaction_depth h = 0" using assms by simp_all
  then show ?thesis
    using PushEmptyTransaction history_inv_push(1)[OF assms(1) _ tick_fresh[OF assms(1)]] tick_fresh(1)[OF assms(1)]
    by (simp add: push_empty_transaction_def transaction_id_of_def new_entry_def tick_def less_imp_le)
next
  case (PushOperation op)
  obtain m where "tm_insert (operations h) (op_timestamp op) op = Some m" "tm_wf m"
    using tmi.ins_abs[of "operations h" "op_timestamp op" op] assms PushOperation by (auto simp: history_inv_def)
  then show ?thesis using PushOperation assms(1) by (simp add: history_push_def history_inv_def history_ids_def)
next
  case Group
  obtain es r where "group h = Some (h\<lparr>undo_stack := es\<rparr>, r)" "undo_stack h \<noteq> [] \<longrightarrow> es \<noteq> []"
      "map transaction_id_of es = map transaction_id_of (take (length es) (undo_stack h))" using group_keeps[of h] by blast
  with Group show ?thesis using group_inv[OF assms(1), of es] by auto
next
  case (GroupUntil t)
  obtain es where "group_until t h = Some (h\<lparr>undo_stack := es\<rparr>)" "undo_stack h \<noteq> [] \<longrightarrow> es \<noteq> []"
      "map transaction_id_of es = map transaction_id_of (take (length es) (undo_stack h))" using group_until_keeps[of t h] by blast
  with GroupUntil show ?thesis using group_inv[OF assms(1), of es] by auto
qed (use assms stack_moves_inv[OF assms(1)] forget_inv[OF assms(1)] merge_transactions_inv[OF assms(1)]
      end_transaction_at_inv[OF assms(1)] push_undo_inv[OF assms(1)] finalize_inv in \<open>fastforce+\<close>)

lemma history_apply_panics: "\<not> depth_ok e (transaction_depth h) \<Longrightarrow> history_apply e (h, c) = None"
  by (cases e) (auto simp: end_transaction_at_def end_transaction_def checked_sub_def push_undo_def push_transaction_def
    push_empty_transaction_def pop_undo_def pop_redo_def remove_from_undo_def remove_from_undo_until_def
    remove_from_redo_def forget_def merge_transactions_def)

subsection \<open>The properties\<close>

definition demo_history :: "history \<times> lamport" where
  "demo_history = (history_new rope_new, Lamport 1 0)"

lemma demo_history_inv: "history_inv demo_history"
  by (simp add: demo_history_def history_inv_def history_new_def history_ids_def tm_wf_def tm_default_def st_new_def
      sum_summaries_def map_ops_def)

text \<open>
  C17: The history panics exactly on a wrong transaction depth: with a clock that has not wrapped and
  fresh ids, every operation runs through if and only if the depth it asserts holds, and whatever it
  does it keeps the invariant (an open transaction has its entry on the undo stack, no transaction is
  recorded twice, all ids are in the past of the clock, the operations map is well formed).
\<close>

theorem history_panics_iff_depth:
  assumes "history_inv w" "inputs_ok e w"
  shows "(history_apply e w \<noteq> None \<longleftrightarrow> depth_ok e (transaction_depth (fst w))) \<and>
         (\<forall>w'. history_apply e w = Some w' \<longrightarrow> history_inv w')"
proof (cases w)
  case (Pair h c)
  show ?thesis
  proof (cases "depth_ok e (transaction_depth h)")
    case True
    with history_apply_ok[of h c e] assms show ?thesis unfolding Pair by fastforce
  next
    case False
    with history_apply_panics[OF False, of c] show ?thesis unfolding Pair by simp
  qed
qed

lemma history_panics_iff_depth_witness:
  "history_apply (EndTransaction 5) demo_history = None \<and> history_apply (StartTransaction global_new 5) demo_history \<noteq> None"
proof -
  have "inputs_ok (EndTransaction 5) demo_history" "inputs_ok (StartTransaction global_new 5) demo_history"
      "\<not> depth_ok (EndTransaction 5) (transaction_depth (fst demo_history))"
      "depth_ok (StartTransaction global_new 5) (transaction_depth (fst demo_history))"
    by (simp_all add: demo_history_def history_new_def)
  with history_panics_iff_depth[OF demo_history_inv] show ?thesis by blast
qed

lemma rposition_distinct:
  assumes "distinct (map transaction_id_of xs)" "i < length xs" "tid = transaction_id_of (xs ! i)"
  shows "rposition (has_id tid) xs = Some i"
proof -
  have "\<not> has_id tid (xs ! j)" if "i < j" "j < length xs" for j
    using assms that distinct_conv_nth[of "map transaction_id_of xs"] by (auto simp: has_id_def transaction_id_of_def)
  then show ?thesis using assms by (auto simp: rposition_Some has_id_def transaction_id_of_def)
qed

text \<open>
  C20: Undo and redo are inverse moves between the two stacks. Popping the undo stack and then the
  redo stack restores the history exactly, and so does the other order; undoing back to a transaction
  and then redoing up to the one that was on top restores it too, whatever the number of entries
  between them.
\<close>

theorem undo_redo_roundtrip:
  assumes "history_inv (h, c)" "transaction_depth h = 0"
  shows "(undo_stack h \<noteq> [] \<longrightarrow>
      (\<exists>h1 e. pop_undo h = Some (h1, Some e) \<and> pop_redo h1 = Some (h, Some e))) \<and>
    (redo_stack h \<noteq> [] \<longrightarrow>
      (\<exists>h1 e. pop_redo h = Some (h1, Some e) \<and> pop_undo h1 = Some (h, Some e))) \<and>
    (\<forall>i < length (undo_stack h). \<exists>h1 moved.
      remove_from_undo_until (transaction_id_of (undo_stack h ! i)) h = Some (h1, moved) \<and>
      moved = rev (drop i (undo_stack h)) \<and> undo_stack h1 = take i (undo_stack h) \<and>
      remove_from_redo (transaction_id_of (last (undo_stack h))) h1 = Some (h, rev moved))"
proof (intro conjI impI allI)
  show "\<exists>h1 e. pop_undo h = Some (h1, Some e) \<and> pop_redo h1 = Some (h, Some e)" if "undo_stack h \<noteq> []"
    using that assms(2) by (simp add: pop_undo_def pop_redo_def vec_last_def)
  show "\<exists>h1 e. pop_redo h = Some (h1, Some e) \<and> pop_undo h1 = Some (h, Some e)" if "redo_stack h \<noteq> []"
    using that assms(2) by (simp add: pop_undo_def pop_redo_def vec_last_def)
  fix i assume i: "i < length (undo_stack h)"
  let ?m = "rev (drop i (undo_stack h))"
  let ?h = "h\<lparr>undo_stack := take i (undo_stack h), redo_stack := redo_stack h @ ?m\<rparr>"
  have d: "distinct (map transaction_id_of (undo_stack h @ redo_stack h))" using assms(1) by (simp add: history_inv_def history_ids_def)
  have 1: "rposition (has_id (transaction_id_of (undo_stack h ! i))) (undo_stack h) = Some i"
    using d i by (intro rposition_distinct) simp_all
  have ne: "?m \<noteq> []" using i by simp
  have "mset (map transaction_id_of (redo_stack h @ ?m)) \<subseteq># mset (map transaction_id_of (undo_stack h @ redo_stack h))"
  proof -
    have cut: "mset (undo_stack h) = mset (take i (undo_stack h)) + mset (drop i (undo_stack h))"
      by (metis append_take_drop_id mset_append)
    show ?thesis unfolding mset_map mset_append mset_rev cut image_mset_union by (simp add: subseteq_mset_def)
  qed
  then have "distinct (map transaction_id_of (redo_stack h @ ?m))" using d distinct_mset_mono by blast
  moreover have "(redo_stack h @ ?m) ! length (redo_stack h) = last (undo_stack h)"
    using i by (simp add: nth_append hd_conv_nth[symmetric] hd_rev)
  ultimately have 2: "rposition (has_id (transaction_id_of (last (undo_stack h)))) (redo_stack h @ ?m) = Some (length (redo_stack h))"
    using i by (intro rposition_distinct) simp_all
  have "remove_from_undo_until (transaction_id_of (undo_stack h ! i)) h = Some (?h, ?m)"
    using assms(2) 1 by (simp add: remove_from_undo_until_def Let_def)
  moreover have "remove_from_redo (transaction_id_of (last (undo_stack h))) ?h = Some (h, rev ?m)"
    using assms(2) 2 i by (simp add: remove_from_redo_def Let_def)
  ultimately show "\<exists>h1 moved. remove_from_undo_until (transaction_id_of (undo_stack h ! i)) h = Some (h1, moved) \<and>
      moved = rev (drop i (undo_stack h)) \<and> undo_stack h1 = take i (undo_stack h) \<and>
      remove_from_redo (transaction_id_of (last (undo_stack h))) h1 = Some (h, rev moved)" by auto
qed

definition demo_stack :: history where
  "demo_stack = (history_new rope_new)\<lparr>undo_stack :=
     [new_entry \<lparr>tx_id = Lamport 1 0, edit_ids = [Lamport 2 0], tx_start = global_new\<rparr> 10,
      new_entry \<lparr>tx_id = Lamport 3 0, edit_ids = [Lamport 4 0], tx_start = global_new\<rparr> 20]\<rparr>"

lemma demo_stack_inv: "history_inv (demo_stack, Lamport 5 0)" "transaction_depth demo_stack = 0"
  by (simp_all add: demo_stack_def history_inv_def history_new_def history_ids_def tm_wf_def tm_default_def st_new_def
      sum_summaries_def map_ops_def transaction_id_of_def new_entry_def lamport_less_iff)

lemma undo_redo_roundtrip_witness:
  "\<exists>h1 e. pop_undo demo_stack = Some (h1, Some e) \<and> pop_redo h1 = Some (demo_stack, Some e)"
  using undo_redo_roundtrip[OF demo_stack_inv] by (simp add: demo_stack_def)

text \<open>
  Grouping never loses or reorders an edit: after \<open>group\<close> and \<open>group_until\<close> the edits of the undo
  stack, read from bottom to top, are the same list, only the boundaries between transactions are
  gone; the transactions that are left keep their ids and a non-empty stack stays non-empty.
\<close>

theorem grouping_keeps_edits:
  "(\<exists>h' r. group h = Some (h', r) \<and> stack_edits (undo_stack h') = stack_edits (undo_stack h) \<and>
      redo_stack h' = redo_stack h \<and> (undo_stack h' = [] \<longleftrightarrow> undo_stack h = []) \<and>
      map transaction_id_of (undo_stack h') = take (length (undo_stack h')) (map transaction_id_of (undo_stack h))) \<and>
   (\<exists>h'. group_until tid h = Some h' \<and> stack_edits (undo_stack h') = stack_edits (undo_stack h) \<and>
      redo_stack h' = redo_stack h \<and> (undo_stack h' = [] \<longleftrightarrow> undo_stack h = []) \<and>
      map transaction_id_of (undo_stack h') = take (length (undo_stack h')) (map transaction_id_of (undo_stack h)))"
  using group_keeps[of h] group_until_keeps[of tid h] by (fastforce simp: take_map)

subsection \<open>Whole transactions and merging\<close>

definition push_undos :: "lamport list \<Rightarrow> history \<Rightarrow> history option" where
  "push_undos ts h = foldl (\<lambda>r t. do { h \<leftarrow> r; push_undo t h }) (Some h) ts"

lemma push_undos_top:
  assumes "transaction_depth h \<noteq> 0" "undo_stack h = us @ [e]" "\<forall>t\<in>set ts. \<exists>x. tm_get (operations h) t = Some (Edit x)"
  shows "push_undos ts h = Some (h\<lparr>undo_stack := us @
      [e\<lparr>transaction_of := (transaction_of e)\<lparr>edit_ids := edit_ids (transaction_of e) @ ts\<rparr>\<rparr>]\<rparr>)"
  using assms(3)
proof (induction ts rule: rev_induct)
  case Nil
  then show ?case using assms(2) by (simp add: push_undos_def)
next
  case (snoc t ts)
  then obtain x where x: "tm_get (operations h) t = Some (Edit x)" by auto
  have "push_undos (ts @ [t]) h = do { h \<leftarrow> push_undos ts h; push_undo t h }" by (simp add: push_undos_def)
  with snoc x assms(1) show ?case by (simp add: push_undo_def)
qed

text \<open>
  A transaction is all or nothing. Opening one, recording edits and closing it again leaves a
  history with exactly one more entry, which holds these edits in order, and an empty redo stack; when no
  edit was recorded the history is exactly what it was before, redo stack included.
\<close>

theorem transaction_bracket:
  assumes "transaction_depth h = 0" "start_transaction v now c h = (h1, c', r)"
    and "\<forall>t\<in>set ts. \<exists>x. tm_get (operations h) t = Some (Edit x)"
  shows "r = Some c \<and> (\<exists>h2. push_undos ts h1 = Some h2 \<and>
    (if ts = [] then end_transaction later h2 = Some (h, None)
     else \<exists>h3 e. end_transaction later h2 = Some (h3, Some e) \<and> undo_stack h3 = undo_stack h @ [e] \<and>
            edit_ids (transaction_of e) = ts \<and> transaction_id_of e = c \<and> redo_stack h3 = [] \<and>
            transaction_depth h3 = 0))"
proof -
  let ?e = "new_entry \<lparr>tx_id = c, edit_ids = [], tx_start = v\<rparr> now"
  have h1: "h1 = h\<lparr>transaction_depth := 1, undo_stack := undo_stack h @ [?e]\<rparr>" "r = Some c"
    using assms(1,2) by (auto simp: start_transaction_def tick_def Let_def)
  have "push_undos ts h1 = Some (h1\<lparr>undo_stack := undo_stack h @
      [?e\<lparr>transaction_of := (transaction_of ?e)\<lparr>edit_ids := edit_ids (transaction_of ?e) @ ts\<rparr>\<rparr>]\<rparr>)"
    using assms(3) by (intro push_undos_top) (simp_all add: h1(1))
  moreover have "h\<lparr>transaction_depth := 0\<rparr> = h" using assms(1) by simp
  ultimately show ?thesis using h1 assms(1)
    by (simp add: end_transaction_def Let_def new_entry_def transaction_id_of_def)
qed

lemma transaction_bracket_witness:
  "\<exists>h2. push_undos [] (fst (start_transaction global_new 5 (Lamport 5 0) demo_stack)) = Some h2 \<and>
        end_transaction 6 h2 = Some (demo_stack, None)"
  using transaction_bracket[OF demo_stack_inv(2), of global_new 5 "Lamport 5 0" _ _ _ "[]" 6]
  by (cases "start_transaction global_new 5 (Lamport 5 0) demo_stack") auto

text \<open>All edits of a history, as a multiset.\<close>

definition total_edits :: "history \<Rightarrow> lamport multiset" where
  "total_edits h = mset (stack_edits (undo_stack h @ redo_stack h))"

lemma stack_edits_mset: "mset (stack_edits es) = (\<Sum>e\<in>#mset es. mset (edit_ids (transaction_of e)))"
  by (induction es) auto

lemma stack_edits_remove:
  "ix < length es \<Longrightarrow> mset (stack_edits es) = mset (edit_ids (transaction_of (es ! ix))) + mset (stack_edits (vec_remove es ix))"
  by (simp add: stack_edits_mset vec_remove_split)

lemma stack_edits_update:
  assumes "ix < length es"
  shows "mset (stack_edits (update_entry (\<lambda>d. d\<lparr>edit_ids := edit_ids d @ ts\<rparr>) ix es)) = mset ts + mset (stack_edits es)"
proof -
  let ?e = "(es ! ix)\<lparr>transaction_of := (transaction_of (es ! ix))\<lparr>edit_ids := edit_ids (transaction_of (es ! ix)) @ ts\<rparr>\<rparr>"
  have "update_entry (\<lambda>d. d\<lparr>edit_ids := edit_ids d @ ts\<rparr>) ix es = take ix es @ ?e # drop (Suc ix) es"
    using assms by (simp add: update_entry_def upd_conv_take_nth_drop)
  moreover have "mset (stack_edits es) = mset (stack_edits (take ix es @ es ! ix # drop (Suc ix) es))"
    using assms by (simp add: id_take_nth_drop[symmetric])
  ultimately show ?thesis by simp
qed

lemma vec_remove_ids:
  assumes "distinct (map transaction_id_of es)" "ix < length es"
  shows "map transaction_id_of (vec_remove es ix) = remove1 (transaction_id_of (es ! ix)) (map transaction_id_of es)"
proof -
  let ?ids = "map transaction_id_of es"
  have "?ids = take ix ?ids @ ?ids ! ix # drop (Suc ix) ?ids" 
    using assms(2) by (intro id_take_nth_drop) simp
  moreover have "?ids ! ix \<notin> set (take ix ?ids)" using assms by (metis calculation distinct_append not_distinct_conv_prefix
        disjoint_iff list.set_intros(1))
  ultimately have "remove1 (?ids ! ix) ?ids = take ix ?ids @ drop (Suc ix) ?ids"
    by (metis remove1.simps(2) remove1_append)
  with assms(2) show ?thesis by (simp add: vec_remove_def take_map drop_map)
qed

lemma forget_edits:
  assumes "history_inv (h, c)" "transaction_depth h = 0" "t \<in> set (history_ids h)"
  obtains h' tx where "forget t h = Some (h', Some tx)" "history_ids h' = remove1 t (history_ids h)"
    "total_edits h = mset (edit_ids tx) + total_edits h'" "find_transaction t h = Some tx"
proof -
  have d: "distinct (map transaction_id_of (undo_stack h))" "distinct (map transaction_id_of (redo_stack h))"
    using assms(1) by (simp_all add: history_inv_def history_ids_def)
  show thesis
  proof (cases "rposition (has_id t) (undo_stack h)")
    case (Some ix)
    then have ix: "ix < length (undo_stack h)" "transaction_id_of (undo_stack h ! ix) = t"
      by (auto simp: rposition_Some has_id_def transaction_id_of_def)
    then have "t \<in> set (map transaction_id_of (undo_stack h))" by (metis length_map nth_map nth_mem)
    with vec_remove_ids[OF d(1) ix(1)] stack_edits_remove[OF ix(1)] Some ix assms(2) show thesis
      by (intro that[of "h\<lparr>undo_stack := vec_remove (undo_stack h) ix\<rparr>" "transaction_of (undo_stack h ! ix)"])
         (simp_all add: forget_def history_ids_def remove1_append total_edits_def find_transaction_def)
  next
    case None
    then have not: "t \<notin> set (map transaction_id_of (undo_stack h))"
      by (auto simp: rposition_None has_id_def transaction_id_of_def)
    then obtain e where "e \<in> set (redo_stack h)" "transaction_id_of e = t" using assms(3) by (auto simp: history_ids_def)
    then obtain ix where ix: "rposition (has_id t) (redo_stack h) = Some ix"
      using rposition_None[of "has_id t" "redo_stack h"] by (auto simp: has_id_def transaction_id_of_def)
    then have jx: "ix < length (redo_stack h)" "transaction_id_of (redo_stack h ! ix) = t"
      by (auto simp: rposition_Some has_id_def transaction_id_of_def)
    with vec_remove_ids[OF d(2) jx(1)] stack_edits_remove[OF jx(1)] None ix assms(2) not show thesis
      by (intro that[of "h\<lparr>redo_stack := vec_remove (redo_stack h) ix\<rparr>" "transaction_of (redo_stack h ! ix)"])
         (simp_all add: forget_def history_ids_def remove1_append total_edits_def find_transaction_def)
  qed
qed

lemma transaction_mut_edits:
  "case transaction_mut d (\<lambda>d. d\<lparr>edit_ids := edit_ids d @ ts\<rparr>) h of
     None \<Rightarrow> d \<notin> set (history_ids h)
   | Some h' \<Rightarrow> d \<in> set (history_ids h) \<and> total_edits h' = mset ts + total_edits h"
proof (cases "rposition (has_id d) (undo_stack h)")
  case (Some ix)
  then have "ix < length (undo_stack h)" "transaction_id_of (undo_stack h ! ix) = d"
    by (auto simp: rposition_Some has_id_def transaction_id_of_def)
  with Some show ?thesis using stack_edits_update[of ix "undo_stack h" ts]
    by (auto simp: transaction_mut_def total_edits_def history_ids_def)
next
  case None
  note undo = None
  show ?thesis
  proof (cases "rposition (has_id d) (redo_stack h)")
    case None
    with undo have "d \<notin> set (history_ids h)"
      by (auto simp: history_ids_def rposition_None has_id_def transaction_id_of_def)
    with None undo show ?thesis by (simp add: transaction_mut_def)
  next
    case (Some ix)
    then have "ix < length (redo_stack h)" "transaction_id_of (redo_stack h ! ix) = d"
      by (auto simp: rposition_Some has_id_def transaction_id_of_def)
    with undo Some show ?thesis using stack_edits_update[of ix "redo_stack h" ts]
      by (auto simp: transaction_mut_def total_edits_def history_ids_def)
  qed
qed

text \<open>
  C30: Merging a transaction into another one removes the first and keeps every edit of the history.
  When the destination is missing, or is the merged transaction itself, the transaction is forgotten
  with its edits all the same: they can no longer be undone.
\<close>

theorem merge_transactions_edits:
  assumes "history_inv (h, c)" "transaction_depth h = 0" "t \<in> set (history_ids h)"
  shows "\<exists>h' tx. merge_transactions t d h = Some h' \<and> find_transaction t h = Some tx \<and>
    history_ids h' = remove1 t (history_ids h) \<and>
    total_edits h' = (if d \<noteq> t \<and> d \<in> set (history_ids h) then total_edits h
                      else total_edits h - mset (edit_ids tx))"
proof -
  obtain h1 tx where h1: "forget t h = Some (h1, Some tx)" "history_ids h1 = remove1 t (history_ids h)"
      "total_edits h = mset (edit_ids tx) + total_edits h1" "find_transaction t h = Some tx"
    using assms by (rule forget_edits)
  have "distinct (history_ids h)" using assms(1) by (simp add: history_inv_def)
  then have mem: "d \<in> set (history_ids h1) \<longleftrightarrow> d \<noteq> t \<and> d \<in> set (history_ids h)" by (auto simp: h1(2))
  show ?thesis
  proof (cases "transaction_mut d (\<lambda>d. d\<lparr>edit_ids := edit_ids d @ edit_ids tx\<rparr>) h1")
    case None
    with h1 mem transaction_mut_edits[where d = d and ts = "edit_ids tx" and h = h1] show ?thesis
      by (auto simp: merge_transactions_def)
  next
    case (Some h2)
    then have "history_ids h2 = history_ids h1" by (rule transaction_mut_ids(1)) simp
    with Some h1 mem transaction_mut_edits[where d = d and ts = "edit_ids tx" and h = h1] show ?thesis
      by (simp add: merge_transactions_def)
  qed
qed

lemma merge_transactions_edits_witness:
  "\<exists>h' tx. merge_transactions (Lamport 3 0) (Lamport 1 0) demo_stack = Some h' \<and> total_edits h' = total_edits demo_stack"
proof -
  have "Lamport 3 0 \<in> set (history_ids demo_stack)" "Lamport 1 0 \<in> set (history_ids demo_stack)"
    by (simp_all add: demo_stack_def history_ids_def transaction_id_of_def new_entry_def history_new_def)
  with merge_transactions_edits[OF demo_stack_inv, of "Lamport 3 0" "Lamport 1 0"] show ?thesis by auto
qed

end
