(* ===== verification/Rope_Correct.thy ===== *)
theory Rope_Correct
  imports Rope
begin

section \<open>Ropes represent texts\<close>

text \<open>
  A rope represents a list of pieces of text, one per chunk: its tree is well formed, no chunk is empty
  and every chunk but the last is at least half full, less the three bytes by which a character can cross
  the middle (\<open>check_invariants\<close>). The operations that add text keep this and act on the concatenation of the
  pieces.
\<close>

subsection \<open>Summaries and dimensions\<close>

definition valid_ts :: "text_summary \<Rightarrow> bool" where
  "valid_ts s \<longleftrightarrow> (\<exists>cs. s = ts_from cs)"

lemma chunk_ops_simps [simp]:
  "item_summary chunk_ops = chunk_summary" "summary_zero chunk_ops = ts_zero" "add_summary chunk_ops = ts_add"
  by (simp_all add: chunk_ops_def)

lemma chunk_summary_rep: "chunk_rep c cs \<Longrightarrow> chunk_summary c = ts_from cs"
  by (simp add: chunk_summary_def slice_text_summary_rep)

lemma valid_summary: "chunk_rep c cs \<Longrightarrow> valid_ts (chunk_summary c)"
  by (auto simp: valid_ts_def chunk_summary_rep)

lemma ts_add_from: "ts_add (ts_from xs) (ts_from ys) = ts_from (xs @ ys)"
  by (simp add: ts_from_append)

interpretation rope_sum: sum_laws chunk_ops valid_ts
proof
  fix a b c assume "valid_ts a" "valid_ts b"
  then obtain xs ys where ab: "a = ts_from xs" "b = ts_from ys" by (auto simp: valid_ts_def)
  show "valid_ts (add_summary chunk_ops a b)" unfolding ab by (auto simp: valid_ts_def ts_add_from)
  assume "valid_ts c"
  then obtain zs where "c = ts_from zs" by (auto simp: valid_ts_def)
  then show "add_summary chunk_ops (add_summary chunk_ops a b) c = add_summary chunk_ops a (add_summary chunk_ops b c)"
    by (simp add: ab ts_add_from)
qed (auto simp: valid_ts_def ts_add_zero ts_inv_from)

text \<open>
  What a dimension measures of a text: adding the summary of a text to the measure of the text before it.
\<close>

locale text_measure =
  fixes M :: "(text_summary, 'd) dim_ops" and \<mu> :: "scalar list \<Rightarrow> 'd"
  assumes measure_Nil: "dim_zero M = \<mu> []"
    and measure_add: "dim_add M (\<mu> xs) (ts_from ys) = \<mu> (xs @ ys)"
    and measure_assoc: "valid_ts a \<Longrightarrow> valid_ts b \<Longrightarrow> dim_add M d (ts_add a b) = dim_add M (dim_add M d a) b"
begin

lemma measure_sum: "foldl (dim_add M) (\<mu> xs) (map ts_from css) = \<mu> (xs @ concat css)"
  by (induction css arbitrary: xs) (auto simp: measure_add)

lemma measure_dim_laws: "dim_laws chunk_ops valid_ts M"
  by unfold_locales (simp add: measure_assoc)

end

sublocale text_measure \<subseteq> dim_laws chunk_ops valid_ts M
  by (rule measure_dim_laws)

abbreviation bytes_of :: "scalar list \<Rightarrow> nat" where
  "bytes_of cs \<equiv> length (str_of cs)"

lemma ts_from_fields [simp]:
  "ts_len (ts_from cs) = bytes_of cs" "ts_len_utf16 (ts_from cs) = units cs"
  "ts_lines (ts_from cs) = end_point cs" "lines_utf16 (ts_from cs) = end_point_utf16 cs"
  using describes_from[of cs] by (simp_all add: describes_def Let_def end_point_def end_point_utf16_def)

lemma end_point_Nil [simp]: "end_point [] = point_zero" "end_point_utf16 [] = point_zero"
  by (rule point_eqI; simp)+

lemma lines_utf16_add: "lines_utf16 (ts_add a b) = point_add (lines_utf16 a) (lines_utf16 b)"
  by (rule point_eqI) (simp_all add: lines_utf16_def ts_add_fields point_add_def)

lemma ts_add_assoc_right:
  assumes "ts_inv a" "ts_inv b"
  shows "ts_add (ts_add d a) b = ts_add d (ts_add a b)"
  using assms by (intro ts_eqI) (auto simp: ts_add_fields ts_inv_def point_add_assoc max_def)

interpretation usize_m: text_measure usize_dim bytes_of
  by unfold_locales (auto simp: usize_dim_def ts_add_fields)

interpretation utf16_m: text_measure utf16_dim units
  by unfold_locales (auto simp: utf16_dim_def ts_add_fields)

interpretation point_m: text_measure point_dim end_point
  by unfold_locales (auto simp: point_dim_def ts_add_fields end_point_append point_add_assoc)

interpretation point_utf16_m: text_measure point_utf16_dim end_point_utf16
  by unfold_locales (auto simp: point_utf16_dim_def lines_utf16_add end_point_utf16_append point_add_assoc)

interpretation summary_m: text_measure summary_dim ts_from
  by unfold_locales (auto simp: summary_dim_def ts_add_from valid_ts_def ts_add_assoc_right ts_inv_from)

interpretation unit_m: text_measure unit_dim "\<lambda>_. ()"
  by unfold_locales (auto simp: unit_dim_def)

lemma measure_pair:
  assumes "text_measure M \<mu>" "text_measure N \<nu>"
  shows "text_measure (pair_dim M N) (\<lambda>cs. (\<mu> cs, \<nu> cs))"
  using assms unfolding text_measure_def pair_dim_def by auto

subsection \<open>Representation\<close>

definition rope_rep :: "rope \<Rightarrow> scalar list list \<Rightarrow> bool" where
  "rope_rep r css \<longleftrightarrow> st_wf chunk_ops valid_ts (chunks r) \<and> list_all2 chunk_rep (to_list (chunks r)) css"

definition well_filled :: "scalar list list \<Rightarrow> bool" where
  "well_filled css \<longleftrightarrow> [] \<notin> set css \<and> (\<forall>cs\<in>set (butlast css). MIN_BASE \<le> bytes_of cs + 3)"

definition rope_text :: "rope \<Rightarrow> scalar list \<Rightarrow> bool" where
  "rope_text r cs \<longleftrightarrow> (\<exists>css. rope_rep r css \<and> well_filled css \<and> cs = concat css)"

lemma chunk_summaries: "list_all2 chunk_rep xs css \<Longrightarrow> map chunk_summary xs = map ts_from css"
  by (induction rule: list_all2_induct) (auto simp: chunk_summary_rep)

lemma valid_summaries: "list_all2 chunk_rep xs css \<Longrightarrow> \<forall>x\<in>set xs. valid_ts (item_summary chunk_ops x)"
  by (induction rule: list_all2_induct) (auto intro: valid_summary)

lemma rope_rep_length: "rope_rep r css \<Longrightarrow> length (to_list (chunks r)) = length css"
  by (auto simp: rope_rep_def dest: list_all2_lengthD)

lemma rope_rep_nth: "rope_rep r css \<Longrightarrow> k < length css \<Longrightarrow> chunk_rep (to_list (chunks r) ! k) (css ! k)"
  by (auto simp: rope_rep_def list_all2_conv_all_nth)

lemma rope_rep_scalars: "rope_rep r css \<Longrightarrow> \<forall>c\<in>set (concat css). is_scalar c"
  using rope_rep_nth chunk_rep_text by (fastforce simp: in_set_conv_nth)

lemma rope_rep_empty: "rope_rep r css \<Longrightarrow> st_is_empty (chunks r) \<longleftrightarrow> css = []"
  using rope_rep_length[of r css] by (auto simp: rope_rep_def st_is_empty_iff)

lemma rope_rep_ends:
  assumes "rope_rep r css"
  shows "st_first (chunks r) = Some (vec_first (to_list (chunks r)))"
    "st_last (chunks r) = Some (vec_last (to_list (chunks r)))"
  using assms by (auto simp: rope_rep_def st_first_seq st_last_seq)

context text_measure
begin

lemma item_pos_measure:
  assumes "rope_rep r css"
  shows "item_pos chunk_ops M (chunks r) k = \<mu> (concat (take k css))"
    "pos_at M (dim_zero M) (map (item_summary chunk_ops) (to_list (chunks r))) k = \<mu> (concat (take k css))"
proof -
  have "map chunk_summary (to_list (chunks r)) = map ts_from css"
    using assms by (auto simp: rope_rep_def chunk_summaries)
  then show "pos_at M (dim_zero M) (map (item_summary chunk_ops) (to_list (chunks r))) k = \<mu> (concat (take k css))"
    using measure_sum[of "[]" "take k css"] by (simp add: pos_at_def measure_Nil take_map)
  then show "item_pos chunk_ops M (chunks r) k = \<mu> (concat (take k css))" by (simp add: item_pos_def)
qed

lemma extent_measure:
  assumes "rope_rep r css"
  shows "st_extent M (chunks r) = \<mu> (concat css)"
proof (cases "css = []")
  case True
  then have "node_summary (chunks r) = ts_zero"
    using assms by (cases "chunks r") (auto simp: rope_rep_def sum_summaries_def neq_Nil_conv)
  then show ?thesis using True measure_add[of "[]" "[]"] by (simp add: st_extent_def measure_Nil)
next
  case False
  then have ne: "to_list (chunks r) \<noteq> []" using rope_rep_length[OF assms] by auto
  have "st_good chunk_ops valid_ts (node_height (chunks r)) (chunks r)"
    using assms ne by (auto simp: st_good_def rope_rep_def)
  from dim_good[OF this, of "dim_zero M"] assms have
    "st_extent M (chunks r) = foldl (dim_add M) (dim_zero M) (map chunk_summary (to_list (chunks r)))"
    by (simp add: st_extent_def)
  then show ?thesis
    using assms measure_sum[of "[]" css] chunk_summaries[of "to_list (chunks r)" css] by (simp add: rope_rep_def measure_Nil)
qed

end

lemma rope_sizes:
  assumes "rope_rep r css"
  shows "rope_summary r = ts_from (concat css)" "rope_len r = bytes_of (concat css)"
    "rope_max_point r = end_point (concat css)" "rope_max_point_utf16 r = end_point_utf16 (concat css)"
    "rope_is_empty r \<longleftrightarrow> concat css = []"
proof -
  have "ts_inv (node_summary (chunks r))"
  proof (cases "css = []")
    case True
    then show ?thesis
      using assms by (cases "chunks r") (auto simp: rope_rep_def sum_summaries_def neq_Nil_conv ts_inv_zero)
  next
    case False
    then have "to_list (chunks r) \<noteq> []" using rope_rep_length[OF assms] by auto
    then have "st_good chunk_ops valid_ts (node_height (chunks r)) (chunks r)"
      using assms by (auto simp: st_good_def rope_rep_def)
    then have "valid_ts (node_summary (chunks r))" using rope_sum.good_summary by blast
    then show ?thesis by (auto simp: valid_ts_def ts_inv_from)
  qed
  then show "rope_summary r = ts_from (concat css)"
    using summary_m.extent_measure[OF assms] by (simp add: rope_summary_def st_extent_def summary_dim_def ts_add_zero)
  show "rope_len r = bytes_of (concat css)" "rope_max_point r = end_point (concat css)"
    "rope_max_point_utf16 r = end_point_utf16 (concat css)" "rope_is_empty r \<longleftrightarrow> concat css = []"
    using assms by (auto simp: rope_len_def rope_max_point_def rope_max_point_utf16_def rope_is_empty_def
      usize_m.extent_measure point_m.extent_measure point_utf16_m.extent_measure str_of_eq_Nil)
qed

subsection \<open>Looking for character boundaries\<close>

lemma char_at:
  assumes "n < bytes_of cs"
  obtains xs c ys where "cs = xs @ c # ys" "bytes_of xs \<le> n" "n < bytes_of xs + len_utf8 c"
  using assms
proof (induction cs arbitrary: n thesis)
  case (Cons d ds)
  show ?case
  proof (cases "n < len_utf8 d")
    case True
    then show ?thesis using Cons.prems(1)[of "[]" d ds] by simp
  next
    case False
    then obtain xs c ys where "ds = xs @ c # ys" "bytes_of xs \<le> n - len_utf8 d" "n - len_utf8 d < bytes_of xs + len_utf8 c"
      using Cons.IH[of "n - len_utf8 d"] Cons.prems(2) by (metis diff_less_mono2 length_append length_encode_utf8 less_diff_conv2 not_less add.commute str_of_simps(2))
    then show ?thesis using Cons.prems(1)[of "d # xs" c ys] False by simp
  qed
qed simp

lemma next_boundary_at:
  "P (i + n) \<Longrightarrow> (\<And>j. i \<le> j \<Longrightarrow> j < i + n \<Longrightarrow> \<not> P j) \<Longrightarrow> next_boundary P i = Some (i + n)"
proof (induction n arbitrary: i)
  case 0
  then show ?case by (simp add: next_boundary.simps)
next
  case (Suc n)
  have "next_boundary P i = next_boundary P (Suc i)" using Suc.prems(2)[of i] by (subst next_boundary.simps) simp
  then show ?case using Suc.IH[of "Suc i"] Suc.prems by simp
qed

lemma next_boundary_char:
  assumes s: "\<forall>c\<in>set cs. is_scalar c" and n: "n \<le> bytes_of cs"
    and P: "\<And>j. j \<le> bytes_of cs \<Longrightarrow> P j \<longleftrightarrow> str_is_char_boundary (str_of cs) j"
  obtains xs ys where "cs = xs @ ys" "next_boundary P n = Some (bytes_of xs)" "n \<le> bytes_of xs" "bytes_of xs \<le> n + 3"
    "n = 0 \<longrightarrow> xs = []"
proof (cases n)
  case 0
  have "next_boundary P n = Some 0" unfolding 0 using P[of 0] by (subst next_boundary.simps) (simp add: str_is_char_boundary_def)
  then show thesis using 0 that[of "[]" cs] by simp
next
  case (Suc m)
  then have "m < bytes_of cs" using n by simp
  then obtain xs c ys where cs: "cs = xs @ c # ys" "bytes_of xs \<le> m" "m < bytes_of xs + len_utf8 c" by (rule char_at)
  define k where "k = bytes_of xs + len_utf8 c - n"
  have k: "n + k = bytes_of (xs @ [c])" using cs(3) Suc by (simp add: k_def)
  have "P (n + k)" unfolding k using P[of "bytes_of (xs @ [c])"] boundary_of_prefix[of ys "xs @ [c]"] s cs(1) by simp
  moreover have "\<not> P j" if "n \<le> j" "j < n + k" for j
    using wide_char_inside[of xs c ys "j - bytes_of xs"] P[of j] s cs that Suc k by simp
  ultimately have "next_boundary P n = Some (n + k)" by (rule next_boundary_at)
  then show thesis using k cs Suc len_utf8_bounds(2)[of c] that[of "xs @ [c]" ys] by simp
qed

lemma back_to_boundary_back:
  "str_is_char_boundary bs i \<Longrightarrow> (\<And>j. i < j \<Longrightarrow> j \<le> i + n \<Longrightarrow> \<not> str_is_char_boundary bs j) \<Longrightarrow>
   back_to_boundary bs (i + n) = Some i"
  by (induction n) (auto simp: back_to_boundary_at)

lemma back_to_boundary_char:
  assumes s: "\<forall>c\<in>set cs. is_scalar c" and n: "n \<le> bytes_of cs"
  obtains xs ys where "cs = xs @ ys" "back_to_boundary (str_of cs) n = Some (bytes_of xs)" "bytes_of xs \<le> n" "n \<le> bytes_of xs + 3"
    "n = bytes_of cs \<longrightarrow> ys = []"
proof (cases "n = bytes_of cs")
  case True
  then show thesis using that[of cs "[]"] by (simp add: back_to_boundary_at str_is_char_boundary_def)
next
  case False
  then have "n < bytes_of cs" using n by simp
  then obtain xs c ys where cs: "cs = xs @ c # ys" "bytes_of xs \<le> n" "n < bytes_of xs + len_utf8 c" by (rule char_at)
  have "str_is_char_boundary (str_of cs) (bytes_of xs)" using boundary_of_prefix[of "c # ys" xs] s cs(1) by simp
  moreover have "\<not> str_is_char_boundary (str_of cs) j" if "bytes_of xs < j" "j \<le> bytes_of xs + (n - bytes_of xs)" for j
    using wide_char_inside[of xs c ys "j - bytes_of xs"] s cs that by simp
  ultimately have "back_to_boundary (str_of cs) (bytes_of xs + (n - bytes_of xs)) = Some (bytes_of xs)" by (rule back_to_boundary_back)
  then show thesis using cs False len_utf8_bounds(2)[of c] that[of xs "c # ys"] by simp
qed

subsection \<open>Adding to the last chunk\<close>

lemma split_for_last_char:
  assumes s: "\<forall>c\<in>set cs. is_scalar c" and used: "used \<le> MAX_BASE"
    and P: "\<And>j. j \<le> bytes_of cs \<Longrightarrow> P j \<longleftrightarrow> str_is_char_boundary (str_of cs) j"
  obtains xs ys where "cs = xs @ ys" "split_for_last P used (bytes_of cs) = Some (bytes_of xs)"
    "used + bytes_of xs \<le> MAX_BASE" "ys \<noteq> [] \<longrightarrow> MIN_BASE \<le> used + bytes_of xs \<and> (xs = [] \<or> MIN_BASE \<le> bytes_of ys + 3)"
proof (cases "used + bytes_of cs \<le> MAX_BASE")
  case True
  then show thesis using that[of cs "[]"] by (simp add: split_for_last_def)
next
  case False
  let ?n = "min (MIN_BASE - used) (bytes_of cs)"
  have n: "?n = MIN_BASE - used" using False by (simp add: MIN_BASE_def MAX_BASE_def)
  obtain xs ys where xs: "cs = xs @ ys" "next_boundary P ?n = Some (bytes_of xs)" "?n \<le> bytes_of xs" "bytes_of xs \<le> ?n + 3"
      "?n = 0 \<longrightarrow> xs = []"
    by (rule next_boundary_char[OF s min.cobounded2 P])
  have "split_for_last P used (bytes_of cs) = Some (bytes_of xs)" using False xs(2) by (simp add: split_for_last_def)
  moreover have "used + bytes_of xs \<le> MAX_BASE"
  proof (cases "MIN_BASE - used = 0")
    case True
    then show ?thesis using xs(5) n used by simp
  next
    case False
    then show ?thesis using xs(4) n by (simp add: MIN_BASE_def MAX_BASE_def)
  qed
  moreover have "xs = [] \<or> MIN_BASE \<le> bytes_of ys + 3"
  proof (cases "MIN_BASE - used = 0")
    case True
    then show ?thesis using xs(5) n by simp
  next
    case used: False
    have "bytes_of cs = bytes_of xs + bytes_of ys" using xs(1) by simp
    then have "MIN_BASE \<le> bytes_of ys + 3" using xs(4) n False used by (simp add: MIN_BASE_def MAX_BASE_def)
    then show ?thesis ..
  qed
  moreover have "MIN_BASE \<le> used + bytes_of xs" using xs(3) n by linarith
  ultimately show thesis using that[of xs ys] xs(1) by simp
qed

lemma push_into_last_rep:
  assumes "chunk_rep c bs" "\<forall>c\<in>set cs. is_scalar c"
  obtains xs ys c' where "cs = xs @ ys" "push_into_last c (str_of cs) = Some (c', str_of ys)" "chunk_rep c' (bs @ xs)"
    "ys \<noteq> [] \<longrightarrow> MIN_BASE \<le> bytes_of (bs @ xs)"
proof -
  have c: "ck_text c = str_of bs" "bytes_of bs \<le> MAX_BASE"
    using chunk_rep_text[OF assms(1)] chunk_rep_length[OF assms(1)] by (auto simp: MAX_BASE_def)
  obtain xs ys where xs: "cs = xs @ ys" "split_for_last (str_is_char_boundary (str_of cs)) (bytes_of bs) (bytes_of cs) = Some (bytes_of xs)"
      "bytes_of bs + bytes_of xs \<le> MAX_BASE" "ys \<noteq> [] \<longrightarrow> MIN_BASE \<le> bytes_of bs + bytes_of xs \<and> (xs = [] \<or> MIN_BASE \<le> bytes_of ys + 3)"
    by (rule split_for_last_char[OF assms(2) c(2) refl])
  have "str_split_at (str_of cs) (bytes_of xs) = Some (str_of xs, str_of ys)"
    using boundary_of_prefix[of ys xs] assms(2) xs(1) by (simp add: str_split_at_def)
  moreover obtain n where n: "chunk_new (str_of xs) = Some n" "chunk_rep n xs"
    using chunk_new_rep[of xs] assms(2) xs(1,3) by auto
  moreover obtain c' where "chunk_append c n = Some c'" "chunk_rep c' (bs @ xs)"
    using chunk_append_rep[OF assms(1) n(2)] xs(3) by auto
  ultimately show thesis using xs(2,4) c(1) by (intro that[OF xs(1), of c']) (auto simp: push_into_last_def chunk_push_str_def)
qed

lemma push_chunk_into_last_rep:
  assumes "chunk_rep c bs" "chunk_rep sl cs"
  obtains xs ys c' rest where "cs = xs @ ys" "push_chunk_into_last c sl = Some (c', rest)" "chunk_rep c' (bs @ xs)"
    "chunk_rep rest ys" "ys \<noteq> [] \<longrightarrow> MIN_BASE \<le> bytes_of (bs @ xs) \<and> (xs = [] \<or> MIN_BASE \<le> bytes_of ys + 3)"
proof -
  have c: "ck_text c = str_of bs" "bytes_of bs \<le> MAX_BASE"
    using chunk_rep_text[OF assms(1)] chunk_rep_length[OF assms(1)] by (auto simp: MAX_BASE_def)
  have s: "ck_text sl = str_of cs" "\<forall>c\<in>set cs. is_scalar c" "bytes_of cs \<le> 128"
    using chunk_rep_text[OF assms(2)] chunk_rep_length[OF assms(2)] by auto
  have P: "chunk_is_char_boundary sl j \<longleftrightarrow> str_is_char_boundary (str_of cs) j" if "j \<le> bytes_of cs" for j
    using is_char_boundary_iff[OF assms(2), of j] that s(3) by simp
  obtain xs ys where xs: "cs = xs @ ys" "split_for_last (chunk_is_char_boundary sl) (bytes_of bs) (bytes_of cs) = Some (bytes_of xs)"
      "bytes_of bs + bytes_of xs \<le> MAX_BASE"
      "ys \<noteq> [] \<longrightarrow> MIN_BASE \<le> bytes_of bs + bytes_of xs \<and> (xs = [] \<or> MIN_BASE \<le> bytes_of ys + 3)"
    by (rule split_for_last_char[OF s(2) c(2) P])
  obtain t u where t: "slice_split_at sl (bytes_of xs) = Some (t, u)" "chunk_rep t xs" "chunk_rep u ys"
    using slice_split_at_rep[of sl xs ys] assms(2) xs(1) by auto
  obtain c' where "chunk_append c t = Some c'" "chunk_rep c' (bs @ xs)"
    using chunk_append_rep[OF assms(1) t(2)] xs(3) by auto
  with t show thesis using xs(2,4) c(1) s(1)
    by (intro that[OF xs(1), of c' u]) (auto simp: push_chunk_into_last_def slice_len_def)
qed

subsection \<open>The operations that add text\<close>

lemma update_last_rep:
  assumes r: "rope_rep r (css @ [cs])"
  obtains c where "chunk_rep c cs" "vec_last (to_list (chunks r)) = Some c"
    "\<And>(f :: chunk \<Rightarrow> 'x \<Rightarrow> (chunk \<times> 'x) option) x c' y ds. f c x = Some (c', y) \<Longrightarrow> chunk_rep c' ds \<Longrightarrow>
       \<exists>t. update_last_with f (chunks r) x = Some (t, y) \<and> rope_rep \<lparr>chunks = t\<rparr> (css @ [ds])"
proof -
  have wf: "st_wf chunk_ops valid_ts (chunks r)" using r by (simp add: rope_rep_def)
  obtain xs c where xs: "to_list (chunks r) = xs @ [c]" "list_all2 chunk_rep xs css" "chunk_rep c cs"
    using r by (auto simp: rope_rep_def list_all2_append2 list_all2_Cons2)
  have "\<exists>t. update_last_with f (chunks r) x = Some (t, y) \<and> rope_rep \<lparr>chunks = t\<rparr> (css @ [ds])"
    if f: "f c x = Some (c', y)" "chunk_rep c' ds" for f :: "chunk \<Rightarrow> 'x \<Rightarrow> (chunk \<times> 'x) option" and x c' y ds
  proof -
    obtain t where "st_update_last chunk_ops (chunks r) (\<lambda>_. c') = Some t" "st_wf chunk_ops valid_ts t" "to_list t = xs @ [c']"
      using st_update_last_seq[OF wf, of "\<lambda>_. c'"] valid_summary[OF f(2)] xs(1) by auto
    with f xs show ?thesis
      by (auto simp: update_last_with_def rope_rep_ends(2)[OF r] rope_rep_def list_all2_appendI)
  qed
  with xs show thesis by (intro that[of c]) auto
qed

lemma update_last_none: "rope_rep r [] \<Longrightarrow> update_last_with f (chunks r) x = Some (chunks r, x)"
  using rope_rep_length[of r "[]"] by (simp add: update_last_with_def rope_rep_ends)

lemma rope_eta [simp]: "chunks_update f r = \<lparr>chunks = f (chunks r)\<rparr>"
  by (cases r) simp

lemma well_filled_append:
  "well_filled (css @ ds) \<longleftrightarrow> well_filled css \<and> well_filled ds \<and>
     (css \<noteq> [] \<and> ds \<noteq> [] \<longrightarrow> MIN_BASE \<le> bytes_of (last css) + 3)"
proof (cases "css = [] \<or> ds = []")
  case False
  then obtain es c where "css = es @ [c]" by (cases css rule: rev_cases) auto
  with False show ?thesis by (auto simp: well_filled_def butlast_append)
qed (auto simp: well_filled_def)

lemma well_filled_simps [simp]: "well_filled []" "well_filled [cs] \<longleftrightarrow> cs \<noteq> []"
  by (auto simp: well_filled_def)

lemma push_rest_rep:
  assumes t: "rope_rep \<lparr>chunks = t\<rparr> es" and rest: "chunk_rep rest ys"
  shows "\<exists>r'. (if slice_is_empty rest then Some \<lparr>chunks = t\<rparr> else do { t' \<leftarrow> st_push chunk_ops t rest; Some \<lparr>chunks = t'\<rparr> }) = Some r' \<and>
      rope_rep r' (es @ (if ys = [] then [] else [ys]))"
proof (cases "ys = []")
  case True
  then show ?thesis using t chunk_rep_text[OF rest] by (simp add: slice_is_empty_def)
next
  case False
  then have ne: "\<not> slice_is_empty rest" using chunk_rep_text[OF rest] by (simp add: slice_is_empty_def str_of_eq_Nil)
  have "st_wf chunk_ops valid_ts t" "valid_ts (item_summary chunk_ops rest)"
    using t valid_summary[OF rest] by (auto simp: rope_rep_def)
  then obtain t' where "st_push chunk_ops t rest = Some t'" "st_wf chunk_ops valid_ts t'" "to_list t' = to_list t @ [rest]"
    by (rule rope_sum.st_push_seq)
  with t rest False ne show ?thesis by (auto simp: rope_rep_def list_all2_appendI)
qed

lemma rope_push_chunk_rep:
  assumes r: "rope_rep r css" "well_filled css" and sl: "chunk_rep sl cs"
  obtains r' ds where "rope_push_chunk r sl = Some r'" "rope_rep r' ds" "well_filled ds" "concat ds = concat css @ cs"
    "MIN_BASE \<le> bytes_of cs + 3 \<longrightarrow> MIN_BASE \<le> bytes_of (last ds) + 3"
proof -
  show thesis
  proof (cases css rule: rev_cases)
    case Nil
    have "rope_rep \<lparr>chunks = chunks r\<rparr> []" using r(1) Nil by (simp add: rope_rep_def)
    from push_rest_rep[OF this sl] obtain r' where r': "rope_push_chunk r sl = Some r'" "rope_rep r' (if cs = [] then [] else [cs])"
      by (cases "slice_is_empty sl") (auto simp: rope_push_chunk_def update_last_none[OF r(1)[unfolded Nil]])
    then show thesis using Nil by (intro that[OF r']) (auto simp: MIN_BASE_def MAX_BASE_def)
  next
    case (snoc es bs)
    obtain c where c: "chunk_rep c bs"
      "\<And>(f :: chunk \<Rightarrow> chunk_slice \<Rightarrow> (chunk \<times> chunk_slice) option) x c' y ds. f c x = Some (c', y) \<Longrightarrow> chunk_rep c' ds \<Longrightarrow>
       \<exists>t. update_last_with f (chunks r) x = Some (t, y) \<and> rope_rep \<lparr>chunks = t\<rparr> (es @ [ds])"
      using r(1) unfolding snoc by (rule update_last_rep) blast
    obtain xs ys c' rest where p: "cs = xs @ ys" "push_chunk_into_last c sl = Some (c', rest)" "chunk_rep c' (bs @ xs)"
      "chunk_rep rest ys" "ys \<noteq> [] \<longrightarrow> MIN_BASE \<le> bytes_of (bs @ xs) \<and> (xs = [] \<or> MIN_BASE \<le> bytes_of ys + 3)"
      using c(1) sl by (rule push_chunk_into_last_rep)
    obtain t where t: "update_last_with push_chunk_into_last (chunks r) sl = Some (t, rest)" "rope_rep \<lparr>chunks = t\<rparr> (es @ [bs @ xs])"
      using c(2)[where f = push_chunk_into_last, OF p(2,3)] by blast
    from push_rest_rep[OF t(2) p(4)] obtain r' where r': "rope_push_chunk r sl = Some r'"
        "rope_rep r' ((es @ [bs @ xs]) @ (if ys = [] then [] else [ys]))"
      using t(1) by (cases "slice_is_empty rest") (auto simp: rope_push_chunk_def)
    have "well_filled (es @ [bs @ xs])" using r(2) unfolding snoc by (auto simp: well_filled_append)
    with p(5) have wf: "well_filled ((es @ [bs @ xs]) @ (if ys = [] then [] else [ys]))"
      unfolding well_filled_append[of "es @ [bs @ xs]"] by auto
    show thesis by (rule that[OF r' wf]) (use p(1,5) snoc in auto)
  qed
qed

lemma rope_append_rep:
  assumes r: "rope_rep r css" "well_filled css" and o: "rope_rep other ds" "well_filled ds"
    and h: "node_height (chunks other) < MAX_DEPTH"
  obtains r' es where "rope_append r other = Some r'" "rope_rep r' es" "well_filled es" "concat es = concat css @ concat ds"
proof -
  have wf: "st_wf chunk_ops valid_ts (chunks r)" "st_wf chunk_ops valid_ts (chunks other)"
    using r o by (auto simp: rope_rep_def)
  let ?last = "vec_last (to_list (chunks r))"
  let ?small = "case ?last of Some c \<Rightarrow> length (ck_text c) < MIN_BASE | None \<Rightarrow> False"
  have small: "?small \<longleftrightarrow> css \<noteq> [] \<and> bytes_of (last css) < MIN_BASE"
  proof (cases css rule: rev_cases)
    case (snoc es bs)
    then obtain c where "vec_last (to_list (chunks r)) = Some c" "chunk_rep c bs" using r(1) by (auto elim: update_last_rep)
    with snoc chunk_rep_text show ?thesis by auto
  qed (use rope_rep_length[OF r(1)] in auto)
  obtain t where app: "st_append chunk_ops (chunks r) (chunks other) = Some t" "st_wf chunk_ops valid_ts t"
      "to_list t = to_list (chunks r) @ to_list (chunks other)"
    using wf by (rule rope_sum.st_append_seq)
  have joined: "rope_rep \<lparr>chunks = t\<rparr> (css @ ds)" using app r o by (auto simp: rope_rep_def list_all2_appendI)
  show thesis
  proof (cases ds)
    case Nil
    then have "vec_first (to_list (chunks other)) = None" using rope_rep_length[OF o(1)] by (simp add: vec_first_def)
    then have "rope_append r other = Some \<lparr>chunks = t\<rparr>"
      by (simp add: rope_append_def rope_rep_ends[OF r(1)] rope_rep_ends[OF o(1)] app)
    then show thesis using joined r(2) Nil by (intro that) auto
  next
    case (Cons d ds')
    obtain c us where us: "to_list (chunks other) = c # us" "chunk_rep c d" "list_all2 chunk_rep us ds'"
      using o(1) Cons by (auto simp: rope_rep_def list_all2_Cons2)
    have first: "vec_first (to_list (chunks other)) = Some c" using us by (simp add: vec_first_def)
    have len: "length (ck_text c) = bytes_of d" using chunk_rep_text[OF us(2)] by simp
    show thesis
    proof (cases "?small \<or> bytes_of d < MIN_BASE")
      case False
      then have "rope_append r other = Some \<lparr>chunks = t\<rparr>"
        by (simp add: rope_append_def rope_rep_ends[OF r(1)] rope_rep_ends[OF o(1)] app first len)
      moreover have "well_filled (css @ ds)" using False small r(2) o(2) by (auto simp: well_filled_append)
      ultimately show thesis using joined by (intro that) auto
    next
      case True
      obtain r1 es where r1: "rope_push_chunk r c = Some r1" "rope_rep r1 es" "well_filled es" "concat es = concat css @ d"
          "MIN_BASE \<le> bytes_of d + 3 \<longrightarrow> MIN_BASE \<le> bytes_of (last es) + 3"
        using r us(2) by (rule rope_push_chunk_rep)
      have "c_tree (cursor_new unit_dim (chunks other)) = chunks other" "c_stack (cursor_new unit_dim (chunks other)) = []"
          "c_position (cursor_new unit_dim (chunks other)) = dim_zero unit_dim"
          "at_end (cursor_new unit_dim (chunks other)) = (to_list (chunks other) = [])"
        by (simp_all add: cursor_new_def st_is_empty_iff[OF wf(2)])
      then obtain c1 where c1: "cursor_next unit_dim (cursor_new unit_dim (chunks other)) = Some c1"
          "cursor_at chunk_ops unit_dim (chunks other) 0 c1"
        by (rule unit_m.cursor_next_start[OF wf(2) h])
      obtain c2 where c2: "cursor_next unit_dim c1 = Some c2"
          "cursor_at chunk_ops unit_dim (chunks other) (min (Suc 0) (length (to_list (chunks other)))) c2"
        using wf(2) h c1(2) by (rule unit_m.cursor_next_at)
      obtain c3 u where u: "cursor_suffix chunk_ops unit_dim c2 = Some (c3, u)" "st_wf chunk_ops valid_ts u"
          "to_list u = drop (min (Suc 0) (length (to_list (chunks other)))) (to_list (chunks other))"
        using wf(2) h cursor_from_at[OF c2(2)] by (rule unit_m.cursor_suffix_at)
      have "st_wf chunk_ops valid_ts (chunks r1)" using r1(2) by (simp add: rope_rep_def)
      then obtain w where w: "st_append chunk_ops (chunks r1) u = Some w" "st_wf chunk_ops valid_ts w" "to_list w = to_list (chunks r1) @ to_list u"
        using u(2) by (rule rope_sum.st_append_seq)
      have "rope_append r other = Some \<lparr>chunks = w\<rparr>"
        using True by (simp add: rope_append_def rope_rep_ends[OF r(1)] rope_rep_ends[OF o(1)] first len r1(1) c1(1) c2(1) u(1) w(1))
      moreover have "rope_rep \<lparr>chunks = w\<rparr> (es @ ds')" using w u(3) us r1(2) by (auto simp: rope_rep_def list_all2_appendI)
      moreover have "well_filled (es @ ds')"
        using o(2) r1(3,5) well_filled_append[of "[d]" ds'] unfolding Cons by (auto simp: well_filled_append)
      ultimately show thesis using r1(4) Cons by (intro that) auto
    qed
  qed
qed

subsection \<open>Pushing text\<close>

lemma split_text_rep:
  assumes "\<forall>c\<in>set cs. is_scalar c"
  obtains pss where "split_text (str_of cs) = Some (map str_of pss)" "concat pss = cs" "[] \<notin> set pss"
    "\<forall>ps\<in>set pss. bytes_of ps \<le> MAX_BASE" "\<forall>ps\<in>set (butlast pss). MAX_BASE \<le> bytes_of ps + 3"
  using assms
proof (induction "length cs" arbitrary: cs thesis rule: less_induct)
  case less
  show ?case
  proof (cases "cs = []")
    case True
    then show ?thesis using less.prems(1)[of "[]"] by (simp add: split_text.simps)
  next
    case False
    let ?n = "min MAX_BASE (bytes_of cs)"
    obtain xs ys where xs: "cs = xs @ ys" "back_to_boundary (str_of cs) ?n = Some (bytes_of xs)" "bytes_of xs \<le> ?n"
        "?n \<le> bytes_of xs + 3" "?n = bytes_of cs \<longrightarrow> ys = []"
      using less.prems(2) min.cobounded2 by (rule back_to_boundary_char)
    have ne: "xs \<noteq> []"
    proof
      assume "xs = []"
      with xs(4) have "bytes_of cs \<le> 3" by (auto simp: MAX_BASE_def min_def split: if_splits)
      with xs(5) \<open>xs = []\<close> xs(1) False show False by (auto simp: MAX_BASE_def)
    qed
    have "length ys < length cs" "\<forall>c\<in>set ys. is_scalar c" using xs(1) ne less.prems(2) by auto
    then obtain pss where p: "split_text (str_of ys) = Some (map str_of pss)" "concat pss = ys" "[] \<notin> set pss"
        "\<forall>ps\<in>set pss. bytes_of ps \<le> MAX_BASE" "\<forall>ps\<in>set (butlast pss). MAX_BASE \<le> bytes_of ps + 3"
      using less.hyps[of ys] by blast
    have "str_split_at (str_of cs) (bytes_of xs) = Some (str_of xs, str_of ys)"
      using boundary_of_prefix[of ys xs] less.prems(2) xs(1) by (simp add: str_split_at_def)
    then have split: "split_text (str_of cs) = Some (map str_of (xs # pss))"
      using p(1) xs(2) False by (subst split_text.simps) (simp add: str_of_eq_Nil)
    have full: "MAX_BASE \<le> bytes_of xs + 3" if "pss \<noteq> []"
      using that p(2,3) xs(4,5) by (cases pss) (auto simp: min_def split: if_splits)
    show ?thesis by (rule less.prems(1)[OF split]) (use p xs(1,3) ne full in auto)
  qed
qed

lemma pieces_count:
  assumes "\<forall>ps\<in>set (butlast pss). MAX_BASE \<le> bytes_of ps + 3" "[] \<notin> set pss"
  shows "pss \<noteq> [] \<Longrightarrow> 125 * (length pss - 1) < bytes_of (concat pss)"
  using assms
proof (induction pss)
  case (Cons ps pss)
  have "0 < bytes_of ps" using Cons.prems(3) by (auto simp: str_of_eq_Nil)
  then show ?case using Cons by (cases pss) (auto simp: MAX_BASE_def)
qed simp

lemma chunk_new_all:
  assumes "\<forall>ps\<in>set pss. (\<forall>c\<in>set ps. is_scalar c) \<and> bytes_of ps \<le> MAX_BASE"
  obtains ns where "those (map chunk_new (map str_of pss)) = Some ns" "list_all2 chunk_rep ns pss"
  using assms
proof (induction pss arbitrary: thesis)
  case (Cons ps pss)
  then obtain ns where "those (map chunk_new (map str_of pss)) = Some ns" "list_all2 chunk_rep ns pss" by auto
  moreover obtain n where "chunk_new (str_of ps) = Some n" "chunk_rep n ps" using Cons.prems(2) chunk_new_rep[of ps] by auto
  ultimately show ?case using Cons.prems(1)[of "n # ns"] by simp
qed simp

lemma push_pieces:
  assumes r: "rope_rep r css" and p: "\<forall>ps\<in>set pss. (\<forall>c\<in>set ps. is_scalar c) \<and> bytes_of ps \<le> MAX_BASE"
  obtains t ns where "those (map chunk_new (map str_of pss)) = Some ns" "st_extend chunk_ops (chunks r) ns = Some t"
    "st_par_extend chunk_ops (chunks r) ns = Some t" "rope_rep \<lparr>chunks = t\<rparr> (css @ pss)"
proof -
  obtain ns where ns: "those (map chunk_new (map str_of pss)) = Some ns" "list_all2 chunk_rep ns pss"
    using p by (rule chunk_new_all)
  have "st_wf chunk_ops valid_ts (chunks r)" using r by (simp add: rope_rep_def)
  then obtain t where "st_extend chunk_ops (chunks r) ns = Some t" "st_par_extend chunk_ops (chunks r) ns = Some t"
      "st_wf chunk_ops valid_ts t" "to_list t = to_list (chunks r) @ ns"
    using valid_summaries[OF ns(2)] by (rule rope_sum.st_extend_seq)
  then show thesis using r ns by (intro that[OF ns(1)]) (auto simp: rope_rep_def list_all2_appendI)
qed

lemma push_split_rep:
  assumes r: "rope_rep r css" "well_filled css" and cs: "\<forall>c\<in>set cs. is_scalar c" "cs \<noteq> []"
    and full: "css \<noteq> [] \<longrightarrow> MIN_BASE \<le> bytes_of (last css) + 3"
  obtains pss ns t where "split_text (str_of cs) = Some (map str_of pss)" "those (map chunk_new (map str_of pss)) = Some ns"
    "st_extend chunk_ops (chunks r) ns = Some t" "st_par_extend chunk_ops (chunks r) ns = Some t"
    "rope_rep \<lparr>chunks = t\<rparr> (css @ pss)" "well_filled (css @ pss)" "concat pss = cs" "125 * (length pss - 1) < bytes_of cs"
proof -
  obtain pss where p: "split_text (str_of cs) = Some (map str_of pss)" "concat pss = cs" "[] \<notin> set pss"
      "\<forall>ps\<in>set pss. bytes_of ps \<le> MAX_BASE" "\<forall>ps\<in>set (butlast pss). MAX_BASE \<le> bytes_of ps + 3"
    using cs(1) by (rule split_text_rep)
  have ne: "pss \<noteq> []" using p(2) cs(2) by auto
  have "\<forall>ps\<in>set pss. (\<forall>c\<in>set ps. is_scalar c) \<and> bytes_of ps \<le> MAX_BASE" using p(2,4) cs(1) by auto
  with r(1) obtain t ns where t: "those (map chunk_new (map str_of pss)) = Some ns" "st_extend chunk_ops (chunks r) ns = Some t"
      "st_par_extend chunk_ops (chunks r) ns = Some t" "rope_rep \<lparr>chunks = t\<rparr> (css @ pss)"
    by (rule push_pieces)
  have "well_filled pss" using p(3,5) by (auto simp: well_filled_def MIN_BASE_def MAX_BASE_def)
  then have "well_filled (css @ pss)" using r(2) full by (simp add: well_filled_append)
  moreover have "125 * (length pss - 1) < bytes_of cs" using pieces_count[OF p(5,3) ne] p(2) by simp
  ultimately show thesis using that[OF p(1) t] p(2) by blast
qed

lemma rope_push_large_rep:
  assumes "rope_rep r css" "well_filled css" "\<forall>c\<in>set cs. is_scalar c" "cs \<noteq> []"
    and "css \<noteq> [] \<longrightarrow> MIN_BASE \<le> bytes_of (last css) + 3"
  obtains r' ds where "rope_push_large r (str_of cs) = Some r'" "rope_rep r' ds" "well_filled ds" "concat ds = concat css @ cs"
  using assms by (rule push_split_rep) (auto simp: rope_push_large_def intro!: that)

lemma rope_push_rep:
  assumes r: "rope_rep r css" "well_filled css" and cs: "\<forall>c\<in>set cs. is_scalar c"
  obtains r' ds where "rope_push r (str_of cs) = Some r'" "rope_rep r' ds" "well_filled ds" "concat ds = concat css @ cs"
proof -
  obtain t es ys where u: "update_last_with push_into_last (chunks r) (str_of cs) = Some (t, str_of ys)" "rope_rep \<lparr>chunks = t\<rparr> es"
      "well_filled es" "concat es @ ys = concat css @ cs" "\<forall>c\<in>set ys. is_scalar c"
      "ys \<noteq> [] \<and> es \<noteq> [] \<longrightarrow> MIN_BASE \<le> bytes_of (last es) + 3"
  proof (cases css rule: rev_cases)
    case Nil
    have "rope_rep \<lparr>chunks = chunks r\<rparr> []" using r(1) Nil by (simp add: rope_rep_def)
    with Nil cs show thesis by (intro that[of "chunks r" cs "[]"]) (auto simp: update_last_none[OF r(1)[unfolded Nil]])
  next
    case (snoc es bs)
    obtain c where c: "chunk_rep c bs"
      "\<And>(f :: chunk \<Rightarrow> bytes \<Rightarrow> (chunk \<times> bytes) option) x c' y ds. f c x = Some (c', y) \<Longrightarrow> chunk_rep c' ds \<Longrightarrow>
       \<exists>t. update_last_with f (chunks r) x = Some (t, y) \<and> rope_rep \<lparr>chunks = t\<rparr> (es @ [ds])"
      using r(1) unfolding snoc by (rule update_last_rep) blast
    obtain xs ys c' where p: "cs = xs @ ys" "push_into_last c (str_of cs) = Some (c', str_of ys)" "chunk_rep c' (bs @ xs)"
        "ys \<noteq> [] \<longrightarrow> MIN_BASE \<le> bytes_of (bs @ xs)"
      using c(1) cs by (rule push_into_last_rep)
    obtain t where t: "update_last_with push_into_last (chunks r) (str_of cs) = Some (t, str_of ys)" "rope_rep \<lparr>chunks = t\<rparr> (es @ [bs @ xs])"
      using c(2)[where f = push_into_last, OF p(2,3)] by blast
    have "well_filled (es @ [bs @ xs])" using r(2) unfolding snoc by (auto simp: well_filled_append)
    then show thesis using p(1,4) snoc cs by (intro that[OF t]) auto
  qed
  show thesis
  proof (cases "ys = []")
    case True
    then show thesis using u that[of "\<lparr>chunks = t\<rparr>" es] by (simp add: rope_push_def)
  next
    case False
    show thesis
    proof (cases "bytes_of ys > NUM_CHUNKS * MAX_BASE - NUM_CHUNKS * 4")
      case True
      have "es \<noteq> [] \<longrightarrow> MIN_BASE \<le> bytes_of (last es) + 3" using u(6) False by simp
      with u(2,3,5) False obtain r' ds where "rope_push_large \<lparr>chunks = t\<rparr> (str_of ys) = Some r'" "rope_rep r' ds" "well_filled ds"
          "concat ds = concat es @ ys"
        by (rule rope_push_large_rep)
      with True False u(1,4) show thesis by (intro that[of r' ds]) (auto simp: rope_push_def str_of_eq_Nil)
    next
      case small: False
      have "es \<noteq> [] \<longrightarrow> MIN_BASE \<le> bytes_of (last es) + 3" using u(6) False by simp
      with u(2,3,5) False obtain pss ns t' where p: "split_text (str_of ys) = Some (map str_of pss)"
          "those (map chunk_new (map str_of pss)) = Some ns" "st_extend chunk_ops (chunks \<lparr>chunks = t\<rparr>) ns = Some t'"
          "rope_rep \<lparr>chunks = t'\<rparr> (es @ pss)" "well_filled (es @ pss)" "concat pss = ys" "125 * (length pss - 1) < bytes_of ys"
        by (rule push_split_rep)
      have "length pss \<le> NUM_CHUNKS" using p(7) small by (simp add: NUM_CHUNKS_def MAX_BASE_def)
      then have "rope_push r (str_of cs) = Some \<lparr>chunks = t'\<rparr>"
        using p(1-3) u(1) False small by (simp add: rope_push_def str_of_eq_Nil)
      then show thesis using p(4-6) u(4) by (intro that) auto
    qed
  qed
qed

lemma rope_rep_new [simp]: "rope_rep rope_new []"
  by (simp add: rope_rep_def rope_new_def)

lemma rope_from_rep:
  assumes "\<forall>c\<in>set cs. is_scalar c"
  obtains r css where "rope_from (str_of cs) = Some r" "rope_rep r css" "well_filled css" "concat css = cs"
  using rope_rep_new well_filled_simps(1) assms by (rule rope_push_rep) (auto simp: rope_from_def intro: that)

lemma rope_push_all_rep:
  assumes "rope_rep r css" "well_filled css" "\<forall>cs\<in>set ts. \<forall>c\<in>set cs. is_scalar c"
  obtains r' ds where "rope_push_all r (map str_of ts) = Some r'" "rope_rep r' ds" "well_filled ds"
    "concat ds = concat css @ concat ts"
  using assms
proof (induction ts arbitrary: r css thesis)
  case (Cons t ts)
  have "\<forall>c\<in>set t. is_scalar c" using Cons.prems(4) by simp
  with Cons.prems(2,3) obtain r1 es where r1: "rope_push r (str_of t) = Some r1" "rope_rep r1 es" "well_filled es" "concat es = concat css @ t"
    by (rule rope_push_rep)
  obtain r' ds where "rope_push_all r1 (map str_of ts) = Some r'" "rope_rep r' ds" "well_filled ds" "concat ds = concat es @ concat ts"
    using Cons.IH[OF _ r1(2,3)] Cons.prems(4) by auto
  then show ?case using Cons.prems(1) r1 by simp
qed auto

lemma rope_push_front_rep:
  assumes r: "rope_rep r css" "well_filled css" and cs: "\<forall>c\<in>set cs. is_scalar c" and h: "node_height (chunks r) < MAX_DEPTH"
  obtains r' ds where "rope_push_front r (str_of cs) = Some r'" "rope_rep r' ds" "well_filled ds" "concat ds = cs @ concat css"
proof (cases "cs = [] \<or> css = []")
  case True
  have "rope_is_empty r \<longleftrightarrow> css = []" using rope_sizes(5)[OF r(1)] r(2) by (cases css) (auto simp: well_filled_def)
  note empty = this
  show thesis
  proof (cases "cs = []")
    case True
    then show thesis using r that[of r css] by (simp add: rope_push_front_def)
  next
    case False
    with True empty have front: "rope_push_front r (str_of cs) = rope_push r (str_of cs)" "css = []"
      by (simp_all add: rope_push_front_def str_of_eq_Nil)
    show thesis using r cs by (rule rope_push_rep) (use front that in auto)
  qed
next
  case False
  then obtain b bs where css: "css = b # bs" and cs': "cs \<noteq> []" by (cases css) auto
  have ne: "\<not> rope_is_empty r" using rope_sizes(5)[OF r(1)] r(2) css by (auto simp: well_filled_def)
  obtain c us where us: "to_list (chunks r) = c # us" "chunk_rep c b" "list_all2 chunk_rep us bs"
    using r(1) css by (auto simp: rope_rep_def list_all2_Cons2)
  have first: "st_first (chunks r) = Some (Some c)" using us rope_rep_ends(1)[OF r(1)] by (simp add: vec_first_def)
  have len: "length (ck_text c) = bytes_of b" using chunk_rep_text[OF us(2)] by simp
  show thesis
  proof (cases "bytes_of b + bytes_of cs \<le> MAX_BASE")
    case True
    obtain n where n: "chunk_new (str_of cs) = Some n" "chunk_rep n cs" using chunk_new_rep[OF cs] True by auto
    have "bytes_of (cs @ b) \<le> MAX_BASE" using True by simp
    with us(2) n(2) obtain c' where c': "chunk_prepend c n = Some c'" "chunk_rep c' (cs @ b)" by (rule chunk_prepend_rep)
    have wf: "st_wf chunk_ops valid_ts (chunks r)" using r(1) by (simp add: rope_rep_def)
    obtain t where t: "st_update_first chunk_ops (chunks r) (\<lambda>_. c') = Some t" "st_wf chunk_ops valid_ts t" "to_list t = c' # us"
      using st_update_first_seq[OF wf, of "\<lambda>_. c'"] us(1) valid_summary[OF c'(2)] by auto
    have "rope_push_front r (str_of cs) = Some \<lparr>chunks = t\<rparr>"
      using cs' ne first len True n(1) c'(1) t(1) by (simp add: rope_push_front_def str_of_eq_Nil chunk_prepend_str_def)
    moreover have "rope_rep \<lparr>chunks = t\<rparr> ((cs @ b) # bs)" using t us c'(2) by (simp add: rope_rep_def)
    moreover have "well_filled ((cs @ b) # bs)"
      using r(2) css well_filled_append[of "[b]" bs] well_filled_append[of "[cs @ b]" bs] by auto
    ultimately show thesis using css by (intro that) auto
  next
    case False
    obtain new ds where new: "rope_from (str_of cs) = Some new" "rope_rep new ds" "well_filled ds" "concat ds = cs"
      using cs by (rule rope_from_rep)
    obtain r' es where "rope_append new r = Some r'" "rope_rep r' es" "well_filled es" "concat es = concat ds @ concat css"
      using new(2,3) r h by (rule rope_append_rep)
    then show thesis
      using False cs' ne first len new by (intro that[of r' es]) (auto simp: rope_push_front_def str_of_eq_Nil)
  qed
qed

end
