(* ===== verification/Rope_Convert.thy ===== *)
theory Rope_Convert
  imports Rope_Correct
begin

section \<open>Positions in a rope\<close>

text \<open>
  A search in a rope finds the chunk that contains a position of the text. The conversions between kinds of
  positions agree at every character boundary of the text, wherever the chunks are cut.
\<close>

subsection \<open>Finding a chunk\<close>

context text_measure
begin

lemma hits_mono:
  assumes r: "rope_rep r css" and k: "k \<le> length css"
    and before: "\<And>j. j < k \<Longrightarrow> \<not> target_in t b (\<mu> (concat (take (Suc j) css)))"
    and after: "\<And>j. k \<le> j \<Longrightarrow> j < length css \<Longrightarrow> target_in t b (\<mu> (concat (take (Suc j) css)))"
  shows "seek_mono M (target_in t b) (dim_zero M) (map (item_summary chunk_ops) (to_list (chunks r)))"
    and "seek_index M (target_in t b) (dim_zero M) (map (item_summary chunk_ops) (to_list (chunks r))) = k"
proof -
  let ?ss = "map (item_summary chunk_ops) (to_list (chunks r))"
  have len: "length ?ss = length css" using rope_rep_length[OF r] by simp
  have e: "ends M (dim_zero M) ?ss ! j = \<mu> (concat (take (Suc j) css))" if "j < length css" for j
    using that len item_pos_measure(2)[OF r] by (simp add: nth_ends)
  show "seek_mono M (target_in t b) (dim_zero M) ?ss"
    unfolding seek_mono_def sorted_wrt_iff_nth_less
  proof (intro allI impI)
    fix i j assume ij: "i < j" "j < length (ends M (dim_zero M) ?ss)" "target_in t b (ends M (dim_zero M) ?ss ! i)"
    then have "k \<le> i" using before[of i] e[of i] len by (metis length_ends not_le_imp_less order_less_trans)
    then show "target_in t b (ends M (dim_zero M) ?ss ! j)" using after[of j] e[of j] ij len by simp
  qed
  show "seek_index M (target_in t b) (dim_zero M) ?ss = k"
    unfolding seek_index_iff item_pos_measure(2)[OF r] len using k before after by simp
qed

lemma find_at:
  assumes r: "rope_rep r css" and k: "k < length css"
    and before: "\<And>j. j < k \<Longrightarrow> \<not> target_in t b (\<mu> (concat (take (Suc j) css)))"
    and after: "\<And>j. k \<le> j \<Longrightarrow> j < length css \<Longrightarrow> target_in t b (\<mu> (concat (take (Suc j) css)))"
  shows "st_find M (chunks r) t b = (\<mu> (concat (take k css)), \<mu> (concat (take (Suc k) css)), Some (to_list (chunks r) ! k))"
proof -
  have hits: "seek_mono M (target_in t b) (dim_zero M) (map (item_summary chunk_ops) (to_list (chunks r)))"
    "seek_index M (target_in t b) (dim_zero M) (map (item_summary chunk_ops) (to_list (chunks r))) = k"
    using hits_mono[OF r less_imp_le[OF k], of t b] before after by blast+
  have ne: "st_wf chunk_ops valid_ts (chunks r)" "to_list (chunks r) \<noteq> []"
    using r k rope_rep_length[OF r] by (auto simp: rope_rep_def)
  show ?thesis
    using st_find_index[OF ne hits(1)] hits(2) k item_pos_measure(2)[OF r] rope_rep_length[OF r] by (simp add: Let_def vec_get_def)
qed

lemma find_end:
  assumes r: "rope_rep r css" and t: "t (\<mu> (concat css)) = Greater \<or> t (\<mu> (concat css)) = Equal \<and> b = Right"
  shows "st_find M (chunks r) t b = (\<mu> (concat css), \<mu> (concat css), None)"
  using t extent_measure[OF r] by (auto simp: st_find_def st_find_gen_def st_extent_def Let_def)

lemma seek_at:
  assumes r: "rope_rep r css" and k: "k \<le> length css"
    and before: "\<And>j. j < k \<Longrightarrow> \<not> target_in t b (\<mu> (concat (take (Suc j) css)))"
    and after: "\<And>j. k \<le> j \<Longrightarrow> j < length css \<Longrightarrow> target_in t b (\<mu> (concat (take (Suc j) css)))"
    and h: "node_height (chunks r) < MAX_DEPTH" and start: "t (\<mu> []) \<noteq> Less"
    and c: "c_tree c = chunks r"
  obtains c' f where "cursor_seek M t b c = Some (c', f)" "cursor_at chunk_ops M (chunks r) k c'"
proof -
  have hits: "seek_mono M (target_in t b) (dim_zero M) (map (item_summary chunk_ops) (to_list (chunks r)))"
    "seek_index M (target_in t b) (dim_zero M) (map (item_summary chunk_ops) (to_list (chunks r))) = k"
    using hits_mono[OF r k, of t b] before after by blast+
  have wf: "st_wf chunk_ops valid_ts (chunks r)" "t (dim_zero M) \<noteq> Less" using r start by (auto simp: rope_rep_def measure_Nil)
  note seek = cursor_seek_at[OF wf(1) h hits(1) c wf(2), unfolded seek_hit_index hits(2)]
  show thesis by (rule seek) (rule that)
qed

lemma cursor_reads:
  assumes "rope_rep r css" "cursor_at chunk_ops M (chunks r) k c"
  shows "k \<le> length css" "cursor_start c = \<mu> (concat (take k css))"
    "cursor_item c = Some (if k < length css then Some (to_list (chunks r) ! k) else None)"
    "cursor_end M c = Some (\<mu> (concat (take (Suc k) css)))"
proof -
  have wf: "st_wf chunk_ops valid_ts (chunks r)" using assms(1) by (simp add: rope_rep_def)
  show k: "k \<le> length css" using assms(2) rope_rep_length[OF assms(1)] by (auto simp: cursor_at_def lands_def)
  show "cursor_start c = \<mu> (concat (take k css))" "cursor_item c = Some (if k < length css then Some (to_list (chunks r) ! k) else None)"
    using cursor_at_reads[OF assms(2) wf] item_pos_measure(1)[OF assms(1)] rope_rep_length[OF assms(1)] by (auto simp: vec_get_def)
  show "cursor_end M c = Some (\<mu> (concat (take (Suc k) css)))"
    using cursor_at_reads(4)[OF assms(2) wf] item_pos_measure(1)[OF assms(1)] rope_rep_length[OF assms(1)] k
    by (cases "k = length css") (auto simp: min_def)
qed

end

text \<open>A position of the text, in the measure of a dimension, that is compared with the ends of chunks.\<close>

locale text_seek = text_measure M \<mu> for M :: "(text_summary, 'd) dim_ops" and \<mu> :: "scalar list \<Rightarrow> 'd" +
  fixes target :: "scalar list \<Rightarrow> 'd \<Rightarrow> ordering"
  assumes target_after: "target (xs @ ys) (\<mu> xs) = (if ys = [] then Equal else Greater)"
    and target_before: "ys \<noteq> [] \<Longrightarrow> target xs (\<mu> (xs @ ys)) = Less"
begin

lemma target_prefix:
  assumes "xs @ ys = us @ vs"
  shows "target xs (\<mu> us) = cmp (length xs) (length us)"
proof (cases "length us \<le> length xs")
  case True
  then obtain ws where "xs = us @ ws" using assms by (auto simp: append_eq_append_conv2)
  then show ?thesis using target_after[of us ws] by (auto simp: cmp_def)
next
  case False
  then obtain ws where "us = xs @ ws" "ws \<noteq> []" using assms by (auto simp: append_eq_append_conv2)
  then show ?thesis using target_before[of ws xs] by (auto simp: cmp_def)
qed

end

text \<open>The chunk that contains a position: with bias left the one that ends there, with bias right the one that starts there.\<close>

lemma piece_at:
  assumes "[] \<notin> set css" "concat css = xs @ ys" "ys \<noteq> [] \<or> b = Left \<and> css \<noteq> []"
  obtains k x y where "k < length css" "xs = concat (take k css) @ x" "css ! k = x @ y" "ys = y @ concat (drop (Suc k) css)"
    "b = Right \<longrightarrow> y \<noteq> []" "b = Left \<longrightarrow> x \<noteq> [] \<or> k = 0"
  using assms
proof (induction css arbitrary: xs thesis)
  case (Cons c cs)
  consider (here) zs where "c = xs @ zs" "ys = zs @ concat cs" "zs \<noteq> [] \<or> b = Left"
    | (later) zs where "xs = c @ zs" "concat cs = zs @ ys" "zs \<noteq> [] \<or> b = Right"
  proof (cases "length xs < length c \<or> length xs = length c \<and> b = Left")
    case True
    then show thesis using Cons.prems(3) here by (auto simp: append_eq_append_conv2)
  next
    case False
    then have "length c < length xs \<or> length xs = length c \<and> b = Right" by (cases b) auto
    then show thesis using Cons.prems(3) later by (auto simp: append_eq_append_conv2)
  qed
  then show ?case
  proof cases
    case here
    then show ?thesis using Cons.prems(1)[of 0 xs zs] Cons.prems(2) by auto
  next
    case later
    have ne: "[] \<notin> set cs" "ys \<noteq> [] \<or> b = Left \<and> cs \<noteq> []" using later Cons.prems(2,4) by auto
    obtain k x y where k: "k < length cs" "zs = concat (take k cs) @ x" "cs ! k = x @ y" "ys = y @ concat (drop (Suc k) cs)"
        "b = Right \<longrightarrow> y \<noteq> []" "b = Left \<longrightarrow> x \<noteq> [] \<or> k = 0"
      by (rule Cons.IH[OF _ ne(1) later(2) ne(2)])
    have "x \<noteq> []" if "b = Left" using k that later(3) by auto
    then show ?thesis using Cons.prems(1)[of "Suc k" x y] k later(1) by auto
  qed
qed simp

lemma pieces_mono: "i \<le> j \<Longrightarrow> length (concat (take i css)) \<le> length (concat (take j css))"
  by (metis append_take_drop_id concat_append le_add1 length_append min.absorb2 min.commute take_take)

context text_seek
begin

lemma piece_hits:
  assumes css: "concat css = xs @ ys" and k: "k < length css" "xs = concat (take k css) @ x" "css ! k = x @ y"
    and b: "b = Right \<longrightarrow> y \<noteq> []" "b = Left \<longrightarrow> x \<noteq> [] \<or> k = 0"
  shows "j < k \<Longrightarrow> \<not> target_in (target xs) b (\<mu> (concat (take (Suc j) css)))"
    and "k \<le> j \<Longrightarrow> j < length css \<Longrightarrow> target_in (target xs) b (\<mu> (concat (take (Suc j) css)))"
proof -
  have t: "target xs (\<mu> (concat (take i css))) = cmp (length xs) (length (concat (take i css)))" for i
  proof (rule target_prefix)
    show "xs @ ys = concat (take i css) @ concat (drop i css)" using css by (metis append_take_drop_id concat_append)
  qed
  have sk: "length (concat (take (Suc k) css)) = length (concat (take k css)) + length (x @ y)"
    using k(1,3) by (simp add: take_Suc_conv_app_nth)
  show "\<not> target_in (target xs) b (\<mu> (concat (take (Suc j) css)))" if "j < k"
    using pieces_mono[of "Suc j" k css] that k(2) b(2) unfolding target_in_def t
    by (cases b; cases x) (auto simp: cmp_def)
  show "target_in (target xs) b (\<mu> (concat (take (Suc j) css)))" if "k \<le> j" "j < length css"
    using pieces_mono[of "Suc k" "Suc j" css] that k(2) b(1) sk unfolding target_in_def t
    by (cases b; cases y) (auto simp: cmp_def)
qed

lemma find_text:
  assumes r: "rope_rep r css" "[] \<notin> set css" and css: "concat css = xs @ ys" "ys \<noteq> [] \<or> b = Left \<and> css \<noteq> []"
  obtains p x y q c where "xs = p @ x" "ys = y @ q" "chunk_rep c (x @ y)" "b = Right \<longrightarrow> y \<noteq> []"
    "st_find M (chunks r) (target xs) b = (\<mu> p, \<mu> (p @ x @ y), Some c)"
proof -
  obtain k x y where k: "k < length css" "xs = concat (take k css) @ x" "css ! k = x @ y" "ys = y @ concat (drop (Suc k) css)"
      "b = Right \<longrightarrow> y \<noteq> []" "b = Left \<longrightarrow> x \<noteq> [] \<or> k = 0"
    using r(2) css by (rule piece_at)
  note hits = piece_hits[OF css(1) k(1-3) k(5,6)]
  have "concat (take (Suc k) css) = concat (take k css) @ x @ y" using k(1,3) by (simp add: take_Suc_conv_app_nth)
  then show thesis using find_at[OF r(1) k(1) hits] rope_rep_nth[OF r(1) k(1)] k by (intro that[OF k(2,4)]) auto
qed

lemma seek_text:
  assumes r: "rope_rep r css" "[] \<notin> set css" and css: "concat css = xs @ ys" "ys \<noteq> [] \<or> b = Left \<and> css \<noteq> []"
    and h: "node_height (chunks r) < MAX_DEPTH"
  obtains p x y q c cur f where "xs = p @ x" "ys = y @ q" "chunk_rep c (x @ y)" "b = Right \<longrightarrow> y \<noteq> []"
    "cursor_seek M (target xs) b (cursor_new M (chunks r)) = Some (cur, f)" "cursor_start cur = \<mu> p" "cursor_item cur = Some (Some c)"
proof -
  obtain k x y where k: "k < length css" "xs = concat (take k css) @ x" "css ! k = x @ y" "ys = y @ concat (drop (Suc k) css)"
      "b = Right \<longrightarrow> y \<noteq> []" "b = Left \<longrightarrow> x \<noteq> [] \<or> k = 0"
    using r(2) css by (rule piece_at)
  note hits = piece_hits[OF css(1) k(1-3) k(5,6)]
  have "target xs (\<mu> []) \<noteq> Less" using target_after[of "[]" xs] by simp
  from seek_at[OF r(1) less_imp_le[OF k(1)] hits h this, of "cursor_new M (chunks r)"] obtain cur f where
    cur: "cursor_seek M (target xs) b (cursor_new M (chunks r)) = Some (cur, f)" "cursor_at chunk_ops M (chunks r) k cur"
    by (auto simp: cursor_new_def)
  show thesis using cursor_reads[OF r(1) cur(2)] rope_rep_nth[OF r(1) k(1)] k cur(1) by (intro that[OF k(2,4)]) auto
qed

end

lemma seek_pair:
  assumes "text_seek M \<mu> target" "text_measure N \<nu>"
  shows "text_seek (pair_dim M N) (\<lambda>cs. (\<mu> cs, \<nu> cs)) (\<lambda>xs. pair_target (target xs))"
  using assms measure_pair[of M \<mu> N \<nu>] unfolding text_seek_def text_seek_axioms_def pair_target_def by simp

subsection \<open>The four kinds of positions\<close>

lemma end_point_grows:
  assumes "ys \<noteq> []"
  shows "point_cmp (end_point xs) (end_point (xs @ ys)) = Less" "point_cmp (end_point (xs @ ys)) (end_point xs) = Greater"
    "point_cmp (end_point_utf16 xs) (end_point_utf16 (xs @ ys)) = Less" "point_cmp (end_point_utf16 (xs @ ys)) (end_point_utf16 xs) = Greater"
proof -
  have "rows ys = 0 \<Longrightarrow> last_line ys = ys" using text_lines_single[of ys] by (auto simp: filter_empty_conv)
  then have "0 < rows ys \<or> 0 < bytes_of (last_line ys) \<and> 0 < units (last_line ys)"
    using assms by (auto simp: str_of_eq_Nil units_zero zero_less_iff_neq_zero)
  then show "point_cmp (end_point xs) (end_point (xs @ ys)) = Less" "point_cmp (end_point (xs @ ys)) (end_point xs) = Greater"
    "point_cmp (end_point_utf16 xs) (end_point_utf16 (xs @ ys)) = Less" "point_cmp (end_point_utf16 (xs @ ys)) (end_point_utf16 xs) = Greater"
    unfolding end_point_append end_point_utf16_append point_cmp_simps by (auto simp: point_add_def)
qed

interpretation usize_s: text_seek usize_dim bytes_of "\<lambda>xs. cmp (bytes_of xs)"
  by unfold_locales (auto simp: cmp_def str_of_eq_Nil)

interpretation utf16_s: text_seek utf16_dim units "\<lambda>xs. cmp (units xs)"
  by unfold_locales (auto simp: cmp_def units_zero)

interpretation point_s: text_seek point_dim end_point "\<lambda>xs. point_cmp (end_point xs)"
  by unfold_locales (auto simp: end_point_grows point_cmp_simps)

interpretation point_utf16_s: text_seek point_utf16_dim end_point_utf16 "\<lambda>xs. point_cmp (end_point_utf16 xs)"
  by unfold_locales (auto simp: end_point_grows point_cmp_simps)

lemmas seek_axioms = usize_s.text_seek_axioms utf16_s.text_seek_axioms point_s.text_seek_axioms point_utf16_s.text_seek_axioms

lemmas measure_axioms = usize_m.text_measure_axioms utf16_m.text_measure_axioms point_m.text_measure_axioms
  point_utf16_m.text_measure_axioms

text \<open>
  A conversion at the prefix \<open>xs\<close> of a text: beyond the last chunk the end of the text, otherwise in the chunk that
  \<open>find\<close> returns, relative to its start.
\<close>

lemma convert_find:
  assumes r: "rope_rep r css" "[] \<notin> set css" "concat css = xs @ ys" "ys \<noteq> []"
    and s: "text_seek M \<mu> target" "text_measure N \<nu>"
  obtains p x y c e where "xs = p @ x" "chunk_rep c (x @ y)"
    "st_find (pair_dim M N) (chunks r) (pair_target (target xs)) Left = ((\<mu> p, \<nu> p), e, Some c)"
proof -
  have "ys \<noteq> [] \<or> Left = Left \<and> css \<noteq> []" using r(4) by simp
  from text_seek.find_text[OF seek_pair[OF s] r(1-3) this] show thesis by (metis that)
qed

lemma convert_seek:
  assumes r: "rope_rep r css" "[] \<notin> set css" "concat css = xs @ ys" "ys \<noteq> []" "node_height (chunks r) < MAX_DEPTH"
    and s: "text_seek M \<mu> target" "text_measure N \<nu>"
  obtains p x y c cur f where "xs = p @ x" "chunk_rep c (x @ y)"
    "cursor_seek (pair_dim M N) (pair_target (target xs)) Left (cursor_new (pair_dim M N) (chunks r)) = Some (cur, f)"
    "cursor_start cur = (\<mu> p, \<nu> p)" "cursor_item cur = Some (Some c)"
proof -
  have "ys \<noteq> [] \<or> Left = Left \<and> css \<noteq> []" using r(4) by simp
  from text_seek.seek_text[OF seek_pair[OF s] r(1-3) this r(5)] show thesis by (metis that)
qed

lemma position_subs:
  "checked_sub (bytes_of (p @ x)) (bytes_of p) = Some (bytes_of x)"
  "offset_utf16_sub (units (p @ x)) (units p) = Some (units x)"
  "point_sub (end_point (p @ x)) (end_point p) = Some (end_point x)"
  "point_sub (end_point_utf16 (p @ x)) (end_point_utf16 p) = Some (end_point_utf16 x)"
  by (simp_all add: offset_utf16_sub_def end_point_append end_point_utf16_append point_sub_add)

lemma position_less:
  assumes "ys \<noteq> []"
  shows "\<not> bytes_of (xs @ ys) \<le> bytes_of xs" "\<not> units (xs @ ys) \<le> units xs"
    "point_cmp (end_point xs) (end_point (xs @ ys)) = Less" "point_cmp (end_point_utf16 xs) (end_point_utf16 (xs @ ys)) = Less"
  using assms by (simp_all add: end_point_grows str_of_eq_Nil units_zero zero_less_iff_neq_zero)

lemma position_equal: "point_cmp p p = Equal"
  by (simp add: point_cmp_simps)

subsection \<open>Conversions\<close>

lemmas rope_find_defs = rope_offset_to_offset_utf16_def rope_offset_utf16_to_offset_def rope_offset_to_point_def
  rope_offset_to_point_utf16_def rope_point_to_point_utf16_def rope_point_to_offset_def rope_point_utf16_to_offset_def
  rope_unclipped_point_utf16_to_point_def

lemmas rope_seek_defs = rope_point_utf16_to_point_def rope_point_to_offset_utf16_def rope_point_utf16_to_offset_utf16_def

lemmas chunk_conversions = offset_to_point_rep point_to_offset_rep offset_utf16_rep offset_utf16_to_offset_rep
  offset_to_point_utf16_rep point_utf16_to_offset_rep composed_conversions_rep

lemma rope_at_end:
  assumes "rope_rep r css"
  shows "rope_offset_to_offset_utf16 r (bytes_of (concat css)) = Some (units (concat css))"
    "rope_offset_utf16_to_offset r (units (concat css)) = Some (bytes_of (concat css))"
    "rope_offset_to_point r (bytes_of (concat css)) = Some (end_point (concat css))"
    "rope_offset_to_point_utf16 r (bytes_of (concat css)) = Some (end_point_utf16 (concat css))"
    "rope_point_to_point_utf16 r (end_point (concat css)) = Some (end_point_utf16 (concat css))"
    "rope_point_to_offset r (end_point (concat css)) = Some (bytes_of (concat css))"
    "rope_point_utf16_to_offset r (end_point_utf16 (concat css)) = Some (bytes_of (concat css))"
    "rope_unclipped_point_utf16_to_point r (end_point_utf16 (concat css)) = Some (end_point (concat css))"
    "rope_point_utf16_to_point r (end_point_utf16 (concat css)) = Some (end_point (concat css))"
    "rope_point_to_offset_utf16 r (end_point (concat css)) = Some (units (concat css))"
    "rope_point_utf16_to_offset_utf16 r (end_point_utf16 (concat css)) = Some (units (concat css))"
  using rope_sizes(1)[OF assms] by (simp_all add: rope_find_defs rope_seek_defs position_equal)

lemma position_less_parts:
  assumes "ys \<noteq> []"
  shows "point_cmp (point_add (end_point p) (end_point x)) (point_add (end_point p) (point_add (end_point x) (end_point ys))) = Less"
    "point_cmp (point_add (end_point_utf16 p) (end_point_utf16 x))
       (point_add (end_point_utf16 p) (point_add (end_point_utf16 x) (end_point_utf16 ys))) = Less"
  using position_less(3,4)[OF assms, of "p @ x"] by (simp_all add: end_point_append end_point_utf16_append point_add_assoc)

lemma find_conversions_inside:
  assumes r: "rope_rep r css" "[] \<notin> set css" "concat css = xs @ ys" and ys: "ys \<noteq> []"
  shows "rope_offset_to_offset_utf16 r (bytes_of xs) = Some (units xs)"
    "rope_offset_utf16_to_offset r (units xs) = Some (bytes_of xs)"
    "rope_offset_to_point r (bytes_of xs) = Some (end_point xs)"
    "rope_offset_to_point_utf16 r (bytes_of xs) = Some (end_point_utf16 xs)"
    "rope_point_to_point_utf16 r (end_point xs) = Some (end_point_utf16 xs)"
    "rope_point_to_offset r (end_point xs) = Some (bytes_of xs)"
    "rope_point_utf16_to_offset r (end_point_utf16 xs) = Some (bytes_of xs)"
    "rope_unclipped_point_utf16_to_point r (end_point_utf16 xs) = Some (end_point xs)"
proof -
  note rw = rope_find_defs rope_sizes(1)[OF r(1)] r(3) position_less[OF ys(1)] position_less_parts[OF ys(1)] position_subs chunk_conversions end_point_append
    end_point_utf16_append point_sub_add offset_utf16_sub_def str_of_eq_Nil units_zero ys(1)
  show "rope_offset_to_offset_utf16 r (bytes_of xs) = Some (units xs)"
    by (rule convert_find[OF r ys seek_axioms(1) measure_axioms(2)]) (simp add: rw)
  show "rope_offset_utf16_to_offset r (units xs) = Some (bytes_of xs)"
    by (rule convert_find[OF r ys seek_axioms(2) measure_axioms(1)]) (simp add: rw)
  show "rope_offset_to_point r (bytes_of xs) = Some (end_point xs)"
    by (rule convert_find[OF r ys seek_axioms(1) measure_axioms(3)]) (simp add: rw)
  show "rope_offset_to_point_utf16 r (bytes_of xs) = Some (end_point_utf16 xs)"
    by (rule convert_find[OF r ys seek_axioms(1) measure_axioms(4)]) (simp add: rw)
  show "rope_point_to_point_utf16 r (end_point xs) = Some (end_point_utf16 xs)"
    by (rule convert_find[OF r ys seek_axioms(3) measure_axioms(4)]) (simp add: rw)
  show "rope_point_to_offset r (end_point xs) = Some (bytes_of xs)"
    by (rule convert_find[OF r ys seek_axioms(3) measure_axioms(1)]) (simp add: rw)
  show "rope_point_utf16_to_offset r (end_point_utf16 xs) = Some (bytes_of xs)"
    by (rule convert_find[OF r ys seek_axioms(4) measure_axioms(1)]) (simp add: rw)
  show "rope_unclipped_point_utf16_to_point r (end_point_utf16 xs) = Some (end_point xs)"
    by (rule convert_find[OF r ys seek_axioms(4) measure_axioms(3)]) (simp add: rw)
qed

lemma seek_conversions_inside:
  assumes r: "rope_rep r css" "[] \<notin> set css" "concat css = xs @ ys" and ys: "ys \<noteq> []" "node_height (chunks r) < MAX_DEPTH"
  shows "rope_point_utf16_to_point r (end_point_utf16 xs) = Some (end_point xs)"
    "rope_point_to_offset_utf16 r (end_point xs) = Some (units xs)"
    "rope_point_utf16_to_offset_utf16 r (end_point_utf16 xs) = Some (units xs)"
proof -
  note rw = rope_seek_defs rope_sizes(1)[OF r(1)] r(3) position_less[OF ys(1)] position_less_parts[OF ys(1)] position_subs chunk_conversions end_point_append
    end_point_utf16_append point_sub_add offset_utf16_sub_def str_of_eq_Nil units_zero ys(1)
  show "rope_point_utf16_to_point r (end_point_utf16 xs) = Some (end_point xs)"
    by (rule convert_seek[OF r ys(1,2) seek_axioms(4) measure_axioms(3)]) (simp add: rw)
  show "rope_point_to_offset_utf16 r (end_point xs) = Some (units xs)"
    by (rule convert_seek[OF r ys(1,2) seek_axioms(3) measure_axioms(2)]) (simp add: rw)
  show "rope_point_utf16_to_offset_utf16 r (end_point_utf16 xs) = Some (units xs)"
    by (rule convert_seek[OF r ys(1,2) seek_axioms(4) measure_axioms(2)]) (simp add: rw)
qed

lemma rope_find_conversions:
  assumes r: "rope_rep r css" "[] \<notin> set css" "concat css = xs @ ys"
  shows "rope_offset_to_offset_utf16 r (bytes_of xs) = Some (units xs)"
    "rope_offset_utf16_to_offset r (units xs) = Some (bytes_of xs)"
    "rope_offset_to_point r (bytes_of xs) = Some (end_point xs)"
    "rope_offset_to_point_utf16 r (bytes_of xs) = Some (end_point_utf16 xs)"
    "rope_point_to_point_utf16 r (end_point xs) = Some (end_point_utf16 xs)"
    "rope_point_to_offset r (end_point xs) = Some (bytes_of xs)"
    "rope_point_utf16_to_offset r (end_point_utf16 xs) = Some (bytes_of xs)"
    "rope_unclipped_point_utf16_to_point r (end_point_utf16 xs) = Some (end_point xs)"
  using find_conversions_inside[OF r] rope_at_end[OF r(1)] r(3) by (cases "ys = []"; simp)+

lemma rope_seek_conversions:
  assumes r: "rope_rep r css" "[] \<notin> set css" "concat css = xs @ ys" and h: "node_height (chunks r) < MAX_DEPTH"
  shows "rope_point_utf16_to_point r (end_point_utf16 xs) = Some (end_point xs)"
    "rope_point_to_offset_utf16 r (end_point xs) = Some (units xs)"
    "rope_point_utf16_to_offset_utf16 r (end_point_utf16 xs) = Some (units xs)"
  using seek_conversions_inside[OF r _ h] rope_at_end[OF r(1)] r(3) by (cases "ys = []"; simp)+

subsection \<open>Character boundaries\<close>

lemma boundary_middle:
  assumes s: "\<forall>c\<in>set (p @ cs @ q). is_scalar c" and m: "m \<le> bytes_of cs"
  shows "str_is_char_boundary (str_of (p @ cs @ q)) (bytes_of p + m) \<longleftrightarrow> str_is_char_boundary (str_of cs) m"
proof
  assume "str_is_char_boundary (str_of cs) m"
  moreover have "\<forall>c\<in>set cs. is_scalar c" using s by simp
  ultimately obtain x y where "cs = x @ y" "m = bytes_of x" by (auto elim: boundary_between_chars)
  then show "str_is_char_boundary (str_of (p @ cs @ q)) (bytes_of p + m)"
    using boundary_of_prefix[of "y @ q" "p @ x"] s by simp
next
  assume b: "str_is_char_boundary (str_of (p @ cs @ q)) (bytes_of p + m)"
  show "str_is_char_boundary (str_of cs) m"
  proof (cases "m = 0 \<or> m = bytes_of cs")
    case False
    then have "m < bytes_of cs" "m \<noteq> 0" using m by auto
    then show ?thesis using b by (auto simp: str_is_char_boundary_def nth_append)
  qed (auto simp: str_is_char_boundary_def)
qed

lemma str_floor_bound:
  assumes "i \<le> length bs"
  shows "str_is_char_boundary bs (str_floor_char_boundary bs i)" "str_floor_char_boundary bs i \<le> i"
    "\<And>j. str_floor_char_boundary bs i < j \<Longrightarrow> j \<le> i \<Longrightarrow> \<not> str_is_char_boundary bs j"
  using assms floor_from_spec[of bs i] by (auto simp: str_floor_char_boundary_def str_is_char_boundary_def split: if_splits)

lemma str_floor_unique:
  assumes "str_is_char_boundary bs f" "f \<le> i" "i \<le> length bs" "\<And>j. f < j \<Longrightarrow> j \<le> i \<Longrightarrow> \<not> str_is_char_boundary bs j"
  shows "str_floor_char_boundary bs i = f"
  using str_floor_bound[OF assms(3)] assms(1,2,4) by (meson not_le order_antisym)

lemma str_ceil_bound:
  assumes "i \<le> length bs"
  shows "str_is_char_boundary bs (str_ceil_char_boundary bs i)" "i \<le> str_ceil_char_boundary bs i"
    "str_ceil_char_boundary bs i \<le> length bs" "\<And>j. 0 < i \<Longrightarrow> i \<le> j \<Longrightarrow> j < str_ceil_char_boundary bs i \<Longrightarrow> \<not> str_is_char_boundary bs j"
proof -
  let ?P = "\<lambda>b. \<not> is_utf8_char_boundary b" and ?n = "length (takeWhile (\<lambda>b. \<not> is_utf8_char_boundary b) (drop i bs))"
  have n: "?n \<le> length bs - i" using length_takeWhile_le[of ?P "drop i bs"] by simp
  show "i \<le> str_ceil_char_boundary bs i" "str_ceil_char_boundary bs i \<le> length bs"
    using assms n by (auto simp: str_ceil_char_boundary_def)
  show "str_is_char_boundary bs (str_ceil_char_boundary bs i)"
  proof (cases "i + ?n < length bs")
    case True
    then have "is_utf8_char_boundary (bs ! (i + ?n))" using nth_length_takeWhile[of ?P "drop i bs"] by simp
    then show ?thesis using True by (simp add: str_ceil_char_boundary_def str_is_char_boundary_def)
  qed (use assms n in \<open>auto simp: str_ceil_char_boundary_def str_is_char_boundary_def\<close>)
  show "\<not> str_is_char_boundary bs j" if j: "0 < i" "i \<le> j" "j < str_ceil_char_boundary bs i" for j
  proof -
    have i: "i < length bs" "j - i < ?n" using j assms by (auto simp: str_ceil_char_boundary_def split: if_splits)
    then have "takeWhile ?P (drop i bs) ! (j - i) = bs ! j" using j(2) by (simp add: takeWhile_nth)
    then have "?P (bs ! j)" using set_takeWhileD[of "bs ! j" ?P "drop i bs"] i(2) by (metis nth_mem)
    moreover have "j < length bs" using i n j(2) by linarith
    ultimately show ?thesis using j by (simp add: str_is_char_boundary_def)
  qed
qed

lemma str_ceil_unique:
  assumes "str_is_char_boundary bs f" "i \<le> f" "f \<le> length bs" "0 < i \<or> f = 0" "\<And>j. i \<le> j \<Longrightarrow> j < f \<Longrightarrow> \<not> str_is_char_boundary bs j"
    and "bs \<noteq> [] \<longrightarrow> is_utf8_char_boundary (hd bs)"
  shows "str_ceil_char_boundary bs i = f"
proof (cases "i = 0")
  case True
  then have f: "f = 0" using assms(4) by simp
  show ?thesis
  proof (cases bs)
    case (Cons b ds)
    then show ?thesis using True f assms(6) by (simp add: str_ceil_char_boundary_def)
  qed (use True f in \<open>simp add: str_ceil_char_boundary_def\<close>)
next
  case False
  have i: "i \<le> length bs" using assms(2,3) by simp
  note c = str_ceil_bound[OF i]
  have "f \<le> str_ceil_char_boundary bs i" using assms(5)[of "str_ceil_char_boundary bs i"] c(1,2) by (meson not_le)
  moreover have "str_ceil_char_boundary bs i \<le> f" using c(4)[of f] assms(1,2) False by (meson not_le zero_less_iff_neq_zero)
  ultimately show ?thesis by simp
qed

lemma find_byte:
  assumes r: "rope_rep r css" "[] \<notin> set css" "css \<noteq> []" and n: "n \<le> bytes_of (concat css)"
  obtains p cs q m c where "concat css = p @ cs @ q" "n = bytes_of p + m" "m \<le> bytes_of cs" "m = 0 \<longrightarrow> p = []" "chunk_rep c cs"
    "st_find usize_dim (chunks r) (cmp n) Left = (bytes_of p, bytes_of (p @ cs), Some c)"
proof -
  define k where "k = (LEAST k. n \<le> bytes_of (concat (take (Suc k) css)))"
  let ?B = "\<lambda>k. bytes_of (concat (take k css))"
  have last: "n \<le> ?B (Suc (length css - 1))" using n r(3) by simp
  have k: "n \<le> ?B (Suc k)" unfolding k_def by (rule LeastI[of "\<lambda>k. n \<le> ?B (Suc k)", OF last])
  have "k \<le> length css - 1" unfolding k_def by (rule Least_le[of "\<lambda>k. n \<le> ?B (Suc k)", OF last])
  then have klen: "k < length css" using r(3) by (cases css) auto
  have before: "?B (Suc j) < n" if "j < k" for j using not_less_Least[of j "\<lambda>k. n \<le> ?B (Suc k)"] that by (simp add: k_def)
  have suc: "concat (take (Suc j) css) = concat (take j css) @ css ! j" if "j < length css" for j
    using that by (simp add: take_Suc_conv_app_nth)
  have mono: "?B i \<le> ?B j" if "i \<le> j" for i j
  proof -
    have "take j css = take i css @ take (j - i) (drop i css)" using that by (metis le_add_diff_inverse take_add)
    then show ?thesis by simp
  qed
  have start: "?B k \<le> n" "0 < k \<longrightarrow> ?B k < n" using before[of "k - 1"] by (cases k; simp)+
  have split: "concat css = concat (take k css) @ css ! k @ concat (drop (Suc k) css)"
    using arg_cong[OF id_take_nth_drop[OF klen], of concat] by simp
  have find: "st_find usize_dim (chunks r) (cmp n) Left = (?B k, ?B (Suc k), Some (to_list (chunks r) ! k))"
  proof (rule usize_m.find_at[OF r(1) klen])
    show "\<not> target_in (cmp n) Left (?B (Suc j))" if "j < k" for j using before[OF that] by (simp add: target_in_def cmp_def)
    show "target_in (cmp n) Left (?B (Suc j))" if "k \<le> j" for j using mono[of "Suc k" "Suc j"] k that by (auto simp: target_in_def cmp_def)
  qed
  show thesis
  proof (rule that[OF split, of "n - ?B k" "to_list (chunks r) ! k"])
    show "st_find usize_dim (chunks r) (cmp n) Left = (?B k, bytes_of (concat (take k css) @ css ! k), Some (to_list (chunks r) ! k))"
      using find suc[OF klen] by simp
  qed (use start k suc[OF klen] rope_rep_nth[OF r(1) klen] in auto)
qed

lemma rope_boundary_rep:
  assumes r: "rope_rep r css" "[] \<notin> set css"
  shows "rope_is_char_boundary r i = Some (str_is_char_boundary (str_of (concat css)) i)"
proof (cases "css = [] \<or> bytes_of (concat css) < i")
  case True
  then consider "css = []" | "css \<noteq> []" "bytes_of (concat css) < i" by blast
  then show ?thesis
  proof cases
    case 2
    have "st_find usize_dim (chunks r) (cmp i) Left = (bytes_of (concat css), bytes_of (concat css), None)"
      by (rule usize_m.find_end[OF r(1)]) (use 2 in \<open>simp add: cmp_def\<close>)
    then show ?thesis using 2 rope_rep_empty[OF r(1)] by (simp add: rope_is_char_boundary_def str_is_char_boundary_def)
  qed (use rope_rep_empty[OF r(1)] in \<open>auto simp: rope_is_char_boundary_def str_is_char_boundary_def\<close>)
next
  case False
  then have i: "css \<noteq> []" "i \<le> bytes_of (concat css)" by auto
  obtain p cs q m c where f: "concat css = p @ cs @ q" "i = bytes_of p + m" "m \<le> bytes_of cs" "m = 0 \<longrightarrow> p = []" "chunk_rep c cs"
      "st_find usize_dim (chunks r) (cmp i) Left = (bytes_of p, bytes_of (p @ cs), Some c)"
    using r i by (rule find_byte)
  have "chunk_is_char_boundary c m \<longleftrightarrow> str_is_char_boundary (str_of cs) m"
    using is_char_boundary_iff[OF f(5), of m] f(3) chunk_rep_length[OF f(5)] by simp
  also have "\<dots> \<longleftrightarrow> str_is_char_boundary (str_of (concat css)) i"
    using boundary_middle[of p cs q m] rope_rep_scalars[OF r(1)] f by simp
  finally show ?thesis using f i rope_rep_empty[OF r(1)] by (simp add: rope_is_char_boundary_def)
qed

lemma rope_floor_rep:
  assumes r: "rope_rep r css" "[] \<notin> set css"
  shows "rope_floor_char_boundary r i = Some (str_floor_char_boundary (str_of (concat css)) i)"
proof (cases "bytes_of (concat css) \<le> i")
  case True
  then show ?thesis using rope_sizes(2)[OF r(1)] by (simp add: rope_floor_char_boundary_def str_floor_char_boundary_def)
next
  case False
  then have i: "css \<noteq> []" "i \<le> bytes_of (concat css)" by auto
  obtain p cs q m c where f: "concat css = p @ cs @ q" "i = bytes_of p + m" "m \<le> bytes_of cs" "m = 0 \<longrightarrow> p = []" "chunk_rep c cs"
      "st_find usize_dim (chunks r) (cmp i) Left = (bytes_of p, bytes_of (p @ cs), Some c)"
    using r i by (rule find_byte)
  note b = boundary_middle[of p cs q, folded f(1), OF rope_rep_scalars[OF r(1)]]
  note fl = str_floor_bound[OF f(3)]
  have "str_floor_char_boundary (str_of (concat css)) i = bytes_of p + str_floor_char_boundary (str_of cs) m"
  proof (rule str_floor_unique)
    show "\<not> str_is_char_boundary (str_of (concat css)) j" if "bytes_of p + str_floor_char_boundary (str_of cs) m < j" "j \<le> i" for j
      using fl(3)[of "j - bytes_of p"] b[of "j - bytes_of p"] that f(2,3) by simp
  qed (use fl f(2,3) b i(2) in auto)
  then show ?thesis using f False rope_sizes(2)[OF r(1)] chunk_rep_text[OF f(5)] by (simp add: rope_floor_char_boundary_def)
qed

lemma rope_ceil_rep:
  assumes r: "rope_rep r css" "[] \<notin> set css"
  shows "rope_ceil_char_boundary r i = Some (str_ceil_char_boundary (str_of (concat css)) i)"
proof (cases "css = [] \<or> bytes_of (concat css) < i")
  case True
  then consider "css = []" "i = 0" | "bytes_of (concat css) < i" by fastforce
  then show ?thesis
  proof cases
    case 1
    then have "to_list (chunks r) = []" using rope_rep_length[OF r(1)] by simp
    then have "st_find usize_dim (chunks r) (cmp 0) Left = (0, 0, None)"
      using r(1) by (cases "chunks r")
        (auto simp: rope_rep_def st_find_def st_find_gen_def sum_summaries_def usize_dim_def ts_zero_def cmp_def neq_Nil_conv)
    then show ?thesis using 1 rope_sizes(2)[OF r(1)] by (simp add: rope_ceil_char_boundary_def str_ceil_char_boundary_def)
  qed (use rope_sizes(2)[OF r(1)] in \<open>simp add: rope_ceil_char_boundary_def str_ceil_char_boundary_def\<close>)
next
  case False
  then have i: "css \<noteq> []" "i \<le> bytes_of (concat css)" by auto
  obtain p cs q m c where f: "concat css = p @ cs @ q" "i = bytes_of p + m" "m \<le> bytes_of cs" "m = 0 \<longrightarrow> p = []" "chunk_rep c cs"
      "st_find usize_dim (chunks r) (cmp i) Left = (bytes_of p, bytes_of (p @ cs), Some c)"
    using r i by (rule find_byte)
  note s = rope_rep_scalars[OF r(1)]
  note b = boundary_middle[of p cs q, folded f(1), OF s]
  note cl = str_ceil_bound[OF f(3)]
  have hd: "is_utf8_char_boundary (hd (str_of ds))" if "str_of ds \<noteq> []" "set ds \<subseteq> set (concat css)" for ds
    using str_of_hd_boundary(1)[of ds] that s by (auto simp: str_of_eq_Nil)
  have zero: "str_ceil_char_boundary (str_of cs) 0 = 0"
    using hd[of cs] f(1) by (cases "str_of cs") (auto simp: str_ceil_char_boundary_def)
  have "str_ceil_char_boundary (str_of (concat css)) i = bytes_of p + str_ceil_char_boundary (str_of cs) m"
  proof (rule str_ceil_unique)
    show "\<not> str_is_char_boundary (str_of (concat css)) j" if "i \<le> j" "j < bytes_of p + str_ceil_char_boundary (str_of cs) m" for j
      using cl(3) cl(4)[of "j - bytes_of p"] b[of "j - bytes_of p"] that f(2,3) zero by (cases "m = 0") auto
    show "0 < i \<or> bytes_of p + str_ceil_char_boundary (str_of cs) m = 0" using f(2,4) zero by (cases "m = 0") auto
    show "str_of (concat css) \<noteq> [] \<longrightarrow> is_utf8_char_boundary (hd (str_of (concat css)))" using hd[of "concat css"] by simp
    show "bytes_of p + str_ceil_char_boundary (str_of cs) m \<le> bytes_of (concat css)" using cl(3) f(1) by simp
  qed (use cl f(2,3) b in auto)
  then show ?thesis using f i rope_sizes(2)[OF r(1)] chunk_rep_text[OF f(5)] by (simp add: rope_ceil_char_boundary_def)
qed

end
