(* ===== verification/Rope_Slice.thy ===== *)
theory Rope_Slice
  imports Rope_Convert
begin

section \<open>Slicing and replacing text\<close>

text \<open>
  The cursor of a rope stands at a prefix of the text: its chunk cursor is at the chunk that contains the end
  of the prefix, or past the last chunk. Moving it forward cuts out the text in between, as a rope or as a
  summary, and \<open>replace\<close> puts the parts together again.
\<close>

subsection \<open>Moving forward\<close>

text \<open>The pieces before index \<open>k\<close> end before the target and the others do not.\<close>

definition cut_at :: "(scalar list \<Rightarrow> bool) \<Rightarrow> scalar list list \<Rightarrow> nat \<Rightarrow> bool" where
  "cut_at hit css k \<longleftrightarrow> k \<le> length css \<and> (\<forall>j<k. \<not> hit (concat (take (Suc j) css))) \<and>
     (\<forall>j. k \<le> j \<and> j < length css \<longrightarrow> hit (concat (take (Suc j) css)))"

context text_measure
begin

lemma forward_facts:
  assumes r: "rope_rep r css" and k: "cut_at (\<lambda>cs. target_in t b (\<mu> cs)) css k" "m \<le> k" and fwd: "t (\<mu> (concat (take m css))) \<noteq> Less"
  shows "st_wf chunk_ops valid_ts (chunks r)" "t (item_pos chunk_ops M (chunks r) m) \<noteq> Less"
    "seek_mono M (target_in t b) (dim_zero M) (map (item_summary chunk_ops) (to_list (chunks r)))"
    "first_from (seek_hit chunk_ops M t b (chunks r)) (length (to_list (chunks r))) m = k"
    "list_all2 chunk_rep (segment (to_list (chunks r)) m k) (segment css m k)"
proof -
  show "st_wf chunk_ops valid_ts (chunks r)" "t (item_pos chunk_ops M (chunks r) m) \<noteq> Less"
    using r fwd by (auto simp: rope_rep_def item_pos_measure(1)[OF r])
  show "seek_mono M (target_in t b) (dim_zero M) (map (item_summary chunk_ops) (to_list (chunks r)))"
    using hits_mono(1)[OF r, of k t b] k(1) unfolding cut_at_def by blast
  show "first_from (seek_hit chunk_ops M t b (chunks r)) (length (to_list (chunks r))) m = k"
    by (rule first_from_unique)
       (use k in \<open>auto simp: cut_at_def seek_hit_def item_pos_measure(1)[OF r] rope_rep_length[OF r]\<close>)
  show "list_all2 chunk_rep (segment (to_list (chunks r)) m k) (segment css m k)"
    using r by (auto simp: rope_rep_def segment_def intro: list_all2_dropI list_all2_takeI)
qed

lemma seek_forward_at:
  assumes "rope_rep r css" "cut_at (\<lambda>cs. target_in t b (\<mu> cs)) css k" "m \<le> k" "t (\<mu> (concat (take m css))) \<noteq> Less"
    and h: "node_height (chunks r) < MAX_DEPTH" and c: "cursor_at chunk_ops M (chunks r) m c"
  obtains c' f where "cursor_seek_forward M t b c = Some (c', f)" "cursor_at chunk_ops M (chunks r) k c'"
proof -
  note f = forward_facts[OF assms(1-4)]
  show thesis
    by (rule passing.seek_internal_from[OF f(1) h f(3) cursor_from_at[OF c] f(2) TrueI, unfolded f(4)])
       (auto simp: cursor_seek_forward_def intro: that)
qed

lemma slice_at:
  assumes "rope_rep r css" "cut_at (\<lambda>cs. target_in t b (\<mu> cs)) css k" "m \<le> k" "t (\<mu> (concat (take m css))) \<noteq> Less"
    and h: "node_height (chunks r) < MAX_DEPTH" and c: "cursor_at chunk_ops M (chunks r) m c"
  obtains c' u where "cursor_slice chunk_ops M t b c = Some (c', u)" "rope_rep \<lparr>chunks = u\<rparr> (segment css m k)"
    "cursor_at chunk_ops M (chunks r) k c'"
proof -
  note f = forward_facts[OF assms(1-4)]
  show thesis
  proof (rule cursor_slice_at[OF f(1) h f(3) cursor_from_at[OF c] f(2), unfolded f(4)])
    fix c' u assume u: "cursor_slice chunk_ops M t b c = Some (c', u)" "st_wf chunk_ops valid_ts u"
      "to_list u = segment (to_list (chunks r)) m k" "cursor_at chunk_ops M (chunks r) k c'"
    have "rope_rep \<lparr>chunks = u\<rparr> (segment css m k)" unfolding rope_rep_def using u(2,3) f(5) by (metis rope.select_convs(1))
    then show thesis by (rule that[OF u(1) _ u(4)])
  qed
qed

lemma summary_at:
  assumes "rope_rep r css" "cut_at (\<lambda>cs. target_in t b (\<mu> cs)) css k" "m \<le> k" "t (\<mu> (concat (take m css))) \<noteq> Less"
    and h: "node_height (chunks r) < MAX_DEPTH" and c: "cursor_at chunk_ops M (chunks r) m c" and N: "text_measure N \<nu>"
  obtains c' where "cursor_summary M N t b c = Some (c', \<nu> (concat (segment css m k)))" "cursor_at chunk_ops M (chunks r) k c'"
proof -
  note f = forward_facts[OF assms(1-4)]
  have sum: "foldl (dim_add N) (dim_zero N) (map (item_summary chunk_ops) (segment (to_list (chunks r)) m k)) = \<nu> (concat (segment css m k))"
    using text_measure.measure_sum[OF N, of "[]" "segment css m k"] text_measure.measure_Nil[OF N] chunk_summaries[OF f(5)] by simp
  have two: "two_dims chunk_ops valid_ts M N"
    using text_measure.measure_dim_laws[OF N] dim_laws_axioms by (simp add: two_dims_def)
  show thesis
    by (rule two_dims.cursor_summary_at[OF two f(1) h f(3) cursor_from_at[OF c] f(2), unfolded f(4) sum]) (rule that)
qed

end

subsection \<open>Places in a rope\<close>

text \<open>The prefix \<open>xs\<close> of the text ends in piece \<open>k\<close>, after its part \<open>x\<close>.\<close>

definition place :: "scalar list list \<Rightarrow> scalar list \<Rightarrow> nat \<Rightarrow> scalar list \<Rightarrow> bool" where
  "place css xs k x \<longleftrightarrow> xs = concat (take k css) @ x \<and>
     (if k < length css then \<exists>y. css ! k = x @ y else k = length css \<and> x = [])"

abbreviation byte_hit :: "nat \<Rightarrow> bias \<Rightarrow> scalar list \<Rightarrow> bool" where
  "byte_hit n b cs \<equiv> target_in (cmp n) b (bytes_of cs)"

lemma take_concat_le: "i \<le> j \<Longrightarrow> \<exists>zs. concat (take j css) = concat (take i css) @ zs"
  by (metis concat_append le_add_diff_inverse take_add)

lemma right_place:
  assumes css: "[] \<notin> set css" "concat css = xs @ ys"
  obtains k x where "place css xs k x" "cut_at (byte_hit (bytes_of xs) Right) css k"
    "\<And>m. m \<le> length css \<Longrightarrow> bytes_of (concat (take m css)) \<le> bytes_of xs \<Longrightarrow> m \<le> k"
proof (cases "ys = []")
  case True
  have "cut_at (byte_hit (bytes_of xs) Right) css (length css)"
  proof -
    have "bytes_of (concat (take j css)) \<le> bytes_of xs" for j
      using take_concat_le[of j "max j (length css)" css] css(2) True by auto
    then have "\<not> byte_hit (bytes_of xs) Right (concat (take j css))" for j by (simp add: target_in_def cmp_def not_less)
    then show ?thesis by (auto simp: cut_at_def)
  qed
  then show thesis using css(2) True by (intro that[of "length css" "[]"]) (auto simp: place_def)
next
  case False
  have "ys \<noteq> [] \<or> Right = Left \<and> css \<noteq> []" using False by simp
  with css obtain k x y where k: "k < length css" "xs = concat (take k css) @ x" "css ! k = x @ y" "ys = y @ concat (drop (Suc k) css)"
      "Right = Right \<longrightarrow> y \<noteq> []" "Right = Left \<longrightarrow> x \<noteq> [] \<or> k = 0"
    by (rule piece_at)
  note hits = usize_s.piece_hits[OF css(2) k(1-3) k(5,6)]
  show thesis
  proof (rule that[of k x])
    show "place css xs k x" using k by (auto simp: place_def)
    show "cut_at (byte_hit (bytes_of xs) Right) css k" using hits k(1) by (auto simp: cut_at_def)
    fix m assume "m \<le> length css" "bytes_of (concat (take m css)) \<le> bytes_of xs"
    moreover have "bytes_of xs < bytes_of (concat (take (Suc k) css))"
      using hits(2)[of k] k(1) by (auto simp: target_in_def cmp_def split: if_splits)
    moreover have "bytes_of (concat (take (Suc k) css)) \<le> bytes_of (concat (take m css))" if "Suc k \<le> m"
      using take_concat_le[OF that, of css] by auto
    ultimately show "m \<le> k" by (meson leD leI le_trans Suc_leI)
  qed
qed

subsection \<open>The rope cursor\<close>

definition rc_at :: "rope \<Rightarrow> scalar list list \<Rightarrow> scalar list \<Rightarrow> rope_cursor \<Rightarrow> bool" where
  "rc_at r css xs rc \<longleftrightarrow> rc_rope rc = r \<and> rc_offset rc = bytes_of xs \<and>
     (\<exists>k x. cursor_at chunk_ops usize_dim (chunks r) k (rc_chunks rc) \<and> place css xs k x)"

lemma place_le: "place css xs k x \<Longrightarrow> k \<le> length css \<and> bytes_of (concat (take k css)) \<le> bytes_of xs"
  by (auto simp: place_def split: if_splits)

lemma rc_new_at:
  assumes r: "rope_rep r css" "[] \<notin> set css" "concat css = xs @ ys" and h: "node_height (chunks r) < MAX_DEPTH"
  obtains rc where "rc_new r (bytes_of xs) = Some rc" "rc_at r css xs rc"
proof -
  obtain k x where k: "place css xs k x" "cut_at (byte_hit (bytes_of xs) Right) css k" using r(2,3) by (rule right_place)
  have "cmp (bytes_of xs) (bytes_of []) \<noteq> Less" "c_tree (cursor_new usize_dim (chunks r)) = chunks r"
    by (simp_all add: cmp_def cursor_new_def)
  then obtain c f where "cursor_seek usize_dim (cmp (bytes_of xs)) Right (cursor_new usize_dim (chunks r)) = Some (c, f)"
      "cursor_at chunk_ops usize_dim (chunks r) k c"
    using usize_m.seek_at[OF r(1) _ _ _ h] k(2) unfolding cut_at_def by blast
  then show thesis using k(1) that[of "\<lparr>rc_rope = r, rc_chunks = c, rc_offset = bytes_of xs\<rparr>"] by (auto simp: rc_new_def rc_at_def)
qed

lemma rc_seek_forward_at:
  assumes r: "rope_rep r css" "[] \<notin> set css" "concat css = xs @ ys @ zs" and h: "node_height (chunks r) < MAX_DEPTH"
    and rc: "rc_at r css xs rc"
  obtains rc' where "rc_seek_forward rc (bytes_of (xs @ ys)) = Some rc'" "rc_at r css (xs @ ys) rc'"
proof -
  obtain m x where m: "cursor_at chunk_ops usize_dim (chunks r) m (rc_chunks rc)" "place css xs m x" using rc by (auto simp: rc_at_def)
  have split: "concat css = (xs @ ys) @ zs" using r(3) by simp
  obtain k x' where k: "place css (xs @ ys) k x'" "cut_at (byte_hit (bytes_of (xs @ ys)) Right) css k"
      "\<And>m. m \<le> length css \<Longrightarrow> bytes_of (concat (take m css)) \<le> bytes_of (xs @ ys) \<Longrightarrow> m \<le> k"
    using right_place[OF r(2) split] by blast
  have mk: "m \<le> k" "cmp (bytes_of (xs @ ys)) (bytes_of (concat (take m css))) \<noteq> Less"
    using k(3)[of m] place_le[OF m(2)] by (auto simp: cmp_def)
  obtain c f where "cursor_seek_forward usize_dim (cmp (bytes_of (xs @ ys))) Right (rc_chunks rc) = Some (c, f)"
      "cursor_at chunk_ops usize_dim (chunks r) k c"
    using r(1) k(2) mk h m(1) by (rule usize_m.seek_forward_at)
  moreover have "bytes_of (xs @ ys) \<le> rope_len r" using rope_sizes(2)[OF r(1)] r(3) by simp
  ultimately show thesis
    using k(1) rc that[of "rc\<lparr>rc_chunks := c, rc_offset := bytes_of (xs @ ys)\<rparr>"] by (auto simp: rc_seek_forward_def rc_at_def)
qed

text \<open>The two ways a range \<open>ys\<close> after the cursor can end: in the cursor's chunk, or in a later one.\<close>

lemma range_cases:
  assumes css: "[] \<notin> set css" "concat css = xs @ ys @ zs" and m: "place css xs m x"
  obtains (none) "m = length css" "ys = []"
  | (same) w where "m < length css" "css ! m = x @ ys @ w"
  | (later) y k x2 where "m < length css" "css ! m = x @ y" "bytes_of (concat (take (Suc m) css)) < bytes_of (xs @ ys)"
      "place css (xs @ ys) k x2" "cut_at (byte_hit (bytes_of (xs @ ys)) Right) css k" "Suc m \<le> k"
      "ys = y @ concat (segment css (Suc m) k) @ x2"
proof (cases "m < length css")
  case False
  then show thesis using m css(2) none by (auto simp: place_def)
next
  case True
  then obtain y where y: "css ! m = x @ y" "xs = concat (take m css) @ x" using m by (auto simp: place_def)
  have "concat css = concat (take m css) @ css ! m @ concat (drop (Suc m) css)"
    using arg_cong[OF id_take_nth_drop[OF True], of concat] by simp
  then have rest: "ys @ zs = y @ concat (drop (Suc m) css)" using css(2) y by simp
  show thesis
  proof (cases "length ys \<le> length y")
    case True
    then obtain w where "y = ys @ w" using rest by (auto simp: append_eq_append_conv2)
    then show thesis using same[OF \<open>m < length css\<close>] y by simp
  next
    case False
    then obtain v where v: "ys = y @ v" "v \<noteq> []" using rest by (auto simp: append_eq_append_conv2)
    have split: "concat css = (xs @ ys) @ zs" using css(2) by simp
    obtain k x2 where k: "place css (xs @ ys) k x2" "cut_at (byte_hit (bytes_of (xs @ ys)) Right) css k"
        "\<And>m. m \<le> length css \<Longrightarrow> bytes_of (concat (take m css)) \<le> bytes_of (xs @ ys) \<Longrightarrow> m \<le> k"
      using right_place[OF css(1) split] by blast
    have tm: "concat (take (Suc m) css) = xs @ y" using y \<open>m < length css\<close> by (simp add: take_Suc_conv_app_nth)
    then have lt: "bytes_of (concat (take (Suc m) css)) < bytes_of (xs @ ys)" using v by (simp add: str_of_eq_Nil)
    then have mk: "Suc m \<le> k" using k(3)[of "Suc m"] \<open>m < length css\<close> by simp
    have "take k css = take (Suc m) css @ segment css (Suc m) k"
      using mk segment_append[of 0 "Suc m" k css] by (simp add: segment_0)
    then have "concat (take k css) = (xs @ y) @ concat (segment css (Suc m) k)" using tm by simp
    then have "ys = y @ concat (segment css (Suc m) k) @ x2" using k(1) v(1) by (simp add: place_def)
    then show thesis using later[OF \<open>m < length css\<close> y(1) lt k(1,2) mk] by blast
  qed
qed

text \<open>
  \<open>slice\<close> appends the tree of the whole chunks of a range to the first, partial chunk; that tree has to be lower
  than the stack of a cursor.
\<close>

definition middle_low :: "rope_cursor \<Rightarrow> nat \<Rightarrow> bool" where
  "middle_low rc end_offset \<longleftrightarrow>
     (case do { c \<leftarrow> cursor_next usize_dim (rc_chunks rc); cursor_slice chunk_ops usize_dim (cmp end_offset) Right c } of
        None \<Rightarrow> True
      | Some (_, t) \<Rightarrow> node_height t < MAX_DEPTH)"

definition opt_rep :: "chunk_slice option \<Rightarrow> scalar list \<Rightarrow> bool" where
  "opt_rep sl cs \<longleftrightarrow> (case sl of None \<Rightarrow> cs = [] | Some s \<Rightarrow> chunk_rep s cs)"

lemma push_opt_rep:
  assumes "rope_rep r css" "well_filled css" "opt_rep sl cs"
  obtains r' ds where "push_opt r sl = Some r'" "rope_rep r' ds" "well_filled ds" "concat ds = concat css @ cs"
proof (cases sl)
  case None
  then show thesis using assms that[of r css] by (simp add: push_opt_def opt_rep_def)
next
  case (Some s)
  have s: "chunk_rep s cs" using assms(3) Some by (simp add: opt_rep_def)
  show thesis by (rule rope_push_chunk_rep[OF assms(1,2) s]) (auto simp: push_opt_def Some intro: that)
qed

lemma start_slice_rep:
  assumes r: "rope_rep r css" and m: "cursor_at chunk_ops usize_dim (chunks r) m (rc_chunks rc)" "m < length css"
    and x: "rc_offset rc = bytes_of (concat (take m css) @ x)" "css ! m = x @ ys @ w"
    and e: "min end_offset (bytes_of (concat (take (Suc m) css))) = bytes_of (concat (take m css) @ x @ ys)"
  obtains t where "rc_start_slice rc end_offset = Some (Some t)" "chunk_rep t ys"
proof -
  note reads = usize_m.cursor_reads[OF r m(1)]
  have rep: "chunk_rep (to_list (chunks r) ! m) (x @ ys @ w)" using rope_rep_nth[OF r m(2)] x(2) by simp
  then obtain t where "slice_slice (to_list (chunks r) ! m) (bytes_of x) (bytes_of (x @ ys)) = Some t" "chunk_rep t ys"
    by (rule slice_slice_rep)
  then show thesis using reads m(2) x(1) e by (intro that[of t]) (simp_all add: rc_start_slice_def)
qed

lemma end_slice_rep:
  assumes r: "rope_rep r css" and c: "cursor_at chunk_ops usize_dim (chunks r) k c" "place css us k x"
  obtains sl where "rc_end_slice c (bytes_of us) = Some sl" "opt_rep sl x"
proof (cases "k < length css")
  case True
  note reads = usize_m.cursor_reads[OF r c(1)]
  obtain y where y: "css ! k = x @ y" "us = concat (take k css) @ x" using c(2) True by (auto simp: place_def)
  have rep: "chunk_rep (to_list (chunks r) ! k) ([] @ x @ y)" using rope_rep_nth[OF r True] y(1) by simp
  then obtain t where "slice_slice (to_list (chunks r) ! k) (bytes_of []) (bytes_of ([] @ x)) = Some t" "chunk_rep t x"
    by (rule slice_slice_rep)
  then show thesis using reads True y(2) by (intro that[of "Some t"]) (simp_all add: rc_end_slice_def opt_rep_def)
next
  case False
  then show thesis using usize_m.cursor_reads[OF r c(1)] c(2)
    by (intro that[of None]) (auto simp: rc_end_slice_def opt_rep_def place_def)
qed

lemma well_filled_segment: "well_filled css \<Longrightarrow> well_filled (segment css i j)"
  unfolding segment_def by (metis append_take_drop_id well_filled_append)

lemma rc_next_at:
  assumes r: "rope_rep r css" and c: "cursor_at chunk_ops usize_dim (chunks r) m c" "m < length css"
    and h: "node_height (chunks r) < MAX_DEPTH"
  obtains c' where "cursor_next usize_dim c = Some c'" "cursor_at chunk_ops usize_dim (chunks r) (Suc m) c'"
proof -
  have "st_wf chunk_ops valid_ts (chunks r)" using r by (simp add: rope_rep_def)
  then show thesis
    by (rule usize_m.cursor_next_at[OF _ h c(1)]) (use that c(2) rope_rep_length[OF r] in \<open>simp add: min_def\<close>)
qed

lemma rc_slice_at:
  assumes r: "rope_rep r css" "well_filled css" "concat css = xs @ ys @ zs" and h: "node_height (chunks r) < MAX_DEPTH"
    and rc: "rc_at r css xs rc" and low: "middle_low rc (bytes_of (xs @ ys))"
  obtains rc' s ds where "rc_slice rc (bytes_of (xs @ ys)) = Some (rc', s)" "rc_at r css (xs @ ys) rc'"
    "rope_rep s ds" "well_filled ds" "concat ds = ys"
proof -
  have ne: "[] \<notin> set css" using r(2) by (simp add: well_filled_def)
  have fits: "bytes_of xs \<le> bytes_of (xs @ ys)" "bytes_of (xs @ ys) \<le> rope_len r"
    using rope_sizes(2)[OF r(1)] r(3) by simp_all
  obtain m x where m: "cursor_at chunk_ops usize_dim (chunks r) m (rc_chunks rc)" "place css xs m x" and
    rc': "rc_rope rc = r" "rc_offset rc = bytes_of xs"
    using rc by (auto simp: rc_at_def)
  note reads = usize_m.cursor_reads[OF r(1) m(1)]
  show thesis
    using ne r(3) m(2)
  proof (cases rule: range_cases)
    case none
    then have "rc_slice rc (bytes_of (xs @ ys)) = Some (rc\<lparr>rc_offset := bytes_of (xs @ ys)\<rparr>, rope_new)"
      using reads rc' fits m(2) by (simp add: rc_slice_def rc_start_slice_def push_opt_def place_def)
    then show thesis using none m rc' that[of "rc\<lparr>rc_offset := bytes_of (xs @ ys)\<rparr>" rope_new "[]"] by (auto simp: rc_at_def)
  next
    case (same w)
    have xs: "xs = concat (take m css) @ x" using m(2) by (simp add: place_def)
    have chunk: "bytes_of (xs @ ys) \<le> bytes_of (concat (take (Suc m) css))"
      using same xs by (simp add: take_Suc_conv_app_nth)
    obtain t where t: "rc_start_slice rc (bytes_of (xs @ ys)) = Some (Some t)" "chunk_rep t ys"
      using r(1) m(1) same(1) by (rule start_slice_rep) (use rc'(2) xs same(2) chunk in auto)
    obtain s ds where s: "push_opt rope_new (Some t) = Some s" "rope_rep s ds" "well_filled ds" "concat ds = concat [] @ ys"
      using rope_rep_new well_filled_simps(1) by (rule push_opt_rep[where sl = "Some t" and cs = ys]) (simp add: opt_rep_def t(2))
    have "rc_slice rc (bytes_of (xs @ ys)) = Some (rc\<lparr>rc_offset := bytes_of (xs @ ys)\<rparr>, s)"
      using reads rc' fits t(1) s(1) chunk by (simp add: rc_slice_def)
    moreover have "place css (xs @ ys) m (x @ ys)" using m(2) same by (simp add: place_def)
    ultimately show thesis using m(1) rc' s that[of "rc\<lparr>rc_offset := bytes_of (xs @ ys)\<rparr>" s ds] by (auto simp: rc_at_def)
  next
    case (later y k x2)
    have xs: "xs = concat (take m css) @ x" using m(2) by (simp add: place_def)
    obtain t where t: "rc_start_slice rc (bytes_of (xs @ ys)) = Some (Some t)" "chunk_rep t y"
      using r(1) m(1) later(1)
      by (rule start_slice_rep[where w = "[]"]) (use rc'(2) xs later(1-3) in \<open>auto simp: take_Suc_conv_app_nth\<close>)
    obtain s0 d0 where s0: "push_opt rope_new (Some t) = Some s0" "rope_rep s0 d0" "well_filled d0" "concat d0 = concat [] @ y"
      using rope_rep_new well_filled_simps(1) by (rule push_opt_rep[where sl = "Some t" and cs = y]) (simp add: opt_rep_def t(2))
    obtain c1 where c1: "cursor_next usize_dim (rc_chunks rc) = Some c1" "cursor_at chunk_ops usize_dim (chunks r) (Suc m) c1"
      using r(1) m(1) later(1) h by (rule rc_next_at)
    have fwd: "cmp (bytes_of (xs @ ys)) (bytes_of (concat (take (Suc m) css))) \<noteq> Less" using later(3) by (simp add: cmp_def)
    obtain c2 u where u: "cursor_slice chunk_ops usize_dim (cmp (bytes_of (xs @ ys))) Right c1 = Some (c2, u)"
        "rope_rep \<lparr>chunks = u\<rparr> (segment css (Suc m) k)" "cursor_at chunk_ops usize_dim (chunks r) k c2"
      using r(1) later(5,6) fwd h c1(2) by (rule usize_m.slice_at)
    have hu: "node_height (chunks \<lparr>chunks = u\<rparr>) < MAX_DEPTH" using low c1(1) u(1) by (simp add: middle_low_def)
    obtain s1 d1 where s1: "rope_append s0 \<lparr>chunks = u\<rparr> = Some s1" "rope_rep s1 d1" "well_filled d1"
        "concat d1 = concat d0 @ concat (segment css (Suc m) k)"
      using s0(2,3) u(2) well_filled_segment[OF r(2)] hu by (rule rope_append_rep)
    obtain sl where sl: "rc_end_slice c2 (bytes_of (xs @ ys)) = Some sl" "opt_rep sl x2"
      using r(1) u(3) later(4) by (rule end_slice_rep)
    obtain s2 d2 where s2: "push_opt s1 sl = Some s2" "rope_rep s2 d2" "well_filled d2" "concat d2 = concat d1 @ x2"
      using s1(2,3) sl(2) by (rule push_opt_rep)
    have "rc_slice rc (bytes_of (xs @ ys)) = Some (rc\<lparr>rc_chunks := c2, rc_offset := bytes_of (xs @ ys)\<rparr>, s2)"
      using reads(4) rc' fits t(1) s0(1) later(3) c1(1) u(1) s1(1) sl(1) s2(1) by (simp add: rc_slice_def)
    then show thesis
      using u(3) later(4,7) rc'(1) s0(4) s1(4) s2 that[of "rc\<lparr>rc_chunks := c2, rc_offset := bytes_of (xs @ ys)\<rparr>" s2 d2]
      by (auto simp: rc_at_def)
  qed
qed

subsection \<open>Summaries of ranges\<close>

locale text_dim_laws = text_measure "td_dim T" \<mu> for T :: "'d text_dimension" and \<mu> :: "scalar list \<Rightarrow> 'd" +
  assumes td_chunk: "chunk_rep c cs \<Longrightarrow> from_chunk T c = Some (\<mu> cs)"
    and td_summary: "from_text_summary T (ts_from cs) = \<mu> cs"
    and td_add: "td_add_assign T (\<mu> xs) (\<mu> ys) = \<mu> (xs @ ys)"
begin

lemma add_opt_rep: "opt_rep sl cs \<Longrightarrow> add_opt T (\<mu> xs) sl = Some (\<mu> (xs @ cs))"
  by (cases sl) (auto simp: add_opt_def opt_rep_def td_chunk td_add)

lemma rc_summary_at:
  assumes r: "rope_rep r css" "[] \<notin> set css" "concat css = xs @ ys @ zs" and h: "node_height (chunks r) < MAX_DEPTH"
    and rc: "rc_at r css xs rc"
  obtains rc' where "rc_summary T rc (bytes_of (xs @ ys)) = Some (rc', \<mu> ys)" "rc_at r css (xs @ ys) rc'"
proof -
  have fits: "bytes_of xs \<le> bytes_of (xs @ ys)" "bytes_of (xs @ ys) \<le> rope_len r"
    using rope_sizes(2)[OF r(1)] r(3) by simp_all
  obtain m x where m: "cursor_at chunk_ops usize_dim (chunks r) m (rc_chunks rc)" "place css xs m x" and
    rc': "rc_rope rc = r" "rc_offset rc = bytes_of xs"
    using rc by (auto simp: rc_at_def)
  note reads = usize_m.cursor_reads[OF r(1) m(1)]
  show thesis
    using r(2,3) m(2)
  proof (cases rule: range_cases)
    case none
    then have "rc_summary T rc (bytes_of (xs @ ys)) = Some (rc\<lparr>rc_offset := bytes_of (xs @ ys)\<rparr>, \<mu> [])"
      using reads rc' fits m(2) by (simp add: rc_summary_def rc_start_slice_def add_opt_def place_def measure_Nil)
    then show thesis using none m rc' that[of "rc\<lparr>rc_offset := bytes_of (xs @ ys)\<rparr>"] by (auto simp: rc_at_def)
  next
    case (same w)
    have xs: "xs = concat (take m css) @ x" using m(2) by (simp add: place_def)
    have chunk: "bytes_of (xs @ ys) \<le> bytes_of (concat (take (Suc m) css))"
      using same xs by (simp add: take_Suc_conv_app_nth)
    obtain t where t: "rc_start_slice rc (bytes_of (xs @ ys)) = Some (Some t)" "chunk_rep t ys"
      using r(1) m(1) same(1) by (rule start_slice_rep) (use rc'(2) xs same(2) chunk in auto)
    have "rc_summary T rc (bytes_of (xs @ ys)) = Some (rc\<lparr>rc_offset := bytes_of (xs @ ys)\<rparr>, \<mu> ys)"
      using reads rc' fits t chunk add_opt_rep[of "Some t" ys "[]"] by (simp add: rc_summary_def measure_Nil opt_rep_def)
    moreover have "place css (xs @ ys) m (x @ ys)" using m(2) same by (simp add: place_def)
    ultimately show thesis using m(1) rc' that[of "rc\<lparr>rc_offset := bytes_of (xs @ ys)\<rparr>"] by (auto simp: rc_at_def)
  next
    case (later y k x2)
    have xs: "xs = concat (take m css) @ x" using m(2) by (simp add: place_def)
    obtain t where t: "rc_start_slice rc (bytes_of (xs @ ys)) = Some (Some t)" "chunk_rep t y"
      using r(1) m(1) later(1)
      by (rule start_slice_rep[where w = "[]"]) (use rc'(2) xs later(1-3) in \<open>auto simp: take_Suc_conv_app_nth\<close>)
    obtain c1 where c1: "cursor_next usize_dim (rc_chunks rc) = Some c1" "cursor_at chunk_ops usize_dim (chunks r) (Suc m) c1"
      using r(1) m(1) later(1) h by (rule rc_next_at)
    have fwd: "cmp (bytes_of (xs @ ys)) (bytes_of (concat (take (Suc m) css))) \<noteq> Less" using later(3) by (simp add: cmp_def)
    obtain c2 where u: "cursor_summary usize_dim (td_dim T) (cmp (bytes_of (xs @ ys))) Right c1 = Some (c2, \<mu> (concat (segment css (Suc m) k)))"
        "cursor_at chunk_ops usize_dim (chunks r) k c2"
      using r(1) later(5,6) fwd h c1(2) text_measure_axioms by (rule usize_m.summary_at)
    obtain sl where sl: "rc_end_slice c2 (bytes_of (xs @ ys)) = Some sl" "opt_rep sl x2"
      using r(1) u(2) later(4) by (rule end_slice_rep)
    have add: "add_opt T (\<mu> []) (Some t) = Some (\<mu> y)" using add_opt_rep[of "Some t" y "[]"] t(2) by (simp add: opt_rep_def)
    have "rc_summary T rc (bytes_of (xs @ ys)) = Some (rc\<lparr>rc_chunks := c2, rc_offset := bytes_of (xs @ ys)\<rparr>, \<mu> ys)"
      using reads(4) rc' fits t(1) later(3) c1(1) u(1) sl(1) later(7)
      by (simp add: rc_summary_def measure_Nil add td_add add_opt_rep[OF sl(2)])
    then show thesis
      using u(2) later(4) rc'(1) that[of "rc\<lparr>rc_chunks := c2, rc_offset := bytes_of (xs @ ys)\<rparr>"] by (auto simp: rc_at_def)
  qed
qed

end

lemma slice_len_rep: "chunk_rep c cs \<Longrightarrow> slice_len c = bytes_of cs"
  using chunk_rep_text[of c cs] by (simp add: slice_len_def)

interpretation usize_t: text_dim_laws usize_td bytes_of
  by unfold_locales (auto simp: usize_td_def usize_m.measure_Nil usize_m.measure_add usize_m.measure_assoc slice_len_rep)

interpretation utf16_t: text_dim_laws utf16_td units
  by unfold_locales (auto simp: utf16_td_def utf16_m.measure_Nil utf16_m.measure_add utf16_m.measure_assoc slice_len_utf16_rep)

interpretation point_t: text_dim_laws point_td end_point
  by unfold_locales (auto simp: point_td_def point_m.measure_Nil point_m.measure_add point_m.measure_assoc slice_lines_rep end_point_append)

interpretation point_utf16_t: text_dim_laws point_utf16_td end_point_utf16
  by unfold_locales
     (auto simp: point_utf16_td_def point_utf16_m.measure_Nil point_utf16_m.measure_add point_utf16_m.measure_assoc slice_lines_rep
       last_line_rep end_point_utf16_append intro: point_eqI)

interpretation summary_t: text_dim_laws summary_td ts_from
  by unfold_locales
     (auto simp: summary_td_def summary_m.measure_Nil summary_m.measure_add summary_m.measure_assoc slice_text_summary_rep ts_add_from)

lemma text_dim_pair:
  assumes "text_dim_laws A \<mu>" "text_dim_laws B \<nu>"
  shows "text_dim_laws (pair_td A B) (\<lambda>cs. (\<mu> cs, \<nu> cs))"
  using assms measure_pair[of "td_dim A" \<mu> "td_dim B" \<nu>]
  unfolding text_dim_laws_def text_dim_laws_axioms_def pair_td_def by auto

subsection \<open>Slices and replacement\<close>

definition slice_low :: "rope \<Rightarrow> nat \<Rightarrow> nat \<Rightarrow> bool" where
  "slice_low r a b \<longleftrightarrow> node_height (chunks r) < MAX_DEPTH \<and>
     (case do { cur \<leftarrow> rc_new r 0; rc_seek_forward cur a } of None \<Rightarrow> True | Some cur \<Rightarrow> middle_low cur b)"

lemma rope_slice_rep:
  assumes r: "rope_rep r css" "well_filled css" "concat css = xs @ ys @ zs" and low: "slice_low r (bytes_of xs) (bytes_of (xs @ ys))"
  obtains s ds where "rope_slice r (bytes_of xs) (bytes_of (xs @ ys)) = Some s" "rope_rep s ds" "well_filled ds" "concat ds = ys"
proof -
  have ne: "[] \<notin> set css" using r(2) by (simp add: well_filled_def)
  have h: "node_height (chunks r) < MAX_DEPTH" using low by (simp add: slice_low_def)
  obtain c0 where c0: "rc_new r (bytes_of []) = Some c0" "rc_at r css [] c0"
    using r(1) ne _ h by (rule rc_new_at[where ys = "concat css"]) simp
  have "concat css = [] @ xs @ (ys @ zs)" using r(3) by simp
  from r(1) ne this h c0(2) obtain c1 where c1: "rc_seek_forward c0 (bytes_of ([] @ xs)) = Some c1" "rc_at r css ([] @ xs) c1"
    by (rule rc_seek_forward_at)
  have "middle_low c1 (bytes_of (xs @ ys))" using low c0(1) c1(1) by (simp add: slice_low_def)
  with r h c1(2)[simplified] obtain c2 s ds where "rc_slice c1 (bytes_of (xs @ ys)) = Some (c2, s)" "rope_rep s ds" "well_filled ds" "concat ds = ys"
    by (rule rc_slice_at)
  then show thesis using c0(1) c1(1) by (intro that[of s ds]) (simp_all add: rope_slice_def)
qed

text \<open>The trees that \<open>replace\<close> walks through: the rope, the whole chunks of both parts, and the parts.\<close>

definition replace_low :: "rope \<Rightarrow> nat \<Rightarrow> nat \<Rightarrow> bool" where
  "replace_low r a b \<longleftrightarrow> node_height (chunks r) < MAX_DEPTH \<and>
     do { cur \<leftarrow> rc_new r 0;
          (cur1, before) \<leftarrow> rc_slice cur a;
          cur2 \<leftarrow> rc_seek_forward cur1 b;
          after \<leftarrow> rc_suffix cur2;
          Some (node_height (chunks before) < MAX_DEPTH \<and> node_height (chunks after) < MAX_DEPTH) } \<noteq> Some False \<and>
     do { cur \<leftarrow> rc_new r 0; Some (middle_low cur a) } \<noteq> Some False \<and>
     do { cur \<leftarrow> rc_new r 0;
          (cur1, before) \<leftarrow> rc_slice cur a;
          cur2 \<leftarrow> rc_seek_forward cur1 b;
          Some (middle_low cur2 (rope_len r)) } \<noteq> Some False"

lemma rope_replace_rep:
  assumes r: "rope_rep r css" "well_filled css" "concat css = xs @ ys @ zs" and ts: "\<forall>c\<in>set ts. is_scalar c"
    and low: "replace_low r (bytes_of xs) (bytes_of (xs @ ys))"
  obtains s ds where "rope_replace r (bytes_of xs) (bytes_of (xs @ ys)) (str_of ts) = Some s" "rope_rep s ds" "well_filled ds"
    "concat ds = xs @ ts @ zs"
proof -
  have ne: "[] \<notin> set css" using r(2) by (simp add: well_filled_def)
  have h: "node_height (chunks r) < MAX_DEPTH" using low by (simp add: replace_low_def)
  have len: "st_extent usize_dim (chunks r) = bytes_of ((xs @ ys) @ zs)" "rope_len r = bytes_of ((xs @ ys) @ zs)"
    using usize_m.extent_measure[OF r(1)] rope_sizes(2)[OF r(1)] r(3) by simp_all
  obtain c0 where c0: "rc_new r (bytes_of []) = Some c0" "rc_at r css [] c0"
    using r(1) ne _ h by (rule rc_new_at[where ys = "concat css"]) simp
  have split: "concat css = [] @ xs @ (ys @ zs)" "concat css = (xs @ ys) @ zs @ []" using r(3) by simp_all
  have low0: "middle_low c0 (bytes_of ([] @ xs))" using low c0(1) by (simp add: replace_low_def)
  obtain c1 before ds1 where c1: "rc_slice c0 (bytes_of ([] @ xs)) = Some (c1, before)" "rc_at r css ([] @ xs) c1" "rope_rep before ds1"
      "well_filled ds1" "concat ds1 = xs"
    using r(1,2) split(1) h c0(2) low0 by (rule rc_slice_at)
  obtain c2 where c2: "rc_seek_forward c1 (bytes_of (xs @ ys)) = Some c2" "rc_at r css (xs @ ys) c2"
    using r(1) ne r(3) h c1(2)[simplified] by (rule rc_seek_forward_at)
  have low2: "middle_low c2 (bytes_of ((xs @ ys) @ zs))" using low c0(1) c1(1) c2(1) len(2) by (simp add: replace_low_def)
  obtain c3 after ds2 where c3: "rc_slice c2 (bytes_of ((xs @ ys) @ zs)) = Some (c3, after)" "rope_rep after ds2" "well_filled ds2" "concat ds2 = zs"
    using r(1,2) split(2) h c2(2) low2 by (rule rc_slice_at)
  have "rc_rope c2 = r" using c2(2) by (simp add: rc_at_def)
  then have suffix: "rc_suffix c2 = Some after" using c3(1) len(1) by (simp add: rc_suffix_def)
  have heights: "node_height (chunks before) < MAX_DEPTH" "node_height (chunks after) < MAX_DEPTH"
    using low c0(1) c1(1) c2(1) suffix by (simp_all add: replace_low_def)
  obtain r1 e1 where r1: "rope_append rope_new before = Some r1" "rope_rep r1 e1" "well_filled e1" "concat e1 = concat [] @ concat ds1"
    using rope_rep_new well_filled_simps(1) c1(3,4) heights(1) by (rule rope_append_rep)
  obtain r2 e2 where r2: "rope_push r1 (str_of ts) = Some r2" "rope_rep r2 e2" "well_filled e2" "concat e2 = concat e1 @ ts"
    using r1(2,3) ts by (rule rope_push_rep)
  obtain r3 e3 where r3: "rope_append r2 after = Some r3" "rope_rep r3 e3" "well_filled e3" "concat e3 = concat e2 @ concat ds2"
    using r2(2,3) c3(2,3) heights(2) by (rule rope_append_rep)
  show thesis
    using c0(1) c1(1,5) c2(1) suffix r1 r2 r3 c3(4) by (intro that[of r3 e3]) (simp_all add: rope_replace_def)
qed

end
