(* ===== verification/Rope_Props.thy ===== *)
theory Rope_Props
  imports Rope_Slice
begin

section \<open>What the rope promises\<close>

text \<open>
  The properties of the rope over the text it represents. The operations that use a cursor ask for trees lower
  than 16 levels; for ropes of a single chunk this is shown below.
\<close>

subsection \<open>Ropes of one chunk\<close>

lemma empty_tree_low: "st_wf D V t \<Longrightarrow> to_list t = [] \<Longrightarrow> node_height t = 0"
  by (cases t) (auto simp: neq_Nil_conv)

lemma push_new_low: "push_opt rope_new sl = Some s \<Longrightarrow> node_height (chunks s) = 0"
  by (cases sl; cases "slice_is_empty (the sl)")
     (auto simp: push_opt_def rope_push_chunk_def update_last_with_def rope_new_def st_last_def st_new_def st_push_def st_append_def
       Let_def)

lemma middle_low_single:
  assumes r: "rope_rep r css" "[] \<notin> set css" "concat css = xs @ ys" "length css \<le> 1" and h: "node_height (chunks r) < MAX_DEPTH"
    and c: "cursor_at chunk_ops usize_dim (chunks r) m (rc_chunks rc)"
  shows "middle_low rc (bytes_of xs)"
proof (cases "cursor_next usize_dim (rc_chunks rc)")
  case (Some c1)
  have wf: "st_wf chunk_ops valid_ts (chunks r)" using r(1) by (simp add: rope_rep_def)
  have m: "min (Suc m) (length (to_list (chunks r))) = length css" using r(4) rope_rep_length[OF r(1)] by simp
  obtain c2 where "cursor_next usize_dim (rc_chunks rc) = Some c2" "cursor_at chunk_ops usize_dim (chunks r) (length css) c2"
    using usize_m.cursor_next_at[OF wf h c] unfolding m by blast
  then have c1: "cursor_at chunk_ops usize_dim (chunks r) (length css) c1" using Some by simp
  obtain k x where k: "place css xs k x" "cut_at (byte_hit (bytes_of xs) Right) css k" using r(2,3) by (rule right_place)
  show ?thesis
  proof (cases "cursor_slice chunk_ops usize_dim (cmp (bytes_of xs)) Right c1")
    case (Some res)
    obtain c' t where res: "res = (c', t)" by (cases res)
    show ?thesis
    proof (cases "cmp (bytes_of xs) (bytes_of (concat css)) = Less")
      case True
      have "c_position c1 = bytes_of (concat css)" using usize_m.cursor_reads(2)[OF r(1) c1] by (simp add: cursor_start_def)
      then have False using Some True by (simp add: cursor_slice_def seek_internal_def)
      then show ?thesis ..
    next
      case False
      then have "ys = []" using r(3) by (auto simp: cmp_def str_of_eq_Nil split: if_splits)
      have "length css \<le> k"
      proof (rule ccontr)
        assume "\<not> length css \<le> k"
        then have "k < length css" "take (Suc k) css = css" using r(4) by simp_all
        moreover from this have "byte_hit (bytes_of xs) Right (concat (take (Suc k) css))"
          using k(2) unfolding cut_at_def by blast
        ultimately have "byte_hit (bytes_of xs) Right (concat css)" by simp
        then show False using r(3) \<open>ys = []\<close> by (simp add: target_in_def cmp_def)
      qed
      then have "cut_at (\<lambda>cs. target_in (cmp (bytes_of xs)) Right (bytes_of cs)) css k" "length css \<le> k"
        "cmp (bytes_of xs) (bytes_of (concat (take (length css) css))) \<noteq> Less" using k(2) False by auto
      then obtain c'' u where "cursor_slice chunk_ops usize_dim (cmp (bytes_of xs)) Right c1 = Some (c'', u)"
          "rope_rep \<lparr>chunks = u\<rparr> (segment css (length css) k)"
        by (rule usize_m.slice_at[OF r(1) _ _ _ h c1])
      then have "st_wf chunk_ops valid_ts t" "to_list t = []" using Some res by (auto simp: rope_rep_def segment_def)
      then have "node_height t = 0" by (rule empty_tree_low)
      then show ?thesis using \<open>cursor_next usize_dim (rc_chunks rc) = Some c1\<close> Some res by (simp add: middle_low_def MAX_DEPTH_def)
    qed
  qed (simp add: middle_low_def Some)
qed (simp add: middle_low_def)

lemma split_text_small:
  assumes "cs \<noteq> []" "bytes_of cs \<le> MAX_BASE"
  shows "split_text (str_of cs) = Some [str_of cs]"
proof -
  have "split_text [] = Some []" by (simp add: split_text.simps)
  moreover have "back_to_boundary (str_of cs) (bytes_of cs) = Some (bytes_of cs)"
    by (simp add: back_to_boundary_at str_is_char_boundary_def)
  moreover have "min MAX_BASE (bytes_of cs) = bytes_of cs" using assms(2) by simp
  ultimately show ?thesis
    using assms(1) by (subst split_text.simps) (simp add: str_of_eq_Nil str_split_at_def str_is_char_boundary_def)
qed

lemma rope_from_small:
  assumes "\<forall>c\<in>set cs. is_scalar c" "cs \<noteq> []" "bytes_of cs \<le> MAX_BASE"
  obtains r where "rope_from (str_of cs) = Some r" "rope_rep r [cs]" "node_height (chunks r) = 0"
proof -
  obtain c where c: "chunk_new (str_of cs) = Some c" "chunk_rep c cs" using assms(1,3) by (rule chunk_new_rep)
  let ?t = "leaf_of_chunk chunk_ops [c]"
  have "chunks_of MAX_CHILDREN [c] = [[c]]" by (subst chunks_of.simps) (simp add: TREE_BASE_def)
  then have "st_from_iter chunk_ops [c] = ?t"
    by (simp add: st_from_iter_def build_levels.simps)
  then have ext: "st_extend chunk_ops (st_new chunk_ops) [c] = Some ?t" by (simp add: st_extend_def st_append_def st_new_def)
  have "bytes_of cs \<le> NUM_CHUNKS * MAX_BASE - NUM_CHUNKS * 4" using assms(3) by (simp add: NUM_CHUNKS_def MAX_BASE_def)
  then have "rope_from (str_of cs) = Some \<lparr>chunks = ?t\<rparr>"
    using ext split_text_small[OF assms(2,3)] c(1) assms(2)
    by (simp add: rope_from_def rope_push_def update_last_none rope_new_def[symmetric] str_of_eq_Nil NUM_CHUNKS_def del: rope_eta)
       (simp add: rope_new_def)
  moreover have "rope_rep \<lparr>chunks = ?t\<rparr> [cs]"
    using c(2) valid_summary[OF c(2)] rope_sum.sum_Cons[of "chunk_summary c" "[]"]
    by (simp add: rope_rep_def leaf_of_chunk_def TREE_BASE_def)
  ultimately show thesis by (intro that) (auto simp: leaf_of_chunk_def)
qed

lemma slice_low_single:
  assumes r: "rope_rep r [cs]" "cs = xs @ ys @ zs" "cs \<noteq> []" and h: "node_height (chunks r) < MAX_DEPTH"
  shows "slice_low r (bytes_of xs) (bytes_of (xs @ ys))"
proof -
  have css: "[] \<notin> set [cs]" "concat [cs] = [] @ xs @ (ys @ zs)" "concat [cs] = (xs @ ys) @ zs" "length [cs] \<le> 1" using r(2,3) by auto
  obtain c0 where c0: "rc_new r (bytes_of []) = Some c0" "rc_at r [cs] [] c0"
    using r(1) css(1) _ h by (rule rc_new_at[where ys = cs]) simp
  obtain c1 where c1: "rc_seek_forward c0 (bytes_of ([] @ xs)) = Some c1" "rc_at r [cs] ([] @ xs) c1"
    using r(1) css(1,2) h c0(2) by (rule rc_seek_forward_at)
  then obtain m where "cursor_at chunk_ops usize_dim (chunks r) m (rc_chunks c1)" by (auto simp: rc_at_def)
  with r(1) css(1,3,4) h have "middle_low c1 (bytes_of (xs @ ys))" by (rule middle_low_single)
  then show ?thesis using c0(1) c1(1) h by (simp add: slice_low_def)
qed

lemma rc_slice_single_low:
  assumes r: "rope_rep r [cs]" "cs = xs @ ys @ zs" and c: "rc_at r [cs] xs rc" and s: "rc_slice rc (bytes_of (xs @ ys)) = Some (rc', s)"
  shows "node_height (chunks s) = 0"
proof -
  obtain m where "cursor_at chunk_ops usize_dim (chunks r) m (rc_chunks rc)" using c by (auto simp: rc_at_def)
  from usize_m.cursor_reads(4)[OF r(1) this] have "cursor_end usize_dim (rc_chunks rc) = Some (bytes_of cs)" by simp
  with s r(2) show ?thesis by (auto simp: rc_slice_def push_new_low split: bind_splits if_splits)
qed

lemma replace_low_single:
  assumes r: "rope_rep r [cs]" "cs = xs @ ys @ zs" "cs \<noteq> []" and h: "node_height (chunks r) < MAX_DEPTH"
  shows "replace_low r (bytes_of xs) (bytes_of (xs @ ys))"
proof -
  have css: "[] \<notin> set [cs]" "well_filled [cs]" "length [cs] \<le> 1" using r(3) by auto
  have split: "concat [cs] = [] @ xs @ (ys @ zs)" "concat [cs] = xs @ ys @ zs" "concat [cs] = (xs @ ys) @ zs @ []" "concat [cs] = ([] @ xs) @ (ys @ zs)"
    "concat [cs] = ((xs @ ys) @ zs) @ []" "cs = [] @ xs @ (ys @ zs)" "cs = (xs @ ys) @ zs @ []" using r(2) by simp_all
  have len: "rope_len r = bytes_of ((xs @ ys) @ zs)" "st_extent usize_dim (chunks r) = bytes_of ((xs @ ys) @ zs)"
    using rope_sizes(2)[OF r(1)] usize_m.extent_measure[OF r(1)] r(2) by simp_all
  obtain c0 where c0: "rc_new r (bytes_of []) = Some c0" "rc_at r [cs] [] c0"
    using r(1) css(1) _ h by (rule rc_new_at[where ys = cs]) simp
  then obtain m0 where "cursor_at chunk_ops usize_dim (chunks r) m0 (rc_chunks c0)" by (auto simp: rc_at_def)
  with r(1) css(1) split(4) css(3) h have low0: "middle_low c0 (bytes_of ([] @ xs))" by (rule middle_low_single)
  obtain c1 before where c1: "rc_slice c0 (bytes_of ([] @ xs)) = Some (c1, before)" "rc_at r [cs] ([] @ xs) c1"
    using r(1) css(2) split(1) h c0(2) low0 by (rule rc_slice_at)
  obtain c2 where c2: "rc_seek_forward c1 (bytes_of (xs @ ys)) = Some c2" "rc_at r [cs] (xs @ ys) c2"
    using r(1) css(1) split(2) h c1(2)[simplified] by (rule rc_seek_forward_at)
  then obtain m2 where "cursor_at chunk_ops usize_dim (chunks r) m2 (rc_chunks c2)" by (auto simp: rc_at_def)
  with r(1) css(1) split(5) css(3) h have low2: "middle_low c2 (bytes_of ((xs @ ys) @ zs))" by (rule middle_low_single)
  obtain c3 after where c3: "rc_slice c2 (bytes_of ((xs @ ys) @ zs)) = Some (c3, after)"
    using r(1) css(2) split(3) h c2(2) low2 by (rule rc_slice_at)
  have "rc_rope c2 = r" using c2(2) by (simp add: rc_at_def)
  then have "rc_suffix c2 = Some after" using c3 len(2) by (simp add: rc_suffix_def)
  moreover have "node_height (chunks before) = 0" "node_height (chunks after) = 0"
    using rc_slice_single_low[OF r(1) split(6) c0(2) c1(1)] rc_slice_single_low[OF r(1) split(7) c2(2) c3] by simp_all
  ultimately show ?thesis
    using h c0(1) c1(1) c2(1) low0 low2 len(1) by (simp add: replace_low_def MAX_DEPTH_def)
qed

subsection \<open>The properties\<close>

lemma rope_textI: "rope_rep r css \<Longrightarrow> well_filled css \<Longrightarrow> rope_text r (concat css)"
  by (auto simp: rope_text_def)

lemma rope_textE:
  assumes "rope_text r cs"
  obtains css where "rope_rep r css" "well_filled css" "[] \<notin> set css" "concat css = cs"
  using assms by (auto simp: rope_text_def well_filled_def)

text \<open>
  C6: A rope built from strings represents their concatenation. Pushing a string onto any rope returns (the buffer
  for four chunks never overflows), appends its characters to the text, and keeps the rope's invariant: the tree is
  well formed, no chunk is empty, and every chunk but the last holds at least 61 bytes. The cached summary of the
  rope is the summary of its text.
\<close>

theorem rope_push_text:
  assumes "rope_text r cs" "\<forall>c\<in>set ds. is_scalar c" "\<forall>t\<in>set ts. \<forall>c\<in>set t. is_scalar c"
  shows "(\<exists>r'. rope_push r (str_of ds) = Some r' \<and> rope_text r' (cs @ ds) \<and> rope_summary r' = ts_from (cs @ ds)) \<and>
    (\<exists>r'. rope_from (str_of ds) = Some r' \<and> rope_text r' ds \<and> rope_len r' = length (str_of ds)) \<and>
    (\<exists>r'. rope_from_iter (map str_of ts) = Some r' \<and> rope_text r' (concat ts))"
proof (intro conjI)
  obtain css where r: "rope_rep r css" "well_filled css" "concat css = cs" using assms(1) by (rule rope_textE)
  obtain r' es where "rope_push r (str_of ds) = Some r'" "rope_rep r' es" "well_filled es" "concat es = concat css @ ds"
    using r(1,2) assms(2) by (rule rope_push_rep)
  then show "\<exists>r'. rope_push r (str_of ds) = Some r' \<and> rope_text r' (cs @ ds) \<and> rope_summary r' = ts_from (cs @ ds)"
    using r(3) rope_textI[of r' es] rope_sizes(1)[of r' es] by auto
  obtain n ns where "rope_from (str_of ds) = Some n" "rope_rep n ns" "well_filled ns" "concat ns = ds" using assms(2) by (rule rope_from_rep)
  then show "\<exists>r'. rope_from (str_of ds) = Some r' \<and> rope_text r' ds \<and> rope_len r' = length (str_of ds)"
    using rope_textI[of n ns] rope_sizes(2)[of n ns] by auto
  obtain i fs where "rope_push_all rope_new (map str_of ts) = Some i" "rope_rep i fs" "well_filled fs" "concat fs = concat [] @ concat ts"
    using rope_rep_new well_filled_simps(1) assms(3) by (rule rope_push_all_rep)
  then show "\<exists>r'. rope_from_iter (map str_of ts) = Some r' \<and> rope_text r' (concat ts)"
    using rope_textI[of i fs] by (auto simp: rope_from_iter_def)
qed

lemma rope_push_text_witness:
  "\<exists>r r'. rope_from (str_of [0x61, 10]) = Some r \<and> rope_push r (str_of [0x1F600]) = Some r' \<and> rope_text r' [0x61, 10, 0x1F600] \<and>
     ts_len_utf16 (rope_summary r') = 4"
proof -
  have s: "\<forall>c\<in>set [0x61, 10]. is_scalar c" "\<forall>c\<in>set [0x1F600]. is_scalar c" by (simp_all add: is_scalar_def)
  have n: "rope_text rope_new []" using rope_textI[OF rope_rep_new] by simp
  obtain r where r: "rope_from (str_of [0x61, 10]) = Some r" "rope_text r [0x61, 10]"
    using rope_push_text[OF n s(1), of "[]"] by auto
  from rope_push_text[OF r(2) s(2), of "[]"] r(1) show ?thesis by (auto simp: len_utf16_def simp del: str_of_simps)
qed

text \<open>
  C5: Appending one rope to another and pushing a string in front return and concatenate the texts, whatever the
  sizes of the chunks that meet: a small last or first chunk is merged or refilled so that the invariant holds again.
\<close>

theorem rope_append_text:
  assumes "rope_text r cs" "rope_text s ds" "\<forall>c\<in>set es. is_scalar c" "node_height (chunks s) < MAX_DEPTH"
  shows "(\<exists>r'. rope_append r s = Some r' \<and> rope_text r' (cs @ ds)) \<and>
    (\<exists>s'. rope_push_front s (str_of es) = Some s' \<and> rope_text s' (es @ ds))"
proof (intro conjI)
  obtain css where r: "rope_rep r css" "well_filled css" "concat css = cs" using assms(1) by (rule rope_textE)
  obtain dss where s: "rope_rep s dss" "well_filled dss" "concat dss = ds" using assms(2) by (rule rope_textE)
  obtain r' fs where "rope_append r s = Some r'" "rope_rep r' fs" "well_filled fs" "concat fs = concat css @ concat dss"
    using r(1,2) s(1,2) assms(4) by (rule rope_append_rep)
  then show "\<exists>r'. rope_append r s = Some r' \<and> rope_text r' (cs @ ds)" using r(3) s(3) rope_textI[of r' fs] by auto
  obtain s' gs where "rope_push_front s (str_of es) = Some s'" "rope_rep s' gs" "well_filled gs" "concat gs = es @ concat dss"
    using s(1,2) assms(3,4) by (rule rope_push_front_rep)
  then show "\<exists>s'. rope_push_front s (str_of es) = Some s' \<and> rope_text s' (es @ ds)" using s(3) rope_textI[of s' gs] by auto
qed

lemma rope_append_text_witness:
  "\<exists>r r' s'. rope_from (str_of [0x61]) = Some r \<and> rope_append r r = Some r' \<and> rope_text r' [0x61, 0x61] \<and>
     rope_push_front r (str_of [0xE9]) = Some s' \<and> rope_text s' [0xE9, 0x61]"
proof -
  have s: "\<forall>c\<in>set [0x61]. is_scalar c" "[0x61] \<noteq> ([] :: scalar list)" "bytes_of [0x61] \<le> MAX_BASE" "\<forall>c\<in>set [0xE9]. is_scalar c"
    by (simp_all add: is_scalar_def len_utf8_def MAX_BASE_def)
  obtain r where r: "rope_from (str_of [0x61]) = Some r" "rope_rep r [[0x61]]" "node_height (chunks r) = 0"
    using s(1-3) by (rule rope_from_small)
  have "rope_text r [0x61]" using rope_textI[OF r(2)] by simp
  from rope_append_text[OF this this s(4)] r(1,3) show ?thesis by (auto simp: MAX_DEPTH_def simp del: str_of_simps)
qed

text \<open>
  C4: Slicing a rope between two character boundaries gives a rope of exactly the text between them, and replacing
  that range gives a rope of the text before it, the new text and the text after it; both results satisfy the
  invariant again. The trees that are walked through have to be lower than the stack of a cursor.
\<close>

theorem rope_replace_text:
  assumes "rope_text r (xs @ ys @ zs)" "\<forall>c\<in>set ts. is_scalar c"
  defines "a \<equiv> length (str_of xs)" and "b \<equiv> length (str_of (xs @ ys))"
  shows "(slice_low r a b \<longrightarrow> (\<exists>s. rope_slice r a b = Some s \<and> rope_text s ys)) \<and>
    (replace_low r a b \<longrightarrow> (\<exists>s. rope_replace r a b (str_of ts) = Some s \<and> rope_text s (xs @ ts @ zs)))"
proof (intro conjI impI)
  obtain css where r: "rope_rep r css" "well_filled css" "concat css = xs @ ys @ zs" using assms(1) by (rule rope_textE)
  { assume "slice_low r a b"
    with r obtain s ds where "rope_slice r a b = Some s" "rope_rep s ds" "well_filled ds" "concat ds = ys"
      unfolding a_def b_def by (rule rope_slice_rep)
    then show "\<exists>s. rope_slice r a b = Some s \<and> rope_text s ys" using rope_textI[of s ds] by auto }
  { assume "replace_low r a b"
    with r assms(2) obtain s ds where "rope_replace r a b (str_of ts) = Some s" "rope_rep s ds" "well_filled ds" "concat ds = xs @ ts @ zs"
      unfolding a_def b_def by (rule rope_replace_rep)
    then show "\<exists>s. rope_replace r a b (str_of ts) = Some s \<and> rope_text s (xs @ ts @ zs)" using rope_textI[of s ds] by auto }
qed

lemma rope_replace_text_witness:
  "\<exists>r s t. rope_from (str_of [0x61, 0x1F600, 0x62]) = Some r \<and> rope_slice r 1 5 = Some s \<and> rope_text s [0x1F600] \<and>
     rope_replace r 1 5 (str_of [10, 10]) = Some t \<and> rope_text t [0x61, 10, 10, 0x62]"
proof -
  let ?cs = "[0x61, 0x1F600, 0x62] :: scalar list"
  have s: "\<forall>c\<in>set ?cs. is_scalar c" "?cs \<noteq> []" "bytes_of ?cs \<le> MAX_BASE" "\<forall>c\<in>set [10, 10]. is_scalar c"
    and n: "bytes_of [0x61] = 1" "bytes_of ([0x61] @ [0x1F600]) = 5" "?cs = [0x61] @ [0x1F600] @ [0x62]"
    by (simp_all add: is_scalar_def len_utf8_def MAX_BASE_def)
  obtain r where r: "rope_from (str_of ?cs) = Some r" "rope_rep r [?cs]" "node_height (chunks r) = 0"
    using s(1-3) by (rule rope_from_small)
  have t: "rope_text r ([0x61] @ [0x1F600] @ [0x62])" using rope_textI[OF r(2)] by simp
  have h: "node_height (chunks r) < MAX_DEPTH" using r(3) by (simp add: MAX_DEPTH_def)
  have low: "slice_low r 1 5" "replace_low r 1 5"
    using slice_low_single[OF r(2) n(3) s(2) h] replace_low_single[OF r(2) n(3) s(2) h] unfolding n(1,2) by blast+
  from rope_replace_text[OF t s(4), unfolded n(1,2)] low r(1) show ?thesis by auto
qed

lemma rope_assert_rep:
  assumes r: "rope_rep r css" "[] \<notin> set css"
  shows "rope_assert_char_boundary panic r i =
    (if str_is_char_boundary (str_of (concat css)) i then Some True else if panic then None else Some False)"
proof (cases "css = [] \<or> bytes_of (concat css) < i")
  case True
  then consider "css = []" "i = 0" | "bytes_of (concat css) < i" by fastforce
  then show ?thesis
  proof cases
    case 2
    have "st_find usize_dim (chunks r) (cmp i) Left = (bytes_of (concat css), bytes_of (concat css), None)"
      by (rule usize_m.find_end[OF r(1)]) (use 2 in \<open>simp add: cmp_def\<close>)
    then show ?thesis using 2 by (simp add: rope_assert_char_boundary_def str_is_char_boundary_def)
  qed (use rope_rep_empty[OF r(1)] in \<open>auto simp: rope_assert_char_boundary_def str_is_char_boundary_def\<close>)
next
  case False
  then have i: "css \<noteq> []" "i \<le> bytes_of (concat css)" by auto
  obtain p cs q m c where f: "concat css = p @ cs @ q" "i = bytes_of p + m" "m \<le> bytes_of cs" "m = 0 \<longrightarrow> p = []" "chunk_rep c cs"
      "st_find usize_dim (chunks r) (cmp i) Left = (bytes_of p, bytes_of (p @ cs), Some c)"
    using r i by (rule find_byte)
  have "chunk_is_char_boundary c m \<longleftrightarrow> str_is_char_boundary (str_of cs) m"
    using is_char_boundary_iff[OF f(5), of m] f(3) chunk_rep_length[OF f(5)] by simp
  also have "\<dots> \<longleftrightarrow> str_is_char_boundary (str_of (concat css)) i"
    using boundary_middle[of p cs q m] rope_rep_scalars[OF r(1)] f by simp
  finally show ?thesis using f i rope_rep_empty[OF r(1)] by (simp add: rope_assert_char_boundary_def chunk_assert_char_boundary_def)
qed

text \<open>
  C7: The eleven conversions of a rope agree. At every character boundary of the text, given by the prefix before it,
  the byte offset, the UTF-16 offset, the point and the UTF-16 point are converted into each other, and no
  conversion panics, however the text is cut into chunks.
\<close>

theorem rope_conversions_agree:
  assumes "rope_text r (xs @ ys)" "node_height (chunks r) < MAX_DEPTH"
  defines "off \<equiv> length (str_of xs)"
  shows "rope_offset_to_offset_utf16 r off = Some (units xs) \<and> rope_offset_utf16_to_offset r (units xs) = Some off \<and>
    rope_offset_to_point r off = Some (end_point xs) \<and> rope_point_to_offset r (end_point xs) = Some off \<and>
    rope_offset_to_point_utf16 r off = Some (end_point_utf16 xs) \<and> rope_point_utf16_to_offset r (end_point_utf16 xs) = Some off \<and>
    rope_point_to_point_utf16 r (end_point xs) = Some (end_point_utf16 xs) \<and>
    rope_point_utf16_to_point r (end_point_utf16 xs) = Some (end_point xs) \<and>
    rope_unclipped_point_utf16_to_point r (end_point_utf16 xs) = Some (end_point xs) \<and>
    rope_point_to_offset_utf16 r (end_point xs) = Some (units xs) \<and>
    rope_point_utf16_to_offset_utf16 r (end_point_utf16 xs) = Some (units xs)"
proof -
  obtain css where r: "rope_rep r css" "[] \<notin> set css" "concat css = xs @ ys" using assms(1) by (rule rope_textE)
  show ?thesis unfolding off_def
    using rope_find_conversions[OF r] rope_seek_conversions[OF r assms(2)] by blast
qed

lemma rope_conversions_agree_witness:
  "\<exists>r. rope_from (str_of [0x61, 10, 0x1F600, 0x62]) = Some r \<and> rope_offset_to_point r 6 = Some (point_new 1 4) \<and>
     rope_point_utf16_to_offset_utf16 r (point_new 1 2) = Some 4"
proof -
  let ?xs = "[0x61, 10, 0x1F600] :: scalar list"
  have s: "\<forall>c\<in>set (?xs @ [0x62]). is_scalar c" "?xs @ [0x62] \<noteq> []" "bytes_of (?xs @ [0x62]) \<le> MAX_BASE"
    by (simp_all add: is_scalar_def len_utf8_def MAX_BASE_def)
  have e: "end_point ?xs = point_new 1 4" "end_point_utf16 ?xs = point_new 1 2" "bytes_of ?xs = 6" "units ?xs = 4"
    by (auto intro!: point_eqI simp: len_utf8_def len_utf16_def)
  obtain r where r: "rope_from (str_of (?xs @ [0x62])) = Some r" "rope_rep r [?xs @ [0x62]]" "node_height (chunks r) = 0"
    using s by (rule rope_from_small)
  have t: "rope_text r (?xs @ [0x62])" using rope_textI[OF r(2)] by simp
  have h: "node_height (chunks r) < MAX_DEPTH" using r(3) by (simp add: MAX_DEPTH_def)
  from rope_conversions_agree[OF t h, unfolded e] r(1) show ?thesis by auto
qed

text \<open>
  C16: The rope's character boundaries are those of its text, for every offset: inside a character, at the seams of
  chunks, at the end and beyond. Rounding down and up, and so clipping an offset with either bias, give the nearest
  boundary of the text, and the assertion of a boundary panics exactly when it is asked to and there is none.
\<close>

theorem rope_boundaries:
  assumes "rope_text r cs"
  defines "bs \<equiv> str_of cs"
  shows "rope_is_char_boundary r i = Some (str_is_char_boundary bs i) \<and>
    rope_assert_char_boundary panic r i = (if str_is_char_boundary bs i then Some True else if panic then None else Some False) \<and>
    rope_clip_offset r i Left = Some (str_floor_char_boundary bs i) \<and>
    rope_clip_offset r i Right = Some (str_ceil_char_boundary bs i)"
proof -
  obtain css where r: "rope_rep r css" "[] \<notin> set css" "concat css = cs" using assms(1) by (rule rope_textE)
  have "rope_assert_char_boundary panic r i = (if str_is_char_boundary bs i then Some True else if panic then None else Some False)"
    using rope_boundary_rep[OF r(1,2), of i] rope_assert_rep[OF r(1,2), of panic i] r(3) by (simp add: bs_def)
  then show ?thesis
    using rope_boundary_rep[OF r(1,2)] rope_floor_rep[OF r(1,2)] rope_ceil_rep[OF r(1,2)] r(3) by (simp add: bs_def rope_clip_offset_def)
qed

lemma rope_boundaries_witness:
  "\<exists>r. rope_from (str_of [0x61, 0x1F600]) = Some r \<and> rope_is_char_boundary r 3 = Some False \<and> rope_clip_offset r 3 Left = Some 1 \<and>
     rope_clip_offset r 3 Right = Some 5"
proof -
  have s: "\<forall>c\<in>set [0x61, 0x1F600]. is_scalar c" by (simp add: is_scalar_def)
  obtain r css where "rope_from (str_of [0x61, 0x1F600]) = Some r" "rope_rep r css" "well_filled css" "concat css = [0x61, 0x1F600]"
    using s by (rule rope_from_rep)
  then have r: "rope_from (str_of [0x61, 0x1F600]) = Some r" "rope_text r [0x61, 0x1F600]" using rope_textI[of r css] by auto
  let ?b = "str_of [0x61, 0x1F600]"
  have inside: "\<not> str_is_char_boundary ?b j" if "1 < j" "j < 5" for j
    using wide_char_inside[of "[0x61]" "0x1F600" "[]" "j - 1"] that by (simp add: is_scalar_def len_utf8_def)
  have at: "str_is_char_boundary ?b 1" "str_is_char_boundary ?b 5" "length ?b = 5" "?b \<noteq> []" "is_utf8_char_boundary (hd ?b)"
    using boundary_of_prefix[of "[0x1F600]" "[0x61]"] str_of_hd_boundary[OF s]
    by (simp_all add: is_scalar_def len_utf8_def str_is_char_boundary_def)
  have v: "\<not> str_is_char_boundary ?b 3" "str_floor_char_boundary ?b 3 = 1" "str_ceil_char_boundary ?b 3 = 5"
    using inside at by (auto intro!: str_floor_unique str_ceil_unique simp del: str_of_simps)
  from rope_boundaries[OF r(2), of 3 True] r(1) v show ?thesis by auto
qed

text \<open>
  C11: The summary of a range of a rope. For every dimension of text that follows the laws of \<open>text_dim_laws\<close> (byte and
  UTF-16 lengths, points, UTF-16 points and text summaries are shown to, and pairs of such dimensions), the sum that a
  cursor collects between two character boundaries, from partial chunks at both ends and whole subtrees in between,
  is the measure of exactly the text in between.
\<close>

theorem rope_range_summary:
  assumes "rope_text r (xs @ ys @ zs)" "node_height (chunks r) < MAX_DEPTH" "text_dim_laws T \<mu>"
  shows "text_summary_for_range T r (length (str_of xs)) (length (str_of (xs @ ys))) = Some (\<mu> ys)"
proof -
  obtain css where r: "rope_rep r css" "[] \<notin> set css" "concat css = xs @ ys @ zs" using assms(1) by (rule rope_textE)
  obtain c where c: "rc_new r (bytes_of xs) = Some c" "rc_at r css xs c" using r assms(2) by (rule rc_new_at)
  obtain c1 where "rc_summary T c (bytes_of (xs @ ys)) = Some (c1, \<mu> ys)"
    by (rule text_dim_laws.rc_summary_at[OF assms(3) r assms(2) c(2)])
  then show ?thesis using c(1) by (simp add: text_summary_for_range_def)
qed

lemma rope_range_summary_witness:
  "\<exists>r. rope_from (str_of [0x61, 0x1F600, 10]) = Some r \<and>
     text_summary_for_range (pair_td utf16_td point_td) r 1 6 = Some (3, point_new 1 0)"
proof -
  let ?cs = "[0x61, 0x1F600, 10] :: scalar list"
  have s: "\<forall>c\<in>set ?cs. is_scalar c" "?cs \<noteq> []" "bytes_of ?cs \<le> MAX_BASE"
    and n: "bytes_of [0x61] = 1" "bytes_of ([0x61] @ [0x1F600, 10]) = 6" "units [0x1F600, 10] = 3" "end_point [0x1F600, 10] = point_new 1 0"
    by (auto intro!: point_eqI simp: is_scalar_def len_utf8_def len_utf16_def MAX_BASE_def)
  obtain r where r: "rope_from (str_of ?cs) = Some r" "rope_rep r [?cs]" "node_height (chunks r) = 0" using s by (rule rope_from_small)
  have t: "rope_text r ([0x61] @ [0x1F600, 10] @ [])" using rope_textI[OF r(2)] by simp
  have h: "node_height (chunks r) < MAX_DEPTH" using r(3) by (simp add: MAX_DEPTH_def)
  from rope_range_summary[OF t h text_dim_pair[OF utf16_t.text_dim_laws_axioms point_t.text_dim_laws_axioms]] r(1)
  show ?thesis unfolding n by auto
qed

end
