(* ===== verification/Rope_Iter.thy ===== *)
theory Rope_Iter
  imports Rope
begin

section \<open>Iterating over a rope (crates/rope/src/rope.rs)\<close>

text \<open>
  \<open>Chunks\<close> walks over the pieces of text in a range of offsets, in either direction, \<open>Bytes\<close> over the same pieces as
  bytes, and \<open>Lines\<close> over the lines. An iterator keeps a cursor over the chunks and the current offset. In the
  iterators the outer option is a panic and the inner one the \<open>Option\<close> of the code.
\<close>

subsection \<open>Strings\<close>

text \<open>\<open>str::find('\n')\<close>, \<open>str::rfind('\n')\<close>, \<open>starts_with\<close>, \<open>ends_with\<close> and \<open>str::get\<close> with a range.\<close>

definition find_newline :: "bytes \<Rightarrow> nat option" where
  "find_newline bs = (if 10 \<in> set bs then Some (length (takeWhile (\<lambda>b. b \<noteq> 10) bs)) else None)"

definition rfind_newline :: "bytes \<Rightarrow> nat option" where
  "rfind_newline bs = (if 10 \<in> set bs then Some (length bs - 1 - length (takeWhile (\<lambda>b. b \<noteq> 10) (rev bs))) else None)"

definition str_starts_with :: "bytes \<Rightarrow> bytes \<Rightarrow> bool" where
  "str_starts_with bs pat \<longleftrightarrow> take (length pat) bs = pat"

definition str_ends_with :: "bytes \<Rightarrow> bytes \<Rightarrow> bool" where
  "str_ends_with bs pat \<longleftrightarrow> length pat \<le> length bs \<and> drop (length bs - length pat) bs = pat"

subsection \<open>Chunks\<close>

record chunks_iter =
  ci_chunks :: "(chunk, text_summary, nat) cursor"
  ci_start :: nat
  ci_end :: nat
  ci_offset :: nat
  ci_reversed :: bool

definition chunks_new :: "rope \<Rightarrow> nat \<Rightarrow> nat \<Rightarrow> bool \<Rightarrow> chunks_iter option" where
  "chunks_new r range_start range_end reversed =
     do { let offset = (if reversed then range_end else range_start);
          (c, _) \<leftarrow> cursor_seek usize_dim (cmp offset) (if reversed then Left else Right) (cursor_new usize_dim (chunks r));
          chunk_offset \<leftarrow> checked_sub offset (cursor_start c);
          item \<leftarrow> cursor_item c;
          _ \<leftarrow> (case item of Some chunk \<Rightarrow> chunk_assert_char_boundary True chunk chunk_offset | None \<Rightarrow> Some True);
          Some \<lparr>ci_chunks = c, ci_start = range_start, ci_end = range_end, ci_offset = offset, ci_reversed = reversed\<rparr> }"

definition offset_is_valid :: "chunks_iter \<Rightarrow> bool" where
  "offset_is_valid ci \<longleftrightarrow>
     (if ci_reversed ci then \<not> (ci_offset ci \<le> ci_start ci \<or> ci_offset ci > ci_end ci)
      else \<not> (ci_offset ci < ci_start ci \<or> ci_offset ci \<ge> ci_end ci))"

text \<open>\<open>usize::clamp\<close> asserts that its range is not empty.\<close>

definition clamp :: "nat \<Rightarrow> nat \<Rightarrow> nat \<Rightarrow> nat option" where
  "clamp x low high = (if low \<le> high then Some (min (max x low) high) else None)"

definition chunks_seek :: "chunks_iter \<Rightarrow> nat \<Rightarrow> chunks_iter option" where
  "chunks_seek ci offset0 =
     do { offset \<leftarrow> clamp offset0 (ci_start ci) (ci_end ci);
          chunks_end \<leftarrow> cursor_end usize_dim (ci_chunks ci);
          c \<leftarrow>
            (if ci_reversed ci then
               (if offset > chunks_end then map_option fst (cursor_seek_forward usize_dim (cmp offset) Left (ci_chunks ci))
                else if offset \<le> cursor_start (ci_chunks ci) then map_option fst (cursor_seek usize_dim (cmp offset) Left (ci_chunks ci))
                else Some (ci_chunks ci))
             else
               (if offset \<ge> chunks_end then map_option fst (cursor_seek_forward usize_dim (cmp offset) Right (ci_chunks ci))
                else if offset < cursor_start (ci_chunks ci) then map_option fst (cursor_seek usize_dim (cmp offset) Right (ci_chunks ci))
                else Some (ci_chunks ci)));
          Some (ci\<lparr>ci_chunks := c, ci_offset := offset\<rparr>) }"

definition chunks_set_range :: "chunks_iter \<Rightarrow> nat \<Rightarrow> nat \<Rightarrow> chunks_iter option" where
  "chunks_set_range ci range_start range_end =
     chunks_seek (ci\<lparr>ci_start := range_start, ci_end := range_end\<rparr>) range_start"

text \<open>The part of the current chunk that lies in the range; shared by \<open>peek\<close> and \<open>peek_with_bitmaps\<close>.\<close>

definition peek_range :: "chunks_iter \<Rightarrow> (nat \<times> nat) option" where
  "peek_range ci =
     (let chunk_start = cursor_start (ci_chunks ci) in
      if ci_reversed ci then
        do { slice_start \<leftarrow> checked_sub (max chunk_start (ci_start ci)) chunk_start;
             slice_end \<leftarrow> checked_sub (ci_offset ci) chunk_start;
             Some (slice_start, slice_end) }
      else
        do { slice_start \<leftarrow> checked_sub (ci_offset ci) chunk_start;
             chunks_end \<leftarrow> cursor_end usize_dim (ci_chunks ci);
             slice_end \<leftarrow> checked_sub (min chunks_end (ci_end ci)) chunk_start;
             Some (slice_start, slice_end) })"

definition chunks_peek :: "chunks_iter \<Rightarrow> bytes option option" where
  "chunks_peek ci =
     (if \<not> offset_is_valid ci then Some None
      else do { item \<leftarrow> cursor_item (ci_chunks ci);
                (case item of
                   None \<Rightarrow> Some None
                 | Some chunk \<Rightarrow>
                     do { (slice_start, slice_end) \<leftarrow> peek_range ci;
                          map_option Some (str_index (ck_text chunk) slice_start slice_end) }) })"

record chunk_bitmaps =
  cb_text :: bytes
  cb_chars :: u128
  cb_tabs :: u128
  cb_newlines :: u128

definition chunks_peek_with_bitmaps :: "chunks_iter \<Rightarrow> chunk_bitmaps option option" where
  "chunks_peek_with_bitmaps ci =
     (if \<not> offset_is_valid ci then Some None
      else do { item \<leftarrow> cursor_item (ci_chunks ci);
                (case item of
                   None \<Rightarrow> Some None
                 | Some chunk \<Rightarrow>
                     do { (slice_start, slice_end) \<leftarrow> peek_range ci;
                          slice_text \<leftarrow> str_index (ck_text chunk) slice_start slice_end;
                          shifted_tabs \<leftarrow> shr (ck_tabs chunk) slice_start;
                          shifted_chars \<leftarrow> shr (ck_chars chunk) slice_start;
                          shifted_newlines \<leftarrow> shr (ck_newlines chunk) slice_start;
                          Some (Some \<lparr>cb_text = slice_text, cb_chars = shifted_chars, cb_tabs = shifted_tabs,
                                      cb_newlines = shifted_newlines\<rparr>) }) })"

text \<open>Moving past a piece of \<open>len\<close> bytes; the same in both iterators over chunks.\<close>

definition chunks_advance :: "chunks_iter \<Rightarrow> nat \<Rightarrow> chunks_iter option" where
  "chunks_advance ci len =
     (if ci_reversed ci then
        do { offset \<leftarrow> checked_sub (ci_offset ci) len;
             c \<leftarrow> (if offset \<le> cursor_start (ci_chunks ci) then cursor_prev usize_dim (ci_chunks ci) else Some (ci_chunks ci));
             Some (ci\<lparr>ci_offset := offset, ci_chunks := c\<rparr>) }
      else
        do { let offset = ci_offset ci + len;
             chunks_end \<leftarrow> cursor_end usize_dim (ci_chunks ci);
             c \<leftarrow> (if offset \<ge> chunks_end then cursor_next usize_dim (ci_chunks ci) else Some (ci_chunks ci));
             Some (ci\<lparr>ci_offset := offset, ci_chunks := c\<rparr>) })"

definition chunks_next :: "chunks_iter \<Rightarrow> (chunks_iter \<times> bytes option) option" where
  "chunks_next ci =
     do { piece \<leftarrow> chunks_peek ci;
          (case piece of
             None \<Rightarrow> Some (ci, None)
           | Some p \<Rightarrow> do { ci' \<leftarrow> chunks_advance ci (length p); Some (ci', Some p) }) }"

definition bitmaps_next :: "chunks_iter \<Rightarrow> (chunks_iter \<times> chunk_bitmaps option) option" where
  "bitmaps_next ci =
     do { piece \<leftarrow> chunks_peek_with_bitmaps ci;
          (case piece of
             None \<Rightarrow> Some (ci, None)
           | Some p \<Rightarrow> do { ci' \<leftarrow> chunks_advance ci (length (cb_text p)); Some (ci', Some p) }) }"

text \<open>
  A \<open>for\<close> loop over the pieces whose body either goes on with a new state (\<open>Inl\<close>) or returns (\<open>Inr\<close>), and the loop that
  collects all pieces.
\<close>

partial_function (option) for_chunks ::
  "(bytes \<Rightarrow> 's \<Rightarrow> ('s + 'r) option) \<Rightarrow> ('s \<Rightarrow> 'r option) \<Rightarrow> chunks_iter \<Rightarrow> 's \<Rightarrow> 'r option" where
  "for_chunks body finish ci s =
     do { (ci', piece) \<leftarrow> chunks_next ci;
          (case piece of
             None \<Rightarrow> finish s
           | Some p \<Rightarrow>
               do { res \<leftarrow> body p s;
                    (case res of Inl s' \<Rightarrow> for_chunks body finish ci' s' | Inr r \<Rightarrow> Some r) }) }"

partial_function (option) chunks_collect :: "chunks_iter \<Rightarrow> bytes list option" where
  "chunks_collect ci =
     do { (ci', piece) \<leftarrow> chunks_next ci;
          (case piece of
             None \<Rightarrow> Some []
           | Some p \<Rightarrow> do { ps \<leftarrow> chunks_collect ci'; Some (p # ps) }) }"

declare for_chunks.simps [code] chunks_collect.simps [code]

definition chunks_in_range :: "rope \<Rightarrow> nat \<Rightarrow> nat \<Rightarrow> chunks_iter option" where
  "chunks_in_range r range_start range_end = chunks_new r range_start range_end False"

definition reversed_chunks_in_range :: "rope \<Rightarrow> nat \<Rightarrow> nat \<Rightarrow> chunks_iter option" where
  "reversed_chunks_in_range r range_start range_end = chunks_new r range_start range_end True"

definition rope_chunks :: "rope \<Rightarrow> chunks_iter option" where
  "rope_chunks r = chunks_in_range r 0 (rope_len r)"

text \<open>\<open>Display\<close> writes the chunks one after the other; \<open>to_string\<close> is its result.\<close>

definition rope_display :: "rope \<Rightarrow> bytes option" where
  "rope_display r = do { ci \<leftarrow> rope_chunks r; ps \<leftarrow> chunks_collect ci; Some (concat ps) }"

subsection \<open>Comparing with a string\<close>

definition equals_forward :: "bytes \<Rightarrow> bytes \<Rightarrow> nat \<Rightarrow> (nat + bool) option" where
  "equals_forward other chunk offset =
     (if offset \<ge> length other then Some (Inr False)
      else do { tail \<leftarrow> str_index other offset (length other);
                Some (if str_starts_with tail chunk then Inl (offset + length chunk) else Inr False) })"

definition equals_backward :: "bytes \<Rightarrow> bytes \<Rightarrow> nat \<Rightarrow> (nat + bool) option" where
  "equals_backward other chunk offset =
     do { head \<leftarrow> str_index other 0 offset;
          if str_ends_with head chunk
          then do { offset' \<leftarrow> checked_sub offset (length chunk); Some (Inl offset') }
          else Some (Inr False) }"

definition equals_str :: "chunks_iter \<Rightarrow> bytes \<Rightarrow> bool option" where
  "equals_str ci other =
     (if ci_reversed ci then for_chunks (equals_backward other) (\<lambda>offset. Some (offset = 0)) ci (length other)
      else for_chunks (equals_forward other) (\<lambda>offset. Some (offset = length other)) ci 0)"

text \<open>\<open>str::get\<close> of a range returns nothing where indexing would panic.\<close>

definition starts_with_step :: "bytes \<Rightarrow> bytes \<Rightarrow> (bytes + bool) option" where
  "starts_with_step chunk remaining =
     (case str_index chunk 0 (min (length remaining) (length chunk)) of
        None \<Rightarrow> Some (Inr False)
      | Some chunk' \<Rightarrow>
          (if str_starts_with remaining chunk' then
             do { remaining' \<leftarrow> str_index remaining (length chunk') (length remaining);
                  Some (if remaining' = [] then Inr True else Inl remaining') }
           else Some (Inr False)))"

definition rope_starts_with :: "rope \<Rightarrow> bytes \<Rightarrow> bool option" where
  "rope_starts_with r pattern =
     (if length pattern > rope_len r then Some False
      else do { ci \<leftarrow> chunks_in_range r 0 (rope_len r);
                for_chunks starts_with_step (\<lambda>remaining. Some (remaining = [])) ci pattern })"

definition ends_with_step :: "bytes \<Rightarrow> bytes \<Rightarrow> (bytes + bool) option" where
  "ends_with_step chunk remaining =
     (case str_index chunk (length chunk - min (length remaining) (length chunk)) (length chunk) of
        None \<Rightarrow> Some (Inr False)
      | Some chunk' \<Rightarrow>
          (if str_ends_with remaining chunk' then
             do { remaining' \<leftarrow> str_index remaining 0 (length remaining - length chunk');
                  Some (if remaining' = [] then Inr True else Inl remaining') }
           else Some (Inr False)))"

definition rope_ends_with :: "rope \<Rightarrow> bytes \<Rightarrow> bool option" where
  "rope_ends_with r pattern =
     (if length pattern > rope_len r then Some False
      else do { ci \<leftarrow> reversed_chunks_in_range r 0 (rope_len r);
                for_chunks ends_with_step (\<lambda>remaining. Some (remaining = [])) ci pattern })"

subsection \<open>Bytes\<close>

record bytes_iter =
  bi_chunks :: "(chunk, text_summary, nat) cursor"
  bi_start :: nat
  bi_end :: nat
  bi_reversed :: bool

definition bytes_new :: "rope \<Rightarrow> nat \<Rightarrow> nat \<Rightarrow> bool \<Rightarrow> bytes_iter option" where
  "bytes_new r range_start range_end reversed =
     do { (c, _) \<leftarrow> (if reversed then cursor_seek usize_dim (cmp range_end) Left (cursor_new usize_dim (chunks r))
                     else cursor_seek usize_dim (cmp range_start) Right (cursor_new usize_dim (chunks r)));
          Some \<lparr>bi_chunks = c, bi_start = range_start, bi_end = range_end, bi_reversed = reversed\<rparr> }"

definition bytes_in_range :: "rope \<Rightarrow> nat \<Rightarrow> nat \<Rightarrow> bytes_iter option" where
  "bytes_in_range r range_start range_end = bytes_new r range_start range_end False"

definition reversed_bytes_in_range :: "rope \<Rightarrow> nat \<Rightarrow> nat \<Rightarrow> bytes_iter option" where
  "reversed_bytes_in_range r range_start range_end = bytes_new r range_start range_end True"

text \<open>Slicing the bytes of a chunk panics when the range is out of bounds.\<close>

definition bytes_peek :: "bytes_iter \<Rightarrow> bytes option option" where
  "bytes_peek bi =
     do { item \<leftarrow> cursor_item (bi_chunks bi);
          (case item of
             None \<Rightarrow> Some None
           | Some chunk \<Rightarrow>
               do { chunks_end \<leftarrow> cursor_end usize_dim (bi_chunks bi);
                    let chunk_start = cursor_start (bi_chunks bi);
                    if bi_reversed bi \<and> bi_start bi \<ge> chunks_end then Some None
                    else if bi_end bi \<le> chunk_start then Some None
                    else (let start = bi_start bi - chunk_start;
                              fin = min (length (ck_text chunk)) (bi_end bi - chunk_start)
                          in if start \<le> fin then Some (Some (drop start (take fin (ck_text chunk)))) else None) }) }"

definition bytes_next :: "bytes_iter \<Rightarrow> (bytes_iter \<times> bytes option) option" where
  "bytes_next bi =
     do { result \<leftarrow> bytes_peek bi;
          (case result of
             None \<Rightarrow> Some (bi, None)
           | Some p \<Rightarrow>
               do { c \<leftarrow> (if bi_reversed bi then cursor_prev usize_dim (bi_chunks bi) else cursor_next usize_dim (bi_chunks bi));
                    Some (bi\<lparr>bi_chunks := c\<rparr>, Some p) }) }"

text \<open>\<open>io::Read::read\<close> into a buffer of a given size: the iterator and the bytes that are written to its front.\<close>

definition bytes_read :: "bytes_iter \<Rightarrow> nat \<Rightarrow> (bytes_iter \<times> bytes) option" where
  "bytes_read bi buf_len =
     do { result \<leftarrow> bytes_peek bi;
          (case result of
             None \<Rightarrow> Some (bi, [])
           | Some chunk \<Rightarrow>
               do { let len = min buf_len (length chunk);
                    (bi1, out) \<leftarrow>
                      (if bi_reversed bi then
                         do { e \<leftarrow> checked_sub (bi_end bi) len;
                              Some (bi\<lparr>bi_end := e\<rparr>, rev (drop (length chunk - len) chunk)) }
                       else Some (bi\<lparr>bi_start := bi_start bi + len\<rparr>, take len chunk));
                    bi2 \<leftarrow>
                      (if len = length chunk then
                         do { c \<leftarrow> (if bi_reversed bi1 then cursor_prev usize_dim (bi_chunks bi1)
                                    else cursor_next usize_dim (bi_chunks bi1));
                              Some (bi1\<lparr>bi_chunks := c\<rparr>) }
                       else Some bi1);
                    Some (bi2, out) }) }"

partial_function (option) bytes_collect :: "bytes_iter \<Rightarrow> bytes list option" where
  "bytes_collect bi =
     do { (bi', piece) \<leftarrow> bytes_next bi;
          (case piece of
             None \<Rightarrow> Some []
           | Some p \<Rightarrow> do { ps \<leftarrow> bytes_collect bi'; Some (p # ps) }) }"

declare bytes_collect.simps [code]

subsection \<open>Lines\<close>

record lines_iter =
  li_chunks :: chunks_iter
  current_line :: bytes
  li_done :: bool
  li_reversed :: bool

definition chunks_lines :: "chunks_iter \<Rightarrow> lines_iter" where
  "chunks_lines ci = \<lparr>li_chunks = ci, current_line = [], li_done = False, li_reversed = ci_reversed ci\<rparr>"

text \<open>
  The loop of \<open>Lines::next\<close>. \<open>chunk.split('\n')\<close> has at least one part; the first part (or the last one, in reverse)
  completes the current line if there is another part.
\<close>

partial_function (option) lines_loop :: "lines_iter \<Rightarrow> (lines_iter \<times> bytes option) option" where
  "lines_loop li =
     do { piece \<leftarrow> chunks_peek (li_chunks li);
          (case piece of
             None \<Rightarrow> Some (li\<lparr>li_done := True\<rparr>, Some (current_line li))
           | Some chunk \<Rightarrow>
               (let chunk_lines = (if li_reversed li then rev (split_lines chunk) else split_lines chunk) in
                case chunk_lines of
                  [] \<Rightarrow> do { (ci, _) \<leftarrow> chunks_next (li_chunks li); lines_loop (li\<lparr>li_chunks := ci\<rparr>) }
                | chunk_line # others \<Rightarrow>
                    (let line = (if li_reversed li then chunk_line @ current_line li else current_line li @ chunk_line) in
                     if others \<noteq> [] then
                       do { target \<leftarrow> (if li_reversed li
                                        then do { o1 \<leftarrow> checked_sub (ci_offset (li_chunks li)) (length chunk_line); checked_sub o1 1 }
                                        else Some (ci_offset (li_chunks li) + length chunk_line + 1));
                            ci \<leftarrow> chunks_seek (li_chunks li) target;
                            if current_line li = [] then Some (li\<lparr>li_chunks := ci\<rparr>, Some chunk_line)
                            else Some (li\<lparr>li_chunks := ci, current_line := line\<rparr>, Some line) }
                     else do { (ci, _) \<leftarrow> chunks_next (li_chunks li);
                               lines_loop (li\<lparr>li_chunks := ci, current_line := line\<rparr>) }))) }"

definition lines_next :: "lines_iter \<Rightarrow> (lines_iter \<times> bytes option) option" where
  "lines_next li = (if li_done li then Some (li, None) else lines_loop (li\<lparr>current_line := []\<rparr>))"

definition lines_seek :: "lines_iter \<Rightarrow> nat \<Rightarrow> lines_iter option" where
  "lines_seek li offset =
     do { ci \<leftarrow> chunks_seek (li_chunks li) offset;
          Some (li\<lparr>li_chunks := ci, current_line := [], li_done := False\<rparr>) }"

definition lines_offset :: "lines_iter \<Rightarrow> nat" where
  "lines_offset li = ci_offset (li_chunks li)"

partial_function (option) lines_collect :: "lines_iter \<Rightarrow> bytes list option" where
  "lines_collect li =
     do { (li', line) \<leftarrow> lines_next li;
          (case line of
             None \<Rightarrow> Some []
           | Some l \<Rightarrow> do { ls \<leftarrow> lines_collect li'; Some (l # ls) }) }"

declare lines_loop.simps [code] lines_collect.simps [code]

subsection \<open>Moving by lines\<close>

definition has_newline :: "text_summary \<Rightarrow> bool" where
  "has_newline s \<longleftrightarrow> row (ts_lines s) > 0"

definition next_line :: "chunks_iter \<Rightarrow> (chunks_iter \<times> bool) option" where
  "next_line ci0 =
     (if ci_reversed ci0 then None
      else do {
        piece \<leftarrow> chunks_peek ci0;
        (ci, found) \<leftarrow>
          (case piece of
             None \<Rightarrow> Some (ci0, False)
           | Some chunk \<Rightarrow>
               do { (ci1, found) \<leftarrow>
                      (case find_newline chunk of
                         Some newline_ix \<Rightarrow>
                           (let offset = ci_offset ci0 + (newline_ix + 1)
                            in Some (ci0\<lparr>ci_offset := offset\<rparr>, offset \<le> ci_end ci0))
                       | None \<Rightarrow>
                           do { c \<leftarrow> search_forward usize_dim has_newline (ci_chunks ci0);
                                let ci1 = ci0\<lparr>ci_chunks := c, ci_offset := cursor_start c\<rparr>;
                                piece \<leftarrow> chunks_peek ci1;
                                (case Option.bind piece find_newline of
                                   Some newline_ix \<Rightarrow>
                                     (let offset = ci_offset ci1 + (newline_ix + 1)
                                      in Some (ci1\<lparr>ci_offset := offset\<rparr>, offset \<le> ci_end ci1))
                                 | None \<Rightarrow>
                                     do { chunks_end \<leftarrow> cursor_end usize_dim (ci_chunks ci1);
                                          Some (ci1\<lparr>ci_offset := chunks_end\<rparr>, False) }) });
                    chunks_end \<leftarrow> cursor_end usize_dim (ci_chunks ci1);
                    ci2 \<leftarrow> (if ci_offset ci1 = chunks_end then map_option fst (chunks_next ci1) else Some ci1);
                    Some (ci2, found) });
        ci' \<leftarrow>
          (if ci_offset ci > ci_end ci then
             (let offset = min (ci_offset ci) (ci_end ci) in
              do { (c, _) \<leftarrow> cursor_seek usize_dim (cmp offset) Right (ci_chunks ci);
                   Some (ci\<lparr>ci_offset := offset, ci_chunks := c\<rparr>) })
           else Some ci);
        Some (ci', found) })"

text \<open>The two places where \<open>prev_line\<close> returns early are \<open>Inr\<close>.\<close>

definition prev_line_here :: "chunks_iter \<Rightarrow> (chunks_iter + chunks_iter) option" where
  "prev_line_here ci =
     do { item \<leftarrow> cursor_item (ci_chunks ci);
          (case item of
             None \<Rightarrow> Some (Inl ci)
           | Some chunk \<Rightarrow>
               do { end_ix \<leftarrow> checked_sub (ci_offset ci) (cursor_start (ci_chunks ci));
                    last_ix \<leftarrow> checked_sub end_ix 1;
                    b \<leftarrow> vec_get (ck_text chunk) last_ix;
                    let end_ix = (if b = 10 then last_ix else end_ix);
                    head \<leftarrow> str_index (ck_text chunk) 0 end_ix;
                    Some (case rfind_newline head of
                            None \<Rightarrow> Inl ci
                          | Some newline_ix \<Rightarrow>
                              (let ci' = ci\<lparr>ci_offset := cursor_start (ci_chunks ci) + newline_ix + 1\<rparr>
                               in if offset_is_valid ci' then Inr ci' else Inl ci')) }) }"

definition prev_line_before :: "chunks_iter \<Rightarrow> (chunks_iter + chunks_iter) option" where
  "prev_line_before ci0 =
     do { c \<leftarrow> search_backward usize_dim has_newline (ci_chunks ci0);
          let ci = ci0\<lparr>ci_chunks := c, ci_offset := cursor_start c\<rparr>;
          item \<leftarrow> cursor_item c;
          (case item of
             None \<Rightarrow> Some (Inl ci)
           | Some chunk \<Rightarrow>
               (case rfind_newline (ck_text chunk) of
                  None \<Rightarrow> Some (Inl ci)
                | Some newline_ix \<Rightarrow>
                    (let ci' = ci\<lparr>ci_offset := ci_offset ci + (newline_ix + 1)\<rparr> in
                     if offset_is_valid ci' then
                       do { chunks_end \<leftarrow> cursor_end usize_dim c;
                            c' \<leftarrow> (if ci_offset ci' = chunks_end then cursor_next usize_dim c else Some c);
                            Some (Inr (ci'\<lparr>ci_chunks := c'\<rparr>)) }
                     else Some (Inl ci')))) }"

definition prev_line :: "chunks_iter \<Rightarrow> (chunks_iter \<times> bool) option" where
  "prev_line ci =
     (if ci_reversed ci then None
      else do {
        let initial_offset = ci_offset ci;
        c \<leftarrow> (if ci_offset ci = cursor_start (ci_chunks ci) then cursor_prev usize_dim (ci_chunks ci) else Some (ci_chunks ci));
        here \<leftarrow> prev_line_here (ci\<lparr>ci_chunks := c\<rparr>);
        (case here of
           Inr ci' \<Rightarrow> Some (ci', True)
         | Inl ci1 \<Rightarrow>
             do { before \<leftarrow> prev_line_before ci1;
                  (case before of
                     Inr ci' \<Rightarrow> Some (ci', True)
                   | Inl ci2 \<Rightarrow>
                       do { item \<leftarrow> cursor_item (ci_chunks ci2);
                            ci3 \<leftarrow>
                              (if \<not> offset_is_valid ci2 \<or> item = None then
                                 do { (c', _) \<leftarrow> cursor_seek usize_dim (cmp (ci_start ci2)) Right (ci_chunks ci2);
                                      Some (ci2\<lparr>ci_offset := ci_start ci2, ci_chunks := c'\<rparr>) }
                               else Some ci2);
                            Some (ci3, ci_offset ci3 < initial_offset \<and> ci_offset ci3 = 0) }) }) })"

end
