(* ===== verification/Rope_Iter_Correct.thy ===== *)
theory Rope_Iter_Correct
  imports Rope_Iter Rope_Props
begin

section \<open>Iterating over the text of a rope\<close>

text \<open>
  The iterator over chunks, going forward, stands at a prefix of the text whose next character is in the chunk
  of its cursor; going backward, the character before the prefix is. Each step moves over a piece of the range, so the
  pieces make up its text.
\<close>

subsection \<open>Forward\<close>

definition fwd_at :: "rope \<Rightarrow> scalar list list \<Rightarrow> nat \<Rightarrow> nat \<Rightarrow> scalar list \<Rightarrow> chunks_iter \<Rightarrow> bool" where
  "fwd_at r css a b xs ci \<longleftrightarrow> \<not> ci_reversed ci \<and> ci_start ci = a \<and> ci_end ci = b \<and> ci_offset ci = bytes_of xs \<and>
     (\<exists>k x. cursor_at chunk_ops usize_dim (chunks r) k (ci_chunks ci) \<and> place css xs k x \<and> (k < length css \<longrightarrow> x \<noteq> css ! k))"

lemma place_next:
  assumes "[] \<notin> set css" "m < length css" "css ! m = x" "place css (xs) m x"
  shows "place css xs (Suc m) []" "Suc m < length css \<longrightarrow> [] \<noteq> css ! Suc m"
  using assms by (auto simp: place_def take_Suc_conv_app_nth) (metis nth_mem)

text \<open>What the iterator sees at a place: the part \<open>p\<close> of its chunk up to the end of the range.\<close>

lemma fwd_peek:
  assumes r: "rope_rep r css" "[] \<notin> set css" "concat css = xs @ ys @ zs" and ys: "ys \<noteq> []" "a \<le> bytes_of xs"
    and ci: "fwd_at r css a (bytes_of (xs @ ys)) xs ci"
  obtains p qs m x w where "ys = p @ qs" "p \<noteq> []" "cursor_at chunk_ops usize_dim (chunks r) m (ci_chunks ci)" "m < length css"
    "place css xs m x" "css ! m = x @ p @ w" "w \<noteq> [] \<longrightarrow> qs = []" "peek_range ci = Some (bytes_of x, bytes_of (x @ p))"
    "chunks_peek ci = Some (Some (str_of p))"
proof -
  obtain m x where m: "cursor_at chunk_ops usize_dim (chunks r) m (ci_chunks ci)" "place css xs m x" "m < length css \<longrightarrow> x \<noteq> css ! m"
    and f: "\<not> ci_reversed ci" "ci_start ci = a" "ci_end ci = bytes_of (xs @ ys)" "ci_offset ci = bytes_of xs"
    using ci by (auto simp: fwd_at_def)
  note reads = usize_m.cursor_reads[OF r(1) m(1)]
  have valid: "offset_is_valid ci" using f ys by (simp add: offset_is_valid_def str_of_eq_Nil)
  have xs: "xs = concat (take m css) @ x" using m(2) by (simp add: place_def)
  have peek: "chunks_peek ci = Some (Some (str_of p)) \<and> peek_range ci = Some (bytes_of x, bytes_of (x @ p))"
    if p: "m < length css" "css ! m = x @ p @ w" "min (bytes_of (concat (take (Suc m) css))) (bytes_of (xs @ ys)) = bytes_of (xs @ p)" for p w
  proof -
    have rep: "chunk_rep (to_list (chunks r) ! m) (x @ p @ w)" using rope_rep_nth[OF r(1) p(1)] p(2) by simp
    have "str_is_char_boundary (str_of (x @ p @ w)) (bytes_of x)" "str_is_char_boundary (str_of (x @ p @ w)) (bytes_of (x @ p))"
      using boundary_at(2)[OF rep] boundary_at(2)[of "to_list (chunks r) ! m" "x @ p" w] rep by simp_all
    then have "str_index (str_of (x @ p @ w)) (bytes_of x) (bytes_of (x @ p)) = Some (str_of p)" by (simp add: str_index_def)
    moreover have range: "peek_range ci = Some (bytes_of x, bytes_of (x @ p))"
      using f reads xs p(3) by (simp add: peek_range_def)
    ultimately show ?thesis using valid reads p(1) chunk_rep_text[OF rep] by (simp add: chunks_peek_def)
  qed
  show thesis
    using r(2,3) m(2)
  proof (cases rule: range_cases)
    case none
    then show thesis using ys(1) by simp
  next
    case (same w)
    have "min (bytes_of (concat (take (Suc m) css))) (bytes_of (xs @ ys)) = bytes_of (xs @ ys)"
      using same xs by (simp add: take_Suc_conv_app_nth)
    from peek[OF same this] show thesis using that[of ys "[]" m x w] m(1,2) same ys(1) by simp
  next
    case (later y k x2)
    have y: "css ! m = x @ y @ []" "min (bytes_of (concat (take (Suc m) css))) (bytes_of (xs @ ys)) = bytes_of (xs @ y)"
      using later(1-3) xs by (simp_all add: take_Suc_conv_app_nth)
    have "y \<noteq> []" using later(1,2) m(3) by auto
    then show thesis
      using that[of y "concat (segment css (Suc m) k) @ x2" m x "[]"] peek[OF later(1) y] later(1,2,7) m(1,2) by simp
  qed
qed

lemma fwd_advance:
  assumes r: "rope_rep r css" "[] \<notin> set css" and h: "node_height (chunks r) < MAX_DEPTH"
    and ci: "\<not> ci_reversed ci" "ci_offset ci = bytes_of xs"
    and m: "cursor_at chunk_ops usize_dim (chunks r) m (ci_chunks ci)" "m < length css" "place css xs m x" "css ! m = x @ p @ w"
  obtains ci' where "chunks_advance ci (bytes_of p) = Some ci'" "fwd_at r css (ci_start ci) (ci_end ci) (xs @ p) ci'"
proof -
  note reads = usize_m.cursor_reads[OF r(1) m(1)]
  have chunk_end: "cursor_end usize_dim (ci_chunks ci) = Some (bytes_of (xs @ p @ w))"
    using reads(4) m by (simp add: place_def take_Suc_conv_app_nth)
  have pl: "place css (xs @ p) m (x @ p)" using m by (simp add: place_def)
  show thesis
  proof (cases "w = []")
    case True
    obtain c where c: "cursor_next usize_dim (ci_chunks ci) = Some c" "cursor_at chunk_ops usize_dim (chunks r) (Suc m) c"
      using r(1) m(1,2) h by (rule rc_next_at)
    have "place css (xs @ p) (Suc m) [] \<and> (Suc m < length css \<longrightarrow> [] \<noteq> css ! Suc m)"
      using place_next[OF r(2) m(2) _ pl] m(4) True by auto
    then show thesis using c chunk_end True ci
      by (intro that[of "ci\<lparr>ci_offset := bytes_of (xs @ p), ci_chunks := c\<rparr>"]) (auto simp: chunks_advance_def fwd_at_def)
  next
    case False
    have "\<exists>k y. cursor_at chunk_ops usize_dim (chunks r) k (ci_chunks ci) \<and> place css (xs @ p) k y \<and> (k < length css \<longrightarrow> y \<noteq> css ! k)"
      using m(1,4) pl False by (intro exI[of _ m] exI[of _ "x @ p"]) simp
    with False show thesis using chunk_end ci
      by (intro that[of "ci\<lparr>ci_offset := bytes_of (xs @ p)\<rparr>"]) (auto simp: chunks_advance_def fwd_at_def str_of_eq_Nil)
  qed
qed

lemma fwd_next:
  assumes r: "rope_rep r css" "[] \<notin> set css" "concat css = xs @ ys @ zs" and h: "node_height (chunks r) < MAX_DEPTH"
    and ys: "ys \<noteq> []" "a \<le> bytes_of xs" and ci: "fwd_at r css a (bytes_of (xs @ ys)) xs ci"
  obtains p qs ci' where "ys = p @ qs" "p \<noteq> []" "chunks_peek ci = Some (Some (str_of p))" "chunks_next ci = Some (ci', Some (str_of p))"
    "fwd_at r css a (bytes_of (xs @ ys)) (xs @ p) ci'"
proof -
  obtain p qs m x w where p: "ys = p @ qs" "p \<noteq> []" "cursor_at chunk_ops usize_dim (chunks r) m (ci_chunks ci)" "m < length css"
      "place css xs m x" "css ! m = x @ p @ w" "chunks_peek ci = Some (Some (str_of p))"
    using r ys ci by (rule fwd_peek)
  have f: "\<not> ci_reversed ci" "ci_offset ci = bytes_of xs" "ci_start ci = a" "ci_end ci = bytes_of (xs @ ys)" using ci by (auto simp: fwd_at_def)
  obtain ci' where "chunks_advance ci (bytes_of p) = Some ci'" "fwd_at r css (ci_start ci) (ci_end ci) (xs @ p) ci'"
    using r(1,2) h f(1,2) p(3-6) by (rule fwd_advance)
  then show thesis using p(1,2,7) f by (intro that[of p qs ci']) (auto simp: chunks_next_def)
qed

lemma fwd_end: "fwd_at r css a (bytes_of xs) xs ci \<Longrightarrow> chunks_peek ci = Some None \<and> chunks_next ci = Some (ci, None)"
  by (auto simp: fwd_at_def chunks_next_def chunks_peek_def offset_is_valid_def)

lemma fwd_collect:
  assumes r: "rope_rep r css" "[] \<notin> set css" and h: "node_height (chunks r) < MAX_DEPTH"
  shows "concat css = xs @ ys @ zs \<Longrightarrow> a \<le> bytes_of xs \<Longrightarrow> fwd_at r css a (bytes_of (xs @ ys)) xs ci \<Longrightarrow>
    \<exists>ps. chunks_collect ci = Some (map str_of ps) \<and> concat ps = ys \<and> [] \<notin> set ps"
proof (induction "length ys" arbitrary: xs ys ci rule: less_induct)
  case less
  show ?case
  proof (cases "ys = []")
    case True
    then show ?thesis using fwd_end[of r css a xs ci] less.prems(3) by (subst chunks_collect.simps) simp
  next
    case False
    obtain p qs ci' where p: "ys = p @ qs" "p \<noteq> []" "chunks_next ci = Some (ci', Some (str_of p))"
        "fwd_at r css a (bytes_of (xs @ ys)) (xs @ p) ci'"
      using r less.prems(1) h False less.prems(2,3) by (rule fwd_next)
    have "length qs < length ys" "concat css = (xs @ p) @ qs @ zs" "a \<le> bytes_of (xs @ p)"
      using p(1,2) less.prems(1,2) by simp_all
    moreover have "fwd_at r css a (bytes_of ((xs @ p) @ qs)) (xs @ p) ci'" using p(4) unfolding p(1) by simp
    ultimately have "\<exists>ps. chunks_collect ci' = Some (map str_of ps) \<and> concat ps = qs \<and> [] \<notin> set ps" by (rule less.hyps)
    then obtain ps where "chunks_collect ci' = Some (map str_of ps)" "concat ps = qs" "[] \<notin> set ps" by blast
    then show ?thesis using p(1-3) by (intro exI[of _ "p # ps"]) (subst chunks_collect.simps, simp)
  qed
qed

lemma fwd_new:
  assumes r: "rope_rep r css" "[] \<notin> set css" "concat css = xs @ ys" and h: "node_height (chunks r) < MAX_DEPTH"
  obtains ci where "chunks_new r (bytes_of xs) b False = Some ci" "fwd_at r css (bytes_of xs) b xs ci"
proof -
  obtain k x where k: "place css xs k x" "cut_at (byte_hit (bytes_of xs) Right) css k" using r(2,3) by (rule right_place)
  have "cmp (bytes_of xs) (bytes_of []) \<noteq> Less" "c_tree (cursor_new usize_dim (chunks r)) = chunks r"
    by (simp_all add: cmp_def cursor_new_def)
  then obtain c f where c: "cursor_seek usize_dim (cmp (bytes_of xs)) Right (cursor_new usize_dim (chunks r)) = Some (c, f)"
      "cursor_at chunk_ops usize_dim (chunks r) k c"
    using usize_m.seek_at[OF r(1) _ _ _ h] k(2) unfolding cut_at_def by blast
  note reads = usize_m.cursor_reads[OF r(1) c(2)]
  have x: "xs = concat (take k css) @ x" using k(1) by (simp add: place_def)
  have strict: "x \<noteq> css ! k" if "k < length css"
  proof
    assume "x = css ! k"
    then have "concat (take (Suc k) css) = xs" using x that by (simp add: take_Suc_conv_app_nth)
    then show False using k(2) that by (auto simp: cut_at_def target_in_def cmp_def)
  qed
  have "chunk_assert_char_boundary True (to_list (chunks r) ! k) (bytes_of x) = Some True" if "k < length css"
  proof -
    obtain y where "css ! k = x @ y" using k(1) \<open>k < length css\<close> by (auto simp: place_def)
    then show ?thesis using boundary_at(1)[of "to_list (chunks r) ! k" x y] rope_rep_nth[OF r(1) that] by (simp add: chunk_assert_char_boundary_def)
  qed
  then show thesis using c(1) reads x k(1) c(2) strict
    by (intro that[of "\<lparr>ci_chunks = c, ci_start = bytes_of xs, ci_end = b, ci_offset = bytes_of xs, ci_reversed = False\<rparr>"])
       (auto simp: chunks_new_def fwd_at_def Let_def)
qed

subsection \<open>Backward\<close>

definition bwd_at :: "rope \<Rightarrow> scalar list list \<Rightarrow> nat \<Rightarrow> nat \<Rightarrow> scalar list \<Rightarrow> chunks_iter \<Rightarrow> bool" where
  "bwd_at r css a b xs ci \<longleftrightarrow> ci_reversed ci \<and> ci_start ci = a \<and> ci_end ci = b \<and> ci_offset ci = bytes_of xs \<and>
     (bytes_of xs \<le> a \<or>
      (\<exists>k x. cursor_at chunk_ops usize_dim (chunks r) k (ci_chunks ci) \<and> place css xs k x \<and> x \<noteq> []))"

lemma bwd_peek:
  assumes r: "rope_rep r css" "[] \<notin> set css" "concat css = pre @ ws @ zs" and ws: "ws \<noteq> []" "bytes_of (pre @ ws) \<le> b"
    and ci: "bwd_at r css (bytes_of pre) b (pre @ ws) ci"
  obtains qs p m u v where "ws = qs @ p" "p \<noteq> []" "cursor_at chunk_ops usize_dim (chunks r) m (ci_chunks ci)" "m < length css"
    "pre @ qs = concat (take m css) @ u" "css ! m = u @ p @ v" "u \<noteq> [] \<longrightarrow> qs = []" "chunks_peek ci = Some (Some (str_of p))"
proof -
  have f: "ci_reversed ci" "ci_start ci = bytes_of pre" "ci_end ci = b" "ci_offset ci = bytes_of (pre @ ws)"
    using ci by (auto simp: bwd_at_def)
  obtain m x where m: "cursor_at chunk_ops usize_dim (chunks r) m (ci_chunks ci)" "place css (pre @ ws) m x" "x \<noteq> []"
    using ci ws(1) by (auto simp: bwd_at_def str_of_eq_Nil)
  have lt: "m < length css" using m(2,3) by (auto simp: place_def split: if_splits)
  obtain v where v: "css ! m = x @ v" "pre @ ws = concat (take m css) @ x" using m(2) lt by (auto simp: place_def)
  note reads = usize_m.cursor_reads[OF r(1) m(1)]
  have valid: "offset_is_valid ci" using f ws by (simp add: offset_is_valid_def str_of_eq_Nil)
  have peek: "chunks_peek ci = Some (Some (str_of p))"
    if p: "x = u @ p" "max (bytes_of (concat (take m css))) (bytes_of pre) = bytes_of (concat (take m css) @ u)" for u p
  proof -
    have rep: "chunk_rep (to_list (chunks r) ! m) (u @ p @ v)" using rope_rep_nth[OF r(1) lt] v(1) p(1) by simp
    have "str_is_char_boundary (str_of (u @ p @ v)) (bytes_of u)" "str_is_char_boundary (str_of (u @ p @ v)) (bytes_of (u @ p))"
      using boundary_at(2)[OF rep] boundary_at(2)[of "to_list (chunks r) ! m" "u @ p" v] rep by simp_all
    then have "str_index (str_of (u @ p @ v)) (bytes_of u) (bytes_of (u @ p)) = Some (str_of p)" by (simp add: str_index_def)
    moreover have "peek_range ci = Some (bytes_of u, bytes_of (u @ p))"
      using f reads v(2) p by (simp add: peek_range_def Let_def)
    ultimately show ?thesis using valid reads lt chunk_rep_text[OF rep] by (simp add: chunks_peek_def)
  qed
  show thesis
  proof (cases "length pre \<le> length (concat (take m css))")
    case True
    then obtain qs where qs: "pre @ qs = concat (take m css)" "ws = qs @ x" using v(2) by (auto simp: append_eq_append_conv2)
    have "chunks_peek ci = Some (Some (str_of x))" by (intro peek[of "[]"]) (simp_all flip: qs(1))
    then show thesis using qs m(1,3) lt v(1) by (intro that[of qs x m "[]" v]) simp_all
  next
    case False
    have "length pre \<le> length (concat (take m css))" if "pre @ us = concat (take m css)" for us
      using arg_cong[OF that, of length] by simp
    with False obtain u where u: "pre = concat (take m css) @ u" "x = u @ ws" using v(2) by (auto simp: append_eq_append_conv2)
    have "chunks_peek ci = Some (Some (str_of ws))" using u by (intro peek[of u]) simp_all
    then show thesis using u ws(1) m(1) lt v(1) by (intro that[of "[]" ws m u v]) simp_all
  qed
qed

lemma bwd_advance:
  assumes r: "rope_rep r css" "[] \<notin> set css" and h: "node_height (chunks r) < MAX_DEPTH"
    and ci: "ci_reversed ci" "ci_offset ci = bytes_of (xs @ p)"
    and m: "cursor_at chunk_ops usize_dim (chunks r) m (ci_chunks ci)" "m < length css" "xs = concat (take m css) @ u" "css ! m = u @ p @ v"
    and u: "u \<noteq> [] \<longrightarrow> bytes_of xs \<le> ci_start ci"
  obtains ci' where "chunks_advance ci (bytes_of p) = Some ci'" "bwd_at r css (ci_start ci) (ci_end ci) xs ci'"
proof -
  note reads = usize_m.cursor_reads[OF r(1) m(1)]
  show thesis
  proof (cases "u = []")
    case True
    have wf: "st_wf chunk_ops valid_ts (chunks r)" using r(1) by (simp add: rope_rep_def)
    obtain c where c: "cursor_prev usize_dim (ci_chunks ci) = Some c"
        "cursor_rel chunk_ops usize_dim (chunks r) (pos_move (length css) Prev (At m)) c"
      using wf h m(1) by (rule usize_m.cursor_prev_cases)
    have rest: "bytes_of xs \<le> ci_start ci \<or> (\<exists>k x. cursor_at chunk_ops usize_dim (chunks r) k c \<and> place css xs k x \<and> x \<noteq> [])"
    proof (cases m)
      case 0
      then show ?thesis using m(3) True by simp
    next
      case (Suc n)
      have "css ! n \<noteq> []" "place css xs n (css ! n)"
        using m(2,3) True Suc r(2) by (auto simp: place_def take_Suc_conv_app_nth in_set_conv_nth)
      then show ?thesis using c(2) Suc by auto
    qed
    show thesis
    proof (rule that[of "ci\<lparr>ci_offset := bytes_of xs, ci_chunks := c\<rparr>"])
      show "chunks_advance ci (bytes_of p) = Some (ci\<lparr>ci_offset := bytes_of xs, ci_chunks := c\<rparr>)"
        using c(1) ci reads(2) m(3) True by (simp add: chunks_advance_def)
    qed (use rest ci in \<open>simp add: bwd_at_def\<close>)
  next
    case False
    then have "\<not> bytes_of xs \<le> cursor_start (ci_chunks ci)" using reads(2) m(3) by (simp add: str_of_eq_Nil)
    then show thesis using ci u False
      by (intro that[of "ci\<lparr>ci_offset := bytes_of xs\<rparr>"]) (auto simp: chunks_advance_def bwd_at_def)
  qed
qed

lemma bwd_next:
  assumes r: "rope_rep r css" "[] \<notin> set css" "concat css = pre @ ws @ zs" and h: "node_height (chunks r) < MAX_DEPTH"
    and ws: "ws \<noteq> []" "bytes_of (pre @ ws) \<le> b" and ci: "bwd_at r css (bytes_of pre) b (pre @ ws) ci"
  obtains qs p ci' where "ws = qs @ p" "p \<noteq> []" "chunks_peek ci = Some (Some (str_of p))" "chunks_next ci = Some (ci', Some (str_of p))"
    "bwd_at r css (bytes_of pre) b (pre @ qs) ci'"
proof -
  obtain qs p m u v where p: "ws = qs @ p" "p \<noteq> []" "cursor_at chunk_ops usize_dim (chunks r) m (ci_chunks ci)" "m < length css"
      "pre @ qs = concat (take m css) @ u" "css ! m = u @ p @ v" "u \<noteq> [] \<longrightarrow> qs = []" "chunks_peek ci = Some (Some (str_of p))"
    using r ws ci by (rule bwd_peek)
  have f: "ci_reversed ci" "ci_offset ci = bytes_of ((pre @ qs) @ p)" "ci_start ci = bytes_of pre" "ci_end ci = b"
    using ci p(1) by (auto simp: bwd_at_def)
  have "u \<noteq> [] \<longrightarrow> bytes_of (pre @ qs) \<le> ci_start ci" using p(7) f(3) by simp
  from r(1,2) h f(1,2) p(3-6) this obtain ci' where "chunks_advance ci (bytes_of p) = Some ci'"
      "bwd_at r css (ci_start ci) (ci_end ci) (pre @ qs) ci'"
    by (rule bwd_advance)
  then show thesis using p(1,2,8) f by (intro that[of qs p ci']) (auto simp: chunks_next_def)
qed

lemma bwd_end: "bwd_at r css (bytes_of pre) b pre ci \<Longrightarrow> chunks_peek ci = Some None \<and> chunks_next ci = Some (ci, None)"
  by (auto simp: bwd_at_def chunks_next_def chunks_peek_def offset_is_valid_def)

lemma bwd_collect:
  assumes r: "rope_rep r css" "[] \<notin> set css" and h: "node_height (chunks r) < MAX_DEPTH"
  shows "concat css = pre @ ws @ zs \<Longrightarrow> bytes_of (pre @ ws) \<le> b \<Longrightarrow> bwd_at r css (bytes_of pre) b (pre @ ws) ci \<Longrightarrow>
    \<exists>ps. chunks_collect ci = Some (map str_of ps) \<and> concat (rev ps) = ws \<and> [] \<notin> set ps"
proof (induction "length ws" arbitrary: ws zs ci rule: less_induct)
  case less
  show ?case
  proof (cases "ws = []")
    case True
    then show ?thesis using bwd_end[of r css pre b ci] less.prems(3) by (subst chunks_collect.simps) simp
  next
    case False
    obtain qs p ci' where p: "ws = qs @ p" "p \<noteq> []" "chunks_next ci = Some (ci', Some (str_of p))"
        "bwd_at r css (bytes_of pre) b (pre @ qs) ci'"
      using r less.prems(1) h False less.prems(2,3) by (rule bwd_next)
    have "length qs < length ws" "concat css = pre @ qs @ (p @ zs)" "bytes_of (pre @ qs) \<le> b"
      using p(1,2) less.prems(1,2) by simp_all
    then have "\<exists>ps. chunks_collect ci' = Some (map str_of ps) \<and> concat (rev ps) = qs \<and> [] \<notin> set ps" using p(4) by (rule less.hyps)
    then obtain ps where "chunks_collect ci' = Some (map str_of ps)" "concat (rev ps) = qs" "[] \<notin> set ps" by blast
    then show ?thesis using p(1-3) by (intro exI[of _ "p # ps"]) (subst chunks_collect.simps, simp)
  qed
qed

lemma left_place:
  assumes css: "[] \<notin> set css" "concat css = xs @ ys"
  obtains k x where "place css xs k x" "cut_at (byte_hit (bytes_of xs) Left) css k" "xs = [] \<or> x \<noteq> []"
proof (cases "css = []")
  case True
  then show thesis using css(2) that[of 0 "[]"] by (simp add: place_def cut_at_def)
next
  case False
  then have "ys \<noteq> [] \<or> Left = Left \<and> css \<noteq> []" by simp
  with css obtain k x y where k: "k < length css" "xs = concat (take k css) @ x" "css ! k = x @ y" "ys = y @ concat (drop (Suc k) css)"
      "Left = Right \<longrightarrow> y \<noteq> []" "Left = Left \<longrightarrow> x \<noteq> [] \<or> k = 0"
    by (rule piece_at)
  note hits = usize_s.piece_hits[OF css(2) k(1-3) k(5,6)]
  have "cut_at (byte_hit (bytes_of xs) Left) css k" using hits k(1) by (auto simp: cut_at_def)
  then show thesis using k by (intro that[of k x]) (auto simp: place_def)
qed

lemma bwd_new:
  assumes r: "rope_rep r css" "[] \<notin> set css" "concat css = xs @ ys" and h: "node_height (chunks r) < MAX_DEPTH"
  obtains ci where "chunks_new r a (bytes_of xs) True = Some ci" "bwd_at r css a (bytes_of xs) xs ci"
proof -
  obtain k x where k: "place css xs k x" "cut_at (byte_hit (bytes_of xs) Left) css k" "xs = [] \<or> x \<noteq> []"
    using r(2,3) by (rule left_place)
  have "cmp (bytes_of xs) (bytes_of []) \<noteq> Less" "c_tree (cursor_new usize_dim (chunks r)) = chunks r"
    by (simp_all add: cmp_def cursor_new_def)
  then obtain c f where c: "cursor_seek usize_dim (cmp (bytes_of xs)) Left (cursor_new usize_dim (chunks r)) = Some (c, f)"
      "cursor_at chunk_ops usize_dim (chunks r) k c"
    using usize_m.seek_at[OF r(1) _ _ _ h] k(2) unfolding cut_at_def by blast
  note reads = usize_m.cursor_reads[OF r(1) c(2)]
  have x: "xs = concat (take k css) @ x" using k(1) by (simp add: place_def)
  have "chunk_assert_char_boundary True (to_list (chunks r) ! k) (bytes_of x) = Some True" if "k < length css"
  proof -
    obtain y where "css ! k = x @ y" using k(1) \<open>k < length css\<close> by (auto simp: place_def)
    then show ?thesis using boundary_at(1)[of "to_list (chunks r) ! k" x y] rope_rep_nth[OF r(1) that] by (simp add: chunk_assert_char_boundary_def)
  qed
  then have new: "chunks_new r a (bytes_of xs) True =
      Some \<lparr>ci_chunks = c, ci_start = a, ci_end = bytes_of xs, ci_offset = bytes_of xs, ci_reversed = True\<rparr>"
    using c(1) reads x by (cases "k < length css") (auto simp: chunks_new_def Let_def)
  show thesis using k(1,3) c(2) by (intro that[OF new]) (auto simp: bwd_at_def)
qed

end
