(* ===== verification/Rope_Compare.thy ===== *)
theory Rope_Compare
  imports Rope_Iter_Correct
begin

section \<open>Comparing a rope with a string\<close>

text \<open>
  The encodings of characters are prefix-free, so a byte-wise prefix of a text is a prefix of its characters. The
  comparisons of a rope with a string, which go piece by piece, decide the comparison of the whole texts.
\<close>

subsection \<open>The encoding is prefix-free\<close>

lemma of_nat_u8_eq: "m < 256 \<Longrightarrow> n < 256 \<Longrightarrow> (of_nat m :: u8) = of_nat n \<longleftrightarrow> m = n"
  by (metis unat_of_nat_u8)

lemma encode_prefix_free:
  assumes c: "is_scalar c" and d: "is_scalar d" and e: "encode_utf8 c @ as = encode_utf8 d @ bs"
  shows "c = d"
proof -
  have bound: "c < 0x110000" "d < 0x110000" using c d by (auto simp: is_scalar_def)
  have split: "n = 64 * (n div 64) + n mod 64" "n div 64 = 64 * (n div 4096) + n div 64 mod 64"
      "n div 4096 = 64 * (n div 262144) + n div 4096 mod 64" for n :: nat
    using div_mult2_eq[of n 64 64] div_mult2_eq[of n 4096 64] by simp_all
  have small: "n < 0x800 \<Longrightarrow> n div 64 < 32" "n < 0x10000 \<Longrightarrow> n div 4096 < 16" "n < 0x110000 \<Longrightarrow> n div 262144 < 5"
      "n mod 64 < 64" "n div 64 mod 64 < 64" "n div 4096 mod 64 < 64" for n :: nat
    by auto
  consider "c < 0x80" | "0x80 \<le> c" "c < 0x800" | "0x800 \<le> c" "c < 0x10000" | "0x10000 \<le> c" by linarith
  then show ?thesis
  proof cases
    case 1
    have "d < 0x80"
    proof (rule ccontr)
      assume "\<not> d < 0x80"
      then have "unat (hd (encode_utf8 d @ bs)) \<ge> 128" using small[of d] bound
        by (auto simp: encode_utf8_def unat_of_nat_u8 simp del: of_nat_add)
      moreover have "unat (hd (encode_utf8 c @ as)) < 128" using 1 by (simp add: encode_utf8_def unat_of_nat_u8)
      ultimately show False using e by simp
    qed
    then show ?thesis using e 1 by (simp add: encode_utf8_def of_nat_u8_eq)
  next
    case 2
    have "unat (hd (encode_utf8 c @ as)) = 0xC0 + c div 64" using 2 small[of c] by (simp add: encode_utf8_def unat_of_nat_u8 del: of_nat_add)
    then have h: "unat (hd (encode_utf8 d @ bs)) = 0xC0 + c div 64" using e by simp
    have "0x80 \<le> d \<and> d < 0x800"
      using h small[of c] small[of d] bound 2 by (auto simp: encode_utf8_def unat_of_nat_u8 simp del: of_nat_add split: if_splits)
    then show ?thesis using e 2 small[of c] small[of d] split(1)[of c] split(1)[of d] by (simp add: encode_utf8_def of_nat_u8_eq del: of_nat_add)
  next
    case 3
    have "unat (hd (encode_utf8 c @ as)) = 0xE0 + c div 4096" using 3 small[of c] by (simp add: encode_utf8_def unat_of_nat_u8 del: of_nat_add)
    then have h: "unat (hd (encode_utf8 d @ bs)) = 0xE0 + c div 4096" using e by simp
    have "0x800 \<le> d \<and> d < 0x10000"
      using h small[of c] small[of d] bound 3 by (auto simp: encode_utf8_def unat_of_nat_u8 simp del: of_nat_add split: if_splits)
    then show ?thesis using e 3 small[of c] small[of d] split[of c] split[of d] by (simp add: encode_utf8_def of_nat_u8_eq del: of_nat_add)
  next
    case 4
    have "unat (hd (encode_utf8 c @ as)) = 0xF0 + c div 262144" using 4 small[of c] bound by (simp add: encode_utf8_def unat_of_nat_u8 del: of_nat_add)
    then have h: "unat (hd (encode_utf8 d @ bs)) = 0xF0 + c div 262144" using e by simp
    have "0x10000 \<le> d"
      using h small[of c] small[of d] bound 4 by (auto simp: encode_utf8_def unat_of_nat_u8 simp del: of_nat_add split: if_splits)
    then show ?thesis using e 4 small[of c] small[of d] bound split[of c] split[of d] by (simp add: encode_utf8_def of_nat_u8_eq del: of_nat_add)
  qed
qed

lemma str_prefix_split:
  assumes "\<forall>c\<in>set xs. is_scalar c" "\<forall>c\<in>set cs. is_scalar c" "str_of cs = str_of xs @ bs"
  shows "\<exists>ys. cs = xs @ ys \<and> bs = str_of ys"
  using assms
proof (induction xs arbitrary: cs)
  case (Cons x xs)
  obtain c cs' where cs: "cs = c # cs'" using Cons.prems(3) by (cases cs) auto
  have "encode_utf8 c @ str_of cs' = encode_utf8 x @ (str_of xs @ bs)" using Cons.prems(3) cs by simp
  then have "c = x" by (rule encode_prefix_free[rotated 2]) (use Cons.prems cs in auto)
  then show ?case using Cons.IH[of cs'] Cons.prems cs by simp
qed auto

lemma str_suffix_split:
  assumes "\<forall>c\<in>set ys. is_scalar c" "\<forall>c\<in>set cs. is_scalar c" "str_of cs = bs @ str_of ys"
  shows "\<exists>xs. cs = xs @ ys \<and> bs = str_of xs"
proof -
  have "str_is_char_boundary (str_of cs) (length bs)"
    using str_of_hd_boundary[OF assms(1)] assms(3) by (cases "ys = []") (auto simp: str_is_char_boundary_def nth_append hd_conv_nth)
  with assms(2) obtain us vs where cs: "cs = us @ vs" "length bs = bytes_of us" by (rule boundary_between_chars)
  then have "str_of us = bs" "str_of vs = str_of ys" using assms(3) by simp_all
  moreover have "vs = ys" using str_prefix_split[of ys vs "[]"] calculation(2) assms(1,2) cs by (metis Un_iff append_Nil2 set_append str_of_eq_Nil)
  ultimately show ?thesis using cs by auto
qed

lemma str_of_inj: "\<forall>c\<in>set xs. is_scalar c \<Longrightarrow> \<forall>c\<in>set ys. is_scalar c \<Longrightarrow> str_of xs = str_of ys \<longleftrightarrow> xs = ys"
  using str_prefix_split[of xs ys "[]"] by (metis append_Nil2 str_of_eq_Nil)

subsection \<open>Loops over the pieces\<close>

fun for_list :: "(bytes \<Rightarrow> 's \<Rightarrow> ('s + 'r) option) \<Rightarrow> ('s \<Rightarrow> 'r option) \<Rightarrow> bytes list \<Rightarrow> 's \<Rightarrow> 'r option" where
  "for_list body finish [] s = finish s"
| "for_list body finish (p # ps) s =
     do { res \<leftarrow> body p s; (case res of Inl s' \<Rightarrow> for_list body finish ps s' | Inr r \<Rightarrow> Some r) }"

lemma for_chunks_list: "chunks_collect ci = Some ps \<Longrightarrow> for_chunks body finish ci s = for_list body finish ps s"
proof (induction ps arbitrary: ci s)
  case Nil
  then have "\<exists>ci'. chunks_next ci = Some (ci', None)"
    by (subst (asm) chunks_collect.simps) (auto split: bind_splits option.splits)
  then show ?case by (subst for_chunks.simps) auto
next
  case (Cons p ps)
  then obtain ci' where ci': "chunks_next ci = Some (ci', Some p)" "chunks_collect ci' = Some ps"
    by (subst (asm) (3) chunks_collect.simps) (auto split: bind_splits option.splits)
  show ?case using ci'(1) Cons.IH[OF ci'(2)]
    by (subst for_chunks.simps) (auto split: bind_splits sum.splits)
qed

lemma str_index_prefix: "str_is_char_boundary bs n \<Longrightarrow> n \<le> length bs \<Longrightarrow> str_index bs 0 n = Some (take n bs)"
  by (auto simp: str_index_def str_is_char_boundary_def)

lemma str_index_suffix: "str_is_char_boundary bs n \<Longrightarrow> n \<le> length bs \<Longrightarrow> str_index bs n (length bs) = Some (drop n bs)"
  by (auto simp: str_index_def str_is_char_boundary_def)

lemma boundary_le: "str_is_char_boundary bs n \<Longrightarrow> n \<le> length bs"
  by (auto simp: str_is_char_boundary_def)

lemma str_index_whole: "str_index bs 0 (length bs) = Some bs"
  by (simp add: str_index_def str_is_char_boundary_def)

lemma starts_with_pieces:
  assumes "\<forall>c\<in>set (concat ps). is_scalar c" "\<forall>c\<in>set rem. is_scalar c"
  shows "for_list starts_with_step (\<lambda>remaining. Some (remaining = [])) (map str_of ps) (str_of rem) =
    Some (str_starts_with (str_of (concat ps)) (str_of rem))"
  using assms
proof (induction ps arbitrary: rem)
  case Nil
  then show ?case by (auto simp: str_starts_with_def)
next
  case (Cons p ps)
  let ?t = "str_of (concat (p # ps))"
  show ?case
  proof (cases "bytes_of p \<le> bytes_of rem")
    case True
    have chunk: "str_index (str_of p) 0 (min (bytes_of rem) (bytes_of p)) = Some (str_of p)"
      using True by (simp add: str_index_whole min_absorb2)
    show ?thesis
    proof (cases "str_starts_with (str_of rem) (str_of p)")
      case pre: True
      then have "str_of rem = str_of p @ drop (bytes_of p) (str_of rem)" by (metis append_take_drop_id str_starts_with_def)
      moreover have "\<forall>c\<in>set p. is_scalar c" using Cons.prems(1) by simp
      ultimately obtain rem' where rem': "rem = p @ rem'"
        using str_prefix_split[of p rem "drop (bytes_of p) (str_of rem)"] Cons.prems(2) by blast
      have "str_index (str_of rem) (bytes_of p) (bytes_of rem) = Some (str_of rem')"
        using str_index_suffix[of "str_of rem" "bytes_of p"] boundary_of_prefix[of rem' p] Cons.prems(2) rem' by simp
      then show ?thesis
        using Cons.IH[of rem'] Cons.prems chunk pre rem' by (auto simp: starts_with_step_def str_of_eq_Nil str_starts_with_def)
    next
      case False
      then have "\<not> str_starts_with ?t (str_of rem)"
      proof (rule contrapos_nn)
        assume "str_starts_with ?t (str_of rem)"
        then have "take (bytes_of p) (str_of rem) = take (bytes_of p) (take (bytes_of rem) ?t)" by (simp add: str_starts_with_def)
        then show "str_starts_with (str_of rem) (str_of p)" using True by (simp add: str_starts_with_def min_absorb1)
      qed
      then show ?thesis using False chunk by (simp add: starts_with_step_def)
    qed
  next
    case False
    then have min: "min (bytes_of rem) (bytes_of p) = bytes_of rem" by simp
    have whole: "str_starts_with ?t (str_of rem) \<longleftrightarrow> take (bytes_of rem) (str_of p) = str_of rem"
      using False by (simp add: str_starts_with_def)
    show ?thesis
    proof (cases "str_is_char_boundary (str_of p) (bytes_of rem)")
      case True
      have chunk: "str_index (str_of p) 0 (bytes_of rem) = Some (take (bytes_of rem) (str_of p))"
        using str_index_prefix[OF True] False by simp
      have "str_index (str_of rem) (bytes_of rem) (bytes_of rem) = Some []" by (simp add: str_index_def str_is_char_boundary_def)
      then show ?thesis using min chunk whole False by (auto simp: starts_with_step_def str_starts_with_def)
    next
      case b: False
      have "take (bytes_of rem) (str_of p) \<noteq> str_of rem"
      proof
        assume "take (bytes_of rem) (str_of p) = str_of rem"
        then have "str_of p = str_of rem @ drop (bytes_of rem) (str_of p)" by (metis append_take_drop_id)
        moreover have "\<forall>c\<in>set p. is_scalar c" using Cons.prems(1) by simp
        ultimately obtain y where "p = rem @ y"
          using str_prefix_split[of rem p "drop (bytes_of rem) (str_of p)"] Cons.prems(2) by blast
        then show False using b boundary_of_prefix[of y rem] Cons.prems(1) by auto
      qed
      moreover have "str_index (str_of p) 0 (bytes_of rem) = None" using b by (simp add: str_index_def)
      ultimately show ?thesis using min whole by (simp add: starts_with_step_def)
    qed
  qed
qed

lemma ends_with_pieces:
  assumes "\<forall>c\<in>set (concat ps). is_scalar c" "\<forall>c\<in>set rem. is_scalar c"
  shows "for_list ends_with_step (\<lambda>remaining. Some (remaining = [])) (map str_of ps) (str_of rem) =
    Some (str_ends_with (str_of (concat (rev ps))) (str_of rem))"
  using assms
proof (induction ps arbitrary: rem)
  case Nil
  then show ?case by (auto simp: str_ends_with_def)
next
  case (Cons p ps)
  let ?t = "str_of (concat (rev (p # ps)))"
  show ?case
  proof (cases "bytes_of p \<le> bytes_of rem")
    case True
    have chunk: "str_index (str_of p) (bytes_of p - min (bytes_of rem) (bytes_of p)) (bytes_of p) = Some (str_of p)"
      using True by (simp add: str_index_whole min_absorb2)
    show ?thesis
    proof (cases "str_ends_with (str_of rem) (str_of p)")
      case suf: True
      then have "str_of rem = take (bytes_of rem - bytes_of p) (str_of rem) @ str_of p"
        by (metis append_take_drop_id str_ends_with_def)
      moreover have "\<forall>c\<in>set p. is_scalar c" using Cons.prems(1) by simp
      ultimately obtain rem' where rem': "rem = rem' @ p"
        using str_suffix_split[of p rem "take (bytes_of rem - bytes_of p) (str_of rem)"] Cons.prems(2) by blast
      have "str_index (str_of rem) 0 (bytes_of rem - bytes_of p) = Some (str_of rem')"
        using str_index_prefix[of "str_of rem" "bytes_of rem'"] boundary_of_prefix[of p rem'] Cons.prems(1) rem' by simp
      then show ?thesis
        using Cons.IH[of rem'] Cons.prems chunk suf rem' by (auto simp: ends_with_step_def str_of_eq_Nil str_ends_with_def)
    next
      case False
      then have "\<not> str_ends_with ?t (str_of rem)"
      proof (rule contrapos_nn)
        assume t: "str_ends_with ?t (str_of rem)"
        then obtain as where "?t = as @ str_of rem" by (metis append_take_drop_id str_ends_with_def)
        then have "str_of (concat (rev ps)) @ str_of p = as @ str_of rem" by simp
        then obtain us where "us @ str_of p = str_of rem" using True by (auto simp: append_eq_append_conv2)
        then have "str_of rem = us @ str_of p" by simp
        then show "str_ends_with (str_of rem) (str_of p)" by (simp add: str_ends_with_def)
      qed
      then show ?thesis using False chunk by (simp add: ends_with_step_def)
    qed
  next
    case False
    then have min: "min (bytes_of rem) (bytes_of p) = bytes_of rem" by simp
    let ?n = "bytes_of p - bytes_of rem"
    have whole: "str_ends_with ?t (str_of rem) \<longleftrightarrow> drop ?n (str_of p) = str_of rem"
      using False by (simp add: str_ends_with_def)
    show ?thesis
    proof (cases "str_is_char_boundary (str_of p) ?n")
      case True
      have chunk: "str_index (str_of p) ?n (bytes_of p) = Some (drop ?n (str_of p))"
        using str_index_suffix[OF True] by simp
      have "str_index (str_of rem) 0 0 = Some []" by (simp add: str_index_def str_is_char_boundary_def)
      then show ?thesis using min chunk whole False by (auto simp: ends_with_step_def str_ends_with_def)
    next
      case b: False
      have "drop ?n (str_of p) \<noteq> str_of rem"
      proof
        assume "drop ?n (str_of p) = str_of rem"
        then have "str_of p = take ?n (str_of p) @ str_of rem" by (metis append_take_drop_id)
        moreover have "\<forall>c\<in>set p. is_scalar c" using Cons.prems(1) by simp
        ultimately obtain x where "p = x @ rem"
          using str_suffix_split[of rem p "take ?n (str_of p)"] Cons.prems(2) by blast
        then show False using b boundary_of_prefix[of rem x] Cons.prems(2) by auto
      qed
      moreover have "str_index (str_of p) ?n (bytes_of p) = None" using b by (simp add: str_index_def)
      ultimately show ?thesis using min whole by (simp add: ends_with_step_def)
    qed
  qed
qed

lemma equals_forward_pieces:
  assumes "[] \<notin> set ps" "\<forall>c\<in>set (concat ps). is_scalar c" "\<forall>c\<in>set (pre @ rem). is_scalar c"
  shows "for_list (equals_forward (str_of (pre @ rem))) (\<lambda>offset. Some (offset = bytes_of (pre @ rem))) (map str_of ps) (bytes_of pre) =
    Some (str_of (concat ps) = str_of rem)"
  using assms
proof (induction ps arbitrary: pre rem)
  case Nil
  then show ?case by (auto simp: str_of_eq_Nil dest: sym)
next
  case (Cons p ps)
  have p: "p \<noteq> []" "\<forall>c\<in>set p. is_scalar c" using Cons.prems by auto
  show ?case
  proof (cases "rem = []")
    case True
    then show ?thesis using p(1) by (simp add: equals_forward_def str_of_eq_Nil)
  next
    case False
    have tail: "str_index (str_of (pre @ rem)) (bytes_of pre) (bytes_of (pre @ rem)) = Some (str_of rem)"
      using str_index_suffix[of "str_of (pre @ rem)" "bytes_of pre"] boundary_of_prefix[of rem pre] Cons.prems(3) by simp
    show ?thesis
    proof (cases "str_starts_with (str_of rem) (str_of p)")
      case True
      then have "str_of rem = str_of p @ drop (bytes_of p) (str_of rem)" by (metis append_take_drop_id str_starts_with_def)
      moreover have "\<forall>c\<in>set rem. is_scalar c" using Cons.prems(3) by simp
      ultimately obtain rem' where rem': "rem = p @ rem'"
        using str_prefix_split[of p rem "drop (bytes_of p) (str_of rem)"] p(2) by blast
      have "equals_forward (str_of (pre @ rem)) (str_of p) (bytes_of pre) = Some (Inl (bytes_of (pre @ p)))"
        using tail True False by (simp add: equals_forward_def str_of_eq_Nil)
      then show ?thesis using Cons.IH[of "pre @ p" rem'] Cons.prems rem' by simp
    next
      case no: False
      have "equals_forward (str_of (pre @ rem)) (str_of p) (bytes_of pre) = Some (Inr False)"
        using tail no False by (simp add: equals_forward_def str_of_eq_Nil)
      moreover have "str_of p @ str_of (concat ps) \<noteq> str_of rem"
      proof
        assume "str_of p @ str_of (concat ps) = str_of rem"
        then have "str_starts_with (str_of rem) (str_of p)" by (metis append_eq_conv_conj str_starts_with_def)
        then show False using no by simp
      qed
      ultimately show ?thesis by simp
    qed
  qed
qed

lemma equals_backward_pieces:
  assumes "\<forall>c\<in>set (concat ps). is_scalar c" "\<forall>c\<in>set (rem @ post). is_scalar c"
  shows "for_list (equals_backward (str_of (rem @ post))) (\<lambda>offset. Some (offset = 0)) (map str_of ps) (bytes_of rem) =
    Some (str_of (concat (rev ps)) = str_of rem)"
  using assms
proof (induction ps arbitrary: rem post)
  case Nil
  then show ?case by (auto simp: str_of_eq_Nil dest: sym)
next
  case (Cons p ps)
  have p: "\<forall>c\<in>set p. is_scalar c" using Cons.prems by auto
  have head: "str_index (str_of (rem @ post)) 0 (bytes_of rem) = Some (str_of rem)"
    using str_index_prefix[of "str_of (rem @ post)" "bytes_of rem"] boundary_of_prefix[of post rem] Cons.prems(2) by simp
  show ?case
  proof (cases "str_ends_with (str_of rem) (str_of p)")
    case True
    then have "str_of rem = take (bytes_of rem - bytes_of p) (str_of rem) @ str_of p" by (metis append_take_drop_id str_ends_with_def)
    moreover have "\<forall>c\<in>set rem. is_scalar c" using Cons.prems(2) by simp
    ultimately obtain rem' where rem': "rem = rem' @ p"
      using str_suffix_split[of p rem "take (bytes_of rem - bytes_of p) (str_of rem)"] p by blast
    have "equals_backward (str_of (rem @ post)) (str_of p) (bytes_of rem) = Some (Inl (bytes_of rem'))"
      using head True rem' by (simp add: equals_backward_def checked_sub_def)
    then show ?thesis using Cons.IH[of rem' "p @ post"] Cons.prems rem' by simp
  next
    case False
    have "str_of (concat (rev ps)) @ str_of p \<noteq> str_of rem"
    proof
      assume "str_of (concat (rev ps)) @ str_of p = str_of rem"
      then have "str_of rem = str_of (concat (rev ps)) @ str_of p" by simp
      then have "str_ends_with (str_of rem) (str_of p)" by (simp add: str_ends_with_def)
      then show False using False by simp
    qed
    then show ?thesis using head False by (simp add: equals_backward_def)
  qed
qed

subsection \<open>The pieces of a range\<close>

lemma range_pieces:
  assumes "rope_text r (xs @ ys @ zs)" "node_height (chunks r) < MAX_DEPTH"
  obtains ci ps cj qs where "chunks_in_range r (bytes_of xs) (bytes_of (xs @ ys)) = Some ci" "\<not> ci_reversed ci"
    "chunks_collect ci = Some (map str_of ps)" "concat ps = ys" "[] \<notin> set ps"
    "reversed_chunks_in_range r (bytes_of xs) (bytes_of (xs @ ys)) = Some cj" "ci_reversed cj"
    "chunks_collect cj = Some (map str_of qs)" "concat (rev qs) = ys" "[] \<notin> set qs"
proof -
  obtain css where r: "rope_rep r css" "[] \<notin> set css" "concat css = xs @ ys @ zs" using assms(1) by (rule rope_textE)
  obtain ci where ci: "chunks_new r (bytes_of xs) (bytes_of (xs @ ys)) False = Some ci" "fwd_at r css (bytes_of xs) (bytes_of (xs @ ys)) xs ci"
    using r assms(2) by (rule fwd_new)
  have "concat css = (xs @ ys) @ zs" using r(3) by simp
  with r(1,2) obtain cj where cj: "chunks_new r (bytes_of xs) (bytes_of (xs @ ys)) True = Some cj"
      "bwd_at r css (bytes_of xs) (bytes_of (xs @ ys)) (xs @ ys) cj"
    using assms(2) by (rule bwd_new)
  show thesis
    using fwd_collect[OF r(1,2) assms(2) r(3) order_refl ci(2)] bwd_collect[OF r(1,2) assms(2) r(3) order_refl cj(2)] ci cj
      that[of ci _ cj] by (auto simp: chunks_in_range_def reversed_chunks_in_range_def fwd_at_def bwd_at_def)
qed

lemma rope_text_scalars: "rope_text r cs \<Longrightarrow> \<forall>c\<in>set cs. is_scalar c"
  using rope_rep_scalars by (auto simp: rope_text_def)

lemma rope_text_len: "rope_text r cs \<Longrightarrow> rope_len r = bytes_of cs"
  using rope_sizes(2) by (auto simp: rope_text_def)

text \<open>
  C12: The iterators over the chunks of a range. Between any two character boundaries the forward iterator yields
  non-empty pieces of valid text whose concatenation is exactly the text of the range, the reversed iterator yields
  pieces that make up the same text from the back, both end, and neither panics. Displaying a rope writes its text.
\<close>

theorem rope_chunks_text:
  assumes "rope_text r (xs @ ys @ zs)" "node_height (chunks r) < MAX_DEPTH"
  defines "a \<equiv> length (str_of xs)" and "b \<equiv> length (str_of (xs @ ys))"
  shows "(\<exists>ci ps. chunks_in_range r a b = Some ci \<and> chunks_collect ci = Some (map str_of ps) \<and> concat ps = ys \<and> [] \<notin> set ps) \<and>
    (\<exists>ci ps. reversed_chunks_in_range r a b = Some ci \<and> chunks_collect ci = Some (map str_of ps) \<and> concat (rev ps) = ys \<and> [] \<notin> set ps) \<and>
    rope_display r = Some (str_of (xs @ ys @ zs))"
proof (intro conjI)
  obtain ci ps cj qs where p: "chunks_in_range r a b = Some ci" "chunks_collect ci = Some (map str_of ps)" "concat ps = ys" "[] \<notin> set ps"
    "reversed_chunks_in_range r a b = Some cj" "chunks_collect cj = Some (map str_of qs)" "concat (rev qs) = ys" "[] \<notin> set qs"
    using assms(1,2) unfolding a_def b_def by (rule range_pieces)
  show "\<exists>ci ps. chunks_in_range r a b = Some ci \<and> chunks_collect ci = Some (map str_of ps) \<and> concat ps = ys \<and> [] \<notin> set ps"
    using p(1-4) by blast
  show "\<exists>ci ps. reversed_chunks_in_range r a b = Some ci \<and> chunks_collect ci = Some (map str_of ps) \<and> concat (rev ps) = ys \<and> [] \<notin> set ps"
    using p(5-8) by blast
  have "rope_text r ([] @ (xs @ ys @ zs) @ [])" using assms(1) by simp
  then obtain cd ds where "chunks_in_range r (bytes_of []) (bytes_of ([] @ (xs @ ys @ zs))) = Some cd" "chunks_collect cd = Some (map str_of ds)"
      "concat ds = xs @ ys @ zs"
    using assms(2) by (rule range_pieces)
  moreover have "concat (map str_of ds) = str_of (concat ds)" for ds by (induction ds) simp_all
  ultimately show "rope_display r = Some (str_of (xs @ ys @ zs))"
    using rope_text_len[OF assms(1)] by (simp add: rope_display_def rope_chunks_def)
qed

lemma rope_chunks_text_witness:
  "\<exists>r ci ps. rope_from (str_of [0x61, 0x1F600, 10]) = Some r \<and> chunks_in_range r 1 6 = Some ci \<and> chunks_collect ci = Some (map str_of ps) \<and>
     concat ps = [0x1F600, 10] \<and> rope_display r = Some (str_of [0x61, 0x1F600, 10])"
proof -
  let ?cs = "[0x61, 0x1F600, 10] :: scalar list"
  have s: "\<forall>c\<in>set ?cs. is_scalar c" "?cs \<noteq> []" "bytes_of ?cs \<le> MAX_BASE"
    and n: "bytes_of [0x61] = 1" "bytes_of ([0x61] @ [0x1F600, 10]) = 6"
    by (simp_all add: is_scalar_def len_utf8_def MAX_BASE_def)
  obtain r where r: "rope_from (str_of ?cs) = Some r" "rope_rep r [?cs]" "node_height (chunks r) = 0" using s by (rule rope_from_small)
  have t: "rope_text r ([0x61] @ [0x1F600, 10] @ [])" using rope_textI[OF r(2)] by simp
  have h: "node_height (chunks r) < MAX_DEPTH" using r(3) by (simp add: MAX_DEPTH_def)
  from rope_chunks_text[OF t h] r(1) show ?thesis unfolding n by auto
qed

text \<open>
  C13: Comparing a rope with a string. For every valid string, \<open>starts_with\<close> and \<open>ends_with\<close> decide whether it is a
  prefix or a suffix of the rope's text, and comparing a range, forwards or backwards, decides whether the string is
  the text of the range. The comparisons go piece by piece; they cut the string only at character boundaries, so they
  never panic, also where the string and the text differ inside a character.
\<close>

theorem rope_compare:
  assumes "rope_text r (xs @ ys @ zs)" "node_height (chunks r) < MAX_DEPTH" "\<forall>c\<in>set pat. is_scalar c"
  defines "t \<equiv> str_of (xs @ ys @ zs)" and "a \<equiv> length (str_of xs)" and "b \<equiv> length (str_of (xs @ ys))"
  shows "rope_starts_with r (str_of pat) = Some (\<exists>rest. t = str_of pat @ rest) \<and>
    rope_ends_with r (str_of pat) = Some (\<exists>front. t = front @ str_of pat) \<and>
    (do { ci \<leftarrow> chunks_in_range r a b; equals_str ci (str_of pat) }) = Some (pat = ys) \<and>
    (do { ci \<leftarrow> reversed_chunks_in_range r a b; equals_str ci (str_of pat) }) = Some (pat = ys)"
proof -
  have tx: "rope_text r ([] @ (xs @ ys @ zs) @ [])" "\<forall>c\<in>set (xs @ ys @ zs). is_scalar c" "\<forall>c\<in>set ys. is_scalar c"
    using rope_text_scalars[OF assms(1)] assms(1) by auto
  have len: "rope_len r = bytes_of (xs @ ys @ zs)" using rope_text_len[OF assms(1)] by simp
  obtain ci ps cj qs where w: "chunks_in_range r (bytes_of []) (bytes_of ([] @ (xs @ ys @ zs))) = Some ci" "chunks_collect ci = Some (map str_of ps)"
      "concat ps = xs @ ys @ zs" "reversed_chunks_in_range r (bytes_of []) (bytes_of ([] @ (xs @ ys @ zs))) = Some cj"
      "chunks_collect cj = Some (map str_of qs)" "concat (rev qs) = xs @ ys @ zs"
    using tx(1) assms(2) by (rule range_pieces)
  obtain ck us cl vs where e: "chunks_in_range r a b = Some ck" "\<not> ci_reversed ck" "chunks_collect ck = Some (map str_of us)" "concat us = ys"
      "[] \<notin> set us" "reversed_chunks_in_range r a b = Some cl" "ci_reversed cl" "chunks_collect cl = Some (map str_of vs)" "concat (rev vs) = ys"
    using assms(1,2) unfolding a_def b_def by (rule range_pieces)
  have sets: "set (concat qs) = set (concat (rev qs))" "set (concat vs) = set (concat (rev vs))" by auto
  have long_pattern: "length t < length p \<Longrightarrow> \<not> str_starts_with t p \<and> \<not> str_ends_with t p" for p t :: bytes
    by (auto simp: str_starts_with_def str_ends_with_def)
  have lt: "length t = bytes_of (xs @ ys @ zs)" by (simp add: t_def)
  have pre: "str_starts_with t p \<longleftrightarrow> (\<exists>rest. t = p @ rest)" for p
    by (metis append_eq_conv_conj append_take_drop_id str_starts_with_def)
  have suf: "str_ends_with t p \<longleftrightarrow> (\<exists>front. t = front @ p)" for p
    by (auto simp: str_ends_with_def) (metis append_take_drop_id)
  have "for_list starts_with_step (\<lambda>rem. Some (rem = [])) (map str_of ps) (str_of pat) = Some (str_starts_with t (str_of pat))"
    using starts_with_pieces[of ps pat] tx(2) assms(3) unfolding w(3) t_def by blast
  then have "rope_starts_with r (str_of pat) = Some (\<exists>rest. t = str_of pat @ rest)"
    unfolding pre[symmetric] using w(1) len long_pattern[of t "str_of pat"] by (auto simp: rope_starts_with_def for_chunks_list[OF w(2)] lt)
  moreover have "for_list ends_with_step (\<lambda>rem. Some (rem = [])) (map str_of qs) (str_of pat) = Some (str_ends_with t (str_of pat))"
    using ends_with_pieces[of qs pat] tx(2) assms(3) unfolding sets w(6) t_def by blast
  then have "rope_ends_with r (str_of pat) = Some (\<exists>front. t = front @ str_of pat)"
    unfolding suf[symmetric] using w(4) len long_pattern[of t "str_of pat"] by (auto simp: rope_ends_with_def for_chunks_list[OF w(5)] lt)
  moreover have "equals_str ck (str_of pat) = Some (str_of ys = str_of pat)"
    using equals_forward_pieces[of us "[]" pat] e(2,4,5) tx(3) assms(3) by (simp add: equals_str_def for_chunks_list[OF e(3)])
  moreover have "equals_str cl (str_of pat) = Some (str_of ys = str_of pat)"
  proof -
    have "\<forall>c\<in>set (concat vs). is_scalar c" using tx(3) unfolding sets(2) e(9) .
    then show ?thesis
      using equals_backward_pieces[of vs pat "[]"] e(7,9) assms(3) by (simp add: equals_str_def for_chunks_list[OF e(8)])
  qed
  moreover have "str_of ys = str_of pat \<longleftrightarrow> pat = ys" using str_of_inj[OF tx(3) assms(3)] by blast
  ultimately show ?thesis using e(1,6) by simp
qed

lemma rope_compare_witness:
  "\<exists>r. rope_from (str_of [0x61, 0x1F600, 10]) = Some r \<and> rope_starts_with r (str_of [0x61, 0x1F600]) = Some True \<and>
     rope_ends_with r (str_of [0x61, 0x1F600]) = Some False \<and>
     (do { ci \<leftarrow> chunks_in_range r 0 5; equals_str ci (str_of [0x61, 0x1F600]) }) = Some True"
proof -
  let ?cs = "[0x61, 0x1F600, 10] :: scalar list" and ?p = "[0x61, 0x1F600] :: scalar list"
  have s: "\<forall>c\<in>set ?cs. is_scalar c" "?cs \<noteq> []" "bytes_of ?cs \<le> MAX_BASE" "\<forall>c\<in>set ?p. is_scalar c" "bytes_of ?p = 5"
    by (simp_all add: is_scalar_def len_utf8_def MAX_BASE_def)
  obtain r where r: "rope_from (str_of ?cs) = Some r" "rope_rep r [?cs]" "node_height (chunks r) = 0" using s(1-3) by (rule rope_from_small)
  have t: "rope_text r ([] @ ?p @ [10])" using rope_textI[OF r(2)] by simp
  have h: "node_height (chunks r) < MAX_DEPTH" using r(3) by (simp add: MAX_DEPTH_def)
  have "str_of ?cs = str_of ?p @ str_of [10]" by simp
  moreover have "str_of ?cs \<noteq> front @ str_of ?p" for front
  proof
    assume "str_of ?cs = front @ str_of ?p"
    then obtain us where "?cs = us @ ?p" using str_suffix_split[of ?p ?cs front] s(1,4) by blast
    then have "last ?cs = last ?p" by (metis last_append list.distinct(1))
    then show False by simp
  qed
  ultimately show ?thesis using rope_compare[OF t h s(4)] r(1) s(5) by auto
qed

end
