(* ===== verification/Rope_Lines.thy ===== *)
theory Rope_Lines
  imports Rope_Compare
begin

section \<open>Seeking in a range and iterating over its lines\<close>

text \<open>
  \<open>Chunks::seek\<close> brings an iterator to any boundary of its range, and \<open>Lines\<close>, which is built on it, yields the lines
  of the text of the range in order, or in reverse order for a reversed iterator.
\<close>

subsection \<open>Seeking\<close>

text \<open>The three branches of \<open>Chunks::seek\<close>: behind the current chunk, before it, or in it.\<close>

lemma chunks_seek_cursor:
  assumes r: "rope_rep r css" and h: "node_height (chunks r) < MAX_DEPTH" and k: "cut_at (byte_hit n b) css k"
    and b: "b = (if ci_reversed ci then Left else Right)" and c: "cursor_at chunk_ops usize_dim (chunks r) m (ci_chunks ci)"
    and n: "ci_start ci \<le> n" "n \<le> ci_end ci"
  obtains c' where "chunks_seek ci n = Some (ci\<lparr>ci_chunks := c', ci_offset := n\<rparr>)" "cursor_at chunk_ops usize_dim (chunks r) k c'"
proof -
  note result = that and reads = usize_m.cursor_reads[OF r c]
  have clamp: "clamp n (ci_start ci) (ci_end ci) = Some n" using n by (simp add: clamp_def)
  have km: "k \<le> length css" "m \<le> length css" using k reads(1) by (auto simp: cut_at_def)
  have hit: "byte_hit n Left cs \<longleftrightarrow> n \<le> bytes_of cs" "byte_hit n Right cs \<longleftrightarrow> n < bytes_of cs" for cs
    by (auto simp: target_in_def cmp_def)
  have forward: thesis if "m \<le> k" "\<not> n < bytes_of (concat (take m css))"
      "\<And>c'. map_option fst (cursor_seek_forward usize_dim (cmp n) b (ci_chunks ci)) = Some c' \<Longrightarrow>
        chunks_seek ci n = Some (ci\<lparr>ci_chunks := c', ci_offset := n\<rparr>)"
  proof -
    have "cmp n (bytes_of (concat (take m css))) \<noteq> Less" using that(2) by (simp add: cmp_def)
    with r k that(1) obtain c' f where "cursor_seek_forward usize_dim (cmp n) b (ci_chunks ci) = Some (c', f)"
        "cursor_at chunk_ops usize_dim (chunks r) k c'"
      using h c by (rule usize_m.seek_forward_at)
    then show thesis using that(3)[of c'] result[of c'] by simp
  qed
  have anew: thesis if "\<And>c'. map_option fst (cursor_seek usize_dim (cmp n) b (ci_chunks ci)) = Some c' \<Longrightarrow>
        chunks_seek ci n = Some (ci\<lparr>ci_chunks := c', ci_offset := n\<rparr>)"
  proof -
    have "c_tree (ci_chunks ci) = chunks r" "cmp n (bytes_of []) \<noteq> Less" using c by (auto simp: cursor_at_def cmp_def)
    then obtain c' f where "cursor_seek usize_dim (cmp n) b (ci_chunks ci) = Some (c', f)" "cursor_at chunk_ops usize_dim (chunks r) k c'"
      using usize_m.seek_at[OF r _ _ _ h] k unfolding cut_at_def by blast
    then show thesis using that[of c'] result[of c'] by simp
  qed
  have mk: "m \<le> k" if "\<not> byte_hit n b (concat (take m css))"
  proof (rule ccontr)
    assume "\<not> m \<le> k"
    then have "k \<le> m - 1" "m - 1 < length css" "Suc (m - 1) = m" using km by auto
    then have "byte_hit n b (concat (take m css))" using k unfolding cut_at_def by metis
    then show False using that by simp
  qed
  let ?start = "bytes_of (concat (take m css))" and ?stop = "bytes_of (concat (take (Suc m) css))"
  have le: "?start \<le> ?stop" using take_concat_le[of m "Suc m" css] by auto
  have same: "k = m" if "byte_hit n b (concat (take (Suc m) css))" "\<not> byte_hit n b (concat (take m css))"
    using mk[OF that(2)] k that(1) by (auto simp: cut_at_def not_less dest: le_neq_implies_less)
  consider "\<not> byte_hit n b (concat (take (Suc m) css))" | "byte_hit n b (concat (take m css))"
    | "byte_hit n b (concat (take (Suc m) css))" "\<not> byte_hit n b (concat (take m css))" by blast
  then show thesis
  proof cases
    case 1
    then have "\<not> byte_hit n b (concat (take m css))" using le by (cases b) (auto simp: hit)
    then show thesis using 1 reads(2,4) clamp b
      by (intro forward[OF mk]; cases b; cases "ci_reversed ci") (auto simp: hit chunks_seek_def)
  next
    case 2
    then show thesis using reads(2,4) clamp b le by (intro anew; cases b; cases "ci_reversed ci") (auto simp: hit chunks_seek_def)
  next
    case 3
    have "chunks_seek ci n = Some (ci\<lparr>ci_chunks := ci_chunks ci, ci_offset := n\<rparr>)"
      using 3 reads(2,4) clamp b by (cases b; cases "ci_reversed ci") (auto simp: hit chunks_seek_def)
    then show thesis using same[OF 3] c by (intro result[of "ci_chunks ci"]) simp_all
  qed
qed

lemma place_strict:
  assumes "place css xs k x" "cut_at (byte_hit (bytes_of xs) Right) css k" "k < length css"
  shows "x \<noteq> css ! k"
proof
  assume "x = css ! k"
  then have "concat (take (Suc k) css) = xs" using assms(1,3) by (simp add: place_def take_Suc_conv_app_nth)
  moreover have "byte_hit (bytes_of xs) Right (concat (take (Suc k) css))" using assms(2,3) by (simp add: cut_at_def)
  ultimately show False by (simp add: target_in_def cmp_def)
qed

lemma fwd_seek:
  assumes r: "rope_rep r css" "[] \<notin> set css" "concat css = xs @ ys" and h: "node_height (chunks r) < MAX_DEPTH"
    and ci: "fwd_at r css a b ws ci" and n: "a \<le> bytes_of xs" "bytes_of xs \<le> b"
  obtains ci' where "chunks_seek ci (bytes_of xs) = Some ci'" "fwd_at r css a b xs ci'"
proof -
  obtain m where m: "cursor_at chunk_ops usize_dim (chunks r) m (ci_chunks ci)"
    and f: "\<not> ci_reversed ci" "ci_start ci = a" "ci_end ci = b" using ci by (auto simp: fwd_at_def)
  obtain k x where k: "place css xs k x" "cut_at (byte_hit (bytes_of xs) Right) css k" using r(2,3) by (rule right_place)
  have "Right = (if ci_reversed ci then Left else Right)" "ci_start ci \<le> bytes_of xs" "bytes_of xs \<le> ci_end ci" using f n by simp_all
  with r(1) h k(2) obtain c' where "chunks_seek ci (bytes_of xs) = Some (ci\<lparr>ci_chunks := c', ci_offset := bytes_of xs\<rparr>)"
      "cursor_at chunk_ops usize_dim (chunks r) k c'"
    using m by (metis chunks_seek_cursor)
  moreover have "k < length css \<longrightarrow> x \<noteq> css ! k" using place_strict[OF k] by blast
  ultimately show thesis using k(1) f by (intro that) (auto simp: fwd_at_def)
qed

lemma bwd_seek:
  assumes r: "rope_rep r css" "[] \<notin> set css" "concat css = xs @ ys" and h: "node_height (chunks r) < MAX_DEPTH"
    and ci: "bwd_at r css a b ws ci" "a < bytes_of ws" and n: "a \<le> bytes_of xs" "bytes_of xs \<le> b"
  obtains ci' where "chunks_seek ci (bytes_of xs) = Some ci'" "bwd_at r css a b xs ci'"
proof -
  obtain m where m: "cursor_at chunk_ops usize_dim (chunks r) m (ci_chunks ci)"
    and f: "ci_reversed ci" "ci_start ci = a" "ci_end ci = b" using ci by (auto simp: bwd_at_def)
  obtain k x where k: "place css xs k x" "cut_at (byte_hit (bytes_of xs) Left) css k" "xs = [] \<or> x \<noteq> []" using r(2,3) by (rule left_place)
  have "Left = (if ci_reversed ci then Left else Right)" "ci_start ci \<le> bytes_of xs" "bytes_of xs \<le> ci_end ci" using f n by simp_all
  with r(1) h k(2) obtain c' where "chunks_seek ci (bytes_of xs) = Some (ci\<lparr>ci_chunks := c', ci_offset := bytes_of xs\<rparr>)"
      "cursor_at chunk_ops usize_dim (chunks r) k c'"
    using m by (metis chunks_seek_cursor)
  then show thesis using k(1,3) f by (intro that) (auto simp: bwd_at_def)
qed

subsection \<open>Splitting at newlines\<close>

lemma split_lines_not_Nil [simp]: "split_lines bs \<noteq> []"
  by (induction bs) (auto split: list.splits)

lemma split_lines_prefix: "10 \<notin> set bs \<Longrightarrow> split_lines (bs @ cs) = (bs @ hd (split_lines cs)) # tl (split_lines cs)"
  by (induction bs) (auto split: list.splits)

lemma split_lines_none: "10 \<notin> set bs \<Longrightarrow> split_lines bs = [bs]"
  using split_lines_prefix[of bs "[]"] by simp

lemma split_lines_newline: "split_lines (bs @ 10 # cs) = split_lines bs @ split_lines cs"
proof (induction bs)
  case (Cons b bs)
  then show ?case by (cases "split_lines bs") auto
qed simp

lemma encode_newline [simp]: "encode_utf8 10 = [10]"
  by (simp add: encode_utf8_def)

lemma str_of_newline:
  assumes "\<forall>c\<in>set cs. is_scalar c"
  shows "10 \<in> set (str_of cs) \<longleftrightarrow> 10 \<in> set cs"
proof
  assume "10 \<in> set (str_of cs)"
  then have "True \<in> set (newline_marks (str_of cs))" by (auto simp: newline_marks_def)
  then show "10 \<in> set cs" using newline_marks_none[OF assms] by fastforce
next
  assume "10 \<in> set cs"
  then obtain xs ys where "cs = xs @ 10 # ys" by (meson split_list)
  then show "10 \<in> set (str_of cs)" by simp
qed

lemma split_lines_str: "\<forall>c\<in>set cs. is_scalar c \<Longrightarrow> split_lines (str_of cs) = map str_of (text_lines cs)"
proof (induction cs)
  case (Cons c cs)
  have "10 \<notin> set (encode_utf8 c)" if "c \<noteq> 10" using str_of_newline[of "[c]"] Cons.prems that by simp
  then show ?case using Cons by (auto simp: split_lines_prefix hd_map map_tl)
qed simp

lemma text_lines_newline: "text_lines (xs @ 10 # ys) = text_lines xs @ text_lines ys"
  by (induction xs) auto

lemma text_lines_none: "10 \<notin> set xs \<Longrightarrow> text_lines xs = [xs]"
  by (induction xs) auto

subsection \<open>Lines forwards\<close>

text \<open>The state of a \<open>Lines\<close> iterator between two calls.\<close>

definition lines_at :: "(chunks_iter \<Rightarrow> bool) \<Rightarrow> bool \<Rightarrow> lines_iter \<Rightarrow> bool" where
  "lines_at at b li \<longleftrightarrow> at (li_chunks li) \<and> \<not> li_done li \<and> li_reversed li = b"

lemma lines_loop_fwd:
  assumes r: "rope_rep r css" "[] \<notin> set css" and h: "node_height (chunks r) < MAX_DEPTH"
  shows "concat css = xs @ ys @ zs \<Longrightarrow> a \<le> bytes_of xs \<Longrightarrow> lines_at (fwd_at r css a (bytes_of (xs @ ys)) xs) False li \<Longrightarrow>
    (if 10 \<in> set ys
     then \<exists>l rest li'. ys = l @ 10 # rest \<and> 10 \<notin> set l \<and> lines_loop li = Some (li', Some (current_line li @ str_of l)) \<and>
       lines_at (fwd_at r css a (bytes_of (xs @ ys)) (xs @ l @ [10])) False li'
     else \<exists>li'. lines_loop li = Some (li', Some (current_line li @ str_of ys)) \<and> li_done li')"
proof (induction "length ys" arbitrary: xs ys li rule: less_induct)
  case less
  have ci: "fwd_at r css a (bytes_of (xs @ ys)) xs (li_chunks li)" "\<not> li_done li" "\<not> li_reversed li"
    using less.prems(3) by (auto simp: lines_at_def)
  have scalars: "\<forall>c\<in>set (xs @ ys @ zs). is_scalar c" using rope_rep_scalars[OF r(1)] less.prems(1) by simp
  show ?case
  proof (cases "ys = []")
    case True
    then show ?thesis using fwd_end[of r css a xs "li_chunks li"] ci by (subst lines_loop.simps) simp
  next
    case False
    obtain p qs ci' where p: "ys = p @ qs" "p \<noteq> []" "chunks_peek (li_chunks li) = Some (Some (str_of p))"
        "chunks_next (li_chunks li) = Some (ci', Some (str_of p))" "fwd_at r css a (bytes_of (xs @ ys)) (xs @ p) ci'"
      using r less.prems(1) h False less.prems(2) ci(1) by (rule fwd_next)
    have ps: "\<forall>c\<in>set p. is_scalar c" using scalars p(1) by simp
    show ?thesis
    proof (cases "10 \<in> set p")
      case True
      then obtain l t where l: "p = l @ 10 # t" "10 \<notin> set l" by (meson split_list_first)
      have at: "concat css = (xs @ l @ [10]) @ (t @ qs @ zs)" "a \<le> bytes_of (xs @ l @ [10])" "bytes_of (xs @ l @ [10]) \<le> bytes_of (xs @ ys)"
        using less.prems(1,2) p(1) l(1) by simp_all
      obtain cj where cj: "chunks_seek (li_chunks li) (bytes_of (xs @ l @ [10])) = Some cj"
          "fwd_at r css a (bytes_of (xs @ ys)) (xs @ l @ [10]) cj"
        using r at(1) h ci(1) at(2,3) by (rule fwd_seek)
      have "10 \<notin> set (str_of l)" using str_of_newline[of l] ps l by simp
      then have lines: "split_lines (str_of p) = str_of l # split_lines (str_of t)"
        using l(1) split_lines_newline[of "str_of l" "str_of t"] by (simp add: split_lines_none)
      have "ci_offset (li_chunks li) + length (str_of l) + 1 = bytes_of (xs @ l @ [10])" using ci(1) by (simp add: fwd_at_def)
      then have "\<exists>li'. lines_loop li = Some (li', Some (current_line li @ str_of l)) \<and>
          lines_at (fwd_at r css a (bytes_of (xs @ ys)) (xs @ l @ [10])) False li'"
        using p(3) ci cj lines by (subst lines_loop.simps) (auto simp: Let_def lines_at_def)
      moreover have "ys = l @ 10 # t @ qs" "10 \<in> set ys" using p(1) l(1) by simp_all
      ultimately show ?thesis using l(2) by auto
    next
      case no: False
      let ?li = "li\<lparr>li_chunks := ci', current_line := current_line li @ str_of p\<rparr>"
      have "10 \<notin> set (str_of p)" using str_of_newline[of p] ps no by simp
      then have step: "lines_loop li = lines_loop ?li"
        using p(3,4) ci by (subst lines_loop.simps) (simp add: split_lines_none)
      have "length qs < length ys" "concat css = (xs @ p) @ qs @ zs" "a \<le> bytes_of (xs @ p)"
          "lines_at (fwd_at r css a (bytes_of ((xs @ p) @ qs)) (xs @ p)) False ?li"
        using p less.prems(1,2) ci by (simp_all add: lines_at_def)
      note IH = less.hyps[OF this]
      show ?thesis
      proof (cases "10 \<in> set qs")
        case True
        then obtain l rest li' where "qs = l @ 10 # rest" "10 \<notin> set l" "lines_loop ?li = Some (li', Some (current_line ?li @ str_of l))"
            "lines_at (fwd_at r css a (bytes_of ((xs @ p) @ qs)) ((xs @ p) @ l @ [10])) False li'"
          using IH by auto
        then have "ys = (p @ l) @ 10 # rest \<and> 10 \<notin> set (p @ l) \<and> lines_loop li = Some (li', Some (current_line li @ str_of (p @ l))) \<and>
            lines_at (fwd_at r css a (bytes_of (xs @ ys)) (xs @ (p @ l) @ [10])) False li'"
          using no p(1) step by simp
        moreover have "10 \<in> set ys" using True p(1) by simp
        ultimately show ?thesis unfolding if_P[OF \<open>10 \<in> set ys\<close>] by blast
      next
        case False
        then show ?thesis using IH no p(1) step by auto
      qed
    qed
  qed
qed

lemma lines_collect_fwd:
  assumes r: "rope_rep r css" "[] \<notin> set css" and h: "node_height (chunks r) < MAX_DEPTH"
  shows "concat css = xs @ ys @ zs \<Longrightarrow> a \<le> bytes_of xs \<Longrightarrow> lines_at (fwd_at r css a (bytes_of (xs @ ys)) xs) False li \<Longrightarrow>
    lines_collect li = Some (map str_of (text_lines ys))"
proof (induction "length ys" arbitrary: xs ys li rule: less_induct)
  case less
  have at: "lines_at (fwd_at r css a (bytes_of (xs @ ys)) xs) False (li\<lparr>current_line := []\<rparr>)" "\<not> li_done li"
    using less.prems(3) by (auto simp: lines_at_def)
  note line = lines_loop_fwd[OF r h less.prems(1,2) at(1)]
  show ?case
  proof (cases "10 \<in> set ys")
    case True
    then obtain l rest li' where l: "ys = l @ 10 # rest" "10 \<notin> set l" "lines_next li = Some (li', Some (str_of l))"
        "lines_at (fwd_at r css a (bytes_of (xs @ ys)) (xs @ l @ [10])) False li'"
      using line at(2) by (auto simp: lines_next_def)
    have "length rest < length ys" "concat css = (xs @ l @ [10]) @ rest @ zs" "a \<le> bytes_of (xs @ l @ [10])"
        "lines_at (fwd_at r css a (bytes_of ((xs @ l @ [10]) @ rest)) (xs @ l @ [10])) False li'"
      using l less.prems(1,2) by simp_all
    then have "lines_collect li' = Some (map str_of (text_lines rest))" by (rule less.hyps)
    then show ?thesis using l(1-3) by (subst lines_collect.simps) (simp add: text_lines_newline text_lines_none)
  next
    case False
    then obtain li' where "lines_next li = Some (li', Some (str_of ys))" "li_done li'" using line at(2) by (auto simp: lines_next_def)
    moreover from this have "lines_collect li' = Some []" by (subst lines_collect.simps) (simp add: lines_next_def)
    ultimately show ?thesis using False by (subst lines_collect.simps) (simp add: text_lines_none)
  qed
qed

subsection \<open>Lines backwards\<close>

lemma lines_loop_bwd:
  assumes r: "rope_rep r css" "[] \<notin> set css" and h: "node_height (chunks r) < MAX_DEPTH"
  shows "concat css = pre @ ws @ zs \<Longrightarrow> bytes_of (pre @ ws) \<le> b \<Longrightarrow> lines_at (bwd_at r css (bytes_of pre) b (pre @ ws)) True li \<Longrightarrow>
    (if 10 \<in> set ws
     then \<exists>rest l li'. ws = rest @ 10 # l \<and> 10 \<notin> set l \<and> lines_loop li = Some (li', Some (str_of l @ current_line li)) \<and>
       lines_at (bwd_at r css (bytes_of pre) b (pre @ rest)) True li'
     else \<exists>li'. lines_loop li = Some (li', Some (str_of ws @ current_line li)) \<and> li_done li')"
proof (induction "length ws" arbitrary: ws zs li rule: less_induct)
  case less
  have ci: "bwd_at r css (bytes_of pre) b (pre @ ws) (li_chunks li)" "\<not> li_done li" "li_reversed li"
    using less.prems(3) by (auto simp: lines_at_def)
  have scalars: "\<forall>c\<in>set (pre @ ws @ zs). is_scalar c" using rope_rep_scalars[OF r(1)] less.prems(1) by simp
  show ?case
  proof (cases "ws = []")
    case True
    then show ?thesis using bwd_end[of r css pre b "li_chunks li"] ci by (subst lines_loop.simps) simp
  next
    case False
    obtain qs p ci' where p: "ws = qs @ p" "p \<noteq> []" "chunks_peek (li_chunks li) = Some (Some (str_of p))"
        "chunks_next (li_chunks li) = Some (ci', Some (str_of p))" "bwd_at r css (bytes_of pre) b (pre @ qs) ci'"
      using r less.prems(1) h False less.prems(2) ci(1) by (rule bwd_next)
    have ps: "\<forall>c\<in>set p. is_scalar c" using scalars p(1) by simp
    show ?thesis
    proof (cases "10 \<in> set p")
      case True
      then obtain t l where l: "p = t @ 10 # l" "10 \<notin> set l" by (meson split_list_last)
      have at: "concat css = (pre @ qs @ t) @ (10 # l @ zs)" "bytes_of pre < bytes_of (pre @ ws)" "bytes_of pre \<le> bytes_of (pre @ qs @ t)"
          "bytes_of (pre @ qs @ t) \<le> b"
        using less.prems(1,2) p(1) l(1) by simp_all
      obtain cj where cj: "chunks_seek (li_chunks li) (bytes_of (pre @ qs @ t)) = Some cj" "bwd_at r css (bytes_of pre) b (pre @ qs @ t) cj"
        using r at(1) h ci(1) at(2-4) by (rule bwd_seek)
      have "10 \<notin> set (str_of l)" using str_of_newline[of l] ps l by simp
      then have lines: "rev (split_lines (str_of p)) = str_of l # rev (split_lines (str_of t))"
        using l(1) split_lines_newline[of "str_of t" "str_of l"] by (simp add: split_lines_none)
      have "do { o1 \<leftarrow> checked_sub (ci_offset (li_chunks li)) (length (str_of l)); checked_sub o1 1 } = Some (bytes_of (pre @ qs @ t))"
        using ci(1) p(1) l(1) by (simp add: bwd_at_def checked_sub_def)
      then have "\<exists>li'. lines_loop li = Some (li', Some (str_of l @ current_line li)) \<and> lines_at (bwd_at r css (bytes_of pre) b (pre @ qs @ t)) True li'"
        using p(3) ci cj lines by (subst lines_loop.simps) (auto simp: Let_def lines_at_def)
      moreover have "ws = (qs @ t) @ 10 # l" "10 \<in> set ws" using p(1) l(1) by simp_all
      ultimately show ?thesis unfolding if_P[OF \<open>10 \<in> set ws\<close>] using l(2) by blast
    next
      case no: False
      let ?li = "li\<lparr>li_chunks := ci', current_line := str_of p @ current_line li\<rparr>"
      have "10 \<notin> set (str_of p)" using str_of_newline[of p] ps no by simp
      then have step: "lines_loop li = lines_loop ?li"
        using p(3,4) ci by (subst lines_loop.simps) (simp add: split_lines_none)
      have "length qs < length ws" "concat css = pre @ qs @ (p @ zs)" "bytes_of (pre @ qs) \<le> b"
          "lines_at (bwd_at r css (bytes_of pre) b (pre @ qs)) True ?li"
        using p less.prems(1,2) ci by (simp_all add: lines_at_def)
      note IH = less.hyps[OF this]
      show ?thesis
      proof (cases "10 \<in> set qs")
        case True
        then obtain rest l li' where "qs = rest @ 10 # l" "10 \<notin> set l" "lines_loop ?li = Some (li', Some (str_of l @ current_line ?li))"
            "lines_at (bwd_at r css (bytes_of pre) b (pre @ rest)) True li'"
          using IH by auto
        then have "ws = rest @ 10 # (l @ p) \<and> 10 \<notin> set (l @ p) \<and> lines_loop li = Some (li', Some (str_of (l @ p) @ current_line li)) \<and>
            lines_at (bwd_at r css (bytes_of pre) b (pre @ rest)) True li'"
          using no p(1) step by simp
        moreover have "10 \<in> set ws" using True p(1) by simp
        ultimately show ?thesis unfolding if_P[OF \<open>10 \<in> set ws\<close>] by blast
      next
        case False
        then show ?thesis using IH no p(1) step by auto
      qed
    qed
  qed
qed

lemma lines_collect_bwd:
  assumes r: "rope_rep r css" "[] \<notin> set css" and h: "node_height (chunks r) < MAX_DEPTH"
  shows "concat css = pre @ ws @ zs \<Longrightarrow> bytes_of (pre @ ws) \<le> b \<Longrightarrow> lines_at (bwd_at r css (bytes_of pre) b (pre @ ws)) True li \<Longrightarrow>
    lines_collect li = Some (rev (map str_of (text_lines ws)))"
proof (induction "length ws" arbitrary: ws zs li rule: less_induct)
  case less
  have at: "lines_at (bwd_at r css (bytes_of pre) b (pre @ ws)) True (li\<lparr>current_line := []\<rparr>)" "\<not> li_done li"
    using less.prems(3) by (auto simp: lines_at_def)
  note line = lines_loop_bwd[OF r h less.prems(1,2) at(1)]
  show ?case
  proof (cases "10 \<in> set ws")
    case True
    then obtain rest l li' where l: "ws = rest @ 10 # l" "10 \<notin> set l" "lines_next li = Some (li', Some (str_of l))"
        "lines_at (bwd_at r css (bytes_of pre) b (pre @ rest)) True li'"
      using line at(2) by (auto simp: lines_next_def)
    have "length rest < length ws" "concat css = pre @ rest @ (10 # l @ zs)" "bytes_of (pre @ rest) \<le> b"
      using l less.prems(1,2) by simp_all
    then have "lines_collect li' = Some (rev (map str_of (text_lines rest)))" using l(4) by (rule less.hyps)
    then show ?thesis using l(1-3) by (subst lines_collect.simps) (simp add: text_lines_newline text_lines_none)
  next
    case False
    then obtain li' where "lines_next li = Some (li', Some (str_of ws))" "li_done li'" using line at(2) by (auto simp: lines_next_def)
    moreover from this have "lines_collect li' = Some []" by (subst lines_collect.simps) (simp add: lines_next_def)
    ultimately show ?thesis using False by (subst lines_collect.simps) (simp add: text_lines_none)
  qed
qed

text \<open>
  C14: Iterating over the lines of a range. A \<open>Lines\<close> iterator over any range between character boundaries yields exactly
  the lines of its text, in order and without the newlines, and then ends; a reversed one yields the same lines from
  the last to the first. A line that spans several chunks is put together, and an empty range is one empty line.
\<close>

theorem rope_lines_text:
  assumes "rope_text r (xs @ ys @ zs)" "node_height (chunks r) < MAX_DEPTH"
  defines "a \<equiv> length (str_of xs)" and "b \<equiv> length (str_of (xs @ ys))"
  shows "(do { ci \<leftarrow> chunks_in_range r a b; lines_collect (chunks_lines ci) }) = Some (map str_of (text_lines ys)) \<and>
    (do { ci \<leftarrow> reversed_chunks_in_range r a b; lines_collect (chunks_lines ci) }) = Some (rev (map str_of (text_lines ys)))"
proof -
  obtain css where r: "rope_rep r css" "[] \<notin> set css" "concat css = xs @ ys @ zs" using assms(1) by (rule rope_textE)
  have split: "concat css = (xs @ ys) @ zs" using r(3) by simp
  obtain ci where ci: "chunks_new r a b False = Some ci" "fwd_at r css a b xs ci"
    using r assms(2) unfolding a_def b_def by (rule fwd_new)
  obtain cj where cj: "chunks_new r a b True = Some cj" "bwd_at r css a b (xs @ ys) cj"
    using r(1,2) split assms(2) unfolding b_def by (rule bwd_new)
  have at: "lines_at (fwd_at r css a (bytes_of (xs @ ys)) xs) False (chunks_lines ci)"
      "lines_at (bwd_at r css (bytes_of xs) b (xs @ ys)) True (chunks_lines cj)"
    using ci(2) cj(2) by (auto simp: lines_at_def chunks_lines_def fwd_at_def bwd_at_def a_def b_def)
  have "a \<le> bytes_of xs" "bytes_of (xs @ ys) \<le> b" by (simp_all add: a_def b_def)
  then show ?thesis
    using lines_collect_fwd[OF r(1,2) assms(2) r(3) _ at(1)] lines_collect_bwd[OF r(1,2) assms(2) r(3) _ at(2)] ci(1) cj(1)
    by (simp add: chunks_in_range_def reversed_chunks_in_range_def)
qed

lemma rope_lines_text_witness:
  "\<exists>r. rope_from (str_of [0x61, 0x1F600, 10, 0x62, 10]) = Some r \<and>
     (do { ci \<leftarrow> reversed_chunks_in_range r 1 8; lines_collect (chunks_lines ci) }) = Some [[], str_of [0x62], str_of [0x1F600]]"
proof -
  let ?cs = "[0x61, 0x1F600, 10, 0x62, 10] :: scalar list" and ?ys = "[0x1F600, 10, 0x62, 10] :: scalar list"
  have s: "\<forall>c\<in>set ?cs. is_scalar c" "?cs \<noteq> []" "bytes_of ?cs \<le> MAX_BASE"
    and n: "bytes_of [0x61] = 1" "bytes_of ([0x61] @ ?ys) = 8"
    by (simp_all add: is_scalar_def len_utf8_def MAX_BASE_def)
  obtain r where r: "rope_from (str_of ?cs) = Some r" "rope_rep r [?cs]" "node_height (chunks r) = 0" using s by (rule rope_from_small)
  have t: "rope_text r ([0x61] @ ?ys @ [])" using rope_textI[OF r(2)] by simp
  have h: "node_height (chunks r) < MAX_DEPTH" using r(3) by (simp add: MAX_DEPTH_def)
  have "(do { ci \<leftarrow> reversed_chunks_in_range r 1 8; lines_collect (chunks_lines ci) }) = Some (rev (map str_of (text_lines ?ys)))"
    using rope_lines_text[OF t h] unfolding n by blast
  then show ?thesis using r(1) by (intro exI[of _ r]) simp
qed

end
