(* ===== verification/Rope_Bytes.thy ===== *)
theory Rope_Bytes
  imports Rope_Lines
begin

section \<open>The bytes of a range\<close>

text \<open>
  \<open>Bytes\<close> is both an iterator over byte slices and an \<open>io::Read\<close>. It works for arbitrary byte offsets, not only
  character boundaries, so this theory speaks of the bytes \<open>str_of (concat css)\<close> of the text.
\<close>

abbreviation seam :: "scalar list list \<Rightarrow> nat \<Rightarrow> nat" where
  "seam css m \<equiv> bytes_of (concat (take m css))"

abbreviation whole :: "scalar list list \<Rightarrow> bytes" where
  "whole css \<equiv> str_of (concat css)"

lemma seam_mono: "i \<le> j \<Longrightarrow> seam css i \<le> seam css j"
  using take_concat_le[of i j css] by auto

lemma seam_total: "seam css m \<le> bytes_of (concat css)" "length css \<le> m \<Longrightarrow> seam css m = bytes_of (concat css)"
  using seam_mono[of m "max m (length css)" css] by auto

lemma seam_strict: "[] \<notin> set css \<Longrightarrow> m < length css \<Longrightarrow> seam css m < seam css (Suc m)"
  by (auto simp: take_Suc_conv_app_nth str_of_eq_Nil in_set_conv_nth)

lemma chunk_bytes: "m < length css \<Longrightarrow> str_of (css ! m) = drop (seam css m) (take (seam css (Suc m)) (whole css))"
proof -
  assume m: "m < length css"
  have "concat css = concat (take m css) @ css ! m @ concat (drop (Suc m) css)"
    using arg_cong[OF id_take_nth_drop[OF m], of concat] by simp
  from arg_cong[OF this, of str_of]
  have "whole css = str_of (concat (take m css)) @ str_of (css ! m) @ str_of (concat (drop (Suc m) css))" by simp
  then show ?thesis using m by (simp add: take_Suc_conv_app_nth)
qed

lemma byte_cut: obtains k where "cut_at (byte_hit n b) css k"
proof -
  let ?P = "\<lambda>j. length css \<le> j \<or> byte_hit n b (concat (take (Suc j) css))"
  define k where "k = (LEAST j. ?P j)"
  have k: "?P k" unfolding k_def by (rule LeastI[of _ "length css"]) simp
  have before: "\<not> ?P j" if "j < k" for j using that not_less_Least unfolding k_def by blast
  have le: "k \<le> length css" unfolding k_def by (rule Least_le) simp
  have "byte_hit n b (concat (take (Suc j) css))" if "k \<le> j" "j < length css" for j
    using k that seam_mono[of "Suc k" "Suc j" css] by (auto simp: target_in_def cmp_def split: if_splits)
  then show thesis using before le by (intro that[of k]) (auto simp: cut_at_def)
qed

lemma drop_take_split: "x \<le> y \<Longrightarrow> drop x (take (min b y) t) @ drop y (take b t) = drop x (take b t)"
proof -
  assume "x \<le> y"
  then have "drop x (take y u) = take (y - x) (drop x u)" "drop (y - x) (drop x u) = drop y u" for u :: "'a list"
    by (simp_all add: drop_take)
  then have "drop x (take y u) @ drop y u = drop x u" for u :: "'a list" by (metis append_take_drop_id)
  from this[of "take b t"] show ?thesis by (simp add: min.commute)
qed

subsection \<open>The piece under the cursor\<close>

lemma bytes_peek_at:
  assumes r: "rope_rep r css" and c: "cursor_at chunk_ops usize_dim (chunks r) m (bi_chunks bi)"
    and m: "m < length css" "seam css m < bi_end bi" "bi_start bi \<le> bi_end bi" "bi_start bi < seam css (Suc m)"
  shows "bytes_peek bi = Some (Some (drop (max (bi_start bi) (seam css m)) (take (min (bi_end bi) (seam css (Suc m))) (whole css))))"
proof -
  define s e a b w where d: "s = seam css m" "e = seam css (Suc m)" "a = bi_start bi" "b = bi_end bi" "w = whole css"
  note reads = usize_m.cursor_reads[OF r c]
  define chunk where "chunk = to_list (chunks r) ! m"
  have bs: "ck_text chunk = drop s (take e w)"
    using chunk_rep_text[OF rope_rep_nth[OF r m(1)]] chunk_bytes[OF m(1)] by (simp add: chunk_def d)
  have order: "s \<le> e" "s < b" "a \<le> b" "a < e" "e \<le> length w"
    unfolding d using m(2-4) seam_mono[of m "Suc m" css] seam_total(1)[of "Suc m" css] by auto
  have len: "length (ck_text chunk) = e - s" using bs order by simp
  have reads': "cursor_item (bi_chunks bi) = Some (Some chunk)" "cursor_start (bi_chunks bi) = s" "cursor_end usize_dim (bi_chunks bi) = Some e"
    using reads m(1) unfolding d chunk_def by simp_all
  have fin: "a - s \<le> min (e - s) (b - s)" using order by auto
  have "min (e - s) (b - s) + s = min e b" "a - s + s = max a s" "min (min e b) e = min b e" using order by auto
  then have "drop (a - s) (take (min (e - s) (b - s)) (drop s (take e w))) = drop (max a s) (take (min b e) w)"
    unfolding take_drop drop_drop take_take by simp
  then have "bytes_peek bi = Some (Some (drop (max a s) (take (min b e) w)))"
    using reads' fin len bs order by (simp add: bytes_peek_def Let_def d(3,4)[symmetric])
  then show ?thesis by (simp only: d)
qed

lemma bytes_peek_none:
  assumes "cursor_item (bi_chunks bi) = Some None \<or> cursor_at chunk_ops usize_dim (chunks r) m (bi_chunks bi) \<and> rope_rep r css \<and>
    (m = length css \<or> bi_end bi \<le> seam css m \<or> bi_reversed bi \<and> seam css (Suc m) \<le> bi_start bi)"
  shows "bytes_peek bi = Some None \<and> bytes_next bi = Some (bi, None)"
proof -
  have "bytes_peek bi = Some None"
    using assms usize_m.cursor_reads[of r css m "bi_chunks bi"] by (auto simp: bytes_peek_def Let_def)
  then show ?thesis by (simp add: bytes_next_def)
qed

subsection \<open>The iterator\<close>

lemma bytes_collect_fwd:
  assumes r: "rope_rep r css" "[] \<notin> set css" and h: "node_height (chunks r) < MAX_DEPTH"
  shows "cursor_at chunk_ops usize_dim (chunks r) m (bi_chunks bi) \<Longrightarrow> \<not> bi_reversed bi \<Longrightarrow> bi_start bi \<le> bi_end bi \<Longrightarrow>
    (m < length css \<longrightarrow> bi_start bi < seam css (Suc m)) \<Longrightarrow>
    \<exists>ps. bytes_collect bi = Some ps \<and> concat ps = drop (max (bi_start bi) (seam css m)) (take (bi_end bi) (whole css))"
proof (induction "length css - m" arbitrary: m bi rule: less_induct)
  case less
  note reads = usize_m.cursor_reads[OF r(1) less.prems(1)]
  show ?case
  proof (cases "m < length css \<and> seam css m < bi_end bi")
    case False
    then have m: "m = length css \<or> bi_end bi \<le> seam css m" using reads(1) by auto
    then have "bytes_next bi = Some (bi, None)" using bytes_peek_none[of bi r m css] less.prems(1) r(1) by blast
    moreover have "drop (max (bi_start bi) (seam css m)) (take (bi_end bi) (whole css)) = []" using m seam_total(2)[of css m] by auto
    ultimately show ?thesis by (subst bytes_collect.simps) simp
  next
    case True
    have lt: "bi_start bi < seam css (Suc m)" using True less.prems(4) by blast
    note peek = bytes_peek_at[OF r(1) less.prems(1) conjunct1[OF True] conjunct2[OF True] less.prems(3) lt]
    obtain c where c: "cursor_next usize_dim (bi_chunks bi) = Some c" "cursor_at chunk_ops usize_dim (chunks r) (Suc m) c"
      using r(1) less.prems(1) conjunct1[OF True] h by (rule rc_next_at)
    let ?bi = "bi\<lparr>bi_chunks := c\<rparr>"
    have "length css - Suc m < length css - m" "cursor_at chunk_ops usize_dim (chunks r) (Suc m) (bi_chunks ?bi)" "\<not> bi_reversed ?bi"
        "bi_start ?bi \<le> bi_end ?bi" "Suc m < length css \<longrightarrow> bi_start ?bi < seam css (Suc (Suc m))"
      using True c(2) less.prems(2,3) lt seam_mono[of "Suc m" "Suc (Suc m)" css] by auto
    then have "\<exists>ps. bytes_collect ?bi = Some ps \<and> concat ps = drop (max (bi_start ?bi) (seam css (Suc m))) (take (bi_end ?bi) (whole css))"
      by (rule less.hyps)
    then obtain ps where ps: "bytes_collect ?bi = Some ps" "concat ps = drop (seam css (Suc m)) (take (bi_end bi) (whole css))"
      using lt by auto
    have "max (bi_start bi) (seam css m) \<le> seam css (Suc m)" using lt seam_mono[of m "Suc m" css] by simp
    from drop_take_split[OF this, of "bi_end bi" "whole css"] show ?thesis
      using peek c(1) ps less.prems(2) by (subst bytes_collect.simps) (simp add: bytes_next_def)
  qed
qed

lemma rc_prev_rel:
  assumes r: "rope_rep r css" and c: "cursor_at chunk_ops usize_dim (chunks r) m c" and h: "node_height (chunks r) < MAX_DEPTH"
  obtains c' where "cursor_prev usize_dim c = Some c'" "if m = 0 then cursor_item c' = Some None else cursor_at chunk_ops usize_dim (chunks r) (m - 1) c'"
proof -
  have wf: "st_wf chunk_ops valid_ts (chunks r)" using r by (simp add: rope_rep_def)
  obtain c' where c': "cursor_prev usize_dim c = Some c'" "cursor_rel chunk_ops usize_dim (chunks r) (pos_move (length css) Prev (At m)) c'"
    using wf h c by (rule usize_m.cursor_prev_cases)
  have "cursor_item c' = Some None" if "m = 0"
    using usize_m.cursor_rel_item[OF wf, of Before c'] c'(2) that by simp
  then show thesis using c' by (intro that[of c']) auto
qed

lemma bytes_collect_bwd:
  assumes r: "rope_rep r css" "[] \<notin> set css" and h: "node_height (chunks r) < MAX_DEPTH"
  shows "cursor_at chunk_ops usize_dim (chunks r) m (bi_chunks bi) \<Longrightarrow> bi_reversed bi \<Longrightarrow> bi_start bi \<le> bi_end bi \<Longrightarrow>
    m < length css \<or> bi_end bi = 0 \<Longrightarrow> seam css m < bi_end bi \<or> bi_end bi = 0 \<Longrightarrow>
    \<exists>ps. bytes_collect bi = Some ps \<and> concat (rev ps) = drop (bi_start bi) (take (min (bi_end bi) (seam css (Suc m))) (whole css))"
proof (induction m arbitrary: bi rule: less_induct)
  case (less m)
  note reads = usize_m.cursor_reads[OF r(1) less.prems(1)]
  show ?case
  proof (cases "bi_end bi = 0 \<or> seam css (Suc m) \<le> bi_start bi")
    case True
    then have "bi_end bi \<le> seam css m \<or> bi_reversed bi \<and> seam css (Suc m) \<le> bi_start bi" using less.prems(2) by auto
    then have "bytes_next bi = Some (bi, None)" using bytes_peek_none[of bi r m css] less.prems(1) r(1) by blast
    moreover have "drop (bi_start bi) (take (min (bi_end bi) (seam css (Suc m))) (whole css)) = []" using True by auto
    ultimately show ?thesis by (subst bytes_collect.simps) simp
  next
    case False
    then have lt: "m < length css" "seam css m < bi_end bi" "bi_start bi < seam css (Suc m)" using less.prems(4,5) by auto
    note peek = bytes_peek_at[OF r(1) less.prems(1) lt(1,2) less.prems(3) lt(3)]
    obtain c where c: "cursor_prev usize_dim (bi_chunks bi) = Some c"
        "if m = 0 then cursor_item c = Some None else cursor_at chunk_ops usize_dim (chunks r) (m - 1) c"
      using r(1) less.prems(1) h by (rule rc_prev_rel)
    let ?bi = "bi\<lparr>bi_chunks := c\<rparr>"
    have "\<exists>ps. bytes_collect ?bi = Some ps \<and> concat (rev ps) = drop (bi_start bi) (take (seam css m) (whole css))"
    proof (cases m)
      case 0
      then have "bytes_next ?bi = Some (?bi, None)" using bytes_peek_none[of ?bi] c(2) by simp
      then show ?thesis using 0 by (subst bytes_collect.simps) simp
    next
      case (Suc n)
      have "n < m" "cursor_at chunk_ops usize_dim (chunks r) n (bi_chunks ?bi)" "bi_reversed ?bi" "bi_start ?bi \<le> bi_end ?bi"
          "n < length css \<or> bi_end ?bi = 0" "seam css n < bi_end ?bi \<or> bi_end ?bi = 0"
        using Suc c(2) less.prems(2,3) lt(1,2) seam_mono[of n m css] by auto
      then have "\<exists>ps. bytes_collect ?bi = Some ps \<and> concat (rev ps) = drop (bi_start ?bi) (take (min (bi_end ?bi) (seam css (Suc n))) (whole css))"
        by (rule less.IH)
      moreover have "min (bi_end ?bi) (seam css (Suc n)) = seam css m" using Suc lt(2) by simp
      ultimately show ?thesis by simp
    qed
    then obtain ps where ps: "bytes_collect ?bi = Some ps" "concat (rev ps) = drop (bi_start bi) (take (seam css m) (whole css))" by blast
    let ?u = "take (min (bi_end bi) (seam css (Suc m))) (whole css)"
    have "take (seam css m) ?u = take (seam css m) (whole css)"
      using lt(2) seam_mono[of m "Suc m" css] by (simp add: min_absorb1)
    moreover have "drop (bi_start bi) (take (seam css m) ?u) @ drop (max (bi_start bi) (seam css m)) ?u = drop (bi_start bi) ?u"
    proof (cases "bi_start bi \<le> seam css m")
      case True
      have "drop a (take y u) @ drop y u = drop a u" if "a \<le> y" for a y and u :: bytes
        using drop_take_split[OF that, of "length u" u] by (cases "y \<le> length u") (simp_all add: min_absorb1 min_absorb2)
      from this[OF True, of ?u] True show ?thesis by (simp only: max_absorb2)
    qed (simp add: max_absorb1)
    ultimately show ?thesis
      using peek c(1) ps less.prems(2) by (subst bytes_collect.simps) (simp add: bytes_next_def)
  qed
qed

subsection \<open>Reading\<close>

text \<open>A \<open>Bytes\<close> that has only been read from: the range says what is left, and the cursor stands on its first chunk.\<close>

definition reading :: "rope \<Rightarrow> scalar list list \<Rightarrow> bytes_iter \<Rightarrow> bool" where
  "reading r css bi \<longleftrightarrow> bi_start bi \<le> bi_end bi \<and> bi_end bi \<le> bytes_of (concat css) \<and>
     (if bi_reversed bi
      then bi_start bi = bi_end bi \<and> cursor_item (bi_chunks bi) = Some None \<or>
        (\<exists>m. cursor_at chunk_ops usize_dim (chunks r) m (bi_chunks bi) \<and>
          (bi_start bi = bi_end bi \<or> m < length css \<and> seam css m < bi_end bi \<and> bi_end bi \<le> seam css (Suc m)))
      else \<exists>m. cursor_at chunk_ops usize_dim (chunks r) m (bi_chunks bi) \<and> (m < length css \<longrightarrow> bi_start bi < seam css (Suc m)) \<and>
        (seam css m \<le> bi_start bi \<or> bi_start bi = bi_end bi))"

definition unread :: "scalar list list \<Rightarrow> bytes_iter \<Rightarrow> bytes" where
  "unread css bi = (if bi_reversed bi then rev else (\<lambda>bs. bs)) (drop (bi_start bi) (take (bi_end bi) (whole css)))"

lemma read_fwd_step:
  assumes r: "rope_rep r css" "[] \<notin> set css" and h: "node_height (chunks r) < MAX_DEPTH" and bi: "reading r css bi" "\<not> bi_reversed bi"
  shows "\<exists>bi' out. bytes_read bi n = Some (bi', out) \<and> reading r css bi' \<and> \<not> bi_reversed bi' \<and> unread css bi = out @ unread css bi' \<and>
    length out \<le> n \<and> (0 < n \<and> unread css bi \<noteq> [] \<longrightarrow> out \<noteq> [])"
proof -
  obtain m where m: "cursor_at chunk_ops usize_dim (chunks r) m (bi_chunks bi)" "m < length css \<longrightarrow> bi_start bi < seam css (Suc m)"
      "seam css m \<le> bi_start bi \<or> bi_start bi = bi_end bi" and ab: "bi_start bi \<le> bi_end bi" "bi_end bi \<le> bytes_of (concat css)"
    using bi by (auto simp: reading_def)
  have ml: "m \<le> length css" using usize_m.cursor_reads(1)[OF r(1) m(1)] .
  show ?thesis
  proof (cases "m < length css \<and> seam css m < bi_end bi")
    case False
    then have none: "m = length css \<or> bi_end bi \<le> seam css m" using ml by auto
    then have "bytes_peek bi = Some None" using bytes_peek_none[of bi r m css] m(1) r(1) by blast
    moreover have "unread css bi = []" using none m(3) ab seam_total(2)[of css m] bi(2) by (auto simp: unread_def)
    ultimately show ?thesis using bi by (simp add: bytes_read_def)
  next
    case True
    define s e a b w where d: "s = seam css m" "e = seam css (Suc m)" "a = bi_start bi" "b = bi_end bi" "w = whole css"
    have o: "s \<le> a \<or> a = b" "a < e" "s < b" "a \<le> b" "b \<le> length w" using m ab True by (auto simp: d)
    define p where "p = drop a (take (min b e) w)"
    have peek: "bytes_peek bi = Some (Some p)"
      using bytes_peek_at[OF r(1) m(1) conjunct1[OF True] conjunct2[OF True] ab(1)] o True m(2)
      unfolding p_def d by (metis max_absorb1 order_less_imp_le)
    have len: "length p = min b e - a" using o by (simp add: p_def)
    define k where "k = min n (length p)"
    have k: "k \<le> length p" "k \<le> n" by (simp_all add: k_def)
    have "min (k + a) (min b e) = k + a" "min (k + a) b = k + a" using k(1) len o by auto
    then have out: "take k p = take k (drop a (take b w))" unfolding p_def take_drop take_take by simp
    have unread: "unread css (bi\<lparr>bi_start := a + k\<rparr>) = drop k (unread css bi)" "unread css bi = drop a (take b w)"
      using bi(2) by (simp_all add: unread_def d add.commute)
    have split: "unread css bi = take k p @ unread css (bi\<lparr>bi_start := a + k\<rparr>)"
      unfolding unread(1) out unread(2) by (rule append_take_drop_id[symmetric])
    have progress: "take k p \<noteq> []" if "0 < n" "unread css bi \<noteq> []"
    proof -
      have "a < b" using that(2) o unfolding unread(2) by auto
      then show ?thesis using that(1) o len by (auto simp: k_def)
    qed
    show ?thesis
    proof (cases "k = length p")
      case full: True
      obtain c where c: "cursor_next usize_dim (bi_chunks bi) = Some c" "cursor_at chunk_ops usize_dim (chunks r) (Suc m) c"
        using r(1) m(1) conjunct1[OF True] h by (rule rc_next_at)
      let ?bi = "bi\<lparr>bi_start := a + k, bi_chunks := c\<rparr>"
      have "a + k = min b e" using full len o by simp
      then have "reading r css ?bi"
        using c(2) bi(2) o ab(2) seam_strict[OF r(2), of "Suc m"] by (auto simp: reading_def d intro!: exI[of _ "Suc m"])
      moreover have "bytes_read bi n = Some (?bi, take k p)"
        using peek c(1) full bi(2) by (simp add: bytes_read_def Let_def k_def[symmetric] d(3)[symmetric])
      moreover have "unread css ?bi = unread css (bi\<lparr>bi_start := a + k\<rparr>)" by (simp add: unread_def)
      ultimately show ?thesis using split progress k(2) bi(2) by (intro exI[of _ ?bi] exI[of _ "take k p"]) auto
    next
      case False
      let ?bi = "bi\<lparr>bi_start := a + k\<rparr>"
      have "a + k < min b e" "s \<le> a" using False k(1) len o by auto
      then have "reading r css ?bi" using m(1) bi(2) ab(2) by (auto simp: reading_def d intro!: exI[of _ m])
      moreover have "bytes_read bi n = Some (?bi, take k p)"
        using peek False bi(2) by (simp add: bytes_read_def Let_def k_def[symmetric] d(3)[symmetric])
      ultimately show ?thesis using split progress k(2) bi(2) by (intro exI[of _ ?bi] exI[of _ "take k p"]) auto
    qed
  qed
qed

lemma read_bwd_step:
  assumes r: "rope_rep r css" "[] \<notin> set css" and h: "node_height (chunks r) < MAX_DEPTH" and bi: "reading r css bi" "bi_reversed bi"
  shows "\<exists>bi' out. bytes_read bi n = Some (bi', out) \<and> reading r css bi' \<and> bi_reversed bi' \<and> unread css bi = out @ unread css bi' \<and>
    length out \<le> n \<and> (0 < n \<and> unread css bi \<noteq> [] \<longrightarrow> out \<noteq> [])"
proof -
  have ab: "bi_start bi \<le> bi_end bi" "bi_end bi \<le> bytes_of (concat css)" using bi(1) by (auto simp: reading_def)
  consider (none) "bi_start bi = bi_end bi" "bytes_peek bi = Some None"
    | (some) m where "cursor_at chunk_ops usize_dim (chunks r) m (bi_chunks bi)" "m < length css" "seam css m < bi_end bi"
        "bi_end bi \<le> seam css (Suc m)" "bi_start bi < seam css (Suc m)"
  proof (cases "cursor_item (bi_chunks bi) = Some None \<and> bi_start bi = bi_end bi")
    case True
    then show thesis using bytes_peek_none[of bi] by (intro none) auto
  next
    case False
    then obtain m where m: "cursor_at chunk_ops usize_dim (chunks r) m (bi_chunks bi)"
        "bi_start bi = bi_end bi \<or> m < length css \<and> seam css m < bi_end bi \<and> bi_end bi \<le> seam css (Suc m)"
      using bi by (auto simp: reading_def)
    have ml: "m \<le> length css" using usize_m.cursor_reads(1)[OF r(1) m(1)] .
    show thesis
    proof (cases "m = length css \<or> bi_end bi \<le> seam css m \<or> seam css (Suc m) \<le> bi_start bi")
      case True
      then have "bytes_peek bi = Some None" using bytes_peek_none[of bi r m css] m(1) r(1) bi(2) by blast
      moreover have "bi_start bi = bi_end bi" using True m(2) ab(1) by auto
      ultimately show thesis by (intro none)
    next
      case False
      then show thesis using m ml by (intro some[of m]) auto
    qed
  qed
  then show ?thesis
  proof cases
    case none
    then show ?thesis using bi by (simp add: bytes_read_def unread_def)
  next
    case some
    define s e a b w where d: "s = seam css m" "e = seam css (Suc m)" "a = bi_start bi" "b = bi_end bi" "w = whole css"
    have o: "s < b" "b \<le> e" "a < e" "a \<le> b" "b \<le> length w" using some ab by (auto simp: d)
    define p where "p = drop (max a s) (take b w)"
    have peek: "bytes_peek bi = Some (Some p)"
      using bytes_peek_at[OF r(1) some(1-3) ab(1) some(5)] o unfolding p_def d by (simp add: min_absorb1)
    have len: "length p = b - max a s" using o by (simp add: p_def)
    define k where "k = min n (length p)"
    have k: "k \<le> length p" "k \<le> n" by (simp_all add: k_def)
    have tail: "drop (length p - k) p = drop (b - k) (take b w)" using k(1) len o by (simp add: p_def)
    have "drop a (take (min b (b - k)) w) @ drop (b - k) (take b w) = drop a (take b w)"
      by (rule drop_take_split) (use k(1) len o in auto)
    then have split: "unread css bi = rev (drop (length p - k) p) @ unread css (bi\<lparr>bi_end := b - k\<rparr>)"
      using bi(2) by (simp add: unread_def tail d(3-5)[symmetric] rev_append[symmetric] min_absorb2 del: rev_append)
    have outlen: "length (rev (drop (length p - k) p)) = k" using k(1) by simp
    have progress: "0 < k" if "0 < n" "unread css bi \<noteq> []"
    proof -
      have "a < b" using that(2) o bi(2) by (auto simp: unread_def d)
      then show ?thesis using that(1) o len by (auto simp: k_def)
    qed
    have sub: "checked_sub b k = Some (b - k)" using k(1) len by (simp add: checked_sub_def)
    show ?thesis
    proof (cases "k = length p")
      case full: True
      obtain c where c: "cursor_prev usize_dim (bi_chunks bi) = Some c"
          "if m = 0 then cursor_item c = Some None else cursor_at chunk_ops usize_dim (chunks r) (m - 1) c"
        using r(1) some(1) h by (rule rc_prev_rel)
      let ?bi = "bi\<lparr>bi_end := b - k, bi_chunks := c\<rparr>"
      have bk: "b - k = max a s" using full len o by auto
      have "reading r css ?bi"
      proof (cases m)
        case 0
        then show ?thesis using c(2) bk bi(2) o by (auto simp: reading_def d)
      next
        case (Suc j)
        have "seam css j < s" using seam_strict[OF r(2), of j] some(2) Suc by (simp add: d)
        then show ?thesis using c(2) bk bi(2) o ab(2) Suc some(2) by (auto simp: reading_def d max_def intro!: exI[of _ j])
      qed
      moreover have "bytes_read bi n = Some (?bi, rev (drop (length p - k) p))"
        using peek c(1) full bi(2) sub by (simp add: bytes_read_def Let_def k_def[symmetric] d(4)[symmetric])
      moreover have "unread css ?bi = unread css (bi\<lparr>bi_end := b - k\<rparr>)" by (simp add: unread_def)
      ultimately show ?thesis using split progress k(2) bi(2) outlen
        by (intro exI[of _ ?bi] exI[of _ "rev (drop (length p - k) p)"]) auto
    next
      case False
      let ?bi = "bi\<lparr>bi_end := b - k\<rparr>"
      have "max a s < b - k" using False k(1) len by auto
      then have "reading r css ?bi" using some(1,2,4) bi(2) ab(2) by (auto simp: reading_def d intro!: exI[of _ m])
      moreover have "bytes_read bi n = Some (?bi, rev (drop (length p - k) p))"
        using peek False bi(2) sub by (simp add: bytes_read_def Let_def k_def[symmetric] d(4)[symmetric])
      ultimately show ?thesis using split progress k(2) bi(2) outlen
        by (intro exI[of _ ?bi] exI[of _ "rev (drop (length p - k) p)"]) auto
    qed
  qed
qed

text \<open>Reading with a sequence of buffer sizes.\<close>

fun bytes_reads :: "bytes_iter \<Rightarrow> nat list \<Rightarrow> bytes option" where
  "bytes_reads bi [] = Some []"
| "bytes_reads bi (n # ns) = do { (bi', out) \<leftarrow> bytes_read bi n; rest \<leftarrow> bytes_reads bi' ns; Some (out @ rest) }"

lemma bytes_reads_prefix:
  assumes r: "rope_rep r css" "[] \<notin> set css" and h: "node_height (chunks r) < MAX_DEPTH"
  shows "reading r css bi \<Longrightarrow> \<exists>out rest. bytes_reads bi ns = Some out \<and> unread css bi = out @ rest \<and>
    (0 \<notin> set ns \<and> length (unread css bi) \<le> length ns \<longrightarrow> rest = [])"
proof (induction ns arbitrary: bi)
  case (Cons n ns)
  obtain bi' out where s: "bytes_read bi n = Some (bi', out)" "reading r css bi'" "unread css bi = out @ unread css bi'"
      "0 < n \<and> unread css bi \<noteq> [] \<longrightarrow> out \<noteq> []"
    using read_fwd_step[OF r h Cons.prems] read_bwd_step[OF r h Cons.prems] by (cases "bi_reversed bi") blast+
  obtain out' rest where IH: "bytes_reads bi' ns = Some out'" "unread css bi' = out' @ rest"
      "0 \<notin> set ns \<and> length (unread css bi') \<le> length ns \<longrightarrow> rest = []"
    using Cons.IH[OF s(2)] by blast
  have "length (unread css bi') \<le> length ns" if "0 < n" "length (unread css bi) \<le> Suc (length ns)"
    using s(3,4) that by (cases out) auto
  then show ?case using s IH by (intro exI[of _ "out @ out'"] exI[of _ rest]) auto
qed auto

lemma bytes_new_at:
  assumes r: "rope_rep r css" "[] \<notin> set css" and h: "node_height (chunks r) < MAX_DEPTH" and ab: "a \<le> b" "b \<le> bytes_of (concat css)"
  obtains bi m where "bytes_new r a b rv = Some bi" "cursor_at chunk_ops usize_dim (chunks r) m (bi_chunks bi)"
    "bi_start bi = a" "bi_end bi = b" "bi_reversed bi = rv"
    "if rv then (m < length css \<or> b = 0) \<and> (seam css m < b \<or> b = 0) \<and> b \<le> seam css (Suc m)
     else seam css m \<le> a \<and> (m < length css \<longrightarrow> a < seam css (Suc m))"
proof -
  define n bs where n: "n = (if rv then b else a)" "bs = (if rv then Left else Right)"
  obtain m where m: "cut_at (byte_hit n bs) css m" by (rule byte_cut)
  have hit: "byte_hit x Left cs \<longleftrightarrow> x \<le> bytes_of cs" "byte_hit x Right cs \<longleftrightarrow> x < bytes_of cs" for x cs
    by (auto simp: target_in_def cmp_def)
  have "c_tree (cursor_new usize_dim (chunks r)) = chunks r" "cmp n (bytes_of []) \<noteq> Less" by (simp_all add: cursor_new_def cmp_def)
  then obtain c f where c: "cursor_seek usize_dim (cmp n) bs (cursor_new usize_dim (chunks r)) = Some (c, f)"
      "cursor_at chunk_ops usize_dim (chunks r) m c"
    using usize_m.seek_at[OF r(1) _ _ _ h] m unfolding cut_at_def by blast
  have pred: "\<not> byte_hit n bs (concat (take m css))" if "0 < m"
    using m that by (cases m) (auto simp: cut_at_def)
  have at: "byte_hit n bs (concat (take (Suc m) css))" if "m < length css" using m that by (simp add: cut_at_def)
  have ml: "m \<le> length css" using m by (simp add: cut_at_def)
  have pos: "if rv then (m < length css \<or> b = 0) \<and> (seam css m < b \<or> b = 0) \<and> b \<le> seam css (Suc m)
     else seam css m \<le> a \<and> (m < length css \<longrightarrow> a < seam css (Suc m))"
  proof (cases rv)
    case True
    have "m < length css \<or> b = 0"
    proof (rule ccontr)
      assume "\<not> (m < length css \<or> b = 0)"
      then have "m = length css" "0 < b" "0 < m" using ml ab(2) by (auto simp: neq0_conv[symmetric] simp del: neq0_conv)
      then show False using pred ab(2) seam_total(2)[of css m] True by (simp add: n hit)
    qed
    moreover have "seam css m < b \<or> b = 0" using pred True by (cases "m = 0") (auto simp: n hit)
    moreover have "b \<le> seam css (Suc m)"
      using at True ab(2) seam_total(2)[of css "Suc m"] ml by (cases "m < length css") (auto simp: n hit)
    ultimately show ?thesis using True by simp
  next
    case False
    then show ?thesis using pred at by (cases "m = 0") (auto simp: n hit)
  qed
  show thesis
    by (rule that[of "\<lparr>bi_chunks = c, bi_start = a, bi_end = b, bi_reversed = rv\<rparr>" m])
       (use c pos in \<open>auto simp: bytes_new_def n split: if_splits\<close>)
qed

text \<open>
  C15: The bytes of a range. For arbitrary byte offsets, also inside characters, the slices that \<open>Bytes\<close> yields make up
  exactly the bytes of the range, and the reversed iterator yields them from the back. As an \<open>io::Read\<close> it never
  panics and delivers the bytes of the range in order (reversed for a reversed iterator), whatever the sizes of the
  buffers, and as many reads into non-empty buffers as there are bytes deliver all of them.
\<close>

theorem rope_bytes_text:
  assumes "rope_text r cs" "node_height (chunks r) < MAX_DEPTH" "a \<le> b" "b \<le> length (str_of cs)"
  defines "bs \<equiv> drop a (take b (str_of cs))"
  shows "(\<exists>ps. do { bi \<leftarrow> bytes_in_range r a b; bytes_collect bi } = Some ps \<and> concat ps = bs) \<and>
    (\<exists>ps. do { bi \<leftarrow> reversed_bytes_in_range r a b; bytes_collect bi } = Some ps \<and> concat (rev ps) = bs) \<and>
    (\<exists>out rest. do { bi \<leftarrow> bytes_new r a b rv; bytes_reads bi ns } = Some out \<and> (if rv then rev bs else bs) = out @ rest \<and>
      (0 \<notin> set ns \<and> b - a \<le> length ns \<longrightarrow> rest = []))"
proof (intro conjI)
  obtain css where r: "rope_rep r css" "[] \<notin> set css" "concat css = cs" using assms(1) by (rule rope_textE)
  have ab: "a \<le> b" "b \<le> bytes_of (concat css)" using assms(3,4) r(3) by simp_all
  note new = bytes_new_at[OF r(1,2) assms(2) ab]
  obtain bi m where f: "bytes_new r a b False = Some bi" "cursor_at chunk_ops usize_dim (chunks r) m (bi_chunks bi)" "bi_start bi = a"
      "bi_end bi = b" "\<not> bi_reversed bi" "seam css m \<le> a" "m < length css \<longrightarrow> a < seam css (Suc m)"
    by (rule new[of False]) (auto intro: that)
  then have "\<exists>ps. bytes_collect bi = Some ps \<and> concat ps = drop (max a (seam css m)) (take b (whole css))"
    using bytes_collect_fwd[OF r(1,2) assms(2) f(2,5)] ab(1) by simp
  then show "\<exists>ps. do { bi \<leftarrow> bytes_in_range r a b; bytes_collect bi } = Some ps \<and> concat ps = bs"
    using f(1,6) r(3) by (simp add: bs_def max_absorb1 bytes_in_range_def)
  obtain bj k where g: "bytes_new r a b True = Some bj" "cursor_at chunk_ops usize_dim (chunks r) k (bi_chunks bj)" "bi_start bj = a"
      "bi_end bj = b" "bi_reversed bj" "k < length css \<or> b = 0" "seam css k < b \<or> b = 0" "b \<le> seam css (Suc k)"
    by (rule new[of True]) (auto intro: that)
  then have "\<exists>ps. bytes_collect bj = Some ps \<and> concat (rev ps) = drop a (take (min b (seam css (Suc k))) (whole css))"
    using bytes_collect_bwd[OF r(1,2) assms(2) g(2,5)] ab(1) by simp
  then show "\<exists>ps. do { bi \<leftarrow> reversed_bytes_in_range r a b; bytes_collect bi } = Some ps \<and> concat (rev ps) = bs"
    using g(1,8) r(3) by (simp add: bs_def min_absorb1 reversed_bytes_in_range_def)
  obtain bl where l: "bytes_new r a b rv = Some bl" "reading r css bl" "unread css bl = (if rv then rev bs else bs)"
  proof (cases rv)
    case True
    have "reading r css bj" using g(2-8) ab by (auto simp: reading_def)
    then show thesis using True g r(3) by (intro that[of bj]) (auto simp: unread_def bs_def)
  next
    case False
    have "reading r css bi" using f(2-7) ab by (auto simp: reading_def)
    then show thesis using False f r(3) by (intro that[of bi]) (auto simp: unread_def bs_def)
  qed
  have "length bs = b - a" using assms(4) by (simp add: bs_def)
  then show "\<exists>out rest. do { bi \<leftarrow> bytes_new r a b rv; bytes_reads bi ns } = Some out \<and> (if rv then rev bs else bs) = out @ rest \<and>
      (0 \<notin> set ns \<and> b - a \<le> length ns \<longrightarrow> rest = [])"
    using bytes_reads_prefix[OF r(1,2) assms(2) l(2), of ns] l(1,3) by (cases rv) auto
qed

lemma rope_bytes_text_witness:
  "\<exists>r out. rope_from (str_of [0x61, 0x62, 10]) = Some r \<and> do { bi \<leftarrow> bytes_new r 1 3 True; bytes_reads bi [1, 5] } = Some [10, 0x62]"
proof -
  let ?cs = "[0x61, 0x62, 10] :: scalar list"
  have s: "\<forall>c\<in>set ?cs. is_scalar c" "?cs \<noteq> []" "bytes_of ?cs \<le> MAX_BASE" "str_of ?cs = [0x61, 0x62, 10]" "3 \<le> length (str_of ?cs)"
    by (simp_all add: is_scalar_def len_utf8_def MAX_BASE_def encode_utf8_def)
  obtain r where r: "rope_from (str_of ?cs) = Some r" "rope_rep r [?cs]" "node_height (chunks r) = 0" using s(1-3) by (rule rope_from_small)
  have t: "rope_text r ?cs" using rope_textI[OF r(2)] by simp
  have h: "node_height (chunks r) < MAX_DEPTH" using r(3) by (simp add: MAX_DEPTH_def)
  obtain out rest where "do { bi \<leftarrow> bytes_new r 1 3 True; bytes_reads bi [1, 5] } = Some out"
      "rev (drop 1 (take 3 (str_of ?cs))) = out @ rest" "rest = []"
    using rope_bytes_text[OF t h _ s(5), of 1 True "[1, 5]"] by auto
  then show ?thesis using r(1) unfolding s(4) by auto
qed

text \<open>
  Mixing the two interfaces is another matter: \<open>Iterator::next\<close> moves the cursor but leaves the start of the range where
  it was, so a read that follows advances a start that lies before the current chunk, and the next read delivers the
  same bytes again.
\<close>

lemma read_after_next_repeats:
  assumes r: "rope_rep r [x, y]" "x \<noteq> []" "y \<noteq> []" and h: "node_height (chunks r) < MAX_DEPTH"
    and n: "n \<le> length (str_of x)" "n < length (str_of y)"
  shows "\<exists>bi bi1 bi2 bi3. bytes_new r 0 (length (str_of (x @ y))) False = Some bi \<and> bytes_next bi = Some (bi1, Some (str_of x)) \<and>
    bytes_read bi1 n = Some (bi2, take n (str_of y)) \<and> bytes_read bi2 n = Some (bi3, take n (str_of y))"
proof -
  let ?css = "[x, y]" and ?b = "bytes_of (x @ y)"
  have ne: "[] \<notin> set ?css" using r(2,3) by auto
  have pos: "0 < bytes_of x" "0 < bytes_of y" using r(2,3) by (simp_all add: str_of_eq_Nil)
  obtain bi m where bi: "bytes_new r 0 ?b False = Some bi" "cursor_at chunk_ops usize_dim (chunks r) m (bi_chunks bi)" "bi_start bi = 0"
      "bi_end bi = ?b" "\<not> bi_reversed bi" "seam ?css m \<le> 0"
    by (rule bytes_new_at[OF r(1) ne h, of 0 ?b False]) (auto intro: that)
  have m: "m = 0" using bi(6) r(2) by (cases m) (auto simp: str_of_eq_Nil)
  have "bytes_peek bi = Some (Some (str_of x))"
    using bytes_peek_at[OF r(1) bi(2)] bi(3,4) m pos by (simp add: min_absorb2)
  moreover obtain c where c: "cursor_next usize_dim (bi_chunks bi) = Some c" "cursor_at chunk_ops usize_dim (chunks r) (Suc 0) c"
    using rc_next_at[OF r(1) bi(2) _ h] m by auto
  ultimately have next1: "bytes_next bi = Some (bi\<lparr>bi_chunks := c\<rparr>, Some (str_of x))" using bi(5) by (simp add: bytes_next_def)
  have peek: "bytes_peek (bi\<lparr>bi_start := k, bi_chunks := c\<rparr>) = Some (Some (str_of y))" if "k \<le> bytes_of x" for k
    using bytes_peek_at[OF r(1), of "Suc 0" "bi\<lparr>bi_start := k, bi_chunks := c\<rparr>"] c(2) bi(4) that pos by (simp add: max_absorb2)
  have read: "bytes_read (bi\<lparr>bi_start := k, bi_chunks := c\<rparr>) n = Some (bi\<lparr>bi_start := k + n, bi_chunks := c\<rparr>, take n (str_of y))"
    if "k \<le> bytes_of x" for k
    using peek[OF that] n(2) bi(5) by (simp add: bytes_read_def Let_def min_absorb1)
  have "bi\<lparr>bi_chunks := c\<rparr> = bi\<lparr>bi_start := 0, bi_chunks := c\<rparr>" using bi(3) by simp
  then show ?thesis using bi(1) next1 read[of 0] read[of n] n(1)
    by (intro exI[of _ bi] exI[of _ "bi\<lparr>bi_start := 0, bi_chunks := c\<rparr>"] exI[of _ "bi\<lparr>bi_start := n, bi_chunks := c\<rparr>"]
        exI[of _ "bi\<lparr>bi_start := n + n, bi_chunks := c\<rparr>"]) simp
qed

end
