(* ===== verification/OperationQueue.thy ===== *)
theory OperationQueue
  imports UndoMap_Correct TreeMap
begin

section \<open>Deferred operations (crates/text/src/operation_queue.rs)\<close>

text \<open>
  Operations that cannot be applied yet wait in a sum tree sorted by their Lamport timestamps; the timestamp of an
  operation is a parameter. The code asserts that summaries are added in the order of their keys, and panics otherwise;
  the addition here is total, so the model says what a queue is after a call that returns. The invariant below says
  that the keys of a queue ascend and lie above the smallest timestamp. Of operations with the same timestamp the code
  keeps any one, the model the first; nothing below depends on which.
\<close>

record operation_summary =
  os_key :: lamport
  os_len :: nat

type_synonym 'a operation_queue = "('a, operation_summary) sum_tree"

definition operation_summary_add :: "operation_summary \<Rightarrow> operation_summary \<Rightarrow> operation_summary" where
  "operation_summary_add self other = \<lparr>os_key = os_key other, os_len = os_len self + os_len other\<rparr>"

definition queue_ops :: "('a \<Rightarrow> lamport) \<Rightarrow> ('a, operation_summary) item_ops" where
  "queue_ops ts = \<lparr>item_summary = (\<lambda>op. \<lparr>os_key = ts op, os_len = 1\<rparr>), summary_zero = \<lparr>os_key = lamport_MIN, os_len = 0\<rparr>,
     add_summary = operation_summary_add\<rparr>"

definition queue_dim :: "(operation_summary, lamport) dim_ops" where
  "queue_dim = \<lparr>dim_zero = lamport_MIN, dim_add = (\<lambda>self summary. os_key summary)\<rparr>"

definition queue_new :: "('a \<Rightarrow> lamport) \<Rightarrow> 'a operation_queue" where
  "queue_new ts = st_new (queue_ops ts)"

definition queue_len :: "'a operation_queue \<Rightarrow> nat" where
  "queue_len q = os_len (node_summary q)"

definition queue_is_empty :: "'a operation_queue \<Rightarrow> bool" where
  "queue_is_empty q \<longleftrightarrow> queue_len q = 0"

text \<open>\<open>Vec::dedup_by_key\<close> keeps the first of consecutive elements with the same key.\<close>

fun dedup_by_key :: "('a \<Rightarrow> 'k) \<Rightarrow> 'a list \<Rightarrow> 'a list" where
  "dedup_by_key key (x # y # xs) = (if key x = key y then dedup_by_key key (x # xs) else x # dedup_by_key key (y # xs))"
| "dedup_by_key key xs = xs"

definition queue_insert :: "('a \<Rightarrow> lamport) \<Rightarrow> 'a operation_queue \<Rightarrow> 'a list \<Rightarrow> 'a operation_queue option" where
  "queue_insert ts q ops =
     do { (q', _) \<leftarrow> keyed_edit (queue_ops ts) queue_dim ts q (map Insert (dedup_by_key ts (sort_key ts ops))); Some q' }"

definition queue_drain :: "('a \<Rightarrow> lamport) \<Rightarrow> 'a operation_queue \<Rightarrow> 'a operation_queue \<times> 'a operation_queue" where
  "queue_drain ts q = (queue_new ts, q)"

definition queue_iter :: "'a operation_queue \<Rightarrow> 'a list option" where
  "queue_iter q = iter_collect (iter_new q)"

subsection \<open>The queue as a set of operations\<close>

text \<open>The cached summary of any well-formed tree, and inserting items with distinct keys into any keyed tree.\<close>

context sum_laws
begin

lemma wf_summary:
  assumes "st_wf D V t"
  shows "node_summary t = sum_summaries D (map (item_summary D) (to_list t))"
proof (cases "to_list t = []")
  case True
  with assms show ?thesis by (cases t) (auto simp: neq_Nil_conv)
qed (use assms good_summary[of "node_height t" t] in \<open>simp add: st_good_def\<close>)

end

context keyed
begin

lemma keyed_inserts:
  assumes wf: "st_wf D V root" "node_height root < MAX_DEPTH" and s: "keys_sorted key (to_list root)"
    and es: "distinct (map key es)" "\<forall>e\<in>set es. V (item_summary D e)"
  obtains t removed where "keyed_edit D M key root (map Insert es) = Some (t, removed)" "st_wf D V t" "keys_sorted key (to_list t)"
    "set (to_list t) = set es \<union> {y \<in> set (to_list root). key y \<notin> key ` set es}"
proof -
  have keys: "map (edit_key key) (map Insert es) = map key es" by (simp add: edit_key_def)
  obtain t where t: "keyed_edit D M key root (map Insert es) =
      Some (t, filter (\<lambda>y. key y \<in> edit_key key ` set (map Insert es)) (to_list root))" "st_wf D V t"
      "to_list t = foldl (\<lambda>xs e. ks_edit key e xs) (to_list root) (sort_key (edit_key key) (map Insert es))"
    by (rule keyed_edit_seq[OF wf s, of "map Insert es"]) (use es zero_le_key in \<open>auto simp: edit_key_def distinct_map inj_on_def\<close>)
  have "distinct (map key (sort_key key es))" using es(1) by (simp add: distinct_map)
  from ks_inserts_set[OF s this] t show thesis by (intro that[of t]) (simp_all add: sort_Inserts)
qed

end

definition queue_wf :: "('a \<Rightarrow> lamport) \<Rightarrow> 'a operation_queue \<Rightarrow> bool" where
  "queue_wf ts q \<longleftrightarrow> st_wf (queue_ops ts) (\<lambda>_. True) q \<and> keys_sorted ts (to_list q) \<and> (\<forall>x\<in>set (to_list q). lamport_MIN < ts x)"

interpretation oq: keyed "queue_ops ts" "\<lambda>_. True" queue_dim ts for ts :: "'a \<Rightarrow> lamport"
  by unfold_locales (simp_all add: queue_ops_def queue_dim_def operation_summary_add_def lamport_MIN_le)

lemma queue_wf_new: "queue_wf ts (queue_new ts)" "to_list (queue_new ts) = []"
  by (simp_all add: queue_wf_def queue_new_def)

lemma dedup_by_key_sorted:
  assumes "sorted (map key xs)"
  shows "keys_sorted key (dedup_by_key key xs) \<and> key ` set (dedup_by_key key xs) = key ` set xs \<and> set (dedup_by_key key xs) \<subseteq> set xs \<and>
    (xs \<noteq> [] \<longrightarrow> dedup_by_key key xs \<noteq> [] \<and> hd (dedup_by_key key xs) = hd xs)"
  using assms
proof (induction key xs rule: dedup_by_key.induct)
  case (1 key x y xs)
  show ?case
  proof (cases "key x = key y")
    case True
    then show ?thesis using 1 by auto
  next
    case False
    then have "keys_sorted key (dedup_by_key key (y # xs))" "key ` set (dedup_by_key key (y # xs)) = key ` set (y # xs)"
      "set (dedup_by_key key (y # xs)) \<subseteq> set (y # xs)" using 1 by auto
    moreover have "key x < key z" if "z \<in> set (y # xs)" for z
    proof -
      have "key x < key y" using 1(3) False by (simp add: less_le)
      moreover have "key y \<le> key z" using 1(3) that by auto
      ultimately show ?thesis by simp
    qed
    ultimately show ?thesis using False by (auto simp: keys_sorted_Cons)
  qed
qed (auto simp: keys_sorted_def)

lemma queue_len_length:
  assumes "queue_wf ts q"
  shows "queue_len q = length (to_list q)"
proof -
  have sum: "os_len (foldl operation_summary_add s (map (\<lambda>op. \<lparr>os_key = ts op, os_len = 1\<rparr>) xs)) = os_len s + length xs" for s xs
    by (induction xs arbitrary: s) (auto simp: operation_summary_add_def)
  have "node_summary q = sum_summaries (queue_ops ts) (map (item_summary (queue_ops ts)) (to_list q))"
    using assms oq.wf_summary[of ts q] by (simp add: queue_wf_def)
  then show ?thesis using sum[of "\<lparr>os_key = lamport_MIN, os_len = 0\<rparr>"] by (simp add: queue_len_def sum_summaries_def queue_ops_def)
qed

lemma queue_insert_seq:
  assumes "queue_wf ts q" "node_height q < MAX_DEPTH" "\<forall>op\<in>set ops. lamport_MIN < ts op"
  obtains q' where "queue_insert ts q ops = Some q'" "queue_wf ts q'"
    "ts ` set (to_list q') = ts ` set (to_list q) \<union> ts ` set ops"
    "set (to_list q') \<subseteq> set ops \<union> {x \<in> set (to_list q). ts x \<notin> ts ` set ops}"
proof -
  have wf: "st_wf (queue_ops ts) (\<lambda>_. True) q" "keys_sorted ts (to_list q)" "\<forall>x\<in>set (to_list q). lamport_MIN < ts x"
    using assms(1) by (auto simp: queue_wf_def)
  let ?es = "dedup_by_key ts (sort_key ts ops)"
  have es: "keys_sorted ts ?es" "ts ` set ?es = ts ` set ops" "set ?es \<subseteq> set ops"
    using dedup_by_key_sorted[of ts "sort_key ts ops"] by simp_all
  have "distinct (map ts ?es)" using es(1) by (simp add: keys_sorted_def strict_sorted_iff)
  then obtain q' removed where q': "keyed_edit (queue_ops ts) queue_dim ts q (map Insert ?es) = Some (q', removed)"
      "st_wf (queue_ops ts) (\<lambda>_. True) q'" "keys_sorted ts (to_list q')"
      "set (to_list q') = set ?es \<union> {y \<in> set (to_list q). ts y \<notin> ts ` set ?es}"
    by (rule oq.keyed_inserts[OF wf(1) assms(2) wf(2)]) (simp, blast)
  show thesis
  proof (rule that[of q'])
    show "queue_insert ts q ops = Some q'" using q'(1) by (simp add: queue_insert_def)
    show "queue_wf ts q'" using q' wf(3) es(3) assms(3) by (auto simp: queue_wf_def)
  qed (use q'(4) es(2,3) in auto)
qed

lemma queue_iter_seq: "queue_wf ts q \<Longrightarrow> node_height q < MAX_DEPTH \<Longrightarrow> queue_iter q = Some (to_list q)"
  using oq.iter_collect_new[of ts q] by (simp add: queue_iter_def queue_wf_def)

end
