(* ===== verification/Fragment.thy ===== *)
theory Fragment
  imports Locator UndoMap TreeMap Rope
begin

section \<open>Fragments (crates/text/src/text.rs)\<close>

text \<open>
  A buffer is a sequence of fragments, each a run of text that came from one insertion and is visible or deleted as a
  whole. Fragments are ordered by their locators. Their summaries count visible and deleted bytes and bound the
  versions of the operations that made them. The lengths and offsets of type \<open>u32\<close> are natural numbers; the
  two places where an offset grows beyond the length of a fragment check for overflow.
\<close>

definition MAX_INSERTION_LEN :: nat where
  "MAX_INSERTION_LEN = 2 ^ 32 - 1"

record fragment =
  fr_id :: locator
  fr_timestamp :: lamport
  insertion_offset :: nat
  fr_len :: nat
  fr_visible :: bool
  deletions :: "lamport list"
  max_undos :: global

record fragment_text =
  ft_visible :: nat
  ft_deleted :: nat

record fragment_summary =
  fs_text :: fragment_text
  max_id :: locator
  max_version :: global
  min_insertion_version :: global
  max_insertion_version :: global

definition fragment_text_default :: fragment_text where
  "fragment_text_default = \<lparr>ft_visible = 0, ft_deleted = 0\<rparr>"

definition fragment_summary_default :: fragment_summary where
  "fragment_summary_default =
     \<lparr>fs_text = fragment_text_default, max_id = locator_min, max_version = global_new,
      min_insertion_version = global_new, max_insertion_version = global_new\<rparr>"

definition fragment_summary_of :: "fragment \<Rightarrow> fragment_summary" where
  "fragment_summary_of f =
     (let deleted_version = foldl global_observe (global_observe global_new (fr_timestamp f)) (deletions f);
          insertion_version = global_observe global_new (fr_timestamp f)
      in \<lparr>fs_text = (if fr_visible f then \<lparr>ft_visible = fr_len f, ft_deleted = 0\<rparr> else \<lparr>ft_visible = 0, ft_deleted = fr_len f\<rparr>),
          max_id = fr_id f, max_version = global_join deleted_version (max_undos f),
          min_insertion_version = insertion_version, max_insertion_version = insertion_version\<rparr>)"

definition fragment_text_add :: "fragment_text \<Rightarrow> fragment_text \<Rightarrow> fragment_text" where
  "fragment_text_add a b = \<lparr>ft_visible = ft_visible a + ft_visible b, ft_deleted = ft_deleted a + ft_deleted b\<rparr>"

definition fragment_summary_add :: "fragment_summary \<Rightarrow> fragment_summary \<Rightarrow> fragment_summary" where
  "fragment_summary_add self other =
     \<lparr>fs_text = fragment_text_add (fs_text self) (fs_text other), max_id = locator_assign (max_id self) (max_id other),
      max_version = global_join (max_version self) (max_version other),
      min_insertion_version = global_meet (min_insertion_version self) (min_insertion_version other),
      max_insertion_version = global_join (max_insertion_version self) (max_insertion_version other)\<rparr>"

definition fragment_ops :: "(fragment, fragment_summary) item_ops" where
  "fragment_ops = \<lparr>item_summary = fragment_summary_of, summary_zero = fragment_summary_default, add_summary = fragment_summary_add\<rparr>"

subsection \<open>Visibility\<close>

text \<open>\<open>Iterator::all\<close> stops at the first element for which the predicate does not hold.\<close>

fun all_of :: "('a \<Rightarrow> bool option) \<Rightarrow> 'a list \<Rightarrow> bool option" where
  "all_of p [] = Some True"
| "all_of p (x # xs) = do { b \<leftarrow> p x; if b then all_of p xs else Some False }"

definition fragment_is_visible :: "fragment \<Rightarrow> undo_map \<Rightarrow> bool option" where
  "fragment_is_visible f undos =
     do { undone \<leftarrow> is_undone undos (fr_timestamp f);
          if undone then Some False else all_of (is_undone undos) (deletions f) }"

definition fragment_was_visible :: "fragment \<Rightarrow> global \<Rightarrow> undo_map \<Rightarrow> bool option" where
  "fragment_was_visible f version undos =
     (if \<not> global_observed version (fr_timestamp f) then Some False
      else do { undone \<leftarrow> was_undone undos (fr_timestamp f) version;
                if undone then Some False
                else all_of (\<lambda>d. if \<not> global_observed version d then Some True else was_undone undos d version) (deletions f) })"

subsection \<open>Dimensions\<close>

definition frag_text_dim :: "(fragment_summary, fragment_text) dim_ops" where
  "frag_text_dim = \<lparr>dim_zero = fragment_text_default, dim_add = (\<lambda>d s. fragment_text_add d (fs_text s))\<rparr>"

definition frag_visible_dim :: "(fragment_summary, nat) dim_ops" where
  "frag_visible_dim = \<lparr>dim_zero = 0, dim_add = (\<lambda>d s. d + ft_visible (fs_text s))\<rparr>"

definition full_offset_dim :: "(fragment_summary, nat) dim_ops" where
  "full_offset_dim = \<lparr>dim_zero = 0, dim_add = (\<lambda>d s. d + (ft_visible (fs_text s) + ft_deleted (fs_text s)))\<rparr>"

definition frag_id_dim :: "(fragment_summary, locator option) dim_ops" where
  "frag_id_dim = \<lparr>dim_zero = None, dim_add = (\<lambda>d s. Some (max_id s))\<rparr>"

text \<open>A visible offset as a target in the dimension of both lengths.\<close>

definition visible_target :: "nat \<Rightarrow> fragment_text \<Rightarrow> ordering" where
  "visible_target offset cursor_location = cmp offset (ft_visible cursor_location)"

datatype versioned_full_offset = Offset nat | Invalid

text \<open>The panic of \<open>full_offset\<close> on an invalid position is \<open>None\<close>.\<close>

fun full_offset :: "versioned_full_offset \<Rightarrow> nat option" where
  "full_offset (Offset position) = Some position"
| "full_offset Invalid = None"

fun versioned_add :: "global \<Rightarrow> versioned_full_offset \<Rightarrow> fragment_summary \<Rightarrow> versioned_full_offset" where
  "versioned_add version (Offset offset) s =
     (if global_observed_all version (max_insertion_version s)
      then Offset (offset + (ft_visible (fs_text s) + ft_deleted (fs_text s)))
      else if global_observed_any version (min_insertion_version s) then Invalid
      else Offset offset)"
| "versioned_add version Invalid s = Invalid"

definition versioned_dim :: "global \<Rightarrow> (fragment_summary, versioned_full_offset) dim_ops" where
  "versioned_dim version = \<lparr>dim_zero = Offset 0, dim_add = versioned_add version\<rparr>"

text \<open>The target is always an offset.\<close>

fun versioned_target :: "nat \<Rightarrow> versioned_full_offset \<Rightarrow> ordering" where
  "versioned_target a (Offset b) = cmp a b"
| "versioned_target a Invalid = Less"

subsection \<open>Where the fragments of an insertion are\<close>

datatype insertion_fragment_key = InsertionFragmentKey (ik_timestamp: lamport) (ik_split_offset: nat)

instantiation insertion_fragment_key :: linorder
begin

definition less_insertion_fragment_key :: "insertion_fragment_key \<Rightarrow> insertion_fragment_key \<Rightarrow> bool" where
  "less_insertion_fragment_key a b \<longleftrightarrow>
     ik_timestamp a < ik_timestamp b \<or> ik_timestamp a = ik_timestamp b \<and> ik_split_offset a < ik_split_offset b"

definition less_eq_insertion_fragment_key :: "insertion_fragment_key \<Rightarrow> insertion_fragment_key \<Rightarrow> bool" where
  "less_eq_insertion_fragment_key a b \<longleftrightarrow>
     ik_timestamp a < ik_timestamp b \<or> ik_timestamp a = ik_timestamp b \<and> ik_split_offset a \<le> ik_split_offset b"

instance
  by standard (auto simp: less_insertion_fragment_key_def less_eq_insertion_fragment_key_def insertion_fragment_key.expand)

end

record insertion_fragment =
  if_timestamp :: lamport
  if_split_offset :: nat
  if_fragment_id :: locator

definition insertion_key :: "insertion_fragment \<Rightarrow> insertion_fragment_key" where
  "insertion_key i = InsertionFragmentKey (if_timestamp i) (if_split_offset i)"

definition insertion_key_zero :: insertion_fragment_key where
  "insertion_key_zero = InsertionFragmentKey lamport_MIN 0"

definition insertion_ops :: "(insertion_fragment, insertion_fragment_key) item_ops" where
  "insertion_ops = \<lparr>item_summary = insertion_key, summary_zero = insertion_key_zero, add_summary = (\<lambda>self summary. summary)\<rparr>"

definition insertion_dim :: "(insertion_fragment_key, insertion_fragment_key) dim_ops" where
  "insertion_dim = \<lparr>dim_zero = insertion_key_zero, dim_add = (\<lambda>self summary. summary)\<rparr>"

definition insertion_fragment_new :: "fragment \<Rightarrow> insertion_fragment" where
  "insertion_fragment_new f =
     \<lparr>if_timestamp = fr_timestamp f, if_split_offset = insertion_offset f, if_fragment_id = fr_id f\<rparr>"

definition insert_new :: "fragment \<Rightarrow> (insertion_fragment, insertion_fragment_key) tree_edit" where
  "insert_new f = Insert (insertion_fragment_new f)"

subsection \<open>Which parts of insertions an edit has touched\<close>

datatype insertion_slice =
  InsertionSlice (slice_edit_id: lamport) (slice_insertion_id: lamport) (slice_start: nat) (slice_end: nat)

instantiation insertion_slice :: linorder
begin

definition less_insertion_slice :: "insertion_slice \<Rightarrow> insertion_slice \<Rightarrow> bool" where
  "less_insertion_slice a b \<longleftrightarrow>
     slice_edit_id a < slice_edit_id b \<or> slice_edit_id a = slice_edit_id b \<and>
       (slice_insertion_id a < slice_insertion_id b \<or> slice_insertion_id a = slice_insertion_id b \<and>
         (slice_start a < slice_start b \<or> slice_start a = slice_start b \<and> slice_end a < slice_end b))"

definition less_eq_insertion_slice :: "insertion_slice \<Rightarrow> insertion_slice \<Rightarrow> bool" where
  "less_eq_insertion_slice a b \<longleftrightarrow> a < b \<or> a = (b :: insertion_slice)"

instance
  by standard (auto simp: less_insertion_slice_def less_eq_insertion_slice_def, metis insertion_slice.expand linorder_less_linear)

end

definition slice_from_fragment :: "lamport \<Rightarrow> fragment \<Rightarrow> insertion_slice" where
  "slice_from_fragment edit f =
     InsertionSlice edit (fr_timestamp f) (insertion_offset f) (insertion_offset f + fr_len f)"

end
