(* ===== verification/Buffer.thy ===== *)
theory Buffer
  imports Fragment Subscription History
begin

section \<open>Editing a buffer (crates/text/src/text.rs)\<close>

text \<open>
  A snapshot holds the visible and the deleted text as ropes, the tree of fragments, and the indexes that lead from
  insertions to fragments. An edit walks over the old fragments with a cursor and builds the new tree and the new
  ropes side by side.
\<close>

subsection \<open>Building ropes and fragment trees\<close>

record rope_builder =
  old_visible_cursor :: rope_cursor
  old_deleted_cursor :: rope_cursor
  new_visible :: rope
  new_deleted :: rope

definition rb_new :: "rope_cursor \<Rightarrow> rope_cursor \<Rightarrow> rope_builder" where
  "rb_new v d = \<lparr>old_visible_cursor = v, old_deleted_cursor = d, new_visible = rope_new, new_deleted = rope_new\<rparr>"

definition rb_take :: "nat \<Rightarrow> bool \<Rightarrow> rope_builder \<Rightarrow> (rope_builder \<times> rope) option" where
  "rb_take len was_visible b =
     (if was_visible then
        do { (v, text) \<leftarrow> rc_slice (old_visible_cursor b) (rc_offset (old_visible_cursor b) + len);
             Some (b\<lparr>old_visible_cursor := v\<rparr>, text) }
      else
        do { (d, text) \<leftarrow> rc_slice (old_deleted_cursor b) (rc_offset (old_deleted_cursor b) + len);
             Some (b\<lparr>old_deleted_cursor := d\<rparr>, text) })"

definition rb_push :: "nat \<Rightarrow> bool \<Rightarrow> bool \<Rightarrow> rope_builder \<Rightarrow> rope_builder option" where
  "rb_push len was_visible is_visible b =
     do { (b', text) \<leftarrow> rb_take len was_visible b;
          if is_visible then do { v \<leftarrow> rope_append (new_visible b') text; Some (b'\<lparr>new_visible := v\<rparr>) }
          else do { d \<leftarrow> rope_append (new_deleted b') text; Some (b'\<lparr>new_deleted := d\<rparr>) } }"

definition rb_append :: "fragment_text \<Rightarrow> rope_builder \<Rightarrow> rope_builder option" where
  "rb_append len b =
     do { b' \<leftarrow> rb_push (ft_visible len) True True b; rb_push (ft_deleted len) False False b' }"

definition rb_push_fragment :: "fragment \<Rightarrow> bool \<Rightarrow> rope_builder \<Rightarrow> rope_builder option" where
  "rb_push_fragment f was_visible b = rb_push (fr_len f) was_visible (fr_visible f) b"

definition rb_push_str :: "bytes \<Rightarrow> rope_builder \<Rightarrow> rope_builder option" where
  "rb_push_str text b = do { v \<leftarrow> rope_push (new_visible b) text; Some (b\<lparr>new_visible := v\<rparr>) }"

definition rb_finish :: "rope_builder \<Rightarrow> (rope \<times> rope) option" where
  "rb_finish b =
     do { vs \<leftarrow> rc_suffix (old_visible_cursor b);
          v \<leftarrow> rope_append (new_visible b) vs;
          ds \<leftarrow> rc_suffix (old_deleted_cursor b);
          d \<leftarrow> rope_append (new_deleted b) ds;
          Some (v, d) }"

type_synonym fragment_tree = "(fragment, fragment_summary) sum_tree"

datatype fragment_chunk = Tree fragment_tree | Loose "fragment list"

record fragment_builder =
  fb_chunks :: "fragment_chunk list"
  fb_summary :: fragment_summary

definition fb_new :: "fragment_tree \<Rightarrow> fragment_builder" where
  "fb_new init = \<lparr>fb_chunks = (if st_is_empty init then [] else [Tree init]), fb_summary = node_summary init\<rparr>"

definition fb_append :: "fragment_tree \<Rightarrow> fragment_builder \<Rightarrow> fragment_builder" where
  "fb_append items b =
     (if st_is_empty items then b
      else b\<lparr>fb_summary := fragment_summary_add (fb_summary b) (node_summary items), fb_chunks := fb_chunks b @ [Tree items]\<rparr>)"

definition fb_push :: "fragment \<Rightarrow> fragment_builder \<Rightarrow> fragment_builder" where
  "fb_push f b =
     b\<lparr>fb_summary := fragment_summary_add (fb_summary b) (fragment_summary_of f),
       fb_chunks := (case vec_last (fb_chunks b) of
                       Some (Loose fs) \<Rightarrow> butlast (fb_chunks b) @ [Loose (fs @ [f])]
                     | _ \<Rightarrow> fb_chunks b @ [Loose [f]])\<rparr>"

fun fb_chunk_tree :: "fragment_chunk \<Rightarrow> fragment_tree" where
  "fb_chunk_tree (Tree subtree) = subtree"
| "fb_chunk_tree (Loose fs) = (if length fs > 1024 then st_from_par_iter fragment_ops fs else st_from_iter fragment_ops fs)"

fun fb_build :: "fragment_chunk list \<Rightarrow> fragment_tree \<Rightarrow> fragment_tree option" where
  "fb_build [] tree = Some tree"
| "fb_build (c # cs) tree = do { tree' \<leftarrow> st_append fragment_ops tree (fb_chunk_tree c); fb_build cs tree' }"

definition to_sum_tree :: "fragment_builder \<Rightarrow> fragment_tree option" where
  "to_sum_tree b = fb_build (fb_chunks b) (st_new fragment_ops)"

subsection \<open>Snapshots\<close>

datatype line_ending = Unix | Windows

record snapshot =
  visible_text :: rope
  deleted_text :: rope
  fragments :: fragment_tree
  insertions :: "(insertion_fragment, insertion_fragment_key) sum_tree"
  insertion_slices :: "insertion_slice tree_set"
  undo_map :: undo_map
  version :: global
  remote_id :: nat
  snapshot_replica :: replica_id
  line_ending_of :: line_ending

text \<open>\<open>LineEnding::normalize\<close>: the replacement of \<open>\r\n\<close> and of single \<open>\r\<close> by \<open>\n\<close>.\<close>

fun normalize :: "bytes \<Rightarrow> bytes" where
  "normalize [] = []"
| "normalize [b] = [if b = 13 then 10 else b]"
| "normalize (b # c # bs) =
     (if b = 13 then (if c = 10 then 10 # normalize bs else 10 # normalize (c # bs)) else b # normalize (c # bs))"

subsection \<open>The state of an edit\<close>

text \<open>
  The local variables of \<open>apply_edit_internal\<close> and \<open>apply_remote_edit\<close>; the dimension of the cursor over the old
  fragments is a parameter.
\<close>

record 'd edit_state =
  es_old :: "(fragment, fragment_summary, 'd) cursor"
  es_fragments :: fragment_builder
  es_ropes :: rope_builder
  es_insertions :: "(insertion_fragment, insertion_fragment_key) tree_edit list"
  es_slices :: "insertion_slice list"
  es_insertion_offset :: nat
  es_start :: nat
  es_patch :: patch

text \<open>A part of a fragment, and what happens with every fragment that is rewritten.\<close>

definition cut_fragment :: "nat \<Rightarrow> nat \<Rightarrow> fragment \<Rightarrow> fragment" where
  "cut_fragment skip len f = f\<lparr>fr_len := len, insertion_offset := insertion_offset f + skip\<rparr>"

definition push_rewritten :: "fragment \<Rightarrow> bool \<Rightarrow> 'd edit_state \<Rightarrow> 'd edit_state option" where
  "push_rewritten f was_visible s =
     do { ropes \<leftarrow> rb_push_fragment f was_visible (es_ropes s);
          Some (s\<lparr>es_insertions := es_insertions s @ [insert_new f], es_ropes := ropes,
                  es_fragments := fb_push f (es_fragments s)\<rparr>) }"

definition summary_so_far :: "'d edit_state \<Rightarrow> fragment_summary" where
  "summary_so_far s = fb_summary (es_fragments s)"

text \<open>Adding to the \<open>u32\<close> offset in the insertion panics on overflow.\<close>

function insertion_loop ::
  "bytes \<Rightarrow> lamport \<Rightarrow> locator \<Rightarrow> lamport \<Rightarrow> nat \<Rightarrow> 'd edit_state \<Rightarrow> 'd edit_state option"
where
  "insertion_loop new_text timestamp next_fragment_id edit_stamp text_offset s =
     (if text_offset < length new_text then
        (let target_end = min (length new_text) (text_offset + MAX_INSERTION_LEN);
             chunk_end = (if target_end = length new_text then target_end else str_floor_char_boundary new_text target_end)
         in if chunk_end = text_offset then Some s
            else if chunk_end < text_offset \<or> es_insertion_offset s + (chunk_end - text_offset) \<ge> 2 ^ 32 then None
            else (let f = \<lparr>fr_id = between (max_id (summary_so_far s)) next_fragment_id, fr_timestamp = timestamp,
                           insertion_offset = es_insertion_offset s, fr_len = chunk_end - text_offset, fr_visible = True,
                           deletions = [], max_undos = global_new\<rparr>
                  in insertion_loop new_text timestamp next_fragment_id edit_stamp chunk_end
                       (s\<lparr>es_slices := es_slices s @ [slice_from_fragment edit_stamp f],
                          es_insertions := es_insertions s @ [insert_new f],
                          es_fragments := fb_push f (es_fragments s),
                          es_insertion_offset := es_insertion_offset s + (chunk_end - text_offset)\<rparr>)))
      else Some s)"
  by pat_completeness auto

termination insertion_loop
proof (relation "measure (\<lambda>(new_text, _, _, _, text_offset, _). length new_text - text_offset)", goal_cases)
  case (2 new_text timestamp next_fragment_id edit_stamp text_offset s target_end chunk_end)
  then have "text_offset < chunk_end" "text_offset < length new_text" by linarith+
  then show ?case by simp
qed simp

definition push_fragments_for_insertion ::
  "bytes \<Rightarrow> lamport \<Rightarrow> locator \<Rightarrow> lamport \<Rightarrow> 'd edit_state \<Rightarrow> 'd edit_state option" where
  "push_fragments_for_insertion new_text timestamp next_fragment_id edit_stamp s =
     do { s' \<leftarrow> insertion_loop new_text timestamp next_fragment_id edit_stamp 0 s;
          ropes \<leftarrow> rb_push_str new_text (es_ropes s');
          Some (s'\<lparr>es_ropes := ropes\<rparr>) }"

declare insertion_loop.simps [simp del]

text \<open>
  The steps that local and remote edits share. \<open>off\<close> reads the offset out of the cursor's dimension: visible bytes for a
  local edit, the offset in the version of the edit for a remote one.
\<close>

definition consume_rest ::
  "(fragment_summary, 'd) dim_ops \<Rightarrow> ('d \<Rightarrow> nat option) \<Rightarrow> 'd edit_state \<Rightarrow> 'd edit_state option" where
  "consume_rest M off s =
     do { cursor_pos \<leftarrow> off (cursor_start (es_old s));
          if es_start s > cursor_pos then
            do { e \<leftarrow> cursor_end M (es_old s);
                 fragment_end \<leftarrow> off e;
                 s1 \<leftarrow> (if fragment_end > es_start s then
                          do { item \<leftarrow> cursor_item (es_old s);
                               f \<leftarrow> item;
                               push_rewritten (cut_fragment (es_start s - cursor_pos) (fragment_end - es_start s) f) (fr_visible f) s }
                        else Some s);
                 c \<leftarrow> cursor_next M (es_old s1);
                 Some (s1\<lparr>es_old := c\<rparr>) }
          else Some s }"

definition skip_to ::
  "(fragment_summary, 'd) dim_ops \<Rightarrow> ('d \<Rightarrow> nat option) \<Rightarrow> ('d \<Rightarrow> ordering) \<Rightarrow> bias \<Rightarrow> 'd edit_state \<Rightarrow> 'd edit_state option" where
  "skip_to M off target b s =
     do { s1 \<leftarrow> consume_rest M off s;
          (c, slice) \<leftarrow> cursor_slice fragment_ops M target b (es_old s1);
          ropes \<leftarrow> rb_append (fs_text (node_summary slice)) (es_ropes s1);
          start \<leftarrow> off (cursor_start c);
          Some (s1\<lparr>es_old := c, es_ropes := ropes, es_fragments := fb_append slice (es_fragments s1), es_start := start\<rparr>) }"

definition push_prefix :: "('d \<Rightarrow> nat option) \<Rightarrow> nat \<Rightarrow> 'd edit_state \<Rightarrow> 'd edit_state option" where
  "push_prefix off lo s =
     (if es_start s < lo then
        do { item \<leftarrow> cursor_item (es_old s);
             f \<leftarrow> item;
             cursor_pos \<leftarrow> off (cursor_start (es_old s));
             skip \<leftarrow> checked_sub (es_start s) cursor_pos;
             s1 \<leftarrow> push_rewritten
                     ((cut_fragment skip (lo - es_start s) f)\<lparr>fr_id := between (max_id (summary_so_far s)) (fr_id f)\<rparr>)
                     (fr_visible f) s;
             Some (s1\<lparr>es_start := lo\<rparr>) }
      else Some s)"

definition next_fragment_id :: "'d edit_state \<Rightarrow> locator option" where
  "next_fragment_id s =
     do { item \<leftarrow> cursor_item (es_old s); Some (case item of None \<Rightarrow> locator_max | Some f \<Rightarrow> fr_id f) }"

definition finish_edit ::
  "(fragment_summary, 'd) dim_ops \<Rightarrow> ('d \<Rightarrow> nat option) \<Rightarrow> 'd edit_state \<Rightarrow> snapshot \<Rightarrow> snapshot option" where
  "finish_edit M off s snap =
     do { s1 \<leftarrow> consume_rest M off s;
          (_, suffix) \<leftarrow> cursor_suffix fragment_ops M (es_old s1);
          ropes \<leftarrow> rb_append (fs_text (node_summary suffix)) (es_ropes s1);
          (v, d) \<leftarrow> rb_finish ropes;
          tree \<leftarrow> to_sum_tree (fb_append suffix (es_fragments s1));
          (ins, _) \<leftarrow> keyed_edit insertion_ops insertion_dim insertion_key (insertions snap) (es_insertions s1);
          slices \<leftarrow> ts_extend (insertion_slices snap) (es_slices s1);
          Some (snap\<lparr>fragments := tree, insertions := ins, visible_text := v, deleted_text := d, insertion_slices := slices\<rparr>) }"

subsection \<open>Local edits\<close>

definition visible_off :: "fragment_text \<Rightarrow> nat option" where
  "visible_off d = Some (ft_visible d)"

partial_function (option) local_delete_loop ::
  "lamport \<Rightarrow> nat \<Rightarrow> fragment_text edit_state \<Rightarrow> fragment_text edit_state option" where
  "local_delete_loop timestamp hi s =
     (if es_start s < hi then
        do { item \<leftarrow> cursor_item (es_old s);
             f \<leftarrow> item;
             e \<leftarrow> cursor_end frag_text_dim (es_old s);
             let fragment_end = ft_visible e;
             let intersection_end = min hi fragment_end;
             g \<leftarrow> (if fr_visible f then
                     do { len \<leftarrow> checked_sub intersection_end (es_start s);
                          skip \<leftarrow> checked_sub (es_start s) (ft_visible (cursor_start (es_old s)));
                          Some ((cut_fragment skip len f)\<lparr>fr_id := between (max_id (summary_so_far s)) (fr_id f),
                                  deletions := deletions f @ [timestamp], fr_visible := False\<rparr>) }
                   else Some f);
             s1 \<leftarrow> (if fr_len g > 0 then
                      (let s' = (if fr_visible f \<and> \<not> fr_visible g then
                                   (let new_start = ft_visible (fs_text (summary_so_far s)) in
                                    s\<lparr>es_patch := patch_push (es_patch s) (edit_of (es_start s) intersection_end new_start new_start),
                                      es_slices := es_slices s @ [slice_from_fragment timestamp g]\<rparr>)
                                 else s)
                       in do { s'' \<leftarrow> push_rewritten g (fr_visible f) s'; Some (s''\<lparr>es_start := intersection_end\<rparr>) })
                    else Some s);
             c \<leftarrow> (if fragment_end \<le> hi then cursor_next frag_text_dim (es_old s1) else Some (es_old s1));
             local_delete_loop timestamp hi (s1\<lparr>es_old := c\<rparr>) }
      else Some s)"

declare local_delete_loop.simps [code]

definition local_insert :: "lamport \<Rightarrow> bytes \<Rightarrow> fragment_text edit_state \<Rightarrow> fragment_text edit_state option" where
  "local_insert timestamp new_text s =
     (if new_text = [] then Some s
      else do { let new_start = ft_visible (fs_text (summary_so_far s));
                next_id \<leftarrow> next_fragment_id s;
                s1 \<leftarrow> push_fragments_for_insertion new_text timestamp next_id timestamp s;
                Some (s1\<lparr>es_patch := patch_push (es_patch s1)
                           (edit_of (es_start s1) (es_start s1) new_start (new_start + length new_text))\<rparr>) })"

definition local_edit_step ::
  "lamport \<Rightarrow> nat \<times> nat \<times> bytes \<Rightarrow> fragment_text edit_state \<times> range list \<times> bytes list \<Rightarrow>
   (fragment_text edit_state \<times> range list \<times> bytes list) option"
where
  "local_edit_step timestamp edit state =
     (case (edit, state) of
        ((lo, hi, text0), (s, ranges, texts)) \<Rightarrow>
          do { let new_text = normalize text0;
               e \<leftarrow> cursor_end frag_text_dim (es_old s);
               s1 \<leftarrow> (if ft_visible e < lo
                      then skip_to frag_text_dim visible_off (visible_target lo) Right s else Some s);
               let full_lo = lo + ft_deleted (cursor_start (es_old s1));
               s2 \<leftarrow> push_prefix visible_off lo s1;
               s3 \<leftarrow> local_insert timestamp new_text s2;
               s4 \<leftarrow> local_delete_loop timestamp hi s3;
               let full_hi = hi + ft_deleted (cursor_start (es_old s4));
               Some (s4, ranges @ [range_of full_lo full_hi], texts @ [new_text]) })"

fun fold_m :: "('a \<Rightarrow> 's \<Rightarrow> 's option) \<Rightarrow> 'a list \<Rightarrow> 's \<Rightarrow> 's option" where
  "fold_m f [] s = Some s"
| "fold_m f (x # xs) s = do { s' \<leftarrow> f x s; fold_m f xs s' }"

definition start_edit ::
  "(fragment_summary, 'd) dim_ops \<Rightarrow> ('d \<Rightarrow> nat option) \<Rightarrow> ('d \<Rightarrow> ordering) \<Rightarrow> bias \<Rightarrow> snapshot \<Rightarrow> 'd edit_state option" where
  "start_edit M off target b snap =
     do { v \<leftarrow> rc_new (visible_text snap) 0;
          d \<leftarrow> rc_new (deleted_text snap) 0;
          (c, slice) \<leftarrow> cursor_slice fragment_ops M target b (cursor_new M (fragments snap));
          let fragments = fb_new slice;
          ropes \<leftarrow> rb_append (fs_text (fb_summary fragments)) (rb_new v d);
          start \<leftarrow> off (cursor_start c);
          Some \<lparr>es_old = c, es_fragments = fragments, es_ropes = ropes, es_insertions = [], es_slices = [],
                es_insertion_offset = 0, es_start = start, es_patch = patch_empty\<rparr> }"

definition apply_edit_internal ::
  "(nat \<times> nat \<times> bytes) list \<Rightarrow> lamport \<Rightarrow> snapshot \<Rightarrow> (snapshot \<times> edit_operation \<times> patch) option" where
  "apply_edit_internal edits timestamp snap =
     (let op = (\<lambda>ranges texts. \<lparr>edit_timestamp = timestamp, edit_version = version snap, edit_ranges = ranges, edit_new_text = texts\<rparr>) in
      case edits of
        [] \<Rightarrow> Some (snap, op [] [], patch_empty)
      | (lo, _) # _ \<Rightarrow>
          do { s0 \<leftarrow> start_edit frag_text_dim visible_off (visible_target lo) Right snap;
               (s, ranges, texts) \<leftarrow> fold_m (local_edit_step timestamp) edits (s0, [], []);
               snap' \<leftarrow> finish_edit frag_text_dim visible_off s snap;
               Some (snap', op ranges texts, es_patch s) })"

subsection \<open>Remote edits\<close>

type_synonym remote_pos = "versioned_full_offset \<times> nat"

definition remote_dim :: "global \<Rightarrow> (fragment_summary, remote_pos) dim_ops" where
  "remote_dim v = pair_dim (versioned_dim v) frag_visible_dim"

definition remote_off :: "remote_pos \<Rightarrow> nat option" where
  "remote_off d = full_offset (fst d)"

definition remote_target :: "nat \<Rightarrow> remote_pos \<Rightarrow> ordering" where
  "remote_target a = pair_target (versioned_target a)"

text \<open>At the end of a fragment that the edit's version has seen, advance to the next one.\<close>

definition pass_fragment_end :: "global \<Rightarrow> nat \<Rightarrow> remote_pos edit_state \<Rightarrow> remote_pos edit_state option" where
  "pass_fragment_end v lo s =
     do { e \<leftarrow> cursor_end (remote_dim v) (es_old s);
          fragment_end \<leftarrow> remote_off e;
          if fragment_end = lo \<and> fragment_end > es_start s then
            do { item \<leftarrow> cursor_item (es_old s);
                 f \<leftarrow> item;
                 cursor_pos \<leftarrow> remote_off (cursor_start (es_old s));
                 skip \<leftarrow> checked_sub (es_start s) cursor_pos;
                 s1 \<leftarrow> push_rewritten (cut_fragment skip (fragment_end - es_start s) f) (fr_visible f) s;
                 c \<leftarrow> cursor_next (remote_dim v) (es_old s1);
                 start \<leftarrow> remote_off (cursor_start c);
                 Some (s1\<lparr>es_old := c, es_start := start\<rparr>) }
          else Some s }"

text \<open>Insertions that are concurrent to the edit and have a higher timestamp stay in front of it.\<close>

partial_function (option) skip_concurrent ::
  "global \<Rightarrow> lamport \<Rightarrow> nat \<Rightarrow> remote_pos edit_state \<Rightarrow> remote_pos edit_state option" where
  "skip_concurrent v timestamp lo s =
     do { item \<leftarrow> cursor_item (es_old s);
          (case item of
             None \<Rightarrow> Some s
           | Some f \<Rightarrow>
               (if es_start s = lo \<and> fr_timestamp f > timestamp then
                  do { ropes \<leftarrow> rb_push_fragment f (fr_visible f) (es_ropes s);
                       c \<leftarrow> cursor_next (remote_dim v) (es_old s);
                       skip_concurrent v timestamp lo (s\<lparr>es_ropes := ropes, es_fragments := fb_push f (es_fragments s), es_old := c\<rparr>) }
                else Some s)) }"

definition remote_insert :: "lamport \<Rightarrow> bytes \<Rightarrow> remote_pos edit_state \<Rightarrow> remote_pos edit_state option" where
  "remote_insert timestamp new_text s =
     (if new_text = [] then Some s
      else do { item \<leftarrow> cursor_item (es_old s);
                old_start \<leftarrow>
                  (if (case item of Some f \<Rightarrow> fr_visible f | None \<Rightarrow> False) then
                     do { cursor_pos \<leftarrow> remote_off (cursor_start (es_old s));
                          d \<leftarrow> checked_sub (es_start s) cursor_pos;
                          Some (snd (cursor_start (es_old s)) + d) }
                   else Some (snd (cursor_start (es_old s))));
                let new_start = ft_visible (fs_text (summary_so_far s));
                next_id \<leftarrow> next_fragment_id s;
                s1 \<leftarrow> push_fragments_for_insertion new_text timestamp next_id timestamp s;
                Some (s1\<lparr>es_patch := patch_push (es_patch s1) (edit_of old_start old_start new_start (new_start + length new_text))\<rparr>) })"

partial_function (option) remote_delete_loop ::
  "undo_map \<Rightarrow> global \<Rightarrow> lamport \<Rightarrow> nat \<Rightarrow> remote_pos edit_state \<Rightarrow> remote_pos edit_state option" where
  "remote_delete_loop undos v timestamp hi s =
     (if es_start s < hi then
        do { item \<leftarrow> cursor_item (es_old s);
             f \<leftarrow> item;
             e \<leftarrow> cursor_end (remote_dim v) (es_old s);
             fragment_end \<leftarrow> remote_off e;
             cursor_pos \<leftarrow> remote_off (cursor_start (es_old s));
             let intersection_end = min hi fragment_end;
             (g, slices) \<leftarrow>
               (if global_observed v (fr_timestamp f) then
                  do { len \<leftarrow> checked_sub intersection_end (es_start s);
                       skip \<leftarrow> checked_sub (es_start s) cursor_pos;
                       let g = (cut_fragment skip len f)\<lparr>fr_id := between (max_id (summary_so_far s)) (fr_id f)\<rparr>;
                       was \<leftarrow> fragment_was_visible f v undos;
                       if was then (let g' = g\<lparr>deletions := deletions f @ [timestamp], fr_visible := False\<rparr>
                                    in Some (g', [slice_from_fragment timestamp g']))
                       else Some (g, []) }
                else Some (f, []));
             s1 \<leftarrow> (if fr_len g > 0 then
                      do { s' \<leftarrow> (if fr_visible f \<and> \<not> fr_visible g then
                                    do { d \<leftarrow> checked_sub (es_start s) cursor_pos;
                                         let old_start = snd (cursor_start (es_old s)) + d;
                                         let new_start = ft_visible (fs_text (summary_so_far s));
                                         Some (s\<lparr>es_patch := patch_push (es_patch s) (edit_of old_start (old_start + fr_len g) new_start new_start)\<rparr>) }
                                  else Some s);
                           s'' \<leftarrow> push_rewritten g (fr_visible f) s';
                           Some (s''\<lparr>es_start := intersection_end\<rparr>) }
                    else Some s);
             c \<leftarrow> (if fragment_end \<le> hi then cursor_next (remote_dim v) (es_old s1) else Some (es_old s1));
             remote_delete_loop undos v timestamp hi (s1\<lparr>es_old := c, es_slices := es_slices s1 @ slices\<rparr>) }
      else Some s)"

declare skip_concurrent.simps [code] remote_delete_loop.simps [code]

definition remote_edit_step ::
  "undo_map \<Rightarrow> global \<Rightarrow> lamport \<Rightarrow> range \<times> bytes \<Rightarrow> remote_pos edit_state \<Rightarrow> remote_pos edit_state option" where
  "remote_edit_step undos v timestamp edit s =
     (let lo = range_start (fst edit); hi = range_end (fst edit); new_text = snd edit in
      do { e \<leftarrow> cursor_end (remote_dim v) (es_old s);
           fragment_end \<leftarrow> remote_off e;
           s1 \<leftarrow> (if fragment_end < lo then skip_to (remote_dim v) remote_off (remote_target lo) Left s else Some s);
           s2 \<leftarrow> pass_fragment_end v lo s1;
           s3 \<leftarrow> skip_concurrent v timestamp lo s2;
           s4 \<leftarrow> push_prefix remote_off lo s3;
           s5 \<leftarrow> remote_insert timestamp new_text s4;
           remote_delete_loop undos v timestamp hi s5 })"

text \<open>The new snapshot and the patch that is published, if any.\<close>

definition apply_remote_edit ::
  "global \<Rightarrow> range list \<Rightarrow> bytes list \<Rightarrow> lamport \<Rightarrow> snapshot \<Rightarrow> (snapshot \<times> patch option) option" where
  "apply_remote_edit v ranges new_text timestamp snap =
     (case ranges of
        [] \<Rightarrow> Some (snap, None)
      | r # _ \<Rightarrow>
          do { s0 \<leftarrow> start_edit (remote_dim v) remote_off (remote_target (range_start r)) Left snap;
               s \<leftarrow> fold_m (remote_edit_step (undo_map snap) v timestamp) (zip ranges new_text) s0;
               snap' \<leftarrow> finish_edit (remote_dim v) remote_off s snap;
               Some (snap', Some (es_patch s)) })"

subsection \<open>Undoing edits\<close>

definition edit_slices :: "snapshot \<Rightarrow> lamport \<Rightarrow> insertion_slice list option" where
  "edit_slices snap edit =
     do { slices \<leftarrow> ts_iter_from (insertion_slices snap) (InsertionSlice edit lamport_MIN 0 0);
          Some (takeWhile (\<lambda>slice. slice_edit_id slice = edit) slices) }"

fun map_m :: "('a \<Rightarrow> 'b option) \<Rightarrow> 'a list \<Rightarrow> 'b list option" where
  "map_m f [] = Some []"
| "map_m f (x # xs) = do { y \<leftarrow> f x; ys \<leftarrow> map_m f xs; Some (y # ys) }"

text \<open>
  The sort key is the insertion, the start and the reversed end of a slice: three stable sorts, the last one first.
\<close>

definition sort_slices :: "insertion_slice list \<Rightarrow> insertion_slice list" where
  "sort_slices slices = sort_key slice_insertion_id (sort_key slice_start (sort_key (\<lambda>s. - int (slice_end s)) slices))"

type_synonym insertion_cursor = "(insertion_fragment, insertion_fragment_key, insertion_fragment_key) cursor"

partial_function (option) slice_fragment_ids :: "insertion_slice \<Rightarrow> insertion_cursor \<Rightarrow> (insertion_cursor \<times> locator list) option" where
  "slice_fragment_ids sl c =
     do { item \<leftarrow> cursor_item c;
          (case item of
             None \<Rightarrow> Some (c, [])
           | Some i \<Rightarrow>
               (if if_timestamp i \<noteq> slice_insertion_id sl \<or> if_split_offset i \<ge> slice_end sl then Some (c, [])
                else do { c1 \<leftarrow> cursor_next insertion_dim c;
                          (c2, ids) \<leftarrow> slice_fragment_ids sl c1;
                          Some (c2, if_fragment_id i # ids) })) }"

declare slice_fragment_ids.simps [code] undo_loop.simps [code] cursor_collect.simps [code] iter_collect.simps [code]

definition slice_ids_step :: "insertion_slice \<Rightarrow> insertion_cursor \<times> locator list \<Rightarrow> (insertion_cursor \<times> locator list) option" where
  "slice_ids_step sl state =
     (let (c, ids) = state in
      do { c1 \<leftarrow> (if slice_insertion_id sl \<noteq> ik_timestamp (cursor_start c) \<or> slice_start sl > ik_split_offset (cursor_start c)
                  then map_option fst (cursor_seek_forward insertion_dim
                         (cmp (InsertionFragmentKey (slice_insertion_id sl) (slice_start sl))) Left c)
                  else Some c);
           (c2, new_ids) \<leftarrow> slice_fragment_ids sl c1;
           Some (c2, ids @ new_ids) })"

definition fragment_ids_for_edits :: "lamport list \<Rightarrow> snapshot \<Rightarrow> locator list option" where
  "fragment_ids_for_edits edits snap =
     do { slices \<leftarrow> map_m (edit_slices snap) edits;
          (_, ids) \<leftarrow> fold_m slice_ids_step (sort_slices (concat slices)) (cursor_new insertion_dim (insertions snap), []);
          Some (sort ids) }"

record undo_state =
  us_old :: "(fragment, fragment_summary, locator option \<times> nat) cursor"
  us_fragments :: fragment_tree
  us_ropes :: rope_builder
  us_patch :: patch

definition undo_dims :: "(fragment_summary, locator option \<times> nat) dim_ops" where
  "undo_dims = pair_dim frag_id_dim frag_visible_dim"

definition undo_step :: "undo_map \<Rightarrow> lamport \<Rightarrow> locator \<Rightarrow> undo_state \<Rightarrow> undo_state option" where
  "undo_step undos timestamp fragment_id s =
     do { (c, preceding) \<leftarrow> cursor_slice fragment_ops undo_dims (pair_target (cmp (Some fragment_id))) Left (us_old s);
          ropes \<leftarrow> rb_append (fs_text (node_summary preceding)) (us_ropes s);
          t \<leftarrow> st_append fragment_ops (us_fragments s) preceding;
          item \<leftarrow> cursor_item c;
          (case item of
             None \<Rightarrow> Some (s\<lparr>us_old := c, us_ropes := ropes, us_fragments := t\<rparr>)
           | Some f \<Rightarrow>
               do { visible \<leftarrow> fragment_is_visible f undos;
                    let g = f\<lparr>fr_visible := visible, max_undos := global_observe (max_undos f) timestamp\<rparr>;
                    let old_start = snd (cursor_start c);
                    let new_start = ft_visible (fs_text (node_summary t));
                    let patch = (if fr_visible f \<and> \<not> visible
                                 then patch_push (us_patch s) (edit_of old_start (old_start + fr_len f) new_start new_start)
                                 else if \<not> fr_visible f \<and> visible
                                 then patch_push (us_patch s) (edit_of old_start old_start new_start (new_start + fr_len f))
                                 else us_patch s);
                    ropes' \<leftarrow> rb_push_fragment g (fr_visible f) ropes;
                    t' \<leftarrow> st_push fragment_ops t g;
                    c' \<leftarrow> cursor_next undo_dims c;
                    Some \<lparr>us_old = c', us_fragments = t', us_ropes = ropes', us_patch = patch\<rparr> }) }"

definition apply_undo :: "undo_operation \<Rightarrow> snapshot \<Rightarrow> (snapshot \<times> patch) option" where
  "apply_undo undo snap0 =
     do { undos \<leftarrow> undo_insert (undo_map snap0) undo;
          let snap = snap0\<lparr>undo_map := undos\<rparr>;
          v \<leftarrow> rc_new (visible_text snap) 0;
          d \<leftarrow> rc_new (deleted_text snap) 0;
          ids \<leftarrow> fragment_ids_for_edits (map fst (undo_counts undo)) snap;
          s \<leftarrow> fold_m (undo_step undos (undo_timestamp undo)) ids
                 \<lparr>us_old = cursor_new undo_dims (fragments snap), us_fragments = st_new fragment_ops, us_ropes = rb_new v d,
                  us_patch = patch_empty\<rparr>;
          (_, suffix) \<leftarrow> cursor_suffix fragment_ops undo_dims (us_old s);
          ropes \<leftarrow> rb_append (fs_text (node_summary suffix)) (us_ropes s);
          t \<leftarrow> st_append fragment_ops (us_fragments s) suffix;
          (v', d') \<leftarrow> rb_finish ropes;
          Some (snap\<lparr>fragments := t, visible_text := v', deleted_text := d'\<rparr>, us_patch s) }"

end
