(* ===== verification/Anchor.thy ===== *)
theory Anchor
  imports Buffer
begin

section \<open>Anchors (crates/text/src/anchor.rs and text.rs)\<close>

text \<open>
  An anchor names a position by the insertion that brought the text there and an offset into that insertion, so that
  it stays with its text when the buffer is edited. The index of insertions leads from an anchor to a fragment, the
  fragment tree from a fragment to an offset. Assertions that only debug builds make are left out; the panic on an
  anchor that does not belong to the buffer is \<open>None\<close>.
\<close>

record anchor =
  an_timestamp :: lamport
  an_offset :: nat
  an_bias :: bias
  an_buffer :: nat

definition anchor_new :: "lamport \<Rightarrow> nat \<Rightarrow> bias \<Rightarrow> nat \<Rightarrow> anchor" where
  "anchor_new timestamp offset b buffer_id =
     \<lparr>an_timestamp = timestamp, an_offset = offset, an_bias = b, an_buffer = buffer_id\<rparr>"

definition min_for_buffer :: "nat \<Rightarrow> anchor" where
  "min_for_buffer buffer_id = anchor_new lamport_MIN 0 Left buffer_id"

definition max_for_buffer :: "nat \<Rightarrow> anchor" where
  "max_for_buffer buffer_id = anchor_new lamport_MAX (2 ^ 32 - 1) Right buffer_id"

definition is_min :: "anchor \<Rightarrow> bool" where
  "is_min a \<longleftrightarrow> an_timestamp a = lamport_MIN \<and> an_offset a = 0 \<and> an_bias a = Left"

definition is_max :: "anchor \<Rightarrow> bool" where
  "is_max a \<longleftrightarrow> an_timestamp a = lamport_MAX \<and> an_offset a = 2 ^ 32 - 1 \<and> an_bias a = Right"

text \<open>\<open>opaque_id\<close>: 20 bytes, each number with its least byte first, the last byte unused.\<close>

fun le_bytes :: "nat \<Rightarrow> nat \<Rightarrow> u8 list" where
  "le_bytes 0 n = []"
| "le_bytes (Suc k) n = of_nat (n mod 256) # le_bytes k (n div 256)"

definition opaque_id :: "anchor \<Rightarrow> u8 list" where
  "opaque_id a =
     le_bytes 8 (an_buffer a) @ le_bytes 4 (an_offset a) @ le_bytes 4 (unat (lvalue (an_timestamp a))) @
     le_bytes 2 (unat (lreplica (an_timestamp a))) @ [(case an_bias a of Left \<Rightarrow> 0 | Right \<Rightarrow> 1), 0]"

subsection \<open>From anchors to fragments and offsets\<close>

definition try_find_fragment :: "snapshot \<Rightarrow> anchor \<Rightarrow> insertion_fragment option option" where
  "try_find_fragment s a =
     (let anchor_key = InsertionFragmentKey (an_timestamp a) (an_offset a) in
      do { (_, _, found) \<leftarrow> st_find_with_prev insertion_dim (insertions s) (cmp anchor_key) (an_bias a);
           (case found of
              Some (prev, insertion) \<Rightarrow>
                (let comparison = cmp (insertion_key insertion) anchor_key in
                 Some (if comparison = Greater \<or> (an_bias a = Left \<and> comparison = Equal \<and> an_offset a > 0)
                       then prev else Some insertion))
            | None \<Rightarrow> st_last (insertions s)) })"

definition try_fragment_id_for_anchor :: "snapshot \<Rightarrow> anchor \<Rightarrow> locator option option" where
  "try_fragment_id_for_anchor s a =
     (if is_min a then Some (Some locator_min)
      else if is_max a then Some (Some locator_max)
      else do { item \<leftarrow> try_find_fragment s a; Some (map_option if_fragment_id item) })"

definition fragment_id_for_anchor :: "snapshot \<Rightarrow> anchor \<Rightarrow> locator option" where
  "fragment_id_for_anchor s a = do { id \<leftarrow> try_fragment_id_for_anchor s a; id }"

definition find_fragment :: "snapshot \<Rightarrow> locator \<Rightarrow> nat \<times> fragment option" where
  "find_fragment s fragment_id =
     (let (start, _, item) = st_find undo_dims (fragments s) (pair_target (cmp (Some fragment_id))) Left in (snd start, item))"

definition offset_for_anchor :: "snapshot \<Rightarrow> anchor \<Rightarrow> nat option" where
  "offset_for_anchor s a =
     (if is_min a then Some 0
      else if is_max a then Some (rope_len (visible_text s))
      else do { item \<leftarrow> try_find_fragment s a;
                insertion \<leftarrow> item;
                if if_timestamp insertion \<noteq> an_timestamp a then None
                else (let (fragment_offset, item) = find_fragment s (if_fragment_id insertion) in
                      do { f \<leftarrow> item;
                           if fr_visible f
                           then do { d \<leftarrow> checked_sub (an_offset a) (if_split_offset insertion); Some (fragment_offset + d) }
                           else Some fragment_offset }) })"

definition summary_for_anchor :: "'d text_dimension \<Rightarrow> snapshot \<Rightarrow> anchor \<Rightarrow> 'd option" where
  "summary_for_anchor T s a = do { offset \<leftarrow> offset_for_anchor s a; text_summary_for_range T (visible_text s) 0 offset }"

definition can_resolve :: "snapshot \<Rightarrow> anchor \<Rightarrow> bool" where
  "can_resolve s a \<longleftrightarrow> remote_id s = an_buffer a \<and> (is_min a \<or> is_max a \<or> global_observed (version s) (an_timestamp a))"

definition is_valid :: "anchor \<Rightarrow> snapshot \<Rightarrow> bool option" where
  "is_valid a s =
     (if an_buffer a \<noteq> remote_id s then Some False
      else if is_min a \<or> is_max a then Some True
      else do { id \<leftarrow> try_fragment_id_for_anchor s a;
                Some (case id of
                        None \<Rightarrow> False
                      | Some fragment_id \<Rightarrow> (case snd (find_fragment s fragment_id) of None \<Rightarrow> False | Some f \<Rightarrow> fr_visible f)) })"

subsection \<open>From offsets to anchors\<close>

definition usize_to_offset :: "snapshot \<Rightarrow> nat \<Rightarrow> nat option" where
  "usize_to_offset s offset =
     do { ok \<leftarrow> rope_assert_char_boundary False (visible_text s) offset;
          if ok then Some offset else rope_floor_char_boundary (visible_text s) offset }"

definition anchor_at_offset :: "snapshot \<Rightarrow> nat \<Rightarrow> bias \<Rightarrow> anchor option" where
  "anchor_at_offset s offset0 b =
     (if b = Left \<and> offset0 = 0 then Some (min_for_buffer (remote_id s))
      else if b = Right \<and> offset0 \<ge> rope_len (visible_text s) then Some (max_for_buffer (remote_id s))
      else do { ok \<leftarrow> rope_assert_char_boundary False (visible_text s) offset0;
                offset \<leftarrow> (if ok then Some offset0
                            else case b of Left \<Rightarrow> rope_floor_char_boundary (visible_text s) offset0
                                         | Right \<Rightarrow> rope_ceil_char_boundary (visible_text s) offset0);
                let (start, _, item) = st_find frag_visible_dim (fragments s) (cmp offset) b;
                (case item of
                   None \<Rightarrow> Some (max_for_buffer (remote_id s))
                 | Some f \<Rightarrow>
                     do { overshoot \<leftarrow> checked_sub offset start;
                          Some (anchor_new (fr_timestamp f) (insertion_offset f + overshoot) b (remote_id s)) }) })"

definition anchor_at :: "snapshot \<Rightarrow> nat \<Rightarrow> bias \<Rightarrow> anchor option" where
  "anchor_at s position b = do { offset \<leftarrow> usize_to_offset s position; anchor_at_offset s offset b }"

definition anchor_before :: "snapshot \<Rightarrow> nat \<Rightarrow> anchor option" where
  "anchor_before s position = anchor_at s position Left"

definition anchor_after :: "snapshot \<Rightarrow> nat \<Rightarrow> anchor option" where
  "anchor_after s position = anchor_at s position Right"

definition anchor_range_inside :: "snapshot \<Rightarrow> nat \<Rightarrow> nat \<Rightarrow> (anchor \<times> anchor) option" where
  "anchor_range_inside s lo hi = do { a \<leftarrow> anchor_after s lo; b \<leftarrow> anchor_before s hi; Some (a, b) }"

definition anchor_range_outside :: "snapshot \<Rightarrow> nat \<Rightarrow> nat \<Rightarrow> (anchor \<times> anchor) option" where
  "anchor_range_outside s lo hi = do { a \<leftarrow> anchor_before s lo; b \<leftarrow> anchor_after s hi; Some (a, b) }"

text \<open>An anchor is itself a position; changing its bias goes through its offset.\<close>

definition bias_left :: "anchor \<Rightarrow> snapshot \<Rightarrow> anchor option" where
  "bias_left a s =
     (case an_bias a of Left \<Rightarrow> Some a | Right \<Rightarrow> do { offset \<leftarrow> offset_for_anchor s a; anchor_at_offset s offset Left })"

definition bias_right :: "anchor \<Rightarrow> snapshot \<Rightarrow> anchor option" where
  "bias_right a s =
     (case an_bias a of Left \<Rightarrow> do { offset \<leftarrow> offset_for_anchor s a; anchor_at_offset s offset Right } | Right \<Rightarrow> Some a)"

definition with_bias :: "bias \<Rightarrow> anchor \<Rightarrow> snapshot \<Rightarrow> anchor option" where
  "with_bias b a s = (case b of Left \<Rightarrow> bias_left a s | Right \<Rightarrow> bias_right a s)"

subsection \<open>Comparing anchors\<close>

fun cmp_bias :: "bias \<Rightarrow> bias \<Rightarrow> ordering" where
  "cmp_bias Left Right = Less"
| "cmp_bias Right Left = Greater"
| "cmp_bias b c = Equal"

definition anchor_cmp :: "anchor \<Rightarrow> anchor \<Rightarrow> snapshot \<Rightarrow> ordering option" where
  "anchor_cmp a b s =
     do { fragment_id_comparison \<leftarrow>
            (if an_timestamp a = an_timestamp b then Some Equal
             else do { x \<leftarrow> fragment_id_for_anchor s a; y \<leftarrow> fragment_id_for_anchor s b; Some (cmp x y) });
          Some (then_with (then_with fragment_id_comparison (cmp (an_offset a) (an_offset b))) (cmp_bias (an_bias a) (an_bias b))) }"

definition anchor_min :: "anchor \<Rightarrow> anchor \<Rightarrow> snapshot \<Rightarrow> anchor option" where
  "anchor_min a b s = do { c \<leftarrow> anchor_cmp a b s; Some (if c \<noteq> Greater then a else b) }"

definition anchor_max :: "anchor \<Rightarrow> anchor \<Rightarrow> snapshot \<Rightarrow> anchor option" where
  "anchor_max a b s = do { c \<leftarrow> anchor_cmp a b s; Some (if c \<noteq> Less then a else b) }"

definition range_cmp :: "anchor \<times> anchor \<Rightarrow> anchor \<times> anchor \<Rightarrow> snapshot \<Rightarrow> ordering option" where
  "range_cmp a b s =
     do { c \<leftarrow> anchor_cmp (fst a) (fst b) s; if c = Equal then anchor_cmp (snd b) (snd a) s else Some c }"

definition range_overlaps :: "anchor \<times> anchor \<Rightarrow> anchor \<times> anchor \<Rightarrow> snapshot \<Rightarrow> bool option" where
  "range_overlaps a b s =
     do { c \<leftarrow> anchor_cmp (fst a) (snd b) s;
          if c = Less then do { d \<leftarrow> anchor_cmp (fst b) (snd a) s; Some (d = Less) } else Some False }"

definition contains_anchor :: "anchor \<times> anchor \<Rightarrow> anchor \<Rightarrow> snapshot \<Rightarrow> bool option" where
  "contains_anchor a b s =
     do { c \<leftarrow> anchor_cmp (fst a) b s;
          if c \<noteq> Greater then do { d \<leftarrow> anchor_cmp (snd a) b s; Some (d \<noteq> Less) } else Some False }"

end
