(* ===== verification/Selection.thy ===== *)
theory Selection
  imports Anchor
begin

section \<open>Selections (crates/text/src/selection.rs)\<close>

text \<open>
  A selection has an ordered pair of ends and a flag that says which of them moves. The floating point numbers of a
  goal are a type parameter: the code only stores and copies them.
\<close>

datatype 'f selection_goal =
  NoGoal | HorizontalPosition 'f | HorizontalRange 'f 'f | WrappedHorizontalPosition nat 'f

record ('a, 'f) selection =
  sel_id :: nat
  sel_start :: 'a
  sel_end :: 'a
  reversed :: bool
  goal :: "'f selection_goal"

definition head :: "('a, 'f) selection \<Rightarrow> 'a" where
  "head s = (if reversed s then sel_start s else sel_end s)"

definition tail :: "('a, 'f) selection \<Rightarrow> 'a" where
  "tail s = (if reversed s then sel_end s else sel_start s)"

definition selection_map :: "('a \<Rightarrow> 'b) \<Rightarrow> ('a, 'f) selection \<Rightarrow> ('b, 'f) selection" where
  "selection_map f s =
     \<lparr>sel_id = sel_id s, sel_start = f (sel_start s), sel_end = f (sel_end s), reversed = reversed s, goal = goal s\<rparr>"

definition collapse_to :: "'a \<Rightarrow> 'f selection_goal \<Rightarrow> ('a, 'f) selection \<Rightarrow> ('a, 'f) selection" where
  "collapse_to point new_goal s = s\<lparr>sel_start := point, sel_end := point, goal := new_goal, reversed := False\<rparr>"

definition selection_is_empty :: "('a, 'f) selection \<Rightarrow> bool" where
  "selection_is_empty s \<longleftrightarrow> sel_start s = sel_end s"

definition set_head :: "'a::linorder \<Rightarrow> 'f selection_goal \<Rightarrow> ('a, 'f) selection \<Rightarrow> ('a, 'f) selection" where
  "set_head h new_goal s =
     (let s1 = (if cmp h (tail s) = Less then
                  (let s' = (if \<not> reversed s then s\<lparr>sel_end := sel_start s, reversed := True\<rparr> else s) in s'\<lparr>sel_start := h\<rparr>)
                else
                  (let s' = (if reversed s then s\<lparr>sel_start := sel_end s, reversed := False\<rparr> else s) in s'\<lparr>sel_end := h\<rparr>))
      in s1\<lparr>goal := new_goal\<rparr>)"

definition set_tail :: "'a::linorder \<Rightarrow> 'f selection_goal \<Rightarrow> ('a, 'f) selection \<Rightarrow> ('a, 'f) selection" where
  "set_tail t new_goal s =
     (let s1 = (if cmp t (head s) \<noteq> Greater then
                  (let s' = (if reversed s then s\<lparr>sel_end := sel_start s, reversed := False\<rparr> else s) in s'\<lparr>sel_start := t\<rparr>)
                else
                  (let s' = (if \<not> reversed s then s\<lparr>sel_start := sel_end s, reversed := True\<rparr> else s) in s'\<lparr>sel_end := t\<rparr>))
      in s1\<lparr>goal := new_goal\<rparr>)"

definition set_head_tail :: "'a::linorder \<Rightarrow> 'a \<Rightarrow> 'f selection_goal \<Rightarrow> ('a, 'f) selection \<Rightarrow> ('a, 'f) selection" where
  "set_head_tail h t new_goal s =
     (if h < t then s\<lparr>reversed := True, sel_start := h, sel_end := t\<rparr>
      else s\<lparr>reversed := False, sel_start := t, sel_end := h\<rparr>)\<lparr>goal := new_goal\<rparr>"

definition swap_head_tail :: "('a, 'f) selection \<Rightarrow> ('a, 'f) selection" where
  "swap_head_tail s = (if reversed s then s\<lparr>reversed := False\<rparr> else s\<lparr>sel_start := sel_end s, sel_end := sel_start s\<rparr>)"

definition selection_range :: "('a, 'f) selection \<Rightarrow> 'a \<times> 'a" where
  "selection_range s = (sel_start s, sel_end s)"

text \<open>The length for offsets, where the subtraction panics when it underflows.\<close>

definition selection_len :: "(nat, 'f) selection \<Rightarrow> nat option" where
  "selection_len s = checked_sub (sel_end s) (sel_start s)"

definition selection_equals :: "'a \<times> 'a \<Rightarrow> ('a, 'f) selection \<Rightarrow> bool" where
  "selection_equals r s \<longleftrightarrow> sel_start s = fst r \<and> sel_end s = snd r"

definition selection_resolve :: "'d text_dimension \<Rightarrow> snapshot \<Rightarrow> (anchor, 'f) selection \<Rightarrow> ('d, 'f) selection option" where
  "selection_resolve T snap s =
     do { a \<leftarrow> summary_for_anchor T snap (sel_start s);
          b \<leftarrow> summary_for_anchor T snap (sel_end s);
          Some \<lparr>sel_id = sel_id s, sel_start = a, sel_end = b, reversed = reversed s, goal = goal s\<rparr> }"

subsection \<open>The ends stay ordered\<close>

definition selection_wf :: "('a::linorder, 'f) selection \<Rightarrow> bool" where
  "selection_wf s \<longleftrightarrow> sel_start s \<le> sel_end s"

text \<open>
  C39: Moving the ends of a selection. From a selection whose ends are in order, setting the head gives that head and
  keeps the tail, setting the tail gives that tail and keeps the head, setting both gives both, and collapsing gives an
  empty selection; every one of these keeps the ends in order. Swapping exchanges head and tail, and leaves the ends in
  order exactly when the selection was reversed or empty: then the length can be computed, otherwise it underflows.
\<close>

theorem selection_ends:
  fixes s :: "(nat, 'f) selection"
  assumes "selection_wf s"
  shows "head (set_head p g s) = p \<and> tail (set_head p g s) = tail s \<and> selection_wf (set_head p g s) \<and>
    tail (set_tail p g s) = p \<and> head (set_tail p g s) = head s \<and> selection_wf (set_tail p g s) \<and>
    head (set_head_tail p q g s) = p \<and> tail (set_head_tail p q g s) = q \<and> selection_wf (set_head_tail p q g s) \<and>
    selection_is_empty (collapse_to p g s) \<and> head (collapse_to p g s) = p \<and>
    head (swap_head_tail s) = tail s \<and> tail (swap_head_tail s) = head s \<and>
    (selection_wf (swap_head_tail s) \<longleftrightarrow> reversed s \<or> selection_is_empty s) \<and>
    (selection_len (swap_head_tail s) \<noteq> None \<longleftrightarrow> reversed s \<or> selection_is_empty s)"
  using assms
  by (auto simp: selection_wf_def head_def tail_def set_head_def set_tail_def set_head_tail_def collapse_to_def
      swap_head_tail_def selection_is_empty_def selection_len_def checked_sub_def cmp_def Let_def)

lemma selection_ends_witness:
  "head (set_head 1 NoGoal \<lparr>sel_id = 0, sel_start = 2, sel_end = 5, reversed = False, goal = (NoGoal :: unit selection_goal)\<rparr>) = (1 :: nat) \<and>
   selection_len (swap_head_tail \<lparr>sel_id = 0, sel_start = 2, sel_end = 5, reversed = False, goal = (NoGoal :: unit selection_goal)\<rparr>) = None"
  using selection_ends[of "\<lparr>sel_id = 0, sel_start = 2, sel_end = 5, reversed = False, goal = (NoGoal :: unit selection_goal)\<rparr>" 1 NoGoal]
  by (simp add: selection_wf_def selection_is_empty_def)

end
