(* ===== verification/Buffer_Ops.thy ===== *)
theory Buffer_Ops
  imports Anchor OperationQueue
begin

section \<open>The buffer and the operations of other replicas (crates/text/src/text.rs)\<close>

text \<open>
  A buffer is a snapshot with its history, its clock, the subscriptions to its edits and the operations that wait for
  operations they depend on. The futures that wait for edits and versions are woken by \<open>apply_op\<close> and do not change the
  buffer; they are left out. Points in time are arguments.
\<close>

record buffer =
  snap :: snapshot
  hist :: history
  deferred_ops :: "operation operation_queue"
  deferred_replicas :: "replica_id set"
  lamport_clock :: lamport
  subscriptions :: topic

definition op_replica :: "operation \<Rightarrow> replica_id" where
  "op_replica op = lreplica (op_timestamp op)"

fun op_version :: "operation \<Rightarrow> global" where
  "op_version (Edit e) = edit_version e"
| "op_version (Undo u) = undo_version u"

subsection \<open>Construction\<close>

text \<open>
  \<open>Buffer::new_normalized\<close>: the base text becomes fragments of at most \<open>MAX_INSERTION_LEN\<close> bytes. The offset of a
  fragment in the insertion is a \<open>u32\<close>, and adding to it panics on overflow; a fragment without text would make the loop
  run forever. Both are \<open>None\<close>.
\<close>

function base_fragments :: "rope \<Rightarrow> lamport \<Rightarrow> nat \<Rightarrow> locator \<Rightarrow> fragment list option" where
  "base_fragments text_rope timestamp text_offset prev_locator =
     (if text_offset < rope_len text_rope then
        (let target_end = min (rope_len text_rope) (text_offset + MAX_INSERTION_LEN) in
         do { chunk_end \<leftarrow> (if target_end = rope_len text_rope then Some target_end else rope_floor_char_boundary text_rope target_end);
              if chunk_end \<le> text_offset \<or> chunk_end \<ge> 2 ^ 32 then None
              else do { let id = between prev_locator locator_max;
                        fs \<leftarrow> base_fragments text_rope timestamp chunk_end id;
                        Some (\<lparr>fr_id = id, fr_timestamp = timestamp, insertion_offset = text_offset,
                               fr_len = chunk_end - text_offset, fr_visible = True, deletions = [], max_undos = global_new\<rparr> # fs) } })
      else Some [])"
  by pat_completeness auto

termination base_fragments
  by (relation "measure (\<lambda>(r, _, text_offset, _). rope_len r - text_offset)") auto

declare base_fragments.simps [simp del]

definition buffer_new_normalized :: "replica_id \<Rightarrow> nat \<Rightarrow> line_ending \<Rightarrow> rope \<Rightarrow> buffer option" where
  "buffer_new_normalized replica remote ending normalized =
     do { let timestamp = lamport_new LOCAL;
          fs \<leftarrow> base_fragments normalized timestamp 0 locator_min;
          frags \<leftarrow> fold_m (\<lambda>f t. st_push fragment_ops t f) fs (st_new fragment_ops);
          ins \<leftarrow> fold_m (\<lambda>f t. st_push insertion_ops t (insertion_fragment_new f)) fs (st_new insertion_ops);
          let clock = (if rope_is_empty normalized then lamport_new replica else lamport_observe (lamport_new replica) timestamp);
          let v = (if rope_is_empty normalized then global_new else global_observe global_new timestamp);
          Some \<lparr>snap = \<lparr>visible_text = normalized, deleted_text = rope_new, fragments = frags, insertions = ins,
                        insertion_slices = tm_default, undo_map = undo_map_default, version = v, remote_id = remote,
                        snapshot_replica = replica, line_ending_of = ending\<rparr>,
                hist = history_new normalized, deferred_ops = queue_new op_timestamp, deferred_replicas = {},
                lamport_clock = clock, subscriptions = topic_default\<rparr> }"

definition buffer_branch :: "buffer \<Rightarrow> buffer" where
  "buffer_branch b =
     \<lparr>snap = snap b, hist = history_new (base_text (hist b)), deferred_ops = queue_new op_timestamp, deferred_replicas = {},
      lamport_clock = lamport_new LOCAL_BRANCH, subscriptions = topic_default\<rparr>"

subsection \<open>Applying operations\<close>

definition observe_version :: "lamport \<Rightarrow> buffer \<Rightarrow> buffer" where
  "observe_version t b = b\<lparr>snap := (snap b)\<lparr>version := global_observe (version (snap b)) t\<rparr>\<rparr>"

definition observe_clock :: "lamport \<Rightarrow> buffer \<Rightarrow> buffer" where
  "observe_clock t b = b\<lparr>lamport_clock := lamport_observe (lamport_clock b) t\<rparr>"

definition publish_patch :: "patch \<Rightarrow> buffer \<Rightarrow> buffer option" where
  "publish_patch p b = do { t \<leftarrow> publish p (subscriptions b); Some (b\<lparr>subscriptions := t\<rparr>) }"

definition can_apply_op :: "buffer \<Rightarrow> operation \<Rightarrow> bool" where
  "can_apply_op b op \<longleftrightarrow>
     (if op_replica op \<in> deferred_replicas b then False else global_observed_all (version (snap b)) (op_version op))"

fun apply_op :: "operation \<Rightarrow> buffer \<Rightarrow> buffer option" where
  "apply_op (Edit edit) b =
     (if global_observed (version (snap b)) (edit_timestamp edit) then Some b
      else do { (s, p) \<leftarrow> apply_remote_edit (edit_version edit) (edit_ranges edit) (edit_new_text edit) (edit_timestamp edit) (snap b);
                b1 \<leftarrow> (case p of None \<Rightarrow> Some (b\<lparr>snap := s\<rparr>) | Some patch \<Rightarrow> publish_patch patch (b\<lparr>snap := s\<rparr>));
                Some (observe_clock (edit_timestamp edit) (observe_version (edit_timestamp edit) b1)) })"
| "apply_op (Undo undo) b =
     (if global_observed (version (snap b)) (undo_timestamp undo) then Some b
      else do { (s, p) \<leftarrow> apply_undo undo (snap b);
                b1 \<leftarrow> publish_patch p (b\<lparr>snap := s\<rparr>);
                Some (observe_clock (undo_timestamp undo) (observe_version (undo_timestamp undo) b1)) })"

text \<open>One operation of a batch: applied, or put aside together with its replica.\<close>

definition apply_or_defer :: "operation \<Rightarrow> buffer \<times> operation list \<Rightarrow> (buffer \<times> operation list) option" where
  "apply_or_defer op state =
     (let (b, deferred) = state in
      if can_apply_op b op then do { b' \<leftarrow> apply_op op b; Some (b', deferred) }
      else Some (b\<lparr>deferred_replicas := insert (op_replica op) (deferred_replicas b)\<rparr>, deferred @ [op]))"

definition defer_ops :: "buffer \<times> operation list \<Rightarrow> buffer option" where
  "defer_ops state =
     (let (b, deferred) = state in
      do { q \<leftarrow> queue_insert op_timestamp (deferred_ops b) deferred; Some (b\<lparr>deferred_ops := q\<rparr>) })"

definition flush_deferred_ops :: "buffer \<Rightarrow> buffer option" where
  "flush_deferred_ops b =
     (let (rest, drained) = queue_drain op_timestamp (deferred_ops b) in
      do { ops \<leftarrow> queue_iter drained;
           state \<leftarrow> fold_m apply_or_defer ops (b\<lparr>deferred_replicas := {}, deferred_ops := rest\<rparr>, []);
           defer_ops state })"

definition receive_op :: "operation \<Rightarrow> buffer \<times> operation list \<Rightarrow> (buffer \<times> operation list) option" where
  "receive_op op state =
     (let (b, deferred) = state in
      do { h \<leftarrow> history_push op (hist b); apply_or_defer op (b\<lparr>hist := h\<rparr>, deferred) })"

definition apply_ops :: "operation list \<Rightarrow> buffer \<Rightarrow> buffer option" where
  "apply_ops ops b =
     do { state \<leftarrow> fold_m receive_op ops (b, []);
          b1 \<leftarrow> defer_ops state;
          flush_deferred_ops b1 }"

subsection \<open>Local edits\<close>

definition edit_to_offset :: "snapshot \<Rightarrow> nat \<times> nat \<times> bytes \<Rightarrow> (nat \<times> nat \<times> bytes) option" where
  "edit_to_offset s edit =
     (let (lo, hi, text) = edit in do { a \<leftarrow> usize_to_offset s lo; b \<leftarrow> usize_to_offset s hi; Some (a, b, text) })"

definition apply_local_edit :: "(nat \<times> nat \<times> bytes) list \<Rightarrow> lamport \<Rightarrow> buffer \<Rightarrow> (buffer \<times> edit_operation) option" where
  "apply_local_edit edits timestamp b =
     do { edits' \<leftarrow> map_m (edit_to_offset (snap b)) edits;
          (s, op, patch) \<leftarrow> apply_edit_internal edits' timestamp (snap b);
          b' \<leftarrow> publish_patch patch (b\<lparr>snap := s\<rparr>);
          Some (b', op) }"

definition buffer_start_transaction :: "instant \<Rightarrow> buffer \<Rightarrow> buffer \<times> transaction_id option" where
  "buffer_start_transaction now b =
     (let (h, clock, tid) = start_transaction (version (snap b)) now (lamport_clock b) (hist b)
      in (b\<lparr>hist := h, lamport_clock := clock\<rparr>, tid))"

definition buffer_end_transaction :: "instant \<Rightarrow> buffer \<Rightarrow> (buffer \<times> (transaction_id \<times> global) option) option" where
  "buffer_end_transaction now b = do { (h, res) \<leftarrow> end_transaction_at now (hist b); Some (b\<lparr>hist := h\<rparr>, res) }"

definition buffer_edit :: "instant \<Rightarrow> instant \<Rightarrow> (nat \<times> nat \<times> bytes) list \<Rightarrow> buffer \<Rightarrow> (buffer \<times> operation) option" where
  "buffer_edit start_time end_time edits b0 =
     (let (b1, _) = buffer_start_transaction start_time b0;
          (timestamp, clock) = tick (lamport_clock b1)
      in do { (b2, edit) \<leftarrow> apply_local_edit edits timestamp (b1\<lparr>lamport_clock := clock\<rparr>);
              let operation = Edit edit;
              h1 \<leftarrow> history_push operation (hist b2);
              h2 \<leftarrow> push_undo (op_timestamp operation) h1;
              (b3, _) \<leftarrow> buffer_end_transaction end_time (observe_version (op_timestamp operation) (b2\<lparr>hist := h2\<rparr>));
              Some (b3, operation) })"

text \<open>Edits on a copy of the snapshot, and adopting such a copy.\<close>

record edited_snapshot =
  base_version :: global
  edited :: snapshot
  did_edit :: bool

definition snapshot_with_edits :: "(nat \<times> nat \<times> bytes) list \<Rightarrow> buffer \<Rightarrow> (buffer \<times> edited_snapshot) option" where
  "snapshot_with_edits edits b =
     do { edits' \<leftarrow> map_m (edit_to_offset (snap b)) edits;
          if edits' = [] then Some (b, \<lparr>base_version = version (snap b), edited = snap b, did_edit = False\<rparr>)
          else (let (timestamp, clock) = tick (lamport_clock b) in
                do { (s, _, _) \<leftarrow> apply_edit_internal edits' timestamp (snap b);
                     Some (b\<lparr>lamport_clock := clock\<rparr>,
                           \<lparr>base_version = version (snap b), edited = s\<lparr>version := global_observe (version s) timestamp\<rparr>,
                            did_edit = True\<rparr>) }) }"

definition fast_forward :: "edited_snapshot \<Rightarrow> buffer \<Rightarrow> buffer option" where
  "fast_forward e b =
     (if global_changed_since (version (snap b)) (base_version e) then None
      else Some (foldl (\<lambda>b t. observe_clock t b) (b\<lparr>snap := edited e\<rparr>) (global_iter (version (edited e)))))"

subsection \<open>Undo and redo\<close>

definition undo_operations :: "(lamport \<times> u32) list \<Rightarrow> buffer \<Rightarrow> (buffer \<times> operation) option" where
  "undo_operations op_counts b =
     (let (timestamp, clock) = tick (lamport_clock b);
          undo = \<lparr>undo_timestamp = timestamp, undo_version = version (snap b), undo_counts = op_counts\<rparr>
      in do { (s, p) \<leftarrow> apply_undo undo (snap (observe_version timestamp b));
              b' \<leftarrow> publish_patch p (b\<lparr>lamport_clock := clock, snap := s\<rparr>);
              Some (b', Undo undo) })"

text \<open>The hash map of counts has each edit once; \<open>saturating_add\<close> stops at the greatest count.\<close>

definition undo_or_redo :: "transaction \<Rightarrow> buffer \<Rightarrow> (buffer \<times> operation) option" where
  "undo_or_redo t b =
     do { op_counts \<leftarrow> map_m (\<lambda>e. do { n \<leftarrow> undo_count (undo_map (snap b)) e; Some (e, if n = - 1 then n else n + 1) }) (remdups (edit_ids t));
          (b1, op) \<leftarrow> undo_operations op_counts b;
          h \<leftarrow> history_push op (hist b1);
          Some (b1\<lparr>hist := h\<rparr>, op) }"

definition buffer_undo :: "buffer \<Rightarrow> (buffer \<times> (transaction_id \<times> operation) option) option" where
  "buffer_undo b =
     do { (h, entry) \<leftarrow> pop_undo (hist b);
          (case entry of
             None \<Rightarrow> Some (b\<lparr>hist := h\<rparr>, None)
           | Some e \<Rightarrow> do { (b', op) \<leftarrow> undo_or_redo (transaction_of e) (b\<lparr>hist := h\<rparr>); Some (b', Some (transaction_id_of e, op)) }) }"

definition buffer_redo :: "buffer \<Rightarrow> (buffer \<times> (transaction_id \<times> operation) option) option" where
  "buffer_redo b =
     do { (h, entry) \<leftarrow> pop_redo (hist b);
          (case entry of
             None \<Rightarrow> Some (b\<lparr>hist := h\<rparr>, None)
           | Some e \<Rightarrow> do { (b', op) \<leftarrow> undo_or_redo (transaction_of e) (b\<lparr>hist := h\<rparr>); Some (b', Some (transaction_id_of e, op)) }) }"

definition undo_transaction :: "transaction_id \<Rightarrow> buffer \<Rightarrow> (buffer \<times> operation option) option" where
  "undo_transaction tid b =
     do { (h, entry) \<leftarrow> remove_from_undo tid (hist b);
          (case entry of
             None \<Rightarrow> Some (b\<lparr>hist := h\<rparr>, None)
           | Some e \<Rightarrow> do { (b', op) \<leftarrow> undo_or_redo (transaction_of e) (b\<lparr>hist := h\<rparr>); Some (b', Some op) }) }"

fun undo_or_redo_all :: "history_entry list \<Rightarrow> buffer \<Rightarrow> (buffer \<times> operation list) option" where
  "undo_or_redo_all [] b = Some (b, [])"
| "undo_or_redo_all (e # es) b =
     do { (b1, op) \<leftarrow> undo_or_redo (transaction_of e) b; (b2, ops) \<leftarrow> undo_or_redo_all es b1; Some (b2, op # ops) }"

definition undo_to_transaction :: "transaction_id \<Rightarrow> buffer \<Rightarrow> (buffer \<times> operation list) option" where
  "undo_to_transaction tid b =
     do { (h, entries) \<leftarrow> remove_from_undo_until tid (hist b); undo_or_redo_all entries (b\<lparr>hist := h\<rparr>) }"

definition redo_to_transaction :: "transaction_id \<Rightarrow> buffer \<Rightarrow> (buffer \<times> operation list) option" where
  "redo_to_transaction tid b =
     do { (h, entries) \<leftarrow> remove_from_redo tid (hist b); undo_or_redo_all entries (b\<lparr>hist := h\<rparr>) }"

end
