(* ===== verification/Fragment_Correct.thy ===== *)
theory Fragment_Correct
  imports Buffer OperationQueue Cursor_Props
begin

section \<open>Trees of fragments\<close>

text \<open>
  The summaries of fragments obey the laws of sum trees, with a meet that skips absent replicas, and so do their
  dimensions. The builder of fragment trees yields the fragments it was given, and its running summary is their sum.
\<close>

definition fs_ok :: "fragment_summary \<Rightarrow> bool" where
  "fs_ok s \<longleftrightarrow> global_wf (max_version s) \<and> global_wf (min_insertion_version s) \<and> global_wf (max_insertion_version s)"

abbreviation fragment_ok :: "fragment \<Rightarrow> bool" where
  "fragment_ok f \<equiv> fs_ok (item_summary fragment_ops f)"

lemma global_wf_observes: "global_wf v \<Longrightarrow> global_wf (foldl global_observe v ts)"
  by (induction ts arbitrary: v) auto

lemma fragment_ok_iff [simp]: "global_wf (max_undos f) \<Longrightarrow> fragment_ok f"
  by (auto simp: fs_ok_def fragment_ops_def fragment_summary_of_def Let_def intro!: global_wf_observes global_wf_join global_wf_observe)

lemma meet_entry_assoc: "meet_entry (meet_entry a b) c = meet_entry a (meet_entry b c)"
  by (auto simp: meet_entry_def min_def)

lemma global_join_assoc:
  "global_wf a \<Longrightarrow> global_wf b \<Longrightarrow> global_wf c \<Longrightarrow> global_join (global_join a b) c = global_join a (global_join b c)"
  by (intro seq_at_eqI) (auto simp: abs_simps max.assoc)

lemma global_meet_assoc:
  "global_wf a \<Longrightarrow> global_wf b \<Longrightarrow> global_wf c \<Longrightarrow> global_meet (global_meet a b) c = global_meet a (global_meet b c)"
  by (intro seq_at_eqI) (auto simp: abs_simps meet_entry_assoc)

lemma global_join_new: "global_wf a \<Longrightarrow> global_join global_new a = a"
  by (intro seq_at_eqI) (auto simp: abs_simps)

lemma global_meet_new: "global_wf a \<Longrightarrow> global_meet global_new a = a"
  by (intro seq_at_eqI) (auto simp: abs_simps meet_entry_def)

lemmas version_laws = global_join_assoc global_meet_assoc global_join_new global_meet_new

lemma fragment_sum_laws: "sum_laws fragment_ops fs_ok"
  by unfold_locales (auto simp: fragment_ops_def fs_ok_def fragment_summary_add_def fragment_summary_default_def
      fragment_text_add_def fragment_text_default_def locator_assign_def version_laws)

lemma pair_dim_laws: "dim_laws D V M \<Longrightarrow> dim_laws D V N \<Longrightarrow> dim_laws D V (pair_dim M N)"
  by (auto simp: dim_laws_def dim_laws_axioms_def pair_dim_def)

lemma frag_text_dim_laws: "dim_laws fragment_ops fs_ok frag_text_dim"
  using fragment_sum_laws
  by (auto simp: dim_laws_def dim_laws_axioms_def fragment_ops_def fragment_summary_add_def frag_text_dim_def fragment_text_add_def)

lemma frag_visible_dim_laws: "dim_laws fragment_ops fs_ok frag_visible_dim"
  using fragment_sum_laws
  by (auto simp: dim_laws_def dim_laws_axioms_def fragment_ops_def fragment_summary_add_def frag_visible_dim_def fragment_text_add_def)

lemma full_offset_dim_laws: "dim_laws fragment_ops fs_ok full_offset_dim"
  using fragment_sum_laws
  by (auto simp: dim_laws_def dim_laws_axioms_def fragment_ops_def fragment_summary_add_def full_offset_dim_def fragment_text_add_def)

lemma frag_id_dim_laws: "dim_laws fragment_ops fs_ok frag_id_dim"
  using fragment_sum_laws
  by (auto simp: dim_laws_def dim_laws_axioms_def fragment_ops_def fragment_summary_add_def frag_id_dim_def locator_assign_def)

interpretation fr_text: dim_laws fragment_ops fs_ok frag_text_dim by (rule frag_text_dim_laws)
interpretation fr_vis: dim_laws fragment_ops fs_ok frag_visible_dim by (rule frag_visible_dim_laws)
interpretation fr_full: dim_laws fragment_ops fs_ok full_offset_dim by (rule full_offset_dim_laws)
interpretation fr_id: dim_laws fragment_ops fs_ok undo_dims
  unfolding undo_dims_def by (intro pair_dim_laws frag_id_dim_laws frag_visible_dim_laws)

interpretation ins: keyed insertion_ops "\<lambda>_. True" insertion_dim insertion_key
proof unfold_locales
  show "dim_zero insertion_dim \<le> insertion_key x" for x
    using lamport_MIN_le[of "if_timestamp x"]
    by (auto simp: insertion_dim_def insertion_key_zero_def insertion_key_def less_eq_insertion_fragment_key_def le_less)
qed (simp_all add: insertion_ops_def insertion_dim_def)

subsection \<open>What the summary of a sequence of fragments says\<close>

definition visible_len :: "fragment list \<Rightarrow> nat" where
  "visible_len fs = sum_list (map fr_len (filter fr_visible fs))"

definition deleted_len :: "fragment list \<Rightarrow> nat" where
  "deleted_len fs = sum_list (map fr_len (filter (\<lambda>f. \<not> fr_visible f) fs))"

definition frag_sum :: "fragment list \<Rightarrow> fragment_summary" where
  "frag_sum fs = sum_summaries fragment_ops (map (item_summary fragment_ops) fs)"

lemma frag_len_simps [simp]:
  "visible_len [] = 0" "deleted_len [] = 0"
  "visible_len (f # fs) = (if fr_visible f then fr_len f else 0) + visible_len fs"
  "deleted_len (f # fs) = (if fr_visible f then 0 else fr_len f) + deleted_len fs"
  "visible_len (fs @ gs) = visible_len fs + visible_len gs"
  "deleted_len (fs @ gs) = deleted_len fs + deleted_len gs"
  by (auto simp: visible_len_def deleted_len_def)

lemma fragment_ops_add: "add_summary fragment_ops = fragment_summary_add"
  by (simp add: fragment_ops_def)

lemma frag_sum_snoc: "frag_sum (fs @ [f]) = fragment_summary_add (frag_sum fs) (fragment_summary_of f)"
  by (simp add: frag_sum_def sum_summaries_def fragment_ops_def)

lemma frag_sum_text: "fs_text (frag_sum fs) = \<lparr>ft_visible = visible_len fs, ft_deleted = deleted_len fs\<rparr>"
proof (induction fs rule: rev_induct)
  case Nil
  show ?case by (simp add: frag_sum_def sum_summaries_def fragment_ops_def fragment_summary_default_def fragment_text_default_def)
next
  case (snoc f fs)
  then show ?case by (simp add: frag_sum_snoc fragment_summary_add_def fragment_text_add_def fragment_summary_of_def Let_def)
qed

lemma frag_sum_max_id: "max_id (frag_sum fs) = (if fs = [] then locator_min else fr_id (last fs))"
proof (cases fs rule: rev_cases)
  case Nil
  then show ?thesis by (simp add: frag_sum_def sum_summaries_def fragment_ops_def fragment_summary_default_def)
next
  case (snoc gs f)
  then show ?thesis by (simp add: frag_sum_snoc fragment_summary_add_def locator_assign_def fragment_summary_of_def Let_def)
qed

lemma frag_tree_summary: "st_wf fragment_ops fs_ok t \<Longrightarrow> node_summary t = frag_sum (to_list t)"
  unfolding frag_sum_def by (rule fr_text.wf_summary)

lemma frag_sum_append:
  assumes "ys \<noteq> []" "\<forall>f\<in>set (xs @ ys). fragment_ok f"
  shows "frag_sum (xs @ ys) = fragment_summary_add (frag_sum xs) (frag_sum ys)"
proof (cases "xs = []")
  case True
  have "fs_ok (frag_sum ys)" unfolding frag_sum_def using assms by (intro fr_text.V_sum) auto
  then have "add_summary fragment_ops (summary_zero fragment_ops) (frag_sum ys) = frag_sum ys" by (rule fr_text.zero_add)
  then show ?thesis using True by (simp add: frag_sum_def[of "[]"] sum_summaries_def fragment_ops_def)
next
  case False
  then show ?thesis
    using assms fr_text.sum_append[of "map (item_summary fragment_ops) xs" "map (item_summary fragment_ops) ys"]
    by (auto simp: frag_sum_def fragment_ops_add)
qed

subsection \<open>The builder\<close>

fun chunk_fragments :: "fragment_chunk \<Rightarrow> fragment list" where
  "chunk_fragments (Tree t) = to_list t"
| "chunk_fragments (Loose fs) = fs"

fun chunk_ok :: "fragment_chunk \<Rightarrow> bool" where
  "chunk_ok (Tree t) \<longleftrightarrow> st_wf fragment_ops fs_ok t"
| "chunk_ok (Loose fs) \<longleftrightarrow> (\<forall>f\<in>set fs. fragment_ok f)"

definition fb_rep :: "fragment_builder \<Rightarrow> fragment list \<Rightarrow> bool" where
  "fb_rep b fs \<longleftrightarrow> concat (map chunk_fragments (fb_chunks b)) = fs \<and> (\<forall>c\<in>set (fb_chunks b). chunk_ok c) \<and>
     (\<forall>f\<in>set fs. fragment_ok f) \<and> fb_summary b = frag_sum fs"

lemma wf_fragments_ok: "st_wf fragment_ops fs_ok t \<Longrightarrow> f \<in> set (to_list t) \<Longrightarrow> fragment_ok f"
proof -
  assume wf: "st_wf fragment_ops fs_ok t" and f: "f \<in> set (to_list t)"
  then have "st_good fragment_ops fs_ok (node_height t) t" by (auto simp: st_good_def)
  with fr_text.good_summary f show ?thesis by blast
qed

lemma fb_new_rep: "st_wf fragment_ops fs_ok t \<Longrightarrow> fb_rep (fb_new t) (to_list t)"
  using wf_fragments_ok[of t] by (auto simp: fb_rep_def fb_new_def st_is_empty_iff frag_tree_summary)

lemma fb_append_rep:
  assumes "fb_rep b fs" "st_wf fragment_ops fs_ok t"
  shows "fb_rep (fb_append t b) (fs @ to_list t)"
proof (cases "to_list t = []")
  case False
  have "frag_sum (fs @ to_list t) = fragment_summary_add (frag_sum fs) (frag_sum (to_list t))"
    using False assms wf_fragments_ok[OF assms(2)] by (intro frag_sum_append) (auto simp: fb_rep_def)
  then show ?thesis using False assms wf_fragments_ok[OF assms(2)]
    by (auto simp: fb_rep_def fb_append_def st_is_empty_iff frag_tree_summary)
qed (use assms in \<open>auto simp: fb_append_def st_is_empty_iff\<close>)

lemma fb_push_rep:
  assumes "fb_rep b fs" "fragment_ok f"
  shows "fb_rep (fb_push f b) (fs @ [f])"
proof (cases "fb_chunks b" rule: rev_cases)
  case (snoc cs c)
  then show ?thesis using assms frag_sum_snoc[of fs f] by (cases c) (auto simp: fb_rep_def fb_push_def vec_last_def)
qed (use assms frag_sum_snoc[of fs f] in \<open>auto simp: fb_rep_def fb_push_def vec_last_def\<close>)

lemma fb_chunk_tree_seq: "chunk_ok c \<Longrightarrow> st_wf fragment_ops fs_ok (fb_chunk_tree c) \<and> to_list (fb_chunk_tree c) = chunk_fragments c"
  by (cases c) (auto simp: fr_text.from_iter_seq)

lemma fb_build_seq:
  assumes "st_wf fragment_ops fs_ok t" "\<forall>c\<in>set cs. chunk_ok c"
  obtains t' where "fb_build cs t = Some t'" "st_wf fragment_ops fs_ok t'" "to_list t' = to_list t @ concat (map chunk_fragments cs)"
  using assms
proof (induction cs arbitrary: t thesis)
  case (Cons c cs)
  obtain u where u: "st_append fragment_ops t (fb_chunk_tree c) = Some u" "st_wf fragment_ops fs_ok u"
      "to_list u = to_list t @ to_list (fb_chunk_tree c)"
    using fr_text.st_append_seq[OF Cons.prems(2)] fb_chunk_tree_seq[of c] Cons.prems(3) by (metis list.set_intros(1))
  obtain t' where "fb_build cs u = Some t'" "st_wf fragment_ops fs_ok t'" "to_list t' = to_list u @ concat (map chunk_fragments cs)"
    by (rule Cons.IH[of u]) (use u Cons.prems in auto)
  with u show ?case using fb_chunk_tree_seq[of c] Cons.prems by auto
qed simp

lemma to_sum_tree_seq:
  assumes "fb_rep b fs"
  obtains t where "to_sum_tree b = Some t" "st_wf fragment_ops fs_ok t" "to_list t = fs"
proof -
  obtain t where "fb_build (fb_chunks b) (st_new fragment_ops) = Some t" "st_wf fragment_ops fs_ok t"
      "to_list t = to_list (st_new fragment_ops) @ concat (map chunk_fragments (fb_chunks b))"
    by (rule fb_build_seq[OF st_wf_new]) (use assms in \<open>auto simp: fb_rep_def\<close>)
  then show thesis using assms by (intro that[of t]) (simp_all add: to_sum_tree_def fb_rep_def)
qed

end
