(* ===== verification/Anchor_Correct.thy ===== *)
theory Anchor_Correct
  imports Anchor Fragment_Correct Rope_Props
begin

section \<open>Anchors name positions\<close>

text \<open>
  What a snapshot keeps: the fragments are ordered by their identifiers, the fragments of one insertion are in the order
  of its text and do not overlap, the index holds exactly the fragments, and the ropes are as long as the fragments
  say. Then an anchor taken at an offset leads back to it, and anchors compare as their offsets and biases do.
\<close>

definition fragments_ok :: "fragment list \<Rightarrow> bool" where
  "fragments_ok fs \<longleftrightarrow>
     sorted_wrt (\<lambda>f g. fr_id f < fr_id g) fs \<and>
     sorted_wrt (\<lambda>f g. fr_timestamp f = fr_timestamp g \<longrightarrow> insertion_offset f + fr_len f \<le> insertion_offset g) fs \<and>
     (\<forall>f\<in>set fs. locator_min < fr_id f \<and> fr_id f < locator_max \<and> locator_wf (fr_id f) \<and>
        lamport_MIN < fr_timestamp f \<and> fr_timestamp f < lamport_MAX \<and> 0 < fr_len f \<and> insertion_offset f + fr_len f < 2 ^ 32)"

definition snapshot_ok :: "snapshot \<Rightarrow> bool" where
  "snapshot_ok s \<longleftrightarrow>
     st_wf fragment_ops fs_ok (fragments s) \<and> fragments_ok (to_list (fragments s)) \<and>
     st_wf insertion_ops (\<lambda>_. True) (insertions s) \<and> keys_sorted insertion_key (to_list (insertions s)) \<and>
     set (to_list (insertions s)) = insertion_fragment_new ` set (to_list (fragments s)) \<and>
     (\<exists>cs. rope_text (visible_text s) cs \<and> bytes_of cs = visible_len (to_list (fragments s))) \<and>
     (\<exists>ds. rope_text (deleted_text s) ds \<and> bytes_of ds = deleted_len (to_list (fragments s)))"

subsection \<open>Finding where a sequence splits\<close>

context dim_laws
begin

lemma find_split:
  assumes wf: "st_wf D V t" and split: "to_list t = xs @ x # ys"
    and mono: "seek_mono M (target_in target b) (dim_zero M) (map (item_summary D) (to_list t))"
    and miss: "xs \<noteq> [] \<Longrightarrow> \<not> target_in target b (foldl (dim_add M) (dim_zero M) (map (item_summary D) xs))"
    and hit: "target_in target b (foldl (dim_add M) (dim_zero M) (map (item_summary D) (xs @ [x])))"
  shows "st_find M t target b = (foldl (dim_add M) (dim_zero M) (map (item_summary D) xs),
      foldl (dim_add M) (dim_zero M) (map (item_summary D) (xs @ [x])), Some x) \<and>
    (\<exists>d e. st_find_with_prev M t target b = Some (d, e, Some (vec_last xs, x)))"
proof -
  let ?S = "item_summary D" and ?f = "target_in target b"
  let ?ss = "map ?S (to_list t)"
  have ss: "?ss = map ?S xs @ ?S x # map ?S ys" by (simp add: split)
  have none: "\<forall>e\<in>set (ends M (dim_zero M) (map ?S xs)). \<not> ?f e"
  proof (cases "xs = []")
    case False
    from mono have "seek_mono M ?f (dim_zero M) (map ?S xs)" unfolding ss by (rule seek_mono_append(1))
    then show ?thesis using miss False by (intro seek_mono_last) auto
  qed simp
  have i: "seek_index M ?f (dim_zero M) ?ss = length xs"
    using none hit unfolding ss seek_index_def ends_append by (simp add: takeWhile_append2)
  have ne: "to_list t \<noteq> []" by (simp add: split)
  have "st_find M t target b = (foldl (dim_add M) (dim_zero M) (map ?S xs), foldl (dim_add M) (dim_zero M) (map ?S (xs @ [x])), Some x)"
    using st_find_index[OF wf ne mono] i by (simp add: Let_def pos_at_def split vec_get_def)
  moreover have "vec_last xs = (if length xs = 0 then None else Some (to_list t ! (length xs - 1)))"
    by (cases xs rule: rev_cases) (auto simp: vec_last_def split nth_append)
  ultimately show ?thesis using st_find_with_prev_index[OF wf ne mono] i by (simp add: Let_def)
qed

lemma find_with_prev_none:
  assumes wf: "st_wf D V t" and ne: "to_list t \<noteq> []"
    and mono: "seek_mono M (target_in target b) (dim_zero M) (map (item_summary D) (to_list t))"
    and miss: "\<not> target_in target b (foldl (dim_add M) (dim_zero M) (map (item_summary D) (to_list t)))"
  shows "\<exists>d e. st_find_with_prev M t target b = Some (d, e, None)"
proof -
  let ?ss = "map (item_summary D) (to_list t)"
  have "seek_index M (target_in target b) (dim_zero M) ?ss = length ?ss"
    using mono miss ne by (intro seek_index_none seek_mono_last) auto
  then show ?thesis using st_find_with_prev_index[OF wf ne mono] st_find_index[OF wf ne mono]
    by (simp add: Let_def vec_get_def)
qed

end

text \<open>In a tree sorted by keys the target is passed where the keys say so.\<close>

context keyed
begin

lemma foldl_key:
  assumes "keys_sorted key (xs @ [x])"
  shows "foldl (dim_add M) (dim_zero M) (map (item_summary D) (xs @ [x])) = key x"
proof -
  have "ends M (dim_zero M) (map (item_summary D) (xs @ [x])) = map key (xs @ [x])"
    using assms zero_le_key by (intro ends_keys) auto
  then show ?thesis using last_ends[of "map (item_summary D) (xs @ [x])" M "dim_zero M"] by simp
qed

lemma find_prev_key:
  assumes wf: "st_wf D V t" and sorted: "keys_sorted key (to_list t)" and split: "to_list t = us @ e # vs"
    and miss: "\<not> target_in (cmp k) b (key e)" and hit: "\<forall>v\<in>set vs. target_in (cmp k) b (key v)"
  shows "\<exists>d d'. st_find_with_prev M t (cmp k) b = Some (d, d', case vs of [] \<Rightarrow> None | v # _ \<Rightarrow> Some (Some e, v))"
proof (cases vs)
  case Nil
  have "foldl (dim_add M) (dim_zero M) (map (item_summary D) (us @ [e])) = key e"
    using sorted split Nil by (intro foldl_key) simp
  then show ?thesis using find_with_prev_none[OF wf _ key_mono(1)[OF sorted], of k b] split Nil miss by simp
next
  case (Cons v ws)
  have "keys_sorted key ((us @ [e]) @ v # ws)" "keys_sorted key (((us @ [e]) @ [v]) @ ws)" using sorted split Cons by simp_all
  then have "keys_sorted key (us @ [e])" "keys_sorted key ((us @ [e]) @ [v])" by (auto simp: keys_sorted_def sorted_wrt_append)
  note k = this[THEN foldl_key]
  have "\<exists>d d'. st_find_with_prev M t (cmp k) b = Some (d, d', Some (vec_last (us @ [e]), v))"
    using find_split[OF wf _ key_mono(1)[OF sorted], of "us @ [e]" v ws k b] split Cons k miss hit by auto
  then show ?thesis using Cons by (simp add: vec_last_def)
qed

end

subsection \<open>From an anchor to its fragment\<close>

text \<open>The fragment an anchor lies in: with bias to the left its end belongs to it, with bias to the right its start.\<close>

definition lies_in :: "anchor \<Rightarrow> fragment \<Rightarrow> bool" where
  "lies_in a f \<longleftrightarrow> an_timestamp a = fr_timestamp f \<and>
     (case an_bias a of Left \<Rightarrow> insertion_offset f < an_offset a \<and> an_offset a \<le> insertion_offset f + fr_len f
      | Right \<Rightarrow> insertion_offset f \<le> an_offset a \<and> an_offset a < insertion_offset f + fr_len f)"

lemma sorted_wrt_both: "sorted_wrt P xs \<Longrightarrow> x \<in> set xs \<Longrightarrow> y \<in> set xs \<Longrightarrow> x = y \<or> P x y \<or> P y x"
  by (induction xs) auto

lemma fragments_apart:
  assumes "fragments_ok fs" "f \<in> set fs" "g \<in> set fs" "fr_timestamp f = fr_timestamp g" "insertion_offset f < insertion_offset g"
  shows "insertion_offset f + fr_len f \<le> insertion_offset g"
  using assms sorted_wrt_both[of _ fs f g] unfolding fragments_ok_def by fastforce

lemma try_find_fragment_at:
  assumes ok: "snapshot_ok s" and f: "f \<in> set (to_list (fragments s))" and a: "lies_in a f"
  shows "try_find_fragment s a = Some (Some (insertion_fragment_new f))"
proof -
  let ?e = "insertion_fragment_new f" and ?k = "InsertionFragmentKey (an_timestamp a) (an_offset a)"
  have wf: "st_wf insertion_ops (\<lambda>_. True) (insertions s)" and sorted: "keys_sorted insertion_key (to_list (insertions s))"
    and index: "set (to_list (insertions s)) = insertion_fragment_new ` set (to_list (fragments s))"
    and frs: "fragments_ok (to_list (fragments s))"
    using ok by (auto simp: snapshot_ok_def)
  obtain us vs where split: "to_list (insertions s) = us @ ?e # vs"
    using f index by (metis imageI split_list)
  have later: "\<exists>g\<in>set (to_list (fragments s)). v = insertion_fragment_new g \<and> insertion_key ?e < insertion_key v" if v: "v \<in> set vs" for v
  proof -
    have "v \<in> set (to_list (insertions s))" using v split by simp
    moreover have "insertion_key ?e < insertion_key v" using sorted v split by (simp add: keys_sorted_def sorted_wrt_append)
    ultimately show ?thesis using index by auto
  qed
  have hit: "target_in (cmp ?k) (an_bias a) (insertion_key v)" if v: "v \<in> set vs" for v
  proof -
    obtain g where g: "g \<in> set (to_list (fragments s))" "v = insertion_fragment_new g" "insertion_key ?e < insertion_key v"
      using later[OF v] by blast
    have "fr_timestamp f < fr_timestamp g \<or> fr_timestamp f = fr_timestamp g \<and> insertion_offset f + fr_len f \<le> insertion_offset g"
      using g fragments_apart[OF frs f g(1)] by (auto simp: insertion_key_def insertion_fragment_new_def less_insertion_fragment_key_def)
    then show ?thesis using a g(2)
      by (cases "an_bias a") (auto simp: lies_in_def target_in_def insertion_key_def insertion_fragment_new_def
          less_insertion_fragment_key_def less_eq_insertion_fragment_key_def not_le not_less)
  qed
  have miss: "\<not> target_in (cmp ?k) (an_bias a) (insertion_key ?e)"
    using a by (cases "an_bias a") (auto simp: lies_in_def target_in_def insertion_key_def insertion_fragment_new_def
        less_insertion_fragment_key_def less_eq_insertion_fragment_key_def)
  obtain d d' where find: "st_find_with_prev insertion_dim (insertions s) (cmp ?k) (an_bias a) =
      Some (d, d', case vs of [] \<Rightarrow> None | v # _ \<Rightarrow> Some (Some ?e, v))"
    using ins.find_prev_key[OF wf sorted split miss] hit by blast
  show ?thesis
  proof (cases vs)
    case Nil
    then show ?thesis using find split by (simp add: try_find_fragment_def st_last_seq[OF wf] vec_last_def)
  next
    case (Cons v ws)
    have "cmp (insertion_key v) ?k = Greater \<or> (an_bias a = Left \<and> cmp (insertion_key v) ?k = Equal \<and> an_offset a > 0)"
      using hit[of v] Cons a
      by (cases "an_bias a") (auto simp: ins.target_in_Left ins.target_in_Right lies_in_def le_less simp del: less_insertion_fragment_key_def)
    then show ?thesis using find Cons by (simp add: try_find_fragment_def)
  qed
qed

lemma foldl_undo_dims:
  "foldl (dim_add undo_dims) (d, n) (map (item_summary fragment_ops) fs) =
     (if fs = [] then d else Some (fr_id (last fs)), n + visible_len fs)"
  by (induction fs arbitrary: d n)
     (auto simp: undo_dims_def pair_dim_def frag_id_dim_def frag_visible_dim_def fragment_ops_def fragment_summary_of_def Let_def)

lemma ends_undo_dims:
  "map fst (ends undo_dims d (map (item_summary fragment_ops) fs)) = map (\<lambda>f. Some (fr_id f)) fs"
  by (induction fs arbitrary: d)
     (auto simp: undo_dims_def pair_dim_def frag_id_dim_def fragment_ops_def fragment_summary_of_def Let_def split: prod.splits)

lemma id_seek_mono:
  assumes "sorted_wrt (\<lambda>f g. fr_id f < fr_id g) fs"
  shows "seek_mono undo_dims (target_in (pair_target (cmp (Some k))) b) d (map (item_summary fragment_ops) fs)"
proof -
  have "sorted_wrt (\<lambda>x y. x < y) (map fst (ends undo_dims d (map (item_summary fragment_ops) fs)))"
    unfolding ends_undo_dims using assms by (simp add: sorted_wrt_map)
  then have "sorted_wrt (\<lambda>x y. fst x < fst y) (ends undo_dims d (map (item_summary fragment_ops) fs))"
    by (simp add: sorted_wrt_map)
  then show ?thesis unfolding seek_mono_def
    by (rule sorted_wrt_mono_rel[rotated]) (auto simp: target_in_def pair_target_def)
qed

lemma find_fragment_at:
  assumes ok: "snapshot_ok s" and split: "to_list (fragments s) = us @ f # vs"
  shows "find_fragment s (fr_id f) = (visible_len us, Some f)"
proof -
  have wf: "st_wf fragment_ops fs_ok (fragments s)" and sorted: "sorted_wrt (\<lambda>f g. fr_id f < fr_id g) (to_list (fragments s))"
    using ok by (auto simp: snapshot_ok_def fragments_ok_def)
  have zero: "dim_zero undo_dims = (None, 0)" by (simp add: undo_dims_def pair_dim_def frag_id_dim_def frag_visible_dim_def)
  have before: "fr_id (last us) < fr_id f" if "us \<noteq> []"
    using sorted split that by (simp add: sorted_wrt_append)
  have "st_find undo_dims (fragments s) (pair_target (cmp (Some (fr_id f)))) Left =
      (foldl (dim_add undo_dims) (dim_zero undo_dims) (map (item_summary fragment_ops) us),
       foldl (dim_add undo_dims) (dim_zero undo_dims) (map (item_summary fragment_ops) (us @ [f])), Some f)"
    by (rule fr_id.find_split[OF wf split id_seek_mono[OF sorted], THEN conjunct1])
       (use before in \<open>auto simp: zero foldl_undo_dims target_in_def pair_target_def simp del: map_append\<close>)
  then show ?thesis by (simp add: find_fragment_def zero foldl_undo_dims)
qed

subsection \<open>From an offset to its fragment\<close>

lemma foldl_visible_dim: "foldl (dim_add frag_visible_dim) n (map (item_summary fragment_ops) fs) = n + visible_len fs"
  by (induction fs arbitrary: n) (auto simp: frag_visible_dim_def fragment_ops_def fragment_summary_of_def Let_def)

lemma ends_visible_le: "e \<in> set (ends frag_visible_dim n (map (item_summary fragment_ops) fs)) \<Longrightarrow> n \<le> e"
  by (induction fs arbitrary: n) (auto simp: frag_visible_dim_def fragment_ops_def fragment_summary_of_def Let_def dest: add_leD1)

lemma visible_seek_mono: "seek_mono frag_visible_dim (target_in (cmp (k :: nat)) b) n (map (item_summary fragment_ops) fs)"
proof -
  have "sorted (ends frag_visible_dim n (map (item_summary fragment_ops) fs))"
  proof (induction fs arbitrary: n)
    case (Cons f fs)
    then show ?case using ends_visible_le by auto
  qed simp
  then show ?thesis unfolding seek_mono_def by (rule sorted_wrt_mono_rel[rotated]) (auto simp: target_in_def)
qed

text \<open>The visible fragment at an offset, on the side of the bias.\<close>

definition offset_in :: "nat \<Rightarrow> bias \<Rightarrow> fragment list \<Rightarrow> fragment \<Rightarrow> bool" where
  "offset_in offset b us f \<longleftrightarrow> fr_visible f \<and>
     (case b of Left \<Rightarrow> visible_len us < offset \<and> offset \<le> visible_len us + fr_len f
      | Right \<Rightarrow> visible_len us \<le> offset \<and> offset < visible_len us + fr_len f)"

lemma offset_in_ex:
  assumes "case b of Left \<Rightarrow> 0 < offset \<and> offset \<le> visible_len fs | Right \<Rightarrow> offset < visible_len fs"
  obtains us f vs where "fs = us @ f # vs" "offset_in offset b us f"
  using assms
proof (induction fs arbitrary: offset thesis)
  case (Cons f fs)
  show ?case
  proof (cases "offset_in offset b [] f")
    case False
    let ?n = "if fr_visible f then fr_len f else 0"
    have le: "?n \<le> offset" "case b of Left \<Rightarrow> 0 < offset - ?n \<and> offset - ?n \<le> visible_len fs | Right \<Rightarrow> offset - ?n < visible_len fs"
      using False Cons.prems(2) by (auto simp: offset_in_def split: bias.splits if_splits)
    obtain us g vs where "fs = us @ g # vs" "offset_in (offset - ?n) b us g"
      by (rule Cons.IH[OF _ le(2)])
    with le(1) show ?thesis by (intro Cons.prems(1)[of "f # us" g vs]) (auto simp: offset_in_def split: bias.splits)
  qed (use Cons.prems(1)[of "[]" f fs] in simp)
qed (auto split: bias.splits)

lemma find_offset:
  assumes wf: "st_wf fragment_ops fs_ok (fragments s)" and split: "to_list (fragments s) = us @ f # vs"
    and o: "offset_in offset b us f"
  shows "\<exists>e. st_find frag_visible_dim (fragments s) (cmp offset) b = (visible_len us, e, Some f)"
proof -
  have zero: "dim_zero frag_visible_dim = 0" by (simp add: frag_visible_dim_def)
  have "st_find frag_visible_dim (fragments s) (cmp offset) b =
      (foldl (dim_add frag_visible_dim) (dim_zero frag_visible_dim) (map (item_summary fragment_ops) us),
       foldl (dim_add frag_visible_dim) (dim_zero frag_visible_dim) (map (item_summary fragment_ops) (us @ [f])), Some f)"
    by (rule fr_vis.find_split[OF wf split visible_seek_mono, THEN conjunct1])
       (use o in \<open>auto simp: zero foldl_visible_dim target_in_def offset_in_def simp del: map_append split: bias.splits\<close>)
  then show ?thesis by (simp add: zero foldl_visible_dim)
qed

subsection \<open>Anchors at offsets\<close>

definition anchor_spec :: "snapshot \<Rightarrow> nat \<Rightarrow> bias \<Rightarrow> anchor \<Rightarrow> bool" where
  "anchor_spec s offset b a \<longleftrightarrow>
     b = Left \<and> offset = 0 \<and> a = min_for_buffer (remote_id s) \<or>
     b = Right \<and> offset = visible_len (to_list (fragments s)) \<and> a = max_for_buffer (remote_id s) \<or>
     (\<exists>us f vs. to_list (fragments s) = us @ f # vs \<and> offset_in offset b us f \<and>
        a = anchor_new (fr_timestamp f) (insertion_offset f + (offset - visible_len us)) b (remote_id s))"

lemma snapshot_len:
  assumes "snapshot_ok s"
  shows "rope_len (visible_text s) = visible_len (to_list (fragments s))"
proof -
  obtain cs where cs: "rope_text (visible_text s) cs" "bytes_of cs = visible_len (to_list (fragments s))"
    using assms by (auto simp: snapshot_ok_def)
  then show ?thesis by (metis rope_textE rope_sizes(2))
qed

lemma anchor_at_offset_spec:
  assumes ok: "snapshot_ok s" and vt: "rope_text (visible_text s) (xs @ ys)"
  obtains a where "anchor_at_offset s (length (str_of xs)) b = Some a" "anchor_spec s (length (str_of xs)) b a"
proof -
  let ?o = "length (str_of xs)" and ?fs = "to_list (fragments s)"
  obtain css where r: "rope_rep (visible_text s) css" "[] \<notin> set css" "concat css = xs @ ys" using vt by (rule rope_textE)
  have "\<forall>c\<in>set ys. is_scalar c" using rope_rep_scalars[OF r(1)] r(3) by simp
  then have ok1: "rope_assert_char_boundary False (visible_text s) ?o = Some True"
    using rope_assert_rep[OF r(1,2), of False ?o] boundary_of_prefix[of ys xs] r(3) by simp
  have len: "rope_len (visible_text s) = visible_len ?fs" using ok by (rule snapshot_len)
  have le: "?o \<le> visible_len ?fs" using rope_sizes(2)[OF r(1)] r(3) len by simp
  consider "b = Left" "?o = 0" | "b = Right" "?o = visible_len ?fs" |
      "case b of Left \<Rightarrow> 0 < ?o \<and> ?o \<le> visible_len ?fs | Right \<Rightarrow> ?o < visible_len ?fs"
    using le by (cases b; cases "?o = 0"; cases "?o = visible_len ?fs") auto
  then show thesis
  proof cases
    case 3
    then obtain us f vs where f: "?fs = us @ f # vs" "offset_in ?o b us f" by (rule offset_in_ex)
    obtain e where find: "st_find frag_visible_dim (fragments s) (cmp ?o) b = (visible_len us, e, Some f)"
      using find_offset[OF _ f] ok by (auto simp: snapshot_ok_def)
    have over: "checked_sub ?o (visible_len us) = Some (?o - visible_len us)"
      using f(2) by (auto simp: checked_sub_def offset_in_def split: bias.splits)
    have edge: "\<not> (b = Left \<and> ?o = 0)" "\<not> (b = Right \<and> rope_len (visible_text s) \<le> ?o)" using 3 len by (auto split: bias.splits)
    have "anchor_at_offset s ?o b = Some (anchor_new (fr_timestamp f) (insertion_offset f + (?o - visible_len us)) b (remote_id s))"
      unfolding anchor_at_offset_def if_not_P[OF edge(1)] if_not_P[OF edge(2)] using ok1 find over by simp
    then show thesis using f by (intro that) (auto simp: anchor_spec_def)
  qed (use that len in \<open>auto simp: anchor_at_offset_def anchor_spec_def\<close>)
qed

lemma spec_lies_in:
  assumes "offset_in offset b us f"
  shows "lies_in (anchor_new (fr_timestamp f) (insertion_offset f + (offset - visible_len us)) b n) f"
  using assms by (auto simp: offset_in_def lies_in_def anchor_new_def split: bias.splits)

lemma lies_in_inner:
  assumes "fragments_ok fs" "f \<in> set fs" "lies_in a f"
  shows "\<not> is_min a \<and> \<not> is_max a"
  using assms by (auto simp: fragments_ok_def lies_in_def is_min_def is_max_def split: bias.splits)

lemma anchor_spec_offset:
  assumes ok: "snapshot_ok s" and a: "anchor_spec s offset b a"
  shows "offset_for_anchor s a = Some offset"
  using a unfolding anchor_spec_def
proof (elim disjE conjE exE)
  fix us f vs
  assume f: "to_list (fragments s) = us @ f # vs" "offset_in offset b us f"
    and a: "a = anchor_new (fr_timestamp f) (insertion_offset f + (offset - visible_len us)) b (remote_id s)"
  have l: "lies_in a f" unfolding a using f(2) by (rule spec_lies_in)
  have mem: "f \<in> set (to_list (fragments s))" using f(1) by simp
  have inner: "\<not> is_min a" "\<not> is_max a" using lies_in_inner[OF _ mem l] ok by (auto simp: snapshot_ok_def)
  have "visible_len us \<le> offset" "fr_visible f" using f(2) by (auto simp: offset_in_def split: bias.splits)
  then show ?thesis
    using inner try_find_fragment_at[OF ok mem l] find_fragment_at[OF ok f(1)]
    by (simp add: offset_for_anchor_def insertion_fragment_new_def checked_sub_def a anchor_new_def)
qed (use snapshot_len[OF ok] in \<open>simp_all add: offset_for_anchor_def min_for_buffer_def max_for_buffer_def is_min_def is_max_def anchor_new_def\<close>)

subsection \<open>The order of anchors\<close>

lemma cmp_bias_simps [simp]: "cmp_bias b b = Equal" "cmp_bias b c = Less \<longleftrightarrow> b = Left \<and> c = Right" "cmp_bias b c = Greater \<longleftrightarrow> b = Right \<and> c = Left"
  by (cases b; cases c; simp)+

text \<open>An offset with a bias comes before another.\<close>

definition position_less :: "nat \<Rightarrow> bias \<Rightarrow> nat \<Rightarrow> bias \<Rightarrow> bool" where
  "position_less o1 b1 o2 b2 \<longleftrightarrow> o1 < o2 \<or> o1 = o2 \<and> b1 = Left \<and> b2 = Right"

lemma position_less_cmp:
  assumes "position_less o1 b1 o2 b2"
  shows "then_with (cmp o1 o2) (cmp_bias b1 b2) = Less" "then_with (cmp o2 o1) (cmp_bias b2 b1) = Greater"
  using assms by (auto simp: position_less_def)

lemma anchor_cmp_less:
  assumes "fragment_id_for_anchor s a = Some i" "fragment_id_for_anchor s b = Some j"
    and "if an_timestamp a = an_timestamp b then position_less (an_offset a) (an_bias a) (an_offset b) (an_bias b) else i < j"
  shows "anchor_cmp a b s = Some Less" "anchor_cmp b a s = Some Greater"
  using assms by (auto simp: anchor_cmp_def position_less_def split: if_splits)

lemma fragment_id_lies_in:
  assumes "snapshot_ok s" "f \<in> set (to_list (fragments s))" "lies_in a f"
  shows "fragment_id_for_anchor s a = Some (fr_id f)"
  using assms lies_in_inner[of "to_list (fragments s)" f a] try_find_fragment_at[OF assms]
  by (simp add: fragment_id_for_anchor_def try_fragment_id_for_anchor_def snapshot_ok_def insertion_fragment_new_def)

lemma fragment_id_ends:
  "fragment_id_for_anchor s (min_for_buffer n) = Some locator_min" "fragment_id_for_anchor s (max_for_buffer n) = Some locator_max"
  by (auto simp: fragment_id_for_anchor_def try_fragment_id_for_anchor_def min_for_buffer_def max_for_buffer_def is_min_def is_max_def
      anchor_new_def)

definition inner_spec :: "snapshot \<Rightarrow> nat \<Rightarrow> bias \<Rightarrow> anchor \<Rightarrow> nat \<Rightarrow> fragment \<Rightarrow> bool" where
  "inner_spec s offset b a i f \<longleftrightarrow> i < length (to_list (fragments s)) \<and> f = to_list (fragments s) ! i \<and>
     offset_in offset b (take i (to_list (fragments s))) f \<and>
     a = anchor_new (fr_timestamp f) (insertion_offset f + (offset - visible_len (take i (to_list (fragments s))))) b (remote_id s)"

lemma visible_len_take:
  assumes "i < j" "j < length fs"
  shows "visible_len (take i fs) + (if fr_visible (fs ! i) then fr_len (fs ! i) else 0) \<le> visible_len (take j fs)"
proof -
  have "take j fs = take i fs @ fs ! i # drop (Suc i) (take j fs)"
    using id_take_nth_drop[of i "take j fs"] assms by (simp add: min_absorb1)
  then have "visible_len (take j fs) = visible_len (take i fs @ fs ! i # drop (Suc i) (take j fs))" by simp
  then show ?thesis by (auto simp only: frag_len_simps split: if_splits)
qed

lemma inner_cmp_less:
  assumes ok: "snapshot_ok s" and a: "inner_spec s o1 b1 a i f" and b: "inner_spec s o2 b2 b j g" and ij: "i < j"
  shows "anchor_cmp a b s = Some Less \<and> anchor_cmp b a s = Some Greater \<and> position_less o1 b1 o2 b2"
proof -
  let ?fs = "to_list (fragments s)"
  have f: "f \<in> set ?fs" "lies_in a f" "an_timestamp a = fr_timestamp f" "an_bias a = b1" "fr_visible f"
    and g: "g \<in> set ?fs" "lies_in b g" "an_timestamp b = fr_timestamp g" "an_bias b = b2"
    using a b spec_lies_in by (auto simp: inner_spec_def anchor_new_def offset_in_def)
  have ord: "fr_id f < fr_id g" "fr_timestamp f = fr_timestamp g \<Longrightarrow> insertion_offset f + fr_len f \<le> insertion_offset g"
    using ok a b ij unfolding snapshot_ok_def fragments_ok_def inner_spec_def by (auto simp: sorted_wrt_iff_nth_less)
  have "position_less (an_offset a) (an_bias a) (an_offset b) (an_bias b)" if "fr_timestamp f = fr_timestamp g"
    using ord(2)[OF that] f(2,4) g(2,4) by (cases b1; cases b2) (auto simp: lies_in_def position_less_def)
  then have "if an_timestamp a = an_timestamp b then position_less (an_offset a) (an_bias a) (an_offset b) (an_bias b) else fr_id f < fr_id g"
    using ord(1) f(3) g(3) by simp
  note cmp = anchor_cmp_less[OF fragment_id_lies_in[OF ok f(1,2)] fragment_id_lies_in[OF ok g(1,2)] this]
  have "visible_len (take i ?fs) + fr_len f \<le> visible_len (take j ?fs)"
    using visible_len_take[OF ij, of ?fs] a b f(5) by (simp add: inner_spec_def)
  then have "position_less o1 b1 o2 b2"
    using a b by (cases b1; cases b2) (auto simp: inner_spec_def offset_in_def position_less_def)
  with cmp show ?thesis by blast
qed

lemma anchor_specE:
  assumes "anchor_spec s offset b a"
  obtains "b = Left" "offset = 0" "a = min_for_buffer (remote_id s)"
  | "b = Right" "offset = visible_len (to_list (fragments s))" "a = max_for_buffer (remote_id s)"
  | i f where "inner_spec s offset b a i f"
  using assms unfolding anchor_spec_def
proof (elim disjE conjE exE)
  fix us f vs
  assume "to_list (fragments s) = us @ f # vs" "offset_in offset b us f"
    "a = anchor_new (fr_timestamp f) (insertion_offset f + (offset - visible_len us)) b (remote_id s)"
  then have "inner_spec s offset b a (length us) f" by (simp add: inner_spec_def nth_append)
  then show thesis by (rule that(3))
qed (use that in blast)+

text \<open>The outermost anchors are on the outside.\<close>

lemma outer_cmp:
  "anchor_cmp (min_for_buffer n) (max_for_buffer m) s = Some Less" "anchor_cmp (max_for_buffer m) (min_for_buffer n) s = Some Greater"
proof -
  have "locator_min < locator_max" "lamport_MIN \<noteq> lamport_MAX"
    by (simp_all add: locator_min_def locator_max_def lamport_MIN_def lamport_MAX_def word_gt_0)
  then have "if an_timestamp (min_for_buffer n) = an_timestamp (max_for_buffer m)
      then position_less (an_offset (min_for_buffer n)) (an_bias (min_for_buffer n)) (an_offset (max_for_buffer m)) (an_bias (max_for_buffer m))
      else locator_min < locator_max"
    by (simp add: min_for_buffer_def max_for_buffer_def anchor_new_def)
  from anchor_cmp_less[OF fragment_id_ends this]
  show "anchor_cmp (min_for_buffer n) (max_for_buffer m) s = Some Less" "anchor_cmp (max_for_buffer m) (min_for_buffer n) s = Some Greater" .
qed

lemma inner_between:
  assumes ok: "snapshot_ok s" and a: "inner_spec s offset b a i f"
  shows "anchor_cmp (min_for_buffer n) a s = Some Less" "anchor_cmp a (min_for_buffer n) s = Some Greater" "position_less 0 Left offset b"
    "anchor_cmp a (max_for_buffer n) s = Some Less" "anchor_cmp (max_for_buffer n) a s = Some Greater"
    "position_less offset b (visible_len (to_list (fragments s))) Right"
proof -
  let ?fs = "to_list (fragments s)"
  have f: "f \<in> set ?fs" "lies_in a f" "an_timestamp a = fr_timestamp f" using a spec_lies_in by (auto simp: inner_spec_def anchor_new_def)
  have bounds: "locator_min < fr_id f" "fr_id f < locator_max" "lamport_MIN \<noteq> fr_timestamp f" "fr_timestamp f \<noteq> lamport_MAX"
    using ok f(1) by (auto simp: snapshot_ok_def fragments_ok_def)
  have id: "fragment_id_for_anchor s a = Some (fr_id f)" by (rule fragment_id_lies_in[OF ok f(1,2)])
  show "anchor_cmp (min_for_buffer n) a s = Some Less" "anchor_cmp a (min_for_buffer n) s = Some Greater"
    using anchor_cmp_less[OF fragment_id_ends(1) id, of n] bounds f(3) by (simp_all add: min_for_buffer_def anchor_new_def)
  show "anchor_cmp a (max_for_buffer n) s = Some Less" "anchor_cmp (max_for_buffer n) a s = Some Greater"
    using anchor_cmp_less[OF id fragment_id_ends(2), of n] bounds f(3) by (simp_all add: max_for_buffer_def anchor_new_def)
  have "?fs = take i ?fs @ f # drop (Suc i) ?fs" using a id_take_nth_drop by (auto simp: inner_spec_def)
  then have "visible_len ?fs = visible_len (take i ?fs) + ((if fr_visible f then fr_len f else 0) + visible_len (drop (Suc i) ?fs))"
    by (metis frag_len_simps(3,5))
  moreover have "fr_visible f" using a unfolding inner_spec_def offset_in_def by blast
  ultimately have "visible_len (take i ?fs) + fr_len f \<le> visible_len ?fs" by simp
  then show "position_less 0 Left offset b" "position_less offset b (visible_len ?fs) Right"
    using a by (auto simp: inner_spec_def offset_in_def position_less_def split: bias.splits; cases b; simp)+
qed

lemma anchor_spec_cmp:
  assumes ok: "snapshot_ok s" and a: "anchor_spec s o1 b1 a" and b: "anchor_spec s o2 b2 b"
  shows "anchor_cmp a b s = Some (then_with (cmp o1 o2) (cmp_bias b1 b2))"
  using a
proof (cases rule: anchor_specE)
  case 1
  note m = 1
  show ?thesis using b
  proof (cases rule: anchor_specE)
    case 2
    then show ?thesis using m outer_cmp(1) by (auto simp: cmp_def)
  next
    case (3 i f)
    then show ?thesis using m inner_between(1,3)[OF ok 3] position_less_cmp by metis
  qed (use m in \<open>simp add: anchor_cmp_def cmp_def\<close>)
next
  case 2
  note m = 2
  show ?thesis using b
  proof (cases rule: anchor_specE)
    case 1
    then show ?thesis using m outer_cmp(2) by (auto simp: cmp_def)
  next
    case (3 i f)
    then show ?thesis using m inner_between(5,6)[OF ok 3] position_less_cmp by metis
  qed (use m in \<open>simp add: anchor_cmp_def cmp_def\<close>)
next
  case (3 i f)
  note m = 3
  show ?thesis using b
  proof (cases rule: anchor_specE)
    case 1
    then show ?thesis using inner_between(2,3)[OF ok m] position_less_cmp by metis
  next
    case 2
    then show ?thesis using inner_between(4,6)[OF ok m] position_less_cmp by metis
  next
    case (3 j g)
    consider "i < j" | "j < i" | "i = j" by linarith
    then show ?thesis
    proof cases
      case 1
      then show ?thesis using inner_cmp_less[OF ok m 3] position_less_cmp by metis
    next
      case 2
      then show ?thesis using inner_cmp_less[OF ok 3 m] position_less_cmp by metis
    next
      case same: 3
      have "visible_len (take i (to_list (fragments s))) \<le> o1" "visible_len (take i (to_list (fragments s))) \<le> o2"
        using m 3 same by (auto simp: inner_spec_def offset_in_def split: bias.splits)
      then have "cmp (an_offset a) (an_offset b) = cmp o1 o2"
        using m 3 same by (auto simp: inner_spec_def anchor_new_def cmp_def)
      then show ?thesis using m 3 same by (auto simp: anchor_cmp_def inner_spec_def anchor_new_def)
    qed
  qed
qed

lemma anchor_spec_valid:
  assumes ok: "snapshot_ok s" and a: "anchor_spec s offset b a"
  shows "is_valid a s = Some True \<and> an_bias a = b"
  using a
proof (cases rule: anchor_specE)
  case (3 i f)
  let ?fs = "to_list (fragments s)"
  have f: "f \<in> set ?fs" "lies_in a f" "an_buffer a = remote_id s" "an_bias a = b" using 3 spec_lies_in by (auto simp: inner_spec_def anchor_new_def)
  have vis: "fr_visible f" using 3 unfolding inner_spec_def offset_in_def by blast
  have inner: "\<not> is_min a" "\<not> is_max a" using lies_in_inner[OF _ f(1,2)] ok by (auto simp: snapshot_ok_def)
  have split: "?fs = take i ?fs @ f # drop (Suc i) ?fs" using 3 id_take_nth_drop by (auto simp: inner_spec_def)
  have "try_fragment_id_for_anchor s a = Some (Some (fr_id f))"
    using inner try_find_fragment_at[OF ok f(1,2)] by (simp add: try_fragment_id_for_anchor_def insertion_fragment_new_def)
  then show ?thesis using f(3,4) inner vis find_fragment_at[OF ok split] by (simp add: is_valid_def)
qed (simp_all add: is_valid_def min_for_buffer_def max_for_buffer_def is_min_def is_max_def anchor_new_def)

end
