(* ===== verification/Buffer_Correct.thy ===== *)
theory Buffer_Correct
  imports Buffer_Ops Anchor_Correct
begin

section \<open>What a new buffer is\<close>

text \<open>
  A buffer made from a text shorter than 4 GiB is well-formed: it has one fragment that covers the text, or none when
  the text is empty. The properties of anchors are stated here, with such a buffer as their witness.
\<close>

lemma lamport_new_bounds: "lamport_MIN < lamport_new r" "lamport_new r < lamport_MAX"
  by (auto simp: lamport_new_def lamport_MIN_def lamport_MAX_def lamport_less_iff word_gt_0 word_less_nat_alt unsigned_minus_1_eq_mask mask_eq_exp_minus_1)

lemma locator_first: "locator_min < between locator_min locator_max \<and> between locator_min locator_max < locator_max \<and>
    locator_wf (between locator_min locator_max)"
proof -
  have "locator_min < locator_max" "locator_wf locator_max"
    by (simp_all add: locator_min_def locator_max_def locator_wf_def word_gt_0)
  then show ?thesis by (simp add: between_greater between_less locator_wf_between)
qed

definition base_fragment :: "lamport \<Rightarrow> nat \<Rightarrow> fragment" where
  "base_fragment timestamp n =
     \<lparr>fr_id = between locator_min locator_max, fr_timestamp = timestamp, insertion_offset = 0, fr_len = n, fr_visible = True,
      deletions = [], max_undos = global_new\<rparr>"

lemma base_fragments_small:
  assumes "rope_len r < 2 ^ 32"
  shows "base_fragments r timestamp 0 locator_min = Some (if rope_len r = 0 then [] else [base_fragment timestamp (rope_len r)])"
proof -
  have "min (rope_len r) MAX_INSERTION_LEN = rope_len r" using assms by (simp add: MAX_INSERTION_LEN_def)
  then show ?thesis using assms
    by (subst base_fragments.simps) (simp add: Let_def base_fragments.simps[of r timestamp "rope_len r"] base_fragment_def)
qed

lemma rope_new_text: "rope_text rope_new []"
  by (rule rope_textI[of _ "[]", simplified]) (auto simp: rope_rep_def rope_new_def well_filled_def)

lemma snapshot_ok_base:
  assumes r: "rope_text r cs" and n: "rope_len r < 2 ^ 32" and t: "lamport_MIN < timestamp" "timestamp < lamport_MAX"
    and f: "fs = (if rope_len r = 0 then [] else [base_fragment timestamp (rope_len r)])"
    and s: "visible_text s = r" "deleted_text s = rope_new" "st_wf fragment_ops fs_ok (fragments s)" "to_list (fragments s) = fs"
      "st_wf insertion_ops (\<lambda>_. True) (insertions s)" "to_list (insertions s) = map insertion_fragment_new fs"
  shows "snapshot_ok s"
proof -
  have "rope_len r = bytes_of cs" using r by (metis rope_textE rope_sizes(2))
  then have len: "bytes_of cs = visible_len fs" "deleted_len fs = 0" using f by (auto simp: base_fragment_def)
  have "fragments_ok fs" using f n t locator_first by (auto simp: fragments_ok_def base_fragment_def)
  moreover have "keys_sorted insertion_key (map insertion_fragment_new fs)" using f by (auto simp: keys_sorted_def)
  moreover have "\<exists>ds. rope_text rope_new ds \<and> bytes_of ds = 0" using rope_new_text by (intro exI[of _ "[]"]) simp
  ultimately show ?thesis using r s len unfolding snapshot_ok_def s by (simp only: set_map) blast
qed

lemma fold_push_fragments:
  assumes "\<forall>f\<in>set fs. fragment_ok f" "st_wf fragment_ops fs_ok t"
  shows "\<exists>t'. fold_m (\<lambda>f t. st_push fragment_ops t f) fs t = Some t' \<and> st_wf fragment_ops fs_ok t' \<and> to_list t' = to_list t @ fs"
  using assms
proof (induction fs arbitrary: t)
  case (Cons f fs)
  obtain u where "st_push fragment_ops t f = Some u" "st_wf fragment_ops fs_ok u" "to_list u = to_list t @ [f]"
    using Cons.prems fr_text.st_push_seq[of t f] by auto
  with Cons.IH[of u] Cons.prems show ?case by auto
qed simp

lemma fold_push_insertions:
  assumes "st_wf insertion_ops (\<lambda>_. True) t"
  shows "\<exists>t'. fold_m (\<lambda>f t. st_push insertion_ops t (insertion_fragment_new f)) fs t = Some t' \<and>
    st_wf insertion_ops (\<lambda>_. True) t' \<and> to_list t' = to_list t @ map insertion_fragment_new fs"
  using assms
proof (induction fs arbitrary: t)
  case (Cons f fs)
  obtain u where "st_push insertion_ops t (insertion_fragment_new f) = Some u" "st_wf insertion_ops (\<lambda>_. True) u"
      "to_list u = to_list t @ [insertion_fragment_new f]"
    using Cons.prems ins.st_push_seq[of t "insertion_fragment_new f"] by auto
  with Cons.IH[of u] show ?case by auto
qed simp

lemma buffer_new_ok:
  assumes r: "rope_text r cs" and n: "rope_len r < 2 ^ 32"
  obtains b where "buffer_new_normalized replica remote ending r = Some b" "snapshot_ok (snap b)" "visible_text (snap b) = r"
    "version (snap b) = (if rope_is_empty r then global_new else global_observe global_new (lamport_new LOCAL))"
    "deferred_ops b = queue_new op_timestamp" "deferred_replicas b = {}" "hist b = history_new r"
proof -
  let ?fs = "if rope_len r = 0 then [] else [base_fragment (lamport_new LOCAL) (rope_len r)]"
  have base: "base_fragments r (lamport_new LOCAL) 0 locator_min = Some ?fs" using n by (rule base_fragments_small)
  have "\<forall>f\<in>set ?fs. fragment_ok f" by (simp add: base_fragment_def)
  from fold_push_fragments[OF this st_wf_new] obtain t where t: "fold_m (\<lambda>f t. st_push fragment_ops t f) ?fs (st_new fragment_ops) = Some t"
      "st_wf fragment_ops fs_ok t" "to_list t = ?fs"
    by (metis append_Nil to_list_new)
  from fold_push_insertions[OF st_wf_new, of ?fs] obtain u where
    u: "fold_m (\<lambda>f t. st_push insertion_ops t (insertion_fragment_new f)) ?fs (st_new insertion_ops) = Some u"
      "st_wf insertion_ops (\<lambda>_. True) u" "to_list u = map insertion_fragment_new ?fs"
    by (metis append_Nil to_list_new)
  obtain b where b: "buffer_new_normalized replica remote ending r = Some b" "visible_text (snap b) = r" "deleted_text (snap b) = rope_new"
      "fragments (snap b) = t" "insertions (snap b) = u" "deferred_ops b = queue_new op_timestamp" "deferred_replicas b = {}" "hist b = history_new r"
      "version (snap b) = (if rope_is_empty r then global_new else global_observe global_new (lamport_new LOCAL))"
    using base t(1) u(1) by (auto simp: buffer_new_normalized_def Let_def)
  have "snapshot_ok (snap b)"
    by (rule snapshot_ok_base[OF r n lamport_new_bounds refl b(2,3)]) (use t u b in simp_all)
  with b show thesis by (intro that) auto
qed

subsection \<open>Anchors\<close>

text \<open>
  C8: Anchors lead back to where they were taken. At every character boundary of a well-formed snapshot and with either
  bias, an anchor can be taken; it is valid, and resolving it in the same snapshot returns the offset, through the index
  of insertions and the tree of fragments, whichever fragments of the insertion are split, deleted or moved apart.
\<close>

theorem anchor_roundtrip:
  assumes "snapshot_ok s" "rope_text (visible_text s) (xs @ ys)"
  shows "\<exists>a. anchor_at_offset s (length (str_of xs)) b = Some a \<and> offset_for_anchor s a = Some (length (str_of xs)) \<and>
    is_valid a s = Some True \<and> an_bias a = b"
proof -
  obtain a where a: "anchor_at_offset s (length (str_of xs)) b = Some a" "anchor_spec s (length (str_of xs)) b a"
    using assms by (rule anchor_at_offset_spec)
  then show ?thesis using anchor_spec_offset[OF assms(1) a(2)] anchor_spec_valid[OF assms(1) a(2)] by blast
qed

text \<open>
  C9: Anchors compare as the positions they were taken at. For two character boundaries of a well-formed snapshot with
  any biases, the comparison of the anchors, by the identifiers of their fragments and their offsets in the insertions,
  is the comparison of the offsets and, at the same offset, of the biases.
\<close>

theorem anchor_order:
  assumes "snapshot_ok s" "rope_text (visible_text s) (xs @ xs')" "rope_text (visible_text s) (ys @ ys')"
    and "anchor_at_offset s (length (str_of xs)) b = Some x" "anchor_at_offset s (length (str_of ys)) c = Some y"
  shows "anchor_cmp x y s = Some (then_with (cmp (length (str_of xs)) (length (str_of ys))) (cmp_bias b c))"
proof -
  have "anchor_spec s (length (str_of xs)) b x" using anchor_at_offset_spec[OF assms(1,2), of b] assms(4) by auto
  moreover have "anchor_spec s (length (str_of ys)) c y" using anchor_at_offset_spec[OF assms(1,3), of c] assms(5) by auto
  ultimately show ?thesis by (rule anchor_spec_cmp[OF assms(1)])
qed

text \<open>A small buffer to try them on.\<close>

lemma small_buffer:
  obtains r b where "rope_from (str_of [0x68, 0x69]) = Some r" "rope_text r [0x68, 0x69]" "length (str_of [0x68]) = 1"
    "buffer_new_normalized 3 7 Unix r = Some b" "snapshot_ok (snap b)" "visible_text (snap b) = r"
proof -
  have s: "\<forall>c\<in>set [0x68, 0x69]. is_scalar c" "[0x68, 0x69] \<noteq> ([] :: scalar list)" "bytes_of [0x68, 0x69] \<le> MAX_BASE"
    by (simp_all add: is_scalar_def len_utf8_def MAX_BASE_def)
  obtain r where r: "rope_from (str_of [0x68, 0x69]) = Some r" "rope_rep r [[0x68, 0x69]]" "node_height (chunks r) = 0"
    using s by (rule rope_from_small)
  have t: "rope_text r [0x68, 0x69]" using rope_textI[OF r(2)] by (simp add: well_filled_def)
  have n: "rope_len r < 2 ^ 32" using rope_sizes(2)[OF r(2)] by (simp add: len_utf8_def)
  obtain b where "buffer_new_normalized 3 7 Unix r = Some b" "snapshot_ok (snap b)" "visible_text (snap b) = r"
    by (rule buffer_new_ok[OF t n])
  then show thesis using that[OF r(1) t] by (simp add: len_utf8_def)
qed

lemma anchor_roundtrip_witness:
  "\<exists>r b a. rope_from (str_of [0x68, 0x69]) = Some r \<and> buffer_new_normalized 3 7 Unix r = Some b \<and>
     anchor_at_offset (snap b) 1 Left = Some a \<and> offset_for_anchor (snap b) a = Some 1"
proof -
  obtain r b where b: "rope_from (str_of [0x68, 0x69]) = Some r" "rope_text r [0x68, 0x69]" "length (str_of [0x68]) = 1"
    "buffer_new_normalized 3 7 Unix r = Some b" "snapshot_ok (snap b)" "visible_text (snap b) = r" by (rule small_buffer)
  have "rope_text (visible_text (snap b)) ([0x68] @ [0x69])" using b by simp
  from anchor_roundtrip[OF b(5) this, of Left] show ?thesis unfolding b(3) using b by blast
qed

lemma anchor_order_witness:
  "\<exists>r b x y. rope_from (str_of [0x68, 0x69]) = Some r \<and> buffer_new_normalized 3 7 Unix r = Some b \<and>
     anchor_at_offset (snap b) 1 Left = Some x \<and> anchor_at_offset (snap b) 1 Right = Some y \<and> anchor_cmp x y (snap b) = Some Less"
proof -
  obtain r b where b: "rope_from (str_of [0x68, 0x69]) = Some r" "rope_text r [0x68, 0x69]" "length (str_of [0x68]) = 1"
    "buffer_new_normalized 3 7 Unix r = Some b" "snapshot_ok (snap b)" "visible_text (snap b) = r" by (rule small_buffer)
  have t: "rope_text (visible_text (snap b)) ([0x68] @ [0x69])" using b by simp
  obtain x y where xy: "anchor_at_offset (snap b) (length (str_of [0x68])) Left = Some x" "anchor_at_offset (snap b) (length (str_of [0x68])) Right = Some y"
    using anchor_at_offset_spec[OF b(5) t] by metis
  from anchor_order[OF b(5) t t xy] xy b show ?thesis unfolding b(3) by (auto simp: cmp_def)
qed

end
