(* ===== verification/Buffer_Causal.thy ===== *)
theory Buffer_Causal
  imports Buffer_Correct
begin

section \<open>Operations are applied in causal order\<close>

text \<open>
  A batch of operations is applied as far as their dependencies allow; the rest waits. The run of a batch is a sequence
  of operations, each of which finds the version it depends on observed.
\<close>

text \<open>Applying one operation to a snapshot: nothing happens when it is observed already, otherwise its effect and its timestamp.\<close>

fun applies :: "operation \<Rightarrow> snapshot \<Rightarrow> snapshot \<Rightarrow> bool" where
  "applies (Edit e) s s' \<longleftrightarrow>
     (if global_observed (version s) (edit_timestamp e) then s' = s
      else \<exists>t p. apply_remote_edit (edit_version e) (edit_ranges e) (edit_new_text e) (edit_timestamp e) s = Some (t, p) \<and>
             s' = t\<lparr>version := global_observe (version t) (edit_timestamp e)\<rparr>)"
| "applies (Undo u) s s' \<longleftrightarrow>
     (if global_observed (version s) (undo_timestamp u) then s' = s
      else \<exists>t p. apply_undo u s = Some (t, p) \<and> s' = t\<lparr>version := global_observe (version t) (undo_timestamp u)\<rparr>)"

fun causal_run :: "operation list \<Rightarrow> snapshot \<Rightarrow> snapshot \<Rightarrow> bool" where
  "causal_run [] s s' \<longleftrightarrow> s' = s"
| "causal_run (op # ops) s s' \<longleftrightarrow> global_observed_all (version s) (op_version op) \<and> (\<exists>t. applies op s t \<and> causal_run ops t s')"

lemma causal_run_append: "causal_run (xs @ ys) s s' \<longleftrightarrow> (\<exists>t. causal_run xs s t \<and> causal_run ys t s')"
  by (induction xs arbitrary: s) auto

lemma apply_op_applies:
  assumes "apply_op op b = Some b'"
  shows "applies op (snap b) (snap b') \<and> deferred_ops b' = deferred_ops b \<and> deferred_replicas b' = deferred_replicas b"
proof (cases op)
  case (Edit e)
  show ?thesis
  proof (cases "global_observed (version (snap b)) (edit_timestamp e)")
    case False
    then obtain s p b1 where *: "apply_remote_edit (edit_version e) (edit_ranges e) (edit_new_text e) (edit_timestamp e) (snap b) = Some (s, p)"
      "(case p of None \<Rightarrow> Some (b\<lparr>snap := s\<rparr>) | Some patch \<Rightarrow> publish_patch patch (b\<lparr>snap := s\<rparr>)) = Some b1"
      "b' = observe_clock (edit_timestamp e) (observe_version (edit_timestamp e) b1)"
      using assms Edit by (auto split: bind_splits prod.splits)
    have "snap b1 = s" "deferred_ops b1 = deferred_ops b" "deferred_replicas b1 = deferred_replicas b"
      using *(2) by (auto simp: publish_patch_def split: option.splits bind_splits)
    with * False Edit show ?thesis by (auto simp: observe_clock_def observe_version_def)
  qed (use assms Edit in auto)
next
  case (Undo u)
  show ?thesis
  proof (cases "global_observed (version (snap b)) (undo_timestamp u)")
    case False
    then obtain s p b1 where *: "apply_undo u (snap b) = Some (s, p)" "publish_patch p (b\<lparr>snap := s\<rparr>) = Some b1"
      "b' = observe_clock (undo_timestamp u) (observe_version (undo_timestamp u) b1)"
      using assms Undo by (auto split: bind_splits prod.splits)
    have "snap b1 = s" "deferred_ops b1 = deferred_ops b" "deferred_replicas b1 = deferred_replicas b"
      using *(2) by (auto simp: publish_patch_def split: bind_splits)
    with * False Undo show ?thesis by (auto simp: observe_clock_def observe_version_def)
  qed (use assms Undo in auto)
qed

subsection \<open>A pass over a list of operations\<close>

text \<open>
  A pass applies the operations whose dependencies have been observed and puts the others aside; as soon as an operation
  of a replica is put aside, the later ones of that replica follow it. The relation has the replicas held back, the
  operations, the snapshot, the operations applied, those put aside, and the resulting snapshot.
\<close>

inductive delivers :: "replica_id set \<Rightarrow> operation list \<Rightarrow> snapshot \<Rightarrow> operation list \<Rightarrow> operation list \<Rightarrow> snapshot \<Rightarrow> bool" where
  pass_end: "delivers H [] s [] [] s"
| pass_apply: "op_replica op \<notin> H \<Longrightarrow> global_observed_all (version s) (op_version op) \<Longrightarrow> applies op s t \<Longrightarrow>
    delivers H ops t xs ys s' \<Longrightarrow> delivers H (op # ops) s (op # xs) ys s'"
| pass_hold: "op_replica op \<in> H \<or> \<not> global_observed_all (version s) (op_version op) \<Longrightarrow>
    delivers (insert (op_replica op) H) ops s xs ys s' \<Longrightarrow> delivers H (op # ops) s xs (op # ys) s'"

inductive_cases delivers_NilE: "delivers H [] s xs ys s'"
inductive_cases delivers_ConsE: "delivers H (op # ops) s xs ys s'"

lemma delivers_run: "delivers H ops s xs ys s' \<Longrightarrow> causal_run xs s s'"
  by (induction rule: delivers.induct) auto

lemma delivers_set: "delivers H ops s xs ys s' \<Longrightarrow> set ops = set xs \<union> set ys"
  by (induction rule: delivers.induct) auto

lemma delivers_free: "delivers H ops s xs ys s' \<Longrightarrow> op \<in> set xs \<Longrightarrow> op_replica op \<notin> H"
  by (induction rule: delivers.induct) auto

lemma delivers_sorted:
  "delivers H ops s xs ys s' \<Longrightarrow> sorted_wrt (\<lambda>x y. op_timestamp x < op_timestamp y) ops \<Longrightarrow>
   sorted_wrt (\<lambda>x y. op_timestamp x < op_timestamp y) xs \<and> sorted_wrt (\<lambda>x y. op_timestamp x < op_timestamp y) ys"
  by (induction rule: delivers.induct) (auto dest: delivers_set)

text \<open>No operation overtakes one of its replica that waits.\<close>

lemma delivers_order:
  assumes "delivers H ops s xs ys s'" "sorted_wrt (\<lambda>x y. op_timestamp x < op_timestamp y) ops"
    and "x \<in> set xs" "y \<in> set ys" "op_replica x = op_replica y"
  shows "op_timestamp x < op_timestamp y"
  using assms
proof (induction rule: delivers.induct)
  case (pass_apply op H s t ops xs ys s')
  then show ?case using delivers_set[OF pass_apply.hyps(4)] by auto
next
  case (pass_hold op H s ops xs ys s')
  then show ?case using delivers_free[OF pass_hold.hyps(2), of x] by auto
qed simp

text \<open>
  When it is the turn of an operation, those of the run with smaller timestamps have been applied. It lacks a dependency
  when the version it was made on is not observed by then.
\<close>

definition lacks_dependency :: "operation \<Rightarrow> operation list \<Rightarrow> snapshot \<Rightarrow> snapshot \<Rightarrow> bool" where
  "lacks_dependency w xs s s' \<longleftrightarrow>
     (\<exists>us vs t. xs = us @ vs \<and> causal_run us s t \<and> causal_run vs t s' \<and> (\<forall>u\<in>set us. op_timestamp u < op_timestamp w) \<and>
        (\<forall>v\<in>set vs. op_timestamp w < op_timestamp v) \<and> \<not> global_observed_all (version t) (op_version w))"

lemma lacks_dependency_now:
  "causal_run xs s s' \<Longrightarrow> \<forall>x\<in>set xs. op_timestamp w < op_timestamp x \<Longrightarrow> \<not> global_observed_all (version s) (op_version w) \<Longrightarrow>
   lacks_dependency w xs s s'"
  unfolding lacks_dependency_def by (intro exI[of _ "[]"] exI[of _ xs] exI[of _ s]) simp

lemma lacks_dependency_later:
  assumes "lacks_dependency w xs t s'" "global_observed_all (version s) (op_version op)" "applies op s t" "op_timestamp op < op_timestamp w"
  shows "lacks_dependency w (op # xs) s s'"
proof -
  obtain us vs m where *: "xs = us @ vs" "causal_run us t m" "causal_run vs m s'" "\<forall>u\<in>set us. op_timestamp u < op_timestamp w"
      "\<forall>v\<in>set vs. op_timestamp w < op_timestamp v" "\<not> global_observed_all (version m) (op_version w)"
    using assms(1) unfolding lacks_dependency_def by (elim exE conjE) (rule that; assumption)
  moreover have "causal_run (op # us) s m" using *(2) assms(2,3) by auto
  ultimately show ?thesis unfolding lacks_dependency_def using assms(4) by (intro exI[of _ "op # us"] exI[of _ vs] exI[of _ m]) simp
qed

text \<open>Whatever waits lacks a dependency, or one of its replica that comes before it waits.\<close>

lemma delivers_waiting:
  assumes "delivers H ops s xs ys s'" "sorted_wrt (\<lambda>x y. op_timestamp x < op_timestamp y) ops" "w \<in> set ys"
  shows "op_replica w \<in> H \<or> lacks_dependency w xs s s' \<or> (\<exists>w'\<in>set ys. op_replica w' = op_replica w \<and> op_timestamp w' < op_timestamp w)"
  using assms
proof (induction rule: delivers.induct)
  case (pass_apply op H s t ops xs ys s')
  have "op_timestamp op < op_timestamp w" using pass_apply.prems delivers_set[OF pass_apply.hyps(4)] by auto
  with pass_apply.hyps(2,3) have "lacks_dependency w xs t s' \<Longrightarrow> lacks_dependency w (op # xs) s s'" by (intro lacks_dependency_later)
  with pass_apply.IH pass_apply.prems show ?case by auto
next
  case (pass_hold op H s ops xs ys s')
  have later: "\<forall>x\<in>set xs \<union> set ys. op_timestamp op < op_timestamp x" using pass_hold.prems(1) delivers_set[OF pass_hold.hyps(2)] by simp
  show ?case
  proof (cases "w = op")
    case True
    with pass_hold.hyps(1) later delivers_run[OF pass_hold.hyps(2)] show ?thesis by (auto intro: lacks_dependency_now)
  next
    case False
    then have w: "w \<in> set ys" "op_timestamp op < op_timestamp w" using pass_hold.prems(2) later by auto
    then have "op_replica w \<in> insert (op_replica op) H \<or> lacks_dependency w xs s s' \<or>
        (\<exists>w'\<in>set ys. op_replica w' = op_replica w \<and> op_timestamp w' < op_timestamp w)"
      using pass_hold.IH pass_hold.prems(1) by simp
    with w(2) show ?thesis by auto
  qed
qed simp

lemma apply_or_defer_delivers:
  assumes "apply_or_defer op (b, ds) = Some (c, es)" "delivers (deferred_replicas c) ops (snap c) xs ys s'"
  shows "\<exists>us vs. [op] = us @ vs \<and> es = ds @ vs \<and> delivers (deferred_replicas b) (op # ops) (snap b) (us @ xs) (vs @ ys) s' \<and>
    deferred_ops c = deferred_ops b \<and> deferred_replicas c = deferred_replicas b \<union> op_replica ` set vs"
proof (cases "can_apply_op b op")
  case True
  then obtain b1 where "apply_op op b = Some b1" "c = b1" "es = ds" using assms by (auto simp: apply_or_defer_def split: bind_splits)
  moreover have "global_observed_all (version (snap b)) (op_version op)" "op_replica op \<notin> deferred_replicas b"
    using True by (auto simp: can_apply_op_def split: if_splits)
  ultimately show ?thesis using apply_op_applies[of op b b1] assms(2) by (intro exI[of _ "[op]"] exI[of _ "[]"]) (auto intro: pass_apply)
next
  case False
  then have *: "c = b\<lparr>deferred_replicas := insert (op_replica op) (deferred_replicas b)\<rparr>" "es = ds @ [op]"
    using assms by (auto simp: apply_or_defer_def)
  have "op_replica op \<in> deferred_replicas b \<or> \<not> global_observed_all (version (snap b)) (op_version op)"
    using False by (auto simp: can_apply_op_def)
  then show ?thesis using * assms(2) by (intro exI[of _ "[]"] exI[of _ "[op]"]) (auto intro: pass_hold)
qed

text \<open>Both loops of the code are passes.\<close>

lemma pass_delivers:
  assumes step: "\<And>op b ds b' ds'. f op (b, ds) = Some (b', ds') \<Longrightarrow>
      \<exists>c. snap c = snap b \<and> deferred_ops c = deferred_ops b \<and> deferred_replicas c = deferred_replicas b \<and> apply_or_defer op (c, ds) = Some (b', ds')"
    and "fold_m f ops (b, ds) = Some (b', ds')"
  shows "\<exists>xs ys. delivers (deferred_replicas b) ops (snap b) xs ys (snap b') \<and> ds' = ds @ ys \<and> deferred_ops b' = deferred_ops b \<and>
    deferred_replicas b' = deferred_replicas b \<union> op_replica ` set ys"
  using assms(2)
proof (induction ops arbitrary: b ds)
  case Nil
  then show ?case by (intro exI[of _ "[]"]) (auto intro: pass_end)
next
  case (Cons op ops)
  then obtain b1 d1 where 1: "f op (b, ds) = Some (b1, d1)" "fold_m f ops (b1, d1) = Some (b', ds')"
    by (cases "f op (b, ds)") auto
  obtain c where c: "snap c = snap b" "deferred_ops c = deferred_ops b" "deferred_replicas c = deferred_replicas b"
      "apply_or_defer op (c, ds) = Some (b1, d1)"
    using step[OF 1(1)] by (elim exE conjE) (rule that; assumption)
  obtain xs ys where x: "delivers (deferred_replicas b1) ops (snap b1) xs ys (snap b')" "ds' = d1 @ ys" "deferred_ops b' = deferred_ops b1"
      "deferred_replicas b' = deferred_replicas b1 \<union> op_replica ` set ys"
    using Cons.IH[OF 1(2)] by (elim exE conjE) (rule that; assumption)
  obtain us vs where u: "d1 = ds @ vs" "delivers (deferred_replicas b) (op # ops) (snap b) (us @ xs) (vs @ ys) (snap b')"
      "deferred_ops b1 = deferred_ops b" "deferred_replicas b1 = deferred_replicas b \<union> op_replica ` set vs"
    using apply_or_defer_delivers[OF c(4) x(1)] unfolding c(1-3) by (elim exE conjE) (rule that; assumption)
  show ?case using x(2-4) u by (intro exI[of _ "us @ xs"] exI[of _ "vs @ ys"]) (simp add: image_Un Un_assoc)
qed

lemma receive_op_step:
  assumes "receive_op op (b, ds) = Some (b', ds')"
  shows "\<exists>c. snap c = snap b \<and> deferred_ops c = deferred_ops b \<and> deferred_replicas c = deferred_replicas b \<and> apply_or_defer op (c, ds) = Some (b', ds')"
  using assms by (auto simp: receive_op_def split: bind_splits intro!: exI[of _ "b\<lparr>hist := _\<rparr>"])

lemma defer_ops_queue:
  assumes "defer_ops (b, ds) = Some b'" "queue_wf op_timestamp (deferred_ops b)" "node_height (deferred_ops b) < MAX_DEPTH"
    and "\<forall>op\<in>set ds. lamport_MIN < op_timestamp op"
  shows "snap b' = snap b \<and> deferred_replicas b' = deferred_replicas b \<and> queue_wf op_timestamp (deferred_ops b') \<and>
    op_timestamp ` set (to_list (deferred_ops b')) = op_timestamp ` set (to_list (deferred_ops b)) \<union> op_timestamp ` set ds \<and>
    set (to_list (deferred_ops b')) \<subseteq> set ds \<union> set (to_list (deferred_ops b))"
proof -
  obtain q where q: "queue_insert op_timestamp (deferred_ops b) ds = Some q" "queue_wf op_timestamp q"
      "op_timestamp ` set (to_list q) = op_timestamp ` set (to_list (deferred_ops b)) \<union> op_timestamp ` set ds"
      "set (to_list q) \<subseteq> set ds \<union> {x \<in> set (to_list (deferred_ops b)). op_timestamp x \<notin> op_timestamp ` set ds}"
    by (rule queue_insert_seq[OF assms(2-4)])
  then show ?thesis using assms(1) by (auto simp: defer_ops_def)
qed

lemma op_replica_image: "op_timestamp ` A = op_timestamp ` B \<Longrightarrow> op_replica ` A = op_replica ` B"
proof -
  assume "op_timestamp ` A = op_timestamp ` B"
  then have "lreplica ` op_timestamp ` A = lreplica ` op_timestamp ` B" by simp
  then show ?thesis by (simp add: image_image op_replica_def)
qed

text \<open>Flushing: one pass over the whole queue in the order of its timestamps; what waits makes up the new queue.\<close>

lemma queue_exactly:
  assumes "queue_wf op_timestamp q" "set (to_list q) \<subseteq> set ds" "op_timestamp ` set (to_list q) = op_timestamp ` set ds"
    and "sorted_wrt (\<lambda>x y. op_timestamp x < op_timestamp y) ds"
  shows "to_list q = ds"
proof (rule keys_sorted_set_unique)
  show "keys_sorted op_timestamp (to_list q)" "keys_sorted op_timestamp ds" using assms(1,4) by (simp_all add: queue_wf_def keys_sorted_def sorted_wrt_map)
  then have "inj_on op_timestamp (set ds)" by (simp add: keys_sorted_def strict_sorted_iff distinct_map)
  then show "set (to_list q) = set ds" using assms(2,3) by (metis inj_on_image_eq_iff order_refl)
qed

lemma flush_delivers:
  assumes "flush_deferred_ops b = Some b'" "queue_wf op_timestamp (deferred_ops b)" "node_height (deferred_ops b) < MAX_DEPTH"
  shows "\<exists>late. delivers {} (to_list (deferred_ops b)) (snap b) late (to_list (deferred_ops b')) (snap b') \<and>
    queue_wf op_timestamp (deferred_ops b') \<and> deferred_replicas b' = op_replica ` set (to_list (deferred_ops b'))"
proof -
  let ?c = "b\<lparr>deferred_replicas := {}, deferred_ops := queue_new op_timestamp\<rparr>" and ?ops = "to_list (deferred_ops b)"
  obtain c ds where 1: "fold_m apply_or_defer ?ops (?c, []) = Some (c, ds)" "defer_ops (c, ds) = Some b'"
    using assms(1) queue_iter_seq[OF assms(2,3)] by (auto simp: flush_deferred_ops_def queue_drain_def split: bind_splits)
  obtain xs ys where x: "delivers {} ?ops (snap b) xs ys (snap c)" "ds = ys" "deferred_ops c = queue_new op_timestamp"
      "deferred_replicas c = op_replica ` set ys"
    using pass_delivers[OF _ 1(1)] by auto
  have "sorted_wrt (\<lambda>x y. op_timestamp x < op_timestamp y) ?ops" using assms(2) by (simp add: queue_wf_def keys_sorted_def sorted_wrt_map)
  then have sorted: "sorted_wrt (\<lambda>x y. op_timestamp x < op_timestamp y) ds" using delivers_sorted[OF x(1)] x(2) by simp
  have min: "\<forall>op\<in>set ds. lamport_MIN < op_timestamp op" using assms(2) delivers_set[OF x(1)] x(2) by (auto simp: queue_wf_def)
  have new: "queue_wf op_timestamp (deferred_ops c)" "node_height (deferred_ops c) < MAX_DEPTH" "to_list (deferred_ops c) = []"
    using x(3) queue_wf_new by (simp_all add: queue_new_def st_new_def MAX_DEPTH_def)
  note q = defer_ops_queue[OF 1(2) new(1,2) min, unfolded new(3)]
  have "to_list (deferred_ops b') = ys" using queue_exactly[of "deferred_ops b'" ds] q sorted x(2) by simp
  then show ?thesis using x q by (intro exI[of _ xs]) simp
qed

text \<open>
  C10: Operations of other replicas are applied in causal order, none is lost, and none waits without need. When the batch
  has been taken in, the run of the code was a pass over the batch, with the replicas held back that were so before, and
  a pass in the order of timestamps over what the queue then held. So the new snapshot results from operations each of
  which found observed all it depends on; the timestamps received or waiting before are exactly those applied and those
  waiting now. In the queue wait exactly the operations that lacked a dependency when it was their turn, and those behind
  a waiting operation of their replica: none that was applied from the queue has overtaken one of its own replica. The
  replicas held back are those with an operation in the queue.
\<close>

theorem apply_ops_causal:
  assumes "apply_ops ops b = Some b'" "queue_wf op_timestamp (deferred_ops b)" "node_height (deferred_ops b) < MAX_DEPTH"
    and "\<forall>op\<in>set ops. lamport_MIN < op_timestamp op"
    and "\<forall>state c. fold_m receive_op ops (b, []) = Some state \<and> defer_ops state = Some c \<longrightarrow> node_height (deferred_ops c) < MAX_DEPTH"
  shows "\<exists>early held mid queued late. delivers (deferred_replicas b) ops (snap b) early held mid \<and>
      delivers {} queued mid late (to_list (deferred_ops b')) (snap b') \<and> sorted_wrt (\<lambda>x y. op_timestamp x < op_timestamp y) queued \<and>
      set queued \<subseteq> set held \<union> set (to_list (deferred_ops b)) \<and>
      op_timestamp ` set queued = op_timestamp ` (set held \<union> set (to_list (deferred_ops b))) \<and>
      causal_run (early @ late) (snap b) (snap b') \<and>
      op_timestamp ` (set ops \<union> set (to_list (deferred_ops b))) =
        op_timestamp ` (set early \<union> set late \<union> set (to_list (deferred_ops b'))) \<and>
      (\<forall>w\<in>set (to_list (deferred_ops b')). lacks_dependency w late mid (snap b') \<or>
         (\<exists>w'\<in>set (to_list (deferred_ops b')). op_replica w' = op_replica w \<and> op_timestamp w' < op_timestamp w)) \<and>
      (\<forall>w\<in>set (to_list (deferred_ops b')). \<forall>op\<in>set late. op_replica op = op_replica w \<longrightarrow> op_timestamp op < op_timestamp w) \<and>
      queue_wf op_timestamp (deferred_ops b') \<and> deferred_replicas b' = op_replica ` set (to_list (deferred_ops b'))"
proof -
  obtain c ds d where 1: "fold_m receive_op ops (b, []) = Some (c, ds)" "defer_ops (c, ds) = Some d" "flush_deferred_ops d = Some b'"
    using assms(1) by (auto simp: apply_ops_def split: bind_splits)
  obtain xs ys where x: "delivers (deferred_replicas b) ops (snap b) xs ys (snap c)" "ds = ys" "deferred_ops c = deferred_ops b"
    using pass_delivers[OF receive_op_step 1(1)] by auto
  have min: "\<forall>op\<in>set ds. lamport_MIN < op_timestamp op" using assms(4) delivers_set[OF x(1)] x(2) by auto
  have q: "snap d = snap c" "queue_wf op_timestamp (deferred_ops d)"
      "op_timestamp ` set (to_list (deferred_ops d)) = op_timestamp ` (set ys \<union> set (to_list (deferred_ops b)))"
      "set (to_list (deferred_ops d)) \<subseteq> set ys \<union> set (to_list (deferred_ops b))"
    using defer_ops_queue[OF 1(2) _ _ min] assms(2,3) x(2,3) by (auto simp: image_Un)
  have "node_height (deferred_ops d) < MAX_DEPTH" using assms(5) 1(1,2) by blast
  from flush_delivers[OF 1(3) q(2) this] obtain zs where z: "delivers {} (to_list (deferred_ops d)) (snap c) zs (to_list (deferred_ops b')) (snap b')"
      "queue_wf op_timestamp (deferred_ops b')" "deferred_replicas b' = op_replica ` set (to_list (deferred_ops b'))"
    unfolding q(1) by (elim exE conjE) (rule that; assumption)
  have sorted: "sorted_wrt (\<lambda>x y. op_timestamp x < op_timestamp y) (to_list (deferred_ops d))"
    using q(2) by (simp add: queue_wf_def keys_sorted_def sorted_wrt_map)
  have run: "causal_run (xs @ zs) (snap b) (snap b')" using delivers_run[OF x(1)] delivers_run[OF z(1)] by (auto simp: causal_run_append)
  have all: "op_timestamp ` (set ops \<union> set (to_list (deferred_ops b))) = op_timestamp ` (set xs \<union> set zs \<union> set (to_list (deferred_ops b')))"
    using q(3) unfolding delivers_set[OF x(1)] delivers_set[OF z(1)] image_Un by (simp add: Un_assoc)
  have waiting: "\<forall>w\<in>set (to_list (deferred_ops b')). lacks_dependency w zs (snap c) (snap b') \<or>
      (\<exists>w'\<in>set (to_list (deferred_ops b')). op_replica w' = op_replica w \<and> op_timestamp w' < op_timestamp w)"
    using delivers_waiting[OF z(1) sorted] by blast
  have order: "\<forall>w\<in>set (to_list (deferred_ops b')). \<forall>op\<in>set zs. op_replica op = op_replica w \<longrightarrow> op_timestamp op < op_timestamp w"
    using delivers_order[OF z(1) sorted] by blast
  show ?thesis
    by (rule exI[of _ xs], rule exI[of _ ys], rule exI[of _ "snap c"], rule exI[of _ "to_list (deferred_ops d)"], rule exI[of _ zs])
       (intro conjI x(1) z(1) sorted q(4,3) run all waiting order z(2,3))
qed

subsection \<open>A batch of which a part has to wait\<close>

text \<open>
  The second operation arrives after one that depends on it, the third depends on one that never arrives, and the fourth
  is of the same replica.
\<close>

definition empty_edit :: "lamport \<Rightarrow> global \<Rightarrow> operation" where
  "empty_edit t v = Edit \<lparr>edit_timestamp = t, edit_version = v, edit_ranges = [], edit_new_text = []\<rparr>"

definition demo_ops :: "operation list" where
  "demo_ops = [empty_edit (Lamport 5 2) (global_observe global_new (Lamport 4 1)), empty_edit (Lamport 4 1) global_new,
     empty_edit (Lamport 6 2) (global_observe global_new (Lamport 9 4)), empty_edit (Lamport 7 2) global_new]"

lemma empty_edit_simps [simp]:
  "op_timestamp (empty_edit t v) = t" "op_version (empty_edit t v) = v" "op_replica (empty_edit t v) = lreplica t"
  by (simp_all add: empty_edit_def op_replica_def)

lemma apply_empty_edit:
  "\<not> global_observed (version (snap b)) t \<Longrightarrow> apply_op (empty_edit t v) b = Some (observe_clock t (observe_version t b))"
  by (simp add: empty_edit_def apply_remote_edit_def)

lemma demo_versions:
  "\<not> global_observed_all global_new (global_observe global_new (Lamport 4 1))" "global_observed_all v global_new"
  "\<not> global_observed global_new (Lamport 4 1)"
  "global_observed_all (global_observe global_new (Lamport 4 1)) (global_observe global_new (Lamport 4 1))"
  "\<not> global_observed_all (global_observe global_new (Lamport 4 1)) (global_observe global_new (Lamport 9 4))"
  "\<not> global_observed (global_observe global_new (Lamport 4 1)) (Lamport 5 2)"
  "\<not> global_observed_all (global_observe (global_observe global_new (Lamport 4 1)) (Lamport 5 2)) (global_observe global_new (Lamport 9 4))"
  by (code_simp | simp add: global_observed_all_def global_new_def)+

lemma demo_history: "fold_m (\<lambda>op m. tm_insert m (op_timestamp op) op) demo_ops tm_default \<noteq> None"
  by code_simp

lemma demo_queue:
  "\<exists>q. queue_insert op_timestamp (queue_new op_timestamp) [demo_ops ! 0, demo_ops ! 2, demo_ops ! 3] = Some q \<and>
     to_list q = [demo_ops ! 0, demo_ops ! 2, demo_ops ! 3] \<and> node_height q = 0"
  "\<exists>q. queue_insert op_timestamp (queue_new op_timestamp) [demo_ops ! 2, demo_ops ! 3] = Some q \<and> to_list q = [demo_ops ! 2, demo_ops ! 3]"
proof -
  have "map_option (\<lambda>q. (to_list q, node_height q)) (queue_insert op_timestamp (queue_new op_timestamp) [demo_ops ! 0, demo_ops ! 2, demo_ops ! 3]) =
      Some ([demo_ops ! 0, demo_ops ! 2, demo_ops ! 3], 0)"
    by code_simp
  then show "\<exists>q. queue_insert op_timestamp (queue_new op_timestamp) [demo_ops ! 0, demo_ops ! 2, demo_ops ! 3] = Some q \<and>
     to_list q = [demo_ops ! 0, demo_ops ! 2, demo_ops ! 3] \<and> node_height q = 0" by auto
  have "map_option to_list (queue_insert op_timestamp (queue_new op_timestamp) [demo_ops ! 2, demo_ops ! 3]) = Some [demo_ops ! 2, demo_ops ! 3]"
    by code_simp
  then show "\<exists>q. queue_insert op_timestamp (queue_new op_timestamp) [demo_ops ! 2, demo_ops ! 3] = Some q \<and> to_list q = [demo_ops ! 2, demo_ops ! 3]"
    by auto
qed

lemma empty_queue: "queue_wf op_timestamp (queue_new op_timestamp)" "node_height (queue_new op_timestamp) < MAX_DEPTH"
  by (rule queue_wf_new) (simp add: queue_new_def st_new_def MAX_DEPTH_def)

lemma demo_received:
  assumes b: "version (snap b) = global_new" "hist b = history_new r" "deferred_ops b = queue_new op_timestamp" "deferred_replicas b = {}"
  shows "\<exists>c. fold_m receive_op demo_ops (b, []) = Some (c, [demo_ops ! 0, demo_ops ! 2, demo_ops ! 3]) \<and>
    version (snap c) = global_observe global_new (Lamport 4 1) \<and> deferred_ops c = queue_new op_timestamp"
proof -
  obtain m1 m2 m3 m4 where m: "tm_insert tm_default (op_timestamp (demo_ops ! 0)) (demo_ops ! 0) = Some m1"
      "tm_insert m1 (op_timestamp (demo_ops ! 1)) (demo_ops ! 1) = Some m2" "tm_insert m2 (op_timestamp (demo_ops ! 2)) (demo_ops ! 2) = Some m3"
      "tm_insert m3 (op_timestamp (demo_ops ! 3)) (demo_ops ! 3) = Some m4"
    using demo_history by (auto simp: demo_ops_def split: bind_splits)
  show ?thesis using b m demo_versions
    by (simp add: demo_ops_def receive_op_def history_push_def history_new_def apply_or_defer_def can_apply_op_def apply_empty_edit
        observe_clock_def observe_version_def)
qed

lemma demo_flushed:
  assumes c: "version (snap c) = global_observe global_new (Lamport 4 1)" "deferred_ops c = queue_new op_timestamp"
  shows "\<exists>q b'. defer_ops (c, [demo_ops ! 0, demo_ops ! 2, demo_ops ! 3]) = Some (c\<lparr>deferred_ops := q\<rparr>) \<and> node_height q = 0 \<and>
    flush_deferred_ops (c\<lparr>deferred_ops := q\<rparr>) = Some b' \<and> to_list (deferred_ops b') = [demo_ops ! 2, demo_ops ! 3] \<and>
    global_observed (version (snap b')) (Lamport 5 2)"
proof -
  obtain q where q: "queue_insert op_timestamp (queue_new op_timestamp) [demo_ops ! 0, demo_ops ! 2, demo_ops ! 3] = Some q"
      "to_list q = [demo_ops ! 0, demo_ops ! 2, demo_ops ! 3]" "node_height q = 0"
    using demo_queue(1) by blast
  obtain q' where q': "queue_insert op_timestamp (queue_new op_timestamp) [demo_ops ! 2, demo_ops ! 3] = Some q'" "to_list q' = [demo_ops ! 2, demo_ops ! 3]"
    using demo_queue(2) by blast
  have "queue_wf op_timestamp q"
    using queue_insert_seq[OF empty_queue, of "[demo_ops ! 0, demo_ops ! 2, demo_ops ! 3]"] q(1)
    by (auto simp: demo_ops_def lamport_MIN_def lamport_less_iff)
  then have iter: "queue_iter q = Some [demo_ops ! 0, demo_ops ! 2, demo_ops ! 3]" using queue_iter_seq[of op_timestamp q] q(2,3) by (simp add: MAX_DEPTH_def)
  have "\<exists>b'. flush_deferred_ops (c\<lparr>deferred_ops := q\<rparr>) = Some b' \<and> deferred_ops b' = q' \<and>
      version (snap b') = global_observe (global_observe global_new (Lamport 4 1)) (Lamport 5 2)"
    using c iter q'(1) demo_versions
    by (simp add: demo_ops_def flush_deferred_ops_def queue_drain_def apply_or_defer_def can_apply_op_def apply_empty_edit
        observe_clock_def observe_version_def defer_ops_def)
  moreover have "global_observed (global_observe (global_observe global_new (Lamport 4 1)) (Lamport 5 2)) (Lamport 5 2)" by code_simp
  ultimately show ?thesis using c(2) q(1,3) q'(2) by (auto simp: defer_ops_def)
qed

lemma apply_ops_causal_witness:
  "\<exists>b b' late mid. buffer_new_normalized 3 7 Unix rope_new = Some b \<and> apply_ops demo_ops b = Some b' \<and>
     global_observed (version (snap b')) (Lamport 5 2) \<and> map op_timestamp (to_list (deferred_ops b')) = [Lamport 6 2, Lamport 7 2] \<and>
     deferred_replicas b' = {2} \<and> lacks_dependency (demo_ops ! 2) late mid (snap b')"
proof -
  have len: "rope_len rope_new < 2 ^ 32" "rope_is_empty rope_new" using rope_sizes(2,5)[OF rope_rep_new] by simp_all
  obtain b where b: "buffer_new_normalized 3 7 Unix rope_new = Some b" "version (snap b) = global_new" "deferred_ops b = queue_new op_timestamp"
      "deferred_replicas b = {}" "hist b = history_new rope_new"
    by (rule buffer_new_ok[OF rope_new_text len(1), of 3 7 Unix]) (use len(2) in simp)
  obtain c where c: "fold_m receive_op demo_ops (b, []) = Some (c, [demo_ops ! 0, demo_ops ! 2, demo_ops ! 3])"
      "version (snap c) = global_observe global_new (Lamport 4 1)" "deferred_ops c = queue_new op_timestamp"
    using demo_received[OF b(2,5,3,4)] by blast
  obtain q b' where q: "defer_ops (c, [demo_ops ! 0, demo_ops ! 2, demo_ops ! 3]) = Some (c\<lparr>deferred_ops := q\<rparr>)" "node_height q = 0"
      "flush_deferred_ops (c\<lparr>deferred_ops := q\<rparr>) = Some b'" "to_list (deferred_ops b') = [demo_ops ! 2, demo_ops ! 3]"
      "global_observed (version (snap b')) (Lamport 5 2)"
    using demo_flushed[OF c(2,3)] by blast
  have run: "apply_ops demo_ops b = Some b'" using c(1) q(1,3) by (simp add: apply_ops_def)
  have min: "\<forall>op\<in>set demo_ops. lamport_MIN < op_timestamp op" by (simp add: demo_ops_def lamport_MIN_def lamport_less_iff)
  have low: "\<forall>state c. fold_m receive_op demo_ops (b, []) = Some state \<and> defer_ops state = Some c \<longrightarrow> node_height (deferred_ops c) < MAX_DEPTH"
    using c(1) q(1,2) by (simp add: MAX_DEPTH_def)
  have first: "\<not> (\<exists>w'\<in>set (to_list (deferred_ops b')). op_replica w' = op_replica (demo_ops ! 2) \<and> op_timestamp w' < op_timestamp (demo_ops ! 2))"
    unfolding q(4) by (simp add: demo_ops_def lamport_less_iff)
  obtain late mid where "lacks_dependency (demo_ops ! 2) late mid (snap b')" "deferred_replicas b' = op_replica ` set (to_list (deferred_ops b'))"
    using apply_ops_causal[OF run _ _ min low] b(3) empty_queue first q(4) by auto
  then show ?thesis using b(1) run q(4,5) by (intro exI[of _ b] exI[of _ b'] exI[of _ late] exI[of _ mid]) (simp add: demo_ops_def)
qed

end
