(* ===== verification/Line_Endings.thy ===== *)
theory Line_Endings
  imports Buffer
begin

section \<open>Line endings\<close>

text \<open>
  Normalising the line endings of a string is normalising them in the sequence of its characters: no byte of a longer
  encoding is a carriage return or a line feed.
\<close>

fun norm_chars :: "scalar list \<Rightarrow> scalar list" where
  "norm_chars [] = []"
| "norm_chars [b] = [if b = 13 then 10 else b]"
| "norm_chars (b # c # cs) =
     (if b = 13 then (if c = 10 then 10 # norm_chars cs else 10 # norm_chars (c # cs)) else b # norm_chars (c # cs))"

lemma encode_low: "c < 128 \<Longrightarrow> encode_utf8 c = [of_nat c]"
  by (simp add: encode_utf8_def)

lemma encode_high:
  assumes "is_scalar c" "128 \<le> c" "b \<in> set (encode_utf8 c)"
  shows "128 \<le> unat b"
proof -
  obtain a bs where a: "encode_utf8 c = a # bs" "\<forall>x\<in>set bs. 128 \<le> unat x \<and> unat x < 192" "length bs = len_utf8 c - 1" "bs = [] \<longleftrightarrow> unat a < 128"
    using assms(1) by (rule encode_utf8_cases)
  have "bs \<noteq> []" using a(3) assms(2) by (auto simp: len_utf8_def split: if_splits)
  with a assms(3) show ?thesis by auto
qed

lemma normalize_other: "b \<noteq> 13 \<Longrightarrow> normalize (b # bs) = b # normalize bs"
  by (cases bs) auto

lemma normalize_others: "13 \<notin> set bs \<Longrightarrow> normalize (bs @ cs) = bs @ normalize cs"
  by (induction bs) (auto simp: normalize_other)

lemma normalize_CR: "(bs = [] \<or> hd bs \<noteq> 10) \<Longrightarrow> normalize (13 # bs) = 10 # normalize bs"
  by (cases bs) auto

lemma u8_of_nat_eq: "c < 256 \<Longrightarrow> d < 256 \<Longrightarrow> (of_nat c :: u8) = of_nat d \<longleftrightarrow> c = d"
  by (metis unat_of_nat_u8)

lemma CR_in_encode: "is_scalar c \<Longrightarrow> c \<noteq> 13 \<Longrightarrow> 13 \<notin> set (encode_utf8 c)"
  using encode_high[of c 13] u8_of_nat_eq[of c 13] by (cases "c < 128") (auto simp: encode_low)

lemma LF_first: "is_scalar c \<Longrightarrow> c \<noteq> 10 \<Longrightarrow> hd (encode_utf8 c @ bs) \<noteq> 10"
  by (elim encode_utf8_cases) auto

lemma normalize_str_of: "\<forall>c\<in>set cs. is_scalar c \<Longrightarrow> normalize (str_of cs) = str_of (norm_chars cs)"
proof (induction cs rule: norm_chars.induct)
  case (2 b)
  then show ?case using normalize_others[of "encode_utf8 b" "[]"] CR_in_encode[of b] by (auto simp: str_of_def encode_low)
next
  case (3 b c cs)
  consider "b \<noteq> 13" | "b = 13" "c = 10" | "b = 13" "c \<noteq> 10" by blast
  then show ?case
  proof cases
    case 1
    then show ?thesis using 3 CR_in_encode[of b] normalize_others[of "encode_utf8 b" "str_of (c # cs)"] by (simp add: str_of_def)
  next
    case 2
    then show ?thesis using 3 by (simp add: str_of_def encode_low)
  next
    case c: 3
    then show ?thesis using 3 LF_first[of c "str_of cs"] normalize_CR[of "str_of (c # cs)"] by (simp add: str_of_def encode_low)
  qed
qed (simp add: str_of_def)

lemma norm_chars_scalar: "\<forall>c\<in>set cs. is_scalar c \<Longrightarrow> \<forall>c\<in>set (norm_chars cs). is_scalar c"
  by (induction cs rule: norm_chars.induct) (auto simp: is_scalar_def)

end
