(* ===== verification/RopeBuilder.thy ===== *)
theory RopeBuilder
  imports Buffer_Correct
begin

section \<open>The builder of ropes\<close>

text \<open>
  The builder moves stretches of the old visible and deleted text to either of the new ropes. Its slices are ropes that
  it walks through right away; that every slice of the old ropes is lower than the stack of a cursor is a condition.
\<close>

definition rc_pos :: "rope \<Rightarrow> scalar list \<Rightarrow> scalar list \<Rightarrow> rope_cursor \<Rightarrow> bool" where
  "rc_pos r cs xs rc \<longleftrightarrow> (\<exists>css. rope_rep r css \<and> well_filled css \<and> concat css = cs \<and> rc_at r css xs rc)"

definition rope_low :: "rope \<Rightarrow> bool" where
  "rope_low r \<longleftrightarrow> node_height (chunks r) < MAX_DEPTH \<and>
     (\<forall>xs ys zs rc. rc_pos r (xs @ ys @ zs) xs rc \<longrightarrow> middle_low rc (bytes_of (xs @ ys)) \<and>
        (\<forall>rc' s. rc_slice rc (bytes_of (xs @ ys)) = Some (rc', s) \<longrightarrow> node_height (chunks s) < MAX_DEPTH))"

lemma rc_pos_offset: "rc_pos r cs xs rc \<Longrightarrow> rc_offset rc = bytes_of xs \<and> rc_rope rc = r"
  by (auto simp: rc_pos_def rc_at_def)

lemma rc_pos_new:
  assumes "rope_text r cs" "rope_low r"
  obtains rc where "rc_new r 0 = Some rc" "rc_pos r cs [] rc"
proof -
  obtain css where r: "rope_rep r css" "well_filled css" "concat css = cs" using assms(1) by (auto simp: rope_text_def)
  obtain rc where "rc_new r (bytes_of []) = Some rc" "rc_at r css [] rc"
    by (rule rc_new_at[OF r(1), of "[]" cs]) (use r assms(2) in \<open>auto simp: well_filled_def rope_low_def\<close>)
  then show thesis using r by (intro that[of rc]) (auto simp: rc_pos_def)
qed

lemma rc_pos_slice:
  assumes "rope_low r" "rc_pos r cs xs rc" "cs = xs @ ys @ zs"
  obtains rc' s where "rc_slice rc (bytes_of xs + bytes_of ys) = Some (rc', s)" "rc_pos r cs (xs @ ys) rc'" "rope_text s ys"
    "node_height (chunks s) < MAX_DEPTH"
proof -
  obtain css where r: "rope_rep r css" "well_filled css" "concat css = xs @ ys @ zs" "rc_at r css xs rc"
    using assms(2,3) by (auto simp: rc_pos_def)
  have low: "node_height (chunks r) < MAX_DEPTH" "middle_low rc (bytes_of (xs @ ys))"
      "\<And>rc' s. rc_slice rc (bytes_of (xs @ ys)) = Some (rc', s) \<Longrightarrow> node_height (chunks s) < MAX_DEPTH"
    using assms unfolding rope_low_def by blast+
  obtain rc' s ds where s: "rc_slice rc (bytes_of (xs @ ys)) = Some (rc', s)" "rc_at r css (xs @ ys) rc'"
      "rope_rep s ds" "well_filled ds" "concat ds = ys"
    by (rule rc_slice_at[OF r(1-3) low(1) r(4) low(2)])
  have "rope_text s ys" using rope_textI[OF s(3,4)] s(5) by simp
  moreover have "rc_pos r cs (xs @ ys) rc'" using r s(2) assms(3) by (auto simp: rc_pos_def)
  ultimately show thesis using s(1) low(3)[OF s(1)] by (intro that[of rc' s]) simp_all
qed

lemma rope_append_texts:
  assumes "rope_text r cs" "rope_text s ds" "node_height (chunks s) < MAX_DEPTH"
  obtains t where "rope_append r s = Some t" "rope_text t (cs @ ds)"
proof -
  obtain css dss where c: "rope_rep r css" "well_filled css" "cs = concat css" and d: "rope_rep s dss" "well_filled dss" "ds = concat dss"
    using assms(1,2) by (auto simp: rope_text_def)
  obtain t es where "rope_append r s = Some t" "rope_rep t es" "well_filled es" "concat es = concat css @ concat dss"
    by (rule rope_append_rep[OF c(1,2) d(1,2) assms(3)])
  then show thesis using rope_textI[of t es] c(3) d(3) by (intro that[of t]) simp_all
qed

definition rb_at ::
  "rope \<Rightarrow> scalar list \<Rightarrow> rope \<Rightarrow> scalar list \<Rightarrow> scalar list \<Rightarrow> scalar list \<Rightarrow> scalar list \<Rightarrow> scalar list \<Rightarrow> rope_builder \<Rightarrow> bool" where
  "rb_at vr vcs dr dcs vx dx nv nd b \<longleftrightarrow> rope_low vr \<and> rope_low dr \<and>
     rc_pos vr vcs vx (old_visible_cursor b) \<and> rc_pos dr dcs dx (old_deleted_cursor b) \<and>
     rope_text (new_visible b) nv \<and> rope_text (new_deleted b) nd"

lemma rb_new_at:
  assumes "rope_text vr vcs" "rope_text dr dcs" "rope_low vr" "rope_low dr"
  obtains v d where "rc_new vr 0 = Some v" "rc_new dr 0 = Some d" "rb_at vr vcs dr dcs [] [] [] [] (rb_new v d)"
proof -
  obtain v where v: "rc_new vr 0 = Some v" "rc_pos vr vcs [] v" using assms(1,3) by (rule rc_pos_new)
  obtain d where d: "rc_new dr 0 = Some d" "rc_pos dr dcs [] d" using assms(2,4) by (rule rc_pos_new)
  show thesis using v d assms rope_new_text by (intro that[of v d]) (auto simp: rb_at_def rb_new_def)
qed

text \<open>Pushing a stretch of the visible or of the deleted text.\<close>

lemma rb_push_visible:
  assumes "rb_at vr vcs dr dcs vx dx nv nd b" "vcs = vx @ ys @ zs"
  obtains b' where "rb_push (bytes_of ys) True is_visible b = Some b'"
    "rb_at vr vcs dr dcs (vx @ ys) dx (if is_visible then nv @ ys else nv) (if is_visible then nd else nd @ ys) b'"
proof -
  note b = assms(1)[unfolded rb_at_def]
  obtain rc s where s: "rc_slice (old_visible_cursor b) (bytes_of vx + bytes_of ys) = Some (rc, s)" "rc_pos vr vcs (vx @ ys) rc"
      "rope_text s ys" "node_height (chunks s) < MAX_DEPTH"
    using rc_pos_slice[of vr vcs vx "old_visible_cursor b" ys zs] b assms(2) by metis
  have off: "rc_offset (old_visible_cursor b) = bytes_of vx" using b rc_pos_offset by blast
  obtain v where v: "rope_append (new_visible b) s = Some v" "rope_text v (nv @ ys)" using rope_append_texts[of _ nv s ys] b s by metis
  obtain d where d: "rope_append (new_deleted b) s = Some d" "rope_text d (nd @ ys)" using rope_append_texts[of _ nd s ys] b s by metis
  show thesis using s v d off b that by (cases is_visible) (simp_all add: rb_push_def rb_take_def rb_at_def)
qed

lemma rb_push_deleted:
  assumes "rb_at vr vcs dr dcs vx dx nv nd b" "dcs = dx @ ys @ zs"
  obtains b' where "rb_push (bytes_of ys) False is_visible b = Some b'"
    "rb_at vr vcs dr dcs vx (dx @ ys) (if is_visible then nv @ ys else nv) (if is_visible then nd else nd @ ys) b'"
proof -
  note b = assms(1)[unfolded rb_at_def]
  obtain rc s where s: "rc_slice (old_deleted_cursor b) (bytes_of dx + bytes_of ys) = Some (rc, s)" "rc_pos dr dcs (dx @ ys) rc"
      "rope_text s ys" "node_height (chunks s) < MAX_DEPTH"
    using rc_pos_slice[of dr dcs dx "old_deleted_cursor b" ys zs] b assms(2) by metis
  have off: "rc_offset (old_deleted_cursor b) = bytes_of dx" using b rc_pos_offset by blast
  obtain v where v: "rope_append (new_visible b) s = Some v" "rope_text v (nv @ ys)" using rope_append_texts[of _ nv s ys] b s by metis
  obtain d where d: "rope_append (new_deleted b) s = Some d" "rope_text d (nd @ ys)" using rope_append_texts[of _ nd s ys] b s by metis
  show thesis using s v d off b that by (cases is_visible) (simp_all add: rb_push_def rb_take_def rb_at_def)
qed

lemma rb_append_at:
  assumes "rb_at vr vcs dr dcs vx dx nv nd b" "vcs = vx @ ys @ zs" "dcs = dx @ us @ ws"
  obtains b' where "rb_append \<lparr>ft_visible = bytes_of ys, ft_deleted = bytes_of us\<rparr> b = Some b'"
    "rb_at vr vcs dr dcs (vx @ ys) (dx @ us) (nv @ ys) (nd @ us) b'"
proof -
  obtain b1 where b1: "rb_push (bytes_of ys) True True b = Some b1" "rb_at vr vcs dr dcs (vx @ ys) dx (nv @ ys) nd b1"
    using rb_push_visible[OF assms(1,2), of True] by auto
  obtain b2 where "rb_push (bytes_of us) False False b1 = Some b2" "rb_at vr vcs dr dcs (vx @ ys) (dx @ us) (nv @ ys) (nd @ us) b2"
    using rb_push_deleted[OF b1(2) assms(3), of False] by auto
  with b1 show thesis by (intro that[of b2]) (simp_all add: rb_append_def)
qed

lemma rb_push_str_at:
  assumes "rb_at vr vcs dr dcs vx dx nv nd b" "\<forall>c\<in>set ys. is_scalar c"
  obtains b' where "rb_push_str (str_of ys) b = Some b'" "rb_at vr vcs dr dcs vx dx (nv @ ys) nd b'"
proof -
  obtain css where r: "rope_rep (new_visible b) css" "well_filled css" "nv = concat css" using assms(1) by (auto simp: rb_at_def rope_text_def)
  obtain v ds where "rope_push (new_visible b) (str_of ys) = Some v" "rope_rep v ds" "well_filled ds" "concat ds = concat css @ ys"
    by (rule rope_push_rep[OF r(1,2) assms(2)])
  then show thesis using assms(1) r(3) rope_textI[of v ds] by (intro that[of "b\<lparr>new_visible := v\<rparr>"]) (auto simp: rb_push_str_def rb_at_def)
qed

lemma rc_pos_suffix:
  assumes "rope_low r" "rc_pos r (xs @ ys) xs rc"
  obtains s where "rc_suffix rc = Some s" "rope_text s ys" "node_height (chunks s) < MAX_DEPTH"
proof -
  obtain css where "rope_rep r css" "concat css = xs @ ys" using assms(2) by (auto simp: rc_pos_def)
  then have "st_extent usize_dim (chunks (rc_rope rc)) = bytes_of xs + bytes_of ys"
    using usize_m.extent_measure[of r css] rc_pos_offset[OF assms(2)] by simp
  moreover obtain rc' s where "rc_slice rc (bytes_of xs + bytes_of ys) = Some (rc', s)" "rope_text s ys" "node_height (chunks s) < MAX_DEPTH"
    by (rule rc_pos_slice[OF assms, of ys "[]"]) simp
  ultimately show thesis by (intro that[of s]) (simp_all add: rc_suffix_def)
qed

lemma rb_finish_at:
  assumes "rb_at vr (vx @ ys) dr (dx @ us) vx dx nv nd b"
  obtains v d where "rb_finish b = Some (v, d)" "rope_text v (nv @ ys)" "rope_text d (nd @ us)"
proof -
  note b = assms[unfolded rb_at_def]
  obtain s where s: "rc_suffix (old_visible_cursor b) = Some s" "rope_text s ys" "node_height (chunks s) < MAX_DEPTH"
    using rc_pos_suffix[of vr vx ys] b by metis
  obtain t where t: "rc_suffix (old_deleted_cursor b) = Some t" "rope_text t us" "node_height (chunks t) < MAX_DEPTH"
    using rc_pos_suffix[of dr dx us] b by metis
  obtain v where v: "rope_append (new_visible b) s = Some v" "rope_text v (nv @ ys)" using rope_append_texts[of _ nv s ys] b s by metis
  obtain d where d: "rope_append (new_deleted b) t = Some d" "rope_text d (nd @ us)" using rope_append_texts[of _ nd t us] b t by metis
  show thesis using s t v d by (intro that[of v d]) (simp_all add: rb_finish_def)
qed

text \<open>A rope of at most one chunk has only low slices.\<close>

lemma rope_low_single:
  assumes r: "rope_rep r css" "length css \<le> 1" and h: "node_height (chunks r) < MAX_DEPTH"
  shows "rope_low r"
  unfolding rope_low_def
proof (intro conjI allI impI)
  fix xs ys zs rc
  assume "rc_pos r (xs @ ys @ zs) xs rc"
  then obtain ds where d: "rope_rep r ds" "well_filled ds" "concat ds = xs @ ys @ zs" "rc_at r ds xs rc" by (auto simp: rc_pos_def)
  have len: "length ds \<le> 1" using r d(1) by (auto simp: rope_rep_def dest!: list_all2_lengthD)
  obtain m where m: "cursor_at chunk_ops usize_dim (chunks r) m (rc_chunks rc)" using d(4) by (auto simp: rc_at_def)
  show "middle_low rc (bytes_of (xs @ ys))"
    by (rule middle_low_single[OF d(1) _ _ len h m, where ys = zs]) (use d in \<open>auto simp: well_filled_def\<close>)
  fix rc' s assume s: "rc_slice rc (bytes_of (xs @ ys)) = Some (rc', s)"
  have "node_height (chunks s) = 0"
  proof (cases ds)
    case Nil
    then have "cursor_end usize_dim (rc_chunks rc) = Some 0" using usize_m.cursor_reads(4)[OF d(1) m] by simp
    then show ?thesis using s d(3) Nil by (auto simp: rc_slice_def push_new_low split: bind_splits if_splits)
  next
    case (Cons cs es)
    then have "ds = [cs]" using len by simp
    then show ?thesis using rc_slice_single_low[of r cs xs ys zs rc rc' s] d s by simp
  qed
  then show "node_height (chunks s) < MAX_DEPTH" by (simp add: MAX_DEPTH_def)
qed (rule h)

end
