(* ===== verification/Edit_State.thy ===== *)
theory Edit_State
  imports RopeBuilder TreeMap_Props
begin

section \<open>Fragments and their text\<close>

text \<open>
  The content of a snapshot is the list of its fragments with the text each of them holds. The visible and the deleted
  rope are the texts of the visible and of the deleted fragments.
\<close>

type_synonym content = "(fragment \<times> scalar list) list"

definition vis_text :: "content \<Rightarrow> scalar list" where
  "vis_text C = concat (map snd (filter (\<lambda>e. fr_visible (fst e)) C))"

definition del_text :: "content \<Rightarrow> scalar list" where
  "del_text C = concat (map snd (filter (\<lambda>e. \<not> fr_visible (fst e)) C))"

definition content_ok :: "content \<Rightarrow> bool" where
  "content_ok C \<longleftrightarrow> (\<forall>(f, p)\<in>set C. bytes_of p = fr_len f \<and> global_wf (max_undos f))"

lemma content_text [simp]:
  "vis_text [] = []" "del_text [] = []"
  "vis_text (e # C) = (if fr_visible (fst e) then snd e @ vis_text C else vis_text C)"
  "del_text (e # C) = (if fr_visible (fst e) then del_text C else snd e @ del_text C)"
  "vis_text (C @ C') = vis_text C @ vis_text C'" "del_text (C @ C') = del_text C @ del_text C'"
  by (auto simp: vis_text_def del_text_def)

text \<open>The whole text, visible or not, and the part of it that does not come from the edit at \<open>t\<close>.\<close>

definition all_text :: "content \<Rightarrow> scalar list" where
  "all_text C = concat (map snd C)"

definition text_before :: "lamport \<Rightarrow> content \<Rightarrow> scalar list" where
  "text_before t C = all_text (filter (\<lambda>e. fr_timestamp (fst e) \<noteq> t) C)"

lemma all_text_simps [simp]:
  "all_text [] = []" "all_text (e # C) = snd e @ all_text C" "all_text (C @ C') = all_text C @ all_text C'"
  "text_before t [] = []" "text_before t (e # C) = (if fr_timestamp (fst e) = t then text_before t C else snd e @ text_before t C)"
  "text_before t (C @ C') = text_before t C @ text_before t C'"
  by (auto simp: all_text_def text_before_def)

lemma text_before_fresh: "\<forall>f\<in>fst ` set C. fr_timestamp f \<noteq> t \<Longrightarrow> text_before t C = all_text C"
  by (induction C) auto

text \<open>
  The bytes of a fragment by their places in the insertion they come from; these are what anchors refer to.
\<close>

definition units :: "fragment \<Rightarrow> (lamport \<times> nat) list" where
  "units f = map (Pair (fr_timestamp f)) [insertion_offset f..<insertion_offset f + fr_len f]"

definition vis_units :: "content \<Rightarrow> (lamport \<times> nat) list" where
  "vis_units C = concat (map (\<lambda>e. units (fst e)) (filter (\<lambda>e. fr_visible (fst e)) C))"

lemma vis_units_simps [simp]:
  "vis_units [] = []" "vis_units (e # C) = (if fr_visible (fst e) then units (fst e) @ vis_units C else vis_units C)"
  "vis_units (C @ C') = vis_units C @ vis_units C'"
  by (auto simp: vis_units_def)

lemma length_units [simp]: "length (units f) = fr_len f"
  by (simp add: units_def)

lemma units_cong: "fr_timestamp g = fr_timestamp f \<Longrightarrow> insertion_offset g = insertion_offset f \<Longrightarrow> fr_len g = fr_len f \<Longrightarrow> units g = units f"
  by (simp add: units_def)

lemma length_vis_units: "content_ok C \<Longrightarrow> length (vis_units C) = bytes_of (vis_text C)"
  by (induction C) (auto simp: content_ok_def)

lemma content_ok_simps [simp]:
  "content_ok []" "content_ok (C @ C') \<longleftrightarrow> content_ok C \<and> content_ok C'"
  "content_ok ((f, p) # C) \<longleftrightarrow> bytes_of p = fr_len f \<and> global_wf (max_undos f) \<and> content_ok C"
  by (auto simp: content_ok_def)

lemma content_len: "content_ok C \<Longrightarrow> visible_len (map fst C) = bytes_of (vis_text C) \<and> deleted_len (map fst C) = bytes_of (del_text C)"
  by (induction C) auto

lemma content_fragment_ok: "content_ok C \<Longrightarrow> f \<in> fst ` set C \<Longrightarrow> fragment_ok f"
  by (auto simp: content_ok_def)

definition snapshot_rep :: "snapshot \<Rightarrow> content \<Rightarrow> bool" where
  "snapshot_rep s C \<longleftrightarrow>
     st_wf fragment_ops fs_ok (fragments s) \<and> to_list (fragments s) = map fst C \<and> content_ok C \<and> fragments_ok (map fst C) \<and>
     st_wf insertion_ops (\<lambda>_. True) (insertions s) \<and> keys_sorted insertion_key (to_list (insertions s)) \<and>
     set (to_list (insertions s)) = insertion_fragment_new ` fst ` set C \<and> tm_wf (insertion_slices s) \<and>
     rope_text (visible_text s) (vis_text C) \<and> rope_text (deleted_text s) (del_text C)"

lemma snapshot_rep_ok: "snapshot_rep s C \<Longrightarrow> snapshot_ok s"
  unfolding snapshot_rep_def snapshot_ok_def using content_len[of C] by auto

subsection \<open>Replacing fragments\<close>

definition frag_before :: "fragment \<Rightarrow> fragment \<Rightarrow> bool" where
  "frag_before f g \<longleftrightarrow> fr_id f < fr_id g \<and> (fr_timestamp f = fr_timestamp g \<longrightarrow> insertion_offset f + fr_len f \<le> insertion_offset g)"

definition frag_bounds :: "fragment \<Rightarrow> bool" where
  "frag_bounds f \<longleftrightarrow> locator_min < fr_id f \<and> fr_id f < locator_max \<and> locator_wf (fr_id f) \<and> lamport_MIN < fr_timestamp f \<and>
     fr_timestamp f < lamport_MAX \<and> 0 < fr_len f \<and> insertion_offset f + fr_len f < 2 ^ 32"

lemma sorted_wrt_conj: "sorted_wrt (\<lambda>x y. P x y \<and> Q x y) xs \<longleftrightarrow> sorted_wrt P xs \<and> sorted_wrt Q xs"
  by (induction xs) auto

lemma fragments_ok_iff: "fragments_ok fs \<longleftrightarrow> sorted_wrt frag_before fs \<and> (\<forall>f\<in>set fs. frag_bounds f)"
  unfolding fragments_ok_def frag_before_def frag_bounds_def sorted_wrt_conj by blast

lemma fragments_ok_append:
  "fragments_ok (fs @ gs) \<longleftrightarrow> fragments_ok fs \<and> fragments_ok gs \<and> (\<forall>f\<in>set fs. \<forall>g\<in>set gs. frag_before f g)"
  by (auto simp: fragments_ok_iff sorted_wrt_append)

lemma fragments_ok_Cons:
  "fragments_ok (f # gs) \<longleftrightarrow> frag_bounds f \<and> fragments_ok gs \<and> (\<forall>g\<in>set gs. frag_before f g)"
  by (auto simp: fragments_ok_iff)

lemma fragments_ok_Nil [simp]: "fragments_ok []"
  by (simp add: fragments_ok_iff)

text \<open>A fragment is replaced by parts of it, in order, with identifiers that stay below its own.\<close>

lemma fragments_ok_split:
  assumes "fragments_ok (us @ f # vs)" "fragments_ok gs"
    and "\<forall>g\<in>set gs. fr_timestamp g = fr_timestamp f \<and> insertion_offset f \<le> insertion_offset g \<and>
           insertion_offset g + fr_len g \<le> insertion_offset f + fr_len f \<and> fr_id g \<le> fr_id f"
    and "\<forall>u\<in>set us. \<forall>g\<in>set gs. fr_id u < fr_id g"
  shows "fragments_ok (us @ gs @ vs)"
proof -
  have "frag_before u g" if "u \<in> set us" "g \<in> set gs" for u g
    using assms(1,3,4) that by (fastforce simp: fragments_ok_append fragments_ok_Cons frag_before_def)
  moreover have "frag_before g v" if "v \<in> set vs" "g \<in> set gs" for v g
    using assms(1,3) that by (fastforce simp: fragments_ok_append fragments_ok_Cons frag_before_def)
  ultimately show ?thesis using assms(1,2) by (auto simp: fragments_ok_append fragments_ok_Cons)
qed

lemma fragments_ok_insert:
  assumes "fragments_ok (us @ vs)" "frag_bounds g" "\<forall>u\<in>set us. frag_before u g" "\<forall>v\<in>set vs. frag_before g v"
  shows "fragments_ok (us @ g # vs)"
  using assms by (auto simp: fragments_ok_append fragments_ok_Cons)

abbreviation fkey :: "fragment \<Rightarrow> insertion_fragment_key" where
  "fkey f \<equiv> insertion_key (insertion_fragment_new f)"

lemma fkey_eq: "fkey f = fkey g \<longleftrightarrow> fr_timestamp f = fr_timestamp g \<and> insertion_offset f = insertion_offset g"
  by (simp add: insertion_key_def insertion_fragment_new_def)

lemma frag_before_fkey: "frag_before f g \<Longrightarrow> frag_bounds f \<Longrightarrow> fkey f \<noteq> fkey g"
  by (auto simp: frag_before_def frag_bounds_def fkey_eq)

lemma fragments_ok_distinct: "fragments_ok fs \<Longrightarrow> distinct (map fkey fs)"
  by (induction fs) (auto simp: fragments_ok_Cons dest: frag_before_fkey)

lemma fresh_key:
  assumes "fragments_ok (map fst N @ g # gs)"
  shows "\<forall>n\<in>fst ` set N. fkey n \<noteq> fkey g"
proof
  fix n assume "n \<in> fst ` set N"
  then have "frag_before n g" "frag_bounds n" using assms by (auto simp: fragments_ok_append fragments_ok_iff[of "map fst N"])
  then show "fkey n \<noteq> fkey g" by (rule frag_before_fkey)
qed

text \<open>The last identifier so far is below every identifier to come.\<close>

lemma max_id_before:
  assumes "fragments_ok (fs @ gs)" "g \<in> set gs"
  shows "max_id (frag_sum fs) < fr_id g"
proof (cases "fs = []")
  case True
  then show ?thesis using assms by (simp add: frag_sum_max_id fragments_ok_iff frag_bounds_def)
qed (use assms in \<open>simp add: frag_sum_max_id fragments_ok_append frag_before_def\<close>)

lemma max_id_above: "fragments_ok fs \<Longrightarrow> f \<in> set fs \<Longrightarrow> fr_id f \<le> max_id (frag_sum fs)"
proof (cases fs rule: rev_cases)
  case (snoc gs g)
  assume "fragments_ok fs" "f \<in> set fs"
  with snoc show ?thesis by (auto simp: frag_sum_max_id fragments_ok_append frag_before_def)
qed simp

lemma max_id_bounds:
  assumes "fragments_ok fs"
  shows "locator_min \<le> max_id (frag_sum fs) \<and> max_id (frag_sum fs) < locator_max"
proof (cases "fs = []")
  case False
  then have "frag_bounds (last fs)" using assms by (simp add: fragments_ok_iff)
  then show ?thesis using False by (auto simp: frag_sum_max_id frag_bounds_def)
next
  case True
  then show ?thesis by (simp add: frag_sum_max_id locator_min_def locator_max_def word_gt_0)
qed

subsection \<open>The state of an edit\<close>

text \<open>
  The walk has consumed the fragments \<open>dn\<close> of the old content and the beginning \<open>x\<close> of the text of the next one. What
  remains of that fragment is the rest of it.
\<close>

definition remaining :: "scalar list \<Rightarrow> content \<Rightarrow> content" where
  "remaining x rest =
     (if x = [] then rest
      else case rest of
             [] \<Rightarrow> []
           | (f, p) # r \<Rightarrow>
               (let y = drop (length x) p
                in if y = [] then r else (cut_fragment (bytes_of x) (bytes_of y) f, y) # r))"

definition untouched :: "scalar list \<Rightarrow> content \<Rightarrow> content" where
  "untouched x rest = (if x = [] then rest else tl rest)"

definition index_after :: "content \<Rightarrow> fragment list \<Rightarrow> insertion_fragment set" where
  "index_after C ks =
     insertion_fragment_new ` set ks \<union> {y \<in> insertion_fragment_new ` fst ` set C. insertion_key y \<notin> fkey ` set ks}"

definition edit_index :: "content \<Rightarrow> content \<Rightarrow> content \<Rightarrow> 'd edit_state \<Rightarrow> bool" where
  "edit_index C N U s \<longleftrightarrow>
     (\<exists>ks. es_insertions s = map insert_new ks \<and> distinct (map fkey ks) \<and> set ks \<subseteq> fst ` set N \<and>
        index_after C ks = insertion_fragment_new ` (fst ` set N \<union> fst ` set U))"

definition edit_slices_ok :: "lamport \<Rightarrow> content \<Rightarrow> 'd edit_state \<Rightarrow> bool" where
  "edit_slices_ok t N s \<longleftrightarrow> (\<exists>js. es_slices s = map (slice_from_fragment t) js \<and> distinct (map fkey js) \<and> set js \<subseteq> fst ` set N)"

definition edit_at ::
  "snapshot \<Rightarrow> content \<Rightarrow> lamport \<Rightarrow> content \<Rightarrow> scalar list \<Rightarrow> content \<Rightarrow> content \<Rightarrow> fragment_text edit_state \<Rightarrow> bool" where
  "edit_at sn C t dn x rest N s \<longleftrightarrow>
     C = dn @ rest \<and> (x \<noteq> [] \<longrightarrow> (\<exists>f y r. rest = (f, x @ y) # r \<and> fr_visible f)) \<and>
     cursor_at fragment_ops frag_text_dim (fragments sn) (length dn) (es_old s) \<and>
     fb_rep (es_fragments s) (map fst N) \<and>
     rb_at (visible_text sn) (vis_text C) (deleted_text sn) (del_text C) (vis_text dn @ x) (del_text dn) (vis_text N) (del_text N) (es_ropes s) \<and>
     es_start s = bytes_of (vis_text dn @ x) \<and>
     content_ok N \<and> fragments_ok (map fst (N @ remaining x rest)) \<and>
     edit_index C N (untouched x rest) s \<and> edit_slices_ok t N s \<and>
     (\<forall>f\<in>fst ` set C. fr_timestamp f \<noteq> t) \<and>
     (\<forall>f\<in>fst ` set N. fr_timestamp f = t \<longrightarrow> insertion_offset f + fr_len f \<le> es_insertion_offset s) \<and>
     spans (str_of (vis_text C)) (str_of (vis_text N)) 0 0 (es_patch s) (es_start s) (bytes_of (vis_text N)) \<and>
     edits_separated (es_patch s) \<and> text_before t N = all_text dn @ x \<and>
     spans (vis_units C) (vis_units N) 0 0 (es_patch s) (es_start s) (length (vis_units N))"

lemma edit_atD:
  assumes "edit_at sn C t dn x rest N s"
  shows "C = dn @ rest" "x \<noteq> [] \<Longrightarrow> \<exists>f y r. rest = (f, x @ y) # r \<and> fr_visible f"
    "cursor_at fragment_ops frag_text_dim (fragments sn) (length dn) (es_old s)" "fb_rep (es_fragments s) (map fst N)"
    "rb_at (visible_text sn) (vis_text C) (deleted_text sn) (del_text C) (vis_text dn @ x) (del_text dn) (vis_text N) (del_text N) (es_ropes s)"
    "es_start s = bytes_of (vis_text dn @ x)" "content_ok N" "fragments_ok (map fst N @ map fst (remaining x rest))"
    "edit_index C N (untouched x rest) s" "edit_slices_ok t N s" "\<forall>f\<in>fst ` set C. fr_timestamp f \<noteq> t"
    "\<forall>f\<in>fst ` set N. fr_timestamp f = t \<longrightarrow> insertion_offset f + fr_len f \<le> es_insertion_offset s"
    "spans (str_of (vis_text C)) (str_of (vis_text N)) 0 0 (es_patch s) (es_start s) (bytes_of (vis_text N))" "edits_separated (es_patch s)"
    "text_before t N = all_text dn @ x" "spans (vis_units C) (vis_units N) 0 0 (es_patch s) (es_start s) (length (vis_units N))"
  using assms unfolding edit_at_def by auto

subsection \<open>What one push does\<close>

lemma remaining_simps:
  "remaining [] rest = rest" "untouched [] rest = rest" "x \<noteq> [] \<Longrightarrow> untouched x (e # r) = r"
  "x \<noteq> [] \<Longrightarrow> remaining x ((f, x) # r) = r"
  "y \<noteq> [] \<Longrightarrow> fr_len f = bytes_of x + bytes_of y \<Longrightarrow>
     remaining x ((f, x @ y) # r) = (cut_fragment (bytes_of x) (bytes_of y) f, y) # r"
  by (auto simp: remaining_def untouched_def Let_def cut_fragment_def)

lemma cut_fragment_simps [simp]:
  "fr_id (cut_fragment k n f) = fr_id f" "fr_timestamp (cut_fragment k n f) = fr_timestamp f"
  "insertion_offset (cut_fragment k n f) = insertion_offset f + k" "fr_len (cut_fragment k n f) = n"
  "fr_visible (cut_fragment k n f) = fr_visible f" "deletions (cut_fragment k n f) = deletions f" "max_undos (cut_fragment k n f) = max_undos f"
  by (simp_all add: cut_fragment_def)

definition pushed :: "fragment \<Rightarrow> rope_builder \<Rightarrow> 'd edit_state \<Rightarrow> 'd edit_state" where
  "pushed g R s = s\<lparr>es_insertions := es_insertions s @ [insert_new g], es_ropes := R, es_fragments := fb_push g (es_fragments s)\<rparr>"

lemma push_visible:
  assumes "rb_at vr vcs dr dcs vx dx nv nd (es_ropes s)" "vcs = vx @ ys @ zs" "fr_len g = bytes_of ys"
  obtains R where "push_rewritten g True s = Some (pushed g R s)"
    "rb_at vr vcs dr dcs (vx @ ys) dx (if fr_visible g then nv @ ys else nv) (if fr_visible g then nd else nd @ ys) R"
proof -
  obtain R where "rb_push (bytes_of ys) True (fr_visible g) (es_ropes s) = Some R"
      "rb_at vr vcs dr dcs (vx @ ys) dx (if fr_visible g then nv @ ys else nv) (if fr_visible g then nd else nd @ ys) R"
    by (rule rb_push_visible[OF assms(1,2)])
  then show thesis using assms(3) by (intro that[of R]) (simp_all add: push_rewritten_def rb_push_fragment_def pushed_def)
qed

lemma push_deleted:
  assumes "rb_at vr vcs dr dcs vx dx nv nd (es_ropes s)" "dcs = dx @ ys @ zs" "fr_len g = bytes_of ys" "\<not> fr_visible g"
  obtains R where "push_rewritten g False s = Some (pushed g R s)" "rb_at vr vcs dr dcs vx (dx @ ys) nv (nd @ ys) R"
proof -
  obtain R where "rb_push (bytes_of ys) False False (es_ropes s) = Some R" "rb_at vr vcs dr dcs vx (dx @ ys) nv (nd @ ys) R"
    using rb_push_deleted[OF assms(1,2), of False] by auto
  then show thesis using assms(3,4) by (intro that[of R]) (simp_all add: push_rewritten_def rb_push_fragment_def pushed_def)
qed

lemma index_push:
  assumes "edit_index C N U s" "\<forall>n\<in>fst ` set N. fkey n \<noteq> fkey g" "es_insertions s' = es_insertions s @ [insert_new g]"
    and "{u \<in> fst ` set U. fkey u \<noteq> fkey g} = fst ` set U'"
  shows "edit_index C (N @ [(g, y)]) U' s'"
proof -
  obtain ks where i: "es_insertions s = map insert_new ks" "distinct (map fkey ks)" "set ks \<subseteq> fst ` set N"
      "index_after C ks = insertion_fragment_new ` (fst ` set N \<union> fst ` set U)"
    using assms(1) by (auto simp: edit_index_def)
  have g: "\<forall>k\<in>set ks. fkey k \<noteq> fkey g" using i(3) assms(2) by blast
  have "index_after C (ks @ [g]) = insert (insertion_fragment_new g) {e \<in> index_after C ks. insertion_key e \<noteq> fkey g}"
    using g by (auto simp: index_after_def)
  also have "{e \<in> index_after C ks. insertion_key e \<noteq> fkey g} = insertion_fragment_new ` {u \<in> fst ` set N \<union> fst ` set U. fkey u \<noteq> fkey g}"
    unfolding i(4) by auto
  also have "{u \<in> fst ` set N \<union> fst ` set U. fkey u \<noteq> fkey g} = fst ` set N \<union> fst ` set U'"
    using assms(2,4) by auto
  finally have "index_after C (ks @ [g]) = insertion_fragment_new ` (fst ` set (N @ [(g, y)]) \<union> fst ` set U')" by auto
  moreover have "distinct (map fkey (ks @ [g]))" "set (ks @ [g]) \<subseteq> fst ` set (N @ [(g, y)])" using i(2,3) g by auto
  ultimately show ?thesis unfolding edit_index_def using i(1) assms(3) by (intro exI[of _ "ks @ [g]"]) simp
qed

lemma slices_keep:
  assumes "edit_slices_ok t N s" "es_slices s' = es_slices s"
  shows "edit_slices_ok t (N @ N') s'"
  using assms by (auto simp: edit_slices_ok_def)

lemma slices_push:
  assumes "edit_slices_ok t N s" "es_slices s' = es_slices s @ [slice_from_fragment t g]" "\<forall>n\<in>fst ` set N. fkey n \<noteq> fkey g"
  shows "edit_slices_ok t (N @ [(g, y)]) s'"
proof -
  obtain js where j: "es_slices s = map (slice_from_fragment t) js" "distinct (map fkey js)" "set js \<subseteq> fst ` set N"
    using assms(1) by (auto simp: edit_slices_ok_def)
  moreover have "\<forall>k\<in>set js. fkey k \<noteq> fkey g" using j(3) assms(3) by blast
  ultimately show ?thesis unfolding edit_slices_ok_def using assms(2) by (intro exI[of _ "js @ [g]"]) auto
qed

lemma agree_new_append: "agree a b i j d \<Longrightarrow> agree a (b @ c) i j d"
  by (auto simp: agree_def nth_append)

lemma spans_new_append: "spans a b i j es p q \<Longrightarrow> spans a (b @ c) i j es p q"
proof (induction es arbitrary: i j)
  case (Cons e es)
  then show ?case using agree_new_append[of a b i j _ c] unfolding spans.simps(2) by (elim conjE) (simp only: length_append trans_le_add1 simp_thms)
qed (simp add: agree_new_append)

text \<open>Text that is kept, removed or inserted extends the patch accordingly.\<close>

lemma spans_kept:
  assumes "spans (xs @ ys @ zs) ns 0 0 es (length xs) (length ns)"
  shows "spans (xs @ ys @ zs) (ns @ ys) 0 0 es (length xs + length ys) (length ns + length ys)"
proof -
  have "spans (xs @ ys @ zs) (ns @ ys) 0 0 es (length xs) (length ns)" using assms by (rule spans_new_append)
  moreover have "agree (xs @ ys @ zs) (ns @ ys) (length xs) (length ns) (length ys)" by (auto simp: agree_segments)
  ultimately show ?thesis by (rule spans_extend)
qed

text \<open>The positions of the old text that a patch replaces.\<close>

definition covered :: "patch \<Rightarrow> nat set" where
  "covered p = (\<Union>e\<in>set p. {ostart e..<oend e})"

lemma covered_push:
  assumes "spans a b i j es p q" "p \<le> p'"
  shows "covered (patch_push es (edit_of p p' q q')) = covered es \<union> {p..<p'}"
proof (cases "p = p' \<and> q = q'")
  case True
  then show ?thesis by (simp add: patch_push_def edit_is_empty_def)
next
  case False
  then have push: "patch_push es (edit_of p p' q q') = push_maybe_empty es (edit_of p p' q q')" by (auto simp: patch_push_def edit_is_empty_def)
  show ?thesis
  proof (cases es rule: rev_cases)
    case (snoc us l)
    have l: "oend l \<le> p" "ostart l \<le> oend l" using assms(1) by (auto simp: snoc spans_snoc)
    have merge: "{ostart l..<oend l} \<union> {p..<p'} = {ostart l..<p'}" if "p = oend l" using that l(2) assms(2) by (simp add: ivl_disj_un_two(3))
    show ?thesis
    proof (cases "p \<le> oend l")
      case True
      then have "covered (patch_push es (edit_of p p' q q')) = covered us \<union> {ostart l..<p'}" unfolding push by (simp add: push_maybe_empty_def snoc covered_def Un_commute)
      moreover have "covered es = covered us \<union> {ostart l..<oend l}" by (simp add: snoc covered_def Un_commute)
      ultimately show ?thesis using merge True l(1) by (simp add: Un_assoc)
    next
      case False
      then show ?thesis unfolding push by (simp add: push_maybe_empty_def snoc covered_def Un_ac)
    qed
  next
    case Nil
    then show ?thesis unfolding push by (simp add: push_maybe_empty_def vec_last_def covered_def)
  qed
qed

lemma spans_keep:
  assumes "spans (str_of (xs @ ys @ zs)) (str_of ns) 0 0 es (bytes_of xs) (bytes_of ns)"
  shows "spans (str_of (xs @ ys @ zs)) (str_of (ns @ ys)) 0 0 es (bytes_of xs + bytes_of ys) (bytes_of ns + bytes_of ys)"
  using spans_kept[of "str_of xs" "str_of ys" "str_of zs" "str_of ns" es] assms by simp

end
