(* ===== verification/Edit_Steps.thy ===== *)
theory Edit_Steps
  imports Edit_State
begin

section \<open>The steps of a local edit\<close>

text \<open>
  Each step of the walk over the old fragments keeps the relation between the state of the edit and the texts: pushing a
  part of the current fragment, passing to the next one, taking over whole fragments, and inserting new text.
\<close>

subsection \<open>A part of the current fragment\<close>

text \<open>The first part of what remains of a fragment, with a new identifier, visibility and deletions.\<close>

definition piece :: "fragment \<Rightarrow> nat \<Rightarrow> nat \<Rightarrow> locator \<Rightarrow> bool \<Rightarrow> lamport list \<Rightarrow> fragment" where
  "piece f k n i v d = (cut_fragment k n f)\<lparr>fr_id := i, fr_visible := v, deletions := d\<rparr>"

lemma piece_simps [simp]:
  "fr_id (piece f k n i v d) = i" "fr_timestamp (piece f k n i v d) = fr_timestamp f"
  "insertion_offset (piece f k n i v d) = insertion_offset f + k" "fr_len (piece f k n i v d) = n"
  "fr_visible (piece f k n i v d) = v" "max_undos (piece f k n i v d) = max_undos f"
  by (simp_all add: piece_def)

lemma piece_fragments_ok:
  assumes ok: "fragments_ok (us @ map fst (remaining x ((f, x @ y @ z) # r)))" and len: "fr_len f = bytes_of (x @ y @ z)" and y: "y \<noteq> []"
    and pos: "0 < bytes_of y" "z \<noteq> [] \<Longrightarrow> 0 < bytes_of z"
    and i: "locator_wf i" "\<forall>u\<in>set us. fr_id u < i" "locator_min < i" "if z = [] then i \<le> fr_id f else i < fr_id f"
  shows "fragments_ok (us @ piece f (bytes_of x) (bytes_of y) i v d # map fst (remaining (x @ y) ((f, x @ y @ z) # r)))"
proof -
  let ?F = "cut_fragment (bytes_of x) (bytes_of (y @ z)) f" and ?g = "piece f (bytes_of x) (bytes_of y) i v d"
  let ?gs = "?g # (if z = [] then [] else [cut_fragment (bytes_of (x @ y)) (bytes_of z) f])"
  have rem: "remaining x ((f, x @ y @ z) # r) = (?F, y @ z) # r" using y len by (simp add: remaining_simps)
  have rem': "map fst (remaining (x @ y) ((f, x @ y @ z) # r)) = tl ?gs @ map fst r"
    using y len remaining_simps(4)[of "x @ y" f r] remaining_simps(5)[of z f "x @ y" r] by auto
  have F: "frag_bounds ?F" using ok rem by (simp add: fragments_ok_append fragments_ok_Cons)
  have gs: "fragments_ok ?gs"
    using F i pos by (auto simp: fragments_ok_Cons frag_bounds_def frag_before_def split: if_splits)
  have "fragments_ok (us @ ?gs @ map fst r)"
  proof (rule fragments_ok_split)
    show "fragments_ok (us @ ?F # map fst r)" using ok rem by simp
    show "\<forall>u\<in>set us. \<forall>g\<in>set ?gs. fr_id u < fr_id g" using i by (force split: if_splits)
  qed (use gs i in \<open>auto split: if_splits\<close>)
  then show ?thesis using rem' by simp
qed

lemma piece_untouched:
  assumes ok: "fragments_ok (map fst N @ map fst (remaining x ((f, x @ y @ z) # r)))" and len: "fr_len f = bytes_of (x @ y @ z)" and y: "y \<noteq> []"
  shows "{u \<in> fst ` set (untouched x ((f, x @ y @ z) # r)). fkey u \<noteq> fkey (piece f (bytes_of x) (bytes_of y) i v d)} =
    fst ` set (untouched (x @ y) ((f, x @ y @ z) # r))"
proof -
  have rem: "remaining x ((f, x @ y @ z) # r) = (cut_fragment (bytes_of x) (bytes_of (y @ z)) f, y @ z) # r"
    using y len by (simp add: remaining_simps)
  have r: "fkey u \<noteq> fkey (piece f (bytes_of x) (bytes_of y) i v d)" if "u \<in> fst ` set r" for u
  proof -
    have "frag_before (cut_fragment (bytes_of x) (bytes_of (y @ z)) f) u" "frag_bounds (cut_fragment (bytes_of x) (bytes_of (y @ z)) f)"
      using ok rem that by (auto simp: fragments_ok_append fragments_ok_Cons)
    from frag_before_fkey[OF this] show ?thesis by (auto simp: fkey_eq)
  qed
  show ?thesis
  proof (cases "x = []")
    case True
    have "fkey f = fkey (piece f (bytes_of x) (bytes_of y) i v d)" using True by (simp add: fkey_eq)
    then show ?thesis using True y r by (auto simp: remaining_simps)
  qed (use y r in \<open>auto simp: remaining_simps\<close>)
qed

lemma push_piece:
  fixes f x y z i v d
  defines "g \<equiv> piece f (bytes_of x) (bytes_of y) i v d"
  assumes e: "edit_at sn C t dn x rest N s" and rest: "rest = (f, x @ y @ z) # r" "fr_visible f" "y \<noteq> []" and C: "content_ok C"
    and i: "locator_wf i" "max_id (frag_sum (map fst N)) < i" "if z = [] then i \<le> fr_id f else i < fr_id f"
    and s0: "es_old s0 = es_old s" "es_fragments s0 = es_fragments s" "es_ropes s0 = es_ropes s" "es_insertions s0 = es_insertions s"
      "es_insertion_offset s0 = es_insertion_offset s"
    and slices: "es_slices s0 = es_slices s \<or> es_slices s0 = es_slices s @ [slice_from_fragment t g]"
    and patch: "spans (str_of (vis_text C)) (str_of (vis_text (N @ [(g, y)]))) 0 0 (es_patch s0) (bytes_of (vis_text dn @ x @ y)) (bytes_of (vis_text (N @ [(g, y)])))"
      "edits_separated (es_patch s0)"
      "spans (vis_units C) (vis_units (N @ [(g, y)])) 0 0 (es_patch s0) (bytes_of (vis_text dn @ x @ y)) (length (vis_units (N @ [(g, y)])))"
  obtains R where "push_rewritten g True s0 = Some (pushed g R s0)"
    "edit_at sn C t dn (x @ y) rest (N @ [(g, y)]) ((pushed g R s0)\<lparr>es_start := bytes_of (vis_text dn @ x @ y)\<rparr>)"
proof -
  note e = edit_atD[OF e]
  have f: "fr_len f = bytes_of (x @ y @ z)" "global_wf (max_undos f)" "fr_timestamp f \<noteq> t" using C e(1,11) rest(1) by auto
  have vis: "vis_text C = (vis_text dn @ x) @ y @ (z @ vis_text r)" using e(1) rest(1,2) by simp
  have ok: "fragments_ok (map fst N @ map fst (remaining x ((f, x @ y @ z) # r)))" using e(8) rest(1) by simp
  have okN: "fragments_ok (map fst N)" using ok by (simp add: fragments_ok_append)
  have below: "\<forall>u\<in>set (map fst N). fr_id u < i" "locator_min < i"
    using max_id_above[OF okN] max_id_bounds[OF okN] i(2) by (auto intro: le_less_trans)
  have pos: "0 < bytes_of y" "z \<noteq> [] \<Longrightarrow> 0 < bytes_of z" using rest(3) by (simp_all add: str_of_eq_Nil)
  have new: "fragments_ok (map fst N @ g # map fst (remaining (x @ y) ((f, x @ y @ z) # r)))"
    unfolding g_def by (rule piece_fragments_ok[OF ok f(1) rest(3) pos i(1) below i(3)])
  note key = fresh_key[OF new]
  obtain R where R: "push_rewritten g True s0 = Some (pushed g R s0)"
      "rb_at (visible_text sn) (vis_text C) (deleted_text sn) (del_text C) ((vis_text dn @ x) @ y) (del_text dn)
         (if fr_visible g then vis_text N @ y else vis_text N) (if fr_visible g then del_text N else del_text N @ y) R"
    by (rule push_visible[OF e(5)[folded s0(3)] vis, of g]) (simp add: g_def)
  let ?s = "(pushed g R s0)\<lparr>es_start := bytes_of (vis_text dn @ x @ y)\<rparr>"
  have "edit_index C (N @ [(g, y)]) (untouched (x @ y) rest) ?s"
    by (rule index_push[OF e(9) key]) (use piece_untouched[OF ok f(1) rest(3)] s0(4) rest(1) in \<open>simp_all add: pushed_def g_def\<close>)
  moreover have "edit_slices_ok t (N @ [(g, y)]) ?s"
    using slices slices_keep[OF e(10), of ?s] slices_push[OF e(10) _ key, of ?s] by (auto simp: pushed_def)
  moreover have "fb_rep (es_fragments ?s) (map fst (N @ [(g, y)]))"
    using fb_push_rep[OF e(4), of g] f(2) s0(2) by (simp add: pushed_def g_def)
  moreover have "fragments_ok (map fst ((N @ [(g, y)]) @ remaining (x @ y) rest))" using new rest(1) by simp
  moreover have "\<forall>h\<in>fst ` set (N @ [(g, y)]). fr_timestamp h = t \<longrightarrow> insertion_offset h + fr_len h \<le> es_insertion_offset ?s"
    using e(12) f(3) s0(5) by (simp add: pushed_def g_def)
  moreover have "content_ok (N @ [(g, y)])" using e(7) f(2) by (simp add: g_def)
  moreover have "x @ y \<noteq> [] \<longrightarrow> (\<exists>f z r. rest = (f, (x @ y) @ z) # r \<and> fr_visible f)" using rest by auto
  moreover have "cursor_at fragment_ops frag_text_dim (fragments sn) (length dn) (es_old ?s)" using e(3) s0(1) by (simp add: pushed_def)
  moreover have "rb_at (visible_text sn) (vis_text C) (deleted_text sn) (del_text C) (vis_text dn @ x @ y) (del_text dn)
      (vis_text (N @ [(g, y)])) (del_text (N @ [(g, y)])) (es_ropes ?s)"
    using R(2) by (simp add: pushed_def split: if_splits)
  ultimately have "edit_at sn C t dn (x @ y) rest (N @ [(g, y)]) ?s"
    unfolding edit_at_def using e(1,11,15) f(3) patch by (simp add: pushed_def g_def)
  then show thesis using R(1) by (intro that)
qed

subsection \<open>Kept and removed text\<close>

definition edit_base :: "snapshot \<Rightarrow> content \<Rightarrow> bool" where
  "edit_base sn C \<longleftrightarrow> snapshot_rep sn C \<and> node_height (fragments sn) < MAX_DEPTH"

lemma edit_baseD:
  assumes "edit_base sn C"
  shows "st_wf fragment_ops fs_ok (fragments sn)" "to_list (fragments sn) = map fst C" "content_ok C" "fragments_ok (map fst C)"
    "node_height (fragments sn) < MAX_DEPTH"
  using assms unfolding edit_base_def snapshot_rep_def by blast+

lemma units_piece:
  assumes "fr_len f = k + n + m"
  obtains us ws where "units f = us @ units (piece f k n i v d) @ ws" "length us = k"
proof -
  let ?o = "insertion_offset f"
  have "[?o..<?o + fr_len f] = [?o..<?o + k] @ [?o + k..<?o + k + n] @ [?o + k + n..<?o + k + n + m]"
    using upt_add_eq_append[of ?o "?o + k + n" m] upt_add_eq_append[of ?o "?o + k" n] assms by (simp add: add.assoc)
  then show thesis by (intro that[of "map (Pair (fr_timestamp f)) [?o..<?o + k]" "map (Pair (fr_timestamp f)) [?o + k + n..<?o + k + n + m]"]) (simp_all add: units_def)
qed

lemma vis_units_at:
  assumes "edit_base sn C" "edit_at sn C t dn x ((f, x @ y @ z) # r) N s" "fr_visible f"
  obtains us ws where "vis_units C = us @ units (piece f (bytes_of x) (bytes_of y) i v d) @ ws" "length us = bytes_of (vis_text dn @ x)"
proof -
  have C: "C = dn @ (f, x @ y @ z) # r" using edit_atD(1)[OF assms(2)] .
  have ok: "content_ok dn" "fr_len f = bytes_of x + bytes_of y + bytes_of z" using edit_baseD(3)[OF assms(1)] C by simp_all
  obtain us ws where "units f = us @ units (piece f (bytes_of x) (bytes_of y) i v d) @ ws" "length us = bytes_of x" using ok(2) by (rule units_piece)
  then show thesis using C assms(3) length_vis_units[OF ok(1)] by (intro that[of "vis_units dn @ us" "ws @ vis_units r"]) simp_all
qed

lemma push_kept:
  fixes f x y z i
  defines "g \<equiv> (cut_fragment (bytes_of x) (bytes_of y) f)\<lparr>fr_id := i\<rparr>"
  assumes b: "edit_base sn C" and e: "edit_at sn C t dn x rest N s" and rest: "rest = (f, x @ y @ z) # r" "fr_visible f" "y \<noteq> []"
    and i: "locator_wf i" "max_id (frag_sum (map fst N)) < i" "if z = [] then i \<le> fr_id f else i < fr_id f"
  obtains R where "push_rewritten g True s = Some (pushed g R s)" "fr_visible g" "fr_id g = i"
    "edit_at sn C t dn (x @ y) rest (N @ [(g, y)]) ((pushed g R s)\<lparr>es_start := bytes_of (vis_text dn @ x @ y)\<rparr>)"
proof -
  have g: "g = piece f (bytes_of x) (bytes_of y) i True (deletions f)" using rest(2) by (simp add: g_def piece_def cut_fragment_def)
  have vis: "vis_text C = (vis_text dn @ x) @ y @ (z @ vis_text r)" using edit_atD(1)[OF e] rest(1,2) by simp
  have "spans (str_of (vis_text C)) (str_of (vis_text N @ y)) 0 0 (es_patch s) (bytes_of (vis_text dn @ x) + bytes_of y) (bytes_of (vis_text N) + bytes_of y)"
    unfolding vis by (rule spans_keep) (use edit_atD(6,13)[OF e] vis in simp)
  then have chars: "spans (str_of (vis_text C)) (str_of (vis_text (N @ [(g, y)]))) 0 0 (es_patch s) (bytes_of (vis_text dn @ x @ y)) (bytes_of (vis_text (N @ [(g, y)])))"
    using g by (simp add: add.assoc)
  obtain us ws where u: "vis_units C = us @ units g @ ws" "length us = bytes_of (vis_text dn @ x)"
    unfolding g by (rule vis_units_at[OF b e[unfolded rest(1)] rest(2)])
  have "spans (vis_units C) (vis_units N @ units g) 0 0 (es_patch s) (length us + length (units g)) (length (vis_units N) + length (units g))"
    unfolding u(1) by (rule spans_kept) (use edit_atD(6,16)[OF e] u in simp)
  then have "spans (vis_units C) (vis_units (N @ [(g, y)])) 0 0 (es_patch s) (bytes_of (vis_text dn @ x @ y)) (length (vis_units (N @ [(g, y)])))"
    using g u(2) by (simp add: add.assoc)
  then show thesis
    using push_piece[OF e rest edit_baseD(3)[OF b] i, of s True "deletions f"] edit_atD(14)[OF e] g chars
    by (metis that piece_simps(1,5))
qed

lemma push_removed:
  fixes f x y z i t s N
  defines "g \<equiv> (cut_fragment (bytes_of x) (bytes_of y) f)\<lparr>fr_id := i, deletions := deletions f @ [t], fr_visible := False\<rparr>"
  defines "s0 \<equiv> s\<lparr>es_patch := patch_push (es_patch s) (edit_of (es_start s) (es_start s + bytes_of y) (bytes_of (vis_text N)) (bytes_of (vis_text N))),
    es_slices := es_slices s @ [slice_from_fragment t g]\<rparr>"
  assumes b: "edit_base sn C" and e: "edit_at sn C t dn x rest N s" and rest: "rest = (f, x @ y @ z) # r" "fr_visible f" "y \<noteq> []"
    and i: "locator_wf i" "max_id (frag_sum (map fst N)) < i" "if z = [] then i \<le> fr_id f else i < fr_id f"
  obtains R where "push_rewritten g True s0 = Some (pushed g R s0)" "\<not> fr_visible g" "fr_id g = i"
    "edit_at sn C t dn (x @ y) rest (N @ [(g, y)]) ((pushed g R s0)\<lparr>es_start := bytes_of (vis_text dn @ x @ y)\<rparr>)"
proof -
  have g: "g = piece f (bytes_of x) (bytes_of y) i False (deletions f @ [t])" by (simp add: g_def piece_def cut_fragment_def)
  have vis: "vis_text C = vis_text dn @ x @ y @ z @ vis_text r" using edit_atD(1)[OF e] rest(1,2) by simp
  have "spans (str_of (vis_text C)) (str_of (vis_text N)) 0 0 (es_patch s0) (es_start s + bytes_of y) (bytes_of (vis_text N)) \<and> edits_separated (es_patch s0)"
    using push_spans[OF edit_atD(13)[OF e], of "es_start s + bytes_of y" "bytes_of (vis_text N)"] edit_atD(6,14)[OF e] vis by (simp add: s0_def)
  then have "spans (str_of (vis_text C)) (str_of (vis_text (N @ [(g, y)]))) 0 0 (es_patch s0) (bytes_of (vis_text dn @ x @ y)) (bytes_of (vis_text (N @ [(g, y)])))"
      "edits_separated (es_patch s0)"
    using g edit_atD(6)[OF e] by (simp_all add: add.assoc)
  moreover have "length (vis_units C) = bytes_of (vis_text C)" "length (vis_units N) = bytes_of (vis_text N)"
    using length_vis_units edit_baseD(3)[OF b] edit_atD(7)[OF e] by blast+
  then have "spans (vis_units C) (vis_units N) 0 0 (es_patch s0) (es_start s + bytes_of y) (length (vis_units N))"
    using push_spans[OF edit_atD(16)[OF e], of "es_start s + bytes_of y" "length (vis_units N)"] edit_atD(6,14)[OF e] vis by (simp add: s0_def)
  then have "spans (vis_units C) (vis_units (N @ [(g, y)])) 0 0 (es_patch s0) (bytes_of (vis_text dn @ x @ y)) (length (vis_units (N @ [(g, y)])))"
    using g edit_atD(6)[OF e] by (simp add: add.assoc)
  moreover have "es_slices s0 = es_slices s @ [slice_from_fragment t g]" by (simp add: s0_def)
  moreover have "es_old s0 = es_old s" "es_fragments s0 = es_fragments s" "es_ropes s0 = es_ropes s" "es_insertions s0 = es_insertions s"
    "es_insertion_offset s0 = es_insertion_offset s" by (simp_all add: s0_def)
  moreover note push_piece[OF e rest edit_baseD(3)[OF b] i, of s0 False "deletions f @ [t]", folded g]
  ultimately obtain R where "push_rewritten g True s0 = Some (pushed g R s0)"
      "edit_at sn C t dn (x @ y) rest (N @ [(g, y)]) ((pushed g R s0)\<lparr>es_start := bytes_of (vis_text dn @ x @ y)\<rparr>)" by blast
  then show thesis using g by (intro that[of R]) simp_all
qed

end
