(* ===== verification/Edit_Walk.thy ===== *)
theory Edit_Walk
  imports Edit_Steps
begin

section \<open>Walking over the old fragments\<close>

text \<open>
  What the cursor shows, passing to the next fragment, and taking over whole fragments up to an offset.
\<close>

subsection \<open>What the cursor shows\<close>

abbreviation text_len :: "content \<Rightarrow> fragment_text" where
  "text_len C \<equiv> \<lparr>ft_visible = bytes_of (vis_text C), ft_deleted = bytes_of (del_text C)\<rparr>"

lemma foldl_text_dim:
  "foldl (dim_add frag_text_dim) d (map (item_summary fragment_ops) fs) =
     \<lparr>ft_visible = ft_visible d + visible_len fs, ft_deleted = ft_deleted d + deleted_len fs\<rparr>"
  by (induction fs arbitrary: d) (auto simp: frag_text_dim_def fragment_ops_def fragment_summary_of_def fragment_text_add_def Let_def)

lemma item_pos_text:
  assumes "to_list root = map fst C" "content_ok C" "k \<le> length C"
  shows "item_pos fragment_ops frag_text_dim root k = text_len (take k C)"
proof -
  have "content_ok (take k C)" using assms(2) by (auto simp: content_ok_def dest: in_set_takeD)
  from content_len[OF this] show ?thesis
    using assms(1) foldl_text_dim[of fragment_text_default "map fst (take k C)"]
    by (simp add: item_pos_def pos_at_def take_map frag_text_dim_def fragment_text_default_def)
qed

lemma edit_reads:
  assumes b: "edit_base sn C" and e: "edit_at sn C t dn x rest N s"
  shows "cursor_item (es_old s) = Some (case rest of [] \<Rightarrow> None | e # _ \<Rightarrow> Some (fst e))"
    "cursor_start (es_old s) = text_len dn" "cursor_end frag_text_dim (es_old s) = Some (text_len (dn @ take 1 rest))"
    "summary_so_far s = frag_sum (map fst N)"
proof -
  note C = edit_atD(1)[OF e] and r = cursor_at_reads[OF edit_atD(3)[OF e] edit_baseD(1)[OF b]] and b = edit_baseD[OF b]
  show "cursor_item (es_old s) = Some (case rest of [] \<Rightarrow> None | e # _ \<Rightarrow> Some (fst e))"
    using r(1) b(2) C by (auto simp: vec_get_def nth_append split: list.splits)
  show "cursor_start (es_old s) = text_len dn"
    using r(3) item_pos_text[OF b(2,3), of "length dn"] C by simp
  have "take (min (Suc (length dn)) (length C)) C = dn @ take 1 rest" using C by (cases rest) auto
  then show "cursor_end frag_text_dim (es_old s) = Some (text_len (dn @ take 1 rest))"
    using r(4) item_pos_text[OF b(2,3), of "min (Suc (length dn)) (length C)"] b(2) by simp
  show "summary_so_far s = frag_sum (map fst N)" using edit_atD(4)[OF e] by (simp add: summary_so_far_def fb_rep_def)
qed

subsection \<open>Passing a fragment\<close>

lemma edit_next:
  assumes b: "edit_base sn C" and e: "edit_at sn C t dn x (h # r) N s"
  obtains c where "cursor_next frag_text_dim (es_old s) = Some c"
    "cursor_at fragment_ops frag_text_dim (fragments sn) (length (dn @ [h])) c"
proof -
  obtain c where "cursor_next frag_text_dim (es_old s) = Some c"
      "cursor_at fragment_ops frag_text_dim (fragments sn) (min (Suc (length dn)) (length (to_list (fragments sn)))) c"
    by (rule fr_text.cursor_next_at[OF edit_baseD(1,5)[OF b] edit_atD(3)[OF e]])
  then show thesis using edit_baseD(2)[OF b] edit_atD(1)[OF e] by (intro that[of c]) simp_all
qed

text \<open>A fragment that has been consumed is left.\<close>

lemma edit_leave:
  assumes b: "edit_base sn C" and e: "edit_at sn C t dn p ((f, p) # r) N s" and p: "p \<noteq> []"
  obtains c where "cursor_next frag_text_dim (es_old s) = Some c" "edit_at sn C t (dn @ [(f, p)]) [] r N (s\<lparr>es_old := c\<rparr>)"
proof -
  obtain c where c: "cursor_next frag_text_dim (es_old s) = Some c"
      "cursor_at fragment_ops frag_text_dim (fragments sn) (length (dn @ [(f, p)])) c"
    using b e by (rule edit_next)
  note e = edit_atD[OF e]
  have "fr_visible f" using e(2) p by auto
  then have "edit_at sn C t (dn @ [(f, p)]) [] r N (s\<lparr>es_old := c\<rparr>)"
    unfolding edit_at_def using e p c(2) by (simp add: remaining_simps edit_index_def edit_slices_ok_def)
  with c(1) show thesis by (rule that)
qed

text \<open>A deleted fragment is taken over and left.\<close>

lemma head_untouched:
  assumes "fragments_ok (f # map fst r)"
  shows "{u \<in> fst ` set ((f, p) # r). fkey u \<noteq> fkey f} = fst ` set r"
  using fragments_ok_distinct[OF assms] by (auto simp: image_iff)

lemma edit_pass_deleted:
  assumes b: "edit_base sn C" and e: "edit_at sn C t dn [] ((f, p) # r) N s" and v: "\<not> fr_visible f"
  obtains R c where "push_rewritten f False s = Some (pushed f R s)" "cursor_next frag_text_dim (es_old s) = Some c"
    "edit_at sn C t (dn @ [(f, p)]) [] r (N @ [(f, p)]) ((pushed f R s)\<lparr>es_old := c\<rparr>)"
proof -
  obtain c where c: "cursor_next frag_text_dim (es_old s) = Some c"
      "cursor_at fragment_ops frag_text_dim (fragments sn) (length (dn @ [(f, p)])) c"
    using b e by (rule edit_next)
  note e = edit_atD[OF e]
  have f: "fr_len f = bytes_of p" "global_wf (max_undos f)" "fr_timestamp f \<noteq> t" using edit_baseD(3)[OF b] e(1,11) by auto
  have ok: "fragments_ok (map fst N @ f # map fst r)" using e(8) by (simp add: remaining_simps)
  note key = fresh_key[OF ok]
  have "del_text C = del_text dn @ p @ del_text r" using e(1) v by simp
  from push_deleted[OF e(5) this f(1) v] obtain R where R: "push_rewritten f False s = Some (pushed f R s)"
      "rb_at (visible_text sn) (vis_text C) (deleted_text sn) (del_text C) (vis_text dn @ []) (del_text dn @ p) (vis_text N) (del_text N @ p) R" by blast
  let ?s = "(pushed f R s)\<lparr>es_old := c\<rparr>"
  have "edit_index C (N @ [(f, p)]) r ?s"
    by (rule index_push[OF e(9) key]) (use head_untouched[of f r p] ok in \<open>simp_all add: pushed_def remaining_simps fragments_ok_append\<close>)
  moreover have "edit_slices_ok t (N @ [(f, p)]) ?s" by (rule slices_keep[OF e(10)]) (simp add: pushed_def)
  moreover have "fb_rep (es_fragments ?s) (map fst (N @ [(f, p)]))" using fb_push_rep[OF e(4), of f] f(2) by (simp add: pushed_def)
  ultimately have "edit_at sn C t (dn @ [(f, p)]) [] r (N @ [(f, p)]) ?s"
    unfolding edit_at_def using e R(2) c(2) f v ok by (simp add: pushed_def remaining_simps)
  with R(1) c(1) show thesis by (rule that)
qed

subsection \<open>Taking over whole fragments\<close>

text \<open>Any field but the patch and the insertions may be given anew.\<close>

lemma edit_take:
  assumes b: "edit_base sn C" and e: "edit_at sn C t dn [] (m @ r) N s"
    and c: "cursor_at fragment_ops frag_text_dim (fragments sn) (length (dn @ m)) c"
    and tr: "st_wf fragment_ops fs_ok tr" "to_list tr = map fst m"
  obtains R where "rb_append (fs_text (node_summary tr)) (es_ropes s) = Some R"
    "edit_at sn C t (dn @ m) [] r (N @ m)
       (s\<lparr>es_old := c, es_ropes := R, es_fragments := fb_append tr (es_fragments s), es_start := bytes_of (vis_text (dn @ m))\<rparr>)"
proof -
  note e = edit_atD[OF e]
  have m: "content_ok m" "\<forall>f\<in>fst ` set m. fr_timestamp f \<noteq> t" using edit_baseD(3)[OF b] e(1,11) by auto
  have sum: "fs_text (node_summary tr) = text_len m" using frag_tree_summary[OF tr(1)] tr(2) frag_sum_text[of "map fst m"] content_len[OF m(1)] by simp
  have vis: "vis_text C = (vis_text dn @ []) @ vis_text m @ vis_text r" "del_text C = del_text dn @ del_text m @ del_text r" using e(1) by simp_all
  obtain R where R: "rb_append (text_len m) (es_ropes s) = Some R"
      "rb_at (visible_text sn) (vis_text C) (deleted_text sn) (del_text C) ((vis_text dn @ []) @ vis_text m) (del_text dn @ del_text m)
         (vis_text N @ vis_text m) (del_text N @ del_text m) R"
    by (rule rb_append_at[OF e(5) vis])
  let ?s = "s\<lparr>es_old := c, es_ropes := R, es_fragments := fb_append tr (es_fragments s), es_start := bytes_of (vis_text (dn @ m))\<rparr>"
  have "spans (str_of (vis_text C)) (str_of (vis_text N @ vis_text m)) 0 0 (es_patch s) (bytes_of (vis_text dn @ []) + bytes_of (vis_text m))
      (bytes_of (vis_text N) + bytes_of (vis_text m))"
    unfolding vis(1) by (rule spans_keep) (use e(6,13) vis(1) in simp)
  moreover have units: "vis_units C = vis_units dn @ vis_units m @ vis_units r" "length (vis_units dn) = bytes_of (vis_text dn)"
      "length (vis_units m) = bytes_of (vis_text m)"
    using e(1) edit_baseD(3)[OF b] length_vis_units by simp_all
  have "spans (vis_units C) (vis_units N @ vis_units m) 0 0 (es_patch s) (length (vis_units dn) + length (vis_units m)) (length (vis_units N) + length (vis_units m))"
    unfolding units(1) by (rule spans_kept) (use e(6,16) units in simp)
  then have "spans (vis_units C) (vis_units (N @ m)) 0 0 (es_patch ?s) (es_start ?s) (length (vis_units (N @ m)))" using units by simp
  moreover have "edit_index C (N @ m) r ?s" using e(9) by (auto simp: edit_index_def remaining_simps Un_assoc image_Un)
  moreover have "edit_slices_ok t (N @ m) ?s" by (rule slices_keep[OF e(10)]) simp
  moreover have "fb_rep (es_fragments ?s) (map fst (N @ m))" using fb_append_rep[OF e(4) tr(1)] tr(2) by simp
  moreover have "\<forall>f\<in>fst ` set (N @ m). fr_timestamp f = t \<longrightarrow> insertion_offset f + fr_len f \<le> es_insertion_offset ?s" using e(12) m(2) by auto
  ultimately have "edit_at sn C t (dn @ m) [] r (N @ m) ?s"
    unfolding edit_at_def using e(1,7,8,11,14,15) m(1) text_before_fresh[OF m(2)] R(2) c by (simp add: remaining_simps)
  then show thesis using R(1) sum by (intro that[of R]) simp_all
qed

lemma text_seek_mono: "seek_mono frag_text_dim (target_in (visible_target k) b) d (map (item_summary fragment_ops) fs)"
proof -
  have le: "ft_visible d \<le> ft_visible e" if "e \<in> set (ends frag_text_dim d (map (item_summary fragment_ops) fs))" for d e fs
    using that
  proof (induction fs arbitrary: d)
    case (Cons f fs)
    then show ?case by (fastforce simp: frag_text_dim_def fragment_text_add_def)
  qed simp
  have "sorted_wrt (\<lambda>d e. ft_visible d \<le> ft_visible e) (ends frag_text_dim d (map (item_summary fragment_ops) fs))"
  proof (induction fs arbitrary: d)
    case (Cons f fs)
    then show ?case using le by auto
  qed simp
  then show ?thesis unfolding seek_mono_def by (rule sorted_wrt_mono_rel[rotated]) (auto simp: target_in_def visible_target_def)
qed

text \<open>The slice up to an offset, biased to the right: all the fragments that end at the offset or before it.\<close>

lemma slice_visible:
  assumes b: "edit_base sn C" and C: "C = dn @ rest" and lo: "bytes_of (vis_text dn) \<le> lo"
    and c: "cursor_from fragment_ops frag_text_dim (fragments sn) (length dn) c"
  obtains m r c' tr where "rest = m @ r" "cursor_slice fragment_ops frag_text_dim (visible_target lo) Right c = Some (c', tr)"
    "st_wf fragment_ops fs_ok tr" "to_list tr = map fst m" "cursor_at fragment_ops frag_text_dim (fragments sn) (length (dn @ m)) c'"
    "bytes_of (vis_text (dn @ m)) \<le> lo" "r \<noteq> [] \<longrightarrow> lo < bytes_of (vis_text (dn @ m @ take 1 r))"
proof -
  note b = edit_baseD[OF b]
  let ?P = "seek_hit fragment_ops frag_text_dim (visible_target lo) Right (fragments sn)"
  define k where "k = first_from ?P (length (to_list (fragments sn))) (length dn)"
  have pos: "ft_visible (item_pos fragment_ops frag_text_dim (fragments sn) i) = bytes_of (vis_text (take i C))" if "i \<le> length C" for i
    using item_pos_text[OF b(2,3) that] by simp
  have hit: "?P i \<longleftrightarrow> lo < bytes_of (vis_text (take (Suc i) C))" if "i < length C" for i
    using pos[of "Suc i"] that by (auto simp: seek_hit_def target_in_def visible_target_def)
  have k: "length dn \<le> k" "k \<le> length C" "\<forall>i. length dn \<le> i \<and> i < k \<longrightarrow> \<not> ?P i" "k < length C \<longrightarrow> ?P k"
    using first_from_spec[of "length dn" "length C" ?P] C b(2) by (simp_all add: k_def)
  define m where "m = take (k - length dn) rest"
  define r where "r = drop (k - length dn) rest"
  have mr: "rest = m @ r" "length (dn @ m) = k" "dn @ m = take k C" using k(1,2) C by (simp_all add: m_def r_def)
  have "visible_target lo (item_pos fragment_ops frag_text_dim (fragments sn) (length dn)) \<noteq> Less"
    using pos[of "length dn"] C lo by (simp add: visible_target_def)
  then obtain c' tr where "cursor_slice fragment_ops frag_text_dim (visible_target lo) Right c = Some (c', tr)" "st_wf fragment_ops fs_ok tr"
      "to_list tr = segment (to_list (fragments sn)) (length dn) k" "cursor_at fragment_ops frag_text_dim (fragments sn) k c'"
    unfolding k_def by (rule fr_text.cursor_slice_at[OF b(1,5) text_seek_mono c])
  moreover have "bytes_of (vis_text (dn @ m)) \<le> lo"
  proof (cases "k = length dn")
    case False
    then have "\<not> ?P (k - 1)" "k - 1 < length C" "Suc (k - 1) = k" using k by auto
    then show ?thesis using hit[of "k - 1"] mr(3) by simp
  qed (use lo m_def in simp)
  moreover have "lo < bytes_of (vis_text (dn @ m @ take 1 r))" if "r \<noteq> []"
  proof -
    have "k < length C" using that k C by (simp add: r_def)
    moreover have "take (Suc (length (dn @ m))) ((dn @ m) @ r) = dn @ m @ take 1 r" by (simp add: Suc_diff_le)
    then have "take (Suc k) C = dn @ m @ take 1 r" using mr(1,2) C by (simp only: append_assoc)
    ultimately show ?thesis using hit[of k] k(4) by simp
  qed
  moreover have "segment (to_list (fragments sn)) (length dn) k = map fst m" unfolding b(2) C m_def by (simp add: segment_def take_map)
  ultimately show thesis using mr(1,2) by (intro that[of m r c' tr]) simp_all
qed

end
