(* ===== verification/Edit_Local.thy ===== *)
theory Edit_Local
  imports Edit_Walk
begin

section \<open>The parts of a local edit\<close>

text \<open>
  Each part of the body of the loop of \<open>apply_edit_internal\<close>, with what it does to the texts: skipping to an offset,
  the prefix of a fragment, the insertion and the deletion.
\<close>

subsection \<open>Identifiers\<close>

definition ids_open :: "content \<Rightarrow> content \<Rightarrow> bool" where
  "ids_open N rest \<longleftrightarrow> (\<forall>f p r. rest = (f, p) # r \<longrightarrow> max_id (frag_sum (map fst N)) < fr_id f)"

lemma ids_open_start:
  assumes "edit_at sn C t dn [] rest N s"
  shows "ids_open N rest"
  unfolding ids_open_def
proof (intro allI impI)
  fix f p r assume "rest = (f, p) # r"
  then show "max_id (frag_sum (map fst N)) < fr_id f"
    using max_id_before[OF edit_atD(8)[OF assms], of f] by (simp add: remaining_simps)
qed

lemma ids_open_push: "ids_open (N @ [(g, y)]) rest \<longleftrightarrow> (\<forall>f p r. rest = (f, p) # r \<longrightarrow> fr_id g < fr_id f)"
  by (simp add: ids_open_def frag_sum_max_id)

lemma between_open:
  assumes "edit_base sn C" "edit_at sn C t dn x ((f, p) # r) N s" "ids_open N ((f, p) # r)"
  shows "locator_wf (between (max_id (summary_so_far s)) (fr_id f))"
    "max_id (frag_sum (map fst N)) < between (max_id (summary_so_far s)) (fr_id f)"
    "between (max_id (summary_so_far s)) (fr_id f) < fr_id f"
proof -
  have "locator_wf (fr_id f)" using edit_baseD(4)[OF assms(1)] edit_atD(1)[OF assms(2)] by (simp add: fragments_ok_iff frag_bounds_def)
  moreover have "max_id (frag_sum (map fst N)) < fr_id f" using assms(3) by (simp add: ids_open_def)
  ultimately show "locator_wf (between (max_id (summary_so_far s)) (fr_id f))"
    "max_id (frag_sum (map fst N)) < between (max_id (summary_so_far s)) (fr_id f)"
    "between (max_id (summary_so_far s)) (fr_id f) < fr_id f"
    using edit_reads(4)[OF assms(1,2)] by (simp_all add: locator_wf_between between_greater between_less)
qed

subsection \<open>Skipping to an offset\<close>

lemma bytes_pos: "0 < bytes_of y \<longleftrightarrow> y \<noteq> []"
  by (simp add: str_of_eq_Nil)

lemma cut_same_id: "(cut_fragment k n f)\<lparr>fr_id := fr_id f\<rparr> = cut_fragment k n f"
  by (simp add: cut_fragment_def)

lemma es_swap: "(s :: 'd edit_state)\<lparr>es_start := a, es_old := c\<rparr> = s\<lparr>es_old := c, es_start := a\<rparr>"
  by (cases s) simp

text \<open>The rest of a fragment that has been consumed in part is kept, with the identifier of the fragment.\<close>

lemma consume_push:
  assumes b: "edit_base sn C" and e: "edit_at sn C t dn x rest N s" and rest: "rest = (f, x @ y) # r" "fr_visible f" and x: "x \<noteq> []"
  obtains s1 N' where
    "(if bytes_of (vis_text dn @ x @ y) > es_start s then push_rewritten (cut_fragment (bytes_of x) (bytes_of y) f) True s else Some s) = Some s1"
    "edit_at sn C t dn (x @ y) rest N' (s1\<lparr>es_start := bytes_of (vis_text dn @ x @ y)\<rparr>)" "vis_text N' = vis_text N @ y"
    "es_insertion_offset s1 = es_insertion_offset s" "es_patch s1 = es_patch s"
proof (cases "y = []")
  case True
  have same: "s\<lparr>es_start := bytes_of (vis_text dn @ x @ y)\<rparr> = s" using edit_atD(6)[OF e] True by simp
  have "edit_at sn C t dn (x @ y) rest N (s\<lparr>es_start := bytes_of (vis_text dn @ x @ y)\<rparr>)" unfolding same using True e by simp
  then show thesis using True edit_atD(6)[OF e] by (intro that[of s N]) simp_all
next
  case False
  let ?g = "cut_fragment (bytes_of x) (bytes_of y) f"
  have head: "(?g, y) # r = remaining x rest" using rest False x edit_baseD(3)[OF b] edit_atD(1)[OF e] by (simp add: remaining_simps)
  have "max_id (frag_sum (map fst N)) < fr_id f" using max_id_before[OF edit_atD(8)[OF e], of ?g] unfolding head[symmetric] by simp
  moreover have "locator_wf (fr_id f)" using edit_baseD(4)[OF b] edit_atD(1)[OF e] rest(1) by (simp add: fragments_ok_iff frag_bounds_def)
  ultimately obtain R where R: "push_rewritten ?g True s = Some (pushed ?g R s)"
      "edit_at sn C t dn (x @ y) rest (N @ [(?g, y)]) ((pushed ?g R s)\<lparr>es_start := bytes_of (vis_text dn @ x @ y)\<rparr>)"
    using push_kept[OF b e _ rest(2) False, where z = "[]" and r = r and i = "fr_id f"] rest(1) by (auto simp: cut_same_id)
  have "bytes_of (vis_text dn @ x @ y) > es_start s" using edit_atD(6)[OF e] False bytes_pos by simp
  then have run: "(if bytes_of (vis_text dn @ x @ y) > es_start s then push_rewritten ?g True s else Some s) = Some (pushed ?g R s)" using R(1) by simp
  show thesis by (rule that[OF run R(2)]) (simp_all add: pushed_def rest(2))
qed

lemma consume_rest_at:
  assumes b: "edit_base sn C" and e: "edit_at sn C t dn x rest N s"
  obtains s' dn' rest' N' y where "consume_rest frag_text_dim visible_off s = Some s'"
    "edit_at sn C t dn' [] rest' N' (s'\<lparr>es_start := bytes_of (vis_text dn')\<rparr>)"
    "vis_text dn' = vis_text dn @ x @ y" "vis_text N' = vis_text N @ y"
    "es_insertion_offset s' = es_insertion_offset s" "bytes_of (vis_text dn') \<le> bytes_of (vis_text (dn @ take 1 rest))" "es_patch s' = es_patch s"
proof (cases "x = []")
  case True
  then have "consume_rest frag_text_dim visible_off s = Some s" "s\<lparr>es_start := bytes_of (vis_text dn)\<rparr> = s"
    using edit_reads(2)[OF b e] edit_atD(6)[OF e] by (simp_all add: consume_rest_def visible_off_def)
  then show thesis using True e by (intro that[of s dn rest N "[]"]) simp_all
next
  case False
  then obtain f y r where rest: "rest = (f, x @ y) # r" "fr_visible f" using edit_atD(2)[OF e] by blast
  have pos: "es_start s > bytes_of (vis_text dn)" using edit_atD(6)[OF e] False bytes_pos by simp
  have reads: "cursor_item (es_old s) = Some (Some f)" "visible_off (cursor_start (es_old s)) = Some (bytes_of (vis_text dn))"
      "cursor_end frag_text_dim (es_old s) = Some (text_len (dn @ [(f, x @ y)]))"
    using edit_reads[OF b e] rest(1) by (simp_all add: visible_off_def)
  obtain s1 N' where s1:
      "(if bytes_of (vis_text dn @ x @ y) > es_start s then push_rewritten (cut_fragment (bytes_of x) (bytes_of y) f) True s else Some s) = Some s1"
      "edit_at sn C t dn (x @ y) rest N' (s1\<lparr>es_start := bytes_of (vis_text dn @ x @ y)\<rparr>)" "vis_text N' = vis_text N @ y"
      "es_insertion_offset s1 = es_insertion_offset s" "es_patch s1 = es_patch s"
    by (rule consume_push[OF b e rest False])
  obtain c where c: "cursor_next frag_text_dim (es_old s1) = Some c"
      "edit_at sn C t (dn @ [(f, x @ y)]) [] r N' (s1\<lparr>es_start := bytes_of (vis_text dn @ x @ y), es_old := c\<rparr>)"
    using edit_leave[OF b s1(2)[unfolded rest(1)]] False by auto
  have "consume_rest frag_text_dim visible_off s = Some (s1\<lparr>es_old := c\<rparr>)"
    using reads pos s1(1) c(1) rest(2) edit_atD(6)[OF e] by (simp add: consume_rest_def visible_off_def split: if_splits)
  then show thesis using s1(3-5) c(2) rest by (intro that[of "s1\<lparr>es_old := c\<rparr>" "dn @ [(f, x @ y)]" r N' y]) (simp_all add: es_swap)
qed

lemma skip_to_at:
  assumes b: "edit_base sn C" and e: "edit_at sn C t dn x rest N s" and lo: "bytes_of (vis_text (dn @ take 1 rest)) \<le> lo"
  obtains s' dn' rest' N' y where "skip_to frag_text_dim visible_off (visible_target lo) Right s = Some s'"
    "edit_at sn C t dn' [] rest' N' s'" "vis_text dn' = vis_text dn @ x @ y" "vis_text N' = vis_text N @ y"
    "es_insertion_offset s' = es_insertion_offset s" "bytes_of (vis_text dn') \<le> lo"
    "rest' \<noteq> [] \<longrightarrow> lo < bytes_of (vis_text (dn' @ take 1 rest'))" "es_patch s' = es_patch s"
proof -
  obtain s1 d1 r1 N1 y where s1: "consume_rest frag_text_dim visible_off s = Some s1"
      "edit_at sn C t d1 [] r1 N1 (s1\<lparr>es_start := bytes_of (vis_text d1)\<rparr>)" "vis_text d1 = vis_text dn @ x @ y" "vis_text N1 = vis_text N @ y"
      "es_insertion_offset s1 = es_insertion_offset s" "bytes_of (vis_text d1) \<le> bytes_of (vis_text (dn @ take 1 rest))" "es_patch s1 = es_patch s"
    using b e by (rule consume_rest_at)
  have at: "cursor_at fragment_ops frag_text_dim (fragments sn) (length d1) (es_old s1)" using edit_atD(3)[OF s1(2)] by simp
  have start: "cursor_from fragment_ops frag_text_dim (fragments sn) (length d1) (es_old s1)" using at by (simp add: cursor_from_def)
  have le: "bytes_of (vis_text d1) \<le> lo" using s1(6) lo by linarith
  obtain m r c tr where m: "r1 = m @ r" "cursor_slice fragment_ops frag_text_dim (visible_target lo) Right (es_old s1) = Some (c, tr)"
      "st_wf fragment_ops fs_ok tr" "to_list tr = map fst m" "cursor_at fragment_ops frag_text_dim (fragments sn) (length (d1 @ m)) c"
      "bytes_of (vis_text (d1 @ m)) \<le> lo" "r \<noteq> [] \<longrightarrow> lo < bytes_of (vis_text (d1 @ m @ take 1 r))"
    by (rule slice_visible[OF b edit_atD(1)[OF s1(2)] le start])
  obtain R where R: "rb_append (fs_text (node_summary tr)) (es_ropes s1) = Some R"
      "edit_at sn C t (d1 @ m) [] r (N1 @ m)
         (s1\<lparr>es_old := c, es_ropes := R, es_fragments := fb_append tr (es_fragments s1), es_start := bytes_of (vis_text (d1 @ m))\<rparr>)"
    using edit_take[OF b s1(2)[unfolded m(1)] m(5,3,4)] by auto
  have "cursor_start c = text_len (d1 @ m)" using edit_reads(2)[OF b R(2)] by simp
  then have run: "skip_to frag_text_dim visible_off (visible_target lo) Right s =
      Some (s1\<lparr>es_old := c, es_ropes := R, es_fragments := fb_append tr (es_fragments s1), es_start := bytes_of (vis_text (d1 @ m))\<rparr>)"
    using s1(1) m(2) R(1) by (simp add: skip_to_def visible_off_def)
  show thesis by (rule that[OF run R(2), of "y @ vis_text m"]) (use s1(3-5,7) m(6,7) in simp_all)
qed

subsection \<open>The prefix of a fragment\<close>

lemma prefix_of_bytes:
  assumes "y @ w = q @ w'" "bytes_of y \<le> bytes_of q"
  obtains z where "q = y @ z" "w = z @ w'"
proof -
  obtain us where "y = q @ us \<and> us @ w = w' \<or> y @ us = q \<and> w = us @ w'" using assms(1) by (auto simp: append_eq_append_conv2)
  then show thesis
  proof
    assume u: "y = q @ us \<and> us @ w = w'"
    then have "us = []" using assms(2) bytes_pos[of us] by auto
    with u show thesis by (intro that[of "[]"]) simp_all
  qed (use that in auto)
qed

text \<open>Text that starts in the current fragment and does not go beyond it is text of that fragment.\<close>

lemma text_in_fragment:
  assumes e: "edit_at sn C t dn x rest N s" and vis: "vis_text C = vis_text dn @ x @ y @ w" and y: "y \<noteq> []"
    and le: "bytes_of (vis_text dn @ x @ y) \<le> bytes_of (vis_text (dn @ take 1 rest))"
  obtains f z r where "rest = (f, x @ y @ z) # r" "fr_visible f"
proof -
  have pos: "0 < bytes_of y" using y bytes_pos by blast
  then obtain f p r where rest: "rest = (f, p) # r" using le by (cases rest) auto
  have v: "fr_visible f"
  proof (rule ccontr)
    assume "\<not> fr_visible f"
    then show False using le pos rest by simp
  qed
  obtain q where p: "p = x @ q" using edit_atD(2)[OF e] rest by (cases "x = []") auto
  have "y @ w = q @ vis_text r" using vis edit_atD(1)[OF e] rest v p by simp
  moreover have "bytes_of y \<le> bytes_of q" using le rest v p by simp
  ultimately obtain z where "q = y @ z" by (rule prefix_of_bytes)
  with rest v p show thesis by (intro that) simp_all
qed

lemma push_prefix_at:
  assumes b: "edit_base sn C" and e: "edit_at sn C t dn x rest N s" and o: "ids_open N rest"
    and vis: "vis_text C = vis_text dn @ x @ y @ w" and le: "bytes_of (vis_text dn @ x @ y) \<le> bytes_of (vis_text (dn @ take 1 rest))"
  obtains s' N' where "push_prefix visible_off (bytes_of (vis_text dn @ x @ y)) s = Some s'"
    "edit_at sn C t dn (x @ y) rest N' s'" "ids_open N' rest" "vis_text N' = vis_text N @ y" "es_insertion_offset s' = es_insertion_offset s" "es_patch s' = es_patch s"
proof (cases "y = []")
  case True
  then show thesis using e o edit_atD(6)[OF e] by (intro that[of s N]) (simp_all add: push_prefix_def)
next
  case False
  obtain f z r where rest: "rest = (f, x @ y @ z) # r" "fr_visible f" using e vis False le by (rule text_in_fragment)
  note i = between_open[OF b e[unfolded rest(1)] o[unfolded rest(1)]]
  let ?g = "(cut_fragment (bytes_of x) (bytes_of y) f)\<lparr>fr_id := between (max_id (summary_so_far s)) (fr_id f)\<rparr>"
  obtain R where R: "push_rewritten ?g True s = Some (pushed ?g R s)" "fr_visible ?g" "fr_id ?g = between (max_id (summary_so_far s)) (fr_id f)"
      "edit_at sn C t dn (x @ y) rest (N @ [(?g, y)]) ((pushed ?g R s)\<lparr>es_start := bytes_of (vis_text dn @ x @ y)\<rparr>)"
    by (rule push_kept[OF b e rest False i(1,2)]) (use i(3) in \<open>simp add: less_imp_le\<close>)
  have run: "push_prefix visible_off (bytes_of (vis_text dn @ x @ y)) s = Some ((pushed ?g R s)\<lparr>es_start := bytes_of (vis_text dn @ x @ y)\<rparr>)"
    using R(1) edit_reads(1,2)[OF b e] edit_atD(6)[OF e] bytes_pos[of y] False rest
    by (simp add: push_prefix_def visible_off_def checked_sub_def)
  show thesis by (rule that[OF run R(4)]) (use R(2,3) i(3) rest(1) in \<open>simp_all add: ids_open_push pushed_def\<close>)
qed

end
