(* ===== verification/Edit_Insert.thy ===== *)
theory Edit_Insert
  imports Edit_Local
begin

section \<open>Inserting text\<close>

text \<open>
  New text becomes a fragment with an identifier between those before it and that of the current fragment.
\<close>

definition inserted_fragment :: "lamport \<Rightarrow> locator \<Rightarrow> nat \<Rightarrow> 'd edit_state \<Rightarrow> fragment" where
  "inserted_fragment t next_id n s =
     \<lparr>fr_id = between (max_id (summary_so_far s)) next_id, fr_timestamp = t, insertion_offset = es_insertion_offset s,
      fr_len = n, fr_visible = True, deletions = [], max_undos = global_new\<rparr>"

lemma inserted_simps [simp]:
  "fr_id (inserted_fragment t k n s) = between (max_id (summary_so_far s)) k" "fr_timestamp (inserted_fragment t k n s) = t"
  "insertion_offset (inserted_fragment t k n s) = es_insertion_offset s" "fr_len (inserted_fragment t k n s) = n"
  "fr_visible (inserted_fragment t k n s)" "max_undos (inserted_fragment t k n s) = global_new"
  by (simp_all add: inserted_fragment_def)

text \<open>A text of less than 4 GiB becomes one fragment.\<close>

lemma insertion_loop_single:
  fixes t next_id
  assumes "new_text \<noteq> []" "es_insertion_offset s + length new_text < 2 ^ 32"
  defines "g \<equiv> inserted_fragment t next_id (length new_text) s"
  shows "insertion_loop new_text t next_id t 0 s =
    Some (s\<lparr>es_slices := es_slices s @ [slice_from_fragment t g], es_insertions := es_insertions s @ [insert_new g],
            es_fragments := fb_push g (es_fragments s), es_insertion_offset := es_insertion_offset s + length new_text\<rparr>)"
proof -
  have "min (length new_text) (0 + MAX_INSERTION_LEN) = length new_text" using assms(2) by (simp add: MAX_INSERTION_LEN_def)
  then show ?thesis using assms(1,2)
    by (subst insertion_loop.simps) (simp add: Let_def insertion_loop.simps[of new_text t next_id t "length new_text"] g_def inserted_fragment_def)
qed

lemma remaining_later:
  assumes b: "edit_base sn C" and e: "edit_at sn C t dn x rest N s" and v: "v \<in> set (map fst (remaining x rest))"
  shows "\<exists>f p r. rest = (f, p) # r \<and> fr_id f \<le> fr_id v" "fr_timestamp v \<noteq> t"
proof -
  obtain f p r where rest: "rest = (f, p) # r" using v by (cases rest) (auto simp: remaining_def split: if_splits)
  have "fr_id f < fr_id u" if "u \<in> fst ` set r" for u
    using edit_baseD(4)[OF b] edit_atD(1)[OF e] rest that by (auto simp: fragments_ok_append fragments_ok_Cons frag_before_def)
  moreover have "fr_id v = fr_id f \<and> fr_timestamp v = fr_timestamp f \<or> v \<in> fst ` set r"
    using v rest by (auto simp: remaining_def Let_def split: if_splits)
  ultimately show "\<exists>f p r. rest = (f, p) # r \<and> fr_id f \<le> fr_id v" "fr_timestamp v \<noteq> t"
    using rest edit_atD(1,11)[OF e] by (auto intro: less_imp_le)
qed

lemma inserted_ok:
  assumes b: "edit_base sn C" and e: "edit_at sn C t dn x rest N s" and o: "ids_open N rest"
    and t: "lamport_MIN < t" "t < lamport_MAX" and n: "0 < n" "es_insertion_offset s + n < 2 ^ 32"
    and k: "k = (case rest of [] \<Rightarrow> locator_max | h # _ \<Rightarrow> fr_id (fst h))"
  shows "fragments_ok (map fst N @ inserted_fragment t k n s # map fst (remaining x rest))" "ids_open (N @ [(inserted_fragment t k n s, y)]) rest"
proof -
  let ?g = "inserted_fragment t k n s"
  note ok = edit_atD(8)[OF e]
  have okN: "fragments_ok (map fst N)" using ok by (simp add: fragments_ok_append)
  have sum: "max_id (summary_so_far s) = max_id (frag_sum (map fst N))" using edit_reads(4)[OF b e] by simp
  have kk: "max_id (frag_sum (map fst N)) < k" "k \<le> locator_max" "locator_wf k"
    using max_id_bounds[OF okN] o k edit_baseD(4)[OF b] edit_atD(1)[OF e]
    by (auto simp: ids_open_def fragments_ok_iff frag_bounds_def locator_max_def locator_wf_def split: list.splits)
  then have id: "max_id (frag_sum (map fst N)) < fr_id ?g" "fr_id ?g < k" "locator_wf (fr_id ?g)"
    by (simp_all add: sum between_greater between_less locator_wf_between)
  have "frag_bounds ?g" using id kk(2) max_id_bounds[OF okN] t n by (auto simp: frag_bounds_def intro: le_less_trans less_le_trans)
  moreover have "frag_before u ?g" if "u \<in> set (map fst N)" for u
    using le_less_trans[OF max_id_above[OF okN that] id(1)] edit_atD(12)[OF e] that by (auto simp: frag_before_def)
  moreover have "frag_before ?g v" if v: "v \<in> set (map fst (remaining x rest))" for v
  proof -
    obtain f p r where "rest = (f, p) # r" "fr_id f \<le> fr_id v" "fr_timestamp v \<noteq> t" using remaining_later[OF b e v] by blast
    then show ?thesis using id(2) k by (auto simp: frag_before_def)
  qed
  ultimately show "fragments_ok (map fst N @ ?g # map fst (remaining x rest))" using ok by (intro fragments_ok_insert) blast+
  show "ids_open (N @ [(?g, y)]) rest" using id(2) k by (auto simp: ids_open_push)
qed

lemma local_insert_at:
  assumes b: "edit_base sn C" and e: "edit_at sn C t dn x rest N s" and o: "ids_open N rest" and t: "lamport_MIN < t" "t < lamport_MAX"
    and ys: "\<forall>c\<in>set ys. is_scalar c" "es_insertion_offset s + bytes_of ys < 2 ^ 32"
  obtains s' N' where "local_insert t (str_of ys) s = Some s'" "edit_at sn C t dn x rest N' s'" "ids_open N' rest"
    "vis_text N' = vis_text N @ ys" "es_insertion_offset s' = es_insertion_offset s + bytes_of ys" "covered (es_patch s') = covered (es_patch s)"
proof (cases "ys = []")
  case True
  then show thesis using e o by (intro that[of s N]) (simp_all add: local_insert_def)
next
  case False
  define k where "k = (case rest of [] \<Rightarrow> locator_max | h # _ \<Rightarrow> fr_id (fst h))"
  define g where "g = inserted_fragment t k (bytes_of ys) s"
  have pos: "0 < bytes_of ys" "str_of ys \<noteq> []" using False bytes_pos by blast+
  note g = inserted_ok[OF b e o t pos(1) ys(2) k_def, folded g_def] and d = edit_atD[OF e]
  obtain R where R: "rb_push_str (str_of ys) (es_ropes s) = Some R"
      "rb_at (visible_text sn) (vis_text C) (deleted_text sn) (del_text C) (vis_text dn @ x) (del_text dn) (vis_text N @ ys) (del_text N) R"
    using d(5) ys(1) by (rule rb_push_str_at)
  let ?P = "patch_push (es_patch s) (edit_of (es_start s) (es_start s) (bytes_of (vis_text N)) (bytes_of (vis_text N) + bytes_of ys))"
  let ?s = "s\<lparr>es_slices := es_slices s @ [slice_from_fragment t g], es_insertions := es_insertions s @ [insert_new g],
    es_fragments := fb_push g (es_fragments s), es_insertion_offset := es_insertion_offset s + bytes_of ys, es_ropes := R, es_patch := ?P\<rparr>"
  have "next_fragment_id s = Some k" using edit_reads(1)[OF b e] by (simp add: next_fragment_id_def k_def split: list.splits)
  moreover have "ft_visible (fs_text (summary_so_far s)) = bytes_of (vis_text N)"
    using edit_reads(4)[OF b e] frag_sum_text[of "map fst N"] content_len[OF d(7)] by simp
  ultimately have run: "local_insert t (str_of ys) s = Some ?s"
    using insertion_loop_single[OF pos(2) ys(2), of t k] R(1) pos
    by (simp add: local_insert_def push_fragments_for_insertion_def g_def Let_def)
  have g_simps: "fr_timestamp g = t" "insertion_offset g = es_insertion_offset s" "fr_len g = bytes_of ys" "fr_visible g" "max_undos g = global_new"
    by (simp_all add: g_def)
  note key = fresh_key[OF g(1)]
  have "fkey u \<noteq> fkey g" if "u \<in> fst ` set (untouched x rest)" for u
  proof -
    have "u \<in> fst ` set C" using that d(1) by (cases rest) (auto simp: untouched_def split: if_splits)
    then have "fr_timestamp u \<noteq> t" using d(11) by blast
    then show ?thesis using g_simps(1) by (simp add: fkey_eq)
  qed
  then have "{u \<in> fst ` set (untouched x rest). fkey u \<noteq> fkey g} = fst ` set (untouched x rest)" by blast
  then have "edit_index C (N @ [(g, ys)]) (untouched x rest) ?s" by (intro index_push[OF d(9) key]) simp_all
  moreover have "edit_slices_ok t (N @ [(g, ys)]) ?s" by (rule slices_push[OF d(10) _ key]) simp
  moreover have "fb_rep (es_fragments ?s) (map fst (N @ [(g, ys)]))" using fb_push_rep[OF d(4), of g] g_simps(5) by simp
  moreover have "spans (str_of (vis_text C)) (str_of (vis_text N @ ys)) 0 0 (es_patch ?s) (es_start s) (bytes_of (vis_text N) + bytes_of ys) \<and> edits_separated (es_patch ?s)"
    using push_spans[OF spans_new_append[OF d(13), of "str_of ys"], of "es_start s" "bytes_of (vis_text N) + bytes_of ys"] d(1,2,6,14)
    by (cases "x = []") auto
  moreover have len: "length (vis_units C) = bytes_of (vis_text C)" "length (vis_units N) = bytes_of (vis_text N)"
    using length_vis_units edit_baseD(3)[OF b] d(7) by blast+
  have "spans (vis_units C) (vis_units (N @ [(g, ys)])) 0 0 (es_patch ?s) (es_start s) (length (vis_units (N @ [(g, ys)])))"
    using push_spans[OF spans_new_append[OF d(16), of "units g"], of "es_start s" "length (vis_units N) + bytes_of ys"] d(1,2,6,14) g_simps(3,4) len
    by (cases "x = []") auto
  moreover have "\<forall>f\<in>fst ` set (N @ [(g, ys)]). fr_timestamp f = t \<longrightarrow> insertion_offset f + fr_len f \<le> es_insertion_offset ?s"
    using d(12) g_simps by (auto intro: trans_le_add1)
  ultimately have "edit_at sn C t dn x rest (N @ [(g, ys)]) ?s"
    unfolding edit_at_def using d(1,2,3,6,7,11,15) g(1) g_simps R(2) by simp
  moreover have "covered ?P = covered (es_patch s)" using covered_push[OF d(13), of "es_start s"] by simp
  ultimately show thesis by (intro that[OF run _ g(2)]) (use g_simps in simp_all)
qed

end
