(* ===== verification/Edit_Delete.thy ===== *)
theory Edit_Delete
  imports Edit_Insert
begin

section \<open>Deleting text\<close>

text \<open>
  The loop that deletes up to an offset: one step for each kind of fragment it meets, and the whole loop, which ends.
\<close>

lemma delete_stop: "es_start s = hi \<Longrightarrow> local_delete_loop t hi s = Some s"
  by (subst local_delete_loop.simps) simp

text \<open>A fragment that is already deleted is taken over.\<close>

lemma delete_step_deleted:
  assumes b: "edit_base sn C" and e: "edit_at sn C t dn [] ((f, p) # r) N s" and v: "\<not> fr_visible f" and hi: "es_start s < hi"
  obtains s' where "local_delete_loop t hi s = local_delete_loop t hi s'" "edit_at sn C t (dn @ [(f, p)]) [] r (N @ [(f, p)]) s'"
    "es_insertion_offset s' = es_insertion_offset s" "es_patch s' = es_patch s"
proof -
  obtain R c where R: "push_rewritten f False s = Some (pushed f R s)" "cursor_next frag_text_dim (es_old s) = Some c"
      "edit_at sn C t (dn @ [(f, p)]) [] r (N @ [(f, p)]) ((pushed f R s)\<lparr>es_old := c\<rparr>)"
    using b e v by (rule edit_pass_deleted)
  have len: "0 < fr_len f" using edit_baseD(4)[OF b] edit_atD(1)[OF e] by (simp add: fragments_ok_iff frag_bounds_def)
  have fin: "cursor_end frag_text_dim (es_old s) = Some (text_len (dn @ [(f, p)]))" "bytes_of (vis_text (dn @ [(f, p)])) = es_start s"
    using edit_reads(3)[OF b e] edit_atD(6)[OF e] v by simp_all
  have same: "(pushed f R s)\<lparr>es_start := es_start s, es_old := c\<rparr> = (pushed f R s)\<lparr>es_old := c\<rparr>" by (simp add: pushed_def)
  have run: "local_delete_loop t hi s = local_delete_loop t hi ((pushed f R s)\<lparr>es_start := es_start s, es_old := c\<rparr>)"
    using edit_reads(1)[OF b e] fin R(1,2) len hi v
    by (subst local_delete_loop.simps) (simp add: Let_def pushed_def)
  show thesis by (rule that[OF run[unfolded same] R(3)]) (simp_all add: pushed_def)
qed

text \<open>A visible fragment is deleted up to an offset in it, \<open>y\<close> being the text that goes.\<close>

lemma delete_push:
  assumes b: "edit_base sn C" and e: "edit_at sn C t dn x ((f, x @ y @ z) # r) N s" and o: "ids_open N ((f, x @ y @ z) # r)"
    and v: "fr_visible f" and y: "y \<noteq> []" and hi: "min hi (bytes_of (vis_text dn @ x @ y @ z)) = bytes_of (vis_text dn @ x @ y)"
  obtains s' N' where
    "local_delete_loop t hi s =
       do { c \<leftarrow> (if bytes_of (vis_text dn @ x @ y @ z) \<le> hi then cursor_next frag_text_dim (es_old s') else Some (es_old s'));
            local_delete_loop t hi (s'\<lparr>es_old := c\<rparr>) }"
    "edit_at sn C t dn (x @ y) ((f, x @ y @ z) # r) N' s'" "ids_open N' ((f, x @ y @ z) # r)" "vis_text N' = vis_text N"
    "es_insertion_offset s' = es_insertion_offset s" "covered (es_patch s') = covered (es_patch s) \<union> {es_start s..<es_start s + bytes_of y}"
proof -
  note i = between_open[OF b e o]
  let ?g = "(cut_fragment (bytes_of x) (bytes_of y) f)\<lparr>fr_id := between (max_id (summary_so_far s)) (fr_id f),
    deletions := deletions f @ [t], fr_visible := False\<rparr>"
  let ?s = "s\<lparr>es_patch := patch_push (es_patch s) (edit_of (es_start s) (es_start s + bytes_of y) (bytes_of (vis_text N)) (bytes_of (vis_text N))),
    es_slices := es_slices s @ [slice_from_fragment t ?g]\<rparr>"
  obtain R where R: "push_rewritten ?g True ?s = Some (pushed ?g R ?s)" "\<not> fr_visible ?g" "fr_id ?g = between (max_id (summary_so_far s)) (fr_id f)"
      "edit_at sn C t dn (x @ y) ((f, x @ y @ z) # r) (N @ [(?g, y)]) ((pushed ?g R ?s)\<lparr>es_start := bytes_of (vis_text dn @ x @ y)\<rparr>)"
    by (rule push_removed[OF b e refl v y i(1,2)]) (use i(3) in \<open>simp add: less_imp_le\<close>)
  have start: "es_start s = bytes_of (vis_text dn @ x)" using edit_atD(6)[OF e] .
  have sum: "ft_visible (fs_text (summary_so_far s)) = bytes_of (vis_text N)"
    using edit_reads(4)[OF b e] frag_sum_text[of "map fst N"] content_len[OF edit_atD(7)[OF e]] by simp
  have pos: "0 < bytes_of y" using y bytes_pos by blast
  then obtain k where "bytes_of y = Suc k" using gr0_implies_Suc by blast
  then have lt: "es_start s < hi" using hi start min.cobounded1[of hi "bytes_of (vis_text dn @ x @ y @ z)"] by simp
  have run: "local_delete_loop t hi s =
       do { c \<leftarrow> (if bytes_of (vis_text dn @ x @ y @ z) \<le> hi then cursor_next frag_text_dim (es_old ((pushed ?g R ?s)\<lparr>es_start := bytes_of (vis_text dn @ x @ y)\<rparr>))
                  else Some (es_old ((pushed ?g R ?s)\<lparr>es_start := bytes_of (vis_text dn @ x @ y)\<rparr>)));
            local_delete_loop t hi ((pushed ?g R ?s)\<lparr>es_start := bytes_of (vis_text dn @ x @ y), es_old := c\<rparr>) }"
    using edit_reads(1-3)[OF b e] R(1) lt v hi pos sum start
    by (subst local_delete_loop.simps) (simp add: Let_def checked_sub_def add.assoc)
  show thesis by (rule that[OF run R(4)]) (use R(2,3) i(3) covered_push[OF edit_atD(13)[OF e]] in \<open>simp_all add: ids_open_push pushed_def\<close>)
qed

text \<open>A fragment that the edit has consumed already is left.\<close>

lemma delete_step_consumed:
  assumes b: "edit_base sn C" and e: "edit_at sn C t dn p ((f, p) # r) N s" and p: "p \<noteq> []" and hi: "es_start s < hi"
  obtains s' where "local_delete_loop t hi s = local_delete_loop t hi s'" "edit_at sn C t (dn @ [(f, p)]) [] r N s'"
    "es_insertion_offset s' = es_insertion_offset s" "es_patch s' = es_patch s"
proof -
  obtain c where c: "cursor_next frag_text_dim (es_old s) = Some c" "edit_at sn C t (dn @ [(f, p)]) [] r N (s\<lparr>es_old := c\<rparr>)"
    using b e p by (rule edit_leave)
  have v: "fr_visible f" using edit_atD(2)[OF e] p by auto
  have run: "local_delete_loop t hi s = local_delete_loop t hi (s\<lparr>es_old := c\<rparr>)"
    using edit_reads(1-3)[OF b e] c(1) hi v edit_atD(6)[OF e]
    by (subst local_delete_loop.simps) (simp add: Let_def checked_sub_def)
  show thesis by (rule that[OF run c(2)]) simp_all
qed

text \<open>A visible fragment: the deletion ends in it, or goes on after it.\<close>

lemma delete_step_visible:
  assumes b: "edit_base sn C" and e: "edit_at sn C t dn x ((f, p) # r) N s" and o: "ids_open N ((f, p) # r)" and v: "fr_visible f"
    and y: "y \<noteq> []" and vis: "vis_text C = vis_text dn @ x @ y @ w" and len: "p \<noteq> []"
  defines "hi \<equiv> bytes_of (vis_text dn @ x @ y)"
  shows "(\<exists>s' N'. local_delete_loop t hi s = Some s' \<and> edit_at sn C t dn (x @ y) ((f, p) # r) N' s' \<and> ids_open N' ((f, p) # r) \<and>
      vis_text N' = vis_text N \<and> es_insertion_offset s' = es_insertion_offset s \<and> covered (es_patch s') = covered (es_patch s) \<union> {es_start s..<hi}) \<or>
    (\<exists>s' N' y1 y2. local_delete_loop t hi s = local_delete_loop t hi s' \<and> edit_at sn C t (dn @ [(f, p)]) [] r N' s' \<and> y = y1 @ y2 \<and>
      vis_text (dn @ [(f, p)]) = vis_text dn @ x @ y1 \<and> vis_text N' = vis_text N \<and> es_insertion_offset s' = es_insertion_offset s \<and>
      covered (es_patch s') = covered (es_patch s) \<union> {es_start s..<es_start s + bytes_of y1})"
proof -
  have lt: "es_start s < hi" using edit_atD(6)[OF e] y bytes_pos by (simp add: hi_def)
  obtain q where p: "p = x @ q" using edit_atD(2)[OF e] by (cases "x = []") auto
  have yw: "y @ w = q @ vis_text r" using vis edit_atD(1)[OF e] v p by simp
  consider (inside) "bytes_of y < bytes_of q" | (consumed) "q = []" | (whole) "q \<noteq> []" "bytes_of q \<le> bytes_of y" by fastforce
  then show ?thesis
  proof cases
    case inside
    then obtain z where q: "q = y @ z" using prefix_of_bytes[OF yw] by (metis less_imp_le)
    obtain s' N' where s': "local_delete_loop t hi s = do { c \<leftarrow> (if bytes_of (vis_text dn @ x @ y @ z) \<le> hi
            then cursor_next frag_text_dim (es_old s') else Some (es_old s')); local_delete_loop t hi (s'\<lparr>es_old := c\<rparr>) }"
        "edit_at sn C t dn (x @ y) ((f, p) # r) N' s'" "ids_open N' ((f, p) # r)" "vis_text N' = vis_text N"
        "es_insertion_offset s' = es_insertion_offset s" "covered (es_patch s') = covered (es_patch s) \<union> {es_start s..<es_start s + bytes_of y}"
      unfolding p q by (rule delete_push[OF b e[unfolded p q] o[unfolded p q] v y, of hi]) (simp add: hi_def)
    have "local_delete_loop t hi s = Some s'" using s'(1) inside q edit_atD(6)[OF s'(2)] by (simp add: delete_stop hi_def)
    moreover have "es_start s + bytes_of y = hi" using edit_atD(6)[OF e] by (simp add: hi_def)
    ultimately show ?thesis using s'(2-) by metis
  next
    case consumed
    obtain s' where "local_delete_loop t hi s = local_delete_loop t hi s'" "edit_at sn C t (dn @ [(f, p)]) [] r N s'"
        "es_insertion_offset s' = es_insertion_offset s" "es_patch s' = es_patch s"
      by (rule delete_step_consumed[OF b _ len lt]) (use e p consumed in auto)
    then show ?thesis using p consumed v by (intro disjI2 exI[of _ s'] exI[of _ N] exI[of _ "[]"] exI[of _ y]) simp
  next
    case whole
    then obtain y2 where y2: "y = q @ y2" using prefix_of_bytes[OF yw[symmetric]] by metis
    obtain s' N' where s': "local_delete_loop t hi s = do { c \<leftarrow> (if bytes_of (vis_text dn @ x @ q @ []) \<le> hi
            then cursor_next frag_text_dim (es_old s') else Some (es_old s')); local_delete_loop t hi (s'\<lparr>es_old := c\<rparr>) }"
        "edit_at sn C t dn (x @ q) ((f, x @ q @ []) # r) N' s'" "vis_text N' = vis_text N" "es_insertion_offset s' = es_insertion_offset s"
        "covered (es_patch s') = covered (es_patch s) \<union> {es_start s..<es_start s + bytes_of q}"
      by (rule delete_push[OF b _ _ v whole(1), of t dn x "[]" r N s hi]) (use e o p y2 in \<open>simp_all add: hi_def\<close>)
    obtain c where c: "cursor_next frag_text_dim (es_old s') = Some c" "edit_at sn C t (dn @ [(f, p)]) [] r N' (s'\<lparr>es_old := c\<rparr>)"
      by (rule edit_leave[OF b _ len]) (use s'(2) p in auto)
    have "local_delete_loop t hi s = local_delete_loop t hi (s'\<lparr>es_old := c\<rparr>)" using s'(1) c(1) y2 by (simp add: hi_def)
    then show ?thesis using c(2) y2 p v s'(3-5)
      by (intro disjI2 exI[of _ "s'\<lparr>es_old := c\<rparr>"] exI[of _ N'] exI[of _ q] exI[of _ y2]) simp
  qed
qed

subsection \<open>The loop\<close>

lemma delete_loop_at:
  assumes b: "edit_base sn C" and e: "edit_at sn C t dn x rest N s" and o: "ids_open N rest" and vis: "vis_text C = vis_text dn @ x @ y @ w"
  shows "\<exists>s' dn' x' rest' N'. local_delete_loop t (bytes_of (vis_text dn @ x @ y)) s = Some s' \<and> edit_at sn C t dn' x' rest' N' s' \<and>
    ids_open N' rest' \<and> vis_text dn' @ x' = vis_text dn @ x @ y \<and> vis_text N' = vis_text N \<and> es_insertion_offset s' = es_insertion_offset s \<and>
    covered (es_patch s') = covered (es_patch s) \<union> {bytes_of (vis_text dn @ x)..<bytes_of (vis_text dn @ x @ y)}"
  using e o vis
proof (induction rest arbitrary: dn x y N s)
  case Nil
  then have "x = []" "y = []" using edit_atD(1,2)[OF Nil.prems(1)] by auto
  with Nil show ?case using edit_atD(6)[OF Nil.prems(1)]
    by (intro exI[of _ s] exI[of _ dn] exI[of _ "[]"] exI[of _ N]) (simp add: delete_stop)
next
  case (Cons h r)
  let ?hi = "bytes_of (vis_text dn @ x @ y)"
  obtain f p where h: "h = (f, p)" by (cases h)
  note e = Cons.prems(1)[unfolded h] and o = Cons.prems(2)[unfolded h] and vis = Cons.prems(3)
  have start: "es_start s = bytes_of (vis_text dn @ x)" using edit_atD(6)[OF e] .
  have len: "p \<noteq> []" using edit_baseD(3,4)[OF b] edit_atD(1)[OF e] by (auto simp: fragments_ok_iff frag_bounds_def)
  have continue: ?case if run: "local_delete_loop t ?hi s = local_delete_loop t ?hi s'" and e': "edit_at sn C t (dn @ [(f, p)]) [] r N' s'"
      and y: "y = y1 @ y2" "vis_text (dn @ [(f, p)]) = vis_text dn @ x @ y1" and N': "vis_text N' = vis_text N" "es_insertion_offset s' = es_insertion_offset s"
      and cov: "covered (es_patch s') = covered (es_patch s) \<union> {es_start s..<es_start s + bytes_of y1}"
    for s' N' y1 y2
  proof -
    have split: "vis_text C = vis_text (dn @ [(f, p)]) @ [] @ y2 @ w" "?hi = bytes_of (vis_text (dn @ [(f, p)]) @ [] @ y2)" using vis y by simp_all
    from Cons.IH[OF e' ids_open_start[OF e'] split(1)] obtain s4 d4 x4 r4 N4 where 4: "local_delete_loop t ?hi s' = Some s4"
        "edit_at sn C t d4 x4 r4 N4 s4" "ids_open N4 r4" "vis_text d4 @ x4 = vis_text (dn @ [(f, p)]) @ [] @ y2" "vis_text N4 = vis_text N'"
        "es_insertion_offset s4 = es_insertion_offset s'"
        "covered (es_patch s4) = covered (es_patch s') \<union> {bytes_of (vis_text (dn @ [(f, p)]) @ [])..<?hi}"
      unfolding split(2)[symmetric] by blast
    have "bytes_of (vis_text (dn @ [(f, p)]) @ []) = es_start s + bytes_of y1" unfolding append_Nil2 y(2) start by simp
    moreover have "{es_start s..<es_start s + bytes_of y1} \<union> {es_start s + bytes_of y1..<?hi} = {es_start s..<?hi}"
      using y(1) start by (intro ivl_disj_un_two(3)) simp_all
    ultimately have "covered (es_patch s4) = covered (es_patch s) \<union> {es_start s..<?hi}" using 4(7) cov by (simp only: Un_assoc)
    moreover have "vis_text d4 @ x4 = vis_text dn @ x @ y" unfolding 4(4) y by simp
    ultimately show ?thesis using run N' 4(1-3,5,6) start by (intro exI[of _ s4] exI[of _ d4] exI[of _ x4] exI[of _ r4] exI[of _ N4]) simp
  qed
  consider (stop) "y = []" | (deleted) "y \<noteq> []" "\<not> fr_visible f" | (visible) "y \<noteq> []" "fr_visible f" by blast
  then show ?case
  proof cases
    case stop
    then show ?thesis using Cons.prems(1,2) start
      by (intro exI[of _ s] exI[of _ dn] exI[of _ x] exI[of _ "h # r"] exI[of _ N]) (simp add: delete_stop)
  next
    case deleted
    have x: "x = []" using edit_atD(2)[OF e] deleted(2) by auto
    have lt: "es_start s < ?hi" using start deleted(1) bytes_pos by simp
    obtain s' where "local_delete_loop t ?hi s = local_delete_loop t ?hi s'" "edit_at sn C t (dn @ [(f, p)]) [] r (N @ [(f, p)]) s'"
        "es_insertion_offset s' = es_insertion_offset s" "es_patch s' = es_patch s"
      using b e[unfolded x] deleted(2) lt by (rule delete_step_deleted)
    then show ?thesis by (intro continue[of s' "N @ [(f, p)]" "[]" y]) (use x deleted(2) in simp_all)
  next
    case visible
    note step = delete_step_visible[OF b e o visible(2,1) vis len]
    then show ?thesis
    proof
      assume "\<exists>s' N'. local_delete_loop t ?hi s = Some s' \<and> edit_at sn C t dn (x @ y) ((f, p) # r) N' s' \<and> ids_open N' ((f, p) # r) \<and>
        vis_text N' = vis_text N \<and> es_insertion_offset s' = es_insertion_offset s \<and> covered (es_patch s') = covered (es_patch s) \<union> {es_start s..<?hi}"
      then show ?thesis unfolding h start[symmetric] by (elim exE conjE) (intro exI conjI, assumption+, simp_all)
    qed (elim exE conjE, rule continue; assumption)
  qed
qed

end
