(* ===== verification/Edit_Correct.thy ===== *)
theory Edit_Correct
  imports Edit_Delete Line_Endings
begin

section \<open>Local edits\<close>

text \<open>
  One step of the loop of \<open>apply_edit_internal\<close>, and the whole loop over edits that are given by the pieces of the text
  they keep, remove and insert.
\<close>

subsection \<open>One edit\<close>

lemma locate_at:
  assumes b: "edit_base sn C" and e: "edit_at sn C t dn x rest N s" and o: "ids_open N rest" and vis: "vis_text C = vis_text dn @ x @ kp @ w"
    and lo: "lo = bytes_of (vis_text dn @ x @ kp)"
  obtains s' dn' x' rest' N' k1 k2 where
    "(if bytes_of (vis_text (dn @ take 1 rest)) < lo then skip_to frag_text_dim visible_off (visible_target lo) Right s else Some s) = Some s'"
    "edit_at sn C t dn' x' rest' N' s'" "ids_open N' rest'" "kp = k1 @ k2" "vis_text dn' @ x' = vis_text dn @ x @ k1" "vis_text N' = vis_text N @ k1"
    "es_insertion_offset s' = es_insertion_offset s" "lo \<le> bytes_of (vis_text (dn' @ take 1 rest'))" "es_patch s' = es_patch s"
proof (cases "bytes_of (vis_text (dn @ take 1 rest)) < lo")
  case False
  then show thesis using e o by (intro that[of s dn x rest N "[]" kp]) simp_all
next
  case True
  obtain s' dn' rest' N' y where s': "skip_to frag_text_dim visible_off (visible_target lo) Right s = Some s'"
      "edit_at sn C t dn' [] rest' N' s'" "vis_text dn' = vis_text dn @ x @ y" "vis_text N' = vis_text N @ y"
      "es_insertion_offset s' = es_insertion_offset s" "bytes_of (vis_text dn') \<le> lo"
      "rest' \<noteq> [] \<longrightarrow> lo < bytes_of (vis_text (dn' @ take 1 rest'))" "es_patch s' = es_patch s"
    by (rule skip_to_at[OF b e less_imp_le[OF True]])
  have C: "vis_text C = vis_text dn' @ vis_text rest'" using edit_atD(1)[OF s'(2)] by simp
  have eq: "y @ vis_text rest' = kp @ w" using C vis s'(3) by simp
  have "bytes_of y \<le> bytes_of kp" using s'(3,6) lo by simp
  with eq obtain k2 where k: "kp = y @ k2" "vis_text rest' = k2 @ w" by (rule prefix_of_bytes)
  have le: "lo \<le> bytes_of (vis_text (dn' @ take 1 rest'))"
  proof (cases "rest' = []")
    case True
    then show ?thesis using k lo s'(3) by simp
  qed (use s'(7) in simp)
  show thesis by (rule that[OF _ s'(2) ids_open_start[OF s'(2)] k(1) _ s'(4,5) le s'(8)]) (use s'(1,3) True in simp_all)
qed

lemma local_edit_step_at:
  assumes b: "edit_base sn C" and e: "edit_at sn C t dn x rest N s" and o: "ids_open N rest" and t: "lamport_MIN < t" "t < lamport_MAX"
    and vis: "vis_text C = vis_text dn @ x @ kp @ rm @ w"
    and ys: "\<forall>c\<in>set ys. is_scalar c" "es_insertion_offset s + bytes_of (norm_chars ys) < 2 ^ 32"
    and lo: "lo = bytes_of (vis_text dn @ x @ kp)" and hi: "hi = bytes_of (vis_text dn @ x @ kp @ rm)"
  obtains s' dn' x' rest' N' rs where "local_edit_step t (lo, hi, str_of ys) (s, ranges, texts) = Some (s', rs, texts @ [str_of (norm_chars ys)])"
    "edit_at sn C t dn' x' rest' N' s'" "ids_open N' rest'" "vis_text dn' @ x' = vis_text dn @ x @ kp @ rm"
    "vis_text N' = vis_text N @ kp @ norm_chars ys" "es_insertion_offset s' = es_insertion_offset s + bytes_of (norm_chars ys)"
    "covered (es_patch s') = covered (es_patch s) \<union> {lo..<hi}"
proof -
  obtain s1 d1 x1 r1 N1 k1 k2 where s1:
      "(if bytes_of (vis_text (dn @ take 1 rest)) < lo then skip_to frag_text_dim visible_off (visible_target lo) Right s else Some s) = Some s1"
      "edit_at sn C t d1 x1 r1 N1 s1" "ids_open N1 r1" "kp = k1 @ k2" "vis_text d1 @ x1 = vis_text dn @ x @ k1" "vis_text N1 = vis_text N @ k1"
      "es_insertion_offset s1 = es_insertion_offset s" "lo \<le> bytes_of (vis_text (d1 @ take 1 r1))" "es_patch s1 = es_patch s"
    using b e o vis lo by (rule locate_at)
  have len: "bytes_of (vis_text d1) + bytes_of x1 = bytes_of (vis_text dn) + bytes_of x + bytes_of k1"
    using arg_cong[OF s1(5), of bytes_of] by simp
  have v1: "vis_text C = vis_text d1 @ x1 @ k2 @ rm @ w" "lo = bytes_of (vis_text d1 @ x1 @ k2)" "hi = bytes_of (vis_text d1 @ (x1 @ k2) @ rm)"
    using vis lo hi s1(4) arg_cong[OF s1(5), of "\<lambda>a. a @ k2 @ rm @ w"] len by simp_all
  obtain s2 N2 where s2: "push_prefix visible_off lo s1 = Some s2" "edit_at sn C t d1 (x1 @ k2) r1 N2 s2" "ids_open N2 r1"
      "vis_text N2 = vis_text N1 @ k2" "es_insertion_offset s2 = es_insertion_offset s1" "es_patch s2 = es_patch s1"
    unfolding v1(2) by (rule push_prefix_at[OF b s1(2,3) v1(1) s1(8)[unfolded v1(2)]])
  obtain s3 N3 where s3: "local_insert t (str_of (norm_chars ys)) s2 = Some s3" "edit_at sn C t d1 (x1 @ k2) r1 N3 s3" "ids_open N3 r1"
      "vis_text N3 = vis_text N2 @ norm_chars ys" "es_insertion_offset s3 = es_insertion_offset s2 + bytes_of (norm_chars ys)"
      "covered (es_patch s3) = covered (es_patch s2)"
    by (rule local_insert_at[OF b s2(2,3) t norm_chars_scalar[OF ys(1)]]) (use ys(2) s1(7) s2(5) in simp)
  have "vis_text C = vis_text d1 @ (x1 @ k2) @ rm @ w" using v1(1) by simp
  from delete_loop_at[OF b s3(2,3) this] obtain s4 d4 x4 r4 N4 where s4: "local_delete_loop t hi s3 = Some s4" "edit_at sn C t d4 x4 r4 N4 s4"
      "ids_open N4 r4" "vis_text d4 @ x4 = vis_text d1 @ (x1 @ k2) @ rm" "vis_text N4 = vis_text N3" "es_insertion_offset s4 = es_insertion_offset s3"
      "covered (es_patch s4) = covered (es_patch s3) \<union> {bytes_of (vis_text d1 @ x1 @ k2)..<hi}"
    unfolding v1(3) by blast
  have run: "local_edit_step t (lo, hi, str_of ys) (s, ranges, texts) =
      Some (s4, ranges @ [range_of (lo + ft_deleted (cursor_start (es_old s1))) (hi + ft_deleted (cursor_start (es_old s4)))], texts @ [str_of (norm_chars ys)])"
    using edit_reads(3)[OF b e] s1(1) s2(1) s3(1) s4(1) normalize_str_of[OF ys(1)] by (simp add: local_edit_step_def Let_def)
  show thesis by (rule that[OF run s4(2,3)]) (use s1(4-7,9) s2(4-6) s3(4-6) s4(4-7) v1(2) in simp_all)
qed

subsection \<open>A sequence of edits\<close>

text \<open>
  Edits of a text, as pieces of it: what is kept, what is removed, and what comes in its place; \<open>seg_edits\<close> are the
  edits with the offsets of the removed pieces.
\<close>

type_synonym segment_edit = "scalar list \<times> scalar list \<times> scalar list"

fun seg_edits :: "nat \<Rightarrow> segment_edit list \<Rightarrow> (nat \<times> nat \<times> bytes) list" where
  "seg_edits k [] = []"
| "seg_edits k ((kp, rm, ys) # gs) =
     (k + bytes_of kp, k + bytes_of (kp @ rm), str_of ys) # seg_edits (k + bytes_of (kp @ rm)) gs"

fun seg_old :: "segment_edit list \<Rightarrow> scalar list" where
  "seg_old [] = []"
| "seg_old ((kp, rm, ys) # gs) = kp @ rm @ seg_old gs"

fun seg_new :: "segment_edit list \<Rightarrow> scalar list" where
  "seg_new [] = []"
| "seg_new ((kp, rm, ys) # gs) = kp @ norm_chars ys @ seg_new gs"

definition seg_texts :: "segment_edit list \<Rightarrow> scalar list list" where
  "seg_texts gs = map (\<lambda>(kp, rm, ys). norm_chars ys) gs"

definition removed_at :: "(nat \<times> nat \<times> bytes) list \<Rightarrow> nat set" where
  "removed_at es = (\<Union>(lo, hi, new)\<in>set es. {lo..<hi})"

definition seg_ok :: "segment_edit list \<Rightarrow> bool" where
  "seg_ok gs \<longleftrightarrow> (\<forall>(kp, rm, ys)\<in>set gs. \<forall>c\<in>set ys. is_scalar c) \<and> bytes_of (concat (seg_texts gs)) < 2 ^ 32"

lemma local_edits_at:
  assumes b: "edit_base sn C" and t: "lamport_MIN < t" "t < lamport_MAX"
    and e: "edit_at sn C t dn x rest N s" "ids_open N rest" and vis: "vis_text C = vis_text dn @ x @ seg_old gs @ w"
    and gs: "\<forall>(kp, rm, ys)\<in>set gs. \<forall>c\<in>set ys. is_scalar c" "es_insertion_offset s + bytes_of (concat (seg_texts gs)) < 2 ^ 32"
  shows "\<exists>s' dn' x' rest' N' rs. fold_m (local_edit_step t) (seg_edits (bytes_of (vis_text dn @ x)) gs) (s, ranges, texts) =
       Some (s', rs, texts @ map str_of (seg_texts gs)) \<and>
     edit_at sn C t dn' x' rest' N' s' \<and> vis_text dn' @ x' = vis_text dn @ x @ seg_old gs \<and> vis_text N' = vis_text N @ seg_new gs \<and>
     covered (es_patch s') = covered (es_patch s) \<union> removed_at (seg_edits (bytes_of (vis_text dn @ x)) gs)"
  using e vis gs
proof (induction gs arbitrary: dn x rest N s ranges texts)
  case Nil
  then show ?case by (intro exI[of _ s] exI[of _ dn] exI[of _ x] exI[of _ rest] exI[of _ N]) (simp add: seg_texts_def removed_at_def)
next
  case (Cons g gs)
  obtain kp rm ys where g: "g = (kp, rm, ys)" by (cases g)
  have vis: "vis_text C = vis_text dn @ x @ kp @ rm @ (seg_old gs @ w)" using Cons.prems(3) g by simp
  have ys: "\<forall>c\<in>set ys. is_scalar c" "es_insertion_offset s + bytes_of (norm_chars ys) < 2 ^ 32"
    using Cons.prems(4,5) g by (simp_all add: seg_texts_def)
  let ?k = "bytes_of (vis_text dn @ x)"
  have lo: "?k + bytes_of kp = bytes_of (vis_text dn @ x @ kp)" "?k + bytes_of (kp @ rm) = bytes_of (vis_text dn @ x @ kp @ rm)" by simp_all
  obtain s1 d1 x1 r1 N1 rs where s1: "local_edit_step t (?k + bytes_of kp, ?k + bytes_of (kp @ rm), str_of ys) (s, ranges, texts) =
        Some (s1, rs, texts @ [str_of (norm_chars ys)])"
      "edit_at sn C t d1 x1 r1 N1 s1" "ids_open N1 r1" "vis_text d1 @ x1 = vis_text dn @ x @ kp @ rm"
      "vis_text N1 = vis_text N @ kp @ norm_chars ys" "es_insertion_offset s1 = es_insertion_offset s + bytes_of (norm_chars ys)"
      "covered (es_patch s1) = covered (es_patch s) \<union> {?k + bytes_of kp..<?k + bytes_of (kp @ rm)}"
    by (rule local_edit_step_at[OF b Cons.prems(1,2) t vis ys lo])
  have k: "?k + bytes_of (kp @ rm) = bytes_of (vis_text d1 @ x1)" unfolding lo(2) s1(4) ..
  have "vis_text C = (vis_text d1 @ x1) @ seg_old gs @ w" unfolding s1(4) using vis by simp
  then have "\<exists>s' dn' x' rest' N' rs'. fold_m (local_edit_step t) (seg_edits (bytes_of (vis_text d1 @ x1)) gs) (s1, rs, texts @ [str_of (norm_chars ys)]) =
       Some (s', rs', (texts @ [str_of (norm_chars ys)]) @ map str_of (seg_texts gs)) \<and>
     edit_at sn C t dn' x' rest' N' s' \<and> vis_text dn' @ x' = vis_text d1 @ x1 @ seg_old gs \<and> vis_text N' = vis_text N1 @ seg_new gs \<and>
     covered (es_patch s') = covered (es_patch s1) \<union> removed_at (seg_edits (bytes_of (vis_text d1 @ x1)) gs)"
    by (intro Cons.IH[OF s1(2,3)]) (use Cons.prems(4,5) g s1(6) in \<open>simp_all add: seg_texts_def\<close>)
  then obtain s' dn' x' rest' N' rs' where s': "fold_m (local_edit_step t) (seg_edits (bytes_of (vis_text d1 @ x1)) gs) (s1, rs, texts @ [str_of (norm_chars ys)]) =
       Some (s', rs', (texts @ [str_of (norm_chars ys)]) @ map str_of (seg_texts gs))"
     "edit_at sn C t dn' x' rest' N' s'" "vis_text dn' @ x' = vis_text d1 @ x1 @ seg_old gs" "vis_text N' = vis_text N1 @ seg_new gs"
     "covered (es_patch s') = covered (es_patch s1) \<union> removed_at (seg_edits (bytes_of (vis_text d1 @ x1)) gs)"
    by (elim exE conjE) (rule that; assumption)
  have "fold_m (local_edit_step t) (seg_edits ?k (g # gs)) (s, ranges, texts) = Some (s', rs', texts @ map str_of (seg_texts (g # gs)))"
    using s1(1) s'(1) unfolding g seg_edits.simps k by (simp add: seg_texts_def)
  moreover have "vis_text dn' @ x' = (vis_text d1 @ x1) @ seg_old gs" using s'(3) by simp
  then have "vis_text dn' @ x' = vis_text dn @ x @ seg_old (g # gs)" unfolding s1(4) g by simp
  moreover have "vis_text N' = vis_text N @ seg_new (g # gs)" unfolding s'(4) s1(5) g by simp
  moreover have "covered (es_patch s') = covered (es_patch s) \<union> removed_at (seg_edits ?k (g # gs))"
    unfolding g seg_edits.simps s'(5) s1(7) k by (simp add: removed_at_def Un_assoc)
  ultimately show ?case using s'(2) by blast
qed

end
