(* ===== verification/Edit_Finish.thy ===== *)
theory Edit_Finish
  imports Edit_Correct
begin

section \<open>The result of a local edit\<close>

text \<open>
  The first slice establishes the relation of the walk; the suffix, the builders and the indexes make the new snapshot.
\<close>

subsection \<open>The start\<close>

lemma edit_at_fragments:
  assumes "edit_at sn C t dn x rest N s" "fb_rep b (map fst N)"
  shows "edit_at sn C t dn x rest N (s\<lparr>es_fragments := b\<rparr>)"
  unfolding edit_at_def using edit_atD[OF assms(1)] assms(2) by (simp add: edit_index_def edit_slices_ok_def)

lemma start_edit_at:
  assumes b: "edit_base sn C" and low: "rope_low (visible_text sn)" "rope_low (deleted_text sn)" and t: "\<forall>f\<in>fst ` set C. fr_timestamp f \<noteq> t"
  obtains dn rest s where "start_edit frag_text_dim visible_off (visible_target lo) Right sn = Some s" "edit_at sn C t dn [] rest dn s"
    "bytes_of (vis_text dn) \<le> lo" "es_insertion_offset s = 0" "es_patch s = patch_empty"
proof -
  have texts: "rope_text (visible_text sn) (vis_text C)" "rope_text (deleted_text sn) (del_text C)" using b by (simp_all add: edit_base_def snapshot_rep_def)
  note b' = edit_baseD[OF b]
  obtain v d where vd: "rc_new (visible_text sn) 0 = Some v" "rc_new (deleted_text sn) 0 = Some d"
      "rb_at (visible_text sn) (vis_text C) (deleted_text sn) (del_text C) [] [] [] [] (rb_new v d)"
    by (rule rb_new_at[OF texts low])
  obtain c0 where c0: "cursor_at fragment_ops frag_text_dim (fragments sn) 0 c0"
    by (rule fr_text.cursor_next_start[OF b'(1,5), of "cursor_new frag_text_dim (fragments sn)"]) (use b'(1) in \<open>auto simp: cursor_new_def st_is_empty_iff\<close>)
  have new: "cursor_from fragment_ops frag_text_dim (fragments sn) (length []) (cursor_new frag_text_dim (fragments sn))" by (simp add: cursor_from_def)
  obtain m r c tr where m: "C = m @ r" "cursor_slice fragment_ops frag_text_dim (visible_target lo) Right (cursor_new frag_text_dim (fragments sn)) = Some (c, tr)"
      "st_wf fragment_ops fs_ok tr" "to_list tr = map fst m" "cursor_at fragment_ops frag_text_dim (fragments sn) (length ([] @ m)) c"
      "bytes_of (vis_text ([] @ m)) \<le> lo"
    by (rule slice_visible[OF b _ _ new, of C lo]) auto
  let ?s0 = "\<lparr>es_old = c0, es_fragments = fb_new (st_new fragment_ops), es_ropes = rb_new v d, es_insertions = [], es_slices = [],
    es_insertion_offset = 0, es_start = 0, es_patch = patch_empty\<rparr>"
  have "fb_rep (fb_new (st_new fragment_ops)) []" using fb_new_rep[OF st_wf_new] by simp
  then have s0: "edit_at sn C t [] [] (m @ r) [] ?s0"
    using c0 vd(3) t b'(4) m(1)
    by (simp add: edit_at_def edit_index_def edit_slices_ok_def remaining_simps index_after_def agree_def patch_empty_def)
  obtain R where R: "rb_append (fs_text (node_summary tr)) (rb_new v d) = Some R"
      "edit_at sn C t m [] r m (?s0\<lparr>es_old := c, es_ropes := R, es_fragments := fb_append tr (fb_new (st_new fragment_ops)), es_start := bytes_of (vis_text m)\<rparr>)"
    using edit_take[OF b s0 m(5,3,4)] by auto
  have fb: "fb_rep (fb_new tr) (map fst m)" using fb_new_rep[OF m(3)] m(4) by simp
  let ?s = "\<lparr>es_old = c, es_fragments = fb_new tr, es_ropes = R, es_insertions = [], es_slices = [],
    es_insertion_offset = 0, es_start = bytes_of (vis_text m), es_patch = patch_empty\<rparr>"
  have at: "edit_at sn C t m [] r m ?s" using edit_at_fragments[OF R(2) fb] by simp
  have "cursor_start c = text_len m" using edit_reads(2)[OF b at] by simp
  then have "start_edit frag_text_dim visible_off (visible_target lo) Right sn = Some ?s"
    using vd(1,2) m(2) R(1) by (simp add: start_edit_def Let_def visible_off_def fb_new_def)
  then show thesis using at m(6) by (intro that[of ?s m r]) simp_all
qed

subsection \<open>The end\<close>

lemma suffix_rest:
  assumes b: "edit_base sn C" and C: "C = dn @ rest" and at: "cursor_at fragment_ops frag_text_dim (fragments sn) (length dn) c"
  obtains c' tr where "cursor_suffix fragment_ops frag_text_dim c = Some (c', tr)" "st_wf fragment_ops fs_ok tr" "to_list tr = map fst rest"
    "cursor_at fragment_ops frag_text_dim (fragments sn) (length (dn @ rest)) c'"
proof -
  note b = edit_baseD[OF b]
  have "seek_End (item_pos fragment_ops frag_text_dim (fragments sn) (length dn)) \<noteq> Less" by (simp add: seek_End_def)
  moreover have "cursor_from fragment_ops frag_text_dim (fragments sn) (length dn) c" using at by (simp add: cursor_from_def)
  moreover have "max (length dn) (length (to_list (fragments sn))) = length C" using b(2) C by simp
  ultimately obtain c' tr where "cursor_slice fragment_ops frag_text_dim seek_End Right c = Some (c', tr)" "st_wf fragment_ops fs_ok tr"
      "to_list tr = segment (to_list (fragments sn)) (length dn) (length C)" "cursor_at fragment_ops frag_text_dim (fragments sn) (length C) c'"
    using fr_text.cursor_slice_at[OF b(1,5) seek_mono_End, of "length dn" c] unfolding seek_hit_End by metis
  then show thesis using b(2) C by (intro that[of c' tr]) (simp_all add: cursor_suffix_def segment_def)
qed

lemma insert_slices:
  assumes "tm_wf ts" "tm_fits ts" "distinct (map fkey js)"
  obtains ts' where "ts_extend ts (map (slice_from_fragment t) js) = Some ts'" "tm_wf ts'"
proof -
  let ?es = "map (\<lambda>j. \<lparr>me_key = slice_from_fragment t j, me_value = ()\<rparr>) js"
  have "distinct (map me_key ?es)" using assms(3) by (auto simp: distinct_map comp_def inj_on_def fkey_eq slice_from_fragment_def)
  with assms(1,2) obtain ts' r where "keyed_edit map_ops map_dim entry_key ts (map Insert ?es) = Some (ts', r)" "tm_wf ts'"
    by (rule tm_edit_inserts)
  then show thesis by (intro that[of ts']) (simp_all add: ts_extend_def tm_extend_def comp_def)
qed

lemma insert_index:
  assumes sn: "snapshot_rep sn C" and low: "node_height (insertions sn) < MAX_DEPTH" and e: "edit_index C N [] s"
  obtains ins removed where "keyed_edit insertion_ops insertion_dim insertion_key (insertions sn) (es_insertions s) = Some (ins, removed)"
    "st_wf insertion_ops (\<lambda>_. True) ins" "keys_sorted insertion_key (to_list ins)" "set (to_list ins) = insertion_fragment_new ` fst ` set N"
proof -
  obtain ks where ks: "es_insertions s = map insert_new ks" "distinct (map fkey ks)" "index_after C ks = insertion_fragment_new ` fst ` set N"
    using e by (auto simp: edit_index_def)
  have es: "es_insertions s = map Insert (map insertion_fragment_new ks)" using ks(1) by (simp add: insert_new_def comp_def)
  obtain ins removed where ins: "keyed_edit insertion_ops insertion_dim insertion_key (insertions sn) (map Insert (map insertion_fragment_new ks)) = Some (ins, removed)"
      "st_wf insertion_ops (\<lambda>_. True) ins" "keys_sorted insertion_key (to_list ins)"
      "set (to_list ins) = set (map insertion_fragment_new ks) \<union> {i \<in> set (to_list (insertions sn)). insertion_key i \<notin> insertion_key ` set (map insertion_fragment_new ks)}"
    by (rule ins.keyed_inserts[of "insertions sn" "map insertion_fragment_new ks"]) (use sn low ks(2) in \<open>auto simp: snapshot_rep_def comp_def\<close>)
  have "set (to_list ins) = insertion_fragment_new ` fst ` set N" using ins(4) ks(3) sn by (simp add: index_after_def snapshot_rep_def image_image)
  with ins(2,3) show thesis by (intro that[OF ins(1)[folded es]])
qed

lemma finish_edit_at:
  assumes b: "edit_base sn C" and low: "node_height (insertions sn) < MAX_DEPTH" "tm_fits (insertion_slices sn)"
    and e: "edit_at sn C t dn x rest N s" and vis: "vis_text C = vis_text dn @ x @ w"
  obtains sn' C' where "finish_edit frag_text_dim visible_off s sn = Some sn'" "snapshot_rep sn' C'" "vis_text C' = vis_text N @ w"
    "patch_between (es_patch s) (str_of (vis_text C)) (str_of (vis_text C'))" "edits_separated (es_patch s)" "text_before t C' = all_text C"
    "patch_between (es_patch s) (vis_units C) (vis_units C')" "remote_id sn' = remote_id sn"
proof -
  have sn: "snapshot_rep sn C" using b by (simp add: edit_base_def)
  obtain s1 d1 r1 N1 y where s1: "consume_rest frag_text_dim visible_off s = Some s1"
      "edit_at sn C t d1 [] r1 N1 (s1\<lparr>es_start := bytes_of (vis_text d1)\<rparr>)" "vis_text d1 = vis_text dn @ x @ y" "vis_text N1 = vis_text N @ y"
      "es_patch s1 = es_patch s"
    using b e by (rule consume_rest_at)
  have at: "cursor_at fragment_ops frag_text_dim (fragments sn) (length d1) (es_old s1)" using edit_atD(3)[OF s1(2)] by simp
  obtain c tr where tr: "cursor_suffix fragment_ops frag_text_dim (es_old s1) = Some (c, tr)" "st_wf fragment_ops fs_ok tr" "to_list tr = map fst r1"
      "cursor_at fragment_ops frag_text_dim (fragments sn) (length (d1 @ r1)) c"
    by (rule suffix_rest[OF b edit_atD(1)[OF s1(2)] at])
  have "edit_at sn C t d1 [] (r1 @ []) N1 (s1\<lparr>es_start := bytes_of (vis_text d1)\<rparr>)" using s1(2) by simp
  from edit_take[OF b this tr(4,2,3)] obtain R where R: "rb_append (fs_text (node_summary tr)) (es_ropes s1) = Some R"
      "edit_at sn C t (d1 @ r1) [] [] (N1 @ r1)
         (s1\<lparr>es_old := c, es_ropes := R, es_fragments := fb_append tr (es_fragments s1), es_start := bytes_of (vis_text (d1 @ r1))\<rparr>)"
    by auto
  let ?C = "N1 @ r1"
  note f = edit_atD[OF R(2), simplified]
  have C: "C = d1 @ r1" using f(1) .
  obtain vr dr where ropes: "rb_finish R = Some (vr, dr)" "rope_text vr (vis_text ?C)" "rope_text dr (del_text ?C)"
    using rb_finish_at[of "visible_text sn" "vis_text C" "[]" "deleted_text sn" "del_text C" "[]" "vis_text ?C" "del_text ?C" R] f(5) C by auto
  obtain tree where tree: "to_sum_tree (fb_append tr (es_fragments s1)) = Some tree" "st_wf fragment_ops fs_ok tree" "to_list tree = map fst ?C"
    by (rule to_sum_tree_seq[of _ "map fst ?C"]) (use f(4) in simp_all)
  have index: "edit_index C ?C [] s1" using f(9) by (simp add: edit_index_def remaining_simps)
  obtain ins rem where ins: "keyed_edit insertion_ops insertion_dim insertion_key (insertions sn) (es_insertions s1) = Some (ins, rem)"
      "st_wf insertion_ops (\<lambda>_. True) ins" "keys_sorted insertion_key (to_list ins)" "set (to_list ins) = insertion_fragment_new ` fst ` set ?C"
    by (rule insert_index[OF sn low(1) index])
  obtain js where js: "es_slices s1 = map (slice_from_fragment t) js" "distinct (map fkey js)" using f(10) by (auto simp: edit_slices_ok_def)
  have wf: "tm_wf (insertion_slices sn)" using sn by (simp add: snapshot_rep_def)
  obtain sl where sl: "ts_extend (insertion_slices sn) (map (slice_from_fragment t) js) = Some sl" "tm_wf sl"
    using wf low(2) js(2) by (rule insert_slices)
  let ?sn = "sn\<lparr>fragments := tree, insertions := ins, visible_text := vr, deleted_text := dr, insertion_slices := sl\<rparr>"
  have run: "finish_edit frag_text_dim visible_off s sn = Some ?sn"
    using s1(1) tr(1) R(1) ropes(1) tree(1) ins(1) js(1) sl(1) by (simp add: finish_edit_def)
  have ok: "content_ok ?C" "fragments_ok (map fst ?C)" using f(7,8) by (simp_all add: remaining_simps)
  have rep: "snapshot_rep ?sn ?C" unfolding snapshot_rep_def using ropes(2,3) tree(2,3) ins(2-4) sl(2) ok by simp
  have "w = y @ vis_text r1" using vis s1(3) C by simp
  then have new: "vis_text ?C = vis_text N @ w" using s1(4) by simp
  have patch: "patch_between (es_patch s) (str_of (vis_text C)) (str_of (vis_text ?C))" using f(13) s1(5) C by (simp add: patch_between_def)
  have "length (vis_units C) = bytes_of (vis_text C)" using length_vis_units edit_baseD(3)[OF b] by blast
  then have units: "patch_between (es_patch s) (vis_units C) (vis_units ?C)" using f(16) s1(5) C by (simp add: patch_between_def)
  show thesis by (rule that[OF run rep new patch]) (use f(14,15) s1(5) C units in simp_all)
qed

subsection \<open>The whole edit\<close>

definition snapshot_fits :: "snapshot \<Rightarrow> bool" where
  "snapshot_fits sn \<longleftrightarrow> rope_low (visible_text sn) \<and> rope_low (deleted_text sn) \<and> node_height (fragments sn) < MAX_DEPTH \<and>
     node_height (insertions sn) < MAX_DEPTH \<and> tm_fits (insertion_slices sn)"

definition fresh_stamp :: "lamport \<Rightarrow> content \<Rightarrow> bool" where
  "fresh_stamp t C \<longleftrightarrow> lamport_MIN < t \<and> t < lamport_MAX \<and> (\<forall>f\<in>fst ` set C. fr_timestamp f \<noteq> t)"

lemma patch_between_same: "patch_between patch_empty xs xs"
  by (simp add: patch_between_def patch_empty_def agree_def)

lemma apply_edit_at:
  assumes sn: "snapshot_rep sn C" "snapshot_fits sn" and t: "fresh_stamp t C" and vis: "vis_text C = seg_old gs @ w" and gs: "seg_ok gs"
  shows "\<exists>sn' op p C'. apply_edit_internal (seg_edits 0 gs) t sn = Some (sn', op, p) \<and> snapshot_rep sn' C' \<and> vis_text C' = seg_new gs @ w \<and>
    patch_between p (str_of (vis_text C)) (str_of (vis_text C')) \<and> edits_separated p \<and> text_before t C' = all_text C \<and>
    covered p = removed_at (seg_edits 0 gs) \<and> patch_between p (vis_units C) (vis_units C') \<and> remote_id sn' = remote_id sn \<and>
    edit_timestamp op = t \<and> edit_version op = version sn \<and> edit_new_text op = map str_of (seg_texts gs)"
proof (cases gs)
  case Nil
  have "text_before t C = all_text C" using t by (intro text_before_fresh) (simp add: fresh_stamp_def)
  then have "\<exists>op. apply_edit_internal (seg_edits 0 gs) t sn = Some (sn, op, patch_empty) \<and> text_before t C = all_text C \<and>
      edit_timestamp op = t \<and> edit_version op = version sn \<and> edit_new_text op = map str_of (seg_texts gs)"
    using Nil by (simp add: apply_edit_internal_def seg_texts_def)
  moreover have "edits_separated patch_empty" "vis_text C = seg_new gs @ w" "covered patch_empty = removed_at (seg_edits 0 gs)"
    using Nil vis by (simp_all add: patch_empty_def covered_def removed_at_def)
  ultimately show ?thesis using sn(1) patch_between_same[of "str_of (vis_text C)"] patch_between_same[of "vis_units C"] by blast
next
  case (Cons g hs)
  obtain kp rm ys where g: "g = (kp, rm, ys)" by (cases g)
  have b: "edit_base sn C" using sn by (simp add: edit_base_def snapshot_fits_def)
  have low: "rope_low (visible_text sn)" "rope_low (deleted_text sn)" "node_height (insertions sn) < MAX_DEPTH" "tm_fits (insertion_slices sn)"
    using sn(2) by (simp_all add: snapshot_fits_def)
  have t': "lamport_MIN < t" "t < lamport_MAX" "\<forall>f\<in>fst ` set C. fr_timestamp f \<noteq> t" using t by (simp_all add: fresh_stamp_def)
  obtain dn rest s0 where s0: "start_edit frag_text_dim visible_off (visible_target (bytes_of kp)) Right sn = Some s0"
      "edit_at sn C t dn [] rest dn s0" "bytes_of (vis_text dn) \<le> bytes_of kp" "es_insertion_offset s0 = 0" "es_patch s0 = patch_empty"
    by (rule start_edit_at[OF b low(1,2) t'(3)])
  have "vis_text dn @ vis_text rest = kp @ (rm @ seg_old hs @ w)" using edit_atD(1)[OF s0(2)] vis Cons g by simp
  then obtain k2 where k2: "kp = vis_text dn @ k2" using s0(3) by (rule prefix_of_bytes)
  let ?gs = "(k2, rm, ys) # hs"
  have same: "seg_edits 0 gs = seg_edits (bytes_of (vis_text dn @ [])) ?gs" "seg_texts gs = seg_texts ?gs"
      "vis_text dn @ seg_new ?gs = seg_new gs" "vis_text dn @ seg_old ?gs = seg_old gs"
    using Cons g k2 by (simp_all add: seg_texts_def)
  have "vis_text C = vis_text dn @ [] @ seg_old ?gs @ w" using vis same(4) by simp
  moreover have "\<forall>(kp, rm, ys)\<in>set ?gs. \<forall>c\<in>set ys. is_scalar c" "es_insertion_offset s0 + bytes_of (concat (seg_texts ?gs)) < 2 ^ 32"
    using gs Cons g s0(4) by (simp_all add: seg_ok_def seg_texts_def)
  ultimately obtain s dn' x' rest' N' rs where s:
      "fold_m (local_edit_step t) (seg_edits 0 gs) (s0, [], []) = Some (s, rs, [] @ map str_of (seg_texts gs))"
      "edit_at sn C t dn' x' rest' N' s" "vis_text dn' @ x' = vis_text dn @ [] @ seg_old ?gs" "vis_text N' = vis_text dn @ seg_new ?gs"
      "covered (es_patch s) = covered (es_patch s0) \<union> removed_at (seg_edits 0 gs)"
    using local_edits_at[OF b t'(1,2) s0(2) ids_open_start[OF s0(2)], of ?gs w "[]" "[]"] unfolding same(1,2) by blast
  have "vis_text C = (vis_text dn' @ x') @ w" unfolding s(3) using vis same(4) by simp
  then have fin: "vis_text C = vis_text dn' @ x' @ w" by simp
  obtain sn' C' where sn': "finish_edit frag_text_dim visible_off s sn = Some sn'" "snapshot_rep sn' C'" "vis_text C' = vis_text N' @ w"
      "patch_between (es_patch s) (str_of (vis_text C)) (str_of (vis_text C'))" "edits_separated (es_patch s)"
      "text_before t C' = all_text C" "patch_between (es_patch s) (vis_units C) (vis_units C')" "remote_id sn' = remote_id sn"
    by (rule finish_edit_at[OF b low(3,4) s(2) fin])
  have edits: "seg_edits 0 gs = (bytes_of kp, bytes_of (kp @ rm), str_of ys) # seg_edits (bytes_of (kp @ rm)) hs" using Cons g by simp
  have "\<exists>op. apply_edit_internal (seg_edits 0 gs) t sn = Some (sn', op, es_patch s) \<and>
      edit_timestamp op = t \<and> edit_version op = version sn \<and> edit_new_text op = map str_of (seg_texts gs)"
    using s0(1) s(1) sn'(1) unfolding edits by (simp add: apply_edit_internal_def Let_def del: fold_m.simps)
  moreover have "vis_text C' = seg_new gs @ w" using sn'(3) s(4) same(3) by simp
  moreover have "covered (es_patch s) = removed_at (seg_edits 0 gs)" using s(5) s0(5) by (simp add: covered_def patch_empty_def)
  ultimately show ?thesis using sn'(2,4-8) by blast
qed

end
