(* ===== verification/Edit_Props.thy ===== *)
theory Edit_Props
  imports Edit_Finish
begin

section \<open>What a local edit does\<close>

text \<open>
  The property of local edits, and a small buffer to try it on.
\<close>

text \<open>
  C26: A local edit edits the text. Let a snapshot represent a content of fragments with their texts, and let a list of
  edits replace pieces of its visible text, at character boundaries, by new texts of less than 4 GiB in all, at a
  timestamp that no fragment has. Then \<open>apply_edit_internal\<close> returns a snapshot that again represents a content: the
  tree of fragments with ordered identifiers, the index of insertions and both ropes. Its visible text is the old one
  with the pieces replaced by the new texts, line endings normalised; no text that was there is lost, the removed pieces
  stay as deleted fragments; the patch leads from the old to the new text and replaces exactly the removed pieces; and
  the operation carries the timestamp, the version it was made on and the texts inserted.
\<close>

theorem local_edit_text:
  assumes "snapshot_rep sn C" "snapshot_fits sn" "fresh_stamp t C" "vis_text C = seg_old gs @ w" "seg_ok gs"
  shows "\<exists>sn' op p C'. apply_edit_internal (seg_edits 0 gs) t sn = Some (sn', op, p) \<and> snapshot_rep sn' C' \<and>
    rope_text (visible_text sn') (seg_new gs @ w) \<and> text_before t C' = all_text C \<and>
    patch_between p (str_of (seg_old gs @ w)) (str_of (seg_new gs @ w)) \<and> edits_separated p \<and> covered p = removed_at (seg_edits 0 gs) \<and>
    edit_timestamp op = t \<and> edit_version op = version sn \<and> edit_new_text op = map str_of (seg_texts gs)"
proof -
  obtain sn' op p C' where r: "apply_edit_internal (seg_edits 0 gs) t sn = Some (sn', op, p)" "snapshot_rep sn' C'"
      "vis_text C' = seg_new gs @ w" "patch_between p (str_of (vis_text C)) (str_of (vis_text C'))" "edits_separated p"
      "text_before t C' = all_text C" "covered p = removed_at (seg_edits 0 gs)" "edit_timestamp op = t \<and> edit_version op = version sn \<and> edit_new_text op = map str_of (seg_texts gs)"
    using apply_edit_at[OF assms] by blast
  have "rope_text (visible_text sn') (vis_text C')" using r(2) by (simp add: snapshot_rep_def)
  then show ?thesis using r assms(4) by (intro exI[of _ sn'] exI[of _ op] exI[of _ p] exI[of _ C']) simp
qed

subsection \<open>A new buffer\<close>

lemma push_new_height: "st_push D (st_new D) x = Some t \<Longrightarrow> node_height t = 0"
  by (auto simp: st_push_def st_append_def st_new_def Let_def)

lemma fold_push_one_height: "fold_m (\<lambda>f t. st_push D t (g f)) [x] (st_new D) = Some t \<Longrightarrow> node_height t = 0"
  by (auto simp: push_new_height split: bind_splits)

lemma small_snapshot:
  obtains r b where "rope_from (str_of [0x68, 0x69]) = Some r" "buffer_new_normalized 3 7 Unix r = Some b"
    "snapshot_rep (snap b) [(base_fragment (lamport_new LOCAL) 2, [0x68, 0x69])]" "snapshot_fits (snap b)"
proof -
  have s: "\<forall>c\<in>set [0x68, 0x69]. is_scalar c" "[0x68, 0x69] \<noteq> ([] :: scalar list)" "bytes_of [0x68, 0x69] \<le> MAX_BASE"
    by (simp_all add: is_scalar_def len_utf8_def MAX_BASE_def)
  obtain r where r: "rope_from (str_of [0x68, 0x69]) = Some r" "rope_rep r [[0x68, 0x69]]" "node_height (chunks r) = 0"
    using s by (rule rope_from_small)
  have t: "rope_text r [0x68, 0x69]" using rope_textI[OF r(2)] by (simp add: well_filled_def)
  have n: "rope_len r = 2" using rope_sizes(2)[OF r(2)] by (simp add: len_utf8_def)
  let ?f = "base_fragment (lamport_new LOCAL) 2"
  have base: "base_fragments r (lamport_new LOCAL) 0 locator_min = Some [?f]" using base_fragments_small[of r] n by simp
  have f: "\<forall>g\<in>set [?f]. fragment_ok g" by (simp add: base_fragment_def)
  from fold_push_fragments[OF f st_wf_new] obtain u where u: "fold_m (\<lambda>f t. st_push fragment_ops t f) [?f] (st_new fragment_ops) = Some u"
      "st_wf fragment_ops fs_ok u" "to_list u = [?f]"
    by (metis append_Nil to_list_new)
  from fold_push_insertions[OF st_wf_new, of "[?f]"] obtain i where
    i: "fold_m (\<lambda>f t. st_push insertion_ops t (insertion_fragment_new f)) [?f] (st_new insertion_ops) = Some i"
      "st_wf insertion_ops (\<lambda>_. True) i" "to_list i = [insertion_fragment_new ?f]"
    by auto
  obtain b where b: "buffer_new_normalized 3 7 Unix r = Some b" "visible_text (snap b) = r" "deleted_text (snap b) = rope_new"
      "fragments (snap b) = u" "insertions (snap b) = i" "insertion_slices (snap b) = tm_default"
    using base u(1) i(1) by (auto simp: buffer_new_normalized_def Let_def simp del: fold_m.simps)
  have h: "node_height u = 0" "node_height i = 0"
    using fold_push_one_height[of fragment_ops "\<lambda>f. f" ?f u] u(1) fold_push_one_height[OF i(1)] by blast+
  have slices: "tm_wf (tm_default :: insertion_slice tree_set)" "tm_fits (tm_default :: insertion_slice tree_set)"
    by (simp_all add: tm_wf_def tm_fits_def tm_default_def keys_sorted_def st_new_def MAX_DEPTH_def sum_summaries_def)
  have low: "rope_low r" "rope_low rope_new"
    using rope_low_single[OF r(2)] r(3) rope_low_single[OF rope_rep_new] by (simp_all add: MAX_DEPTH_def rope_new_def st_new_def)
  have "fragments_ok [?f]" using locator_first lamport_new_bounds[of LOCAL] by (simp add: fragments_ok_def base_fragment_def)
  then have "snapshot_rep (snap b) [(?f, [0x68, 0x69])]"
    unfolding snapshot_rep_def using b u i t slices rope_new_text by (simp add: base_fragment_def len_utf8_def keys_sorted_def)
  moreover have "snapshot_fits (snap b)" unfolding snapshot_fits_def using b h low slices by (simp add: MAX_DEPTH_def)
  ultimately show thesis using r(1) b(1) by (intro that)
qed

lemma small_fresh: "fresh_stamp (Lamport 2 3) [(base_fragment (lamport_new LOCAL) 2, [0x68, 0x69])]"
  by (simp add: fresh_stamp_def base_fragment_def lamport_new_def lamport_MIN_def lamport_MAX_def lamport_less_iff word_less_nat_alt
        unsigned_minus_1_eq_mask mask_eq_exp_minus_1)

lemma local_edit_text_witness:
  "\<exists>r b sn op p. rope_from (str_of [0x68, 0x69]) = Some r \<and> buffer_new_normalized 3 7 Unix r = Some b \<and>
     apply_edit_internal [(1, 2, str_of [0x6F, 0xD, 0xA])] (Lamport 2 3) (snap b) = Some (sn, op, p) \<and>
     rope_text (visible_text sn) [0x68, 0x6F, 0xA]"
proof -
  obtain r b where b: "rope_from (str_of [0x68, 0x69]) = Some r" "buffer_new_normalized 3 7 Unix r = Some b"
      "snapshot_rep (snap b) [(base_fragment (lamport_new LOCAL) 2, [0x68, 0x69])]" "snapshot_fits (snap b)"
    by (rule small_snapshot)
  let ?gs = "[([0x68], [0x69], [0x6F, 0xD, 0xA])] :: segment_edit list"
  have gs: "vis_text [(base_fragment (lamport_new LOCAL) 2, [0x68, 0x69])] = seg_old ?gs @ []" "seg_ok ?gs"
    by (simp_all add: base_fragment_def seg_ok_def seg_texts_def is_scalar_def len_utf8_def)
  have edits: "seg_edits 0 ?gs = [(1, 2, str_of [0x6F, 0xD, 0xA])]" "seg_new ?gs @ [] = [0x68, 0x6F, 0xA]" by (simp_all add: len_utf8_def)
  from local_edit_text[OF b(3,4) small_fresh gs] show ?thesis unfolding edits using b(1,2) by blast
qed

end
