(* ===== verification/Anchor_Edit.thy ===== *)
theory Anchor_Edit
  imports Edit_Props
begin

section \<open>Anchors across edits\<close>

text \<open>
  An anchor names a byte of an insertion. A local edit may split the fragment of that byte and move it; as long as the
  byte stays visible, the anchor resolves to where the patch of the edit says that its offset has gone.
\<close>

subsection \<open>The byte an anchor is attached to\<close>

definition anchored :: "nat \<Rightarrow> bias \<Rightarrow> nat" where
  "anchored offset b = (case b of Left \<Rightarrow> offset - 1 | Right \<Rightarrow> offset)"

definition unit_anchor :: "lamport \<times> nat \<Rightarrow> bias \<Rightarrow> nat \<Rightarrow> anchor" where
  "unit_anchor u b n = anchor_new (fst u) (case b of Left \<Rightarrow> Suc (snd u) | Right \<Rightarrow> snd u) b n"

lemma vis_units_split:
  assumes "C = us @ e # vs" "fr_visible (fst e)" "visible_len (map fst us) = length (vis_units us)" "i < fr_len (fst e)"
  shows "visible_len (map fst us) + i < length (vis_units C)"
    "vis_units C ! (visible_len (map fst us) + i) = (fr_timestamp (fst e), insertion_offset (fst e) + i)"
  using assms by (auto simp: nth_append units_def)

lemma vis_units_len: "visible_len (map fst C) = length (vis_units C)"
  by (induction C) auto

lemma anchored_simps [simp]: "anchored k Right = k" "anchored (Suc k) Left = k"
  by (simp_all add: anchored_def)

lemma offset_in_anchored:
  assumes "offset_in k b (map fst us) f"
  shows "fr_visible f" "anchored k b - visible_len (map fst us) < fr_len f" "visible_len (map fst us) \<le> anchored k b"
    "b = Left \<longrightarrow> 0 < k"
  using assms by (auto simp: offset_in_def anchored_def split: bias.splits)

text \<open>The anchor at an offset, if it is not one of the ends of the buffer, is attached to the byte next to it.\<close>

lemma spec_unit:
  assumes sp: "anchor_spec s k b a" and C: "to_list (fragments s) = map fst C" and k: "anchored k b < length (vis_units C)" "b = Left \<Longrightarrow> 0 < k"
  shows "a = unit_anchor (vis_units C ! anchored k b) b (remote_id s)"
proof -
  have total: "visible_len (to_list (fragments s)) = length (vis_units C)" using vis_units_len C by simp
  have "\<not> (b = Left \<and> k = 0)" "\<not> (b = Right \<and> k = visible_len (to_list (fragments s)))" using k total by auto
  then obtain fs f gs where f: "to_list (fragments s) = fs @ f # gs" "offset_in k b fs f"
      "a = anchor_new (fr_timestamp f) (insertion_offset f + (k - visible_len fs)) b (remote_id s)"
    using sp unfolding anchor_spec_def by blast
  obtain us e vs where e: "C = us @ e # vs" "fs = map fst us" "f = fst e"
    using f(1) unfolding C by (auto simp: map_eq_append_conv map_eq_Cons_conv)
  note o = offset_in_anchored[OF f(2)[unfolded e(2)]]
  define i where "i = anchored k b - visible_len fs"
  have "vis_units C ! anchored k b = (fr_timestamp f, insertion_offset f + i)"
    using vis_units_split(2)[OF e(1) _ vis_units_len, of i] o e by (simp add: i_def)
  moreover have "insertion_offset f + (k - visible_len fs) = (case b of Left \<Rightarrow> Suc (insertion_offset f + i) | Right \<Rightarrow> insertion_offset f + i)"
    using o e(2) by (cases b) (auto simp: anchored_def i_def)
  ultimately show ?thesis unfolding f(3) unit_anchor_def by (simp only: fst_conv snd_conv)
qed

lemma unit_spec:
  assumes C: "to_list (fragments s) = map fst C" and j: "j < length (vis_units C)" "k = (case b of Left \<Rightarrow> Suc j | Right \<Rightarrow> j)"
  shows "anchor_spec s k b (unit_anchor (vis_units C ! j) b (remote_id s))"
proof -
  have "j < visible_len (map fst C)" using j(1) vis_units_len by simp
  then obtain fs f gs where f: "map fst C = fs @ f # gs" "offset_in j Right fs f"
    using offset_in_ex[where b = Right and offset = j and fs = "map fst C"] by auto
  obtain us e vs where e: "C = us @ e # vs" "fs = map fst us" "f = fst e"
    using f(1) by (auto simp: map_eq_append_conv map_eq_Cons_conv)
  note o = offset_in_anchored[OF f(2)[unfolded e(2)]]
  define i where "i = j - visible_len fs"
  have "vis_units C ! j = (fr_timestamp f, insertion_offset f + i)"
    using vis_units_split(2)[OF e(1) _ vis_units_len, of i] o e by (simp add: i_def)
  moreover have off: "insertion_offset f + (k - visible_len fs) = (case b of Left \<Rightarrow> Suc (insertion_offset f + i) | Right \<Rightarrow> insertion_offset f + i)"
    using o(3) e(2) j(2) by (cases b) (auto simp: i_def)
  ultimately have "unit_anchor (vis_units C ! j) b (remote_id s) = anchor_new (fr_timestamp f) (insertion_offset f + (k - visible_len fs)) b (remote_id s)"
    unfolding unit_anchor_def by (simp only: fst_conv snd_conv)
  moreover have "offset_in k b fs f" using f(2) j(2) by (auto simp: offset_in_def split: bias.splits)
  ultimately show ?thesis unfolding anchor_spec_def C using f(1) by blast
qed

lemma old_to_new_kept:
  assumes "patch_between p a b" "edits_separated p" "j < length a" "\<forall>e\<in>set p. \<not> (ostart e \<le> j \<and> j < oend e)"
  shows "old_to_new p j < length b" "b ! old_to_new p j = a ! j"
proof -
  have "old_to_new p j < length b \<and> b ! old_to_new p j = a ! j"
    using assms(1,2) less_imp_le[OF assms(3)]
  proof (cases rule: position_cases)
    case first
    then show ?thesis using agree_nth[OF first(4)[OF assms(3)], of j] agree_bounds[OF first(4)[OF assms(3)]] by (simp add: old_to_new_def)
  next
    case (inside us e vs)
    then show ?thesis using assms(4) by auto
  next
    case (after us e vs)
    obtain d where d: "j = oend e + d" using after(3) le_Suc_ex by blast
    have "old_to_new p j = nend e + d" using after(1-3) d by (simp add: old_to_new_def vec_get_def)
    moreover have "agree a b (oend e) (nend e) (Suc d)" using after(6)[OF assms(3)] d by simp
    ultimately show ?thesis using agree_nth[of a b "oend e" "nend e" "Suc d" d] agree_bounds[of a b "oend e" "nend e" "Suc d"] d by simp
  qed
  then show "old_to_new p j < length b" "b ! old_to_new p j = a ! j" by auto
qed

subsection \<open>The property\<close>

text \<open>
  C40: Anchors stay with their text. Take an anchor at a character boundary of a snapshot, attached by its bias to the byte
  before or after it, and apply a list of local edits none of which removes that byte. In the new snapshot, whose fragments
  may have been split and moved apart, the anchor resolves to the place to which the patch of the edit translates the
  byte. The patch relates the old text to the new one and replaces exactly what the edits removed.
\<close>

theorem anchor_survives_edit:
  assumes "snapshot_rep sn C" "snapshot_fits sn" "fresh_stamp t C" "vis_text C = seg_old gs @ w" "seg_ok gs"
    and "vis_text C = xs @ zs" "case b of Left \<Rightarrow> xs \<noteq> [] | Right \<Rightarrow> zs \<noteq> []" "anchor_at_offset sn (bytes_of xs) b = Some a"
    and "anchored (bytes_of xs) b \<notin> removed_at (seg_edits 0 gs)"
  shows "\<exists>sn' op p. apply_edit_internal (seg_edits 0 gs) t sn = Some (sn', op, p) \<and>
    offset_for_anchor sn' a = Some (case b of Left \<Rightarrow> Suc (old_to_new p (bytes_of xs - 1)) | Right \<Rightarrow> old_to_new p (bytes_of xs)) \<and>
    patch_between p (str_of (xs @ zs)) (str_of (seg_new gs @ w)) \<and> covered p = removed_at (seg_edits 0 gs)"
proof -
  let ?j = "anchored (bytes_of xs) b"
  obtain sn' op p C' where r: "apply_edit_internal (seg_edits 0 gs) t sn = Some (sn', op, p)" "snapshot_rep sn' C'" "vis_text C' = seg_new gs @ w"
      "patch_between p (str_of (vis_text C)) (str_of (vis_text C'))" "edits_separated p" "covered p = removed_at (seg_edits 0 gs)"
      "patch_between p (vis_units C) (vis_units C')" "remote_id sn' = remote_id sn"
    using apply_edit_at[OF assms(1-5)] by (elim exE conjE) (rule that; assumption)
  have C: "to_list (fragments sn) = map fst C" "content_ok C" "rope_text (visible_text sn) (xs @ zs)" "to_list (fragments sn') = map fst C'"
    using assms(1,6) r(2) by (simp_all add: snapshot_rep_def)
  have pos: "b = Left \<Longrightarrow> 0 < bytes_of xs" "b = Right \<Longrightarrow> 0 < bytes_of zs" using assms(7) bytes_pos by auto
  have len: "length (vis_units C) = bytes_of xs + bytes_of zs" using length_vis_units[OF C(2)] assms(6) by simp
  have j: "?j < length (vis_units C)"
  proof (cases b)
    case Left
    show ?thesis using pos(1)[OF Left] unfolding len anchored_def Left bias.case by linarith
  next
    case Right
    show ?thesis using pos(2)[OF Right] unfolding len anchored_def Right bias.case by linarith
  qed
  have "anchor_spec sn (bytes_of xs) b a" using anchor_at_offset_spec[OF snapshot_rep_ok[OF assms(1)] C(3), of b] assms(8) by auto
  then have a: "a = unit_anchor (vis_units C ! ?j) b (remote_id sn)" by (rule spec_unit[OF _ C(1) j pos(1)])
  have "\<forall>e\<in>set p. \<not> (ostart e \<le> ?j \<and> ?j < oend e)" using assms(9) unfolding r(6)[symmetric] covered_def by auto
  note kept = old_to_new_kept[OF r(7,5) j this]
  have "anchor_spec sn' (case b of Left \<Rightarrow> Suc (old_to_new p ?j) | Right \<Rightarrow> old_to_new p ?j) b (unit_anchor (vis_units C' ! old_to_new p ?j) b (remote_id sn'))"
    by (rule unit_spec[OF C(4) kept(1) refl])
  then have "offset_for_anchor sn' a = Some (case b of Left \<Rightarrow> Suc (old_to_new p ?j) | Right \<Rightarrow> old_to_new p ?j)"
    unfolding a kept(2) r(8) by (rule anchor_spec_offset[OF snapshot_rep_ok[OF r(2)]])
  then have "offset_for_anchor sn' a = Some (case b of Left \<Rightarrow> Suc (old_to_new p (bytes_of xs - 1)) | Right \<Rightarrow> old_to_new p (bytes_of xs))"
    by (cases b) (simp_all add: anchored_def)
  then show ?thesis using r(1,3,4,6) assms(6) by (intro exI[of _ sn'] exI[of _ op] exI[of _ p]) simp
qed

lemma anchor_survives_edit_witness:
  "\<exists>r b a sn op p. rope_from (str_of [0x68, 0x69]) = Some r \<and> buffer_new_normalized 3 7 Unix r = Some b \<and>
     anchor_at_offset (snap b) 1 Right = Some a \<and>
     apply_edit_internal [(0, 1, str_of [0x6F, 0x79])] (Lamport 2 3) (snap b) = Some (sn, op, p) \<and> offset_for_anchor sn a = Some (old_to_new p 1)"
proof -
  obtain r b where b: "rope_from (str_of [0x68, 0x69]) = Some r" "buffer_new_normalized 3 7 Unix r = Some b"
      "snapshot_rep (snap b) [(base_fragment (lamport_new LOCAL) 2, [0x68, 0x69])]" "snapshot_fits (snap b)"
    by (rule small_snapshot)
  let ?gs = "[([], [0x68], [0x6F, 0x79])] :: segment_edit list"
  have gs: "vis_text [(base_fragment (lamport_new LOCAL) 2, [0x68, 0x69])] = seg_old ?gs @ [0x69]" "seg_ok ?gs"
    by (simp_all add: base_fragment_def seg_ok_def seg_texts_def is_scalar_def len_utf8_def)
  have split: "vis_text [(base_fragment (lamport_new LOCAL) 2, [0x68, 0x69])] = [0x68] @ [0x69]" by (simp add: base_fragment_def)
  have edits: "seg_edits 0 ?gs = [(0, 1, str_of [0x6F, 0x79])]" "bytes_of [0x68] = 1" by (simp_all add: len_utf8_def)
  have vis: "rope_text (visible_text (snap b)) ([0x68] @ [0x69])" using b(3) split by (simp add: snapshot_rep_def)
  obtain a where a: "anchor_at_offset (snap b) (bytes_of [0x68]) Right = Some a"
    by (rule anchor_at_offset_spec[OF snapshot_rep_ok[OF b(3)] vis, of Right])
  have "anchored (bytes_of [0x68]) Right \<notin> removed_at (seg_edits 0 ?gs)" unfolding edits by (simp add: anchored_def removed_at_def)
  from anchor_survives_edit[OF b(3,4) small_fresh gs split _ a this] a show ?thesis unfolding edits using b(1,2) by auto
qed

end
