(* ===== verification/Spec2Isabelle.thy ===== *)
theory Spec2Isabelle
  imports Prelude Clock Locator SumTree SumTree_Seq SumTree_Find Cursor Cursor_Correct Cursor_Step Cursor_Back
    Keyed TreeMap Iteration TreeMap_Correct TreeMap_Props Cursor_Props Patch Patch_Correct Subscription
    UndoMap UndoMap_Correct History History_Props Utf8 Bitmap Select_Bit Rope_Point TextSummary Chunk Chunk_Correct Chunk_Convert
    Rope Rope_Correct Rope_Convert Rope_Slice Rope_Props
    Rope_Iter Rope_Iter_Correct Rope_Compare Rope_Lines Rope_Bytes
    OperationQueue Fragment Buffer Anchor Selection Buffer_Ops Fragment_Correct Anchor_Correct Buffer_Correct Buffer_Causal
    Line_Endings RopeBuilder Edit_State Edit_Steps Edit_Walk Edit_Local Edit_Insert Edit_Delete Edit_Correct Edit_Finish Edit_Props Anchor_Edit
begin

text \<open>
  A verification library for the text core of the Zagent editor (a fork of Zed).

  \<^bold>\<open>The program.\<close> The editor stores a document as a replicated sequence of fragments. The layers this
  library models are, from the bottom: \<^verbatim>\<open>crates/clock\<close> (Lamport timestamps and version vectors that
  order operations across replicas), \<^verbatim>\<open>crates/sum_tree\<close> (a B+ tree whose nodes cache a summary of their
  items, cursors over it that seek by any dimension of the summary, and ordered maps and sets on top),
  and from \<^verbatim>\<open>crates/text\<close> the identifiers of fragments (\<^verbatim>\<open>locator.rs\<close>), patches between two versions of a
  text (\<^verbatim>\<open>patch.rs\<close>) with the topics that publish them (\<^verbatim>\<open>subscription.rs\<close>), the counts of undone edits
  (\<^verbatim>\<open>undo_map.rs\<close>) and the undo history (\<open>History\<close> in \<^verbatim>\<open>text.rs\<close>). \<^verbatim>\<open>crates/rope\<close> stores the text itself, as
  chunks of up to 128 bytes with bitmaps, summarised in a sum tree. On top of these the buffer of \<^verbatim>\<open>text.rs\<close> keeps the
  fragments, applies local and remote edits and undo operations, defers operations that arrive early
  (\<^verbatim>\<open>operation_queue.rs\<close>), and resolves anchors (\<^verbatim>\<open>anchor.rs\<close>) and selections (\<^verbatim>\<open>selection.rs\<close>).

  \<^bold>\<open>Conventions.\<close> A Rust expression that may panic returns an \<open>option\<close>, \<open>None\<close> for the panic; where the
  source itself returns an \<open>Option\<close> the panic layer is the outer one. Methods on \<open>&mut self\<close> return the
  changed value. Integers whose width matters are words (sequence numbers, replica ids, locator
  digits, undo counts); lengths and offsets of type \<open>usize\<close> are natural numbers, and a subtraction on
  them that would underflow is a panic. Traits that are parameters of generic code (\<open>Item\<close>, \<open>Summary\<close>,
  \<open>Dimension\<close>, \<open>SeekAggregate\<close>) are records of functions; what the code relies on of them are the
  locales below. Sharing through \<open>Arc\<close> is not observable in the tree operations and is left out; where
  it is (the patches of subscribers) there is an explicit store. A \<open>str\<close> is a list of bytes; a text is the
  list of its characters and \<open>str_of\<close> its encoding. Rows and columns are natural numbers, which are the
  \<open>u32\<close> of the code for texts below 4 GiB. \<open>debug_panic!\<close> and the checks of character boundaries in chunks log and go on,
  as in a release build. Arithmetic is that of a build with overflow checks: a subtraction below zero, a shift by the
  width of a word and an overflow of the \<open>u32\<close> offset in an insertion are panics (without the checks they wrap), and the
  assertions on new patches are checked. The selection of bits in a word and the sequence numbers of clocks are computed
  modulo the width.

  \<^bold>\<open>Theories.\<close>
  \<^item> \<open>Prelude\<close>: orderings, vectors, checked subtraction and their lemmas.
  \<^item> \<open>Clock\<close> (\<^verbatim>\<open>clock.rs\<close>): timestamps, their order and packed form, and version vectors. Every operation
    keeps vectors canonical, \<open>observed_all\<close> is the pointwise order, \<open>join\<close> is the least upper bound (locale
    \<open>version_vector\<close>, interpreted on \<open>Global\<close>), \<open>meet\<close> and \<open>from_iter\<close> are characterised, and the clock
    advances exactly while its 32-bit counter does not wrap.
  \<^item> \<open>Locator\<close> (\<^verbatim>\<open>locator.rs\<close>): \<open>between\<close> is dense on identifiers that do not end in a zero digit (locale
    \<open>dense_ids\<close>), so runs of new identifiers are sorted; without the condition it leaves the gap.
  \<^item> \<open>SumTree\<close> (\<^verbatim>\<open>sum_tree.rs\<close>): nodes, construction from items, append in all its height cases, push,
    search and access to the ends. \<open>SumTree_Seq\<close> gives the well-formedness of a tree (uniform depth,
    capacity of nodes, no empty child, cached summaries) and, in the locale \<open>sum_laws\<close> of a summary that
    is a semigroup on valid values, shows that the operations keep it and act on the item sequence.
    \<open>SumTree_Find\<close> adds dimensions (locale \<open>dim_laws\<close>) and shows that the search is a linear scan.
  \<^item> \<open>Cursor\<close> (\<^verbatim>\<open>cursor.rs\<close> and the keyed operations of \<^verbatim>\<open>sum_tree.rs\<close>): cursors with their stack of at most
    16 entries, stepping, seeking with an aggregate, filtered cursors and iterators. \<open>Cursor_Correct\<close>
    relates a cursor to an index of the sequence and proves seeking for every lawful aggregate (locale
    \<open>seek_agg\<close>, extended by \<open>seek_laws\<close>; sublocales give plain seeks, slices and, in \<open>two_dims\<close>, summaries);
    \<open>Cursor_Step\<close> and \<open>Cursor_Back\<close> prove stepping in both directions under a filter, \<open>Iteration\<close> the
    iterators, \<open>Cursor_Props\<close> states the properties: seeking is searching, slices and suffixes split the
    sequence, any sequence of moves refines a machine over positions, iteration is complete.
  \<^item> \<open>Keyed\<close>: the keyed operations on a tree sorted by keys (locale \<open>keyed\<close>), as operations on sorted
    lists. \<open>TreeMap\<close> (\<^verbatim>\<open>tree_map.rs\<close>), \<open>TreeMap_Correct\<close> and \<open>TreeMap_Props\<close>: maps and sets implement a
    finite map (locale \<open>map_impl\<close>, interpreted on \<open>TreeMap\<close>).
  \<^item> \<open>Patch\<close> and \<open>Patch_Correct\<close> (\<^verbatim>\<open>patch.rs\<close>): a patch relates two texts that agree outside its edits;
    composition never underflows and composes these relations, positions are translated accordingly.
  \<^item> \<open>Subscription\<close> (\<^verbatim>\<open>subscription.rs\<close>): topics and subscribers as a step relation over all interleavings;
    what a subscriber consumes leads from the text it last saw to the current one.
  \<^item> \<open>UndoMap\<close> and \<open>UndoMap_Correct\<close> (\<^verbatim>\<open>undo_map.rs\<close>): the count of an edit is a maximum over undo
    operations, which therefore commute; the next count toggles an edit. They are a client of \<open>keyed\<close>.
  \<^item> \<open>History\<close> and \<open>History_Props\<close> (\<open>History\<close> in \<^verbatim>\<open>text.rs\<close>): the transaction stacks as a state machine that
    panics exactly on a wrong nesting depth, undo and redo as inverse moves, grouping and merging of
    transactions and the edits they keep. The recorded operations are a \<open>TreeMap\<close>.
  \<^item> \<open>Utf8\<close> (the language's \<open>char\<close> and \<open>str\<close>, and \<open>is_utf8_char_boundary\<close> of \<^verbatim>\<open>util.rs\<close>): encoding and character
    boundaries. \<open>Bitmap\<close> and \<open>Select_Bit\<close>: words as maps of positions, and the branch-free search for the
    n-th set bit (\<open>nth_set_bit\<close> in \<^verbatim>\<open>chunk.rs\<close>), which is the position of the n-th mark.
  \<^item> \<open>Rope_Point\<close> (\<^verbatim>\<open>point.rs\<close>, \<^verbatim>\<open>point_utf16.rs\<close>, \<^verbatim>\<open>offset_utf16.rs\<close>): positions and their arithmetic. \<open>TextSummary\<close>
    (\<^verbatim>\<open>rope.rs\<close>): the summary of a text, and that summaries add up as texts are concatenated.
  \<^item> \<open>Chunk\<close> (\<^verbatim>\<open>chunk.rs\<close>): chunks and slices of chunks. \<open>Chunk_Correct\<close> relates a chunk to the text it represents
    and proves construction, joining, splitting and the summary from bitmaps; \<open>Chunk_Convert\<close> the conversions
    between byte, UTF-16 and row/column positions. The segmentation into graphemes is a parameter.
  \<^item> \<open>Rope\<close> (\<^verbatim>\<open>rope.rs\<close>): the tree of chunks, the operations that add, slice and replace text, the conversions, clipping
    and the cursor with the dimensions it can sum. \<open>Rope_Correct\<close> says which text a rope represents and when its
    chunks are well filled, relates the dimensions of summaries to measures of texts (locale \<open>text_measure\<close>, a
    sublocale of \<open>dim_laws\<close>, interpreted on all dimensions) and proves the operations that add text. \<open>Rope_Convert\<close>
    finds the chunk of a position (locale \<open>text_seek\<close>) and proves the conversions and character boundaries;
    \<open>Rope_Slice\<close> the cursor, slices, replacement and, in the locale \<open>text_dim_laws\<close>, summaries of ranges; \<open>Rope_Props\<close>
    states the properties. Slices and replacement walk through trees they have just built; the theorems ask
    that these are lower than 16 levels (\<open>slice_low\<close>, \<open>replace_low\<close>).
  \<^item> \<open>Rope_Iter\<close> (\<open>Chunks\<close>, \<open>Bytes\<close> and \<open>Lines\<close> in \<^verbatim>\<open>rope.rs\<close>): the iterators over a range of a rope and the comparisons with a
    string. \<open>Rope_Iter_Correct\<close> relates an iterator to the rest of the text it has to yield, in both directions;
    \<open>Rope_Compare\<close> shows that UTF-8 is prefix-free and with it that piecewise comparison is comparison;
    \<open>Rope_Lines\<close> proves seeking and the lines, \<open>Rope_Bytes\<close> the byte slices and reading, for arbitrary offsets.

  \<^item> \<open>OperationQueue\<close> (\<^verbatim>\<open>operation_queue.rs\<close>): the queue of deferred operations, another client of \<open>keyed\<close>.
  \<^item> \<open>Fragment\<close> (\<open>Fragment\<close>, \<open>FragmentSummary\<close>, \<open>InsertionFragment\<close>, \<open>InsertionSlice\<close> and the dimensions over them in \<^verbatim>\<open>text.rs\<close>):
    fragments, their summaries and visibility, the index from insertions to fragments. \<open>Buffer\<close> (\<open>RopeBuilder\<close>,
    \<open>FragmentBuilder\<close>, \<open>apply_edit_internal\<close>, \<open>apply_remote_edit\<close>, \<open>fragment_ids_for_edits\<close>, \<open>apply_undo\<close>): the walks over the
    old fragments that build the new tree, the new ropes and the patch. \<open>Buffer_Ops\<close> (\<open>Buffer\<close>): construction, the
    application and deferral of operations, local edits in transactions, undo and redo.
  \<^item> \<open>Anchor\<close> (\<^verbatim>\<open>anchor.rs\<close> and the resolution of anchors in \<^verbatim>\<open>text.rs\<close>) and \<open>Selection\<close> (\<^verbatim>\<open>selection.rs\<close>): positions that
    stay with their text; setting an end of a selection keeps the other end and their order.
  \<^item> \<open>Fragment_Correct\<close>: fragment summaries obey \<open>sum_laws\<close> and their dimensions \<open>dim_laws\<close> (the versioned offset of remote
    edits does not: it is a partial measure), the index of insertions is \<open>keyed\<close>, and the builder yields the
    fragments pushed into it. \<open>Anchor_Correct\<close> states the invariant of a snapshot (\<open>snapshot_ok\<close>) and follows an anchor
    through the index and the tree. \<open>Buffer_Correct\<close>: a new buffer keeps the invariant; anchors lead back to where they
    were taken and compare as positions. \<open>Buffer_Causal\<close>: taking in a batch of operations consists of two passes of an
    abstract delivery (\<open>delivers\<close>); operations are applied in causal order, none is lost, and what waits lacks a
    dependency or is behind an operation of its replica that does.
  \<^item> Local edits (\<open>apply_edit_internal\<close>): \<open>Line_Endings\<close> lifts the normalisation of line endings to characters;
    \<open>RopeBuilder\<close> shows what the builder of ropes moves. \<open>Edit_State\<close> gives a snapshot its content, the fragments with their
    texts (\<open>snapshot_rep\<close>, which implies \<open>snapshot_ok\<close>), and the relation \<open>edit_at\<close> between the local variables of the walk
    and the texts it has passed and built. \<open>Edit_Steps\<close> and \<open>Edit_Walk\<close> show that pushing a part of a fragment, passing to
    the next one and taking over whole fragments keep the relation; \<open>Edit_Local\<close>, \<open>Edit_Insert\<close> and \<open>Edit_Delete\<close> do so
    for the parts of the loop, \<open>Edit_Correct\<close> for the loop, \<open>Edit_Finish\<close> for the start and the end. \<open>Edit_Props\<close> states the
    property: the edit changes the visible text as asked, loses none of the old text, and reports a patch that replaces
    exactly what was removed. \<open>Anchor_Edit\<close> follows an anchor across the edit: while its byte is not removed, the anchor
    resolves in the new snapshot to the place to which the patch translates the byte, wherever its fragment was split.
    The condition \<open>snapshot_fits\<close> asks that the trees and the slices of the ropes are lower than 16 levels.

  \<^bold>\<open>Bounds.\<close> A tree node holds at most 12 entries and a cursor's stack at most 16; the theorems about
  cursors ask for a tree lower than 16 levels, which with at least 6 children per full node is beyond
  any tree in memory. Recursion terminates by the height of the tree or the length of a list; the loops
  of the cursors are partial functions, and the theorems show that they return.

  \<^bold>\<open>Not modelled.\<close> The order assertions in the summary addition of the operation queue (the addition is total, so
  that the theorems on received operations are about calls that return), the iteration over the edits since a version, the futures that
  wait for edits, versions or anchors, the iterators over the characters of a rope, and everything above the text
  core: the user interface framework, editor, workspace, project, language servers, git and agent. Overflow of
  \<open>usize\<close> additions is not modelled. \<open>sort_unstable_by_key\<close> is a stable sort in the model; the theorems that use it
  have distinct keys, for which the result is the same, or do not depend on which of two equal keys comes first. In the undo history, time is a natural number of
  nanoseconds and the group interval is that of a release build.
\<close>

end
